(* ===== verification/Borg_Prelude.thy ===== *)
theory Borg_Prelude
  imports Main "HOL-Library.Word" "HOL-Library.AList" "HOL-Library.List_Lexorder" "HOL-Library.Char_ord"
begin

unbundle bit_operations_syntax

text \<open>
  Shared ground of the development: the machine integers of the source, the model of
  Rust's \<^verbatim>\<open>HashMap\<close> (an association list: insertion replaces, iteration order is the
  list's and no theorem rests on it), byte-level string helpers of the standard library
  that the source calls, orders given by an injective key (Rust's derived \<^verbatim>\<open>Ord\<close>), and the
  named theorem collections that the component proofs use.
\<close>

named_theorems text_simps \<open>facts about the text forms\<close>
named_theorems store_simps \<open>frame and lookup facts of the storage operations\<close>
named_theorems log_simps \<open>frame facts of the layer manager's operations\<close>

type_synonym u8 = "8 word"
type_synonym u32 = "32 word"
type_synonym u64 = "64 word"

section \<open>Hash maps\<close>

type_synonym ('k, 'v) hmap = "('k \<times> 'v) list"

abbreviation hm_get :: "('k, 'v) hmap \<Rightarrow> 'k \<Rightarrow> 'v option" where
  "hm_get \<equiv> map_of"

abbreviation hm_insert :: "'k \<Rightarrow> 'v \<Rightarrow> ('k, 'v) hmap \<Rightarrow> ('k, 'v) hmap" where
  "hm_insert \<equiv> AList.update"

abbreviation hm_remove :: "'k \<Rightarrow> ('k, 'v) hmap \<Rightarrow> ('k, 'v) hmap" where
  "hm_remove \<equiv> AList.delete"

definition hm_get_or :: "'v \<Rightarrow> ('k, 'v) hmap \<Rightarrow> 'k \<Rightarrow> 'v" where
  "hm_get_or d m k = (case hm_get m k of None \<Rightarrow> d | Some v \<Rightarrow> v)"

text \<open>Rust's \<^verbatim>\<open>entry(k).or_insert(d)\<close> followed by a mutation \<open>f\<close> of the entry.\<close>

definition hm_modify :: "'k \<Rightarrow> 'v \<Rightarrow> ('v \<Rightarrow> 'v) \<Rightarrow> ('k, 'v) hmap \<Rightarrow> ('k, 'v) hmap" where
  "hm_modify k d f m = hm_insert k (f (hm_get_or d m k)) m"

lemma hm_get_insert [simp]: "hm_get (hm_insert k v m) = (hm_get m)(k \<mapsto> v)"
  by (rule update_conv')

lemma hm_get_remove [simp]: "hm_get (hm_remove k m) = (hm_get m)(k := None)"
  by (rule delete_conv')

lemma hm_get_or_Nil [simp]: "hm_get_or d [] k = d"
  by (simp add: hm_get_or_def)

lemma hm_get_or_Some [simp]: "hm_get m k = Some v \<Longrightarrow> hm_get_or d m k = v"
  by (simp add: hm_get_or_def)

lemma hm_get_or_None [simp]: "hm_get m k = None \<Longrightarrow> hm_get_or d m k = d"
  by (simp add: hm_get_or_def)

lemma hm_get_modify:
  "hm_get (hm_modify k d f m) k' =
     (if k' = k then Some (f (hm_get_or d m k)) else hm_get m k')"
  by (simp add: hm_modify_def)

lemma hm_get_or_modify [simp]:
  "hm_get_or d (hm_modify k d f m) k' = (if k' = k then f (hm_get_or d m k) else hm_get_or d m k')"
  by (simp add: hm_get_or_def hm_modify_def)

lemma hm_get_or_insert [simp]:
  "hm_get_or d (hm_insert k v m) k' = (if k' = k then v else hm_get_or d m k')"
  by (simp add: hm_get_or_def)

lemma hm_keys_insert [simp]: "fst ` set (hm_insert k v m) = insert k (fst ` set m)"
  by (simp add: dom_update)

lemma hm_keys_remove [simp]: "fst ` set (hm_remove k m) = fst ` set m - {k}"
  by (induction m) auto

lemma hm_keys_modify [simp]: "fst ` set (hm_modify k d f m) = insert k (fst ` set m)"
  by (simp add: hm_modify_def)

lemma hm_distinct_insert [intro]:
  "distinct (map fst m) \<Longrightarrow> distinct (map fst (hm_insert k v m))"
  by (rule distinct_update)

lemma hm_distinct_remove [intro]:
  "distinct (map fst m) \<Longrightarrow> distinct (map fst (hm_remove k m))"
  by (rule distinct_delete)

lemma hm_distinct_modify [intro]:
  "distinct (map fst m) \<Longrightarrow> distinct (map fst (hm_modify k d f m))"
  by (simp add: hm_modify_def distinct_update)

lemma hm_get_eq_Some_iff:
  "distinct (map fst m) \<Longrightarrow> hm_get m k = Some v \<longleftrightarrow> (k, v) \<in> set m"
  by (auto dest: map_of_SomeD intro: map_of_is_SomeI)

section \<open>Ordered maps\<close>

text \<open>\<^verbatim>\<open>BTreeMap\<close>: an association list in key order, so that iteration is the list's.\<close>

type_synonym ('k, 'v) btmap = "('k \<times> 'v) list"

fun bt_insert :: "'k :: linorder \<Rightarrow> 'v \<Rightarrow> ('k, 'v) btmap \<Rightarrow> ('k, 'v) btmap" where
  "bt_insert k v [] = [(k, v)]"
| "bt_insert k v ((k', v') # m) =
     (if k < k' then (k, v) # (k', v') # m
      else if k = k' then (k, v) # m
      else (k', v') # bt_insert k v m)"

definition bt_ok :: "('k :: linorder, 'v) btmap \<Rightarrow> bool" where
  "bt_ok m \<longleftrightarrow> sorted_wrt (<) (map fst m)"

lemma bt_get_insert [simp]: "map_of (bt_insert k v m) = (map_of m)(k \<mapsto> v)"
  by (induction m) (auto simp: fun_eq_iff)

lemma bt_keys_insert [simp]: "fst ` set (bt_insert k v m) = insert k (fst ` set m)"
  by (induction k v m rule: bt_insert.induct) (simp_all add: insert_commute)

lemma bt_ok_Nil [simp]: "bt_ok []"
  by (simp add: bt_ok_def)

lemma bt_ok_insert [intro]: "bt_ok m \<Longrightarrow> bt_ok (bt_insert k v m)"
proof (induction m)
  case (Cons e m)
  obtain k' v' where e: "e = (k', v')" by (cases e)
  have keys: "set (map fst (bt_insert k v m)) = insert k (set (map fst m))"
    by (metis bt_keys_insert set_map)
  from Cons have "bt_ok (bt_insert k v m)" by (simp add: bt_ok_def)
  with Cons.prems keys show ?case
    by (auto simp: bt_ok_def e)
qed (simp add: bt_ok_def)

lemma bt_ok_distinct: "bt_ok m \<Longrightarrow> distinct (map fst m)"
  by (auto simp: bt_ok_def strict_sorted_iff)

lemma bt_eqI: "bt_ok m \<Longrightarrow> bt_ok n \<Longrightarrow> map_of m = map_of n \<Longrightarrow> m = n"
proof (rule map_sorted_distinct_set_unique[where f = fst])
  assume ok: "bt_ok m" "bt_ok n" and eq: "map_of m = map_of n"
  have dist: "distinct (map fst m)" "distinct (map fst n)" using ok by (auto dest: bt_ok_distinct)
  then have "set m = set n" using eq by (metis map_of_inject_set)
  then show "set m = set n" .
  then show "inj_on fst (set m \<union> set n)" using dist by (simp add: distinct_map)
  show "sorted (map fst m)" "sorted (map fst n)" using ok by (auto simp: bt_ok_def strict_sorted_iff)
  show "distinct (map fst m)" "distinct (map fst n)" by fact+
qed

lemma bt_insert_commute:
  "bt_ok m \<Longrightarrow> k \<noteq> l \<Longrightarrow> bt_insert k v (bt_insert l w m) = bt_insert l w (bt_insert k v m)"
  by (rule bt_eqI) (auto simp: fun_eq_iff)

section \<open>Strings as bytes\<close>

text \<open>
  A \<^verbatim>\<open>&str\<close> is the list of its UTF-8 bytes, one \<open>char\<close> each. The source's character tests
  accept ASCII only, and no byte of a multi-byte character is ASCII, so testing bytes and
  testing characters agree.
\<close>

definition is_digit :: "char \<Rightarrow> bool" where
  "is_digit c \<longleftrightarrow> CHR ''0'' \<le> c \<and> c \<le> CHR ''9''"

definition digit_val :: "char \<Rightarrow> nat" where
  "digit_val c = of_char c - 48"

definition to_ascii_lowercase :: "char \<Rightarrow> char" where
  "to_ascii_lowercase c =
     (if CHR ''A'' \<le> c \<and> c \<le> CHR ''Z'' then char_of (of_char c + 32 :: nat) else c)"

definition split_once :: "char \<Rightarrow> string \<Rightarrow> (string \<times> string) option" where
  "split_once c s =
     (if c \<in> set s then Some (takeWhile (\<lambda>d. d \<noteq> c) s, tl (dropWhile (\<lambda>d. d \<noteq> c) s)) else None)"

lemma split_once_append [simp]:
  "c \<notin> set s \<Longrightarrow> split_once c (s @ c # t) = Some (s, t)"
  by (induction s) (auto simp: split_once_def)

lemma split_once_None [simp]: "c \<notin> set s \<Longrightarrow> split_once c s = None"
  by (simp add: split_once_def)

lemma split_once_Some:
  "split_once c s = Some (a, b) \<Longrightarrow> s = a @ c # b \<and> c \<notin> set a"
proof -
  assume h: "split_once c s = Some (a, b)"
  then obtain u v where s: "s = u @ c # v" "c \<notin> set u"
    by (auto simp: split_once_def dest: split_list_first split: if_splits)
  with h show ?thesis by simp
qed

text \<open>Decimal text of a natural number, as Rust's \<^verbatim>\<open>Display\<close> for integers writes it.\<close>

fun show_nat :: "nat \<Rightarrow> string" where
  "show_nat n =
     (if n < 10 then [char_of (n + 48)] else show_nat (n div 10) @ [char_of (n mod 10 + 48)])"

declare show_nat.simps [simp del]

definition digits_val :: "string \<Rightarrow> nat" where
  "digits_val s = foldl (\<lambda>v c. v * 10 + digit_val c) 0 s"

lemma digits_val_Nil [simp]: "digits_val [] = 0"
  by (simp add: digits_val_def)

lemma digits_val_snoc [simp]: "digits_val (s @ [c]) = digits_val s * 10 + digit_val c"
  by (simp add: digits_val_def)

text \<open>
  Rust's \<^verbatim>\<open>str::parse::<u64>\<close>: an optional \<open>+\<close>, at least one digit, digits only, and the value
  fits.
\<close>

definition parse_u64 :: "string \<Rightarrow> u64 option" where
  "parse_u64 s =
     (let ds = (case s of c # t \<Rightarrow> if c = CHR ''+'' then t else s | [] \<Rightarrow> s)
      in if ds \<noteq> [] \<and> list_all is_digit ds \<and> digits_val ds < 2 ^ 64
         then Some (of_nat (digits_val ds)) else None)"

lemma char_digit:
  assumes "n < 10"
  shows "is_digit (char_of (n + 48 :: nat))" and "digit_val (char_of (n + 48)) = n"
proof -
  have "n + 48 < 256" using assms by simp
  then have v: "of_char (char_of (n + 48 :: nat)) = (n + 48 :: nat)"
    by (simp add: of_char_of)
  show "digit_val (char_of (n + 48)) = n"
    unfolding digit_val_def v by simp
  show "is_digit (char_of (n + 48 :: nat))"
    unfolding is_digit_def less_eq_char_def v using assms by simp
qed

lemma show_nat_nonempty [simp]: "show_nat n \<noteq> []"
  by (subst show_nat.simps) simp

lemma show_nat_digits [simp]: "list_all is_digit (show_nat n)"
proof (induction n rule: show_nat.induct)
  case (1 n)
  show ?case
  proof (cases "n < 10")
    case True
    then show ?thesis by (subst show_nat.simps) (simp add: char_digit)
  next
    case False
    with 1 have "list_all is_digit (show_nat (n div 10))" by simp
    with False show ?thesis by (subst show_nat.simps) (simp add: char_digit)
  qed
qed

lemma digits_val_show_nat [simp]: "digits_val (show_nat n) = n"
proof (induction n rule: show_nat.induct)
  case (1 n)
  show ?case
  proof (cases "n < 10")
    case True
    then show ?thesis
      using digits_val_snoc[of "[]"] by (subst show_nat.simps) (simp add: char_digit)
  next
    case False
    with 1 have "digits_val (show_nat (n div 10)) = n div 10" by simp
    with False show ?thesis by (subst show_nat.simps) (simp add: char_digit)
  qed
qed

lemma show_nat_not_plus: "show_nat n = c # t \<Longrightarrow> c \<noteq> CHR ''+''"
  using show_nat_digits[of n] by (auto simp: is_digit_def less_eq_char_def)

lemma parse_u64_show [simp]: "parse_u64 (show_nat (unat w)) = Some w"
proof -
  obtain c t where ct: "show_nat (unat w) = c # t"
    by (cases "show_nat (unat w)") auto
  moreover have "c \<noteq> CHR ''+''" using ct by (rule show_nat_not_plus)
  moreover have "digits_val (c # t) = unat w" and "list_all is_digit (c # t)"
    using digits_val_show_nat[of "unat w"] show_nat_digits[of "unat w"] by (simp_all add: ct)
  moreover have "unat w < 2 ^ 64" using unsigned_less[of w] by simp
  ultimately show ?thesis by (simp add: parse_u64_def)
qed

lemma show_nat_no: "\<not> is_digit c \<Longrightarrow> c \<notin> set (show_nat n)"
  using show_nat_digits[of n] by (auto simp: list_all_iff)

section \<open>Orders given by a key\<close>

text \<open>
  Rust's derived \<^verbatim>\<open>Ord\<close> compares constructors in declaration order and then fields from left
  to right. Every such order of the model is the lexicographic order of a key: the
  constructor's index followed by the fields' keys, where a string is closed by a \<open>0\<close> below
  every byte so that a prefix comes first.
\<close>

definition str_key :: "string \<Rightarrow> nat list" where
  "str_key s = map (\<lambda>c. Suc (of_char c)) s @ [0]"

lemma str_key_append_inject [simp]:
  "str_key s @ r = str_key t @ q \<longleftrightarrow> s = t \<and> r = q"
proof (induction s arbitrary: t)
  case Nil
  then show ?case by (cases t) (auto simp: str_key_def)
next
  case (Cons c s)
  show ?case
  proof (cases t)
    case Nil
    then show ?thesis by (simp add: str_key_def)
  next
    case (Cons d u)
    then show ?thesis using Cons.IH[of u] by (auto simp: str_key_def)
  qed
qed

lemma str_key_inject [simp]: "str_key s = str_key t \<longleftrightarrow> s = t"
  using str_key_append_inject[of s "[]" t "[]"] by simp

text \<open>
  An order that a key induces: the interface of the instances below, and the place where the
  laws that the class \<open>linorder\<close> asks for are proved once.
\<close>

locale ordered_by_key =
  fixes key :: "'a \<Rightarrow> nat list"
    and le :: "'a \<Rightarrow> 'a \<Rightarrow> bool"
    and lt :: "'a \<Rightarrow> 'a \<Rightarrow> bool"
  assumes key_inj: "key a = key b \<Longrightarrow> a = b"
    and le_key: "le a b \<longleftrightarrow> key a \<le> key b"
    and lt_key: "lt a b \<longleftrightarrow> key a < key b"
begin

lemma lt_le_not: "lt a b \<longleftrightarrow> le a b \<and> \<not> le b a"
  by (auto simp: le_key lt_key)

lemma le_refl: "le a a"
  by (simp add: le_key)

lemma le_trans: "le a b \<Longrightarrow> le b c \<Longrightarrow> le a c"
  by (auto simp: le_key)

lemma le_antisym: "le a b \<Longrightarrow> le b a \<Longrightarrow> a = b"
  by (rule key_inj) (auto simp: le_key)

lemma le_total: "le a b \<or> le b a"
  by (auto simp: le_key)

end

section \<open>Lists\<close>

lemma fold_max_in:
  "fold max xs (m :: 'a :: linorder) = m \<or> fold max xs m \<in> set xs"
proof (induction xs arbitrary: m)
  case Nil
  then show ?case by simp
next
  case (Cons x xs)
  show ?case using Cons.IH[of "max x m"] by (auto simp: max_def split: if_splits)
qed

end
