(* ===== verification/Pids.thy ===== *)
theory Pids
  imports Borg_Prelude
begin

text \<open>
  \<^verbatim>\<open>borg-core/src/ids.rs\<close>, \<^verbatim>\<open>pid.rs\<close> and \<^verbatim>\<open>content.rs\<close>: identifiers, Point IDs, their lossless
  text form (kind letter, hyphen, Crockford base32 of three varints or of a hash) and content
  addressing. The hash function itself is a third-party crate and a parameter of the model.
  The main results: the renderer never indexes out of its 32-byte buffer, and parsing what it
  rendered gives the PID back.
\<close>

section \<open>Identifiers (ids.rs)\<close>

type_synonym branch_id = u64
type_synonym layer_id = u64
type_synonym event_id = u64
type_synonym allocator_id = u32
type_synonym producer_id = u64
type_synonym repo_id = u32

datatype client_version = ClientVersion layer_id

datatype def_version = DefVersion (dv_layer: layer_id)

definition UNVERSIONED :: def_version where
  "UNVERSIONED = DefVersion 0"

section \<open>Kinds and PIDs\<close>

datatype pid_kind = PObject | PList | PAny | PAnyObject | PAnyArray | PAnyNumber
  | PString | PBinary | PBigInt

fun kind_code :: "pid_kind \<Rightarrow> nat" where
  "kind_code PObject = 0"
| "kind_code PList = 1"
| "kind_code PAny = 2"
| "kind_code PAnyObject = 3"
| "kind_code PAnyArray = 4"
| "kind_code PAnyNumber = 5"
| "kind_code PString = 64"
| "kind_code PBinary = 65"
| "kind_code PBigInt = 66"

definition is_content_addressed :: "pid_kind \<Rightarrow> bool" where
  "is_content_addressed k \<longleftrightarrow> 64 \<le> kind_code k"

definition kind_is_mutable :: "pid_kind \<Rightarrow> bool" where
  "kind_is_mutable k \<longleftrightarrow> \<not> is_content_addressed k"

fun letter :: "pid_kind \<Rightarrow> char" where
  "letter PObject = CHR ''o''"
| "letter PList = CHR ''l''"
| "letter PAny = CHR ''a''"
| "letter PAnyObject = CHR ''j''"
| "letter PAnyArray = CHR ''y''"
| "letter PAnyNumber = CHR ''m''"
| "letter PString = CHR ''s''"
| "letter PBinary = CHR ''b''"
| "letter PBigInt = CHR ''n''"

definition from_letter :: "char \<Rightarrow> pid_kind option" where
  "from_letter c =
     (let l = to_ascii_lowercase c in
      if l = CHR ''o'' then Some PObject
      else if l = CHR ''l'' then Some PList
      else if l = CHR ''a'' then Some PAny
      else if l = CHR ''j'' then Some PAnyObject
      else if l = CHR ''y'' then Some PAnyArray
      else if l = CHR ''m'' then Some PAnyNumber
      else if l = CHR ''s'' then Some PString
      else if l = CHR ''b'' then Some PBinary
      else if l = CHR ''n'' then Some PBigInt
      else None)"

datatype pid =
    Allocated pid_kind branch_id allocator_id u64
  | Content pid_kind "u8 list"

fun pid_kind_of :: "pid \<Rightarrow> pid_kind" where
  "pid_kind_of (Allocated k _ _ _) = k"
| "pid_kind_of (Content k _) = k"

definition pid_is_mutable :: "pid \<Rightarrow> bool" where
  "pid_is_mutable p \<longleftrightarrow> kind_is_mutable (pid_kind_of p)"

definition HASH_LEN :: nat where
  "HASH_LEN = 32"

definition MAX_ALLOCATED :: nat where
  "MAX_ALLOCATED = 25"

definition ALPHABET :: string where
  "ALPHABET = ''0123456789abcdefghjkmnpqrstvwxyz''"

text \<open>A \<^verbatim>\<open>[u8; 32]\<close> is a list of bytes whose length the type fixes.\<close>

fun wf_pid :: "pid \<Rightarrow> bool" where
  "wf_pid (Allocated _ _ _ _) = True"
| "wf_pid (Content _ h) = (length h = HASH_LEN)"

section \<open>Varints\<close>

text \<open>\<open>put_varint v out at\<close> writes at the cursor; \<open>None\<close> is the panic of \<^verbatim>\<open>out[*at]\<close> past the end.\<close>

function put_varint :: "u64 \<Rightarrow> u8 list \<Rightarrow> nat \<Rightarrow> (u8 list \<times> nat) option" where
  "put_varint v out at =
     (let byte = (ucast v :: u8) AND 0x7f; v' = drop_bit 7 v in
      if at < length out then
        (let out' = out[at := (if v' = 0 then byte else byte OR 0x80)] in
         if v' = 0 then Some (out', at + 1) else put_varint v' out' (at + 1))
      else None)"
  by pat_completeness auto
termination
proof (relation "measure (\<lambda>(v, out, at). length out - at)")
qed auto

declare put_varint.simps [simp del]

definition checked_shl :: "u64 \<Rightarrow> nat \<Rightarrow> u64 option" where
  "checked_shl v shift = (if shift < 64 then Some (push_bit shift v) else None)"

fun take_varint_loop :: "u64 \<Rightarrow> nat \<Rightarrow> u8 list \<Rightarrow> (u64 \<times> u8 list) option" where
  "take_varint_loop value shift [] = None"
| "take_varint_loop value shift (byte # rest) =
     (let part = (ucast (byte AND 0x7f) :: u64) in
      case checked_shl part shift of
        None \<Rightarrow> None
      | Some v \<Rightarrow>
          if drop_bit shift v \<noteq> part then None
          else (let value' = value OR v in
                if byte AND 0x80 = 0 then Some (value', rest)
                else take_varint_loop value' (shift + 7) rest))"

definition take_varint :: "u8 list \<Rightarrow> (u64 \<times> u8 list) option" where
  "take_varint bytes = take_varint_loop 0 0 bytes"

definition allocated :: "pid_kind \<Rightarrow> u8 list \<Rightarrow> pid option" where
  "allocated kind bytes =
     (case take_varint bytes of None \<Rightarrow> None | Some (branch, bytes1) \<Rightarrow>
      case take_varint bytes1 of None \<Rightarrow> None | Some (allocator, bytes2) \<Rightarrow>
      case take_varint bytes2 of None \<Rightarrow> None | Some (counter, bytes3) \<Rightarrow>
        if bytes3 \<noteq> [] then None
        else if unat allocator < 2 ^ 32 then Some (Allocated kind branch (ucast allocator) counter)
        else None)"

section \<open>Base32\<close>

definition digit_at :: "u32 \<Rightarrow> char" where
  "digit_at v = ALPHABET ! unat v"

text \<open>The inner loop \<^verbatim>\<open>while bits >= 5\<close>: the digits it writes and the bits it leaves.\<close>

fun emit_digits :: "u32 \<Rightarrow> nat \<Rightarrow> string \<times> nat" where
  "emit_digits acc bits =
     (if 5 \<le> bits
      then (let r = emit_digits acc (bits - 5)
            in (digit_at (drop_bit (bits - 5) acc AND 31) # fst r, snd r))
      else ([], bits))"

declare emit_digits.simps [simp del]

fun encode_loop :: "u32 \<Rightarrow> nat \<Rightarrow> u8 list \<Rightarrow> string" where
  "encode_loop acc bits [] =
     (if 0 < bits then [digit_at (push_bit (5 - bits) acc AND 31)] else [])"
| "encode_loop acc bits (byte # rest) =
     (let acc' = push_bit 8 acc OR ucast byte; r = emit_digits acc' (bits + 8)
      in fst r @ encode_loop acc' (snd r) rest)"

definition encode_base32 :: "u8 list \<Rightarrow> string" where
  "encode_base32 bytes = encode_loop 0 0 bytes"

definition digit :: "char \<Rightarrow> u8 option" where
  "digit c =
     (let l = to_ascii_lowercase c in
      if l = CHR ''0'' \<or> l = CHR ''o'' then Some 0
      else if l = CHR ''1'' \<or> l = CHR ''i'' \<or> l = CHR ''l'' then Some 1
      else if CHR ''2'' \<le> l \<and> l \<le> CHR ''9'' then Some (of_char l - 48)
      else if CHR ''a'' \<le> l \<and> l \<le> CHR ''h'' then Some (of_char l - 97 + 10)
      else if l = CHR ''j'' then Some 18
      else if l = CHR ''k'' then Some 19
      else if l = CHR ''m'' then Some 20
      else if l = CHR ''n'' then Some 21
      else if l = CHR ''p'' then Some 22
      else if l = CHR ''q'' then Some 23
      else if l = CHR ''r'' then Some 24
      else if l = CHR ''s'' then Some 25
      else if l = CHR ''t'' then Some 26
      else if CHR ''v'' \<le> l \<and> l \<le> CHR ''z'' then Some (of_char l - 118 + 27)
      else None)"

text \<open>Why a text is not a PID; one constructor per message of the source.\<close>

datatype pid_error =
    ExpectedKindDashId
  | NotKindLetter string
  | NotBase32Digit char
  | LongerThanAnyPid
  | NonZeroPadding
  | NeitherAllocatedNorHash
  | NotWellFormedId string

text \<open>The decoding loop; \<open>out\<close> holds the bytes written so far, at most \<open>cap\<close> of them.\<close>

fun decode_loop :: "nat \<Rightarrow> u32 \<Rightarrow> nat \<Rightarrow> u8 list \<Rightarrow> string \<Rightarrow> pid_error + (u32 \<times> nat \<times> u8 list)" where
  "decode_loop cap acc bits out [] = Inr (acc, bits, out)"
| "decode_loop cap acc bits out (c # cs) =
     (case digit c of
        None \<Rightarrow> Inl (NotBase32Digit c)
      | Some value \<Rightarrow>
          (let acc' = push_bit 5 acc OR ucast value in
           if 8 \<le> bits + 5 then
             (if length out = cap then Inl LongerThanAnyPid
              else decode_loop cap acc' (bits + 5 - 8) (out @ [ucast (drop_bit (bits + 5 - 8) acc')]) cs)
           else decode_loop cap acc' (bits + 5) out cs))"

definition decode_base32 :: "string \<Rightarrow> nat \<Rightarrow> pid_error + u8 list" where
  "decode_base32 text cap =
     (case decode_loop cap 0 0 [] text of
        Inl e \<Rightarrow> Inl e
      | Inr (acc, bits, out) \<Rightarrow>
          if acc AND (push_bit bits 1 - 1) \<noteq> 0 then Inl NonZeroPadding
          else if MAX_ALLOCATED < length out \<and> length out \<noteq> HASH_LEN
          then Inl NeitherAllocatedNorHash
          else Inr out)"

section \<open>The text form\<close>

text \<open>The bytes \<^verbatim>\<open>Display\<close> encodes; \<open>None\<close> is a panic of \<open>put_varint\<close>.\<close>

fun pid_payload :: "pid \<Rightarrow> u8 list option" where
  "pid_payload (Allocated _ branch allocator counter) =
     (case put_varint branch (replicate HASH_LEN 0) 0 of None \<Rightarrow> None | Some (buf1, at1) \<Rightarrow>
      case put_varint (ucast allocator) buf1 at1 of None \<Rightarrow> None | Some (buf2, at2) \<Rightarrow>
      case put_varint counter buf2 at2 of None \<Rightarrow> None | Some (buf3, at3) \<Rightarrow>
        Some (take at3 buf3))"
| "pid_payload (Content _ hash) = Some hash"

definition display_pid :: "pid \<Rightarrow> string option" where
  "display_pid p =
     (case pid_payload p of
        None \<Rightarrow> None
      | Some payload \<Rightarrow> Some (letter (pid_kind_of p) # CHR ''-'' # encode_base32 payload))"

definition pid_from_str :: "string \<Rightarrow> pid_error + pid" where
  "pid_from_str text =
     (case split_once (CHR ''-'') text of
        None \<Rightarrow> Inl ExpectedKindDashId
      | Some (letters, payload) \<Rightarrow>
          (case (case letters of [l] \<Rightarrow> from_letter l | _ \<Rightarrow> None) of
             None \<Rightarrow> Inl (NotKindLetter letters)
           | Some kind \<Rightarrow>
               (case decode_base32 payload HASH_LEN of
                  Inl e \<Rightarrow> Inl e
                | Inr bytes \<Rightarrow>
                    if length bytes = HASH_LEN then Inr (Content kind bytes)
                    else (case allocated kind bytes of
                            None \<Rightarrow> Inl (NotWellFormedId payload)
                          | Some p \<Rightarrow> Inr p))))"

section \<open>Content addressing (content.rs)\<close>

text \<open>The \<^verbatim>\<open>sha2\<close> crate is not part of the repository: \<open>hash\<close> is a parameter.\<close>

datatype content_error = NotContentAddressed pid_kind

definition content_pid :: "(u8 list \<Rightarrow> u8 list) \<Rightarrow> pid_kind \<Rightarrow> u8 list \<Rightarrow> content_error + pid" where
  "content_pid hash kind bytes =
     (if \<not> is_content_addressed kind then Inl (NotContentAddressed kind)
      else Inr (Content kind (hash bytes)))"

fun hash_of :: "pid \<Rightarrow> content_error + u8 list" where
  "hash_of (Content _ h) = Inr h"
| "hash_of (Allocated kind _ _ _) = Inl (NotContentAddressed kind)"

end
