(* ===== verification/Pid_Text.thy ===== *)
theory Pid_Text
  imports Pids
begin

text \<open>
  Proofs about the text form of a PID. \<open>varint\<close> is the reference encoder of one number and
  \<open>bl n w\<close> the low \<open>n\<close> bits of a word, most significant first; base32 is then a statement
  about bit streams: the encoder writes the bytes' bits and fewer than five zeros, the decoder
  cuts the digits' bits into bytes. From these come the codec contract below and the
  properties of \<^verbatim>\<open>Display\<close> and \<^verbatim>\<open>FromStr\<close>.
\<close>

section \<open>Varints\<close>

function varint :: "u64 \<Rightarrow> u8 list" where
  "varint v =
     (if drop_bit 7 v = 0 then [ucast v AND 0x7f]
      else (ucast v AND 0x7f OR 0x80) # varint (drop_bit 7 v))"
  by pat_completeness auto

lemma unat_drop_bit_7: "unat (drop_bit 7 v :: u64) = unat v div 128"
  by (simp add: drop_bit_eq_div unat_div_distrib)

termination varint
proof (relation "measure unat")
  fix v :: u64
  assume "drop_bit 7 v \<noteq> 0"
  then have "unat v div 128 \<noteq> 0"
    using unat_drop_bit_7[of v] by (metis unsigned_eq_0_iff)
  then show "(drop_bit 7 v, v) \<in> measure unat"
    by (simp add: unat_drop_bit_7)
qed simp

declare varint.simps [simp del]

lemma varint_nonempty [simp]: "varint v \<noteq> []"
  by (subst varint.simps) simp

lemma length_varint: "0 < n \<Longrightarrow> unat v < 2 ^ (7 * n) \<Longrightarrow> length (varint v) \<le> n"
proof (induction v arbitrary: n rule: varint.induct)
  case (1 v)
  show ?case
  proof (cases "drop_bit 7 v = 0")
    case True
    then show ?thesis using 1 by (subst varint.simps) simp
  next
    case False
    obtain m where n: "n = Suc m" using 1 by (cases n) auto
    have "unat v div 128 \<noteq> 0"
      using False unat_drop_bit_7[of v] by (metis unsigned_eq_0_iff)
    then have m: "0 < m" using 1 n by (cases m) auto
    have "unat v div 128 < 2 ^ (7 * m)"
      using 1 n by (simp add: power_add less_mult_imp_div_less mult.commute)
    with False m 1 have "length (varint (drop_bit 7 v)) \<le> m"
      by (simp add: unat_drop_bit_7)
    with False n show ?thesis by (subst varint.simps) simp
  qed
qed

lemma unat_u64: "unat (v :: u64) < 18446744073709551616"
proof -
  have "(unsigned v :: nat) < 2 ^ LENGTH(64)" by (rule unsigned_less)
  then show ?thesis by simp
qed

lemma unat_u32: "unat (v :: u32) < 4294967296"
proof -
  have "(unsigned v :: nat) < 2 ^ LENGTH(32)" by (rule unsigned_less)
  then show ?thesis by simp
qed

lemma unat_u8: "unat (v :: u8) < 256"
proof -
  have "(unsigned v :: nat) < 2 ^ LENGTH(8)" by (rule unsigned_less)
  then show ?thesis by simp
qed

lemma length_varint_u64: "length (varint v) \<le> 10"
proof (rule length_varint)
  show "unat v < 2 ^ (7 * 10)" using unat_u64[of v] by simp
qed simp

lemma length_varint_u32: "length (varint (ucast (a :: u32))) \<le> 5"
proof (rule length_varint)
  show "unat (ucast a :: u64) < 2 ^ (7 * 5)" using unat_u32[of a] by (simp add: unsigned_ucast_eq take_bit_eq_mod)
qed simp

lemma put_varint_eq:
  "at + length (varint v) \<le> length out \<Longrightarrow>
   put_varint v out at =
     Some (take at out @ varint v @ drop (at + length (varint v)) out, at + length (varint v))"
proof (induction v arbitrary: out at rule: varint.induct)
  case (1 v)
  let ?v = "drop_bit 7 v"
  show ?case
  proof (cases "?v = 0")
    case True
    then have v: "varint v = [ucast v AND 0x7f]" by (subst varint.simps) simp
    with 1 True show ?thesis
      by (subst put_varint.simps) (simp add: Let_def upd_conv_take_nth_drop)
  next
    case False
    let ?b = "ucast v AND 0x7f OR 0x80 :: u8"
    let ?out = "out[at := ?b]"
    from False have v: "varint v = ?b # varint ?v" by (subst varint.simps) simp
    have "put_varint ?v ?out (at + 1) =
      Some (take (at + 1) ?out @ varint ?v @ drop (at + 1 + length (varint ?v)) ?out,
            at + 1 + length (varint ?v))"
      using 1 False v by simp
    moreover have "take (at + 1) ?out = take at out @ [?b]"
      using 1(2) v by (simp add: take_Suc_conv_app_nth)
    ultimately show ?thesis
      using 1(2) v False by (subst put_varint.simps) (simp add: Let_def)
  qed
qed

lemma word_127: "(127 :: 'a :: len word) = mask 7"
  by (simp add: mask_eq_exp_minus_1)

lemma low7: "ucast ((ucast v AND 0x7f :: u8)) = (v AND 0x7f :: u64)"
  unfolding word_127 by (rule bit_word_eqI) (auto simp: bit_simps)

lemma cont_clear: "((b :: u8) AND 0x7f) AND 0x80 = 0"
  by (simp add: ac_simps)

lemma cont_set: "((b :: u8) AND 0x7f OR 0x80) AND 0x80 = 0x80"
  by (simp add: ac_simps bit.conj_disj_distrib)

lemma cont_low: "((b :: u8) AND 0x7f OR 0x80) AND 0x7f = b AND 0x7f"
  by (simp add: ac_simps bit.conj_disj_distrib)

lemma not_bit_above: "unat (v :: u64) < 2 ^ m \<Longrightarrow> m \<le> n \<Longrightarrow> \<not> bit v n"
proof -
  assume h: "unat v < 2 ^ m" "m \<le> n"
  then have "take_bit m (unat v) = unat v" by (simp add: take_bit_nat_eq_self)
  then have "\<not> bit (unat v) n" using h(2) by (metis bit_take_bit_iff not_less)
  then show ?thesis by (auto simp: bit_unsigned_iff possible_bit_def dest: bit_imp_le_length)
qed

lemma push_back:
  assumes "unat (v :: u64) < 2 ^ (64 - shift)"
  shows "drop_bit shift (push_bit shift (v AND 0x7f)) = v AND 0x7f"
proof (rule bit_word_eqI)
  fix n assume n: "n < LENGTH(64)"
  have "bit v n \<Longrightarrow> shift + n < 64"
    using not_bit_above[OF assms, of n] by linarith
  with n show "bit (drop_bit shift (push_bit shift (v AND 0x7f))) n = bit (v AND 0x7f) n"
    unfolding word_127 by (auto simp: bit_simps)
qed

lemma take_varint_loop_varint:
  "shift < 64 \<Longrightarrow> unat v < 2 ^ (64 - shift) \<Longrightarrow>
   take_varint_loop acc shift (varint v @ rest) = Some (acc OR push_bit shift v, rest)"
proof (induction v arbitrary: acc shift rule: varint.induct)
  case (1 v)
  let ?v = "drop_bit 7 v"
  note pb = push_back[OF 1(3)]
  have merge: "push_bit shift (v AND 0x7f) OR push_bit (shift + 7) ?v = push_bit shift v"
    unfolding word_127
  proof (rule bit_word_eqI)
    fix n
    show "bit (push_bit shift (v AND mask 7) OR push_bit (shift + 7) ?v) n = bit (push_bit shift v) n"
      by (cases "shift + 7 \<le> n") (auto simp: bit_simps)
  qed
  show ?case
  proof (cases "?v = 0")
    case True
    then have v: "varint v = [ucast v AND 0x7f]" by (subst varint.simps) simp
    have "push_bit shift (v AND 0x7f) = push_bit shift v"
      using merge True by simp
    then show ?thesis
      using 1(2) pb by (simp add: v checked_shl_def cont_clear low7)
  next
    case False
    then have v: "varint v = (ucast v AND 0x7f OR 0x80) # varint ?v" by (subst varint.simps) simp
    have "unat v div 128 \<noteq> 0"
      using False unat_drop_bit_7[of v] by (metis unsigned_eq_0_iff)
    then have big: "2 ^ 7 \<le> unat v" by (cases "unat v < 128") auto
    with 1(3) have "(2::nat) ^ 7 < 2 ^ (64 - shift)" by linarith
    then have s: "7 < 64 - shift" by (rule power_less_imp_less_exp[rotated]) simp
    have "unat ?v < 2 ^ (64 - (shift + 7))"
    proof -
      have "(2::nat) ^ (64 - shift) = 2 ^ 7 * 2 ^ (64 - (shift + 7))"
        using s by (subst power_add [symmetric]) simp
      with 1(3) show ?thesis by (simp add: unat_drop_bit_7 less_mult_imp_div_less mult.commute)
    qed
    with s have "take_varint_loop (acc OR push_bit shift (v AND 0x7f)) (shift + 7) (varint ?v @ rest) =
      Some ((acc OR push_bit shift (v AND 0x7f)) OR push_bit (shift + 7) ?v, rest)"
      by (intro 1(1)[OF False]) auto
    then have "take_varint_loop (acc OR push_bit shift (v AND 0x7f)) (shift + 7) (varint ?v @ rest) =
      Some (acc OR push_bit shift v, rest)"
      unfolding or.assoc merge .
    then show ?thesis
      using 1(2) pb by (simp add: v checked_shl_def cont_set cont_low low7)
  qed
qed

lemma take_varint_varint [text_simps]: "take_varint (varint v @ rest) = Some (v, rest)"
  using take_varint_loop_varint[of 0 v 0 rest] unat_u64[of v] by (simp add: take_varint_def)

text \<open>Rendering an allocated PID: the three varints never reach past the buffer.\<close>

lemma pid_payload_allocated [text_simps]:
  "pid_payload (Allocated k b a c) = Some (varint b @ varint (ucast a) @ varint c)"
proof -
  have "length (varint b) + length (varint (ucast a)) + length (varint c) \<le> 25"
    using length_varint_u64[of b] length_varint_u32[of a] length_varint_u64[of c] by linarith
  then show ?thesis
    by (simp add: put_varint_eq HASH_LEN_def)
qed

declare pid_payload.simps(1) [simp del]

lemma payload_length_allocated:
  "pid_payload (Allocated k b a c) = Some bs \<Longrightarrow> length bs \<le> MAX_ALLOCATED"
  using length_varint_u64[of b] length_varint_u32[of a] length_varint_u64[of c]
  by (auto simp: pid_payload_allocated MAX_ALLOCATED_def)

lemma allocated_payload [text_simps]:
  "allocated k (varint b @ varint (ucast a) @ varint c) = Some (Allocated k b a c)"
proof -
  have "take_varint (varint c) = Some (c, [])" using take_varint_varint[of c "[]"] by simp
  moreover have "unat (ucast a :: u64) < 2 ^ 32"
    using unat_u32[of a] by (simp add: unsigned_ucast_eq take_bit_eq_mod)
  moreover have "ucast (ucast a :: u64) = a"
    by (rule bit_word_eqI) (auto simp: bit_simps)
  ultimately show ?thesis by (simp add: allocated_def take_varint_varint)
qed

section \<open>Base32\<close>

definition bl :: "nat \<Rightarrow> 'a :: len word \<Rightarrow> bool list" where
  "bl n w = map (bit w) (rev [0..<n])"

lemma length_bl [simp]: "length (bl n w) = n"
  by (simp add: bl_def)

lemma bl_0 [simp]: "bl 0 w = []"
  by (simp add: bl_def)

lemma bl_cong: "(\<And>i. i < n \<Longrightarrow> bit v i = bit w i) \<Longrightarrow> bl n v = bl n w"
  by (simp add: bl_def)

lemma bl_eq_bit: "bl n v = bl n w \<Longrightarrow> i < n \<Longrightarrow> bit v i = bit w i"
  by (simp add: bl_def)

lemma bl_add: "bl (m + n) w = bl m (drop_bit n w) @ bl n w"
proof -
  have "[0..<m + n] = [0..<n] @ map (\<lambda>i. i + n) [0..<m]"
    unfolding map_add_upt using upt_add_eq_append[of 0 n m] by (simp add: add.commute[of m n])
  then show ?thesis
    by (simp add: bl_def rev_map bit_drop_bit_eq comp_def) (simp add: add.commute[of n])
qed

lemma bl_shift_in:
  fixes acc :: u32 and b :: "'a :: len word"
  assumes "LENGTH('a) = k" and "n + k \<le> 32"
  shows "bl (n + k) (push_bit k acc OR ucast b) = bl n acc @ bl k b"
proof -
  have "bl n (drop_bit k (push_bit k acc OR ucast b)) = bl n acc"
    using assms by (intro bl_cong) (auto simp: bit_simps dest: bit_imp_le_length)
  moreover have "bl k (push_bit k acc OR ucast b) = bl k b"
    using assms by (intro bl_cong) (auto simp: bit_simps)
  ultimately show ?thesis by (simp add: bl_add)
qed

lemma bl_shift_in_digit:
  fixes acc d :: u32
  assumes "unat d < 32" and "n + 5 \<le> 32"
  shows "bl (n + 5) (push_bit 5 acc OR ucast (ucast d :: u8)) = bl n acc @ bl 5 d"
proof -
  have high: "\<not> bit d i" if "5 \<le> i" for i
    using not_bit_above[of "ucast d" 5 i] assms(1) that
    by (auto simp: bit_simps unsigned_ucast_eq take_bit_nat_eq_self dest: bit_imp_le_length)
  have "bl n (drop_bit 5 (push_bit 5 acc OR ucast (ucast d :: u8))) = bl n acc"
    using assms(2) by (intro bl_cong) (auto simp: bit_simps high)
  moreover have "bl 5 (push_bit 5 acc OR ucast (ucast d :: u8)) = bl 5 d"
    by (intro bl_cong) (auto simp: bit_simps)
  ultimately show ?thesis by (simp add: bl_add)
qed

lemma bl_inj_u8: "bl 8 v = bl 8 (w :: u8) \<Longrightarrow> v = w"
  by (rule bit_word_eqI) (auto dest: bl_eq_bit)

lemma and_31: "bl 5 (w AND 31 :: u32) = bl 5 w" "unat (w AND 31) < 32"
proof -
  have m: "(31 :: u32) = mask 5" by (simp add: mask_eq_exp_minus_1)
  show "bl 5 (w AND 31) = bl 5 w"
    unfolding m by (rule bl_cong) (auto simp: bit_simps)
  have "w AND 31 \<le> 31" by (simp add: word_and_le1)
  then show "unat (w AND 31) < 32" by (simp add: word_le_nat_alt)
qed

lemma emit_digits_bits:
  "\<exists>ds. fst (emit_digits acc bits) = map digit_at ds \<and> (\<forall>d \<in> set ds. unat d < 32) \<and>
     concat (map (bl 5) ds) @ bl (snd (emit_digits acc bits)) acc = bl bits acc \<and>
     snd (emit_digits acc bits) < 5"
proof (induction acc bits rule: emit_digits.induct)
  case (1 acc bits)
  show ?case
  proof (cases "5 \<le> bits")
    case True
    from 1[OF True] obtain ds where ds: "fst (emit_digits acc (bits - 5)) = map digit_at ds"
      "\<forall>d \<in> set ds. unat d < 32" "snd (emit_digits acc (bits - 5)) < 5"
      "concat (map (bl 5) ds) @ bl (snd (emit_digits acc (bits - 5))) acc = bl (bits - 5) acc" by blast
    let ?d = "drop_bit (bits - 5) acc AND 31"
    have "bl bits acc = bl 5 ?d @ bl (bits - 5) acc"
      using bl_add[of 5 "bits - 5" acc] True by (simp add: and_31)
    then have "fst (emit_digits acc bits) = map digit_at (?d # ds) \<and>
      (\<forall>d \<in> set (?d # ds). unat d < 32) \<and>
      concat (map (bl 5) (?d # ds)) @ bl (snd (emit_digits acc bits)) acc = bl bits acc \<and>
      snd (emit_digits acc bits) < 5"
      using ds True by (simp add: emit_digits.simps[of acc bits] and_31 Let_def)
    then show ?thesis by blast
  next
    case False
    then show ?thesis
      by (intro exI[of _ "[]"]) (simp add: emit_digits.simps[of acc bits])
  qed
qed

lemma encode_loop_bits:
  "bits < 5 \<Longrightarrow> \<exists>ds pad. encode_loop acc bits bytes = map digit_at ds \<and> pad < 5 \<and>
     (\<forall>d \<in> set ds. unat d < 32) \<and>
     concat (map (bl 5) ds) = bl bits acc @ concat (map (bl 8) bytes) @ replicate pad False"
proof (induction bytes arbitrary: acc bits)
  case Nil
  show ?case
  proof (cases "bits = 0")
    case True
    then show ?thesis by (intro exI[of _ "[]"] exI[of _ 0]) simp
  next
    case False
    let ?w = "push_bit (5 - bits) acc"
    have "bl 5 ?w = bl bits acc @ replicate (5 - bits) False"
    proof -
      have "bl 5 ?w = bl bits (drop_bit (5 - bits) ?w) @ bl (5 - bits) ?w"
        using bl_add[of bits "5 - bits" ?w] Nil by simp
      moreover have "bl bits (drop_bit (5 - bits) ?w) = bl bits acc"
        using Nil by (intro bl_cong) (auto simp: bit_simps)
      moreover have "bl (5 - bits) ?w = replicate (5 - bits) False"
        by (rule nth_equalityI) (auto simp: bl_def bit_simps rev_nth)
      ultimately show ?thesis by simp
    qed
    with False Nil show ?thesis
      by (intro exI[of _ "[?w AND 31]"] exI[of _ "5 - bits"]) (simp add: and_31)
  qed
next
  case (Cons b bytes)
  let ?acc = "push_bit 8 acc OR ucast b"
  obtain ds where ds: "fst (emit_digits ?acc (bits + 8)) = map digit_at ds"
    "\<forall>d \<in> set ds. unat d < 32" "snd (emit_digits ?acc (bits + 8)) < 5"
    "concat (map (bl 5) ds) @ bl (snd (emit_digits ?acc (bits + 8))) ?acc = bl (bits + 8) ?acc"
    using emit_digits_bits[of ?acc "bits + 8"] by blast
  obtain es pad where es: "encode_loop ?acc (snd (emit_digits ?acc (bits + 8))) bytes = map digit_at es"
    "pad < 5" "\<forall>d \<in> set es. unat d < 32"
    "concat (map (bl 5) es) = bl (snd (emit_digits ?acc (bits + 8))) ?acc @
       concat (map (bl 8) bytes) @ replicate pad False"
    using Cons.IH[OF ds(3), of ?acc] by blast
  have "bl (bits + 8) ?acc = bl bits acc @ bl 8 b"
    using Cons.prems by (intro bl_shift_in) auto
  with ds es have "concat (map (bl 5) (ds @ es)) =
      bl bits acc @ concat (map (bl 8) (b # bytes)) @ replicate pad False"
    by (simp flip: append_assoc)
  with ds es show ?case
    by (intro exI[of _ "ds @ es"] exI[of _ pad]) (auto simp: Let_def)
qed

lemma digit_digit_at:
  assumes "unat (d :: u32) < 32"
  shows "digit (digit_at d) = Some (ucast d)"
proof -
  have "\<forall>n \<in> set [0..<32]. digit (digit_at (of_nat n)) = Some (of_nat n)"
    by code_simp
  moreover have "unat d \<in> set [0..<32]" using assms by simp
  ultimately have "digit (digit_at (of_nat (unat d))) = Some (of_nat (unat d))" by blast
  moreover have "(of_nat (unat d) :: u32) = d" and "(of_nat (unat d) :: u8) = ucast d"
    by simp_all
  ultimately show ?thesis by metis
qed

text \<open>What the decoder makes of a stream of digits whose bits are whole bytes and a rest.\<close>

lemma decode_loop_bits:
  "bits < 8 \<Longrightarrow> (\<forall>d \<in> set ds. unat d < 32) \<Longrightarrow>
   bl bits acc @ concat (map (bl 5) ds) = concat (map (bl 8) bytes) @ rest \<Longrightarrow> length rest < 8 \<Longrightarrow>
   length out + length bytes \<le> cap \<Longrightarrow>
   \<exists>acc'. decode_loop cap acc bits out (map digit_at ds) = Inr (acc', length rest, out @ bytes) \<and>
      bl (length rest) acc' = rest"
proof (induction ds arbitrary: acc bits out bytes)
  case Nil
  have "bytes = []"
    using arg_cong[OF Nil.prems(3), of length] Nil.prems(1) by (cases bytes) auto
  with Nil show ?case by (intro exI[of _ acc]) auto
next
  case (Cons d ds)
  let ?acc = "push_bit 5 acc OR ucast (ucast d :: u8) :: u32"
  have d: "unat d < 32" "digit (digit_at d) = Some (ucast d)"
    using Cons.prems(2) digit_digit_at by auto
  have acc: "bl (bits + 5) ?acc = bl bits acc @ bl 5 d"
    using Cons.prems(1) d(1) by (intro bl_shift_in_digit) auto
  show ?case
  proof (cases "8 \<le> bits + 5")
    case False
    have "\<exists>acc'. decode_loop cap ?acc (bits + 5) out (map digit_at ds) =
        Inr (acc', length rest, out @ bytes) \<and> bl (length rest) acc' = rest"
      using Cons.prems acc False by (intro Cons.IH) auto
    with False d show ?thesis by (simp add: Let_def)
  next
    case True
    let ?n = "bits + 5 - 8"
    let ?w = "ucast (drop_bit ?n ?acc) :: u8"
    have w: "bl (bits + 5) ?acc = bl 8 ?w @ bl ?n ?acc"
    proof -
      have "bl (bits + 5) ?acc = bl 8 (drop_bit ?n ?acc) @ bl ?n ?acc"
      proof -
        have "8 + ?n = bits + 5" using True by simp
        then show ?thesis using bl_add[of 8 ?n ?acc] by argo
      qed
      moreover have "bl 8 (drop_bit ?n ?acc) = bl 8 ?w"
        by (rule bl_cong) (auto simp: bit_simps)
      ultimately show ?thesis by simp
    qed
    have eq: "bl 8 ?w @ bl ?n ?acc @ concat (map (bl 5) ds) = concat (map (bl 8) bytes) @ rest"
    proof -
      have "bl 8 ?w @ bl ?n ?acc = bl bits acc @ bl 5 d" using w acc by argo
      then have "(bl 8 ?w @ bl ?n ?acc) @ concat (map (bl 5) ds) =
          (bl bits acc @ bl 5 d) @ concat (map (bl 5) ds)" by argo
      also have "\<dots> = concat (map (bl 8) bytes) @ rest" using Cons.prems(3) by simp
      finally show ?thesis unfolding append_assoc .
    qed
    have "bytes \<noteq> []"
      using arg_cong[OF eq, of length] Cons.prems(4) by (cases bytes) auto
    then obtain b bs where bytes: "bytes = b # bs" by (cases bytes) auto
    with eq have "bl 8 ?w = bl 8 b" and rest: "bl ?n ?acc @ concat (map (bl 5) ds) = concat (map (bl 8) bs) @ rest"
      by auto
    then have b: "?w = b" by (intro bl_inj_u8)
    have "\<exists>acc'. decode_loop cap ?acc ?n (out @ [?w]) (map digit_at ds) =
        Inr (acc', length rest, (out @ [?w]) @ bs) \<and> bl (length rest) acc' = rest"
      using Cons.prems rest bytes by (intro Cons.IH) auto
    moreover have "length out \<noteq> cap" using Cons.prems(5) bytes by simp
    ultimately show ?thesis using True d b bytes by (simp add: Let_def)
  qed
qed

lemma padding_zero:
  assumes "bl n (acc :: u32) = replicate n False"
  shows "acc AND (2 ^ n - 1) = 0"
proof -
  have m: "2 ^ n - 1 = (mask n :: u32)" by (simp add: mask_eq_exp_minus_1)
  have "\<not> bit acc i" if "i < n" for i
  proof -
    have "bit acc i \<in> set (bl n acc)" using that by (auto simp: bl_def)
    then show ?thesis unfolding assms by simp
  qed
  then show ?thesis unfolding m by (intro bit_word_eqI) (auto simp: bit_simps)
qed

lemma decode_encode_base32 [text_simps]:
  assumes "length bytes \<le> MAX_ALLOCATED \<or> length bytes = HASH_LEN"
  shows "decode_base32 (encode_base32 bytes) HASH_LEN = Inr bytes"
proof -
  obtain ds pad where ds: "encode_base32 bytes = map digit_at ds" "pad < 5" "\<forall>d \<in> set ds. unat d < 32"
    "concat (map (bl 5) ds) = concat (map (bl 8) bytes) @ replicate pad False"
    using encode_loop_bits[of 0 0 bytes] by (auto simp: encode_base32_def)
  have "length bytes \<le> HASH_LEN" using assms by (auto simp: MAX_ALLOCATED_def HASH_LEN_def)
  with ds obtain acc where "decode_loop HASH_LEN 0 0 [] (map digit_at ds) = Inr (acc, pad, bytes)"
    "bl pad acc = replicate pad False"
    using decode_loop_bits[of 0 ds 0 bytes "replicate pad False" "[]" HASH_LEN] by auto
  with ds assms show ?thesis by (auto simp: decode_base32_def padding_zero)
qed

lemma from_letter_letter [text_simps]: "from_letter (letter k) = Some k"
  by (cases k) (simp_all add: from_letter_def to_ascii_lowercase_def less_eq_char_def)

lemma letter_not_hyphen: "letter k \<noteq> CHR ''-''"
  by (cases k) simp_all

text \<open>The text of a PID, without the buffer the renderer writes it into.\<close>

definition pid_text :: "pid \<Rightarrow> string" where
  "pid_text p = letter (pid_kind_of p) # CHR ''-'' #
     encode_base32 (case p of
        Allocated k b a c \<Rightarrow> varint b @ varint (ucast a) @ varint c
      | Content k h \<Rightarrow> h)"

lemma display_pid_text [text_simps]: "display_pid p = Some (pid_text p)"
  by (cases p) (simp_all add: display_pid_def pid_text_def pid_payload_allocated)

lemma pid_from_str_text [text_simps]:
  assumes "wf_pid p"
  shows "pid_from_str (pid_text p) = Inr p"
proof -
  obtain bs where bs: "pid_payload p = Some bs" "pid_text p = [letter (pid_kind_of p)] @ CHR ''-'' # encode_base32 bs"
    by (cases p) (simp_all add: pid_text_def pid_payload_allocated)
  have len: "length bs \<le> MAX_ALLOCATED \<or> length bs = HASH_LEN"
    using assms bs(1) payload_length_allocated by (cases p) auto
  have "split_once (CHR ''-'') (pid_text p) = Some ([letter (pid_kind_of p)], encode_base32 bs)"
    unfolding bs(2) by (rule split_once_append) (simp add: letter_not_hyphen[symmetric])
  then have "pid_from_str (pid_text p) =
     (if length bs = HASH_LEN then Inr (Content (pid_kind_of p) bs)
      else case allocated (pid_kind_of p) bs of
        None \<Rightarrow> Inl (NotWellFormedId (encode_base32 bs)) | Some p \<Rightarrow> Inr p)"
    using decode_encode_base32[OF len] by (simp add: pid_from_str_def from_letter_letter)
  also have "\<dots> = Inr p"
  proof (cases p)
    case (Allocated k b a c)
    with bs payload_length_allocated have "length bs \<noteq> HASH_LEN"
      by (fastforce simp: MAX_ALLOCATED_def HASH_LEN_def)
    with Allocated bs show ?thesis by (auto simp: pid_payload_allocated allocated_payload)
  next
    case (Content k h)
    with assms bs show ?thesis by simp
  qed
  finally show ?thesis .
qed

section \<open>The codec contract\<close>

text \<open>
  What every text form of the system promises: values the type can hold are rendered without a
  panic, the rendering parses back to the value, and the parser yields nothing else. Rendering
  is then injective and a parsed text has a canonical spelling.
\<close>

locale text_codec =
  fixes render :: "'a \<Rightarrow> string option"
    and parse :: "string \<Rightarrow> 'e + 'a"
    and ok :: "'a \<Rightarrow> bool"
  assumes render_total: "ok x \<Longrightarrow> \<exists>t. render x = Some t"
    and parse_render: "ok x \<Longrightarrow> render x = Some t \<Longrightarrow> parse t = Inr x"
    and parse_ok: "parse t = Inr x \<Longrightarrow> ok x"
begin

lemma render_inject: "ok x \<Longrightarrow> ok y \<Longrightarrow> render x = render y \<Longrightarrow> x = y"
  using render_total[of x] parse_render[of x] parse_render[of y] by force

lemma roundtrip: "ok x \<Longrightarrow> \<exists>t. render x = Some t \<and> parse t = Inr x"
  using render_total parse_render by blast

lemma canonical: "parse t = Inr x \<Longrightarrow> \<exists>u. render x = Some u \<and> parse u = Inr x"
  using parse_ok roundtrip by blast

end

lemma decode_loop_length:
  "decode_loop cap acc bits out t = Inr (acc', bits', out') \<Longrightarrow> length out \<le> cap \<Longrightarrow> length out' \<le> cap"
  by (induction t arbitrary: acc bits out) (auto simp: Let_def split: option.splits if_splits)

lemma pid_from_str_wf: "pid_from_str t = Inr p \<Longrightarrow> wf_pid p"
  by (auto simp: pid_from_str_def allocated_def split: option.splits sum.splits if_splits prod.splits)

interpretation pid: text_codec display_pid pid_from_str wf_pid
proof
  fix x :: pid and t
  show "\<exists>t. display_pid x = Some t" by (simp add: display_pid_text)
  assume "wf_pid x" and "display_pid x = Some t"
  then show "pid_from_str t = Inr x" by (auto simp: display_pid_text pid_from_str_text)
next
  fix t x assume "pid_from_str t = Inr x"
  then show "wf_pid x" by (rule pid_from_str_wf)
qed

text \<open>Concrete spellings, for the examples below.\<close>

lemma example_allocated: "allocated PObject [1, 0, 100] = Some (Allocated PObject 1 0 100)"
  by (simp add: allocated_def take_varint_def checked_shl_def)

lemma example_base32:
  "decode_base32 ''04068'' HASH_LEN = Inr [1, 0, 100]"
  "decode_base32 ''040680'' HASH_LEN = Inr [1, 0, 100]"
  "decode_base32 ''O4O68'' HASH_LEN = Inr [1, 0, 100]"
  by code_simp+

lemma example_letter:
  "from_letter CHR ''o'' = Some PObject" "from_letter CHR ''O'' = Some PObject"
  by code_simp+

lemmas example_spellings = example_allocated example_base32 example_letter

section \<open>Properties\<close>

text \<open>
  The text form is lossless: every PID renders (no write past the buffer) and its
  text parses back to exactly that PID.
\<close>

theorem pid_text_roundtrip:
  assumes "wf_pid p"
  shows "\<exists>t. display_pid p = Some t \<and> pid_from_str t = Inr p"
  using assms by (rule pid.roundtrip)

theorem pid_text_roundtrip_witness:
  "\<exists>t. display_pid (Allocated PList 18446744073709551615 3 100) = Some t \<and>
       pid_from_str t = Inr (Allocated PList 18446744073709551615 3 100)"
  by (rule pid_text_roundtrip) simp

text \<open>
  The three varints of an allocated PID fill at most \<open>MAX_ALLOCATED\<close> bytes, so
  \<^verbatim>\<open>out[*at]\<close> stays inside the 32-byte buffer and no allocated payload has the length of a hash:
  the decoder can tell the two flavours apart by length alone.
\<close>

theorem allocated_payload_bounded:
  "\<exists>bs. pid_payload (Allocated k b a c) = Some bs \<and> length bs \<le> MAX_ALLOCATED \<and> length bs < HASH_LEN"
  using payload_length_allocated[of k b a c]
  by (fastforce simp: pid_payload_allocated MAX_ALLOCATED_def HASH_LEN_def)

text \<open>
  What the parser accepts it also accepts in canonical form: whatever spelling was
  typed, the PID it names renders to a text that names the same PID.
\<close>

theorem pid_parse_canonical:
  assumes "pid_from_str t = Inr p"
  shows "\<exists>u. display_pid p = Some u \<and> pid_from_str u = Inr p"
  using assms by (rule pid.canonical)

theorem pid_parse_canonical_witness:
  "\<exists>u. display_pid (Allocated PObject 1 0 100) = Some u \<and> pid_from_str u = Inr (Allocated PObject 1 0 100)"
proof (rule pid_parse_canonical)
  show "pid_from_str ''O-O4O68'' = Inr (Allocated PObject 1 0 100)"
    by (simp add: pid_from_str_def split_once_def example_spellings) (simp add: HASH_LEN_def)
qed

text \<open>
  A PID has more than one spelling even among lower-case digits: up to seven zero
  bits of padding are accepted, so a trailing \<open>0\<close> digit can be appended without changing what
  the text means.
\<close>

theorem pid_spelling_not_unique:
  "pid_from_str ''o-04068'' = pid_from_str ''o-040680'' \<and>
   (\<exists>p. pid_from_str ''o-04068'' = Inr p \<and> wf_pid p)"
proof -
  have "pid_from_str ''o-04068'' = Inr (Allocated PObject 1 0 100)"
    and "pid_from_str ''o-040680'' = Inr (Allocated PObject 1 0 100)"
    by (simp_all add: pid_from_str_def split_once_def example_spellings) (simp_all add: HASH_LEN_def)
  then show ?thesis by simp
qed

end
