(* ===== verification/BigInts.thy ===== *)
theory BigInts
  imports Pid_Text
begin

text \<open>
  \<^verbatim>\<open>borg-core/src/bigint.rs\<close>: the canonical bytes of an arbitrary-precision integer (two's
  complement, big-endian, minimal length, empty for zero). Byte loops that the source runs from
  the last byte are recursions on the reversed list. \<open>be_val\<close> and \<open>twos_val\<close> read bytes as
  numbers; \<open>minimal\<close> is the canonical-form invariant.
\<close>

definition strip_prefix_char :: "char \<Rightarrow> string \<Rightarrow> string option" where
  "strip_prefix_char c s = (case s of [] \<Rightarrow> None | d # t \<Rightarrow> if d = c then Some t else None)"

section \<open>The code\<close>

fun mul10_add :: "u32 \<Rightarrow> u8 list \<Rightarrow> u32 \<times> u8 list" where
  "mul10_add carry [] = (carry, [])"
| "mul10_add carry (byte # rest) =
     (let next = ucast byte * 10 + carry; r = mul10_add (drop_bit 8 next) rest
      in (fst r, ucast next # snd r))"

definition push_digit :: "u8 list \<Rightarrow> u32 \<Rightarrow> u8 list" where
  "push_digit magnitude d =
     (let r = mul10_add d (rev magnitude); m = rev (snd r)
      in if 0 < fst r then ucast (fst r) # m else m)"

fun increment_rev :: "u8 list \<Rightarrow> u8 list" where
  "increment_rev [] = []"
| "increment_rev (byte # rest) =
     (if byte + 1 \<noteq> 0 then (byte + 1) # rest else (byte + 1) # increment_rev rest)"

definition increment :: "u8 list \<Rightarrow> u8 list" where
  "increment bytes = rev (increment_rev (rev bytes))"

fun trim_sign :: "u8 list \<Rightarrow> u8 list" where
  "trim_sign (a # b # rest) =
     (if a = 0xff \<and> b AND 0x80 \<noteq> 0 then trim_sign (b # rest) else a # b # rest)"
| "trim_sign bs = bs"

definition bigint_encode :: "string \<Rightarrow> u8 list option" where
  "bigint_encode decimal =
     (let nd = (case strip_prefix_char (CHR ''-'') decimal of
                  Some rest \<Rightarrow> (True, rest) | None \<Rightarrow> (False, decimal));
          negative = fst nd; digits = snd nd in
      if digits = [] \<or> \<not> list_all is_digit digits then None
      else
        (let m0 = foldl push_digit [] (map (\<lambda>c. of_nat (digit_val c)) digits);
             magnitude = dropWhile (\<lambda>b. b = 0) m0 in
         if magnitude = [] then Some []
         else if \<not> negative then
           (if hd magnitude AND 0x80 \<noteq> 0 then Some (0 # magnitude) else Some magnitude)
         else Some (trim_sign (increment (map NOT (0 # magnitude))))))"

fun div10 :: "u32 \<Rightarrow> u8 list \<Rightarrow> u8 list \<times> u32" where
  "div10 remainder [] = ([], remainder)"
| "div10 remainder (byte # rest) =
     (let current = push_bit 8 remainder OR ucast byte; r = div10 (current mod 10) rest
      in (ucast (current div 10) # fst r, snd r))"

section \<open>Bytes as numbers\<close>

fun le_val :: "u8 list \<Rightarrow> nat" where
  "le_val [] = 0"
| "le_val (b # bs) = unat b + 256 * le_val bs"

definition be_val :: "u8 list \<Rightarrow> nat" where
  "be_val bs = le_val (rev bs)"

definition twos_val :: "u8 list \<Rightarrow> int" where
  "twos_val bs =
     (if bs \<noteq> [] \<and> hd bs AND 0x80 \<noteq> 0 then int (be_val bs) - 256 ^ length bs else int (be_val bs))"

lemma le_val_append: "le_val (xs @ ys) = le_val xs + 256 ^ length xs * le_val ys"
  by (induction xs) (simp_all add: algebra_simps)

lemma be_val_Nil [simp]: "be_val [] = 0"
  by (simp add: be_val_def)

lemma be_val_Cons [simp]: "be_val (b # bs) = unat b * 256 ^ length bs + be_val bs"
  by (simp add: be_val_def le_val_append)

lemma le_val_less: "le_val bs < 256 ^ length bs"
proof (induction bs)
  case (Cons b bs)
  then have "le_val bs + 1 \<le> 256 ^ length bs" by simp
  then have "256 * (le_val bs + 1) \<le> 256 * 256 ^ length bs" by (rule mult_le_mono2)
  with unat_u8[of b] show ?case by simp
qed simp

lemma be_val_less: "be_val bs < 256 ^ length bs"
  using le_val_less[of "rev bs"] by (simp add: be_val_def)

lemma be_val_zero_iff: "be_val bs = 0 \<longleftrightarrow> list_all (\<lambda>b. b = 0) bs"
  by (induction bs) (auto simp: unsigned_eq_0_iff)

lemma top_bit_u8: "b AND 0x80 = 0 \<longleftrightarrow> unat (b :: u8) < 128"
proof -
  have "\<forall>n \<in> set [0..<256]. (of_nat n AND 0x80 = (0 :: u8)) = (n < 128)"
    by code_simp
  moreover have "unat b \<in> set [0..<256]" using unat_u8[of b] by simp
  ultimately have "(of_nat (unat b) AND 0x80 = (0 :: u8)) = (unat b < 128)" by blast
  then show ?thesis by simp
qed

section \<open>Decimal to magnitude\<close>

lemma unat_add_u32: "unat a + unat b < 4294967296 \<Longrightarrow> unat (a + b :: u32) = unat a + unat b"
  by (simp add: unat_word_ariths)

lemma mul10_step:
  assumes "unat c < 10"
  shows "unat (ucast (b :: u8) * 10 + c :: u32) = unat b * 10 + unat c"
proof -
  have b: "unat (ucast b :: u32) = unat b"
    using unat_u8[of b] by (simp add: unsigned_ucast_eq take_bit_eq_mod)
  have "unat (ucast b * 10 :: u32) = unat b * 10"
    using unat_u8[of b] by (simp add: unat_word_ariths b)
  then show ?thesis using assms unat_u8[of b] by (subst unat_add_u32) simp_all
qed

lemma mul10_add_val:
  "unat c < 10 \<Longrightarrow> length (snd (mul10_add c bs)) = length bs \<and> unat (fst (mul10_add c bs)) < 10 \<and>
     le_val (snd (mul10_add c bs)) + 256 ^ length bs * unat (fst (mul10_add c bs)) = le_val bs * 10 + unat c"
proof (induction bs arbitrary: c)
  case (Cons b bs)
  let ?n = "ucast b * 10 + c :: u32"
  have n: "unat ?n = unat b * 10 + unat c" using Cons.prems by (rule mul10_step)
  have c: "unat (drop_bit 8 ?n) = unat ?n div 256"
    by (simp add: drop_bit_eq_div unat_div_distrib)
  have lo: "unat (ucast ?n :: u8) = unat ?n mod 256"
    by (simp add: unsigned_ucast_eq take_bit_eq_mod)
  have "unat (drop_bit 8 ?n) < 10" using c n Cons.prems unat_u8[of b] by simp
  from Cons.IH[OF this] have IH:
    "length (snd (mul10_add (drop_bit 8 ?n) bs)) = length bs"
    "unat (fst (mul10_add (drop_bit 8 ?n) bs)) < 10"
    "le_val (snd (mul10_add (drop_bit 8 ?n) bs)) + 256 ^ length bs * unat (fst (mul10_add (drop_bit 8 ?n) bs)) =
       le_val bs * 10 + unat ?n div 256"
    by (simp_all add: c)
  have "unat ?n mod 256 + 256 * (le_val bs * 10 + unat ?n div 256) = (unat b + 256 * le_val bs) * 10 + unat c"
    using n by simp
  then have "unat ?n mod 256 + 256 * (le_val (snd (mul10_add (drop_bit 8 ?n) bs)) +
      256 ^ length bs * unat (fst (mul10_add (drop_bit 8 ?n) bs))) = (unat b + 256 * le_val bs) * 10 + unat c"
    unfolding IH(3) .
  with IH(1,2) lo show ?case by (simp add: Let_def algebra_simps)
qed simp

lemma push_digit_val:
  assumes "unat d < 10"
  shows "be_val (push_digit m d) = be_val m * 10 + unat d"
proof -
  let ?r = "mul10_add d (rev m)"
  note r = mul10_add_val[OF assms, of "rev m"]
  have c: "unat (ucast (fst ?r) :: u8) = unat (fst ?r)"
    using r by (simp add: unsigned_ucast_eq take_bit_eq_mod)
  have "0 < fst ?r \<longleftrightarrow> unat (fst ?r) \<noteq> 0"
    by (simp add: word_greater_zero_iff unsigned_eq_0_iff)
  with r c show ?thesis
    by (auto simp: push_digit_def Let_def be_val_def le_val_append algebra_simps)
qed

lemma be_val_dropWhile: "be_val (dropWhile (\<lambda>b. b = 0) m) = be_val m"
  by (induction m) auto

definition magnitude :: "string \<Rightarrow> u8 list" where
  "magnitude ds = dropWhile (\<lambda>b. b = 0) (foldl push_digit [] (map (\<lambda>c. of_nat (digit_val c)) ds))"

lemma digit_val_less: "is_digit c \<Longrightarrow> digit_val c < 10"
  by (auto simp: is_digit_def digit_val_def less_eq_char_def)

lemma magnitude_val: "list_all is_digit ds \<Longrightarrow> be_val (magnitude ds) = digits_val ds"
proof -
  assume "list_all is_digit ds"
  then have "be_val (foldl push_digit [] (map (\<lambda>c. of_nat (digit_val c)) ds)) = digits_val ds"
  proof (induction ds rule: rev_induct)
    case (snoc c ds)
    then have "digit_val c < 10" by (auto intro: digit_val_less)
    then have "unat (of_nat (digit_val c) :: u32) = digit_val c"
      by (simp add: unsigned_of_nat take_bit_eq_mod)
    with snoc show ?case by (simp add: push_digit_val digit_val_less)
  qed simp
  then show ?thesis by (simp add: magnitude_def be_val_dropWhile)
qed

lemma magnitude_hd: "magnitude ds = b # bs \<Longrightarrow> b \<noteq> 0"
  by (simp add: magnitude_def dropWhile_eq_Cons_conv)

section \<open>Two's complement\<close>

lemma unat_not_u8: "unat (NOT b :: u8) = 255 - unat b"
proof -
  have "NOT b = 255 - b" by (simp add: not_eq_complement)
  then show ?thesis using unat_u8[of b] by (simp add: unat_sub word_le_nat_alt)
qed

lemma be_val_not: "be_val (map NOT bs) + be_val bs + 1 = 256 ^ length bs"
proof (induction bs)
  case (Cons b bs)
  have "unat (NOT b) + unat b = 255" using unat_u8[of b] by (simp add: unat_not_u8)
  then have "unat (NOT b) * 256 ^ length bs + unat b * 256 ^ length bs = 255 * 256 ^ length bs"
    by (simp flip: add_mult_distrib)
  with Cons show ?case by simp
qed simp

lemma increment_rev_val:
  "length (increment_rev bs) = length bs \<and>
   le_val (increment_rev bs) = (le_val bs + 1) mod 256 ^ length bs"
proof (induction bs)
  case (Cons b bs)
  show ?case
  proof (cases "b + 1 = 0")
    case True
    then have "b = - 1" by (simp add: eq_neg_iff_add_eq_0)
    then have b: "unat b = 255" by (simp add: unsigned_minus_1_eq_mask mask_eq_exp_minus_1)
    have "le_val (b # bs) + 1 = 256 * (le_val bs + 1)" using b by simp
    then have "(le_val (b # bs) + 1) mod 256 ^ length (b # bs) = 256 * ((le_val bs + 1) mod 256 ^ length bs)"
      by (simp add: mult_mod_right)
    with True Cons show ?thesis by simp
  next
    case False
    then have b: "unat (b + 1) = unat b + 1" using unatSuc[of b] by (simp add: add.commute)
    have "unat b + 1 < 256" using b unat_u8[of "b + 1"] by simp
    then have "le_val (b # bs) + 1 < 256 ^ length (b # bs)"
      using le_val_less[of "(b + 1) # bs"] b by simp
    with False b show ?thesis by simp
  qed
qed simp

lemma increment_val:
  "length (increment bs) = length bs" "be_val (increment bs) = (be_val bs + 1) mod 256 ^ length bs"
  using increment_rev_val[of "rev bs"] by (simp_all add: increment_def be_val_def)

lemma negate_val:
  assumes "0 < be_val bs"
  shows "be_val (increment (map NOT bs)) = 256 ^ length bs - be_val bs"
proof -
  have "be_val (map NOT bs) + 1 = 256 ^ length bs - be_val bs"
    using be_val_not[of bs] by linarith
  with assms show ?thesis by (simp add: increment_val)
qed

lemma top_bit_val: "hd bs AND 0x80 \<noteq> 0 \<longleftrightarrow> 128 * 256 ^ (length bs - 1) \<le> be_val bs" if "bs \<noteq> []" for bs
proof (cases bs)
  case (Cons b cs)
  have "be_val bs div 256 ^ length cs = unat b"
    using be_val_less[of cs] by (simp add: Cons)
  moreover have "128 \<le> be_val bs div 256 ^ length cs \<longleftrightarrow> 128 * 256 ^ length cs \<le> be_val bs"
    by (simp add: less_eq_div_iff_mult_less_eq)
  ultimately show ?thesis using top_bit_u8[of b] by (simp add: Cons not_less)
qed (use that in simp)

lemma trim_sign_val:
  "bs \<noteq> [] \<Longrightarrow> hd bs AND 0x80 \<noteq> 0 \<Longrightarrow>
   trim_sign bs \<noteq> [] \<and> hd (trim_sign bs) AND 0x80 \<noteq> 0 \<and> twos_val (trim_sign bs) = twos_val bs"
proof (induction bs rule: trim_sign.induct)
  case (1 a b rest)
  show ?case
  proof (cases "a = 0xff \<and> b AND 0x80 \<noteq> 0")
    case True
    then have "twos_val (a # b # rest) = twos_val (b # rest)"
      by (simp add: twos_val_def)
    with 1 True show ?thesis by simp
  next
    case False
    then have "trim_sign (a # b # rest) = a # b # rest" by auto
    with 1 show ?thesis by argo
  qed
qed auto

fun minimal :: "u8 list \<Rightarrow> bool" where
  "minimal [] = True"
| "minimal [b] = (b \<noteq> 0)"
| "minimal (a # b # _) = (\<not> (a = 0 \<and> b AND 0x80 = 0) \<and> \<not> (a = 0xff \<and> b AND 0x80 \<noteq> 0))"

lemma minimal_trim_sign:
  "bs \<noteq> [] \<Longrightarrow> hd bs AND 0x80 \<noteq> 0 \<Longrightarrow> minimal (trim_sign bs)"
  by (induction bs rule: trim_sign.induct) auto

text \<open>The integer a decimal text names, and which texts are decimal.\<close>

definition is_decimal :: "string \<Rightarrow> bool" where
  "is_decimal s =
     (let ds = (case strip_prefix_char (CHR ''-'') s of Some t \<Rightarrow> t | None \<Rightarrow> s)
      in ds \<noteq> [] \<and> list_all is_digit ds)"

definition decimal_val :: "string \<Rightarrow> int" where
  "decimal_val s =
     (case strip_prefix_char (CHR ''-'') s of
        Some t \<Rightarrow> - int (digits_val t) | None \<Rightarrow> int (digits_val s))"

lemma negative_bytes:
  assumes "m \<noteq> []" and "hd m \<noteq> 0"
  defines "bs \<equiv> increment (map NOT (0 # m))"
  shows "bs \<noteq> [] \<and> hd bs AND 0x80 \<noteq> 0 \<and> twos_val bs = - int (be_val m)"
proof -
  have pos: "0 < be_val m" using assms(1,2) unsigned_eq_0_iff[of "hd m"] by (cases m) auto
  have len: "length bs = Suc (length m)" by (simp add: bs_def increment_val)
  have val: "be_val bs = 256 ^ Suc (length m) - be_val m"
    unfolding bs_def using negate_val[of "0 # m"] pos by simp
  have less: "be_val m < 256 ^ length m" by (rule be_val_less)
  then have "128 * 256 ^ (length bs - 1) \<le> be_val bs" using val len by simp
  moreover have ne: "bs \<noteq> []" using len by auto
  ultimately have top: "hd bs AND 0x80 \<noteq> 0" by (simp add: top_bit_val)
  have "int (be_val bs) = 256 ^ Suc (length m) - int (be_val m)"
    using val less by (simp add: of_nat_diff)
  with top ne len show ?thesis by (simp add: twos_val_def)
qed

lemma positive_bytes:
  assumes "m \<noteq> []" and "hd m \<noteq> 0"
  shows "twos_val (if hd m AND 0x80 \<noteq> 0 then 0 # m else m) = int (be_val m) \<and>
    minimal (if hd m AND 0x80 \<noteq> 0 then 0 # m else m)"
proof (cases m rule: minimal.cases)
  case (3 a b c)
  then show ?thesis using assms by (auto simp: twos_val_def)
qed (use assms in \<open>auto simp: twos_val_def\<close>)

lemma encode_by_magnitude:
  assumes "(case strip_prefix_char (CHR ''-'') s of
      Some rest \<Rightarrow> (True, rest) | None \<Rightarrow> (False, s)) = (neg, ds)"
    and "ds \<noteq> []" and "list_all is_digit ds"
  shows "bigint_encode s =
     (if magnitude ds = [] then Some []
      else if \<not> neg then (if hd (magnitude ds) AND 0x80 \<noteq> 0 then Some (0 # magnitude ds) else Some (magnitude ds))
      else Some (trim_sign (increment (map NOT (0 # magnitude ds)))))"
  unfolding bigint_encode_def Let_def magnitude_def[symmetric] assms(1) fst_conv snd_conv
  using assms(2,3) by (simp split del: if_split)

lemma encode_Some:
  assumes "bigint_encode s = Some bs"
  shows "is_decimal s \<and> minimal bs \<and> twos_val bs = decimal_val s"
proof -
  obtain neg ds where nd: "(case strip_prefix_char (CHR ''-'') s of
      Some rest \<Rightarrow> (True, rest) | None \<Rightarrow> (False, s)) = (neg, ds)" by fastforce
  have dec: "ds \<noteq> []" "list_all is_digit ds"
    using assms nd by (auto simp: bigint_encode_def Let_def split: if_splits)
  have dc: "is_decimal s" and val: "decimal_val s = (if neg then - int (digits_val ds) else int (digits_val ds))"
    using nd dec by (auto simp: is_decimal_def decimal_val_def Let_def split: option.splits)
  have m: "be_val (magnitude ds) = digits_val ds" using dec by (intro magnitude_val)
  have enc: "Some bs =
     (if magnitude ds = [] then Some []
      else if \<not> neg then (if hd (magnitude ds) AND 0x80 \<noteq> 0 then Some (0 # magnitude ds) else Some (magnitude ds))
      else Some (trim_sign (increment (map NOT (0 # magnitude ds)))))"
    using assms encode_by_magnitude[OF nd dec] by argo
  show ?thesis
  proof (cases "magnitude ds = []")
    case True
    with enc m val dc show ?thesis by (simp add: twos_val_def)
  next
    case False
    have h: "hd (magnitude ds) \<noteq> 0" using False magnitude_hd by (cases "magnitude ds") auto
    show ?thesis
    proof (cases neg)
      case True
      then show ?thesis
        using enc False val dc m negative_bytes[OF False h] trim_sign_val minimal_trim_sign by simp
    next
      case neg: False
      then have "bs = (if hd (magnitude ds) AND 0x80 \<noteq> 0 then 0 # magnitude ds else magnitude ds)"
        using enc False by (simp split: if_splits)
      with positive_bytes[OF False h] neg val dc m show ?thesis by simp
    qed
  qed
qed

lemma encode_total: "is_decimal s \<Longrightarrow> \<exists>bs. bigint_encode s = Some bs"
  by (auto simp: is_decimal_def bigint_encode_def Let_def split: option.splits)

section \<open>One number, one encoding\<close>

lemma be_val_inject: "length bs = length cs \<Longrightarrow> be_val bs = be_val cs \<Longrightarrow> bs = cs"
proof (induction bs cs rule: list_induct2)
  case (Cons b bs c cs)
  have "be_val (b # bs) div 256 ^ length cs = unat b" "be_val (c # cs) div 256 ^ length cs = unat c"
    using be_val_less[of bs] be_val_less[of cs] Cons.hyps by simp_all
  then have "unat b = unat c" using Cons.prems by metis
  then have "b = c" by (metis unsigned_word_eqI)
  with Cons show ?case by simp
qed simp

lemma twos_range:
  assumes "bs \<noteq> []"
  shows "- (128 * 256 ^ (length bs - 1)) \<le> twos_val bs \<and> twos_val bs < 128 * 256 ^ (length bs - 1)"
proof -
  define P where "P = (256 :: nat) ^ (length bs - 1)"
  have P: "256 ^ length bs = 256 * P" using assms by (cases bs) (simp_all add: P_def)
  have "int (256 ^ length bs) = int (256 * P)" by (simp only: P)
  then have Pi: "(256 :: int) ^ (length bs - 1) = int P" "(256 :: int) ^ length bs = 256 * int P"
    by (simp_all add: P_def)
  have "be_val bs < 256 * P" using be_val_less[of bs] P by simp
  moreover have "hd bs AND 0x80 \<noteq> 0 \<longleftrightarrow> 128 * P \<le> be_val bs"
    using top_bit_val[OF assms] by (simp add: P_def)
  ultimately show ?thesis using assms unfolding twos_val_def Pi by auto
qed

lemma minimal_wide:
  assumes "minimal (a # b # r)"
  shows "128 * 256 ^ length r \<le> twos_val (a # b # r) \<or> twos_val (a # b # r) < - (128 * 256 ^ length r)"
proof -
  define P where "P = (256 :: nat) ^ length r"
  define v where "v = be_val (b # r)"
  define A where "A = unat a * (256 * P)"
  have Pi: "(256 :: int) ^ length r = int P" "(256 :: int) ^ length (a # b # r) = 65536 * int P"
    by (simp_all add: P_def)
  have v: "v < 256 * P" "b AND 0x80 \<noteq> 0 \<longleftrightarrow> 128 * P \<le> v"
    using be_val_less[of "b # r"] top_bit_val[of "b # r"] by (simp_all add: v_def P_def)
  have av: "be_val (a # b # r) = A + v" by (simp add: v_def P_def A_def)
  show ?thesis
  proof (cases "a AND 0x80 = 0")
    case True
    then have t: "twos_val (a # b # r) = int A + int v"
      unfolding twos_val_def av by simp
    show ?thesis
    proof (cases "a = 0")
      case a: True
      then have "b AND 0x80 \<noteq> 0" using assms by simp
      with v t show ?thesis unfolding Pi by simp
    next
      case False
      then have "1 \<le> unat a" using unsigned_eq_0_iff[of a] by (cases "unat a") auto
      then have "1 * (256 * P) \<le> unat a * (256 * P)" by (rule mult_le_mono1)
      then have "256 * P \<le> A" by (simp add: A_def)
      with t show ?thesis unfolding Pi by linarith
    qed
  next
    case False
    then have t: "twos_val (a # b # r) = int A + int v - 65536 * int P"
      unfolding twos_val_def av Pi by simp
    show ?thesis
    proof (cases "a = 0xff")
      case a: True
      then have "b AND 0x80 = 0" using assms by simp
      with v a have "A = 65280 * P" "v < 128 * P" by (simp_all add: A_def)
      with t show ?thesis unfolding Pi by linarith
    next
      case a: False
      have "unat a \<noteq> 255"
      proof
        assume "unat a = 255"
        then have "unat a = unat (0xff :: u8)" by simp
        with a show False by (metis unsigned_word_eqI)
      qed
      then have "unat a \<le> 254" using unat_u8[of a] by linarith
      then have "unat a * (256 * P) \<le> 254 * (256 * P)" by (rule mult_le_mono1)
      then have "A \<le> 65024 * P" by (simp add: A_def)
      moreover have "0 < P" by (simp add: P_def)
      ultimately show ?thesis using t v(1) unfolding Pi by linarith
    qed
  qed
qed

lemma minimal_length_le:
  assumes "minimal bs" and "minimal cs" and "twos_val bs = twos_val cs"
  shows "length cs \<le> length bs"
proof (rule ccontr)
  assume less: "\<not> length cs \<le> length bs"
  show False
  proof (cases cs rule: minimal.cases)
    case 1
    with less show False by simp
  next
    case (2 b)
    with less have "bs = []" by (cases bs) auto
    with assms 2 have "twos_val [b] = 0" by (simp add: twos_val_def)
    moreover have "int (unat b) < 256" using unat_u8[of b] by linarith
    moreover have "unat b \<noteq> 0" using assms(2) 2 by (simp add: unsigned_eq_0_iff)
    moreover have "twos_val [b] = int (unat b) \<or> twos_val [b] = int (unat b) - 256"
      by (simp add: twos_val_def)
    ultimately show False by linarith
  next
    case (3 a b r)
    define P where "P = (256 :: int) ^ length r"
    have "1 \<le> P" by (simp add: P_def)
    have wide: "128 * P \<le> twos_val cs \<or> twos_val cs < - (128 * P)"
      using minimal_wide[of a b r] assms(2) unfolding 3 P_def by blast
    show False
    proof (cases "bs = []")
      case True
      with assms(3) have "twos_val cs = 0" by (simp add: twos_val_def)
      with wide \<open>1 \<le> P\<close> show False by linarith
    next
      case False
      have "length bs - 1 \<le> length r" using less 3 by simp
      then have "(256 :: int) ^ (length bs - 1) \<le> P" by (simp add: P_def power_increasing)
      with twos_range[OF False] wide assms(3) show False by linarith
    qed
  qed
qed

lemma minimal_unique:
  assumes "minimal bs" and "minimal cs" and "twos_val bs = twos_val cs"
  shows "bs = cs"
proof (cases "bs = []")
  case True
  with assms minimal_length_le[OF assms] show ?thesis by simp
next
  case False
  have len: "length bs = length cs"
    using minimal_length_le[OF assms] minimal_length_le[OF assms(2,1)] assms(3) by simp
  define P where "P = (256 :: nat) ^ length bs"
  have Pi: "(256 :: int) ^ length bs = int P" by (simp add: P_def)
  have "be_val bs < P" "be_val cs < P" using be_val_less len by (metis P_def)+
  moreover have "twos_val bs = int (be_val bs) \<or> twos_val bs = int (be_val bs) - int P"
    and "twos_val cs = int (be_val cs) \<or> twos_val cs = int (be_val cs) - int P"
    using len by (auto simp: twos_val_def P_def)
  ultimately have "be_val bs = be_val cs" using assms(3) by linarith
  with len show ?thesis by (rule be_val_inject)
qed

section \<open>Back to decimal\<close>

lemma div10_current:
  assumes "unat r < 10"
  shows "unat (push_bit 8 r OR ucast (b :: u8) :: u32) = unat r * 256 + unat b"
proof -
  have b: "unat (ucast b :: u32) = unat b"
    using unat_u8[of b] by (simp add: unsigned_ucast_eq take_bit_eq_mod)
  have p: "unat (push_bit 8 r) = unat r * 256"
    using assms by (simp add: push_bit_eq_mult unat_word_ariths mult.commute)
  have "push_bit 8 r OR ucast b = push_bit 8 r + ucast b"
    by (rule disjunctive_add [symmetric]) (auto simp: bit_simps dest: bit_imp_le_length)
  then show ?thesis using assms unat_u8[of b] b p by (simp add: unat_add_u32)
qed

lemma div10_val:
  "unat r < 10 \<Longrightarrow> length (fst (div10 r bs)) = length bs \<and> unat (snd (div10 r bs)) < 10 \<and>
     be_val (fst (div10 r bs)) * 10 + unat (snd (div10 r bs)) = unat r * 256 ^ length bs + be_val bs"
proof (induction bs arbitrary: r)
  case (Cons b bs)
  let ?c = "push_bit 8 r OR ucast b :: u32"
  have c: "unat ?c = unat r * 256 + unat b" using Cons.prems by (rule div10_current)
  have m: "unat (?c mod 10) = unat ?c mod 10" and d: "unat (?c div 10) = unat ?c div 10"
    by (simp_all add: unat_mod_distrib unat_div_distrib)
  have q: "unat (ucast (?c div 10) :: u8) = unat ?c div 10"
    using c Cons.prems unat_u8[of b] d by (simp add: unsigned_ucast_eq take_bit_eq_mod)
  have "unat (?c mod 10) < 10" by (simp add: m)
  from Cons.IH[OF this] have IH:
    "length (fst (div10 (?c mod 10) bs)) = length bs" "unat (snd (div10 (?c mod 10) bs)) < 10"
    "be_val (fst (div10 (?c mod 10) bs)) * 10 + unat (snd (div10 (?c mod 10) bs)) =
       unat ?c mod 10 * 256 ^ length bs + be_val bs"
    by (simp_all add: m)
  have "(unat ?c div 10 * 256 ^ length bs) * 10 + unat ?c mod 10 * 256 ^ length bs = unat ?c * 256 ^ length bs"
  proof -
    have "(unat ?c div 10 * 10 + unat ?c mod 10) * 256 ^ length bs = unat ?c * 256 ^ length bs" by simp
    then show ?thesis by (simp only: algebra_simps)
  qed
  with IH q have "be_val (ucast (?c div 10) # fst (div10 (?c mod 10) bs)) * 10 + unat (snd (div10 (?c mod 10) bs)) =
      unat ?c * 256 ^ length bs + be_val bs" by simp
  with IH(1,2) c show ?case by (simp add: Let_def algebra_simps)
qed simp

function decode_digits :: "u8 list \<Rightarrow> string" where
  "decode_digits value =
     (if list_all (\<lambda>b. b = 0) value then []
      else (let r = div10 0 value in char_of (48 + unat (snd r)) # decode_digits (fst r)))"
  by pat_completeness auto
termination
proof (relation "measure be_val")
  fix v x
  assume "\<not> list_all (\<lambda>b. b = 0) v" and "x = div10 0 v"
  then show "(fst x, v) \<in> measure be_val"
    using div10_val[of 0 v] be_val_zero_iff[of v] by simp
qed simp

declare decode_digits.simps [simp del]

definition bigint_decode :: "u8 list \<Rightarrow> string" where
  "bigint_decode bytes =
     (if list_all (\<lambda>b. b = 0) bytes then ''0''
      else (let negative = hd bytes AND 0x80 \<noteq> 0;
                value = (if negative then increment (map NOT bytes) else bytes);
                digits = decode_digits value
            in rev (digits @ (if negative then ''-'' else []))))"

definition show_int :: "int \<Rightarrow> string" where
  "show_int i = (if i < 0 then CHR ''-'' # show_nat (nat (- i)) else show_nat (nat i))"

lemma decode_digits_show: "0 < be_val v \<Longrightarrow> rev (decode_digits v) = show_nat (be_val v)"
proof (induction v rule: decode_digits.induct)
  case (1 v)
  let ?q = "fst (div10 0 v)" and ?r = "unat (snd (div10 0 v))"
  have qr: "be_val ?q * 10 + ?r = be_val v" "?r < 10" using div10_val[of 0 v] by simp_all
  have q: "be_val ?q = be_val v div 10" and r: "?r = be_val v mod 10"
    unfolding qr(1)[symmetric] using qr(2) by simp_all
  have nz: "\<not> list_all (\<lambda>b. b = 0) v" using 1(2) be_val_zero_iff[of v] by simp
  have step: "rev (decode_digits v) = rev (decode_digits ?q) @ [char_of (be_val v mod 10 + 48)]"
    using nz by (subst decode_digits.simps) (simp add: Let_def r add.commute)
  show ?case
  proof (cases "be_val v < 10")
    case True
    then have "be_val ?q = 0" by (simp add: q)
    then have "decode_digits ?q = []"
      by (subst decode_digits.simps) (simp add: be_val_zero_iff)
    with step True show ?thesis by (subst show_nat.simps) simp
  next
    case False
    then have "rev (decode_digits ?q) = show_nat (be_val v div 10)"
      using 1(1)[OF nz refl] q by simp
    with step False show ?thesis by (subst show_nat.simps) simp
  qed
qed

lemma show_nat_0: "show_nat 0 = ''0''"
  by code_simp

lemma decode_show: "bigint_decode bs = show_int (twos_val bs)"
proof (cases "list_all (\<lambda>b. b = 0) bs")
  case True
  then have "be_val bs = 0" by (simp add: be_val_zero_iff)
  moreover have "bs = [] \<or> hd bs AND 0x80 = 0" using True by (cases bs) auto
  ultimately have "twos_val bs = 0" by (auto simp: twos_val_def)
  with True show ?thesis
    by (simp add: bigint_decode_def show_int_def show_nat_0)
next
  case False
  then have pos: "0 < be_val bs" and ne: "bs \<noteq> []" using be_val_zero_iff[of bs] by auto
  have less: "be_val bs < 256 ^ length bs" by (rule be_val_less)
  show ?thesis
  proof (cases "hd bs AND 0x80 = 0")
    case True
    with False ne pos show ?thesis
      by (simp add: bigint_decode_def Let_def decode_digits_show show_int_def twos_val_def)
  next
    case neg: False
    have v: "be_val (increment (map NOT bs)) = 256 ^ length bs - be_val bs"
      using pos by (rule negate_val)
    have t: "twos_val bs = - int (256 ^ length bs - be_val bs)"
      using neg ne less by (simp add: twos_val_def of_nat_diff)
    have "bigint_decode bs = CHR ''-'' # show_nat (256 ^ length bs - be_val bs)"
      using False neg less v by (simp add: bigint_decode_def Let_def decode_digits_show)
    moreover have "nat (- twos_val bs) = 256 ^ length bs - be_val bs"
      unfolding t by (simp only: minus_minus nat_int)
    moreover have "twos_val bs < 0" unfolding t using less by simp
    ultimately show ?thesis by (simp add: show_int_def)
  qed
qed

lemma show_nat_no_minus: "show_nat n = c # t \<Longrightarrow> c \<noteq> CHR ''-''"
  using show_nat_digits[of n] by (auto simp: is_digit_def less_eq_char_def)

lemma strip_show_nat: "strip_prefix_char (CHR ''-'') (show_nat n) = None"
  using show_nat_no_minus[of n] by (auto simp: strip_prefix_char_def split: list.splits)

lemma show_int_decimal [text_simps]:
  "is_decimal (show_int i)" "decimal_val (show_int i) = i"
  by (simp_all add: is_decimal_def decimal_val_def show_int_def strip_show_nat)
     (auto simp: strip_prefix_char_def)

section \<open>Properties\<close>

definition bigint_parse :: "string \<Rightarrow> unit + u8 list" where
  "bigint_parse s = (case bigint_encode s of None \<Rightarrow> Inl () | Some bs \<Rightarrow> Inr bs)"

interpretation bigint: text_codec "\<lambda>bs. Some (bigint_decode bs)" bigint_parse minimal
proof
  fix bs :: "u8 list" and t
  show "\<exists>t. Some (bigint_decode bs) = Some t" by simp
  assume m: "minimal bs" and "Some (bigint_decode bs) = Some t"
  then have t: "t = show_int (twos_val bs)" by (simp add: decode_show)
  obtain cs where cs: "bigint_encode t = Some cs"
    using encode_total[of t] by (auto simp: t show_int_decimal)
  then have "cs = bs"
    using encode_Some[OF cs] m by (intro minimal_unique) (simp_all add: t show_int_decimal)
  with cs show "bigint_parse t = Inr bs" by (simp add: bigint_parse_def)
next
  fix t bs assume "bigint_parse t = Inr bs"
  then show "minimal bs"
    using encode_Some[of t bs] by (simp add: bigint_parse_def split: option.splits)
qed

text \<open>
  Encoding succeeds exactly on decimal text (an optional minus sign and at least
  one digit), and the bytes it gives are of minimal length and read, as two's complement, as
  the integer the text names.
\<close>

theorem bigint_encode_correct:
  "(is_decimal s \<longleftrightarrow> bigint_encode s \<noteq> None) \<and>
   (\<forall>bs. bigint_encode s = Some bs \<longrightarrow> minimal bs \<and> twos_val bs = decimal_val s)"
  using encode_Some encode_total by blast

theorem bigint_encode_correct_witness:
  "minimal [0xff, 0x01] \<and> twos_val [0xff, 0x01] = decimal_val ''-255''"
proof -
  have "bigint_encode ''-255'' = Some [0xff, 0x01]" by code_simp
  then show ?thesis using bigint_encode_correct[of "''-255''"] by blast
qed

text \<open>
  One number has exactly one encoding: two decimal texts encode to the same bytes
  if and only if they name the same integer (leading zeros and \<open>-0\<close> included), which is what
  makes the bytes usable as a content address.
\<close>

theorem bigint_encoding_unique:
  assumes "is_decimal s" and "is_decimal t"
  shows "bigint_encode s = bigint_encode t \<longleftrightarrow> decimal_val s = decimal_val t"
  using encode_total[OF assms(1)] encode_total[OF assms(2)] encode_Some minimal_unique by metis

theorem bigint_encoding_unique_witness:
  "bigint_encode ''-0'' = bigint_encode ''000'' \<longleftrightarrow> decimal_val ''-0'' = decimal_val ''000''"
  by (rule bigint_encoding_unique) code_simp+

text \<open>
  Decoding is total and reads any bytes, canonical or not, as the decimal text of
  their two's-complement value; on canonical bytes, encoding that text gives the bytes back.
\<close>

theorem bigint_decode_roundtrip:
  "bigint_decode bs = show_int (twos_val bs) \<and> (minimal bs \<longrightarrow> bigint_encode (bigint_decode bs) = Some bs)"
  using decode_show[of bs] bigint.parse_render[of bs]
  by (auto simp: bigint_parse_def split: option.splits)

theorem bigint_decode_roundtrip_witness:
  "minimal [0xff, 0x7f] \<and> bigint_encode (bigint_decode [0xff, 0x7f]) = Some [0xff, 0x7f]"
proof -
  have "minimal [0xff, 0x7f]" by simp
  then show ?thesis using bigint_decode_roundtrip[of "[0xff, 0x7f]"] by blast
qed

end
