(* ===== verification/Cells.thy ===== *)
theory Cells
  imports BigInts
begin

text \<open>
  The data model of \<^verbatim>\<open>borg-core\<close>: values and their types (\<^verbatim>\<open>value.rs\<close>), cells, events and
  what an event reflects (\<^verbatim>\<open>cell.rs\<close>), layers, guards, branches and read paths (\<^verbatim>\<open>layer.rs\<close>),
  freshness (\<^verbatim>\<open>freshness.rs\<close>), definitions (\<^verbatim>\<open>def.rs\<close>) and errors (\<^verbatim>\<open>error.rs\<close>). Error
  messages that the source formats into strings are constructors that carry what is
  formatted. The derived orders of \<^verbatim>\<open>CellRef\<close> and \<^verbatim>\<open>CellAt\<close>, which fix the iteration order of the
  source's \<^verbatim>\<open>BTreeSet\<close>s, are instances of \<open>linorder\<close>.
\<close>

type_synonym object_type_name = string
type_synonym field_name = string

section \<open>Values (value.rs)\<close>

text \<open>An \<^verbatim>\<open>i64\<close> is a 64-bit word; a double is its bit pattern.\<close>

datatype val =
    VInt u64
  | VBool bool
  | VDouble u64
  | VRef pid
  | VTombstone

definition as_ref_pid :: "val \<Rightarrow> pid option" where
  "as_ref_pid v = (case v of VRef p \<Rightarrow> Some p | _ \<Rightarrow> None)"

definition is_tombstone :: "val \<Rightarrow> bool" where
  "is_tombstone v = (case v of VTombstone \<Rightarrow> True | _ \<Rightarrow> False)"

datatype value_input =
    Immediate val
  | ContentInput pid_kind "u8 list"

definition input_string :: "string \<Rightarrow> value_input" where
  "input_string text = ContentInput PString (map of_char text)"

definition input_binary :: "u8 list \<Rightarrow> value_input" where
  "input_binary bytes = ContentInput PBinary bytes"

fun immediate :: "value_input \<Rightarrow> val option" where
  "immediate (Immediate v) = Some v"
| "immediate (ContentInput _ _) = None"

datatype value_type =
    TInt | TBool | TDouble | TString | TBinary | TBigInt
  | TObject object_type_name
  | TList value_type
  | TAny | TAnyObject | TAnyArray | TAnyNumber

definition accepts :: "value_type \<Rightarrow> val \<Rightarrow> bool" where
  "accepts ty v =
     (if is_tombstone v then True
      else (case (ty, v) of
          (TAny, _) \<Rightarrow> True
        | (TInt, VInt _) \<Rightarrow> True
        | (TBool, VBool _) \<Rightarrow> True
        | (TDouble, VDouble _) \<Rightarrow> True
        | (TAnyNumber, VInt _) \<Rightarrow> True
        | (TAnyNumber, VDouble _) \<Rightarrow> True
        | (TString, VRef p) \<Rightarrow> pid_kind_of p = PString
        | (TBinary, VRef p) \<Rightarrow> pid_kind_of p = PBinary
        | (TBigInt, VRef p) \<Rightarrow> pid_kind_of p = PBigInt
        | (TAnyNumber, VRef p) \<Rightarrow> pid_kind_of p = PBigInt
        | (TObject _, VRef p) \<Rightarrow> pid_kind_of p = PObject \<or> pid_kind_of p = PAnyObject
        | (TAnyObject, VRef p) \<Rightarrow> pid_kind_of p = PObject \<or> pid_kind_of p = PAnyObject
        | (TList _, VRef p) \<Rightarrow> pid_kind_of p = PList \<or> pid_kind_of p = PAnyArray
        | (TAnyArray, VRef p) \<Rightarrow> pid_kind_of p = PList \<or> pid_kind_of p = PAnyArray
        | _ \<Rightarrow> False))"

fun display_type :: "value_type \<Rightarrow> string" where
  "display_type TInt = ''Int''"
| "display_type TBool = ''Bool''"
| "display_type TDouble = ''Double''"
| "display_type TString = ''String''"
| "display_type TBinary = ''Binary''"
| "display_type TBigInt = ''BigInt''"
| "display_type (TObject name) = name"
| "display_type (TList element) = display_type element @ ''[]''"
| "display_type TAny = ''Any''"
| "display_type TAnyObject = ''AnyObject''"
| "display_type TAnyArray = ''AnyArray''"
| "display_type TAnyNumber = ''AnyNumber''"

section \<open>Cells (cell.rs)\<close>

datatype buffer_id =
    BObject object_type_name
  | BObjectProp object_type_name field_name
  | BList object_type_name
  | BListElem object_type_name
  | BAnyObject
  | BAnyArray

datatype cell_key = KPid pid | KElem pid u64

fun key_pid :: "cell_key \<Rightarrow> pid" where
  "key_pid (KPid p) = p"
| "key_pid (KElem p _) = p"

datatype cell_ref = CellRef (cr_buffer: buffer_id) (cr_key: cell_key)

definition cell_prop :: "object_type_name \<Rightarrow> field_name \<Rightarrow> pid \<Rightarrow> cell_ref" where
  "cell_prop s f p = CellRef (BObjectProp s f) (KPid p)"

definition cell_existence :: "object_type_name \<Rightarrow> pid \<Rightarrow> cell_ref" where
  "cell_existence s p = CellRef (BObject s) (KPid p)"

definition cell_list :: "object_type_name \<Rightarrow> pid \<Rightarrow> cell_ref" where
  "cell_list e p = CellRef (BList e) (KPid p)"

definition cell_elem :: "object_type_name \<Rightarrow> pid \<Rightarrow> u64 \<Rightarrow> cell_ref" where
  "cell_elem l p i = CellRef (BListElem l) (KElem p i)"

definition cell_pid :: "cell_ref \<Rightarrow> pid" where
  "cell_pid c = key_pid (cr_key c)"

definition existence_of :: "cell_ref \<Rightarrow> cell_ref" where
  "existence_of c =
     (case cr_buffer c of BObjectProp s _ \<Rightarrow> cell_existence s (cell_pid c) | _ \<Rightarrow> c)"

fun address :: "buffer_id \<Rightarrow> string \<times> bool" where
  "address (BObject name) = (name, False)"
| "address (BObjectProp name _) = (name, False)"
| "address (BList name) = (name, True)"
| "address (BListElem name) = (name, True)"
| "address BAnyObject = (''Any'', False)"
| "address BAnyArray = (''Any'', True)"

text \<open>The canonical text of a cell; \<open>None\<close> is a panic of the PID's rendering.\<close>

definition display_cell :: "cell_ref \<Rightarrow> string option" where
  "display_cell c =
     (case display_pid (cell_pid c) of
        None \<Rightarrow> None
      | Some pid \<Rightarrow>
          Some (fst (address (cr_buffer c)) @ (if snd (address (cr_buffer c)) then ''[]'' else []) @
                CHR '':'' # pid @
                (case cr_key c of KElem _ index \<Rightarrow> ''['' @ show_nat (unat index) @ '']'' | KPid _ \<Rightarrow> []) @
                (case cr_buffer c of BObjectProp _ field \<Rightarrow> CHR ''.'' # field | _ \<Rightarrow> [])))"

datatype cell_at = CellAt (ca_cell: cell_ref) (ca_version: def_version)

datatype origin = OSource | ODerived

datatype writer = WClient | WProducer producer_id

definition writer_origin :: "writer \<Rightarrow> origin" where
  "writer_origin w = (case w of WClient \<Rightarrow> OSource | WProducer _ \<Rightarrow> ODerived)"

record derivation =
  dn_producer :: producer_id
  dn_fresh_as_of :: layer_id
  dn_read_set :: "cell_at list"

record event =
  ev_id :: event_id
  ev_cell :: cell_ref
  ev_value :: val
  ev_version :: def_version
  ev_origin :: origin
  ev_derivation :: "derivation option"
  ev_authored :: layer_id

record event_draft =
  ed_value :: val
  ed_version :: def_version
  ed_origin :: origin
  ed_derivation :: "derivation option"

record landed =
  ld_event :: event
  ld_at :: layer_id

definition landed_reflects :: "landed \<Rightarrow> layer_id" where
  "landed_reflects l =
     (case ev_derivation (ld_event l) of None \<Rightarrow> ld_at l | Some by \<Rightarrow> dn_fresh_as_of by)"

section \<open>Layers and branches (layer.rs)\<close>

datatype layer_state = LOpen | LSealed | LCommitted | LAborted

datatype layer_kind = LKValue | LKDef

datatype layer_author = ASource | ADerived producer_id layer_id

record guard =
  gd_cells :: "cell_ref list"
  gd_since :: layer_id

record layer =
  ly_id :: layer_id
  ly_branch :: branch_id
  ly_kind :: layer_kind
  ly_author :: layer_author
  ly_state :: layer_state
  ly_parent :: "layer_id option"
  ly_guards :: "guard list"

record branch =
  br_id :: branch_id
  br_name :: "string option"
  br_origin :: "layer_id option"

text \<open>\<^verbatim>\<open>ReadPath::segments\<close>, innermost first.\<close>

type_synonym read_path = "(branch_id \<times> layer_id) list"

definition path_branch :: "read_path \<Rightarrow> branch_id option" where
  "path_branch path = (case path of [] \<Rightarrow> None | (b, _) # _ \<Rightarrow> Some b)"

definition ceiling :: "read_path \<Rightarrow> layer_id" where
  "ceiling path = (case map snd path of [] \<Rightarrow> 0 | m # ms \<Rightarrow> fold max ms m)"

datatype merge_mode = DefOnly | DefAndData

section \<open>Freshness (freshness.rs)\<close>

datatype freshness = Current | Unvalidated | Stale | Broken | Tombstoned

datatype freshness_requirement = AnyFreshness | Validated | CurrentRequired

record 'a resolved =
  rs_value :: 'a
  rs_origin :: origin
  rs_event :: "event_id option"
  rs_authored_at :: layer_id
  rs_landed_at :: layer_id
  rs_fresh_as_of :: layer_id
  rs_state :: freshness
  rs_by :: "producer_id option"

section \<open>Definitions (def.rs)\<close>

datatype ownership = OwnSource | OwnDerived producer_id

definition ownership_producer :: "ownership \<Rightarrow> producer_id option" where
  "ownership_producer own = (case own of OwnSource \<Rightarrow> None | OwnDerived p \<Rightarrow> Some p)"

record field_def =
  fd_name :: field_name
  fd_ty :: value_type
  fd_declaring_repo :: repo_id
  fd_ownership :: ownership
  fd_version :: layer_id

datatype migration_direction = MUp | MDown

datatype producer_kind = PKPipeline | PKMigration migration_direction

record producer_def =
  pd_id :: producer_id
  pd_kind :: producer_kind
  pd_source :: buffer_id
  pd_version :: layer_id
  pd_declaring_repo :: repo_id
  pd_fingerprint :: "string option"

datatype def_event =
    DeclareField object_type_name field_name value_type repo_id ownership
  | MutateField object_type_name field_name value_type repo_id producer_id "producer_id option"
  | DeleteField object_type_name field_name repo_id
  | PushProducer producer_def

fun def_touches :: "def_event \<Rightarrow> (object_type_name \<times> field_name) option" where
  "def_touches (DeclareField s f _ _ _) = Some (s, f)"
| "def_touches (MutateField s f _ _ _ _) = Some (s, f)"
| "def_touches (DeleteField s f _) = Some (s, f)"
| "def_touches (PushProducer _) = None"

fun def_repo :: "def_event \<Rightarrow> repo_id option" where
  "def_repo (DeclareField _ _ _ repo _) = Some repo"
| "def_repo (MutateField _ _ _ repo _ _) = Some repo"
| "def_repo (DeleteField _ _ repo) = Some repo"
| "def_repo (PushProducer d) = Some (pd_declaring_repo d)"

section \<open>Errors (error.rs)\<close>

datatype parse_reason =
    PidReason pid_error
  | TrailingDot
  | ExpectedStructId
  | MissingElementType
  | ListCellsHaveNoFields
  | UnclosedBracket
  | NotAnIndex string
  | MissingStructName
  | UntypedObjectHasNoFields
  | NotAnId string
  | TooLargeForInt
  | TooLargeAppendN
  | FieldTakes value_type string
  | NotHexPairs
  | NotAReference

record parse_error =
  pe_kind :: string
  pe_input :: string
  pe_reason :: parse_reason

datatype write_rejection =
    UndeclaredStruct cell_ref object_type_name
  | UndeclaredField cell_ref object_type_name string string
  | TypeMismatch cell_ref value_type val
  | OwnershipViolation cell_ref ownership writer

datatype merge_rejection =
    DefDiverged object_type_name
  | DanglingWrite cell_ref layer_id
  | GuardConflict cell_ref

text \<open>The texts that \<^verbatim>\<open>BorgError::Storage\<close> carries in the modelled components.\<close>

datatype storage_error =
    UnknownEvent event_id
  | LayerNotOpen layer_id
  | LayerIsSealed layer_id
  | AuthoredElsewhere event_id layer_id layer_id
  | LayerExists layer_id
  | LayerNotStaged layer_id
  | LayerNotSealed layer_id
  | UnknownLayer layer_id
  | CannotMergeRoot
  | ChildHasNoParent

text \<open>\<open>RustPanic\<close> is not an error value of the source: it is where the source would panic.\<close>

datatype borg_error =
    FieldCollision object_type_name string repo_id
  | NotDeclaringRepo repo_id repo_id object_type_name string
  | MissingMigration object_type_name string
  | MigrationOnDerivedField object_type_name string producer_id
  | WriteRejected write_rejection
  | ProducerCycle producer_id u32
  | ProducerFailed producer_id string
  | GuardViolated cell_ref layer_id layer_id
  | GuardOnDerivedCell cell_ref
  | MergeRejected merge_rejection
  | LayerStateViolation layer_id layer_state layer_state
  | LayerNotOnBranch layer_id branch_id
  | MixedLayerKind
  | NotContentAddressedError pid_kind
  | StorageError storage_error
  | Unreachable string
  | ParseFailed parse_error
  | Execution string
  | RustPanic string

type_synonym 'a result = "borg_error + 'a"

section \<open>Derived orders\<close>

fun pid_key :: "pid \<Rightarrow> nat list" where
  "pid_key (Allocated k b a c) = [0, kind_code k, unat b, unat a, unat c]"
| "pid_key (Content k h) = [1, kind_code k] @ map (\<lambda>x. Suc (unat x)) h @ [0]"

fun buffer_key :: "buffer_id \<Rightarrow> nat list" where
  "buffer_key (BObject s) = 0 # str_key s"
| "buffer_key (BObjectProp s f) = 1 # str_key s @ str_key f"
| "buffer_key (BList s) = 2 # str_key s"
| "buffer_key (BListElem s) = 3 # str_key s"
| "buffer_key BAnyObject = [4]"
| "buffer_key BAnyArray = [5]"

fun cell_key_key :: "cell_key \<Rightarrow> nat list" where
  "cell_key_key (KPid p) = 0 # pid_key p"
| "cell_key_key (KElem p i) = 1 # pid_key p @ [unat i]"

definition cell_ref_key :: "cell_ref \<Rightarrow> nat list" where
  "cell_ref_key c = buffer_key (cr_buffer c) @ cell_key_key (cr_key c)"

definition cell_at_key :: "cell_at \<Rightarrow> nat list" where
  "cell_at_key a = cell_ref_key (ca_cell a) @ [unat (dv_layer (ca_version a))]"

lemma kind_code_inject [simp]: "kind_code k = kind_code l \<longleftrightarrow> k = l"
  by (cases k; cases l) simp_all

lemma unat_inject [simp]: "unat (x :: 'a :: len word) = unat y \<longleftrightarrow> x = y"
  by (metis unsigned_word_eqI)

lemma bytes_key_append_inject:
  "map (\<lambda>x :: u8. Suc (unat x)) h @ 0 # r = map (\<lambda>x. Suc (unat x)) g @ 0 # q \<longleftrightarrow> h = g \<and> r = q"
proof (induction h arbitrary: g)
  case Nil
  then show ?case by (cases g) auto
next
  case (Cons x h)
  then show ?case by (cases g) auto
qed

lemma pid_key_append_inject [simp]:
  "pid_key p @ r = pid_key q @ s \<longleftrightarrow> p = q \<and> r = s"
  by (cases p; cases q) (auto simp: bytes_key_append_inject)

lemma pid_key_inject [simp]: "pid_key p = pid_key q \<longleftrightarrow> p = q"
  using pid_key_append_inject[of p "[]" q "[]"] by simp

lemma buffer_key_append_inject [simp]:
  "buffer_key b @ r = buffer_key c @ s \<longleftrightarrow> b = c \<and> r = s"
  by (cases b; cases c) auto

lemma cell_key_key_append_inject [simp]:
  "length r = length s \<Longrightarrow> cell_key_key k @ r = cell_key_key l @ s \<longleftrightarrow> k = l \<and> r = s"
  by (cases k; cases l) auto

lemma cell_key_key_inject [simp]: "cell_key_key k = cell_key_key l \<longleftrightarrow> k = l"
  using cell_key_key_append_inject[of "[]" "[]" k l] by simp

lemma cell_ref_key_inject [simp]: "cell_ref_key c = cell_ref_key d \<longleftrightarrow> c = d"
  by (cases c; cases d) (simp add: cell_ref_key_def)

lemma cell_at_key_inject [simp]: "cell_at_key a = cell_at_key b \<longleftrightarrow> a = b"
  by (cases a; cases b; cases "ca_version a"; cases "ca_version b"; cases "ca_cell a"; cases "ca_cell b")
     (simp add: cell_at_key_def cell_ref_key_def)

instantiation cell_ref :: linorder
begin

definition less_eq_cell_ref :: "cell_ref \<Rightarrow> cell_ref \<Rightarrow> bool" where
  "a \<le> b \<longleftrightarrow> cell_ref_key a \<le> cell_ref_key b"

definition less_cell_ref :: "cell_ref \<Rightarrow> cell_ref \<Rightarrow> bool" where
  "a < b \<longleftrightarrow> cell_ref_key a < cell_ref_key b"

instance
  by standard (auto simp: less_eq_cell_ref_def less_cell_ref_def dest: order.antisym)

end

instantiation cell_at :: linorder
begin

definition less_eq_cell_at :: "cell_at \<Rightarrow> cell_at \<Rightarrow> bool" where
  "a \<le> b \<longleftrightarrow> cell_at_key a \<le> cell_at_key b"

definition less_cell_at :: "cell_at \<Rightarrow> cell_at \<Rightarrow> bool" where
  "a < b \<longleftrightarrow> cell_at_key a < cell_at_key b"

instance
  by standard (auto simp: less_eq_cell_at_def less_cell_at_def dest: order.antisym)

end

interpretation cell_ref_order: ordered_by_key cell_ref_key "(\<le>)" "(<)"
  by unfold_locales (simp_all add: less_eq_cell_ref_def less_cell_ref_def)

interpretation cell_at_order: ordered_by_key cell_at_key "(\<le>)" "(<)"
  by unfold_locales (simp_all add: less_eq_cell_at_def less_cell_at_def)

section \<open>Facts about the data model\<close>

lemma existence_of_idem [simp]: "existence_of (existence_of c) = existence_of c"
  by (cases "cr_buffer c") (auto simp: existence_of_def cell_existence_def cell_pid_def split: buffer_id.splits)

lemma ceiling_upper: "(b, l) \<in> set path \<Longrightarrow> l \<le> ceiling path"
proof -
  assume "(b, l) \<in> set path"
  then have l: "l \<in> set (map snd path)" by force
  obtain m ms where "map snd path = m # ms" using l by (cases "map snd path") auto
  moreover have "y \<in> set (m # ms) \<Longrightarrow> y \<le> fold max ms m" for y
    by (simp add: Max.set_eq_fold [symmetric])
  ultimately show ?thesis using l by (auto simp: ceiling_def)
qed

end
