(* ===== verification/Cell_Text.thy ===== *)
theory Cell_Text
  imports Cells
begin

text \<open>
  \<^verbatim>\<open>borg-core/src/parse.rs\<close>: cell addresses as text. \<open>parse_cell_ref\<close> is \<^verbatim>\<open>cell_ref\<close> with its early
  returns in source order, \<open>parse_cell_pid\<close> its helper \<^verbatim>\<open>pid\<close>. \<open>addressable\<close> describes exactly
  the cells a text can name; with it rendering and parsing satisfy the codec contract. The
  small lexical helpers of the value parser (\<open>is_integer_literal\<close>, \<open>looks_numeric\<close>, \<open>unhex\<close>)
  and the renderer of interned content are here too.
\<close>

section \<open>Lexical helpers\<close>

definition strip_suffix :: "string \<Rightarrow> string \<Rightarrow> string option" where
  "strip_suffix suf s =
     (if length suf \<le> length s \<and> drop (length s - length suf) s = suf
      then Some (take (length s - length suf) s) else None)"

definition is_sep :: "char \<Rightarrow> bool" where
  "is_sep c \<longleftrightarrow> c = CHR '':'' \<or> c = CHR ''#''"

definition parse_err :: "string \<Rightarrow> parse_reason \<Rightarrow> parse_error" where
  "parse_err input reason = \<lparr>pe_kind = ''cell'', pe_input = input, pe_reason = reason\<rparr>"

definition is_integer_literal :: "string \<Rightarrow> bool" where
  "is_integer_literal input =
     (let digits = (case input of c # t \<Rightarrow> if c = CHR ''+'' \<or> c = CHR ''-'' then t else input | [] \<Rightarrow> input)
      in digits \<noteq> [] \<and> list_all is_digit digits)"

definition looks_numeric :: "string \<Rightarrow> bool" where
  "looks_numeric input \<longleftrightarrow>
     (case input of [] \<Rightarrow> False
      | c # _ \<Rightarrow> is_digit c \<or> c = CHR ''+'' \<or> c = CHR ''-'' \<or> c = CHR ''.'') \<and>
     list_ex is_digit input"

definition hex_digit :: "char \<Rightarrow> u8 option" where
  "hex_digit c =
     (if is_digit c then Some (of_char c - 48)
      else if CHR ''a'' \<le> c \<and> c \<le> CHR ''f'' then Some (of_char c - 87)
      else if CHR ''A'' \<le> c \<and> c \<le> CHR ''F'' then Some (of_char c - 55)
      else None)"

fun unhex_pairs :: "string \<Rightarrow> u8 list option" where
  "unhex_pairs (a # b # rest) =
     (case hex_digit a of None \<Rightarrow> None | Some x \<Rightarrow>
      case hex_digit b of None \<Rightarrow> None | Some y \<Rightarrow>
      case unhex_pairs rest of None \<Rightarrow> None | Some bs \<Rightarrow> Some ((push_bit 4 x OR y) # bs))"
| "unhex_pairs _ = Some []"

definition unhex :: "string \<Rightarrow> u8 list option" where
  "unhex text = (if odd (length text) then None else unhex_pairs text)"

definition hex_char :: "u8 \<Rightarrow> char" where
  "hex_char n = ''0123456789abcdef'' ! unat n"

definition hex_byte :: "u8 \<Rightarrow> string" where
  "hex_byte b = [hex_char (drop_bit 4 b), hex_char (b AND 15)]"

text \<open>
  \<open>render_interned\<close> is given the UTF-8 bytes of an interned string, which it returns as they
  are: only text is ever interned as a string.
\<close>

definition render_interned :: "pid \<Rightarrow> u8 list \<Rightarrow> string option" where
  "render_interned p bytes =
     (case pid_kind_of p of
        PString \<Rightarrow> Some (map (\<lambda>b. char_of (unat b)) bytes)
      | PBinary \<Rightarrow> Some (''0x'' @ concat (map hex_byte bytes))
      | PBigInt \<Rightarrow> Some (bigint_decode bytes @ ''n'')
      | _ \<Rightarrow> map_option (\<lambda>t. CHR ''@'' # t) (display_pid p))"

section \<open>Cell addresses\<close>

definition parse_cell_pid ::
  "pid_kind \<Rightarrow> string \<Rightarrow> bool \<Rightarrow> branch_id \<Rightarrow> allocator_id \<Rightarrow> string \<Rightarrow> parse_error + pid" where
  "parse_cell_pid kind ident shorthand branch allocator input =
     (if \<not> shorthand then
        (case pid_from_str ident of
           Inl inner \<Rightarrow> Inl (parse_err input (PidReason inner))
         | Inr p \<Rightarrow> Inr p)
      else
        (case parse_u64 ident of
           None \<Rightarrow> Inl (parse_err input (NotAnId ident))
         | Some counter \<Rightarrow> Inr (Allocated kind branch allocator counter)))"

definition parse_list_cell ::
  "string \<Rightarrow> string option \<Rightarrow> string \<Rightarrow> bool \<Rightarrow> branch_id \<Rightarrow> allocator_id \<Rightarrow> string \<Rightarrow> parse_error + cell_ref"
where
  "parse_list_cell element field ident shorthand branch allocator input =
     (if element = [] then Inl (parse_err input MissingElementType)
      else if field \<noteq> None then Inl (parse_err input ListCellsHaveNoFields)
      else
        (case (case split_once (CHR ''['') ident of
                 None \<Rightarrow> Inr (ident, None)
               | Some (ident', index) \<Rightarrow>
                   (case strip_suffix '']'' index of
                      None \<Rightarrow> Inl (parse_err input UnclosedBracket)
                    | Some index' \<Rightarrow>
                        (case parse_u64 index' of
                           None \<Rightarrow> Inl (parse_err input (NotAnIndex index'))
                         | Some i \<Rightarrow> Inr (ident', Some i)))) of
           Inl e \<Rightarrow> Inl e
         | Inr (ident', index) \<Rightarrow>
             (case parse_cell_pid PList ident' shorthand branch allocator input of
                Inl e \<Rightarrow> Inl e
              | Inr p \<Rightarrow>
                  Inr (if pid_kind_of p = PAnyArray then
                         CellRef BAnyArray (case index of Some i \<Rightarrow> KElem p i | None \<Rightarrow> KPid p)
                       else (case index of Some i \<Rightarrow> cell_elem element p i | None \<Rightarrow> cell_list element p)))))"

definition parse_object_cell ::
  "string \<Rightarrow> string option \<Rightarrow> string \<Rightarrow> bool \<Rightarrow> branch_id \<Rightarrow> allocator_id \<Rightarrow> string \<Rightarrow> parse_error + cell_ref"
where
  "parse_object_cell name field ident shorthand branch allocator input =
     (if name = [] then Inl (parse_err input MissingStructName)
      else
        (case parse_cell_pid PObject ident shorthand branch allocator input of
           Inl e \<Rightarrow> Inl e
         | Inr p \<Rightarrow>
             if pid_kind_of p = PAnyObject then
               (if field \<noteq> None then Inl (parse_err input UntypedObjectHasNoFields)
                else Inr (CellRef BAnyObject (KPid p)))
             else Inr (case field of Some f \<Rightarrow> cell_prop name f p | None \<Rightarrow> cell_existence name p)))"

definition parse_cell_ref :: "string \<Rightarrow> branch_id \<Rightarrow> allocator_id \<Rightarrow> parse_error + cell_ref" where
  "parse_cell_ref input branch allocator =
     (case (case split_once (CHR ''.'') input of
              Some (head, field) \<Rightarrow>
                if field \<noteq> [] then Inr (head, Some field) else Inl (parse_err input TrailingDot)
            | None \<Rightarrow> Inr (input, None)) of
        Inl e \<Rightarrow> Inl e
      | Inr (head, field) \<Rightarrow>
          (case dropWhile (\<lambda>c. \<not> is_sep c) head of
             [] \<Rightarrow> Inl (parse_err input ExpectedStructId)
           | sep # ident \<Rightarrow>
               (let name = takeWhile (\<lambda>c. \<not> is_sep c) head; shorthand = (sep = CHR ''#'') in
                case strip_suffix ''[]'' name of
                  Some element \<Rightarrow> parse_list_cell element field ident shorthand branch allocator input
                | None \<Rightarrow> parse_object_cell name field ident shorthand branch allocator input)))"

section \<open>What a text can name\<close>

definition plain_name :: "string \<Rightarrow> bool" where
  "plain_name s \<longleftrightarrow> s \<noteq> [] \<and> CHR ''.'' \<notin> set s \<and> CHR '':'' \<notin> set s \<and> CHR ''#'' \<notin> set s"

fun addressable :: "cell_ref \<Rightarrow> bool" where
  "addressable (CellRef (BObject s) (KPid p)) =
     (plain_name s \<and> strip_suffix ''[]'' s = None \<and> wf_pid p \<and> pid_kind_of p \<noteq> PAnyObject)"
| "addressable (CellRef (BObjectProp s f) (KPid p)) =
     (plain_name s \<and> strip_suffix ''[]'' s = None \<and> f \<noteq> [] \<and> wf_pid p \<and> pid_kind_of p \<noteq> PAnyObject)"
| "addressable (CellRef (BList s) (KPid p)) =
     (plain_name s \<and> wf_pid p \<and> pid_kind_of p \<noteq> PAnyArray)"
| "addressable (CellRef (BListElem s) (KElem p i)) =
     (plain_name s \<and> wf_pid p \<and> pid_kind_of p \<noteq> PAnyArray)"
| "addressable (CellRef BAnyObject (KPid p)) = (wf_pid p \<and> pid_kind_of p = PAnyObject)"
| "addressable (CellRef BAnyArray k) = (wf_pid (key_pid k) \<and> pid_kind_of (key_pid k) = PAnyArray)"
| "addressable _ = False"

lemma strip_suffix_append [simp]: "strip_suffix suf (s @ suf) = Some s"
  by (simp add: strip_suffix_def)

lemma strip_suffix_Some: "strip_suffix suf s = Some t \<Longrightarrow> s = t @ suf"
  by (auto simp: strip_suffix_def split: if_splits) (metis append_take_drop_id)

lemma base32_chars: "set (encode_base32 bs) \<subseteq> set ALPHABET"
proof -
  obtain ds where ds: "encode_base32 bs = map digit_at ds" "\<forall>d \<in> set ds. unat d < 32"
    using encode_loop_bits[of 0 0 bs] by (auto simp: encode_base32_def)
  have "digit_at d \<in> set ALPHABET" if "unat d < 32" for d
  proof -
    have "length ALPHABET = 32" by (simp add: ALPHABET_def)
    with that show ?thesis by (simp add: digit_at_def)
  qed
  with ds show ?thesis by auto
qed

lemma pid_text_chars:
  assumes "c \<in> {CHR ''.'', CHR '':'', CHR ''#'', CHR ''['', CHR '']''}"
  shows "c \<notin> set (pid_text p)"
proof -
  have "c \<notin> set ALPHABET" using assms by (auto simp: ALPHABET_def)
  moreover have "c \<noteq> letter k" for k using assms by (cases k) auto
  ultimately show ?thesis using assms base32_chars by (auto simp: pid_text_def)
qed

lemma pid_text_no [simp]:
  "CHR ''.'' \<notin> set (pid_text p)" "CHR '':'' \<notin> set (pid_text p)" "CHR ''#'' \<notin> set (pid_text p)"
  "CHR ''['' \<notin> set (pid_text p)"
  by (simp_all add: pid_text_chars)

lemma show_nat_no_punct [simp]:
  "CHR ''.'' \<notin> set (show_nat n)" "CHR '':'' \<notin> set (show_nat n)" "CHR ''#'' \<notin> set (show_nat n)"
  by (simp_all add: show_nat_no is_digit_def less_eq_char_def)

text \<open>Splitting a rendered address: the head before a field, then the name before the colon.\<close>

lemma split_head:
  assumes "\<And>c. c \<in> set name \<Longrightarrow> \<not> is_sep c"
  shows "takeWhile (\<lambda>c. \<not> is_sep c) (name @ CHR '':'' # ident) = name"
    and "dropWhile (\<lambda>c. \<not> is_sep c) (name @ CHR '':'' # ident) = CHR '':'' # ident"
  using assms by (simp_all add: is_sep_def)

lemma parse_rendered:
  assumes "CHR ''.'' \<notin> set name" "CHR ''.'' \<notin> set ident" "\<And>c. c \<in> set name \<Longrightarrow> \<not> is_sep c"
    and "field \<noteq> Some []"
  shows "parse_cell_ref (name @ CHR '':'' # ident @ (case field of None \<Rightarrow> [] | Some f \<Rightarrow> CHR ''.'' # f)) b a =
     (let input = name @ CHR '':'' # ident @ (case field of None \<Rightarrow> [] | Some f \<Rightarrow> CHR ''.'' # f) in
      case strip_suffix ''[]'' name of
        Some element \<Rightarrow> parse_list_cell element field ident False b a input
      | None \<Rightarrow> parse_object_cell name field ident False b a input)"
proof (cases field)
  case None
  show ?thesis unfolding None using assms split_head[of name ident]
    by (simp add: parse_cell_ref_def split_once_def Let_def)
next
  case (Some f)
  have "split_once CHR ''.'' ((name @ CHR '':'' # ident) @ CHR ''.'' # f) = Some (name @ CHR '':'' # ident, f)"
    using assms by (intro split_once_append) simp
  moreover have "f \<noteq> []" using assms(4) Some by simp
  ultimately show ?thesis unfolding Some using assms(1-3) split_head[of name ident]
    by (simp add: parse_cell_ref_def Let_def)
qed

lemma split_once_index:
  "split_once CHR ''['' (pid_text p @ CHR ''['' # t) = Some (pid_text p, t)"
  "split_once CHR ''['' (pid_text p) = None"
  by simp_all

lemma parse_list_rendered:
  assumes "wf_pid p" and "e \<noteq> []"
  shows "parse_list_cell e None (pid_text p @ (case index of Some i \<Rightarrow> ''['' @ show_nat (unat i) @ '']'' | None \<Rightarrow> []))
      False b a input =
    Inr (if pid_kind_of p = PAnyArray then
           CellRef BAnyArray (case index of Some i \<Rightarrow> KElem p i | None \<Rightarrow> KPid p)
         else (case index of Some i \<Rightarrow> cell_elem e p i | None \<Rightarrow> cell_list e p))"
  using assms strip_suffix_append[of "'']''" "show_nat (unat i)" for i]
  by (cases index) (simp_all add: parse_list_cell_def parse_cell_pid_def pid_from_str_text split_once_index)

lemma parse_object_rendered:
  assumes "wf_pid p" and "name \<noteq> []" and "pid_kind_of p = PAnyObject \<Longrightarrow> field = None"
  shows "parse_object_cell name field (pid_text p) False b a input =
    Inr (if pid_kind_of p = PAnyObject then CellRef BAnyObject (KPid p)
         else (case field of Some f \<Rightarrow> cell_prop name f p | None \<Rightarrow> cell_existence name p))"
  using assms by (auto simp: parse_object_cell_def parse_cell_pid_def pid_from_str_text)

lemma plain_name_sep: "plain_name s \<Longrightarrow> c \<in> set s \<Longrightarrow> \<not> is_sep c"
  by (auto simp: plain_name_def is_sep_def)

lemma parse_display_list:
  assumes "plain_name e" and "wf_pid p"
  shows "parse_cell_ref (e @ ''[]'' @ CHR '':'' # pid_text p @
      (case index of Some i \<Rightarrow> ''['' @ show_nat (unat i) @ '']'' | None \<Rightarrow> [])) b a =
    Inr (if pid_kind_of p = PAnyArray then
           CellRef BAnyArray (case index of Some i \<Rightarrow> KElem p i | None \<Rightarrow> KPid p)
         else (case index of Some i \<Rightarrow> cell_elem e p i | None \<Rightarrow> cell_list e p))"
proof -
  let ?id = "pid_text p @ (case index of Some i \<Rightarrow> ''['' @ show_nat (unat i) @ '']'' | None \<Rightarrow> [])"
  have "CHR ''.'' \<notin> set (e @ ''[]'')" "\<And>c. c \<in> set (e @ ''[]'') \<Longrightarrow> \<not> is_sep c"
    using assms(1) plain_name_sep[OF assms(1)] by (auto simp: plain_name_def is_sep_def)
  moreover have "CHR ''.'' \<notin> set ?id" by (cases index) simp_all
  ultimately show ?thesis
    using parse_rendered[of "e @ ''[]''" ?id None b a] parse_list_rendered[OF assms(2), of e index b a] assms(1)
    by (simp add: Let_def plain_name_def)
qed

lemma parse_display_object:
  assumes "plain_name s" and "wf_pid p" and "strip_suffix ''[]'' s = None" and "field \<noteq> Some []"
    and "pid_kind_of p = PAnyObject \<Longrightarrow> field = None"
  shows "parse_cell_ref (s @ CHR '':'' # pid_text p @ (case field of None \<Rightarrow> [] | Some f \<Rightarrow> CHR ''.'' # f)) b a =
    Inr (if pid_kind_of p = PAnyObject then CellRef BAnyObject (KPid p)
         else (case field of Some f \<Rightarrow> cell_prop s f p | None \<Rightarrow> cell_existence s p))"
proof -
  have "CHR ''.'' \<notin> set s" "s \<noteq> []" using assms(1) by (auto simp: plain_name_def)
  with assms show ?thesis
    using parse_rendered[of s "pid_text p" field b a] plain_name_sep[OF assms(1)]
      parse_object_rendered[of p s field b a] by (simp add: Let_def)
qed

lemma display_cell_text:
  "display_cell c = Some (fst (address (cr_buffer c)) @ (if snd (address (cr_buffer c)) then ''[]'' else []) @
     CHR '':'' # pid_text (cell_pid c) @
     (case cr_key c of KElem _ index \<Rightarrow> ''['' @ show_nat (unat index) @ '']'' | KPid _ \<Rightarrow> []) @
     (case cr_buffer c of BObjectProp _ field \<Rightarrow> CHR ''.'' # field | _ \<Rightarrow> []))"
  by (simp add: display_cell_def display_pid_text)

lemma any_name: "plain_name ''Any''" "strip_suffix ''[]'' ''Any'' = None"
  by (simp_all add: plain_name_def strip_suffix_def)

lemma parse_display:
  "addressable c \<Longrightarrow> display_cell c = Some t \<Longrightarrow> parse_cell_ref t b a = Inr c"
proof (induction c rule: addressable.induct)
  case (1 s p)
  then show ?case using parse_display_object[of s p None b a]
    by (auto simp: display_cell_text cell_pid_def cell_existence_def)
next
  case (2 s f p)
  then show ?case using parse_display_object[of s p "Some f" b a]
    by (auto simp: display_cell_text cell_pid_def cell_prop_def)
next
  case (3 s p)
  then show ?case using parse_display_list[of s p None b a]
    by (auto simp: display_cell_text cell_pid_def cell_list_def)
next
  case (4 s p i)
  then show ?case using parse_display_list[of s p "Some i" b a]
    by (auto simp: display_cell_text cell_pid_def cell_elem_def)
next
  case (5 p)
  then show ?case using parse_display_object[of "''Any''" p None b a] any_name
    by (auto simp: display_cell_text cell_pid_def)
next
  case (6 k)
  then show ?case
    using parse_display_list[of "''Any''" "key_pid k" "case k of KPid _ \<Rightarrow> None | KElem _ i \<Rightarrow> Some i" b a] any_name
    by (cases k) (auto simp: display_cell_text cell_pid_def)
qed auto

lemma parse_cell_pid_wf: "parse_cell_pid k i sh b a input = Inr p \<Longrightarrow> wf_pid p"
  by (auto simp: parse_cell_pid_def pid_from_str_wf split: if_splits sum.splits option.splits)

lemma parse_list_addressable:
  assumes "parse_list_cell e f i sh b a input = Inr c" and "e \<noteq> [] \<Longrightarrow> plain_name e"
  shows "addressable c"
proof -
  obtain p index where "e \<noteq> []" "wf_pid p"
    "c = (if pid_kind_of p = PAnyArray then
             CellRef BAnyArray (case index of Some i \<Rightarrow> KElem p i | None \<Rightarrow> KPid p)
           else (case index of Some i \<Rightarrow> cell_elem e p i | None \<Rightarrow> cell_list e p))"
    using assms(1) unfolding parse_list_cell_def
    by (auto split: if_splits sum.splits prod.splits dest: parse_cell_pid_wf)
  with assms(2) show ?thesis by (cases index) (auto simp: cell_elem_def cell_list_def)
qed

lemma parse_object_addressable:
  assumes "parse_object_cell s f i sh b a input = Inr c" and "s \<noteq> [] \<Longrightarrow> plain_name s"
    and "strip_suffix ''[]'' s = None" and "f \<noteq> Some []"
  shows "addressable c"
  using assms parse_cell_pid_wf[of PObject i sh b a input]
  by (auto simp: parse_object_cell_def cell_prop_def cell_existence_def split: if_splits sum.splits option.splits)

lemma head_plain:
  assumes "CHR ''.'' \<notin> set head" and "takeWhile (\<lambda>c. \<not> is_sep c) head = name" and "name \<noteq> []"
  shows "plain_name name"
  using assms by (auto simp: plain_name_def is_sep_def dest: set_takeWhileD)

lemma parse_addressable:
  assumes "parse_cell_ref t b a = Inr c"
  shows "addressable c"
proof -
  obtain head field where hf: "(case split_once (CHR ''.'') t of
              Some (head, field) \<Rightarrow>
                if field \<noteq> [] then Inr (head, Some field) else Inl (parse_err t TrailingDot)
            | None \<Rightarrow> Inr (t, None)) = Inr (head, field)"
    using assms by (auto simp: parse_cell_ref_def split: sum.splits)
  then have head: "CHR ''.'' \<notin> set head" and field: "field \<noteq> Some []"
    by (auto simp: split_once_def split: option.splits if_splits prod.splits dest: set_takeWhileD)
  obtain sep ident where rest: "dropWhile (\<lambda>c. \<not> is_sep c) head = sep # ident"
    using assms hf by (auto simp: parse_cell_ref_def split: list.splits)
  let ?name = "takeWhile (\<lambda>c. \<not> is_sep c) head"
  show ?thesis
  proof (cases "strip_suffix ''[]'' ?name")
    case None
    then show ?thesis
      using assms hf rest head field
      by (intro parse_object_addressable[of ?name field ident "sep = CHR ''#''" b a t])
         (auto simp: parse_cell_ref_def Let_def intro: head_plain)
  next
    case (Some e)
    then have name: "?name = e @ ''[]''" by (rule strip_suffix_Some)
    then have "plain_name (e @ ''[]'')" using head by (intro head_plain[of head]) auto
    then have "e \<noteq> [] \<Longrightarrow> plain_name e" by (auto simp: plain_name_def)
    then show ?thesis
      using assms hf rest Some
      by (intro parse_list_addressable[of e field ident "sep = CHR ''#''" b a t])
         (auto simp: parse_cell_ref_def Let_def)
  qed
qed

interpretation cell: text_codec display_cell "\<lambda>t. parse_cell_ref t b a" addressable for b a
proof
  fix c t
  show "\<exists>t. display_cell c = Some t" by (simp add: display_cell_text)
  show "addressable c \<Longrightarrow> display_cell c = Some t \<Longrightarrow> parse_cell_ref t b a = Inr c"
    by (rule parse_display)
  show "parse_cell_ref t b a = Inr c \<Longrightarrow> addressable c" by (rule parse_addressable)
qed

section \<open>Hexadecimal\<close>

lemma hex_digit_char: "unat (n :: u8) < 16 \<Longrightarrow> hex_digit (hex_char n) = Some n"
proof -
  assume n: "unat n < 16"
  have "\<forall>k \<in> set [0..<16]. hex_digit (hex_char (of_nat k)) = Some (of_nat k)" by code_simp
  moreover have "unat n \<in> set [0..<16]" using n by simp
  ultimately have "hex_digit (hex_char (of_nat (unat n))) = Some (of_nat (unat n))" by blast
  then show ?thesis by simp
qed

lemma nibbles: "push_bit 4 (drop_bit 4 b) OR (b AND 15) = (b :: u8)"
proof (rule bit_word_eqI)
  fix n assume "n < LENGTH(8)"
  have m: "(15 :: u8) = mask 4" by (simp add: mask_eq_exp_minus_1)
  from \<open>n < LENGTH(8)\<close> show "bit (push_bit 4 (drop_bit 4 b) OR (b AND 15)) n = bit b n"
    unfolding m by (cases "4 \<le> n") (auto simp: bit_simps)
qed

lemma nibble_bounds: "unat (drop_bit 4 b :: u8) < 16" "unat (b AND 15 :: u8) < 16"
proof -
  show "unat (drop_bit 4 b) < 16"
    using unat_u8[of b] by (simp add: drop_bit_eq_div unat_div_distrib)
  have "b AND 15 \<le> 15" by (rule word_and_le1)
  then show "unat (b AND 15) < 16" by (simp add: word_le_nat_alt)
qed

lemma unhex_pairs_hex: "unhex_pairs (concat (map hex_byte bs)) = Some bs"
  by (induction bs) (simp_all add: hex_byte_def hex_digit_char nibble_bounds nibbles)

lemma length_hex: "length (concat (map hex_byte bs)) = 2 * length bs"
  by (induction bs) (simp_all add: hex_byte_def)

section \<open>Properties\<close>

text \<open>
  Every addressable cell (existence, property, list, element, untyped object,
  untyped array and element) renders without a panic, and whoever parses the text, with any
  branch and allocator of their own, gets exactly that cell.
\<close>

theorem cell_address_roundtrip:
  assumes "addressable c"
  shows "\<exists>t. display_cell c = Some t \<and> parse_cell_ref t b a = Inr c"
  using cell.render_total[OF assms] cell.parse_render[OF assms] by blast

theorem cell_address_roundtrip_witness:
  "\<exists>t. display_cell (cell_prop ''Company'' ''website'' (Allocated PObject 9 3 100)) = Some t \<and>
       parse_cell_ref t 1 0 = Inr (cell_prop ''Company'' ''website'' (Allocated PObject 9 3 100))"
  by (rule cell_address_roundtrip) (simp add: cell_prop_def plain_name_def strip_suffix_def)

text \<open>
  Whatever spelling is accepted, shorthand included, names an addressable cell
  whose canonical text means the same cell to every other caller: the shorthand's dependence on
  the caller's branch and allocator never survives one rendering.
\<close>

theorem cell_parse_canonical:
  assumes "parse_cell_ref t b a = Inr c"
  shows "addressable c \<and> (\<exists>u. display_cell c = Some u \<and> (\<forall>b' a'. parse_cell_ref u b' a' = Inr c))"
  using cell.parse_ok[OF assms] cell.render_total[of c] cell.parse_render[of c] by blast

theorem cell_parse_canonical_witness:
  "\<exists>u. display_cell (cell_elem ''Founder'' (Allocated PList 1 0 500) 7) = Some u \<and>
       (\<forall>b' a'. parse_cell_ref u b' a' = Inr (cell_elem ''Founder'' (Allocated PList 1 0 500) 7))"
proof -
  have "parse_cell_ref ''Founder[]#500[7]'' 1 0 = Inr (cell_elem ''Founder'' (Allocated PList 1 0 500) 7)"
    by (simp add: parse_cell_ref_def parse_list_cell_def parse_cell_pid_def split_once_def is_sep_def
        strip_suffix_def parse_u64_def is_digit_def less_eq_char_def digits_val_def digit_val_def)
  then show ?thesis using cell_parse_canonical by blast
qed

text \<open>
  Interned binary content survives its text form: the hex digits that
  \<open>render_interned\<close> writes after \<open>0x\<close> are read back by \<open>unhex\<close> as the same bytes.
\<close>

theorem interned_binary_roundtrip:
  "\<exists>h. render_interned (Content PBinary hash) bytes = Some (''0x'' @ h) \<and> unhex h = Some bytes"
  by (intro exI[of _ "concat (map hex_byte bytes)"])
     (simp add: render_interned_def unhex_def length_hex unhex_pairs_hex)

end
