(* ===== verification/Mem_Storage.thy ===== *)
theory Mem_Storage
  imports Cells
begin

text \<open>
  \<^verbatim>\<open>borg-storage/src/memory.rs\<close>: the in-memory \<^verbatim>\<open>StorageProvider\<close>. Its \<^verbatim>\<open>Inner\<close> is a record, a
  method is a function that returns its result and the next state, an \<^verbatim>\<open>OpenLayer\<close> or
  \<^verbatim>\<open>SealedLayer\<close> handle is the id it holds. Hash map iteration is the iteration of the
  association list. The hash of \<^verbatim>\<open>content.rs\<close> (SHA-256, a library) is a parameter of \<open>intern\<close>.
\<close>


section \<open>State\<close>

type_synonym history = "(layer_id \<times> event_id) list"
type_synonym read_index = "(branch_id, (cell_ref, (def_version, history) hmap) hmap) hmap"

record membership =
  mb_branch :: branch_id
  mb_events :: "event_id list"

record staged_layer =
  sl_branch :: branch_id
  sl_members :: "event_id list"
  sl_authored :: "event list"
  sl_defs :: "def_event list"
  sl_sealed :: bool

record inner =
  in_events :: "event option list"
  in_members :: "(layer_id, membership) hmap"
  in_reads :: read_index
  in_staged :: "(layer_id, staged_layer) hmap"
  in_def_contents :: "(layer_id, def_event list) hmap"
  in_layer_meta :: "(layer_id, layer) hmap"
  in_branches :: "(branch_id, branch) hmap"
  in_interned :: "(pid, u8 list) hmap"
  in_next_event :: u64

definition mem_new :: inner where
  "mem_new = \<lparr>in_events = [], in_members = [], in_reads = [], in_staged = [], in_def_contents = [],
     in_layer_meta = [], in_branches = [], in_interned = [], in_next_event = 0\<rparr>"

section \<open>The read index\<close>

fun max_by_key :: "history \<Rightarrow> (layer_id \<times> event_id) option" where
  "max_by_key [] = None"
| "max_by_key (x # xs) = Some (fold (\<lambda>e best. if fst best \<le> fst e then e else best) xs x)"

definition newest_at :: "history \<Rightarrow> layer_id \<Rightarrow> (layer_id \<times> event_id) option" where
  "newest_at history bound = max_by_key (filter (\<lambda>(landed, _). landed \<le> bound) history)"

fun set_landing :: "layer_id \<Rightarrow> event_id \<Rightarrow> history \<Rightarrow> history" where
  "set_landing layer event [] = [(layer, event)]"
| "set_landing layer event ((landed, e) # history) =
     (if landed = layer then (landed, event) # history else (landed, e) # set_landing layer event history)"

definition index_event :: "branch_id \<Rightarrow> layer_id \<Rightarrow> event \<Rightarrow> read_index \<Rightarrow> read_index" where
  "index_event b layer event =
     hm_modify b [] (hm_modify (ev_cell event) [] (hm_modify (ev_version event) []
       (set_landing layer (ev_id event))))"

section \<open>Events by identity\<close>

text \<open>\<open>next_event += 1\<close> panics when the 64-bit counter is exhausted.\<close>

definition mint :: "inner \<Rightarrow> event_id result \<times> inner" where
  "mint i =
     (if in_next_event i = - 1 then (Inl (RustPanic ''attempt to add with overflow''), i)
      else (Inr (in_next_event i + 1), i\<lparr>in_next_event := in_next_event i + 1\<rparr>))"

definition slot_of :: "event_id \<Rightarrow> nat option" where
  "slot_of e = (if e = 0 then None else Some (unat e - 1))"

definition event_at :: "event option list \<Rightarrow> event_id \<Rightarrow> event option" where
  "event_at events e =
     (case slot_of e of None \<Rightarrow> None
      | Some slot \<Rightarrow> if slot < length events then events ! slot else None)"

definition stored :: "inner \<Rightarrow> event_id \<Rightarrow> event option" where
  "stored i e = event_at (in_events i) e"

definition event_of :: "inner \<Rightarrow> event_id \<Rightarrow> event result" where
  "event_of i e = (case stored i e of None \<Rightarrow> Inl (StorageError (UnknownEvent e)) | Some ev \<Rightarrow> Inr ev)"

text \<open>\<open>None\<close> is the panic of \<open>event.id.0 as usize - 1\<close>.\<close>

definition store :: "event \<Rightarrow> event option list \<Rightarrow> event option list option" where
  "store event events =
     (case slot_of (ev_id event) of None \<Rightarrow> None
      | Some slot \<Rightarrow> Some ((events @ replicate (slot + 1 - length events) None)[slot := Some event]))"

section \<open>Writing into an open layer\<close>

definition staged :: "inner \<Rightarrow> layer_id \<Rightarrow> staged_layer result" where
  "staged i l =
     (case hm_get (in_staged i) l of
        None \<Rightarrow> Inl (StorageError (LayerNotOpen l))
      | Some s \<Rightarrow> if sl_sealed s then Inl (StorageError (LayerIsSealed l)) else Inr s)"

definition put_staged :: "layer_id \<Rightarrow> staged_layer \<Rightarrow> inner \<Rightarrow> inner" where
  "put_staged l s i = i\<lparr>in_staged := hm_insert l s (in_staged i)\<rparr>"

definition draft_event :: "event_id \<Rightarrow> cell_ref \<Rightarrow> event_draft \<Rightarrow> layer_id \<Rightarrow> event" where
  "draft_event e cell draft l =
     \<lparr>ev_id = e, ev_cell = cell, ev_value = ed_value draft, ev_version = ed_version draft,
      ev_origin = ed_origin draft, ev_derivation = ed_derivation draft, ev_authored = l\<rparr>"

text \<open>The id is minted before the layer is looked at.\<close>

definition author_event :: "layer_id \<Rightarrow> cell_ref \<Rightarrow> event_draft \<Rightarrow> inner \<Rightarrow> event_id result \<times> inner" where
  "author_event l cell draft i =
     (case mint i of
        (Inl e, i) \<Rightarrow> (Inl e, i)
      | (Inr e, i) \<Rightarrow>
          (case staged i l of
             Inl err \<Rightarrow> (Inl err, i)
           | Inr s \<Rightarrow> (Inr e, put_staged l (s\<lparr>sl_members := sl_members s @ [e],
                              sl_authored := sl_authored s @ [draft_event e cell draft l]\<rparr>) i)))"

definition adopt_event :: "layer_id \<Rightarrow> event \<Rightarrow> inner \<Rightarrow> unit result \<times> inner" where
  "adopt_event l event i =
     (if ev_authored event \<noteq> l
      then (Inl (StorageError (AuthoredElsewhere (ev_id event) (ev_authored event) l)), i)
      else let i = i\<lparr>in_next_event := max (in_next_event i) (ev_id event)\<rparr> in
        (case staged i l of
           Inl err \<Rightarrow> (Inl err, i)
         | Inr s \<Rightarrow> (Inr (), put_staged l (s\<lparr>sl_members := sl_members s @ [ev_id event],
                           sl_authored := sl_authored s @ [event]\<rparr>) i)))"

definition include_event :: "layer_id \<Rightarrow> event_id \<Rightarrow> inner \<Rightarrow> unit result \<times> inner" where
  "include_event l e i =
     (if stored i e = None then (Inl (StorageError (UnknownEvent e)), i)
      else (case staged i l of
              Inl err \<Rightarrow> (Inl err, i)
            | Inr s \<Rightarrow> (Inr (), put_staged l (s\<lparr>sl_members := sl_members s @ [e]\<rparr>) i)))"

definition mem_put_def :: "layer_id \<Rightarrow> def_event \<Rightarrow> inner \<Rightarrow> unit result \<times> inner" where
  "mem_put_def l def i =
     (case staged i l of
        Inl err \<Rightarrow> (Inl err, i)
      | Inr s \<Rightarrow> (Inr (), put_staged l (s\<lparr>sl_defs := sl_defs s @ [def]\<rparr>) i))"

definition mem_seal :: "layer_id \<Rightarrow> inner \<Rightarrow> layer_id result \<times> inner" where
  "mem_seal l i =
     (case hm_get (in_staged i) l of
        None \<Rightarrow> (Inl (StorageError (LayerNotOpen l)), i)
      | Some s \<Rightarrow> (Inr l, put_staged l (s\<lparr>sl_sealed := True\<rparr>) i))"

definition mem_abort :: "layer_id \<Rightarrow> inner \<Rightarrow> unit result \<times> inner" where
  "mem_abort l i = (Inr (), i\<lparr>in_staged := hm_remove l (in_staged i)\<rparr>)"

definition open_layer :: "branch_id \<Rightarrow> layer_id \<Rightarrow> inner \<Rightarrow> unit result \<times> inner" where
  "open_layer b l i =
     (if hm_get (in_staged i) l \<noteq> None \<or> hm_get (in_members i) l \<noteq> None
      then (Inl (StorageError (LayerExists l)), i)
      else (Inr (), put_staged l
              \<lparr>sl_branch = b, sl_members = [], sl_authored = [], sl_defs = [], sl_sealed = False\<rparr> i))"

section \<open>Reading\<close>

definition history_at :: "read_index \<Rightarrow> branch_id \<Rightarrow> cell_ref \<Rightarrow> def_version \<Rightarrow> history option" where
  "history_at reads b cell v =
     (case hm_get reads b of None \<Rightarrow> None
      | Some cells \<Rightarrow> (case hm_get cells cell of None \<Rightarrow> None
          | Some versions \<Rightarrow> hm_get versions v))"

fun get_cell :: "inner \<Rightarrow> read_path \<Rightarrow> cell_ref \<Rightarrow> def_version \<Rightarrow> landed option result" where
  "get_cell i [] cell v = Inr None"
| "get_cell i ((b, bound) # path) cell v =
     (case (case history_at (in_reads i) b cell v of
              None \<Rightarrow> None | Some history \<Rightarrow> newest_at history bound) of
        None \<Rightarrow> get_cell i path cell v
      | Some (landed_at, e) \<Rightarrow>
          (case event_of i e of
             Inl err \<Rightarrow> Inl err
           | Inr event \<Rightarrow> Inr (Some \<lparr>ld_event = event, ld_at = landed_at\<rparr>)))"

definition segment_versions ::
  "inner \<Rightarrow> cell_ref \<Rightarrow> branch_id \<times> layer_id \<Rightarrow> def_version list \<Rightarrow> def_version list" where
  "segment_versions i cell seg versions =
     fold (\<lambda>(v, history) versions.
             if v \<notin> set versions \<and> list_ex (\<lambda>(at, _). at \<le> snd seg) history
             then versions @ [v] else versions)
       (hm_get_or [] (hm_get_or [] (in_reads i) (fst seg)) cell) versions"

definition cell_versions :: "inner \<Rightarrow> read_path \<Rightarrow> cell_ref \<Rightarrow> def_version list" where
  "cell_versions i path cell = fold (segment_versions i cell) path []"

definition scan_cell ::
  "inner \<Rightarrow> layer_id \<Rightarrow> (def_version \<times> history) list \<Rightarrow> event result list" where
  "scan_cell i bound versions =
     concat (map (\<lambda>(_, history). case newest_at history bound of
                     None \<Rightarrow> [] | Some (_, e) \<Rightarrow> [event_of i e]) versions)"

fun scan_segments ::
  "inner \<Rightarrow> buffer_id \<Rightarrow> read_path \<Rightarrow> cell_ref set \<Rightarrow> event result list" where
  "scan_segments i buffer [] seen = []"
| "scan_segments i buffer ((b, bound) # path) seen =
     (let found = map (\<lambda>(cell, versions). (cell, scan_cell i bound versions))
                    (filter (\<lambda>(cell, _). cr_buffer cell = buffer \<and> cell \<notin> seen)
                      (hm_get_or [] (in_reads i) b))
      in concat (map snd found) @
         scan_segments i buffer path (seen \<union> set (map fst (filter (\<lambda>(_, rows). rows \<noteq> []) found))))"

definition scan_buffer :: "inner \<Rightarrow> read_path \<Rightarrow> buffer_id \<Rightarrow> event result list" where
  "scan_buffer i path buffer = scan_segments i buffer path {}"

definition read_membership :: "inner \<Rightarrow> layer_id \<Rightarrow> event_id list" where
  "read_membership i l =
     (case hm_get (in_members i) l of None \<Rightarrow> [] | Some m \<Rightarrow> mb_events m)"

definition read_layer :: "inner \<Rightarrow> layer_id \<Rightarrow> event result list" where
  "read_layer i l =
     (case hm_get (in_members i) l of None \<Rightarrow> [] | Some m \<Rightarrow> map (event_of i) (mb_events m))"

definition read_def_layer :: "inner \<Rightarrow> layer_id \<Rightarrow> def_event list" where
  "read_def_layer i l = (case hm_get (in_def_contents i) l of None \<Rightarrow> [] | Some defs \<Rightarrow> defs)"

definition put_layer_meta :: "layer \<Rightarrow> inner \<Rightarrow> inner" where
  "put_layer_meta layer i = i\<lparr>in_layer_meta := hm_insert (ly_id layer) layer (in_layer_meta i)\<rparr>"

definition read_layers :: "inner \<Rightarrow> layer list" where
  "read_layers i = map snd (in_layer_meta i)"

definition put_branch :: "branch \<Rightarrow> inner \<Rightarrow> inner" where
  "put_branch b i = i\<lparr>in_branches := hm_insert (br_id b) b (in_branches i)\<rparr>"

definition read_branches :: "inner \<Rightarrow> branch list" where
  "read_branches i = map snd (in_branches i)"

section \<open>Interned values\<close>

definition content_result :: "content_error + 'a \<Rightarrow> 'a result" where
  "content_result r = (case r of Inl (NotContentAddressed k) \<Rightarrow> Inl (NotContentAddressedError k) | Inr x \<Rightarrow> Inr x)"

definition intern ::
  "(u8 list \<Rightarrow> u8 list) \<Rightarrow> pid_kind \<Rightarrow> u8 list \<Rightarrow> inner \<Rightarrow> pid result \<times> inner" where
  "intern hash kind bytes i =
     (case content_result (content_pid hash kind bytes) of
        Inl err \<Rightarrow> (Inl err, i)
      | Inr p \<Rightarrow> (Inr p,
          (if hm_get (in_interned i) p = None
           then i\<lparr>in_interned := hm_insert p bytes (in_interned i)\<rparr> else i)))"

definition read_interned :: "inner \<Rightarrow> pid \<Rightarrow> u8 list option result" where
  "read_interned i p =
     (case content_result (hash_of p) of
        Inl err \<Rightarrow> Inl err
      | Inr _ \<Rightarrow> Inr (hm_get (in_interned i) p))"

section \<open>Commit and rebuild\<close>

fun store_all :: "event list \<Rightarrow> event option list \<Rightarrow> event option list option" where
  "store_all [] events = Some events"
| "store_all (e # es) events =
     (case store e events of None \<Rightarrow> None | Some events \<Rightarrow> store_all es events)"

text \<open>The indexing loop; on an unknown event it stops with what it has indexed so far.\<close>

fun index_members ::
  "event option list \<Rightarrow> branch_id \<Rightarrow> layer_id \<Rightarrow> event_id list \<Rightarrow> read_index \<Rightarrow>
   unit result \<times> read_index" where
  "index_members events b l [] reads = (Inr (), reads)"
| "index_members events b l (e # es) reads =
     (case event_at events e of
        None \<Rightarrow> (Inl (StorageError (UnknownEvent e)), reads)
      | Some event \<Rightarrow> index_members events b l es (index_event b l event reads))"

definition commit_layer :: "layer_id \<Rightarrow> inner \<Rightarrow> unit result \<times> inner" where
  "commit_layer l i =
     (case hm_get (in_staged i) l of
        None \<Rightarrow> (Inl (StorageError (LayerNotStaged l)), i)
      | Some s \<Rightarrow>
          (let i = i\<lparr>in_staged := hm_remove l (in_staged i)\<rparr> in
           if \<not> sl_sealed s then (Inl (StorageError (LayerNotSealed l)), i)
           else (case store_all (sl_authored s) (in_events i) of
              None \<Rightarrow> (Inl (RustPanic ''event id 0''), i)
            | Some events \<Rightarrow>
                (let i = i\<lparr>in_events := events\<rparr> in
                 (case index_members events (sl_branch s) l (sl_members s) (in_reads i) of
                    (Inl err, reads) \<Rightarrow> (Inl err, i\<lparr>in_reads := reads\<rparr>)
                  | (Inr _, reads) \<Rightarrow>
                      (Inr (), i\<lparr>in_reads := reads,
                         in_members := hm_insert l \<lparr>mb_branch = sl_branch s, mb_events = sl_members s\<rparr>
                           (in_members i),
                         in_def_contents := hm_insert l (sl_defs s) (in_def_contents i)\<rparr>))))))"

fun rebuild_layers :: "inner \<Rightarrow> layer_id list \<Rightarrow> read_index \<Rightarrow> unit result \<times> read_index" where
  "rebuild_layers i [] reads = (Inr (), reads)"
| "rebuild_layers i (l # ls) reads =
     (case hm_get (in_members i) l of
        None \<Rightarrow> (Inl (RustPanic ''index''), reads)
      | Some m \<Rightarrow>
          (case index_members (in_events i) (mb_branch m) l (mb_events m) reads of
             (Inl err, reads) \<Rightarrow> (Inl err, reads)
           | (Inr _, reads) \<Rightarrow> rebuild_layers i ls reads))"

definition rebuild_read_index :: "inner \<Rightarrow> unit result \<times> inner" where
  "rebuild_read_index i =
     (let (r, reads) = rebuild_layers i (sort (map fst (in_members i))) []
      in (r, i\<lparr>in_reads := reads\<rparr>))"

end
