(* ===== verification/Mem_Invariant.thy ===== *)
theory Mem_Invariant
  imports Mem_Storage
begin

text \<open>
  Lemmas of the in-memory provider: the read index as a function from branch, cell, version and
  landing layer to an event, what storing and indexing do to it, and the newest landing.
\<close>

section \<open>The read index as a function\<close>

definition hist :: "read_index \<Rightarrow> branch_id \<Rightarrow> cell_ref \<Rightarrow> def_version \<Rightarrow> history" where
  "hist reads b c v = hm_get_or [] (hm_get_or [] (hm_get_or [] reads b) c) v"

definition landing :: "read_index \<Rightarrow> branch_id \<Rightarrow> cell_ref \<Rightarrow> def_version \<Rightarrow> layer_id \<Rightarrow> event_id option" where
  "landing reads b c v = map_of (hist reads b c v)"

definition keys_ok :: "read_index \<Rightarrow> bool" where
  "keys_ok reads \<longleftrightarrow> (\<forall>b c v. distinct (map fst (hist reads b c v)))"

lemma hist_Nil [simp]: "hist [] b c v = []"
  by (simp add: hist_def)

lemma keys_ok_Nil [simp]: "keys_ok []"
  by (simp add: keys_ok_def)

lemma landing_Nil [simp]: "landing [] b c v l = None"
  by (simp add: landing_def)

lemma history_at_hist:
  "(case history_at reads b c v of None \<Rightarrow> None | Some h \<Rightarrow> newest_at h bound) =
   newest_at (hist reads b c v) bound"
  by (auto simp: history_at_def hist_def hm_get_or_def newest_at_def split: option.splits)

lemma map_of_set_landing [simp]: "map_of (set_landing l e h) = (map_of h)(l \<mapsto> e)"
  by (induction l e h rule: set_landing.induct) (auto simp: fun_eq_iff)

lemma keys_set_landing [simp]: "fst ` set (set_landing l e h) = insert l (fst ` set h)"
  by (induction l e h rule: set_landing.induct) auto

lemma distinct_set_landing [intro]:
  "distinct (map fst h) \<Longrightarrow> distinct (map fst (set_landing l e h))"
proof (induction l e h rule: set_landing.induct)
  case (2 l e k f h)
  have "set (map fst (set_landing l e h)) = insert l (set (map fst h))"
    using keys_set_landing[of l e h] by simp
  with 2 show ?case by auto
qed simp

lemma hist_index:
  "hist (index_event b l ev reads) b' c v =
   (if b' = b \<and> c = ev_cell ev \<and> v = ev_version ev
    then set_landing l (ev_id ev) (hist reads b' c v) else hist reads b' c v)"
  by (simp add: hist_def index_event_def)

lemma landing_index:
  "landing (index_event b l ev reads) b' c v l' =
   (if b' = b \<and> c = ev_cell ev \<and> v = ev_version ev \<and> l' = l then Some (ev_id ev)
    else landing reads b' c v l')"
  by (simp add: landing_def hist_index)

lemma keys_ok_index: "keys_ok reads \<Longrightarrow> keys_ok (index_event b l ev reads)"
  by (auto simp: keys_ok_def hist_index)

subsection \<open>The newest landing\<close>

lemma max_by_key_Some:
  assumes "max_by_key h = Some x"
  shows "x \<in> set h \<and> (\<forall>y \<in> set h. fst y \<le> fst x)"
proof (cases h)
  case (Cons z zs)
  have "fold (\<lambda>e best. if fst best \<le> fst e then e else best) zs w \<in> set (w # zs) \<and>
      (\<forall>y \<in> set (w # zs). fst y \<le> fst (fold (\<lambda>e best. if fst best \<le> fst e then e else best) zs w))" for w
  proof (induction zs arbitrary: w)
    case (Cons y zs)
    show ?case using Cons.IH[of "if fst w \<le> fst y then y else w"]
      by (auto split: if_splits intro: order_trans dest: less_imp_le)
  qed simp
  from this[of z] assms Cons show ?thesis by simp
qed (use assms in simp)

lemma max_by_key_None [simp]: "max_by_key h = None \<longleftrightarrow> h = []"
  by (cases h) auto

lemma newest_at_Some:
  assumes "distinct (map fst h)"
  shows "newest_at h bound = Some (l, e) \<longleftrightarrow>
    map_of h l = Some e \<and> l \<le> bound \<and> (\<forall>k. map_of h k \<noteq> None \<longrightarrow> k \<le> bound \<longrightarrow> k \<le> l)"
proof
  assume "newest_at h bound = Some (l, e)"
  from max_by_key_Some[OF this[unfolded newest_at_def]]
  have "(l, e) \<in> set h" "l \<le> bound" "\<And>k f. (k, f) \<in> set h \<Longrightarrow> k \<le> bound \<Longrightarrow> k \<le> l" by auto
  then show "map_of h l = Some e \<and> l \<le> bound \<and> (\<forall>k. map_of h k \<noteq> None \<longrightarrow> k \<le> bound \<longrightarrow> k \<le> l)"
    using assms by (auto dest: map_of_SomeD)
next
  assume r: "map_of h l = Some e \<and> l \<le> bound \<and> (\<forall>k. map_of h k \<noteq> None \<longrightarrow> k \<le> bound \<longrightarrow> k \<le> l)"
  then have "(l, e) \<in> set (filter (\<lambda>(landed, _). landed \<le> bound) h)" by (auto dest: map_of_SomeD)
  then obtain x where x: "newest_at h bound = Some x"
    by (cases "newest_at h bound") (auto simp: newest_at_def filter_empty_conv)
  from max_by_key_Some[OF this[unfolded newest_at_def]]
  have "x \<in> set h" "fst x \<le> bound" "l \<le> fst x" using \<open>(l, e) \<in> _\<close> by auto
  moreover have "fst x \<le> l" using r calculation assms by (cases x) auto
  ultimately have "fst x = l" "map_of h (fst x) = Some (snd x)" using assms by (auto simp: map_of_is_SomeI)
  with r x show "newest_at h bound = Some (l, e)" by (cases x) auto
qed

lemma newest_at_None: "newest_at h bound = None \<longleftrightarrow> (\<forall>k. map_of h k \<noteq> None \<longrightarrow> \<not> k \<le> bound)"
proof -
  have "newest_at h bound = None \<longleftrightarrow> (\<forall>x \<in> set h. \<not> fst x \<le> bound)"
    by (auto simp: newest_at_def filter_empty_conv)
  also have "\<dots> \<longleftrightarrow> (\<forall>k. map_of h k \<noteq> None \<longrightarrow> \<not> k \<le> bound)"
    by (simp add: map_of_eq_None_iff) auto
  finally show ?thesis .
qed

lemma newest_at_cong:
  assumes "distinct (map fst h)" "distinct (map fst g)" "map_of h = map_of g"
  shows "newest_at h bound = newest_at g bound"
proof (cases "newest_at h bound")
  case None
  then have "newest_at g bound = None" by (simp only: newest_at_None assms(3))
  with None show ?thesis by simp
next
  case (Some x)
  then have "newest_at g bound = Some (fst x, snd x)"
    using newest_at_Some[OF assms(1), of bound "fst x" "snd x"]
      newest_at_Some[OF assms(2), of bound "fst x" "snd x"] assms(3) by simp
  with Some show ?thesis by simp
qed

section \<open>Storing events\<close>

lemma slot_inject: "slot_of a = Some n \<Longrightarrow> slot_of b = Some n \<Longrightarrow> a = b"
proof -
  assume "slot_of a = Some n" "slot_of b = Some n"
  then have "a \<noteq> 0" "b \<noteq> 0" "unat a - 1 = unat b - 1" by (auto simp: slot_of_def split: if_splits)
  moreover from this have "unat a \<noteq> 0" "unat b \<noteq> 0" by (simp_all add: unat_eq_0)
  ultimately have "unat a = unat b" by linarith
  then show "a = b" by simp
qed

lemma store_event_at:
  "store ev events = Some events' \<Longrightarrow>
   event_at events' e = (if e = ev_id ev then Some ev else event_at events e)"
proof -
  assume s: "store ev events = Some events'"
  then obtain n where n: "slot_of (ev_id ev) = Some n"
    and e': "events' = (events @ replicate (n + 1 - length events) None)[n := Some ev]"
    by (auto simp: store_def split: option.splits)
  show ?thesis
  proof (cases "slot_of e")
    case None
    then show ?thesis using n by (auto simp: event_at_def)
  next
    case (Some m)
    show ?thesis
    proof (cases "e = ev_id ev")
      case True
      then show ?thesis using n e' by (simp add: event_at_def)
    next
      case False
      then have "m \<noteq> n" using Some n slot_inject by blast
      then show ?thesis using Some False e' by (simp add: event_at_def nth_append)
    qed
  qed
qed

lemma store_total: "ev_id ev \<noteq> 0 \<Longrightarrow> \<exists>events'. store ev events = Some events'"
  by (simp add: store_def slot_of_def)

definition by_id :: "event list \<Rightarrow> event_id \<Rightarrow> event option" where
  "by_id es = map_of (map (\<lambda>e. (ev_id e, e)) es)"

lemma by_id_dom: "by_id es e = None \<longleftrightarrow> e \<notin> ev_id ` set es"
  by (simp add: by_id_def map_of_eq_None_iff image_image)

lemma by_id_Some: "by_id es e = Some ev \<Longrightarrow> ev \<in> set es \<and> ev_id ev = e"
  by (auto simp: by_id_def dest: map_of_SomeD)

lemma store_all_event_at:
  assumes "\<forall>e \<in> set es. ev_id e \<noteq> 0" "distinct (map ev_id es)"
  shows "\<exists>events'. store_all es events = Some events' \<and>
    (\<forall>e. event_at events' e = (case by_id es e of Some ev \<Rightarrow> Some ev | None \<Rightarrow> event_at events e))"
  using assms
proof (induction es arbitrary: events)
  case (Cons x es)
  obtain ev1 where s: "store x events = Some ev1" using Cons.prems store_total[of x events] by auto
  obtain ev2 where r: "store_all es ev1 = Some ev2"
    "\<And>e. event_at ev2 e = (case by_id es e of Some ev \<Rightarrow> Some ev | None \<Rightarrow> event_at ev1 e)"
    using Cons.IH[of ev1] Cons.prems by auto
  have "by_id es (ev_id x) = None" using Cons.prems by (simp add: by_id_dom)
  moreover have "by_id (x # es) e = (if e = ev_id x then Some x else by_id es e)" for e
    by (simp add: by_id_def)
  ultimately show ?case using s r store_event_at[OF s] by (auto split: option.splits)
qed (simp add: by_id_def)

section \<open>Membership indexed\<close>

definition hits :: "event option list \<Rightarrow> cell_ref \<Rightarrow> def_version \<Rightarrow> event_id \<Rightarrow> bool" where
  "hits events c v e \<longleftrightarrow>
     (case event_at events e of None \<Rightarrow> False | Some ev \<Rightarrow> ev_cell ev = c \<and> ev_version ev = v)"

text \<open>The last member of a layer that wrote the cell at the version.\<close>

definition last_hit :: "event option list \<Rightarrow> event_id list \<Rightarrow> cell_ref \<Rightarrow> def_version \<Rightarrow> event_id option" where
  "last_hit events es c v =
     (let hs = filter (hits events c v) es in if hs = [] then None else Some (last hs))"

lemma last_hit_Nil [simp]: "last_hit events [] c v = None"
  by (simp add: last_hit_def)

lemma last_hit_Cons:
  "last_hit events (e # es) c v =
   (case last_hit events es c v of
      Some f \<Rightarrow> Some f
    | None \<Rightarrow> if hits events c v e then Some e else None)"
  by (auto simp: last_hit_def Let_def)

lemma last_hit_cong:
  "(\<And>e. e \<in> set es \<Longrightarrow> event_at events e = event_at events' e) \<Longrightarrow>
   last_hit events es c v = last_hit events' es c v"
proof -
  assume "\<And>e. e \<in> set es \<Longrightarrow> event_at events e = event_at events' e"
  then have "filter (hits events c v) es = filter (hits events' c v) es"
    by (intro filter_cong) (auto simp: hits_def)
  then show ?thesis by (simp add: last_hit_def)
qed

lemma last_hit_SomeD:
  "last_hit events es c v = Some e \<Longrightarrow>
   e \<in> set es \<and> (\<exists>ev. event_at events e = Some ev \<and> ev_cell ev = c \<and> ev_version ev = v)"
proof -
  assume "last_hit events es c v = Some e"
  then have "filter (hits events c v) es \<noteq> []" "e = last (filter (hits events c v) es)"
    by (auto simp: last_hit_def Let_def split: if_splits)
  then have "e \<in> set (filter (hits events c v) es)" by (simp only: last_in_set not_False_eq_True)
  then show ?thesis by (auto simp: hits_def split: option.splits)
qed

definition events_ok :: "event option list \<Rightarrow> bool" where
  "events_ok events \<longleftrightarrow> (\<forall>e ev. event_at events e = Some ev \<longrightarrow> ev_id ev = e)"

lemma index_members_ok:
  assumes "events_ok events" "\<forall>e \<in> set es. event_at events e \<noteq> None"
  shows "\<exists>reads'. index_members events b l es reads = (Inr (), reads') \<and>
    (keys_ok reads \<longrightarrow> keys_ok reads') \<and>
    (\<forall>b' c v l'. landing reads' b' c v l' =
       (if b' = b \<and> l' = l
        then (case last_hit events es c v of Some e \<Rightarrow> Some e | None \<Rightarrow> landing reads b' c v l')
        else landing reads b' c v l'))"
  using assms(2)
proof (induction es arbitrary: reads)
  case (Cons e es)
  then obtain ev where ev: "event_at events e = Some ev" by auto
  with assms(1) have id: "ev_id ev = e" by (simp add: events_ok_def)
  obtain reads' where r: "index_members events b l es (index_event b l ev reads) = (Inr (), reads')"
    "keys_ok (index_event b l ev reads) \<longrightarrow> keys_ok reads'"
    "\<And>b' c v l'. landing reads' b' c v l' =
       (if b' = b \<and> l' = l
        then (case last_hit events es c v of Some e \<Rightarrow> Some e
              | None \<Rightarrow> landing (index_event b l ev reads) b' c v l')
        else landing (index_event b l ev reads) b' c v l')"
    using Cons.IH[of "index_event b l ev reads"] Cons.prems by auto
  show ?case
  proof (intro exI[of _ reads'] conjI allI)
    show "index_members events b l (e # es) reads = (Inr (), reads')" using r(1) ev by simp
    show "keys_ok reads \<longrightarrow> keys_ok reads'" using r(2) keys_ok_index by blast
    fix b' c v l'
    show "landing reads' b' c v l' =
       (if b' = b \<and> l' = l
        then (case last_hit events (e # es) c v of Some e \<Rightarrow> Some e | None \<Rightarrow> landing reads b' c v l')
        else landing reads b' c v l')"
      by (auto simp: r(3) landing_index last_hit_Cons hits_def ev id split: option.splits)
  qed
qed simp

end
