(* ===== verification/Mem_Contract.thy ===== *)
theory Mem_Contract
  imports Mem_Invariant
begin

text \<open>
  The contract of the in-memory provider: its step relation, the invariant of every reachable
  state, and what follows. The read index is a projection of layer membership, events and committed
  memberships never change, ids are never reissued, open layers are invisible, and a rebuilt index
  answers as the live one.
\<close>

section \<open>The invariant\<close>

definition staged_ids :: "staged_layer \<Rightarrow> event_id set" where
  "staged_ids s = ev_id ` set (sl_authored s)"

text \<open>An id that no event of the store and no event of an open layer has.\<close>

definition fresh_id :: "inner \<Rightarrow> event_id \<Rightarrow> bool" where
  "fresh_id i e \<longleftrightarrow> e \<noteq> 0 \<and> stored i e = None \<and>
     (\<forall>l s. hm_get (in_staged i) l = Some s \<longrightarrow> e \<notin> staged_ids s)"

definition ids_ok :: "inner \<Rightarrow> bool" where
  "ids_ok i \<longleftrightarrow> events_ok (in_events i) \<and> (\<forall>e. stored i e \<noteq> None \<longrightarrow> e \<le> in_next_event i)"

definition staged_ok :: "inner \<Rightarrow> layer_id \<Rightarrow> staged_layer \<Rightarrow> bool" where
  "staged_ok i l s \<longleftrightarrow>
     hm_get (in_members i) l = None \<and> distinct (map ev_id (sl_authored s)) \<and>
     (\<forall>ev \<in> set (sl_authored s). ev_id ev \<noteq> 0 \<and> ev_id ev \<le> in_next_event i \<and>
        stored i (ev_id ev) = None \<and> ev_authored ev = l) \<and>
     (\<forall>e \<in> set (sl_members s). stored i e \<noteq> None \<or> e \<in> staged_ids s)"

definition disjoint_ok :: "inner \<Rightarrow> bool" where
  "disjoint_ok i \<longleftrightarrow>
     (\<forall>l s l' s'. hm_get (in_staged i) l = Some s \<longrightarrow> hm_get (in_staged i) l' = Some s' \<longrightarrow> l \<noteq> l' \<longrightarrow>
        staged_ids s \<inter> staged_ids s' = {})"

definition members_ok :: "inner \<Rightarrow> bool" where
  "members_ok i \<longleftrightarrow> distinct (map fst (in_members i)) \<and>
     (\<forall>l m. hm_get (in_members i) l = Some m \<longrightarrow> (\<forall>e \<in> set (mb_events m). stored i e \<noteq> None))"

text \<open>What layer membership says landed: the last member of the layer that wrote the record.\<close>

definition log_landing :: "inner \<Rightarrow> branch_id \<Rightarrow> cell_ref \<Rightarrow> def_version \<Rightarrow> layer_id \<Rightarrow> event_id option" where
  "log_landing i b c v l =
     (case hm_get (in_members i) l of
        None \<Rightarrow> None
      | Some m \<Rightarrow> if mb_branch m = b then last_hit (in_events i) (mb_events m) c v else None)"

definition reads_ok :: "inner \<Rightarrow> bool" where
  "reads_ok i \<longleftrightarrow> keys_ok (in_reads i) \<and> (\<forall>b c v l. landing (in_reads i) b c v l = log_landing i b c v l)"

definition mem_inv :: "inner \<Rightarrow> bool" where
  "mem_inv i \<longleftrightarrow> ids_ok i \<and> (\<forall>l s. hm_get (in_staged i) l = Some s \<longrightarrow> staged_ok i l s) \<and>
     disjoint_ok i \<and> members_ok i \<and> reads_ok i"

lemmas mem_inv_defs = mem_inv_def ids_ok_def staged_ok_def disjoint_ok_def members_ok_def reads_ok_def

lemma mem_invD:
  assumes "mem_inv i"
  shows "ids_ok i" "disjoint_ok i" "members_ok i" "reads_ok i"
    "hm_get (in_staged i) l = Some s \<Longrightarrow> staged_ok i l s"
  using assms by (auto simp: mem_inv_def)

lemma mem_inv_new: "mem_inv mem_new"
  by (simp add: mem_inv_defs mem_new_def events_ok_def event_at_def stored_def log_landing_def
      split: option.split)

section \<open>Steps\<close>

text \<open>
  The operations of the provider in whatever order and on whatever layers. Only the adoption of an event is
  restricted, to identities that are not 0 and not in use: \<^verbatim>\<open>adopt_event\<close> of \<^verbatim>\<open>memory.rs\<close> leaves that to its
  caller (\<^verbatim>\<open>restore\<close> of \<^verbatim>\<open>borg-host/src/stream.rs\<close>, which replays the events of a stream into an empty store),
  and a reused identity replaces the event that had it (\<open>adopting_a_used_id_replaces\<close>).
\<close>

inductive mem_step :: "(u8 list \<Rightarrow> u8 list) \<Rightarrow> inner \<Rightarrow> inner \<Rightarrow> bool" for hash where
  Author: "mem_step hash i (snd (author_event l cell draft i))"
| Adopt: "fresh_id i (ev_id ev) \<Longrightarrow> mem_step hash i (snd (adopt_event l ev i))"
| Include: "mem_step hash i (snd (include_event l e i))"
| Put_Def: "mem_step hash i (snd (mem_put_def l def i))"
| Seal: "mem_step hash i (snd (mem_seal l i))"
| Abort: "mem_step hash i (snd (mem_abort l i))"
| Open: "mem_step hash i (snd (open_layer b l i))"
| Commit: "mem_step hash i (snd (commit_layer l i))"
| Rebuild: "mem_step hash i (snd (rebuild_read_index i))"
| Meta: "mem_step hash i (put_layer_meta layer i)"
| Branch: "mem_step hash i (put_branch b i)"
| Intern: "mem_step hash i (snd (intern hash kind bytes i))"

section \<open>Preservation\<close>

text \<open>What readers depend on: events, memberships and the index.\<close>

definition same_log :: "inner \<Rightarrow> inner \<Rightarrow> bool" where
  "same_log i j \<longleftrightarrow> in_events j = in_events i \<and> in_members j = in_members i \<and> in_reads j = in_reads i"

lemma same_log_stored: "same_log i j \<Longrightarrow> stored j = stored i"
  by (auto simp: same_log_def stored_def)

lemma log_landing_cong:
  "in_events j = in_events i \<Longrightarrow> in_members j = in_members i \<Longrightarrow> log_landing j = log_landing i"
  by (intro ext) (simp add: log_landing_def split: option.split)

lemma same_log_frame:
  assumes "same_log i j"
  shows "members_ok j = members_ok i" "reads_ok j = reads_ok i"
proof -
  have e: "in_events j = in_events i" "in_members j = in_members i" "in_reads j = in_reads i"
    using assms by (simp_all add: same_log_def)
  show "members_ok j = members_ok i" by (simp add: members_ok_def stored_def e)
  show "reads_ok j = reads_ok i" by (simp add: reads_ok_def log_landing_cong[OF e(1,2)] e(3))
qed

text \<open>A step that changes at most one open layer and keeps the log.\<close>

lemma mem_inv_staged:
  assumes inv: "mem_inv i" and log: "same_log i j"
    and next_le: "in_next_event i \<le> in_next_event j"
    and upd: "in_staged j = hm_insert l s (in_staged i)"
    and ok: "staged_ok j l s"
    and disj: "\<And>l' s'. hm_get (in_staged i) l' = Some s' \<Longrightarrow> l' \<noteq> l \<Longrightarrow> staged_ids s \<inter> staged_ids s' = {}"
  shows "mem_inv j"
proof -
  have ids: "ids_ok j" using mem_invD(1)[OF inv] log next_le same_log_stored[OF log]
    by (auto simp: ids_ok_def same_log_def intro: order_trans)
  have other: "staged_ok j l' s'" if "hm_get (in_staged i) l' = Some s'" for l' s'
    using mem_invD(5)[OF inv that] log next_le same_log_stored[OF log]
    by (auto simp: staged_ok_def same_log_def intro: order_trans)
  have "disjoint_ok j" using mem_invD(2)[OF inv] disj
    by (auto simp: disjoint_ok_def upd split: if_splits) blast+
  then show ?thesis
    using ids other ok mem_invD(3,4)[OF inv] same_log_frame[OF log]
    by (auto simp: mem_inv_def upd)
qed

lemma staged_Inr: "staged i l = Inr s \<longleftrightarrow> hm_get (in_staged i) l = Some s \<and> \<not> sl_sealed s"
  by (auto simp: staged_def split: option.splits)

lemma less_next: "n \<noteq> - 1 \<Longrightarrow> n < n + (1 :: u64)"
proof -
  assume "n \<noteq> - 1"
  then have "1 + n \<noteq> 0" using minus_unique[of 1 n] by metis
  then have "unat (1 + n) = Suc (unat n)" by (rule unatSuc)
  then show ?thesis by (simp add: word_less_nat_alt add.commute)
qed

lemma mem_inv_next:
  "mem_inv i \<Longrightarrow> in_next_event i \<le> n \<Longrightarrow> mem_inv (i\<lparr>in_next_event := n\<rparr>)"
  using log_landing_cong[of "i\<lparr>in_next_event := n\<rparr>" i]
  by (auto simp: mem_inv_defs stored_def dest: order_trans) (meson order_trans)+

lemma mem_inv_author: "mem_inv i \<Longrightarrow> mem_inv (snd (author_event l cell draft i))"
proof -
  assume inv: "mem_inv i"
  show ?thesis
  proof (cases "in_next_event i = - 1")
    case True
    then show ?thesis using inv by (simp add: author_event_def mint_def)
  next
    case False
    let ?e = "in_next_event i + 1" and ?i = "i\<lparr>in_next_event := in_next_event i + 1\<rparr>"
    have lt: "in_next_event i < ?e" using False by (rule less_next)
    then have nz: "?e \<noteq> 0" by (metis not_less word_zero_le)
    have inv': "mem_inv ?i" using inv lt by (intro mem_inv_next) simp_all
    have mint: "mint i = (Inr ?e, ?i)" using False by (simp add: mint_def)
    show ?thesis
    proof (cases "staged ?i l")
      case (Inl err)
      then show ?thesis using inv' by (simp add: author_event_def mint)
    next
      case (Inr s)
      then have s: "hm_get (in_staged i) l = Some s" by (simp add: staged_Inr)
      let ?s = "s\<lparr>sl_members := sl_members s @ [?e], sl_authored := sl_authored s @ [draft_event ?e cell draft l]\<rparr>"
      have ids: "staged_ids ?s = insert ?e (staged_ids s)" by (auto simp: staged_ids_def draft_event_def)
      have unstored: "stored i ?e = None"
        using mem_invD(1)[OF inv] lt by (auto simp: ids_ok_def not_less[symmetric])
      have unstaged: "?e \<notin> staged_ids s'" if "hm_get (in_staged i) l' = Some s'" for l' s'
        using mem_invD(5)[OF inv that] lt by (auto simp: staged_ok_def staged_ids_def not_less[symmetric])
      have "mem_inv (put_staged l ?s ?i)"
      proof (rule mem_inv_staged[OF inv'])
        show "staged_ok (put_staged l ?s ?i) l ?s"
          using mem_invD(5)[OF inv s] lt nz unstored unstaged[OF s]
          by (auto simp: staged_ok_def put_staged_def stored_def ids draft_event_def staged_ids_def
              intro: order_trans less_imp_le)
        show "staged_ids ?s \<inter> staged_ids s' = {}"
          if "hm_get (in_staged ?i) l' = Some s'" "l' \<noteq> l" for l' s'
          using mem_invD(2)[OF inv] s that unstaged by (auto simp: ids disjoint_ok_def)
      qed (simp_all add: same_log_def put_staged_def)
      then show ?thesis using Inr by (simp add: author_event_def mint)
    qed
  qed
qed

lemma mem_inv_adopt: "mem_inv i \<Longrightarrow> fresh_id i (ev_id ev) \<Longrightarrow> mem_inv (snd (adopt_event l ev i))"
proof -
  assume inv: "mem_inv i" and fresh: "fresh_id i (ev_id ev)"
  let ?i = "i\<lparr>in_next_event := max (in_next_event i) (ev_id ev)\<rparr>"
  have inv': "mem_inv ?i" using inv by (intro mem_inv_next) simp_all
  show ?thesis
  proof (cases "staged ?i l")
    case (Inl err)
    then show ?thesis using inv inv' by (simp add: adopt_event_def Let_def)
  next
    case (Inr s)
    then have s: "hm_get (in_staged i) l = Some s" by (simp add: staged_Inr)
    let ?s = "s\<lparr>sl_members := sl_members s @ [ev_id ev], sl_authored := sl_authored s @ [ev]\<rparr>"
    have ids: "staged_ids ?s = insert (ev_id ev) (staged_ids s)" by (auto simp: staged_ids_def)
    have "mem_inv (put_staged l ?s ?i)" if "ev_authored ev = l"
    proof (rule mem_inv_staged[OF inv'])
      show "staged_ok (put_staged l ?s ?i) l ?s"
        using mem_invD(5)[OF inv s] s fresh that
        by (auto simp: staged_ok_def put_staged_def stored_def ids fresh_id_def staged_ids_def
            le_max_iff_disj)
      show "staged_ids ?s \<inter> staged_ids s' = {}"
        if "hm_get (in_staged ?i) l' = Some s'" "l' \<noteq> l" for l' s'
        using mem_invD(2)[OF inv] s that fresh by (auto simp: ids disjoint_ok_def fresh_id_def)
    qed (simp_all add: same_log_def put_staged_def)
    then show ?thesis using Inr inv by (simp add: adopt_event_def Let_def)
  qed
qed

lemma mem_inv_change:
  assumes inv: "mem_inv i" and s: "hm_get (in_staged i) l = Some s"
    and "sl_authored s' = sl_authored s"
    and "\<forall>e \<in> set (sl_members s'). e \<in> set (sl_members s) \<or> stored i e \<noteq> None"
  shows "mem_inv (put_staged l s' i)"
proof (rule mem_inv_staged[OF inv])
  show "staged_ok (put_staged l s' i) l s'"
    using mem_invD(5)[OF inv s] assms(3,4)
    by (auto simp: staged_ok_def put_staged_def stored_def staged_ids_def)
  show "staged_ids s' \<inter> staged_ids s'' = {}" if "hm_get (in_staged i) l' = Some s''" "l' \<noteq> l" for l' s''
    using mem_invD(2)[OF inv] s that assms(3) by (auto simp: disjoint_ok_def staged_ids_def)
qed (simp_all add: same_log_def put_staged_def)

lemma mem_inv_include: "mem_inv i \<Longrightarrow> mem_inv (snd (include_event l e i))"
  by (auto simp: include_event_def staged_Inr split: sum.splits intro!: mem_inv_change)

lemma mem_inv_put_def: "mem_inv i \<Longrightarrow> mem_inv (snd (mem_put_def l d i))"
  by (auto simp: mem_put_def_def staged_Inr split: sum.splits intro!: mem_inv_change)

lemma mem_inv_seal: "mem_inv i \<Longrightarrow> mem_inv (snd (mem_seal l i))"
  by (auto simp: mem_seal_def split: option.splits intro!: mem_inv_change)

lemma mem_inv_drop: "mem_inv i \<Longrightarrow> mem_inv (i\<lparr>in_staged := hm_remove l (in_staged i)\<rparr>)"
  using log_landing_cong[of "i\<lparr>in_staged := hm_remove l (in_staged i)\<rparr>" i]
  by (auto simp: mem_inv_defs stored_def split: if_splits)

lemma mem_inv_abort: "mem_inv i \<Longrightarrow> mem_inv (snd (mem_abort l i))"
  by (simp add: mem_abort_def mem_inv_drop)

lemma mem_inv_open: "mem_inv i \<Longrightarrow> mem_inv (snd (open_layer b l i))"
proof -
  assume inv: "mem_inv i"
  have "mem_inv (put_staged l s i)"
    if "hm_get (in_members i) l = None" "sl_authored s = []" "sl_members s = []" for s
    by (rule mem_inv_staged[OF inv, where l = l and s = s])
       (simp_all add: that same_log_def put_staged_def staged_ok_def staged_ids_def)
  then show ?thesis using inv by (auto simp: open_layer_def)
qed

section \<open>Commit\<close>

text \<open>The state a successful commit leaves.\<close>

definition committed_state ::
  "inner \<Rightarrow> layer_id \<Rightarrow> staged_layer \<Rightarrow> event option list \<Rightarrow> read_index \<Rightarrow> inner" where
  "committed_state i l s events reads =
     i\<lparr>in_staged := hm_remove l (in_staged i), in_events := events, in_reads := reads,
       in_members := hm_insert l \<lparr>mb_branch = sl_branch s, mb_events = sl_members s\<rparr> (in_members i),
       in_def_contents := hm_insert l (sl_defs s) (in_def_contents i)\<rparr>"

lemma committed_state_simps [simp]:
  "in_staged (committed_state i l s events reads) = hm_remove l (in_staged i)"
  "in_events (committed_state i l s events reads) = events"
  "in_reads (committed_state i l s events reads) = reads"
  "in_members (committed_state i l s events reads) =
     hm_insert l \<lparr>mb_branch = sl_branch s, mb_events = sl_members s\<rparr> (in_members i)"
  "in_def_contents (committed_state i l s events reads) = hm_insert l (sl_defs s) (in_def_contents i)"
  "in_next_event (committed_state i l s events reads) = in_next_event i"
  "in_layer_meta (committed_state i l s events reads) = in_layer_meta i"
  "in_branches (committed_state i l s events reads) = in_branches i"
  "in_interned (committed_state i l s events reads) = in_interned i"
  "stored (committed_state i l s events reads) e = event_at events e"
  by (simp_all add: committed_state_def stored_def)

lemma commit_cases:
  assumes inv: "mem_inv i" and s: "hm_get (in_staged i) l = Some s" and sealed: "sl_sealed s"
  obtains events reads where
    "commit_layer l i = (Inr (), committed_state i l s events reads)"
    "\<And>e. event_at events e =
       (case by_id (sl_authored s) e of Some ev \<Rightarrow> Some ev | None \<Rightarrow> event_at (in_events i) e)"
    "keys_ok reads"
    "\<And>b c v k. landing reads b c v k =
       (if b = sl_branch s \<and> k = l
        then (case last_hit events (sl_members s) c v of Some e \<Rightarrow> Some e | None \<Rightarrow> landing (in_reads i) b c v k)
        else landing (in_reads i) b c v k)"
    "events_ok events"
proof -
  have ok: "staged_ok i l s" using mem_invD(5)[OF inv s] .
  then obtain events where st: "store_all (sl_authored s) (in_events i) = Some events"
    and at: "\<And>e. event_at events e =
       (case by_id (sl_authored s) e of Some ev \<Rightarrow> Some ev | None \<Rightarrow> event_at (in_events i) e)"
    using store_all_event_at[of "sl_authored s" "in_events i"] by (auto simp: staged_ok_def)
  have eok: "events_ok events"
    using mem_invD(1)[OF inv] by (auto simp: ids_ok_def events_ok_def at dest: by_id_Some split: option.splits)
  have "\<forall>e \<in> set (sl_members s). event_at events e \<noteq> None"
  proof
    fix e assume "e \<in> set (sl_members s)"
    with ok have "stored i e \<noteq> None \<or> by_id (sl_authored s) e \<noteq> None"
      by (auto simp: staged_ok_def by_id_dom staged_ids_def)
    then show "event_at events e \<noteq> None" by (auto simp: at stored_def split: option.splits)
  qed
  from index_members_ok[OF eok this, of "sl_branch s" l "in_reads i"]
  obtain reads where ix: "index_members events (sl_branch s) l (sl_members s) (in_reads i) = (Inr (), reads)"
    and keys: "keys_ok (in_reads i) \<longrightarrow> keys_ok reads"
    and landing: "\<And>b c v k. landing reads b c v k =
       (if b = sl_branch s \<and> k = l
        then (case last_hit events (sl_members s) c v of Some e \<Rightarrow> Some e | None \<Rightarrow> landing (in_reads i) b c v k)
        else landing (in_reads i) b c v k)"
    by blast
  show ?thesis
  proof (rule that[OF _ at _ landing eok])
    show "commit_layer l i = (Inr (), committed_state i l s events reads)"
      by (simp add: commit_layer_def s sealed Let_def st ix committed_state_def)
    show "keys_ok reads" using keys mem_invD(4)[OF inv] by (simp add: reads_ok_def)
  qed
qed

lemma by_id_staged:
  "staged_ok i l s \<Longrightarrow> stored i e \<noteq> None \<Longrightarrow> by_id (sl_authored s) e = None"
  by (auto simp: staged_ok_def by_id_dom)

lemma mem_inv_commit: "mem_inv i \<Longrightarrow> mem_inv (snd (commit_layer l i))"
proof (cases "hm_get (in_staged i) l")
  case None
  then show "mem_inv i \<Longrightarrow> mem_inv (snd (commit_layer l i))" by (simp add: commit_layer_def)
next
  case (Some s)
  assume inv: "mem_inv i"
  show ?thesis
  proof (cases "sl_sealed s")
    case False
    then show ?thesis using mem_inv_drop[OF inv] Some by (simp add: commit_layer_def Let_def)
  next
    case True
    note ok = mem_invD(5)[OF inv Some]
    from commit_cases[OF inv Some True] obtain events reads where
      c: "commit_layer l i = (Inr (), committed_state i l s events reads)"
      and at: "\<And>e. event_at events e =
        (case by_id (sl_authored s) e of Some ev \<Rightarrow> Some ev | None \<Rightarrow> event_at (in_events i) e)"
      and keys: "keys_ok reads"
      and landing: "\<And>b c v k. landing reads b c v k =
       (if b = sl_branch s \<and> k = l
        then (case last_hit events (sl_members s) c v of Some e \<Rightarrow> Some e | None \<Rightarrow> landing (in_reads i) b c v k)
        else landing (in_reads i) b c v k)"
      and eok: "events_ok events" by blast
    let ?j = "committed_state i l s events reads"
    have old: "event_at events e = stored i e" if "stored i e \<noteq> None" for e
      using by_id_staged[OF ok that] by (simp add: at stored_def)
    have new: "event_at events e \<noteq> None \<longleftrightarrow> stored i e \<noteq> None \<or> e \<in> staged_ids s" for e
      by (auto simp: at stored_def by_id_dom staged_ids_def split: option.splits dest: by_id_Some)
    have ids: "ids_ok ?j"
      using mem_invD(1)[OF inv] ok eok new by (auto simp: ids_ok_def staged_ok_def staged_ids_def)
    have staged: "staged_ok ?j l' s'" if "hm_get (hm_remove l (in_staged i)) l' = Some s'" for l' s'
    proof -
      have s': "hm_get (in_staged i) l' = Some s'" "l' \<noteq> l" using that by (auto split: if_splits)
      have "staged_ids s' \<inter> staged_ids s = {}"
        using mem_invD(2)[OF inv] s' Some by (auto simp: disjoint_ok_def)
      then have "event_at events (ev_id ev) = None" if "ev \<in> set (sl_authored s')" for ev
        using that mem_invD(5)[OF inv s'(1)] new[of "ev_id ev"] by (auto simp: staged_ok_def staged_ids_def)
      moreover have "event_at events e \<noteq> None \<or> e \<in> staged_ids s'" if "e \<in> set (sl_members s')" for e
        using that mem_invD(5)[OF inv s'(1)] new[of e] by (simp add: staged_ok_def) blast
      ultimately show ?thesis using mem_invD(5)[OF inv s'(1)] s'(2) by (simp add: staged_ok_def)
    qed
    have disj: "disjoint_ok ?j"
      using mem_invD(2)[OF inv] by (auto simp: disjoint_ok_def split: if_splits)
    have members: "members_ok ?j"
      using mem_invD(3)[OF inv] ok new
      by (auto simp: members_ok_def staged_ok_def stored_def intro!: hm_distinct_insert)
    have log: "log_landing ?j b c v k =
        (if k = l then (if b = sl_branch s then last_hit events (sl_members s) c v else None)
         else log_landing i b c v k)" for b c v k
    proof (cases "k = l")
      case False
      have "last_hit events (mb_events m) c v = last_hit (in_events i) (mb_events m) c v"
        if "hm_get (in_members i) k = Some m" for m
        using mem_invD(3)[OF inv] that old
        by (intro last_hit_cong) (auto simp: members_ok_def stored_def)
      with False show ?thesis by (auto simp: log_landing_def split: option.splits)
    qed (simp add: log_landing_def)
    have "log_landing i b c v l = None" for b c v using ok by (simp add: log_landing_def staged_ok_def)
    then have "reads_ok ?j"
      using keys mem_invD(4)[OF inv] by (auto simp: reads_ok_def landing log split: option.splits)
    then show ?thesis using ids staged disj members by (simp add: mem_inv_def c)
  qed
qed

section \<open>Rebuild\<close>

lemma rebuild_layers_ok:
  assumes "events_ok (in_events i)" "members_ok i" "distinct ls" "set ls \<subseteq> fst ` set (in_members i)"
  shows "\<exists>reads'. rebuild_layers i ls reads = (Inr (), reads') \<and> (keys_ok reads \<longrightarrow> keys_ok reads') \<and>
    (\<forall>b c v l. (\<forall>l \<in> set ls. landing reads b c v l = None) \<longrightarrow> landing reads' b c v l =
       (if l \<in> set ls then log_landing i b c v l else landing reads b c v l))"
  using assms(3,4)
proof (induction ls arbitrary: reads)
  case (Cons l ls)
  then obtain m where m: "hm_get (in_members i) l = Some m"
    by (cases "hm_get (in_members i) l") (auto simp: map_of_eq_None_iff)
  then have "\<forall>e \<in> set (mb_events m). event_at (in_events i) e \<noteq> None"
    using assms(2) by (auto simp: members_ok_def stored_def)
  from index_members_ok[OF assms(1) this, of "mb_branch m" l reads]
  obtain r1 where r1: "index_members (in_events i) (mb_branch m) l (mb_events m) reads = (Inr (), r1)"
    "keys_ok reads \<longrightarrow> keys_ok r1"
    "\<And>b c v k. landing r1 b c v k =
       (if b = mb_branch m \<and> k = l
        then (case last_hit (in_events i) (mb_events m) c v of Some e \<Rightarrow> Some e | None \<Rightarrow> landing reads b c v k)
        else landing reads b c v k)"
    by blast
  from Cons.IH[of r1] Cons.prems
  obtain r2 where r2: "rebuild_layers i ls r1 = (Inr (), r2)" "keys_ok r1 \<longrightarrow> keys_ok r2"
    "\<And>b c v k. \<forall>k \<in> set ls. landing r1 b c v k = None \<Longrightarrow> landing r2 b c v k =
       (if k \<in> set ls then log_landing i b c v k else landing r1 b c v k)"
    by auto
  show ?case
  proof (intro exI[of _ r2] conjI allI impI)
    show "rebuild_layers i (l # ls) reads = (Inr (), r2)" using m r1(1) r2(1) by simp
    show "keys_ok reads \<Longrightarrow> keys_ok r2" using r1(2) r2(2) by simp
    fix b c v k assume none: "\<forall>k \<in> set (l # ls). landing reads b c v k = None"
    then have "\<forall>k \<in> set ls. landing r1 b c v k = None" using Cons.prems by (auto simp: r1(3))
    from r2(3)[OF this, of k]
    show "landing r2 b c v k = (if k \<in> set (l # ls) then log_landing i b c v k else landing reads b c v k)"
      using none Cons.prems m by (auto simp: r1(3) log_landing_def split: option.splits)
  qed
qed simp

lemma rebuild_ok:
  assumes "mem_inv i"
  obtains reads where "rebuild_read_index i = (Inr (), i\<lparr>in_reads := reads\<rparr>)" "keys_ok reads"
    "\<And>b c v. landing reads b c v = landing (in_reads i) b c v"
proof -
  have m: "distinct (map fst (in_members i))" using mem_invD(3)[OF assms] by (simp add: members_ok_def)
  have e: "events_ok (in_events i)" using mem_invD(1)[OF assms] by (simp add: ids_ok_def)
  from rebuild_layers_ok[OF e mem_invD(3)[OF assms], of "sort (map fst (in_members i))" "[]"] m
  obtain reads where r: "rebuild_layers i (sort (map fst (in_members i))) [] = (Inr (), reads)" "keys_ok reads"
    "\<And>b c v l. landing reads b c v l = (if l \<in> fst ` set (in_members i) then log_landing i b c v l else None)"
    by auto
  have "landing reads b c v l = landing (in_reads i) b c v l" for b c v l
  proof -
    have "log_landing i b c v l = None" if "l \<notin> fst ` set (in_members i)"
      using that by (simp add: log_landing_def flip: map_of_eq_None_iff)
    then show ?thesis using mem_invD(4)[OF assms] by (auto simp: r(3) reads_ok_def)
  qed
  then show ?thesis using r(1,2) by (intro that[of reads]) (simp_all add: rebuild_read_index_def fun_eq_iff)
qed

lemma mem_inv_rebuild: "mem_inv i \<Longrightarrow> mem_inv (snd (rebuild_read_index i))"
proof -
  assume inv: "mem_inv i"
  obtain reads where r: "rebuild_read_index i = (Inr (), i\<lparr>in_reads := reads\<rparr>)" "keys_ok reads"
    "\<And>b c v. landing reads b c v = landing (in_reads i) b c v" using rebuild_ok[OF inv] by blast
  have "log_landing (i\<lparr>in_reads := reads\<rparr>) = log_landing i" by (rule log_landing_cong) simp_all
  then show ?thesis using inv r by (simp add: mem_inv_defs stored_def)
qed

section \<open>Reachable states\<close>

lemma mem_inv_step: "mem_step hash i j \<Longrightarrow> mem_inv i \<Longrightarrow> mem_inv j"
proof (induction rule: mem_step.induct)
  case (Meta i layer)
  then show ?case using log_landing_cong[of "put_layer_meta layer i" i]
    by (simp add: mem_inv_defs stored_def put_layer_meta_def)
next
  case (Branch i b)
  then show ?case using log_landing_cong[of "put_branch b i" i]
    by (simp add: mem_inv_defs stored_def put_branch_def)
next
  case (Intern i kind bytes)
  have "mem_inv (i\<lparr>in_interned := x\<rparr>)" for x
    using Intern log_landing_cong[of "i\<lparr>in_interned := x\<rparr>" i] by (simp add: mem_inv_defs stored_def)
  with Intern show ?case by (simp add: intern_def split: sum.split)
qed (simp_all add: mem_inv_author mem_inv_adopt mem_inv_include mem_inv_put_def mem_inv_seal
    mem_inv_abort mem_inv_open mem_inv_commit mem_inv_rebuild)

definition mem_reachable :: "(u8 list \<Rightarrow> u8 list) \<Rightarrow> inner \<Rightarrow> bool" where
  "mem_reachable hash i \<longleftrightarrow> (mem_step hash)\<^sup>*\<^sup>* mem_new i"

lemma mem_reachable_inv: "mem_reachable hash i \<Longrightarrow> mem_inv i"
proof -
  have "(mem_step hash)\<^sup>*\<^sup>* i j \<Longrightarrow> mem_inv i \<Longrightarrow> mem_inv j" for i j
    by (induction rule: rtranclp_induct) (auto intro: mem_inv_step)
  then show "mem_reachable hash i \<Longrightarrow> mem_inv i" using mem_inv_new by (auto simp: mem_reachable_def)
qed

end
