(* ===== verification/Mem_Properties.thy ===== *)
theory Mem_Properties
  imports Mem_Contract
begin

text \<open>
  The properties of the in-memory provider: what a read answers, what commit publishes, what an
  open layer and an abort leave visible (nothing), that the log only grows, that the read index can
  be rebuilt, and interning.
\<close>

section \<open>Reads, told from the log\<close>

text \<open>The last event of a committed layer of the branch that wrote the record.\<close>

definition log_event :: "inner \<Rightarrow> branch_id \<Rightarrow> cell_ref \<Rightarrow> def_version \<Rightarrow> layer_id \<Rightarrow> event option" where
  "log_event i b c v l = (case log_landing i b c v l of None \<Rightarrow> None | Some e \<Rightarrow> stored i e)"

definition newest_in ::
  "inner \<Rightarrow> branch_id \<Rightarrow> layer_id \<Rightarrow> cell_ref \<Rightarrow> def_version \<Rightarrow> landed \<Rightarrow> bool" where
  "newest_in i b bound c v ld \<longleftrightarrow>
     log_event i b c v (ld_at ld) = Some (ld_event ld) \<and> ld_at ld \<le> bound \<and>
     (\<forall>k. log_event i b c v k \<noteq> None \<longrightarrow> k \<le> bound \<longrightarrow> k \<le> ld_at ld)"

definition nothing_in :: "inner \<Rightarrow> branch_id \<Rightarrow> layer_id \<Rightarrow> cell_ref \<Rightarrow> def_version \<Rightarrow> bool" where
  "nothing_in i b bound c v \<longleftrightarrow> (\<forall>k. log_event i b c v k \<noteq> None \<longrightarrow> \<not> k \<le> bound)"

lemma log_landing_stored:
  "members_ok i \<Longrightarrow> log_landing i b c v l = Some e \<Longrightarrow> \<exists>ev. stored i e = Some ev"
  by (auto simp: log_landing_def stored_def dest!: last_hit_SomeD split: option.splits if_splits)

lemma log_event_None: "members_ok i \<Longrightarrow> log_event i b c v l = None \<longleftrightarrow> log_landing i b c v l = None"
  using log_landing_stored by (fastforce simp: log_event_def split: option.splits)

text \<open>What one segment of the walk finds.\<close>

lemma segment_cases:
  assumes inv: "mem_inv i"
  obtains (Nothing) "newest_at (hist (in_reads i) b c v) bound = None" "nothing_in i b bound c v"
  | (Newest) e ev l where "newest_at (hist (in_reads i) b c v) bound = Some (l, e)"
      "event_of i e = Inr ev" "newest_in i b bound c v \<lparr>ld_event = ev, ld_at = l\<rparr>"
proof -
  note m = mem_invD(3)[OF inv]
  have keys: "distinct (map fst (hist (in_reads i) b c v))"
    and land: "map_of (hist (in_reads i) b c v) l = log_landing i b c v l" for l
    using mem_invD(4)[OF inv] by (simp_all add: reads_ok_def keys_ok_def landing_def fun_eq_iff)
  show ?thesis
  proof (cases "newest_at (hist (in_reads i) b c v) bound")
    case None
    then show ?thesis
      by (intro Nothing) (simp_all add: newest_at_None land nothing_in_def log_event_None[OF m])
  next
    case (Some x)
    obtain l e where x: "x = (l, e)" by (cases x)
    with Some have n: "log_landing i b c v l = Some e" "l \<le> bound"
      "\<And>k. log_landing i b c v k \<noteq> None \<Longrightarrow> k \<le> bound \<Longrightarrow> k \<le> l"
      using newest_at_Some[OF keys] by (auto simp: land)
    obtain ev where "stored i e = Some ev" using log_landing_stored[OF m n(1)] by blast
    with Some x n show ?thesis
      by (intro Newest[of l e ev]) (auto simp: event_of_def newest_in_def log_event_def split: option.splits)
  qed
qed

lemma newest_in_unique: "newest_in i b bound c v x \<Longrightarrow> newest_in i b bound c v y \<Longrightarrow> x = y"
proof -
  assume "newest_in i b bound c v x" "newest_in i b bound c v y"
  then have "ld_at x \<le> ld_at y" "ld_at y \<le> ld_at x"
    "log_event i b c v (ld_at x) = Some (ld_event x)" "log_event i b c v (ld_at y) = Some (ld_event y)"
    by (auto simp: newest_in_def)
  then show "x = y" by (intro landed.equality) auto
qed

lemma newest_not_nothing: "newest_in i b bound c v x \<Longrightarrow> \<not> nothing_in i b bound c v"
  by (auto simp: newest_in_def nothing_in_def)

lemma get_cell_Cons:
  assumes "mem_inv i"
  shows "nothing_in i b bound c v \<and> get_cell i ((b, bound) # path) c v = get_cell i path c v \<or>
    (\<exists>x. newest_in i b bound c v x \<and> get_cell i ((b, bound) # path) c v = Inr (Some x))"
  using assms
proof (cases rule: segment_cases[where b = b and c = c and v = v and bound = bound])
  case Nothing
  then show ?thesis by (simp add: history_at_hist)
next
  case (Newest e ev l)
  then show ?thesis by (auto simp: history_at_hist)
qed

lemma get_cell_total: "mem_inv i \<Longrightarrow> \<exists>r. get_cell i path c v = Inr r"
proof (induction path)
  case (Cons seg path)
  then show ?case using get_cell_Cons[of i "fst seg" "snd seg" c v path] by (cases seg) auto
qed simp

lemma get_cell_Some:
  assumes "mem_inv i"
  shows "get_cell i path c v = Inr (Some x) \<longleftrightarrow>
    (\<exists>pre b bound post. path = pre @ (b, bound) # post \<and> newest_in i b bound c v x \<and>
       (\<forall>(b', bound') \<in> set pre. nothing_in i b' bound' c v))"
proof (induction path)
  case (Cons seg path)
  obtain b bound where seg: "seg = (b, bound)" by (cases seg)
  from get_cell_Cons[OF assms, of b bound c v path]
  show ?case
  proof
    assume n: "nothing_in i b bound c v \<and> get_cell i ((b, bound) # path) c v = get_cell i path c v"
    show ?thesis (is "?l \<longleftrightarrow> ?r")
    proof
      assume ?l
      with n seg Cons.IH obtain pre b' bound' post where "path = pre @ (b', bound') # post"
        "newest_in i b' bound' c v x" "\<forall>(b', bound') \<in> set pre. nothing_in i b' bound' c v" by auto
      then show ?r using n seg by (intro exI[of _ "seg # pre"]) auto
    next
      assume ?r
      then obtain pre b' bound' post where p: "seg # path = pre @ (b', bound') # post"
        "newest_in i b' bound' c v x" "\<forall>(b', bound') \<in> set pre. nothing_in i b' bound' c v" by blast
      with n seg obtain pre' where "pre = seg # pre'" by (cases pre) (auto dest: newest_not_nothing)
      with p have "get_cell i path c v = Inr (Some x)" by (subst Cons.IH) auto
      with n seg show ?l by simp
    qed
  next
    assume "\<exists>y. newest_in i b bound c v y \<and> get_cell i ((b, bound) # path) c v = Inr (Some y)"
    then obtain y where y: "newest_in i b bound c v y" "get_cell i ((b, bound) # path) c v = Inr (Some y)" by blast
    show ?thesis (is "?l \<longleftrightarrow> ?r")
    proof
      assume ?l
      with y seg have "x = y" by simp
      with y(1) seg show ?r by (intro exI[of _ "[]"]) auto
    next
      assume ?r
      then obtain pre b' bound' post where p: "seg # path = pre @ (b', bound') # post"
        "newest_in i b' bound' c v x" "\<forall>(b', bound') \<in> set pre. nothing_in i b' bound' c v" by blast
      then have "pre = []" using y(1) seg by (cases pre) (auto dest: newest_not_nothing)
      with p seg have "newest_in i b bound c v x" by simp
      with y seg show ?l using newest_in_unique by fastforce
    qed
  qed
qed simp

section \<open>The log only grows\<close>

text \<open>
  The interface of an append-only component: a lookup that no step can change once it answers. Its
  clients use \<open>stable\<close>: what was ever read there is read there for good.
\<close>

locale append_only =
  fixes step :: "'s \<Rightarrow> 's \<Rightarrow> bool"
    and invariant :: "'s \<Rightarrow> bool"
    and look :: "'s \<Rightarrow> 'k \<Rightarrow> 'v option"
  assumes invariant_step: "invariant s \<Longrightarrow> step s t \<Longrightarrow> invariant t"
    and look_step: "invariant s \<Longrightarrow> step s t \<Longrightarrow> look s k = Some x \<Longrightarrow> look t k = Some x"
begin

lemma invariant_steps: "step\<^sup>*\<^sup>* s t \<Longrightarrow> invariant s \<Longrightarrow> invariant t"
  by (induction rule: rtranclp_induct) (auto intro: invariant_step)

lemma stable: "step\<^sup>*\<^sup>* s t \<Longrightarrow> invariant s \<Longrightarrow> look s k = Some x \<Longrightarrow> look t k = Some x"
proof (induction rule: rtranclp_induct)
  case (step t u)
  then show ?case using invariant_steps look_step by blast
qed simp

end

lemma commit_keeps:
  assumes "mem_inv i"
  shows "stored i e = Some ev \<Longrightarrow> stored (snd (commit_layer l i)) e = Some ev"
    and "hm_get (in_members i) k = Some m \<Longrightarrow> hm_get (in_members (snd (commit_layer l i))) k = Some m"
proof -
  have *: "(stored i e = Some ev \<longrightarrow> stored (snd (commit_layer l i)) e = Some ev) \<and>
    (hm_get (in_members i) k = Some m \<longrightarrow> hm_get (in_members (snd (commit_layer l i))) k = Some m)"
  proof (cases "hm_get (in_staged i) l")
    case None
    then show ?thesis by (simp add: commit_layer_def)
  next
    case (Some s)
    show ?thesis
    proof (cases "sl_sealed s")
      case False
      with Some show ?thesis by (simp add: commit_layer_def Let_def stored_def)
    next
      case True
      note ok = mem_invD(5)[OF assms Some]
      show ?thesis
      proof (cases rule: commit_cases[OF assms Some True])
        case (1 events reads)
        have "k \<noteq> l" if "hm_get (in_members i) k = Some m" using ok that by (auto simp: staged_ok_def)
        moreover have "event_at events e = Some ev" if "stored i e = Some ev"
          using by_id_staged[OF ok, of e] that by (simp add: 1(2) stored_def)
        ultimately show ?thesis by (simp add: 1(1))
      qed
    qed
  qed
  from * show "stored i e = Some ev \<Longrightarrow> stored (snd (commit_layer l i)) e = Some ev"
    and "hm_get (in_members i) k = Some m \<Longrightarrow> hm_get (in_members (snd (commit_layer l i))) k = Some m"
    by blast+
qed

text \<open>Every operation but commit keeps the events and the memberships.\<close>

lemma staged_ops_log [store_simps]:
  "same_log i (snd (author_event l cell draft i))"
  "same_log i (snd (adopt_event l ev i))"
  "same_log i (snd (include_event l e i))"
  "same_log i (snd (mem_put_def l d i))"
  "same_log i (snd (mem_seal l i))"
  "same_log i (snd (mem_abort l i))"
  "same_log i (snd (open_layer b l i))"
  "same_log i (put_layer_meta layer i)"
  "same_log i (put_branch br i)"
  "same_log i (snd (intern hash kind bytes i))"
  subgoal by (simp add: same_log_def author_event_def mint_def put_staged_def split: sum.split)
  subgoal by (simp add: same_log_def adopt_event_def put_staged_def Let_def split: sum.split)
  subgoal by (simp add: same_log_def include_event_def put_staged_def split: sum.split)
  subgoal by (simp add: same_log_def mem_put_def_def put_staged_def split: sum.split)
  subgoal by (simp add: same_log_def mem_seal_def put_staged_def split: option.split)
  subgoal by (simp add: same_log_def mem_abort_def)
  subgoal by (simp add: same_log_def open_layer_def put_staged_def)
  subgoal by (simp add: same_log_def put_layer_meta_def)
  subgoal by (simp add: same_log_def put_branch_def)
  subgoal by (simp add: same_log_def intern_def split: sum.split)
  done

lemma same_log_keeps:
  "same_log i j \<Longrightarrow> (stored i e = Some ev \<longrightarrow> stored j e = Some ev) \<and>
    (hm_get (in_members i) k = Some m \<longrightarrow> hm_get (in_members j) k = Some m)"
  by (simp add: same_log_def stored_def)

lemma step_keeps:
  assumes "mem_step hash i j" "mem_inv i"
  shows "stored i e = Some ev \<Longrightarrow> stored j e = Some ev"
    and "hm_get (in_members i) k = Some m \<Longrightarrow> hm_get (in_members j) k = Some m"
proof -
  have "(stored i e = Some ev \<longrightarrow> stored j e = Some ev) \<and>
    (hm_get (in_members i) k = Some m \<longrightarrow> hm_get (in_members j) k = Some m)"
    using assms
  proof (induction rule: mem_step.induct)
    case (Commit i l)
    then show ?case using commit_keeps by blast
  next
    case (Rebuild i)
    then show ?case by (auto simp: rebuild_read_index_def Let_def stored_def split: prod.split)
  qed (rule same_log_keeps, rule staged_ops_log)+
  then show "stored i e = Some ev \<Longrightarrow> stored j e = Some ev"
    and "hm_get (in_members i) k = Some m \<Longrightarrow> hm_get (in_members j) k = Some m" by blast+
qed

interpretation events: append_only "mem_step hash" mem_inv stored for hash
  by unfold_locales (auto intro: mem_inv_step step_keeps)

interpretation memberships: append_only "mem_step hash" mem_inv "\<lambda>i. hm_get (in_members i)" for hash
  by unfold_locales (auto intro: mem_inv_step step_keeps)

section \<open>What readers see\<close>

text \<open>Every answer of the provider about the log, as one tuple of functions.\<close>

definition reader_view where
  "reader_view i =
     (get_cell i, cell_versions i, scan_buffer i, read_membership i, read_layer i, read_def_layer i)"

lemma event_of_same: "same_log i j \<Longrightarrow> event_of j = event_of i"
  by (simp add: fun_eq_iff event_of_def stored_def same_log_def)

lemma get_cell_same:
  assumes "same_log i j" shows "get_cell j path c v = get_cell i path c v"
proof (induction path)
  case (Cons seg path)
  have "in_reads j = in_reads i" using assms by (simp add: same_log_def)
  with Cons show ?case
    unfolding event_of_same[OF assms] by (cases seg) (simp only: get_cell.simps event_of_same[OF assms])
qed simp

lemma scan_same:
  assumes "same_log i j"
  shows "scan_segments j buffer path seen = scan_segments i buffer path seen"
proof (induction path arbitrary: seen)
  case (Cons seg path)
  have "scan_cell j = scan_cell i" by (intro ext) (simp only: scan_cell_def event_of_same[OF assms])
  moreover have "in_reads j = in_reads i" using assms by (simp add: same_log_def)
  ultimately show ?case using Cons by (cases seg) (simp only: scan_segments.simps)
qed simp

lemma cell_versions_same: "same_log i j \<Longrightarrow> cell_versions j path c = cell_versions i path c"
proof -
  assume "same_log i j"
  then have "segment_versions j = segment_versions i"
    by (intro ext) (simp add: segment_versions_def same_log_def)
  then show ?thesis by (simp add: cell_versions_def)
qed

lemma reader_view_same:
  assumes "same_log i j" "in_def_contents j = in_def_contents i"
  shows "reader_view j = reader_view i"
proof -
  have "cell_versions j = cell_versions i"
    using cell_versions_same[OF assms(1)] by (intro ext)
  moreover have "scan_buffer j = scan_buffer i"
    using assms(1) by (simp add: fun_eq_iff scan_buffer_def scan_same)
  moreover have "in_members j = in_members i" using assms(1) by (simp add: same_log_def)
  then have "read_membership j = read_membership i" "read_layer j = read_layer i"
    by (intro ext; simp only: read_membership_def read_layer_def event_of_same[OF assms(1)])+
  moreover have "read_def_layer j = read_def_layer i"
    using assms(2) by (simp add: fun_eq_iff read_def_layer_def)
  moreover have "get_cell j = get_cell i" using get_cell_same[OF assms(1)] by (intro ext)
  ultimately show ?thesis by (simp add: reader_view_def)
qed

section \<open>Open layers\<close>

text \<open>What the holder of an open layer can do to it before it commits.\<close>

datatype open_op =
    OpAuthor cell_ref event_draft
  | OpAdopt event
  | OpInclude event_id
  | OpPutDef def_event
  | OpSeal

fun layer_op :: "layer_id \<Rightarrow> open_op \<Rightarrow> inner \<Rightarrow> inner" where
  "layer_op l (OpAuthor cell draft) i = snd (author_event l cell draft i)"
| "layer_op l (OpAdopt ev) i = snd (adopt_event l ev i)"
| "layer_op l (OpInclude e) i = snd (include_event l e i)"
| "layer_op l (OpPutDef d) i = snd (mem_put_def l d i)"
| "layer_op l OpSeal i = snd (mem_seal l i)"

definition layer_ops :: "layer_id \<Rightarrow> open_op list \<Rightarrow> inner \<Rightarrow> inner" where
  "layer_ops l ops i = fold (layer_op l) ops i"

text \<open>Outside its own entry of \<open>in_staged\<close> and the id counter, an open layer touches nothing.\<close>

definition only_staged :: "layer_id \<Rightarrow> inner \<Rightarrow> inner \<Rightarrow> bool" where
  "only_staged l i j \<longleftrightarrow> same_log i j \<and> in_def_contents j = in_def_contents i \<and>
     in_layer_meta j = in_layer_meta i \<and> in_branches j = in_branches i \<and> in_interned j = in_interned i \<and>
     (\<forall>k. k \<noteq> l \<longrightarrow> hm_get (in_staged j) k = hm_get (in_staged i) k)"

lemma only_staged_refl [simp]: "only_staged l i i"
  by (simp add: only_staged_def same_log_def)

lemma only_staged_trans: "only_staged l i j \<Longrightarrow> only_staged l j k \<Longrightarrow> only_staged l i k"
  by (simp add: only_staged_def same_log_def)

lemma only_staged_put [simp]: "only_staged l i (put_staged l s j) = only_staged l i j"
  by (simp add: only_staged_def same_log_def put_staged_def)

lemma only_staged_next [simp]: "only_staged l i (j\<lparr>in_next_event := n\<rparr>) = only_staged l i j"
  by (simp add: only_staged_def same_log_def)

lemma only_staged_op: "only_staged l i (layer_op l oper i)"
proof (cases oper)
  case OpAuthor
  then show ?thesis by (simp add: author_event_def mint_def split: sum.split)
next
  case OpAdopt
  then show ?thesis by (simp add: adopt_event_def Let_def split: sum.split)
next
  case OpInclude
  then show ?thesis by (simp add: include_event_def split: sum.split)
next
  case OpPutDef
  then show ?thesis by (simp add: mem_put_def_def split: sum.split)
next
  case OpSeal
  then show ?thesis by (simp add: mem_seal_def split: option.split)
qed

lemma only_staged_ops: "only_staged l i (layer_ops l ops i)"
proof (induction ops arbitrary: i)
  case (Cons oper ops)
  have "only_staged l (layer_op l oper i) (layer_ops l ops (layer_op l oper i))" by (rule Cons.IH)
  with only_staged_op have "only_staged l i (layer_ops l ops (layer_op l oper i))" by (rule only_staged_trans)
  then show ?case by (simp add: layer_ops_def)
qed (simp add: layer_ops_def)

lemma only_staged_open: "only_staged l i (snd (open_layer b l i))"
  by (simp add: open_layer_def)

lemma only_staged_abort: "only_staged l i (snd (mem_abort l i))"
  by (simp add: mem_abort_def only_staged_def same_log_def)

section \<open>Interned values\<close>

definition interned_ok :: "(u8 list \<Rightarrow> u8 list) \<Rightarrow> inner \<Rightarrow> bool" where
  "interned_ok hash i \<longleftrightarrow>
     (\<forall>p bytes. hm_get (in_interned i) p = Some bytes \<longrightarrow>
        (\<exists>k. is_content_addressed k \<and> p = Content k (hash bytes)))"

lemma interned_frame:
  "only_staged l i j \<Longrightarrow> interned_ok hash j = interned_ok hash i"
  by (simp add: interned_ok_def only_staged_def)

lemma interned_ok_intern: "interned_ok hash i \<Longrightarrow> interned_ok hash (snd (intern hash k bytes i))"
  by (auto simp: interned_ok_def intern_def content_result_def content_pid_def split: if_splits)

lemma commit_interned [simp]: "in_interned (snd (commit_layer l i)) = in_interned i"
  by (simp add: commit_layer_def Let_def split: option.split sum.split prod.split)

lemma interned_ok_step: "mem_step hash i j \<Longrightarrow> interned_ok hash i \<Longrightarrow> interned_ok hash j"
proof (induction rule: mem_step.induct)
  case (Author i l cell draft)
  then show ?case using only_staged_op[of l i "OpAuthor cell draft"] interned_frame by auto
next
  case (Adopt i ev l)
  then show ?case using only_staged_op[of l i "OpAdopt ev"] interned_frame by auto
next
  case (Include i l e)
  then show ?case using only_staged_op[of l i "OpInclude e"] interned_frame by auto
next
  case (Put_Def i l d)
  then show ?case using only_staged_op[of l i "OpPutDef d"] interned_frame by auto
next
  case (Seal i l)
  then show ?case using only_staged_op[of l i OpSeal] interned_frame by auto
next
  case (Abort i l)
  then show ?case using only_staged_abort interned_frame by blast
next
  case (Open i b l)
  then show ?case using only_staged_open interned_frame by blast
next
  case (Intern i k bytes)
  then show ?case by (rule_tac interned_ok_intern)
qed (simp_all add: interned_ok_def rebuild_read_index_def Let_def put_layer_meta_def put_branch_def
    split: prod.split)

lemma interned_new: "interned_ok hash mem_new"
  by (simp add: interned_ok_def mem_new_def)

lemma interned_step:
  "mem_step hash i j \<Longrightarrow> hm_get (in_interned i) p = Some bytes \<Longrightarrow> hm_get (in_interned j) p = Some bytes"
proof (induction rule: mem_step.induct)
  case (Author i l cell draft)
  then show ?case using only_staged_op[of l i "OpAuthor cell draft"] by (simp add: only_staged_def)
next
  case (Adopt i ev l)
  then show ?case using only_staged_op[of l i "OpAdopt ev"] by (simp add: only_staged_def)
next
  case (Include i l e)
  then show ?case using only_staged_op[of l i "OpInclude e"] by (simp add: only_staged_def)
next
  case (Put_Def i l d)
  then show ?case using only_staged_op[of l i "OpPutDef d"] by (simp add: only_staged_def)
next
  case (Seal i l)
  then show ?case using only_staged_op[of l i OpSeal] by (simp add: only_staged_def)
next
  case (Abort i l)
  then show ?case using only_staged_abort[of l i] by (simp add: only_staged_def)
next
  case (Open i b l)
  then show ?case using only_staged_open[of l i b] by (simp add: only_staged_def)
next
  case (Intern i k bytes)
  then show ?case by (auto simp: intern_def split: sum.split)
qed (simp_all add: rebuild_read_index_def Let_def put_layer_meta_def put_branch_def split: prod.split)

interpretation interned: append_only "mem_step hash" "interned_ok hash" "\<lambda>i. hm_get (in_interned i)" for hash
  by unfold_locales (auto intro: interned_ok_step interned_step)

section \<open>Properties\<close>

text \<open>Property C1. A read of the in-memory provider, in every reachable state, is the read that the
  log defines: it never fails, and it answers with the landing \<open>x\<close> exactly when some segment of the
  path holds the record (a committed layer of its branch at or below its bound has a member that
  wrote it), \<open>x\<close> is the last such member of the greatest such layer of the first such segment. So
  an inner segment's record, a tombstone included, hides the outer ones, the order is that of the
  landing layers, and a layer's later write wins over its earlier one. (Reachable is what any operations
  make of the empty provider, where adopted events have identities in use nowhere, see \<open>mem_step\<close>.)\<close>

theorem get_cell_reads_log:
  assumes "mem_reachable hash i"
  shows "(\<exists>r. get_cell i path c v = Inr r) \<and>
    (get_cell i path c v = Inr (Some x) \<longleftrightarrow>
      (\<exists>pre b bound post. path = pre @ (b, bound) # post \<and> newest_in i b bound c v x \<and>
         (\<forall>(b', bound') \<in> set pre. nothing_in i b' bound' c v)))"
  using get_cell_total get_cell_Some mem_reachable_inv[OF assms] by blast

text \<open>Whatever is written into an open layer, whether authored, adopted, named, a
  definition or its seal, changes no answer a reader gets, and aborting the layer then restores
  the provider: nothing is left of it but the ids it consumed.\<close>

theorem open_layer_invisible:
  "reader_view (layer_ops l ops (snd (open_layer b l i))) = reader_view i \<and>
   (let j = snd (mem_abort l (layer_ops l ops (snd (open_layer b l i)))) in
      reader_view j = reader_view i \<and> in_interned j = in_interned i \<and>
      hm_get (in_staged j) = (hm_get (in_staged i))(l := None))"
proof -
  have o: "only_staged l i (layer_ops l ops (snd (open_layer b l i)))"
    using only_staged_trans[OF only_staged_open only_staged_ops] .
  have a: "only_staged l i (snd (mem_abort l (layer_ops l ops (snd (open_layer b l i)))))"
    using only_staged_trans[OF o only_staged_abort] .
  have "hm_get (in_staged (snd (mem_abort l j))) l = None" for j by (simp add: mem_abort_def)
  with o a show ?thesis
    by (auto simp: only_staged_def Let_def fun_eq_iff intro!: reader_view_same)
qed

lemma commit_facts:
  assumes "mem_reachable hash i" "hm_get (in_staged i) l = Some s" "sl_sealed s"
    and j: "j = snd (commit_layer l i)"
  shows "fst (commit_layer l i) = Inr ()"
    and "read_membership j l = sl_members s"
    and "read_def_layer j l = sl_defs s"
    and "\<And>ev. ev \<in> set (sl_authored s) \<Longrightarrow> event_of j (ev_id ev) = Inr ev"
    and "\<And>k. k \<noteq> l \<Longrightarrow> read_membership j k = read_membership i k \<and> read_def_layer j k = read_def_layer i k"
    and "\<And>e c v bound path. last_hit (in_events j) (sl_members s) c v = Some e \<Longrightarrow> l \<le> bound \<Longrightarrow>
      (\<And>k. log_event i (sl_branch s) c v k \<noteq> None \<Longrightarrow> k \<le> bound \<Longrightarrow> k \<le> l) \<Longrightarrow>
      \<exists>ev. stored j e = Some ev \<and>
        get_cell j ((sl_branch s, bound) # path) c v = Inr (Some \<lparr>ld_event = ev, ld_at = l\<rparr>)"
proof -
  note inv = mem_reachable_inv[OF assms(1)]
  have invj: "mem_inv j" unfolding j by (rule mem_inv_commit[OF inv])
  note ok = mem_invD(5)[OF inv assms(2)]
  obtain events reads where com: "commit_layer l i = (Inr (), committed_state i l s events reads)"
    and at: "\<And>e. event_at events e =
      (case by_id (sl_authored s) e of Some ev \<Rightarrow> Some ev | None \<Rightarrow> event_at (in_events i) e)"
    by (rule commit_cases[OF inv assms(2,3)]) (rule that)
  then have js: "j = committed_state i l s events reads" by (simp add: j)
  show "fst (commit_layer l i) = Inr ()" by (simp add: com)
  show "read_membership j l = sl_members s" "read_def_layer j l = sl_defs s"
    by (simp_all add: js read_membership_def read_def_layer_def)
  show "event_of j (ev_id ev) = Inr ev" if "ev \<in> set (sl_authored s)" for ev
  proof -
    have "by_id (sl_authored s) (ev_id ev) = Some ev"
      using ok that by (auto simp: staged_ok_def by_id_def distinct_map comp_def intro!: map_of_is_SomeI)
    then show ?thesis by (simp add: event_of_def js at)
  qed
  show "read_membership j k = read_membership i k \<and> read_def_layer j k = read_def_layer i k" if "k \<noteq> l" for k
    using that by (simp add: js read_membership_def read_def_layer_def)
  fix e c v bound path
  assume e: "last_hit (in_events j) (sl_members s) c v = Some e" and le: "l \<le> bound"
    and top: "\<And>k. log_event i (sl_branch s) c v k \<noteq> None \<Longrightarrow> k \<le> bound \<Longrightarrow> k \<le> l"
  have l: "log_landing j (sl_branch s) c v l = Some e" using e by (simp add: log_landing_def js)
  then obtain ev where ev: "stored j e = Some ev" using log_landing_stored mem_invD(3)[OF invj] by blast
  have "k \<le> l" if "log_event j (sl_branch s) c v k \<noteq> None" "k \<le> bound" for k
  proof (cases "k = l")
    case False
    have "last_hit events (mb_events m) c v = last_hit (in_events i) (mb_events m) c v"
      if "hm_get (in_members i) k = Some m" for m
      using mem_invD(3)[OF inv] that by_id_staged[OF ok]
      by (intro last_hit_cong) (auto simp: members_ok_def at stored_def split: option.splits)
    then have "log_landing j (sl_branch s) c v k = log_landing i (sl_branch s) c v k"
      using False by (auto simp: log_landing_def js split: option.splits)
    with that(1) have "log_event i (sl_branch s) c v k \<noteq> None"
      by (simp add: log_event_None[OF mem_invD(3)[OF inv]] log_event_None[OF mem_invD(3)[OF invj]])
    with top that(2) show ?thesis by blast
  qed simp
  then have "newest_in j (sl_branch s) bound c v \<lparr>ld_event = ev, ld_at = l\<rparr>"
    using l ev le by (auto simp: newest_in_def log_event_def)
  then have "get_cell j ((sl_branch s, bound) # path) c v = Inr (Some \<lparr>ld_event = ev, ld_at = l\<rparr>)"
    by (subst get_cell_Some[OF invj]) (auto intro!: exI[of _ "[]"])
  with ev show "\<exists>ev. stored j e = Some ev \<and>
      get_cell j ((sl_branch s, bound) # path) c v = Inr (Some \<lparr>ld_event = ev, ld_at = l\<rparr>)" by blast
qed

text \<open>Committing a sealed layer always succeeds in a reachable state. It makes the
  layer's members, in their order, its membership, publishes every event it authored, leaves every
  other layer as it was, and from then on a read of the branch at any bound that reaches the layer
  and no later landing of the record answers with the layer's last write to it.\<close>

theorem commit_publishes:
  assumes "mem_reachable hash i" "hm_get (in_staged i) l = Some s" "sl_sealed s"
    and "j = snd (commit_layer l i)"
  shows "fst (commit_layer l i) = Inr () \<and>
    read_membership j l = sl_members s \<and> read_def_layer j l = sl_defs s \<and>
    (\<forall>ev \<in> set (sl_authored s). event_of j (ev_id ev) = Inr ev) \<and>
    (\<forall>k. k \<noteq> l \<longrightarrow> read_membership j k = read_membership i k \<and> read_def_layer j k = read_def_layer i k) \<and>
    (\<forall>e c v bound path. last_hit (in_events j) (sl_members s) c v = Some e \<longrightarrow> l \<le> bound \<longrightarrow>
      (\<forall>k. log_event i (sl_branch s) c v k \<noteq> None \<longrightarrow> k \<le> bound \<longrightarrow> k \<le> l) \<longrightarrow>
      (\<exists>ev. stored j e = Some ev \<and>
        get_cell j ((sl_branch s, bound) # path) c v = Inr (Some \<lparr>ld_event = ev, ld_at = l\<rparr>)))"
  using commit_facts[OF assms] by blast

text \<open>Property C38. The log is append-only as long as adopted events bring identities of their own: from any
  reachable state on, no sequence of operations changes or removes a stored event, the membership of a
  committed layer, or an interned value. Both for the steps that reach the state and for those that follow,
  an operation is any of the provider's but an adoption of an event whose identity is 0, or is already that
  of a stored event or of one in an open layer. \<open>adopt_event\<close> does not check that; a caller has to, and
  \<open>adopting_a_used_id_replaces\<close> shows what happens where it does not. (Identities that the provider hands out
  itself are always new, \<open>authored_id_fresh\<close>.)\<close>

theorem log_append_only:
  assumes "mem_reachable hash i" "(mem_step hash)\<^sup>*\<^sup>* i j"
  shows "(event_of i e = Inr ev \<longrightarrow> event_of j e = Inr ev) \<and>
    (hm_get (in_members i) l = Some m \<longrightarrow> read_membership j l = read_membership i l) \<and>
    (read_interned i p = Inr (Some bytes) \<longrightarrow> read_interned j p = Inr (Some bytes))"
proof (intro conjI impI)
  note inv = mem_reachable_inv[OF assms(1)]
  have iok: "interned_ok hash i"
    using interned.invariant_steps[of hash] assms(1) interned_new by (auto simp: mem_reachable_def)
  show "event_of i e = Inr ev \<Longrightarrow> event_of j e = Inr ev"
    using events.stable[OF assms(2) inv] by (auto simp: event_of_def split: option.splits)
  show "hm_get (in_members i) l = Some m \<Longrightarrow> read_membership j l = read_membership i l"
    using memberships.stable[OF assms(2) inv] by (simp add: read_membership_def)
  show "read_interned i p = Inr (Some bytes) \<Longrightarrow> read_interned j p = Inr (Some bytes)"
    using interned.stable[OF assms(2) iok] by (auto simp: read_interned_def split: sum.splits)
qed

text \<open>An authored event gets an identity that no event of the store and no event of
  any open layer has; it enters only the layer it was written to, and it says so.\<close>

theorem authored_id_fresh:
  assumes "mem_reachable hash i" "author_event l cell draft i = (Inr e, j)"
  shows "fresh_id i e \<and>
    (\<exists>s. hm_get (in_staged i) l = Some s \<and> \<not> sl_sealed s \<and>
      hm_get (in_staged j) l = Some (s\<lparr>sl_members := sl_members s @ [e],
        sl_authored := sl_authored s @ [\<lparr>ev_id = e, ev_cell = cell, ev_value = ed_value draft,
          ev_version = ed_version draft, ev_origin = ed_origin draft,
          ev_derivation = ed_derivation draft, ev_authored = l\<rparr>]\<rparr>))"
proof
  note inv = mem_reachable_inv[OF assms(1)]
  have ne: "in_next_event i \<noteq> - 1" using assms(2) by (auto simp: author_event_def mint_def)
  then have e: "e = in_next_event i + 1"
    using assms(2) by (auto simp: author_event_def mint_def split: sum.splits)
  have lt: "in_next_event i < e" unfolding e using ne by (rule less_next)
  then have "e \<noteq> 0" by (metis not_less word_zero_le)
  moreover have "stored i e = None" using mem_invD(1)[OF inv] lt by (auto simp: ids_ok_def not_less[symmetric])
  moreover have "e \<notin> staged_ids s" if "hm_get (in_staged i) k = Some s" for k s
    using mem_invD(5)[OF inv that] lt by (auto simp: staged_ok_def staged_ids_def not_less[symmetric])
  ultimately show "fresh_id i e" by (simp add: fresh_id_def)
  show "\<exists>s. hm_get (in_staged i) l = Some s \<and> \<not> sl_sealed s \<and>
      hm_get (in_staged j) l = Some (s\<lparr>sl_members := sl_members s @ [e],
        sl_authored := sl_authored s @ [\<lparr>ev_id = e, ev_cell = cell, ev_value = ed_value draft,
          ev_version = ed_version draft, ev_origin = ed_origin draft,
          ev_derivation = ed_derivation draft, ev_authored = l\<rparr>]\<rparr>)"
    using assms(2) ne
    by (auto simp: author_event_def mint_def put_staged_def draft_event_def staged_def
        split: sum.splits option.splits if_splits)
qed

text \<open>Rebuilding the read index from layer membership succeeds in every reachable
  state and answers every read as the index kept live did.\<close>

theorem rebuild_preserves_reads:
  assumes "mem_reachable hash i"
  shows "fst (rebuild_read_index i) = Inr () \<and>
    get_cell (snd (rebuild_read_index i)) path c v = get_cell i path c v"
proof -
  note inv = mem_reachable_inv[OF assms]
  obtain reads where r: "rebuild_read_index i = (Inr (), i\<lparr>in_reads := reads\<rparr>)" "keys_ok reads"
    "\<And>b c v. landing reads b c v = landing (in_reads i) b c v" by (rule rebuild_ok[OF inv]) (rule that)
  let ?j = "i\<lparr>in_reads := reads\<rparr>"
  have ev: "event_of ?j = event_of i" by (simp add: fun_eq_iff event_of_def stored_def)
  have inr: "in_reads ?j = reads" by simp
  have new: "newest_at (hist reads b c v) bound = newest_at (hist (in_reads i) b c v) bound" for b bound
    using r(2,3) mem_invD(4)[OF inv]
    by (intro newest_at_cong) (simp_all add: keys_ok_def reads_ok_def landing_def)
  have "get_cell ?j path c v = get_cell i path c v"
  proof (induction path)
    case (Cons seg path)
    then show ?case by (cases seg) (simp only: get_cell.simps history_at_hist ev inr new)
  qed simp
  then show ?thesis by (simp add: r(1))
qed

text \<open>Interning answers the PID that is the content's own address, whatever was
  interned before, stores at most one copy under it and is idempotent; reading the PID back gives
  bytes of the same hash, hence the same bytes when the hash does not collide on them.\<close>

theorem intern_read_back:
  assumes "mem_reachable hash i" "is_content_addressed k"
    and j: "j = snd (intern hash k bytes i)"
  shows "fst (intern hash k bytes i) = Inr (Content k (hash bytes)) \<and>
    (\<exists>bytes'. read_interned j (Content k (hash bytes)) = Inr (Some bytes') \<and> hash bytes' = hash bytes) \<and>
    ((\<forall>x. hash x = hash bytes \<longrightarrow> x = bytes) \<longrightarrow>
      read_interned j (Content k (hash bytes)) = Inr (Some bytes)) \<and>
    intern hash k bytes j = (Inr (Content k (hash bytes)), j)"
proof (intro conjI impI)
  let ?p = "Content k (hash bytes)"
  have p: "content_result (content_pid hash k bytes) = Inr ?p"
    using assms(2) by (simp add: content_pid_def content_result_def)
  have iok: "interned_ok hash i"
    using interned.invariant_steps[of hash] assms(1) interned_new by (auto simp: mem_reachable_def)
  obtain bytes' where b: "hm_get (in_interned j) ?p = Some bytes'"
    by (cases "hm_get (in_interned i) ?p") (auto simp: j intern_def p)
  have h: "hash bytes' = hash bytes"
    using interned_ok_intern[OF iok, of k bytes] b unfolding interned_ok_def j by (metis pid.inject(2))
  show "fst (intern hash k bytes i) = Inr ?p" by (simp add: intern_def p)
  have r: "read_interned j ?p = Inr (Some bytes')" by (simp add: read_interned_def content_result_def b)
  with h show "\<exists>bytes'. read_interned j ?p = Inr (Some bytes') \<and> hash bytes' = hash bytes" by blast
  show "read_interned j ?p = Inr (Some bytes)" if "\<forall>x. hash x = hash bytes \<longrightarrow> x = bytes"
    using r h that by blast
  show "intern hash k bytes j = (Inr ?p, j)" using b by (simp add: intern_def p)
qed

section \<open>Witnesses\<close>

text \<open>A client layer 5 on branch 1 that writes one cell: opened, written, sealed and committed.\<close>

definition w_cell :: cell_ref where
  "w_cell = cell_prop ''Company'' ''name'' (Allocated PObject 0 0 1)"

definition w_draft :: event_draft where
  "w_draft = \<lparr>ed_value = VBool True, ed_version = DefVersion 1, ed_origin = OSource, ed_derivation = None\<rparr>"

definition w_event :: event where
  "w_event = draft_event 1 w_cell w_draft 5"

definition w_staged :: staged_layer where
  "w_staged = \<lparr>sl_branch = 1, sl_members = [1], sl_authored = [w_event], sl_defs = [], sl_sealed = True\<rparr>"

definition w_open :: inner where "w_open = snd (open_layer 1 5 mem_new)"
definition w_sealed :: inner where
  "w_sealed = snd (mem_seal 5 (snd (author_event 5 w_cell w_draft w_open)))"
definition w_committed :: inner where "w_committed = snd (commit_layer 5 w_sealed)"

lemmas w_defs = w_open_def w_sealed_def mem_new_def open_layer_def put_staged_def author_event_def
  mint_def staged_def mem_seal_def w_event_def

lemma w_open_staged: "hm_get (in_staged w_open) 5 =
    Some \<lparr>sl_branch = 1, sl_members = [], sl_authored = [], sl_defs = [], sl_sealed = False\<rparr>"
  by (simp add: w_defs)

lemma w_author: "author_event 5 w_cell w_draft w_open =
    (Inr 1, snd (author_event 5 w_cell w_draft w_open))"
  by (simp add: w_defs)

lemma w_sealed_state:
  "w_sealed = mem_new\<lparr>in_staged := [(5, w_staged)], in_next_event := 1\<rparr>"
  by (simp add: w_defs w_staged_def)

lemma w_committed_state:
  "w_committed = mem_new\<lparr>in_events := [Some w_event],
     in_members := [(5, \<lparr>mb_branch = 1, mb_events = [1]\<rparr>)],
     in_reads := [(1, [(w_cell, [(DefVersion 1, [(5, 1)])])])],
     in_def_contents := [(5, [])], in_next_event := 1\<rparr>"
  by (simp add: w_committed_def w_sealed_state w_staged_def mem_new_def commit_layer_def Let_def
      store_def slot_of_def event_at_def index_event_def hm_modify_def w_event_def draft_event_def
      w_draft_def)

lemma w_reachable:
  "mem_reachable hash mem_new" "mem_reachable hash w_open" "mem_reachable hash w_sealed"
  "mem_reachable hash w_committed"
proof -
  have 0: "(mem_step hash)\<^sup>*\<^sup>* mem_new mem_new" by simp
  have 1: "(mem_step hash)\<^sup>*\<^sup>* mem_new w_open"
    unfolding w_open_def by (rule rtranclp.rtrancl_into_rtrancl[OF 0 mem_step.Open])
  have "(mem_step hash)\<^sup>*\<^sup>* mem_new (snd (author_event 5 w_cell w_draft w_open))"
    by (rule rtranclp.rtrancl_into_rtrancl[OF 1 mem_step.Author])
  then have 2: "(mem_step hash)\<^sup>*\<^sup>* mem_new w_sealed"
    unfolding w_sealed_def by (rule rtranclp.rtrancl_into_rtrancl) (rule mem_step.Seal)
  have 3: "(mem_step hash)\<^sup>*\<^sup>* mem_new w_committed"
    unfolding w_committed_def by (rule rtranclp.rtrancl_into_rtrancl[OF 2 mem_step.Commit])
  show "mem_reachable hash mem_new" "mem_reachable hash w_open" "mem_reachable hash w_sealed"
    "mem_reachable hash w_committed" using 0 1 2 3 by (simp_all add: mem_reachable_def)
qed

lemma get_cell_reads_log_witness:
  "\<exists>pre b bound post. [(2, 9), (1, 7)] = pre @ (b, bound) # post \<and>
     newest_in w_committed b bound w_cell (DefVersion 1) \<lparr>ld_event = w_event, ld_at = 5\<rparr> \<and>
     (\<forall>(b', bound') \<in> set pre. nothing_in w_committed b' bound' w_cell (DefVersion 1))"
proof -
  have "get_cell w_committed [(2, 9), (1, 7)] w_cell (DefVersion 1) =
      Inr (Some \<lparr>ld_event = w_event, ld_at = 5\<rparr>)"
    by (simp add: w_committed_state mem_new_def history_at_def newest_at_def event_of_def stored_def
        event_at_def slot_of_def)
  then show ?thesis
    using get_cell_reads_log[OF w_reachable(4)[of "\<lambda>x. x"]] by blast
qed

lemma commit_publishes_witness:
  "fst (commit_layer 5 w_sealed) = Inr () \<and> read_membership w_committed 5 = [1] \<and>
   get_cell w_committed [(1, 7)] w_cell (DefVersion 1) = Inr (Some \<lparr>ld_event = w_event, ld_at = 5\<rparr>)"
proof -
  have s: "hm_get (in_staged w_sealed) 5 = Some w_staged" "sl_sealed w_staged"
    by (simp_all add: w_sealed_state w_staged_def)
  have hit: "last_hit (in_events w_committed) (sl_members w_staged) w_cell (DefVersion 1) = Some 1"
    by (simp add: w_committed_state w_staged_def last_hit_def hits_def event_at_def slot_of_def w_event_def
        draft_event_def w_draft_def)
  have top: "\<forall>k. log_event w_sealed (sl_branch w_staged) w_cell (DefVersion 1) k \<noteq> None \<longrightarrow> k \<le> 7 \<longrightarrow> k \<le> 5"
    by (simp add: w_sealed_state mem_new_def log_event_def log_landing_def)
  have st: "stored w_committed 1 = Some w_event"
    by (simp add: w_committed_state stored_def event_at_def slot_of_def)
  from commit_publishes[OF w_reachable(3)[of "\<lambda>x. x"] s w_committed_def] hit top st
  show ?thesis by (fastforce simp: w_staged_def)
qed

lemma log_append_only_witness:
  "event_of (snd (open_layer 2 6 w_committed)) 1 = Inr w_event \<and>
   read_membership (snd (open_layer 2 6 w_committed)) 5 = [1]"
proof -
  have "event_of w_committed 1 = Inr w_event" "read_membership w_committed 5 = [1]"
    "hm_get (in_members w_committed) 5 = Some \<lparr>mb_branch = 1, mb_events = [1]\<rparr>"
    by (simp_all add: w_committed_state event_of_def stored_def event_at_def slot_of_def read_membership_def)
  moreover have "(mem_step (\<lambda>x. x))\<^sup>*\<^sup>* w_committed (snd (open_layer 2 6 w_committed))"
    by (rule r_into_rtranclp, rule mem_step.Open)
  ultimately show ?thesis
    using log_append_only[OF w_reachable(4)[of "\<lambda>x. x"]] by metis
qed

text \<open>Why adopted identities have to be new: a layer that adopts an event under the identity of a stored one
  is accepted, and its commit replaces the stored event.\<close>

lemma adopting_a_used_id_replaces:
  assumes "ev = w_event\<lparr>ev_value := VBool False, ev_authored := 6\<rparr>" and "i = snd (open_layer 2 6 w_committed)"
  shows "event_of w_committed 1 = Inr w_event" "fst (adopt_event 6 ev i) = Inr ()"
    "fst (commit_layer 6 (snd (mem_seal 6 (snd (adopt_event 6 ev i))))) = Inr ()"
    "event_of (snd (commit_layer 6 (snd (mem_seal 6 (snd (adopt_event 6 ev i)))))) 1 = Inr ev"
  by (simp_all add: assms w_committed_state event_of_def stored_def event_at_def slot_of_def open_layer_def mem_new_def
      adopt_event_def put_staged_def staged_def mem_seal_def commit_layer_def Let_def store_def w_event_def
      draft_event_def w_draft_def w_cell_def index_event_def hm_modify_def)

lemma authored_id_fresh_witness: "fresh_id w_open 1"
  using authored_id_fresh[OF w_reachable(2)[of "\<lambda>x. x"] w_author] by blast

lemma rebuild_preserves_reads_witness:
  "get_cell (snd (rebuild_read_index w_committed)) [(1, 7)] w_cell (DefVersion 1) =
   get_cell w_committed [(1, 7)] w_cell (DefVersion 1)"
  using rebuild_preserves_reads[OF w_reachable(4)[of "\<lambda>x. x"]] by blast

lemma intern_read_back_witness:
  "read_interned (snd (intern (\<lambda>x. x) PString [104, 105] w_committed)) (Content PString [104, 105]) =
   Inr (Some [104, 105])"
proof -
  have k: "is_content_addressed PString" by (simp add: is_content_addressed_def)
  show ?thesis
    using intern_read_back[OF w_reachable(4)[of "\<lambda>x. x"] k refl, of "[104, 105]"] by blast
qed

end
