(* ===== verification/Touch_Index.thy ===== *)
theory Touch_Index
  imports Cells
begin

text \<open>
  \<^verbatim>\<open>borg-engine/src/touch.rs\<close>: the cell-touch index, per branch and cell the source layers that
  wrote it, and per branch the highest of them. \<^verbatim>\<open>Position\<close> (\<^verbatim>\<open>projection.rs\<close>) is a field of
  the record; the \<^verbatim>\<open>Projection\<close> methods of the index are at the end.
\<close>

section \<open>The index\<close>

record touch_index =
  ti_cells :: "(branch_id, (cell_ref, layer_id list) hmap) hmap"
  ti_highest :: "(branch_id, layer_id) hmap"
  ti_position :: layer_id

definition touch_new :: touch_index where
  "touch_new = \<lparr>ti_cells = [], ti_highest = [], ti_position = 0\<rparr>"

text \<open>\<^verbatim>\<open>Position::reached\<close>\<close>

definition reached :: "layer_id \<Rightarrow> layer_id \<Rightarrow> layer_id" where
  "reached layer position = max position layer"

definition push_history :: "layer_id \<Rightarrow> layer_id list \<Rightarrow> layer_id list" where
  "push_history layer history =
     (if history \<noteq> [] \<and> last history = layer then history else history @ [layer])"

definition touch_record :: "branch_id \<Rightarrow> layer_id \<Rightarrow> cell_ref list \<Rightarrow> touch_index \<Rightarrow> touch_index" where
  "touch_record b layer cells ti =
     ti\<lparr>ti_position := reached layer (ti_position ti),
        ti_highest := hm_modify b layer (\<lambda>highest. if layer > highest then layer else highest) (ti_highest ti),
        ti_cells := hm_modify b [] (\<lambda>m. fold (\<lambda>cell. hm_modify cell [] (push_history layer)) cells m)
                      (ti_cells ti)\<rparr>"

definition moved_since :: "touch_index \<Rightarrow> read_path \<Rightarrow> layer_id \<Rightarrow> bool" where
  "moved_since ti path since =
     list_ex (\<lambda>(b, bound). case hm_get (ti_highest ti) b of
                None \<Rightarrow> False
              | Some layer \<Rightarrow> layer > since \<and> layer \<le> bound) path"

definition history_of :: "touch_index \<Rightarrow> branch_id \<Rightarrow> cell_ref \<Rightarrow> layer_id list option" where
  "history_of ti b cell =
     (case hm_get (ti_cells ti) b of None \<Rightarrow> None | Some cells \<Rightarrow> hm_get cells cell)"

fun earlier :: "layer_id \<Rightarrow> layer_id \<Rightarrow> layer_id \<Rightarrow> layer_id option \<Rightarrow> layer_id option" where
  "earlier since bound layer earliest =
     (if layer > since \<and> layer \<le> bound \<and> (case earliest of None \<Rightarrow> True | Some found \<Rightarrow> layer < found)
      then Some layer else earliest)"

fun lookup_loop :: "touch_index \<Rightarrow> cell_ref \<Rightarrow> layer_id \<Rightarrow> read_path \<Rightarrow> layer_id option \<Rightarrow> layer_id option" where
  "lookup_loop ti cell since [] earliest = earliest"
| "lookup_loop ti cell since ((b, bound) # path) earliest =
     (case history_of ti b cell of
        None \<Rightarrow> lookup_loop ti cell since path earliest
      | Some history \<Rightarrow> lookup_loop ti cell since path (fold (earlier since bound) history earliest))"

definition touch_lookup :: "touch_index \<Rightarrow> read_path \<Rightarrow> cell_ref \<Rightarrow> layer_id \<Rightarrow> layer_id option" where
  "touch_lookup ti path cell since = lookup_loop ti cell since path None"

fun first_touched_since ::
  "touch_index \<Rightarrow> read_path \<Rightarrow> cell_ref list \<Rightarrow> layer_id \<Rightarrow> (cell_ref \<times> layer_id) option" where
  "first_touched_since ti path [] since = None"
| "first_touched_since ti path (cell # cells) since =
     (case touch_lookup ti path cell since of
        Some layer \<Rightarrow> Some (cell, layer)
      | None \<Rightarrow> first_touched_since ti path cells since)"

section \<open>The index as a projection\<close>

definition touch_wants :: "layer \<Rightarrow> bool" where
  "touch_wants layer = (case ly_author layer of ASource \<Rightarrow> True | ADerived _ _ \<Rightarrow> False)"

definition touch_apply :: "layer \<Rightarrow> event list \<Rightarrow> touch_index \<Rightarrow> touch_index" where
  "touch_apply layer events ti =
     (let ti = (case ly_author layer of
                  ASource \<Rightarrow> touch_record (ly_branch layer) (ly_id layer) (map ev_cell events) ti
                | ADerived _ _ \<Rightarrow> ti)
      in ti\<lparr>ti_position := reached (ly_id layer) (ti_position ti)\<rparr>)"

section \<open>What the index holds\<close>

text \<open>The abstraction: which layers touched a cell of a branch.\<close>

definition touched :: "touch_index \<Rightarrow> branch_id \<Rightarrow> cell_ref \<Rightarrow> layer_id set" where
  "touched ti b cell = (case history_of ti b cell of None \<Rightarrow> {} | Some history \<Rightarrow> set history)"

lemma touched_new [simp]: "touched touch_new b c = {}"
  by (simp add: touched_def history_of_def touch_new_def)

lemma set_push_history [simp]: "set (push_history l h) = insert l (set h)"
  by (auto simp: push_history_def)

lemma push_histories:
  "set (hm_get_or [] (fold (\<lambda>cell. hm_modify cell [] (push_history l)) cells m) c) =
     set (hm_get_or [] m c) \<union> (if c \<in> set cells then {l} else {})"
  by (induction cells arbitrary: m) auto

lemma touched_alt: "touched ti b c = set (hm_get_or [] (hm_get_or [] (ti_cells ti) b) c)"
  by (simp add: touched_def history_of_def hm_get_or_def split: option.splits)

lemma touched_record:
  "touched (touch_record b l cells ti) b' c =
     touched ti b' c \<union> (if b' = b \<and> c \<in> set cells then {l} else {})"
  by (simp add: touched_alt touch_record_def push_histories)

lemma touched_apply:
  "touched (touch_apply layer events ti) b c =
     touched ti b c \<union>
     (if touch_wants layer \<and> b = ly_branch layer \<and> c \<in> ev_cell ` set events then {ly_id layer} else {})"
proof (cases "ly_author layer")
  case ASource
  have frame: "touched (t\<lparr>ti_position := p\<rparr>) b c = touched t b c" for t p
    by (simp add: touched_alt)
  show ?thesis
    unfolding touch_apply_def Let_def ASource
    by (simp add: frame touched_record touch_wants_def ASource)
next
  case (ADerived p r)
  then show ?thesis by (simp add: touch_apply_def touch_wants_def touched_alt Let_def)
qed

section \<open>The lookup finds the earliest touch\<close>

definition window :: "touch_index \<Rightarrow> read_path \<Rightarrow> cell_ref \<Rightarrow> layer_id \<Rightarrow> layer_id set" where
  "window ti path cell since =
     {l. \<exists>(b, bound) \<in> set path. l \<in> touched ti b cell \<and> since < l \<and> l \<le> bound}"

text \<open>\<open>earliest_of e S\<close>: \<open>e\<close> is the least element of \<open>S\<close>, or \<open>None\<close> when there is none.\<close>

definition earliest_of :: "layer_id option \<Rightarrow> layer_id set \<Rightarrow> bool" where
  "earliest_of e S \<longleftrightarrow> (case e of None \<Rightarrow> S = {} | Some l \<Rightarrow> l \<in> S \<and> (\<forall>k \<in> S. l \<le> k))"

lemma earliest_of_unique: "earliest_of e S \<Longrightarrow> earliest_of f S \<Longrightarrow> e = f"
  by (auto simp: earliest_of_def split: option.splits intro: order.antisym)

lemma earlier_earliest:
  "earliest_of e S \<Longrightarrow>
   earliest_of (earlier since bound l e) (S \<union> (if since < l \<and> l \<le> bound then {l} else {}))"
  by (auto simp: earliest_of_def split: option.splits)

declare earlier.simps [simp del]

lemma fold_earlier_earliest:
  "earliest_of e S \<Longrightarrow>
   earliest_of (fold (earlier since bound) h e) (S \<union> {l \<in> set h. since < l \<and> l \<le> bound})"
proof (induction h arbitrary: e S)
  case (Cons l h)
  have "earliest_of (fold (earlier since bound) h (earlier since bound l e))
      ((S \<union> (if since < l \<and> l \<le> bound then {l} else {})) \<union> {l \<in> set h. since < l \<and> l \<le> bound})"
    by (rule Cons.IH) (rule earlier_earliest[OF Cons.prems])
  also have "(S \<union> (if since < l \<and> l \<le> bound then {l} else {})) \<union> {l \<in> set h. since < l \<and> l \<le> bound} =
      S \<union> {k \<in> set (l # h). since < k \<and> k \<le> bound}" by auto
  finally show ?case by simp
qed simp

lemma lookup_loop_earliest:
  "earliest_of e S \<Longrightarrow> earliest_of (lookup_loop ti cell since path e) (S \<union> window ti path cell since)"
proof (induction ti cell since path e arbitrary: S rule: lookup_loop.induct)
  case (1 ti cell since earliest)
  then show ?case by (simp add: window_def)
next
  case (2 ti cell since b bound path earliest)
  have win: "window ti ((b, bound) # path) cell since =
      {l \<in> touched ti b cell. since < l \<and> l \<le> bound} \<union> window ti path cell since"
    by (auto simp: window_def)
  show ?case
  proof (cases "history_of ti b cell")
    case None
    then have "touched ti b cell = {}" by (simp add: touched_def)
    with 2 None show ?thesis by (simp add: win)
  next
    case (Some h)
    then have "touched ti b cell = set h" by (simp add: touched_def)
    with "2.IH"(2)[OF Some fold_earlier_earliest[OF "2.prems"]] Some
    show ?thesis by (simp add: win Un_assoc)
  qed
qed

lemma touch_lookup_earliest: "earliest_of (touch_lookup ti path cell since) (window ti path cell since)"
  using lookup_loop_earliest[of None "{}" ti cell since path]
  by (simp add: touch_lookup_def earliest_of_def)

lemma touch_lookup_eqI:
  "window ti path c s = window tj qath d t \<Longrightarrow> touch_lookup ti path c s = touch_lookup tj qath d t"
  by (metis earliest_of_unique touch_lookup_earliest)

lemma touch_lookup_None_iff: "touch_lookup ti path c s = None \<longleftrightarrow> window ti path c s = {}"
  using touch_lookup_earliest[of ti path c s]
  by (auto simp: earliest_of_def split: option.splits)

lemma first_touched_Some:
  "first_touched_since ti path cells since = Some (c, l) \<longleftrightarrow>
   (\<exists>pre post. cells = pre @ c # post \<and> touch_lookup ti path c since = Some l \<and>
      (\<forall>d \<in> set pre. touch_lookup ti path d since = None))"
proof (induction cells)
  case (Cons d cells)
  show ?case
  proof (cases "touch_lookup ti path d since")
    case None
    show ?thesis
    proof
      assume "first_touched_since ti path (d # cells) since = Some (c, l)"
      then have "first_touched_since ti path cells since = Some (c, l)" using None by simp
      then obtain pre post where "cells = pre @ c # post" "touch_lookup ti path c since = Some l"
        "\<forall>d \<in> set pre. touch_lookup ti path d since = None" using Cons.IH by blast
      then show "\<exists>pre post. d # cells = pre @ c # post \<and> touch_lookup ti path c since = Some l \<and>
          (\<forall>d \<in> set pre. touch_lookup ti path d since = None)"
        using None by (intro exI[of _ "d # pre"] exI[of _ post]) simp
    next
      assume "\<exists>pre post. d # cells = pre @ c # post \<and> touch_lookup ti path c since = Some l \<and>
          (\<forall>d \<in> set pre. touch_lookup ti path d since = None)"
      then obtain pre post where p: "d # cells = pre @ c # post" "touch_lookup ti path c since = Some l"
        "\<forall>d \<in> set pre. touch_lookup ti path d since = None" by blast
      then obtain pre' where "pre = d # pre'" using None by (cases pre) auto
      then have "first_touched_since ti path cells since = Some (c, l)"
        using p by (subst Cons.IH) auto
      then show "first_touched_since ti path (d # cells) since = Some (c, l)" using None by simp
    qed
  next
    case (Some k)
    then show ?thesis by (auto simp: Cons_eq_append_conv)
  qed
qed simp

lemma first_touched_None:
  "first_touched_since ti path cells since = None \<longleftrightarrow>
   (\<forall>c \<in> set cells. touch_lookup ti path c since = None)"
  by (induction cells) (auto split: option.splits)

section \<open>The index's invariant\<close>

text \<open>\<open>ti_highest\<close> is the greatest layer recorded on its branch, and no branch with a recorded cell
  lacks one.\<close>

definition touch_inv :: "touch_index \<Rightarrow> bool" where
  "touch_inv ti \<longleftrightarrow>
     (\<forall>b c. \<forall>l \<in> touched ti b c. \<exists>h. hm_get (ti_highest ti) b = Some h \<and> l \<le> h)"

lemma touch_inv_new [simp]: "touch_inv touch_new"
  by (simp add: touch_inv_def)

lemma touch_inv_record: "touch_inv ti \<Longrightarrow> touch_inv (touch_record b l cells ti)"
proof -
  assume I: "touch_inv ti"
  have hi: "hm_get (ti_highest (touch_record b l cells ti)) b' =
      (if b' = b then Some (max (hm_get_or l (ti_highest ti) b) l) else hm_get (ti_highest ti) b')" for b'
    by (auto simp: touch_record_def hm_get_modify max_def)
  have old: "\<exists>h. hm_get (ti_highest (touch_record b l cells ti)) b' = Some h \<and> k \<le> h"
    if "k \<in> touched ti b' c" for b' c k
  proof -
    from I that obtain h where "hm_get (ti_highest ti) b' = Some h" "k \<le> h"
      unfolding touch_inv_def by blast
    then show ?thesis by (auto simp: hi le_max_iff_disj)
  qed
  show ?thesis
    unfolding touch_inv_def
  proof (intro allI ballI)
    fix b' c k assume "k \<in> touched (touch_record b l cells ti) b' c"
    then consider "k \<in> touched ti b' c" | "b' = b" "k = l" by (auto simp: touched_record split: if_splits)
    then show "\<exists>h. hm_get (ti_highest (touch_record b l cells ti)) b' = Some h \<and> k \<le> h"
      by cases (use old hi in auto)
  qed
qed

lemma touch_inv_position [simp]: "touch_inv (ti\<lparr>ti_position := p\<rparr>) = touch_inv ti"
  by (simp add: touch_inv_def touched_alt)

lemma touch_inv_apply: "touch_inv ti \<Longrightarrow> touch_inv (touch_apply layer events ti)"
  by (auto simp: touch_apply_def Let_def touch_inv_record split: layer_author.splits)

text \<open>When no branch of the path has moved past its bound, an unmoved path has no touched cell.\<close>

lemma moved_since_sound:
  assumes "touch_inv ti" "\<not> moved_since ti path since"
    and "\<And>b bound h. (b, bound) \<in> set path \<Longrightarrow> hm_get (ti_highest ti) b = Some h \<Longrightarrow> h \<le> bound"
  shows "window ti path c since = {}"
proof (rule ccontr)
  assume "window ti path c since \<noteq> {}"
  then obtain l b bound where l: "(b, bound) \<in> set path" "l \<in> touched ti b c" "since < l"
    by (auto simp: window_def)
  with assms(1) obtain h where h: "hm_get (ti_highest ti) b = Some h" "l \<le> h"
    unfolding touch_inv_def by blast
  with l assms(3) have "h \<le> bound" "since < h" by auto
  with l(1) h(1) have "moved_since ti path since"
    by (force simp: moved_since_def list_ex_iff)
  with assms(2) show False by simp
qed

section \<open>Properties\<close>

text \<open>The committed layers a process has folded, in the order in which they arrived.\<close>

definition touch_fold :: "(layer \<times> event list) list \<Rightarrow> touch_index" where
  "touch_fold log = fold (\<lambda>(layer, events). touch_apply layer events) log touch_new"

lemma touched_fold_from:
  "touched (fold (\<lambda>(layer, events). touch_apply layer events) log ti) b c =
   touched ti b c \<union>
   {ly_id layer | layer events. (layer, events) \<in> set log \<and> ly_author layer = ASource \<and>
      ly_branch layer = b \<and> c \<in> ev_cell ` set events}"
proof (induction log arbitrary: ti)
  case (Cons e log)
  obtain layer events where e: "e = (layer, events)" by (cases e)
  show ?case
    by (auto simp: e Cons.IH touched_apply touch_wants_def split: layer_author.splits if_splits)
qed simp

lemma touched_fold:
  "touched (touch_fold log) b c =
   {ly_id layer | layer events. (layer, events) \<in> set log \<and> ly_author layer = ASource \<and>
      ly_branch layer = b \<and> c \<in> ev_cell ` set events}"
  by (simp add: touch_fold_def touched_fold_from)

lemma touch_inv_fold: "touch_inv (touch_fold log)"
proof -
  have "touch_inv ti \<Longrightarrow> touch_inv (fold (\<lambda>(layer, events). touch_apply layer events) log ti)" for ti
    by (induction log arbitrary: ti) (auto simp: touch_inv_apply)
  then show ?thesis by (simp add: touch_fold_def)
qed

text \<open>\<open>touches_at log path since c l\<close>: the source layer \<open>l\<close> of the log wrote the cell on a branch of
  the path, after \<open>since\<close> and at or below the branch's bound.\<close>

definition touches_at ::
  "(layer \<times> event list) list \<Rightarrow> read_path \<Rightarrow> layer_id \<Rightarrow> cell_ref \<Rightarrow> layer_id \<Rightarrow> bool" where
  "touches_at log path since c l \<longleftrightarrow>
     (\<exists>(layer, events) \<in> set log. \<exists>(b, bound) \<in> set path.
        ly_author layer = ASource \<and> ly_branch layer = b \<and> c \<in> ev_cell ` set events \<and>
        ly_id layer = l \<and> since < l \<and> l \<le> bound)"

lemma window_fold: "window (touch_fold log) path c since = {l. touches_at log path since c l}"
  by (fastforce simp: window_def touched_fold touches_at_def)

lemma lookup_fold_Some:
  "touch_lookup (touch_fold log) path c since = Some l \<longleftrightarrow>
   touches_at log path since c l \<and> (\<forall>k. touches_at log path since c k \<longrightarrow> l \<le> k)"
proof -
  have e: "earliest_of (touch_lookup (touch_fold log) path c since) {l. touches_at log path since c l}"
    using touch_lookup_earliest[of "touch_fold log" path c since] by (simp add: window_fold)
  then show ?thesis
    by (auto simp: earliest_of_def split: option.splits intro: order.antisym)
qed

lemma lookup_fold_None:
  "touch_lookup (touch_fold log) path c since = None \<longleftrightarrow> (\<forall>l. \<not> touches_at log path since c l)"
  by (auto simp: touch_lookup_None_iff window_fold)

text \<open>A batched guard probe over the index folded from any log finds a violation
  exactly when some cell of the set was written by a source layer on the path after \<open>since\<close>, and
  then reports the first such cell of the set with the earliest layer that wrote it.\<close>

theorem first_touched_spec:
  "(first_touched_since (touch_fold log) path cells since = None \<longleftrightarrow>
      (\<forall>c \<in> set cells. \<forall>l. \<not> touches_at log path since c l)) \<and>
   (first_touched_since (touch_fold log) path cells since = Some (c, l) \<longleftrightarrow>
      (\<exists>pre post. cells = pre @ c # post \<and>
         touches_at log path since c l \<and> (\<forall>k. touches_at log path since c k \<longrightarrow> l \<le> k) \<and>
         (\<forall>d \<in> set pre. \<forall>k. \<not> touches_at log path since d k)))"
  by (auto simp: first_touched_None first_touched_Some lookup_fold_None lookup_fold_Some)

text \<open>What a guard finds does not depend on the order in which the layers were folded,
  nor on a layer being folded twice: a live index, fed in commit order, and one rebuilt from zero in
  id order answer alike.\<close>

theorem touch_fold_order_independent:
  assumes "set log' = set log"
  shows "first_touched_since (touch_fold log') path cells since =
         first_touched_since (touch_fold log) path cells since"
proof -
  have "touch_lookup (touch_fold log') path c since = touch_lookup (touch_fold log) path c since" for c
    by (rule touch_lookup_eqI) (simp add: window_fold touches_at_def assms)
  then show ?thesis by (induction cells) (auto split: option.splits)
qed

text \<open>The cheap negative answer: when every branch's recorded layers lie at or below the
  branch's bound on the path and the path has not moved since a layer, then no guard can trip,
  whatever cells it names.\<close>

theorem unmoved_path_has_no_violation:
  assumes "\<not> moved_since (touch_fold log) path since"
    and "\<And>layer events b bound. (layer, events) \<in> set log \<Longrightarrow> (b, bound) \<in> set path \<Longrightarrow>
           ly_branch layer = b \<Longrightarrow> ly_id layer \<le> bound"
  shows "first_touched_since (touch_fold log) path cells since = None"
proof -
  have highest: "h \<in> {ly_id layer | layer events. (layer, events) \<in> set log \<and> ly_branch layer = b}"
    if "hm_get (ti_highest (touch_fold log)) b = Some h" for b h
  proof -
    have "hm_get (ti_highest (fold (\<lambda>(layer, events). touch_apply layer events) xs ti)) b = Some h \<Longrightarrow>
        hm_get (ti_highest ti) b = Some h \<or>
        h \<in> {ly_id layer | layer events. (layer, events) \<in> set xs \<and> ly_branch layer = b}" for xs ti
    proof (induction xs arbitrary: ti)
      case (Cons e xs)
      obtain layer events where e: "e = (layer, events)" by (cases e)
      from Cons.prems have "hm_get (ti_highest (fold (\<lambda>(layer, events). touch_apply layer events) xs
          (touch_apply layer events ti))) b = Some h" by (simp add: e)
      note this[THEN Cons.IH]
      moreover have "hm_get (ti_highest (touch_apply layer events ti)) b = Some h \<Longrightarrow>
          hm_get (ti_highest ti) b = Some h \<or> (ly_branch layer = b \<and> h = ly_id layer)"
        by (cases "hm_get (ti_highest ti) (ly_branch layer)")
           (auto simp: touch_apply_def touch_record_def hm_get_modify Let_def
             split: layer_author.splits if_splits)
      ultimately show ?case using e by auto
    qed simp
    from this[of log touch_new] that show ?thesis by (simp add: touch_fold_def touch_new_def)
  qed
  have "window (touch_fold log) path c since = {}" for c
    using touch_inv_fold assms(1)
  proof (rule moved_since_sound)
    fix b bound h assume "(b, bound) \<in> set path" "hm_get (ti_highest (touch_fold log)) b = Some h"
    then show "h \<le> bound" using highest assms(2) by blast
  qed
  then show ?thesis by (simp add: first_touched_None touch_lookup_None_iff)
qed

text \<open>A log of two client layers, for the last property and the witnesses.\<close>

definition sample_layer :: "layer_id \<Rightarrow> layer" where
  "sample_layer l = \<lparr>ly_id = l, ly_branch = 1, ly_kind = LKValue, ly_author = ASource,
     ly_state = LCommitted, ly_parent = None, ly_guards = []\<rparr>"

definition sample_event :: "event_id \<Rightarrow> cell_ref \<Rightarrow> layer_id \<Rightarrow> event" where
  "sample_event i c l = \<lparr>ev_id = i, ev_cell = c, ev_value = VBool True, ev_version = DefVersion 1,
     ev_origin = OSource, ev_derivation = None, ev_authored = l\<rparr>"

definition guarded_cell :: cell_ref where
  "guarded_cell = cell_prop ''Company'' ''name'' (Allocated PObject 0 0 1)"

definition sample_log :: "(layer \<times> event list) list" where
  "sample_log = [(sample_layer 5, [sample_event 1 guarded_cell 5]),
                 (sample_layer 9, [sample_event 2 guarded_cell 9])]"

text \<open>The bound condition is needed: \<open>moved_since\<close> looks at the highest layer of a
  branch only, so on a segment whose branch has moved past its bound it can say "nothing" although
  an earlier layer inside the window touched a guarded cell.\<close>

theorem moved_since_can_miss:
  "\<exists>log path since c. \<not> moved_since (touch_fold log) path since \<and>
     first_touched_since (touch_fold log) path [c] since = Some (c, 5)"
proof -
  have "\<not> moved_since (touch_fold sample_log) [(2, 11), (1, 6)] 3 \<and>
      first_touched_since (touch_fold sample_log) [(2, 11), (1, 6)] [guarded_cell] 3 = Some (guarded_cell, 5)"
    by (simp add: sample_log_def touch_fold_def touch_apply_def touch_record_def touch_new_def
        sample_layer_def sample_event_def moved_since_def touch_lookup_def history_of_def
        hm_modify_def hm_get_or_def push_history_def reached_def earlier.simps)
  then show ?thesis by blast
qed

section \<open>Witnesses\<close>

lemma first_touched_spec_witness:
  "first_touched_since (touch_fold sample_log) [(1, 9)] [guarded_cell] 3 = Some (guarded_cell, 5)"
proof -
  have t: "touches_at sample_log [(1, 9)] 3 guarded_cell k \<longleftrightarrow> k = 5 \<or> k = 9" for k
    by (auto simp: touches_at_def sample_log_def sample_layer_def sample_event_def)
  have "\<exists>pre post. [guarded_cell] = pre @ guarded_cell # post \<and>
      touches_at sample_log [(1, 9)] 3 guarded_cell 5 \<and>
      (\<forall>k. touches_at sample_log [(1, 9)] 3 guarded_cell k \<longrightarrow> 5 \<le> k) \<and>
      (\<forall>d \<in> set pre. \<forall>k. \<not> touches_at sample_log [(1, 9)] 3 d k)"
    by (intro exI[of _ "[]"]) (auto simp: t)
  then show ?thesis using first_touched_spec[THEN conjunct2, THEN iffD2] by blast
qed

lemma touch_fold_order_independent_witness:
  "first_touched_since (touch_fold (rev sample_log @ sample_log)) [(1, 9)] [guarded_cell] 3 =
   first_touched_since (touch_fold sample_log) [(1, 9)] [guarded_cell] 3"
  by (rule touch_fold_order_independent) simp

lemma unmoved_path_has_no_violation_witness:
  "first_touched_since (touch_fold sample_log) [(1, 9)] [guarded_cell] 9 = None"
proof (rule unmoved_path_has_no_violation)
  show "\<not> moved_since (touch_fold sample_log) [(1, 9)] 9"
    by (simp add: sample_log_def touch_fold_def touch_apply_def touch_record_def touch_new_def
        sample_layer_def sample_event_def moved_since_def hm_modify_def hm_get_or_def reached_def)
qed (auto simp: sample_log_def sample_layer_def)

end
