(* ===== verification/Derivation_State.thy ===== *)
theory Derivation_State
  imports Cells
begin

text \<open>
  The state derivation keeps beside the log: per-producer watermarks (\<^verbatim>\<open>FrontierTracker\<close> of
  \<^verbatim>\<open>resolve.rs\<close>), poisoned producers (\<^verbatim>\<open>poison.rs\<close>), the dependency index (\<^verbatim>\<open>index.rs\<close>), and
  the work gap and layer sequencer of \<^verbatim>\<open>seams.rs\<close>. A \<^verbatim>\<open>HashSet\<close> is a set; a list that the
  source collects from one, in no particular order, is that set.
\<close>

section \<open>Watermarks\<close>

type_synonym frontier = "(branch_id \<times> producer_id, layer_id) hmap"

definition watermark :: "frontier \<Rightarrow> branch_id \<Rightarrow> producer_id \<Rightarrow> layer_id" where
  "watermark f b p = hm_get_or 0 f (b, p)"

text \<open>The flag tells whether waiters are notified.\<close>

definition advance :: "branch_id \<Rightarrow> producer_id \<Rightarrow> layer_id \<Rightarrow> frontier \<Rightarrow> bool \<times> frontier" where
  "advance b p to f =
     (to > watermark f b p, hm_modify (b, p) 0 (\<lambda>entry. if to > entry then to else entry) f)"

definition rewind :: "branch_id \<Rightarrow> producer_id \<Rightarrow> frontier \<Rightarrow> frontier" where
  "rewind b p f = hm_insert (b, p) 0 f"

definition settled :: "frontier \<Rightarrow> branch_id \<Rightarrow> producer_id list \<Rightarrow> layer_id option" where
  "settled f b producers =
     (case map (watermark f b) producers of [] \<Rightarrow> None | m # ms \<Rightarrow> Some (fold min ms m))"

text \<open>The test that \<open>reaches\<close> waits for.\<close>

definition has_reached :: "frontier \<Rightarrow> branch_id \<Rightarrow> producer_id list \<Rightarrow> layer_id \<Rightarrow> bool" where
  "has_reached f b producers target =
     (case settled f b producers of None \<Rightarrow> True | Some m \<Rightarrow> m \<ge> target)"

section \<open>Poisoned producers\<close>

record poisoning =
  po_producer :: producer_id
  po_version :: layer_id
  po_error :: string
  po_since :: layer_id

definition applies_to :: "poisoning \<Rightarrow> layer_id \<Rightarrow> bool" where
  "applies_to po version \<longleftrightarrow> po_version po = version"

type_synonym poison_table = "(branch_id \<times> producer_id, poisoning) hmap"

definition poisoned :: "poison_table \<Rightarrow> branch_id \<Rightarrow> poisoning list" where
  "poisoned t b = map snd (filter (\<lambda>((on, _), _). on = b) t)"

definition poison :: "branch_id \<Rightarrow> poisoning \<Rightarrow> poison_table \<Rightarrow> poison_table" where
  "poison b po t = hm_insert (b, po_producer po) po t"

definition clear_poison :: "branch_id \<Rightarrow> producer_id \<Rightarrow> poison_table \<Rightarrow> poison_table" where
  "clear_poison b p t = hm_remove (b, p) t"

section \<open>The dependency index\<close>

record invocation_id =
  iv_producer :: producer_id
  iv_input :: pid

record dep_index =
  di_dependents :: "(branch_id \<times> cell_at, invocation_id set) hmap"
  di_dependencies :: "(branch_id \<times> cell_at, cell_at list) hmap"
  di_read_sets :: "(branch_id \<times> invocation_id, cell_at list) hmap"

definition dep_new :: dep_index where
  "dep_new = \<lparr>di_dependents = [], di_dependencies = [], di_read_sets = []\<rparr>"

text \<open>\<open>get_mut\<close>: an absent entry stays absent.\<close>

definition retract ::
  "branch_id \<Rightarrow> invocation_id \<Rightarrow> cell_at \<Rightarrow>
   (branch_id \<times> cell_at, invocation_id set) hmap \<Rightarrow> (branch_id \<times> cell_at, invocation_id set) hmap" where
  "retract b iv cell m =
     (case hm_get m (b, cell) of None \<Rightarrow> m | Some deps \<Rightarrow> hm_insert (b, cell) (deps - {iv}) m)"

definition dep_record ::
  "branch_id \<Rightarrow> invocation_id \<Rightarrow> cell_at list \<Rightarrow> cell_at list \<Rightarrow> dep_index \<Rightarrow> dep_index" where
  "dep_record b iv read_set write_set di =
     (let retracted = (case hm_get (di_read_sets di) (b, iv) of
            None \<Rightarrow> di_dependents di
          | Some previous \<Rightarrow> fold (retract b iv) previous (di_dependents di))
      in \<lparr>di_dependents = fold (\<lambda>cell. hm_modify (b, cell) {} (insert iv)) read_set retracted,
          di_dependencies = fold (\<lambda>cell. hm_insert (b, cell) read_set) write_set (di_dependencies di),
          di_read_sets = hm_insert (b, iv) read_set (hm_remove (b, iv) (di_read_sets di))\<rparr>)"

definition dependents :: "dep_index \<Rightarrow> branch_id \<Rightarrow> cell_at list \<Rightarrow> invocation_id set" where
  "dependents di b cells = \<Union> (set (map (\<lambda>cell. hm_get_or {} (di_dependents di) (b, cell)) cells))"

definition dependencies :: "dep_index \<Rightarrow> branch_id \<Rightarrow> cell_at \<Rightarrow> cell_at list" where
  "dependencies di b cell = hm_get_or [] (di_dependencies di) (b, cell)"

definition forget_producer :: "branch_id \<Rightarrow> producer_id \<Rightarrow> dep_index \<Rightarrow> dep_index" where
  "forget_producer b p di =
     di\<lparr>di_dependents :=
          filter (\<lambda>((on, _), v). on \<noteq> b \<or> v \<noteq> {})
            (map (\<lambda>(k, v). (k, {i \<in> v. iv_producer i \<noteq> p})) (di_dependents di)),
        di_read_sets := filter (\<lambda>((on, i), _). on \<noteq> b \<or> iv_producer i \<noteq> p) (di_read_sets di)\<rparr>"

section \<open>Work gaps and the sequencer\<close>

record work_gap =
  wg_producer :: producer_id
  wg_from :: layer_id
  wg_to :: layer_id

definition gap_is_empty :: "work_gap \<Rightarrow> bool" where
  "gap_is_empty g \<longleftrightarrow> wg_from g \<ge> wg_to g"

text \<open>\<open>highest.0 + 1\<close> panics at the end of the range (\<open>None\<close>); \<open>fetch_add\<close> wraps around.\<close>

definition resuming_after :: "layer_id \<Rightarrow> u64 option" where
  "resuming_after highest = (if highest = - 1 then None else Some (highest + 1))"

definition next_layer_id :: "u64 \<Rightarrow> layer_id \<times> u64" where
  "next_layer_id n = (n, n + 1)"

section \<open>Facts\<close>

subsection \<open>Watermarks\<close>

lemma watermark_advance:
  "watermark (snd (advance b p to f)) b' p' =
     (if b' = b \<and> p' = p then max (watermark f b p) to else watermark f b' p')"
  by (auto simp: watermark_def advance_def max_def)

lemma watermark_rewind:
  "watermark (rewind b p f) b' p' = (if b' = b \<and> p' = p then 0 else watermark f b' p')"
  by (auto simp: watermark_def rewind_def)

lemma fold_min_le: "x \<in> set (m # ms) \<Longrightarrow> fold min ms m \<le> (x :: layer_id)"
  by (simp add: Min.set_eq_fold [symmetric])

lemma fold_min_in: "fold min ms m \<in> set (m # ms :: layer_id list)"
proof -
  have "Min (set (m # ms)) \<in> set (m # ms)" by (rule Min_in) simp_all
  then show ?thesis by (simp only: Min.set_eq_fold)
qed

lemma settled_Some:
  "settled f b ps = Some m \<longleftrightarrow> (\<exists>p \<in> set ps. watermark f b p = m) \<and> (\<forall>p \<in> set ps. m \<le> watermark f b p)"
proof (cases ps)
  case (Cons q qs)
  have le: "fold min (map (watermark f b) qs) (watermark f b q) \<le> watermark f b p" if "p \<in> set ps" for p
    by (rule fold_min_le) (use that Cons in auto)
  have "fold min (map (watermark f b) qs) (watermark f b q) \<in> watermark f b ` set ps"
    using fold_min_in[of "map (watermark f b) qs" "watermark f b q"] Cons by auto
  then obtain p where p: "p \<in> set ps" "fold min (map (watermark f b) qs) (watermark f b q) = watermark f b p"
    by auto
  have s: "settled f b ps = Some (watermark f b p)" by (simp add: settled_def Cons flip: p(2))
  show ?thesis
    unfolding s using p le by (auto intro: order.antisym)
qed (simp add: settled_def)

lemma settled_None: "settled f b ps = None \<longleftrightarrow> ps = []"
  by (cases ps) (simp_all add: settled_def)

datatype frontier_op = Advance branch_id producer_id layer_id | Rewind branch_id producer_id

fun frontier_step :: "frontier_op \<Rightarrow> frontier \<Rightarrow> frontier" where
  "frontier_step (Advance b p to) f = snd (advance b p to f)"
| "frontier_step (Rewind b p) f = rewind b p f"

lemma watermark_run:
  assumes "Rewind b p \<notin> set ops"
  shows "watermark (fold frontier_step ops f) b p =
    Max (insert (watermark f b p) {to. Advance b p to \<in> set ops})"
  using assms
proof (induction ops arbitrary: f)
  case (Cons oper ops)
  have fin: "finite {to. Advance b p to \<in> set ops}" for ops
  proof -
    have "{to. Advance b p to \<in> set ops} \<subseteq>
        (\<lambda>oper. case oper of Advance _ _ to \<Rightarrow> to | _ \<Rightarrow> 0) ` set ops" by force
    then show ?thesis by (rule finite_subset) simp
  qed
  have IH: "watermark (fold frontier_step ops (frontier_step oper f)) b p =
      Max (insert (watermark (frontier_step oper f) b p) {to. Advance b p to \<in> set ops})"
    using Cons by simp
  show ?case
  proof (cases "\<exists>to. oper = Advance b p to")
    case True
    then obtain to where "oper = Advance b p to" by blast
    moreover from this have "{k. Advance b p k \<in> set (oper # ops)} = insert to {k. Advance b p k \<in> set ops}"
      by auto
    ultimately show ?thesis
      using IH fin[of ops] by (cases "{k. Advance b p k \<in> set ops} = {}") (simp_all add: watermark_advance ac_simps)
  next
    case False
    then have "watermark (frontier_step oper f) b p = watermark f b p"
      using Cons.prems by (cases oper) (auto simp: watermark_advance watermark_rewind)
    moreover have "{k. Advance b p k \<in> set (oper # ops)} = {k. Advance b p k \<in> set ops}" using False by auto
    ultimately show ?thesis using IH by simp
  qed
qed simp

subsection \<open>Poison\<close>

text \<open>
  What derivation relies on of a \<^verbatim>\<open>PoisonProvider\<close>, for any implementation: a record replaces the
  producer's earlier one on that branch and touches no other, clearing removes it.
\<close>

locale poison_provider =
  fixes ok :: "'t \<Rightarrow> bool"
    and records :: "'t \<Rightarrow> branch_id \<Rightarrow> poisoning list"
    and put :: "branch_id \<Rightarrow> poisoning \<Rightarrow> 't \<Rightarrow> 't"
    and clear :: "branch_id \<Rightarrow> producer_id \<Rightarrow> 't \<Rightarrow> 't"
  assumes ok_put: "ok t \<Longrightarrow> ok (put b po t)"
    and ok_clear: "ok t \<Longrightarrow> ok (clear b p t)"
    and records_put: "ok t \<Longrightarrow> set (records (put b po t) b') =
          (if b' = b then insert po {x \<in> set (records t b). po_producer x \<noteq> po_producer po}
           else set (records t b'))"
    and records_clear: "ok t \<Longrightarrow> set (records (clear b p t) b') =
          (if b' = b then {x \<in> set (records t b). po_producer x \<noteq> p} else set (records t b'))"
begin

definition live :: "'t \<Rightarrow> branch_id \<Rightarrow> producer_id \<Rightarrow> layer_id \<Rightarrow> bool" where
  "live t b p version \<longleftrightarrow> (\<exists>x \<in> set (records t b). po_producer x = p \<and> applies_to x version)"

lemma live_put:
  "ok t \<Longrightarrow> live (put b po t) b' p version \<longleftrightarrow>
     (if b' = b \<and> p = po_producer po then po_version po = version else live t b' p version)"
  by (auto simp: live_def records_put applies_to_def)

lemma live_clear:
  "ok t \<Longrightarrow> live (clear b p t) b' q version \<longleftrightarrow> \<not> (b' = b \<and> q = p) \<and> live t b' q version"
  by (auto simp: live_def records_clear)

end

text \<open>The table's invariant: one entry per key, filed under its own producer.\<close>

definition poison_ok :: "poison_table \<Rightarrow> bool" where
  "poison_ok t \<longleftrightarrow> distinct (map fst t) \<and> (\<forall>((b, p), po) \<in> set t. po_producer po = p)"

lemma in_poisoned:
  "poison_ok t \<Longrightarrow> x \<in> set (poisoned t b) \<longleftrightarrow> hm_get t (b, po_producer x) = Some x"
  by (force simp: poisoned_def poison_ok_def hm_get_eq_Some_iff)

lemma poison_ok_poison: "poison_ok t \<Longrightarrow> poison_ok (poison b po t)"
proof -
  assume ok: "poison_ok t"
  have d: "distinct (map fst (poison b po t))"
    using ok by (auto simp: poison_ok_def poison_def intro: hm_distinct_insert)
  have "po_producer x = p" if "((b', p), x) \<in> set (poison b po t)" for b' p x
  proof -
    have "hm_get (poison b po t) (b', p) = Some x" using d that by (simp add: hm_get_eq_Some_iff)
    then have "x = po \<and> p = po_producer po \<or> hm_get t (b', p) = Some x" by (auto simp: poison_def split: if_splits)
    then show ?thesis using ok by (auto simp: poison_ok_def dest: map_of_SomeD)
  qed
  with d show ?thesis by (auto simp: poison_ok_def)
qed

lemma poison_ok_clear: "poison_ok t \<Longrightarrow> poison_ok (clear_poison b p t)"
  by (auto simp: poison_ok_def clear_poison_def AList.delete_eq intro: distinct_delete[unfolded AList.delete_eq])

lemma poison_ok_Nil [simp]: "poison_ok []"
  by (simp add: poison_ok_def)

interpretation memory_poison: poison_provider poison_ok poisoned poison clear_poison
proof
  fix t :: poison_table and b b' po p
  assume ok: "poison_ok t"
  show "poison_ok (poison b po t)" using ok by (rule poison_ok_poison)
  show "poison_ok (clear_poison b p t)" using ok by (rule poison_ok_clear)
  show "set (poisoned (poison b po t) b') =
      (if b' = b then insert po {x \<in> set (poisoned t b). po_producer x \<noteq> po_producer po}
       else set (poisoned t b'))"
    using ok poison_ok_poison[OF ok, of b po]
    by (auto simp: in_poisoned set_eq_iff poison_def split: if_splits)
  show "set (poisoned (clear_poison b p t) b') =
      (if b' = b then {x \<in> set (poisoned t b). po_producer x \<noteq> p} else set (poisoned t b'))"
    using ok poison_ok_clear[OF ok, of b p]
    by (auto simp: in_poisoned set_eq_iff clear_poison_def split: if_splits)
qed

subsection \<open>The dependency index\<close>

definition deps_at :: "dep_index \<Rightarrow> branch_id \<Rightarrow> cell_at \<Rightarrow> invocation_id set" where
  "deps_at di b c = hm_get_or {} (di_dependents di) (b, c)"

text \<open>The forward edges are exactly what the recorded read sets say.\<close>

definition dep_inv :: "dep_index \<Rightarrow> bool" where
  "dep_inv di \<longleftrightarrow> (\<forall>b c iv. iv \<in> deps_at di b c \<longleftrightarrow>
     (\<exists>reads. hm_get (di_read_sets di) (b, iv) = Some reads \<and> c \<in> set reads))"

lemma get_retract:
  "hm_get_or {} (retract b iv c m) (b', c') =
     hm_get_or {} m (b', c') - (if b' = b \<and> c' = c then {iv} else {})"
  by (auto simp: retract_def hm_get_or_def split: option.splits)

lemma get_retracts:
  "hm_get_or {} (fold (retract b iv) cs m) (b', c') =
     hm_get_or {} m (b', c') - (if b' = b \<and> c' \<in> set cs then {iv} else {})"
  by (induction cs arbitrary: m) (auto simp: get_retract)

lemma get_subscribe:
  "hm_get_or {} (fold (\<lambda>cell. hm_modify (b, cell) {} (insert iv)) cs m) (b', c') =
     hm_get_or {} m (b', c') \<union> (if b' = b \<and> c' \<in> set cs then {iv} else {})"
  by (induction cs arbitrary: m) auto

lemma get_lineage:
  "hm_get (fold (\<lambda>cell. hm_insert (b, cell) rs) cs m) (b', c') =
     (if b' = b \<and> c' \<in> set cs then Some rs else hm_get m (b', c'))"
  by (induction cs arbitrary: m) auto

lemma read_sets_record:
  "hm_get (di_read_sets (dep_record b iv rs ws di)) k =
     (if k = (b, iv) then Some rs else hm_get (di_read_sets di) k)"
  by (simp add: dep_record_def Let_def)

lemma deps_at_record:
  "deps_at (dep_record b iv rs ws di) b' c =
     (deps_at di b' c -
        (if b' = b \<and> (\<exists>prev. hm_get (di_read_sets di) (b, iv) = Some prev \<and> c \<in> set prev) then {iv} else {})) \<union>
     (if b' = b \<and> c \<in> set rs then {iv} else {})"
  by (cases "hm_get (di_read_sets di) (b, iv)")
     (simp_all add: deps_at_def dep_record_def Let_def get_subscribe get_retracts)

lemma dep_inv_new [simp]: "dep_inv dep_new"
  by (simp add: dep_inv_def deps_at_def dep_new_def)

lemma dep_inv_record: "dep_inv di \<Longrightarrow> dep_inv (dep_record b iv rs ws di)"
  unfolding dep_inv_def by (simp add: deps_at_record read_sets_record) blast

lemma dependents_deps_at: "dependents di b cells = (\<Union>c \<in> set cells. deps_at di b c)"
  by (simp add: dependents_def deps_at_def)

lemma dependencies_record:
  "dependencies (dep_record b iv rs ws di) b' c =
     (if b' = b \<and> c \<in> set ws then rs else dependencies di b' c)"
  by (simp add: dependencies_def dep_record_def Let_def hm_get_or_def get_lineage)

lemma map_of_retain:
  "distinct (map fst m) \<Longrightarrow>
   map_of (filter (\<lambda>(k, v). P k v) (map (\<lambda>(k, v). (k, f v)) m)) k =
     (case map_of m k of None \<Rightarrow> None | Some v \<Rightarrow> if P k (f v) then Some (f v) else None)"
proof (induction m)
  case (Cons e m)
  obtain k' v where e: "e = (k', v)" by (cases e)
  have "map_of m k' = None" using Cons.prems e by (simp add: map_of_eq_None_iff)
  with Cons show ?case by (auto simp: e split: option.splits)
qed simp

definition dep_keys_ok :: "dep_index \<Rightarrow> bool" where
  "dep_keys_ok di \<longleftrightarrow> distinct (map fst (di_dependents di))"

lemma dep_keys_new [simp]: "dep_keys_ok dep_new"
  by (simp add: dep_keys_ok_def dep_new_def)

lemma dep_keys_record: "dep_keys_ok di \<Longrightarrow> dep_keys_ok (dep_record b iv rs ws di)"
proof -
  have r: "distinct (map fst m) \<Longrightarrow> distinct (map fst (fold (retract b iv) cs m))" for cs m
    by (induction cs arbitrary: m) (auto simp: retract_def intro!: hm_distinct_insert split: option.split)
  have s: "distinct (map fst m) \<Longrightarrow>
      distinct (map fst (fold (\<lambda>cell. hm_modify (b, cell) {} (insert iv)) cs m))" for cs m
    by (induction cs arbitrary: m) (auto intro!: hm_distinct_modify)
  show "dep_keys_ok di \<Longrightarrow> dep_keys_ok (dep_record b iv rs ws di)"
    by (auto simp: dep_keys_ok_def dep_record_def Let_def intro!: r s split: option.split)
qed

lemma deps_at_forget:
  "dep_keys_ok di \<Longrightarrow> deps_at (forget_producer b p di) b' c = {i \<in> deps_at di b' c. iv_producer i \<noteq> p}"
  using map_of_retain[of "di_dependents di" "\<lambda>(on, _) v. on \<noteq> b \<or> v \<noteq> {}" "\<lambda>v. {i \<in> v. iv_producer i \<noteq> p}" "(b', c)"]
  by (auto simp: deps_at_def forget_producer_def dep_keys_ok_def hm_get_or_def case_prod_unfold
      split: option.splits if_splits)

section \<open>Properties\<close>

text \<open>A producer's watermark is the greatest source layer any run of it has reported
  since it was last rewound, whatever the order of the reports: a late run cannot move it back. The
  settled frontier is \<open>None\<close> without producers, and otherwise the least watermark, attained, so that
  every producer has incorporated it.\<close>

theorem watermark_and_frontier:
  assumes "Rewind b p \<notin> set ops"
  shows "watermark (fold frontier_step (Rewind b p # ops) f) b p =
      Max (insert 0 {to. Advance b p to \<in> set ops}) \<and>
    (settled f b ps = None \<longleftrightarrow> ps = []) \<and>
    (settled f b ps = Some m \<longleftrightarrow>
       (\<exists>q \<in> set ps. watermark f b q = m) \<and> (\<forall>q \<in> set ps. m \<le> watermark f b q))"
  using watermark_run[OF assms, of "rewind b p f"]
  by (simp add: watermark_rewind settled_Some settled_None)

text \<open>Once every producer of a branch has reached a layer, no report of a run makes the
  branch fall behind it again.\<close>

theorem reached_is_stable:
  assumes "has_reached f b ps target"
  shows "has_reached (snd (advance b' p to f)) b ps target"
proof (cases "settled (snd (advance b' p to f)) b ps")
  case (Some m)
  then obtain q where q: "q \<in> set ps" "watermark (snd (advance b' p to f)) b q = m"
    by (auto simp: settled_Some)
  then obtain k where k: "settled f b ps = Some k" by (cases "settled f b ps") (auto simp: settled_None)
  then have "k \<le> watermark f b q" using q(1) settled_Some[of f b ps k] by blast
  also have "watermark f b q \<le> m" using q(2) by (auto simp: watermark_advance split: if_splits)
  finally show ?thesis using assms Some k by (simp add: has_reached_def)
qed (simp add: has_reached_def)

text \<open>A poisoning speaks about a producer exactly while the branch stands at the version
  that failed: recording one replaces the producer's earlier record on that branch and touches no
  other producer and no other branch, and clearing removes exactly it.\<close>

theorem poison_names_its_version:
  assumes "poison_ok t"
  shows "((\<exists>x \<in> set (poisoned (poison b po t) b'). po_producer x = p \<and> applies_to x version) \<longleftrightarrow>
      (if b' = b \<and> p = po_producer po then po_version po = version
       else (\<exists>x \<in> set (poisoned t b'). po_producer x = p \<and> applies_to x version))) \<and>
    ((\<exists>x \<in> set (poisoned (clear_poison b q t) b'). po_producer x = p \<and> applies_to x version) \<longleftrightarrow>
      \<not> (b' = b \<and> p = q) \<and> (\<exists>x \<in> set (poisoned t b'). po_producer x = p \<and> applies_to x version))"
  using memory_poison.live_put[OF assms] memory_poison.live_clear[OF assms]
  by (simp add: memory_poison.live_def)

text \<open>The records of a branch's producer runs, in order.\<close>

record run_record =
  rr_branch :: branch_id
  rr_invocation :: invocation_id
  rr_reads :: "cell_at list"
  rr_writes :: "cell_at list"

definition dep_run :: "run_record list \<Rightarrow> dep_index \<Rightarrow> dep_index" where
  "dep_run rs di =
     fold (\<lambda>r. dep_record (rr_branch r) (rr_invocation r) (rr_reads r) (rr_writes r)) rs di"

definition last_reads :: "run_record list \<Rightarrow> branch_id \<Rightarrow> invocation_id \<Rightarrow> cell_at list option" where
  "last_reads rs b iv =
     map_of (rev (map (\<lambda>r. ((rr_branch r, rr_invocation r), rr_reads r)) rs)) (b, iv)"

lemma dep_run_inv: "dep_inv di \<Longrightarrow> dep_keys_ok di \<Longrightarrow> dep_inv (dep_run rs di) \<and> dep_keys_ok (dep_run rs di)"
  by (induction rs arbitrary: di) (auto simp: dep_run_def dep_inv_record dep_keys_record)

lemma dep_run_read_sets:
  "hm_get (di_read_sets (dep_run rs di)) (b, iv) =
     (case last_reads rs b iv of None \<Rightarrow> hm_get (di_read_sets di) (b, iv) | Some reads \<Rightarrow> Some reads)"
proof (induction rs rule: rev_induct)
  case (snoc r rs)
  then show ?case by (simp add: dep_run_def last_reads_def read_sets_record)
qed (simp add: dep_run_def last_reads_def)

lemma dependents_run:
  "iv \<in> dependents (dep_run rs dep_new) b cells \<longleftrightarrow>
     (\<exists>reads c. last_reads rs b iv = Some reads \<and> c \<in> set reads \<and> c \<in> set cells)"
proof -
  have "dep_inv (dep_run rs dep_new)" using dep_run_inv by simp
  moreover have "hm_get (di_read_sets (dep_run rs dep_new)) (b, iv) = last_reads rs b iv"
    using dep_run_read_sets[of rs dep_new b iv] by (simp add: dep_new_def split: option.splits)
  ultimately show ?thesis by (auto simp: dependents_deps_at dep_inv_def)
qed

text \<open>The dependency index answers for the runs it was told about: the dependents of
  some cells on a branch are exactly the invocations whose latest run there read one of them, so an
  invocation whose read set shrank is not woken by a cell it no longer reads.\<close>

theorem dependents_are_latest_readers:
  "iv \<in> dependents (dep_run rs dep_new) b cells \<longleftrightarrow>
     (\<exists>reads c. last_reads rs b iv = Some reads \<and> c \<in> set reads \<and> c \<in> set cells)"
  by (rule dependents_run)

text \<open>The lineage of a cell is the read set of the latest run on the branch that wrote
  it, and empty when none did.\<close>

theorem dependencies_are_latest_reads:
  "dependencies (dep_run rs dep_new) b c =
     (case filter (\<lambda>r. rr_branch r = b \<and> c \<in> set (rr_writes r)) (rev rs) of
        [] \<Rightarrow> [] | r # _ \<Rightarrow> rr_reads r)"
proof (induction rs rule: rev_induct)
  case (snoc r rs)
  then show ?case by (simp add: dep_run_def dependencies_record)
qed (simp add: dep_run_def dependencies_def dep_new_def)

text \<open>Forgetting a producer removes, on the named branch, exactly its own invocations
  from every answer and keeps everyone else's.\<close>

theorem forget_producer_forgets:
  assumes "dep_keys_ok di"
  shows "dependents (forget_producer b p di) b cells = {iv \<in> dependents di b cells. iv_producer iv \<noteq> p} \<and>
    (\<forall>iv. iv_producer iv = p \<longrightarrow> hm_get (di_read_sets (forget_producer b p di)) (b, iv) = None)"
proof -
  have "map_of (filter (\<lambda>((on, i), _). on \<noteq> b \<or> iv_producer i \<noteq> p) m) (b, iv) = None"
    if "iv_producer iv = p" for iv and m :: "(branch_id \<times> invocation_id, cell_at list) hmap"
    using that by (auto simp: map_of_eq_None_iff)
  then have "\<forall>iv. iv_producer iv = p \<longrightarrow> hm_get (di_read_sets (forget_producer b p di)) (b, iv) = None"
    by (simp add: forget_producer_def)
  moreover have "dependents (forget_producer b p di) b cells =
      {iv \<in> dependents di b cells. iv_producer iv \<noteq> p}"
    by (auto simp: dependents_deps_at deps_at_forget[OF assms])
  ultimately show ?thesis by blast
qed

text \<open>Forgetting a producer on one branch also removes the producer's forward
  edges on every other branch, although only the named branch's records were to be dropped: after it,
  a change on branch 2 no longer reaches an invocation whose latest run there read the changed cell.\<close>

theorem forget_producer_crosses_branches:
  "\<exists>rs b p b' iv c reads. b' \<noteq> b \<and> last_reads rs b' iv = Some reads \<and> c \<in> set reads \<and>
     iv \<in> dependents (dep_run rs dep_new) b' [c] \<and>
     iv \<notin> dependents (forget_producer b p (dep_run rs dep_new)) b' [c] \<and>
     hm_get (di_read_sets (forget_producer b p (dep_run rs dep_new))) (b', iv) = Some reads"
proof -
  let ?iv = "\<lparr>iv_producer = 7, iv_input = Allocated PObject 0 0 1\<rparr>"
  let ?c = "CellAt (cell_prop ''Company'' ''name'' (Allocated PObject 0 0 1)) (DefVersion 1)"
  let ?rs = "[\<lparr>rr_branch = 2, rr_invocation = ?iv, rr_reads = [?c], rr_writes = []\<rparr>]"
  have "last_reads ?rs 2 ?iv = Some [?c]" by (simp add: last_reads_def)
  moreover from this have "?iv \<in> dependents (dep_run ?rs dep_new) 2 [?c]"
    by (auto simp: dependents_run)
  moreover have "?iv \<notin> dependents (forget_producer 1 7 (dep_run ?rs dep_new)) 2 [?c]"
    using dep_run_inv[of dep_new ?rs] by (simp add: dependents_deps_at deps_at_forget)
  moreover have "hm_get (di_read_sets (forget_producer 1 7 (dep_run ?rs dep_new))) (2, ?iv) = Some [?c]"
    by (simp add: forget_producer_def dep_run_def dep_record_def dep_new_def)
  ultimately show ?thesis
    by (intro exI[of _ ?rs] exI[of _ 1] exI[of _ 7] exI[of _ 2] exI[of _ ?iv] exI[of _ ?c] exI[of _ "[?c]"]) simp
qed

text \<open>The ids of successive requests.\<close>

fun layer_ids :: "nat \<Rightarrow> u64 \<Rightarrow> layer_id list" where
  "layer_ids 0 n = []"
| "layer_ids (Suc k) n = (case next_layer_id n of (l, n') \<Rightarrow> l # layer_ids k n')"

lemma layer_ids_unat:
  "unat n + k \<le> 2 ^ 64 \<Longrightarrow> map unat (layer_ids k n) = [unat n ..< unat n + k]"
proof (induction k arbitrary: n)
  case (Suc k)
  show ?case
  proof (cases k)
    case 0
    then show ?thesis by (simp add: next_layer_id_def)
  next
    case (Suc k')
    have "unat (n + 1) = unat n + 1"
      using Suc.prems \<open>k = Suc k'\<close> by (simp add: unat_word_ariths)
    then show ?thesis
      using Suc.IH[of "n + 1"] Suc.prems by (simp add: next_layer_id_def upt_conv_Cons)
  qed
qed simp

text \<open>The sequencer of a store reopened at its highest layer hands out ids that are new:
  as long as the 64-bit range lasts, the ids of any number of requests are above everything the
  store holds, ascending, and so distinct.\<close>

theorem sequencer_ids_new:
  assumes "resuming_after highest = Some n" "unat highest + 1 + k \<le> 2 ^ 64"
  shows "sorted_wrt (<) (layer_ids k n) \<and> (\<forall>l \<in> set (layer_ids k n). highest < l)"
proof -
  have n: "n = highest + 1" "highest \<noteq> - 1" using assms(1) by (auto simp: resuming_after_def split: if_splits)
  then have "1 + highest \<noteq> 0" using minus_unique[of 1 highest] by metis
  then have "unat n = unat highest + 1" using unatSuc[of highest] by (simp add: n add.commute)
  then have ids: "map unat (layer_ids k n) = [unat highest + 1 ..< unat highest + 1 + k]"
    using layer_ids_unat[of n k] assms(2) by simp
  have "sorted_wrt (<) (map unat (layer_ids k n))" unfolding ids by (rule sorted_wrt_upt)
  then have "sorted_wrt (<) (layer_ids k n)" unfolding sorted_wrt_map by (rule sorted_wrt_mono_rel[rotated]) (simp add: word_less_nat_alt)
  moreover have "highest < l" if "l \<in> set (layer_ids k n)" for l
  proof -
    have "unat l \<in> set (map unat (layer_ids k n))" using that by simp
    then show ?thesis unfolding ids by (auto simp: word_less_nat_alt)
  qed
  ultimately show ?thesis by blast
qed

section \<open>Witnesses\<close>

lemma watermark_and_frontier_witness:
  "watermark (fold frontier_step [Rewind 1 7, Advance 1 7 5, Advance 1 7 3] []) 1 7 = 5"
proof -
  have "{to. Advance 1 7 to \<in> set [Advance 1 7 5, Advance 1 7 (3 :: u64)]} = {5, 3}" by auto
  then show ?thesis
    using watermark_and_frontier[of 1 7 "[Advance 1 7 5, Advance 1 7 3]" "[]" "[]" 0]
    by simp
qed

lemma reached_is_stable_witness:
  "has_reached (snd (advance 1 7 2 [((1, 7), 4)])) 1 [7] 3"
  by (rule reached_is_stable) (simp add: has_reached_def settled_def watermark_def hm_get_or_def)

definition w_poisoning :: poisoning where
  "w_poisoning = \<lparr>po_producer = 7, po_version = 3, po_error = ''cycle'', po_since = 5\<rparr>"

lemma poison_names_its_version_witness:
  "(\<exists>x \<in> set (poisoned (poison 1 w_poisoning []) 1). po_producer x = 7 \<and> applies_to x 3) \<and>
   \<not> (\<exists>x \<in> set (poisoned (poison 1 w_poisoning []) 1). po_producer x = 7 \<and> applies_to x 4)"
  using poison_names_its_version[of "[]" 1 w_poisoning 1 7 3 7]
    poison_names_its_version[of "[]" 1 w_poisoning 1 7 4 7]
  by (simp add: w_poisoning_def)

definition w_invocation :: "producer_id \<Rightarrow> invocation_id" where
  "w_invocation p = \<lparr>iv_producer = p, iv_input = Allocated PObject 0 0 1\<rparr>"

definition w_at :: cell_at where
  "w_at = CellAt (cell_prop ''Company'' ''name'' (Allocated PObject 0 0 1)) (DefVersion 1)"

definition w_runs :: "run_record list" where
  "w_runs = [\<lparr>rr_branch = 1, rr_invocation = w_invocation 7, rr_reads = [w_at], rr_writes = []\<rparr>,
             \<lparr>rr_branch = 1, rr_invocation = w_invocation 8, rr_reads = [w_at], rr_writes = []\<rparr>]"

lemma forget_producer_forgets_witness:
  "w_invocation 7 \<in> dependents (dep_run w_runs dep_new) 1 [w_at] \<and>
   w_invocation 7 \<notin> dependents (forget_producer 1 7 (dep_run w_runs dep_new)) 1 [w_at] \<and>
   w_invocation 8 \<in> dependents (forget_producer 1 7 (dep_run w_runs dep_new)) 1 [w_at]"
proof -
  have "w_invocation p \<in> dependents (dep_run w_runs dep_new) 1 [w_at]" if "p = 7 \<or> p = 8" for p
    using that by (auto simp: dependents_run last_reads_def w_runs_def w_invocation_def)
  moreover have "dep_keys_ok (dep_run w_runs dep_new)" using dep_run_inv by simp
  ultimately show ?thesis
    using forget_producer_forgets[of "dep_run w_runs dep_new" 1 7 "[w_at]"] by (simp add: w_invocation_def)
qed

lemma sequencer_ids_new_witness: "sorted_wrt (<) (layer_ids 3 10) \<and> 9 < hd (layer_ids 3 10)"
proof -
  have "resuming_after 9 = Some 10" "unat (9 :: u64) + 1 + 3 \<le> 2 ^ 64" by (simp_all add: resuming_after_def)
  from sequencer_ids_new[OF this] have "sorted_wrt (<) (layer_ids 3 10)" "\<forall>l \<in> set (layer_ids 3 10). 9 < l"
    by blast+
  moreover have "layer_ids 3 10 \<noteq> []" by (simp add: eval_nat_numeral Let_def split_def)
  ultimately show ?thesis by (meson hd_in_set)
qed

end
