(* ===== verification/Projections.thy ===== *)
theory Projections
  imports Touch_Index Derivation_State Mem_Storage
begin

text \<open>
  \<^verbatim>\<open>borg-engine/src/projection.rs\<close>: the in-memory indexes as folds of the log. The three
  implementations of the \<^verbatim>\<open>Projection\<close> trait are the constructors of \<open>member\<close>, the state behind
  their shared pointers is the record \<open>indexes\<close>, and a \<^verbatim>\<open>Projections\<close> set is a list of members.
\<close>

section \<open>The projections\<close>

record indexes =
  ix_touch :: touch_index
  ix_deps :: dep_index
  ix_deps_position :: layer_id
  ix_frontier :: frontier
  ix_frontier_position :: layer_id

definition indexes_new :: indexes where
  "indexes_new = \<lparr>ix_touch = touch_new, ix_deps = dep_new, ix_deps_position = 0, ix_frontier = [],
     ix_frontier_position = 0\<rparr>"

datatype member = TouchIndex | DependencyProjection | FrontierProjection

fun member_position :: "member \<Rightarrow> indexes \<Rightarrow> layer_id" where
  "member_position TouchIndex ix = ti_position (ix_touch ix)"
| "member_position DependencyProjection ix = ix_deps_position ix"
| "member_position FrontierProjection ix = ix_frontier_position ix"

fun member_wants :: "member \<Rightarrow> layer \<Rightarrow> bool" where
  "member_wants TouchIndex layer = touch_wants layer"
| "member_wants DependencyProjection layer =
     (case ly_author layer of ASource \<Rightarrow> False | ADerived _ _ \<Rightarrow> True)"
| "member_wants FrontierProjection layer = False"

definition dep_apply_event :: "layer \<Rightarrow> producer_id \<Rightarrow> event \<Rightarrow> dep_index \<Rightarrow> dep_index" where
  "dep_apply_event layer producer event di =
     (case ev_derivation event of
        None \<Rightarrow> di
      | Some derivation \<Rightarrow>
          dep_record (ly_branch layer) \<lparr>iv_producer = producer, iv_input = cell_pid (ev_cell event)\<rparr>
            (dn_read_set derivation) [CellAt (ev_cell event) (ev_version event)] di)"

definition dep_apply :: "layer \<Rightarrow> event list \<Rightarrow> dep_index \<Rightarrow> dep_index" where
  "dep_apply layer events di =
     (case ly_author layer of
        ASource \<Rightarrow> di
      | ADerived producer _ \<Rightarrow> fold (dep_apply_event layer producer) events di)"

definition frontier_apply :: "layer \<Rightarrow> frontier \<Rightarrow> frontier" where
  "frontier_apply layer f =
     (case ly_author layer of
        ASource \<Rightarrow> f
      | ADerived producer reflects \<Rightarrow> snd (advance (ly_branch layer) producer reflects f))"

fun member_apply :: "layer \<Rightarrow> event list \<Rightarrow> member \<Rightarrow> indexes \<Rightarrow> indexes" where
  "member_apply layer events TouchIndex ix = ix\<lparr>ix_touch := touch_apply layer events (ix_touch ix)\<rparr>"
| "member_apply layer events DependencyProjection ix =
     ix\<lparr>ix_deps := dep_apply layer events (ix_deps ix),
        ix_deps_position := reached (ly_id layer) (ix_deps_position ix)\<rparr>"
| "member_apply layer events FrontierProjection ix =
     ix\<lparr>ix_frontier := frontier_apply layer (ix_frontier ix),
        ix_frontier_position := reached (ly_id layer) (ix_frontier_position ix)\<rparr>"

section \<open>The two lifecycles\<close>

fun collect_rows :: "'a result list \<Rightarrow> 'a list result" where
  "collect_rows [] = Inr []"
| "collect_rows (row # rows) =
     (case row of Inl err \<Rightarrow> Inl err
      | Inr x \<Rightarrow> (case collect_rows rows of Inl err \<Rightarrow> Inl err | Inr xs \<Rightarrow> Inr (x # xs)))"

text \<open>The private \<^verbatim>\<open>read_layer\<close> of the module.\<close>

definition buffered_layer :: "inner \<Rightarrow> layer \<Rightarrow> event list result" where
  "buffered_layer db layer = collect_rows (read_layer db (ly_id layer))"

definition is_source :: "layer \<Rightarrow> bool" where
  "is_source layer = (case ly_author layer of ASource \<Rightarrow> True | ADerived _ _ \<Rightarrow> False)"

definition apply_members :: "layer \<Rightarrow> event list \<Rightarrow> member list \<Rightarrow> indexes \<Rightarrow> indexes" where
  "apply_members layer events members ix = fold (member_apply layer events) members ix"

fun head_loop ::
  "inner \<Rightarrow> member list \<Rightarrow> layer list \<Rightarrow> nat \<Rightarrow> indexes \<Rightarrow> nat result \<times> indexes" where
  "head_loop db members [] folded ix = (Inr folded, ix)"
| "head_loop db members (layer # layers) folded ix =
     (let behind = filter (\<lambda>p. member_position p ix < ly_id layer) members in
      if behind = [] then head_loop db members layers folded ix
      else
        (case (if list_ex (\<lambda>p. member_wants p layer) behind then buffered_layer db layer else Inr []) of
           Inl err \<Rightarrow> (Inl err, ix)
         | Inr events \<Rightarrow> head_loop db members layers (folded + 1) (apply_members layer events behind ix)))"

definition bring_to_head :: "inner \<Rightarrow> layer list \<Rightarrow> member list \<Rightarrow> indexes \<Rightarrow> nat result \<times> indexes" where
  "bring_to_head db known members ix =
     head_loop db members (sort_key ly_id (filter (\<lambda>layer. ly_state layer = LCommitted) known)) 0 ix"

definition projections_committed ::
  "inner \<Rightarrow> layer \<Rightarrow> member list \<Rightarrow> indexes \<Rightarrow> unit result \<times> indexes" where
  "projections_committed db layer members ix =
     (case (if is_source layer \<and> list_ex (\<lambda>p. member_wants p layer) members
            then buffered_layer db layer else Inr []) of
        Inl err \<Rightarrow> (Inl err, ix)
      | Inr events \<Rightarrow> (Inr (), apply_members layer events members ix))"

section \<open>Positions\<close>

text \<open>
  The contract of a projection: folding a layer moves its position to the layer and never back, and
  leaves the positions of the others alone.
\<close>

locale projection =
  fixes position :: "'p \<Rightarrow> 's \<Rightarrow> layer_id"
    and fold_in :: "layer \<Rightarrow> event list \<Rightarrow> 'p \<Rightarrow> 's \<Rightarrow> 's"
  assumes position_self: "position p (fold_in layer events p s) = max (position p s) (ly_id layer)"
    and position_other: "p \<noteq> q \<Longrightarrow> position q (fold_in layer events p s) = position q s"
begin

lemma position_fold_in:
  "position q (fold_in layer events p s) = (if p = q then max (position q s) (ly_id layer) else position q s)"
  by (auto simp: position_self position_other)

lemma position_all:
  "position q (fold (fold_in layer events) ps s) =
     (if q \<in> set ps then max (position q s) (ly_id layer) else position q s)"
  by (induction ps arbitrary: s) (auto simp: position_fold_in max.assoc)

end

interpretation members: projection member_position member_apply
proof
  fix p q :: member and layer :: layer and events :: "event list" and ix :: indexes
  show "member_position p (member_apply layer events p ix) = max (member_position p ix) (ly_id layer)"
    by (cases p; cases "ly_author layer") (simp_all add: reached_def touch_apply_def touch_record_def Let_def)
  show "p \<noteq> q \<Longrightarrow> member_position q (member_apply layer events p ix) = member_position q ix"
    by (cases p; cases q) simp_all
qed

lemma head_loop_positions:
  "head_loop db ms layers k ix = (Inr n, ix') \<Longrightarrow> p \<in> set ms \<Longrightarrow>
     member_position p ix \<le> member_position p ix' \<and> (\<forall>layer \<in> set layers. ly_id layer \<le> member_position p ix')"
proof (induction db ms layers k ix rule: head_loop.induct)
  case (2 db ms layer layers k ix)
  let ?behind = "filter (\<lambda>p. member_position p ix < ly_id layer) ms"
  show ?case
  proof (cases "?behind = []")
    case True
    then have "ly_id layer \<le> member_position p ix"
      using "2.prems"(2) by (auto simp: filter_empty_conv not_less)
    with True "2.IH"(1) "2.prems" show ?thesis by (auto simp: Let_def)
  next
    case False
    then obtain events where ev: "(if list_ex (\<lambda>p. member_wants p layer) ?behind then buffered_layer db layer else Inr []) = Inr events"
      and r: "head_loop db ms layers (k + 1) (apply_members layer events ?behind ix) = (Inr n, ix')"
      using "2.prems"(1)
      by (cases "if list_ex (\<lambda>p. member_wants p layer) ?behind then buffered_layer db layer else Inr []")
         (simp_all add: Let_def)
    have pos: "member_position p (apply_members layer events ?behind ix) = max (member_position p ix) (ly_id layer)"
      using "2.prems"(2) by (auto simp: apply_members_def members.position_all max_def not_less)
    have "member_position p (apply_members layer events ?behind ix) \<le> member_position p ix' \<and>
        (\<forall>layer \<in> set layers. ly_id layer \<le> member_position p ix')"
      using "2.IH"(2)[OF refl False ev r] "2.prems"(2) by blast
    with pos show ?thesis by auto
  qed
qed simp

lemma head_loop_done:
  "\<forall>p \<in> set ms. \<forall>layer \<in> set layers. ly_id layer \<le> member_position p ix \<Longrightarrow>
   head_loop db ms layers k ix = (Inr k, ix)"
proof (induction layers)
  case (Cons layer layers)
  then have "filter (\<lambda>p. member_position p ix < ly_id layer) ms = []"
    by (auto simp: filter_empty_conv not_less)
  with Cons show ?case by (simp add: Let_def)
qed simp

section \<open>Live and rebuilt touch indexes\<close>

lemma touched_members:
  "touched (ix_touch (apply_members layer events ms ix)) b c =
     touched (ix_touch ix) b c \<union>
     (if TouchIndex \<in> set ms \<and> touch_wants layer \<and> b = ly_branch layer \<and> c \<in> ev_cell ` set events
      then {ly_id layer} else {})"
proof (induction ms arbitrary: ix)
  case (Cons p ms)
  have "touched (ix_touch (member_apply layer events p ix)) b c =
     touched (ix_touch ix) b c \<union>
     (if p = TouchIndex \<and> touch_wants layer \<and> b = ly_branch layer \<and> c \<in> ev_cell ` set events
      then {ly_id layer} else {})"
    by (cases p) (simp_all add: touched_apply)
  then show ?case using Cons.IH[of "member_apply layer events p ix"]
    by (auto simp: apply_members_def split: if_splits)
qed (simp add: apply_members_def)

text \<open>What the log says a layer wrote, when its events can be read.\<close>

definition layer_touches :: "inner \<Rightarrow> layer \<Rightarrow> branch_id \<Rightarrow> cell_ref \<Rightarrow> layer_id set" where
  "layer_touches db layer b c =
     (case buffered_layer db layer of
        Inl _ \<Rightarrow> {}
      | Inr events \<Rightarrow>
          if touch_wants layer \<and> b = ly_branch layer \<and> c \<in> ev_cell ` set events then {ly_id layer} else {})"

definition readable :: "inner \<Rightarrow> layer \<Rightarrow> bool" where
  "readable db layer = (case buffered_layer db layer of Inl _ \<Rightarrow> False | Inr _ \<Rightarrow> True)"

definition live_fold :: "inner \<Rightarrow> member list \<Rightarrow> layer list \<Rightarrow> indexes \<Rightarrow> indexes" where
  "live_fold db ms layers ix =
     fold (\<lambda>layer ix. snd (projections_committed db layer ms ix)) layers ix"

lemma wants_source: "touch_wants layer = is_source layer"
  by (simp add: touch_wants_def is_source_def)

lemma touched_committed:
  assumes "readable db layer" "TouchIndex \<in> set ms"
  shows "touched (ix_touch (snd (projections_committed db layer ms ix))) b c =
    touched (ix_touch ix) b c \<union> layer_touches db layer b c"
proof -
  obtain events where ev: "buffered_layer db layer = Inr events"
    using assms(1) by (auto simp: readable_def split: sum.splits)
  have "list_ex (\<lambda>p. member_wants p layer) ms" if "is_source layer"
    using that assms(2) by (auto simp: list_ex_iff wants_source intro!: bexI[of _ TouchIndex])
  then show ?thesis
    using assms(2) ev
    by (auto simp: projections_committed_def touched_members layer_touches_def wants_source)
qed

lemma touched_live:
  assumes "\<forall>layer \<in> set layers. readable db layer" "TouchIndex \<in> set ms"
  shows "touched (ix_touch (live_fold db ms layers ix)) b c =
    touched (ix_touch ix) b c \<union> (\<Union>layer \<in> set layers. layer_touches db layer b c)"
  using assms(1)
proof (induction layers arbitrary: ix)
  case (Cons layer layers)
  then show ?case
    using touched_committed[of db layer ms ix b c] assms(2) by (auto simp: live_fold_def)
qed (simp add: live_fold_def)

lemma touched_rebuilt:
  assumes "\<forall>layer \<in> set layers. readable db layer" "TouchIndex \<in> set ms"
    and "sorted_wrt (<) (map ly_id layers)" "\<forall>layer \<in> set layers. ti_position (ix_touch ix) < ly_id layer"
  shows "\<exists>n ix'. head_loop db ms layers k ix = (Inr n, ix') \<and>
    touched (ix_touch ix') b c = touched (ix_touch ix) b c \<union> (\<Union>layer \<in> set layers. layer_touches db layer b c)"
  using assms(1,3,4)
proof (induction layers arbitrary: ix k)
  case (Cons layer layers)
  let ?behind = "filter (\<lambda>p. member_position p ix < ly_id layer) ms"
  have T: "TouchIndex \<in> set ?behind" using assms(2) Cons.prems(3) by simp
  obtain events where ev: "buffered_layer db layer = Inr events"
    using Cons.prems(1) by (auto simp: readable_def split: sum.splits)
  define got where "got = (if list_ex (\<lambda>p. member_wants p layer) ?behind then events else [])"
  let ?ix = "apply_members layer got ?behind ix"
  have "got = events" if "touch_wants layer"
  proof -
    have "list_ex (\<lambda>p. member_wants p layer) ?behind"
      unfolding list_ex_iff using T that by (intro bexI[of _ TouchIndex]) simp_all
    then show ?thesis by (simp add: got_def)
  qed
  then have t: "touched (ix_touch ?ix) b c = touched (ix_touch ix) b c \<union> layer_touches db layer b c"
    using T ev by (auto simp: touched_members layer_touches_def)
  have "ti_position (ix_touch ?ix) = max (ti_position (ix_touch ix)) (ly_id layer)"
    using members.position_all[of TouchIndex layer got ?behind ix] T by (simp add: apply_members_def)
  then have "\<forall>l \<in> set layers. ti_position (ix_touch ?ix) < ly_id l"
    using Cons.prems(2,3) by auto
  then obtain n ix' where r: "head_loop db ms layers (k + 1) ?ix = (Inr n, ix')"
    "touched (ix_touch ix') b c = touched (ix_touch ?ix) b c \<union> (\<Union>layer \<in> set layers. layer_touches db layer b c)"
    using Cons.IH[of ?ix "k + 1"] Cons.prems(1,2) by auto
  have "head_loop db ms (layer # layers) k ix = head_loop db ms layers (k + 1) ?ix"
    using T ev by (auto simp: Let_def got_def filter_empty_conv)
  with r t show ?case by auto
qed simp

section \<open>Properties\<close>

text \<open>Bringing projections to the head of the log makes each of them current with every
  committed layer, never moving a position back, and doing it again folds nothing and changes
  nothing: a process that has been fed live pays no replay.\<close>

theorem bring_to_head_once:
  assumes "bring_to_head db known ms ix = (Inr n, ix')"
  shows "(\<forall>p \<in> set ms. member_position p ix \<le> member_position p ix' \<and>
      (\<forall>layer \<in> set known. ly_state layer = LCommitted \<longrightarrow> ly_id layer \<le> member_position p ix')) \<and>
    bring_to_head db known ms ix' = (Inr 0, ix')"
proof -
  let ?ls = "sort_key ly_id (filter (\<lambda>layer. ly_state layer = LCommitted) known)"
  have run: "head_loop db ms ?ls 0 ix = (Inr n, ix')" using assms by (simp add: bring_to_head_def)
  have pos: "member_position p ix \<le> member_position p ix' \<and> (\<forall>layer \<in> set ?ls. ly_id layer \<le> member_position p ix')"
    if "p \<in> set ms" for p
    by (rule head_loop_positions[OF run that])
  have "head_loop db ms ?ls 0 ix' = (Inr 0, ix')" by (rule head_loop_done) (use pos in auto)
  with pos show ?thesis by (auto simp: bring_to_head_def)
qed

text \<open>The two lifecycles agree: over the committed layers of a log, a touch index fed
  layer by layer in whatever order they committed and one rebuilt from zero in id order give every
  guard probe the same answer.\<close>

theorem live_equals_rebuilt:
  assumes "\<forall>layer \<in> set layers. readable db layer \<and> ly_state layer = LCommitted \<and> ly_id layer \<noteq> 0"
    and "distinct (map ly_id layers)" "TouchIndex \<in> set ms"
    and "set known = set layers" "distinct (map ly_id known)"
  shows "\<exists>n ix'. bring_to_head db known ms indexes_new = (Inr n, ix') \<and>
    first_touched_since (ix_touch ix') path cells since =
    first_touched_since (ix_touch (live_fold db ms layers indexes_new)) path cells since"
proof -
  let ?ls = "sort_key ly_id (filter (\<lambda>layer. ly_state layer = LCommitted) known)"
  have set: "set ?ls = set layers" using assms(1,4) by auto
  have "distinct (map ly_id ?ls)"
    using assms(5) by (auto simp: distinct_map intro: inj_on_subset)
  then have sorted: "sorted_wrt (<) (map ly_id ?ls)" by (simp add: strict_sorted_iff)
  have pos: "\<forall>layer \<in> set ?ls. ti_position (ix_touch indexes_new) < ly_id layer"
    using assms(1) set by (auto simp: indexes_new_def touch_new_def word_gt_0)
  have read: "\<forall>layer \<in> set ?ls. readable db layer" using assms(1) set by auto
  obtain n ix' where run: "head_loop db ms ?ls 0 indexes_new = (Inr n, ix')"
    using touched_rebuilt[OF read assms(3) sorted pos] by blast
  have "touched (ix_touch ix') b c = touched (ix_touch (live_fold db ms layers indexes_new)) b c" for b c
    using touched_rebuilt[OF read assms(3) sorted pos, of 0 b c] run
      touched_live[of layers db ms indexes_new b c] assms(1,3) set by simp
  then have "touch_lookup (ix_touch ix') path c since =
      touch_lookup (ix_touch (live_fold db ms layers indexes_new)) path c since" for c
    by (intro touch_lookup_eqI) (simp add: window_def)
  then have "first_touched_since (ix_touch ix') path cells since =
      first_touched_since (ix_touch (live_fold db ms layers indexes_new)) path cells since"
    by (induction cells) (auto split: option.splits)
  with run show ?thesis by (auto simp: bring_to_head_def)
qed

section \<open>Witnesses\<close>

definition all_members :: "member list" where
  "all_members = [TouchIndex, DependencyProjection, FrontierProjection]"

definition two_layers :: "layer list" where
  "two_layers = [sample_layer 9, sample_layer 5]"

lemma readable_new: "readable mem_new layer"
  by (simp add: readable_def buffered_layer_def read_layer_def mem_new_def)

lemma bring_to_head_once_witness:
  "\<exists>ix'. bring_to_head mem_new two_layers all_members ix' = (Inr 0, ix')"
proof -
  have "sort_key ly_id (filter (\<lambda>layer. ly_state layer = LCommitted) two_layers) = rev two_layers"
    by (simp add: two_layers_def sample_layer_def)
  moreover have "\<exists>n ix'. head_loop mem_new all_members (rev two_layers) 0 indexes_new = (Inr n, ix') \<and>
      touched (ix_touch ix') b c = touched (ix_touch indexes_new) b c \<union>
        (\<Union>layer \<in> set (rev two_layers). layer_touches mem_new layer b c)" for b c
    by (rule touched_rebuilt)
       (auto simp: readable_new all_members_def two_layers_def sample_layer_def indexes_new_def touch_new_def)
  then obtain n ix' where "head_loop mem_new all_members (rev two_layers) 0 indexes_new = (Inr n, ix')" by blast
  ultimately have "bring_to_head mem_new two_layers all_members indexes_new = (Inr n, ix')"
    by (simp add: bring_to_head_def)
  from bring_to_head_once[OF this] show ?thesis by blast
qed

lemma live_equals_rebuilt_witness:
  "\<exists>n ix'. bring_to_head mem_new (rev two_layers) all_members indexes_new = (Inr n, ix') \<and>
    first_touched_since (ix_touch ix') [(1, 9)] [guarded_cell] 3 =
    first_touched_since (ix_touch (live_fold mem_new all_members two_layers indexes_new))
      [(1, 9)] [guarded_cell] 3"
  by (rule live_equals_rebuilt)
     (auto simp: two_layers_def all_members_def readable_new sample_layer_def)

end
