(* ===== verification/Layer_Log.thy ===== *)
theory Layer_Log
  imports Projections
begin

text \<open>
  \<^verbatim>\<open>borg-engine/src/log.rs\<close>: the layer manager. The record \<open>manager\<close> holds the \<^verbatim>\<open>State\<close> behind
  its mutex together with what it shares: the storage provider, the sequencer's counter and the
  indexes that commits feed. A method that writes returns its result and the next manager. The
  \<^verbatim>\<open>loop\<close> of \<open>read_path\<close> need not end on a cyclic ancestry, so it is a partial function;
  \<open>RustPanic\<close> stands for not returning.
\<close>

section \<open>State\<close>

record manager =
  mg_db :: inner
  mg_next :: u64
  mg_indexes :: indexes
  mg_members :: "member list"
  mg_layers :: "(layer_id, layer) hmap"
  mg_heads :: "(branch_id, layer_id) hmap"
  mg_branches :: "(branch_id, branch) hmap"
  mg_def_layers :: "(branch_id, layer_id list) hmap"

definition manager_new :: "inner \<Rightarrow> u64 \<Rightarrow> indexes \<Rightarrow> manager" where
  "manager_new db next ix =
     \<lparr>mg_db = db, mg_next = next, mg_indexes = ix, mg_members = [TouchIndex], mg_layers = [],
      mg_heads = [], mg_branches = [], mg_def_layers = []\<rparr>"

definition with_projections :: "member list \<Rightarrow> manager \<Rightarrow> manager" where
  "with_projections members m = m\<lparr>mg_members := members\<rparr>"

section \<open>Lookups\<close>

definition lm_branches :: "manager \<Rightarrow> branch list" where
  "lm_branches m = map snd (mg_branches m)"

definition lm_branch :: "manager \<Rightarrow> branch_id \<Rightarrow> branch option" where
  "lm_branch m b = hm_get (mg_branches m) b"

definition lm_head :: "manager \<Rightarrow> branch_id \<Rightarrow> layer_id option" where
  "lm_head m b = hm_get (mg_heads m) b"

definition lm_layer :: "manager \<Rightarrow> layer_id \<Rightarrow> layer option" where
  "lm_layer m l = hm_get (mg_layers m) l"

definition author_of :: "manager \<Rightarrow> layer_id \<Rightarrow> layer_author option" where
  "author_of m l = (case hm_get (mg_layers m) l of None \<Rightarrow> None | Some layer \<Rightarrow> Some (ly_author layer))"

definition layers_of :: "manager \<Rightarrow> branch_id \<Rightarrow> layer list" where
  "layers_of m b =
     filter (\<lambda>layer. ly_branch layer = b \<and> ly_state layer = LCommitted) (map snd (mg_layers m))"

definition def_layers_of :: "manager \<Rightarrow> branch_id \<Rightarrow> layer_id \<Rightarrow> layer_id list" where
  "def_layers_of m b bound = sort (filter (\<lambda>l. l \<le> bound) (hm_get_or [] (mg_def_layers m) b))"

definition register_branch :: "branch \<Rightarrow> manager \<Rightarrow> manager" where
  "register_branch b m = m\<lparr>mg_branches := hm_insert (br_id b) b (mg_branches m)\<rparr>"

section \<open>Heads and restore\<close>

text \<open>\<^verbatim>\<open>entry(branch).or_insert(id)\<close>, raised when the id is higher.\<close>

definition raise_head :: "branch_id \<Rightarrow> layer_id \<Rightarrow> (branch_id, layer_id) hmap \<Rightarrow> (branch_id, layer_id) hmap" where
  "raise_head b l = hm_modify b l (\<lambda>head. if l > head then l else head)"

definition restore :: "layer \<Rightarrow> manager \<Rightarrow> manager" where
  "restore layer m =
     (let layer = (if ly_state layer \<noteq> LCommitted \<and> ly_state layer \<noteq> LAborted
                   then layer\<lparr>ly_state := LAborted\<rparr> else layer);
          heads = (if ly_state layer = LCommitted
                   then raise_head (ly_branch layer) (ly_id layer) (mg_heads m) else mg_heads m);
          defs = (if ly_state layer = LCommitted \<and> ly_kind layer = LKDef
                  then hm_modify (ly_branch layer) [] (\<lambda>ls. ls @ [ly_id layer]) (mg_def_layers m)
                  else mg_def_layers m)
      in m\<lparr>mg_heads := heads, mg_def_layers := defs,
           mg_layers := hm_insert (ly_id layer) layer (mg_layers m)\<rparr>)"

section \<open>The read path\<close>

definition origin_of :: "manager \<Rightarrow> branch_id \<Rightarrow> layer_id option" where
  "origin_of m b = (case lm_branch m b of None \<Rightarrow> None | Some branch \<Rightarrow> br_origin branch)"

text \<open>One turn of the loop: the branch's origin layer and the branch that layer belongs to.\<close>

definition parent_link :: "manager \<Rightarrow> branch_id \<Rightarrow> (layer_id \<times> branch_id) option" where
  "parent_link m b =
     (case origin_of m b of
        None \<Rightarrow> None
      | Some origin \<Rightarrow>
          (case lm_layer m origin of
             None \<Rightarrow> None
           | Some parent_layer \<Rightarrow> Some (origin, ly_branch parent_layer)))"

partial_function (option) read_path_loop ::
  "(branch_id \<Rightarrow> (layer_id \<times> branch_id) option) \<Rightarrow> layer_id option \<Rightarrow> branch_id \<Rightarrow> layer_id \<Rightarrow>
   read_path \<Rightarrow> read_path option" where
  "read_path_loop links requested current bound segments =
     (case links current of
        None \<Rightarrow> Some (segments @ [(current, bound)])
      | Some (origin, parent) \<Rightarrow>
          read_path_loop links requested parent
            (case requested of Some r \<Rightarrow> min r origin | None \<Rightarrow> origin)
            (segments @ [(current, bound)]))"

definition lm_read_path :: "manager \<Rightarrow> branch_id \<Rightarrow> layer_id option \<Rightarrow> read_path result" where
  "lm_read_path m b requested =
     (let bound = (case requested of Some r \<Rightarrow> r | None \<Rightarrow> (case lm_head m b of Some h \<Rightarrow> h | None \<Rightarrow> 0))
      in case read_path_loop (parent_link m) requested b bound [] of
           None \<Rightarrow> Inl (RustPanic ''read_path does not return'')
         | Some path \<Rightarrow> Inr path)"

section \<open>Guards\<close>

definition check_touched :: "manager \<Rightarrow> read_path \<Rightarrow> cell_ref list \<Rightarrow> layer_id \<Rightarrow> unit result" where
  "check_touched m path cells since =
     (case first_touched_since (ix_touch (mg_indexes m)) path cells since of
        Some (cell, mutated_at) \<Rightarrow> Inl (GuardViolated cell since mutated_at)
      | None \<Rightarrow> Inr ())"

definition check_reads :: "manager \<Rightarrow> branch_id \<Rightarrow> cell_ref list \<Rightarrow> layer_id \<Rightarrow> unit result" where
  "check_reads m b cells since =
     (case lm_read_path m b None of Inl err \<Rightarrow> Inl err | Inr path \<Rightarrow> check_touched m path cells since)"

definition touched_since :: "manager \<Rightarrow> branch_id \<Rightarrow> layer_id \<Rightarrow> bool result" where
  "touched_since m b since =
     (case lm_read_path m b None of
        Inl err \<Rightarrow> Inl err | Inr path \<Rightarrow> Inr (moved_since (ix_touch (mg_indexes m)) path since))"

fun derived_at :: "inner \<Rightarrow> read_path \<Rightarrow> cell_ref \<Rightarrow> def_version list \<Rightarrow> bool result" where
  "derived_at db path cell [] = Inr False"
| "derived_at db path cell (v # vs) =
     (case get_cell db path cell v of
        Inl err \<Rightarrow> Inl err
      | Inr found \<Rightarrow>
          (if (case found of None \<Rightarrow> False | Some ld \<Rightarrow> ev_origin (ld_event ld) = ODerived)
           then Inr True else derived_at db path cell vs))"

definition is_derived_anywhere :: "inner \<Rightarrow> read_path \<Rightarrow> cell_ref \<Rightarrow> bool result" where
  "is_derived_anywhere db path cell = derived_at db path cell (cell_versions db path cell)"

fun check_underived :: "inner \<Rightarrow> read_path \<Rightarrow> cell_ref list \<Rightarrow> unit result" where
  "check_underived db path [] = Inr ()"
| "check_underived db path (cell # cells) =
     (case is_derived_anywhere db path cell of
        Inl err \<Rightarrow> Inl err
      | Inr derived \<Rightarrow> if derived then Inl (GuardOnDerivedCell cell) else check_underived db path cells)"

fun check_guard_list :: "manager \<Rightarrow> read_path \<Rightarrow> guard list \<Rightarrow> layer_id option \<Rightarrow> unit result" where
  "check_guard_list m path [] since = Inr ()"
| "check_guard_list m path (g # gs) since =
     (case check_underived (mg_db m) path (gd_cells g) of
        Inl err \<Rightarrow> Inl err
      | Inr _ \<Rightarrow>
          (case check_touched m path (gd_cells g) (case since of Some s \<Rightarrow> s | None \<Rightarrow> gd_since g) of
             Inl err \<Rightarrow> Inl err
           | Inr _ \<Rightarrow> check_guard_list m path gs since))"

definition check_guards :: "manager \<Rightarrow> branch_id \<Rightarrow> guard list \<Rightarrow> layer_id option \<Rightarrow> unit result" where
  "check_guards m b guards since =
     (if guards = [] then Inr ()
      else case lm_read_path m b None of
             Inl err \<Rightarrow> Inl err | Inr path \<Rightarrow> check_guard_list m path guards since)"

section \<open>Ceilings\<close>

definition settled_layer :: "layer_id \<Rightarrow> layer \<Rightarrow> bool" where
  "settled_layer mark layer =
     (case ly_author layer of
        ASource \<Rightarrow> ly_id layer \<le> mark
      | ADerived _ reflects \<Rightarrow> reflects \<le> mark)"

fun ceiling_loop :: "layer_id \<Rightarrow> layer list \<Rightarrow> layer_id \<Rightarrow> layer_id" where
  "ceiling_loop mark [] found = found"
| "ceiling_loop mark (layer # layers) found =
     (if \<not> settled_layer mark layer then found
      else ceiling_loop mark layers (ly_id layer))"

definition settled_ceiling :: "manager \<Rightarrow> branch_id \<Rightarrow> layer_id \<Rightarrow> layer_id" where
  "settled_ceiling m b mark = ceiling_loop mark (sort_key ly_id (layers_of m b)) 0"

definition highest_source_layer :: "manager \<Rightarrow> read_path \<Rightarrow> layer_id option" where
  "highest_source_layer m path =
     (case map ly_id
             (filter (\<lambda>layer. list_ex (\<lambda>(b, bound). ly_branch layer = b \<and> ly_id layer \<le> bound) path)
               (filter (\<lambda>layer. ly_state layer = LCommitted \<and> is_source layer) (map snd (mg_layers m)))) of
        [] \<Rightarrow> None
      | l # ls \<Rightarrow> Some (fold max ls l))"

section \<open>The life of a layer\<close>

record handle =
  lh_layer :: layer

definition lh_id :: "handle \<Rightarrow> layer_id" where
  "lh_id h = ly_id (lh_layer h)"

definition add_guard :: "guard \<Rightarrow> handle \<Rightarrow> handle" where
  "add_guard g h = h\<lparr>lh_layer := (lh_layer h)\<lparr>ly_guards := ly_guards (lh_layer h) @ [g]\<rparr>\<rparr>"

text \<open>An operation of the storage provider, on the manager that shares it.\<close>

definition on_db :: "(inner \<Rightarrow> 'a result \<times> inner) \<Rightarrow> manager \<Rightarrow> 'a result \<times> manager" where
  "on_db f m = (case f (mg_db m) of (r, db) \<Rightarrow> (r, m\<lparr>mg_db := db\<rparr>))"

definition lm_put :: "handle \<Rightarrow> cell_ref \<Rightarrow> event_draft \<Rightarrow> manager \<Rightarrow> event_id result \<times> manager" where
  "lm_put h cell draft = on_db (author_event (lh_id h) cell draft)"

definition lm_include :: "handle \<Rightarrow> event_id \<Rightarrow> manager \<Rightarrow> unit result \<times> manager" where
  "lm_include h e = on_db (include_event (lh_id h) e)"

definition lm_put_def :: "handle \<Rightarrow> def_event \<Rightarrow> manager \<Rightarrow> unit result \<times> manager" where
  "lm_put_def h d m =
     (if ly_kind (lh_layer h) \<noteq> LKValue then on_db (mem_put_def (lh_id h) d) m
      else (Inl MixedLayerKind, m))"

definition lm_open :: "branch_id \<Rightarrow> layer_kind \<Rightarrow> layer_author \<Rightarrow> manager \<Rightarrow> handle result \<times> manager" where
  "lm_open b kind author m =
     (let (l, next) = next_layer_id (mg_next m);
          layer = \<lparr>ly_id = l, ly_branch = b, ly_kind = kind, ly_author = author, ly_state = LOpen,
                   ly_parent = lm_head m b, ly_guards = []\<rparr>;
          m = m\<lparr>mg_next := next, mg_layers := hm_insert l layer (mg_layers m)\<rparr>
      in case on_db (open_layer b l) m of
           (Inl err, m) \<Rightarrow> (Inl err, m)
         | (Inr _, m) \<Rightarrow> (Inr \<lparr>lh_layer = layer\<rparr>, m))"

definition transition :: "layer_id \<Rightarrow> layer_state \<Rightarrow> layer_state \<Rightarrow> manager \<Rightarrow> unit result \<times> manager" where
  "transition l expected next m =
     (case hm_get (mg_layers m) l of
        None \<Rightarrow> (Inl (StorageError (UnknownLayer l)), m)
      | Some layer \<Rightarrow>
          if ly_state layer \<noteq> expected
          then (Inl (LayerStateViolation l expected (ly_state layer)), m)
          else (Inr (), m\<lparr>mg_layers := hm_insert l (layer\<lparr>ly_state := next\<rparr>) (mg_layers m)\<rparr>))"

definition lm_abort :: "handle \<Rightarrow> manager \<Rightarrow> unit result \<times> manager" where
  "lm_abort h m =
     (case on_db (mem_abort (lh_id h)) m of
        (Inl err, m) \<Rightarrow> (Inl err, m)
      | (Inr _, m) \<Rightarrow> transition (lh_id h) LOpen LAborted m)"

definition store_guards :: "layer \<Rightarrow> manager \<Rightarrow> manager" where
  "store_guards layer m =
     (case hm_get (mg_layers m) (ly_id layer) of
        None \<Rightarrow> m
      | Some stored_layer \<Rightarrow>
          m\<lparr>mg_layers := hm_insert (ly_id layer) (stored_layer\<lparr>ly_guards := ly_guards layer\<rparr>) (mg_layers m)\<rparr>)"

text \<open>The block that moves the head and files a def layer.\<close>

definition land :: "layer \<Rightarrow> manager \<Rightarrow> manager" where
  "land layer m =
     m\<lparr>mg_heads := raise_head (ly_branch layer) (ly_id layer) (mg_heads m),
       mg_def_layers := (if ly_kind layer = LKDef
         then hm_modify (ly_branch layer) [] (\<lambda>ls. ls @ [ly_id layer]) (mg_def_layers m)
         else mg_def_layers m)\<rparr>"

definition feed_projections :: "layer \<Rightarrow> manager \<Rightarrow> unit result \<times> manager" where
  "feed_projections layer m =
     (case projections_committed (mg_db m) layer (mg_members m) (mg_indexes m) of
        (r, ix) \<Rightarrow> (r, m\<lparr>mg_indexes := ix\<rparr>))"

text \<open>From the passed guards on: seal, publish, land and feed.\<close>

definition publish :: "layer \<Rightarrow> manager \<Rightarrow> layer_id result \<times> manager" where
  "publish layer m =
     (let m = store_guards layer m in
      case on_db (mem_seal (ly_id layer)) m of
        (Inl err, m) \<Rightarrow> (Inl err, m)
      | (Inr sealed, m) \<Rightarrow>
          (let m = m\<lparr>mg_db := put_layer_meta (layer\<lparr>ly_state := LCommitted\<rparr>) (mg_db m)\<rparr> in
           case on_db (commit_layer sealed) m of
             (Inl err, m) \<Rightarrow> (Inl err, m)
           | (Inr _, m) \<Rightarrow>
               (case transition (ly_id layer) LSealed LCommitted m of
                  (Inl err, m) \<Rightarrow> (Inl err, m)
                | (Inr _, m) \<Rightarrow>
                    (case feed_projections (layer\<lparr>ly_state := LCommitted\<rparr>) (land layer m) of
                       (Inl err, m) \<Rightarrow> (Inl err, m)
                     | (Inr _, m) \<Rightarrow> (Inr (ly_id layer), m)))))"

definition lm_commit :: "handle \<Rightarrow> manager \<Rightarrow> layer_id result \<times> manager" where
  "lm_commit h m =
     (let layer = lh_layer h in
      case transition (ly_id layer) LOpen LSealed m of
        (Inl err, m) \<Rightarrow> (Inl err, m)
      | (Inr _, m) \<Rightarrow>
          (case check_guards m (ly_branch layer) (ly_guards layer) None of
             Inl violation \<Rightarrow>
               (case on_db (mem_abort (ly_id layer)) m of
                  (Inl err, m) \<Rightarrow> (Inl err, m)
                | (Inr _, m) \<Rightarrow>
                    (case transition (ly_id layer) LSealed LAborted m of
                       (Inl err, m) \<Rightarrow> (Inl err, m)
                     | (Inr _, m) \<Rightarrow> (Inl violation, m)))
           | Inr _ \<Rightarrow> publish layer m))"

end
