(* ===== verification/Layer_Contract.thy ===== *)
theory Layer_Contract
  imports Layer_Log Mem_Properties
begin

text \<open>
  The invariant that ties the layer manager to the provider and to the touch index, and its
  preservation by every step of a layer's life: the state of a layer says where its events are, the
  head is the highest committed layer, and the touch index is what the committed source layers wrote.
\<close>

section \<open>The invariant\<close>

definition layers_ok :: "manager \<Rightarrow> bool" where
  "layers_ok m \<longleftrightarrow> distinct (map fst (mg_layers m)) \<and>
     (\<forall>l layer. hm_get (mg_layers m) l = Some layer \<longrightarrow> ly_id layer = l \<and> l < mg_next m)"

definition sync_ok :: "manager \<Rightarrow> layer_id \<Rightarrow> bool" where
  "sync_ok m l \<longleftrightarrow>
     (case hm_get (mg_layers m) l of
        None \<Rightarrow> hm_get (in_staged (mg_db m)) l = None \<and> hm_get (in_members (mg_db m)) l = None
      | Some layer \<Rightarrow>
          (if ly_state layer = LOpen
           then \<exists>s. hm_get (in_staged (mg_db m)) l = Some s \<and> \<not> sl_sealed s \<and> sl_branch s = ly_branch layer
           else hm_get (in_staged (mg_db m)) l = None) \<and>
          (if ly_state layer = LCommitted
           then \<exists>x. hm_get (in_members (mg_db m)) l = Some x \<and> mb_branch x = ly_branch layer
           else hm_get (in_members (mg_db m)) l = None))"

definition committed_on :: "manager \<Rightarrow> branch_id \<Rightarrow> layer_id \<Rightarrow> bool" where
  "committed_on m b l \<longleftrightarrow>
     (\<exists>layer. hm_get (mg_layers m) l = Some layer \<and> ly_state layer = LCommitted \<and> ly_branch layer = b)"

definition heads_ok :: "manager \<Rightarrow> bool" where
  "heads_ok m \<longleftrightarrow>
     (\<forall>b. case lm_head m b of
            None \<Rightarrow> \<forall>l. \<not> committed_on m b l
          | Some h \<Rightarrow> committed_on m b h \<and> (\<forall>l. committed_on m b l \<longrightarrow> l \<le> h))"

text \<open>The layer is a member list of which some event wrote the cell.\<close>

definition writes_cell :: "inner \<Rightarrow> layer_id \<Rightarrow> cell_ref \<Rightarrow> bool" where
  "writes_cell db l c \<longleftrightarrow> (\<exists>e ev. e \<in> set (read_membership db l) \<and> stored db e = Some ev \<and> ev_cell ev = c)"

definition source_write :: "manager \<Rightarrow> branch_id \<Rightarrow> cell_ref \<Rightarrow> layer_id \<Rightarrow> bool" where
  "source_write m b c l \<longleftrightarrow>
     (\<exists>layer. hm_get (mg_layers m) l = Some layer \<and> ly_state layer = LCommitted \<and>
        ly_branch layer = b \<and> is_source layer \<and> writes_cell (mg_db m) l c)"

definition touch_ok :: "manager \<Rightarrow> bool" where
  "touch_ok m \<longleftrightarrow> TouchIndex \<in> set (mg_members m) \<and> touch_inv (ix_touch (mg_indexes m)) \<and>
     (\<forall>b c. touched (ix_touch (mg_indexes m)) b c = {l. source_write m b c l}) \<and>
     (\<forall>b h. hm_get (ti_highest (ix_touch (mg_indexes m))) b = Some h \<longrightarrow> committed_on m b h)"

definition mg_inv :: "manager \<Rightarrow> bool" where
  "mg_inv m \<longleftrightarrow> mem_inv (mg_db m) \<and> layers_ok m \<and> (\<forall>l. sync_ok m l) \<and> heads_ok m \<and> touch_ok m"

lemma mg_invD:
  assumes "mg_inv m"
  shows "mem_inv (mg_db m)" "layers_ok m" "sync_ok m l" "heads_ok m" "touch_ok m"
  using assms by (simp_all add: mg_inv_def)

lemma mg_invI:
  "mem_inv (mg_db m) \<Longrightarrow> layers_ok m \<Longrightarrow> (\<And>l. sync_ok m l) \<Longrightarrow> heads_ok m \<Longrightarrow> touch_ok m \<Longrightarrow> mg_inv m"
  by (simp add: mg_inv_def)

lemma mg_inv_new:
  "TouchIndex \<in> set members \<Longrightarrow>
   mg_inv (with_projections members (manager_new mem_new next indexes_new))"
  by (simp add: mg_inv_def with_projections_def manager_new_def mem_inv_new layers_ok_def sync_ok_def
      heads_ok_def lm_head_def committed_on_def touch_ok_def indexes_new_def touch_new_def[symmetric]
      source_write_def mem_new_def[symmetric])
     (simp add: mem_new_def touch_new_def)

lemma heads_ok_cong:
  "committed_on n = committed_on m \<Longrightarrow> lm_head n = lm_head m \<Longrightarrow> heads_ok n = heads_ok m"
  by (simp only: heads_ok_def)

lemma committed_on_cong: "mg_layers n = mg_layers m \<Longrightarrow> committed_on n = committed_on m"
  by (intro ext) (simp add: committed_on_def)

section \<open>Steps that only touch an open layer\<close>

definition same_open :: "inner \<Rightarrow> inner \<Rightarrow> bool" where
  "same_open i j \<longleftrightarrow>
     (\<forall>l. map_option (\<lambda>s. (sl_branch s, sl_sealed s)) (hm_get (in_staged j) l) =
          map_option (\<lambda>s. (sl_branch s, sl_sealed s)) (hm_get (in_staged i) l))"

lemma same_open_put:
  "hm_get (in_staged i) l = Some s \<Longrightarrow> sl_branch s' = sl_branch s \<Longrightarrow> sl_sealed s' = sl_sealed s \<Longrightarrow>
   same_open i (put_staged l s' (i\<lparr>in_next_event := n\<rparr>))"
  by (auto simp: same_open_def put_staged_def)

lemma same_open_refl [simp]: "same_open i (i\<lparr>in_next_event := n\<rparr>)" "same_open i i"
  by (simp_all add: same_open_def)

lemma writes_cell_same: "same_log i j \<Longrightarrow> writes_cell j l c = writes_cell i l c"
  by (simp add: writes_cell_def read_membership_def stored_def same_log_def)

lemma same_open_None: "same_open i j \<Longrightarrow> hm_get (in_staged j) l = None \<longleftrightarrow> hm_get (in_staged i) l = None"
  unfolding same_open_def by (drule spec[of _ l]) (cases "hm_get (in_staged j) l"; cases "hm_get (in_staged i) l"; simp)

lemma same_open_Some:
  "same_open i j \<Longrightarrow> hm_get (in_staged i) l = Some s \<Longrightarrow>
   \<exists>s'. hm_get (in_staged j) l = Some s' \<and> sl_branch s' = sl_branch s \<and> sl_sealed s' = sl_sealed s"
  unfolding same_open_def by (drule spec[of _ l]) (cases "hm_get (in_staged j) l"; simp)

lemma mg_inv_db:
  assumes inv: "mg_inv m" and "mem_inv db" and log: "same_log (mg_db m) db" and opn: "same_open (mg_db m) db"
  shows "mg_inv (m\<lparr>mg_db := db\<rparr>)"
proof -
  have mem: "in_members db = in_members (mg_db m)" using log by (simp add: same_log_def)
  have "sync_ok (m\<lparr>mg_db := db\<rparr>) l" for l
    using mg_invD(3)[OF inv, of l] same_open_None[OF opn, of l] same_open_Some[OF opn, of l]
    by (auto simp: sync_ok_def mem split: option.splits if_splits)
  moreover have "touch_ok (m\<lparr>mg_db := db\<rparr>)"
    using mg_invD(5)[OF inv] by (simp add: touch_ok_def source_write_def committed_on_def writes_cell_same[OF log])
  moreover have "layers_ok (m\<lparr>mg_db := db\<rparr>)"
    using mg_invD(2)[OF inv] by (simp add: layers_ok_def)
  moreover have "heads_ok (m\<lparr>mg_db := db\<rparr>) = heads_ok m"
    by (rule heads_ok_cong, rule committed_on_cong) (simp_all add: lm_head_def fun_eq_iff)
  ultimately show ?thesis using assms(2) mg_invD(4)[OF inv] by (simp add: mg_inv_def)
qed

lemma author_open: "same_open i (snd (author_event l cell draft i))"
  by (auto simp: author_event_def mint_def staged_Inr split: sum.split intro!: same_open_put)

lemma include_open: "same_open i (snd (include_event l e i))"
  using same_open_put[of i l _ _ "in_next_event i"]
  by (auto simp: include_event_def staged_Inr split: sum.split)

lemma put_def_open: "same_open i (snd (mem_put_def l d i))"
  using same_open_put[of i l _ _ "in_next_event i"]
  by (auto simp: mem_put_def_def staged_Inr split: sum.split)

lemma on_db_snd: "snd (on_db f m) = m\<lparr>mg_db := snd (f (mg_db m))\<rparr>"
  by (simp add: on_db_def case_prod_unfold)

lemma mg_inv_put: "mg_inv m \<Longrightarrow> mg_inv (snd (lm_put h cell draft m))"
  unfolding lm_put_def on_db_snd
  by (intro mg_inv_db mem_inv_author staged_ops_log author_open) (simp_all add: mg_invD)

lemma mg_inv_include: "mg_inv m \<Longrightarrow> mg_inv (snd (lm_include h e m))"
  unfolding lm_include_def on_db_snd
  by (intro mg_inv_db mem_inv_include staged_ops_log include_open) (simp_all add: mg_invD)

lemma mg_inv_put_def: "mg_inv m \<Longrightarrow> mg_inv (snd (lm_put_def h d m))"
proof -
  assume inv: "mg_inv m"
  have "mg_inv (snd (on_db (mem_put_def (lh_id h) d) m))"
    unfolding on_db_snd using inv
    by (intro mg_inv_db mem_inv_put_def staged_ops_log put_def_open) (simp_all add: mg_invD)
  with inv show ?thesis by (simp add: lm_put_def_def)
qed

lemma mg_inv_cong:
  assumes "mg_db n = mg_db m" "mg_next n = mg_next m" "mg_indexes n = mg_indexes m"
    "mg_members n = mg_members m" "mg_layers n = mg_layers m" "mg_heads n = mg_heads m"
  shows "mg_inv n = mg_inv m"
proof -
  have "committed_on n = committed_on m" "source_write n = source_write m" "lm_head n = lm_head m"
    by (intro ext; simp add: committed_on_def source_write_def lm_head_def assms)+
  moreover have "sync_ok n = sync_ok m" by (intro ext) (simp only: sync_ok_def assms)
  ultimately show ?thesis
    by (simp only: mg_inv_def layers_ok_def heads_ok_def touch_ok_def assms)
qed

lemma mg_inv_register: "mg_inv m \<Longrightarrow> mg_inv (register_branch b m)"
  using mg_inv_cong[of "register_branch b m" m] by (simp add: register_branch_def)

lemma layers_okD: "layers_ok m \<Longrightarrow> hm_get (mg_layers m) l = Some layer \<Longrightarrow> ly_id layer = l \<and> l < mg_next m"
  unfolding layers_ok_def by blast

lemma next_unused: "mg_inv m \<Longrightarrow> hm_get (mg_layers m) (mg_next m) = None"
  by (cases "hm_get (mg_layers m) (mg_next m)") (auto dest: layers_okD[OF mg_invD(2)])

section \<open>Opening\<close>

lemma lm_open_cases:
  assumes inv: "mg_inv m" and next_id: "mg_next m \<noteq> - 1"
    and layer: "layer = \<lparr>ly_id = mg_next m, ly_branch = b, ly_kind = kind, ly_author = author,
      ly_state = LOpen, ly_parent = lm_head m b, ly_guards = []\<rparr>"
    and staged: "new = \<lparr>sl_branch = b, sl_members = [], sl_authored = [], sl_defs = [], sl_sealed = False\<rparr>"
  shows "lm_open b kind author m =
    (Inr \<lparr>lh_layer = layer\<rparr>,
     m\<lparr>mg_next := mg_next m + 1, mg_layers := hm_insert (mg_next m) layer (mg_layers m),
       mg_db := put_staged (mg_next m) new (mg_db m)\<rparr>)"
proof -
  have "hm_get (mg_layers m) (mg_next m) = None" using inv by (rule next_unused)
  then have "hm_get (in_staged (mg_db m)) (mg_next m) = None" "hm_get (in_members (mg_db m)) (mg_next m) = None"
    using mg_invD(3)[OF inv, of "mg_next m"] by (simp_all add: sync_ok_def)
  then show ?thesis
    by (simp add: lm_open_def next_layer_id_def on_db_def open_layer_def Let_def layer staged)
qed

lemma mg_inv_open:
  assumes inv: "mg_inv m" and "mg_next m \<noteq> - 1"
  shows "mg_inv (snd (lm_open b kind author m))"
proof -
  let ?l = "mg_next m"
  let ?layer = "\<lparr>ly_id = ?l, ly_branch = b, ly_kind = kind, ly_author = author,
      ly_state = LOpen, ly_parent = lm_head m b, ly_guards = []\<rparr>"
  let ?new = "\<lparr>sl_branch = b, sl_members = [], sl_authored = [], sl_defs = [], sl_sealed = False\<rparr>"
  let ?m = "m\<lparr>mg_next := ?l + 1, mg_layers := hm_insert ?l ?layer (mg_layers m),
       mg_db := put_staged ?l ?new (mg_db m)\<rparr>"
  have m: "snd (lm_open b kind author m) = ?m" using lm_open_cases[OF assms refl refl] by simp
  have none: "hm_get (mg_layers m) ?l = None" using inv by (rule next_unused)
  then have none': "hm_get (in_staged (mg_db m)) ?l = None" "hm_get (in_members (mg_db m)) ?l = None"
    using mg_invD(3)[OF inv, of ?l] by (simp_all add: sync_ok_def)
  have lt: "?l < ?l + 1" using assms(2) by (rule less_next)
  have com: "committed_on ?m b' k = committed_on m b' k" for b' k
    using none by (auto simp: committed_on_def)
  have log: "same_log (mg_db m) (put_staged ?l ?new (mg_db m))" by (simp add: same_log_def put_staged_def)
  have src: "source_write ?m b' c k = source_write m b' c k" for b' c k
    using none by (auto simp: source_write_def writes_cell_same[OF log])
  have "mem_inv (put_staged ?l ?new (mg_db m))"
    using mem_inv_open[OF mg_invD(1)[OF inv], of b ?l] none' by (simp add: open_layer_def)
  moreover have "layers_ok ?m"
    unfolding layers_ok_def
  proof (intro conjI allI impI)
    show "distinct (map fst (mg_layers ?m))"
      using mg_invD(2)[OF inv] by (simp add: layers_ok_def distinct_update)
    fix k layer assume "hm_get (mg_layers ?m) k = Some layer"
    then consider "k = ?l" "layer = ?layer" | "hm_get (mg_layers m) k = Some layer"
      by (cases "k = ?l") simp_all
    then have "ly_id layer = k \<and> k < mg_next ?m"
    proof cases
      case 1
      then show ?thesis using lt by simp
    next
      case 2
      from layers_okD[OF mg_invD(2)[OF inv] this] lt show ?thesis by (auto intro: less_trans)
    qed
    then show "ly_id layer = k" "k < mg_next ?m" by blast+
  qed
  moreover have "sync_ok ?m k" for k
    using mg_invD(3)[OF inv, of k] none' by (auto simp: sync_ok_def put_staged_def split: option.splits if_splits)
  moreover have "committed_on ?m = committed_on m" by (intro ext) (rule com)
  then have "heads_ok ?m" using mg_invD(4)[OF inv] heads_ok_cong[of ?m m] by (simp add: lm_head_def fun_eq_iff)
  moreover have "touch_ok ?m" using mg_invD(5)[OF inv] unfolding touch_ok_def com src by simp
  ultimately show ?thesis unfolding m by (intro mg_invI) simp_all
qed

section \<open>Leaving the open state\<close>

text \<open>A layer that leaves the open state without being published: its staging area goes.\<close>

lemma mg_inv_drop:
  assumes inv: "mg_inv m" and layer: "hm_get (mg_layers m) l = Some layer" and "ly_state layer = LOpen"
    and "ly_id layer' = l" "ly_state layer' = LAborted"
    and layers: "hm_get (mg_layers n) = (hm_get (mg_layers m))(l \<mapsto> layer')" "distinct (map fst (mg_layers n))"
    and db: "mg_db n = snd (mem_abort l (mg_db m))"
    and rest: "mg_next n = mg_next m" "mg_indexes n = mg_indexes m" "mg_members n = mg_members m"
      "mg_heads n = mg_heads m"
  shows "mg_inv n"
proof (rule mg_invI)
  have log: "same_log (mg_db m) (mg_db n)" unfolding db by (rule staged_ops_log)
  have com: "committed_on n = committed_on m"
    using layer assms(3,5) by (intro ext) (auto simp: committed_on_def layers)
  have src: "source_write n b c k = source_write m b c k" for b c k
    using layer assms(3,5) by (auto simp: source_write_def layers writes_cell_same[OF log])
  show "mem_inv (mg_db n)" unfolding db by (rule mem_inv_abort[OF mg_invD(1)[OF inv]])
  show "layers_ok n"
    unfolding layers_ok_def layers rest
    using layers(2) layers_okD[OF mg_invD(2)[OF inv] layer] layers_okD[OF mg_invD(2)[OF inv]] assms(4)
    by (auto split: if_splits)
  have st: "hm_get (in_staged (mg_db n)) = (hm_get (in_staged (mg_db m)))(l := None)"
    "in_members (mg_db n) = in_members (mg_db m)" unfolding db by (simp_all add: mem_abort_def)
  show "sync_ok n k" for k
    using mg_invD(3)[OF inv, of k] layer assms(3,5)
    unfolding sync_ok_def layers st
    by (cases "k = l") (auto split: option.splits if_splits)
  show "heads_ok n" using mg_invD(4)[OF inv] heads_ok_cong[OF com] rest by (simp add: lm_head_def fun_eq_iff)
  show "touch_ok n" using mg_invD(5)[OF inv] unfolding touch_ok_def com src rest .
qed

text \<open>What the fields of a handle must agree with; the source's handle is created by \<open>open\<close> with a
  copy of the layer it stores, and only its guards change.\<close>

definition handle_ok :: "manager \<Rightarrow> handle \<Rightarrow> bool" where
  "handle_ok m h \<longleftrightarrow>
     (\<exists>layer. hm_get (mg_layers m) (lh_id h) = Some layer \<and> ly_branch layer = ly_branch (lh_layer h) \<and>
        ly_kind layer = ly_kind (lh_layer h) \<and> ly_author layer = ly_author (lh_layer h) \<and>
        ly_parent layer = ly_parent (lh_layer h))"

lemma transition_ok:
  "hm_get (mg_layers m) l = Some layer \<Longrightarrow> ly_state layer = st \<Longrightarrow>
   transition l st st' m =
     (Inr (), m\<lparr>mg_layers := hm_insert l (layer\<lparr>ly_state := st'\<rparr>) (mg_layers m)\<rparr>)"
  by (simp add: transition_def)

lemma hm_insert_insert [simp]: "hm_insert k v (hm_insert k w m) = hm_insert k v m"
  by (induction m) auto

lemma abort_outcome:
  assumes "mg_inv m" and layer: "hm_get (mg_layers m) (lh_id h) = Some layer" "ly_state layer = LOpen"
  shows "lm_abort h m =
    (Inr (), m\<lparr>mg_db := snd (mem_abort (lh_id h) (mg_db m)),
       mg_layers := hm_insert (lh_id h) (layer\<lparr>ly_state := LAborted\<rparr>) (mg_layers m)\<rparr>)"
  using layer by (simp add: lm_abort_def on_db_def mem_abort_def transition_ok)

lemma distinct_layers: "mg_inv m \<Longrightarrow> distinct (map fst (hm_insert l layer (mg_layers m)))"
  using mg_invD(2) by (auto simp: layers_ok_def intro: hm_distinct_insert)

text \<open>Guards are checked against the indexes, the heads, the branches and the committed layers, none
  of which the sealing transition changes.\<close>

definition same_view :: "manager \<Rightarrow> manager \<Rightarrow> bool" where
  "same_view m n \<longleftrightarrow> mg_db n = mg_db m \<and> mg_indexes n = mg_indexes m \<and> mg_heads n = mg_heads m \<and>
     mg_branches n = mg_branches m \<and>
     (\<forall>l. map_option ly_branch (lm_layer n l) = map_option ly_branch (lm_layer m l))"

lemma parent_link_alt:
  "parent_link m b =
     Option.bind (origin_of m b) (\<lambda>l. map_option (Pair l) (map_option ly_branch (lm_layer m l)))"
  by (auto simp: parent_link_def split: option.splits)

lemma parent_link_same: "same_view m n \<Longrightarrow> parent_link n = parent_link m"
proof
  fix b assume v: "same_view m n"
  have o: "origin_of n b = origin_of m b"
    using v by (simp add: origin_of_def lm_branch_def same_view_def)
  have l: "map_option ly_branch (lm_layer n k) = map_option ly_branch (lm_layer m k)" for k
    using v by (simp add: same_view_def)
  show "parent_link n b = parent_link m b" by (simp only: parent_link_alt o l)
qed

lemma lm_read_path_same: "same_view m n \<Longrightarrow> lm_read_path n b req = lm_read_path m b req"
proof -
  assume v: "same_view m n"
  then have "lm_head n = lm_head m" by (simp add: fun_eq_iff lm_head_def same_view_def)
  with parent_link_same[OF v] show ?thesis by (simp only: lm_read_path_def)
qed

lemma check_guard_list_same: "same_view m n \<Longrightarrow> check_guard_list n path gs since = check_guard_list m path gs since"
proof (induction gs)
  case (Cons g gs)
  then have "check_touched n = check_touched m" "mg_db n = mg_db m"
    by (simp_all add: fun_eq_iff check_touched_def same_view_def)
  with Cons show ?case by (simp only: check_guard_list.simps)
qed simp

lemma check_guards_same: "same_view m n \<Longrightarrow> check_guards n b gs since = check_guards m b gs since"
  unfolding check_guards_def lm_read_path_same by (simp only: check_guard_list_same)

end
