(* ===== verification/Layer_Commit.thy ===== *)
theory Layer_Commit
  imports Layer_Contract
begin

text \<open>
  Commit, in a manager that satisfies its invariant: the two outcomes a layer can have (its guards
  fail and it leaves no trace, or it is published), and the invariant of every reachable manager.
\<close>

section \<open>Indexes under a commit\<close>

lemma collect_rows_ok:
  "\<forall>e \<in> set es. stored db e \<noteq> None \<Longrightarrow>
   collect_rows (map (event_of db) es) = Inr (map (\<lambda>e. the (stored db e)) es)"
  by (induction es) (auto simp: event_of_def)

definition events_of :: "inner \<Rightarrow> layer_id \<Rightarrow> event list" where
  "events_of db l = map (\<lambda>e. the (stored db e)) (read_membership db l)"

lemma buffered_ok: "mem_inv db \<Longrightarrow> buffered_layer db layer = Inr (events_of db (ly_id layer))"
proof -
  assume inv: "mem_inv db"
  show ?thesis
  proof (cases "hm_get (in_members db) (ly_id layer)")
    case None
    then show ?thesis by (simp add: buffered_layer_def read_layer_def read_membership_def events_of_def)
  next
    case (Some x)
    then have "\<forall>e \<in> set (mb_events x). stored db e \<noteq> None"
      using mem_invD(3)[OF inv] unfolding members_ok_def by blast
    from collect_rows_ok[OF this] Some show ?thesis
      by (simp add: buffered_layer_def read_layer_def read_membership_def events_of_def)
  qed
qed

lemma events_cells:
  assumes "mem_inv db"
  shows "c \<in> ev_cell ` set (events_of db l) \<longleftrightarrow> writes_cell db l c"
proof -
  have "stored db e \<noteq> None" if "e \<in> set (read_membership db l)" for e
    using that mem_invD(3)[OF assms] unfolding members_ok_def read_membership_def
    by (cases "hm_get (in_members db) l") auto
  then have "\<exists>ev. stored db e = Some ev" if "e \<in> set (read_membership db l)" for e using that by auto
  then have "writes_cell db l c" if "c \<in> ev_cell ` set (events_of db l)"
  proof -
    from that obtain e where "e \<in> set (read_membership db l)" "c = ev_cell (the (stored db e))"
      unfolding events_of_def by auto
    moreover from this(1) obtain ev where "stored db e = Some ev"
      using \<open>\<And>e. e \<in> set (read_membership db l) \<Longrightarrow> \<exists>ev. stored db e = Some ev\<close> by blast
    ultimately show ?thesis unfolding writes_cell_def by auto
  qed
  moreover have "c \<in> ev_cell ` set (events_of db l)" if "writes_cell db l c"
  proof -
    from that obtain e ev where e: "e \<in> set (read_membership db l)" "stored db e = Some ev" "ev_cell ev = c"
      unfolding writes_cell_def by blast
    then have "ev \<in> set (events_of db l)" unfolding events_of_def by (auto intro!: rev_image_eqI[OF e(1)])
    with e(3) show ?thesis by blast
  qed
  ultimately show ?thesis by blast
qed

definition commit_events :: "inner \<Rightarrow> layer \<Rightarrow> member list \<Rightarrow> event list" where
  "commit_events db layer ms =
     (if is_source layer \<and> list_ex (\<lambda>p. member_wants p layer) ms then events_of db (ly_id layer) else [])"

lemma projections_committed_ok:
  "mem_inv db \<Longrightarrow> projections_committed db layer ms ix =
     (Inr (), apply_members layer (commit_events db layer ms) ms ix)"
  by (simp add: projections_committed_def commit_events_def buffered_ok)

lemma touch_inv_members: "touch_inv (ix_touch ix) \<Longrightarrow> touch_inv (ix_touch (apply_members layer events ms ix))"
proof (induction ms arbitrary: ix)
  case (Cons p ms)
  then show ?case by (cases p) (simp_all add: apply_members_def touch_inv_apply)
qed (simp add: apply_members_def)

lemma highest_apply:
  "hm_get (ti_highest (touch_apply layer events ti)) b = Some h \<Longrightarrow>
   hm_get (ti_highest ti) b = Some h \<or> (b = ly_branch layer \<and> h = ly_id layer)"
  by (cases "hm_get (ti_highest ti) (ly_branch layer)")
     (auto simp: touch_apply_def touch_record_def hm_get_modify Let_def split: layer_author.splits if_splits)

lemma highest_members:
  "hm_get (ti_highest (ix_touch (apply_members layer events ms ix))) b = Some h \<Longrightarrow>
   hm_get (ti_highest (ix_touch ix)) b = Some h \<or> (b = ly_branch layer \<and> h = ly_id layer)"
proof (induction ms arbitrary: ix)
  case (Cons p ms)
  have "hm_get (ti_highest (ix_touch (member_apply layer events p ix))) b = Some h \<Longrightarrow>
      hm_get (ti_highest (ix_touch ix)) b = Some h \<or> (b = ly_branch layer \<and> h = ly_id layer)"
    by (cases p) (auto dest: highest_apply)
  with Cons.IH[of "member_apply layer events p ix"] Cons.prems show ?case by (auto simp: apply_members_def)
qed (simp add: apply_members_def)

section \<open>The outcomes of a commit\<close>

definition committed_layer :: "handle \<Rightarrow> layer \<Rightarrow> layer" where
  "committed_layer h layer = layer\<lparr>ly_guards := ly_guards (lh_layer h), ly_state := LCommitted\<rparr>"

text \<open>The provider after a commit: the layer sealed, its metadata written, and made visible.\<close>

definition commit_db :: "handle \<Rightarrow> staged_layer \<Rightarrow> inner \<Rightarrow> inner" where
  "commit_db h s db =
     snd (commit_layer (lh_id h)
       (put_layer_meta ((lh_layer h)\<lparr>ly_state := LCommitted\<rparr>)
         (put_staged (lh_id h) (s\<lparr>sl_sealed := True\<rparr>) db)))"

definition commit_manager :: "handle \<Rightarrow> layer \<Rightarrow> staged_layer \<Rightarrow> manager \<Rightarrow> manager" where
  "commit_manager h layer s m =
     (let db = commit_db h s (mg_db m); lay = (lh_layer h)\<lparr>ly_state := LCommitted\<rparr> in
      m\<lparr>mg_db := db,
        mg_layers := hm_insert (lh_id h) (committed_layer h layer) (mg_layers m),
        mg_heads := raise_head (ly_branch (lh_layer h)) (lh_id h) (mg_heads m),
        mg_def_layers := (if ly_kind (lh_layer h) = LKDef
          then hm_modify (ly_branch (lh_layer h)) [] (\<lambda>ls. ls @ [lh_id h]) (mg_def_layers m)
          else mg_def_layers m),
        mg_indexes := apply_members lay (commit_events db lay (mg_members m)) (mg_members m) (mg_indexes m)\<rparr>)"

lemma commit_db_facts:
  assumes inv: "mem_inv db" and s: "hm_get (in_staged db) (lh_id h) = Some s"
  shows "fst (commit_layer (lh_id h) (put_layer_meta ((lh_layer h)\<lparr>ly_state := LCommitted\<rparr>)
         (put_staged (lh_id h) (s\<lparr>sl_sealed := True\<rparr>) db))) = Inr ()"
    and "mem_inv (commit_db h s db)"
    and "hm_get (in_staged (commit_db h s db)) = (hm_get (in_staged db))(lh_id h := None)"
    and "hm_get (in_members (commit_db h s db)) =
      (hm_get (in_members db))(lh_id h \<mapsto> \<lparr>mb_branch = sl_branch s, mb_events = sl_members s\<rparr>)"
    and "stored db e = Some ev \<Longrightarrow> stored (commit_db h s db) e = Some ev"
proof -
  let ?s = "s\<lparr>sl_sealed := True\<rparr>"
  let ?db1 = "put_staged (lh_id h) ?s db"
  let ?db = "put_layer_meta ((lh_layer h)\<lparr>ly_state := LCommitted\<rparr>) ?db1"
  have 1: "mem_inv ?db1" using mem_inv_seal[OF inv, of "lh_id h"] s by (simp add: mem_seal_def)
  have 2: "mem_inv ?db" by (rule mem_inv_step[OF mem_step.Meta 1])
  have s2: "hm_get (in_staged ?db) (lh_id h) = Some ?s" "sl_sealed ?s"
    by (simp_all add: put_layer_meta_def put_staged_def)
  obtain events reads where c: "commit_layer (lh_id h) ?db = (Inr (), committed_state ?db (lh_id h) ?s events reads)"
    by (rule commit_cases[OF 2 s2]) (rule that)
  show "fst (commit_layer (lh_id h) ?db) = Inr ()" by (simp add: c)
  show "mem_inv (commit_db h s db)" unfolding commit_db_def by (rule mem_inv_commit[OF 2])
  show "hm_get (in_staged (commit_db h s db)) = (hm_get (in_staged db))(lh_id h := None)"
    "hm_get (in_members (commit_db h s db)) =
      (hm_get (in_members db))(lh_id h \<mapsto> \<lparr>mb_branch = sl_branch s, mb_events = sl_members s\<rparr>)"
    unfolding commit_db_def c by (simp_all add: put_layer_meta_def put_staged_def)
  show "stored db e = Some ev \<Longrightarrow> stored (commit_db h s db) e = Some ev"
    unfolding commit_db_def
    by (rule commit_keeps(1)[OF 2]) (simp add: stored_def put_layer_meta_def put_staged_def)
qed

lemma open_staged:
  assumes "mg_inv m" "hm_get (mg_layers m) l = Some layer" "ly_state layer = LOpen"
  shows "\<exists>s. hm_get (in_staged (mg_db m)) l = Some s \<and> \<not> sl_sealed s \<and> sl_branch s = ly_branch layer"
  using mg_invD(3)[OF assms(1), of l] assms(2,3) by (simp add: sync_ok_def)

lemma commit_rejected:
  assumes inv: "mg_inv m" and layer: "hm_get (mg_layers m) (lh_id h) = Some layer" "ly_state layer = LOpen"
    and guards: "check_guards m (ly_branch (lh_layer h)) (ly_guards (lh_layer h)) None = Inl violation"
  shows "lm_commit h m = (Inl violation, m\<lparr>mg_db := snd (mem_abort (lh_id h) (mg_db m)),
       mg_layers := hm_insert (lh_id h) (layer\<lparr>ly_state := LAborted\<rparr>) (mg_layers m)\<rparr>)"
proof -
  let ?m = "m\<lparr>mg_layers := hm_insert (lh_id h) (layer\<lparr>ly_state := LSealed\<rparr>) (mg_layers m)\<rparr>"
  have view: "same_view m ?m" using layer by (simp add: same_view_def lm_layer_def)
  have id: "ly_id (lh_layer h) = lh_id h" by (simp add: lh_id_def)
  have t: "transition (lh_id h) LOpen LSealed m = (Inr (), ?m)" using layer by (simp add: transition_ok)
  show ?thesis
    unfolding lm_commit_def Let_def id t
    by (simp add: check_guards_same[OF view] guards on_db_def mem_abort_def transition_def)
qed

lemma commit_accepted:
  assumes inv: "mg_inv m" and layer: "hm_get (mg_layers m) (lh_id h) = Some layer" "ly_state layer = LOpen"
    and s: "hm_get (in_staged (mg_db m)) (lh_id h) = Some s"
    and guards: "check_guards m (ly_branch (lh_layer h)) (ly_guards (lh_layer h)) None = Inr ()"
  shows "lm_commit h m = (Inr (lh_id h), commit_manager h layer s m)"
proof -
  let ?l = "lh_id h" and ?sealed = "layer\<lparr>ly_state := LSealed\<rparr>"
  let ?m = "m\<lparr>mg_layers := hm_insert ?l ?sealed (mg_layers m)\<rparr>"
  have view: "same_view m ?m" using layer by (simp add: same_view_def lm_layer_def)
  have id: "ly_id (lh_layer h) = ?l" by (simp add: lh_id_def)
  have t: "transition ?l LOpen LSealed m = (Inr (), ?m)" using layer by (simp add: transition_ok)
  note db = commit_db_facts[OF mg_invD(1)[OF inv] s]
  let ?db2 = "put_layer_meta ((lh_layer h)\<lparr>ly_state := LCommitted\<rparr>)
      (put_staged ?l (s\<lparr>sl_sealed := True\<rparr>) (mg_db m))"
  have c: "commit_layer ?l ?db2 = (Inr (), commit_db h s (mg_db m))"
    using db(1) by (simp add: commit_db_def prod_eq_iff)
  show ?thesis
    unfolding lm_commit_def Let_def id t
    by (simp add: check_guards_same[OF view] guards publish_def store_guards_def id on_db_def mem_seal_def s
        c transition_def feed_projections_def projections_committed_ok[OF db(2)] land_def
        commit_manager_def committed_layer_def Let_def)
qed

section \<open>Commit preserves the invariant\<close>

lemma get_raise_head:
  "hm_get (raise_head b l heads) b' =
     (if b' = b then Some (max (hm_get_or l heads b) l) else hm_get heads b')"
  by (auto simp: raise_head_def hm_get_modify max_def)

lemma commit_manager_simps [log_simps]:
  "mg_db (commit_manager h layer s m) = commit_db h s (mg_db m)"
  "mg_next (commit_manager h layer s m) = mg_next m"
  "mg_members (commit_manager h layer s m) = mg_members m"
  "mg_branches (commit_manager h layer s m) = mg_branches m"
  "hm_get (mg_layers (commit_manager h layer s m)) = (hm_get (mg_layers m))(lh_id h \<mapsto> committed_layer h layer)"
  "mg_heads (commit_manager h layer s m) = raise_head (ly_branch (lh_layer h)) (lh_id h) (mg_heads m)"
  by (simp_all add: commit_manager_def Let_def)

lemma committed_layer_simps [log_simps]:
  "ly_state (committed_layer h layer) = LCommitted" "ly_branch (committed_layer h layer) = ly_branch layer"
  "ly_author (committed_layer h layer) = ly_author layer" "ly_id (committed_layer h layer) = ly_id layer"
  "ly_kind (committed_layer h layer) = ly_kind layer"
  by (simp_all add: committed_layer_def)

lemma committed_on_commit:
  assumes layer: "hm_get (mg_layers m) (lh_id h) = Some layer" "ly_state layer = LOpen" "ly_branch layer = ly_branch (lh_layer h)"
  shows "committed_on (commit_manager h layer s m) b k \<longleftrightarrow>
    committed_on m b k \<or> (k = lh_id h \<and> b = ly_branch (lh_layer h))"
  using layer by (auto simp: committed_on_def log_simps)

lemma heads_ok_commit:
  assumes "heads_ok m" and layer: "hm_get (mg_layers m) (lh_id h) = Some layer" "ly_state layer = LOpen"
    "ly_branch layer = ly_branch (lh_layer h)"
  shows "heads_ok (commit_manager h layer s m)"
  unfolding heads_ok_def
proof
  fix b
  let ?l = "lh_id h" and ?b = "ly_branch (lh_layer h)"
  have old: "case lm_head m b of None \<Rightarrow> \<forall>l. \<not> committed_on m b l
      | Some x \<Rightarrow> committed_on m b x \<and> (\<forall>l. committed_on m b l \<longrightarrow> l \<le> x)"
    using assms(1) unfolding heads_ok_def by blast
  have head: "lm_head (commit_manager h layer s m) b =
      (if b = ?b then Some (max (hm_get_or ?l (mg_heads m) b) ?l) else lm_head m b)"
    by (simp add: lm_head_def log_simps get_raise_head)
  show "case lm_head (commit_manager h layer s m) b of
          None \<Rightarrow> \<forall>l. \<not> committed_on (commit_manager h layer s m) b l
        | Some x \<Rightarrow> committed_on (commit_manager h layer s m) b x \<and>
            (\<forall>l. committed_on (commit_manager h layer s m) b l \<longrightarrow> l \<le> x)"
  proof (cases "b = ?b")
    case False
    then show ?thesis using old by (auto simp: head committed_on_commit[OF layer] split: option.splits)
  next
    case True
    show ?thesis
    proof (cases "lm_head m b")
      case None
      then have "hm_get_or ?l (mg_heads m) b = ?l" by (simp add: lm_head_def)
      with old True None show ?thesis
        unfolding head by (simp add: committed_on_commit[OF layer])
    next
      case (Some x)
      then have "hm_get_or ?l (mg_heads m) b = x" by (simp add: lm_head_def)
      with old True Some show ?thesis
        unfolding head by (auto simp: committed_on_commit[OF layer] max_def intro: order_trans)
    qed
  qed
qed

lemma writes_cell_commit:
  assumes inv: "mem_inv db" and s: "hm_get (in_staged db) (lh_id h) = Some s" and k: "k \<noteq> lh_id h"
  shows "writes_cell (commit_db h s db) k c = writes_cell db k c"
proof -
  note f = commit_db_facts[OF inv s]
  have m: "read_membership (commit_db h s db) k = read_membership db k"
    using k by (simp add: read_membership_def f(4))
  have "\<exists>ev. stored db e = Some ev" if "e \<in> set (read_membership db k)" for e
    using that mem_invD(3)[OF inv] unfolding members_ok_def read_membership_def
    by (cases "hm_get (in_members db) k") auto
  with f(5) show ?thesis unfolding writes_cell_def m by (metis option.inject)
qed

lemma touch_ok_commit:
  assumes inv: "mg_inv m" and layer: "hm_get (mg_layers m) (lh_id h) = Some layer" "ly_state layer = LOpen"
    "ly_branch layer = ly_branch (lh_layer h)" "ly_author layer = ly_author (lh_layer h)"
    and s: "hm_get (in_staged (mg_db m)) (lh_id h) = Some s"
  shows "touch_ok (commit_manager h layer s m)"
proof -
  let ?n = "commit_manager h layer s m" and ?l = "lh_id h"
  let ?lay = "(lh_layer h)\<lparr>ly_state := LCommitted\<rparr>"
  let ?db = "commit_db h s (mg_db m)"
  have db: "mem_inv ?db" by (rule commit_db_facts(2)[OF mg_invD(1)[OF inv] s])
  have T: "TouchIndex \<in> set (mg_members m)" using mg_invD(5)[OF inv] by (simp add: touch_ok_def)
  have ix: "mg_indexes ?n = apply_members ?lay (commit_events ?db ?lay (mg_members m)) (mg_members m) (mg_indexes m)"
    by (simp add: commit_manager_def Let_def)
  have src: "is_source ?lay = is_source layer" using layer(4) by (simp add: is_source_def)
  have lay: "ly_branch ?lay = ly_branch layer" "ly_id ?lay = ?l" using layer(3) by (simp_all add: lh_id_def)
  have ev: "commit_events ?db ?lay (mg_members m) = events_of ?db ?l" if "is_source layer"
  proof -
    have "list_ex (\<lambda>p. member_wants p ?lay) (mg_members m)"
      unfolding list_ex_iff using T src that by (intro bexI[of _ TouchIndex]) (simp_all add: wants_source)
    then show ?thesis using src that lay by (simp add: commit_events_def)
  qed
  have wr: "writes_cell ?db k c = writes_cell (mg_db m) k c" if "k \<noteq> ?l" for k c
    by (rule writes_cell_commit[OF mg_invD(1)[OF inv] s that])
  have "touched (ix_touch (mg_indexes ?n)) b c = {l. source_write ?n b c l}" for b c
  proof -
    have old: "touched (ix_touch (mg_indexes m)) b c = {l. source_write m b c l}"
      using mg_invD(5)[OF inv] by (simp add: touch_ok_def)
    have "touched (ix_touch (mg_indexes ?n)) b c = {l. source_write m b c l} \<union>
        (if is_source layer \<and> b = ly_branch layer \<and> writes_cell ?db ?l c then {?l} else {})"
      using T src lay ev events_cells[OF db, of c ?l]
      by (auto simp: ix touched_members old wants_source)
    also have "\<dots> = {l. source_write ?n b c l}"
      using layer(1,2) wr by (auto simp: source_write_def log_simps is_source_def)
    finally show ?thesis .
  qed
  moreover have "committed_on ?n b x" if "hm_get (ti_highest (ix_touch (mg_indexes ?n))) b = Some x" for b x
  proof -
    from that[unfolded ix, THEN highest_members]
    have "hm_get (ti_highest (ix_touch (mg_indexes m))) b = Some x \<or> (b = ly_branch layer \<and> x = ?l)"
      unfolding lay .
    then show ?thesis
      using mg_invD(5)[OF inv] layer(3) by (auto simp: committed_on_commit[OF layer(1-3)] touch_ok_def)
  qed
  moreover have "touch_inv (ix_touch (mg_indexes ?n))"
    unfolding ix by (rule touch_inv_members) (use mg_invD(5)[OF inv] in \<open>simp add: touch_ok_def\<close>)
  ultimately show ?thesis using T by (simp add: touch_ok_def log_simps)
qed

lemma mg_inv_accept:
  assumes inv: "mg_inv m" and layer: "hm_get (mg_layers m) (lh_id h) = Some layer" "ly_state layer = LOpen"
    "ly_branch layer = ly_branch (lh_layer h)" "ly_author layer = ly_author (lh_layer h)"
    and s: "hm_get (in_staged (mg_db m)) (lh_id h) = Some s" "sl_branch s = ly_branch layer"
  shows "mg_inv (commit_manager h layer s m)"
proof (rule mg_invI)
  let ?n = "commit_manager h layer s m"
  note db = commit_db_facts[OF mg_invD(1)[OF inv] s(1)]
  show "mem_inv (mg_db ?n)" using db(2) by (simp add: log_simps)
  have "distinct (map fst (mg_layers ?n))"
    unfolding commit_manager_def Let_def by (simp add: distinct_layers[OF inv])
  moreover have "ly_id x = k \<and> k < mg_next m" if "hm_get (mg_layers ?n) k = Some x" for k x
    using that layers_okD[OF mg_invD(2)[OF inv] layer(1)] layers_okD[OF mg_invD(2)[OF inv], of k x]
    by (cases "k = lh_id h") (auto simp: log_simps)
  ultimately show "layers_ok ?n" by (simp only: layers_ok_def log_simps) blast
  show "sync_ok ?n k" for k
    using mg_invD(3)[OF inv, of k] layer s(2)
    unfolding sync_ok_def log_simps db(3,4)
    by (cases "k = lh_id h") (auto simp: log_simps split: option.splits if_splits)
  show "heads_ok ?n" by (rule heads_ok_commit[OF mg_invD(4)[OF inv] layer(1-3)])
  show "touch_ok ?n" by (rule touch_ok_commit[OF inv layer s(1)])
qed

lemma mg_inv_commit:
  assumes inv: "mg_inv m" and h: "handle_ok m h"
  shows "mg_inv (snd (lm_commit h m))"
proof -
  obtain layer where layer: "hm_get (mg_layers m) (lh_id h) = Some layer"
    "ly_branch layer = ly_branch (lh_layer h)" "ly_author layer = ly_author (lh_layer h)"
    using h by (auto simp: handle_ok_def)
  show ?thesis
  proof (cases "ly_state layer = LOpen")
    case False
    then show ?thesis
      using inv layer by (simp add: lm_commit_def transition_def Let_def flip: lh_id_def)
  next
    case True
    obtain s where s: "hm_get (in_staged (mg_db m)) (lh_id h) = Some s" "sl_branch s = ly_branch layer"
      using open_staged[OF inv layer(1) True] by blast
    show ?thesis
    proof (cases "check_guards m (ly_branch (lh_layer h)) (ly_guards (lh_layer h)) None")
      case (Inl v)
      have "ly_id layer = lh_id h" using layers_okD[OF mg_invD(2)[OF inv] layer(1)] by simp
      then show ?thesis
        unfolding commit_rejected[OF inv layer(1) True Inl] snd_conv
        by (intro mg_inv_drop[OF inv layer(1) True, of "layer\<lparr>ly_state := LAborted\<rparr>"])
           (simp_all add: distinct_layers[OF inv])
    next
      case (Inr u)
      then have "check_guards m (ly_branch (lh_layer h)) (ly_guards (lh_layer h)) None = Inr ()" by simp
      then show ?thesis
        using commit_accepted[OF inv layer(1) True s(1)] mg_inv_accept[OF inv layer(1) True layer(2,3) s] by simp
    qed
  qed
qed

lemma mg_inv_abort: "mg_inv m \<Longrightarrow> handle_ok m h \<Longrightarrow> hm_get (mg_layers m) (lh_id h) = Some layer \<Longrightarrow>
    ly_state layer = LOpen \<Longrightarrow> mg_inv (snd (lm_abort h m))"
proof -
  assume a: "mg_inv m" "hm_get (mg_layers m) (lh_id h) = Some layer" "ly_state layer = LOpen"
  have "ly_id layer = lh_id h" using layers_okD[OF mg_invD(2)[OF a(1)] a(2)] by simp
  then show ?thesis
    unfolding abort_outcome[OF a] snd_conv
    by (intro mg_inv_drop[OF a, of "layer\<lparr>ly_state := LAborted\<rparr>"]) (simp_all add: distinct_layers[OF a(1)])
qed

end
