(* ===== verification/Layer_Properties.thy ===== *)
theory Layer_Properties
  imports Layer_Commit
begin

text \<open>
  The properties of the layer manager: read paths, the two outcomes of a commit, heads, guards as
  conflict detector and the shortcut that skips them, the settled ceiling, and the one-way life of a
  layer.
\<close>

section \<open>Reachable managers\<close>

inductive mg_step :: "manager \<Rightarrow> manager \<Rightarrow> bool" where
  Open: "mg_next m \<noteq> - 1 \<Longrightarrow> mg_step m (snd (lm_open b kind author m))"
| Put: "mg_step m (snd (lm_put h cell draft m))"
| Include: "mg_step m (snd (lm_include h e m))"
| Put_Def: "handle_ok m h \<Longrightarrow> mg_step m (snd (lm_put_def h d m))"
| Commit: "handle_ok m h \<Longrightarrow> mg_step m (snd (lm_commit h m))"
| Abort: "handle_ok m h \<Longrightarrow> lm_layer m (lh_id h) = Some layer \<Longrightarrow> ly_state layer = LOpen \<Longrightarrow>
    mg_step m (snd (lm_abort h m))"
| Register: "mg_step m (register_branch b m)"
| Put_Branch: "mg_step m (m\<lparr>mg_db := put_branch b (mg_db m)\<rparr>)"
| Intern: "mg_step m (m\<lparr>mg_db := snd (intern hash k bytes (mg_db m))\<rparr>)"

lemma mg_inv_step: "mg_step m n \<Longrightarrow> mg_inv m \<Longrightarrow> mg_inv n"
proof (induction rule: mg_step.induct)
  case (Abort m h layer)
  then show ?case by (intro mg_inv_abort) (simp_all add: lm_layer_def)
next
  case (Put_Branch m b)
  then show ?case
    by (intro mg_inv_db staged_ops_log) (simp_all add: mg_invD same_open_def put_branch_def
        mem_inv_step[OF mem_step.Branch, unfolded put_branch_def])
next
  case (Intern m hash k bytes)
  have "same_open (mg_db m) (snd (intern hash k bytes (mg_db m)))"
    by (simp add: intern_def same_open_def split: sum.split)
  then show ?case
    using mem_inv_step[OF mem_step.Intern mg_invD(1)[OF Intern]] Intern
    by (intro mg_inv_db staged_ops_log) simp_all
qed (simp_all add: mg_inv_open mg_inv_put mg_inv_include mg_inv_put_def mg_inv_commit mg_inv_register)

definition mg_reachable :: "manager \<Rightarrow> bool" where
  "mg_reachable m \<longleftrightarrow>
     (\<exists>members next. TouchIndex \<in> set members \<and>
        mg_step\<^sup>*\<^sup>* (with_projections members (manager_new mem_new next indexes_new)) m)"

lemma mg_reachable_inv: "mg_reachable m \<Longrightarrow> mg_inv m"
proof -
  have "mg_step\<^sup>*\<^sup>* m n \<Longrightarrow> mg_inv m \<Longrightarrow> mg_inv n" for m n
    by (induction rule: rtranclp_induct) (auto intro: mg_inv_step)
  then show "mg_reachable m \<Longrightarrow> mg_inv m" unfolding mg_reachable_def using mg_inv_new by blast
qed

lemma mg_reachable_step: "mg_reachable m \<Longrightarrow> mg_step m n \<Longrightarrow> mg_reachable n"
  unfolding mg_reachable_def by (meson rtranclp.rtrancl_into_rtrancl)

section \<open>Read paths\<close>

definition clamp :: "layer_id option \<Rightarrow> layer_id \<Rightarrow> layer_id" where
  "clamp requested origin = (case requested of Some r \<Rightarrow> min r origin | None \<Rightarrow> origin)"

inductive ancestry ::
  "(branch_id \<Rightarrow> (layer_id \<times> branch_id) option) \<Rightarrow> layer_id option \<Rightarrow> branch_id \<Rightarrow> layer_id \<Rightarrow> read_path \<Rightarrow> bool"
  for links requested where
  Root: "links b = None \<Longrightarrow> ancestry links requested b bound [(b, bound)]"
| Fork: "links b = Some (origin, parent) \<Longrightarrow> ancestry links requested parent (clamp requested origin) path \<Longrightarrow>
    ancestry links requested b bound ((b, bound) # path)"

inductive_cases ancestry_Cons: "ancestry links requested b bound (seg # path)"
inductive_simps ancestry_Nil: "ancestry links requested b bound []"

lemma read_path_loop_sound:
  assumes "read_path_loop links requested b bound segs = Some path"
  shows "\<exists>tail. path = segs @ tail \<and> ancestry links requested b bound tail"
proof (rule read_path_loop.raw_induct[where P =
    "\<lambda>links requested b bound segs path. \<exists>tail. path = segs @ tail \<and> ancestry links requested b bound tail",
    OF _ assms])
  fix loop :: "(branch_id \<Rightarrow> (layer_id \<times> branch_id) option) \<Rightarrow> layer_id option \<Rightarrow> branch_id \<Rightarrow> layer_id \<Rightarrow>
    read_path \<Rightarrow> read_path option"
    and links requested b bound segs path
  assume IH: "\<And>links requested b bound segs path. loop links requested b bound segs = Some path \<Longrightarrow>
      \<exists>tail. path = segs @ tail \<and> ancestry links requested b bound tail"
    and eq: "(case links b of None \<Rightarrow> Some (segs @ [(b, bound)])
      | Some (origin, parent) \<Rightarrow> loop links requested parent
          (case requested of None \<Rightarrow> origin | Some r \<Rightarrow> min r origin) (segs @ [(b, bound)])) = Some path"
  show "\<exists>tail. path = segs @ tail \<and> ancestry links requested b bound tail"
  proof (cases "links b")
    case None
    with eq show ?thesis by (auto intro: ancestry.Root)
  next
    case (Some link)
    obtain origin parent where link: "link = (origin, parent)" by (cases link)
    with eq Some have "loop links requested parent (clamp requested origin) (segs @ [(b, bound)]) = Some path"
      by (cases requested) (simp_all add: clamp_def)
    from IH[OF this] obtain tail where "path = (segs @ [(b, bound)]) @ tail"
      "ancestry links requested parent (clamp requested origin) tail" by blast
    then show ?thesis using Some link by (auto intro: ancestry.Fork)
  qed
qed

lemma read_path_loop_complete:
  "ancestry links requested b bound tail \<Longrightarrow> read_path_loop links requested b bound segs = Some (segs @ tail)"
proof (induction arbitrary: segs rule: ancestry.induct)
  case (Root b bound)
  then show ?case by (subst read_path_loop.simps) simp
next
  case (Fork b origin parent path bound)
  then show ?case by (subst read_path_loop.simps) (simp add: clamp_def)
qed

lemma read_path_loop_iff:
  "read_path_loop links requested b bound [] = Some path \<longleftrightarrow> ancestry links requested b bound path"
  using read_path_loop_sound[of links requested b bound "[]"] read_path_loop_complete[of links requested b bound path "[]"]
  by auto

definition links_down :: "(branch_id \<Rightarrow> (layer_id \<times> branch_id) option) \<Rightarrow> bool" where
  "links_down links \<longleftrightarrow> (\<forall>b origin parent. links b = Some (origin, parent) \<longrightarrow> parent < b)"

lemma ancestry_exists: "links_down links \<Longrightarrow> \<exists>path. ancestry links requested b bound path"
proof (induction "unat b" arbitrary: b bound rule: less_induct)
  case less
  show ?case
  proof (cases "links b")
    case None
    then show ?thesis by (auto intro: ancestry.Root)
  next
    case (Some link)
    obtain origin parent where link: "link = (origin, parent)" by (cases link)
    then have "parent < b" using less.prems Some by (auto simp: links_down_def)
    then obtain path where "ancestry links requested parent (clamp requested origin) path"
      using less.hyps[of parent] less.prems by (auto simp: word_less_nat_alt)
    with Some link show ?thesis by (auto intro: ancestry.Fork)
  qed
qed

lemma ancestry_hd: "ancestry links requested b bound path \<Longrightarrow> \<exists>rest. path = (b, bound) # rest"
  by (cases rule: ancestry.cases) auto

definition start_bound :: "manager \<Rightarrow> branch_id \<Rightarrow> layer_id option \<Rightarrow> layer_id" where
  "start_bound m b requested =
     (case requested of Some r \<Rightarrow> r | None \<Rightarrow> (case lm_head m b of Some h \<Rightarrow> h | None \<Rightarrow> 0))"

lemma lm_read_path_iff:
  "lm_read_path m b requested = Inr path \<longleftrightarrow> ancestry (parent_link m) requested b (start_bound m b requested) path"
proof -
  have "lm_read_path m b requested =
      (case read_path_loop (parent_link m) requested b (start_bound m b requested) [] of
         None \<Rightarrow> Inl (RustPanic ''read_path does not return'') | Some path \<Rightarrow> Inr path)"
    by (simp only: lm_read_path_def start_bound_def Let_def)
  then show ?thesis
    using read_path_loop_iff[of "parent_link m" requested b "start_bound m b requested" path]
    by (auto split: option.splits)
qed

section \<open>Guards\<close>

definition touched_on :: "manager \<Rightarrow> read_path \<Rightarrow> layer_id \<Rightarrow> cell_ref \<Rightarrow> layer_id \<Rightarrow> bool" where
  "touched_on m path since c l \<longleftrightarrow>
     since < l \<and> (\<exists>(b, bound) \<in> set path. source_write m b c l \<and> l \<le> bound)"

lemma window_manager:
  "mg_inv m \<Longrightarrow> window (ix_touch (mg_indexes m)) path c since = {l. touched_on m path since c l}"
  using mg_invD(5) by (fastforce simp: window_def touched_on_def touch_ok_def)

lemma lookup_manager:
  assumes "mg_inv m"
  shows "touch_lookup (ix_touch (mg_indexes m)) path c since = None \<longleftrightarrow> (\<forall>l. \<not> touched_on m path since c l)"
    and "touch_lookup (ix_touch (mg_indexes m)) path c since = Some l \<longleftrightarrow>
      touched_on m path since c l \<and> (\<forall>k. touched_on m path since c k \<longrightarrow> l \<le> k)"
proof -
  show "touch_lookup (ix_touch (mg_indexes m)) path c since = None \<longleftrightarrow> (\<forall>l. \<not> touched_on m path since c l)"
    by (auto simp: touch_lookup_None_iff window_manager[OF assms])
  show "touch_lookup (ix_touch (mg_indexes m)) path c since = Some l \<longleftrightarrow>
      touched_on m path since c l \<and> (\<forall>k. touched_on m path since c k \<longrightarrow> l \<le> k)"
    using touch_lookup_earliest[of "ix_touch (mg_indexes m)" path c since]
    by (auto simp: earliest_of_def window_manager[OF assms] split: option.splits intro: order.antisym)
qed

lemma check_touched_ok:
  "mg_inv m \<Longrightarrow> check_touched m path cells since = Inr () \<longleftrightarrow>
     (\<forall>c \<in> set cells. \<forall>l. \<not> touched_on m path since c l)"
  using first_touched_None[of "ix_touch (mg_indexes m)" path cells since]
  by (auto simp: check_touched_def lookup_manager(1) split: option.split)

lemma check_touched_violated:
  "mg_inv m \<Longrightarrow> check_touched m path cells since = Inl (GuardViolated c s l) \<longleftrightarrow>
     s = since \<and> (\<exists>pre post. cells = pre @ c # post \<and> touched_on m path since c l \<and>
       (\<forall>k. touched_on m path since c k \<longrightarrow> l \<le> k) \<and>
       (\<forall>d \<in> set pre. \<forall>k. \<not> touched_on m path since d k))"
  using first_touched_Some[of "ix_touch (mg_indexes m)" path cells since c l]
  by (auto simp: check_touched_def lookup_manager split: option.splits)

lemma untouched_passes:
  assumes inv: "mg_inv m" and path: "lm_read_path m b None = Inr path"
    and "touched_since m b since = Inr False" and anc: "\<forall>(b', bound) \<in> set (tl path). bound \<le> since"
  shows "check_reads m b cells since = Inr ()"
proof -
  let ?ti = "ix_touch (mg_indexes m)"
  have unmoved: "\<not> moved_since ?ti path since" using assms(3) by (simp add: touched_since_def path)
  obtain rest where p: "path = (b, start_bound m b None) # rest"
    using path ancestry_hd unfolding lm_read_path_iff by blast
  have "\<not> touched_on m path since c l" for c l
  proof
    assume t: "touched_on m path since c l"
    then obtain b' bound where seg: "(b', bound) \<in> set path" "source_write m b' c l" "l \<le> bound" "since < l"
      by (auto simp: touched_on_def)
    have "(b', bound) \<notin> set (tl path)" using anc seg(3,4) by fastforce
    then have first: "b' = b" "bound = start_bound m b None" using seg(1) p by auto
    from seg(2) have l: "l \<in> touched ?ti b c" using mg_invD(5)[OF inv] first by (simp add: touch_ok_def)
    then obtain h where h: "hm_get (ti_highest ?ti) b = Some h" "l \<le> h"
      using mg_invD(5)[OF inv] unfolding touch_ok_def touch_inv_def by blast
    then have "committed_on m b h" using mg_invD(5)[OF inv] by (simp add: touch_ok_def)
    then have "h \<le> start_bound m b None"
      using mg_invD(4)[OF inv] unfolding heads_ok_def
      by (cases "lm_head m b") (auto simp: start_bound_def dest: spec[of _ b])
    moreover have "since < h" using seg(4) h(2) by auto
    ultimately have "moved_since ?ti path since" using h(1) p by (simp add: moved_since_def)
    with unmoved show False ..
  qed
  then show ?thesis by (simp add: check_reads_def path check_touched_ok[OF inv])
qed

section \<open>The settled ceiling\<close>

lemma ceiling_loop_sorted:
  assumes "sorted_wrt (<) (map ly_id ls)"
  shows "(ceiling_loop w ls x = x \<and> (ls = [] \<or> \<not> settled_layer w (hd ls))) \<or>
    (\<exists>pre layer post. ls = pre @ layer # post \<and> ceiling_loop w ls x = ly_id layer \<and>
       (\<forall>y \<in> set (pre @ [layer]). settled_layer w y) \<and> (post = [] \<or> \<not> settled_layer w (hd post)))"
  using assms
proof (induction ls arbitrary: x)
  case (Cons y ls)
  show ?case
  proof (cases "settled_layer w y")
    case True
    from Cons.IH[of "ly_id y"] Cons.prems
    consider "ceiling_loop w ls (ly_id y) = ly_id y" "ls = [] \<or> \<not> settled_layer w (hd ls)"
      | pre layer post where "ls = pre @ layer # post" "ceiling_loop w ls (ly_id y) = ly_id layer"
        "\<forall>y \<in> set (pre @ [layer]). settled_layer w y" "post = [] \<or> \<not> settled_layer w (hd post)"
      by auto
    then show ?thesis
    proof cases
      case 1
      then show ?thesis using True by (intro disjI2 exI[of _ "[]"]) auto
    next
      case (2 pre layer post)
      then show ?thesis using True by (intro disjI2 exI[of _ "y # pre"]) auto
    qed
  qed simp
qed simp

lemma distinct_layer_ids: "layers_ok m \<Longrightarrow> distinct (map ly_id (layers_of m b))"
proof -
  assume ok: "layers_ok m"
  have "map ly_id (map snd (mg_layers m)) = map fst (mg_layers m)"
  proof (simp, intro ballI)
    fix e assume "e \<in> set (mg_layers m)"
    then have "hm_get (mg_layers m) (fst e) = Some (snd e)" using ok by (simp add: layers_ok_def)
    from layers_okD[OF ok this] show "ly_id (snd e) = fst e" by simp
  qed
  moreover have "distinct (map fst (mg_layers m))" using ok by (simp add: layers_ok_def)
  ultimately have "distinct (map ly_id (map snd (mg_layers m)))" by (simp only:)
  then show ?thesis unfolding layers_of_def by (rule distinct_map_filter)
qed

definition no_gap_below :: "layer_id \<Rightarrow> layer list \<Rightarrow> layer_id \<Rightarrow> bool" where
  "no_gap_below w layers x \<longleftrightarrow> (\<forall>layer \<in> set layers. ly_id layer \<le> x \<longrightarrow> settled_layer w layer)"

lemma settled_ceiling_props:
  assumes "distinct (map ly_id (layers_of m b))" "\<forall>layer \<in> set (layers_of m b). ly_id layer \<noteq> 0"
  shows "no_gap_below w (layers_of m b) (settled_ceiling m b w)"
    and "\<And>layer. layer \<in> set (layers_of m b) \<Longrightarrow> no_gap_below w (layers_of m b) (ly_id layer) \<Longrightarrow>
      ly_id layer \<le> settled_ceiling m b w"
proof -
  let ?ls = "sort_key ly_id (layers_of m b)"
  have "distinct (map ly_id ?ls)" using assms(1) by (simp add: distinct_map)
  then have sorted: "sorted_wrt (<) (map ly_id ?ls)" by (simp add: strict_sorted_iff)
  have mono: "ly_id x < ly_id y" if "?ls = pre @ x # post" "y \<in> set post" for pre x post y
    using sorted that by (auto simp: sorted_wrt_append)
  have mono': "ly_id x < ly_id y" if "?ls = pre @ y # post" "x \<in> set pre" for pre x post y
    using sorted that by (auto simp: sorted_wrt_append)
  have set: "set ?ls = set (layers_of m b)" by simp
  from ceiling_loop_sorted[OF sorted, of w 0]
  consider (Zero) "settled_ceiling m b w = 0" "?ls = [] \<or> \<not> settled_layer w (hd ?ls)"
    | (Layer) pre layer post where "?ls = pre @ layer # post" "settled_ceiling m b w = ly_id layer"
      "\<forall>y \<in> set (pre @ [layer]). settled_layer w y" "post = [] \<or> \<not> settled_layer w (hd post)"
    by (auto simp: settled_ceiling_def)
  then have "no_gap_below w (layers_of m b) (settled_ceiling m b w) \<and>
      (\<forall>layer \<in> set (layers_of m b). no_gap_below w (layers_of m b) (ly_id layer) \<longrightarrow>
        ly_id layer \<le> settled_ceiling m b w)"
  proof cases
    case Zero
    have "\<not> no_gap_below w (layers_of m b) (ly_id layer)" if x: "layer \<in> set (layers_of m b)" for layer
    proof -
      have "?ls \<noteq> []" using x set by (metis empty_iff list.set(1))
      then obtain y ys where ls: "?ls = y # ys" by (cases ?ls) blast+
      then have "\<not> settled_layer w y" using Zero(2) by auto
      moreover have "ly_id y \<le> ly_id layer" using x set ls mono[of "[]" y ys] by fastforce
      moreover have "y \<in> set (layers_of m b)" using ls set by (metis list.set_intros(1))
      ultimately show ?thesis by (auto simp: no_gap_below_def)
    qed
    then show ?thesis using assms(2) Zero(1) by (auto simp: no_gap_below_def)
  next
    case (Layer pre layer post)
    have in_ls: "x \<in> set pre \<or> x = layer \<or> x \<in> set post" if "x \<in> set (layers_of m b)" for x
      using that Layer(1) set by (metis Un_iff set_append set_ConsD)
    have "no_gap_below w (layers_of m b) (ly_id layer)"
      unfolding no_gap_below_def using in_ls Layer(3) mono[OF Layer(1)] by fastforce
    moreover have "ly_id x \<le> ly_id layer"
      if x: "x \<in> set (layers_of m b)" "no_gap_below w (layers_of m b) (ly_id x)" for x
    proof (rule ccontr)
      assume "\<not> ly_id x \<le> ly_id layer"
      then have "x \<in> set post" using in_ls[OF x(1)] mono'[OF Layer(1)] by force
      then obtain y ys where post: "post = y # ys" by (cases post) auto
      then have "\<not> settled_layer w y" using Layer(4) by simp
      moreover have split: "?ls = (pre @ [layer]) @ y # ys" using Layer(1) post by simp
      then have "x \<in> set ys \<Longrightarrow> ly_id y < ly_id x" by (rule mono)
      then have "ly_id y \<le> ly_id x" using \<open>x \<in> set post\<close> post by (metis less_imp_le order_refl set_ConsD)
      moreover have "y \<in> set ?ls" unfolding split by simp
      then have "y \<in> set (layers_of m b)" unfolding set .
      ultimately show False using x(2) by (auto simp: no_gap_below_def)
    qed
    ultimately show ?thesis by (simp add: Layer(2))
  qed
  then show "no_gap_below w (layers_of m b) (settled_ceiling m b w)"
    "\<And>layer. layer \<in> set (layers_of m b) \<Longrightarrow> no_gap_below w (layers_of m b) (ly_id layer) \<Longrightarrow>
      ly_id layer \<le> settled_ceiling m b w" by blast+
qed

section \<open>The one-way life of a layer\<close>

lemma commit_outcomes:
  assumes inv: "mg_inv m" and h: "handle_ok m h"
  obtains (Closed) "snd (lm_commit h m) = m"
  | (Rejected) layer where "lm_layer m (lh_id h) = Some layer" "ly_state layer = LOpen"
      "snd (lm_commit h m) = m\<lparr>mg_db := snd (mem_abort (lh_id h) (mg_db m)),
         mg_layers := hm_insert (lh_id h) (layer\<lparr>ly_state := LAborted\<rparr>) (mg_layers m)\<rparr>"
  | (Accepted) layer s where "lm_layer m (lh_id h) = Some layer" "ly_state layer = LOpen"
      "hm_get (in_staged (mg_db m)) (lh_id h) = Some s" "snd (lm_commit h m) = commit_manager h layer s m"
proof -
  obtain layer where layer: "hm_get (mg_layers m) (lh_id h) = Some layer" using h by (auto simp: handle_ok_def)
  show ?thesis
  proof (cases "ly_state layer = LOpen")
    case False
    then show ?thesis
      using layer by (intro Closed) (simp add: lm_commit_def transition_def Let_def flip: lh_id_def)
  next
    case True
    obtain s where s: "hm_get (in_staged (mg_db m)) (lh_id h) = Some s"
      using open_staged[OF inv layer(1) True] by blast
    show ?thesis
    proof (cases "check_guards m (ly_branch (lh_layer h)) (ly_guards (lh_layer h)) None")
      case (Inl v)
      then show ?thesis
        using commit_rejected[OF inv layer True Inl] layer True by (intro Rejected) (simp_all add: lm_layer_def)
    next
      case (Inr u)
      then have "check_guards m (ly_branch (lh_layer h)) (ly_guards (lh_layer h)) None = Inr ()" by simp
      then show ?thesis
        using commit_accepted[OF inv layer True s] layer True s by (intro Accepted) (simp_all add: lm_layer_def)
    qed
  qed
qed

definition later_state :: "layer_state \<Rightarrow> layer_state \<Rightarrow> bool" where
  "later_state st st' \<longleftrightarrow> st' = st \<or> (st = LOpen \<and> (st' = LCommitted \<or> st' = LAborted))"

definition layer_grows :: "layer \<Rightarrow> layer \<Rightarrow> bool" where
  "layer_grows a b \<longleftrightarrow> ly_id b = ly_id a \<and> ly_branch b = ly_branch a \<and> ly_kind b = ly_kind a \<and>
     ly_author b = ly_author a \<and> ly_parent b = ly_parent a \<and> later_state (ly_state a) (ly_state b)"

lemma layer_grows_refl [simp]: "layer_grows a a"
  by (simp add: layer_grows_def later_state_def)

lemma layer_grows_trans: "layer_grows a b \<Longrightarrow> layer_grows b c \<Longrightarrow> layer_grows a c"
  by (auto simp: layer_grows_def later_state_def)

lemma layers_step:
  assumes "mg_step m n" "mg_inv m" "lm_layer m l = Some layer"
  shows "\<exists>layer'. lm_layer n l = Some layer' \<and> layer_grows layer layer'"
  using assms
proof (induction rule: mg_step.induct)
  case (Open m b kind author)
  have "l \<noteq> mg_next m" using next_unused[OF Open.prems(1)] Open.prems(2) by (auto simp: lm_layer_def)
  then show ?case
    using Open.prems(2) lm_open_cases[OF Open.prems(1) Open.hyps refl refl, of b kind author]
    by (simp add: lm_layer_def)
next
  case (Commit m h)
  from Commit.prems(1) Commit.hyps show ?case
  proof (cases rule: commit_outcomes)
    case Closed
    then show ?thesis using Commit.prems(2) by simp
  next
    case (Rejected x)
    then show ?thesis using Commit.prems(2)
      by (cases "l = lh_id h") (auto simp: lm_layer_def layer_grows_def later_state_def)
  next
    case (Accepted x s)
    then show ?thesis using Commit.prems(2)
      by (cases "l = lh_id h")
         (auto simp: lm_layer_def log_simps layer_grows_def later_state_def committed_layer_def)
  qed
next
  case (Abort m h x)
  then show ?case
    using abort_outcome[OF Abort.prems(1), of h x]
    by (cases "l = lh_id h") (auto simp: lm_layer_def layer_grows_def later_state_def)
qed (simp_all add: lm_layer_def lm_put_def lm_include_def lm_put_def_def on_db_snd register_branch_def)

section \<open>Properties\<close>

text \<open>The ancestry a read resolves through is exactly the chain of fork points: the
  branch itself at the requested layer (or at its head, or at 0), then again and again the branch of
  the origin layer, bounded at that origin and, when a layer was requested, at that layer too; and
  when every branch was forked from one with a smaller id the loop returns for every branch.\<close>

theorem read_path_is_ancestry:
  "(lm_read_path m b requested = Inr path \<longleftrightarrow>
      ancestry (parent_link m) requested b
        (case requested of Some r \<Rightarrow> r | None \<Rightarrow> (case lm_head m b of Some h \<Rightarrow> h | None \<Rightarrow> 0)) path) \<and>
   (links_down (parent_link m) \<longrightarrow> (\<exists>path. lm_read_path m b requested = Inr path))"
  using lm_read_path_iff[of m b requested] ancestry_exists[of "parent_link m" requested b "start_bound m b requested"]
  by (auto simp: start_bound_def)

text \<open>Property C8. A commit whose guards fail returns the violation and leaves no trace: no reader of
  the provider gets a different answer, no head, index or def layer moves, the staging area is gone
  and the layer is aborted.\<close>

theorem rejected_commit_leaves_no_trace:
  assumes "mg_reachable m" "lm_layer m (lh_id h) = Some layer" "ly_state layer = LOpen"
    and "check_guards m (ly_branch (lh_layer h)) (ly_guards (lh_layer h)) None = Inl violation"
  shows "fst (lm_commit h m) = Inl violation \<and>
    (let n = snd (lm_commit h m) in
       reader_view (mg_db n) = reader_view (mg_db m) \<and> in_layer_meta (mg_db n) = in_layer_meta (mg_db m) \<and>
       hm_get (in_staged (mg_db n)) (lh_id h) = None \<and>
       mg_heads n = mg_heads m \<and> mg_def_layers n = mg_def_layers m \<and> mg_indexes n = mg_indexes m \<and>
       lm_layer n = (lm_layer m)(lh_id h \<mapsto> layer\<lparr>ly_state := LAborted\<rparr>))"
proof -
  have "reader_view (snd (mem_abort l db)) = reader_view db" for l db
    by (rule reader_view_same) (simp_all add: same_log_def mem_abort_def)
  then show ?thesis
    using commit_rejected[OF mg_reachable_inv[OF assms(1)] assms(2)[unfolded lm_layer_def] assms(3,4)]
    by (auto simp: mem_abort_def lm_layer_def fun_eq_iff)
qed


text \<open>Whatever the order in which layers commit, the head of a branch is the highest of
  its committed layers, and a branch with none has no head.\<close>

theorem head_is_highest_committed:
  assumes "mg_reachable m"
  shows "lm_head m b = Some x \<longleftrightarrow>
      (\<exists>layer. lm_layer m x = Some layer \<and> ly_state layer = LCommitted \<and> ly_branch layer = b) \<and>
      (\<forall>l layer. lm_layer m l = Some layer \<longrightarrow> ly_state layer = LCommitted \<longrightarrow> ly_branch layer = b \<longrightarrow> l \<le> x)"
proof -
  have h: "case lm_head m b of None \<Rightarrow> \<forall>l. \<not> committed_on m b l
      | Some x \<Rightarrow> committed_on m b x \<and> (\<forall>l. committed_on m b l \<longrightarrow> l \<le> x)"
    using mg_invD(4)[OF mg_reachable_inv[OF assms]] unfolding heads_ok_def by blast
  have "lm_head m b = Some x \<longleftrightarrow> committed_on m b x \<and> (\<forall>l. committed_on m b l \<longrightarrow> l \<le> x)"
    using h by (cases "lm_head m b") (auto intro: order.antisym)
  then show ?thesis by (auto simp: committed_on_def lm_layer_def)
qed

text \<open>Property C2. Guards are the conflict detector. A read set checked against a branch passes
  exactly when no committed source layer on the branch's ancestry, later than \<open>since\<close> and within the
  ancestry's bounds, has an event that wrote one of the cells; otherwise the error names the first
  such cell of the set and the earliest layer that wrote it.\<close>

theorem guards_detect_conflicts:
  assumes "mg_reachable m" "lm_read_path m b None = Inr path"
  shows "(check_reads m b cells since = Inr () \<longleftrightarrow>
      (\<forall>c \<in> set cells. \<forall>l. \<not> touched_on m path since c l)) \<and>
    (check_reads m b cells since = Inl (GuardViolated c since l) \<longleftrightarrow>
      (\<exists>pre post. cells = pre @ c # post \<and> touched_on m path since c l \<and>
         (\<forall>k. touched_on m path since c k \<longrightarrow> l \<le> k) \<and>
         (\<forall>d \<in> set pre. \<forall>k. \<not> touched_on m path since d k)))"
  using check_touched_ok[OF mg_reachable_inv[OF assms(1)], of path cells since]
    check_touched_violated[OF mg_reachable_inv[OF assms(1)], of path cells since c since l]
  by (simp add: check_reads_def assms(2))

text \<open>The shortcut of a round's merge is safe: when the branch has not moved since a
  layer at or above every fork point of its ancestry, every read set checked since that layer
  passes, so the guard set need not be built.\<close>

theorem unmoved_branch_passes_every_guard:
  assumes "mg_reachable m" "lm_read_path m b None = Inr path"
    and "touched_since m b since = Inr False" "\<forall>(b', bound) \<in> set (tl path). bound \<le> since"
  shows "check_reads m b cells since = Inr ()"
  using untouched_passes[OF mg_reachable_inv[OF assms(1)] assms(2-4)] .

text \<open>The settled ceiling is the greatest layer of the branch below which nothing is
  unsettled: no committed layer of the branch at or below it is unsettled, and every layer with that
  property is at or below it.\<close>

theorem settled_ceiling_is_greatest:
  assumes "mg_reachable m" "\<forall>layer \<in> set (layers_of m b). ly_id layer \<noteq> 0"
  shows "(\<forall>layer \<in> set (layers_of m b). ly_id layer \<le> settled_ceiling m b w \<longrightarrow>
      (case ly_author layer of ASource \<Rightarrow> ly_id layer \<le> w | ADerived _ reflects \<Rightarrow> reflects \<le> w)) \<and>
    (\<forall>layer \<in> set (layers_of m b).
      (\<forall>x \<in> set (layers_of m b). ly_id x \<le> ly_id layer \<longrightarrow>
         (case ly_author x of ASource \<Rightarrow> ly_id x \<le> w | ADerived _ reflects \<Rightarrow> reflects \<le> w)) \<longrightarrow>
      ly_id layer \<le> settled_ceiling m b w)"
proof -
  have "distinct (map ly_id (layers_of m b))"
    by (rule distinct_layer_ids[OF mg_invD(2)[OF mg_reachable_inv[OF assms(1)]]])
  from settled_ceiling_props[OF this assms(2), where w = w]
  show ?thesis by (simp add: no_gap_below_def settled_layer_def)
qed

text \<open>A layer is opened once and leaves the open state once: from any reachable manager
  on it keeps its id, branch, kind, author and parent, and a committed or aborted layer stays so.\<close>

theorem layer_life_is_one_way:
  assumes "mg_reachable m" "mg_step\<^sup>*\<^sup>* m n" "lm_layer m l = Some layer"
  shows "\<exists>layer'. lm_layer n l = Some layer' \<and> layer_grows layer layer'"
proof -
  have "mg_inv n \<and> (\<exists>layer'. lm_layer n l = Some layer' \<and> layer_grows layer layer')"
    using assms(2)
  proof (induction rule: rtranclp_induct)
    case base
    then show ?case using mg_reachable_inv[OF assms(1)] assms(3) by auto
  next
    case (step n p)
    then obtain layer' where l: "lm_layer n l = Some layer'" "layer_grows layer layer'" by blast
    from layers_step[OF step.hyps(2) _ l(1)] step.IH
    obtain layer'' where "lm_layer p l = Some layer''" "layer_grows layer' layer''" by blast
    then show ?case using l(2) step.IH step.hyps(2) by (auto intro: layer_grows_trans mg_inv_step)
  qed
  then show ?thesis by blast
qed

section \<open>Witnesses\<close>

text \<open>A client layer that writes one cell on branch 1 and commits, then a second one, guarded on that
  cell since before the first.\<close>

definition s_layer :: "layer_id \<Rightarrow> layer_id option \<Rightarrow> layer" where
  "s_layer l parent = \<lparr>ly_id = l, ly_branch = 1, ly_kind = LKValue, ly_author = ASource,
     ly_state = LOpen, ly_parent = parent, ly_guards = []\<rparr>"

definition s_handle :: "layer_id \<Rightarrow> layer_id option \<Rightarrow> handle" where
  "s_handle l parent = \<lparr>lh_layer = s_layer l parent\<rparr>"

definition s_guard :: guard where
  "s_guard = \<lparr>gd_cells = [w_cell], gd_since = 0\<rparr>"

definition s_event :: event where "s_event = draft_event 1 w_cell w_draft 1"

definition s_start :: manager where
  "s_start = with_projections [TouchIndex] (manager_new mem_new 1 indexes_new)"
definition s_open :: manager where "s_open = snd (lm_open 1 LKValue ASource s_start)"
definition s_written :: manager where "s_written = snd (lm_put (s_handle 1 None) w_cell w_draft s_open)"
definition s_committed :: manager where "s_committed = snd (lm_commit (s_handle 1 None) s_written)"
definition s_second :: manager where "s_second = snd (lm_open 1 LKValue ASource s_committed)"

lemma s_written_state:
  "s_written = s_start\<lparr>mg_next := 2, mg_layers := [(1, s_layer 1 None)],
     mg_db := mem_new\<lparr>in_next_event := 1, in_staged := [(1, \<lparr>sl_branch = 1, sl_members = [1],
       sl_authored = [s_event], sl_defs = [], sl_sealed = False\<rparr>)]\<rparr>\<rparr>"
  by (simp add: s_written_def s_open_def s_start_def s_handle_def s_layer_def s_event_def lm_put_def lh_id_def
      on_db_def lm_open_def next_layer_id_def with_projections_def manager_new_def open_layer_def mem_new_def
      put_staged_def author_event_def mint_def staged_def lm_head_def Let_def)

definition s_db :: inner where
  "s_db = mem_new\<lparr>in_events := [Some s_event], in_members := [(1, \<lparr>mb_branch = 1, mb_events = [1]\<rparr>)],
     in_reads := [(1, [(w_cell, [(DefVersion 1, [(1, 1)])])])], in_def_contents := [(1, [])],
     in_layer_meta := [(1, (s_layer 1 None)\<lparr>ly_state := LCommitted\<rparr>)], in_next_event := 1\<rparr>"

lemma s_commit_db:
  "commit_db (s_handle 1 None) \<lparr>sl_branch = 1, sl_members = [1], sl_authored = [s_event], sl_defs = [], sl_sealed = False\<rparr>
     (mg_db s_written) = s_db"
  by (simp add: commit_db_def s_handle_def lh_id_def s_layer_def s_written_state s_db_def put_staged_def
      put_layer_meta_def commit_layer_def mem_new_def store_def slot_of_def event_at_def index_event_def
      hm_modify_def s_event_def draft_event_def w_draft_def Let_def)

lemma s_inv: "mg_reachable s_start" "mg_reachable s_open" "mg_reachable s_written"
  "mg_reachable s_committed" "mg_reachable s_second" "handle_ok s_written (s_handle 1 None)"
proof -
  have "TouchIndex \<in> set [TouchIndex]" by simp
  then show 0: "mg_reachable s_start" unfolding mg_reachable_def s_start_def by blast
  have n: "mg_next s_start \<noteq> - 1" by (simp add: s_start_def with_projections_def manager_new_def)
  show 1: "mg_reachable s_open" unfolding s_open_def by (rule mg_reachable_step[OF 0 mg_step.Open[OF n]])
  show 2: "mg_reachable s_written" unfolding s_written_def by (rule mg_reachable_step[OF 1 mg_step.Put])
  show h: "handle_ok s_written (s_handle 1 None)"
    by (simp add: handle_ok_def s_written_state s_handle_def lh_id_def s_layer_def)
  show 3: "mg_reachable s_committed" unfolding s_committed_def by (rule mg_reachable_step[OF 2 mg_step.Commit[OF h]])
  have "lm_commit (s_handle 1 None) s_written = (Inr 1, commit_manager (s_handle 1 None) (s_layer 1 None)
      \<lparr>sl_branch = 1, sl_members = [1], sl_authored = [s_event], sl_defs = [], sl_sealed = False\<rparr> s_written)"
    using commit_accepted[OF mg_reachable_inv[OF 2], of "s_handle 1 None" "s_layer 1 None"]
    by (simp add: s_written_state s_handle_def lh_id_def s_layer_def check_guards_def)
  then have "mg_next s_committed = 2" by (simp add: s_committed_def log_simps) (simp add: s_written_state)
  then have n2: "mg_next s_committed \<noteq> - 1" by simp
  show "mg_reachable s_second" unfolding s_second_def by (rule mg_reachable_step[OF 3 mg_step.Open[OF n2]])
qed

lemma s_committed_state:
  "s_committed = s_start\<lparr>mg_next := 2,
     mg_layers := [(1, (s_layer 1 None)\<lparr>ly_state := LCommitted\<rparr>)], mg_heads := [(1, 1)], mg_db := s_db,
     mg_indexes := indexes_new\<lparr>ix_touch :=
       \<lparr>ti_cells = [(1, [(w_cell, [1])])], ti_highest = [(1, 1)], ti_position = 1\<rparr>\<rparr>\<rparr>"
proof -
  let ?s = "\<lparr>sl_branch = 1, sl_members = [1], sl_authored = [s_event], sl_defs = [], sl_sealed = False\<rparr>"
  have "lm_commit (s_handle 1 None) s_written =
      (Inr 1, commit_manager (s_handle 1 None) (s_layer 1 None) ?s s_written)"
    using commit_accepted[OF mg_reachable_inv[OF s_inv(3)], of "s_handle 1 None" "s_layer 1 None"]
    by (simp add: s_written_state s_handle_def lh_id_def s_layer_def check_guards_def)
  moreover have "events_of s_db 1 = [s_event]"
    by (simp add: events_of_def read_membership_def s_db_def stored_def event_at_def slot_of_def)
  then have ev: "commit_events s_db ((lh_layer (s_handle 1 None))\<lparr>ly_state := LCommitted\<rparr>) [TouchIndex] = [s_event]"
    by (simp add: commit_events_def is_source_def touch_wants_def s_handle_def s_layer_def)
  have mem: "mg_members s_written = [TouchIndex]" "mg_def_layers s_written = []"
    by (simp_all add: s_written_state s_start_def with_projections_def manager_new_def)
  ultimately have "s_committed = commit_manager (s_handle 1 None) (s_layer 1 None) ?s s_written"
    by (simp add: s_committed_def)
  then show ?thesis
    unfolding commit_manager_def Let_def mem ev s_commit_db
    by (simp add: s_written_state)
       (simp add: s_handle_def s_layer_def lh_id_def
         s_start_def with_projections_def manager_new_def raise_head_def hm_modify_def committed_layer_def
         apply_members_def touch_apply_def touch_record_def indexes_new_def touch_new_def s_event_def
         draft_event_def push_history_def reached_def)
qed

lemma s_second_state:
  "s_second = s_committed\<lparr>mg_next := 3,
     mg_layers := [(1, (s_layer 1 None)\<lparr>ly_state := LCommitted\<rparr>), (2, s_layer 2 (Some 1))],
     mg_db := put_staged 2 \<lparr>sl_branch = 1, sl_members = [], sl_authored = [], sl_defs = [], sl_sealed = False\<rparr> s_db\<rparr>"
  using lm_open_cases[OF mg_reachable_inv[OF s_inv(4)] _ refl refl, of 1 LKValue ASource]
  by (simp add: s_second_def s_committed_state lm_head_def) (simp add: s_layer_def)

lemma s_path: "lm_read_path s_second 1 None = Inr [(1, 1)]" "lm_read_path s_committed 1 None = Inr [(1, 1)]"
  unfolding lm_read_path_iff
  by (rule ancestry.Root[of _ 1 _ 1] | simp add: start_bound_def lm_head_def parent_link_def origin_of_def
      lm_branch_def s_second_state s_committed_state s_start_def with_projections_def manager_new_def)+

lemmas s_start_defs = s_start_def with_projections_def manager_new_def

lemma read_path_is_ancestry_witness:
  "lm_read_path s_committed 1 (Some 1) = Inr [(1, 1)] \<and> (\<exists>path. lm_read_path s_committed 2 None = Inr path)"
proof -
  have none: "parent_link s_committed b = None" for b
    by (simp add: parent_link_def origin_of_def lm_branch_def s_committed_state s_start_defs)
  then have "links_down (parent_link s_committed)" by (simp add: links_down_def)
  then have "\<exists>path. lm_read_path s_committed 2 None = Inr path"
    using read_path_is_ancestry[of s_committed 2 None "[]"] by blast
  moreover have "lm_read_path s_committed 1 (Some 1) = Inr [(1, 1)]"
    using read_path_is_ancestry[of s_committed 1 "Some 1" "[(1, 1)]"]
      ancestry.Root[of "parent_link s_committed" 1 "Some 1" 1] none by simp
  ultimately show ?thesis by blast
qed

lemma s_guard_fails:
  "check_guards s_second 1 [s_guard] None = Inl (GuardViolated w_cell 0 1)"
proof -
  have db: "mg_db s_second = put_staged 2 \<lparr>sl_branch = 1, sl_members = [], sl_authored = [], sl_defs = [], sl_sealed = False\<rparr> s_db"
    by (simp add: s_second_state)
  have reads: "in_reads (mg_db s_second) = [(1, [(w_cell, [(DefVersion 1, [(1, 1)])])])]"
    by (simp add: db put_staged_def s_db_def)
  have ev: "event_of (mg_db s_second) 1 = Inr s_event"
    by (simp add: db event_of_def stored_def put_staged_def s_db_def event_at_def slot_of_def)
  have "cell_versions (mg_db s_second) [(1, 1)] w_cell = [DefVersion 1]"
    by (simp add: cell_versions_def segment_versions_def reads hm_get_or_def)
  moreover have "get_cell (mg_db s_second) [(1, 1)] w_cell (DefVersion 1) =
      Inr (Some \<lparr>ld_event = s_event, ld_at = 1\<rparr>)"
    by (simp add: history_at_def reads newest_at_def ev)
  moreover have "ev_origin s_event = OSource" by (simp add: s_event_def draft_event_def w_draft_def)
  ultimately have "check_underived (mg_db s_second) [(1, 1)] [w_cell] = Inr ()"
    by (simp add: is_derived_anywhere_def)
  moreover have "first_touched_since (ix_touch (mg_indexes s_second)) [(1, 1)] [w_cell] 0 = Some (w_cell, 1)"
    by (simp add: s_second_state s_committed_state touch_lookup_def history_of_def earlier.simps)
  ultimately show ?thesis
    by (simp add: check_guards_def s_guard_def s_path check_touched_def)
qed

lemma rejected_commit_leaves_no_trace_witness:
  "fst (lm_commit (add_guard s_guard (s_handle 2 (Some 1))) s_second) = Inl (GuardViolated w_cell 0 1) \<and>
   reader_view (mg_db (snd (lm_commit (add_guard s_guard (s_handle 2 (Some 1))) s_second))) =
   reader_view (mg_db s_second)"
proof -
  let ?h = "add_guard s_guard (s_handle 2 (Some 1))"
  have h: "lh_id ?h = 2" "ly_branch (lh_layer ?h) = 1" "ly_guards (lh_layer ?h) = [s_guard]"
    by (simp_all add: add_guard_def s_handle_def s_layer_def lh_id_def)
  have "lm_layer s_second (lh_id ?h) = Some (s_layer 2 (Some 1))" by (simp add: h lm_layer_def s_second_state)
  moreover have "ly_state (s_layer 2 (Some 1)) = LOpen" by (simp add: s_layer_def)
  ultimately show ?thesis
    using rejected_commit_leaves_no_trace[OF s_inv(5), of ?h "s_layer 2 (Some 1)"] s_guard_fails
    by (simp add: h Let_def)
qed


lemma head_is_highest_committed_witness:
  "\<exists>layer. lm_layer s_committed 1 = Some layer \<and> ly_state layer = LCommitted \<and> ly_branch layer = 1"
proof -
  have "lm_head s_committed 1 = Some 1" by (simp add: lm_head_def s_committed_state)
  with head_is_highest_committed[OF s_inv(4), of 1 1] show ?thesis by blast
qed

lemma s_touched: "touched_on s_second [(1, 1)] 0 w_cell l \<longleftrightarrow> l = 1"
proof -
  have w: "writes_cell (mg_db s_second) 1 w_cell"
    unfolding writes_cell_def
    by (rule exI[of _ 1], rule exI[of _ s_event])
       (simp add: s_second_state read_membership_def put_staged_def s_db_def stored_def event_at_def
         slot_of_def s_event_def draft_event_def)
  show ?thesis
    by (auto simp: touched_on_def source_write_def s_second_state s_layer_def is_source_def
        w[unfolded s_second_state, simplified] split: if_splits)
qed

lemma guards_detect_conflicts_witness:
  "check_reads s_second 1 [w_cell] 0 = Inl (GuardViolated w_cell 0 1) \<and> check_reads s_second 1 [] 0 = Inr ()"
proof -
  have "\<exists>pre post. [w_cell] = pre @ w_cell # post \<and> touched_on s_second [(1, 1)] 0 w_cell 1 \<and>
      (\<forall>k. touched_on s_second [(1, 1)] 0 w_cell k \<longrightarrow> 1 \<le> k) \<and>
      (\<forall>d \<in> set pre. \<forall>k. \<not> touched_on s_second [(1, 1)] 0 d k)"
    by (intro exI[of _ "[]"]) (simp add: s_touched)
  then show ?thesis
    using guards_detect_conflicts[OF s_inv(5) s_path(1), of "[w_cell]" 0 w_cell 1]
      guards_detect_conflicts[OF s_inv(5) s_path(1), of "[]" 0 w_cell 1] by (simp only: set_simps) blast
qed

lemma unmoved_branch_passes_every_guard_witness:
  "check_reads s_second 1 [w_cell] 1 = Inr ()"
proof (rule unmoved_branch_passes_every_guard[OF s_inv(5) s_path(1)])
  show "touched_since s_second 1 1 = Inr False"
    unfolding touched_since_def s_path(1) by (simp add: s_second_state s_committed_state moved_since_def)
qed simp

lemma settled_ceiling_is_greatest_witness: "1 \<le> settled_ceiling s_committed 1 1"
proof -
  have "layers_of s_committed 1 = [(s_layer 1 None)\<lparr>ly_state := LCommitted\<rparr>]"
    by (simp add: layers_of_def s_committed_state s_layer_def)
  with settled_ceiling_is_greatest[OF s_inv(4), of 1 1] show ?thesis by (simp add: s_layer_def)
qed

lemma layer_life_is_one_way_witness:
  "\<exists>layer'. lm_layer s_second 1 = Some layer' \<and> layer_grows ((s_layer 1 None)\<lparr>ly_state := LCommitted\<rparr>) layer'"
proof (rule layer_life_is_one_way[OF s_inv(4)])
  have "mg_next s_committed \<noteq> - 1" by (simp add: s_committed_state)
  then have "mg_step s_committed s_second" unfolding s_second_def by (rule mg_step.Open)
  then show "mg_step\<^sup>*\<^sup>* s_committed s_second" by blast
  show "lm_layer s_committed 1 = Some ((s_layer 1 None)\<lparr>ly_state := LCommitted\<rparr>)"
    by (simp add: lm_layer_def s_committed_state)
qed

end
