(* ===== verification/Transactions.thy ===== *)
theory Transactions
  imports Cells
begin

text \<open>
  \<^verbatim>\<open>borg-core/src/transaction.rs\<close>: the bookkeeping of a client transaction and of a derivation
  round. A \<^verbatim>\<open>BTreeSet\<close> is a set whose iteration is its sorted list, a \<^verbatim>\<open>BTreeMap\<close> an ordered
  association list. The worklist of \<open>cascade\<close> is a recursion over (dropped, frontier), with the
  top of the frontier first; it terminates because every push drops a new layer of the round.
\<close>

section \<open>Client transactions\<close>

record transaction =
  tx_branch :: branch_id
  tx_parent :: branch_id
  tx_fork_point :: layer_id
  tx_reads :: "cell_at set"
  tx_writes :: "cell_ref set"

definition tx_new :: "branch_id \<Rightarrow> branch_id \<Rightarrow> layer_id \<Rightarrow> transaction" where
  "tx_new b p fork =
     \<lparr>tx_branch = b, tx_parent = p, tx_fork_point = fork, tx_reads = {}, tx_writes = {}\<rparr>"

definition tx_observe :: "cell_at \<Rightarrow> transaction \<Rightarrow> transaction" where
  "tx_observe read tx =
     (if ca_cell read \<notin> tx_writes tx then tx\<lparr>tx_reads := insert read (tx_reads tx)\<rparr> else tx)"

definition tx_wrote :: "cell_ref \<Rightarrow> transaction \<Rightarrow> transaction" where
  "tx_wrote c tx = tx\<lparr>tx_writes := insert c (tx_writes tx)\<rparr>"

definition tx_guards :: "transaction \<Rightarrow> cell_ref list" where
  "tx_guards tx = sorted_list_of_set (ca_cell ` tx_reads tx)"

definition tx_size :: "transaction \<Rightarrow> nat \<times> nat" where
  "tx_size tx = (card (tx_reads tx), card (tx_writes tx))"

section \<open>Rounds\<close>

record accesses =
  ac_reads :: "cell_at list"
  ac_writes :: "cell_at list"

record round =
  rd_branch :: branch_id
  rd_parent :: branch_id
  rd_fork_point :: layer_id
  rd_invocations :: "(layer_id, accesses) btmap"

definition round_new :: "branch_id \<Rightarrow> branch_id \<Rightarrow> layer_id \<Rightarrow> round" where
  "round_new b p fork =
     \<lparr>rd_branch = b, rd_parent = p, rd_fork_point = fork, rd_invocations = []\<rparr>"

definition round_ran :: "layer_id \<Rightarrow> cell_at list \<Rightarrow> cell_at list \<Rightarrow> round \<Rightarrow> round" where
  "round_ran layer reads writes r =
     r\<lparr>rd_invocations := bt_insert layer \<lparr>ac_reads = reads, ac_writes = writes\<rparr> (rd_invocations r)\<rparr>"

definition round_layers :: "round \<Rightarrow> layer_id list" where
  "round_layers r = map fst (rd_invocations r)"

definition round_is_empty :: "round \<Rightarrow> bool" where
  "round_is_empty r \<longleftrightarrow> rd_invocations r = []"

definition round_produced :: "round \<Rightarrow> cell_at set" where
  "round_produced r = \<Union> (set (map (\<lambda>(_, iv). set (ac_writes iv)) (rd_invocations r)))"

definition round_guards :: "round \<Rightarrow> (layer_id \<times> cell_ref list) list" where
  "round_guards r =
     (let produced = round_produced r in
      map (\<lambda>(layer, iv). (layer, map ca_cell (filter (\<lambda>at. at \<notin> produced) (ac_reads iv))))
          (rd_invocations r))"

text \<open>\<^verbatim>\<open>readers.get(cell)\<close>: the layers that read the cell, one entry per read.\<close>

definition readers :: "round \<Rightarrow> cell_ref \<Rightarrow> layer_id list" where
  "readers r c =
     concat (map (\<lambda>(layer, iv). map (\<lambda>_. layer) (filter (\<lambda>read. ca_cell read = c) (ac_reads iv)))
                 (rd_invocations r))"

fun drop_consumer :: "layer_id \<Rightarrow> layer_id set \<times> layer_id list \<Rightarrow> layer_id set \<times> layer_id list" where
  "drop_consumer consumer (dropped, frontier) =
     (if consumer \<in> dropped then (dropped, frontier)
      else (insert consumer dropped, consumer # frontier))"

definition consumers_of :: "round \<Rightarrow> layer_id \<Rightarrow> layer_id list" where
  "consumers_of r layer =
     (case map_of (rd_invocations r) layer of
        None \<Rightarrow> []
      | Some iv \<Rightarrow> concat (map (\<lambda>w. readers r (ca_cell w)) (ac_writes iv)))"

lemma readers_layers: "set (readers r c) \<subseteq> fst ` set (rd_invocations r)"
  by (force simp: readers_def)

lemma consumers_of_layers: "set (consumers_of r l) \<subseteq> fst ` set (rd_invocations r)"
  using readers_layers by (fastforce simp: consumers_of_def split: option.splits)

lemma drop_consumers_set:
  "fst (fold drop_consumer cs (d, f)) = d \<union> set cs \<and>
   set (snd (fold drop_consumer cs (d, f))) = set f \<union> (set cs - d)"
  by (induction cs arbitrary: d f) auto

lemma drop_consumers_none: "set cs \<subseteq> d \<Longrightarrow> fold drop_consumer cs (d, f) = (d, f)"
  by (induction cs) auto

function cascade_loop :: "round \<Rightarrow> layer_id set \<Rightarrow> layer_id list \<Rightarrow> layer_id set" where
  "cascade_loop r dropped [] = dropped"
| "cascade_loop r dropped (layer # frontier) =
     (let s = fold drop_consumer (consumers_of r layer) (dropped, frontier)
      in cascade_loop r (fst s) (snd s))"
  by pat_completeness auto
termination
proof (relation "measures [\<lambda>(r, d, f). card (fst ` set (rd_invocations r) - d), \<lambda>(r, d, f). length f]")
  fix r d layer f s
  assume s: "s = fold drop_consumer (consumers_of r layer) (d, f)"
  let ?K = "fst ` set (rd_invocations r)"
  show "((r, fst s, snd s), (r, d, layer # f)) \<in>
      measures [\<lambda>(r, d, f). card (fst ` set (rd_invocations r) - d), \<lambda>(r, d, f). length f]"
  proof (cases "set (consumers_of r layer) \<subseteq> d")
    case True
    with s show ?thesis by (simp add: drop_consumers_none)
  next
    case False
    then obtain c where c: "c \<in> set (consumers_of r layer)" "c \<notin> d" by auto
    have "fst s = d \<union> set (consumers_of r layer)" using s drop_consumers_set by simp
    then have "?K - fst s \<subset> ?K - d" using c consumers_of_layers[of r layer] by auto
    then have "card (?K - fst s) < card (?K - d)" by (intro psubset_card_mono) auto
    then show ?thesis by (simp add: case_prod_unfold)
  qed
qed simp

definition cascade :: "round \<Rightarrow> layer_id set \<Rightarrow> layer_id set" where
  "cascade r failed =
     (if failed = {} then {} else cascade_loop r failed (rev (sorted_list_of_set failed)))"

section \<open>Transactions: what the guards are\<close>

datatype tx_op = Observe cell_at | Wrote cell_ref

fun tx_step :: "tx_op \<Rightarrow> transaction \<Rightarrow> transaction" where
  "tx_step (Observe read) tx = tx_observe read tx"
| "tx_step (Wrote c) tx = tx_wrote c tx"

definition tx_run :: "tx_op list \<Rightarrow> transaction \<Rightarrow> transaction" where
  "tx_run ops tx = fold tx_step ops tx"

text \<open>The specification: the records read before the transaction wrote their cell.\<close>

fun read_first :: "cell_ref set \<Rightarrow> tx_op list \<Rightarrow> cell_at set" where
  "read_first W [] = {}"
| "read_first W (Observe read # ops) =
     (if ca_cell read \<in> W then {} else {read}) \<union> read_first W ops"
| "read_first W (Wrote c # ops) = read_first (insert c W) ops"

lemma tx_run_reads:
  "tx_reads (tx_run ops tx) = tx_reads tx \<union> read_first (tx_writes tx) ops"
proof (induction ops arbitrary: tx)
  case (Cons op ops)
  have "tx_reads (tx_run ops (tx_step op tx)) =
      tx_reads (tx_step op tx) \<union> read_first (tx_writes (tx_step op tx)) ops"
    by (rule Cons.IH)
  then show ?case by (cases op) (auto simp: tx_run_def tx_observe_def tx_wrote_def)
qed (simp add: tx_run_def)

lemma read_first_finite [simp]: "finite (read_first W ops)"
  by (induction W ops rule: read_first.induct) auto

lemma read_first_iff:
  "at \<in> read_first W ops \<longleftrightarrow>
   (\<exists>pre post. ops = pre @ Observe at # post \<and> ca_cell at \<notin> W \<and> Wrote (ca_cell at) \<notin> set pre)"
proof (induction W ops rule: read_first.induct)
  case (2 W read ops)
  show ?case
  proof
    assume "at \<in> read_first W (Observe read # ops)"
    then consider "at = read" "ca_cell read \<notin> W" | "at \<in> read_first W ops" by (auto split: if_splits)
    then show "\<exists>pre post. Observe read # ops = pre @ Observe at # post \<and> ca_cell at \<notin> W \<and> Wrote (ca_cell at) \<notin> set pre"
    proof cases
      case 1
      then show ?thesis by (intro exI[of _ "[]"] exI[of _ ops]) simp
    next
      case 2
      then obtain pre post where "ops = pre @ Observe at # post" "ca_cell at \<notin> W" "Wrote (ca_cell at) \<notin> set pre"
        using "2.IH" by blast
      then show ?thesis by (intro exI[of _ "Observe read # pre"] exI[of _ post]) simp
    qed
  next
    assume "\<exists>pre post. Observe read # ops = pre @ Observe at # post \<and> ca_cell at \<notin> W \<and> Wrote (ca_cell at) \<notin> set pre"
    then obtain pre post where "Observe read # ops = pre @ Observe at # post" "ca_cell at \<notin> W" "Wrote (ca_cell at) \<notin> set pre"
      by blast
    then show "at \<in> read_first W (Observe read # ops)"
      using "2.IH" by (cases pre) auto
  qed
next
  case (3 W c ops)
  show ?case
  proof
    assume "at \<in> read_first W (Wrote c # ops)"
    then obtain pre post where "ops = pre @ Observe at # post" "ca_cell at \<notin> insert c W" "Wrote (ca_cell at) \<notin> set pre"
      using "3.IH" by auto
    then show "\<exists>pre post. Wrote c # ops = pre @ Observe at # post \<and> ca_cell at \<notin> W \<and> Wrote (ca_cell at) \<notin> set pre"
      by (intro exI[of _ "Wrote c # pre"] exI[of _ post]) auto
  next
    assume "\<exists>pre post. Wrote c # ops = pre @ Observe at # post \<and> ca_cell at \<notin> W \<and> Wrote (ca_cell at) \<notin> set pre"
    then obtain pre post where "Wrote c # ops = pre @ Observe at # post" "ca_cell at \<notin> W" "Wrote (ca_cell at) \<notin> set pre"
      by blast
    then show "at \<in> read_first W (Wrote c # ops)"
      using "3.IH" by (cases pre) auto
  qed
qed simp

section \<open>Rounds: the cascade is a closure\<close>

text \<open>\<open>consumes r f l\<close>: invocation \<open>l\<close> read a cell that invocation \<open>f\<close> wrote.\<close>

definition consumes :: "round \<Rightarrow> layer_id \<Rightarrow> layer_id \<Rightarrow> bool" where
  "consumes r f l \<longleftrightarrow> l \<in> set (consumers_of r f)"

lemma in_readers:
  "l \<in> set (readers r c) \<longleftrightarrow>
   (\<exists>iv read. (l, iv) \<in> set (rd_invocations r) \<and> read \<in> set (ac_reads iv) \<and> ca_cell read = c)"
  by (fastforce simp: readers_def)

lemma consumes_iff:
  "consumes r f l \<longleftrightarrow>
   (\<exists>iv iv' w read. map_of (rd_invocations r) f = Some iv \<and> w \<in> set (ac_writes iv) \<and>
      (l, iv') \<in> set (rd_invocations r) \<and> read \<in> set (ac_reads iv') \<and> ca_cell read = ca_cell w)"
  by (cases "map_of (rd_invocations r) f") (simp_all add: consumes_def consumers_of_def in_readers, blast)

lemma cascade_loop_closure:
  "set frontier \<subseteq> dropped \<Longrightarrow> dropped \<subseteq> C \<Longrightarrow>
   (\<And>f l. f \<in> C \<Longrightarrow> consumes r f l \<Longrightarrow> l \<in> C) \<Longrightarrow>
   (\<And>f l. f \<in> dropped - set frontier \<Longrightarrow> consumes r f l \<Longrightarrow> l \<in> dropped) \<Longrightarrow>
   dropped \<subseteq> cascade_loop r dropped frontier \<and> cascade_loop r dropped frontier \<subseteq> C \<and>
   (\<forall>f l. f \<in> cascade_loop r dropped frontier \<longrightarrow> consumes r f l \<longrightarrow> l \<in> cascade_loop r dropped frontier)"
proof (induction r dropped frontier rule: cascade_loop.induct)
  case (2 r dropped layer frontier)
  let ?s = "fold drop_consumer (consumers_of r layer) (dropped, frontier)"
  have s: "fst ?s = dropped \<union> set (consumers_of r layer)"
    "set (snd ?s) = set frontier \<union> (set (consumers_of r layer) - dropped)"
    using drop_consumers_set by auto
  have "layer \<in> C" using "2.prems"(1,2) by auto
  then have sub: "fst ?s \<subseteq> C" using s "2.prems"(2,3) by (auto simp: consumes_def)
  have closed: "l \<in> fst ?s" if "f \<in> fst ?s - set (snd ?s)" "consumes r f l" for f l
  proof (cases "f = layer")
    case True
    with that show ?thesis by (simp add: s consumes_def)
  next
    case False
    with that s have "f \<in> dropped - set (layer # frontier)" by auto
    with that(2) "2.prems"(4) show ?thesis by (auto simp: s)
  qed
  have "set (snd ?s) \<subseteq> fst ?s" using s "2.prems"(1) by auto
  note step = "2.IH"[OF refl this sub]
  have "fst ?s \<subseteq> cascade_loop r (fst ?s) (snd ?s) \<and> cascade_loop r (fst ?s) (snd ?s) \<subseteq> C \<and>
    (\<forall>f l. f \<in> cascade_loop r (fst ?s) (snd ?s) \<longrightarrow> consumes r f l \<longrightarrow> l \<in> cascade_loop r (fst ?s) (snd ?s))"
    by (rule step) (erule (1) "2.prems"(3), erule (1) closed)
  then show ?case unfolding cascade_loop.simps Let_def using s(1) by blast
qed simp

lemma cascade_eq:
  assumes "finite failed"
  shows "cascade r failed = {l. \<exists>f \<in> failed. (consumes r)\<^sup>*\<^sup>* f l}"
proof (cases "failed = {}")
  case False
  let ?C = "{l. \<exists>f \<in> failed. (consumes r)\<^sup>*\<^sup>* f l}"
  let ?X = "cascade_loop r failed (rev (sorted_list_of_set failed))"
  have "failed \<subseteq> ?X \<and> ?X \<subseteq> ?C \<and> (\<forall>f l. f \<in> ?X \<longrightarrow> consumes r f l \<longrightarrow> l \<in> ?X)"
    using assms by (intro cascade_loop_closure) (auto intro: rtranclp.rtrancl_into_rtrancl)
  moreover have "l \<in> ?X" if "(consumes r)\<^sup>*\<^sup>* f l" "f \<in> ?X" "\<forall>f l. f \<in> ?X \<longrightarrow> consumes r f l \<longrightarrow> l \<in> ?X" for f l
    using that by (induction rule: rtranclp_induct) blast+
  ultimately have "?X = ?C" by blast
  with False show ?thesis by (simp add: cascade_def)
qed (simp add: cascade_def)

section \<open>Rounds: order does not matter\<close>

type_synonym invocation = "layer_id \<times> cell_at list \<times> cell_at list"

definition round_run :: "invocation list \<Rightarrow> round \<Rightarrow> round" where
  "round_run invs r = fold (\<lambda>(layer, reads, writes). round_ran layer reads writes) invs r"

lemma round_run_invocations:
  "rd_invocations (round_run invs r) =
     fold (\<lambda>(layer, reads, writes). bt_insert layer \<lparr>ac_reads = reads, ac_writes = writes\<rparr>)
       invs (rd_invocations r)"
  by (induction invs arbitrary: r) (auto simp: round_run_def round_ran_def)

lemma round_run_frame:
  "rd_branch (round_run invs r) = rd_branch r \<and> rd_parent (round_run invs r) = rd_parent r \<and>
   rd_fork_point (round_run invs r) = rd_fork_point r"
  by (induction invs arbitrary: r) (auto simp: round_run_def round_ran_def)

lemma round_run_ok: "bt_ok (rd_invocations r) \<Longrightarrow> bt_ok (rd_invocations (round_run invs r))"
  by (induction invs arbitrary: r) (simp_all add: round_run_def round_ran_def bt_ok_insert split_beta)

lemma round_run_get:
  "distinct (map fst invs) \<Longrightarrow>
   map_of (rd_invocations (round_run invs r)) k =
     (case map_of invs k of
        Some (reads, writes) \<Rightarrow> Some \<lparr>ac_reads = reads, ac_writes = writes\<rparr>
      | None \<Rightarrow> map_of (rd_invocations r) k)"
proof (induction invs arbitrary: r)
  case (Cons i invs)
  obtain l rs ws where i: "i = (l, rs, ws)" by (cases i)
  have "l \<notin> fst ` set invs" using Cons.prems i by simp
  then have "map_of invs l = None" by (simp add: map_of_eq_None_iff)
  then show ?case using Cons
    by (auto simp: i round_run_def round_ran_def split: option.splits)
qed (simp add: round_run_def)

lemma round_guards_layers: "map fst (round_guards r) = round_layers r"
  by (simp add: round_guards_def round_layers_def Let_def comp_def case_prod_unfold)

lemma in_round_produced:
  "at \<in> round_produced r \<longleftrightarrow>
   (\<exists>layer iv. (layer, iv) \<in> set (rd_invocations r) \<and> at \<in> set (ac_writes iv))"
  by (force simp: round_produced_def)

lemma in_round_guards:
  "(\<exists>cells. (layer, cells) \<in> set (round_guards r) \<and> c \<in> set cells) \<longleftrightarrow>
   (\<exists>iv at. (layer, iv) \<in> set (rd_invocations r) \<and> at \<in> set (ac_reads iv) \<and>
      at \<notin> round_produced r \<and> c = ca_cell at)"
  by (fastforce simp: round_guards_def Let_def)

section \<open>Properties\<close>

text \<open>The guards of a client transaction, after any sequence of observed reads and
  recorded writes, are the distinct cells in ascending order of the reads that came before the
  transaction wrote their cell: a read of the transaction's own write is dropped, a read before a
  write (compare-and-swap) is kept.\<close>

theorem tx_guards_spec:
  "set (tx_guards (tx_run ops (tx_new b p fork))) =
     {c. \<exists>pre v post. ops = pre @ Observe (CellAt c v) # post \<and> Wrote c \<notin> set pre} \<and>
   sorted_wrt (<) (tx_guards (tx_run ops (tx_new b p fork)))"
proof -
  have reads: "tx_reads (tx_run ops (tx_new b p fork)) = read_first {} ops"
    by (simp add: tx_run_reads tx_new_def)
  have "ca_cell ` read_first {} ops =
      {c. \<exists>pre v post. ops = pre @ Observe (CellAt c v) # post \<and> Wrote c \<notin> set pre}"
  proof (intro set_eqI iffI)
    fix c assume "c \<in> ca_cell ` read_first {} ops"
    then obtain at where "at \<in> read_first {} ops" "c = ca_cell at" by auto
    then show "c \<in> {c. \<exists>pre v post. ops = pre @ Observe (CellAt c v) # post \<and> Wrote c \<notin> set pre}"
      by (cases at) (auto simp: read_first_iff)
  next
    fix c assume "c \<in> {c. \<exists>pre v post. ops = pre @ Observe (CellAt c v) # post \<and> Wrote c \<notin> set pre}"
    then obtain pre v post where "ops = pre @ Observe (CellAt c v) # post" "Wrote c \<notin> set pre" by blast
    then have "CellAt c v \<in> read_first {} ops" by (auto simp: read_first_iff)
    then show "c \<in> ca_cell ` read_first {} ops" by (rule rev_image_eqI) simp
  qed
  moreover have "set (sorted_list_of_set (ca_cell ` read_first {} ops)) = ca_cell ` read_first {} ops"
    "sorted_wrt (<) (sorted_list_of_set (ca_cell ` read_first {} ops))" by simp_all
  ultimately show ?thesis unfolding tx_guards_def reads by (simp only:)
qed

text \<open>A cell is guarded for an invocation of a round exactly when the invocation read
  a record of it that no invocation of the round produced. So a migration that reads \<open>C@v1\<close> and
  writes \<open>C@v9\<close> still guards \<open>C\<close>, and no guard rests on a record the round produced itself.\<close>

theorem round_guards_spec:
  assumes "bt_ok (rd_invocations r)" "map_of (rd_invocations r) layer = Some iv"
  shows "\<exists>cells. map_of (round_guards r) layer = Some cells \<and>
    set cells = {c. \<exists>v. CellAt c v \<in> set (ac_reads iv) \<and>
      (\<forall>layer' iv'. (layer', iv') \<in> set (rd_invocations r) \<longrightarrow> CellAt c v \<notin> set (ac_writes iv'))}"
proof -
  let ?cells = "map ca_cell (filter (\<lambda>at. at \<notin> round_produced r) (ac_reads iv))"
  have "map_of (round_guards r) layer = Some ?cells"
    using assms(2) by (simp add: round_guards_def Let_def map_of_map)
  moreover have "c \<in> set ?cells \<longleftrightarrow> (\<exists>v. CellAt c v \<in> set (ac_reads iv) \<and> CellAt c v \<notin> round_produced r)" for c
    by (auto simp: image_iff) (metis cell_at.collapse)+
  ultimately show ?thesis by (auto simp: in_round_produced)
qed

text \<open>Property C39. The layers a round drops when some of its layers failed are exactly those
  reached from a failed layer by any number of steps "wrote a cell that the next one read": the
  worklist ends, drops nothing else, and what is kept is closed under consumption.\<close>

theorem cascade_is_closure:
  assumes "finite failed"
  shows "l \<in> cascade r failed \<longleftrightarrow>
    (\<exists>f \<in> failed. (\<lambda>f l. \<exists>iv iv' w read. map_of (rd_invocations r) f = Some iv \<and>
       w \<in> set (ac_writes iv) \<and> (l, iv') \<in> set (rd_invocations r) \<and> read \<in> set (ac_reads iv') \<and>
       ca_cell read = ca_cell w)\<^sup>*\<^sup>* f l)"
proof -
  have "consumes r = (\<lambda>f l. \<exists>iv iv' w read. map_of (rd_invocations r) f = Some iv \<and>
       w \<in> set (ac_writes iv) \<and> (l, iv') \<in> set (rd_invocations r) \<and> read \<in> set (ac_reads iv') \<and>
       ca_cell read = ca_cell w)"
    by (intro ext) (rule consumes_iff)
  then show ?thesis unfolding cascade_eq[OF assms] by simp
qed

text \<open>A round does not depend on the order in which its concurrently running
  invocations are recorded: two orders of the same invocations, each with its own layer, give the
  same round, hence the same guards and the same cascades.\<close>

theorem round_order_independent:
  assumes "distinct (map fst invs)" "set invs' = set invs" "distinct (map fst invs')"
  shows "round_run invs' (round_new b p fork) = round_run invs (round_new b p fork)"
proof -
  have "map_of invs' = map_of invs" using assms by (metis map_of_inject_set)
  then have "map_of (rd_invocations (round_run invs' (round_new b p fork))) =
      map_of (rd_invocations (round_run invs (round_new b p fork)))"
    using assms by (simp add: fun_eq_iff round_run_get)
  then have "rd_invocations (round_run invs' (round_new b p fork)) =
      rd_invocations (round_run invs (round_new b p fork))"
    by (intro bt_eqI round_run_ok) (simp_all add: round_new_def)
  then show ?thesis
    using round_run_frame[of invs "round_new b p fork"] round_run_frame[of invs' "round_new b p fork"]
    by (intro round.equality) simp_all
qed

section \<open>Witnesses\<close>

text \<open>A migration round: layer 5 reads \<open>C@1\<close> and writes \<open>C@9\<close>; layer 6 reads \<open>C@9\<close>.\<close>

definition sample_cell :: cell_ref where
  "sample_cell = cell_prop ''Company'' ''tier'' (Allocated PObject 0 0 1)"

definition sample_round :: round where
  "sample_round =
     round_run [(6, [CellAt sample_cell (DefVersion 9)], []),
                (5, [CellAt sample_cell (DefVersion 1)], [CellAt sample_cell (DefVersion 9)])]
       (round_new 2 1 4)"

lemma sample_round_invocations:
  "rd_invocations sample_round =
     [(5, \<lparr>ac_reads = [CellAt sample_cell (DefVersion 1)], ac_writes = [CellAt sample_cell (DefVersion 9)]\<rparr>),
      (6, \<lparr>ac_reads = [CellAt sample_cell (DefVersion 9)], ac_writes = []\<rparr>)]"
  by (simp add: sample_round_def round_run_def round_ran_def round_new_def)

lemma round_guards_spec_witness:
  "\<exists>cells. map_of (round_guards sample_round) 5 = Some cells \<and> set cells = {sample_cell}"
proof -
  have "bt_ok (rd_invocations sample_round)" by (simp add: sample_round_invocations bt_ok_def)
  moreover have "map_of (rd_invocations sample_round) 5 =
      Some \<lparr>ac_reads = [CellAt sample_cell (DefVersion 1)], ac_writes = [CellAt sample_cell (DefVersion 9)]\<rparr>"
    by (simp add: sample_round_invocations)
  ultimately show ?thesis
    using round_guards_spec[of sample_round 5] by (simp add: sample_round_invocations)
qed

lemma cascade_is_closure_witness: "6 \<in> cascade sample_round {5}"
proof -
  have "\<exists>f \<in> {5}. (\<lambda>f l. \<exists>iv iv' w read. map_of (rd_invocations sample_round) f = Some iv \<and>
       w \<in> set (ac_writes iv) \<and> (l, iv') \<in> set (rd_invocations sample_round) \<and> read \<in> set (ac_reads iv') \<and>
       ca_cell read = ca_cell w)\<^sup>*\<^sup>* f (6 :: u64)"
    by (auto simp: sample_round_invocations intro!: r_into_rtranclp)
  then show ?thesis using cascade_is_closure[of "{5}" 6 sample_round] by simp
qed

lemma round_order_independent_witness:
  "round_run [(5, [], []), (6, [], [])] (round_new 2 1 4) =
   round_run [(6, [], []), (5, [], [])] (round_new 2 1 4)"
  using round_order_independent[of "[(6, [], []), (5, [], [])]" "[(5, [], []), (6, [], [])]" 2 1 4]
  by (simp add: insert_commute)

end
