(* ===== verification/Branch_Merge.thy ===== *)
theory Branch_Merge
  imports Layer_Properties Transactions
begin

text \<open>
  \<^verbatim>\<open>borg-engine/src/branch.rs\<close>: forks, and the three merges (a branch, a client transaction, a
  derivation round). The branch manager's own state is the id counter; everything else is the
  layer manager's, and a merge does not move the counter, so it is a function on \<open>manager\<close>.
  \<^verbatim>\<open>next_branch\<close> loops until it finds an unused id, so it is a partial function.
\<close>

section \<open>Branches\<close>

record branches =
  bm_layers :: manager
  bm_next_id :: u64

text \<open>\<open>None\<close> is the overflow of \<open>b.id.0 + 1\<close>.\<close>

definition resuming :: "manager \<Rightarrow> u64 \<Rightarrow> branches option" where
  "resuming m next_id =
     (if list_ex (\<lambda>b. br_id b = - 1) (lm_branches m) then None
      else Some \<lparr>bm_layers = m, bm_next_id = fold max (map (\<lambda>b. br_id b + 1) (lm_branches m)) next_id\<rparr>)"

definition roots :: "manager \<Rightarrow> branch_id list" where
  "roots m = map br_id (filter (\<lambda>b. br_origin b = None) (lm_branches m))"

definition unused_branch :: "manager \<Rightarrow> branch_id \<Rightarrow> bool" where
  "unused_branch m b \<longleftrightarrow> lm_branch m b = None \<and> lm_head m b = None"

partial_function (option) next_branch_loop :: "manager \<Rightarrow> u64 \<Rightarrow> (branch_id \<times> u64) option" where
  "next_branch_loop m n = (if unused_branch m n then Some (n, n + 1) else next_branch_loop m (n + 1))"

definition next_branch :: "branches \<Rightarrow> branch_id result \<times> branches" where
  "next_branch bm =
     (case next_branch_loop (bm_layers bm) (bm_next_id bm) of
        None \<Rightarrow> (Inl (RustPanic ''next_branch does not return''), bm)
      | Some (b, n) \<Rightarrow> (Inr b, bm\<lparr>bm_next_id := n\<rparr>))"

definition persist :: "branch \<Rightarrow> branches \<Rightarrow> branches" where
  "persist b bm =
     (let m = register_branch b (bm_layers bm)
      in bm\<lparr>bm_layers := m\<lparr>mg_db := put_branch b (mg_db m)\<rparr>\<rparr>)"

definition create_root :: "string option \<Rightarrow> branches \<Rightarrow> branch_id result \<times> branches" where
  "create_root name bm =
     (case next_branch bm of
        (Inl err, bm) \<Rightarrow> (Inl err, bm)
      | (Inr b, bm) \<Rightarrow> (Inr b, persist \<lparr>br_id = b, br_name = name, br_origin = None\<rparr> bm))"

definition fork_branch :: "branch_id \<Rightarrow> layer_id \<Rightarrow> string option \<Rightarrow> branches \<Rightarrow> branch_id result \<times> branches" where
  "fork_branch parent at name bm =
     (case lm_layer (bm_layers bm) at of
        None \<Rightarrow> (Inl (StorageError (UnknownLayer at)), bm)
      | Some layer \<Rightarrow>
          if ly_branch layer \<noteq> parent then (Inl (LayerNotOnBranch at parent), bm)
          else (case next_branch bm of
                  (Inl err, bm) \<Rightarrow> (Inl err, bm)
                | (Inr b, bm) \<Rightarrow> (Inr b, persist \<lparr>br_id = b, br_name = name, br_origin = Some at\<rparr> bm)))"

definition parent_of :: "manager \<Rightarrow> branch_id \<Rightarrow> branch_id option" where
  "parent_of m b =
     (case lm_branch m b of None \<Rightarrow> None
      | Some branch \<Rightarrow> (case br_origin branch of None \<Rightarrow> None
          | Some origin \<Rightarrow> (case lm_layer m origin of None \<Rightarrow> None
              | Some layer \<Rightarrow> Some (ly_branch layer))))"

section \<open>What a merge looks at\<close>

definition rejection :: "borg_error \<Rightarrow> borg_error" where
  "rejection violation =
     (case violation of GuardViolated cell _ _ \<Rightarrow> MergeRejected (GuardConflict cell) | other \<Rightarrow> other)"

definition replayable_layers :: "manager \<Rightarrow> branch_id \<Rightarrow> merge_mode \<Rightarrow> layer_id list" where
  "replayable_layers m child mode =
     map ly_id (sort_key ly_id
       (filter (\<lambda>layer. case mode of DefOnly \<Rightarrow> ly_kind layer = LKDef | DefAndData \<Rightarrow> True)
         (filter is_source (layers_of m child))))"

fun add_touched :: "def_event \<Rightarrow> (object_type_name \<times> field_name) list \<Rightarrow> (object_type_name \<times> field_name) list" where
  "add_touched event acc =
     (case def_touches event of
        Some key \<Rightarrow> if key \<notin> set acc then acc @ [key] else acc
      | None \<Rightarrow> acc)"

definition defs_touched_since :: "manager \<Rightarrow> branch_id \<Rightarrow> layer_id \<Rightarrow> (object_type_name \<times> field_name) list" where
  "defs_touched_since m parent fork_point =
     fold (\<lambda>layer acc.
             if ly_kind layer \<noteq> LKDef \<or> ly_id layer \<le> fork_point then acc
             else fold add_touched (read_def_layer (mg_db m) (ly_id layer)) acc)
       (layers_of m parent) []"

definition contents_of :: "manager \<Rightarrow> layer_id \<Rightarrow> event list result" where
  "contents_of m l = collect_rows (read_layer (mg_db m) l)"

fun dangling_loop :: "inner \<Rightarrow> read_path \<Rightarrow> layer_id \<Rightarrow> event list \<Rightarrow> unit result" where
  "dangling_loop db path fork_point [] = Inr ()"
| "dangling_loop db path fork_point (event # events) =
     (let existence = existence_of (ev_cell event) in
      if existence = ev_cell event then dangling_loop db path fork_point events
      else (case get_cell db path existence UNVERSIONED of
              Inl err \<Rightarrow> Inl err
            | Inr found \<Rightarrow>
                (case found of
                   None \<Rightarrow> dangling_loop db path fork_point events
                 | Some ld \<Rightarrow>
                     if is_tombstone (ev_value (ld_event ld)) \<and> ld_at ld > fork_point
                     then Inl (MergeRejected (DanglingWrite (ev_cell event) (ld_at ld)))
                     else dangling_loop db path fork_point events)))"

definition check_dangling :: "manager \<Rightarrow> branch_id \<Rightarrow> layer_id \<Rightarrow> event list \<Rightarrow> unit result" where
  "check_dangling m parent fork_point events =
     (case lm_read_path m parent None of
        Inl err \<Rightarrow> Inl err
      | Inr path \<Rightarrow> dangling_loop (mg_db m) path fork_point events)"

section \<open>Replay\<close>

fun diverged :: "(object_type_name \<times> field_name) list \<Rightarrow> def_event list \<Rightarrow> object_type_name option" where
  "diverged moved [] = None"
| "diverged moved (event # events) =
     (case def_touches event of
        Some key \<Rightarrow> if key \<in> set moved then Some (fst key) else diverged moved events
      | None \<Rightarrow> diverged moved events)"

text \<open>The first loop of \<open>replay\<close>: every layer is validated before any is written.\<close>

fun validate_layers ::
  "manager \<Rightarrow> branch_id \<Rightarrow> layer_id \<Rightarrow> (object_type_name \<times> field_name) list \<Rightarrow> layer_id list \<Rightarrow>
   event list list result" where
  "validate_layers m parent origin moved [] = Inr []"
| "validate_layers m parent origin moved (l # ls) =
     (case diverged moved (read_def_layer (mg_db m) l) of
        Some struct_name \<Rightarrow> Inl (MergeRejected (DefDiverged struct_name))
      | None \<Rightarrow>
          (case contents_of m l of
             Inl err \<Rightarrow> Inl err
           | Inr events \<Rightarrow>
               (case check_guards m parent (case lm_layer m l of Some layer \<Rightarrow> ly_guards layer | None \<Rightarrow> []) (Some origin) of
                  Inl violation \<Rightarrow> Inl (rejection violation)
                | Inr _ \<Rightarrow>
                    (case check_dangling m parent origin events of
                       Inl err \<Rightarrow> Inl err
                     | Inr _ \<Rightarrow>
                         (case validate_layers m parent origin moved ls of
                            Inl err \<Rightarrow> Inl err
                          | Inr later \<Rightarrow> Inr (events # later))))))"

fun put_all_defs :: "handle \<Rightarrow> def_event list \<Rightarrow> manager \<Rightarrow> unit result \<times> manager" where
  "put_all_defs h [] m = (Inr (), m)"
| "put_all_defs h (d # ds) m =
     (case lm_put_def h d m of (Inl err, m) \<Rightarrow> (Inl err, m) | (Inr _, m) \<Rightarrow> put_all_defs h ds m)"

fun include_all :: "handle \<Rightarrow> event_id list \<Rightarrow> manager \<Rightarrow> unit result \<times> manager" where
  "include_all h [] m = (Inr (), m)"
| "include_all h (e # es) m =
     (case lm_include h e m of (Inl err, m) \<Rightarrow> (Inl err, m) | (Inr _, m) \<Rightarrow> include_all h es m)"

definition replay_layer :: "branch_id \<Rightarrow> layer_id \<Rightarrow> event list \<Rightarrow> manager \<Rightarrow> layer_id result \<times> manager" where
  "replay_layer parent source events m =
     (case lm_open parent (case lm_layer m source of Some layer \<Rightarrow> ly_kind layer | None \<Rightarrow> LKValue) ASource m of
        (Inl err, m) \<Rightarrow> (Inl err, m)
      | (Inr h, m) \<Rightarrow>
          (case put_all_defs h (read_def_layer (mg_db m) source) m of
             (Inl err, m) \<Rightarrow> (Inl err, m)
           | (Inr _, m) \<Rightarrow>
               (case include_all h (map ev_id events) m of
                  (Inl err, m) \<Rightarrow> (Inl err, m)
                | (Inr _, m) \<Rightarrow> lm_commit h m)))"

fun apply_layers ::
  "branch_id \<Rightarrow> (layer_id \<times> event list) list \<Rightarrow> layer_id list \<Rightarrow> manager \<Rightarrow> layer_id list result \<times> manager" where
  "apply_layers parent [] replayed m = (Inr replayed, m)"
| "apply_layers parent ((source, events) # rest) replayed m =
     (case replay_layer parent source events m of
        (Inl err, m) \<Rightarrow> (Inl err, m)
      | (Inr l, m) \<Rightarrow> apply_layers parent rest (replayed @ [l]) m)"

definition replay ::
  "branch_id \<Rightarrow> branch_id \<Rightarrow> layer_id \<Rightarrow> merge_mode \<Rightarrow> cell_ref list \<Rightarrow> manager \<Rightarrow>
   layer_id list result \<times> manager" where
  "replay child parent origin mode reads m =
     (case check_reads m parent reads origin of
        Inl violation \<Rightarrow> (Inl (rejection violation), m)
      | Inr _ \<Rightarrow>
          (let replayable = replayable_layers m child mode;
               moved = defs_touched_since m parent origin
           in case validate_layers m parent origin moved replayable of
                Inl err \<Rightarrow> (Inl err, m)
              | Inr contents \<Rightarrow> apply_layers parent (zip replayable contents) [] m))"

definition merge_branch :: "branch_id \<Rightarrow> merge_mode \<Rightarrow> manager \<Rightarrow> layer_id list result \<times> manager" where
  "merge_branch child mode m =
     (case origin_of m child of
        None \<Rightarrow> (Inl (StorageError CannotMergeRoot), m)
      | Some origin \<Rightarrow>
          (case parent_of m child of
             None \<Rightarrow> (Inl (StorageError ChildHasNoParent), m)
           | Some parent \<Rightarrow> replay child parent origin mode [] m))"

definition merge_transaction :: "transaction \<Rightarrow> merge_mode \<Rightarrow> manager \<Rightarrow> layer_id list result \<times> manager" where
  "merge_transaction tx mode m =
     replay (tx_branch tx) (tx_parent tx) (tx_fork_point tx) mode (tx_guards tx) m"

section \<open>Rounds\<close>

record round_outcome =
  ro_executed :: nat
  ro_landed :: "layer_id list"
  ro_applied :: nat
  ro_rejected :: "(layer_id \<times> cell_ref) list"
  ro_cascaded :: nat

fun deleted_loop :: "inner \<Rightarrow> layer_id \<Rightarrow> layer list \<Rightarrow> cell_ref set \<Rightarrow> cell_ref set result" where
  "deleted_loop db fork_point [] deleted = Inr deleted"
| "deleted_loop db fork_point (layer # layers) deleted =
     (if ly_id layer \<le> fork_point \<or> \<not> is_source layer then deleted_loop db fork_point layers deleted
      else (case collect_rows (read_layer db (ly_id layer)) of
              Inl err \<Rightarrow> Inl err
            | Inr events \<Rightarrow>
                deleted_loop db fork_point layers
                  (deleted \<union> ev_cell ` set (filter (\<lambda>event. is_tombstone (ev_value event) \<and>
                     existence_of (ev_cell event) = ev_cell event) events))))"

definition deleted_since :: "manager \<Rightarrow> branch_id \<Rightarrow> layer_id \<Rightarrow> cell_ref set result" where
  "deleted_since m parent fork_point = deleted_loop (mg_db m) fork_point (layers_of m parent) {}"

text \<open>The loop over the round's guards; only a guard violation counts, as in the \<open>if let\<close>.\<close>

fun guard_failures ::
  "manager \<Rightarrow> branch_id \<Rightarrow> layer_id \<Rightarrow> (layer_id \<times> cell_ref list) list \<Rightarrow> (layer_id \<times> cell_ref) list" where
  "guard_failures m parent fork_point [] = []"
| "guard_failures m parent fork_point ((layer, guards) # rest) =
     (case check_reads m parent guards fork_point of
        Inl (GuardViolated cell _ _) \<Rightarrow> (layer, cell) # guard_failures m parent fork_point rest
      | _ \<Rightarrow> guard_failures m parent fork_point rest)"

text \<open>The stream of one layer, read up to the first write to a deleted object.\<close>

fun first_deleted :: "cell_ref set \<Rightarrow> event result list \<Rightarrow> cell_ref option result" where
  "first_deleted deleted [] = Inr None"
| "first_deleted deleted (row # rows) =
     (case row of
        Inl err \<Rightarrow> Inl err
      | Inr event \<Rightarrow>
          if existence_of (ev_cell event) \<in> deleted then Inr (Some (existence_of (ev_cell event)))
          else first_deleted deleted rows)"

fun deletion_failures ::
  "inner \<Rightarrow> cell_ref set \<Rightarrow> layer_id set \<Rightarrow> layer_id list \<Rightarrow> (layer_id \<times> cell_ref) list result" where
  "deletion_failures db deleted failed [] = Inr []"
| "deletion_failures db deleted failed (layer # layers) =
     (if layer \<in> failed then deletion_failures db deleted failed layers
      else (case first_deleted deleted (read_layer db layer) of
              Inl err \<Rightarrow> Inl err
            | Inr found \<Rightarrow>
                (case deletion_failures db deleted failed layers of
                   Inl err \<Rightarrow> Inl err
                 | Inr rest \<Rightarrow> Inr (case found of None \<Rightarrow> rest | Some cell \<Rightarrow> (layer, cell) # rest))))"

fun add_to_group ::
  "layer_author \<Rightarrow> layer_id \<Rightarrow> (layer_author \<times> layer_id list) list \<Rightarrow> (layer_author \<times> layer_id list) list" where
  "add_to_group author layer [] = [(author, [layer])]"
| "add_to_group author layer ((seen, carried) # groups) =
     (if seen = author then (seen, carried @ [layer]) # groups
      else (seen, carried) # add_to_group author layer groups)"

definition by_producer :: "manager \<Rightarrow> layer_id list \<Rightarrow> (layer_author \<times> layer_id list) list" where
  "by_producer m layers =
     fold (\<lambda>layer. add_to_group (case author_of m layer of Some a \<Rightarrow> a | None \<Rightarrow> ASource) layer) layers []"

definition land_group ::
  "branch_id \<Rightarrow> layer_author \<Rightarrow> layer_id list \<Rightarrow> manager \<Rightarrow> layer_id option result \<times> manager" where
  "land_group parent author carried m =
     (case lm_open parent LKValue author m of
        (Inl err, m) \<Rightarrow> (Inl err, m)
      | (Inr h, m) \<Rightarrow>
          (let named = concat (map (read_membership (mg_db m)) carried) in
           case include_all h named m of
             (Inl err, m) \<Rightarrow> (Inl err, m)
           | (Inr _, m) \<Rightarrow>
               if named = [] then
                 (case lm_abort h m of (Inl err, m) \<Rightarrow> (Inl err, m) | (Inr _, m) \<Rightarrow> (Inr None, m))
               else
                 (case lm_commit h m of (Inl err, m) \<Rightarrow> (Inl err, m) | (Inr l, m) \<Rightarrow> (Inr (Some l), m))))"

fun land_groups ::
  "branch_id \<Rightarrow> (layer_author \<times> layer_id list) list \<Rightarrow> layer_id list \<Rightarrow> manager \<Rightarrow> layer_id list result \<times> manager" where
  "land_groups parent [] landed m = (Inr landed, m)"
| "land_groups parent ((author, carried) # groups) landed m =
     (case land_group parent author carried m of
        (Inl err, m) \<Rightarrow> (Inl err, m)
      | (Inr None, m) \<Rightarrow> land_groups parent groups landed m
      | (Inr (Some l), m) \<Rightarrow> land_groups parent groups (landed @ [l]) m)"

text \<open>What the validation of a round rejects outright, in the order of the report.\<close>

definition round_rejections :: "round \<Rightarrow> manager \<Rightarrow> (layer_id \<times> cell_ref) list result" where
  "round_rejections r m =
     (case touched_since m (rd_parent r) (rd_fork_point r) of
        Inl err \<Rightarrow> Inl err
      | Inr moved \<Rightarrow>
          (let guarded = (if moved then guard_failures m (rd_parent r) (rd_fork_point r) (round_guards r) else [])
           in case deleted_since m (rd_parent r) (rd_fork_point r) of
                Inl err \<Rightarrow> Inl err
              | Inr deleted \<Rightarrow>
                  (case (if deleted = {} then Inr []
                         else deletion_failures (mg_db m) deleted (fst ` set guarded) (round_layers r)) of
                     Inl err \<Rightarrow> Inl err
                   | Inr dangling \<Rightarrow> Inr (guarded @ dangling))))"

definition merge_round :: "round \<Rightarrow> manager \<Rightarrow> round_outcome result \<times> manager" where
  "merge_round r m =
     (if round_is_empty r
      then (Inr \<lparr>ro_executed = 0, ro_landed = [], ro_applied = 0, ro_rejected = [], ro_cascaded = 0\<rparr>, m)
      else
        (case round_rejections r m of
           Inl err \<Rightarrow> (Inl err, m)
         | Inr rejected \<Rightarrow>
             (let failed = fst ` set rejected;
                  dropped = cascade r failed;
                  applied = filter (\<lambda>layer. layer \<notin> dropped) (round_layers r)
              in case land_groups (rd_parent r) (by_producer m applied) [] m of
                   (Inl err, m) \<Rightarrow> (Inl err, m)
                 | (Inr landed, m) \<Rightarrow>
                     (Inr \<lparr>ro_executed = 0, ro_landed = landed, ro_applied = length applied,
                           ro_rejected = rejected, ro_cascaded = card dropped - card failed\<rparr>, m))))"

end
