(* ===== verification/Merge_Contract.thy ===== *)
theory Merge_Contract
  imports Branch_Merge
begin

text \<open>
  What the operations of \<^verbatim>\<open>branch.rs\<close> do to a manager that satisfies its invariant: a layer filled and
  committed in one go, the replay of a list of layers, what validation sees, and what a round rejects.
\<close>

section \<open>Value layers hold no definitions\<close>

definition no_defs :: "manager \<Rightarrow> layer_id \<Rightarrow> bool" where
  "no_defs m l \<longleftrightarrow> read_def_layer (mg_db m) l = [] \<and>
     (\<forall>s. hm_get (in_staged (mg_db m)) l = Some s \<longrightarrow> sl_defs s = [])"

definition kinds_ok :: "manager \<Rightarrow> bool" where
  "kinds_ok m \<longleftrightarrow>
     (\<forall>l. (\<forall>layer. lm_layer m l = Some layer \<longrightarrow> ly_kind layer = LKValue) \<longrightarrow> no_defs m l)"

lemma kinds_ok_frame:
  assumes "kinds_ok m"
    and "\<And>l. map_option ly_kind (lm_layer n l) = map_option ly_kind (lm_layer m l) \<and> (no_defs m l \<longrightarrow> no_defs n l) \<or>
      no_defs n l \<or> (\<exists>layer. lm_layer n l = Some layer \<and> ly_kind layer \<noteq> LKValue)"
  shows "kinds_ok n"
  unfolding kinds_ok_def
proof (intro allI impI)
  fix l assume v: "\<forall>layer. lm_layer n l = Some layer \<longrightarrow> ly_kind layer = LKValue"
  from assms(2)[of l] consider "no_defs n l"
    | "map_option ly_kind (lm_layer n l) = map_option ly_kind (lm_layer m l)" "no_defs m l \<longrightarrow> no_defs n l"
    using v by blast
  then show "no_defs n l"
  proof cases
    case 2
    have "ly_kind layer = LKValue" if "lm_layer m l = Some layer" for layer
      using that 2(1) v by (cases "lm_layer n l") auto
    then show ?thesis using assms(1) 2(2) unfolding kinds_ok_def by blast
  qed
qed

lemma commit_db_defs:
  assumes inv: "mem_inv db" and s: "hm_get (in_staged db) (lh_id h) = Some s"
  shows "hm_get (in_def_contents (commit_db h s db)) = (hm_get (in_def_contents db))(lh_id h \<mapsto> sl_defs s)"
proof -
  let ?s = "s\<lparr>sl_sealed := True\<rparr>"
  let ?db1 = "put_staged (lh_id h) ?s db"
  let ?db = "put_layer_meta ((lh_layer h)\<lparr>ly_state := LCommitted\<rparr>) ?db1"
  have 1: "mem_inv ?db1" using mem_inv_seal[OF inv, of "lh_id h"] s by (simp add: mem_seal_def)
  have 2: "mem_inv ?db" by (rule mem_inv_step[OF mem_step.Meta 1])
  have s2: "hm_get (in_staged ?db) (lh_id h) = Some ?s" "sl_sealed ?s"
    by (simp_all add: put_layer_meta_def put_staged_def)
  obtain events reads where c: "commit_layer (lh_id h) ?db = (Inr (), committed_state ?db (lh_id h) ?s events reads)"
    by (rule commit_cases[OF 2 s2]) (rule that)
  show ?thesis unfolding commit_db_def c by (simp add: put_layer_meta_def put_staged_def)
qed

lemma no_defs_abort: "no_defs m l \<Longrightarrow> no_defs (m\<lparr>mg_db := snd (mem_abort k (mg_db m)), mg_layers := x\<rparr>) l"
  by (simp add: no_defs_def mem_abort_def read_def_layer_def)

lemma no_defs_commit:
  assumes "mg_inv m" "hm_get (in_staged (mg_db m)) (lh_id h) = Some s" "no_defs m l"
  shows "no_defs (commit_manager h layer s m) l"
  using assms(2,3) commit_db_defs[OF mg_invD(1)[OF assms(1)] assms(2)]
    commit_db_facts(3)[OF mg_invD(1)[OF assms(1)] assms(2)]
  by (auto simp: no_defs_def read_def_layer_def log_simps)

lemma kinds_step: "mg_step m n \<Longrightarrow> mg_inv m \<Longrightarrow> kinds_ok m \<Longrightarrow> kinds_ok n"
proof (induction rule: mg_step.induct)
  case (Open m b kind author)
  have none: "lm_layer m (mg_next m) = None" using next_unused[OF Open.prems(1)] by (simp add: lm_layer_def)
  then have "no_defs m (mg_next m)" using Open.prems(2) by (simp add: kinds_ok_def)
  then show ?case
    unfolding lm_open_cases[OF Open.prems(1) Open.hyps refl refl] snd_conv
    by (intro kinds_ok_frame[OF Open.prems(2)])
       (auto simp: lm_layer_def no_defs_def put_staged_def read_def_layer_def)
next
  case (Put m h cell draft)
  then show ?case
    by (intro kinds_ok_frame[OF Put(2)] disjI1)
       (auto simp: lm_put_def on_db_snd lm_layer_def no_defs_def author_event_def mint_def put_staged_def
         staged_Inr read_def_layer_def split: sum.splits)
next
  case (Include m h e)
  then show ?case
    by (intro kinds_ok_frame[OF Include(2)] disjI1)
       (auto simp: lm_include_def on_db_snd lm_layer_def no_defs_def include_event_def put_staged_def
         staged_Inr read_def_layer_def split: sum.splits)
next
  case (Put_Def m h d)
  show ?case
  proof (cases "ly_kind (lh_layer h) = LKValue")
    case True
    then show ?thesis using Put_Def.prems by (simp add: lm_put_def_def)
  next
    case False
    obtain layer where l: "lm_layer m (lh_id h) = Some layer" "ly_kind layer \<noteq> LKValue"
      using Put_Def.hyps False by (auto simp: handle_ok_def lm_layer_def)
    have "lm_put_def h d m = on_db (mem_put_def (lh_id h) d) m" using False by (simp add: lm_put_def_def)
    moreover have "kinds_ok (snd (on_db (mem_put_def (lh_id h) d) m))"
    proof (rule kinds_ok_frame[OF Put_Def.prems(2)])
      fix k
      show "map_option ly_kind (lm_layer (snd (on_db (mem_put_def (lh_id h) d) m)) k) =
          map_option ly_kind (lm_layer m k) \<and> (no_defs m k \<longrightarrow> no_defs (snd (on_db (mem_put_def (lh_id h) d) m)) k) \<or>
          no_defs (snd (on_db (mem_put_def (lh_id h) d) m)) k \<or>
          (\<exists>layer. lm_layer (snd (on_db (mem_put_def (lh_id h) d) m)) k = Some layer \<and> ly_kind layer \<noteq> LKValue)"
        using l by (cases "k = lh_id h")
          (auto simp: on_db_snd lm_layer_def no_defs_def mem_put_def_def put_staged_def
            staged_Inr read_def_layer_def split: sum.splits)
    qed
    ultimately show ?thesis by simp
  qed
next
  case (Commit m h)
  from Commit.prems(1) Commit.hyps show ?case
  proof (cases rule: commit_outcomes)
    case Closed
    then show ?thesis using Commit.prems(2) by simp
  next
    case (Rejected x)
    then show ?thesis
      unfolding Rejected(3)
      by (intro kinds_ok_frame[OF Commit.prems(2)] disjI1)
         (auto simp: lm_layer_def intro: no_defs_abort)
  next
    case (Accepted x s)
    then show ?thesis
      unfolding Accepted(4)
      by (intro kinds_ok_frame[OF Commit.prems(2)] disjI1)
         (auto simp: lm_layer_def log_simps no_defs_commit[OF Commit.prems(1)])
  qed
next
  case (Abort m h x)
  then have x: "hm_get (mg_layers m) (lh_id h) = Some x" by (simp add: lm_layer_def)
  show ?case
    unfolding abort_outcome[OF Abort.prems(1) x Abort.hyps(3)] snd_conv
    using x by (intro kinds_ok_frame[OF Abort.prems(2)] disjI1) (auto simp: lm_layer_def intro: no_defs_abort)
next
  case (Register m b)
  then show ?case
    by (intro kinds_ok_frame[OF Register(2)]) (simp add: register_branch_def lm_layer_def no_defs_def)
next
  case (Put_Branch m b)
  then show ?case
    by (intro kinds_ok_frame[OF Put_Branch(2)])
       (simp add: put_branch_def lm_layer_def no_defs_def read_def_layer_def)
next
  case (Intern m hash k bytes)
  then show ?case
    by (intro kinds_ok_frame[OF Intern(2)])
       (simp add: intern_def lm_layer_def no_defs_def read_def_layer_def split: sum.splits)
qed

lemma mg_reachable_kinds: "mg_reachable m \<Longrightarrow> kinds_ok m"
proof -
  have "mg_step\<^sup>*\<^sup>* m n \<Longrightarrow> mg_inv m \<Longrightarrow> kinds_ok m \<Longrightarrow> mg_inv n \<and> kinds_ok n" for m n
    by (induction rule: rtranclp_induct) (auto intro: mg_inv_step kinds_step)
  moreover have "kinds_ok (with_projections members (manager_new mem_new n indexes_new))" for members n
    by (simp add: kinds_ok_def no_defs_def read_def_layer_def mem_new_def with_projections_def manager_new_def)
  ultimately show "mg_reachable m \<Longrightarrow> kinds_ok m" unfolding mg_reachable_def using mg_inv_new by blast
qed

section \<open>Writing one layer\<close>

lemma hm_insert_same: "hm_get al k = Some v \<Longrightarrow> hm_insert k v al = al"
  by (rule update_triv)

lemma put_staged_put [simp]: "put_staged l s (put_staged l s' i) = put_staged l s i"
  by (simp add: put_staged_def)

lemma staged_put_staged [simp]: "hm_get (in_staged (put_staged l s i)) l = Some s"
  by (simp add: put_staged_def)

lemma stored_put_staged [simp]: "stored (put_staged l s i) = stored i"
  by (rule ext) (simp add: put_staged_def stored_def)

lemma include_all_ok:
  assumes "hm_get (in_staged (mg_db m)) (lh_id h) = Some s" "\<not> sl_sealed s"
    and "\<forall>e \<in> set es. stored (mg_db m) e \<noteq> None"
  shows "include_all h es m =
    (Inr (), m\<lparr>mg_db := put_staged (lh_id h) (s\<lparr>sl_members := sl_members s @ es\<rparr>) (mg_db m)\<rparr>)"
  using assms
proof (induction es arbitrary: m s)
  case Nil
  then show ?case by (simp add: put_staged_def hm_insert_same)
next
  case (Cons e es)
  let ?s = "s\<lparr>sl_members := sl_members s @ [e]\<rparr>"
  let ?m = "m\<lparr>mg_db := put_staged (lh_id h) ?s (mg_db m)\<rparr>"
  have "lm_include h e m = (Inr (), ?m)"
    using Cons.prems by (auto simp: lm_include_def on_db_def include_event_def staged_def)
  moreover have "include_all h es ?m =
      (Inr (), ?m\<lparr>mg_db := put_staged (lh_id h) (?s\<lparr>sl_members := sl_members ?s @ es\<rparr>) (mg_db ?m)\<rparr>)"
    using Cons.prems by (intro Cons.IH) simp_all
  ultimately show ?case by simp
qed

lemma put_all_defs_ok:
  assumes "hm_get (in_staged (mg_db m)) (lh_id h) = Some s" "\<not> sl_sealed s"
    and "ly_kind (lh_layer h) = LKValue \<longrightarrow> ds = []"
  shows "put_all_defs h ds m =
    (Inr (), m\<lparr>mg_db := put_staged (lh_id h) (s\<lparr>sl_defs := sl_defs s @ ds\<rparr>) (mg_db m)\<rparr>)"
  using assms
proof (induction ds arbitrary: m s)
  case Nil
  then show ?case by (simp add: put_staged_def hm_insert_same)
next
  case (Cons d ds)
  let ?s = "s\<lparr>sl_defs := sl_defs s @ [d]\<rparr>"
  let ?m = "m\<lparr>mg_db := put_staged (lh_id h) ?s (mg_db m)\<rparr>"
  have "lm_put_def h d m = (Inr (), ?m)"
    using Cons.prems by (auto simp: lm_put_def_def on_db_def mem_put_def_def staged_def)
  moreover have "put_all_defs h ds ?m =
      (Inr (), ?m\<lparr>mg_db := put_staged (lh_id h) (?s\<lparr>sl_defs := sl_defs ?s @ ds\<rparr>) (mg_db ?m)\<rparr>)"
    using Cons.prems by (intro Cons.IH) simp_all
  ultimately show ?case by simp
qed

lemma committed_reads:
  assumes inv: "mem_inv db" and s: "hm_get (in_staged db) (lh_id h) = Some s"
  shows "read_membership (commit_db h s db) = (read_membership db)(lh_id h := sl_members s)"
    and "read_def_layer (commit_db h s db) = (read_def_layer db)(lh_id h := sl_defs s)"
  by (simp_all add: fun_eq_iff read_membership_def read_def_layer_def commit_db_defs[OF assms] commit_db_facts(4)[OF assms])

lemma commit_manager_defs:
  "mg_def_layers (commit_manager h layer s m) = (if ly_kind (lh_layer h) = LKDef
     then hm_modify (ly_branch (lh_layer h)) [] (\<lambda>ls. ls @ [lh_id h]) (mg_def_layers m)
     else mg_def_layers m)"
  by (simp add: commit_manager_def Let_def)

text \<open>The provider but for the rows of layer \<open>l\<close>.\<close>

definition same_rows :: "layer_id set \<Rightarrow> inner \<Rightarrow> inner \<Rightarrow> bool" where
  "same_rows new i j \<longleftrightarrow>
     in_events j = in_events i \<and> in_branches j = in_branches i \<and> in_interned j = in_interned i \<and>
     (\<forall>k. k \<notin> new \<longrightarrow> hm_get (in_layer_meta j) k = hm_get (in_layer_meta i) k \<and>
        hm_get (in_staged j) k = hm_get (in_staged i) k \<and>
        read_membership j k = read_membership i k \<and> read_def_layer j k = read_def_layer i k)"

lemma same_rows_trans: "same_rows A i j \<Longrightarrow> same_rows B j k \<Longrightarrow> same_rows (A \<union> B) i k"
  by (simp add: same_rows_def)

lemma same_rows_commit:
  assumes inv: "mem_inv db" and s: "hm_get (in_staged db) (lh_id h) = Some s" "sl_authored s = []"
    and h: "lh_id h = ly_id (lh_layer h)"
  shows "same_rows {lh_id h} db (commit_db h s db)"
proof -
  let ?db = "put_layer_meta ((lh_layer h)\<lparr>ly_state := LCommitted\<rparr>) (put_staged (lh_id h) (s\<lparr>sl_sealed := True\<rparr>) db)"
  have "fst (commit_layer (lh_id h) ?db) = Inr ()" by (rule commit_db_facts(1)[OF inv s(1)])
  then have "in_events (commit_db h s db) = in_events db" "in_branches (commit_db h s db) = in_branches db"
    "in_interned (commit_db h s db) = in_interned db"
    "in_layer_meta (commit_db h s db) = in_layer_meta ?db"
    using s(2) by (auto simp: commit_db_def commit_layer_def put_layer_meta_def put_staged_def Let_def split: option.splits sum.splits prod.splits)
  then show ?thesis
    using h commit_db_facts(3,4)[OF inv s(1)] committed_reads[OF inv s(1)]
    by (auto simp: same_rows_def put_layer_meta_def put_staged_def)
qed

text \<open>A layer filled in one go and committed: what the next manager holds.\<close>

definition lands ::
  "manager \<Rightarrow> branch_id \<Rightarrow> layer_kind \<Rightarrow> layer_author \<Rightarrow> def_event list \<Rightarrow> event_id list \<Rightarrow> manager \<Rightarrow> bool" where
  "lands m b kind author ds es n \<longleftrightarrow>
     mg_inv n \<and> mg_next n = mg_next m + 1 \<and> lm_layer m (mg_next m) = None \<and>
     mg_branches n = mg_branches m \<and> mg_heads n = raise_head b (mg_next m) (mg_heads m) \<and>
     mg_def_layers n = (if kind = LKDef then hm_modify b [] (\<lambda>ls. ls @ [mg_next m]) (mg_def_layers m)
       else mg_def_layers m) \<and>
     (\<exists>layer. lm_layer n = (lm_layer m)(mg_next m \<mapsto> layer) \<and> ly_branch layer = b \<and> ly_kind layer = kind \<and>
        ly_author layer = author \<and> ly_state layer = LCommitted) \<and>
     read_membership (mg_db n) = (read_membership (mg_db m))(mg_next m := es) \<and>
     read_def_layer (mg_db n) = (read_def_layer (mg_db m))(mg_next m := ds) \<and>
     (\<forall>e ev. stored (mg_db m) e = Some ev \<longrightarrow> stored (mg_db n) e = Some ev) \<and>
     same_rows {mg_next m} (mg_db m) (mg_db n)"

lemma write_layer:
  assumes inv: "mg_inv m" and next_id: "mg_next m \<noteq> - 1"
    and es: "\<forall>e \<in> set es. stored (mg_db m) e \<noteq> None" and ds: "kind = LKValue \<longrightarrow> ds = []"
  obtains h m1 m2 m3 n where "lm_open b kind author m = (Inr h, m1)" "put_all_defs h ds m1 = (Inr (), m2)"
    "include_all h es m2 = (Inr (), m3)" "lm_commit h m3 = (Inr (mg_next m), n)"
    "lands m b kind author ds es n" "mg_db m1 = put_staged (mg_next m)
      \<lparr>sl_branch = b, sl_members = [], sl_authored = [], sl_defs = [], sl_sealed = False\<rparr> (mg_db m)"
proof -
  let ?l = "mg_next m"
  let ?layer = "\<lparr>ly_id = ?l, ly_branch = b, ly_kind = kind, ly_author = author,
      ly_state = LOpen, ly_parent = lm_head m b, ly_guards = []\<rparr>"
  let ?h = "\<lparr>lh_layer = ?layer\<rparr>"
  let ?new = "\<lparr>sl_branch = b, sl_members = [], sl_authored = [], sl_defs = [], sl_sealed = False\<rparr>"
  let ?m1 = "m\<lparr>mg_next := ?l + 1, mg_layers := hm_insert ?l ?layer (mg_layers m),
       mg_db := put_staged ?l ?new (mg_db m)\<rparr>"
  let ?s2 = "?new\<lparr>sl_defs := ds\<rparr>" and ?s3 = "?new\<lparr>sl_defs := ds, sl_members := es\<rparr>"
  let ?m2 = "?m1\<lparr>mg_db := put_staged ?l ?s2 (mg_db ?m1)\<rparr>"
  let ?m3 = "?m1\<lparr>mg_db := put_staged ?l ?s3 (mg_db ?m1)\<rparr>"
  let ?n = "commit_manager ?h ?layer ?s3 ?m3"
  have id: "lh_id ?h = ?l" by (simp add: lh_id_def)
  have o: "lm_open b kind author m = (Inr ?h, ?m1)" by (rule lm_open_cases[OF inv next_id refl refl])
  have d: "put_all_defs ?h ds ?m1 = (Inr (), ?m2)"
    using put_all_defs_ok[of ?m1 ?h ?new ds] ds by (simp add: id)
  have i: "include_all ?h es ?m2 = (Inr (), ?m3)"
    using include_all_ok[of ?m2 ?h ?s2 es] es by (simp add: id)
  have inv1: "mg_inv ?m1" using mg_inv_open[OF inv next_id, of b kind author] o by simp
  have "mg_inv (snd (put_all_defs h ds m))" if "mg_inv m" for h ds m
    using that
  proof (induction ds arbitrary: m)
    case (Cons d ds)
    from mg_inv_put_def[OF Cons.prems, of h d] Cons.IH show ?case by (auto split: prod.splits sum.splits)
  qed simp
  from this[OF inv1, of ?h ds] d have inv2: "mg_inv ?m2" by simp
  have "mg_inv (snd (include_all h es m))" if "mg_inv m" for h es m
    using that
  proof (induction es arbitrary: m)
    case (Cons e es)
    from mg_inv_include[OF Cons.prems, of h e] Cons.IH show ?case by (auto split: prod.splits sum.splits)
  qed simp
  from this[OF inv2, of ?h es] i have inv3: "mg_inv ?m3" by simp
  have layer: "hm_get (mg_layers ?m3) (lh_id ?h) = Some ?layer" "ly_state ?layer = LOpen"
    and s3: "hm_get (in_staged (mg_db ?m3)) (lh_id ?h) = Some ?s3" by (simp_all add: id)
  have c: "lm_commit ?h ?m3 = (Inr ?l, ?n)"
    using commit_accepted[OF inv3 layer s3] by (simp add: id check_guards_def)
  have invn: "mg_inv ?n" by (rule mg_inv_accept[OF inv3 layer _ _ s3]) simp_all
  have none: "lm_layer m ?l = None" using next_unused[OF inv] by (simp add: lm_layer_def)
  have L: "lands m b kind author ds es ?n"
    unfolding lands_def
  proof (intro conjI)
    show "\<exists>layer. lm_layer ?n = (lm_layer m)(?l \<mapsto> layer) \<and> ly_branch layer = b \<and> ly_kind layer = kind \<and>
        ly_author layer = author \<and> ly_state layer = LCommitted"
      by (rule exI[of _ "committed_layer ?h ?layer"]) (simp add: fun_eq_iff lm_layer_def log_simps id)
    show "read_membership (mg_db ?n) = (read_membership (mg_db m))(?l := es)"
      using committed_reads(1)[OF mg_invD(1)[OF inv3] s3]
      by (simp add: log_simps id) (simp add: fun_eq_iff read_membership_def put_staged_def)
    show "read_def_layer (mg_db ?n) = (read_def_layer (mg_db m))(?l := ds)"
      using committed_reads(2)[OF mg_invD(1)[OF inv3] s3]
      by (simp add: log_simps id) (simp add: fun_eq_iff read_def_layer_def put_staged_def)
    show "\<forall>e ev. stored (mg_db m) e = Some ev \<longrightarrow> stored (mg_db ?n) e = Some ev"
      using commit_db_facts(5)[OF mg_invD(1)[OF inv3] s3] by (simp add: log_simps)
    have "same_rows {?l} (mg_db m) (mg_db ?m3)"
      by (simp add: same_rows_def put_staged_def read_membership_def read_def_layer_def)
    moreover have "same_rows {?l} (mg_db ?m3) (mg_db ?n)"
      using same_rows_commit[OF mg_invD(1)[OF inv3] s3] by (simp add: log_simps id lh_id_def)
    ultimately show "same_rows {?l} (mg_db m) (mg_db ?n)" using same_rows_trans by fastforce
  qed (use none invn in \<open>simp_all add: log_simps commit_manager_defs lh_id_def\<close>)
  show ?thesis by (rule that[OF o d i c L]) simp
qed

section \<open>Replaying layers\<close>

definition extends :: "manager \<Rightarrow> manager \<Rightarrow> bool" where
  "extends m n \<longleftrightarrow>
     (\<forall>l layer. lm_layer m l = Some layer \<longrightarrow> lm_layer n l = Some layer \<and>
        read_membership (mg_db n) l = read_membership (mg_db m) l \<and>
        read_def_layer (mg_db n) l = read_def_layer (mg_db m) l) \<and>
     (\<forall>e ev. stored (mg_db m) e = Some ev \<longrightarrow> stored (mg_db n) e = Some ev)"

lemma extends_refl [simp]: "extends m m"
  by (simp add: extends_def)

lemma extends_trans: "extends m n \<Longrightarrow> extends n k \<Longrightarrow> extends m k"
  unfolding extends_def by (intro conjI allI impI) (blast | metis)+

lemma lands_extends: "lands m b kind author ds es n \<Longrightarrow> extends m n"
  by (auto simp: lands_def extends_def)

text \<open>Nothing else moved than that branch \<open>b\<close> gained the committed layers \<open>ls\<close>: every other branch's head
  and chain of def layers, the branches, the stored events and interned content and every other
  committed layer with its rows are what they were; the head and the chain of \<open>b\<close> are what \<open>ls\<close> makes
  of them.\<close>

definition gains :: "branch_id \<Rightarrow> layer_id list \<Rightarrow> manager \<Rightarrow> manager \<Rightarrow> bool" where
  "gains b ls m n \<longleftrightarrow> extends m n \<and>
     (\<forall>b'. lm_head n b' = (if b' = b \<and> ls \<noteq> [] then Some (last ls) else lm_head m b')) \<and>
     (\<forall>b'. hm_get_or [] (mg_def_layers n) b' = hm_get_or [] (mg_def_layers m) b' @
        (if b' = b then filter (\<lambda>l. map_option ly_kind (lm_layer n l) = Some LKDef) ls else [])) \<and>
     mg_branches n = mg_branches m \<and>
     (\<forall>l layer. lm_layer n l = Some layer \<longrightarrow> lm_layer m l = Some layer \<or> l \<in> set ls \<or> ly_state layer = LAborted) \<and>
     in_events (mg_db n) = in_events (mg_db m) \<and> in_branches (mg_db n) = in_branches (mg_db m) \<and>
     in_interned (mg_db n) = in_interned (mg_db m) \<and>
     (\<forall>l. l \<notin> set ls \<longrightarrow> hm_get (in_layer_meta (mg_db n)) l = hm_get (in_layer_meta (mg_db m)) l \<and>
        read_membership (mg_db n) l = read_membership (mg_db m) l \<and>
        read_def_layer (mg_db n) l = read_def_layer (mg_db m) l)"

lemma gains_refl [simp]: "gains b [] m m"
  by (simp add: gains_def)

lemma gains_extends: "gains b ls m n \<Longrightarrow> extends m n"
  by (simp add: gains_def)

lemma gains_trans:
  assumes g: "gains b ls m n" and g': "gains b ls' n k" and known: "\<forall>l \<in> set ls. lm_layer n l \<noteq> None"
  shows "gains b (ls @ ls') m k"
proof -
  have ext: "extends m n" "extends n k" using g g' by (simp_all add: gains_def)
  have "lm_layer k l = lm_layer n l" if "l \<in> set ls" for l
    using known that ext(2) unfolding extends_def by (metis not_None_eq)
  then have defs: "filter (\<lambda>l. map_option ly_kind (lm_layer k l) = Some LKDef) ls =
      filter (\<lambda>l. map_option ly_kind (lm_layer n l) = Some LKDef) ls"
    by (intro filter_cong) simp_all
  have layers: "lm_layer m l = Some layer \<or> l \<in> set (ls @ ls') \<or> ly_state layer = LAborted"
    if "lm_layer k l = Some layer" for l layer
  proof -
    have "lm_layer n l = Some layer \<or> l \<in> set ls' \<or> ly_state layer = LAborted"
      using g' that unfolding gains_def by blast
    moreover have "lm_layer n l = Some layer \<Longrightarrow> lm_layer m l = Some layer \<or> l \<in> set ls \<or> ly_state layer = LAborted"
      using g unfolding gains_def by blast
    ultimately show ?thesis by auto
  qed
  show ?thesis
    using g g' layers extends_trans[OF ext] unfolding gains_def defs
    by (intro conjI allI impI) (auto simp: defs simp del: map_option_eq_Some)
qed

lemma lands_gains:
  assumes inv: "mg_inv m" and l: "lands m b kind author ds es n"
  shows "gains b [mg_next m] m n"
proof -
  obtain layer where layer: "lm_layer n = (lm_layer m)(mg_next m \<mapsto> layer)" "ly_kind layer = kind"
    using l by (auto simp: lands_def)
  have above: "h < mg_next m" if "lm_head m b = Some h" for h
    using mg_invD(4)[OF inv] layers_okD[OF mg_invD(2)[OF inv]] that
    by (fastforce simp: heads_ok_def committed_on_def split: option.splits dest: spec[of _ b])
  have "lm_head n b' = (if b' = b then Some (mg_next m) else lm_head m b')" for b'
    using l above
    by (auto simp: lands_def lm_head_def get_raise_head hm_get_or_def max_def not_le split: option.splits dest: less_imp_le)
  moreover have "hm_get_or [] (mg_def_layers n) b' = hm_get_or [] (mg_def_layers m) b' @
      (if b' = b then filter (\<lambda>l. map_option ly_kind (lm_layer n l) = Some LKDef) [mg_next m] else [])" for b'
    using l layer by (simp add: lands_def hm_get_or_modify)
  moreover have "same_rows {mg_next m} (mg_db m) (mg_db n)" "mg_branches n = mg_branches m"
    using l by (simp_all add: lands_def)
  ultimately show ?thesis
    using layer(1) lands_extends[OF l] by (simp add: gains_def same_rows_def)
qed

text \<open>The layer \<open>l\<close> of \<open>n\<close>, new to \<open>m\<close>, is the source layer of \<open>m\<close> on another branch.\<close>

definition replayed_as :: "manager \<Rightarrow> manager \<Rightarrow> branch_id \<Rightarrow> layer_id \<Rightarrow> layer_id \<Rightarrow> bool" where
  "replayed_as m n parent source l \<longleftrightarrow>
     lm_layer m l = None \<and>
     (\<exists>src layer. lm_layer m source = Some src \<and> lm_layer n l = Some layer \<and> ly_branch layer = parent \<and>
        ly_kind layer = ly_kind src \<and> ly_author layer = ASource \<and> ly_state layer = LCommitted) \<and>
     read_membership (mg_db n) l = read_membership (mg_db m) source \<and>
     read_def_layer (mg_db n) l = read_def_layer (mg_db m) source"

definition can_replay :: "manager \<Rightarrow> layer_id \<times> event list \<Rightarrow> bool" where
  "can_replay m p \<longleftrightarrow>
     (\<exists>src. lm_layer m (fst p) = Some src \<and>
        (ly_kind src = LKValue \<longrightarrow> read_def_layer (mg_db m) (fst p) = [])) \<and>
     map ev_id (snd p) = read_membership (mg_db m) (fst p) \<and>
     (\<forall>e \<in> set (read_membership (mg_db m) (fst p)). stored (mg_db m) e \<noteq> None)"

lemma can_replay_extends: "can_replay m p \<Longrightarrow> extends m n \<Longrightarrow> can_replay n p"
  unfolding can_replay_def extends_def by (auto 0 4)

lemma replay_layer_ok:
  assumes inv: "mg_inv m" and next_id: "mg_next m \<noteq> - 1" and ok: "can_replay m (source, events)"
  obtains n where "replay_layer parent source events m = (Inr (mg_next m), n)" "gains parent [mg_next m] m n"
    "mg_inv n" "mg_next n = mg_next m + 1" "replayed_as m n parent source (mg_next m)"
proof -
  obtain src where src: "lm_layer m source = Some src" "ly_kind src = LKValue \<longrightarrow> read_def_layer (mg_db m) source = []"
    and ids: "map ev_id events = read_membership (mg_db m) source"
    and st: "\<forall>e \<in> set (read_membership (mg_db m) source). stored (mg_db m) e \<noteq> None"
    using ok by (auto simp: can_replay_def)
  obtain h m1 m2 m3 n where w: "lm_open parent (ly_kind src) ASource m = (Inr h, m1)"
    "put_all_defs h (read_def_layer (mg_db m) source) m1 = (Inr (), m2)"
    "include_all h (read_membership (mg_db m) source) m2 = (Inr (), m3)" "lm_commit h m3 = (Inr (mg_next m), n)"
    and l: "lands m parent (ly_kind src) ASource (read_def_layer (mg_db m) source) (read_membership (mg_db m) source) n"
    and db: "mg_db m1 = put_staged (mg_next m)
      \<lparr>sl_branch = parent, sl_members = [], sl_authored = [], sl_defs = [], sl_sealed = False\<rparr> (mg_db m)"
    by (rule write_layer[OF inv next_id st src(2)]) (rule that)
  have "read_def_layer (mg_db m1) source = read_def_layer (mg_db m) source"
    by (simp add: db read_def_layer_def put_staged_def)
  then have "replay_layer parent source events m = (Inr (mg_next m), n)"
    by (simp add: replay_layer_def src(1) w ids)
  moreover have "replayed_as m n parent source (mg_next m)"
    using l src by (auto simp: lands_def replayed_as_def)
  ultimately show ?thesis using l lands_gains[OF inv l] by (intro that) (simp_all add: lands_def)
qed

lemma replayed_later:
  assumes "replayed_as m n parent source l" "extends n k"
  shows "replayed_as m k parent source l"
proof -
  obtain src layer where "lm_layer m source = Some src" "lm_layer n l = Some layer" "ly_branch layer = parent"
    "ly_kind layer = ly_kind src" "ly_author layer = ASource" "ly_state layer = LCommitted"
    using assms(1) unfolding replayed_as_def by blast
  moreover from this(2) have "lm_layer k l = Some layer"
    "read_membership (mg_db k) l = read_membership (mg_db n) l"
    "read_def_layer (mg_db k) l = read_def_layer (mg_db n) l"
    using assms(2) unfolding extends_def by blast+
  ultimately show ?thesis using assms(1) unfolding replayed_as_def by simp
qed

lemma replayed_earlier:
  assumes "extends m n" "replayed_as n k parent source l" "lm_layer m source \<noteq> None"
  shows "replayed_as m k parent source l"
proof -
  obtain src where src: "lm_layer m source = Some src" using assms(3) by blast
  then have "lm_layer n source = Some src"
    "read_membership (mg_db n) source = read_membership (mg_db m) source"
    "read_def_layer (mg_db n) source = read_def_layer (mg_db m) source"
    using assms(1) unfolding extends_def by blast+
  moreover have "lm_layer m l = None"
    using assms(1,2) unfolding extends_def replayed_as_def by (cases "lm_layer m l") auto
  ultimately show ?thesis using assms(2) src unfolding replayed_as_def by simp
qed

lemma next_room: "unat (x :: u64) + Suc k < 2 ^ 64 \<Longrightarrow> x \<noteq> - 1 \<and> unat (x + 1) + k < 2 ^ 64"
proof -
  assume a: "unat x + Suc k < 2 ^ 64"
  then have "x \<noteq> - 1" by (auto simp: unsigned_minus_1_eq_mask mask_eq_exp_minus_1)
  then have "unat (1 + x) = Suc (unat x)" using minus_unique[of 1 x] by (intro unatSuc) metis
  with a \<open>x \<noteq> - 1\<close> show ?thesis by (simp add: add.commute)
qed

lemma apply_layers_ok:
  assumes "mg_inv m" "unat (mg_next m) + length pairs < 2 ^ 64" "\<forall>p \<in> set pairs. can_replay m p"
  shows "\<exists>ls n. apply_layers parent pairs acc m = (Inr (acc @ ls), n) \<and> gains parent ls m n \<and>
    list_all2 (\<lambda>p l. replayed_as m n parent (fst p) l) pairs ls \<and>
    sorted_wrt (<) ls \<and> (\<forall>l \<in> set ls. mg_next m \<le> l)"
  using assms
proof (induction pairs arbitrary: acc m)
  case (Cons p pairs)
  obtain source events where p: "p = (source, events)" by (cases p)
  have room: "mg_next m \<noteq> - 1" "unat (mg_next m + 1) + length pairs < 2 ^ 64"
    using next_room[of "mg_next m" "length pairs"] Cons.prems(2) by simp_all
  have ok: "can_replay m (source, events)" using Cons.prems(3) p by simp
  obtain n where r: "replay_layer parent source events m = (Inr (mg_next m), n)" and gain: "gains parent [mg_next m] m n"
    and n: "mg_inv n" "mg_next n = mg_next m + 1" "replayed_as m n parent source (mg_next m)"
    by (rule replay_layer_ok[OF Cons.prems(1) room(1) ok]) (rule that)
  note ext = gains_extends[OF gain]
  have "\<forall>p \<in> set pairs. can_replay n p" using Cons.prems(3) can_replay_extends[OF _ ext] by simp
  with Cons.IH[OF n(1), of "acc @ [mg_next m]"] room(2) n(2)
  obtain ls k where k: "apply_layers parent pairs (acc @ [mg_next m]) n = (Inr ((acc @ [mg_next m]) @ ls), k)"
    "gains parent ls n k" "list_all2 (\<lambda>p l. replayed_as n k parent (fst p) l) pairs ls"
    "sorted_wrt (<) ls" "\<forall>l \<in> set ls. mg_next n \<le> l" by auto
  have "\<forall>p \<in> set pairs. lm_layer m (fst p) \<noteq> None" using Cons.prems(3) by (auto simp: can_replay_def)
  then have "list_all2 (\<lambda>p l. replayed_as m k parent (fst p) l) pairs ls"
    using k(3) replayed_earlier[OF ext] by (auto simp: list_all2_conv_all_nth)
  moreover have less: "mg_next m < l" if "l \<in> set ls" for l
    using k(5) that n(2) less_next[OF room(1)] by (metis order.strict_trans2)
  moreover have gained: "gains parent (mg_next m # ls) m k"
    using gains_trans[OF gain k(2)] n(3) by (auto simp: replayed_as_def)
  moreover have "apply_layers parent (p # pairs) acc m = (Inr (acc @ mg_next m # ls), k)"
    using k(1) by (simp add: p r)
  ultimately show ?case
    using k(4) replayed_later[OF n(3) gains_extends[OF k(2)]] gained
    by (intro exI[of _ "mg_next m # ls"] exI[of _ k]) (auto simp: p less_imp_le)
qed simp

section \<open>Validation\<close>

lemma validate_layers_contents:
  "validate_layers m parent origin moved ls = Inr contents \<Longrightarrow>
   list_all2 (\<lambda>l events. contents_of m l = Inr events) ls contents"
proof (induction ls arbitrary: contents)
  case (Cons l ls)
  then show ?case by (auto split: option.splits sum.splits)
qed simp

lemma layers_of_get:
  assumes "mg_inv m" "layer \<in> set (layers_of m b)"
  shows "lm_layer m (ly_id layer) = Some layer \<and> ly_branch layer = b \<and> ly_state layer = LCommitted"
proof -
  obtain l where e: "(l, layer) \<in> set (mg_layers m)" and b: "ly_branch layer = b" "ly_state layer = LCommitted"
    using assms(2) by (auto simp: layers_of_def)
  have "distinct (map fst (mg_layers m))" using mg_invD(2)[OF assms(1)] by (simp add: layers_ok_def)
  then have "hm_get (mg_layers m) l = Some layer" using e by (rule map_of_is_SomeI)
  with layers_okD[OF mg_invD(2)[OF assms(1)] this] b show ?thesis by (simp add: lm_layer_def)
qed

lemma in_layers_of:
  assumes "mg_inv m"
  shows "layer \<in> set (layers_of m b) \<longleftrightarrow>
    lm_layer m (ly_id layer) = Some layer \<and> ly_branch layer = b \<and> ly_state layer = LCommitted"
  using layers_of_get[OF assms] by (force simp: layers_of_def lm_layer_def dest: map_of_SomeD)

lemma replayable_get:
  assumes "mg_inv m" "l \<in> set (replayable_layers m child mode)"
  shows "\<exists>layer. lm_layer m l = Some layer \<and> ly_branch layer = child \<and> ly_state layer = LCommitted \<and> is_source layer"
  using assms(2) layers_of_get[OF assms(1)] by (auto simp: replayable_layers_def)

lemma contents_of_ok: "mg_inv m \<Longrightarrow> contents_of m l = Inr (events_of (mg_db m) l)"
proof -
  assume "mg_inv m"
  from buffered_ok[OF mg_invD(1)[OF this], of "\<lparr>ly_id = l, ly_branch = 0, ly_kind = LKValue, ly_author = ASource,
      ly_state = LOpen, ly_parent = None, ly_guards = []\<rparr>"]
  show ?thesis by (simp add: contents_of_def buffered_layer_def)
qed

lemma members_stored:
  assumes "mem_inv db" "e \<in> set (read_membership db l)"
  shows "\<exists>ev. stored db e = Some ev \<and> ev_id ev = e"
proof -
  have "stored db e \<noteq> None"
    using assms mem_invD(3)[OF assms(1)] unfolding members_ok_def read_membership_def
    by (cases "hm_get (in_members db) l") auto
  then show ?thesis using mem_invD(1)[OF assms(1)] by (auto simp: ids_ok_def events_ok_def stored_def)
qed

lemma events_of_ids: "mem_inv db \<Longrightarrow> map ev_id (events_of db l) = read_membership db l"
  unfolding events_of_def map_map comp_def by (rule map_idI) (fastforce dest: members_stored)

lemma can_replay_source:
  assumes "mg_reachable m" "lm_layer m l = Some src"
  shows "can_replay m (l, events_of (mg_db m) l)"
proof -
  note inv = mg_reachable_inv[OF assms(1)]
  have "read_def_layer (mg_db m) l = []" if "ly_kind src = LKValue"
    using mg_reachable_kinds[OF assms(1)] assms(2) that by (simp add: kinds_ok_def no_defs_def)
  then show ?thesis
    using assms(2) events_of_ids[OF mg_invD(1)[OF inv]] members_stored[OF mg_invD(1)[OF inv]]
    by (fastforce simp: can_replay_def)
qed

lemma replay_outcome:
  assumes reach: "mg_reachable m"
    and room: "unat (mg_next m) + length (replayable_layers m child mode) < 2 ^ 64"
  obtains (Rejected) err where "replay child parent origin mode reads m = (Inl err, m)"
  | (Merged) ls n where "replay child parent origin mode reads m = (Inr ls, n)" "gains parent ls m n"
      "list_all2 (replayed_as m n parent) (replayable_layers m child mode) ls" "sorted_wrt (<) ls"
      "check_reads m parent reads origin = Inr ()"
proof (cases "check_reads m parent reads origin")
  case (Inl err)
  then show ?thesis by (intro Rejected[of "rejection err"]) (simp add: replay_def)
next
  case (Inr u)
  let ?ls = "replayable_layers m child mode"
  note inv = mg_reachable_inv[OF reach]
  show ?thesis
  proof (cases "validate_layers m parent origin (defs_touched_since m parent origin) ?ls")
    case (Inl err)
    then show ?thesis using Inr by (intro Rejected[of err]) (simp add: replay_def Let_def)
  next
    case valid: (Inr contents)
    have all: "list_all2 (\<lambda>l events. contents_of m l = Inr events) ?ls contents"
      by (rule validate_layers_contents[OF valid])
    then have len: "length contents = length ?ls" by (simp add: list_all2_lengthD)
    have "can_replay m p" if "p \<in> set (zip ?ls contents)" for p
    proof -
      obtain l events where p: "p = (l, events)" by (cases p)
      then have "contents_of m l = Inr events" "l \<in> set ?ls"
        using all that by (auto simp: list_all2_iff dest: set_zip_leftD)
      with replayable_get[OF inv] can_replay_source[OF reach] contents_of_ok[OF inv, of l] p
      show ?thesis by fastforce
    qed
    then obtain ls n where a: "apply_layers parent (zip ?ls contents) [] m = (Inr ls, n)" "gains parent ls m n"
      "list_all2 (\<lambda>p l. replayed_as m n parent (fst p) l) (zip ?ls contents) ls" "sorted_wrt (<) ls"
      using apply_layers_ok[OF inv, of "zip ?ls contents" parent "[]"] room len by auto
    have "list_all2 (replayed_as m n parent) (map fst (zip ?ls contents)) ls"
      using a(3) by (simp only: list.rel_map)
    with a show ?thesis
      by (intro Merged) (simp_all add: replay_def Let_def Inr valid len)
  qed
qed

section \<open>What a round rejects\<close>

definition deleted_on :: "manager \<Rightarrow> branch_id \<Rightarrow> layer_id \<Rightarrow> cell_ref \<Rightarrow> bool" where
  "deleted_on m b fork_point c \<longleftrightarrow>
     (\<exists>l layer e ev. lm_layer m l = Some layer \<and> ly_state layer = LCommitted \<and> ly_branch layer = b \<and>
        is_source layer \<and> fork_point < l \<and> e \<in> set (read_membership (mg_db m) l) \<and>
        stored (mg_db m) e = Some ev \<and> is_tombstone (ev_value ev) \<and> ev_cell ev = c \<and> existence_of c = c)"

lemma rows_of_ok: "mg_inv m \<Longrightarrow> collect_rows (read_layer (mg_db m) l) = Inr (events_of (mg_db m) l)"
  using contents_of_ok by (simp add: contents_of_def)

lemma in_events_of:
  assumes "mem_inv db"
  shows "ev \<in> set (events_of db l) \<longleftrightarrow> (\<exists>e \<in> set (read_membership db l). stored db e = Some ev)"
  using members_stored[OF assms, of _ l] by (force simp: events_of_def image_iff)

definition tombstones :: "inner \<Rightarrow> layer_id \<Rightarrow> cell_ref set" where
  "tombstones db l = ev_cell ` set (filter (\<lambda>event. is_tombstone (ev_value event) \<and>
     existence_of (ev_cell event) = ev_cell event) (events_of db l))"

lemma deleted_loop_ok:
  "mg_inv m \<Longrightarrow> deleted_loop (mg_db m) fork_point layers deleted =
     Inr (deleted \<union> (\<Union>layer \<in> {layer \<in> set layers. fork_point < ly_id layer \<and> is_source layer}.
       tombstones (mg_db m) (ly_id layer)))"
  by (induction layers arbitrary: deleted) (auto simp: rows_of_ok tombstones_def not_le)

lemma deleted_since_ok:
  assumes inv: "mg_inv m"
  shows "deleted_since m parent fork_point = Inr {c. deleted_on m parent fork_point c}"
proof -
  have t: "c \<in> tombstones (mg_db m) l \<longleftrightarrow> (\<exists>e ev. e \<in> set (read_membership (mg_db m) l) \<and>
      stored (mg_db m) e = Some ev \<and> is_tombstone (ev_value ev) \<and> ev_cell ev = c \<and> existence_of c = c)" for c l
    unfolding tombstones_def using in_events_of[OF mg_invD(1)[OF inv], of _ l] by (auto simp: image_iff)
  have "c \<in> (\<Union>layer \<in> {layer \<in> set (layers_of m parent). fork_point < ly_id layer \<and> is_source layer}.
      tombstones (mg_db m) (ly_id layer)) \<longleftrightarrow> deleted_on m parent fork_point c" for c
  proof
    assume "c \<in> (\<Union>layer \<in> {layer \<in> set (layers_of m parent). fork_point < ly_id layer \<and> is_source layer}.
      tombstones (mg_db m) (ly_id layer))"
    then obtain layer where "layer \<in> set (layers_of m parent)" "fork_point < ly_id layer" "is_source layer"
      "c \<in> tombstones (mg_db m) (ly_id layer)" by blast
    then show "deleted_on m parent fork_point c"
      using layers_of_get[OF inv] unfolding deleted_on_def t by blast
  next
    assume "deleted_on m parent fork_point c"
    then obtain l layer where layer: "lm_layer m l = Some layer" "ly_state layer = LCommitted"
      "ly_branch layer = parent" "is_source layer" "fork_point < l" "c \<in> tombstones (mg_db m) l"
      unfolding deleted_on_def t by blast
    then have "ly_id layer = l" using layers_okD[OF mg_invD(2)[OF inv]] by (simp add: lm_layer_def)
    moreover from this layer have "layer \<in> set (layers_of m parent)" by (simp add: in_layers_of[OF inv])
    ultimately show "c \<in> (\<Union>layer \<in> {layer \<in> set (layers_of m parent). fork_point < ly_id layer \<and> is_source layer}.
      tombstones (mg_db m) (ly_id layer))" using layer by blast
  qed
  then show ?thesis unfolding deleted_since_def deleted_loop_ok[OF inv] Un_empty_left by blast
qed

lemma first_deleted_ok:
  "first_deleted deleted (map Inr evs) =
     Inr (map_option (\<lambda>ev. existence_of (ev_cell ev)) (find (\<lambda>ev. existence_of (ev_cell ev) \<in> deleted) evs))"
  by (induction evs) auto

lemma read_layer_ok:
  assumes "mg_inv m"
  shows "read_layer (mg_db m) l = map Inr (events_of (mg_db m) l)"
proof -
  have "read_layer (mg_db m) l = map (event_of (mg_db m)) (read_membership (mg_db m) l)"
    by (simp add: read_layer_def read_membership_def split: option.split)
  moreover have "event_of (mg_db m) e = Inr (the (stored (mg_db m) e))"
    if "e \<in> set (read_membership (mg_db m) l)" for e
    using members_stored[OF mg_invD(1)[OF assms] that] by (auto simp: event_of_def)
  ultimately show ?thesis by (simp add: events_of_def)
qed

lemma deletion_failures_ok:
  assumes inv: "mg_inv m"
  shows "\<exists>rest. deletion_failures (mg_db m) deleted failed layers = Inr rest \<and>
    (\<forall>l. l \<in> fst ` set rest \<longleftrightarrow> l \<in> set layers \<and> l \<notin> failed \<and>
      (\<exists>ev \<in> set (events_of (mg_db m) l). existence_of (ev_cell ev) \<in> deleted))"
proof (induction layers)
  case (Cons layer layers)
  then obtain rest where rest: "deletion_failures (mg_db m) deleted failed layers = Inr rest"
    "\<forall>l. l \<in> fst ` set rest \<longleftrightarrow> l \<in> set layers \<and> l \<notin> failed \<and>
      (\<exists>ev \<in> set (events_of (mg_db m) l). existence_of (ev_cell ev) \<in> deleted)" by blast
  let ?found = "find (\<lambda>ev. existence_of (ev_cell ev) \<in> deleted) (events_of (mg_db m) layer)"
  have first: "first_deleted deleted (read_layer (mg_db m) layer) = Inr (map_option (\<lambda>ev. existence_of (ev_cell ev)) ?found)"
    by (simp add: read_layer_ok[OF inv] first_deleted_ok)
  show ?case
  proof (cases "layer \<in> failed")
    case True
    then show ?thesis using rest by auto
  next
    case False
    have none: "?found = None \<longleftrightarrow> \<not> (\<exists>ev \<in> set (events_of (mg_db m) layer). existence_of (ev_cell ev) \<in> deleted)"
      by (auto simp: find_None_iff)
    show ?thesis
      using False rest none by (cases ?found) (auto simp: first)
  qed
qed simp

lemma guard_failures_ok:
  assumes inv: "mg_inv m" and path: "lm_read_path m parent None = Inr path"
  shows "l \<in> fst ` set (guard_failures m parent fork_point gs) \<longleftrightarrow>
    (\<exists>cells c k. (l, cells) \<in> set gs \<and> c \<in> set cells \<and> touched_on m path fork_point c k)"
proof (induction gs)
  case (Cons g gs)
  obtain layer cells where g: "g = (layer, cells)" by (cases g)
  have reads: "check_reads m parent cells fork_point = check_touched m path cells fork_point"
    by (simp add: check_reads_def path)
  show ?case
  proof (cases "check_touched m path cells fork_point = Inr ()")
    case True
    then show ?thesis using Cons check_touched_ok[OF inv, of path cells fork_point] by (auto simp: g reads)
  next
    case False
    then obtain c k where v: "check_touched m path cells fork_point = Inl (GuardViolated c fork_point k)"
      by (auto simp: check_touched_def split: option.splits)
    have "\<exists>c \<in> set cells. \<exists>k. touched_on m path fork_point c k"
      using False check_touched_ok[OF inv, of path cells fork_point] by blast
    then show ?thesis using Cons by (auto simp: g reads v)
  qed
qed simp

lemma or_absorb: "A \<or> (R \<and> \<not> A \<and> B) \<longleftrightarrow> A \<or> (R \<and> B)"
  by blast

lemma round_rejections_ok:
  assumes inv: "mg_inv m" and path: "lm_read_path m (rd_parent r) None = Inr path"
    and anc: "\<forall>(b, bound) \<in> set (tl path). bound \<le> rd_fork_point r"
  shows "\<exists>rejected. round_rejections r m = Inr rejected \<and>
    (\<forall>l. l \<in> fst ` set rejected \<longleftrightarrow>
      (\<exists>cells c k. (l, cells) \<in> set (round_guards r) \<and> c \<in> set cells \<and> touched_on m path (rd_fork_point r) c k) \<or>
      (l \<in> set (round_layers r) \<and> (\<exists>e ev. e \<in> set (read_membership (mg_db m) l) \<and>
         stored (mg_db m) e = Some ev \<and> deleted_on m (rd_parent r) (rd_fork_point r) (existence_of (ev_cell ev)))))"
proof -
  let ?p = "rd_parent r" and ?f = "rd_fork_point r"
  obtain moved where moved: "touched_since m ?p ?f = Inr moved" by (simp add: touched_since_def path)
  let ?g = "if moved then guard_failures m ?p ?f (round_guards r) else []"
  have guarded: "l \<in> fst ` set ?g \<longleftrightarrow>
      (\<exists>cells c k. (l, cells) \<in> set (round_guards r) \<and> c \<in> set cells \<and> touched_on m path ?f c k)" for l
  proof (cases moved)
    case True
    then show ?thesis using guard_failures_ok[OF inv path] by simp
  next
    case False
    then have "check_touched m path cells ?f = Inr ()" for cells
      using untouched_passes[OF inv path _ anc] moved by (simp add: check_reads_def path)
    with check_touched_ok[OF inv] have "\<not> touched_on m path ?f c k" for c k by (meson list.set_intros(1))
    with False show ?thesis by simp
  qed
  let ?D = "{c. deleted_on m ?p ?f c}"
  have dangling: "(\<exists>ev \<in> set (events_of (mg_db m) l). existence_of (ev_cell ev) \<in> ?D) \<longleftrightarrow>
      (\<exists>e ev. e \<in> set (read_membership (mg_db m) l) \<and> stored (mg_db m) e = Some ev \<and>
         deleted_on m ?p ?f (existence_of (ev_cell ev)))" for l
    unfolding Bex_def in_events_of[OF mg_invD(1)[OF inv]] by blast
  obtain rest where rest: "deletion_failures (mg_db m) ?D (fst ` set ?g) (round_layers r) = Inr rest"
    "\<forall>l. l \<in> fst ` set rest \<longleftrightarrow> l \<in> set (round_layers r) \<and> l \<notin> fst ` set ?g \<and>
      (\<exists>ev \<in> set (events_of (mg_db m) l). existence_of (ev_cell ev) \<in> ?D)"
    using deletion_failures_ok[OF inv] by blast
  have none: "?D = {} \<Longrightarrow> \<not> (\<exists>ev \<in> set (events_of (mg_db m) l). existence_of (ev_cell ev) \<in> ?D)" for l by simp
  let ?d = "if ?D = {} then [] else rest"
  have rej: "round_rejections r m = Inr (?g @ ?d)"
    unfolding round_rejections_def moved Let_def deleted_since_ok[OF inv] sum.case rest(1)
    by (cases "?D = {}") (simp_all only: sum.case if_True if_False simp_thms)
  have d: "l \<in> fst ` set ?d \<longleftrightarrow> l \<in> set (round_layers r) \<and> l \<notin> fst ` set ?g \<and>
      (\<exists>ev \<in> set (events_of (mg_db m) l). existence_of (ev_cell ev) \<in> ?D)" for l
    using rest(2) none by (cases "?D = {}") simp_all
  have "l \<in> fst ` set (?g @ ?d) \<longleftrightarrow>
      (\<exists>cells c k. (l, cells) \<in> set (round_guards r) \<and> c \<in> set cells \<and> touched_on m path ?f c k) \<or>
      (l \<in> set (round_layers r) \<and> (\<exists>e ev. e \<in> set (read_membership (mg_db m) l) \<and>
         stored (mg_db m) e = Some ev \<and> deleted_on m ?p ?f (existence_of (ev_cell ev))))" for l
    unfolding set_append image_Un Un_iff d guarded dangling by (rule or_absorb)
  with rej show ?thesis by (intro exI[of _ "?g @ ?d"] conjI allI)
qed

end
