(* ===== verification/Merge_Properties.thy ===== *)
theory Merge_Properties
  imports Merge_Contract
begin

text \<open>
  The properties of \<^verbatim>\<open>branch.rs\<close>: a fork extends the tree by an unused branch, a merge either moves
  nothing or carries every layer, a transaction is rejected for what changed under it, and a round
  rejects exactly the stale and the dangling and lands the rest.
\<close>

section \<open>Lists side by side\<close>

lemma all2_right: "list_all2 P xs ys \<Longrightarrow> y \<in> set ys \<Longrightarrow> \<exists>x \<in> set xs. P x y"
  by (induction rule: list_all2_induct) auto

lemma all2_left: "list_all2 P xs ys \<Longrightarrow> x \<in> set xs \<Longrightarrow> \<exists>y \<in> set ys. P x y"
  by (induction rule: list_all2_induct) auto

section \<open>Groups by producer\<close>

lemma add_to_group_keys: "set (map fst (add_to_group a l gs)) = insert a (set (map fst gs))"
  by (induction a l gs rule: add_to_group.induct) auto

lemma add_to_group_distinct: "distinct (map fst gs) \<Longrightarrow> distinct (map fst (add_to_group a l gs))"
proof (induction a l gs rule: add_to_group.induct)
  case (2 a l seen carried gs)
  then show ?case using add_to_group_keys[of a l gs] by (cases "seen = a") auto
qed simp

lemma add_to_group_get:
  "map_of (add_to_group a l gs) b =
     (if b = a then Some ((case map_of gs a of None \<Rightarrow> [] | Some c \<Rightarrow> c) @ [l]) else map_of gs b)"
  by (induction a l gs rule: add_to_group.induct) auto

lemma groups_fold:
  assumes "distinct (map fst gs)"
  shows "distinct (map fst (fold (\<lambda>l. add_to_group (f l) l) ls gs))"
    and "map_of (fold (\<lambda>l. add_to_group (f l) l) ls gs) b =
      (if b \<in> f ` set ls
       then Some ((case map_of gs b of None \<Rightarrow> [] | Some c \<Rightarrow> c) @ filter (\<lambda>l. f l = b) ls)
       else map_of gs b)"
  using assms
proof (induction ls arbitrary: gs)
  case (Cons l ls)
  {
    case 1
    then show ?case using Cons.IH(1)[OF add_to_group_distinct[OF 1]] by simp
  next
    case 2
    have "b \<notin> f ` set ls \<Longrightarrow> filter (\<lambda>l. f l = b) ls = []" by (auto simp: filter_empty_conv)
    then show ?case
      using Cons.IH(2)[OF add_to_group_distinct[OF 2], of "f l" l]
      by (cases "b = f l"; cases "b \<in> f ` set ls") (simp_all add: add_to_group_get)
  }
qed simp_all

definition author_or_source :: "manager \<Rightarrow> layer_id \<Rightarrow> layer_author" where
  "author_or_source m l = (case author_of m l of Some a \<Rightarrow> a | None \<Rightarrow> ASource)"

lemma by_producer_spec:
  "distinct (map fst (by_producer m ls))"
  "(a, carried) \<in> set (by_producer m ls) \<longleftrightarrow>
     a \<in> author_or_source m ` set ls \<and> carried = filter (\<lambda>l. author_or_source m l = a) ls"
proof -
  note g = groups_fold[of "[]" "author_or_source m" ls]
  have e: "by_producer m ls = fold (\<lambda>l. add_to_group (author_or_source m l) l) ls []"
    by (simp add: by_producer_def author_or_source_def)
  show d: "distinct (map fst (by_producer m ls))" unfolding e by (rule g(1)) simp
  have "(a, carried) \<in> set (by_producer m ls) \<longleftrightarrow> map_of (by_producer m ls) a = Some carried"
    using d by (rule map_of_eq_Some_iff[symmetric])
  then show "(a, carried) \<in> set (by_producer m ls) \<longleftrightarrow>
     a \<in> author_or_source m ` set ls \<and> carried = filter (\<lambda>l. author_or_source m l = a) ls"
    unfolding e using g(2)[of a] by (auto split: if_splits)
qed

lemma by_producer_length: "length (by_producer m ls) \<le> length ls"
proof -
  have "set (map fst (by_producer m ls)) \<subseteq> set (map (author_or_source m) ls)"
    using by_producer_spec(2)[where m = m and ls = ls] by auto
  then have "card (set (map fst (by_producer m ls))) \<le> card (set (map (author_or_source m) ls))"
    by (rule card_mono[OF finite_set])
  also have "\<dots> \<le> length ls" using card_length[of "map (author_or_source m) ls"] by simp
  finally show ?thesis using distinct_card[OF by_producer_spec(1)[of m ls]] by simp
qed

section \<open>Landing a round\<close>

definition carried_events :: "manager \<Rightarrow> layer_id list \<Rightarrow> event_id list" where
  "carried_events m carried = concat (map (read_membership (mg_db m)) carried)"

text \<open>The layer \<open>l\<close> of \<open>n\<close>, new to \<open>m\<close>, on the parent, names exactly the events of the carried layers.\<close>

definition landed_as :: "manager \<Rightarrow> manager \<Rightarrow> branch_id \<Rightarrow> layer_author \<times> layer_id list \<Rightarrow> layer_id \<Rightarrow> bool" where
  "landed_as m n parent g l \<longleftrightarrow>
     lm_layer m l = None \<and>
     (\<exists>layer. lm_layer n l = Some layer \<and> ly_branch layer = parent \<and> ly_kind layer = LKValue \<and>
        ly_author layer = fst g \<and> ly_state layer = LCommitted) \<and>
     read_membership (mg_db n) l = carried_events m (snd g)"

lemma carried_stored: "mg_inv m \<Longrightarrow> e \<in> set (carried_events m carried) \<Longrightarrow> stored (mg_db m) e \<noteq> None"
  using members_stored[OF mg_invD(1)] by (fastforce simp: carried_events_def)

lemma open_and_abort:
  assumes inv: "mg_inv m" and next_id: "mg_next m \<noteq> - 1"
  obtains h m1 n where "lm_open b kind author m = (Inr h, m1)" "lm_abort h m1 = (Inr (), n)"
    "mg_inv n" "mg_next n = mg_next m + 1" "gains b [] m n"
    "read_membership (mg_db n) = read_membership (mg_db m)"
proof -
  let ?l = "mg_next m"
  let ?layer = "\<lparr>ly_id = ?l, ly_branch = b, ly_kind = kind, ly_author = author,
      ly_state = LOpen, ly_parent = lm_head m b, ly_guards = []\<rparr>"
  let ?h = "\<lparr>lh_layer = ?layer\<rparr>"
  let ?new = "\<lparr>sl_branch = b, sl_members = [], sl_authored = [], sl_defs = [], sl_sealed = False\<rparr>"
  let ?m1 = "m\<lparr>mg_next := ?l + 1, mg_layers := hm_insert ?l ?layer (mg_layers m),
       mg_db := put_staged ?l ?new (mg_db m)\<rparr>"
  have o: "lm_open b kind author m = (Inr ?h, ?m1)" by (rule lm_open_cases[OF inv next_id refl refl])
  have inv1: "mg_inv ?m1" using mg_inv_open[OF inv next_id, of b kind author] o by simp
  have id: "lh_id ?h = ?l" by (simp add: lh_id_def)
  have ly: "hm_get (mg_layers ?m1) (lh_id ?h) = Some ?layer" "ly_state ?layer = LOpen"
    by (simp_all add: id)
  let ?n = "?m1\<lparr>mg_db := snd (mem_abort (lh_id ?h) (mg_db ?m1)),
       mg_layers := hm_insert (lh_id ?h) (?layer\<lparr>ly_state := LAborted\<rparr>) (mg_layers ?m1)\<rparr>"
  have a: "lm_abort ?h ?m1 = (Inr (), ?n)" by (rule abort_outcome[OF inv1 ly])
  have ok: "handle_ok ?m1 ?h" by (simp add: handle_ok_def id)
  have invn: "mg_inv ?n" using mg_inv_abort[OF inv1 ok ly] unfolding a snd_conv .
  have none: "lm_layer m ?l = None" using next_unused[OF inv] by (simp add: lm_layer_def)
  have ext: "extends m ?n"
    unfolding extends_def
  proof (intro conjI allI impI)
    fix l layer assume "lm_layer m l = Some layer"
    moreover from this none have "l \<noteq> ?l" by auto
    ultimately show "lm_layer ?n l = Some layer" by (simp add: lm_layer_def id)
  qed (simp_all add: mem_abort_def put_staged_def read_membership_def read_def_layer_def stored_def)
  have layers: "lm_layer ?n l = Some layer \<Longrightarrow> lm_layer m l = Some layer \<or> ly_state layer = LAborted" for l layer
    by (auto simp: lm_layer_def id split: if_splits)
  have ext: "gains b [] m ?n"
    unfolding gains_def using ext layers
    by (auto simp: mem_abort_def put_staged_def read_membership_def read_def_layer_def lm_head_def)
  have "read_membership (mg_db ?n) = read_membership (mg_db m)"
    by (simp add: fun_eq_iff mem_abort_def put_staged_def read_membership_def)
  then show ?thesis by (intro that[OF o a invn _ ext]) simp_all
qed

lemma land_group_ok:
  assumes inv: "mg_inv m" and next_id: "mg_next m \<noteq> - 1"
  obtains (Empty) n where "carried_events m carried = []" "land_group parent author carried m = (Inr None, n)"
      "mg_inv n" "mg_next n = mg_next m + 1" "gains parent [] m n" "read_membership (mg_db n) = read_membership (mg_db m)"
  | (Landed) n where "carried_events m carried \<noteq> []"
      "land_group parent author carried m = (Inr (Some (mg_next m)), n)" "mg_inv n" "mg_next n = mg_next m + 1"
      "gains parent [mg_next m] m n" "landed_as m n parent (author, carried) (mg_next m)"
proof -
  let ?es = "carried_events m carried"
  have es: "\<forall>e \<in> set ?es. stored (mg_db m) e \<noteq> None" using carried_stored[OF inv] by blast
  obtain h m1 m2 m3 n where w: "lm_open parent LKValue author m = (Inr h, m1)" "put_all_defs h [] m1 = (Inr (), m2)"
    "include_all h ?es m2 = (Inr (), m3)" "lm_commit h m3 = (Inr (mg_next m), n)"
    and l: "lands m parent LKValue author [] ?es n"
    and db: "mg_db m1 = put_staged (mg_next m)
      \<lparr>sl_branch = parent, sl_members = [], sl_authored = [], sl_defs = [], sl_sealed = False\<rparr> (mg_db m)"
    by (rule write_layer[OF inv next_id es, of LKValue "[]" parent author]) (simp, rule that)
  have m2: "m2 = m1" using w(2) by simp
  have same: "read_membership (mg_db m1) = read_membership (mg_db m)"
    by (simp add: fun_eq_iff db read_membership_def put_staged_def)
  have named: "concat (map (read_membership (mg_db m1)) carried) = ?es" by (simp add: same carried_events_def)
  show ?thesis
  proof (cases "?es = []")
    case False
    have "land_group parent author carried m = (Inr (Some (mg_next m)), n)"
      using False w(1,3,4) by (simp add: land_group_def named m2 Let_def)
    moreover have "landed_as m n parent (author, carried) (mg_next m)"
      using l by (auto simp: lands_def landed_as_def)
    ultimately show ?thesis using l lands_gains[OF inv l] False by (intro Landed) (simp_all add: lands_def)
  next
    case True
    obtain h' m1' k where a: "lm_open parent LKValue author m = (Inr h', m1')" "lm_abort h' m1' = (Inr (), k)"
      and k: "mg_inv k" "mg_next k = mg_next m + 1" "gains parent [] m k" "read_membership (mg_db k) = read_membership (mg_db m)"
      by (rule open_and_abort[OF inv next_id]) (rule that)
    have "lm_abort h m1 = (Inr (), k)" using a w(1) by simp
    then have "land_group parent author carried m = (Inr None, k)"
      using w(1) by (simp add: land_group_def named True Let_def)
    then show ?thesis using True k by (intro Empty)
  qed
qed

lemma carried_extends:
  assumes "extends m n" "\<forall>k \<in> set carried. lm_layer m k \<noteq> None"
  shows "carried_events n carried = carried_events m carried"
proof -
  have "read_membership (mg_db n) k = read_membership (mg_db m) k" if "k \<in> set carried" for k
    using assms that unfolding extends_def by blast
  then show ?thesis unfolding carried_events_def by (metis map_cong)
qed

lemma landed_later: "landed_as m n parent g l \<Longrightarrow> extends n k \<Longrightarrow> landed_as m k parent g l"
proof -
  assume a: "landed_as m n parent g l" and e: "extends n k"
  obtain layer where "lm_layer n l = Some layer" "ly_branch layer = parent" "ly_kind layer = LKValue"
    "ly_author layer = fst g" "ly_state layer = LCommitted" using a unfolding landed_as_def by blast
  moreover from this(1) have "lm_layer k l = Some layer" "read_membership (mg_db k) l = read_membership (mg_db n) l"
    using e unfolding extends_def by blast+
  ultimately show ?thesis using a unfolding landed_as_def by simp
qed

lemma landed_earlier:
  "extends m n \<Longrightarrow> landed_as n k parent g l \<Longrightarrow> \<forall>x \<in> set (snd g). lm_layer m x \<noteq> None \<Longrightarrow> landed_as m k parent g l"
  using carried_extends[of m n "snd g"] unfolding landed_as_def
  by (cases "lm_layer m l") (auto simp: extends_def)

definition group_carries :: "manager \<Rightarrow> layer_author \<times> layer_id list \<Rightarrow> bool" where
  "group_carries m g \<longleftrightarrow> carried_events m (snd g) \<noteq> []"

definition group_known :: "manager \<Rightarrow> layer_author \<times> layer_id list \<Rightarrow> bool" where
  "group_known m g \<longleftrightarrow> (\<forall>k \<in> set (snd g). lm_layer m k \<noteq> None)"

lemma group_known_extends: "group_known m g \<Longrightarrow> extends m n \<Longrightarrow> group_known n g"
  unfolding group_known_def extends_def by blast

lemma group_carries_extends: "group_known m g \<Longrightarrow> extends m n \<Longrightarrow> group_carries n g = group_carries m g"
  using carried_extends unfolding group_known_def group_carries_def by simp

lemma land_groups_ok:
  assumes "mg_inv m" "unat (mg_next m) + length groups < 2 ^ 64" "\<forall>g \<in> set groups. group_known m g"
  shows "\<exists>ls n. land_groups parent groups acc m = (Inr (acc @ ls), n) \<and> gains parent ls m n \<and>
    list_all2 (landed_as m n parent) (filter (group_carries m) groups) ls \<and>
    sorted_wrt (<) ls \<and> (\<forall>l \<in> set ls. mg_next m \<le> l)"
  using assms
proof (induction groups arbitrary: acc m)
  case (Cons g groups)
  obtain author carried where g: "g = (author, carried)" by (cases g)
  have gc: "group_carries m (author, carried) \<longleftrightarrow> carried_events m carried \<noteq> []"
    by (simp add: group_carries_def)
  have room: "mg_next m \<noteq> - 1" "unat (mg_next m + 1) + length groups < 2 ^ 64"
    using next_room[of "mg_next m" "length groups"] Cons.prems(2) by simp_all
  have step: "\<exists>ls k. land_groups parent groups acc' n = (Inr (acc' @ ls), k) \<and> extends n k \<and> gains parent (new @ ls) m k \<and>
      list_all2 (landed_as m k parent) (filter (group_carries m) groups) ls \<and>
      sorted_wrt (<) ls \<and> (\<forall>l \<in> set ls. mg_next m < l)"
    if n: "mg_inv n" "mg_next n = mg_next m + 1" "gains parent new m n" "\<forall>l \<in> set new. lm_layer n l \<noteq> None" for n new acc'
  proof -
    note ext = gains_extends[OF n(3)]
    have known: "\<forall>g \<in> set groups. group_known n g" using Cons.prems(3) group_known_extends[OF _ ext] by simp
    obtain ls k where k: "land_groups parent groups acc' n = (Inr (acc' @ ls), k)" "gains parent ls n k"
      "list_all2 (landed_as n k parent) (filter (group_carries n) groups) ls"
      "sorted_wrt (<) ls" "\<forall>l \<in> set ls. mg_next n \<le> l"
      using Cons.IH[OF n(1), of acc'] room(2) known n(2) by auto
    have "filter (group_carries n) groups = filter (group_carries m) groups"
      using Cons.prems(3) group_carries_extends[OF _ ext] by (intro filter_cong) simp_all
    with k(3) have k3: "list_all2 (landed_as n k parent) (filter (group_carries m) groups) ls" by simp
    have known: "\<forall>g \<in> set (filter (group_carries m) groups). \<forall>x \<in> set (snd g). lm_layer m x \<noteq> None"
      using Cons.prems(3) unfolding group_known_def set_filter list.set by blast
    have "list_all2 (landed_as m k parent) (filter (group_carries m) groups) ls"
    proof (rule list.rel_mono_strong[OF k3])
      fix g l assume g: "g \<in> set (filter (group_carries m) groups)" and l: "landed_as n k parent g l"
      show "landed_as m k parent g l" by (rule landed_earlier[OF ext l bspec[OF known g]])
    qed
    moreover have "\<forall>l \<in> set ls. mg_next m < l"
      using k(5) n(2) less_next[OF room(1)] by (metis order.strict_trans2)
    ultimately show ?thesis using k gains_trans[OF n(3) k(2) n(4)] gains_extends[OF k(2)] by blast
  qed
  show ?case
  proof (rule land_group_ok[OF Cons.prems(1) room(1), of carried parent author])
    fix n assume e: "carried_events m carried = []" "land_group parent author carried m = (Inr None, n)"
      "mg_inv n" "mg_next n = mg_next m + 1" "gains parent [] m n"
    obtain ls k where "land_groups parent groups acc n = (Inr (acc @ ls), k)" "gains parent ([] @ ls) m k"
      "list_all2 (landed_as m k parent) (filter (group_carries m) groups) ls"
      "sorted_wrt (<) ls" "\<forall>l \<in> set ls. mg_next m < l"
      using step[OF e(3-5), of acc] by auto
    then show ?thesis
      using e(1,2) by (intro exI[of _ ls] exI[of _ k]) (auto simp: g gc less_imp_le)
  next
    fix n assume e: "carried_events m carried \<noteq> []" "land_group parent author carried m = (Inr (Some (mg_next m)), n)"
      "mg_inv n" "mg_next n = mg_next m + 1" "gains parent [mg_next m] m n" "landed_as m n parent (author, carried) (mg_next m)"
    have known: "\<forall>l \<in> set [mg_next m]. lm_layer n l \<noteq> None" using e(6) by (auto simp: landed_as_def)
    obtain ls k where k: "land_groups parent groups (acc @ [mg_next m]) n = (Inr ((acc @ [mg_next m]) @ ls), k)"
      "extends n k" "gains parent ([mg_next m] @ ls) m k" "list_all2 (landed_as m k parent) (filter (group_carries m) groups) ls"
      "sorted_wrt (<) ls" "\<forall>l \<in> set ls. mg_next m < l"
      using step[OF e(3-5) known, of "acc @ [mg_next m]"] by blast
    then show ?thesis
      using e(1,2) landed_later[OF e(6) k(2)]
      by (intro exI[of _ "mg_next m # ls"] exI[of _ k]) (auto simp: g gc less_imp_le)
  qed
qed simp

lemma carrying_authors:
  "set (map fst (filter (group_carries m) (by_producer m ls))) =
     {author_or_source m k | k. k \<in> set ls \<and> read_membership (mg_db m) k \<noteq> []}"
  by (auto simp: by_producer_spec(2) group_carries_def carried_events_def image_iff)

section \<open>Properties\<close>

text \<open>Property C3. A merge is all or nothing. Whether of a branch or of a transaction, either it is
  rejected and the manager, its provider included, is what it was; or it returns one new committed
  layer on the parent per replayable layer of the child, in order, of the same kind, with the same
  definitions and naming the same events by their ids. Then those layers are all that was gained: every
  other layer keeps its record and its rows, every other branch its head and its def layers, the
  branches, the stored events and the interned content are what they were, the parent's head is the last
  of the new layers and its def layers are followed by those among them. Ids of layers are assumed not
  to run out.\<close>

theorem merge_is_all_or_nothing:
  assumes "mg_reachable m" "unat (mg_next m) + length (replayable_layers m (tx_branch tx) mode) < 2 ^ 64"
  shows "(\<exists>err. merge_transaction tx mode m = (Inl err, m)) \<or>
    (\<exists>ls n. merge_transaction tx mode m = (Inr ls, n) \<and> gains (tx_parent tx) ls m n \<and> sorted_wrt (<) ls \<and>
       list_all2 (replayed_as m n (tx_parent tx)) (replayable_layers m (tx_branch tx) mode) ls)"
  unfolding merge_transaction_def
  by (rule replay_outcome[OF assms, of "tx_parent tx" "tx_fork_point tx" "tx_guards tx"]) blast+

text \<open>Property C6. A transaction that read a cell which a source layer of the parent's ancestry has
  written since its fork point, before the transaction wrote it itself, is rejected with a conflict on
  the first such cell of its read set, and nothing moves.\<close>

theorem stale_transaction_is_rejected:
  assumes "mg_reachable m" "lm_read_path m (tx_parent tx) None = Inr path"
    and "c \<in> set (tx_guards tx)" "touched_on m path (tx_fork_point tx) c l"
  shows "\<exists>pre c' post. tx_guards tx = pre @ c' # post \<and> (\<exists>k. touched_on m path (tx_fork_point tx) c' k) \<and>
    (\<forall>d \<in> set pre. \<forall>k. \<not> touched_on m path (tx_fork_point tx) d k) \<and>
    merge_transaction tx mode m = (Inl (MergeRejected (GuardConflict c')), m)"
proof -
  note inv = mg_reachable_inv[OF assms(1)]
  have "check_touched m path (tx_guards tx) (tx_fork_point tx) \<noteq> Inr ()"
    using check_touched_ok[OF inv] assms(3,4) by blast
  then obtain c' k where v: "check_touched m path (tx_guards tx) (tx_fork_point tx) =
      Inl (GuardViolated c' (tx_fork_point tx) k)"
    by (auto simp: check_touched_def split: option.splits)
  then have "check_reads m (tx_parent tx) (tx_guards tx) (tx_fork_point tx) =
      Inl (GuardViolated c' (tx_fork_point tx) k)" by (simp add: check_reads_def assms(2))
  then have "merge_transaction tx mode m = (Inl (MergeRejected (GuardConflict c')), m)"
    by (simp add: merge_transaction_def replay_def rejection_def)
  with check_touched_violated[OF inv, THEN iffD1, OF v] show ?thesis by blast
qed


text \<open>Property C5. A round rejects exactly the invocations whose results no longer stand: those that
  read, from outside the round, a cell which a source layer of the parent's ancestry has written since
  the fork point, and those that wrote to an object the parent has deleted since. That the guards are
  not even looked at on a parent that has not moved makes no difference, as long as the ancestry
  beyond the parent is bounded by the fork point.\<close>

theorem round_rejects_exactly_the_stale:
  assumes "mg_reachable m" "lm_read_path m (rd_parent r) None = Inr path"
    and "\<forall>(b, bound) \<in> set (tl path). bound \<le> rd_fork_point r"
  shows "\<exists>rejected. round_rejections r m = Inr rejected \<and>
    (\<forall>l. l \<in> fst ` set rejected \<longleftrightarrow>
      (\<exists>cells c k. (l, cells) \<in> set (round_guards r) \<and> c \<in> set cells \<and> touched_on m path (rd_fork_point r) c k) \<or>
      (l \<in> set (round_layers r) \<and> (\<exists>e ev. e \<in> set (read_membership (mg_db m) l) \<and>
         stored (mg_db m) e = Some ev \<and> deleted_on m (rd_parent r) (rd_fork_point r) (existence_of (ev_cell ev)))))"
  using round_rejections_ok[OF mg_reachable_inv[OF assms(1)] assms(2,3)] .

text \<open>Property C4. Rounds apply partially. Of the layers of a round those that did not consume a
  rejected one's output, through any number of steps, are kept. The merge lands exactly one new layer on
  the parent for each author, a producer and the layer its runs reflect, of a kept layer with events:
  that layer names exactly the events of this author's kept layers in their order. Nothing else is
  gained: no dropped layer's event is carried, every other layer, head and chain of def layers, the
  branches, the stored events and the interned content are what they were. Ids of layers are assumed not
  to run out.\<close>

theorem round_lands_what_it_kept:
  assumes "mg_reachable m" "\<not> round_is_empty r" "round_rejections r m = Inr rejected"
    and "\<forall>k \<in> set (round_layers r). lm_layer m k \<noteq> None"
    and "unat (mg_next m) + length (round_layers r) < 2 ^ 64"
    and kept: "kept = filter (\<lambda>k. k \<notin> cascade r (fst ` set rejected)) (round_layers r)"
  shows "\<exists>out n authors. merge_round r m = (Inr out, n) \<and> ro_rejected out = rejected \<and> ro_applied out = length kept \<and>
    gains (rd_parent r) (ro_landed out) m n \<and> sorted_wrt (<) (ro_landed out) \<and>
    distinct authors \<and> set authors = {author_or_source m k | k. k \<in> set kept \<and> read_membership (mg_db m) k \<noteq> []} \<and>
    list_all2 (\<lambda>a l. landed_as m n (rd_parent r) (a, filter (\<lambda>k. author_or_source m k = a) kept) l)
      authors (ro_landed out)"
proof -
  let ?gs = "by_producer m kept" and ?parent = "rd_parent r"
  note inv = mg_reachable_inv[OF assms(1)]
  have "length ?gs \<le> length (round_layers r)"
    using by_producer_length[of m kept] unfolding kept by (meson length_filter_le order_trans)
  moreover have "\<forall>g \<in> set ?gs. group_known m g"
    using assms(4) by (auto simp: by_producer_spec(2) group_known_def kept)
  ultimately obtain ls n where n: "land_groups ?parent ?gs [] m = (Inr ls, n)" "gains ?parent ls m n"
    "list_all2 (landed_as m n ?parent) (filter (group_carries m) ?gs) ls" "sorted_wrt (<) ls"
    using land_groups_ok[OF inv, of ?gs ?parent "[]"] assms(5) by auto
  let ?authors = "map fst (filter (group_carries m) ?gs)"
  have "distinct ?authors" using by_producer_spec(1)[of m kept] by (rule distinct_map_filter)
  moreover have "set ?authors = {author_or_source m k | k. k \<in> set kept \<and> read_membership (mg_db m) k \<noteq> []}"
    by (rule carrying_authors)
  moreover have "list_all2 (\<lambda>a l. landed_as m n ?parent (a, filter (\<lambda>k. author_or_source m k = a) kept) l) ?authors ls"
    unfolding list.rel_map by (rule list.rel_mono_strong[OF n(3)]) (auto simp: by_producer_spec(2))
  moreover have "merge_round r m = (Inr \<lparr>ro_executed = 0, ro_landed = ls, ro_applied = length kept, ro_rejected = rejected,
      ro_cascaded = card (cascade r (fst ` set rejected)) - card (fst ` set rejected)\<rparr>, n)"
    using n(1) assms(2,3) by (simp add: merge_round_def Let_def flip: kept)
  ultimately show ?thesis using n(2,4) by fastforce
qed

section \<open>Forks\<close>

text \<open>The counter is past every registered branch, as \<open>resuming\<close> sets it.\<close>

definition bm_ok :: "branches \<Rightarrow> bool" where
  "bm_ok bm \<longleftrightarrow> (\<forall>b branch. lm_branch (bm_layers bm) b = Some branch \<longrightarrow> b < bm_next_id bm)"

lemma next_branch_finds:
  assumes "n \<le> x" "unused_branch m x"
  shows "\<exists>b. next_branch_loop m n = Some (b, b + 1) \<and> n \<le> b \<and> b \<le> x \<and> unused_branch m b"
  using assms(1)
proof (induction "unat x - unat n" arbitrary: n rule: less_induct)
  case less
  show ?case
  proof (cases "unused_branch m n")
    case True
    then show ?thesis using less.prems by (subst next_branch_loop.simps) simp
  next
    case False
    then have "n \<noteq> x" using assms(2) by blast
    then have "n < x" using less.prems by simp
    moreover have "n \<noteq> - 1" using \<open>n < x\<close> by (metis word_order.extremum_strict)
    ultimately have n: "n + 1 \<le> x" "n < n + 1" using less_next[of n] by (simp_all add: inc_le)
    then have "unat x - unat (n + 1) < unat x - unat n"
      using \<open>n < x\<close> by (simp add: word_less_nat_alt word_le_nat_alt)
    from less.hyps[OF this n(1)] n(2) False show ?thesis
      by (subst next_branch_loop.simps) (auto intro: order_trans less_imp_le)
  qed
qed

lemma ancestry_below:
  assumes "ancestry links req p bound path" "links_down links" "\<forall>x \<le> q. links' x = links x" "p \<le> q"
  shows "ancestry links' req p bound path"
  using assms
proof (induction rule: ancestry.induct)
  case (Root b bound)
  then show ?case by (intro ancestry.Root) simp
next
  case (Fork b origin parent path bound)
  then have "parent < b" unfolding links_down_def by blast
  with Fork show ?case by (intro ancestry.Fork[of _ _ origin parent]) auto
qed

lemma ancestry_agree:
  assumes "links_down links" "links_down links'" "\<forall>x \<le> p. links' x = links x"
  shows "ancestry links' req p bound path = ancestry links req p bound path"
  using ancestry_below[of links req p bound path p links'] ancestry_below[of links' req p bound path p links] assms
  by auto

lemma persist_simps:
  "mg_layers (bm_layers (persist b bm)) = mg_layers (bm_layers bm)"
  "mg_heads (bm_layers (persist b bm)) = mg_heads (bm_layers bm)"
  "hm_get (mg_branches (bm_layers (persist b bm))) = (hm_get (mg_branches (bm_layers bm)))(br_id b \<mapsto> b)"
  "bm_next_id (persist b bm) = bm_next_id bm"
  by (simp_all add: persist_def register_branch_def Let_def)

text \<open>Property C7. A fork extends the tree. As long as some id is left, forking at a layer of a
  registered branch returns; the new branch has an id that no registered branch and no head has, its
  parent is the branch forked from, and it reads exactly what that branch showed at the layer, behind
  an empty segment of its own; the counter stays past every branch, ids still grow from parent to
  child, so that every read path is finite, and no other branch changes.\<close>

theorem fork_extends_tree:
  assumes "bm_ok bm" "links_down (parent_link (bm_layers bm))" "lm_branch (bm_layers bm) parent \<noteq> None"
    and "lm_layer (bm_layers bm) at = Some layer" "ly_branch layer = parent"
    and "bm_next_id bm \<le> x" "x \<noteq> - 1" "unused_branch (bm_layers bm) x"
  shows "\<exists>b bm'. fork_branch parent at name bm = (Inr b, bm') \<and> unused_branch (bm_layers bm) b \<and>
    lm_branch (bm_layers bm') = (lm_branch (bm_layers bm))(b \<mapsto> \<lparr>br_id = b, br_name = name, br_origin = Some at\<rparr>) \<and>
    parent_of (bm_layers bm') b = Some parent \<and> bm_ok bm' \<and> links_down (parent_link (bm_layers bm')) \<and>
    (\<forall>path. lm_read_path (bm_layers bm') b None = Inr path \<longleftrightarrow>
       (\<exists>rest. path = (b, 0) # rest \<and> ancestry (parent_link (bm_layers bm)) None parent at rest))"
proof -
  let ?m = "bm_layers bm"
  obtain b where b: "next_branch_loop ?m (bm_next_id bm) = Some (b, b + 1)" "bm_next_id bm \<le> b" "b \<le> x"
    "unused_branch ?m b" using next_branch_finds[OF assms(6,8)] by blast
  have unused: "lm_branch ?m b = None" "lm_head ?m b = None" using b(4) by (simp_all add: unused_branch_def)
  let ?br = "\<lparr>br_id = b, br_name = name, br_origin = Some at\<rparr>"
  let ?bm = "persist ?br (bm\<lparr>bm_next_id := b + 1\<rparr>)"
  let ?n = "bm_layers ?bm"
  have fork: "fork_branch parent at name bm = (Inr b, ?bm)"
    by (simp add: fork_branch_def assms(4,5) next_branch_def b(1))
  have branches: "lm_branch ?n = (lm_branch ?m)(b \<mapsto> ?br)" by (simp add: fun_eq_iff lm_branch_def persist_simps)
  have layers: "lm_layer ?n = lm_layer ?m" "lm_head ?n = lm_head ?m"
    by (simp_all add: fun_eq_iff lm_layer_def lm_head_def persist_simps)
  have parent: "parent_of ?n b = Some parent" by (simp add: parent_of_def branches layers assms(4,5))
  have links: "parent_link ?n = (parent_link ?m)(b \<mapsto> (at, parent))"
    by (rule ext) (simp add: parent_link_alt origin_of_def branches layers assms(4,5))
  have below: "parent < b" using assms(1,3) b(2) unfolding bm_ok_def by (metis not_None_eq order.strict_trans2)
  have down: "links_down (parent_link ?n)"
    using assms(2) below by (auto simp: links links_down_def)
  have "b \<noteq> - 1" using b(3) assms(7) by (metis word_order.extremum_unique)
  then have "b < b + 1" by (rule less_next)
  then have ok: "bm_ok ?bm"
    using assms(1) b(2) unfolding bm_ok_def branches persist_simps by (auto intro: less_trans order.strict_trans2)
  have "ancestry (parent_link ?n) None parent at rest = ancestry (parent_link ?m) None parent at rest" for rest
    by (rule ancestry_agree[OF assms(2) down]) (use below in \<open>auto simp: links\<close>)
  moreover have "ancestry (parent_link ?n) None b 0 path \<longleftrightarrow>
      (\<exists>rest. path = (b, 0) # rest \<and> ancestry (parent_link ?n) None parent at rest)" for path
    by (subst ancestry.simps) (auto simp: links clamp_def)
  moreover have "start_bound ?n b None = 0" by (simp add: start_bound_def layers unused(2))
  ultimately have "\<forall>path. lm_read_path ?n b None = Inr path \<longleftrightarrow>
      (\<exists>rest. path = (b, 0) # rest \<and> ancestry (parent_link ?m) None parent at rest)"
    by (simp add: lm_read_path_iff)
  with fork b(4) branches parent ok down show ?thesis by blast
qed

text \<open>"Unused" looks at rows and heads only, not at open layers: forking a branch that
  has no row at its first layer, before that layer has committed, hands out the branch's own id, and
  the fork is its own parent: its read path has no end.\<close>

theorem fork_can_be_its_own_parent:
  "\<exists>m at b bm'. mg_reachable m \<and> fork_branch b at None (the (resuming m 1)) = (Inr b, bm') \<and>
     parent_of (bm_layers bm') b = Some b \<and> (\<nexists>path. lm_read_path (bm_layers bm') b None = Inr path)"
proof -
  let ?bm = "\<lparr>bm_layers = s_open, bm_next_id = 1\<rparr>"
  let ?br = "\<lparr>br_id = 1, br_name = None, br_origin = Some 1\<rparr> :: branch"
  let ?bm' = "persist ?br \<lparr>bm_layers = s_open, bm_next_id = 2\<rparr>"
  let ?n = "bm_layers ?bm'"
  have open1: "mg_layers s_open = [(1, s_layer 1 None)]" "mg_branches s_open = []" "mg_heads s_open = []"
    using lm_open_cases[OF mg_reachable_inv[OF s_inv(1)] _ refl refl, of 1 LKValue ASource]
    by (simp_all add: s_open_def s_start_defs lm_head_def s_layer_def)
  then have l: "lm_layer s_open 1 = Some (s_layer 1 None)" by (simp add: lm_layer_def)
  have r: "resuming s_open 1 = Some ?bm" by (simp add: resuming_def lm_branches_def open1)
  have "unused_branch s_open 1" by (simp add: unused_branch_def lm_branch_def lm_head_def open1)
  then have "next_branch_loop s_open 1 = Some (1, 2)" by (subst next_branch_loop.simps) simp
  then have fork: "fork_branch 1 1 None ?bm = (Inr 1, ?bm')"
    by (simp add: fork_branch_def l next_branch_def) (simp add: s_layer_def)
  have br: "lm_branch ?n 1 = Some ?br" "lm_layer ?n 1 = Some (s_layer 1 None)"
    using l by (simp_all add: lm_branch_def lm_layer_def persist_simps)
  have parent: "parent_of ?n 1 = Some 1" by (simp add: parent_of_def br) (simp add: s_layer_def)
  have link: "parent_link ?n 1 = Some (1, 1)" by (simp add: parent_link_def origin_of_def br) (simp add: s_layer_def)
  have "\<not> ancestry (parent_link ?n) None c bound path" if "c = 1" for c bound path
  proof
    assume "ancestry (parent_link ?n) None c bound path"
    then show False using that by (induction rule: ancestry.induct) (simp_all add: link)
  qed
  then have "\<nexists>path. lm_read_path ?n 1 None = Inr path" by (simp add: lm_read_path_iff)
  with fork parent r s_inv(2) show ?thesis by (intro exI[of _ s_open] exI[of _ 1] exI) auto
qed

section \<open>Witnesses\<close>

text \<open>Branch 1 of \<open>s_committed\<close>, whose layer 1 wrote one cell, seen as the child of branch 2.\<close>

definition s_tx :: transaction where "s_tx = tx_new 1 2 0"
definition s_round :: round where "s_round = round_ran 1 [] [] (round_new 1 2 0)"

lemma s_path_2: "lm_read_path s_committed 2 None = Inr [(2, 0)]"
  unfolding lm_read_path_iff
  by (rule ancestry.Root[of _ 2 _ 0] | simp add: start_bound_def lm_head_def parent_link_def origin_of_def
      lm_branch_def s_committed_state s_start_defs)+

lemma s_membership: "read_membership (mg_db s_committed) 1 = [1]"
  by (simp add: s_committed_state s_db_def read_membership_def)

lemma s_replayable: "replayable_layers s_committed 1 DefAndData = [1]"
  by (simp add: replayable_layers_def layers_of_def s_committed_state s_layer_def is_source_def)

lemma s_events_of: "events_of (mg_db s_committed) 1 = [s_event]"
  by (simp add: events_of_def s_membership) (simp add: s_committed_state s_db_def stored_def event_at_def slot_of_def)

lemma s_valid: "validate_layers s_committed 2 0 moved [1] = Inr [[s_event]]"
proof -
  have "read_def_layer (mg_db s_committed) 1 = []" by (simp add: s_committed_state s_db_def read_def_layer_def)
  moreover have "contents_of s_committed 1 = Inr [s_event]"
    by (simp add: contents_of_ok[OF mg_reachable_inv[OF s_inv(4)]] s_events_of)
  moreover have "lm_layer s_committed 1 = Some ((s_layer 1 None)\<lparr>ly_state := LCommitted\<rparr>)"
    by (simp add: lm_layer_def s_committed_state)
  moreover have "check_dangling s_committed 2 0 [s_event] = Inr ()"
    by (simp add: check_dangling_def s_path_2 Let_def history_at_def)
       (simp add: s_committed_state s_db_def mem_new_def)
  ultimately show ?thesis by (simp add: check_guards_def s_layer_def)
qed

lemma merge_is_all_or_nothing_witness:
  "\<exists>ls n. merge_transaction s_tx DefAndData s_committed = (Inr ls, n) \<and>
     list_all2 (replayed_as s_committed n 2) [1] ls"
proof -
  note inv = mg_reachable_inv[OF s_inv(4)]
  have room: "unat (mg_next s_committed) + 1 < 2 ^ 64" by (simp add: s_committed_state)
  have "can_replay s_committed (1, [s_event])"
    using can_replay_source[OF s_inv(4), of 1] s_events_of by (simp add: lm_layer_def s_committed_state)
  then obtain ls n where "apply_layers 2 [(1, [s_event])] [] s_committed = (Inr ls, n)"
    using apply_layers_ok[OF inv, of "[(1, [s_event])]" 2 "[]"] room by auto
  moreover have "check_reads s_committed 2 [] 0 = Inr ()" by (simp add: check_reads_def s_path_2 check_touched_def)
  moreover have tx: "tx_branch s_tx = 1" "tx_parent s_tx = 2" "tx_fork_point s_tx = 0" "tx_guards s_tx = []"
    by (simp_all add: s_tx_def tx_new_def tx_guards_def)
  ultimately have ok: "merge_transaction s_tx DefAndData s_committed = (Inr ls, n)"
    by (simp add: merge_transaction_def replay_def s_replayable s_valid Let_def del: validate_layers.simps)
  from merge_is_all_or_nothing[OF s_inv(4), of s_tx DefAndData] room
  show ?thesis by (auto simp: tx s_replayable ok)
qed

lemma stale_transaction_is_rejected_witness:
  "merge_transaction (tx_observe (CellAt w_cell (DefVersion 1)) (tx_new 5 1 0)) DefAndData s_second =
     (Inl (MergeRejected (GuardConflict w_cell)), s_second)"
proof -
  let ?tx = "tx_observe (CellAt w_cell (DefVersion 1)) (tx_new 5 1 0)"
  have tx: "tx_parent ?tx = 1" "tx_fork_point ?tx = 0" "tx_guards ?tx = [w_cell]"
    by (simp_all add: tx_observe_def tx_new_def tx_guards_def)
  have "lm_read_path s_second (tx_parent ?tx) None = Inr [(1, 1)]" "w_cell \<in> set (tx_guards ?tx)"
    "touched_on s_second [(1, 1)] (tx_fork_point ?tx) w_cell 1" by (simp_all add: tx s_path s_touched)
  from stale_transaction_is_rejected[OF s_inv(5) this, of DefAndData]
  show ?thesis by (auto simp: tx Cons_eq_append_conv)
qed

lemma round_rejects_exactly_the_stale_witness:
  "\<exists>rejected. round_rejections (round_ran 2 [CellAt w_cell (DefVersion 1)] [] (round_new 5 1 0)) s_second = Inr rejected \<and>
     2 \<in> fst ` set rejected"
proof -
  let ?r = "round_ran 2 [CellAt w_cell (DefVersion 1)] [] (round_new 5 1 0)"
  have r: "rd_parent ?r = 1" "rd_fork_point ?r = 0" "round_guards ?r = [(2, [w_cell])]"
    by (simp_all add: round_ran_def round_new_def round_guards_def round_produced_def)
  have "touched_on s_second [(1, 1)] 0 w_cell 1" by (simp add: s_touched)
  moreover have "\<exists>rejected. round_rejections ?r s_second = Inr rejected \<and>
    (\<forall>l. l \<in> fst ` set rejected \<longleftrightarrow>
      (\<exists>cells c k. (l, cells) \<in> set (round_guards ?r) \<and> c \<in> set cells \<and> touched_on s_second [(1, 1)] (rd_fork_point ?r) c k) \<or>
      (l \<in> set (round_layers ?r) \<and> (\<exists>e ev. e \<in> set (read_membership (mg_db s_second) l) \<and>
         stored (mg_db s_second) e = Some ev \<and> deleted_on s_second (rd_parent ?r) (rd_fork_point ?r) (existence_of (ev_cell ev)))))"
    by (rule round_rejects_exactly_the_stale[OF s_inv(5)]) (simp_all add: r s_path)
  ultimately show ?thesis unfolding r(2,3) by (elim exE conjE) (rule exI, rule conjI, assumption, force)
qed

lemma round_lands_what_it_kept_witness:
  "\<exists>out n. merge_round s_round s_committed = (Inr out, n) \<and> ro_applied out = 1 \<and>
     (\<exists>l \<in> set (ro_landed out). read_membership (mg_db n) l = [1])"
proof -
  note inv = mg_reachable_inv[OF s_inv(4)]
  have r: "rd_parent s_round = 2" "rd_fork_point s_round = 0" "round_guards s_round = [(1, [])]"
    "round_layers s_round = [1]" "\<not> round_is_empty s_round"
    by (simp_all add: s_round_def round_ran_def round_new_def round_guards_def round_layers_def round_is_empty_def)
  have "\<not> deleted_on s_committed 2 0 c" for c
    by (auto simp: deleted_on_def lm_layer_def s_committed_state s_layer_def split: if_splits)
  then obtain rejected where rej: "round_rejections s_round s_committed = Inr rejected" "fst ` set rejected = {}"
    using round_rejections_ok[OF inv, of s_round "[(2, 0)]"] s_path_2 by (auto simp: r)
  have known: "\<forall>k \<in> set (round_layers s_round). lm_layer s_committed k \<noteq> None"
    by (simp add: r lm_layer_def s_committed_state)
  have room: "unat (mg_next s_committed) + length (round_layers s_round) < 2 ^ 64"
    by (simp add: r s_committed_state)
  have kept: "[1] = filter (\<lambda>k. k \<notin> cascade s_round (fst ` set rejected)) (round_layers s_round)"
    unfolding rej(2) by (simp add: r cascade_def)
  have "author_or_source s_committed 1 = ASource"
    by (simp add: author_or_source_def author_of_def s_committed_state s_layer_def)
  moreover obtain out n authors where out: "merge_round s_round s_committed = (Inr out, n)" "ro_applied out = length [1 :: layer_id]"
    "set authors = {author_or_source s_committed k | k. k \<in> set [1] \<and> read_membership (mg_db s_committed) k \<noteq> []}"
    "list_all2 (\<lambda>a l. landed_as s_committed n (rd_parent s_round) (a, filter (\<lambda>k. author_or_source s_committed k = a) [1]) l)
       authors (ro_landed out)"
    using round_lands_what_it_kept[OF s_inv(4) r(5) rej(1) known room kept] by blast
  ultimately have "ASource \<in> set authors" using s_membership by simp
  then obtain l where "l \<in> set (ro_landed out)"
    "landed_as s_committed n 2 (ASource, filter (\<lambda>k. author_or_source s_committed k = ASource) [1]) l"
    using all2_left[OF out(4)] r(1) by auto
  then show ?thesis using out(1,2) s_membership \<open>author_or_source s_committed 1 = ASource\<close>
    by (auto simp: landed_as_def carried_events_def)
qed

lemma fork_extends_tree_witness:
  "\<exists>b bm'. fork_branch 1 1 (Some ''draft'')
       \<lparr>bm_layers = register_branch \<lparr>br_id = 1, br_name = None, br_origin = None\<rparr> s_committed, bm_next_id = 2\<rparr> = (Inr b, bm') \<and>
     parent_of (bm_layers bm') b = Some 1"
proof -
  let ?br = "\<lparr>br_id = 1, br_name = None, br_origin = None\<rparr> :: branch"
  let ?bm = "\<lparr>bm_layers = register_branch ?br s_committed, bm_next_id = 2\<rparr>"
  let ?layer = "(s_layer 1 None)\<lparr>ly_state := LCommitted\<rparr>"
  have b: "lm_branch (bm_layers ?bm) x = (if x = 1 then Some ?br else None)" for x
    by (simp add: lm_branch_def register_branch_def s_committed_state s_start_defs)
  have h: "lm_head (bm_layers ?bm) 2 = None" by (simp add: lm_head_def register_branch_def s_committed_state)
  have l: "lm_layer (bm_layers ?bm) 1 = Some ?layer" by (simp add: lm_layer_def register_branch_def s_committed_state)
  have "parent_link (bm_layers ?bm) x = None" for x
    unfolding parent_link_def origin_of_def b by simp
  then have down: "links_down (parent_link (bm_layers ?bm))" by (simp add: links_down_def)
  have ok: "bm_ok ?bm" unfolding bm_ok_def b by simp
  have un: "unused_branch (bm_layers ?bm) 2" unfolding unused_branch_def b h by simp
  have reg: "lm_branch (bm_layers ?bm) 1 \<noteq> None" unfolding b by simp
  have br: "ly_branch ?layer = 1" by (simp add: s_layer_def)
  from fork_extends_tree[OF ok down reg l br, of 2 "Some ''draft''"] un show ?thesis by auto
qed

end
