(* ===== verification/Def_View.thy ===== *)
theory Def_View
  imports Cells
begin

text \<open>
  \<^verbatim>\<open>borg-engine/src/defs.rs\<close>, the pure half: the view of the definitions in force that a stream
  of definition events folds to, the version chain of each field with the migrations that bridge
  it, the check of a write, and the migration path between two versions of a field. What an
  error's text formats is carried by the error's constructor.
\<close>

section \<open>Data\<close>

record version_step =
  vs_from :: def_version
  vs_to :: def_version
  vs_up :: producer_id
  vs_down :: "producer_id option"

record migration_hop =
  mh_producer :: producer_id
  mh_direction :: migration_direction
  mh_from :: def_version
  mh_to :: def_version

record migration_role =
  mr_input :: def_version
  mr_output :: def_version
  mr_step :: "producer_id list"

record object_def =
  od_name :: object_type_name
  od_fields :: "(field_name, field_def) btmap"

record def_view =
  dv_objects :: "(object_type_name, object_def) hmap"
  dv_chains :: "(object_type_name \<times> field_name, version_step list) hmap"
  dv_producers :: "(producer_id, producer_def) hmap"

definition def_view_new :: def_view where
  "def_view_new = \<lparr>dv_objects = [], dv_chains = [], dv_producers = []\<rparr>"

section \<open>Lookups\<close>

definition def_object :: "def_view \<Rightarrow> object_type_name \<Rightarrow> object_def option" where
  "def_object v name = hm_get (dv_objects v) name"

definition view_producers :: "def_view \<Rightarrow> producer_def list" where
  "view_producers v = map snd (dv_producers v)"

definition view_producer :: "def_view \<Rightarrow> producer_id \<Rightarrow> producer_def option" where
  "view_producer v p = hm_get (dv_producers v) p"

definition field_at :: "def_view \<Rightarrow> object_type_name \<Rightarrow> field_name \<Rightarrow> field_def option" where
  "field_at v s f = (case def_object v s of None \<Rightarrow> None | Some ob \<Rightarrow> map_of (od_fields ob) f)"

definition def_field :: "def_view \<Rightarrow> cell_ref \<Rightarrow> field_def option" where
  "def_field v cell = (case cr_buffer cell of BObjectProp s f \<Rightarrow> field_at v s f | _ \<Rightarrow> None)"

definition version_of :: "def_view \<Rightarrow> cell_ref \<Rightarrow> def_version" where
  "version_of v cell =
     (case def_field v cell of None \<Rightarrow> UNVERSIONED | Some fd \<Rightarrow> DefVersion (fd_version fd))"

section \<open>Migrations\<close>

definition step_names :: "migration_direction \<Rightarrow> producer_id \<Rightarrow> version_step \<Rightarrow> bool" where
  "step_names direction p step =
     (case direction of MUp \<Rightarrow> vs_up step = p | MDown \<Rightarrow> vs_down step = Some p)"

definition role_in :: "migration_direction \<Rightarrow> version_step \<Rightarrow> migration_role" where
  "role_in direction step =
     (let (input, output) = (case direction of MUp \<Rightarrow> (vs_from step, vs_to step) | MDown \<Rightarrow> (vs_to step, vs_from step))
      in \<lparr>mr_input = input, mr_output = output,
          mr_step = vs_up step # (case vs_down step of None \<Rightarrow> [] | Some d \<Rightarrow> [d])\<rparr>)"

definition migration_role_of :: "def_view \<Rightarrow> producer_def \<Rightarrow> migration_role option" where
  "migration_role_of v d =
     (case pd_kind d of
        PKPipeline \<Rightarrow> None
      | PKMigration direction \<Rightarrow>
          (case pd_source d of
             BObjectProp s f \<Rightarrow>
               (case hm_get (dv_chains v) (s, f) of
                  None \<Rightarrow> None
                | Some chain \<Rightarrow> map_option (role_in direction) (find (step_names direction (pd_id d)) chain))
           | _ \<Rightarrow> None))"

definition migrates :: "def_view \<Rightarrow> object_type_name \<Rightarrow> field_name \<Rightarrow> producer_id \<Rightarrow> bool" where
  "migrates v s f p =
     (case hm_get (dv_chains v) (s, f) of
        None \<Rightarrow> False
      | Some chain \<Rightarrow> list_ex (\<lambda>step. vs_up step = p \<or> vs_down step = Some p) chain)"

section \<open>The check of a write\<close>

definition permitted :: "def_view \<Rightarrow> object_type_name \<Rightarrow> field_name \<Rightarrow> ownership \<Rightarrow> writer \<Rightarrow> bool" where
  "permitted v s f own w =
     (case (own, w) of
        (OwnSource, WClient) \<Rightarrow> True
      | (OwnDerived owner, WProducer attempted) \<Rightarrow> owner = attempted
      | (_, WProducer attempted) \<Rightarrow> migrates v s f attempted
      | (OwnDerived _, WClient) \<Rightarrow> False)"

definition check_ownership ::
  "def_view \<Rightarrow> cell_ref \<Rightarrow> object_type_name \<Rightarrow> field_name \<Rightarrow> field_def \<Rightarrow> writer \<Rightarrow> unit result" where
  "check_ownership v cell s f declared w =
     (if permitted v s f (fd_ownership declared) w then Inr ()
      else Inl (WriteRejected (OwnershipViolation cell (fd_ownership declared) w)))"

fun join_names :: "string list \<Rightarrow> string" where
  "join_names [] = []"
| "join_names [n] = n"
| "join_names (n # ns) = n @ '', '' @ join_names ns"

definition check_write ::
  "def_view \<Rightarrow> cell_ref \<Rightarrow> val \<Rightarrow> writer \<Rightarrow> def_view \<Rightarrow> unit result" where
  "check_write v cell value w authority =
     (case cr_buffer cell of
        BObjectProp s f \<Rightarrow>
          (case def_object v s of
             None \<Rightarrow> Inl (WriteRejected (UndeclaredStruct cell s))
           | Some ob \<Rightarrow>
               (case map_of (od_fields ob) f of
                  None \<Rightarrow> Inl (WriteRejected (UndeclaredField cell s f (join_names (map fst (od_fields ob)))))
                | Some declared \<Rightarrow>
                    (let governing = (case def_field authority cell of Some fd \<Rightarrow> fd | None \<Rightarrow> declared) in
                     case check_ownership authority cell s f governing w of
                       Inl err \<Rightarrow> Inl err
                     | Inr _ \<Rightarrow>
                         if \<not> accepts (fd_ty declared) value
                         then Inl (WriteRejected (TypeMismatch cell (fd_ty declared) value))
                         else Inr ())))
      | BObject s \<Rightarrow>
          if def_object v s = None then Inl (WriteRejected (UndeclaredStruct cell s))
          else if accepts TBool value then Inr ()
          else Inl (WriteRejected (TypeMismatch cell TBool value))
      | _ \<Rightarrow> Inr ())"

section \<open>The fold\<close>

definition set_object :: "object_type_name \<Rightarrow> object_def \<Rightarrow> def_view \<Rightarrow> def_view" where
  "set_object s ob v = v\<lparr>dv_objects := hm_insert s ob (dv_objects v)\<rparr>"

definition with_fields :: "((field_name, field_def) btmap \<Rightarrow> (field_name, field_def) btmap) \<Rightarrow> object_def \<Rightarrow> object_def" where
  "with_fields g ob = \<lparr>od_name = od_name ob, od_fields = g (od_fields ob)\<rparr>"

definition apply_declare ::
  "object_type_name \<Rightarrow> field_name \<Rightarrow> value_type \<Rightarrow> repo_id \<Rightarrow> ownership \<Rightarrow> layer_id \<Rightarrow> def_view \<Rightarrow> def_view result" where
  "apply_declare s f ty repo own at v =
     (let ob = (case def_object v s of Some ob \<Rightarrow> ob | None \<Rightarrow> \<lparr>od_name = s, od_fields = []\<rparr>) in
      case map_of (od_fields ob) f of
        Some existing \<Rightarrow>
          if fd_declaring_repo existing = repo \<and> fd_ty existing = ty \<and> fd_ownership existing = own
          then Inr v
          else Inl (FieldCollision s f (fd_declaring_repo existing))
      | None \<Rightarrow>
          Inr (set_object s
            (with_fields (bt_insert f \<lparr>fd_name = f, fd_ty = ty, fd_declaring_repo = repo, fd_ownership = own, fd_version = at\<rparr>) ob) v))"

definition apply_mutate ::
  "object_type_name \<Rightarrow> field_name \<Rightarrow> value_type \<Rightarrow> repo_id \<Rightarrow> producer_id \<Rightarrow> producer_id option \<Rightarrow> layer_id \<Rightarrow>
   def_view \<Rightarrow> def_view result" where
  "apply_mutate s f ty repo up down at v =
     (case def_object v s of
        None \<Rightarrow> Inl (MissingMigration s f)
      | Some ob \<Rightarrow>
          (case map_of (od_fields ob) f of
             None \<Rightarrow> Inl (MissingMigration s f)
           | Some existing \<Rightarrow>
               if fd_declaring_repo existing \<noteq> repo
               then Inl (NotDeclaringRepo repo (fd_declaring_repo existing) s f)
               else (case fd_ownership existing of
                       OwnDerived owner \<Rightarrow> Inl (MigrationOnDerivedField s f owner)
                     | OwnSource \<Rightarrow>
                         (let step = \<lparr>vs_from = DefVersion (fd_version existing), vs_to = DefVersion at,
                                      vs_up = up, vs_down = down\<rparr>;
                              v = set_object s (with_fields (bt_insert f
                                    \<lparr>fd_name = fd_name existing, fd_ty = ty, fd_declaring_repo = fd_declaring_repo existing,
                                     fd_ownership = fd_ownership existing, fd_version = at\<rparr>) ob) v
                          in Inr (v\<lparr>dv_chains := hm_modify (s, f) [] (\<lambda>chain. chain @ [step]) (dv_chains v)\<rparr>)))))"

definition apply_delete ::
  "object_type_name \<Rightarrow> field_name \<Rightarrow> repo_id \<Rightarrow> def_view \<Rightarrow> def_view result" where
  "apply_delete s f repo v =
     (case def_object v s of
        None \<Rightarrow> Inr v
      | Some ob \<Rightarrow>
          (case map_of (od_fields ob) f of
             Some existing \<Rightarrow>
               if fd_declaring_repo existing \<noteq> repo
               then Inl (NotDeclaringRepo repo (fd_declaring_repo existing) s f)
               else Inr (set_object s (with_fields (hm_remove f) ob) v)
           | None \<Rightarrow> Inr (set_object s (with_fields (hm_remove f) ob) v)))"

definition apply_push :: "producer_def \<Rightarrow> layer_id \<Rightarrow> def_view \<Rightarrow> def_view" where
  "apply_push d at v = v\<lparr>dv_producers := hm_insert (pd_id d) (d\<lparr>pd_version := at\<rparr>) (dv_producers v)\<rparr>"

fun def_apply :: "def_event \<Rightarrow> layer_id \<Rightarrow> def_view \<Rightarrow> def_view result" where
  "def_apply (DeclareField s f ty repo own) at v = apply_declare s f ty repo own at v"
| "def_apply (MutateField s f ty repo up down) at v = apply_mutate s f ty repo up down at v"
| "def_apply (DeleteField s f repo) at v = apply_delete s f repo v"
| "def_apply (PushProducer d) at v = Inr (apply_push d at v)"

fun apply_events :: "layer_id \<Rightarrow> def_event list \<Rightarrow> def_view \<Rightarrow> def_view result" where
  "apply_events at [] v = Inr v"
| "apply_events at (event # events) v =
     (case def_apply event at v of Inl err \<Rightarrow> Inl err | Inr v \<Rightarrow> apply_events at events v)"

section \<open>Migration paths\<close>

definition up_hop :: "version_step \<Rightarrow> migration_hop" where
  "up_hop step = \<lparr>mh_producer = vs_up step, mh_direction = MUp, mh_from = vs_from step, mh_to = vs_to step\<rparr>"

fun down_hops :: "version_step list \<Rightarrow> migration_hop list option" where
  "down_hops [] = Some []"
| "down_hops (step # steps) =
     (case vs_down step of
        None \<Rightarrow> None
      | Some p \<Rightarrow>
          map_option (\<lambda>hops. \<lparr>mh_producer = p, mh_direction = MDown, mh_from = vs_to step, mh_to = vs_from step\<rparr> # hops)
            (down_hops steps))"

definition chain_path :: "version_step list \<Rightarrow> def_version \<Rightarrow> def_version \<Rightarrow> migration_hop list option" where
  "chain_path chain a b =
     (if dv_layer a < dv_layer b
      then Some (map up_hop (filter (\<lambda>s. dv_layer (vs_from s) \<ge> dv_layer a \<and> dv_layer (vs_to s) \<le> dv_layer b) chain))
      else down_hops (filter (\<lambda>s. dv_layer (vs_to s) \<le> dv_layer a \<and> dv_layer (vs_from s) \<ge> dv_layer b) (rev chain)))"

definition def_path :: "def_view \<Rightarrow> buffer_id \<Rightarrow> def_version \<Rightarrow> def_version \<Rightarrow> migration_hop list option" where
  "def_path v buffer a b =
     (case buffer of
        BObjectProp s f \<Rightarrow>
          if a = b then Some []
          else (case hm_get (dv_chains v) (s, f) of
                  None \<Rightarrow> None
                | Some chain \<Rightarrow> chain_path chain a b)
      | _ \<Rightarrow> if a = b then Some [] else None)"

end
