(* ===== verification/Def_Properties.thy ===== *)
theory Def_Properties
  imports Def_View
begin

text \<open>
  What the definition fold of \<open>Def_View\<close> guarantees: each event as an update of the partial map
  of declared fields, the linked version chains and the paths along them, the isolation of
  repositories, the repeat of a push, and which writes the definitions let through.
\<close>

section \<open>Events as updates of a partial map\<close>

type_synonym field_map = "object_type_name \<times> field_name \<Rightarrow> field_def option"

definition fields_of :: "def_view \<Rightarrow> field_map" where
  "fields_of v = (\<lambda>(s, f). field_at v s f)"

definition chain_of :: "def_view \<Rightarrow> object_type_name \<times> field_name \<Rightarrow> version_step list" where
  "chain_of v k = hm_get_or [] (dv_chains v) k"

lemma fields_of_simps [simp]: "fields_of v (s, f) = field_at v s f"
  by (simp add: fields_of_def)

lemma fields_of_new [simp]: "fields_of def_view_new = (\<lambda>_. None)" "chain_of def_view_new k = []"
  by (auto simp: fields_of_def field_at_def def_object_def def_view_new_def chain_of_def)

lemma def_object_set_object [simp]:
  "def_object (set_object s ob v) = (def_object v)(s \<mapsto> ob)"
  by (auto simp: def_object_def set_object_def fun_eq_iff)

lemma set_object_frame [simp]:
  "dv_chains (set_object s ob v) = dv_chains v" "dv_producers (set_object s ob v) = dv_producers v"
  "chain_of (set_object s ob v) = chain_of v"
  by (simp_all add: set_object_def chain_of_def fun_eq_iff)

lemma fields_of_chains [simp]:
  "fields_of (v\<lparr>dv_chains := c\<rparr>) = fields_of v" "field_at (v\<lparr>dv_chains := c\<rparr>) = field_at v"
  "fields_of (v\<lparr>dv_producers := p\<rparr>) = fields_of v" "chain_of (v\<lparr>dv_producers := p\<rparr>) = chain_of v"
  by (auto simp: fields_of_def field_at_def def_object_def chain_of_def fun_eq_iff split: option.splits)

definition struct_of :: "def_view \<Rightarrow> object_type_name \<Rightarrow> object_def" where
  "struct_of v s = (case def_object v s of Some ob \<Rightarrow> ob | None \<Rightarrow> \<lparr>od_name = s, od_fields = []\<rparr>)"

lemma struct_of_fields [simp]: "map_of (od_fields (struct_of v s)) f = field_at v s f"
  by (simp add: struct_of_def field_at_def split: option.splits)

lemma struct_of_Some: "def_object v s = Some ob \<Longrightarrow> struct_of v s = ob"
  by (simp add: struct_of_def)

lemma fields_of_update:
  "fields_of (set_object s (with_fields (bt_insert f fd) (struct_of v s)) v) = (fields_of v)((s, f) \<mapsto> fd)"
  "fields_of (set_object s (with_fields (hm_remove f) (struct_of v s)) v) = (fields_of v)((s, f) := None)"
  by (auto simp: fun_eq_iff) (auto simp: fields_of_def field_at_def with_fields_def struct_of_def split: option.splits)

lemma field_at_update [simp]:
  "field_at (set_object s (with_fields (bt_insert f fd) (struct_of v s)) v) s' f' =
     (if s' = s \<and> f' = f then Some fd else field_at v s' f')"
  "field_at (set_object s (with_fields (hm_remove f) (struct_of v s)) v) s' f' =
     (if s' = s \<and> f' = f then None else field_at v s' f')"
  using fun_cong[OF fields_of_update(1)[of s f fd v], of "(s', f')"]
    fun_cong[OF fields_of_update(2)[of s f v], of "(s', f')"]
  by auto

lemma object_fields:
  "def_object v s = Some ob \<Longrightarrow> map_of (od_fields ob) f = field_at v s f"
  by (simp add: field_at_def)

lemma no_object: "def_object v s = None \<Longrightarrow> field_at v s f = None"
  by (simp add: field_at_def)

abbreviation fresh_field ::
  "field_name \<Rightarrow> value_type \<Rightarrow> repo_id \<Rightarrow> ownership \<Rightarrow> layer_id \<Rightarrow> field_def" where
  "fresh_field f ty repo own at \<equiv>
     \<lparr>fd_name = f, fd_ty = ty, fd_declaring_repo = repo, fd_ownership = own, fd_version = at\<rparr>"

text \<open>What each event asks of the fields, and what it makes of them.\<close>

fun event_error :: "def_event \<Rightarrow> field_map \<Rightarrow> borg_error option" where
  "event_error (DeclareField s f ty repo own) F =
     (case F (s, f) of
        Some fd \<Rightarrow> if fd_declaring_repo fd = repo \<and> fd_ty fd = ty \<and> fd_ownership fd = own then None
                  else Some (FieldCollision s f (fd_declaring_repo fd))
      | None \<Rightarrow> None)"
| "event_error (MutateField s f ty repo up down) F =
     (case F (s, f) of
        None \<Rightarrow> Some (MissingMigration s f)
      | Some fd \<Rightarrow>
          if fd_declaring_repo fd \<noteq> repo then Some (NotDeclaringRepo repo (fd_declaring_repo fd) s f)
          else map_option (MigrationOnDerivedField s f) (ownership_producer (fd_ownership fd)))"
| "event_error (DeleteField s f repo) F =
     (case F (s, f) of
        None \<Rightarrow> None
      | Some fd \<Rightarrow> if fd_declaring_repo fd \<noteq> repo then Some (NotDeclaringRepo repo (fd_declaring_repo fd) s f) else None)"
| "event_error (PushProducer d) F = None"

fun event_fields :: "def_event \<Rightarrow> layer_id \<Rightarrow> field_map \<Rightarrow> field_map" where
  "event_fields (DeclareField s f ty repo own) at F =
     (case F (s, f) of Some _ \<Rightarrow> F | None \<Rightarrow> F((s, f) \<mapsto> fresh_field f ty repo own at))"
| "event_fields (MutateField s f ty repo up down) at F =
     (case F (s, f) of None \<Rightarrow> F
      | Some fd \<Rightarrow> F((s, f) \<mapsto> fresh_field (fd_name fd) ty (fd_declaring_repo fd) (fd_ownership fd) at))"
| "event_fields (DeleteField s f repo) at F = F((s, f) := None)"
| "event_fields (PushProducer d) at F = F"

fun event_step :: "def_event \<Rightarrow> layer_id \<Rightarrow> field_map \<Rightarrow> ((object_type_name \<times> field_name) \<times> version_step) option" where
  "event_step (MutateField s f ty repo up down) at F =
     (case F (s, f) of None \<Rightarrow> None
      | Some fd \<Rightarrow> Some ((s, f), \<lparr>vs_from = DefVersion (fd_version fd), vs_to = DefVersion at, vs_up = up, vs_down = down\<rparr>))"
| "event_step _ at F = None"

lemma apply_declare_alt:
  "apply_declare s f ty repo own at v =
     (case field_at v s f of
        Some fd \<Rightarrow> if fd_declaring_repo fd = repo \<and> fd_ty fd = ty \<and> fd_ownership fd = own then Inr v
                  else Inl (FieldCollision s f (fd_declaring_repo fd))
      | None \<Rightarrow> Inr (set_object s (with_fields (bt_insert f (fresh_field f ty repo own at)) (struct_of v s)) v))"
  by (cases "def_object v s"; cases "field_at v s f")
    (simp_all add: apply_declare_def object_fields no_object struct_of_def)

lemma apply_mutate_alt:
  "apply_mutate s f ty repo up down at v =
     (case field_at v s f of
        None \<Rightarrow> Inl (MissingMigration s f)
      | Some fd \<Rightarrow>
          if fd_declaring_repo fd \<noteq> repo then Inl (NotDeclaringRepo repo (fd_declaring_repo fd) s f)
          else (case fd_ownership fd of
                  OwnDerived owner \<Rightarrow> Inl (MigrationOnDerivedField s f owner)
                | OwnSource \<Rightarrow>
                    Inr ((set_object s (with_fields (bt_insert f
                        (fresh_field (fd_name fd) ty (fd_declaring_repo fd) (fd_ownership fd) at)) (struct_of v s)) v)
                      \<lparr>dv_chains := hm_modify (s, f) [] (\<lambda>chain. chain @
                          [\<lparr>vs_from = DefVersion (fd_version fd), vs_to = DefVersion at, vs_up = up, vs_down = down\<rparr>])
                        (dv_chains v)\<rparr>)))"
proof (cases "def_object v s")
  case None
  then show ?thesis by (simp add: apply_mutate_def no_object)
next
  case (Some ob)
  then show ?thesis
    by (cases "field_at v s f"; cases "fd_ownership (the (field_at v s f))")
      (simp_all add: apply_mutate_def object_fields struct_of_Some Let_def)
qed

lemma apply_delete_alt:
  "apply_delete s f repo v =
     (case field_at v s f of
        Some fd \<Rightarrow>
          if fd_declaring_repo fd \<noteq> repo then Inl (NotDeclaringRepo repo (fd_declaring_repo fd) s f)
          else Inr (set_object s (with_fields (hm_remove f) (struct_of v s)) v)
      | None \<Rightarrow>
          Inr (if def_object v s = None then v else set_object s (with_fields (hm_remove f) (struct_of v s)) v))"
proof (cases "def_object v s")
  case None
  then show ?thesis by (simp add: apply_delete_def no_object)
next
  case (Some ob)
  then show ?thesis
    by (cases "field_at v s f") (simp_all add: apply_delete_def object_fields struct_of_Some)
qed

lemma apply_declare_spec:
  "apply_declare s f ty repo own at v = Inr v' \<Longrightarrow>
     event_error (DeclareField s f ty repo own) (fields_of v) = None \<and>
     fields_of v' = event_fields (DeclareField s f ty repo own) at (fields_of v) \<and>
     chain_of v' = chain_of v"
  "apply_declare s f ty repo own at v = Inl err \<Longrightarrow>
     event_error (DeclareField s f ty repo own) (fields_of v) = Some err"
  by (cases "field_at v s f"; auto simp: apply_declare_alt fields_of_update split: if_splits)+

lemma apply_mutate_spec:
  "apply_mutate s f ty repo up down at v = Inr v' \<Longrightarrow>
     event_error (MutateField s f ty repo up down) (fields_of v) = None \<and>
     fields_of v' = event_fields (MutateField s f ty repo up down) at (fields_of v) \<and>
     chain_of v' = (\<lambda>k. chain_of v k @
       (case event_step (MutateField s f ty repo up down) at (fields_of v) of
          Some (k', step) \<Rightarrow> if k' = k then [step] else [] | None \<Rightarrow> []))"
  "apply_mutate s f ty repo up down at v = Inl err \<Longrightarrow>
     event_error (MutateField s f ty repo up down) (fields_of v) = Some err"
  subgoal
    by (cases "field_at v s f")
      (auto simp: apply_mutate_alt fields_of_update chain_of_def fun_eq_iff ownership_producer_def
        split: if_splits ownership.splits)
  by (cases "field_at v s f")
    (auto simp: apply_mutate_alt ownership_producer_def split: if_splits ownership.splits)

lemma apply_delete_spec:
  "apply_delete s f repo v = Inr v' \<Longrightarrow>
     event_error (DeleteField s f repo) (fields_of v) = None \<and>
     fields_of v' = event_fields (DeleteField s f repo) at (fields_of v) \<and>
     chain_of v' = chain_of v"
  "apply_delete s f repo v = Inl err \<Longrightarrow>
     event_error (DeleteField s f repo) (fields_of v) = Some err"
  subgoal
    by (cases "field_at v s f") (auto simp: apply_delete_alt fields_of_update fun_upd_idem split: if_splits)
  by (cases "field_at v s f") (auto simp: apply_delete_alt split: if_splits)

text \<open>One event, in terms of the declared fields and the chains alone.\<close>

lemma def_apply_ok:
  assumes "def_apply e at v = Inr v'"
  shows "event_error e (fields_of v) = None"
    and "fields_of v' = event_fields e at (fields_of v)"
    and "chain_of v' = (\<lambda>k. chain_of v k @
      (case event_step e at (fields_of v) of Some (k', step) \<Rightarrow> if k' = k then [step] else [] | None \<Rightarrow> []))"
  using assms
  by (cases e; auto dest!: apply_declare_spec(1) apply_mutate_spec(1) apply_delete_spec(1)
      simp: apply_push_def simp del: event_error.simps event_fields.simps event_step.simps(1); simp)+

lemma def_apply_error:
  "def_apply e at v = Inl err \<longleftrightarrow> event_error e (fields_of v) = Some err"
proof (cases "def_apply e at v")
  case (Inl x)
  then have "event_error e (fields_of v) = Some x"
    by (cases e) (auto dest: apply_declare_spec(2) apply_mutate_spec(2) apply_delete_spec(2)
      simp del: event_error.simps(1-3))
  with Inl show ?thesis by auto
next
  case (Inr v')
  then show ?thesis by (simp add: def_apply_ok(1))
qed

section \<open>Folding a stream of layers\<close>

text \<open>The reference fold of a stream of def layers, oldest first.\<close>

fun fold_defs :: "(layer_id \<times> def_event list) list \<Rightarrow> def_view \<Rightarrow> def_view result" where
  "fold_defs [] v = Inr v"
| "fold_defs ((at, events) # pushes) v =
     (case apply_events at events v of Inl err \<Rightarrow> Inl err | Inr v \<Rightarrow> fold_defs pushes v)"

fun spec_events :: "layer_id \<Rightarrow> def_event list \<Rightarrow> field_map \<Rightarrow> field_map result" where
  "spec_events at [] F = Inr F"
| "spec_events at (e # es) F =
     (case event_error e F of Some err \<Rightarrow> Inl err | None \<Rightarrow> spec_events at es (event_fields e at F))"

lemma apply_events_append:
  "apply_events at (es @ ds) v =
     (case apply_events at es v of Inl err \<Rightarrow> Inl err | Inr v \<Rightarrow> apply_events at ds v)"
  by (induction es arbitrary: v) (auto split: sum.splits)

lemma fold_defs_append:
  "fold_defs (ps @ qs) v = (case fold_defs ps v of Inl err \<Rightarrow> Inl err | Inr v \<Rightarrow> fold_defs qs v)"
  by (induction ps arbitrary: v) (auto split: sum.splits)

text \<open>What holds of every view that a stream folds to, by induction on its events.\<close>

lemma apply_events_induct:
  assumes "apply_events at es v = Inr v'" and "P v"
    and "\<And>e u u'. e \<in> set es \<Longrightarrow> def_apply e at u = Inr u' \<Longrightarrow> P u \<Longrightarrow> P u'"
  shows "P v'"
  using assms
proof (induction es arbitrary: v)
  case (Cons e es)
  from Cons.prems(1) obtain u where u: "def_apply e at v = Inr u" "apply_events at es u = Inr v'"
    by (auto split: sum.splits)
  have "P u" using Cons.prems(3)[of e v u] u(1) Cons.prems(2) by simp
  then show ?case by (rule Cons.IH[OF u(2)]) (use Cons.prems(3) in auto)
qed simp

section \<open>Version chains\<close>

fun linked :: "layer_id \<Rightarrow> version_step list \<Rightarrow> layer_id \<Rightarrow> bool" where
  "linked w [] z \<longleftrightarrow> w = z"
| "linked w (s # ss) z \<longleftrightarrow>
     dv_layer (vs_from s) = w \<and> w \<le> dv_layer (vs_to s) \<and> linked (dv_layer (vs_to s)) ss z"

lemma linked_snoc:
  "linked w (ss @ [s]) z \<longleftrightarrow>
     linked w ss (dv_layer (vs_from s)) \<and> dv_layer (vs_from s) \<le> dv_layer (vs_to s) \<and> dv_layer (vs_to s) = z"
  by (induction ss arbitrary: w) auto

lemma linked_bounds:
  "linked w ss z \<Longrightarrow> s \<in> set ss \<Longrightarrow> w \<le> dv_layer (vs_from s) \<and> dv_layer (vs_from s) \<le> dv_layer (vs_to s)"
proof (induction ss arbitrary: w)
  case (Cons a ss)
  show ?case
  proof (cases "s = a")
    case False
    then have "dv_layer (vs_to a) \<le> dv_layer (vs_from s) \<and> dv_layer (vs_from s) \<le> dv_layer (vs_to s)"
      using Cons.prems by (intro Cons.IH) auto
    moreover have "w \<le> dv_layer (vs_to a)" using Cons.prems(1) by simp
    ultimately show ?thesis by (metis order.trans)
  qed (use Cons.prems in simp)
qed simp

lemma linked_versions:
  "linked w ss z \<Longrightarrow> z \<in> insert w (dv_layer ` vs_to ` set ss)"
  "linked w ss z \<Longrightarrow> s \<in> set ss \<Longrightarrow> dv_layer (vs_from s) \<in> insert w (dv_layer ` vs_to ` set ss)"
  by (induction ss arbitrary: w) auto

definition bridge :: "layer_id \<Rightarrow> layer_id \<Rightarrow> version_step list \<Rightarrow> version_step list" where
  "bridge a b = filter (\<lambda>s. a \<le> dv_layer (vs_from s) \<and> dv_layer (vs_to s) \<le> b)"

lemma bridge_empty:
  assumes "\<forall>s \<in> set ss. dv_layer (vs_to s) > b"
  shows "bridge a b ss = []"
  using assms by (auto simp: bridge_def filter_empty_conv)

lemma bridge_linked:
  assumes "linked w ss z" and "a \<in> insert w (dv_layer ` vs_to ` set ss)"
    and "b \<in> insert w (dv_layer ` vs_to ` set ss)" and "a \<le> b"
  shows "linked a (bridge a b ss) b"
  using assms
proof (induction ss arbitrary: w a)
  case (Cons s ss)
  let ?u = "dv_layer (vs_to s)"
  have lk: "dv_layer (vs_from s) = w" "w \<le> ?u" "linked ?u ss z" using Cons.prems(1) by simp_all
  have above: "?u \<le> dv_layer (vs_from r) \<and> dv_layer (vs_from r) \<le> dv_layer (vs_to r)" if "r \<in> set ss" for r
    using linked_bounds[OF lk(3) that] .
  have aboveto: "?u \<le> x" if "x \<in> insert ?u (dv_layer ` vs_to ` set ss)" for x
    using that above by (auto intro: order.trans)
  show ?case
  proof (cases "a = w")
    case True
    show ?thesis
    proof (cases "?u \<le> b")
      case True
      then have b: "b \<in> insert ?u (dv_layer ` vs_to ` set ss)"
        using Cons.prems(3) lk(2) by (auto intro: order.antisym)
      have "bridge w b ss = bridge ?u b ss"
        unfolding bridge_def by (rule filter_cong) (use above lk(2) in \<open>auto intro: order.trans\<close>)
      moreover have "linked ?u (bridge ?u b ss) b"
        by (rule Cons.IH[OF lk(3)]) (use b True in auto)
      ultimately show ?thesis using True \<open>a = w\<close> lk by (simp add: bridge_def)
    next
      case False
      then have "b = w" using Cons.prems(3) aboveto by fastforce
      moreover have "bridge a b (s # ss) = []"
        by (rule bridge_empty) (use False above in \<open>fastforce dest: order.trans simp: not_le\<close>)
      ultimately show ?thesis using \<open>a = w\<close> by simp
    qed
  next
    case False
    then have a: "a \<in> insert ?u (dv_layer ` vs_to ` set ss)" using Cons.prems(2) by auto
    have "w < a"
      using aboveto[OF a] lk(2) False by (metis order.trans order.not_eq_order_implies_strict)
    then have "bridge a b (s # ss) = bridge a b ss" using lk(1) by (auto simp: bridge_def)
    moreover have "b \<in> insert ?u (dv_layer ` vs_to ` set ss)"
      using Cons.prems(3,4) \<open>w < a\<close> by auto
    ultimately show ?thesis using Cons.IH[OF lk(3) a] Cons.prems(4) by simp
  qed
qed (auto simp: bridge_def)

section \<open>Paths\<close>

fun hop_chain :: "def_version \<Rightarrow> migration_hop list \<Rightarrow> def_version \<Rightarrow> bool" where
  "hop_chain a [] b \<longleftrightarrow> a = b"
| "hop_chain a (h # hs) b \<longleftrightarrow> mh_from h = a \<and> hop_chain (mh_to h) hs b"

lemma def_version_eq [simp]: "dv_layer a = dv_layer b \<longleftrightarrow> a = b"
  by (cases a; cases b) simp

lemma hop_chain_append:
  "hop_chain a (xs @ ys) c \<longleftrightarrow> (\<exists>b. hop_chain a xs b \<and> hop_chain b ys c)"
  by (induction xs arbitrary: a) auto

lemma up_hops_chain: "linked (dv_layer a) ss (dv_layer b) \<Longrightarrow> hop_chain a (map up_hop ss) b"
  by (induction ss arbitrary: a) (auto simp: up_hop_def)

lemma down_hops_append:
  "down_hops (xs @ ys) = (case down_hops xs of None \<Rightarrow> None | Some hs \<Rightarrow> map_option ((@) hs) (down_hops ys))"
  by (induction xs; cases "down_hops ys") (auto split: option.splits)

lemma down_hops_chain:
  "linked (dv_layer a) ss (dv_layer b) \<Longrightarrow> down_hops (rev ss) = Some hs \<Longrightarrow>
     hop_chain b hs a \<and> (\<forall>h \<in> set hs. mh_direction h = MDown)"
proof (induction ss arbitrary: a hs)
  case (Cons s ss)
  from Cons.prems(2) obtain p gs where g: "down_hops (rev ss) = Some gs" "vs_down s = Some p"
    "hs = gs @ [\<lparr>mh_producer = p, mh_direction = MDown, mh_from = vs_to s, mh_to = vs_from s\<rparr>]"
    by (auto simp: down_hops_append split: option.splits)
  have "hop_chain b gs (vs_to s) \<and> (\<forall>h \<in> set gs. mh_direction h = MDown)"
    using Cons.prems(1) g(1) by (intro Cons.IH) simp_all
  then show ?case using Cons.prems(1) g by (auto simp: hop_chain_append)
qed auto

lemma down_hops_None: "down_hops ss = None \<longleftrightarrow> (\<exists>s \<in> set ss. vs_down s = None)"
  by (induction ss) (auto split: option.splits)

lemma chain_path_bridge:
  "chain_path chain a b =
     (if dv_layer a < dv_layer b then Some (map up_hop (bridge (dv_layer a) (dv_layer b) chain))
      else down_hops (rev (bridge (dv_layer b) (dv_layer a) chain)))"
  by (auto simp: chain_path_def bridge_def rev_filter conj_commute)

text \<open>The versions that a field has had.\<close>

definition field_versions :: "def_view \<Rightarrow> object_type_name \<Rightarrow> field_name \<Rightarrow> def_version set" where
  "field_versions v s f =
     (case field_at v s f of None \<Rightarrow> {} | Some fd \<Rightarrow>
        {DefVersion (fd_version fd)} \<union> vs_from ` set (chain_of v (s, f)) \<union> vs_to ` set (chain_of v (s, f)))"

definition chains_ok :: "layer_id \<Rightarrow> object_type_name \<Rightarrow> field_name \<Rightarrow> def_view \<Rightarrow> bool" where
  "chains_ok at s f v \<longleftrightarrow>
     (case field_at v s f of
        None \<Rightarrow> chain_of v (s, f) = []
      | Some fd \<Rightarrow> fd_version fd \<le> at \<and> (\<exists>w. linked w (chain_of v (s, f)) (fd_version fd)))"

definition deletes :: "object_type_name \<Rightarrow> field_name \<Rightarrow> def_event \<Rightarrow> bool" where
  "deletes s f e = (case e of DeleteField s' f' _ \<Rightarrow> s' = s \<and> f' = f | _ \<Rightarrow> False)"

lemma chains_ok_apply:
  assumes "def_apply e at v = Inr v'" and "chains_ok at s f v" and "\<not> deletes s f e"
  shows "chains_ok at s f v'"
proof -
  have F: "field_at v' s f = event_fields e at (fields_of v) (s, f)"
    using def_apply_ok(2)[OF assms(1)] by (metis fields_of_simps)
  have C: "chain_of v' (s, f) = chain_of v (s, f) @
      (case event_step e at (fields_of v) of Some (k', step) \<Rightarrow> if k' = (s, f) then [step] else [] | None \<Rightarrow> [])"
    by (simp add: def_apply_ok(3)[OF assms(1)])
  show ?thesis
  proof (cases "field_at v s f")
    case None
    then show ?thesis
      using assms(2) F C by (cases e) (auto simp: chains_ok_def split: option.splits if_splits)
  next
    case (Some fd)
    then obtain w where ok: "fd_version fd \<le> at" "linked w (chain_of v (s, f)) (fd_version fd)"
      using assms(2) by (auto simp: chains_ok_def)
    then have new: "linked w (chain_of v (s, f) @ [\<lparr>vs_from = DefVersion (fd_version fd), vs_to = DefVersion at,
        vs_up = up, vs_down = down\<rparr>]) at" for up down
      by (simp add: linked_snoc)
    show ?thesis
      using Some ok new assms(3) F C
      by (cases e) (auto simp: chains_ok_def deletes_def split: option.splits if_splits)
  qed
qed

lemma chains_ok_mono: "chains_ok at s f v \<Longrightarrow> at \<le> at' \<Longrightarrow> chains_ok at' s f v"
  by (auto simp: chains_ok_def split: option.splits)

lemma fold_defs_chains_ok:
  assumes "fold_defs pushes v = Inr v'" and "chains_ok at s f v"
    and "sorted (at # map fst pushes)" and "\<forall>(l, es) \<in> set pushes. \<forall>e \<in> set es. \<not> deletes s f e"
  shows "\<exists>at'. chains_ok at' s f v'"
  using assms
proof (induction pushes arbitrary: v at)
  case (Cons p pushes)
  obtain l es where p: "p = (l, es)" by (cases p)
  from Cons.prems(1) obtain u where u: "apply_events l es v = Inr u" "fold_defs pushes u = Inr v'"
    by (auto simp: p split: sum.splits)
  have "chains_ok l s f v" using Cons.prems(2,3) by (auto simp: p intro: chains_ok_mono)
  then have "chains_ok l s f u"
    by (rule apply_events_induct[OF u(1)]) (use Cons.prems(4) chains_ok_apply p in auto)
  then show ?case by (rule Cons.IH[OF u(2)]) (use Cons.prems(3,4) p in simp_all)
qed (simp, blast)

section \<open>Properties\<close>

lemma event_effect:
  "map_sum id fields_of (def_apply e at v) =
     (case event_error e (fields_of v) of Some err \<Rightarrow> Inl err | None \<Rightarrow> Inr (event_fields e at (fields_of v)))"
proof (cases "def_apply e at v")
  case (Inl err)
  then show ?thesis using def_apply_error[of e at v err] by simp
next
  case (Inr v')
  then show ?thesis using def_apply_ok[OF Inr] by simp
qed

text \<open>Property C25. The fold of a layer's definition events refines the update of a partial map from
  (struct, field) to field definitions: it fails exactly when, and with the error that, the abstract
  rules name (a collision, a foreign repo, a missing field, a migration on a derived field), and
  otherwise its declared fields are the abstract result.\<close>

theorem def_fold_refines_field_map:
  "map_sum id fields_of (apply_events at es v) = spec_events at es (fields_of v)"
proof (induction es arbitrary: v)
  case (Cons e es)
  show ?case
  proof (cases "def_apply e at v")
    case (Inl err)
    then show ?thesis using event_effect[of e at v] by (auto split: option.splits)
  next
    case (Inr u)
    then have "event_error e (fields_of v) = None" "fields_of u = event_fields e at (fields_of v)"
      by (rule def_apply_ok(1)) (rule def_apply_ok(2)[OF Inr])
    then show ?thesis using Inr Cons.IH[of u] by simp
  qed
qed simp

lemma other_repo_step:
  assumes "def_apply e at v = Inr v'" and "def_repo e = Some repo"
    and "field_at v s f = Some fd" and "fd_declaring_repo fd \<noteq> repo"
  shows "field_at v' s f = Some fd \<and> chain_of v' (s, f) = chain_of v (s, f)"
proof -
  have "field_at v' s f = event_fields e at (fields_of v) (s, f)"
    using def_apply_ok(2)[OF assms(1)] by (metis fields_of_simps)
  moreover have "chain_of v' (s, f) = chain_of v (s, f) @
      (case event_step e at (fields_of v) of Some (k', step) \<Rightarrow> if k' = (s, f) then [step] else [] | None \<Rightarrow> [])"
    by (simp add: def_apply_ok(3)[OF assms(1)])
  ultimately show ?thesis
    using assms(2-4) def_apply_ok(1)[OF assms(1)]
    by (cases e) (auto split: option.splits if_splits)
qed

text \<open>Repositories never conflict: an accepted push whose events all speak for one repo
  leaves every field that another repo declared exactly as it was, its type, its owner, its version
  and its migration chain included.\<close>

theorem push_keeps_other_repos:
  assumes "apply_events at es v = Inr v'" and "\<forall>e \<in> set es. def_repo e = Some repo"
    and "field_at v s f = Some fd" and "fd_declaring_repo fd \<noteq> repo"
  shows "field_at v' s f = Some fd \<and> chain_of v' (s, f) = chain_of v (s, f)"
  using assms(1)
proof (rule apply_events_induct)
  show "field_at v s f = Some fd \<and> chain_of v (s, f) = chain_of v (s, f)" using assms(3) by simp
qed (use assms(2,4) other_repo_step in fastforce)

definition w_declare :: "string \<Rightarrow> value_type \<Rightarrow> repo_id \<Rightarrow> def_event" where
  "w_declare f ty repo = DeclareField ''Company'' f ty repo OwnSource"

definition w_view :: def_view where
  "w_view = (case apply_events 1 [w_declare ''name'' TString 1] def_view_new of Inr v \<Rightarrow> v | Inl _ \<Rightarrow> def_view_new)"

lemma w_view_eq:
  "apply_events 1 [w_declare ''name'' TString 1] def_view_new = Inr w_view"
  "apply_events 2 [w_declare ''site'' TString 2] w_view \<noteq> Inl e"
  "field_at w_view ''Company'' ''name'' = Some (fresh_field ''name'' TString 1 OwnSource 1)"
  by (simp_all add: w_view_def w_declare_def def_view_new_def apply_declare_def def_object_def set_object_def
      with_fields_def field_at_def)

theorem push_keeps_other_repos_witness:
  "\<exists>v'. apply_events 2 [w_declare ''site'' TString 2] w_view = Inr v' \<and>
     field_at v' ''Company'' ''name'' = Some (fresh_field ''name'' TString 1 OwnSource 1)"
proof -
  obtain v' where v': "apply_events 2 [w_declare ''site'' TString 2] w_view = Inr v'"
    using w_view_eq(2) by (cases "apply_events 2 [w_declare ''site'' TString 2] w_view") auto
  show ?thesis
    using push_keeps_other_repos[OF v' _ w_view_eq(3), of 2] v' by (simp add: w_declare_def)
qed

definition is_declare :: "def_event \<Rightarrow> bool" where
  "is_declare e = (case e of DeclareField _ _ _ _ _ \<Rightarrow> True | _ \<Rightarrow> False)"

definition declared_in :: "def_view \<Rightarrow> def_event \<Rightarrow> bool" where
  "declared_in v e =
     (case e of
        DeclareField s f ty repo own \<Rightarrow>
          (case field_at v s f of None \<Rightarrow> False
           | Some fd \<Rightarrow> fd_declaring_repo fd = repo \<and> fd_ty fd = ty \<and> fd_ownership fd = own)
      | _ \<Rightarrow> False)"

lemma declared_in_noop: "declared_in v e \<Longrightarrow> def_apply e at v = Inr v"
  by (cases e) (auto simp: declared_in_def apply_declare_alt split: option.splits)

lemma declare_declares:
  assumes "def_apply e at v = Inr v'" and "is_declare e"
  shows "declared_in v' e" and "declared_in v d \<Longrightarrow> declared_in v' d"
  using assms
  by (cases e; cases d; auto simp: is_declare_def declared_in_def apply_declare_alt split: option.splits if_splits)+

text \<open>Pushing the same declarations again is no change at all: once a list of field
  declarations has been accepted, pushing it again at any later layer succeeds and leaves the view
  identical, so versions do not move.\<close>

theorem redeclaring_is_noop:
  assumes "apply_events at es v = Inr v'" and "\<forall>e \<in> set es. is_declare e"
  shows "apply_events at' es v' = Inr v'"
proof -
  have all: "\<forall>e \<in> set es. declared_in v' e" if "apply_events at es v = Inr v'" "\<forall>e \<in> set es. is_declare e" for v
    using that
  proof (induction es arbitrary: v)
    case (Cons e es)
    from Cons.prems(1) obtain u where u: "def_apply e at v = Inr u" "apply_events at es u = Inr v'"
      by (auto split: sum.splits)
    have "declared_in u e" using declare_declares(1)[OF u(1)] Cons.prems(2) by simp
    then have "declared_in v' e"
      by (rule apply_events_induct[OF u(2)]) (use Cons.prems(2) declare_declares(2) in auto)
    then show ?case using Cons.IH[OF u(2)] Cons.prems(2) by simp
  qed simp
  have "apply_events at' ds v' = Inr v'" if "\<forall>e \<in> set ds. declared_in v' e" for ds
    using that by (induction ds) (simp_all add: declared_in_noop)
  then show ?thesis using all[OF assms] by blast
qed

theorem redeclaring_is_noop_witness:
  "apply_events 9 [w_declare ''name'' TString 1] w_view = Inr w_view"
  by (rule redeclaring_is_noop[OF w_view_eq(1)]) (simp add: is_declare_def w_declare_def)

text \<open>In a view folded from layers in order, where no event deletes the field, any two
  versions the field has had are joined by a contiguous chain of hops, upwards always, and
  downwards exactly when every step between them has a \<open>down\<close> migration.\<close>

theorem path_is_contiguous:
  assumes "fold_defs pushes def_view_new = Inr v" and "sorted (map fst pushes)"
    and "\<forall>(l, es) \<in> set pushes. \<forall>e \<in> set es. \<not> deletes s f e"
    and "a \<in> field_versions v s f" and "b \<in> field_versions v s f"
  shows "case def_path v (BObjectProp s f) a b of
      Some hops \<Rightarrow> hop_chain a hops b
    | None \<Rightarrow> \<exists>step \<in> set (chain_of v (s, f)). vs_down step = None \<and>
        dv_layer b \<le> dv_layer (vs_from step) \<and> dv_layer (vs_to step) \<le> dv_layer a"
proof (cases "a = b")
  case False
  have "chains_ok 0 s f def_view_new"
    by (simp add: chains_ok_def fields_of_new(1)[THEN fun_cong, of "(s, f)", unfolded fields_of_simps])
  then obtain top where ok: "chains_ok top s f v"
    using fold_defs_chains_ok[OF assms(1) _ _ assms(3), of 0] assms(2) by auto
  obtain fd where fd: "field_at v s f = Some fd"
    using assms(4) by (auto simp: field_versions_def split: option.splits)
  with ok obtain w where lk: "linked w (chain_of v (s, f)) (fd_version fd)" by (auto simp: chains_ok_def)
  have mem: "dv_layer x \<in> insert w (dv_layer ` vs_to ` set (chain_of v (s, f)))"
    if "x \<in> field_versions v s f" for x
    using that linked_versions[OF lk] by (auto simp: field_versions_def fd)
  have "chain_of v (s, f) \<noteq> []"
    using assms(4,5) False fd by (auto simp: field_versions_def)
  then have some: "hm_get (dv_chains v) (s, f) = Some (chain_of v (s, f))"
    by (auto simp: chain_of_def hm_get_or_def split: option.splits)
  show ?thesis
  proof (cases "dv_layer a < dv_layer b")
    case True
    then have "linked (dv_layer a) (bridge (dv_layer a) (dv_layer b) (chain_of v (s, f))) (dv_layer b)"
      by (intro bridge_linked[OF lk] mem assms(4,5)) simp
    then show ?thesis using True some False by (simp add: def_path_def chain_path_bridge up_hops_chain)
  next
    case False
    let ?ss = "bridge (dv_layer b) (dv_layer a) (chain_of v (s, f))"
    have l: "linked (dv_layer b) ?ss (dv_layer a)"
      by (intro bridge_linked[OF lk] mem assms(4,5)) (use False in simp)
    show ?thesis
    proof (cases "down_hops (rev ?ss)")
      case None
      then show ?thesis
        using False some \<open>a \<noteq> b\<close> down_hops_None[of "rev ?ss"]
        by (simp add: def_path_def chain_path_bridge) (auto simp: bridge_def)
    next
      case (Some hops)
      then show ?thesis
        using False some \<open>a \<noteq> b\<close> down_hops_chain[OF l Some] by (simp add: def_path_def chain_path_bridge)
    qed
  qed
qed (simp add: def_path_def)

definition w_pushes :: "(layer_id \<times> def_event list) list" where
  "w_pushes =
     [(1, [w_declare ''name'' TString 1]),
      (2, [MutateField ''Company'' ''name'' TInt 1 7 (Some 8)]),
      (4, [MutateField ''Company'' ''name'' TBool 1 9 None])]"

definition w_chain_view :: def_view where
  "w_chain_view = (case fold_defs w_pushes def_view_new of Inr v \<Rightarrow> v | Inl _ \<Rightarrow> def_view_new)"

lemma w_chain_view_eq:
  "fold_defs w_pushes def_view_new = Inr w_chain_view"
  "field_at w_chain_view ''Company'' ''name'' = Some (fresh_field ''name'' TBool 1 OwnSource 4)"
  "hm_get (dv_chains w_chain_view) (''Company'', ''name'') =
     Some [\<lparr>vs_from = DefVersion 1, vs_to = DefVersion 2, vs_up = 7, vs_down = Some 8\<rparr>,
           \<lparr>vs_from = DefVersion 2, vs_to = DefVersion 4, vs_up = 9, vs_down = None\<rparr>]"
  by (simp_all add: w_chain_view_def w_pushes_def w_declare_def def_view_new_def apply_declare_def apply_mutate_def
      def_object_def set_object_def with_fields_def field_at_def hm_modify_def)

theorem path_is_contiguous_witness:
  "\<exists>hops. def_path w_chain_view (BObjectProp ''Company'' ''name'') (DefVersion 1) (DefVersion 4) = Some hops \<and>
     hop_chain (DefVersion 1) hops (DefVersion 4)"
proof -
  have mem: "DefVersion 1 \<in> field_versions w_chain_view ''Company'' ''name''"
    "DefVersion 4 \<in> field_versions w_chain_view ''Company'' ''name''"
    by (simp_all add: field_versions_def chain_of_def w_chain_view_eq)
  have "def_path w_chain_view (BObjectProp ''Company'' ''name'') (DefVersion 1) (DefVersion 4) \<noteq> None"
    by (simp add: def_path_def chain_path_def w_chain_view_eq)
  then show ?thesis
    using path_is_contiguous[OF w_chain_view_eq(1) _ _ mem]
    by (auto simp: w_pushes_def w_declare_def deletes_def)
qed

lemma hop_chain_end: "hop_chain a hs b \<Longrightarrow> hs = [] \<and> a = b \<or> b \<in> mh_to ` set hs"
  by (induction hs arbitrary: a) auto

lemma linked_upper: "linked w ss z \<Longrightarrow> s \<in> set ss \<Longrightarrow> dv_layer (vs_to s) \<le> z"
proof (induction ss arbitrary: w)
  case (Cons r ss)
  have "x \<le> z" if "linked x ss z" for x
    using that by (induction ss arbitrary: x) (auto intro: order.trans)
  with Cons show ?case by auto
qed simp

text \<open>Deleting a field and declaring it again leaves a hole in its version chain that the
  path does not see: between the deleted version and the new one \<open>path\<close> answers with hops that do
  not lead there, where an unreachable version is documented to answer \<open>None\<close>.\<close>

theorem redeclaration_hides_a_broken_path:
  assumes "field_at v s f = Some fd" and "chain_of v (s, f) \<noteq> []" and "chains_ok old s f v" and "old < at"
    and "apply_events at [DeleteField s f repo, DeclareField s f ty repo' own] v = Inr v'"
  shows "\<exists>hops. def_path v' (BObjectProp s f) (DefVersion (fd_version fd)) (DefVersion at) = Some hops \<and>
    \<not> hop_chain (DefVersion (fd_version fd)) hops (DefVersion at)"
proof -
  obtain u where u: "def_apply (DeleteField s f repo) at v = Inr u"
    "def_apply (DeclareField s f ty repo' own) at u = Inr v'"
    using assms(5) by (auto split: sum.splits)
  have "chain_of v' (s, f) = chain_of v (s, f)"
    using def_apply_ok(3)[OF u(1)] def_apply_ok(3)[OF u(2)] by (simp del: def_apply.simps)
  then have some: "hm_get (dv_chains v') (s, f) = Some (chain_of v (s, f))"
    using assms(2) by (auto simp: chain_of_def hm_get_or_def split: option.splits)
  obtain w where lk: "linked w (chain_of v (s, f)) (fd_version fd)" and le: "fd_version fd \<le> old"
    using assms(1,3) by (auto simp: chains_ok_def)
  have lt: "fd_version fd < at" using le assms(4) by simp
  let ?hops = "map up_hop (bridge (fd_version fd) at (chain_of v (s, f)))"
  have "\<not> hop_chain (DefVersion (fd_version fd)) ?hops (DefVersion at)"
  proof
    assume "hop_chain (DefVersion (fd_version fd)) ?hops (DefVersion at)"
    from hop_chain_end[OF this] lt obtain st where "st \<in> set (chain_of v (s, f))" "vs_to st = DefVersion at"
      by (auto simp: up_hop_def bridge_def)
    then show False using linked_upper[OF lk] lt by fastforce
  qed
  then show ?thesis using some lt by (simp add: def_path_def chain_path_bridge)
qed

theorem redeclaration_hides_a_broken_path_witness:
  "\<exists>v' hops. apply_events 6 [DeleteField ''Company'' ''name'' 1, w_declare ''name'' TInt 1] w_chain_view = Inr v' \<and>
     def_path v' (BObjectProp ''Company'' ''name'') (DefVersion 4) (DefVersion 6) = Some hops \<and>
     \<not> hop_chain (DefVersion 4) hops (DefVersion 6)"
proof -
  obtain v' where v': "apply_events 6 [DeleteField ''Company'' ''name'' 1, w_declare ''name'' TInt 1] w_chain_view = Inr v'"
    using apply_declare_alt apply_delete_alt w_chain_view_eq(2) by (auto simp: w_declare_def)
  have ch: "chain_of w_chain_view (''Company'', ''name'') =
      [\<lparr>vs_from = DefVersion 1, vs_to = DefVersion 2, vs_up = 7, vs_down = Some 8\<rparr>,
       \<lparr>vs_from = DefVersion 2, vs_to = DefVersion 4, vs_up = 9, vs_down = None\<rparr>]"
    by (simp add: chain_of_def w_chain_view_eq)
  have "chains_ok 4 ''Company'' ''name'' w_chain_view"
    by (simp add: chains_ok_def ch w_chain_view_eq(2))
  from redeclaration_hides_a_broken_path[OF w_chain_view_eq(2) _ this _ v'[unfolded w_declare_def]] v'
  show ?thesis by (simp add: ch)
qed

text \<open>What the definitions let through, said without the order of the checks.\<close>

definition write_allowed :: "def_view \<Rightarrow> cell_ref \<Rightarrow> val \<Rightarrow> writer \<Rightarrow> def_view \<Rightarrow> bool" where
  "write_allowed v cell value w authority =
     (case cr_buffer cell of
        BObjectProp s f \<Rightarrow>
          (case field_at v s f of
             None \<Rightarrow> False
           | Some fd \<Rightarrow>
               accepts (fd_ty fd) value \<and>
               permitted authority s f
                 (fd_ownership (case field_at authority s f of Some governing \<Rightarrow> governing | None \<Rightarrow> fd)) w)
      | BObject s \<Rightarrow> def_object v s \<noteq> None \<and> accepts TBool value
      | _ \<Rightarrow> True)"

lemma check_write_iff:
  "check_write v cell value w authority = Inr () \<longleftrightarrow> write_allowed v cell value w authority"
  by (cases "cr_buffer cell")
    (auto simp: check_write_def write_allowed_def check_ownership_def field_at_def def_field_def Let_def
      split: option.splits)

lemma derived_field_has_one_writer:
  assumes "check_write v cell value w authority = Inr ()" and "cr_buffer cell = BObjectProp s f"
    and "field_at authority s f = Some fd" and "fd_ownership fd = OwnDerived owner"
  shows "w = WProducer owner"
  using assms unfolding check_write_iff
  by (cases w) (auto simp: write_allowed_def permitted_def split: option.splits)

section \<open>Writes against the history of definitions\<close>

text \<open>
  What a write has to answer to, said of the definition events that were accepted, in their order, and not of
  the view they fold to. A field has the type and the owner that the last event about it gives it: a
  declaration its own, a mutation its type and no owner but the clients, a deletion nothing. A struct exists
  from the first declaration of one of its fields on, and a producer is a migration of a field from the
  mutation that names it on, deletions or not.
\<close>

definition last_about :: "def_event list \<Rightarrow> object_type_name \<Rightarrow> field_name \<Rightarrow> def_event option" where
  "last_about past s f = find (\<lambda>e. def_touches e = Some (s, f)) (rev past)"

definition standing :: "def_event list \<Rightarrow> object_type_name \<Rightarrow> field_name \<Rightarrow> (value_type \<times> ownership) option" where
  "standing past s f =
     (case last_about past s f of
        Some (DeclareField _ _ ty _ own) \<Rightarrow> Some (ty, own)
      | Some (MutateField _ _ ty _ _ _) \<Rightarrow> Some (ty, OwnSource)
      | _ \<Rightarrow> None)"

definition ever_declared :: "def_event list \<Rightarrow> object_type_name \<Rightarrow> bool" where
  "ever_declared past s \<longleftrightarrow> (\<exists>f ty repo own. DeclareField s f ty repo own \<in> set past)"

definition appointed :: "def_event list \<Rightarrow> object_type_name \<Rightarrow> field_name \<Rightarrow> producer_id \<Rightarrow> bool" where
  "appointed past s f p \<longleftrightarrow> (\<exists>ty repo up down. MutateField s f ty repo up down \<in> set past \<and> (p = up \<or> down = Some p))"

text \<open>The values of a type.\<close>

inductive of_type :: "val \<Rightarrow> value_type \<Rightarrow> bool" where
  Deleted: "of_type VTombstone ty"
| Whatever: "of_type v TAny"
| Integer: "ty \<in> {TInt, TAnyNumber} \<Longrightarrow> of_type (VInt n) ty"
| Decimal: "ty \<in> {TDouble, TAnyNumber} \<Longrightarrow> of_type (VDouble d) ty"
| Truth: "of_type (VBool x) TBool"
| Chars: "pid_kind_of p = PString \<Longrightarrow> of_type (VRef p) TString"
| Bytes: "pid_kind_of p = PBinary \<Longrightarrow> of_type (VRef p) TBinary"
| Large: "pid_kind_of p = PBigInt \<Longrightarrow> ty \<in> {TBigInt, TAnyNumber} \<Longrightarrow> of_type (VRef p) ty"
| Object: "pid_kind_of p \<in> {PObject, PAnyObject} \<Longrightarrow> ty = TObject s \<or> ty = TAnyObject \<Longrightarrow> of_type (VRef p) ty"
| Sequence: "pid_kind_of p \<in> {PList, PAnyArray} \<Longrightarrow> ty = TList el \<or> ty = TAnyArray \<Longrightarrow> of_type (VRef p) ty"

text \<open>Who may write a field that has this owner. Where the owner is a producer nobody else may, a migration
  of the field included; a field that the clients own is also written by its migrations.\<close>

inductive may_write :: "def_event list \<Rightarrow> object_type_name \<Rightarrow> field_name \<Rightarrow> ownership \<Rightarrow> writer \<Rightarrow> bool"
  for past s f where
  Client: "may_write past s f OwnSource WClient"
| Owner: "may_write past s f (OwnDerived p) (WProducer p)"
| Migration: "appointed past s f p \<Longrightarrow> may_write past s f OwnSource (WProducer p)"

definition legal_write :: "def_event list \<Rightarrow> cell_ref \<Rightarrow> val \<Rightarrow> writer \<Rightarrow> def_event list \<Rightarrow> bool" where
  "legal_write seen cell value w ruling \<longleftrightarrow>
     (case cr_buffer cell of
        BObjectProp s f \<Rightarrow>
          (\<exists>ty own. standing seen s f = Some (ty, own) \<and> of_type value ty \<and>
             may_write ruling s f (case standing ruling s f of Some (_, own') \<Rightarrow> own' | None \<Rightarrow> own) w)
      | BObject s \<Rightarrow> ever_declared seen s \<and> of_type value TBool
      | _ \<Rightarrow> True)"

inductive_simps of_type_simps [simp]:
  "of_type VTombstone ty" "of_type (VInt n) ty" "of_type (VDouble d) ty" "of_type (VBool x) ty" "of_type (VRef p) ty"

inductive_simps may_write_simps [simp]:
  "may_write past s f own WClient" "may_write past s f own (WProducer p)"

lemma of_type_accepts: "accepts ty v \<longleftrightarrow> of_type v ty"
  by (cases v; cases ty) (auto simp: accepts_def is_tombstone_def)

text \<open>What a view that folds from accepted events remembers of them.\<close>

definition recounts :: "def_view \<Rightarrow> def_event list \<Rightarrow> bool" where
  "recounts v past \<longleftrightarrow>
     (\<forall>s f. standing past s f = map_option (\<lambda>fd. (fd_ty fd, fd_ownership fd)) (field_at v s f)) \<and>
     (\<forall>s. ever_declared past s \<longleftrightarrow> def_object v s \<noteq> None) \<and>
     (\<forall>s f p. appointed past s f p \<longleftrightarrow> migrates v s f p)"

lemma past_snoc:
  "standing (past @ [e]) s f =
     (if def_touches e = Some (s, f)
      then (case e of DeclareField _ _ ty _ own \<Rightarrow> Some (ty, own) | MutateField _ _ ty _ _ _ \<Rightarrow> Some (ty, OwnSource) | _ \<Rightarrow> None)
      else standing past s f)"
  "ever_declared (past @ [e]) s \<longleftrightarrow> ever_declared past s \<or> (\<exists>f ty repo own. e = DeclareField s f ty repo own)"
  "appointed (past @ [e]) s f p \<longleftrightarrow>
     appointed past s f p \<or> (\<exists>ty repo up down. e = MutateField s f ty repo up down \<and> (p = up \<or> down = Some p))"
  by (auto simp: standing_def last_about_def ever_declared_def appointed_def)

lemma migrates_chain: "migrates v s f p \<longleftrightarrow> (\<exists>step \<in> set (chain_of v (s, f)). vs_up step = p \<or> vs_down step = Some p)"
  by (auto simp: migrates_def chain_of_def hm_get_or_def list_ex_iff split: option.split)

lemma def_object_chains [simp]: "def_object (v\<lparr>dv_chains := c\<rparr>) = def_object v"
  by (simp add: fun_eq_iff def_object_def)

lemma object_of_field: "field_at v s f = Some fd \<Longrightarrow> \<exists>ob. def_object v s = Some ob"
  by (cases "def_object v s") (simp_all add: no_object)

lemma def_object_apply:
  assumes "def_apply e at v = Inr v'"
  shows "def_object v' s \<noteq> None \<longleftrightarrow> def_object v s \<noteq> None \<or> (\<exists>f ty repo own. e = DeclareField s f ty repo own)"
  using assms
proof (cases e)
  case (DeclareField s' f ty repo own)
  then show ?thesis using assms object_of_field
    by (cases "field_at v s' f"; cases "s = s'") (auto simp: apply_declare_alt split: if_splits)
next
  case (MutateField s' f ty repo up down)
  then show ?thesis using assms object_of_field
    by (cases "field_at v s' f"; cases "s = s'")
      (auto simp: apply_mutate_alt split: if_splits ownership.splits)
next
  case (DeleteField s' f repo)
  then show ?thesis using assms object_of_field
    by (cases "field_at v s' f"; cases "s = s'") (auto simp: apply_delete_alt split: if_splits)
qed (auto simp: apply_push_def def_object_def)

lemma standing_apply:
  assumes "def_apply e at v = Inr v'" and "standing past s f = map_option (\<lambda>fd. (fd_ty fd, fd_ownership fd)) (field_at v s f)"
  shows "standing (past @ [e]) s f = map_option (\<lambda>fd. (fd_ty fd, fd_ownership fd)) (field_at v' s f)"
proof -
  have f: "field_at v' s f = event_fields e at (fields_of v) (s, f)"
    using def_apply_ok(2)[OF assms(1)] by (metis fields_of_simps)
  show ?thesis
    using def_apply_ok(1)[OF assms(1)] assms(2)
    by (cases e) (auto simp: past_snoc f ownership_producer_def split: option.splits if_splits ownership.splits)
qed

lemma recounts_apply: "recounts v past \<Longrightarrow> def_apply e at v = Inr v' \<Longrightarrow> recounts v' (past @ [e])"
proof -
  assume r: "recounts v past" and a: "def_apply e at v = Inr v'"
  have c: "chain_of v' (s, f) = chain_of v (s, f) @
      (case event_step e at (fields_of v) of Some (k, step) \<Rightarrow> if k = (s, f) then [step] else [] | None \<Rightarrow> [])" for s f
    by (simp add: def_apply_ok(3)[OF a])
  have m: "migrates v' s f p \<longleftrightarrow> migrates v s f p \<or> (\<exists>ty repo up down. e = MutateField s f ty repo up down \<and> (p = up \<or> down = Some p))"
    for s f p
    using def_apply_ok(1)[OF a] unfolding migrates_chain c by (cases e) (auto split: option.splits if_splits)
  show ?thesis
    using r standing_apply[OF a] def_object_apply[OF a] m by (simp add: recounts_def past_snoc(2,3))
qed

lemma recounts_events: "recounts v past \<Longrightarrow> apply_events at es v = Inr v' \<Longrightarrow> recounts v' (past @ es)"
proof (induction es arbitrary: v past)
  case (Cons e es)
  obtain u where u: "def_apply e at v = Inr u" "apply_events at es u = Inr v'"
    using Cons.prems(2) by (auto split: sum.splits)
  from Cons.IH[OF recounts_apply[OF Cons.prems(1) u(1)] u(2)] show ?case by simp
qed simp

lemma recounts_fold: "recounts v past \<Longrightarrow> fold_defs pushes v = Inr v' \<Longrightarrow> recounts v' (past @ concat (map snd pushes))"
proof (induction pushes arbitrary: v past)
  case (Cons push pushes)
  obtain at es where p: "push = (at, es)" by (cases push)
  obtain u where u: "apply_events at es v = Inr u" "fold_defs pushes u = Inr v'"
    using Cons.prems(2) by (auto simp: p split: sum.splits)
  from Cons.IH[OF recounts_events[OF Cons.prems(1) u(1)] u(2)] show ?case by (simp add: p)
qed simp

lemma recounts_new: "recounts def_view_new []"
  by (simp add: recounts_def standing_def last_about_def ever_declared_def appointed_def field_at_def def_object_def
      migrates_def def_view_new_def)

lemma permitted_iff: "recounts v past \<Longrightarrow> permitted v s f own w \<longleftrightarrow> may_write past s f own w"
  by (cases own; cases w) (auto simp: permitted_def recounts_def)

text \<open>Property C27. A write is accepted exactly when it is legal by the definition events that came before.
  Where the writer's view folds from the events \<open>seen\<close>, and the branch's own definitions from \<open>ruling\<close>: a
  property is written when the last event about its field, as the writer sees it, declares or mutates it, the
  value is of the type that this event names, and its owner lets the writer: the owner that the branch's
  events give the field, or where they give it none the one that the writer sees. A field of the clients is
  written by them and by every producer that some mutation of it on the branch ever named as its up or its
  down; a derived field by its producer and nobody else. An existence cell takes booleans, of a struct that
  was ever declared. Cells of lists and untyped containers are not checked, and everything takes a
  tombstone.\<close>

theorem accepted_writes_are_well_typed:
  assumes "fold_defs seen def_view_new = Inr v" and "fold_defs ruling def_view_new = Inr authority"
  shows "check_write v cell value w authority = Inr () \<longleftrightarrow>
    legal_write (concat (map snd seen)) cell value w (concat (map snd ruling))"
proof -
  have v: "recounts v (concat (map snd seen))" and a: "recounts authority (concat (map snd ruling))"
    using recounts_fold[OF recounts_new assms(1)] recounts_fold[OF recounts_new assms(2)] by simp_all
  show ?thesis
  proof (cases "cr_buffer cell")
    case (BObject s)
    then show ?thesis using v by (simp add: check_write_iff write_allowed_def legal_write_def of_type_accepts recounts_def)
  next
    case (BObjectProp s f)
    have s: "standing (concat (map snd seen)) s f = map_option (\<lambda>fd. (fd_ty fd, fd_ownership fd)) (field_at v s f)"
      "standing (concat (map snd ruling)) s f = map_option (\<lambda>fd. (fd_ty fd, fd_ownership fd)) (field_at authority s f)"
      using v a by (simp_all add: recounts_def)
    show ?thesis
      using BObjectProp by (cases "field_at v s f"; cases "field_at authority s f")
        (simp_all add: check_write_iff write_allowed_def legal_write_def of_type_accepts s permitted_iff[OF a])
  qed (simp_all add: check_write_iff write_allowed_def legal_write_def)
qed

text \<open>\<open>Company.name\<close> is a boolean since layer 4; the migration that layer 2 named as its down may still write it.\<close>

theorem accepted_writes_are_well_typed_witness:
  "check_write w_chain_view (cell_prop ''Company'' ''name'' (Allocated PObject 0 0 1)) (VBool True) (WProducer 8) w_chain_view = Inr ()"
proof -
  have "legal_write (concat (map snd w_pushes)) (cell_prop ''Company'' ''name'' (Allocated PObject 0 0 1)) (VBool True)
      (WProducer 8) (concat (map snd w_pushes))"
    by (auto simp: legal_write_def cell_prop_def standing_def last_about_def w_pushes_def w_declare_def appointed_def)
  then show ?thesis using accepted_writes_are_well_typed[OF w_chain_view_eq(1) w_chain_view_eq(1)] by blast
qed

end
