(* ===== verification/Def_Registry.thy ===== *)
theory Def_Registry
  imports Def_Properties Merge_Contract "HOL-Library.Multiset"
begin

text \<open>
  \<^verbatim>\<open>DefRegistry\<close> of \<^verbatim>\<open>borg-engine/src/defs.rs\<close>: the def layers along a read path, the view folded from
  them, and the push that commits a def layer. The registry's own state is the list of live client
  versions; what it shares is the layer manager and, through it, the provider.
\<close>

section \<open>Operations\<close>

type_synonym live_versions = "client_version list"

definition mark_live :: "client_version \<Rightarrow> live_versions \<Rightarrow> live_versions" where
  "mark_live version live = (if version \<in> set live then live else live @ [version])"

definition reg_def_layers :: "manager \<Rightarrow> read_path \<Rightarrow> layer_id list" where
  "reg_def_layers m path = sort (concat (map (\<lambda>(b, bound). def_layers_of m b bound) path))"

definition def_head :: "manager \<Rightarrow> read_path \<Rightarrow> layer_id" where
  "def_head m path = (case rev (reg_def_layers m path) of [] \<Rightarrow> 0 | l # _ \<Rightarrow> l)"

fun view_loop :: "inner \<Rightarrow> layer_id \<Rightarrow> layer_id list \<Rightarrow> def_view \<Rightarrow> def_view result" where
  "view_loop db limit [] v = Inr v"
| "view_loop db limit (l # ls) v =
     (if l > limit then Inr v
      else (case apply_events l (read_def_layer db l) v of
              Inl err \<Rightarrow> Inl err
            | Inr v \<Rightarrow> view_loop db limit ls v))"

definition view_at :: "manager \<Rightarrow> read_path \<Rightarrow> layer_id \<Rightarrow> def_view result" where
  "view_at m path limit = view_loop (mg_db m) limit (reg_def_layers m path) def_view_new"

definition view :: "manager \<Rightarrow> read_path \<Rightarrow> def_view result" where
  "view m path = view_at m path (- 1)"

definition def_push :: "branch_id \<Rightarrow> def_event list \<Rightarrow> manager \<Rightarrow> layer_id result \<times> manager" where
  "def_push b events m =
     (case lm_read_path m b None of
        Inl err \<Rightarrow> (Inl err, m)
      | Inr path \<Rightarrow>
          (case view m path of
             Inl err \<Rightarrow> (Inl err, m)
           | Inr v \<Rightarrow>
               (case lm_open b LKDef ASource m of
                  (Inl err, m) \<Rightarrow> (Inl err, m)
                | (Inr h, m) \<Rightarrow>
                    (case apply_events (lh_id h) events v of
                       Inl refused \<Rightarrow>
                         (case lm_abort h m of (Inl err, m) \<Rightarrow> (Inl err, m) | (Inr _, m) \<Rightarrow> (Inl refused, m))
                     | Inr _ \<Rightarrow>
                         (case put_all_defs h events m of
                            (Inl err, m) \<Rightarrow> (Inl err, m)
                          | (Inr _, m) \<Rightarrow> lm_commit h m)))))"

section \<open>The view as a fold\<close>

lemma view_loop_fold:
  "sorted ls \<Longrightarrow> view_loop db limit ls v = fold_defs (map (\<lambda>l. (l, read_def_layer db l)) (filter (\<lambda>l. l \<le> limit) ls)) v"
proof (induction ls arbitrary: v)
  case (Cons l ls)
  show ?case
  proof (cases "l \<le> limit")
    case True
    then show ?thesis using Cons by (auto simp: not_less split: sum.split)
  next
    case False
    then have "filter (\<lambda>l. l \<le> limit) ls = []"
      using Cons.prems by (auto simp: filter_empty_conv)
    then show ?thesis using False by auto
  qed
qed simp

lemma view_at_fold:
  "view_at m path limit =
     fold_defs (map (\<lambda>l. (l, read_def_layer (mg_db m) l)) (filter (\<lambda>l. l \<le> limit) (reg_def_layers m path))) def_view_new"
  unfolding view_at_def by (rule view_loop_fold) (simp add: reg_def_layers_def)

lemma view_fold:
  "view m path = fold_defs (map (\<lambda>l. (l, read_def_layer (mg_db m) l)) (reg_def_layers m path)) def_view_new"
  by (simp add: view_def view_at_fold)

section \<open>Which layers are def layers\<close>

definition def_layers_ok :: "manager \<Rightarrow> bool" where
  "def_layers_ok m \<longleftrightarrow> (\<forall>b. \<forall>l \<in> set (hm_get_or [] (mg_def_layers m) b). committed_on m b l)"

lemma def_layers_ok_frame:
  assumes "def_layers_ok m" and "mg_def_layers n = mg_def_layers m"
    and "\<And>b l. committed_on m b l \<Longrightarrow> committed_on n b l"
  shows "def_layers_ok n"
  using assms by (simp add: def_layers_ok_def)

lemma committed_on_grows:
  assumes "mg_step m n" "mg_inv m" "committed_on m b l"
  shows "committed_on n b l"
proof -
  obtain layer where l: "lm_layer m l = Some layer" "ly_state layer = LCommitted" "ly_branch layer = b"
    using assms(3) by (auto simp: committed_on_def lm_layer_def)
  obtain layer' where "lm_layer n l = Some layer'" "layer_grows layer layer'"
    using layers_step[OF assms(1,2) l(1)] by blast
  then show ?thesis using l by (auto simp: committed_on_def lm_layer_def layer_grows_def later_state_def)
qed

lemma def_layers_step: "mg_step m n \<Longrightarrow> mg_inv m \<Longrightarrow> def_layers_ok m \<Longrightarrow> def_layers_ok n"
proof -
  assume s: "mg_step m n" and inv: "mg_inv m" and ok: "def_layers_ok m"
  note frame = def_layers_ok_frame[OF ok _ committed_on_grows[OF s inv]]
  from s show ?thesis
  proof cases
    case (Open b kind author)
    show ?thesis
      by (rule frame) (use lm_open_cases[OF inv Open(2) refl refl, of b kind author] Open(1) in simp_all)
  next
    case (Commit h)
    from inv Commit(2) show ?thesis
    proof (cases rule: commit_outcomes)
      case (Accepted layer s)
      have br: "ly_branch layer = ly_branch (lh_layer h)"
        using Commit(2) Accepted(1) by (auto simp: handle_ok_def lm_layer_def)
      have n: "n = commit_manager h layer s m" using Commit(1) Accepted(4) by simp
      have new: "committed_on n (ly_branch (lh_layer h)) (lh_id h)"
        unfolding n using committed_on_commit[OF _ Accepted(2) br] Accepted(1) by (simp add: lm_layer_def)
      have old: "\<And>b l. committed_on m b l \<Longrightarrow> committed_on n b l" using committed_on_grows[OF s inv] .
      show ?thesis
        unfolding def_layers_ok_def
      proof (intro allI ballI)
        fix b l
        assume l: "l \<in> set (hm_get_or [] (mg_def_layers n) b)"
        show "committed_on n b l"
        proof (cases "l \<in> set (hm_get_or [] (mg_def_layers m) b)")
          case True
          then show ?thesis using ok old by (simp add: def_layers_ok_def)
        next
          case False
          then have "b = ly_branch (lh_layer h) \<and> l = lh_id h"
            using l by (auto simp: n commit_manager_defs split: if_splits)
          then show ?thesis using new by simp
        qed
      qed
    next
      case Closed
      then show ?thesis using ok Commit(1) by simp
    next
      case (Rejected layer)
      then show ?thesis using Commit(1) by (intro frame) simp_all
    qed
  next
    case (Abort h layer)
    then show ?thesis
      using abort_outcome[OF inv, of h layer] by (intro frame) (simp_all add: lm_layer_def)
  next
    case Put then show ?thesis by (intro frame) (simp add: lm_put_def on_db_snd)
  next
    case Include then show ?thesis by (intro frame) (simp add: lm_include_def on_db_snd)
  next
    case Put_Def then show ?thesis by (intro frame) (simp add: lm_put_def_def on_db_snd)
  next
    case Register then show ?thesis by (intro frame) (simp add: register_branch_def)
  next
    case Put_Branch then show ?thesis by (intro frame) simp
  next
    case Intern then show ?thesis by (intro frame) simp
  qed
qed

lemma mg_reachable_defs: "mg_reachable m \<Longrightarrow> def_layers_ok m"
proof -
  have "mg_step\<^sup>*\<^sup>* m n \<Longrightarrow> mg_inv m \<Longrightarrow> def_layers_ok m \<Longrightarrow> mg_inv n \<and> def_layers_ok n" for m n
    by (induction rule: rtranclp_induct) (auto intro: mg_inv_step def_layers_step)
  moreover have "def_layers_ok (with_projections members (manager_new mem_new n indexes_new))" for members n
    by (simp add: def_layers_ok_def with_projections_def manager_new_def)
  ultimately show "mg_reachable m \<Longrightarrow> def_layers_ok m" unfolding mg_reachable_def using mg_inv_new by blast
qed

section \<open>What a push changes\<close>

definition origins_known :: "manager \<Rightarrow> bool" where
  "origins_known m \<longleftrightarrow> (\<forall>b origin. origin_of m b = Some origin \<longrightarrow> lm_layer m origin \<noteq> None)"

text \<open>The definitions that a branch stands at.\<close>

definition branch_view :: "manager \<Rightarrow> branch_id \<Rightarrow> def_view result" where
  "branch_view m b = (case lm_read_path m b None of Inl err \<Rightarrow> Inl err | Inr path \<Rightarrow> view m path)"

lemma parent_link_new_layer:
  assumes "origins_known m" and "mg_branches n = mg_branches m"
    and "lm_layer n = (lm_layer m)(l \<mapsto> layer)" and "lm_layer m l = None"
  shows "parent_link n = parent_link m"
proof
  fix b
  have o: "origin_of n b = origin_of m b" using assms(2) by (simp add: origin_of_def lm_branch_def)
  show "parent_link n b = parent_link m b"
  proof (cases "origin_of m b")
    case (Some origin)
    then have "lm_layer m origin \<noteq> None" using assms(1) unfolding origins_known_def by blast
    then have "origin \<noteq> l" using assms(4) by auto
    then show ?thesis by (simp add: parent_link_alt o assms(3) Some)
  qed (simp add: parent_link_alt o)
qed

lemma parent_link_known:
  "parent_link m b = Some (origin, parent) \<Longrightarrow> lm_layer m origin \<noteq> None"
  by (auto simp: parent_link_def split: option.splits)

lemma ancestry_bounds:
  "ancestry (parent_link m) None b bound path \<Longrightarrow> \<forall>(b', bd) \<in> set (tl path). lm_layer m bd \<noteq> None"
proof (induction rule: ancestry.induct)
  case (Fork b origin parent path bound)
  from ancestry_hd[OF Fork.hyps(2)] obtain rest where "path = (parent, origin) # rest"
    by (auto simp: clamp_def)
  then show ?case using Fork.IH parent_link_known[OF Fork.hyps(1)] by auto
qed simp

lemma ancestry_rebound:
  "ancestry links requested b bound ((b, bound) # rest) \<Longrightarrow> ancestry links requested b bound' ((b, bound') # rest)"
  by (erule ancestry_Cons) (auto intro: ancestry.intros)

lemma layer_below_next: "mg_inv m \<Longrightarrow> lm_layer m l \<noteq> None \<Longrightarrow> l < mg_next m"
  using mg_invD(2)[of m] by (auto simp: layers_ok_def lm_layer_def)

lemma committed_below_next: "mg_inv m \<Longrightarrow> committed_on m b l \<Longrightarrow> l < mg_next m"
  by (rule layer_below_next) (auto simp: committed_on_def lm_layer_def)

lemma new_head: "mg_inv m \<Longrightarrow> hm_get (raise_head b (mg_next m) (mg_heads m)) b = Some (mg_next m)"
proof -
  assume inv: "mg_inv m"
  have "h < mg_next m" if "hm_get (mg_heads m) b = Some h" for h
  proof -
    have "lm_head m b = Some h" using that by (simp add: lm_head_def)
    then have "committed_on m b h" using spec[OF mg_invD(4)[OF inv, unfolded heads_ok_def], of b] by simp
    then show ?thesis by (rule committed_below_next[OF inv])
  qed
  then show ?thesis by (cases "hm_get (mg_heads m) b") (auto simp: get_raise_head max_def hm_get_or_def)
qed

lemma read_path_after:
  assumes inv: "mg_inv m" and known: "origins_known m" and lands: "lands m b kind author ds es n"
    and path: "lm_read_path m b None = Inr ((b, bound) # rest)"
  shows "lm_read_path n b None = Inr ((b, mg_next m) # rest)"
proof -
  obtain layer where L: "mg_branches n = mg_branches m" "lm_layer n = (lm_layer m)(mg_next m \<mapsto> layer)"
    "lm_layer m (mg_next m) = None" "mg_heads n = raise_head b (mg_next m) (mg_heads m)"
    using lands by (auto simp: lands_def)
  have "start_bound n b None = mg_next m" using new_head[OF inv, of b] by (simp add: start_bound_def lm_head_def L(4))
  moreover have "ancestry (parent_link m) None b bound ((b, bound) # rest)"
    using path by (auto simp: lm_read_path_iff dest: ancestry_hd)
  ultimately show ?thesis
    using ancestry_rebound parent_link_new_layer[OF known L(1,2,3)] by (simp add: lm_read_path_iff)
qed

lemma sort_last:
  assumes "\<forall>x \<in> set xs. x \<le> (l :: layer_id)" and "mset ys = add_mset l (mset xs)"
  shows "sort ys = sort xs @ [l]"
  by (rule properties_for_sort) (use assms in \<open>auto simp: sorted_append\<close>)

lemma def_layers_after:
  assumes inv: "mg_inv m" and ok: "def_layers_ok m"
    and path: "lm_read_path m b None = Inr ((b, bound) # rest)"
    and lands: "lands m b LKDef author ds es n"
  shows "reg_def_layers n ((b, mg_next m) # rest) = reg_def_layers m ((b, bound) # rest) @ [mg_next m]"
proof -
  let ?l = "mg_next m"
  have D: "mg_def_layers n = hm_modify b [] (\<lambda>ls. ls @ [?l]) (mg_def_layers m)"
    using lands by (simp add: lands_def)
  have com: "committed_on m b' k" if "k \<in> set (hm_get_or [] (mg_def_layers m) b')" for b' k
    using that ok by (simp add: def_layers_ok_def)
  have below: "k < ?l" if "k \<in> set (hm_get_or [] (mg_def_layers m) b')" for b' k
    using committed_below_next[OF inv com[OF that]] .
  have anc: "ancestry (parent_link m) None b bound ((b, bound) # rest)" "bound = start_bound m b None"
    using path by (auto simp: lm_read_path_iff dest: ancestry_hd)
  have rest: "bd < ?l" if "(b', bd) \<in> set rest" for b' bd
    using ancestry_bounds[OF anc(1)] that layer_below_next[OF inv] by auto
  have R: "def_layers_of n b' bd = def_layers_of m b' bd" if "(b', bd) \<in> set rest" for b' bd
    using rest[OF that] by (auto simp: def_layers_of_def D)
  have C: "concat (map (\<lambda>(b', bd). def_layers_of n b' bd) rest) = concat (map (\<lambda>(b', bd). def_layers_of m b' bd) rest)"
    by (rule arg_cong[where f = concat], rule map_cong) (auto simp: R)
  have "k \<le> bound" if "k \<in> set (hm_get_or [] (mg_def_layers m) b)" for k
    using com[OF that] spec[OF mg_invD(4)[OF inv, unfolded heads_ok_def], of b] anc(2)
    by (auto simp: start_bound_def split: option.splits)
  then have dm: "def_layers_of m b bound = sort (hm_get_or [] (mg_def_layers m) b)"
    by (simp add: def_layers_of_def cong: filter_cong)
  have dn: "def_layers_of n b ?l = sort (hm_get_or [] (mg_def_layers m) b) @ [?l]"
  proof -
    have "filter (\<lambda>k. k \<le> ?l) (hm_get_or [] (mg_def_layers m) b) = hm_get_or [] (mg_def_layers m) b"
      using below by (auto simp: filter_id_conv intro: less_imp_le)
    then have "def_layers_of n b ?l = sort (hm_get_or [] (mg_def_layers m) b @ [?l])"
      by (simp add: def_layers_of_def D)
    then show ?thesis using below by (subst (asm) sort_last[where xs = "hm_get_or [] (mg_def_layers m) b"]) (auto intro: less_imp_le)
  qed
  show ?thesis
    unfolding reg_def_layers_def list.map concat.simps prod.case C dn dm
    using below rest by (intro sort_last) (auto simp: def_layers_of_def intro: less_imp_le order.trans)
qed

lemma view_after:
  assumes inv: "mg_inv m" and ok: "def_layers_ok m" and known: "origins_known m"
    and path: "lm_read_path m b None = Inr path" and lands: "lands m b LKDef author ds es n"
  shows "branch_view n b = (case view m path of Inl err \<Rightarrow> Inl err | Inr v \<Rightarrow> apply_events (mg_next m) ds v)"
proof -
  obtain bound rest where p: "path = (b, bound) # rest"
    using path by (auto simp: lm_read_path_iff dest: ancestry_hd)
  have path': "lm_read_path n b None = Inr ((b, mg_next m) # rest)"
    by (rule read_path_after[OF inv known lands path[unfolded p]])
  have rd: "read_def_layer (mg_db n) = (read_def_layer (mg_db m))(mg_next m := ds)"
    using lands by (simp add: lands_def)
  have "k \<noteq> mg_next m" if k: "k \<in> set (reg_def_layers m path)" for k
  proof -
    from k obtain b' where "k \<in> set (hm_get_or [] (mg_def_layers m) b')"
      by (auto simp: reg_def_layers_def def_layers_of_def)
    then have "committed_on m b' k" using ok by (simp add: def_layers_ok_def)
    from committed_below_next[OF inv this] show ?thesis by simp
  qed
  then have eq: "map (\<lambda>k. (k, read_def_layer (mg_db n) k)) (reg_def_layers m path) =
      map (\<lambda>k. (k, read_def_layer (mg_db m) k)) (reg_def_layers m path)"
    by (simp add: rd)
  have "branch_view n b = view n ((b, mg_next m) # rest)" by (simp add: branch_view_def path')
  also have "\<dots> = fold_defs (map (\<lambda>k. (k, read_def_layer (mg_db m) k)) (reg_def_layers m path) @ [(mg_next m, ds)]) def_view_new"
  proof -
    have ls: "reg_def_layers n ((b, mg_next m) # rest) = reg_def_layers m path @ [mg_next m]"
      using def_layers_after[OF inv ok path[unfolded p] lands] p by simp
    show ?thesis by (simp only: view_fold ls map_append eq) (simp add: rd)
  qed
  also have "\<dots> = (case view m path of Inl err \<Rightarrow> Inl err | Inr v \<Rightarrow> apply_events (mg_next m) ds v)"
    by (simp add: fold_defs_append view_fold split: sum.splits)
  finally show ?thesis .
qed

text \<open>Opening a layer and dropping it again moves no definition.\<close>

lemma view_dropped:
  assumes known: "origins_known m" and "lm_layer m l = None"
    and "lm_layer n = (lm_layer m)(l \<mapsto> layer)" and "mg_branches n = mg_branches m" and "mg_heads n = mg_heads m"
    and "mg_def_layers n = mg_def_layers m" and "read_def_layer (mg_db n) = read_def_layer (mg_db m)"
  shows "branch_view n b = branch_view m b"
proof -
  have "parent_link n = parent_link m" by (rule parent_link_new_layer[OF known assms(4,3,2)])
  moreover have "lm_head n = lm_head m" using assms(5) by (simp add: fun_eq_iff lm_head_def)
  ultimately have "lm_read_path n b None = lm_read_path m b None" by (simp add: lm_read_path_def)
  moreover have "reg_def_layers n = reg_def_layers m" using assms(6) by (simp add: fun_eq_iff reg_def_layers_def def_layers_of_def)
  ultimately show ?thesis by (simp add: branch_view_def view_fold assms(7) cong: sum.case_cong)
qed

text \<open>The two ways a push goes: its events fold onto the view, or one of them is refused.\<close>

lemma def_push_accepted:
  assumes "mg_reachable m" and "origins_known m" and "mg_next m \<noteq> - 1"
    and "lm_read_path m b None = Inr path" and "view m path = Inr v" and "apply_events (mg_next m) events v = Inr v'"
  obtains n where "def_push b events m = (Inr (mg_next m), n)" "branch_view n b = Inr v'"
proof -
  have inv: "mg_inv m" by (rule mg_reachable_inv[OF assms(1)])
  have ok: "def_layers_ok m" by (rule mg_reachable_defs[OF assms(1)])
  obtain h m1 m2 m3 n where w: "lm_open b LKDef ASource m = (Inr h, m1)" "put_all_defs h events m1 = (Inr (), m2)"
    "include_all h [] m2 = (Inr (), m3)" "lm_commit h m3 = (Inr (mg_next m), n)" "lands m b LKDef ASource events [] n"
    by (rule write_layer[OF inv assms(3), of "[]" LKDef events b ASource]) auto
  have "lh_id h = mg_next m" using w(1) lm_open_cases[OF inv assms(3) refl refl, of b LKDef ASource] by (auto simp: lh_id_def)
  then have "def_push b events m = (Inr (mg_next m), n)" using w assms(4,5,6) by (simp add: def_push_def)
  moreover have "branch_view n b = Inr v'" using view_after[OF inv ok assms(2,4) w(5)] assms(5,6) by simp
  ultimately show ?thesis by (rule that)
qed

lemma def_push_refused:
  assumes "mg_reachable m" and "origins_known m" and "mg_next m \<noteq> - 1"
    and "lm_read_path m b None = Inr path" and "view m path = Inr v" and "apply_events (mg_next m) events v = Inl refused"
  obtains n where "def_push b events m = (Inl refused, n)" "branch_view n = branch_view m"
proof -
  have inv: "mg_inv m" by (rule mg_reachable_inv[OF assms(1)])
  let ?layer = "\<lparr>ly_id = mg_next m, ly_branch = b, ly_kind = LKDef, ly_author = ASource, ly_state = LOpen,
      ly_parent = lm_head m b, ly_guards = []\<rparr>"
  have id: "lh_id \<lparr>lh_layer = ?layer\<rparr> = mg_next m" by (simp add: lh_id_def)
  obtain m1 where o: "lm_open b LKDef ASource m = (Inr \<lparr>lh_layer = ?layer\<rparr>, m1)"
    and m1: "m1 = m\<lparr>mg_next := mg_next m + 1, mg_layers := hm_insert (mg_next m) ?layer (mg_layers m),
       mg_db := put_staged (mg_next m) \<lparr>sl_branch = b, sl_members = [], sl_authored = [], sl_defs = [], sl_sealed = False\<rparr> (mg_db m)\<rparr>"
    using lm_open_cases[OF inv assms(3) refl refl, of b LKDef ASource] by simp
  let ?n = "m1\<lparr>mg_db := snd (mem_abort (mg_next m) (mg_db m1)),
     mg_layers := hm_insert (mg_next m) (?layer\<lparr>ly_state := LAborted\<rparr>) (mg_layers m1)\<rparr>"
  have inv1: "mg_inv m1" using mg_inv_open[OF inv assms(3), of b LKDef ASource] o by simp
  have "def_push b events m = (Inl refused, ?n)"
    using assms(4,5,6) o abort_outcome[OF inv1, of "\<lparr>lh_layer = ?layer\<rparr>" ?layer]
    by (simp add: def_push_def id m1)
  moreover have "branch_view ?n = branch_view m"
  proof
    fix b'
    show "branch_view ?n b' = branch_view m b'"
      by (rule view_dropped[OF assms(2), of "mg_next m" _ "?layer\<lparr>ly_state := LAborted\<rparr>"])
        (use next_unused[OF inv] in \<open>auto simp: m1 lm_layer_def fun_eq_iff read_def_layer_def mem_abort_def put_staged_def\<close>)
  qed
  ultimately show ?thesis by (rule that)
qed

section \<open>Properties\<close>

text \<open>Property C26. A push is decided before its layer commits and is all or nothing: when its events
  fold onto the branch's view, the push returns the new layer and the branch stands at exactly the
  folded view; when an event is refused, the push returns that error and the definitions of every
  branch are what they were.\<close>

theorem push_publishes_or_leaves_no_trace:
  assumes "mg_reachable m" and "origins_known m" and "mg_next m \<noteq> - 1"
    and "lm_read_path m b None = Inr path" and "view m path = Inr v"
  shows "case apply_events (mg_next m) events v of
      Inr v' \<Rightarrow> fst (def_push b events m) = Inr (mg_next m) \<and> branch_view (snd (def_push b events m)) b = Inr v'
    | Inl refused \<Rightarrow> fst (def_push b events m) = Inl refused \<and>
        branch_view (snd (def_push b events m)) = branch_view m"
proof (cases "apply_events (mg_next m) events v")
  case (Inl refused)
  obtain n where "def_push b events m = (Inl refused, n)" "branch_view n = branch_view m"
    by (rule def_push_refused[OF assms Inl])
  then show ?thesis using Inl by simp
next
  case (Inr v')
  obtain n where "def_push b events m = (Inr (mg_next m), n)" "branch_view n b = Inr v'"
    by (rule def_push_accepted[OF assms Inr])
  then show ?thesis using Inr by simp
qed

lemma push_publishes_or_leaves_no_trace_witness:
  "fst (def_push 1 [w_declare ''name'' TString 1] s_start) = Inr 1 \<and>
   branch_view (snd (def_push 1 [w_declare ''name'' TString 1] s_start)) 1 = Inr w_view"
proof -
  have known: "origins_known s_start"
    by (simp add: origins_known_def origin_of_def lm_branch_def s_start_defs)
  have path: "lm_read_path s_start 1 None = Inr [(1, 0)]"
    by (simp add: lm_read_path_iff start_bound_def lm_head_def s_start_defs)
      (rule ancestry.Root, simp add: parent_link_def origin_of_def lm_branch_def)
  have v: "view s_start [(1, 0)] = Inr def_view_new"
    by (simp add: view_fold reg_def_layers_def def_layers_of_def s_start_defs)
  have n: "mg_next s_start = 1" by (simp add: s_start_defs)
  have "mg_next s_start \<noteq> - 1" by (simp add: n)
  from push_publishes_or_leaves_no_trace[OF s_inv(1) known this path v, of "[w_declare ''name'' TString 1]"]
  show ?thesis unfolding n w_view_eq(1) sum.case .
qed

end
