(* ===== verification/Doubles.thy ===== *)
theory Doubles
  imports Complex_Main Borg_Prelude
begin

text \<open>
  The number texts of Rust's standard library that \<^verbatim>\<open>parse.rs\<close> uses: \<^verbatim>\<open>str::parse\<close> and \<^verbatim>\<open>Display\<close> of
  \<^verbatim>\<open>i64\<close> and of \<^verbatim>\<open>f64\<close>. An \<^verbatim>\<open>f64\<close> is its bit pattern. Parsing rounds the decimal to the nearest
  double, ties to even; printing takes the shortest decimal that reads back as the same double, and
  of two such the nearer one, without an exponent.
\<close>

section \<open>Integers\<close>

definition all_digits :: "string \<Rightarrow> bool" where
  "all_digits s \<longleftrightarrow> s \<noteq> [] \<and> list_all is_digit s"

definition parse_i64 :: "string \<Rightarrow> u64 option" where
  "parse_i64 s =
     (case s of
        [] \<Rightarrow> None
      | c # t \<Rightarrow>
          if c = CHR ''-''
          then (if all_digits t \<and> digits_val t \<le> 2 ^ 63 then Some (- of_nat (digits_val t)) else None)
          else (let ds = (if c = CHR ''+'' then t else s)
                in if all_digits ds \<and> digits_val ds < 2 ^ 63 then Some (of_nat (digits_val ds)) else None))"

definition show_i64 :: "u64 \<Rightarrow> string" where
  "show_i64 n = (if 0 \<le> sint n then show_nat (nat (sint n)) else CHR ''-'' # show_nat (nat (- sint n)))"

section \<open>Rounding to the nearest double\<close>

fun bit_len :: "nat \<Rightarrow> nat" where
  "bit_len n = (if n = 0 then 0 else Suc (bit_len (n div 2)))"

declare bit_len.simps [simp del]

definition round_half_even :: "nat \<Rightarrow> nat \<Rightarrow> nat" where
  "round_half_even a b =
     (let q = a div b; r = a mod b in if b < 2 * r \<or> (2 * r = b \<and> odd q) then q + 1 else q)"

text \<open>\<open>num / den\<close> divided by \<open>2 ^ q\<close>, as a fraction.\<close>

definition scaled :: "nat \<Rightarrow> nat \<Rightarrow> int \<Rightarrow> nat \<times> nat" where
  "scaled num den q = (if 0 \<le> q then (num, den * 2 ^ nat q) else (num * 2 ^ nat (- q), den))"

definition ulp_exp :: "nat \<Rightarrow> nat \<Rightarrow> int" where
  "ulp_exp num den =
     (let q = int (bit_len num) - int (bit_len den) - 53; (a, b) = scaled num den q
      in max (- 1074) (if 2 ^ 53 * b \<le> a then q + 1 else q))"

definition INFINITE :: nat where
  "INFINITE = 2047 * 2 ^ 52"

text \<open>The bits, without the sign, of the double nearest to \<open>num / den\<close>.\<close>

definition mag_bits :: "nat \<Rightarrow> nat \<Rightarrow> nat" where
  "mag_bits num den =
     (if num = 0 then 0
      else let q = ulp_exp num den; (a, b) = scaled num den q
           in min INFINITE (nat (q + 1074) * 2 ^ 52 + round_half_even a b))"

definition decimal_bits :: "nat \<Rightarrow> int \<Rightarrow> nat" where
  "decimal_bits d e = (if 0 \<le> e then mag_bits (d * 10 ^ nat e) 1 else mag_bits d (10 ^ nat (- e)))"

section \<open>Parsing\<close>

definition SIGN_BIT :: u64 where
  "SIGN_BIT = 2 ^ 63"

definition with_sign :: "bool \<Rightarrow> nat \<Rightarrow> u64" where
  "with_sign negative bits = (if negative then SIGN_BIT OR of_nat bits else of_nat bits)"

text \<open>The digits of an exponent, which stop counting once they pass \<open>0x10000\<close>.\<close>

definition exponent_val :: "string \<Rightarrow> nat" where
  "exponent_val s = foldl (\<lambda>v c. if v < 65536 then v * 10 + digit_val c else v) 0 s"

definition parse_exponent :: "string \<Rightarrow> int option" where
  "parse_exponent s =
     (case s of
        [] \<Rightarrow> Some 0
      | c # t \<Rightarrow>
          if c \<noteq> CHR ''e'' \<and> c \<noteq> CHR ''E'' then None
          else (let negative = (case t of d # _ \<Rightarrow> d = CHR ''-'' | [] \<Rightarrow> False);
                    ds = (case t of d # u \<Rightarrow> if d = CHR ''-'' \<or> d = CHR ''+'' then u else t | [] \<Rightarrow> t)
                in if all_digits ds
                   then Some (if negative then - int (exponent_val ds) else int (exponent_val ds)) else None))"

definition parse_number :: "string \<Rightarrow> (nat \<times> int) option" where
  "parse_number s =
     (let whole = takeWhile is_digit s; rest = dropWhile is_digit s;
          frac = (case rest of c # t \<Rightarrow> if c = CHR ''.'' then takeWhile is_digit t else [] | [] \<Rightarrow> []);
          tail = (case rest of c # t \<Rightarrow> if c = CHR ''.'' then dropWhile is_digit t else rest | [] \<Rightarrow> [])
      in if whole = [] \<and> frac = [] then None
         else map_option (\<lambda>e. (digits_val (whole @ frac), e - int (length frac))) (parse_exponent tail))"

definition inf_nan :: "string \<Rightarrow> nat option" where
  "inf_nan s =
     (let w = map to_ascii_lowercase s
      in if w = ''inf'' \<or> w = ''infinity'' then Some INFINITE
         else if w = ''nan'' then Some (INFINITE + 2 ^ 51) else None)"

definition parse_f64 :: "string \<Rightarrow> u64 option" where
  "parse_f64 s =
     (case s of
        [] \<Rightarrow> None
      | c # t \<Rightarrow>
          (let negative = (c = CHR ''-''); body = (if c = CHR ''-'' \<or> c = CHR ''+'' then t else s)
           in if body = [] then None
              else (case parse_number body of
                      Some (d, e) \<Rightarrow> Some (with_sign negative (decimal_bits d e))
                    | None \<Rightarrow> map_option (with_sign negative) (inf_nan body))))"

definition is_finite :: "u64 \<Rightarrow> bool" where
  "is_finite d \<longleftrightarrow> unat (d AND NOT SIGN_BIT) < INFINITE"

section \<open>Printing\<close>

text \<open>The value of a finite double, \<open>m * 2 ^ q\<close>.\<close>

definition mantissa :: "nat \<Rightarrow> nat \<times> int" where
  "mantissa bits =
     (let e = bits div 2 ^ 52; f = bits mod 2 ^ 52
      in if e = 0 then (f, - 1074) else (2 ^ 52 + f, int e - 1075))"

text \<open>\<open>m * 2 ^ q / 10 ^ p\<close> as a fraction.\<close>

definition in_tens :: "nat \<Rightarrow> int \<Rightarrow> int \<Rightarrow> nat \<times> nat" where
  "in_tens m q p =
     (m * (if 0 \<le> q then 2 ^ nat q else 1) * (if p < 0 then 10 ^ nat (- p) else 1),
      (if q < 0 then 2 ^ nat (- q) else 1) * (if 0 \<le> p then 10 ^ nat p else 1))"

text \<open>The digits that stand for the double at the power \<open>p\<close> of ten, where some do.\<close>

definition digits_at :: "nat \<Rightarrow> int \<Rightarrow> nat option" where
  "digits_at bits p =
     (let (m, q) = mantissa bits; (a, b) = in_tens m q p; d = a div b;
          down = (decimal_bits d p = bits); up = (decimal_bits (d + 1) p = bits)
      in if up \<and> (\<not> down \<or> b \<le> 2 * (a mod b)) then Some (d + 1)
         else if down then Some d else None)"

text \<open>From \<open>10 ^ 309\<close>, above every double, down to \<open>10 ^ -1074\<close>, where every double is whole.\<close>

fun shortest_loop :: "nat \<Rightarrow> nat \<Rightarrow> int \<Rightarrow> (nat \<times> int) option" where
  "shortest_loop 0 bits p = None"
| "shortest_loop (Suc n) bits p =
     (case digits_at bits p of Some d \<Rightarrow> Some (d, p) | None \<Rightarrow> shortest_loop n bits (p - 1))"

definition shortest :: "nat \<Rightarrow> (nat \<times> int) option" where
  "shortest bits = shortest_loop 1384 bits 309"

definition show_decimal :: "nat \<Rightarrow> int \<Rightarrow> string" where
  "show_decimal d p =
     (let s = show_nat d; k = nat (- p)
      in if 0 \<le> p then s @ replicate (nat p) CHR ''0''
         else if k < length s then take (length s - k) s @ CHR ''.'' # drop (length s - k) s
         else ''0.'' @ replicate (k - length s) CHR ''0'' @ s)"

definition show_mag :: "nat \<Rightarrow> string" where
  "show_mag bits =
     (if bits = 0 then ''0''
      else if bits = INFINITE then ''inf''
      else (case shortest bits of Some (d, p) \<Rightarrow> show_decimal d p | None \<Rightarrow> []))"

definition show_f64 :: "u64 \<Rightarrow> string" where
  "show_f64 d =
     (let bits = unat (d AND NOT SIGN_BIT)
      in if INFINITE < bits then ''NaN''
         else (if d AND SIGN_BIT = 0 then [] else ''-'') @ show_mag bits)"

section \<open>Integers read back\<close>

lemma show_nat_all_digits [simp]: "all_digits (show_nat n)"
  by (simp add: all_digits_def)

lemma show_nat_head: "show_nat n = c # t \<Longrightarrow> is_digit c"
  using show_nat_digits[of n] by simp

lemma not_digit_signs [simp]: "\<not> is_digit CHR ''-''" "\<not> is_digit CHR ''+''" "\<not> is_digit CHR ''.''"
  "\<not> is_digit CHR ''e''" "\<not> is_digit CHR ''E''" "\<not> is_digit CHR ''@''" "\<not> is_digit CHR ''~''"
  by (simp_all add: is_digit_def less_eq_char_def)

lemma parse_i64_show [simp]: "parse_i64 (show_i64 n) = Some n"
proof (cases "0 \<le> sint n")
  case True
  obtain c t where ct: "show_nat (nat (sint n)) = c # t" by (cases "show_nat (nat (sint n))") auto
  then have c: "c \<noteq> CHR ''-''" "c \<noteq> CHR ''+''" by (auto dest: show_nat_head)
  have "all_digits (c # t)" "digits_val (c # t) = nat (sint n)"
    using show_nat_all_digits[of "nat (sint n)"] digits_val_show_nat[of "nat (sint n)"] by (simp_all add: ct)
  moreover have "nat (sint n) < 2 ^ 63" using sint_lt[of n] by (simp add: nat_less_iff True)
  moreover have "of_nat (nat (sint n)) = n" by (simp add: True)
  ultimately show ?thesis using True c by (simp add: parse_i64_def show_i64_def ct)
next
  case False
  have "nat (- sint n) \<le> 2 ^ 63" using sint_ge[of n] by simp
  moreover have "- of_nat (nat (- sint n)) = n" using False by simp
  ultimately show ?thesis using False by (simp add: parse_i64_def show_i64_def)
qed

section \<open>Every double is some decimal\<close>

lemma bit_len_bounds: "n > 0 \<Longrightarrow> 2 ^ (bit_len n - 1) \<le> n \<and> n < 2 ^ bit_len n \<and> bit_len n > 0"
proof (induction n rule: bit_len.induct)
  case (1 n)
  have s: "bit_len n = Suc (bit_len (n div 2))" using 1 by (subst bit_len.simps) simp
  show ?case
  proof (cases "n div 2 = 0")
    case True
    then have "n = 1" using 1(2) by simp
    then show ?thesis using True s by (simp add: bit_len.simps[of 0])
  next
    case False
    then have "2 ^ (bit_len (n div 2) - 1) \<le> n div 2 \<and> n div 2 < 2 ^ bit_len (n div 2) \<and> bit_len (n div 2) > 0"
      using 1 by simp
    then obtain k where "bit_len (n div 2) = Suc k" "2 ^ k \<le> n div 2" "n div 2 < 2 * 2 ^ k"
      by (cases "bit_len (n div 2)") auto
    moreover have "n = 2 * (n div 2) + n mod 2" "n mod 2 < 2" by simp_all
    ultimately show ?thesis using s by (simp, linarith)
  qed
qed

lemma bit_len_eq: "2 ^ (k - 1) \<le> n \<Longrightarrow> n < 2 ^ k \<Longrightarrow> 0 < n \<Longrightarrow> 0 < k \<Longrightarrow> bit_len n = k"
proof -
  assume a: "2 ^ (k - 1) \<le> n" "n < 2 ^ k" "0 < n" "0 < k"
  note b = bit_len_bounds[OF a(3)]
  have "(2::nat) ^ (bit_len n - 1) < 2 ^ k" "(2::nat) ^ (k - 1) < 2 ^ bit_len n"
    using le_less_trans[of "2 ^ (bit_len n - 1)" n "2 ^ k"] le_less_trans[of "2 ^ (k - 1)" n "2 ^ bit_len n"] a b
    by blast+
  then have "bit_len n - 1 < k" "k - 1 < bit_len n" by simp_all
  then show ?thesis using a(4) b by linarith
qed

lemma bit_len_real:
  assumes "n > 0"
  shows "2 powi (int (bit_len n) - 1) \<le> real n" and "real n < 2 powi int (bit_len n)"
proof -
  note b = bit_len_bounds[OF assms]
  have "int (bit_len n) - 1 = int (bit_len n - 1)" using b by simp
  then have "(2::real) powi (int (bit_len n) - 1) = 2 ^ (bit_len n - 1)" by (simp only: power_int_of_nat)
  moreover have "real (2 ^ (bit_len n - 1)) \<le> real n" using b by (simp only: of_nat_le_iff)
  ultimately show "2 powi (int (bit_len n) - 1) \<le> real n" by simp
  have "real n < real (2 ^ bit_len n)" using b by (simp only: of_nat_less_iff)
  then show "real n < 2 powi int (bit_len n)" by simp
qed

lemma scaled_real:
  assumes "scaled num den q = (a, b)" and "den > 0"
  shows "b > 0" and "real a / real b = real num / real den * 2 powi (- q)"
  using assms by (auto simp: scaled_def power_int_def field_simps split: if_splits)

lemma powi_less: "(2::real) powi i < 2 powi j \<longleftrightarrow> i < j"
proof (cases "i < j")
  case True
  then show ?thesis using power_int_strict_increasing[of i j "2::real"] by simp
next
  case False
  then have "(2::real) powi j \<le> 2 powi i" by (intro power_int_increasing) simp_all
  then show ?thesis using False by simp
qed

lemma powi_shift: "(2::real) powi (int k + q) = 2 ^ k * 2 powi q"
  by (simp add: power_int_add)

definition canonical :: "nat \<Rightarrow> int \<Rightarrow> bool" where
  "canonical m q \<longleftrightarrow> 0 < m \<and> m < 2 ^ 53 \<and> - 1074 \<le> q \<and> (m < 2 ^ 52 \<longrightarrow> q = - 1074)"

lemma ulp_exp_exact:
  assumes c: "canonical m q" and den: "den > 0" and r: "real num / real den = real m * 2 powi q"
  shows "ulp_exp num den = q"
proof -
  have m: "0 < m" "m < 2 ^ 53" "- 1074 \<le> q" using c by (simp_all add: canonical_def)
  have "real num / real den > 0" using m(1) by (simp add: r)
  then have num: "num > 0" by (cases "num = 0") auto
  let ?d = "int (bit_len num) - int (bit_len den)"
  obtain a b where ab: "scaled num den (?d - 53) = (a, b)" by (cases "scaled num den (?d - 53)")
  note sc = scaled_real[OF ab den]
  note n = bit_len_real[OF num] and d = bit_len_real[OF den]
  have pos: "(2::real) powi i > 0" for i by simp
  have up: "real num / real den < 2 powi (?d + 1)"
  proof -
    have "real num / real den < 2 powi int (bit_len num) / 2 powi (int (bit_len den) - 1)"
      using n(2) d(1) den by (intro frac_less) simp_all
    then show ?thesis by (simp add: power_int_diff power_int_add field_simps)
  qed
  have lo: "2 powi (?d - 1) < real num / real den"
  proof -
    have "2 powi (int (bit_len num) - 1) / 2 powi int (bit_len den) < real num / real den"
      using n(1) d(2) den num by (intro frac_less2) simp_all
    then show ?thesis by (simp add: power_int_diff power_int_add field_simps)
  qed
  have q: "real a / real b = real m * 2 powi (q - ?d + 53)"
    unfolding sc(2) r by (simp add: power_int_add power_int_diff power_int_minus field_simps)
  show ?thesis
  proof (cases "m < 2 ^ 52")
    case True
    then have q1: "q = - 1074" using c by (simp add: canonical_def)
    have "real m * 2 powi q < 2 ^ 52 * 2 powi q" using True by simp
    then have "2 powi (?d - 1) < (2::real) powi (int 52 + q)" using lo unfolding r powi_shift by (rule less_trans[rotated])
    then have "?d - 1 < int 52 + q" by (simp only: powi_less)
    then have "?d - 53 \<le> - 1075" using q1 by simp
    then show ?thesis by (simp add: ulp_exp_def ab q1 Let_def)
  next
    case False
    have "real m * 2 powi q < 2 ^ 53 * 2 powi q" "2 ^ 52 * 2 powi q \<le> real m * 2 powi q"
      using m(2) False by simp_all
    then have "2 powi (?d - 1) < (2::real) powi (int 53 + q)" "(2::real) powi (int 52 + q) < 2 powi (?d + 1)"
      using lo up unfolding r powi_shift by (blast intro: less_trans, blast intro: le_less_trans)
    then have "?d - 1 < int 53 + q" "int 52 + q < ?d + 1" by (simp_all only: powi_less)
    then consider "?d = q + 53" | "?d = q + 52" by linarith
    then show ?thesis
    proof cases
      case 1
      then have "real a / real b = real m" using q by simp
      then have "real a = real (m * b)" using sc(1) by (simp add: field_simps)
      then have "a = m * b" by (simp only: of_nat_eq_iff)
      then have "\<not> 2 ^ 53 * b \<le> a" using m(2) sc(1) by simp
      then show ?thesis using 1 m(3) ab by (simp add: ulp_exp_def)
    next
      case 2
      then have "real a / real b = real m * 2" using q by simp
      then have "real a = real (2 * m * b)" using sc(1) by (simp add: field_simps)
      then have "a = 2 * m * b" by (simp only: of_nat_eq_iff)
      moreover have "2 ^ 53 * b \<le> 2 * m * b" using False by (intro mult_right_mono) simp_all
      ultimately have "2 ^ 53 * b \<le> a" by simp
      then show ?thesis using 2 m(3) ab by (simp add: ulp_exp_def)
    qed
  qed
qed

lemma mag_bits_exact:
  assumes c: "canonical m q" and den: "den > 0" and r: "real num / real den = real m * 2 powi q"
  shows "mag_bits num den = min INFINITE (nat (q + 1074) * 2 ^ 52 + m)"
proof -
  have "m \<noteq> 0" using c by (simp add: canonical_def)
  then have num: "num \<noteq> 0" using r by (cases "num = 0") auto
  obtain a b where ab: "scaled num den q = (a, b)" by (cases "scaled num den q")
  note sc = scaled_real[OF ab den]
  have "real a / real b = real m" unfolding sc(2) r by (simp add: power_int_minus field_simps)
  then have "real a = real (m * b)" using sc(1) by (simp add: field_simps)
  then have "a = m * b" by (simp only: of_nat_eq_iff)
  then have "round_half_even a b = m" using sc(1) by (simp add: round_half_even_def)
  then show ?thesis using num ulp_exp_exact[OF assms] ab by (simp add: mag_bits_def)
qed

lemma mantissa_canonical:
  assumes "mantissa bits = (m, q)" and "0 < bits" and "bits < INFINITE"
  shows "canonical m q" and "nat (q + 1074) * 2 ^ 52 + m = bits"
proof -
  define e f where ef: "e = bits div 2 ^ 52" "f = bits mod 2 ^ 52"
  have f: "f < 2 ^ 52" and d: "e * 2 ^ 52 + f = bits" by (simp_all add: ef)
  have mq: "(m, q) = (if e = 0 then (f, - 1074) else (2 ^ 52 + f, int e - 1075))"
    using assms(1) by (simp only: mantissa_def Let_def ef)
  show "canonical m q"
    using mq f d assms(2) by (cases "e = 0") (auto simp: canonical_def)
  show "nat (q + 1074) * 2 ^ 52 + m = bits"
  proof (cases e)
    case 0
    then show ?thesis using mq d by simp
  next
    case (Suc k)
    then have "nat (q + 1074) = k" "m = 2 ^ 52 + f" using mq by simp_all
    then show ?thesis using d Suc by simp
  qed
qed

section \<open>Doubles read back\<close>

lemma digits_at_sound: "digits_at bits p = Some d \<Longrightarrow> decimal_bits d p = bits"
  by (auto simp: digits_at_def Let_def split: prod.splits if_splits)

lemma two_dvd_ten: "k \<le> K \<Longrightarrow> (2::nat) ^ k dvd 10 ^ K"
proof -
  assume k: "k \<le> K"
  have "(10::nat) ^ K = 2 ^ K * 5 ^ K" by (simp flip: power_mult_distrib)
  moreover have "(2::nat) ^ k dvd 2 ^ K" using k by (rule le_imp_power_dvd)
  ultimately show ?thesis by simp
qed

lemma digits_at_exact:
  assumes "0 < bits" and "bits < INFINITE" and p: "p \<le> - 1074"
  shows "digits_at bits p \<noteq> None"
proof -
  obtain m q where mq: "mantissa bits = (m, q)" by (cases "mantissa bits")
  note c = mantissa_canonical[OF mq assms(1,2)]
  obtain a b where ab: "in_tens m q p = (a, b)" by (cases "in_tens m q p")
  let ?d = "a div b" and ?K = "nat (- p)"
  have neg: "p < 0" using p by simp
  have "nat (- q) \<le> ?K" using c(1) p by (intro nat_mono) (simp add: canonical_def)
  then have dvd: "(2::nat) ^ nat (- q) dvd 10 ^ ?K" by (rule two_dvd_ten)
  have a: "a = m * (if 0 \<le> q then 2 ^ nat q else 1) * 10 ^ ?K" and b: "b = (if q < 0 then 2 ^ nat (- q) else 1)"
    using ab neg by (simp_all add: in_tens_def)
  have "b dvd a" using dvd by (simp add: a b)
  then have "real ?d = real a / real b" by (rule real_of_nat_div)
  moreover have "real a / real b = real m * 2 powi q * 10 ^ ?K"
    by (simp add: a b power_int_def field_simps)
  ultimately have "real ?d / real (10 ^ ?K) = real m * 2 powi q" by simp
  from mag_bits_exact[OF c(1) _ this] have "mag_bits ?d (10 ^ ?K) = bits"
    using c(2) assms(2) by simp
  then have "decimal_bits ?d p = bits" using neg by (simp add: decimal_bits_def)
  then show ?thesis by (simp add: digits_at_def mq ab Let_def)
qed

lemma shortest_loop_None: "shortest_loop n bits p = None \<Longrightarrow> k < n \<Longrightarrow> digits_at bits (p - int k) = None"
proof (induction n arbitrary: p k)
  case (Suc n)
  show ?case
  proof (cases k)
    case 0
    then show ?thesis using Suc.prems by (simp split: option.splits)
  next
    case (Suc j)
    then show ?thesis using Suc.IH[of "p - 1" j] Suc.prems by (simp split: option.splits add: algebra_simps)
  qed
qed simp

lemma shortest_loop_sound: "shortest_loop n bits p = Some (d, p') \<Longrightarrow> decimal_bits d p' = bits"
  by (induction n arbitrary: p) (auto dest: digits_at_sound split: option.splits)

lemma shortest_total:
  assumes "0 < bits" and "bits < INFINITE"
  obtains d p where "shortest bits = Some (d, p)" and "decimal_bits d p = bits"
proof (cases "shortest bits")
  case None
  from shortest_loop_None[OF None[unfolded shortest_def], of 1383] digits_at_exact[OF assms, of "- 1074"]
  show ?thesis by simp
next
  case (Some x)
  then show ?thesis using that shortest_loop_sound[of 1384 bits 309] by (cases x) (simp add: shortest_def)
qed

lemma digits_val_append: "digits_val (s @ t) = digits_val s * 10 ^ length t + digits_val t"
  by (induction t rule: rev_induct) (simp_all flip: append_assoc add: algebra_simps)

lemma digit_zero: "is_digit CHR ''0''" "digit_val CHR ''0'' = 0"
  by (simp_all add: is_digit_def less_eq_char_def digit_val_def)

lemma zeros [simp]: "digits_val (replicate n CHR ''0'') = 0" "list_all is_digit (replicate n CHR ''0'')"
  by (induction n) (simp_all add: digit_zero digits_val_def)

lemma parse_number_digits:
  assumes "w \<noteq> []" "list_all is_digit w"
  shows "parse_number w = Some (digits_val w, 0)"
    and "list_all is_digit f \<Longrightarrow> parse_number (w @ CHR ''.'' # f) = Some (digits_val (w @ f), - int (length f))"
proof -
  have tw: "takeWhile is_digit v = v" "dropWhile is_digit v = []" if "list_all is_digit v" for v
    using that by (auto simp: list_all_iff takeWhile_eq_all_conv dropWhile_eq_Nil_conv)
  show "parse_number w = Some (digits_val w, 0)"
    unfolding parse_number_def tw[OF assms(2)] Let_def using assms(1) by (simp add: parse_exponent_def)
  have "takeWhile is_digit (w @ CHR ''.'' # f) = w" "dropWhile is_digit (w @ CHR ''.'' # f) = CHR ''.'' # f"
    using assms(2) by (simp_all add: list_all_iff takeWhile_append2 dropWhile_append2)
  note wh = this
  assume "list_all is_digit f"
  note fr = tw[OF this]
  show "parse_number (w @ CHR ''.'' # f) = Some (digits_val (w @ f), - int (length f))"
    unfolding parse_number_def Let_def wh using assms(1) by (simp add: fr[unfolded] parse_exponent_def del: takeWhile_eq_all_conv)
qed

lemma parse_number_decimal:
  "\<exists>D E. parse_number (show_decimal d p) = Some (D, E) \<and> decimal_bits D E = decimal_bits d p"
proof -
  let ?s = "show_nat d" and ?k = "nat (- p)"
  consider (whole) "0 \<le> p" | (inner) "p < 0" "?k < length ?s" | (below) "p < 0" "length ?s \<le> ?k" by linarith
  then show ?thesis
  proof cases
    case whole
    then have "parse_number (show_decimal d p) = Some (d * 10 ^ nat p, 0)"
      using parse_number_digits(1)[of "?s @ replicate (nat p) CHR ''0''"]
      by (simp add: show_decimal_def digits_val_append)
    then show ?thesis using whole by (simp add: decimal_bits_def)
  next
    case inner
    let ?w = "take (length ?s - ?k) ?s" and ?f = "drop (length ?s - ?k) ?s"
    have "?w \<noteq> []" using inner by auto
    moreover have "list_all is_digit ?w" "list_all is_digit ?f"
      using show_nat_digits[of d] by (auto simp: list_all_iff dest: in_set_takeD in_set_dropD)
    ultimately have "parse_number (?w @ CHR ''.'' # ?f) = Some (digits_val (?w @ ?f), - int (length ?f))"
      by (intro parse_number_digits(2))
    moreover have "show_decimal d p = ?w @ CHR ''.'' # ?f" using inner by (simp add: show_decimal_def Let_def)
    moreover have "- int (length ?f) = p" using inner by simp
    ultimately show ?thesis by (simp only: append_take_drop_id digits_val_show_nat) blast
  next
    case below
    have "parse_number (''0'' @ CHR ''.'' # (replicate (?k - length ?s) CHR ''0'' @ ?s)) =
        Some (digits_val (''0'' @ replicate (?k - length ?s) CHR ''0'' @ ?s), - int (length (replicate (?k - length ?s) CHR ''0'' @ ?s)))"
      by (intro parse_number_digits(2)) (simp_all add: digit_zero)
    moreover have "digits_val (''0'' @ replicate (?k - length ?s) CHR ''0'' @ ?s) = d"
      using zeros(1)[of 1] by (simp add: digits_val_append del: append_Cons zeros(1)) (simp add: digits_val_append)
    moreover have "- int (length (replicate (?k - length ?s) CHR ''0'' @ ?s)) = p" using below by simp
    moreover have "show_decimal d p = ''0'' @ CHR ''.'' # (replicate (?k - length ?s) CHR ''0'' @ ?s)"
      using below by (simp add: show_decimal_def Let_def)
    ultimately show ?thesis by (simp only:) blast
  qed
qed

lemma show_mag_parses:
  assumes "bits < INFINITE"
  shows "\<exists>c t D E. show_mag bits = c # t \<and> is_digit c \<and> parse_number (show_mag bits) = Some (D, E) \<and>
    decimal_bits D E = bits"
proof (cases "bits = 0")
  case True
  have "parse_number ''0'' = Some (digits_val ''0'', 0)" by (rule parse_number_digits) (simp_all add: digit_zero)
  then show ?thesis using True by (simp add: show_mag_def digit_zero decimal_bits_def mag_bits_def digits_val_def)
next
  case False
  then obtain d p where s: "shortest bits = Some (d, p)" "decimal_bits d p = bits"
    using shortest_total[of bits] assms by auto
  have sm: "show_mag bits = show_decimal d p" using False assms s by (simp add: show_mag_def)
  obtain c t where ct: "show_nat d = c # t" by (cases "show_nat d") auto
  then have c: "is_digit c" by (rule show_nat_head)
  have "\<exists>c t. show_decimal d p = c # t \<and> is_digit c"
    using c digit_zero by (auto simp: show_decimal_def ct Let_def take_Cons split: nat.splits)
  then show ?thesis using parse_number_decimal[of d p] s(2) by (auto simp: sm)
qed

lemma sign_split: "with_sign (d AND SIGN_BIT \<noteq> 0) (unat (d AND NOT SIGN_BIT)) = d"
proof -
  have bit: "bit SIGN_BIT n \<longleftrightarrow> n = 63" for n
  proof -
    have s: "SIGN_BIT = push_bit 63 1" by (simp add: SIGN_BIT_def push_bit_eq_mult)
    show ?thesis unfolding s bit_push_bit_iff by (auto simp: bit_1_iff)
  qed
  have zero: "bit (d AND SIGN_BIT) n \<longleftrightarrow> bit d 63 \<and> n = 63" for n
    by (auto simp: bit_and_iff bit)
  have "d AND SIGN_BIT = 0 \<longleftrightarrow> \<not> bit d 63"
  proof
    assume "d AND SIGN_BIT = 0"
    with zero[of 63] show "\<not> bit d 63" by simp
  next
    assume "\<not> bit d 63"
    then show "d AND SIGN_BIT = 0" by (intro bit_word_eqI) (simp add: zero)
  qed
  moreover have "bit (with_sign (bit d 63) (unat (d AND NOT SIGN_BIT))) n = bit d n" if "n < 64" for n
    using that by (auto simp: with_sign_def bit_and_iff bit_or_iff bit_not_iff bit)
  then have "with_sign (bit d 63) (unat (d AND NOT SIGN_BIT)) = d"
    by (intro bit_word_eqI) simp
  ultimately show ?thesis by simp
qed

lemma f64_text_roundtrip:
  assumes "is_finite d"
  shows "parse_f64 (show_f64 d) = Some d"
proof -
  let ?bits = "unat (d AND NOT SIGN_BIT)"
  have fin: "?bits < INFINITE" using assms by (simp add: is_finite_def)
  obtain c t D E where s: "show_mag ?bits = c # t" "is_digit c" "parse_number (c # t) = Some (D, E)" "decimal_bits D E = ?bits"
    using show_mag_parses[OF fin] by auto
  have c: "c \<noteq> CHR ''-''" "c \<noteq> CHR ''+''" using s(2) by auto
  show ?thesis
    using sign_split[of d] s c fin by (cases "d AND SIGN_BIT = 0") (simp_all add: show_f64_def parse_f64_def)
qed

end
