(* ===== verification/Value_Text.thy ===== *)
theory Value_Text
  imports Cell_Text Doubles
begin

text \<open>
  \<^verbatim>\<open>borg-core/src/parse.rs\<close>: values as text. \<open>value_as\<close> parses against a declared type, \<open>parse_value\<close>
  (\<^verbatim>\<open>value\<close>) guesses from syntax, \<open>parse_reference\<close> is the body of an \<open>@\<close>, and \<open>render_value\<close>
  (\<^verbatim>\<open>render\<close>) writes a value in the same shorthand.
\<close>

section \<open>Operations\<close>

definition value_err :: "string \<Rightarrow> parse_reason \<Rightarrow> parse_error" where
  "value_err input reason = \<lparr>pe_kind = ''value'', pe_input = input, pe_reason = reason\<rparr>"

definition strip_prefix :: "string \<Rightarrow> string \<Rightarrow> string option" where
  "strip_prefix pre s = (if take (length pre) s = pre then Some (drop (length pre) s) else None)"

definition parse_reference ::
  "string \<Rightarrow> string \<Rightarrow> branch_id \<Rightarrow> allocator_id \<Rightarrow> parse_error + value_input" where
  "parse_reference target input b a =
     (case pid_from_str target of
        Inr p \<Rightarrow> Inr (Immediate (VRef p))
      | Inl _ \<Rightarrow>
          (case parse_cell_ref target b a of
             Inr cell \<Rightarrow> Inr (Immediate (VRef (cell_pid cell)))
           | Inl _ \<Rightarrow> Inl (value_err input NotAReference)))"

definition parse_value :: "string \<Rightarrow> branch_id \<Rightarrow> allocator_id \<Rightarrow> parse_error + value_input" where
  "parse_value input b a =
     (if input = ''true'' then Inr (Immediate (VBool True))
      else if input = ''false'' then Inr (Immediate (VBool False))
      else if input = ''~'' then Inr (Immediate VTombstone)
      else (case strip_prefix ''@'' input of
        Some target \<Rightarrow> parse_reference target input b a
      | None \<Rightarrow>
      (case strip_prefix ''0x'' input of
        Some rest \<Rightarrow>
          (case unhex rest of Some bytes \<Rightarrow> Inr (input_binary bytes) | None \<Rightarrow> Inl (value_err input NotHexPairs))
      | None \<Rightarrow>
      (case Option.bind (strip_suffix ''n'' input) bigint_encode of
        Some bytes \<Rightarrow> Inr (ContentInput PBigInt bytes)
      | None \<Rightarrow>
      (case parse_i64 input of
        Some n \<Rightarrow> Inr (Immediate (VInt n))
      | None \<Rightarrow>
          if is_integer_literal input then Inl (value_err input TooLargeAppendN)
          else (case (if looks_numeric input then parse_f64 input else None) of
                  Some d \<Rightarrow> Inr (Immediate (VDouble d))
                | None \<Rightarrow> Inr (input_string input)))))))"

definition value_as ::
  "value_type \<Rightarrow> string \<Rightarrow> branch_id \<Rightarrow> allocator_id \<Rightarrow> parse_error + value_input" where
  "value_as ty input b a =
     (if input = ''~'' then Inr (Immediate VTombstone)
      else
        (let wrong = (\<lambda>expected. Inl (value_err input (FieldTakes ty expected))) in
         case ty of
           TString \<Rightarrow> Inr (input_string input)
         | TInt \<Rightarrow>
             (case parse_i64 input of
                Some n \<Rightarrow> Inr (Immediate (VInt n))
              | None \<Rightarrow> if is_integer_literal input then Inl (value_err input TooLargeForInt)
                        else wrong ''a whole number, like `42`'')
         | TDouble \<Rightarrow>
             (case parse_f64 input of
                Some d \<Rightarrow> if is_finite d then Inr (Immediate (VDouble d)) else wrong ''a decimal number, like `1.5`''
              | None \<Rightarrow> wrong ''a decimal number, like `1.5`'')
         | TBool \<Rightarrow>
             (if input = ''true'' then Inr (Immediate (VBool True))
              else if input = ''false'' then Inr (Immediate (VBool False))
              else wrong ''`true` or `false`'')
         | TBinary \<Rightarrow>
             (case Option.bind (strip_prefix ''0x'' input) unhex of
                Some bytes \<Rightarrow> Inr (input_binary bytes)
              | None \<Rightarrow> wrong ''`0x` and an even-length run of hex digits'')
         | TBigInt \<Rightarrow>
             (case bigint_encode (case strip_suffix ''n'' input of Some s \<Rightarrow> s | None \<Rightarrow> input) of
                Some bytes \<Rightarrow> Inr (ContentInput PBigInt bytes)
              | None \<Rightarrow> wrong ''decimal digits, like `-129` or `-129n`'')
         | TObject _ \<Rightarrow>
             (case strip_prefix ''@'' input of
                None \<Rightarrow> wrong ''a reference, like `@o-1234abcd`''
              | Some target \<Rightarrow> parse_reference target input b a)
         | TList _ \<Rightarrow>
             (case strip_prefix ''@'' input of
                None \<Rightarrow> wrong ''a reference, like `@o-1234abcd`''
              | Some target \<Rightarrow> parse_reference target input b a)
         | _ \<Rightarrow> parse_value input b a))"

text \<open>\<open>None\<close> is a panic of the PID's rendering.\<close>

definition render_value :: "val \<Rightarrow> string option" where
  "render_value v =
     (case v of
        VInt n \<Rightarrow> Some (show_i64 n)
      | VDouble d \<Rightarrow> Some (show_f64 d)
      | VBool True \<Rightarrow> Some ''true''
      | VBool False \<Rightarrow> Some ''false''
      | VTombstone \<Rightarrow> Some ''~''
      | VRef p \<Rightarrow> map_option (\<lambda>t. CHR ''@'' # t) (display_pid p))"

section \<open>Facts\<close>

lemma strip_prefix_hit [simp]: "strip_prefix pre (pre @ s) = Some s"
  by (simp add: strip_prefix_def)

lemma strip_prefix_char [simp]:
  "strip_prefix [c] (d # s) = (if c = d then Some s else None)" "strip_prefix [c] [] = None"
  by (auto simp: strip_prefix_def)

lemma show_i64_not_tilde: "show_i64 n \<noteq> ''~''"
proof
  assume t: "show_i64 n = ''~''"
  have "list_all is_digit ''~''" if "show_nat k = ''~''" for k using show_nat_digits[of k] that by simp
  with t show False by (auto simp: show_i64_def split: if_splits)
qed

lemma show_f64_not_tilde: "is_finite d \<Longrightarrow> show_f64 d \<noteq> ''~''"
  using f64_text_roundtrip[of d] by (auto simp: parse_f64_def parse_number_def inf_nan_def to_ascii_lowercase_def parse_exponent_def)

lemma reference_rendered:
  assumes "wf_pid p" and "display_pid p = Some t"
  shows "parse_reference t input b a = Inr (Immediate (VRef p))"
  using pid.parse_render[OF assms] by (simp add: parse_reference_def)

lemma strip_prefix_iff: "strip_prefix pre s = Some t \<longleftrightarrow> s = pre @ t"
  by (auto simp: strip_prefix_def) (metis append_take_drop_id)

lemma strip_prefix_None: "strip_prefix pre s = None \<longleftrightarrow> (\<forall>t. s \<noteq> pre @ t)"
  by (metis strip_prefix_iff not_Some_eq)

lemma integer_literal_head: "is_integer_literal (c # t) \<Longrightarrow> is_digit c \<or> c = CHR ''+'' \<or> c = CHR ''-''"
  by (auto simp: is_integer_literal_def split: if_splits)

lemma integer_literal_plain:
  "is_integer_literal s \<Longrightarrow> s \<noteq> ''true'' \<and> s \<noteq> ''false'' \<and> s \<noteq> ''~'' \<and> strip_prefix ''@'' s = None \<and>
     strip_prefix ''0x'' s = None \<and> strip_suffix ''n'' s = None"
proof -
  assume l: "is_integer_literal s"
  have mem: "is_digit c \<or> c = CHR ''+'' \<or> c = CHR ''-''" if "c \<in> set s" for c
    using l that by (cases s) (auto simp: is_integer_literal_def list_all_iff split: if_splits)
  have out: "CHR ''t'' \<notin> set s" "CHR ''f'' \<notin> set s" "CHR ''~'' \<notin> set s" "CHR ''@'' \<notin> set s"
    "CHR ''x'' \<notin> set s" "CHR ''n'' \<notin> set s"
    using mem[of "CHR ''t''"] mem[of "CHR ''f''"] mem[of "CHR ''~''"] mem[of "CHR ''@''"] mem[of "CHR ''x''"]
      mem[of "CHR ''n''"]
    by (auto simp: is_digit_def less_eq_char_def)
  have "strip_suffix ''n'' s = None" using out(6) by (cases "strip_suffix ''n'' s") (auto dest!: strip_suffix_Some)
  moreover have "strip_prefix ''0x'' s = None" using out(5) by (cases "strip_prefix ''0x'' s") (auto simp: strip_prefix_iff)
  moreover have "strip_prefix ''@'' s = None" using out(4) by (cases "strip_prefix ''@'' s") (auto simp: strip_prefix_iff)
  moreover have "s \<noteq> ''true''" using out(1) by auto
  moreover have "s \<noteq> ''false''" using out(2) by auto
  moreover have "s \<noteq> ''~''" using out(3) by auto
  ultimately show ?thesis by blast
qed

lemma show_i64_literal: "is_integer_literal (show_i64 n)"
proof -
  have d: "show_nat k \<noteq> [] \<and> list_all is_digit (show_nat k)" for k by simp
  have "(case show_nat k of c # t \<Rightarrow> if c = CHR ''+'' \<or> c = CHR ''-'' then t else show_nat k | [] \<Rightarrow> show_nat k) = show_nat k" for k
    using show_nat_digits[of k] by (cases "show_nat k") (auto simp: is_digit_def less_eq_char_def)
  then show ?thesis using d by (auto simp: is_integer_literal_def show_i64_def)
qed

lemma parse_value_integer [simp]: "parse_value (show_i64 n) b a = Inr (Immediate (VInt n))"
  using integer_literal_plain[OF show_i64_literal[of n]] by (simp add: parse_value_def)

section \<open>Properties\<close>

text \<open>The values whose text is the value itself at a type. Of doubles a number, and only at \<open>Double\<close>.\<close>

fun readable :: "value_type \<Rightarrow> val \<Rightarrow> bool" where
  "readable ty VTombstone = True"
| "readable TInt (VInt _) = True"
| "readable TBool (VBool _) = True"
| "readable TDouble (VDouble d) = is_finite d"
| "readable TAny (VInt _) = True"
| "readable TAny (VBool _) = True"
| "readable TAnyNumber (VInt _) = True"
| "readable ty (VRef p) =
     (wf_pid p \<and> (case ty of TObject _ \<Rightarrow> True | TList _ \<Rightarrow> True | TAny \<Rightarrow> True | TAnyObject \<Rightarrow> True | TAnyArray \<Rightarrow> True | _ \<Rightarrow> False))"
| "readable _ _ = False"

text \<open>Property C30. A value survives its text when it is read against its declared type: at \<open>Int\<close>, \<open>AnyNumber\<close> and
  \<open>Any\<close> an integer, at \<open>Double\<close> a finite double, at \<open>Bool\<close> and \<open>Any\<close> a boolean, at an object type, a list
  type, \<open>AnyObject\<close>, \<open>AnyArray\<close> and \<open>Any\<close> a reference, and at any type the tombstone render to a text that
  \<open>value_as\<close> parses back to exactly the value. Not covered are strings, binary and big integers, whose content
  is interned; doubles that are no finite number, whose text \<open>Double\<close> refuses; and doubles at \<open>AnyNumber\<close> and
  \<open>Any\<close>, where the text of a whole number reads back as an integer (\<open>doubles_need_their_type\<close>).\<close>

theorem typed_text_roundtrip:
  assumes "readable ty v"
  shows "\<exists>t. render_value v = Some t \<and> value_as ty t b a = Inr (Immediate v)"
proof (cases v)
  case (VInt n)
  then show ?thesis using assms show_i64_not_tilde by (cases ty) (simp_all add: render_value_def value_as_def)
next
  case (VBool x)
  then show ?thesis using assms by (cases ty; cases x) (simp_all add: render_value_def value_as_def parse_value_def)
next
  case (VDouble d)
  then show ?thesis
    using assms show_f64_not_tilde[of d] f64_text_roundtrip[of d]
    by (cases ty) (simp_all add: render_value_def value_as_def)
next
  case (VRef p)
  then have wf: "wf_pid p" using assms by (cases ty) simp_all
  then obtain t where t: "display_pid p = Some t" using pid.render_total by blast
  show ?thesis
    using assms VRef t reference_rendered[OF wf t] by (cases ty) (simp_all add: render_value_def value_as_def parse_value_def)
next
  case VTombstone
  then show ?thesis by (simp add: render_value_def value_as_def)
qed

theorem typed_text_roundtrip_witness:
  "\<exists>t. render_value (VInt (- 5)) = Some t \<and> value_as TInt t 0 0 = Inr (Immediate (VInt (- 5)))"
  by (rule typed_text_roundtrip) simp

text \<open>Where the round trip ends: zero at \<open>Any\<close>, and infinity at \<open>Double\<close>.\<close>

lemma doubles_need_their_type:
  "render_value (VDouble 0) = Some ''0''" "value_as TAny ''0'' b a = Inr (Immediate (VInt 0))"
  "value_as TAnyNumber ''0'' b a = Inr (Immediate (VInt 0))"
  "\<exists>err. value_as TDouble ''inf'' b a = Inl err"
proof -
  have zero: "show_nat 0 = ''0''" by (subst show_nat.simps) (simp add: char_of_def bit_iff_odd)
  then show "render_value (VDouble 0) = Some ''0''" by (simp add: render_value_def show_f64_def show_mag_def)
  have "show_i64 0 = ''0''" using zero by (simp add: show_i64_def)
  from parse_value_integer[of 0 b a, unfolded this]
  show "value_as TAny ''0'' b a = Inr (Immediate (VInt 0))" "value_as TAnyNumber ''0'' b a = Inr (Immediate (VInt 0))"
    by (simp_all add: value_as_def)
  show "\<exists>err. value_as TDouble ''inf'' b a = Inl err"
  proof -
    have "parse_number ''inf'' = None" by (simp add: parse_number_def Let_def is_digit_def less_eq_char_def)
    moreover have "inf_nan ''inf'' = Some INFINITE" by (simp add: inf_nan_def to_ascii_lowercase_def less_eq_char_def)
    ultimately have "parse_f64 ''inf'' = Some (of_nat INFINITE)" by (simp add: parse_f64_def Let_def with_sign_def)
    moreover have "\<not> is_finite (of_nat INFINITE)" by (simp add: is_finite_def INFINITE_def SIGN_BIT_def)
    ultimately show ?thesis by (simp add: value_as_def)
  qed
qed

text \<open>What the untyped parse refuses.\<close>

definition bad_reference :: "string \<Rightarrow> branch_id \<Rightarrow> allocator_id \<Rightarrow> bool" where
  "bad_reference input b a \<longleftrightarrow>
     (\<exists>target. input = CHR ''@'' # target \<and> (\<exists>e. pid_from_str target = Inl e) \<and> (\<exists>e. parse_cell_ref target b a = Inl e))"

definition bad_hex :: "string \<Rightarrow> bool" where
  "bad_hex input \<longleftrightarrow> (\<exists>rest. input = ''0x'' @ rest \<and> unhex rest = None)"

definition too_large :: "string \<Rightarrow> bool" where
  "too_large input \<longleftrightarrow> is_integer_literal input \<and> parse_i64 input = None"

text \<open>The untyped parse refuses exactly three kinds of input: an \<open>@\<close> that introduces
  neither a PID nor a cell address, a \<open>0x\<close> without whole octets, and an integer literal beyond
  \<open>i64\<close>; every other input is some value, although the documentation says it cannot fail at all.\<close>

theorem untyped_parse_refuses_only:
  "(\<exists>err. parse_value input b a = Inl err) \<longleftrightarrow> bad_reference input b a \<or> bad_hex input \<or> too_large input"
proof (cases "input \<in> {''true'', ''false'', ''~''}")
  case True
  then have "\<not> bad_reference input b a" "\<not> bad_hex input" "\<not> too_large input"
    using integer_literal_plain[of input] by (auto simp: bad_reference_def bad_hex_def too_large_def)
  then show ?thesis using True by (auto simp: parse_value_def)
next
  case False
  show ?thesis
  proof (cases "strip_prefix ''@'' input")
    case (Some target)
    then have i: "input = CHR ''@'' # target" by (simp add: strip_prefix_iff)
    have "\<not> bad_hex input" "\<not> too_large input"
      using integer_literal_plain[of input] Some by (auto simp: bad_hex_def too_large_def i)
    then show ?thesis
      using False Some by (auto simp: parse_value_def parse_reference_def bad_reference_def i split: sum.splits)
  next
    case at: None
    then have nr: "\<not> bad_reference input b a" by (auto simp: bad_reference_def)
    show ?thesis
    proof (cases "strip_prefix ''0x'' input")
      case (Some rest)
      then have i: "input = ''0x'' @ rest" by (simp add: strip_prefix_iff)
      have "\<not> too_large input" using integer_literal_plain[of input] Some by (auto simp: too_large_def)
      moreover have "bad_hex input \<longleftrightarrow> unhex rest = None" by (auto simp: bad_hex_def i)
      ultimately show ?thesis using False at Some nr by (simp add: parse_value_def split: option.split)
    next
      case None
      then have nh: "\<not> bad_hex input" by (auto simp: bad_hex_def strip_prefix_None)
      have big: "Option.bind (strip_suffix ''n'' input) bigint_encode = None" if "is_integer_literal input"
        using integer_literal_plain[OF that] by simp
      show ?thesis
        using False at None nr nh big by (auto simp: parse_value_def too_large_def split: option.splits if_splits)
    qed
  qed
qed

text \<open>The guard of the untyped parse keeps the words \<open>inf\<close> and \<open>nan\<close> strings, but not an overflow: a
  decimal beyond every double becomes the infinite double, whose own text reads back as a string.\<close>

lemma overflow_becomes_infinite:
  "parse_value ''1e309'' b a = Inr (Immediate (VDouble (of_nat INFINITE)))"
  "render_value (VDouble (of_nat INFINITE)) = Some ''inf''"
  "parse_value ''inf'' b a = Inr (input_string ''inf'')"
proof -
  have len: "bit_len (10 ^ 309) = 1027" "bit_len (Suc 0) = 1" by (rule bit_len_eq; simp)+
  have "ulp_exp (10 ^ 309) (Suc 0) = 974" unfolding ulp_exp_def len by (simp add: scaled_def)
  then have d: "decimal_bits (Suc 0) 309 = INFINITE"
    by (simp add: decimal_bits_def mag_bits_def scaled_def INFINITE_def round_half_even_def)
  have e: "exponent_val ''309'' = 309" by (simp add: exponent_val_def digit_val_def)
  have "parse_number ''1e309'' = Some (1, 309)"
    by (simp add: parse_number_def parse_exponent_def all_digits_def is_digit_def less_eq_char_def digits_val_def
        digit_val_def e)
  then show "parse_value ''1e309'' b a = Inr (Immediate (VDouble (of_nat INFINITE)))"
    by (simp add: parse_value_def strip_prefix_def strip_suffix_def parse_i64_def all_digits_def is_integer_literal_def
        looks_numeric_def is_digit_def less_eq_char_def parse_f64_def with_sign_def d)
  have "unat (of_nat INFINITE AND NOT SIGN_BIT :: u64) = INFINITE" "(of_nat INFINITE :: u64) AND SIGN_BIT = 0"
    by (simp_all add: INFINITE_def SIGN_BIT_def)
  then show "render_value (VDouble (of_nat INFINITE)) = Some ''inf''"
    by (simp add: render_value_def show_f64_def show_mag_def) (simp add: INFINITE_def)
  show "parse_value ''inf'' b a = Inr (input_string ''inf'')"
    by (simp add: parse_value_def strip_prefix_def strip_suffix_def parse_i64_def all_digits_def is_integer_literal_def
        looks_numeric_def is_digit_def less_eq_char_def)
qed

end
