(* ===== verification/Write_Session.thy ===== *)
theory Write_Session
  imports Def_Registry Value_Text
begin

text \<open>
  \<^verbatim>\<open>borg-engine/src/write.rs\<close> and \<^verbatim>\<open>values.rs\<close>: the one door to writing a cell. A session holds the
  writer's own definitions, the branch's, the ancestry its probes read through and an open layer;
  every setter funnels into \<open>ws_put\<close>, which asks the definitions before it writes. A method that
  mutates the session and the store returns its result with the next session and the next manager.
  The hash of content addresses is a parameter, as in \<open>intern\<close>.
\<close>

section \<open>Values (values.rs)\<close>

definition intern_value ::
  "(u8 list \<Rightarrow> u8 list) \<Rightarrow> value_input \<Rightarrow> manager \<Rightarrow> val result \<times> manager" where
  "intern_value hash input m =
     (case input of
        Immediate v \<Rightarrow> (Inr v, m)
      | ContentInput kind bytes \<Rightarrow>
          (case on_db (intern hash kind bytes) m of
             (Inl err, m) \<Rightarrow> (Inl err, m)
           | (Inr p, m) \<Rightarrow> (Inr (VRef p), m)))"

definition content_pid_of :: "val \<Rightarrow> pid option" where
  "content_pid_of v =
     (case as_ref_pid v of None \<Rightarrow> None | Some p \<Rightarrow> if is_content_addressed (pid_kind_of p) then Some p else None)"

definition text_result :: "string option \<Rightarrow> string result" where
  "text_result t = (case t of None \<Rightarrow> Inl (RustPanic ''a PID does not render'') | Some s \<Rightarrow> Inr s)"

definition render_stored :: "manager \<Rightarrow> val \<Rightarrow> string result" where
  "render_stored m v =
     (case content_pid_of v of
        None \<Rightarrow> text_result (render_value v)
      | Some p \<Rightarrow>
          (case read_interned (mg_db m) p of
             Inl err \<Rightarrow> Inl err
           | Inr None \<Rightarrow> text_result (render_value v)
           | Inr (Some bytes) \<Rightarrow> text_result (render_interned p bytes)))"

section \<open>The session\<close>

definition ALLOCATOR :: allocator_id where
  "ALLOCATOR = 0"

record write_session =
  ws_defs :: def_view
  ws_authority :: def_view
  ws_path :: read_path
  ws_writer :: writer
  ws_handle :: handle
  ws_touched :: "cell_ref set"
  ws_observed :: "cell_at list"
  ws_authored :: "cell_ref list"

definition open_on ::
  "branch_id \<Rightarrow> branch_id \<Rightarrow> client_version \<Rightarrow> writer \<Rightarrow> layer_author \<Rightarrow> manager \<Rightarrow>
   write_session result \<times> manager" where
  "open_on b definitions version w author m =
     (case lm_read_path m b None of
        Inl err \<Rightarrow> (Inl err, m)
      | Inr path \<Rightarrow>
          (case lm_read_path m definitions None of
             Inl err \<Rightarrow> (Inl err, m)
           | Inr dpath \<Rightarrow>
               (case view m dpath of
                  Inl err \<Rightarrow> (Inl err, m)
                | Inr authority \<Rightarrow>
                    (case view_at m dpath (case version of ClientVersion l \<Rightarrow> l) of
                       Inl err \<Rightarrow> (Inl err, m)
                     | Inr own \<Rightarrow>
                         (case lm_open b LKValue author m of
                            (Inl err, m) \<Rightarrow> (Inl err, m)
                          | (Inr h, m) \<Rightarrow>
                              (Inr \<lparr>ws_defs = own, ws_authority = authority, ws_path = path, ws_writer = w,
                                    ws_handle = h, ws_touched = {}, ws_observed = [], ws_authored = []\<rparr>, m))))))"

definition open_session ::
  "branch_id \<Rightarrow> client_version \<Rightarrow> writer \<Rightarrow> layer_author \<Rightarrow> manager \<Rightarrow> write_session result \<times> manager" where
  "open_session b = open_on b b"

definition ws_layer :: "write_session \<Rightarrow> layer_id" where
  "ws_layer ws = lh_id (ws_handle ws)"

definition ws_guard :: "guard \<Rightarrow> write_session \<Rightarrow> write_session" where
  "ws_guard g ws = ws\<lparr>ws_handle := add_guard g (ws_handle ws)\<rparr>"

definition declared_type :: "write_session \<Rightarrow> cell_ref \<Rightarrow> value_type option" where
  "declared_type ws cell =
     (case cr_buffer cell of
        BObject _ \<Rightarrow> Some TBool
      | _ \<Rightarrow> map_option fd_ty (def_field (ws_defs ws) cell))"

text \<open>The root of the ancestry; \<open>None\<close> is the panic of \<open>segments[0]\<close> on an empty path.\<close>

definition shorthand_branch :: "write_session \<Rightarrow> branch_id option" where
  "shorthand_branch ws = (case rev (ws_path ws) of [] \<Rightarrow> None | (b, _) # _ \<Rightarrow> Some b)"

definition ws_parse ::
  "(u8 list \<Rightarrow> u8 list) \<Rightarrow> cell_ref \<Rightarrow> string \<Rightarrow> write_session \<Rightarrow> manager \<Rightarrow> val result \<times> manager" where
  "ws_parse hash cell text ws m =
     (case shorthand_branch ws of
        None \<Rightarrow> (Inl (RustPanic ''index out of bounds''), m)
      | Some b \<Rightarrow>
          (case (case declared_type ws cell of
                   Some ty \<Rightarrow> value_as ty text b ALLOCATOR
                 | None \<Rightarrow> parse_value text b ALLOCATOR) of
             Inl err \<Rightarrow> (Inl (ParseFailed err), m)
           | Inr input \<Rightarrow> intern_value hash input m))"

section \<open>Writing\<close>

definition existence_draft :: "def_version \<Rightarrow> writer \<Rightarrow> event_draft" where
  "existence_draft version w =
     \<lparr>ed_value = VBool True, ed_version = version, ed_origin = writer_origin w, ed_derivation = None\<rparr>"

definition imply_existence :: "cell_ref \<Rightarrow> write_session \<Rightarrow> manager \<Rightarrow> unit result \<times> write_session \<times> manager" where
  "imply_existence cell ws m =
     (if ws_writer ws \<noteq> WClient then (Inr (), ws, m)
      else
        (let existence = existence_of cell;
             seen = existence \<in> ws_touched ws;
             ws = ws\<lparr>ws_touched := insert existence (ws_touched ws)\<rparr>
         in if seen \<or> existence = cell then (Inr (), ws, m)
            else
              (let version = version_of (ws_defs ws) existence;
                   ws = ws\<lparr>ws_observed := ws_observed ws @ [CellAt existence version]\<rparr>
               in case get_cell (mg_db m) (ws_path ws) existence version of
                    Inl err \<Rightarrow> (Inl err, ws, m)
                  | Inr (Some _) \<Rightarrow> (Inr (), ws, m)
                  | Inr None \<Rightarrow>
                      (case lm_put (ws_handle ws) existence (existence_draft version (ws_writer ws)) m of
                         (Inl err, m) \<Rightarrow> (Inl err, ws, m)
                       | (Inr _, m) \<Rightarrow> (Inr (), ws\<lparr>ws_authored := ws_authored ws @ [existence]\<rparr>, m)))))"

definition write_draft :: "write_session \<Rightarrow> cell_ref \<Rightarrow> val \<Rightarrow> derivation option \<Rightarrow> event_draft" where
  "write_draft ws cell value by =
     \<lparr>ed_value = value, ed_version = version_of (ws_defs ws) cell, ed_origin = writer_origin (ws_writer ws),
      ed_derivation = by\<rparr>"

definition ws_put ::
  "cell_ref \<Rightarrow> val \<Rightarrow> derivation option \<Rightarrow> write_session \<Rightarrow> manager \<Rightarrow> unit result \<times> write_session \<times> manager" where
  "ws_put cell value by ws m =
     (case check_write (ws_defs ws) cell value (ws_writer ws) (ws_authority ws) of
        Inl err \<Rightarrow> (Inl err, ws, m)
      | Inr _ \<Rightarrow>
          (case imply_existence cell ws m of
             (Inl err, ws, m) \<Rightarrow> (Inl err, ws, m)
           | (Inr _, ws, m) \<Rightarrow>
               (case lm_put (ws_handle ws) cell (write_draft ws cell value by) m of
                  (Inl err, m) \<Rightarrow> (Inl err, ws, m)
                | (Inr _, m) \<Rightarrow>
                    (Inr (), if ws_writer ws = WClient then ws\<lparr>ws_authored := ws_authored ws @ [cell]\<rparr> else ws, m))))"

definition ws_set :: "cell_ref \<Rightarrow> val \<Rightarrow> write_session \<Rightarrow> manager \<Rightarrow> unit result \<times> write_session \<times> manager" where
  "ws_set cell value = ws_put cell value None"

definition set_derived ::
  "cell_ref \<Rightarrow> val \<Rightarrow> derivation \<Rightarrow> write_session \<Rightarrow> manager \<Rightarrow> unit result \<times> write_session \<times> manager" where
  "set_derived cell value by = ws_put cell value (Some by)"

definition put_text ::
  "(u8 list \<Rightarrow> u8 list) \<Rightarrow> cell_ref \<Rightarrow> string \<Rightarrow> derivation option \<Rightarrow> write_session \<Rightarrow> manager \<Rightarrow>
   unit result \<times> write_session \<times> manager" where
  "put_text hash cell text by ws m =
     (case ws_parse hash cell text ws m of
        (Inl err, m) \<Rightarrow> (Inl err, ws, m)
      | (Inr value, m) \<Rightarrow> ws_put cell value by ws m)"

definition set_text ::
  "(u8 list \<Rightarrow> u8 list) \<Rightarrow> cell_ref \<Rightarrow> string \<Rightarrow> write_session \<Rightarrow> manager \<Rightarrow> unit result \<times> write_session \<times> manager" where
  "set_text hash cell text = put_text hash cell text None"

definition set_text_derived ::
  "(u8 list \<Rightarrow> u8 list) \<Rightarrow> cell_ref \<Rightarrow> string \<Rightarrow> derivation \<Rightarrow> write_session \<Rightarrow> manager \<Rightarrow>
   unit result \<times> write_session \<times> manager" where
  "set_text_derived hash cell text by = put_text hash cell text (Some by)"

definition ws_commit :: "write_session \<Rightarrow> manager \<Rightarrow> layer_id result \<times> manager" where
  "ws_commit ws = lm_commit (ws_handle ws)"

definition ws_abort :: "write_session \<Rightarrow> manager \<Rightarrow> unit result \<times> manager" where
  "ws_abort ws = lm_abort (ws_handle ws)"

section \<open>What a session keeps\<close>

text \<open>The session's layer is open and its handle is the manager's.\<close>

definition session_open :: "write_session \<Rightarrow> manager \<Rightarrow> bool" where
  "session_open ws m \<longleftrightarrow> mg_inv m \<and> handle_ok m (ws_handle ws) \<and>
     (\<exists>layer. hm_get (mg_layers m) (ws_layer ws) = Some layer \<and> ly_state layer = LOpen)"

text \<open>The events a session has authored so far, in its layer's staging area.\<close>

definition drafted :: "write_session \<Rightarrow> manager \<Rightarrow> event list" where
  "drafted ws m = (case hm_get (in_staged (mg_db m)) (ws_layer ws) of None \<Rightarrow> [] | Some s \<Rightarrow> sl_authored s)"

definition named :: "write_session \<Rightarrow> manager \<Rightarrow> event_id list" where
  "named ws m = (case hm_get (in_staged (mg_db m)) (ws_layer ws) of None \<Rightarrow> [] | Some s \<Rightarrow> sl_members s)"

lemma open_staged_session:
  assumes "session_open ws m"
  obtains s where "hm_get (in_staged (mg_db m)) (ws_layer ws) = Some s" "\<not> sl_sealed s" "drafted ws m = sl_authored s"
    "named ws m = sl_members s"
  using assms open_staged[of m "ws_layer ws"] by (auto simp: session_open_def drafted_def named_def)

lemma lm_put_open:
  assumes "session_open ws m" and "in_next_event (mg_db m) \<noteq> - 1"
  obtains e n where "lm_put (ws_handle ws) cell draft m = (Inr e, n)" "session_open ws n"
    "drafted ws n = drafted ws m @ [draft_event e cell draft (ws_layer ws)]"
    "named ws n = named ws m @ [e]"
    "same_log (mg_db m) (mg_db n)" "in_next_event (mg_db n) = in_next_event (mg_db m) + 1"
    "mg_layers n = mg_layers m"
proof -
  obtain s where s: "hm_get (in_staged (mg_db m)) (ws_layer ws) = Some s" "\<not> sl_sealed s" "drafted ws m = sl_authored s"
    "named ws m = sl_members s"
    by (rule open_staged_session[OF assms(1)])
  let ?e = "in_next_event (mg_db m) + 1"
  let ?s = "s\<lparr>sl_members := sl_members s @ [?e], sl_authored := sl_authored s @ [draft_event ?e cell draft (ws_layer ws)]\<rparr>"
  let ?n = "m\<lparr>mg_db := put_staged (ws_layer ws) ?s ((mg_db m)\<lparr>in_next_event := ?e\<rparr>)\<rparr>"
  have p: "lm_put (ws_handle ws) cell draft m = (Inr ?e, ?n)"
    using assms(2) s by (simp add: lm_put_def on_db_def author_event_def mint_def staged_def flip: ws_layer_def)
  have "mg_inv ?n" using mg_inv_put[of m "ws_handle ws" cell draft] assms(1) p by (simp add: session_open_def)
  then have "session_open ws ?n" using assms(1) by (simp add: session_open_def handle_ok_def)
  moreover have "same_log (mg_db m) (mg_db ?n)"
    using staged_ops_log(1)[of "mg_db m" "ws_layer ws" cell draft] assms(2) s
    by (simp add: author_event_def mint_def staged_def)
  ultimately show ?thesis by (intro that[OF p]) (simp_all add: drafted_def named_def s put_staged_def)
qed

end
