(* ===== verification/Session_Properties.thy ===== *)
theory Session_Properties
  imports Write_Session
begin

text \<open>
  What the write path of \<open>Write_Session\<close> guarantees: a refused write changes nothing, an accepted
  one is drafted at the version the writer's view names, every event of a session is well typed
  and permitted, and an object's existence is probed before it is implied and at most once.
\<close>

section \<open>One write into an open layer\<close>

lemma lm_put_cases:
  assumes "session_open ws m"
  obtains (Put) e n where "lm_put (ws_handle ws) cell draft m = (Inr e, n)" "session_open ws n"
      "drafted ws n = drafted ws m @ [draft_event e cell draft (ws_layer ws)]"
      "named ws n = named ws m @ [e]"
      "same_log (mg_db m) (mg_db n)" "in_next_event (mg_db n) = in_next_event (mg_db m) + 1"
      "mg_layers n = mg_layers m"
  | (Exhausted) "lm_put (ws_handle ws) cell draft m = (Inl (RustPanic ''attempt to add with overflow''), m)"
      "in_next_event (mg_db m) = - 1"
proof (cases "in_next_event (mg_db m) = - 1")
  case True
  then show ?thesis by (intro Exhausted) (simp_all add: lm_put_def on_db_def author_event_def mint_def)
next
  case False
  show ?thesis by (rule lm_put_open[OF assms False]) (rule Put)
qed

lemma session_open_cong [simp]:
  "session_open (ws\<lparr>ws_touched := t\<rparr>) m = session_open ws m"
  "session_open (ws\<lparr>ws_observed := obs\<rparr>) m = session_open ws m"
  "session_open (ws\<lparr>ws_authored := auth\<rparr>) m = session_open ws m"
  "drafted (ws\<lparr>ws_touched := t\<rparr>) m = drafted ws m"
  "drafted (ws\<lparr>ws_observed := obs\<rparr>) m = drafted ws m"
  "drafted (ws\<lparr>ws_authored := auth\<rparr>) m = drafted ws m"
  "named (ws\<lparr>ws_touched := t\<rparr>) m = named ws m"
  "named (ws\<lparr>ws_observed := obs\<rparr>) m = named ws m"
  "named (ws\<lparr>ws_authored := auth\<rparr>) m = named ws m"
  by (simp_all add: session_open_def drafted_def named_def ws_layer_def)

text \<open>What a write of this session may draft.\<close>

definition legal_event :: "write_session \<Rightarrow> event \<Rightarrow> bool" where
  "legal_event ws ev \<longleftrightarrow>
     write_allowed (ws_defs ws) (ev_cell ev) (ev_value ev) (ws_writer ws) (ws_authority ws) \<and>
     ev_version ev = version_of (ws_defs ws) (ev_cell ev) \<and> ev_origin ev = writer_origin (ws_writer ws) \<and>
     ev_authored ev = ws_layer ws"

definition session_inv :: "write_session \<Rightarrow> manager \<Rightarrow> bool" where
  "session_inv ws m \<longleftrightarrow> session_open ws m \<and> named ws m = map ev_id (drafted ws m) \<and> (\<forall>ev \<in> set (drafted ws m). legal_event ws ev) \<and>
     (if ws_writer ws = WClient
      then map ev_cell (drafted ws m) = ws_authored ws \<and>
           existence_of ` set (ws_authored ws) \<subseteq> ws_touched ws \<and>
           ca_cell ` set (ws_observed ws) \<subseteq> ws_touched ws \<and> distinct (map ca_cell (ws_observed ws))
      else ws_observed ws = [] \<and> ws_authored ws = [])"

text \<open>The parts of a session that no write changes.\<close>

definition same_session :: "write_session \<Rightarrow> write_session \<Rightarrow> bool" where
  "same_session ws ws' \<longleftrightarrow> ws_defs ws' = ws_defs ws \<and> ws_authority ws' = ws_authority ws \<and>
     ws_path ws' = ws_path ws \<and> ws_writer ws' = ws_writer ws \<and> ws_handle ws' = ws_handle ws"

lemma legal_event_same: "same_session ws ws' \<Longrightarrow> legal_event ws' = legal_event ws"
  by (auto simp: same_session_def legal_event_def ws_layer_def fun_eq_iff)

lemma existence_allowed:
  assumes "write_allowed v cell value WClient authority" and "existence_of cell \<noteq> cell"
  shows "write_allowed v (existence_of cell) (VBool True) WClient authority"
proof -
  obtain s f where b: "cr_buffer cell = BObjectProp s f"
    using assms(2) by (auto simp: existence_of_def split: buffer_id.splits)
  then show ?thesis
    using assms(1) by (auto simp: write_allowed_def existence_of_def cell_existence_def field_at_def accepts_def
        is_tombstone_def split: option.splits)
qed

lemma imply_existence_outcome:
  assumes inv: "session_inv ws m" and out: "imply_existence cell ws m = (r, ws', m')"
    and legal: "write_allowed (ws_defs ws) cell value (ws_writer ws) (ws_authority ws)"
  shows "session_inv ws' m' \<and> same_session ws ws' \<and> same_log (mg_db m) (mg_db m') \<and>
    (\<exists>implied. drafted ws' m' = drafted ws m @ implied \<and> (\<forall>ev \<in> set implied. ev_cell ev = existence_of cell)) \<and>
    (ws_observed ws' = ws_observed ws \<or>
       ws_observed ws' = ws_observed ws @ [CellAt (existence_of cell) (version_of (ws_defs ws) (existence_of cell))] \<and>
       existence_of cell \<notin> set (ws_authored ws)) \<and>
    (r = Inr () \<longrightarrow> ws_writer ws = WClient \<longrightarrow> existence_of cell \<in> ws_touched ws')"
proof (cases "ws_writer ws = WClient")
  case False
  then show ?thesis using inv out by (auto simp: imply_existence_def same_session_def same_log_def)
next
  case client: True
  let ?x = "existence_of cell" and ?v = "version_of (ws_defs ws) (existence_of cell)"
  let ?t = "ws\<lparr>ws_touched := insert ?x (ws_touched ws)\<rparr>"
  let ?o = "?t\<lparr>ws_observed := ws_observed ws @ [CellAt ?x ?v]\<rparr>"
  have invt: "session_inv ?t m"
    using inv client by (auto simp: session_inv_def legal_event_same[of ws ?t] same_session_def)
  show ?thesis
  proof (cases "?x \<in> ws_touched ws \<or> ?x = cell")
    case True
    then have "r = Inr ()" "ws' = ?t" "m' = m"
      using out client by (auto simp: imply_existence_def Let_def)
    then show ?thesis using invt by (auto simp: same_session_def same_log_def)
  next
    case False
    have fresh: "?x \<notin> set (ws_authored ws)" "?x \<notin> ca_cell ` set (ws_observed ws)"
      using inv client False by (force simp: session_inv_def)+
    have invo: "session_inv ?o m"
      using invt inv client fresh(2) by (auto simp: session_inv_def legal_event_same[of ws ?o] same_session_def)
    have opn: "session_open ?o m" using invo by (simp add: session_inv_def)
    note step = out[unfolded imply_existence_def Let_def, simplified client False, simplified]
    show ?thesis
    proof (cases "get_cell (mg_db m) (ws_path ws) ?x ?v")
      case (Inl err)
      then show ?thesis using step invo fresh(1) by (auto simp: same_session_def same_log_def)
    next
      case (Inr found)
      show ?thesis
      proof (cases found)
        case (Some ld)
        then show ?thesis using step Inr invo fresh(1) by (auto simp: same_session_def same_log_def)
      next
        case None
        from opn show ?thesis
        proof (cases rule: lm_put_cases[where cell = ?x and draft = "existence_draft ?v WClient"])
          case (Put e n)
          let ?ev = "draft_event e ?x (existence_draft ?v WClient) (ws_layer ws)"
          let ?a = "?o\<lparr>ws_authored := ws_authored ws @ [?x]\<rparr>"
          have res: "r = Inr ()" "ws' = ?a" "m' = n"
            using step Inr None Put(1) client by auto
          have same: "same_session ws ?a" by (simp add: same_session_def)
          have "legal_event ws ?ev"
            using existence_allowed[of "ws_defs ws" cell "value" "ws_authority ws"] legal client False
            by (simp add: legal_event_def draft_event_def existence_draft_def)
          moreover have "drafted ?a n = drafted ws m @ [?ev]" using Put(3) by (simp add: ws_layer_def)
          moreover have "map ev_cell (drafted ws m) = ws_authored ws"
            "\<forall>ev \<in> set (drafted ws m). legal_event ws ev" using inv client by (auto simp: session_inv_def)
          ultimately have "session_inv ?a n"
            using invo Put(2) client legal_event_same[OF same]
            Put(4) by (simp add: session_inv_def ws_layer_def) (auto simp: draft_event_def)
          then show ?thesis
            using res same Put(5) fresh(1) \<open>drafted ?a n = drafted ws m @ [?ev]\<close>
            by (auto simp: draft_event_def)
        next
          case Exhausted
          then show ?thesis
            using step Inr None invo fresh(1) client by (auto simp: same_session_def same_log_def)
        qed
      qed
    qed
  qed
qed

section \<open>A whole write\<close>

lemma ws_put_refused:
  assumes "\<not> write_allowed (ws_defs ws) cell value (ws_writer ws) (ws_authority ws)"
  shows "\<exists>why. ws_put cell value by ws m = (Inl (WriteRejected why), ws, m)"
proof -
  have "check_write (ws_defs ws) cell value (ws_writer ws) (ws_authority ws) \<noteq> Inr ()"
    using assms by (simp add: check_write_iff)
  then have "\<exists>why. check_write (ws_defs ws) cell value (ws_writer ws) (ws_authority ws) = Inl (WriteRejected why)"
    by (cases "cr_buffer cell")
      (auto simp: check_write_def check_ownership_def Let_def split: option.splits if_splits)
  then show ?thesis by (auto simp: ws_put_def)
qed

lemma ws_put_outcome:
  assumes inv: "session_inv ws m" and out: "ws_put cell value by ws m = (r, ws', m')"
  shows "session_inv ws' m' \<and> same_session ws ws' \<and> same_log (mg_db m) (mg_db m') \<and>
    (ws_observed ws' = ws_observed ws \<or>
       ws_observed ws' = ws_observed ws @ [CellAt (existence_of cell) (version_of (ws_defs ws) (existence_of cell))] \<and>
       existence_of cell \<notin> set (ws_authored ws)) \<and>
    (r = Inr () \<longrightarrow> (\<exists>implied e. drafted ws' m' =
       drafted ws m @ implied @ [draft_event e cell (write_draft ws cell value by) (ws_layer ws)] \<and>
       (\<forall>ev \<in> set implied. ev_cell ev = existence_of cell)))"
proof (cases "write_allowed (ws_defs ws) cell value (ws_writer ws) (ws_authority ws)")
  case False
  then obtain why where "ws_put cell value by ws m = (Inl (WriteRejected why), ws, m)"
    using ws_put_refused by blast
  then show ?thesis using out inv by (auto simp: same_session_def same_log_def)
next
  case legal: True
  then have check: "check_write (ws_defs ws) cell value (ws_writer ws) (ws_authority ws) = Inr ()"
    by (simp add: check_write_iff)
  obtain q u n where im: "imply_existence cell ws m = (q, u, n)" by (metis prod_cases3)
  note I = imply_existence_outcome[OF inv im legal]
  then have invu: "session_inv u n" and same: "same_session ws u" and log: "same_log (mg_db m) (mg_db n)"
    and drafts: "\<exists>implied. drafted u n = drafted ws m @ implied \<and> (\<forall>ev \<in> set implied. ev_cell ev = existence_of cell)"
    by blast+
  have eqs: "ws_defs u = ws_defs ws" "ws_writer u = ws_writer ws" "ws_handle u = ws_handle ws" "ws_layer u = ws_layer ws"
    using same by (simp_all add: same_session_def ws_layer_def)
  show ?thesis
  proof (cases q)
    case (Inl err)
    then show ?thesis using out check im I by (auto simp: ws_put_def)
  next
    case (Inr un)
    have opn: "session_open u n" using invu by (simp add: session_inv_def)
    let ?draft = "write_draft u cell value by"
    have draft: "?draft = write_draft ws cell value by" by (simp add: write_draft_def eqs)
    from opn show ?thesis
    proof (cases rule: lm_put_cases[where cell = cell and draft = ?draft])
      case (Put e k)
      let ?ev = "draft_event e cell ?draft (ws_layer u)"
      let ?w = "if ws_writer u = WClient then u\<lparr>ws_authored := ws_authored u @ [cell]\<rparr> else u"
      have res: "r = Inr ()" "ws' = ?w" "m' = k"
        using out check im Inr Put(1) by (auto simp: ws_put_def)
      have same': "same_session u ?w" by (simp add: same_session_def)
      have "legal_event u ?ev"
        using legal by (simp add: legal_event_def draft_event_def write_draft_def eqs) (use same in \<open>simp add: same_session_def\<close>)
      moreover have "existence_of cell \<in> ws_touched u" if "ws_writer u = WClient"
        using I Inr that eqs by simp
      ultimately have "session_inv ?w k"
        using invu Put(2-4) legal_event_same[OF same']
        by (auto simp: session_inv_def ws_layer_def draft_event_def split: if_splits)
      moreover have "same_session ws ?w" using same same' by (auto simp: same_session_def)
      moreover have "same_log (mg_db m) (mg_db k)" using log Put(5) by (simp add: same_log_def)
      moreover have "ws_observed ?w = ws_observed u" "drafted ?w k = drafted u k" by simp_all
      ultimately show ?thesis
        using I drafts Put(3) res by (auto simp: draft eqs)
    next
      case Exhausted
      then show ?thesis using out check im Inr I by (auto simp: ws_put_def)
    qed
  qed
qed

lemma imply_existence_ok:
  assumes inv: "session_inv ws m" and room: "in_next_event (mg_db m) \<noteq> - 1"
  shows "\<exists>u n. imply_existence cell ws m = (Inr (), u, n) \<and>
    (in_next_event (mg_db n) = in_next_event (mg_db m) \<or> in_next_event (mg_db n) = in_next_event (mg_db m) + 1) \<and>
    (ws_writer ws \<noteq> WClient \<longrightarrow> u = ws \<and> n = m)"
proof -
  let ?x = "existence_of cell" and ?v = "version_of (ws_defs ws) (existence_of cell)"
  let ?o = "ws\<lparr>ws_touched := insert ?x (ws_touched ws), ws_observed := ws_observed ws @ [CellAt ?x ?v]\<rparr>"
  have opn: "session_open ?o m" using inv by (simp add: session_inv_def)
  have "mem_inv (mg_db m)" using inv by (auto simp: session_inv_def session_open_def dest: mg_invD(1))
  then obtain found where found: "get_cell (mg_db m) (ws_path ws) ?x ?v = Inr found" using get_cell_total by blast
  show ?thesis
  proof (cases rule: lm_put_open[OF opn room, of ?x "existence_draft ?v (ws_writer ws)"])
    case (1 e n)
    then show ?thesis using found by (auto simp: imply_existence_def Let_def split: option.split)
  qed
qed

lemma ws_put_accepts:
  assumes inv: "session_inv ws m" and legal: "write_allowed (ws_defs ws) cell value (ws_writer ws) (ws_authority ws)"
    and room: "unat (in_next_event (mg_db m)) + 2 < 2 ^ 64"
  shows "fst (ws_put cell value by ws m) = Inr ()"
proof -
  let ?n0 = "in_next_event (mg_db m)"
  have small: "?n0 \<noteq> - 1" "?n0 + 1 \<noteq> - 1"
  proof -
    have u: "unat (?n0 + 1) = unat ?n0 + 1" using room by (simp add: unat_word_ariths)
    have top: "unat (- 1 :: u64) = 2 ^ 64 - 1" by (simp add: unsigned_minus_1_eq_mask mask_eq_exp_minus_1)
    show "?n0 \<noteq> - 1" using top room by auto
    show "?n0 + 1 \<noteq> - 1"
    proof
      assume "?n0 + 1 = - 1"
      then have "unat (?n0 + 1) = unat (- 1 :: u64)" by (rule arg_cong)
      then show False using u top room by simp
    qed
  qed
  obtain u n where im: "imply_existence cell ws m = (Inr (), u, n)"
    "in_next_event (mg_db n) = ?n0 \<or> in_next_event (mg_db n) = ?n0 + 1"
    using imply_existence_ok[OF inv small(1)] by blast
  have "session_open u n" using imply_existence_outcome[OF inv im(1) legal] by (simp add: session_inv_def)
  moreover have "in_next_event (mg_db n) \<noteq> - 1" using im(2) small by auto
  ultimately obtain e k where "lm_put (ws_handle u) cell (write_draft u cell value by) n = (Inr e, k)"
    by (rule lm_put_open) blast
  then show ?thesis using legal im(1) by (simp add: ws_put_def check_write_iff[THEN iffD2])
qed

section \<open>Reachable sessions\<close>

text \<open>A session from its opening on: its own writes and guards, and any step of the rest of the system
  that leaves its layer alone.\<close>

inductive session_run :: "(u8 list \<Rightarrow> u8 list) \<Rightarrow> write_session \<Rightarrow> manager \<Rightarrow> bool" for hash where
  Opened: "mg_reachable m \<Longrightarrow> mg_next m \<noteq> - 1 \<Longrightarrow> open_on b definitions version w author m = (Inr ws, n) \<Longrightarrow>
    session_run hash ws n"
| Put: "session_run hash ws m \<Longrightarrow> ws_put cell value by ws m = (r, ws', m') \<Longrightarrow> session_run hash ws' m'"
| Text: "session_run hash ws m \<Longrightarrow> put_text hash cell text by ws m = (r, ws', m') \<Longrightarrow> session_run hash ws' m'"
| Guard: "session_run hash ws m \<Longrightarrow> session_run hash (ws_guard g ws) m"
| Elsewhere: "session_run hash ws m \<Longrightarrow> mg_inv n \<Longrightarrow>
    hm_get (mg_layers n) (ws_layer ws) = hm_get (mg_layers m) (ws_layer ws) \<Longrightarrow>
    hm_get (in_staged (mg_db n)) (ws_layer ws) = hm_get (in_staged (mg_db m)) (ws_layer ws) \<Longrightarrow>
    session_run hash ws n"

lemma open_on_inv:
  assumes "mg_reachable m" and "mg_next m \<noteq> - 1" and "open_on b definitions version w author m = (Inr ws, n)"
  shows "session_inv ws n"
proof -
  have inv: "mg_inv m" by (rule mg_reachable_inv[OF assms(1)])
  let ?layer = "\<lparr>ly_id = mg_next m, ly_branch = b, ly_kind = LKValue, ly_author = author, ly_state = LOpen,
      ly_parent = lm_head m b, ly_guards = []\<rparr>"
  note o = lm_open_cases[OF inv assms(2) refl refl, of b LKValue author]
  have ws: "ws_handle ws = \<lparr>lh_layer = ?layer\<rparr>" "ws_touched ws = {}" "ws_observed ws = []" "ws_authored ws = []"
    and n: "n = snd (lm_open b LKValue author m)"
    using assms(3) o by (auto simp: open_on_def split: sum.splits)
  have "mg_inv n" unfolding n by (rule mg_inv_open[OF inv assms(2)])
  moreover have "hm_get (mg_layers n) (mg_next m) = Some ?layer"
    "hm_get (in_staged (mg_db n)) (mg_next m) =
       Some \<lparr>sl_branch = b, sl_members = [], sl_authored = [], sl_defs = [], sl_sealed = False\<rparr>"
    unfolding n o by simp_all
  ultimately show ?thesis
    using ws by (simp add: session_inv_def session_open_def handle_ok_def ws_layer_def lh_id_def drafted_def named_def)
qed

lemma session_inv_elsewhere:
  assumes "session_inv ws m" and "mg_inv n"
    and "hm_get (mg_layers n) (ws_layer ws) = hm_get (mg_layers m) (ws_layer ws)"
    and "hm_get (in_staged (mg_db n)) (ws_layer ws) = hm_get (in_staged (mg_db m)) (ws_layer ws)"
  shows "session_inv ws n"
proof -
  have "drafted ws n = drafted ws m" "named ws n = named ws m" using assms(4) by (simp_all add: drafted_def named_def)
  moreover have "session_open ws n"
    using assms by (auto simp: session_inv_def session_open_def handle_ok_def ws_layer_def)
  ultimately show ?thesis using assms(1) by (simp add: session_inv_def)
qed

lemma intern_value_inv:
  assumes "session_inv ws m" and "intern_value hash input m = (r, n)"
  shows "session_inv ws n \<and> same_log (mg_db m) (mg_db n)"
proof (cases input)
  case (ContentInput kind bytes)
  have n: "n = m\<lparr>mg_db := snd (intern hash kind bytes (mg_db m))\<rparr>"
    using assms(2) ContentInput by (auto simp: intern_value_def on_db_def split: prod.splits sum.splits)
  have "mg_inv m" using assms(1) by (simp add: session_inv_def session_open_def)
  then have "mg_inv n" unfolding n by (rule mg_inv_step[OF mg_step.Intern])
  moreover have "in_staged (mg_db n) = in_staged (mg_db m)" by (simp add: n intern_def split: sum.split)
  ultimately show ?thesis
    using session_inv_elsewhere[OF assms(1)] staged_ops_log(10)[of "mg_db m"] by (simp add: n)
qed (use assms in \<open>simp add: intern_value_def same_log_def\<close>)

lemma ws_parse_inv:
  assumes "session_inv ws m" and "ws_parse hash cell text ws m = (r, n)"
  shows "session_inv ws n \<and> same_log (mg_db m) (mg_db n)"
  using assms by (auto simp: ws_parse_def same_log_def split: option.splits sum.splits dest: intern_value_inv)

lemma put_text_outcome:
  assumes "session_inv ws m" and "put_text hash cell text by ws m = (r, ws', m')"
  shows "session_inv ws' m' \<and> same_session ws ws' \<and> same_log (mg_db m) (mg_db m')"
proof -
  obtain q n where p: "ws_parse hash cell text ws m = (q, n)" by fastforce
  note P = ws_parse_inv[OF assms(1) p]
  show ?thesis
  proof (cases q)
    case (Inl err)
    then show ?thesis using assms(2) p P by (auto simp: put_text_def same_session_def)
  next
    case (Inr v)
    then have w: "ws_put cell v by ws n = (r, ws', m')" using assms(2) p by (simp add: put_text_def)
    from P have "session_inv ws n" by simp
    from ws_put_outcome[OF this w] show ?thesis using P by (auto simp: same_log_def)
  qed
qed

lemma session_run_inv: "session_run hash ws m \<Longrightarrow> session_inv ws m"
proof (induction rule: session_run.induct)
  case (Opened m b definitions version w author ws n)
  then show ?case by (rule open_on_inv)
next
  case (Put ws m cell "value" "by" r ws' m')
  then show ?case using ws_put_outcome by blast
next
  case (Text ws m cell "text" "by" r ws' m')
  then show ?case using put_text_outcome by blast
next
  case (Guard ws m g)
  have "legal_event (ws_guard g ws) = legal_event ws" "ws_layer (ws_guard g ws) = ws_layer ws"
    by (auto simp: fun_eq_iff legal_event_def ws_guard_def ws_layer_def add_guard_def lh_id_def)
  moreover from this(2) have "drafted (ws_guard g ws) m = drafted ws m" "named (ws_guard g ws) m = named ws m"
    by (simp_all add: drafted_def named_def)
  moreover have "session_open (ws_guard g ws) m = session_open ws m"
    by (simp add: session_open_def ws_guard_def handle_ok_def add_guard_def lh_id_def ws_layer_def)
  moreover have "ws_writer (ws_guard g ws) = ws_writer ws" "ws_touched (ws_guard g ws) = ws_touched ws"
    "ws_observed (ws_guard g ws) = ws_observed ws" "ws_authored (ws_guard g ws) = ws_authored ws"
    by (simp_all add: ws_guard_def)
  ultimately show ?case using Guard.IH unfolding session_inv_def by presburger
next
  case (Elsewhere ws m n)
  then show ?case by (blast intro: session_inv_elsewhere)
qed

section \<open>What a committed session leaves to read\<close>

definition last_draft :: "event list \<Rightarrow> cell_ref \<Rightarrow> def_version \<Rightarrow> event option" where
  "last_draft evs c v =
     (let hits = filter (\<lambda>ev. ev_cell ev = c \<and> ev_version ev = v) evs in if hits = [] then None else Some (last hits))"

lemma commit_db_events:
  assumes inv: "mem_inv db" and s: "hm_get (in_staged db) (lh_id h) = Some s"
  shows "event_at (in_events (commit_db h s db)) e =
    (case by_id (sl_authored s) e of Some ev \<Rightarrow> Some ev | None \<Rightarrow> event_at (in_events db) e)"
proof -
  let ?s = "s\<lparr>sl_sealed := True\<rparr>"
  let ?db1 = "put_staged (lh_id h) ?s db"
  let ?db = "put_layer_meta ((lh_layer h)\<lparr>ly_state := LCommitted\<rparr>) ?db1"
  have 1: "mem_inv ?db1" using mem_inv_seal[OF inv, of "lh_id h"] s by (simp add: mem_seal_def)
  have 2: "mem_inv ?db" by (rule mem_inv_step[OF mem_step.Meta 1])
  have s2: "hm_get (in_staged ?db) (lh_id h) = Some ?s" "sl_sealed ?s"
    by (simp_all add: put_layer_meta_def put_staged_def)
  obtain events reads where c: "commit_layer (lh_id h) ?db = (Inr (), committed_state ?db (lh_id h) ?s events reads)"
    and at: "\<And>e. event_at events e = (case by_id (sl_authored ?s) e of Some ev \<Rightarrow> Some ev | None \<Rightarrow> event_at (in_events ?db) e)"
    by (rule commit_cases[OF 2 s2]) (rule that)
  have "in_events ?db = in_events db" by (simp add: put_layer_meta_def put_staged_def Let_def)
  then have "event_at events e =
    (case by_id (sl_authored s) e of Some ev \<Rightarrow> Some ev | None \<Rightarrow> event_at (in_events db) e)"
    using at by (simp split: option.split)
  moreover have "in_events (commit_db h s db) = events"
    unfolding commit_db_def c by (simp add: committed_state_def)
  ultimately show ?thesis by simp
qed

lemma commit_db_authored:
  assumes inv: "mem_inv db" and s: "hm_get (in_staged db) (lh_id h) = Some s" and ev: "ev \<in> set (sl_authored s)"
  shows "stored (commit_db h s db) (ev_id ev) = Some ev"
proof -
  have "by_id (sl_authored s) (ev_id ev) = Some ev"
    using mem_invD(5)[OF inv s] ev by (auto simp: staged_ok_def by_id_def distinct_map comp_def intro!: map_of_is_SomeI)
  then show ?thesis by (simp add: stored_def commit_db_events[OF inv s])
qed

lemma last_hit_drafts:
  assumes "\<forall>ev \<in> set evs. event_at events (ev_id ev) = Some ev"
  shows "last_hit events (map ev_id evs) c v = map_option ev_id (last_draft evs c v)"
proof -
  have "filter (hits events c v) (map ev_id evs) = map ev_id (filter (\<lambda>ev. ev_cell ev = c \<and> ev_version ev = v) evs)"
    using assms by (induction evs) (auto simp: hits_def)
  then show ?thesis by (auto simp: last_hit_def last_draft_def last_map)
qed

lemma commit_reads_back:
  assumes inv: "mem_inv db" and s: "hm_get (in_staged db) (lh_id h) = Some s"
    and named: "sl_members s = map ev_id (sl_authored s)" and last: "last_draft (sl_authored s) c v = Some ev"
  shows "get_cell (commit_db h s db) ((sl_branch s, lh_id h) # rest) c v = Inr (Some \<lparr>ld_event = ev, ld_at = lh_id h\<rparr>)"
proof -
  let ?j = "commit_db h s db"
  have invj: "mem_inv ?j" by (rule commit_db_facts(2)[OF inv s])
  have stored: "stored ?j (ev_id x) = Some x" if "x \<in> set (sl_authored s)" for x
    by (rule commit_db_authored[OF inv s that])
  have "log_landing ?j (sl_branch s) c v (lh_id h) = Some (ev_id ev)"
    using last_hit_drafts[of "sl_authored s" "in_events ?j" c v] stored last
    by (simp add: log_landing_def commit_db_facts(4)[OF inv s] named stored_def)
  moreover have "ev \<in> set (sl_authored s)"
    using last last_in_set[of "filter (\<lambda>ev. ev_cell ev = c \<and> ev_version ev = v) (sl_authored s)"]
    by (auto simp: last_draft_def Let_def split: if_splits)
  ultimately have "newest_in ?j (sl_branch s) (lh_id h) c v \<lparr>ld_event = ev, ld_at = lh_id h\<rparr>"
    using stored by (auto simp: newest_in_def log_event_def)
  then show ?thesis by (subst get_cell_Some[OF invj]) (auto intro!: exI[of _ "[]"])
qed

section \<open>Properties\<close>

text \<open>A refused write changes nothing at all: when the definitions do not allow it, the
  setter answers with a write rejection and leaves the session, the store and its event counter
  exactly as they were.\<close>

theorem refused_write_changes_nothing:
  assumes "\<not> write_allowed (ws_defs ws) cell value (ws_writer ws) (ws_authority ws)"
  shows "\<exists>why. ws_put cell value by ws m = (Inl (WriteRejected why), ws, m)"
  using assms by (rule ws_put_refused)

text \<open>An allowed write of an open session succeeds as long as event ids last: it drafts
  the event with the given value and lineage at the version that the writer's own view gives the
  cell, preceded at most by the object's existence cell, and nothing of it is in the log yet.\<close>

theorem allowed_write_is_drafted:
  assumes "session_run hash ws m"
    and "write_allowed (ws_defs ws) cell value (ws_writer ws) (ws_authority ws)"
    and "unat (in_next_event (mg_db m)) + 2 < 2 ^ 64"
  shows "\<exists>ws' m' implied e. ws_put cell value by ws m = (Inr (), ws', m') \<and>
    drafted ws' m' = drafted ws m @ implied @ [draft_event e cell (write_draft ws cell value by) (ws_layer ws)] \<and>
    (\<forall>ev \<in> set implied. ev_cell ev = existence_of cell) \<and> same_log (mg_db m) (mg_db m')"
proof -
  have inv: "session_inv ws m" by (rule session_run_inv[OF assms(1)])
  obtain r ws' m' where out: "ws_put cell value by ws m = (r, ws', m')" by (metis prod_cases3)
  have "r = Inr ()" using ws_put_accepts[OF inv assms(2,3), of "by"] out by simp
  then show ?thesis using ws_put_outcome[OF inv out] out by blast
qed

text \<open>Property C28. Whatever a session writes, in whatever order and interleaved with whatever else
  the system does, every event drafted into its layer is well typed in the writer's view, written
  by the one writer the branch's definitions permit, keyed at the version its view names, and
  marked with the origin of that writer.\<close>

theorem session_events_are_legal:
  assumes "session_run hash ws m" and "ev \<in> set (drafted ws m)"
  shows "legal_event ws ev"
  using session_run_inv[OF assms(1)] assms(2) by (simp add: session_inv_def)

text \<open>A probe is always recorded before its object is written: when a write of a session
  adds an observed cell, that cell is the existence cell of the written one, no write of the session
  has touched it yet, and no cell is ever observed twice.\<close>

theorem probes_precede_writes:
  assumes "session_run hash ws m" and "ws_put cell value by ws m = (r, ws', m')"
    and "ws_observed ws' \<noteq> ws_observed ws"
  shows "\<exists>v. ws_observed ws' = ws_observed ws @ [CellAt (existence_of cell) v] \<and>
    existence_of cell \<notin> set (ws_authored ws) \<and> existence_of cell \<notin> ca_cell ` set (ws_observed ws)"
proof -
  have inv: "session_inv ws m" by (rule session_run_inv[OF assms(1)])
  note out = ws_put_outcome[OF inv assms(2)]
  then have "distinct (map ca_cell (ws_observed ws'))" by (auto simp: session_inv_def split: if_splits)
  then show ?thesis using out assms(3) by (auto simp: image_iff)
qed

text \<open>Property C29. What a session wrote is what a read finds once it has committed: at the committed
  layer, on any ancestry that starts with the session's branch there, every cell the session wrote
  answers with the last event it drafted for it, landed at that layer.\<close>

theorem committed_session_reads_back:
  assumes "session_run hash ws m" and "ws_commit ws m = (Inr l, n)"
    and "last_draft (drafted ws m) c v = Some ev"
  shows "get_cell (mg_db n) ((ly_branch (lh_layer (ws_handle ws)), l) # rest) c v =
    Inr (Some \<lparr>ld_event = ev, ld_at = l\<rparr>)"
proof -
  have sinv: "session_inv ws m" by (rule session_run_inv[OF assms(1)])
  let ?h = "ws_handle ws"
  obtain layer where layer: "hm_get (mg_layers m) (lh_id ?h) = Some layer" "ly_state layer = LOpen"
      "ly_branch layer = ly_branch (lh_layer ?h)"
    and inv: "mg_inv m"
    using sinv by (auto simp: session_inv_def session_open_def handle_ok_def ws_layer_def)
  obtain s where s: "hm_get (in_staged (mg_db m)) (lh_id ?h) = Some s" "sl_branch s = ly_branch layer"
    using open_staged[OF inv layer(1,2)] by blast
  have d: "drafted ws m = sl_authored s" "sl_members s = map ev_id (sl_authored s)"
    using sinv s(1) by (auto simp: session_inv_def drafted_def named_def ws_layer_def)
  have "check_guards m (ly_branch (lh_layer ?h)) (ly_guards (lh_layer ?h)) None = Inr ()"
  proof (cases "check_guards m (ly_branch (lh_layer ?h)) (ly_guards (lh_layer ?h)) None")
    case (Inl x)
    then show ?thesis using commit_rejected[OF inv layer(1,2) Inl] assms(2) by (simp add: ws_commit_def)
  qed simp
  then have "l = lh_id ?h" "n = commit_manager ?h layer s m"
    using commit_accepted[OF inv layer(1,2) s(1)] assms(2) by (simp_all add: ws_commit_def)
  then show ?thesis
    using commit_reads_back[OF mg_invD(1)[OF inv] s(1) d(2), of c v ev rest] assms(3) d(1) s(2) layer(3)
    by (simp add: log_simps)
qed

section \<open>Witnesses\<close>

text \<open>Branch 1 after a push of one field definition, and a client's session opened on it.\<close>

definition d_layer :: layer where
  "d_layer = \<lparr>ly_id = 1, ly_branch = 1, ly_kind = LKDef, ly_author = ASource, ly_state = LOpen,
     ly_parent = None, ly_guards = []\<rparr>"

definition d_open :: manager where "d_open = snd (lm_open 1 LKDef ASource s_start)"
definition d_put :: manager where "d_put = snd (lm_put_def \<lparr>lh_layer = d_layer\<rparr> (w_declare ''name'' TString 1) d_open)"
definition d_pushed :: manager where "d_pushed = snd (lm_commit \<lparr>lh_layer = d_layer\<rparr> d_put)"

definition d_staged :: staged_layer where
  "d_staged = \<lparr>sl_branch = 1, sl_members = [], sl_authored = [], sl_defs = [w_declare ''name'' TString 1],
     sl_sealed = False\<rparr>"

lemma d_put_state:
  "d_put = s_start\<lparr>mg_next := 2, mg_layers := [(1, d_layer)], mg_db := mem_new\<lparr>in_staged := [(1, d_staged)]\<rparr>\<rparr>"
  by (simp add: d_put_def d_open_def s_start_defs d_layer_def d_staged_def lm_put_def_def mem_put_def_def lh_id_def
      on_db_def lm_open_def next_layer_id_def open_layer_def mem_new_def put_staged_def staged_def lm_head_def Let_def)

lemma d_reachable: "mg_reachable d_pushed"
proof -
  have n: "mg_next s_start \<noteq> - 1" by (simp add: s_start_defs)
  have 1: "mg_reachable d_open" unfolding d_open_def by (rule mg_reachable_step[OF s_inv(1) mg_step.Open[OF n]])
  have ok: "handle_ok d_open \<lparr>lh_layer = d_layer\<rparr>" "handle_ok d_put \<lparr>lh_layer = d_layer\<rparr>"
    by (simp_all add: handle_ok_def d_open_def d_put_state d_layer_def lh_id_def lm_open_def next_layer_id_def
        on_db_def open_layer_def s_start_defs mem_new_def put_staged_def lm_head_def Let_def)
  have 2: "mg_reachable d_put" unfolding d_put_def by (rule mg_reachable_step[OF 1 mg_step.Put_Def[OF ok(1)]])
  show ?thesis unfolding d_pushed_def by (rule mg_reachable_step[OF 2 mg_step.Commit[OF ok(2)]])
qed

lemma d_put_inv: "mg_inv d_put"
proof -
  have n: "mg_next s_start \<noteq> - 1" by (simp add: s_start_defs)
  have 1: "mg_reachable d_open" unfolding d_open_def by (rule mg_reachable_step[OF s_inv(1) mg_step.Open[OF n]])
  have "handle_ok d_open \<lparr>lh_layer = d_layer\<rparr>"
    by (simp add: handle_ok_def d_open_def d_layer_def lh_id_def lm_open_def next_layer_id_def
        on_db_def open_layer_def s_start_defs mem_new_def put_staged_def lm_head_def Let_def)
  then show ?thesis unfolding d_put_def
    by (intro mg_reachable_inv[OF mg_reachable_step[OF 1 mg_step.Put_Def]])
qed

lemma d_pushed_state:
  "mg_next d_pushed = 2" "mg_heads d_pushed = [(1, 1)]" "mg_def_layers d_pushed = [(1, [1])]"
  "mg_branches d_pushed = mg_branches s_start" "in_next_event (mg_db d_pushed) = 0"
  "in_def_contents (mg_db d_pushed) = [(1, [w_declare ''name'' TString 1])]"
  "get_cell (mg_db d_pushed) [(1, 1)] c v = Inr None"
proof -
  have c: "d_pushed = commit_manager \<lparr>lh_layer = d_layer\<rparr> d_layer d_staged d_put"
    using commit_accepted[OF d_put_inv, of "\<lparr>lh_layer = d_layer\<rparr>" d_layer d_staged]
    by (simp add: d_pushed_def d_put_state lh_id_def d_layer_def check_guards_def)
  have db: "commit_db \<lparr>lh_layer = d_layer\<rparr> d_staged (mg_db d_put) =
      mem_new\<lparr>in_members := [(1, \<lparr>mb_branch = 1, mb_events = []\<rparr>)],
        in_def_contents := [(1, [w_declare ''name'' TString 1])],
        in_layer_meta := [(1, d_layer\<lparr>ly_state := LCommitted\<rparr>)]\<rparr>"
    by (simp add: commit_db_def lh_id_def d_layer_def d_put_state d_staged_def put_staged_def put_layer_meta_def
        commit_layer_def mem_new_def Let_def)
  show "mg_next d_pushed = 2" "mg_heads d_pushed = [(1, 1)]" "mg_def_layers d_pushed = [(1, [1])]"
    "mg_branches d_pushed = mg_branches s_start" "in_next_event (mg_db d_pushed) = 0"
    "in_def_contents (mg_db d_pushed) = [(1, [w_declare ''name'' TString 1])]"
    "get_cell (mg_db d_pushed) [(1, 1)] c v = Inr None"
    unfolding c commit_manager_def Let_def db
    by (simp_all add: d_put_state d_layer_def lh_id_def s_start_defs raise_head_def hm_modify_def mem_new_def
        history_at_def)
qed

definition d_session :: write_session where
  "d_session = \<lparr>ws_defs = w_view, ws_authority = w_view, ws_path = [(1, 1)], ws_writer = WClient,
     ws_handle = \<lparr>lh_layer = \<lparr>ly_id = 2, ly_branch = 1, ly_kind = LKValue, ly_author = ASource, ly_state = LOpen,
       ly_parent = Some 1, ly_guards = []\<rparr>\<rparr>, ws_touched = {}, ws_observed = [], ws_authored = []\<rparr>"

definition d_manager :: manager where "d_manager = snd (lm_open 1 LKValue ASource d_pushed)"
definition d_name :: val where "d_name = VRef (Content PString [])"

lemma d_opened: "open_on 1 1 (ClientVersion 1) WClient ASource d_pushed = (Inr d_session, d_manager)"
  "in_next_event (mg_db d_manager) = 0" "get_cell (mg_db d_manager) [(1, 1)] c v = Inr None"
proof -
  have path: "lm_read_path d_pushed 1 None = Inr [(1, 1)]"
    by (simp add: lm_read_path_iff start_bound_def lm_head_def d_pushed_state)
      (rule ancestry.Root, simp add: parent_link_def origin_of_def lm_branch_def d_pushed_state s_start_defs)
  have v: "view d_pushed [(1, 1)] = Inr w_view" "view_at d_pushed [(1, 1)] 1 = Inr w_view"
    by (simp_all add: view_fold view_at_fold reg_def_layers_def def_layers_of_def d_pushed_state read_def_layer_def
        w_view_eq del: apply_events.simps)
  have n: "mg_next d_pushed \<noteq> - 1" by (simp add: d_pushed_state)
  note o = lm_open_cases[OF mg_reachable_inv[OF d_reachable] n refl refl, of 1 LKValue ASource]
  show "open_on 1 1 (ClientVersion 1) WClient ASource d_pushed = (Inr d_session, d_manager)"
    by (simp add: open_on_def path v o d_manager_def d_session_def lm_head_def d_pushed_state)
  show "in_next_event (mg_db d_manager) = 0" by (simp add: d_manager_def o d_pushed_state put_staged_def)
  have "same_log (mg_db d_pushed) (mg_db d_manager)" by (simp add: d_manager_def o same_log_def put_staged_def)
  from get_cell_same[OF this] show "get_cell (mg_db d_manager) [(1, 1)] c v = Inr None"
    by (simp only: d_pushed_state(7))
qed

lemma d_fields:
  "ws_writer d_session = WClient" "ws_defs d_session = w_view" "ws_touched d_session = {}"
  "ws_observed d_session = []" "ws_authored d_session = []" "ws_path d_session = [(1, 1)]" "ws_layer d_session = 2"
  by (simp_all add: d_session_def ws_layer_def lh_id_def)

lemma d_run: "session_run hash d_session d_manager"
  by (rule session_run.Opened[OF d_reachable _ d_opened(1)]) (simp add: d_pushed_state)

lemma d_allowed: "write_allowed (ws_defs d_session) w_cell d_name (ws_writer d_session) (ws_authority d_session)"
  "\<not> write_allowed (ws_defs d_session) w_cell (VBool True) (ws_writer d_session) (ws_authority d_session)"
  by (simp_all add: write_allowed_def d_session_def w_cell_def cell_prop_def w_view_eq permitted_def
      d_name_def accepts_def is_tombstone_def)

lemma d_put_result:
  obtains ws m e implied where "ws_put w_cell d_name None d_session d_manager = (Inr (), ws, m)"
    "drafted ws m = implied @ [draft_event e w_cell (write_draft d_session w_cell d_name None) 2]"
    "ws_observed ws \<noteq> []" "session_inv ws m" "same_session d_session ws"
proof -
  have inv: "session_inv d_session d_manager" by (rule session_run_inv[OF d_run[of id]])
  let ?x = "cell_existence ''Company'' (Allocated PObject 0 0 1)"
  let ?v = "version_of w_view ?x"
  let ?o = "d_session\<lparr>ws_touched := {?x}, ws_observed := [CellAt ?x ?v]\<rparr>"
  have x: "existence_of w_cell = ?x" "?x \<noteq> w_cell"
    by (simp_all add: existence_of_def w_cell_def cell_prop_def cell_existence_def cell_pid_def)
  have opn: "session_open ?o d_manager" using inv by (simp add: session_inv_def)
  have small: "in_next_event (mg_db d_manager) \<noteq> - 1" by (simp add: d_opened)
  obtain u n where im: "imply_existence w_cell d_session d_manager = (Inr (), u, n)" and obs: "ws_observed u = [CellAt ?x ?v]"
  proof (rule lm_put_open[OF opn small, of ?x "existence_draft ?v WClient"])
    fix e n
    assume put: "lm_put (ws_handle ?o) ?x (existence_draft ?v WClient) d_manager = (Inr e, n)"
    show thesis
      by (rule that[of "?o\<lparr>ws_authored := [?x]\<rparr>" n])
        (use put in \<open>simp_all add: imply_existence_def Let_def x d_opened(3) d_fields del: get_cell.simps\<close>)
  qed
  obtain r ws m where out: "ws_put w_cell d_name None d_session d_manager = (r, ws, m)" by (metis prod_cases3)
  have ok: "r = Inr ()" using ws_put_accepts[OF inv d_allowed(1), of None] out by (simp add: d_opened)
  have "ws_observed ws = [CellAt ?x ?v]"
    using out ok im obs by (auto simp: ws_put_def split: sum.splits prod.splits if_splits)
  moreover have "drafted d_session d_manager = []"
    using inv by (auto simp: session_inv_def d_fields)
  moreover note d_fields(7)
  moreover note outcome = ws_put_outcome[OF inv out]
  then obtain implied e where "drafted ws m = drafted d_session d_manager @ implied @
      [draft_event e w_cell (write_draft d_session w_cell d_name None) (ws_layer d_session)]"
    using ok by blast
  ultimately show ?thesis using outcome ok out by (intro that[of ws m implied e]) simp_all
qed

lemma d_written:
  "ws_put w_cell d_name None d_session d_manager = (Inr (), ws, m) \<Longrightarrow> session_run hash ws m"
  by (rule session_run.Put[OF d_run])

lemma refused_write_changes_nothing_witness:
  "\<exists>why. ws_put w_cell (VBool True) None d_session d_manager = (Inl (WriteRejected why), d_session, d_manager)"
  by (rule refused_write_changes_nothing[OF d_allowed(2)])

lemma allowed_write_is_drafted_witness:
  "\<exists>ws' m' implied e. ws_put w_cell d_name None d_session d_manager = (Inr (), ws', m') \<and>
    drafted ws' m' = drafted d_session d_manager @ implied @
      [draft_event e w_cell (write_draft d_session w_cell d_name None) (ws_layer d_session)]"
  using allowed_write_is_drafted[OF d_run[of id] d_allowed(1), of None] by (auto simp: d_opened)

lemma session_events_are_legal_witness:
  "\<exists>ws m ev. drafted ws m \<noteq> [] \<and> ev = last (drafted ws m) \<and> ev_cell ev = w_cell \<and> legal_event ws ev"
proof -
  obtain ws m e implied where p: "ws_put w_cell d_name None d_session d_manager = (Inr (), ws, m)"
    and d: "drafted ws m = implied @ [draft_event e w_cell (write_draft d_session w_cell d_name None) 2]"
    by (rule d_put_result)
  have "legal_event ws (last (drafted ws m))"
    by (rule session_events_are_legal[OF d_written[OF p, of id]]) (simp add: d)
  then show ?thesis using d by (intro exI[of _ ws] exI[of _ m]) (simp add: draft_event_def)
qed

lemma probes_precede_writes_witness:
  "\<exists>ws m v. ws_put w_cell d_name None d_session d_manager = (Inr (), ws, m) \<and>
     ws_observed ws = [CellAt (existence_of w_cell) v]"
proof -
  obtain ws m e implied where p: "ws_put w_cell d_name None d_session d_manager = (Inr (), ws, m)"
    and o: "ws_observed ws \<noteq> []"
    by (rule d_put_result)
  have "ws_observed ws \<noteq> ws_observed d_session" using o by (simp add: d_fields)
  from probes_precede_writes[OF d_run[of id] p this] show ?thesis using p by (auto simp: d_fields)
qed

lemma committed_session_reads_back_witness:
  "\<exists>(n :: manager) ev. ev_cell ev = w_cell \<and> get_cell (mg_db n) [(1, 2)] w_cell (version_of w_view w_cell) =
     Inr (Some \<lparr>ld_event = ev, ld_at = 2\<rparr>)"
proof -
  obtain ws m e implied where p: "ws_put w_cell d_name None d_session d_manager = (Inr (), ws, m)"
    and d: "drafted ws m = implied @ [draft_event e w_cell (write_draft d_session w_cell d_name None) 2]"
    and inv: "session_inv ws m" and same: "same_session d_session ws"
    by (rule d_put_result)
  let ?h = "ws_handle ws" and ?ev = "draft_event e w_cell (write_draft d_session w_cell d_name None) 2"
  have h: "lh_id ?h = 2" "ly_branch (lh_layer ?h) = 1" "ly_guards (lh_layer ?h) = []"
    using same by (auto simp: same_session_def d_session_def lh_id_def)
  obtain layer where layer: "hm_get (mg_layers m) (lh_id ?h) = Some layer" "ly_state layer = LOpen" and mi: "mg_inv m"
    using inv by (auto simp: session_inv_def session_open_def ws_layer_def)
  obtain s where s: "hm_get (in_staged (mg_db m)) (lh_id ?h) = Some s" using open_staged[OF mi layer] by blast
  have "lm_commit ?h m = (Inr (lh_id ?h), commit_manager ?h layer s m)"
    by (rule commit_accepted[OF mi layer s]) (simp add: h check_guards_def)
  then obtain n where c: "ws_commit ws m = (Inr 2, n)" by (simp add: ws_commit_def h)
  have l: "last_draft (drafted ws m) w_cell (version_of w_view w_cell) = Some ?ev"
    by (simp add: d last_draft_def draft_event_def write_draft_def d_fields)
  from committed_session_reads_back[OF d_written[OF p, of id] c l, of "[]"]
  have r: "get_cell (mg_db n) [(1, 2)] w_cell (version_of w_view w_cell) = Inr (Some \<lparr>ld_event = ?ev, ld_at = 2\<rparr>)"
    by (simp only: h)
  show ?thesis by (rule exI[of _ n], rule exI[of _ ?ev], rule conjI[OF _ r]) (simp add: draft_event_def)
qed

end
