(* ===== verification/Resolver.thy ===== *)
theory Resolver
  imports Write_Session
begin

text \<open>
  The read path of \<^verbatim>\<open>borg-engine/src/resolve.rs\<close>: resolving a cell ver the reader's version, validating
  its watermark, answering for what is not materialized, and lineage. The recursion of \<open>validate\<close> runs
  over the dependencies of stored records, which nothing keeps acyclic, so it is a partial function;
  \<open>RustPanic\<close> stands for not returning. What \<^verbatim>\<open>dyn InlineDerivation\<close> does is an argument of \<open>resolve\<close>, a
  function of the whole world.
\<close>

section \<open>State\<close>

record world =
  wd_log :: manager
  wd_poison :: poison_table

text \<open>The dependency index is the one the log's projection folds into: one object behind two references.\<close>

definition wd_index :: "('e world_scheme) \<Rightarrow> dep_index" where
  "wd_index w = ix_deps (mg_indexes (wd_log w))"

record lineage_edge =
  le_cell :: cell_at
  le_origin :: origin
  le_landed_at :: layer_id

record lineage =
  ln_cell :: cell_at
  ln_produced_by :: "producer_id option"
  ln_authored_at :: layer_id
  ln_landed_at :: layer_id
  ln_fresh_as_of :: layer_id
  ln_from :: "lineage_edge list"
  ln_broken :: "string option"

section \<open>Validation\<close>

type_synonym composed = "(cell_at, layer_id option) hmap"

text \<open>The loop over one read set; a derived dependency without a memo entry is validated first.\<close>

partial_function (option) validate_loop ::
  "inner \<Rightarrow> read_path \<Rightarrow> layer_id \<Rightarrow> layer_id \<Rightarrow> cell_at list \<Rightarrow> layer_id \<Rightarrow> composed \<Rightarrow>
   (layer_id result \<times> composed) option" where
  "validate_loop db path target fresh reads mark composed =
     (case reads of
        [] \<Rightarrow> Some (Inr mark, composed)
      | d # rest \<Rightarrow>
          (case get_cell db path (ca_cell d) (ca_version d) of
             Inl err \<Rightarrow> Some (Inl err, composed)
           | Inr None \<Rightarrow> validate_loop db path target fresh rest mark composed
           | Inr (Some found) \<Rightarrow>
               if landed_reflects found > fresh then Some (Inr fresh, composed)
               else (case ev_derivation (ld_event found) of
                       None \<Rightarrow> validate_loop db path target fresh rest mark composed
                     | Some upstream \<Rightarrow>
                         (case hm_get composed d of
                            Some (Some known) \<Rightarrow>
                              validate_loop db path target fresh rest (min mark known) composed
                          | Some None \<Rightarrow>
                              validate_loop db path target fresh rest (min mark (dn_fresh_as_of upstream)) composed
                          | None \<Rightarrow>
                              Option.bind
                                (validate_loop db path target (dn_fresh_as_of upstream) (dn_read_set upstream) target
                                   (hm_insert d None composed))
                                (\<lambda>(r, composed).
                                   case r of
                                     Inl err \<Rightarrow> Some (Inl err, composed)
                                   | Inr bound \<Rightarrow>
                                       validate_loop db path target fresh rest (min mark bound)
                                         (hm_insert d (Some bound) composed))))))"

definition validate :: "inner \<Rightarrow> read_path \<Rightarrow> cell_at list \<Rightarrow> layer_id \<Rightarrow> layer_id \<Rightarrow> layer_id result" where
  "validate db path reads fresh target =
     (case validate_loop db path target fresh reads target [] of
        None \<Rightarrow> Inl (RustPanic ''validate does not return'')
      | Some (r, _) \<Rightarrow> r)"

section \<open>Reading a cell\<close>

definition poisoning_of :: "('e world_scheme) \<Rightarrow> branch_id \<Rightarrow> producer_id \<Rightarrow> poisoning option result" where
  "poisoning_of w b p =
     (case List.find (\<lambda>po. po_producer po = p) (poisoned (wd_poison w) b) of
        None \<Rightarrow> Inr None
      | Some po \<Rightarrow>
          (case lm_read_path (wd_log w) b None of
             Inl err \<Rightarrow> Inl err
           | Inr path \<Rightarrow>
               (case view (wd_log w) path of
                  Inl err \<Rightarrow> Inl err
                | Inr defs \<Rightarrow>
                    Inr (case List.find (\<lambda>def. pd_id def = p) (view_producers defs) of
                           None \<Rightarrow> Some po
                         | Some def \<Rightarrow> if applies_to po (pd_version def) then Some po else None))))"

definition pinned :: "layer_id option \<Rightarrow> read_path \<Rightarrow> layer_id" where
  "pinned layer path = (case layer of Some l \<Rightarrow> l | None \<Rightarrow> Cells.ceiling path)"

definition settled_here ::
  "('e world_scheme) \<Rightarrow> branch_id \<Rightarrow> cell_ref \<Rightarrow> def_version \<Rightarrow> layer_id option \<Rightarrow> bool result" where
  "settled_here w b cell ver layer =
     (case lm_read_path (wd_log w) b layer of
        Inl err \<Rightarrow> Inl err
      | Inr path \<Rightarrow>
          (case get_cell (mg_db (wd_log w)) path cell ver of
             Inl err \<Rightarrow> Inl err
           | Inr None \<Rightarrow> Inr False
           | Inr (Some found) \<Rightarrow>
               (case ev_derivation (ld_event found) of
                  None \<Rightarrow> Inr True
                | Some by \<Rightarrow>
                    (case validate (mg_db (wd_log w)) path (dn_read_set by) (dn_fresh_as_of by) (pinned layer path) of
                       Inl err \<Rightarrow> Inl err
                     | Inr mark \<Rightarrow> Inr (mark \<ge> pinned layer path)))))"

definition can_compute_at :: "manager \<Rightarrow> branch_id \<Rightarrow> layer_id option \<Rightarrow> bool result" where
  "can_compute_at m b layer =
     (case layer of
        None \<Rightarrow> Inr True
      | Some requested \<Rightarrow>
          (case lm_read_path m b None of
             Inl err \<Rightarrow> Inl err
           | Inr path \<Rightarrow> Inr (requested \<ge> Cells.ceiling path)))"

definition resolve_unmaterialized ::
  "manager \<Rightarrow> read_path \<Rightarrow> cell_ref \<Rightarrow> def_version \<Rightarrow> val option resolved result" where
  "resolve_unmaterialized m path cell version =
     (let available = cell_versions (mg_db m) path cell in
      case view m path of
        Inl err \<Rightarrow> Inl err
      | Inr defs \<Rightarrow>
          (let reachable = (\<exists>v \<in> set available. def_path defs (cr_buffer cell) v version \<noteq> None) in
           Inr \<lparr>rs_value = None, rs_origin = ODerived, rs_event = None, rs_authored_at = 0, rs_landed_at = 0,
                rs_fresh_as_of = 0,
                rs_state = (if available = [] then Current else if reachable then Stale else Broken),
                rs_by = None\<rparr>))"

text \<open>The value of a record: a tombstone is none.\<close>

definition live_value :: "event \<Rightarrow> val option" where
  "live_value ev = (if is_tombstone (ev_value ev) then None else Some (ev_value ev))"

definition source_envelope :: "landed \<Rightarrow> layer_id \<Rightarrow> val option resolved" where
  "source_envelope found layer =
     (let ev = ld_event found in
      \<lparr>rs_value = live_value ev, rs_origin = OSource, rs_event = Some (ev_id ev), rs_authored_at = ev_authored ev,
       rs_landed_at = ld_at found, rs_fresh_as_of = layer,
       rs_state = (if is_tombstone (ev_value ev) then Tombstoned else Current), rs_by = None\<rparr>)"

definition validated_state ::
  "inner \<Rightarrow> read_path \<Rightarrow> freshness_requirement \<Rightarrow> derivation \<Rightarrow> layer_id \<Rightarrow> (freshness \<times> layer_id) result" where
  "validated_state db path requirement by layer =
     (if requirement = AnyFreshness
      then Inr (if dn_fresh_as_of by \<ge> layer then (Current, layer) else (Unvalidated, dn_fresh_as_of by))
      else (case validate db path (dn_read_set by) (dn_fresh_as_of by) layer of
              Inl err \<Rightarrow> Inl err
            | Inr mark \<Rightarrow> Inr (if mark \<ge> layer then (Current, layer) else (Stale, mark))))"

definition derived_envelope ::
  "('e world_scheme) \<Rightarrow> branch_id \<Rightarrow> read_path \<Rightarrow> freshness_requirement \<Rightarrow> landed \<Rightarrow> derivation \<Rightarrow> layer_id \<Rightarrow>
   val option resolved result" where
  "derived_envelope w b path requirement found by layer =
     (let ev = ld_event found in
      case validated_state (mg_db (wd_log w)) path requirement by layer of
        Inl err \<Rightarrow> Inl err
      | Inr (state, fresh) \<Rightarrow>
          (case poisoning_of w b (dn_producer by) of
             Inl err \<Rightarrow> Inl err
           | Inr broken \<Rightarrow>
               Inr \<lparr>rs_value = live_value ev, rs_origin = ODerived, rs_event = Some (ev_id ev),
                    rs_authored_at = ev_authored ev, rs_landed_at = ld_at found, rs_fresh_as_of = fresh,
                    rs_state = (if is_tombstone (ev_value ev) then Tombstoned
                                else if broken \<noteq> None then Broken else state),
                    rs_by = Some (dn_producer by)\<rparr>))"

definition read_envelope ::
  "('e world_scheme) \<Rightarrow> branch_id \<Rightarrow> cell_ref \<Rightarrow> layer_id option \<Rightarrow> def_version \<Rightarrow> freshness_requirement \<Rightarrow>
   val option resolved result" where
  "read_envelope w b cell layer ver requirement =
     (case lm_read_path (wd_log w) b layer of
        Inl err \<Rightarrow> Inl err
      | Inr path \<Rightarrow>
          (case get_cell (mg_db (wd_log w)) path cell ver of
             Inl err \<Rightarrow> Inl err
           | Inr None \<Rightarrow> resolve_unmaterialized (wd_log w) path cell ver
           | Inr (Some found) \<Rightarrow>
               (case ev_derivation (ld_event found) of
                  None \<Rightarrow> Inr (source_envelope found (pinned layer path))
                | Some by \<Rightarrow> derived_envelope w b path requirement found by (pinned layer path))))"

text \<open>The version of the cell in the reader's own view.\<close>

definition reader_version ::
  "manager \<Rightarrow> branch_id \<Rightarrow> cell_ref \<Rightarrow> layer_id option \<Rightarrow> client_version \<Rightarrow> def_version result" where
  "reader_version m b cell layer version =
     (case lm_read_path m b layer of
        Inl err \<Rightarrow> Inl err
      | Inr path \<Rightarrow>
          (case view_at m path (case version of ClientVersion l \<Rightarrow> l) of
             Inl err \<Rightarrow> Inl err
           | Inr defs \<Rightarrow> Inr (version_of defs cell)))"

text \<open>Whether the read has to compute first: \<open>&&\<close> evaluates from the left and stops ver the first false.\<close>

definition owes_computation ::
  "('e world_scheme) \<Rightarrow> branch_id \<Rightarrow> cell_ref \<Rightarrow> layer_id option \<Rightarrow> def_version \<Rightarrow> freshness_requirement \<Rightarrow> bool result" where
  "owes_computation w b cell layer ver requirement =
     (if requirement \<noteq> CurrentRequired then Inr False
      else (case can_compute_at (wd_log w) b layer of
              Inl err \<Rightarrow> Inl err
            | Inr False \<Rightarrow> Inr False
            | Inr True \<Rightarrow>
                (case settled_here w b cell ver layer of
                   Inl err \<Rightarrow> Inl err
                 | Inr here \<Rightarrow> Inr (\<not> here))))"

definition resolve ::
  "(branch_id \<Rightarrow> cell_ref \<Rightarrow> def_version \<Rightarrow> 'e world_scheme \<Rightarrow> unit result \<times> 'e world_scheme) \<Rightarrow>
   branch_id \<Rightarrow> cell_ref \<Rightarrow> layer_id option \<Rightarrow> client_version \<Rightarrow> freshness_requirement \<Rightarrow> 'e world_scheme \<Rightarrow>
   val option resolved result \<times> 'e world_scheme" where
  "resolve compute_now b cell layer version requirement w =
     (case reader_version (wd_log w) b cell layer version of
        Inl err \<Rightarrow> (Inl err, w)
      | Inr ver \<Rightarrow>
          (case owes_computation w b cell layer ver requirement of
             Inl err \<Rightarrow> (Inl err, w)
           | Inr owes \<Rightarrow>
               (case (if owes then compute_now b cell ver w else (Inr (), w)) of
                  (Inl err, w) \<Rightarrow> (Inl err, w)
                | (Inr _, w) \<Rightarrow> (read_envelope w b cell layer ver requirement, w))))"

section \<open>Lineage\<close>

fun lineage_edges :: "inner \<Rightarrow> read_path \<Rightarrow> cell_at list \<Rightarrow> lineage_edge list result" where
  "lineage_edges db path [] = Inr []"
| "lineage_edges db path (d # ds) =
     (case get_cell db path (ca_cell d) (ca_version d) of
        Inl err \<Rightarrow> Inl err
      | Inr found \<Rightarrow>
          (case lineage_edges db path ds of
             Inl err \<Rightarrow> Inl err
           | Inr edges \<Rightarrow>
               Inr (case found of
                      None \<Rightarrow> edges
                    | Some source \<Rightarrow>
                        \<lparr>le_cell = d, le_origin = ev_origin (ld_event source), le_landed_at = ld_at source\<rparr> # edges)))"

definition explain ::
  "('e world_scheme) \<Rightarrow> branch_id \<Rightarrow> cell_ref \<Rightarrow> layer_id option \<Rightarrow> client_version \<Rightarrow> lineage option result" where
  "explain w b cell layer version =
     (let db = mg_db (wd_log w) in
      case lm_read_path (wd_log w) b layer of
        Inl err \<Rightarrow> Inl err
      | Inr path \<Rightarrow>
          (case view_at (wd_log w) path (case version of ClientVersion l \<Rightarrow> l) of
             Inl err \<Rightarrow> Inl err
           | Inr defs \<Rightarrow>
               (let ver = version_of defs cell in
                case get_cell db path cell ver of
                  Inl err \<Rightarrow> Inl err
                | Inr None \<Rightarrow> Inr None
                | Inr (Some found) \<Rightarrow>
                    (let by = ev_derivation (ld_event found); target = CellAt cell ver in
                     case lineage_edges db path (dependencies (wd_index w) b target) of
                       Inl err \<Rightarrow> Inl err
                     | Inr edges \<Rightarrow>
                         (case (case by of
                                  None \<Rightarrow> Inr None
                                | Some d \<Rightarrow> poisoning_of w b (dn_producer d)) of
                            Inl err \<Rightarrow> Inl err
                          | Inr broken \<Rightarrow>
                              Inr (Some
                                \<lparr>ln_cell = target, ln_produced_by = map_option dn_producer by,
                                 ln_authored_at = ev_authored (ld_event found), ln_landed_at = ld_at found,
                                 ln_fresh_as_of = (case by of None \<Rightarrow> ld_at found | Some d \<Rightarrow> dn_fresh_as_of d),
                                 ln_from = edges, ln_broken = map_option po_error broken\<rparr>))))))"

end
