(* ===== verification/Producer_Run.thy ===== *)
theory Producer_Run
  imports Resolver
begin

text \<open>
  One producer run of \<^verbatim>\<open>borg-engine/src/derive.rs\<close>: the recording context handed to producer code, the
  engine's state, and the steps of a run from opening its layer to committing it. Producer code runs
  behind the \<^verbatim>\<open>ExecutionProvider\<close> seam of \<^verbatim>\<open>borg-exec/src/lib.rs\<close>; it is an argument, a function from
  producer, version and input to a \<open>program\<close>, the tree of the calls it makes on the context and of what
  it does with each answer. The tree is a datatype, so every run ends in a result or a panic after finitely
  many calls: that producer code returns is assumed here. Nothing in the source makes it (a run is awaited
  without a limit of time), and no statement of this development speaks of a run that hangs. A step of a run is one await point of the source, so runs interleave as the
  tasks of a wave do.
\<close>

section \<open>Producer code\<close>

datatype program =
    Return "unit result"
  | Panic
  | Get cell_ref "val option result \<Rightarrow> program"
  | GetAt cell_ref def_version "val option result \<Rightarrow> program"
  | GetInput cell_ref "val option result \<Rightarrow> program"
  | SetValue cell_ref val "unit result \<Rightarrow> program"
  | SetText cell_ref string "unit result \<Rightarrow> program"
  | Intern value_input "val result \<Rightarrow> program"
  | Render val "string result \<Rightarrow> program"

type_synonym executor = "producer_id \<Rightarrow> client_version \<Rightarrow> pid \<Rightarrow> program"

section \<open>The recording context\<close>

record recording_ctx =
  rc_path :: read_path
  rc_fresh_as_of :: layer_id
  rc_producer :: producer_id
  rc_input_version :: "def_version option"
  rc_session :: write_session
  rc_read_set :: "cell_at list"
  rc_write_set :: "cell_at list"

definition ctx_version_of :: "recording_ctx \<Rightarrow> cell_ref \<Rightarrow> def_version" where
  "ctx_version_of ctx cell = version_of (ws_defs (rc_session ctx)) cell"

definition add_once :: "'a \<Rightarrow> 'a list \<Rightarrow> 'a list" where
  "add_once x xs = (if x \<in> set xs then xs else xs @ [x])"

definition ctx_wrote :: "cell_ref \<Rightarrow> recording_ctx \<Rightarrow> recording_ctx" where
  "ctx_wrote cell ctx =
     ctx\<lparr>rc_write_set := add_once (CellAt cell (ctx_version_of ctx cell)) (rc_write_set ctx)\<rparr>"

definition ctx_get_at ::
  "cell_ref \<Rightarrow> def_version \<Rightarrow> recording_ctx \<Rightarrow> manager \<Rightarrow> val option result \<times> recording_ctx" where
  "ctx_get_at cell version ctx m =
     ((case get_cell (mg_db m) (rc_path ctx) cell version of
         Inl err \<Rightarrow> Inl err
       | Inr found \<Rightarrow> Inr (map_option (\<lambda>found. ev_value (ld_event found)) found)),
      ctx\<lparr>rc_read_set := add_once (CellAt cell version) (rc_read_set ctx)\<rparr>)"

definition ctx_get :: "cell_ref \<Rightarrow> recording_ctx \<Rightarrow> manager \<Rightarrow> val option result \<times> recording_ctx" where
  "ctx_get cell ctx = ctx_get_at cell (ctx_version_of ctx cell) ctx"

definition ctx_get_input :: "cell_ref \<Rightarrow> recording_ctx \<Rightarrow> manager \<Rightarrow> val option result \<times> recording_ctx" where
  "ctx_get_input cell ctx =
     ctx_get_at cell (case rc_input_version ctx of Some v \<Rightarrow> v | None \<Rightarrow> ctx_version_of ctx cell) ctx"

definition ctx_derivation :: "recording_ctx \<Rightarrow> derivation" where
  "ctx_derivation ctx =
     \<lparr>dn_producer = rc_producer ctx, dn_fresh_as_of = rc_fresh_as_of ctx, dn_read_set = rc_read_set ctx\<rparr>"

definition accept_write ::
  "cell_ref \<Rightarrow> recording_ctx \<Rightarrow> unit result \<times> write_session \<times> manager \<Rightarrow> unit result \<times> recording_ctx \<times> manager" where
  "accept_write cell ctx outcome =
     (case outcome of
        (Inl err, ws, m) \<Rightarrow> (Inl err, ctx\<lparr>rc_session := ws\<rparr>, m)
      | (Inr _, ws, m) \<Rightarrow> (Inr (), ctx_wrote cell (ctx\<lparr>rc_session := ws\<rparr>), m))"

definition ctx_set :: "cell_ref \<Rightarrow> val \<Rightarrow> recording_ctx \<Rightarrow> manager \<Rightarrow> unit result \<times> recording_ctx \<times> manager" where
  "ctx_set cell value ctx m =
     accept_write cell ctx (set_derived cell value (ctx_derivation ctx) (rc_session ctx) m)"

definition ctx_set_text ::
  "(u8 list \<Rightarrow> u8 list) \<Rightarrow> cell_ref \<Rightarrow> string \<Rightarrow> recording_ctx \<Rightarrow> manager \<Rightarrow>
   unit result \<times> recording_ctx \<times> manager" where
  "ctx_set_text hash cell text ctx m =
     accept_write cell ctx (set_text_derived hash cell text (ctx_derivation ctx) (rc_session ctx) m)"

text \<open>One call of the program on its context; a program that has ended stays as it is.\<close>

fun prog_step ::
  "(u8 list \<Rightarrow> u8 list) \<Rightarrow> program \<Rightarrow> recording_ctx \<Rightarrow> manager \<Rightarrow> program \<times> recording_ctx \<times> manager" where
  "prog_step hash (Return r) ctx m = (Return r, ctx, m)"
| "prog_step hash Panic ctx m = (Panic, ctx, m)"
| "prog_step hash (Get cell k) ctx m = (let (r, ctx) = ctx_get cell ctx m in (k r, ctx, m))"
| "prog_step hash (GetAt cell v k) ctx m = (let (r, ctx) = ctx_get_at cell v ctx m in (k r, ctx, m))"
| "prog_step hash (GetInput cell k) ctx m = (let (r, ctx) = ctx_get_input cell ctx m in (k r, ctx, m))"
| "prog_step hash (SetValue cell value k) ctx m = (let (r, ctx, m) = ctx_set cell value ctx m in (k r, ctx, m))"
| "prog_step hash (SetText cell text k) ctx m = (let (r, ctx, m) = ctx_set_text hash cell text ctx m in (k r, ctx, m))"
| "prog_step hash (Intern input k) ctx m = (let (r, m) = intern_value hash input m in (k r, ctx, m))"
| "prog_step hash (Render value k) ctx m = (k (render_stored m value), ctx, m)"

fun ended :: "program \<Rightarrow> bool" where
  "ended (Return _) = True"
| "ended Panic = True"
| "ended _ = False"

text \<open>The program run to its end without an interruption.\<close>

primrec run_program ::
  "(u8 list \<Rightarrow> u8 list) \<Rightarrow> program \<Rightarrow> recording_ctx \<Rightarrow> manager \<Rightarrow> program \<times> recording_ctx \<times> manager" where
  "run_program hash (Return r) = (\<lambda>ctx m. (Return r, ctx, m))"
| "run_program hash Panic = (\<lambda>ctx m. (Panic, ctx, m))"
| "run_program hash (Get cell k) = (\<lambda>ctx m. let (r, ctx) = ctx_get cell ctx m in run_program hash (k r) ctx m)"
| "run_program hash (GetAt cell v k) = (\<lambda>ctx m. let (r, ctx) = ctx_get_at cell v ctx m in run_program hash (k r) ctx m)"
| "run_program hash (GetInput cell k) =
     (\<lambda>ctx m. let (r, ctx) = ctx_get_input cell ctx m in run_program hash (k r) ctx m)"
| "run_program hash (SetValue cell value k) =
     (\<lambda>ctx m. let (r, ctx, m) = ctx_set cell value ctx m in run_program hash (k r) ctx m)"
| "run_program hash (SetText cell text k) =
     (\<lambda>ctx m. let (r, ctx, m) = ctx_set_text hash cell text ctx m in run_program hash (k r) ctx m)"
| "run_program hash (Intern input k) = (\<lambda>ctx m. let (r, m) = intern_value hash input m in run_program hash (k r) ctx m)"
| "run_program hash (Render value k) = (\<lambda>ctx m. run_program hash (k (render_stored m value)) ctx m)"

section \<open>The engine\<close>

text \<open>Beside what the resolver reads: the branch manager's counter, the registered producers, the
  registry's live versions and the bound on concurrent runs. The watermarks are, like the dependency
  index, the ones the log's projection keeps.\<close>

record engine = world +
  en_next_branch :: u64
  en_producers :: "(producer_id, producer_def) hmap"
  en_live :: "client_version list"
  en_parallelism :: nat

definition en_frontier :: "('e engine_scheme) \<Rightarrow> frontier" where
  "en_frontier eng = ix_frontier (mg_indexes (wd_log eng))"

definition on_frontier :: "(frontier \<Rightarrow> frontier) \<Rightarrow> engine \<Rightarrow> engine" where
  "on_frontier f eng =
     eng\<lparr>wd_log := (wd_log eng)\<lparr>mg_indexes := (mg_indexes (wd_log eng))\<lparr>ix_frontier := f (en_frontier eng)\<rparr>\<rparr>\<rparr>"

definition on_index :: "(dep_index \<Rightarrow> dep_index) \<Rightarrow> engine \<Rightarrow> engine" where
  "on_index f eng =
     eng\<lparr>wd_log := (wd_log eng)\<lparr>mg_indexes := (mg_indexes (wd_log eng))\<lparr>ix_deps := f (wd_index eng)\<rparr>\<rparr>\<rparr>"

definition engine_new :: "manager \<Rightarrow> u64 \<Rightarrow> nat \<Rightarrow> engine" where
  "engine_new m next parallelism =
     \<lparr>wd_log = m, wd_poison = [], en_next_branch = next,
      en_producers = [], en_live = [], en_parallelism = parallelism\<rparr>"

definition set_parallelism :: "nat \<Rightarrow> engine \<Rightarrow> engine" where
  "set_parallelism invocations eng = eng\<lparr>en_parallelism := max 1 invocations\<rparr>"

definition register_producer :: "producer_def \<Rightarrow> engine \<Rightarrow> engine" where
  "register_producer def eng = eng\<lparr>en_producers := hm_insert (pd_id def) def (en_producers eng)\<rparr>"

definition on_log :: "(manager \<Rightarrow> 'a \<times> manager) \<Rightarrow> engine \<Rightarrow> 'a \<times> engine" where
  "on_log f eng = (let (r, m) = f (wd_log eng) in (r, eng\<lparr>wd_log := m\<rparr>))"

section \<open>A run, step by step\<close>

record run_at =
  ra_on :: branch_id
  ra_home :: branch_id
  ra_fresh_as_of :: layer_id
  ra_reflects :: layer_id

datatype run_outcome = Ran layer_id "cell_at list" "cell_at list" | Failed borg_error | Panicked

text \<open>Between the steps: nothing done, the session open, producer code running, its accesses recorded
  and its layer about to commit, done.\<close>

datatype phase =
    Waiting
  | Opened write_session
  | Running recording_ctx program
  | Recorded recording_ctx
  | Finished run_outcome

record task =
  tk_def :: producer_def
  tk_input :: pid
  tk_at :: run_at
  tk_phase :: phase

definition task_new :: "producer_def \<Rightarrow> pid \<Rightarrow> run_at \<Rightarrow> task" where
  "task_new def input at' = \<lparr>tk_def = def, tk_input = input, tk_at = at', tk_phase = Waiting\<rparr>"

definition run_versions :: "def_view \<Rightarrow> producer_def \<Rightarrow> client_version \<times> def_version option" where
  "run_versions defs def =
     (case migration_role_of defs def of
        Some role \<Rightarrow> (ClientVersion (dv_layer (mr_output role)), Some (mr_input role))
      | None \<Rightarrow> (ClientVersion (pd_version def), None))"

definition task_ctx :: "def_view \<Rightarrow> task \<Rightarrow> write_session \<Rightarrow> read_path \<Rightarrow> recording_ctx" where
  "task_ctx defs t ws path =
     \<lparr>rc_path = path, rc_fresh_as_of = ra_fresh_as_of (tk_at t), rc_producer = pd_id (tk_def t),
      rc_input_version = snd (run_versions defs (tk_def t)), rc_session = ws, rc_read_set = [], rc_write_set = []\<rparr>"

definition task_open :: "def_view \<Rightarrow> task \<Rightarrow> engine \<Rightarrow> phase \<times> engine" where
  "task_open defs t eng =
     (let at' = tk_at t; p = pd_id (tk_def t) in
      case on_log (open_on (ra_on at') (ra_home at') (fst (run_versions defs (tk_def t))) (WProducer p)
                     (ADerived p (ra_reflects at'))) eng of
        (Inl err, eng) \<Rightarrow> (Finished (Failed err), eng)
      | (Inr ws, eng) \<Rightarrow> (Opened ws, eng))"

definition task_start :: "executor \<Rightarrow> def_view \<Rightarrow> task \<Rightarrow> write_session \<Rightarrow> engine \<Rightarrow> phase \<times> engine" where
  "task_start exec defs t ws eng =
     (case lm_read_path (wd_log eng) (ra_on (tk_at t)) None of
        Inl err \<Rightarrow> (Finished (Failed err), eng)
      | Inr path \<Rightarrow>
          (Running (task_ctx defs t ws path)
             (exec (pd_id (tk_def t)) (fst (run_versions defs (tk_def t))) (tk_input t)), eng))"

text \<open>The read set is recorded before the layer commits; a failed run's layer is aborted.\<close>

definition task_return :: "task \<Rightarrow> recording_ctx \<Rightarrow> unit result \<Rightarrow> engine \<Rightarrow> phase \<times> engine" where
  "task_return t ctx r eng =
     (case r of
        Inr _ \<Rightarrow>
          (Recorded ctx,
           on_index (dep_record (ra_home (tk_at t)) \<lparr>iv_producer = pd_id (tk_def t), iv_input = tk_input t\<rparr>
             (rc_read_set ctx) (rc_write_set ctx)) eng)
      | Inl err \<Rightarrow>
          (case on_log (ws_abort (rc_session ctx)) eng of
             (Inl other, eng) \<Rightarrow> (Finished (Failed other), eng)
           | (Inr _, eng) \<Rightarrow> (Finished (Failed err), eng)))"

definition task_commit :: "recording_ctx \<Rightarrow> engine \<Rightarrow> phase \<times> engine" where
  "task_commit ctx eng =
     (case on_log (ws_commit (rc_session ctx)) eng of
        (Inl err, eng) \<Rightarrow> (Finished (Failed err), eng)
      | (Inr layer, eng) \<Rightarrow> (Finished (Ran layer (rc_read_set ctx) (rc_write_set ctx)), eng))"

definition run_step ::
  "(u8 list \<Rightarrow> u8 list) \<Rightarrow> task \<Rightarrow> recording_ctx \<Rightarrow> program \<Rightarrow> engine \<Rightarrow> phase \<times> engine" where
  "run_step hash t ctx p eng =
     (case p of
        Return r \<Rightarrow> task_return t ctx r eng
      | Panic \<Rightarrow> (Finished Panicked, eng)
      | _ \<Rightarrow> (let (p, ctx, m) = prog_step hash p ctx (wd_log eng) in (Running ctx p, eng\<lparr>wd_log := m\<rparr>)))"

definition phase_step ::
  "(u8 list \<Rightarrow> u8 list) \<Rightarrow> executor \<Rightarrow> def_view \<Rightarrow> task \<Rightarrow> engine \<Rightarrow> phase \<times> engine" where
  "phase_step hash exec defs t eng =
     (case tk_phase t of
        Waiting \<Rightarrow> task_open defs t eng
      | Opened ws \<Rightarrow> task_start exec defs t ws eng
      | Running ctx p \<Rightarrow> run_step hash t ctx p eng
      | Recorded ctx \<Rightarrow> task_commit ctx eng
      | Finished r \<Rightarrow> (Finished r, eng))"

definition task_step ::
  "(u8 list \<Rightarrow> u8 list) \<Rightarrow> executor \<Rightarrow> def_view \<Rightarrow> task \<Rightarrow> engine \<Rightarrow> task \<times> engine" where
  "task_step hash exec defs t eng =
     (let (phase, eng) = phase_step hash exec defs t eng in (t\<lparr>tk_phase := phase\<rparr>, eng))"

section \<open>A run to its end\<close>

text \<open>All calls of the program that are left.\<close>

definition task_drain :: "(u8 list \<Rightarrow> u8 list) \<Rightarrow> task \<Rightarrow> engine \<Rightarrow> task \<times> engine" where
  "task_drain hash t eng =
     (case tk_phase t of
        Running ctx p \<Rightarrow>
          (let (p, ctx, m) = run_program hash p ctx (wd_log eng)
           in (t\<lparr>tk_phase := Running ctx p\<rparr>, eng\<lparr>wd_log := m\<rparr>))
      | _ \<Rightarrow> (t, eng))"

definition task_complete ::
  "(u8 list \<Rightarrow> u8 list) \<Rightarrow> executor \<Rightarrow> def_view \<Rightarrow> task \<Rightarrow> engine \<Rightarrow> task \<times> engine" where
  "task_complete hash exec defs t eng =
     (let (t, eng) = task_step hash exec defs t eng;
          (t, eng) = task_step hash exec defs t eng;
          (t, eng) = task_drain hash t eng;
          (t, eng) = task_step hash exec defs t eng
      in task_step hash exec defs t eng)"

definition task_outcome :: "task \<Rightarrow> run_outcome option" where
  "task_outcome t = (case tk_phase t of Finished r \<Rightarrow> Some r | _ \<Rightarrow> None)"

definition run ::
  "(u8 list \<Rightarrow> u8 list) \<Rightarrow> executor \<Rightarrow> producer_def \<Rightarrow> def_view \<Rightarrow> pid \<Rightarrow> run_at \<Rightarrow> engine \<Rightarrow>
   (layer_id \<times> cell_at list \<times> cell_at list) result \<times> engine" where
  "run hash exec def defs input at' eng =
     (let (t, eng) = task_complete hash exec defs (task_new def input at') eng in
      (case task_outcome t of
         Some (Ran layer reads writes) \<Rightarrow> Inr (layer, reads, writes)
       | Some (Failed err) \<Rightarrow> Inl err
       | _ \<Rightarrow> Inl (RustPanic ''a producer panicked''), eng))"

end
