(* ===== verification/Derive.thy ===== *)
theory Derive
  imports Producer_Run
begin

text \<open>
  The derivation engine of \<^verbatim>\<open>borg-engine/src/derive.rs\<close>: poison and recovery, the gap and the range a
  round settles, scheduling of a wave, the round itself and inline computation. The source iterates
  \<^verbatim>\<open>HashSet\<close>s of invocations in an unspecified order and runs a wave's tasks concurrently: \<open>pick\<close> lists a
  set in some order, and \<open>sched\<close> says, for each wave, which task makes the next step. \<open>say\<close> is
  \<^verbatim>\<open>BorgError::to_string\<close>. The wave loop and the recursion of \<open>refresh\<close> follow what user code writes and
  need not end, so both are partial functions; \<open>RustPanic\<close> stands for not returning.
\<close>

section \<open>Poison and recovery\<close>

definition CYCLE_RERUN_LIMIT :: u32 where
  "CYCLE_RERUN_LIMIT = 8"

definition producer_version :: "engine \<Rightarrow> producer_id \<Rightarrow> layer_id option" where
  "producer_version eng p = map_option pd_version (hm_get (en_producers eng) p)"

definition producer_ids :: "engine \<Rightarrow> producer_id list" where
  "producer_ids eng = map fst (en_producers eng)"

definition producer_defs :: "engine \<Rightarrow> producer_def list" where
  "producer_defs eng = map snd (en_producers eng)"

definition still_applies :: "engine \<Rightarrow> poisoning \<Rightarrow> bool" where
  "still_applies eng po =
     (case producer_version eng (po_producer po) of None \<Rightarrow> True | Some version \<Rightarrow> applies_to po version)"

definition is_broken :: "engine \<Rightarrow> branch_id \<Rightarrow> producer_id \<Rightarrow> poisoning option" where
  "is_broken eng b p =
     (case List.find (\<lambda>po. po_producer po = p) (poisoned (wd_poison eng) b) of
        None \<Rightarrow> None
      | Some po \<Rightarrow>
          if (case producer_version eng p of None \<Rightarrow> True | Some version \<Rightarrow> applies_to po version)
          then Some po else None)"

definition broken :: "engine \<Rightarrow> branch_id \<Rightarrow> poisoning list" where
  "broken eng b = filter (still_applies eng) (poisoned (wd_poison eng) b)"

definition revive :: "branch_id \<Rightarrow> producer_id \<Rightarrow> engine \<Rightarrow> engine" where
  "revive b p eng =
     on_frontier (rewind b p) (eng\<lparr>wd_poison := clear_poison b p (wd_poison eng)\<rparr>)"

definition retry_broken :: "branch_id \<Rightarrow> engine \<Rightarrow> nat \<times> engine" where
  "retry_broken b eng =
     (let found = broken eng b in (length found, fold (\<lambda>po. revive b (po_producer po)) found eng))"

definition recover :: "branch_id \<Rightarrow> engine \<Rightarrow> engine" where
  "recover b eng =
     fold (\<lambda>po eng. if \<not> still_applies eng po then revive b (po_producer po) eng else eng)
       (poisoned (wd_poison eng) b) eng"

definition record_poisoning ::
  "(borg_error \<Rightarrow> string) \<Rightarrow> branch_id \<Rightarrow> producer_id \<Rightarrow> layer_id \<Rightarrow> borg_error \<Rightarrow> engine \<Rightarrow> engine" where
  "record_poisoning say b p since err eng =
     eng\<lparr>wd_poison := poison b
       \<lparr>po_producer = p, po_version = (case producer_version eng p of None \<Rightarrow> 0 | Some v \<Rightarrow> v),
        po_error = say err, po_since = since\<rparr> (wd_poison eng)\<rparr>"

section \<open>The range to settle\<close>

definition position_of :: "manager \<Rightarrow> layer_id \<Rightarrow> layer_id" where
  "position_of m layer = (case author_of m layer of Some (ADerived _ reflects) \<Rightarrow> reflects | _ \<Rightarrow> layer)"

definition pending :: "engine \<Rightarrow> branch_id \<Rightarrow> producer_id \<Rightarrow> work_gap option" where
  "pending eng b p =
     (case lm_head (wd_log eng) b of
        None \<Rightarrow> None
      | Some head \<Rightarrow>
          (let gap = \<lparr>wg_producer = p, wg_from = watermark (en_frontier eng) b p,
                      wg_to = position_of (wd_log eng) head\<rparr>
           in if gap_is_empty gap then None else Some gap))"

record span =
  sp_fork_at :: layer_id
  sp_reflects :: layer_id
  sp_layers :: "layer_id list"

text \<open>What the walk over the range has found: the layers, the top source layer and whether there is work.\<close>

record walk =
  wk_layers :: "layer_id list"
  wk_source :: "layer_id option"
  wk_work :: bool

definition walk_new :: walk where
  "walk_new = \<lparr>wk_layers = [], wk_source = None, wk_work = False\<rparr>"

text \<open>The ids \<open>(from + 1)..=head\<close>; the walk ends at a source layer that is not settled yet.\<close>

fun span_walk :: "manager \<Rightarrow> branch_id \<Rightarrow> layer_id \<Rightarrow> layer_id list \<Rightarrow> walk \<Rightarrow> walk" where
  "span_walk m b since [] wk = wk"
| "span_walk m b since (l # ls) wk =
     (case lm_layer m l of
        None \<Rightarrow> span_walk m b since ls wk
      | Some layer \<Rightarrow>
          if ly_branch layer \<noteq> b then span_walk m b since ls wk
          else (case ly_author layer of
                  ASource \<Rightarrow>
                    (case ly_state layer of
                       LCommitted \<Rightarrow>
                         span_walk m b since ls
                           \<lparr>wk_layers = wk_layers wk @ [l], wk_source = Some l, wk_work = True\<rparr>
                     | LAborted \<Rightarrow> span_walk m b since ls wk
                     | _ \<Rightarrow> wk)
                | ADerived _ reflects \<Rightarrow>
                    if ly_state layer \<noteq> LCommitted then span_walk m b since ls wk
                    else span_walk m b since ls
                           (wk\<lparr>wk_layers := wk_layers wk @ [l], wk_work := (wk_work wk \<or> reflects > since)\<rparr>)))"

definition ids_between :: "layer_id \<Rightarrow> layer_id \<Rightarrow> layer_id list" where
  "ids_between lo hi = map word_of_nat [unat lo + 1 ..< unat hi + 1]"

text \<open>\<open>from.0 + 1\<close> panics on the last id.\<close>

definition find_span :: "manager \<Rightarrow> branch_id \<Rightarrow> layer_id \<Rightarrow> span option result" where
  "find_span m b since =
     (case lm_head m b of
        None \<Rightarrow> Inr None
      | Some head \<Rightarrow>
          if since = - 1 then Inl (RustPanic ''attempt to add with overflow'')
          else
            (let wk = span_walk m b since (ids_between since head) walk_new in
             if wk_layers wk = [] \<or> \<not> wk_work wk then Inr None
             else
               (let fork_at = last (wk_layers wk) in
                case wk_source wk of
                  Some base \<Rightarrow> Inr (Some \<lparr>sp_fork_at = fork_at, sp_reflects = base, sp_layers = wk_layers wk\<rparr>)
                | None \<Rightarrow>
                    (case lm_read_path m b (Some fork_at) of
                       Inl err \<Rightarrow> Inl err
                     | Inr path \<Rightarrow>
                         (case highest_source_layer m path of
                            None \<Rightarrow> Inr None
                          | Some base \<Rightarrow>
                              Inr (Some \<lparr>sp_fork_at = fork_at, sp_reflects = base, sp_layers = wk_layers wk\<rparr>))))))"

section \<open>Scheduling a wave\<close>

type_synonym changeset = "(cell_at \<times> producer_id option) list"

fun changes_of :: "event result list \<Rightarrow> changeset result" where
  "changes_of [] = Inr []"
| "changes_of (row # rows) =
     (case row of
        Inl err \<Rightarrow> Inl err
      | Inr event \<Rightarrow>
          (case changes_of rows of
             Inl err \<Rightarrow> Inl err
           | Inr cells \<Rightarrow>
               Inr ((CellAt (ev_cell event) (ev_version event), map_option dn_producer (ev_derivation event)) # cells)))"

definition cells_of :: "manager \<Rightarrow> layer_id \<Rightarrow> changeset result" where
  "cells_of m layer = changes_of (read_layer (mg_db m) layer)"

definition is_materialized_version :: "engine \<Rightarrow> def_view \<Rightarrow> producer_def \<Rightarrow> bool" where
  "is_materialized_version eng defs def =
     (case migration_role_of defs def of
        None \<Rightarrow> True
      | Some role \<Rightarrow> en_live eng = [] \<or> ClientVersion (dv_layer (mr_output role)) \<in> set (en_live eng))"

text \<open>A write by the other half of a migration's own step.\<close>

definition by_peer :: "migration_role option \<Rightarrow> producer_id option \<Rightarrow> bool" where
  "by_peer role by =
     (case (by, role) of (Some p, Some role) \<Rightarrow> p \<in> set (mr_step role) | _ \<Rightarrow> False)"

definition triggers :: "migration_role option \<Rightarrow> producer_def \<Rightarrow> cell_at \<times> producer_id option \<Rightarrow> bool" where
  "triggers role def change =
     (let (cell, by) = change in
      \<not> by_peer role by \<and> by \<noteq> Some (pd_id def) \<and> cr_buffer (ca_cell cell) = pd_source def \<and>
      (case role of None \<Rightarrow> True | Some role \<Rightarrow> ca_version cell = mr_input role))"

definition invalidated_by ::
  "dep_index \<Rightarrow> branch_id \<Rightarrow> changeset \<Rightarrow> producer_def \<Rightarrow> def_view \<Rightarrow> invocation_id set" where
  "invalidated_by di b cells def defs =
     (let role = migration_role_of defs def;
          written = map fst (filter (\<lambda>(_, by). \<not> by_peer role by) cells)
      in {iv \<in> dependents di b written. iv_producer iv = pd_id def} \<union>
         (\<lambda>(cell, _). \<lparr>iv_producer = pd_id def, iv_input = cell_pid (ca_cell cell)\<rparr>) `
           set (filter (triggers role def) cells))"

fun rows_cells :: "event result list \<Rightarrow> cell_ref list result" where
  "rows_cells [] = Inr []"
| "rows_cells (row # rows) =
     (case row of
        Inl err \<Rightarrow> Inl err
      | Inr event \<Rightarrow> (case rows_cells rows of Inl err \<Rightarrow> Inl err | Inr cells \<Rightarrow> Inr (ev_cell event # cells)))"

fun backfill_cells ::
  "inner \<Rightarrow> read_path \<Rightarrow> migration_role option \<Rightarrow> producer_id \<Rightarrow> cell_ref list \<Rightarrow> invocation_id list result" where
  "backfill_cells db path role p [] = Inr []"
| "backfill_cells db path role p (cell # cells) =
     (case (case role of
              None \<Rightarrow> Inr True
            | Some role \<Rightarrow>
                (case get_cell db path cell (mr_input role) of
                   Inl err \<Rightarrow> Inl err
                 | Inr None \<Rightarrow> Inr False
                 | Inr (Some found) \<Rightarrow>
                     Inr (case ev_derivation (ld_event found) of
                            None \<Rightarrow> True | Some by \<Rightarrow> dn_producer by \<notin> set (mr_step role)))) of
        Inl err \<Rightarrow> Inl err
      | Inr usable \<Rightarrow>
          (case backfill_cells db path role p cells of
             Inl err \<Rightarrow> Inl err
           | Inr found \<Rightarrow>
               Inr (if usable then \<lparr>iv_producer = p, iv_input = cell_pid cell\<rparr> # found else found)))"

definition backfill ::
  "engine \<Rightarrow> branch_id \<Rightarrow> branch_id \<Rightarrow> producer_def \<Rightarrow> def_view \<Rightarrow> invocation_id list result" where
  "backfill eng b round_branch def defs =
     (let mark = watermark (en_frontier eng) b (pd_id def) in
      if mark \<noteq> 0 \<and> mark \<ge> pd_version def then Inr []
      else
        (case lm_read_path (wd_log eng) round_branch None of
           Inl err \<Rightarrow> Inl err
         | Inr path \<Rightarrow>
             (case rows_cells (scan_buffer (mg_db (wd_log eng)) path (pd_source def)) of
                Inl err \<Rightarrow> Inl err
              | Inr cells \<Rightarrow>
                  backfill_cells (mg_db (wd_log eng)) path (migration_role_of defs def) (pd_id def) (remdups cells))))"

record plan =
  pl_work :: "(producer_def \<times> invocation_id) list"
  pl_scheduled :: "invocation_id set"
  pl_reruns :: "(invocation_id, u32) hmap"
  pl_seeded :: "producer_id set"

text \<open>One run per invocation and wave; the ninth run at a fixed head is a cycle and poisons the producer.\<close>

fun plan_candidates ::
  "(borg_error \<Rightarrow> string) \<Rightarrow> branch_id \<Rightarrow> layer_id \<Rightarrow> producer_def \<Rightarrow> invocation_id list \<Rightarrow> plan \<Rightarrow> engine \<Rightarrow>
   plan \<times> engine" where
  "plan_candidates say b reflects def [] pl eng = (pl, eng)"
| "plan_candidates say b reflects def (iv # ivs) pl eng =
     (if iv \<in> pl_scheduled pl then plan_candidates say b reflects def ivs pl eng
      else
        (let runs = hm_get_or 0 (pl_reruns pl) iv + 1;
             pl = pl\<lparr>pl_scheduled := insert iv (pl_scheduled pl), pl_reruns := hm_insert iv runs (pl_reruns pl)\<rparr>
         in if runs > CYCLE_RERUN_LIMIT
            then (pl, record_poisoning say b (pd_id def) reflects (ProducerCycle (pd_id def) runs) eng)
            else plan_candidates say b reflects def ivs (pl\<lparr>pl_work := pl_work pl @ [(def, iv)]\<rparr>) eng))"

text \<open>Whether a wave's layer is this producer's business at all.\<close>

definition skipped :: "engine \<Rightarrow> branch_id \<Rightarrow> layer_id \<Rightarrow> def_view \<Rightarrow> producer_def \<Rightarrow> bool" where
  "skipped eng b position defs def \<longleftrightarrow>
     is_broken eng b (pd_id def) \<noteq> None \<or>
     watermark (en_frontier eng) b (pd_id def) \<ge> position \<or>
     (case pd_kind def of PKMigration _ \<Rightarrow> migration_role_of defs def = None | _ \<Rightarrow> False) \<or>
     \<not> is_materialized_version eng defs def"

fun plan_producers ::
  "(borg_error \<Rightarrow> string) \<Rightarrow> (invocation_id set \<Rightarrow> invocation_id list) \<Rightarrow> branch_id \<Rightarrow> branch_id \<Rightarrow> layer_id \<Rightarrow>
   def_view \<Rightarrow> layer_id \<Rightarrow> changeset \<Rightarrow> producer_def list \<Rightarrow> plan \<Rightarrow> engine \<Rightarrow> plan result \<times> engine" where
  "plan_producers say pick b round_branch reflects defs position cells [] pl eng = (Inr pl, eng)"
| "plan_producers say pick b round_branch reflects defs position cells (def # others) pl eng =
     (if skipped eng b position defs def
      then plan_producers say pick b round_branch reflects defs position cells others pl eng
      else
        (let dirty = invalidated_by (wd_index eng) b cells def defs;
             fresh = pd_id def \<notin> pl_seeded pl;
             pl = pl\<lparr>pl_seeded := insert (pd_id def) (pl_seeded pl)\<rparr>
         in case (if fresh then backfill eng b round_branch def defs else Inr []) of
              Inl err \<Rightarrow> (Inl err, eng)
            | Inr seeds \<Rightarrow>
                (let (pl, eng) = plan_candidates say b reflects def (pick (dirty \<union> set seeds)) pl eng
                 in plan_producers say pick b round_branch reflects defs position cells others pl eng)))"

fun plan_layers ::
  "(borg_error \<Rightarrow> string) \<Rightarrow> (invocation_id set \<Rightarrow> invocation_id list) \<Rightarrow> branch_id \<Rightarrow> branch_id \<Rightarrow> layer_id \<Rightarrow>
   def_view \<Rightarrow> layer_id list \<Rightarrow> plan \<Rightarrow> engine \<Rightarrow> plan result \<times> engine" where
  "plan_layers say pick b round_branch reflects defs [] pl eng = (Inr pl, eng)"
| "plan_layers say pick b round_branch reflects defs (layer # wave) pl eng =
     (case cells_of (wd_log eng) layer of
        Inl err \<Rightarrow> (Inl err, eng)
      | Inr cells \<Rightarrow>
          (case plan_producers say pick b round_branch reflects defs (position_of (wd_log eng) layer) cells
                  (producer_defs eng) pl eng of
             (Inl err, eng) \<Rightarrow> (Inl err, eng)
           | (Inr pl, eng) \<Rightarrow> plan_layers say pick b round_branch reflects defs wave pl eng))"

text \<open>The counters and the seeded producers outlive the wave, its work and its set do not.\<close>

definition schedule ::
  "(borg_error \<Rightarrow> string) \<Rightarrow> (invocation_id set \<Rightarrow> invocation_id list) \<Rightarrow> branch_id \<Rightarrow> branch_id \<Rightarrow> layer_id list \<Rightarrow>
   layer_id \<Rightarrow> def_view \<Rightarrow> (invocation_id, u32) hmap \<Rightarrow> producer_id set \<Rightarrow> engine \<Rightarrow> plan result \<times> engine" where
  "schedule say pick b round_branch wave reflects defs reruns seeded eng =
     plan_layers say pick b round_branch reflects defs wave
       \<lparr>pl_work = [], pl_scheduled = {}, pl_reruns = reruns, pl_seeded = seeded\<rparr> eng"

end
