(* ===== verification/Settle.thy ===== *)
theory Settle
  imports Derive
begin

text \<open>
  Rounds and inline computation (\<^verbatim>\<open>borg-engine/src/derive.rs\<close>, from \<open>settle\<close> on). A wave's tasks
  take their steps in the order that \<open>sched\<close> lists for it, no more than the engine's bound of them past
  their start at a time; what is left when the list ends runs one task after the other. When a run
  panics, joining it fails the round and the tasks that are left are cancelled where they stand.
\<close>

section \<open>A wave\<close>

record wave =
  wv_tasks :: "task list"
  wv_ended :: "(producer_id \<times> run_outcome) list"
  wv_round :: round

text \<open>The permit: a waiting task starts only when fewer than the bound are under way.\<close>

definition under_way :: "task \<Rightarrow> bool" where
  "under_way t = (case tk_phase t of Waiting \<Rightarrow> False | Finished _ \<Rightarrow> False | _ \<Rightarrow> True)"

definition may_step :: "engine \<Rightarrow> task list \<Rightarrow> task \<Rightarrow> bool" where
  "may_step eng tasks t =
     (case tk_phase t of
        Waiting \<Rightarrow> length (filter under_way tasks) < en_parallelism eng
      | Finished _ \<Rightarrow> False
      | _ \<Rightarrow> True)"

text \<open>A task that ends hands its accesses to the round and joins the ended ones.\<close>

definition wave_join :: "task \<Rightarrow> wave \<Rightarrow> wave" where
  "wave_join t wv =
     (case task_outcome t of
        None \<Rightarrow> wv
      | Some r \<Rightarrow>
          wv\<lparr>wv_ended := wv_ended wv @ [(pd_id (tk_def t), r)],
             wv_round := (case r of
                            Ran layer reads writes \<Rightarrow> round_ran layer reads writes (wv_round wv)
                          | _ \<Rightarrow> wv_round wv)\<rparr>)"

definition wave_step ::
  "(u8 list \<Rightarrow> u8 list) \<Rightarrow> executor \<Rightarrow> def_view \<Rightarrow> nat \<Rightarrow> wave \<Rightarrow> engine \<Rightarrow> wave \<times> engine" where
  "wave_step hash exec defs i wv eng =
     (if i < length (wv_tasks wv) \<and> may_step eng (wv_tasks wv) (wv_tasks wv ! i)
      then (let (t, eng) = task_step hash exec defs (wv_tasks wv ! i) eng
            in (wave_join t (wv\<lparr>wv_tasks := (wv_tasks wv)[i := t]\<rparr>), eng))
      else (wv, eng))"

fun wave_steps ::
  "(u8 list \<Rightarrow> u8 list) \<Rightarrow> executor \<Rightarrow> def_view \<Rightarrow> nat list \<Rightarrow> wave \<Rightarrow> engine \<Rightarrow> wave \<times> engine" where
  "wave_steps hash exec defs [] wv eng = (wv, eng)"
| "wave_steps hash exec defs (i # is) wv eng =
     (let (wv, eng) = wave_step hash exec defs i wv eng in wave_steps hash exec defs is wv eng)"

definition panicked :: "wave \<Rightarrow> bool" where
  "panicked wv \<longleftrightarrow> Panicked \<in> snd ` set (wv_ended wv)"

definition wave_finish ::
  "(u8 list \<Rightarrow> u8 list) \<Rightarrow> executor \<Rightarrow> def_view \<Rightarrow> nat \<Rightarrow> wave \<Rightarrow> engine \<Rightarrow> wave \<times> engine" where
  "wave_finish hash exec defs i wv eng =
     (if panicked wv \<or> task_outcome (wv_tasks wv ! i) \<noteq> None then (wv, eng)
      else (let (t, eng) = task_complete hash exec defs (wv_tasks wv ! i) eng
            in (wave_join t (wv\<lparr>wv_tasks := (wv_tasks wv)[i := t]\<rparr>), eng)))"

fun wave_finishes ::
  "(u8 list \<Rightarrow> u8 list) \<Rightarrow> executor \<Rightarrow> def_view \<Rightarrow> nat list \<Rightarrow> wave \<Rightarrow> engine \<Rightarrow> wave \<times> engine" where
  "wave_finishes hash exec defs [] wv eng = (wv, eng)"
| "wave_finishes hash exec defs (i # is) wv eng =
     (let (wv, eng) = wave_finish hash exec defs i wv eng in wave_finishes hash exec defs is wv eng)"

definition wave_new :: "run_at \<Rightarrow> (producer_def \<times> invocation_id) list \<Rightarrow> round \<Rightarrow> wave" where
  "wave_new at' work r =
     \<lparr>wv_tasks = map (\<lambda>(def, iv). task_new def (iv_input iv) at') work, wv_ended = [], wv_round = r\<rparr>"

definition run_wave ::
  "(u8 list \<Rightarrow> u8 list) \<Rightarrow> executor \<Rightarrow> def_view \<Rightarrow> nat list \<Rightarrow> wave \<Rightarrow> engine \<Rightarrow> wave \<times> engine" where
  "run_wave hash exec defs is wv eng =
     (let (wv, eng) = wave_steps hash exec defs is wv eng
      in wave_finishes hash exec defs [0 ..< length (wv_tasks wv)] wv eng)"

text \<open>Joining: layers of the next wave, or the poisoning of the producer that failed.\<close>

fun join_all ::
  "(borg_error \<Rightarrow> string) \<Rightarrow> branch_id \<Rightarrow> layer_id \<Rightarrow> (producer_id \<times> run_outcome) list \<Rightarrow> layer_id list \<Rightarrow> engine \<Rightarrow>
   layer_id list result \<times> engine" where
  "join_all say b reflects [] next eng = (Inr next, eng)"
| "join_all say b reflects ((p, r) # rest) next eng =
     (case r of
        Ran layer _ _ \<Rightarrow> join_all say b reflects rest (next @ [layer]) eng
      | Failed err \<Rightarrow> join_all say b reflects rest next (record_poisoning say b p reflects err eng)
      | Panicked \<Rightarrow> (Inl (Execution ''a producer run did not finish''), eng))"

section \<open>A round\<close>

record round_state =
  st_wave :: "layer_id list"
  st_reruns :: "(invocation_id, u32) hmap"
  st_seeded :: "producer_id set"
  st_round :: round
  st_executed :: nat
  st_engine :: engine

text \<open>One turn of the wave loop: schedule, run, join. The counters live on when the turn fails, the
  round does not.\<close>

definition settle_turn ::
  "(u8 list \<Rightarrow> u8 list) \<Rightarrow> executor \<Rightarrow> (borg_error \<Rightarrow> string) \<Rightarrow> (invocation_id set \<Rightarrow> invocation_id list) \<Rightarrow>
   def_view \<Rightarrow> layer_id \<Rightarrow> nat list \<Rightarrow> round_state \<Rightarrow> borg_error option \<times> round_state" where
  "settle_turn hash exec say pick defs reflects is st =
     (let r = st_round st; b = rd_parent r in
      case schedule say pick b (rd_branch r) (st_wave st) reflects defs (st_reruns st) (st_seeded st) (st_engine st) of
        (Inl err, eng) \<Rightarrow> (Some err, st\<lparr>st_engine := eng\<rparr>)
      | (Inr pl, eng) \<Rightarrow>
          (let at' = \<lparr>ra_on = rd_branch r, ra_home = b, ra_fresh_as_of = reflects, ra_reflects = reflects\<rparr>;
               (wv, eng) = run_wave hash exec defs is (wave_new at' (pl_work pl) r) eng
           in case join_all say b reflects (wv_ended wv) [] eng of
                (Inl err, eng) \<Rightarrow> (Some err, st\<lparr>st_engine := eng\<rparr>)
              | (Inr next, eng) \<Rightarrow>
                  (None,
                   \<lparr>st_wave = next, st_reruns = pl_reruns pl, st_seeded = pl_seeded pl, st_round = wv_round wv,
                    st_executed = st_executed st + length next, st_engine = eng\<rparr>)))"

partial_function (option) settle_loop ::
  "(u8 list \<Rightarrow> u8 list) \<Rightarrow> executor \<Rightarrow> (borg_error \<Rightarrow> string) \<Rightarrow> (invocation_id set \<Rightarrow> invocation_id list) \<Rightarrow>
   def_view \<Rightarrow> layer_id \<Rightarrow> (nat \<Rightarrow> nat list) \<Rightarrow> nat \<Rightarrow> round_state \<Rightarrow> (borg_error option \<times> round_state) option" where
  "settle_loop hash exec say pick defs reflects sched n st =
     (if st_wave st = [] then Some (None, st)
      else (case settle_turn hash exec say pick defs reflects (sched n) st of
              (Some err, st) \<Rightarrow> Some (Some err, st)
            | (None, st) \<Rightarrow> settle_loop hash exec say pick defs reflects sched (n + 1) st))"

definition fork_round :: "branch_id \<Rightarrow> layer_id \<Rightarrow> engine \<Rightarrow> branch_id result \<times> engine" where
  "fork_round owner fork_at eng =
     (let (r, bm) = fork_branch owner fork_at None \<lparr>bm_layers = wd_log eng, bm_next_id = en_next_branch eng\<rparr>
      in (r, eng\<lparr>wd_log := bm_layers bm, en_next_branch := bm_next_id bm\<rparr>))"

definition round_state_new :: "span \<Rightarrow> round \<Rightarrow> engine \<Rightarrow> round_state" where
  "round_state_new sp r eng =
     \<lparr>st_wave = sp_layers sp, st_reruns = [], st_seeded = {}, st_round = r, st_executed = 0, st_engine = eng\<rparr>"

text \<open>The merge, and then the watermark of every producer, whether or not its invocations landed.\<close>

definition settle_end :: "branch_id \<Rightarrow> layer_id \<Rightarrow> round_state \<Rightarrow> round_outcome result \<times> engine" where
  "settle_end b reflects st =
     (case on_log (merge_round (st_round st)) (st_engine st) of
        (Inl err, eng) \<Rightarrow> (Inl err, eng)
      | (Inr outcome, eng) \<Rightarrow>
          (Inr (outcome\<lparr>ro_executed := st_executed st\<rparr>),
           on_frontier (fold (\<lambda>p f. snd (advance b p reflects f)) (producer_ids eng)) eng))"

definition settle_span ::
  "(u8 list \<Rightarrow> u8 list) \<Rightarrow> executor \<Rightarrow> (borg_error \<Rightarrow> string) \<Rightarrow> (invocation_id set \<Rightarrow> invocation_id list) \<Rightarrow>
   (nat \<Rightarrow> nat list) \<Rightarrow> branch_id \<Rightarrow> span \<Rightarrow> engine \<Rightarrow> round_outcome result \<times> engine" where
  "settle_span hash exec say pick sched b sp eng =
     (case lm_layer (wd_log eng) (sp_fork_at sp) of
        None \<Rightarrow> (Inl (StorageError (UnknownLayer (sp_fork_at sp))), eng)
      | Some layer \<Rightarrow>
          (case fork_round (ly_branch layer) (sp_fork_at sp) eng of
             (Inl err, eng) \<Rightarrow> (Inl err, eng)
           | (Inr round_branch, eng) \<Rightarrow>
               (case lm_read_path (wd_log eng) b None of
                  Inl err \<Rightarrow> (Inl err, eng)
                | Inr path \<Rightarrow>
                    (case view (wd_log eng) path of
                       Inl err \<Rightarrow> (Inl err, eng)
                     | Inr defs \<Rightarrow>
                         (case settle_loop hash exec say pick defs (sp_reflects sp) sched 0
                                 (round_state_new sp (round_new round_branch b (sp_fork_at sp)) eng) of
                            None \<Rightarrow> (Inl (RustPanic ''the round does not settle''), eng)
                          | Some (Some err, st) \<Rightarrow> (Inl err, st_engine st)
                          | Some (None, st) \<Rightarrow> settle_end b (sp_reflects sp) st)))))"

definition settle ::
  "(u8 list \<Rightarrow> u8 list) \<Rightarrow> executor \<Rightarrow> (borg_error \<Rightarrow> string) \<Rightarrow> (invocation_id set \<Rightarrow> invocation_id list) \<Rightarrow>
   (nat \<Rightarrow> nat list) \<Rightarrow> branch_id \<Rightarrow> layer_id \<Rightarrow> engine \<Rightarrow> round_outcome result \<times> engine" where
  "settle hash exec say pick sched b l =
     settle_span hash exec say pick sched b \<lparr>sp_fork_at = l, sp_reflects = l, sp_layers = [l]\<rparr>"

definition executed_of :: "round_outcome result \<times> engine \<Rightarrow> nat result \<times> engine" where
  "executed_of r = (case r of (Inl err, eng) \<Rightarrow> (Inl err, eng) | (Inr outcome, eng) \<Rightarrow> (Inr (ro_executed outcome), eng))"

definition recompute ::
  "(u8 list \<Rightarrow> u8 list) \<Rightarrow> executor \<Rightarrow> (borg_error \<Rightarrow> string) \<Rightarrow> (invocation_id set \<Rightarrow> invocation_id list) \<Rightarrow>
   (nat \<Rightarrow> nat list) \<Rightarrow> branch_id \<Rightarrow> engine \<Rightarrow> nat result \<times> engine" where
  "recompute hash exec say pick sched b eng =
     (case lm_read_path (wd_log eng) b None of
        Inl err \<Rightarrow> (Inl err, eng)
      | Inr path \<Rightarrow>
          (case highest_source_layer (wd_log eng) path of
             None \<Rightarrow> (Inr 0, eng)
           | Some source \<Rightarrow>
               (let eng = recover b eng;
                    eng = on_frontier (fold (rewind b) (producer_ids eng)) eng
                in executed_of (settle hash exec say pick sched b source eng))))"

definition catch_up ::
  "(u8 list \<Rightarrow> u8 list) \<Rightarrow> executor \<Rightarrow> (borg_error \<Rightarrow> string) \<Rightarrow> (invocation_id set \<Rightarrow> invocation_id list) \<Rightarrow>
   (nat \<Rightarrow> nat list) \<Rightarrow> branch_id \<Rightarrow> engine \<Rightarrow> nat result \<times> engine" where
  "catch_up hash exec say pick sched b eng =
     (let eng = recover b eng;
          since = (case settled (en_frontier eng) b (producer_ids eng) of None \<Rightarrow> 0 | Some l \<Rightarrow> l)
      in case find_span (wd_log eng) b since of
           Inl err \<Rightarrow> (Inl err, eng)
         | Inr None \<Rightarrow> (Inr 0, eng)
         | Inr (Some sp) \<Rightarrow> executed_of (settle_span hash exec say pick sched b sp eng))"

section \<open>Computing one cell now\<close>

definition run_now ::
  "(u8 list \<Rightarrow> u8 list) \<Rightarrow> executor \<Rightarrow> branch_id \<Rightarrow> producer_id \<Rightarrow> pid \<Rightarrow> def_view \<Rightarrow> engine \<Rightarrow> unit result \<times> engine" where
  "run_now hash exec b p input defs eng =
     (case hm_get (en_producers eng) p of
        None \<Rightarrow> (Inr (), eng)
      | Some def \<Rightarrow>
          if is_broken eng b p \<noteq> None then (Inr (), eng)
          else
            (let head = (case lm_head (wd_log eng) b of Some h \<Rightarrow> h | None \<Rightarrow> 0) in
             case run hash exec def defs input
                    \<lparr>ra_on = b, ra_home = b, ra_fresh_as_of = head, ra_reflects = watermark (en_frontier eng) b p\<rparr> eng of
               (Inl err, eng) \<Rightarrow> (Inl err, eng)
             | (Inr _, eng) \<Rightarrow> (Inr (), eng)))"

fun run_hops ::
  "(u8 list \<Rightarrow> u8 list) \<Rightarrow> executor \<Rightarrow> branch_id \<Rightarrow> pid \<Rightarrow> def_view \<Rightarrow> migration_hop list \<Rightarrow> engine \<Rightarrow>
   unit result \<times> engine" where
  "run_hops hash exec b input defs [] eng = (Inr (), eng)"
| "run_hops hash exec b input defs (hop # hops) eng =
     (case run_now hash exec b (mh_producer hop) input defs eng of
        (Inl err, eng) \<Rightarrow> (Inl err, eng)
      | (Inr _, eng) \<Rightarrow> run_hops hash exec b input defs hops eng)"

text \<open>The first materialized version from which the migrations lead here.\<close>

fun first_path :: "def_view \<Rightarrow> buffer_id \<Rightarrow> def_version \<Rightarrow> def_version list \<Rightarrow> (def_version \<times> migration_hop list) option" where
  "first_path defs buffer version [] = None"
| "first_path defs buffer version (v # vs) =
     (case def_path defs buffer v version of
        Some hops \<Rightarrow> Some (v, hops)
      | None \<Rightarrow> first_path defs buffer version vs)"

text \<open>What one call of \<open>refresh\<close> has to do beyond its own cell: other cells first, then producers.\<close>

datatype owed =
    Nothing_owed
  | Unresolved borg_error
  | Owed "cell_at list" "migration_hop list" "producer_id option" def_view

definition what_is_owed :: "branch_id \<Rightarrow> cell_ref \<Rightarrow> def_version \<Rightarrow> engine \<Rightarrow> owed" where
  "what_is_owed b cell version eng =
     (case lm_read_path (wd_log eng) b None of
        Inl err \<Rightarrow> Unresolved err
      | Inr path \<Rightarrow>
          (case view (wd_log eng) path of
             Inl err \<Rightarrow> Unresolved err
           | Inr defs \<Rightarrow>
               (case get_cell (mg_db (wd_log eng)) path cell version of
                  Inl err \<Rightarrow> Unresolved err
                | Inr None \<Rightarrow>
                    (case first_path defs (cr_buffer cell) version (cell_versions (mg_db (wd_log eng)) path cell) of
                       None \<Rightarrow> Nothing_owed
                     | Some (v, hops) \<Rightarrow> Owed [CellAt cell v] hops None defs)
                | Inr (Some found) \<Rightarrow>
                    (case ev_derivation (ld_event found) of
                       None \<Rightarrow> Nothing_owed
                     | Some by \<Rightarrow> Owed (dn_read_set by) [] (Some (dn_producer by)) defs))))"

definition pay ::
  "(u8 list \<Rightarrow> u8 list) \<Rightarrow> executor \<Rightarrow> branch_id \<Rightarrow> cell_ref \<Rightarrow> migration_hop list \<Rightarrow> producer_id option \<Rightarrow> def_view \<Rightarrow>
   engine \<Rightarrow> unit result \<times> engine" where
  "pay hash exec b cell hops producer defs eng =
     (case producer of
        None \<Rightarrow> run_hops hash exec b (cell_pid cell) defs hops eng
      | Some p \<Rightarrow> run_now hash exec b p (cell_pid cell) defs eng)"

text \<open>The cells of the list in turn, each with what it was computed from before it.\<close>

partial_function (option) refresh_all ::
  "(u8 list \<Rightarrow> u8 list) \<Rightarrow> executor \<Rightarrow> branch_id \<Rightarrow> cell_at list \<Rightarrow> cell_at set \<Rightarrow> engine \<Rightarrow>
   (unit result \<times> cell_at set \<times> engine) option" where
  "refresh_all hash exec b cells computing eng =
     (case cells of
        [] \<Rightarrow> Some (Inr (), computing, eng)
      | d # rest \<Rightarrow>
          if d \<in> computing then refresh_all hash exec b rest computing eng
          else
            (case what_is_owed b (ca_cell d) (ca_version d) eng of
               Unresolved err \<Rightarrow> Some (Inl err, insert d computing, eng)
             | Nothing_owed \<Rightarrow> refresh_all hash exec b rest (insert d computing) eng
             | Owed inputs hops producer defs \<Rightarrow>
                 Option.bind (refresh_all hash exec b inputs (insert d computing) eng)
                   (\<lambda>(r, computing, eng).
                      case r of
                        Inl err \<Rightarrow> Some (Inl err, computing, eng)
                      | Inr _ \<Rightarrow>
                          (case pay hash exec b (ca_cell d) hops producer defs eng of
                             (Inl err, eng) \<Rightarrow> Some (Inl err, computing, eng)
                           | (Inr _, eng) \<Rightarrow> refresh_all hash exec b rest computing eng))))"

definition compute_now ::
  "(u8 list \<Rightarrow> u8 list) \<Rightarrow> executor \<Rightarrow> branch_id \<Rightarrow> cell_ref \<Rightarrow> def_version \<Rightarrow> engine \<Rightarrow> unit result \<times> engine" where
  "compute_now hash exec b cell version eng =
     (case refresh_all hash exec b [CellAt cell version] {} eng of
        None \<Rightarrow> (Inl (RustPanic ''refresh does not return''), eng)
      | Some (r, _, eng) \<Rightarrow> (r, eng))"

text \<open>The resolver over this engine.\<close>

definition engine_resolve ::
  "(u8 list \<Rightarrow> u8 list) \<Rightarrow> executor \<Rightarrow> branch_id \<Rightarrow> cell_ref \<Rightarrow> layer_id option \<Rightarrow> client_version \<Rightarrow>
   freshness_requirement \<Rightarrow> engine \<Rightarrow> val option resolved result \<times> engine" where
  "engine_resolve hash exec = resolve (compute_now hash exec)"

end
