(* ===== verification/Resolver_Properties.thy ===== *)
theory Resolver_Properties
  imports Resolver
begin

text \<open>
  What the read path promises. \<open>validate\<close> always returns, whatever stored records depend on, and where
  the records form no cycle it is the composition of watermarks that the specification names; an
  envelope never claims more than the layer read, and never calls a value current whose inputs moved.
\<close>

section \<open>The records a path can reach\<close>

definition reachable_cells :: "inner \<Rightarrow> read_path \<Rightarrow> cell_at set" where
  "reachable_cells db path = {d. \<exists>found. get_cell db path (ca_cell d) (ca_version d) = Inr (Some found)}"

lemma histories_finite: "finite {(c, v). history_at reads b c v \<noteq> None}"
proof -
  let ?cells = "hm_get_or [] reads b"
  have "{(c, v). history_at reads b c v \<noteq> None} \<subseteq>
      (\<Union>(c, vs) \<in> set ?cells. (\<lambda>(v, _). (c, v)) ` set vs)"
    by (force simp: history_at_def hm_get_or_def dest: map_of_SomeD split: option.splits)
  then show ?thesis by (rule finite_subset) auto
qed

lemma get_cell_finite: "finite {(c, v). get_cell db path c v \<noteq> Inr None}"
proof (induction path)
  case (Cons seg path)
  obtain b bound where seg: "seg = (b, bound)" by (cases seg)
  have "{(c, v). get_cell db (seg # path) c v \<noteq> Inr None} \<subseteq>
      {(c, v). history_at (in_reads db) b c v \<noteq> None} \<union> {(c, v). get_cell db path c v \<noteq> Inr None}"
    by (auto simp: seg split: option.splits)
  then show ?case by (rule finite_subset) (use histories_finite[of "in_reads db" b] Cons.IH in simp)
qed simp

lemma reachable_finite: "finite (reachable_cells db path)"
proof -
  have "reachable_cells db path \<subseteq> (\<lambda>(c, v). CellAt c v) ` {(c, v). get_cell db path c v \<noteq> Inr None}"
    by (force simp: reachable_cells_def image_iff intro: cell_at.expand)
  then show ?thesis by (rule finite_subset) (simp add: get_cell_finite)
qed

section \<open>The loop as a relation\<close>

text \<open>One rule per branch of the source's loop.\<close>

inductive validates ::
  "inner \<Rightarrow> read_path \<Rightarrow> layer_id \<Rightarrow> layer_id \<Rightarrow> cell_at list \<Rightarrow> layer_id \<Rightarrow> composed \<Rightarrow> layer_id result \<Rightarrow> composed \<Rightarrow> bool"
  for db path target where
  Done: "validates db path target fresh [] mark c (Inr mark) c"
| Unreadable: "get_cell db path (ca_cell d) (ca_version d) = Inl err \<Longrightarrow>
    validates db path target fresh (d # rest) mark c (Inl err) c"
| Absent: "get_cell db path (ca_cell d) (ca_version d) = Inr None \<Longrightarrow>
    validates db path target fresh rest mark c r c' \<Longrightarrow> validates db path target fresh (d # rest) mark c r c'"
| Moved: "get_cell db path (ca_cell d) (ca_version d) = Inr (Some found) \<Longrightarrow> landed_reflects found > fresh \<Longrightarrow>
    validates db path target fresh (d # rest) mark c (Inr fresh) c"
| Source: "get_cell db path (ca_cell d) (ca_version d) = Inr (Some found) \<Longrightarrow> landed_reflects found \<le> fresh \<Longrightarrow>
    ev_derivation (ld_event found) = None \<Longrightarrow> validates db path target fresh rest mark c r c' \<Longrightarrow>
    validates db path target fresh (d # rest) mark c r c'"
| Known: "get_cell db path (ca_cell d) (ca_version d) = Inr (Some found) \<Longrightarrow> landed_reflects found \<le> fresh \<Longrightarrow>
    ev_derivation (ld_event found) = Some up \<Longrightarrow> hm_get c d = Some (Some known) \<Longrightarrow>
    validates db path target fresh rest (min mark known) c r c' \<Longrightarrow>
    validates db path target fresh (d # rest) mark c r c'"
| Pending: "get_cell db path (ca_cell d) (ca_version d) = Inr (Some found) \<Longrightarrow> landed_reflects found \<le> fresh \<Longrightarrow>
    ev_derivation (ld_event found) = Some up \<Longrightarrow> hm_get c d = Some None \<Longrightarrow>
    validates db path target fresh rest (min mark (dn_fresh_as_of up)) c r c' \<Longrightarrow>
    validates db path target fresh (d # rest) mark c r c'"
| Fail: "get_cell db path (ca_cell d) (ca_version d) = Inr (Some found) \<Longrightarrow> landed_reflects found \<le> fresh \<Longrightarrow>
    ev_derivation (ld_event found) = Some up \<Longrightarrow> hm_get c d = None \<Longrightarrow>
    validates db path target (dn_fresh_as_of up) (dn_read_set up) target (hm_insert d None c) (Inl err) c' \<Longrightarrow>
    validates db path target fresh (d # rest) mark c (Inl err) c'"
| Descend: "get_cell db path (ca_cell d) (ca_version d) = Inr (Some found) \<Longrightarrow> landed_reflects found \<le> fresh \<Longrightarrow>
    ev_derivation (ld_event found) = Some up \<Longrightarrow> hm_get c d = None \<Longrightarrow>
    validates db path target (dn_fresh_as_of up) (dn_read_set up) target (hm_insert d None c) (Inr bound) c' \<Longrightarrow>
    validates db path target fresh rest (min mark bound) (hm_insert d (Some bound) c') r c'' \<Longrightarrow>
    validates db path target fresh (d # rest) mark c r c''"

lemma validate_loop_validates:
  assumes "validate_loop db path target fresh reads mark composed = Some (r, composed')"
  shows "validates db path target fresh reads mark composed r composed'"
proof -
  have "case y of (r, c') \<Rightarrow> validates db path target fresh reads mark composed r c'"
    if "validate_loop db path target fresh reads mark composed = Some y" for y
  proof (rule validate_loop.raw_induct[OF _ that], goal_cases)
    case (1 rec db path target fresh reads mark composed y)
    have IH: "validates db path target fresh reads mark composed r c'"
      if "rec db path target fresh reads mark composed = Some (r, c')" for fresh reads mark composed r c'
      using 1(1)[OF that] by simp
    show ?case
    proof (cases reads)
      case Nil
      then show ?thesis using 1(2) by (auto intro: validates.Done)
    next
      case (Cons d rest)
      show ?thesis
      proof (cases "get_cell db path (ca_cell d) (ca_version d)")
        case (Inl err)
        then show ?thesis using 1(2) Cons by (auto intro: validates.Unreadable)
      next
        case (Inr found)
        show ?thesis
        proof (cases found)
          case None
          then show ?thesis using 1(2) Cons Inr by (auto intro: validates.Absent[OF _ IH])
        next
          case (Some x)
          show ?thesis
          proof (cases "landed_reflects x > fresh")
            case True
            then show ?thesis using 1(2) Cons Inr Some by (auto intro: validates.Moved)
          next
            case False
            note here = Inr[unfolded Some] False[unfolded not_less]
            show ?thesis
            proof (cases "ev_derivation (ld_event x)")
              case None
              then show ?thesis using 1(2) Cons here False by (auto intro: validates.Source[OF here None IH])
            next
              case der: (Some up)
              consider "hm_get composed d = None" | "hm_get composed d = Some None" |
                known where "hm_get composed d = Some (Some known)"
                by (cases "hm_get composed d") auto
              then show ?thesis
              proof cases
                case 1
                then obtain q c1 where "rec db path target (dn_fresh_as_of up) (dn_read_set up) target
                      (hm_insert d None composed) = Some (q, c1)"
                    "(case q of Inl err \<Rightarrow> Some (Inl err, c1)
                      | Inr bound \<Rightarrow> rec db path target fresh rest (min mark bound) (hm_insert d (Some bound) c1)) = Some y"
                  using \<open>_ = Some y\<close> Cons here der False by (auto simp: bind_eq_Some_conv)
                then show ?thesis unfolding Cons
                  by (cases q) (auto intro: validates.Fail[OF here der 1 IH] validates.Descend[OF here der 1 IH IH])
              next
                case 2
                then show ?thesis using \<open>_ = Some y\<close> Cons here der False
                  by (auto intro: validates.Pending[OF here der _ IH])
              next
                case 3
                then show ?thesis using \<open>_ = Some y\<close> Cons here der False
                  by (auto intro: validates.Known[OF here der _ IH])
              qed
            qed
          qed
        qed
      qed
    qed
  qed
  from this[OF assms] show ?thesis by simp
qed

lemma validates_loop:
  "validates db path target fresh reads mark c r c' \<Longrightarrow> validate_loop db path target fresh reads mark c = Some (r, c')"
  by (induction rule: validates.induct) (subst validate_loop.simps, auto)+

lemma validates_grows: "validates db path target fresh reads mark c r c' \<Longrightarrow> dom (hm_get c) \<subseteq> dom (hm_get c')"
  by (induction rule: validates.induct) (auto simp: subset_iff dom_def split: if_splits)

section \<open>Validation returns\<close>

definition unvisited :: "inner \<Rightarrow> read_path \<Rightarrow> composed \<Rightarrow> nat" where
  "unvisited db path c = card (reachable_cells db path - dom (hm_get c))"

lemma unvisited_less:
  assumes "d \<in> reachable_cells db path" "hm_get c d = None" "insert d (dom (hm_get c)) \<subseteq> dom (hm_get c')"
  shows "unvisited db path c' < unvisited db path c"
  unfolding unvisited_def using assms reachable_finite by (intro psubset_card_mono) auto

lemma validates_total: "\<exists>r c'. validates db path target fresh reads mark c r c'"
proof (induction "(unvisited db path c, length reads)" arbitrary: fresh reads mark c rule: wf_induct_rule[OF wf_lex_prod[OF wf_less wf_less]])
  case (1 reads c fresh mark)
  have IH: "\<exists>r c''. validates db path target fresh' reads' mark' c' r c''"
    if "unvisited db path c' < unvisited db path c \<or> unvisited db path c' = unvisited db path c \<and> length reads' < length reads"
    for fresh' reads' mark' c'
    using 1 that by (simp add: in_lex_prod)
  show ?case
  proof (cases reads)
    case Nil
    then show ?thesis by (blast intro: validates.Done)
  next
    case (Cons d rest)
    have rest: "\<exists>r c'. validates db path target fresh rest mark' c r c'" for mark'
      by (rule IH) (simp add: Cons)
    show ?thesis
    proof (cases "get_cell db path (ca_cell d) (ca_version d)")
      case (Inl err)
      then show ?thesis unfolding Cons by (blast intro: validates.Unreadable)
    next
      case (Inr found)
      show ?thesis
      proof (cases found)
        case None
        then show ?thesis unfolding Cons using rest Inr by (blast intro: validates.Absent)
      next
        case (Some x)
        note here = Inr[unfolded Some]
        then have reach: "d \<in> reachable_cells db path" by (auto simp: reachable_cells_def)
        show ?thesis
        proof (cases "landed_reflects x > fresh")
          case True
          then show ?thesis unfolding Cons using here by (blast intro: validates.Moved)
        next
          case False
          note here = here False[unfolded not_less]
          show ?thesis
          proof (cases "ev_derivation (ld_event x)")
            case None
            then show ?thesis unfolding Cons using rest by (blast intro: validates.Source[OF here])
          next
            case der: (Some up)
            show ?thesis
            proof (cases "hm_get c d")
              case None
              obtain r c' where inner: "validates db path target (dn_fresh_as_of up) (dn_read_set up) target (hm_insert d None c) r c'"
                using IH[of "hm_insert d None c"] unvisited_less[OF reach None, of "hm_insert d None c"] by fastforce
              have grown: "insert d (dom (hm_get c)) \<subseteq> dom (hm_get c')" using validates_grows[OF inner] by simp
              show ?thesis
              proof (cases r)
                case (Inl err)
                then show ?thesis unfolding Cons using inner by (blast intro: validates.Fail[OF here der None])
              next
                case (Inr bound)
                have "unvisited db path (hm_insert d (Some bound) c') < unvisited db path c"
                  by (rule unvisited_less[OF reach None]) (use grown in auto)
                then show ?thesis unfolding Cons using inner[unfolded Inr] IH
                  by (blast intro: validates.Descend[OF here der None])
              qed
            next
              case (Some memo)
              then show ?thesis unfolding Cons using rest
                by (cases memo) (blast intro: validates.Pending[OF here der] validates.Known[OF here der])+
            qed
          qed
        qed
      qed
    qed
  qed
qed

lemma validates_deterministic:
  "validates db path target fresh reads mark c r c' \<Longrightarrow> validates db path target fresh reads mark c s c'' \<Longrightarrow> s = r"
  by (drule validates_loop)+ simp

lemma validate_iff:
  "validate db path reads fresh target = r \<longleftrightarrow> (\<exists>c'. validates db path target fresh reads target [] r c')"
proof -
  obtain s c' where v: "validates db path target fresh reads target [] s c'" using validates_total by blast
  then have "validate db path reads fresh target = s" by (simp add: validate_def validates_loop)
  then show ?thesis using v validates_deterministic[OF v] by blast
qed

section \<open>The composition of watermarks\<close>

definition upstream :: "inner \<Rightarrow> read_path \<Rightarrow> cell_at \<Rightarrow> derivation option" where
  "upstream db path d =
     (case get_cell db path (ca_cell d) (ca_version d) of Inr (Some found) \<Rightarrow> ev_derivation (ld_event found) | _ \<Rightarrow> None)"

definition moved :: "inner \<Rightarrow> read_path \<Rightarrow> layer_id \<Rightarrow> cell_at \<Rightarrow> bool" where
  "moved db path fresh d \<longleftrightarrow>
     (case get_cell db path (ca_cell d) (ca_version d) of Inr (Some found) \<Rightarrow> landed_reflects found > fresh | _ \<Rightarrow> False)"

text \<open>\<open>W(B) = min(target, W(A), \<dots>)\<close>: a value whose input moved claims its own watermark, any other the
  least of the target and what its derived inputs can claim.\<close>

inductive claims :: "inner \<Rightarrow> read_path \<Rightarrow> layer_id \<Rightarrow> layer_id \<Rightarrow> cell_at list \<Rightarrow> layer_id \<Rightarrow> bool"
  for db path target where
  Overtaken: "d \<in> set reads \<Longrightarrow> moved db path fresh d \<Longrightarrow> claims db path target fresh reads fresh"
| Composed: "(\<And>d. d \<in> set reads \<Longrightarrow> \<not> moved db path fresh d) \<Longrightarrow>
    (\<And>d up. d \<in> set reads \<Longrightarrow> upstream db path d = Some up \<Longrightarrow>
       claims db path target (dn_fresh_as_of up) (dn_read_set up) (bound d)) \<Longrightarrow>
    claims db path target fresh reads (Min (insert target (bound ` {d \<in> set reads. upstream db path d \<noteq> None})))"

lemma claims_deterministic:
  "claims db path target fresh reads w \<Longrightarrow> claims db path target fresh reads w' \<Longrightarrow> w' = w"
proof (induction arbitrary: w' rule: claims.induct)
  case (Overtaken d reads fresh)
  from this(3) show ?case using Overtaken(1,2) by cases auto
next
  case (Composed reads fresh bound)
  from Composed.prems show ?case
  proof cases
    case (Composed bound')
    then have "bound' ` {d \<in> set reads. upstream db path d \<noteq> None} = bound ` {d \<in> set reads. upstream db path d \<noteq> None}"
      using Composed.IH by (intro image_cong) auto
    then show ?thesis using Composed by simp
  qed (use Composed.hyps(1) in auto)
qed

definition feeds :: "inner \<Rightarrow> read_path \<Rightarrow> (cell_at \<times> cell_at) set" where
  "feeds db path = {(e, d). \<exists>by. upstream db path d = Some by \<and> e \<in> set (dn_read_set by)}"

definition cell_claims :: "inner \<Rightarrow> read_path \<Rightarrow> layer_id \<Rightarrow> cell_at \<Rightarrow> layer_id \<Rightarrow> bool" where
  "cell_claims db path target d k \<longleftrightarrow>
     (\<exists>by. upstream db path d = Some by \<and> claims db path target (dn_fresh_as_of by) (dn_read_set by) k)"

definition memo_true :: "inner \<Rightarrow> read_path \<Rightarrow> layer_id \<Rightarrow> composed \<Rightarrow> bool" where
  "memo_true db path target c \<longleftrightarrow> (\<forall>d k. hm_get c d = Some (Some k) \<longrightarrow> cell_claims db path target d k)"

definition in_progress :: "composed \<Rightarrow> cell_at set" where
  "in_progress c = {d. hm_get c d = Some None}"

text \<open>What a loop that started with \<open>mark\<close> has found out about the reads it went over.\<close>

definition found_out :: "inner \<Rightarrow> read_path \<Rightarrow> layer_id \<Rightarrow> layer_id \<Rightarrow> cell_at list \<Rightarrow> layer_id \<Rightarrow> layer_id \<Rightarrow> bool" where
  "found_out db path target fresh reads mark w \<longleftrightarrow>
     (if \<exists>d \<in> set reads. moved db path fresh d then w = fresh
      else \<exists>bound. (\<forall>d \<in> set reads. upstream db path d \<noteq> None \<longrightarrow> cell_claims db path target d (bound d)) \<and>
             w = Min (insert mark (bound ` {d \<in> set reads. upstream db path d \<noteq> None})))"

lemma found_out_claims: "found_out db path target fresh reads target w \<Longrightarrow> claims db path target fresh reads w"
proof -
  assume f: "found_out db path target fresh reads target w"
  show ?thesis
  proof (cases "\<exists>d \<in> set reads. moved db path fresh d")
    case True
    then show ?thesis using f by (auto simp: found_out_def intro: claims.Overtaken)
  next
    case False
    then obtain bound where b: "\<And>d. d \<in> set reads \<Longrightarrow> upstream db path d \<noteq> None \<Longrightarrow> cell_claims db path target d (bound d)"
      "w = Min (insert target (bound ` {d \<in> set reads. upstream db path d \<noteq> None}))"
      using f by (auto simp: found_out_def)
    show ?thesis unfolding b(2)
    proof (rule claims.Composed)
      fix d up assume "d \<in> set reads" "upstream db path d = Some up"
      then show "claims db path target (dn_fresh_as_of up) (dn_read_set up) (bound d)"
        using b(1)[of d] by (auto simp: cell_claims_def)
    qed (use False in auto)
  qed
qed

lemma found_out_skip:
  assumes "found_out db path target fresh rest mark w" "\<not> moved db path fresh d" "upstream db path d = None"
  shows "found_out db path target fresh (d # rest) mark w"
proof -
  have 1: "{e \<in> set (d # rest). upstream db path e \<noteq> None} = {e \<in> set rest. upstream db path e \<noteq> None}"
    and 2: "(\<exists>e \<in> set (d # rest). moved db path fresh e) = (\<exists>e \<in> set rest. moved db path fresh e)"
    and 3: "(\<forall>e \<in> set (d # rest). upstream db path e \<noteq> None \<longrightarrow> cell_claims db path target e (bound e)) =
      (\<forall>e \<in> set rest. upstream db path e \<noteq> None \<longrightarrow> cell_claims db path target e (bound e))" for bound
    using assms(2,3) by auto
  show ?thesis using assms(1) unfolding found_out_def 1 2 3 .
qed

lemma Min_insert_two: "finite B \<Longrightarrow> Min (insert m (insert k B)) = Min (insert (min m (k :: layer_id)) B)"
  by (cases "B = {}") (simp_all add: min.assoc)

lemma found_out_bound:
  assumes "found_out db path target fresh rest (min mark k) w" "\<not> moved db path fresh d" "cell_claims db path target d k"
  shows "found_out db path target fresh (d # rest) mark w"
proof (cases "\<exists>e \<in> set rest. moved db path fresh e")
  case True
  then show ?thesis using assms(1) by (auto simp: found_out_def)
next
  case False
  let ?D = "{e \<in> set rest. upstream db path e \<noteq> None}"
  obtain bound where b: "\<forall>e \<in> ?D. cell_claims db path target e (bound e)" "w = Min (insert (min mark k) (bound ` ?D))"
    using assms(1) False by (auto simp: found_out_def)
  have unique: "k' = k" if "cell_claims db path target d k'" for k'
    using that assms(3) claims_deterministic by (auto simp: cell_claims_def)
  have up: "upstream db path d \<noteq> None" using assms(3) by (auto simp: cell_claims_def)
  let ?b = "bound(d := k)"
  have "?b ` ?D = bound ` ?D" using b(1) unique by (intro image_cong) auto
  then have "?b ` insert d ?D = insert k (bound ` ?D)" by (simp only: image_insert fun_upd_same)
  moreover have "{e \<in> set (d # rest). upstream db path e \<noteq> None} = insert d ?D" using up by auto
  ultimately have "Min (insert mark (?b ` {e \<in> set (d # rest). upstream db path e \<noteq> None})) =
      Min (insert mark (insert k (bound ` ?D)))"
    by (simp only:)
  also have "\<dots> = w" unfolding b(2) by (rule Min_insert_two) simp
  finally have "w = Min (insert mark (?b ` {e \<in> set (d # rest). upstream db path e \<noteq> None}))" by simp
  moreover have "\<forall>e \<in> set (d # rest). upstream db path e \<noteq> None \<longrightarrow> cell_claims db path target e (?b e)"
    using b(1) assms(3) by auto
  moreover have "\<not> (\<exists>e \<in> set (d # rest). moved db path fresh e)" using False assms(2) by simp
  ultimately show ?thesis unfolding found_out_def by (simp only: if_False) blast
qed

lemma validates_composition:
  assumes wf: "wf (feeds db path)" and total: "\<And>c v. \<exists>found. get_cell db path c v = Inr found"
  shows "validates db path target fresh reads mark c r c' \<Longrightarrow> memo_true db path target c \<Longrightarrow>
    (\<And>d p. d \<in> set reads \<Longrightarrow> p \<in> in_progress c \<Longrightarrow> (d, p) \<in> (feeds db path)\<^sup>+) \<Longrightarrow>
    \<exists>w. r = Inr w \<and> memo_true db path target c' \<and> in_progress c' = in_progress c \<and>
      found_out db path target fresh reads mark w"
proof (induction rule: validates.induct)
  case (Unreadable d err fresh rest mark c)
  then show ?case using total[of "ca_cell d" "ca_version d"] by auto
next
  case (Pending d found fresh up c rest mark r c')
  have "(d, d) \<in> (feeds db path)\<^sup>+" using Pending by (auto simp: in_progress_def)
  then show ?case using wf_acyclic[OF wf] by (simp add: acyclic_def)
next
  case (Known d found fresh up c known rest mark r c')
  obtain w where w: "r = Inr w" "memo_true db path target c'" "in_progress c' = in_progress c"
    "found_out db path target fresh rest (min mark known) w"
    using Known.IH Known.prems by auto
  have "cell_claims db path target d known" using Known by (simp add: memo_true_def)
  moreover have "\<not> moved db path fresh d" using Known by (simp add: moved_def not_less)
  ultimately show ?case using w found_out_bound by blast
next
  case (Descend d found fresh up c bound c' rest mark r c'')
  have ups: "upstream db path d = Some up" using Descend by (simp add: upstream_def)
  have feed: "(e, d) \<in> feeds db path" if "e \<in> set (dn_read_set up)" for e using that ups by (auto simp: feeds_def)
  have prog: "in_progress (hm_insert d None c) = insert d (in_progress c)" by (auto simp: in_progress_def split: if_splits)
  have memo: "memo_true db path target (hm_insert d None c)" using Descend.prems(1) by (auto simp: memo_true_def)
  have "(e, p) \<in> (feeds db path)\<^sup>+" if "e \<in> set (dn_read_set up)" "p \<in> in_progress (hm_insert d None c)" for e p
    using that feed[OF that(1)] Descend.prems(2)[of d p] unfolding prog by (auto intro: trancl_into_trancl2)
  from Descend.IH(1)[OF memo this] obtain w where inner: "bound = w" "memo_true db path target c'"
    "in_progress c' = insert d (in_progress c)" "found_out db path target (dn_fresh_as_of up) (dn_read_set up) target w"
    unfolding prog by auto
  have here: "cell_claims db path target d bound"
    using found_out_claims[OF inner(4)] inner(1) ups by (simp add: cell_claims_def)
  have memo': "memo_true db path target (hm_insert d (Some bound) c')"
    using inner(2) here by (auto simp: memo_true_def)
  have prog': "in_progress (hm_insert d (Some bound) c') = in_progress c"
    using inner(3) \<open>hm_get c d = None\<close> by (auto simp: in_progress_def split: if_splits)
  obtain w where w: "r = Inr w" "memo_true db path target c''" "in_progress c'' = in_progress c"
    "found_out db path target fresh rest (min mark bound) w"
    using Descend.IH(2)[OF memo'] Descend.prems(2) unfolding prog' by auto
  have "\<not> moved db path fresh d" using Descend by (simp add: moved_def not_less)
  then show ?case using w found_out_bound[OF w(4) _ here] by blast
next
  case (Fail d found fresh up c err c' rest mark)
  have ups: "upstream db path d = Some up" using Fail by (simp add: upstream_def)
  have feed: "(e, d) \<in> feeds db path" if "e \<in> set (dn_read_set up)" for e using that ups by (auto simp: feeds_def)
  have prog: "in_progress (hm_insert d None c) = insert d (in_progress c)" by (auto simp: in_progress_def split: if_splits)
  have memo: "memo_true db path target (hm_insert d None c)" using Fail.prems(1) by (auto simp: memo_true_def)
  have "(e, p) \<in> (feeds db path)\<^sup>+" if "e \<in> set (dn_read_set up)" "p \<in> in_progress (hm_insert d None c)" for e p
    using that feed[OF that(1)] Fail.prems(2)[of d p] unfolding prog by (auto intro: trancl_into_trancl2)
  from Fail.IH[OF memo this] show ?case by auto
next
  case (Absent d fresh rest mark c r c')
  then show ?case using found_out_skip[of db path target fresh rest mark _ d] by (auto simp: moved_def upstream_def)
next
  case (Source d found fresh rest mark c r c')
  then show ?case using found_out_skip[of db path target fresh rest mark _ d] by (auto simp: moved_def upstream_def not_less)
qed (auto simp: found_out_def moved_def)

section \<open>Envelopes\<close>

lemma validated_below:
  assumes "validates db path target fresh reads mark c (Inr w) c'"
  shows "w \<le> mark \<or> w = fresh"
proof -
  have "case r of Inr w \<Rightarrow> w \<le> mark \<or> w = fresh | Inl _ \<Rightarrow> True"
    if "validates db path target fresh reads mark c r c'" for r
    using that by (induction rule: validates.induct) (auto split: sum.splits)
  from this[OF assms] show ?thesis by simp
qed

lemma validated_moved:
  assumes "validates db path target fresh reads mark c (Inr w) c'" and "d \<in> set reads" and "moved db path fresh d"
  shows "w = fresh"
proof -
  have "case r of Inr w \<Rightarrow> (\<exists>d \<in> set reads. moved db path fresh d) \<longrightarrow> w = fresh | Inl _ \<Rightarrow> True"
    if "validates db path target fresh reads mark c r c'" for r
    using that by (induction rule: validates.induct) (auto simp: moved_def not_less[symmetric] split: sum.splits)
  from this[OF assms(1)] show ?thesis using assms(2,3) by auto
qed

text \<open>What an envelope says of a stored derived record.\<close>

lemma derived_envelope_cases:
  assumes "derived_envelope w b path req found by layer = Inr r"
  obtains state broken where "validated_state (mg_db (wd_log w)) path req by layer = Inr (state, rs_fresh_as_of r)"
    "poisoning_of w b (dn_producer by) = Inr broken" "rs_by r = Some (dn_producer by)"
    "rs_value r = live_value (ld_event found)" "rs_event r = Some (ev_id (ld_event found))" "rs_landed_at r = ld_at found"
    "rs_state r = (if is_tombstone (ev_value (ld_event found)) then Tombstoned
       else if broken \<noteq> None then Broken else state)"
  using assms by (auto simp: derived_envelope_def Let_def split: sum.splits)

lemma read_envelope_cases:
  assumes "read_envelope w b cell layer ver req = Inr r" and "lm_read_path (wd_log w) b layer = Inr path"
  obtains (Missing) "get_cell (mg_db (wd_log w)) path cell ver = Inr None"
      "resolve_unmaterialized (wd_log w) path cell ver = Inr r"
  | (Ground) found where "get_cell (mg_db (wd_log w)) path cell ver = Inr (Some found)"
      "ev_derivation (ld_event found) = None" "r = source_envelope found (pinned layer path)"
  | (Derived) found "by" where "get_cell (mg_db (wd_log w)) path cell ver = Inr (Some found)"
      "ev_derivation (ld_event found) = Some by"
      "derived_envelope w b path req found by (pinned layer path) = Inr r"
  using assms by (auto simp: read_envelope_def split: sum.splits option.splits)

lemma validated_state_cases:
  assumes "validated_state db path req by layer = Inr (state, fresh)"
  obtains (Current) "state = Current" "fresh = layer" | (Unvalidated) "state = Unvalidated" "req = AnyFreshness" "fresh < layer"
  | (Stale) "state = Stale" "req \<noteq> AnyFreshness" "fresh < layer"
  using assms by (auto simp: validated_state_def not_le split: sum.splits if_splits)

lemma find_poisoned:
  assumes "poison_ok t"
  shows "List.find (\<lambda>po. po_producer po = p) (poisoned t b) = hm_get t (b, p)"
proof (cases "List.find (\<lambda>po. po_producer po = p) (poisoned t b)")
  case None
  then show ?thesis using in_poisoned[OF assms] assms
    by (cases "hm_get t (b, p)") (auto simp: find_None_iff poison_ok_def hm_get_eq_Some_iff dest: map_of_SomeD)
next
  case (Some po)
  then have "po \<in> set (poisoned t b)" "po_producer po = p" by (auto simp: find_Some_iff)
  then show ?thesis using Some in_poisoned[OF assms] by auto
qed

section \<open>Properties\<close>

text \<open>Validation always returns, also on records whose read sets form a cycle: there are
  finitely many stored records, and the memo marks each one before descending into it.\<close>

theorem validate_returns:
  "\<exists>r composed'. validate_loop db path target fresh reads mark composed = Some (r, composed')"
proof -
  obtain r c' where "validates db path target fresh reads mark composed r c'" using validates_total by blast
  then show ?thesis using validates_loop by blast
qed

lemma validation_claims:
  assumes "mem_inv db" and "wf (feeds db path)"
  shows "validate db path reads fresh target = Inr w \<longleftrightarrow> claims db path target fresh reads w"
proof -
  obtain r c' where v: "validates db path target fresh reads target [] r c'" using validates_total by blast
  have "memo_true db path target []" by (simp add: memo_true_def)
  then obtain w' where w': "r = Inr w'" "found_out db path target fresh reads target w'"
    using validates_composition[OF assms(2) get_cell_total[OF assms(1)] v] by (auto simp: in_progress_def)
  have "validate db path reads fresh target = Inr w'" using v w'(1) validate_iff by blast
  then show ?thesis using found_out_claims[OF w'(2)] claims_deterministic by auto
qed

text \<open>Property C35. On acyclic records validation computes the specified composition of watermarks: a value
  with an input that moved past it claims its own watermark, any other the least of the layer asked
  for and of what its derived inputs claim in turn; the memo changes nothing.\<close>

theorem validate_composes_watermarks:
  assumes "mem_inv db" and "wf (feeds db path)"
  shows "validate db path reads fresh target = Inr w \<longleftrightarrow> claims db path target fresh reads w"
  by (rule validation_claims[OF assms])

text \<open>An envelope never claims more than the layer it was read at, and a stored value that is
  called current is claimed at exactly that layer.\<close>

theorem envelope_never_claims_more:
  assumes "read_envelope w b cell layer ver req = Inr r" and "lm_read_path (wd_log w) b layer = Inr path"
  shows "rs_fresh_as_of r \<le> pinned layer path \<and>
    (rs_event r \<noteq> None \<and> rs_state r = Current \<longrightarrow> rs_fresh_as_of r = pinned layer path)"
  using assms
proof (cases rule: read_envelope_cases)
  case Missing
  then show ?thesis by (auto simp: resolve_unmaterialized_def Let_def split: sum.splits)
next
  case (Ground found)
  then show ?thesis by (simp add: source_envelope_def Let_def)
next
  case (Derived found "by")
  from Derived(3) obtain state and broken :: "poisoning option" where s: "validated_state (mg_db (wd_log w)) path req by (pinned layer path) = Inr (state, rs_fresh_as_of r)"
    "rs_state r = (if is_tombstone (ev_value (ld_event found)) then Tombstoned else if broken \<noteq> None then Broken else state)"
    by (rule derived_envelope_cases) (rule that)
  from s(1) show ?thesis by (cases rule: validated_state_cases) (use s(2) in auto)
qed

text \<open>The derivations that a value computed as \<open>by\<close> stands on: itself, and what the derived inputs of any of
  them were computed as. A derivation at or past \<open>target\<close> answers for itself; its inputs are not asked.\<close>

inductive stands_on :: "inner \<Rightarrow> read_path \<Rightarrow> layer_id \<Rightarrow> derivation \<Rightarrow> derivation \<Rightarrow> bool"
  for db path target "by" where
  Itself: "stands_on db path target by by"
| Input: "stands_on db path target by x \<Longrightarrow> dn_fresh_as_of x < target \<Longrightarrow> d \<in> set (dn_read_set x) \<Longrightarrow>
    upstream db path d = Some y \<Longrightarrow> stands_on db path target by y"

lemma claims_reached:
  assumes "claims db path target fresh reads w" and "target \<le> w" and "fresh < target"
  shows "(\<forall>d \<in> set reads. \<not> moved db path fresh d) \<and>
    (\<forall>d \<in> set reads. \<forall>y. upstream db path d = Some y \<longrightarrow>
      (\<exists>w'. claims db path target (dn_fresh_as_of y) (dn_read_set y) w' \<and> target \<le> w'))"
  using assms(1)
proof cases
  case (Overtaken d)
  then show ?thesis using assms(2,3) by simp
next
  case (Composed bound)
  have "target \<le> bound d" if "d \<in> set reads" "upstream db path d \<noteq> None" for d
    using assms(2) that unfolding Composed(1) by (subst (asm) Min_ge_iff) auto
  then show ?thesis using Composed(2,3) by blast
qed

lemma claims_lineage:
  assumes "stands_on db path target by x" and "claims db path target (dn_fresh_as_of by) (dn_read_set by) w" and "target \<le> w"
  shows "\<exists>w'. claims db path target (dn_fresh_as_of x) (dn_read_set x) w' \<and> target \<le> w'"
  using assms
proof (induction rule: stands_on.induct)
  case (Input x d y)
  then show ?case using claims_reached[of db path target "dn_fresh_as_of x" "dn_read_set x"] by blast
qed blast

text \<open>Property C36. A validated or current read never calls a derived value current when something it was
  computed from has moved, directly or through its lineage. Where stored records depend on each other
  without a cycle: if a read that asks for more than any freshness calls a derived value current at a layer,
  then of every derivation it stands on (its own, and those of its derived inputs in turn) either the
  watermark is at or past the layer, or each input is at this read path still what it was computed from.\<close>

theorem current_means_no_input_moved:
  assumes "mem_inv (mg_db (wd_log w))" and "wf (feeds (mg_db (wd_log w)) path)"
    and "read_envelope w b cell layer ver req = Inr r" and "lm_read_path (wd_log w) b layer = Inr path"
    and "req \<noteq> AnyFreshness" and "rs_state r = Current" and "rs_by r \<noteq> None"
  shows "\<exists>found by. get_cell (mg_db (wd_log w)) path cell ver = Inr (Some found) \<and> ev_derivation (ld_event found) = Some by \<and>
    (\<forall>x. stands_on (mg_db (wd_log w)) path (pinned layer path) by x \<longrightarrow>
       dn_fresh_as_of x \<ge> pinned layer path \<or> (\<forall>d \<in> set (dn_read_set x). \<not> moved (mg_db (wd_log w)) path (dn_fresh_as_of x) d))"
  using assms(3,4)
proof (cases rule: read_envelope_cases)
  case (Derived found "by")
  let ?db = "mg_db (wd_log w)" and ?layer = "pinned layer path"
  from Derived(3) obtain state and broken :: "poisoning option" where s: "validated_state ?db path req by ?layer = Inr (state, rs_fresh_as_of r)"
    "rs_state r = (if is_tombstone (ev_value (ld_event found)) then Tombstoned else if broken \<noteq> None then Broken else state)"
    by (rule derived_envelope_cases) (rule that)
  then have "state = Current" using assms(6) by (auto split: if_splits)
  then obtain m where m: "validate ?db path (dn_read_set by) (dn_fresh_as_of by) ?layer = Inr m" "m \<ge> ?layer"
    using s(1) assms(5) by (auto simp: validated_state_def split: sum.splits if_splits)
  have c: "claims ?db path ?layer (dn_fresh_as_of by) (dn_read_set by) m"
    using m(1) validation_claims[OF assms(1,2)] by simp
  have "dn_fresh_as_of x \<ge> ?layer \<or> (\<forall>d \<in> set (dn_read_set x). \<not> moved ?db path (dn_fresh_as_of x) d)"
    if "stands_on ?db path ?layer by x" for x
    using claims_lineage[OF that c m(2)] claims_reached[of ?db path ?layer "dn_fresh_as_of x" "dn_read_set x"] not_le by blast
  then show ?thesis using Derived(1,2) by blast
qed (use assms(7) in \<open>auto simp: resolve_unmaterialized_def source_envelope_def Let_def split: sum.splits\<close>)

text \<open>A stored derived value is reported broken exactly when its producer is poisoned on the
  branch as it now stands: recorded there, and no definition of it on the branch names another
  version. Layer and version the read is pinned to play no part.\<close>

theorem broken_is_about_the_branch:
  assumes "read_envelope w b cell layer ver req = Inr r" and "rs_by r = Some p" and "poison_ok (wd_poison w)"
    and "lm_read_path (wd_log w) b None = Inr head" and "view (wd_log w) head = Inr defs"
  shows "rs_state r = Broken \<longleftrightarrow> rs_value r \<noteq> None \<and>
    (\<exists>po. hm_get (wd_poison w) (b, p) = Some po \<and>
       (\<forall>def. List.find (\<lambda>def. pd_id def = p) (view_producers defs) = Some def \<longrightarrow> po_version po = pd_version def))"
proof -
  obtain path where path: "lm_read_path (wd_log w) b layer = Inr path"
    using assms(1) by (auto simp: read_envelope_def split: sum.splits)
  note find = find_poisoned[OF assms(3), of p b]
  from assms(1) path show ?thesis
  proof (cases rule: read_envelope_cases)
    case (Derived found "by")
    from Derived(3) obtain state and broken :: "poisoning option" where s: "validated_state (mg_db (wd_log w)) path req by (pinned layer path) = Inr (state, rs_fresh_as_of r)"
      "poisoning_of w b p = Inr broken" "rs_value r = live_value (ld_event found)"
      "rs_state r = (if is_tombstone (ev_value (ld_event found)) then Tombstoned else if broken \<noteq> None then Broken else state)"
      using assms(2) by (elim derived_envelope_cases) simp
    have "state \<noteq> Broken" using s(1) by (cases rule: validated_state_cases) simp_all
    then have "rs_state r = Broken \<longleftrightarrow> rs_value r \<noteq> None \<and> broken \<noteq> None" using s(3,4) by (simp add: live_value_def)
    moreover have "broken \<noteq> None \<longleftrightarrow> (\<exists>po. hm_get (wd_poison w) (b, p) = Some po \<and>
       (\<forall>def. List.find (\<lambda>def. pd_id def = p) (view_producers defs) = Some def \<longrightarrow> po_version po = pd_version def))"
    proof (cases "hm_get (wd_poison w) (b, p)")
      case None
      then show ?thesis using s(2) by (simp add: poisoning_of_def find)
    next
      case (Some po)
      have "poisoning_of w b p = Inr (case List.find (\<lambda>def. pd_id def = p) (view_producers defs) of
          None \<Rightarrow> Some po | Some def \<Rightarrow> if applies_to po (pd_version def) then Some po else None)"
        unfolding poisoning_of_def find Some option.case assms(4) sum.case assms(5) ..
      then show ?thesis using s(2) Some by (auto simp: applies_to_def split: option.splits if_splits)
    qed
    ultimately show ?thesis by simp
  qed (use assms(2) in \<open>auto simp: resolve_unmaterialized_def source_envelope_def Let_def split: sum.splits\<close>)
qed

section \<open>Witnesses\<close>

text \<open>A source record in layer 1 and, in layer 2, a value derived from it.\<close>

definition r_cell :: cell_ref where "r_cell = cell_prop ''Company'' ''slug'' (Allocated PObject 0 0 1)"
definition r_by :: derivation where
  "r_by = \<lparr>dn_producer = 7, dn_fresh_as_of = 1, dn_read_set = [CellAt w_cell (DefVersion 1)]\<rparr>"
definition r_event :: event where
  "r_event = \<lparr>ev_id = 2, ev_cell = r_cell, ev_value = VBool True, ev_version = DefVersion 1, ev_origin = ODerived,
     ev_derivation = Some r_by, ev_authored = 2\<rparr>"

definition r_db :: inner where
  "r_db = snd (commit_layer 2 (snd (mem_seal 2 (snd (author_event 2 r_cell
     \<lparr>ed_value = VBool True, ed_version = DefVersion 1, ed_origin = ODerived, ed_derivation = Some r_by\<rparr>
     (snd (open_layer 1 2 s_db)))))))"

lemma r_db_inv: "mem_inv r_db"
proof -
  have "mem_inv s_db" using mg_invD(1)[OF mg_reachable_inv[OF s_inv(4)]] by (simp add: s_committed_state)
  then show ?thesis unfolding r_db_def
    by (intro mem_inv_step[OF mem_step.Commit] mem_inv_step[OF mem_step.Seal] mem_inv_step[OF mem_step.Author]
        mem_inv_step[OF mem_step.Open])
qed

lemma r_db_state:
  "in_events r_db = [Some s_event, Some r_event]"
  "in_reads r_db = [(1, [(w_cell, [(DefVersion 1, [(1, 1)])]), (r_cell, [(DefVersion 1, [(2, 2)])])])]"
proof -
  have ne: "r_cell \<noteq> w_cell" by (simp add: r_cell_def w_cell_def cell_prop_def)
  show "in_events r_db = [Some s_event, Some r_event]"
    "in_reads r_db = [(1, [(w_cell, [(DefVersion 1, [(1, 1)])]), (r_cell, [(DefVersion 1, [(2, 2)])])])]"
    using ne by (simp_all add: r_db_def s_db_def open_layer_def put_staged_def author_event_def mint_def staged_def
        draft_event_def mem_seal_def commit_layer_def store_def slot_of_def event_at_def index_event_def hm_modify_def
        r_event_def mem_new_def Let_def s_event_def w_draft_def)
qed

definition r_world :: world where
  "r_world = \<lparr>wd_log = s_committed\<lparr>mg_db := r_db, mg_heads := [(1, 2)]\<rparr>, wd_poison = []\<rparr>"

definition r_broken :: world where
  "r_broken = r_world\<lparr>wd_poison := [((1, 7), \<lparr>po_producer = 7, po_version = 3, po_error = ''boom'', po_since = 1\<rparr>)]\<rparr>"

lemma r_get:
  "get_cell r_db [(1, 2)] r_cell (DefVersion 1) = Inr (Some \<lparr>ld_event = r_event, ld_at = 2\<rparr>)"
  "get_cell r_db [(1, 2)] w_cell (DefVersion 1) = Inr (Some \<lparr>ld_event = s_event, ld_at = 1\<rparr>)"
  "get_cell r_db [(1, 2)] c v \<noteq> Inr None \<Longrightarrow> c = r_cell \<or> c = w_cell"
  by (auto simp: r_db_state history_at_def newest_at_def event_of_def stored_def event_at_def slot_of_def
      r_cell_def w_cell_def cell_prop_def split: if_splits)

lemma r_upstream: "upstream r_db [(1, 2)] d = Some by \<Longrightarrow> ca_cell d = r_cell \<and> by = r_by"
  by (auto simp: upstream_def r_db_state history_at_def newest_at_def event_of_def stored_def event_at_def slot_of_def
      s_event_def draft_event_def w_draft_def r_event_def split: if_splits option.splits)

lemma r_ne: "w_cell \<noteq> r_cell" "r_cell \<noteq> w_cell"
  by (simp_all add: r_cell_def w_cell_def cell_prop_def)

lemma r_acyclic: "wf (feeds r_db [(1, 2)])"
proof -
  have "feeds r_db [(1, 2)] \<subseteq> measure (\<lambda>d. if ca_cell d = r_cell then 1 else 0)"
    using r_ne by (auto simp: feeds_def r_by_def dest!: r_upstream)
  then show ?thesis by (rule wf_subset[OF wf_measure])
qed

lemma validate_composes_watermarks_witness:
  "validate r_db [(1, 2)] [CellAt r_cell (DefVersion 1)] 1 2 = Inr 2 \<and>
   claims r_db [(1, 2)] 2 1 [CellAt r_cell (DefVersion 1)] 2"
proof -
  note composes = validate_composes_watermarks[OF r_db_inv r_acyclic, of "[CellAt r_cell (DefVersion 1)]" 1 2 2]
  have "validate_loop r_db [(1, 2)] 2 1 [CellAt r_cell (DefVersion 1)] 2 [] =
      Some (Inr 2, [(CellAt r_cell (DefVersion 1), Some 2)])"
    by (subst validate_loop.simps; simp add: r_get r_event_def r_by_def landed_reflects_def s_event_def draft_event_def
        w_draft_def validate_loop.simps[of _ _ _ _ "[]"] del: get_cell.simps)+
  then have "validate r_db [(1, 2)] [CellAt r_cell (DefVersion 1)] 1 2 = Inr 2" by (simp add: validate_def)
  then show ?thesis using composes by simp
qed

lemma r_path: "lm_read_path (wd_log r_world) 1 None = Inr [(1, 2)]" "lm_read_path (wd_log r_broken) 1 None = Inr [(1, 2)]"
  unfolding lm_read_path_iff r_broken_def
  by (rule ancestry.Root[of _ 1 _ 2] | simp add: r_world_def start_bound_def lm_head_def parent_link_def origin_of_def
      lm_branch_def s_committed_state s_start_defs)+

lemma r_view: "view (wd_log r_world) [(1, 2)] = Inr def_view_new" "view (wd_log r_broken) [(1, 2)] = Inr def_view_new"
  by (simp_all add: view_fold reg_def_layers_def def_layers_of_def r_world_def r_broken_def s_committed_state s_start_defs)

lemma r_valid: "validate r_db [(1, 2)] [CellAt w_cell (DefVersion 1)] 1 2 = Inr 2"
proof -
  have "validate_loop r_db [(1, 2)] 2 1 [CellAt w_cell (DefVersion 1)] 2 [] = Some (Inr 2, [])"
    by (subst validate_loop.simps; simp add: r_get landed_reflects_def s_event_def draft_event_def w_draft_def
        validate_loop.simps[of _ _ _ _ "[]"] del: get_cell.simps)
  then show ?thesis by (simp add: validate_def)
qed

definition r_envelope :: "freshness \<Rightarrow> val option resolved" where
  "r_envelope state = \<lparr>rs_value = Some (VBool True), rs_origin = ODerived, rs_event = Some 2, rs_authored_at = 2,
     rs_landed_at = 2, rs_fresh_as_of = 2, rs_state = state, rs_by = Some 7\<rparr>"

lemma r_read:
  "read_envelope r_world 1 r_cell None (DefVersion 1) Validated = Inr (r_envelope Current)"
  "read_envelope r_broken 1 r_cell None (DefVersion 1) Validated = Inr (r_envelope Broken)"
proof -
  have db: "mg_db (wd_log r_world) = r_db" "mg_db (wd_log r_broken) = r_db" by (simp_all add: r_world_def r_broken_def)
  have top: "pinned None [(1, 2)] = 2" by (simp add: pinned_def Cells.ceiling_def)
  have p: "poisoning_of r_world 1 7 = Inr None"
    by (simp add: poisoning_of_def r_world_def poisoned_def)
  have q: "\<exists>po. poisoning_of r_broken 1 7 = Inr (Some po)"
  proof -
    have "List.find (\<lambda>po. po_producer po = 7) (poisoned (wd_poison r_broken) 1) =
        Some \<lparr>po_producer = 7, po_version = 3, po_error = ''boom'', po_since = 1\<rparr>"
      by (simp add: r_broken_def poisoned_def)
    then show ?thesis by (simp add: poisoning_of_def r_path r_view view_producers_def def_view_new_def)
  qed
  show "read_envelope r_world 1 r_cell None (DefVersion 1) Validated = Inr (r_envelope Current)"
    "read_envelope r_broken 1 r_cell None (DefVersion 1) Validated = Inr (r_envelope Broken)"
    unfolding read_envelope_def r_path sum.case db r_get(1) option.case top
    using p q by (auto simp: r_event_def r_by_def derived_envelope_def validated_state_def r_valid db Let_def live_value_def
        is_tombstone_def r_envelope_def)
qed

lemma envelope_never_claims_more_witness:
  "rs_fresh_as_of (r_envelope Current) \<le> pinned None [(1, 2)] \<and> rs_fresh_as_of (r_envelope Current) = 2"
  using envelope_never_claims_more[OF r_read(1) r_path(1)] by (simp add: r_envelope_def)

lemma current_means_no_input_moved_witness:
  "(\<exists>found. get_cell r_db [(1, 2)] r_cell (DefVersion 1) = Inr (Some found) \<and> ev_derivation (ld_event found) = Some r_by) \<and>
   \<not> moved r_db [(1, 2)] 1 (CellAt w_cell (DefVersion 1))"
proof -
  have db: "mg_db (wd_log r_world) = r_db" and top: "pinned None [(1, 2)] = 2"
    by (simp_all add: r_world_def pinned_def Cells.ceiling_def)
  have inv: "mem_inv (mg_db (wd_log r_world))" "wf (feeds (mg_db (wd_log r_world)) [(1, 2)])"
    using r_db_inv r_acyclic by (simp_all add: db)
  from current_means_no_input_moved[OF inv r_read(1) r_path(1)]
  obtain found "by" where f: "get_cell r_db [(1, 2)] r_cell (DefVersion 1) = Inr (Some found)" "ev_derivation (ld_event found) = Some by"
    "\<forall>x. stands_on r_db [(1, 2)] 2 by x \<longrightarrow> dn_fresh_as_of x \<ge> 2 \<or> (\<forall>d \<in> set (dn_read_set x). \<not> moved r_db [(1, 2)] (dn_fresh_as_of x) d)"
    by (auto simp: r_envelope_def db top)
  have "by = r_by" using f(1,2) by (auto simp: r_get(1) r_event_def simp del: get_cell.simps)
  then have "dn_fresh_as_of r_by \<ge> 2 \<or> (\<forall>d \<in> set (dn_read_set r_by). \<not> moved r_db [(1, 2)] (dn_fresh_as_of r_by) d)"
    using f(3) stands_on.Itself by blast
  then have "\<not> moved r_db [(1, 2)] 1 (CellAt w_cell (DefVersion 1))" by (simp add: r_by_def word_le_nat_alt)
  then show ?thesis using f(1,2) \<open>by = r_by\<close> by blast
qed

lemma broken_is_about_the_branch_witness:
  "rs_state (r_envelope Broken) = Broken \<and>
   (\<exists>po. hm_get (wd_poison r_broken) (1, 7) = Some po \<and> view_producers def_view_new = [])"
proof -
  have ok: "poison_ok (wd_poison r_broken)" by (simp add: poison_ok_def r_broken_def)
  have "rs_by (r_envelope Broken) = Some 7" by (simp add: r_envelope_def)
  from broken_is_about_the_branch[OF r_read(2) this ok r_path(2) r_view(2)]
  show ?thesis by (auto simp: r_envelope_def view_producers_def def_view_new_def)
qed

end
