(* ===== verification/Derive_Properties.thy ===== *)
theory Derive_Properties
  imports Settle Resolver_Properties
begin

text \<open>
  What derivation promises: a run touches the log and the dependency index only, an inline computation
  moves no watermark and poisons nobody, a wave holds an invocation once and none a ninth time, so a
  round over finitely many invocations settles, and a settled round lets every waiter through.
\<close>

section \<open>What a run leaves alone\<close>

definition kept :: "engine \<Rightarrow> engine \<Rightarrow> bool" where
  "kept eng eng' \<longleftrightarrow> wd_poison eng' = wd_poison eng \<and>
     en_producers eng' = en_producers eng \<and> en_live eng' = en_live eng \<and>
     en_next_branch eng' = en_next_branch eng \<and> en_parallelism eng' = en_parallelism eng"

lemma kept_refl [simp, intro]: "kept eng eng"
  by (simp add: kept_def)

lemma kept_trans [trans]: "kept a b \<Longrightarrow> kept b c \<Longrightarrow> kept a c"
  by (simp add: kept_def)

lemma kept_on_log [simp]: "kept eng (snd (on_log f eng))" "on_log f eng = (r, eng') \<Longrightarrow> kept eng eng'"
  by (auto simp: kept_def on_log_def split: prod.splits)

lemma kept_log [simp]: "kept eng (eng\<lparr>wd_log := m\<rparr>)" "kept eng (on_index g eng)"
  by (simp_all add: kept_def on_index_def)

lemma on_frontier_simps [simp]:
  "en_frontier (on_frontier f eng) = f (en_frontier eng)" "wd_poison (on_frontier f eng) = wd_poison eng"
  "wd_index (on_frontier f eng) = wd_index eng" "en_producers (on_frontier f eng) = en_producers eng"
  "producer_ids (on_frontier f eng) = producer_ids eng" "mg_db (wd_log (on_frontier f eng)) = mg_db (wd_log eng)"
  by (simp_all add: on_frontier_def en_frontier_def wd_index_def producer_ids_def)

lemma task_step_kept: "kept eng (snd (task_step hash exec defs t eng))"
proof -
  have "kept eng (snd (phase_step hash exec defs t eng))"
  proof (cases "tk_phase t")
    case Waiting
    then show ?thesis by (auto simp: phase_step_def task_open_def Let_def split: prod.splits sum.splits)
  next
    case (Opened ws)
    then show ?thesis by (auto simp: phase_step_def task_start_def split: sum.splits)
  next
    case (Running ctx p)
    then show ?thesis
      by (cases p) (auto simp: phase_step_def run_step_def task_return_def Let_def split: prod.splits sum.splits)
  next
    case (Recorded ctx)
    then show ?thesis by (auto simp: phase_step_def task_commit_def split: prod.splits sum.splits)
  next
    case (Finished r)
    then show ?thesis by (simp add: phase_step_def)
  qed
  then show ?thesis by (simp add: task_step_def split_beta)
qed

lemma task_drain_kept: "kept eng (snd (task_drain hash t eng))"
  by (auto simp: task_drain_def split: phase.splits prod.splits)

lemma task_complete_kept: "kept eng (snd (task_complete hash exec defs t eng))"
  unfolding task_complete_def Let_def split_beta
  by (rule kept_trans[OF kept_trans[OF kept_trans[OF kept_trans[OF task_step_kept task_step_kept] task_drain_kept]
        task_step_kept] task_step_kept])

lemma run_kept: "kept eng (snd (run hash exec def defs input at' eng))"
  using task_complete_kept[of eng hash exec defs] by (simp add: run_def Let_def split_beta)

lemma run_now_kept: "kept eng (snd (run_now hash exec b p input defs eng))"
proof (cases "hm_get (en_producers eng) p")
  case (Some def)
  define at' where "at' = \<lparr>ra_on = b, ra_home = b,
    ra_fresh_as_of = (case lm_head (wd_log eng) b of Some h \<Rightarrow> h | None \<Rightarrow> 0), ra_reflects = watermark (en_frontier eng) b p\<rparr>"
  have "kept eng (snd (run hash exec def defs input at' eng))" by (rule run_kept)
  then show ?thesis by (auto simp: run_now_def Some Let_def simp flip: at'_def split: prod.splits sum.splits)
qed (simp add: run_now_def)

lemma run_hops_kept: "kept eng (snd (run_hops hash exec b input defs hops eng))"
proof (induction hops arbitrary: eng)
  case (Cons hop hops)
  then show ?case using run_now_kept[of eng hash exec b "mh_producer hop" input defs]
    by (auto split: prod.splits sum.splits intro: kept_trans)
qed simp

lemma pay_kept: "kept eng (snd (pay hash exec b cell hops producer defs eng))"
  by (simp add: pay_def run_hops_kept run_now_kept split: option.split)

text \<open>What every payment keeps, a whole refresh keeps.\<close>

lemma refresh_all_frame:
  fixes kept' :: "engine \<Rightarrow> engine \<Rightarrow> bool"
  assumes refl: "\<And>e. kept' e e" and trans: "\<And>x y z. kept' x y \<Longrightarrow> kept' y z \<Longrightarrow> kept' x z"
    and pay: "\<And>hash exec b cell hops producer defs e. kept' e (snd (pay hash exec b cell hops producer defs e))"
    and "refresh_all hash exec b cells computing eng = Some (r, computing', eng')"
  shows "kept' eng eng'"
proof -
  have "kept' eng (snd (snd y))" if "refresh_all hash exec b cells computing eng = Some y" for y
  proof (rule refresh_all.raw_induct[OF _ that], goal_cases)
    case (1 rec hash exec b cells computing eng y)
    note IH = 1(1)
    show ?case
    proof (cases cells)
      case (Cons d rest)
      show ?thesis
      proof (cases "d \<in> computing")
        case False
        show ?thesis
        proof (cases "what_is_owed b (ca_cell d) (ca_version d) eng")
          case (Owed inputs hops producer defs)
          obtain q where q: "rec hash exec b inputs (insert d computing) eng = Some q"
            using 1(2) Cons False Owed by (auto simp: bind_eq_Some_conv)
          have k1: "kept' eng (snd (snd q))" by (rule IH[OF q])
          show ?thesis
          proof (cases "fst q")
            case (Inl err)
            then show ?thesis using 1(2) Cons False Owed q k1 by (auto split: prod.splits)
          next
            case (Inr u)
            let ?p = "pay hash exec b (ca_cell d) hops producer defs (snd (snd q))"
            have k2: "kept' (snd (snd q)) (snd ?p)" by (rule pay)
            show ?thesis
            proof (cases "fst ?p")
              case (Inl err)
              then show ?thesis using 1(2) Cons False Owed q \<open>fst q = Inr u\<close> k1 k2
                by (auto split: prod.splits intro: trans)
            next
              case Inr2: (Inr v)
              then have "rec hash exec b rest (fst (snd q)) (snd ?p) = Some y"
                using 1(2) Cons False Owed q \<open>fst q = Inr u\<close> by (auto split: prod.splits)
              from IH[OF this] show ?thesis using k1 k2 trans by blast
            qed
          qed
        qed (use 1 Cons False refl in auto)
      qed (use 1 Cons refl in auto)
    qed (use 1 refl in auto)
  qed
  from this[OF assms(4)] show ?thesis by simp
qed

lemma refresh_all_kept:
  "refresh_all hash exec b cells computing eng = Some (r, computing', eng') \<Longrightarrow> kept eng eng'"
  by (rule refresh_all_frame[of kept, OF kept_refl kept_trans pay_kept])

section \<open>Scheduling\<close>

lemma is_broken_get:
  "poison_ok (wd_poison eng) \<Longrightarrow> is_broken eng b p =
     (case hm_get (wd_poison eng) (b, p) of
        None \<Rightarrow> None
      | Some po \<Rightarrow> if (case producer_version eng p of None \<Rightarrow> True | Some v \<Rightarrow> applies_to po v) then Some po else None)"
  by (simp add: is_broken_def find_poisoned)

lemma record_poisoning_keeps [simp]:
  "wd_log (record_poisoning say b p since err eng) = wd_log eng"
  "wd_index (record_poisoning say b p since err eng) = wd_index eng"
  "en_producers (record_poisoning say b p since err eng) = en_producers eng"
  "en_frontier (record_poisoning say b p since err eng) = en_frontier eng"
  "en_live (record_poisoning say b p since err eng) = en_live eng"
  "producer_version (record_poisoning say b p since err eng) = producer_version eng"
  by (simp_all add: record_poisoning_def producer_version_def fun_eq_iff wd_index_def en_frontier_def)

lemma record_poisoning_ok: "poison_ok (wd_poison eng) \<Longrightarrow> poison_ok (wd_poison (record_poisoning say b p since err eng))"
  by (simp add: record_poisoning_def poison_ok_poison)

lemma record_poisoning_broken:
  assumes "poison_ok (wd_poison eng)"
  shows "is_broken (record_poisoning say b p since err eng) b q \<noteq> None \<longleftrightarrow> q = p \<or> is_broken eng b q \<noteq> None"
  using assms record_poisoning_ok[OF assms, of say b p since err]
  by (auto simp: is_broken_get producer_version_def record_poisoning_def poison_def applies_to_def split: option.split)

definition count_of :: "(invocation_id, u32) hmap \<Rightarrow> invocation_id \<Rightarrow> u32" where
  "count_of reruns iv = hm_get_or 0 reruns iv"

text \<open>No counter passes nine, and at nine the producer is poisoned.\<close>

definition reruns_ok :: "branch_id \<Rightarrow> engine \<Rightarrow> (invocation_id, u32) hmap \<Rightarrow> bool" where
  "reruns_ok b eng reruns \<longleftrightarrow>
     (\<forall>iv. count_of reruns iv \<le> 9 \<and> (count_of reruns iv = 9 \<longrightarrow> is_broken eng b (iv_producer iv) \<noteq> None))"

definition plan_ok :: "(invocation_id, u32) hmap \<Rightarrow> plan \<Rightarrow> bool" where
  "plan_ok old pl \<longleftrightarrow> distinct (map snd (pl_work pl)) \<and>
     (\<forall>(def, iv) \<in> set (pl_work pl). iv \<in> pl_scheduled pl \<and> iv_producer iv = pd_id def \<and>
        count_of (pl_reruns pl) iv = count_of old iv + 1 \<and> count_of (pl_reruns pl) iv \<le> CYCLE_RERUN_LIMIT) \<and>
     (\<forall>iv. iv \<notin> pl_scheduled pl \<longrightarrow> count_of (pl_reruns pl) iv = count_of old iv) \<and>
     (\<forall>iv. count_of old iv \<le> count_of (pl_reruns pl) iv)"

definition sched_ok :: "branch_id \<Rightarrow> (invocation_id, u32) hmap \<Rightarrow> plan \<Rightarrow> engine \<Rightarrow> bool" where
  "sched_ok b old pl eng \<longleftrightarrow> plan_ok old pl \<and> reruns_ok b eng (pl_reruns pl) \<and> poison_ok (wd_poison eng)"

lemma small_counts:
  fixes c :: u32
  assumes "c \<le> 9" "c \<noteq> 9"
  shows "c \<le> c + 1" "c + 1 \<le> 9" "c + 1 > CYCLE_RERUN_LIMIT \<longleftrightarrow> c + 1 = 9"
proof -
  have "unat c \<noteq> 9" using assms(2) word_unat_eq_iff[of c 9] by simp
  then have c: "unat c < 9" using assms(1) by (simp add: word_le_nat_alt)
  then have u: "unat (c + 1) = unat c + 1" by (simp add: unat_word_ariths)
  show "c \<le> c + 1" "c + 1 \<le> 9" using c u by (simp_all add: word_le_nat_alt)
  have "c + 1 = 9 \<longleftrightarrow> unat (c + 1) = 9" using word_unat_eq_iff[of "c + 1" 9] by simp
  then show "c + 1 > CYCLE_RERUN_LIMIT \<longleftrightarrow> c + 1 = 9" using c u by (auto simp: CYCLE_RERUN_LIMIT_def word_less_nat_alt)
qed

lemma plan_candidates_ok:
  assumes "plan_candidates say b reflects def ivs pl eng = (pl', eng')" and "sched_ok b old pl eng"
    and "\<forall>iv \<in> set ivs. iv_producer iv = pd_id def" and "is_broken eng b (pd_id def) = None"
  shows "sched_ok b old pl' eng' \<and> (\<exists>new. pl_work pl' = pl_work pl @ map (Pair def) new \<and> set new \<subseteq> set ivs) \<and>
    pl_seeded pl' = pl_seeded pl \<and> (\<forall>q. is_broken eng b q \<noteq> None \<longrightarrow> is_broken eng' b q \<noteq> None) \<and>
    wd_log eng' = wd_log eng \<and> wd_index eng' = wd_index eng \<and> en_producers eng' = en_producers eng \<and>
    en_frontier eng' = en_frontier eng \<and> en_live eng' = en_live eng"
  using assms
proof (induction ivs arbitrary: pl eng)
  case (Cons iv ivs)
  show ?case
  proof (cases "iv \<in> pl_scheduled pl")
    case True
    then show ?thesis using Cons.IH[of pl eng] Cons.prems by auto
  next
    case False
    define runs where "runs = hm_get_or 0 (pl_reruns pl) iv + 1"
    define pl2 where "pl2 = pl\<lparr>pl_scheduled := insert iv (pl_scheduled pl), pl_reruns := hm_insert iv runs (pl_reruns pl)\<rparr>"
    have ok: "plan_ok old pl" "reruns_ok b eng (pl_reruns pl)" "poison_ok (wd_poison eng)"
      using Cons.prems(2) by (simp_all add: sched_ok_def)
    have iv: "iv_producer iv = pd_id def" using Cons.prems(3) by simp
    have small: "count_of (pl_reruns pl) iv \<le> 9" "count_of (pl_reruns pl) iv \<noteq> 9"
      using ok(2) Cons.prems(4) iv by (auto simp: reruns_ok_def)
    note small = small_counts[OF small, unfolded count_of_def, folded runs_def]
    have count: "count_of (pl_reruns pl2) j = (if j = iv then runs else count_of (pl_reruns pl) j)" for j
      by (simp add: count_of_def pl2_def hm_get_or_def)
    have same: "count_of (pl_reruns pl) iv = count_of old iv" using ok(1) False by (simp add: plan_ok_def)
    have notin: "iv \<notin> snd ` set (pl_work pl)" using ok(1) False by (auto simp: plan_ok_def)
    show ?thesis
    proof (cases "runs > CYCLE_RERUN_LIMIT")
      case True
      let ?e = "record_poisoning say b (pd_id def) reflects (ProducerCycle (pd_id def) runs) eng"
      have res: "pl' = pl2" "eng' = ?e" using Cons.prems(1) False True by (auto simp: runs_def[symmetric] pl2_def Let_def)
      have "plan_ok old pl2"
        using ok(1) same small(1) notin unfolding plan_ok_def count by (auto simp: pl2_def count_of_def runs_def)
      moreover have "reruns_ok b ?e (pl_reruns pl2)"
        using ok(2) iv small(2) unfolding reruns_ok_def count record_poisoning_broken[OF ok(3)] by auto
      moreover have "\<forall>q. is_broken eng b q \<noteq> None \<longrightarrow> is_broken ?e b q \<noteq> None"
        unfolding record_poisoning_broken[OF ok(3)] by simp
      ultimately show ?thesis
        using record_poisoning_ok[OF ok(3)] unfolding res sched_ok_def by (simp add: pl2_def)
    next
      case limit: False
      define pl3 where "pl3 = pl2\<lparr>pl_work := pl_work pl2 @ [(def, iv)]\<rparr>"
      have count3: "count_of (pl_reruns pl3) = count_of (pl_reruns pl2)" by (simp add: pl3_def)
      have rec: "plan_candidates say b reflects def ivs pl3 eng = (pl', eng')"
        using Cons.prems(1) False limit by (simp add: runs_def[symmetric] pl2_def pl3_def Let_def)
      have "plan_ok old pl3"
        using ok(1) same small(1) notin limit unfolding plan_ok_def count3 count
        by (auto simp: pl3_def pl2_def count_of_def runs_def iv not_less)
      moreover have "reruns_ok b eng (pl_reruns pl3)"
        using ok(2) small(2,3) limit unfolding reruns_ok_def count3 count by auto
      ultimately have "sched_ok b old pl3 eng" using ok(3) by (simp add: sched_ok_def)
      from Cons.IH[OF rec this _ Cons.prems(4)] Cons.prems(3)
      have IH: "sched_ok b old pl' eng'" "pl_seeded pl' = pl_seeded pl3"
        "\<exists>new. pl_work pl' = pl_work pl3 @ map (Pair def) new \<and> set new \<subseteq> set ivs"
        "\<forall>q. is_broken eng b q \<noteq> None \<longrightarrow> is_broken eng' b q \<noteq> None"
        "wd_log eng' = wd_log eng" "wd_index eng' = wd_index eng" "en_producers eng' = en_producers eng"
        "en_frontier eng' = en_frontier eng" "en_live eng' = en_live eng"
        by simp_all
      from IH(3) obtain new where new: "pl_work pl' = pl_work pl3 @ map (Pair def) new" "set new \<subseteq> set ivs" by blast
      have "\<exists>new. pl_work pl' = pl_work pl @ map (Pair def) new \<and> set new \<subseteq> set (iv # ivs)"
        by (rule exI[of _ "iv # new"]) (use new in \<open>auto simp: pl3_def pl2_def\<close>)
      then show ?thesis using IH by (simp add: pl3_def pl2_def)
    qed
  qed
qed auto

lemma backfill_cells_producer:
  "backfill_cells db path role p cells = Inr found \<Longrightarrow> iv \<in> set found \<Longrightarrow> iv_producer iv = p"
proof (induction cells arbitrary: found)
  case (Cons cell cells)
  then show ?case by (auto split: option.splits sum.splits if_splits)
qed simp

lemma backfill_producer: "backfill eng b rb def defs = Inr seeds \<Longrightarrow> iv \<in> set seeds \<Longrightarrow> iv_producer iv = pd_id def"
  by (auto simp: backfill_def Let_def backfill_cells_producer split: sum.splits if_splits)

lemma invalidated_by_producer: "iv \<in> invalidated_by di b cells def defs \<Longrightarrow> iv_producer iv = pd_id def"
  by (auto simp: invalidated_by_def Let_def split: prod.splits)

text \<open>What planning keeps, whatever it goes over.\<close>

definition planned :: "branch_id \<Rightarrow> engine \<Rightarrow> engine \<Rightarrow> bool" where
  "planned b eng eng' \<longleftrightarrow> (\<forall>q. is_broken eng b q \<noteq> None \<longrightarrow> is_broken eng' b q \<noteq> None) \<and>
    wd_log eng' = wd_log eng \<and> wd_index eng' = wd_index eng \<and> en_producers eng' = en_producers eng \<and>
    en_frontier eng' = en_frontier eng \<and> en_live eng' = en_live eng"

lemma planned_refl [simp]: "planned b eng eng"
  by (simp add: planned_def)

lemma planned_trans: "planned b x y \<Longrightarrow> planned b y z \<Longrightarrow> planned b x z"
  by (simp add: planned_def)

lemma plan_producers_ok:
  assumes "plan_producers say pick b rb reflects defs position cells ds pl eng = (Inr pl', eng')"
    and "sched_ok b old pl eng" and pick: "\<And>S. set (pick S) \<subseteq> S"
  shows "sched_ok b old pl' eng' \<and> planned b eng eng' \<and>
    (\<exists>new. pl_work pl' = pl_work pl @ new \<and>
       (\<forall>(def, iv) \<in> set new. def \<in> set ds \<and> is_broken eng b (pd_id def) = None \<and>
          watermark (en_frontier eng) b (pd_id def) < position))"
  using assms(1,2)
proof (induction ds arbitrary: pl eng)
  case (Cons def ds)
  show ?case
  proof (cases "skipped eng b position defs def")
    case True
    then have "plan_producers say pick b rb reflects defs position cells ds pl eng = (Inr pl', eng')"
      using Cons.prems(1) by simp
    from Cons.IH[OF this Cons.prems(2)] show ?thesis by auto
  next
    case False
    then have nb: "is_broken eng b (pd_id def) = None" and wm: "watermark (en_frontier eng) b (pd_id def) < position"
      by (auto simp: skipped_def not_le)
    define dirty where "dirty = invalidated_by (wd_index eng) b cells def defs"
    define pl2 where "pl2 = pl\<lparr>pl_seeded := insert (pd_id def) (pl_seeded pl)\<rparr>"
    obtain seeds where seeds: "(if pd_id def \<notin> pl_seeded pl then backfill eng b rb def defs else Inr []) = Inr seeds"
      using Cons.prems(1) False by (auto simp: Let_def split: sum.splits if_splits)
    obtain pl3 eng3 where c: "plan_candidates say b reflects def (pick (dirty \<union> set seeds)) pl2 eng = (pl3, eng3)"
      by (metis surj_pair)
    have rest: "plan_producers say pick b rb reflects defs position cells ds pl3 eng3 = (Inr pl', eng')"
      using Cons.prems(1) False seeds c by (simp add: Let_def dirty_def pl2_def split: if_splits)
    have ok2: "sched_ok b old pl2 eng" using Cons.prems(2) by (simp add: sched_ok_def plan_ok_def pl2_def)
    have "\<forall>iv \<in> set (pick (dirty \<union> set seeds)). iv_producer iv = pd_id def"
      using pick[of "dirty \<union> set seeds"] seeds
      by (auto simp: dirty_def dest: invalidated_by_producer backfill_producer split: if_splits)
    note C = plan_candidates_ok[OF c ok2 this nb]
    then obtain new where new: "pl_work pl3 = pl_work pl @ map (Pair def) new" by (auto simp: pl2_def)
    have p3: "planned b eng eng3" using C by (simp add: planned_def)
    have "sched_ok b old pl3 eng3" using C by simp
    from Cons.IH[OF rest this] obtain new' where I: "sched_ok b old pl' eng'" "planned b eng3 eng'"
      "pl_work pl' = pl_work pl3 @ new'"
      "\<forall>(d, iv) \<in> set new'. d \<in> set ds \<and> is_broken eng3 b (pd_id d) = None \<and> watermark (en_frontier eng3) b (pd_id d) < position"
      by auto
    have unbroken: "is_broken eng b q = None" if "is_broken eng3 b q = None" for q
      using p3 that unfolding planned_def by blast
    have front: "en_frontier eng3 = en_frontier eng" using p3 by (simp add: planned_def)
    have "\<forall>(d, iv) \<in> set (map (Pair def) new @ new'). d \<in> set (def # ds) \<and> is_broken eng b (pd_id d) = None \<and>
        watermark (en_frontier eng) b (pd_id d) < position"
      using I(4) nb wm unbroken unfolding front by fastforce
    moreover have "pl_work pl' = pl_work pl @ (map (Pair def) new @ new')" using I(3) new by simp
    ultimately show ?thesis using I(1) planned_trans[OF p3 I(2)] by blast
  qed
qed auto

lemma plan_layers_ok:
  assumes "plan_layers say pick b rb reflects defs wave pl eng = (Inr pl', eng')"
    and "sched_ok b old pl eng" and pick: "\<And>S. set (pick S) \<subseteq> S"
  shows "sched_ok b old pl' eng' \<and> planned b eng eng' \<and>
    (\<exists>new. pl_work pl' = pl_work pl @ new \<and>
       (\<forall>(def, iv) \<in> set new. def \<in> set (producer_defs eng) \<and> is_broken eng b (pd_id def) = None \<and>
          (\<exists>l \<in> set wave. watermark (en_frontier eng) b (pd_id def) < position_of (wd_log eng) l)))"
  using assms(1,2)
proof (induction wave arbitrary: pl eng)
  case (Cons l wave)
  obtain cells where cells: "cells_of (wd_log eng) l = Inr cells"
    using Cons.prems(1) by (auto split: sum.splits)
  obtain q eng2 where P: "plan_producers say pick b rb reflects defs (position_of (wd_log eng) l) cells (producer_defs eng) pl eng = (q, eng2)"
    by (metis surj_pair)
  obtain pl2 where q: "q = Inr pl2" using Cons.prems(1) cells P by (cases q) auto
  have rest: "plan_layers say pick b rb reflects defs wave pl2 eng2 = (Inr pl', eng')"
    using Cons.prems(1) cells P q by simp
  from plan_producers_ok[OF P[unfolded q] Cons.prems(2) pick] obtain new where A: "sched_ok b old pl2 eng2" "planned b eng eng2"
    "pl_work pl2 = pl_work pl @ new"
    "\<forall>(d, iv) \<in> set new. d \<in> set (producer_defs eng) \<and> is_broken eng b (pd_id d) = None \<and>
       watermark (en_frontier eng) b (pd_id d) < position_of (wd_log eng) l"
    by auto
  from Cons.IH[OF rest A(1)] obtain new' where B: "sched_ok b old pl' eng'" "planned b eng2 eng'" "pl_work pl' = pl_work pl2 @ new'"
    "\<forall>(d, iv) \<in> set new'. d \<in> set (producer_defs eng2) \<and> is_broken eng2 b (pd_id d) = None \<and>
       (\<exists>l \<in> set wave. watermark (en_frontier eng2) b (pd_id d) < position_of (wd_log eng2) l)"
    by auto
  have same: "producer_defs eng2 = producer_defs eng" "en_frontier eng2 = en_frontier eng" "wd_log eng2 = wd_log eng"
    using A(2) by (simp_all add: planned_def producer_defs_def)
  have unbroken: "is_broken eng b q = None" if "is_broken eng2 b q = None" for q
    using A(2) that unfolding planned_def by blast
  have "\<forall>(d, iv) \<in> set (new @ new'). d \<in> set (producer_defs eng) \<and> is_broken eng b (pd_id d) = None \<and>
       (\<exists>l \<in> set (l # wave). watermark (en_frontier eng) b (pd_id d) < position_of (wd_log eng) l)"
    using A(4) B(4) unbroken unfolding same by fastforce
  moreover have "pl_work pl' = pl_work pl @ (new @ new')" using A(3) B(3) by simp
  ultimately show ?case using B(1) planned_trans[OF A(2) B(2)] by blast
qed auto

section \<open>The turns of a round\<close>

lemma wave_steps_kept: "kept eng (snd (wave_steps hash exec defs is wv eng))"
proof (induction "is" arbitrary: wv eng)
  case (Cons i "is")
  have "kept eng (snd (wave_step hash exec defs i wv eng))"
    by (simp add: wave_step_def Let_def split_beta task_step_kept)
  then show ?case using Cons.IH by (auto simp: split_beta Let_def intro: kept_trans)
qed simp

lemma wave_finishes_kept: "kept eng (snd (wave_finishes hash exec defs is wv eng))"
proof (induction "is" arbitrary: wv eng)
  case (Cons i "is")
  have "kept eng (snd (wave_finish hash exec defs i wv eng))"
    by (simp add: wave_finish_def Let_def split_beta task_complete_kept)
  then show ?case using Cons.IH by (auto simp: split_beta Let_def intro: kept_trans)
qed simp

lemma run_wave_kept: "run_wave hash exec defs is wv eng = (wv', eng') \<Longrightarrow> kept eng eng'"
proof -
  let ?s = "wave_steps hash exec defs is wv eng"
  assume "run_wave hash exec defs is wv eng = (wv', eng')"
  then have "eng' = snd (wave_finishes hash exec defs [0 ..< length (wv_tasks (fst ?s))] (fst ?s) (snd ?s))"
    by (simp add: run_wave_def split_beta)
  then show ?thesis using kept_trans[OF wave_steps_kept wave_finishes_kept] by simp
qed

lemma kept_broken: "kept eng eng' \<Longrightarrow> is_broken eng' b p = is_broken eng b p"
proof -
  assume k: "kept eng eng'"
  then have v: "producer_version eng' = producer_version eng" by (simp add: kept_def producer_version_def fun_eq_iff)
  have t: "wd_poison eng' = wd_poison eng" using k by (simp add: kept_def)
  show ?thesis unfolding is_broken_def v t ..
qed

lemma join_all_broken:
  assumes "join_all say b reflects outs next eng = (r, eng')" and "poison_ok (wd_poison eng)"
  shows "poison_ok (wd_poison eng') \<and> (\<forall>q. is_broken eng b q \<noteq> None \<longrightarrow> is_broken eng' b q \<noteq> None) \<and>
    wd_log eng' = wd_log eng \<and> en_frontier eng' = en_frontier eng \<and> en_producers eng' = en_producers eng"
  using assms
proof (induction outs arbitrary: "next" eng)
  case (Cons e outs)
  obtain p q where e: "e = (p, q)" by (cases e)
  show ?case
  proof (cases q)
    case (Failed err)
    let ?e = "record_poisoning say b p reflects err eng"
    have "is_broken eng b x \<noteq> None \<Longrightarrow> is_broken ?e b x \<noteq> None" for x
      unfolding record_poisoning_broken[OF Cons.prems(2)] by simp
    then show ?thesis
      using Cons.IH[of "next" ?e] Cons.prems record_poisoning_ok[OF Cons.prems(2)] Failed e by fastforce
  qed (use Cons e in auto)
qed auto

inductive settling ::
  "(u8 list \<Rightarrow> u8 list) \<Rightarrow> executor \<Rightarrow> (borg_error \<Rightarrow> string) \<Rightarrow> (invocation_id set \<Rightarrow> invocation_id list) \<Rightarrow>
   def_view \<Rightarrow> layer_id \<Rightarrow> round_state \<Rightarrow> round_state \<Rightarrow> bool"
  for hash exec say pick defs reflects st0 where
  Start: "settling hash exec say pick defs reflects st0 st0"
| Turn: "settling hash exec say pick defs reflects st0 st \<Longrightarrow> st_wave st \<noteq> [] \<Longrightarrow>
    settle_turn hash exec say pick defs reflects is st = (None, st') \<Longrightarrow> settling hash exec say pick defs reflects st0 st'"

definition turn_ok :: "branch_id \<Rightarrow> round_state \<Rightarrow> bool" where
  "turn_ok b st \<longleftrightarrow> rd_parent (st_round st) = b \<and> reruns_ok b (st_engine st) (st_reruns st) \<and> poison_ok (wd_poison (st_engine st))"

lemma sched_ok_start: "reruns_ok b eng reruns \<Longrightarrow> poison_ok (wd_poison eng) \<Longrightarrow>
    sched_ok b reruns \<lparr>pl_work = [], pl_scheduled = {}, pl_reruns = reruns, pl_seeded = seeded\<rparr> eng"
  by (simp add: sched_ok_def plan_ok_def)

lemma schedule_ok:
  assumes "schedule say pick b rb wave reflects defs reruns seeded eng = (Inr pl, eng')"
    and "reruns_ok b eng reruns" and "poison_ok (wd_poison eng)" and "\<And>S. set (pick S) \<subseteq> S"
  shows "sched_ok b reruns pl eng' \<and> planned b eng eng' \<and>
    (\<forall>(def, iv) \<in> set (pl_work pl). def \<in> set (producer_defs eng) \<and> is_broken eng b (pd_id def) = None \<and>
       (\<exists>l \<in> set wave. watermark (en_frontier eng) b (pd_id def) < position_of (wd_log eng) l))"
  using plan_layers_ok[OF assms(1)[unfolded schedule_def] sched_ok_start[OF assms(2,3)] assms(4)] by auto

lemma wave_parent: "rd_parent (wv_round (fst (wave_steps hash exec defs is wv eng))) = rd_parent (wv_round wv)"
proof (induction "is" arbitrary: wv eng)
  case (Cons i "is")
  have "rd_parent (wv_round (fst (wave_step hash exec defs i wv eng))) = rd_parent (wv_round wv)"
    by (auto simp: wave_step_def wave_join_def round_ran_def Let_def split_beta split: option.split run_outcome.split)
  then show ?case using Cons.IH by (simp add: split_beta Let_def)
qed simp

lemma wave_parent_finishes: "rd_parent (wv_round (fst (wave_finishes hash exec defs is wv eng))) = rd_parent (wv_round wv)"
proof (induction "is" arbitrary: wv eng)
  case (Cons i "is")
  have "rd_parent (wv_round (fst (wave_finish hash exec defs i wv eng))) = rd_parent (wv_round wv)"
    by (auto simp: wave_finish_def wave_join_def round_ran_def Let_def split_beta split: option.split run_outcome.split)
  then show ?case using Cons.IH by (simp add: split_beta Let_def)
qed simp

lemma settle_turn_parts:
  assumes "settle_turn hash exec say pick defs reflects is st = (None, st')"
  obtains pl eng1 wv eng2 "next" eng3 where
    "schedule say pick (rd_parent (st_round st)) (rd_branch (st_round st)) (st_wave st) reflects defs (st_reruns st) (st_seeded st) (st_engine st) = (Inr pl, eng1)"
    "run_wave hash exec defs is (wave_new \<lparr>ra_on = rd_branch (st_round st), ra_home = rd_parent (st_round st), ra_fresh_as_of = reflects, ra_reflects = reflects\<rparr>
       (pl_work pl) (st_round st)) eng1 = (wv, eng2)"
    "join_all say (rd_parent (st_round st)) reflects (wv_ended wv) [] eng2 = (Inr next, eng3)"
    "st' = \<lparr>st_wave = next, st_reruns = pl_reruns pl, st_seeded = pl_seeded pl, st_round = wv_round wv,
       st_executed = st_executed st + length next, st_engine = eng3\<rparr>"
  using assms by (auto simp: settle_turn_def Let_def split: sum.splits prod.splits)

lemma turn_ok_step:
  assumes "turn_ok b st" and "settle_turn hash exec say pick defs reflects is st = (None, st')" and pick: "\<And>S. set (pick S) \<subseteq> S"
  shows "turn_ok b st'"
proof -
  have b: "rd_parent (st_round st) = b" using assms(1) by (simp add: turn_ok_def)
  obtain pl eng1 wv eng2 "next" eng3 where
    s: "schedule say pick b (rd_branch (st_round st)) (st_wave st) reflects defs (st_reruns st) (st_seeded st) (st_engine st) = (Inr pl, eng1)"
    and w: "run_wave hash exec defs is (wave_new \<lparr>ra_on = rd_branch (st_round st), ra_home = b, ra_fresh_as_of = reflects, ra_reflects = reflects\<rparr>
       (pl_work pl) (st_round st)) eng1 = (wv, eng2)"
    and j: "join_all say b reflects (wv_ended wv) [] eng2 = (Inr next, eng3)"
    and st': "st' = \<lparr>st_wave = next, st_reruns = pl_reruns pl, st_seeded = pl_seeded pl, st_round = wv_round wv,
       st_executed = st_executed st + length next, st_engine = eng3\<rparr>"
    using settle_turn_parts[OF assms(2), unfolded b] by metis
  have S: "sched_ok b (st_reruns st) pl eng1"
    using schedule_ok[OF s _ _ pick] assms(1) by (simp add: turn_ok_def)
  have k: "kept eng1 eng2" by (rule run_wave_kept[OF w])
  have ok2: "poison_ok (wd_poison eng2)" using S k by (simp add: sched_ok_def kept_def)
  note J = join_all_broken[OF j ok2]
  have "reruns_ok b eng3 (pl_reruns pl)"
    using S J unfolding sched_ok_def reruns_ok_def kept_broken[OF k, symmetric] by blast
  moreover have "rd_parent (wv_round wv) = b"
  proof -
    have "rd_parent (wv_round (fst (run_wave hash exec defs is wv0 eng1))) = rd_parent (wv_round wv0)" for wv0
      by (simp add: run_wave_def split_beta wave_parent wave_parent_finishes)
    from this[of "wave_new \<lparr>ra_on = rd_branch (st_round st), ra_home = b, ra_fresh_as_of = reflects, ra_reflects = reflects\<rparr>
       (pl_work pl) (st_round st)"] show ?thesis unfolding w by (simp add: wave_new_def b)
  qed
  ultimately show ?thesis using J by (simp add: turn_ok_def st')
qed

lemma settling_ok:
  assumes "settling hash exec say pick defs reflects st0 st" and "turn_ok b st0" and "\<And>S. set (pick S) \<subseteq> S"
  shows "turn_ok b st"
  using assms(1)
proof (induction rule: settling.induct)
  case (Turn st "is" st')
  show ?case by (rule turn_ok_step[OF Turn.IH Turn.hyps(3) assms(3)])
qed (rule assms(2))

section \<open>Settling\<close>

text \<open>How many more runs the limit leaves a set of invocations.\<close>

definition budget :: "invocation_id set \<Rightarrow> round_state \<Rightarrow> nat" where
  "budget ivs st = (\<Sum>iv \<in> ivs. 8 - min 8 (unat (count_of (st_reruns st) iv)))"

lemma counted_up:
  assumes "plan_ok old pl" and "reruns_ok b eng old" and "(def, iv) \<in> set (pl_work pl)"
  shows "unat (count_of (pl_reruns pl) iv) = unat (count_of old iv) + 1" and "unat (count_of (pl_reruns pl) iv) \<le> 8"
    and "hm_get (pl_reruns pl) iv \<noteq> None"
proof -
  have new: "count_of (pl_reruns pl) iv = count_of old iv + 1" and le: "count_of (pl_reruns pl) iv \<le> CYCLE_RERUN_LIMIT"
    using assms(1,3) by (auto simp: plan_ok_def)
  have nine: "count_of old iv \<le> 9" using assms(2) by (simp add: reruns_ok_def)
  then have small: "unat (count_of old iv) \<le> 9" by (simp add: word_le_nat_alt)
  then show up: "unat (count_of (pl_reruns pl) iv) = unat (count_of old iv) + 1"
    unfolding new by (simp add: unat_word_ariths)
  show "unat (count_of (pl_reruns pl) iv) \<le> 8" using le by (simp add: CYCLE_RERUN_LIMIT_def word_le_nat_alt)
  show "hm_get (pl_reruns pl) iv \<noteq> None"
    using up by (cases "hm_get (pl_reruns pl) iv") (simp_all add: count_of_def hm_get_or_def)
qed

lemma no_work_no_wave:
  assumes "run_wave hash exec defs is (wave_new at' [] r) eng = (wv, eng')"
  shows "wv_ended wv = []"
proof -
  have "wave_steps hash exec defs is (wave_new at' [] r) eng = (wave_new at' [] r, eng)" for eng
    by (induction "is") (simp_all add: wave_step_def wave_new_def)
  moreover have "wv_tasks (wave_new at' [] r) = []" "wv_ended (wave_new at' [] r) = []" by (simp_all add: wave_new_def)
  ultimately show ?thesis using assms by (auto simp: run_wave_def)
qed

lemma turn_progress:
  assumes "turn_ok b st" and "settle_turn hash exec say pick defs reflects is st = (None, st')" and pick: "\<And>S. set (pick S) \<subseteq> S"
    and fin: "finite ivs" "dom (hm_get (st_reruns st')) \<subseteq> ivs"
  shows "st_wave st' = [] \<or> budget ivs st' < budget ivs st"
proof -
  have b: "rd_parent (st_round st) = b" using assms(1) by (simp add: turn_ok_def)
  obtain pl eng1 wv eng2 "next" eng3 where
    s: "schedule say pick b (rd_branch (st_round st)) (st_wave st) reflects defs (st_reruns st) (st_seeded st) (st_engine st) = (Inr pl, eng1)"
    and w: "run_wave hash exec defs is (wave_new \<lparr>ra_on = rd_branch (st_round st), ra_home = b, ra_fresh_as_of = reflects, ra_reflects = reflects\<rparr>
       (pl_work pl) (st_round st)) eng1 = (wv, eng2)"
    and j: "join_all say b reflects (wv_ended wv) [] eng2 = (Inr next, eng3)"
    and st': "st' = \<lparr>st_wave = next, st_reruns = pl_reruns pl, st_seeded = pl_seeded pl, st_round = wv_round wv,
       st_executed = st_executed st + length next, st_engine = eng3\<rparr>"
    using settle_turn_parts[OF assms(2), unfolded b] by metis
  have old: "reruns_ok b (st_engine st) (st_reruns st)" using assms(1) by (simp add: turn_ok_def)
  have P: "plan_ok (st_reruns st) pl"
    using schedule_ok[OF s _ _ pick] assms(1) by (simp add: turn_ok_def sched_ok_def)
  show ?thesis
  proof (cases "pl_work pl")
    case Nil
    then have "wv_ended wv = []" using no_work_no_wave w by simp
    then show ?thesis using j st' by simp
  next
    case (Cons x work)
    obtain def iv where x: "(def, iv) \<in> set (pl_work pl)" using Cons by (cases x) auto
    note up = counted_up[OF P old x]
    have le: "unat (count_of (st_reruns st) j) \<le> unat (count_of (pl_reruns pl) j)" for j
      using P by (simp add: plan_ok_def word_le_nat_alt)
    have "iv \<in> ivs" using up(3) fin(2) by (auto simp: st')
    moreover have "8 - min 8 (unat (count_of (pl_reruns pl) iv)) < 8 - min 8 (unat (count_of (st_reruns st) iv))"
      using up(1,2) by simp
    moreover have "8 - min 8 (unat (count_of (pl_reruns pl) j)) \<le> 8 - min 8 (unat (count_of (st_reruns st) j))" for j
      using le[of j] by (simp add: diff_le_mono2 min.coboundedI2)
    ultimately have "budget ivs st' < budget ivs st"
      unfolding budget_def st' round_state.select_convs by (intro sum_strict_mono_ex1 fin(1)) auto
    then show ?thesis ..
  qed
qed

lemma settle_loop_returns:
  assumes "settling hash exec say pick defs reflects st0 st" and "turn_ok b st0" and pick: "\<And>S. set (pick S) \<subseteq> S"
    and "finite ivs" and dom: "\<And>st'. settling hash exec say pick defs reflects st0 st' \<Longrightarrow> dom (hm_get (st_reruns st')) \<subseteq> ivs"
  shows "\<exists>res. settle_loop hash exec say pick defs reflects sched n st = Some res"
  using assms(1)
proof (induction "2 * budget ivs st + (if st_wave st = [] then 0 else 1)" arbitrary: st n rule: less_induct)
  case less
  show ?case
  proof (cases "st_wave st = []")
    case True
    then show ?thesis by (subst settle_loop.simps) simp
  next
    case False
    obtain e st' where t: "settle_turn hash exec say pick defs reflects (sched n) st = (e, st')" by (metis surj_pair)
    show ?thesis
    proof (cases e)
      case (Some err)
      then show ?thesis by (subst settle_loop.simps) (simp add: False t)
    next
      case None
      have next_st: "settling hash exec say pick defs reflects st0 st'"
        using settling.Turn[OF less.prems False] t None by simp
      have "turn_ok b st" by (rule settling_ok[OF less.prems assms(2) pick])
      from turn_progress[OF this t[unfolded None] pick \<open>finite ivs\<close> dom[OF next_st]]
      consider "st_wave st' = []" | "budget ivs st' < budget ivs st" by blast
      then have "\<exists>res. settle_loop hash exec say pick defs reflects sched (n + 1) st' = Some res"
      proof cases
        case 1
        then show ?thesis by (subst settle_loop.simps) simp
      next
        case 2
        then show ?thesis using False by (intro less.hyps next_st) auto
      qed
      then show ?thesis by (subst settle_loop.simps) (simp add: False t None)
    qed
  qed
qed

lemma advance_grow: "watermark f b p \<le> watermark (fold (\<lambda>p f. snd (advance b p to f)) ps f) b p"
proof (induction ps arbitrary: f)
  case (Cons q ps)
  have "watermark f b p \<le> watermark (snd (advance b q to f)) b p" by (simp add: watermark_advance)
  also note Cons.IH[of "snd (advance b q to f)"]
  finally show ?case by simp
qed simp

lemma advance_all: "p \<in> set ps \<Longrightarrow> to \<le> watermark (fold (\<lambda>p f. snd (advance b p to f)) ps f) b p"
proof -
  show "p \<in> set ps \<Longrightarrow> to \<le> watermark (fold (\<lambda>p f. snd (advance b p to f)) ps f) b p"
  proof (induction ps arbitrary: f)
    case (Cons q ps)
    show ?case
    proof (cases "p \<in> set ps")
      case False
      then have "to \<le> watermark (snd (advance b q to f)) b p" using Cons.prems by (simp add: watermark_advance)
      also have "\<dots> \<le> watermark (fold (\<lambda>p f. snd (advance b p to f)) (q # ps) f) b p"
        using advance_grow[of "snd (advance b q to f)" b p to ps] by simp
      finally show ?thesis .
    qed (use Cons.IH in simp)
  qed simp
qed

lemma turn_ok_new: "poison_ok (wd_poison eng) \<Longrightarrow> turn_ok b (round_state_new sp (round_new rb b fork) eng)"
  by (simp add: turn_ok_def round_state_new_def round_new_def reruns_ok_def count_of_def hm_get_or_def)

section \<open>Properties\<close>

text \<open>Property C31. A round whose producers stay within finitely many invocations, and each of whose runs returns,
  settles: the wave loop returns, whatever the runs read, write and answer, in whatever order tasks are
  interleaved and sets are iterated. The rerun limit alone sees to it. That each single run returns is part
  of the model, where producer code is a \<open>program\<close>, a tree without infinite branches; the source waits for a
  run without a limit of time, so a producer that hangs keeps its round from settling.\<close>

theorem finite_rounds_settle:
  assumes "poison_ok (wd_poison eng)" and "\<And>S. set (pick S) \<subseteq> S" and "finite ivs"
    and "\<And>st. settling hash exec say pick defs reflects (round_state_new sp (round_new rb b fork) eng) st \<Longrightarrow>
      dom (hm_get (st_reruns st)) \<subseteq> ivs"
  shows "\<exists>res. settle_loop hash exec say pick defs reflects sched 0 (round_state_new sp (round_new rb b fork) eng) = Some res"
  by (rule settle_loop_returns[OF settling.Start turn_ok_new[OF assms(1)] assms(2,3,4)])

text \<open>Property C33. A wave never holds an invocation twice, and none that has run eight times in its round:
  in every state a round reaches, what is scheduled next are distinct invocations of producers that
  are not poisoned and have not incorporated the layer that woke them, each counted up by one to at
  most eight.\<close>

theorem waves_respect_the_rerun_limit:
  assumes "settling hash exec say pick defs reflects (round_state_new sp (round_new rb b fork) eng) st"
    and "poison_ok (wd_poison eng)" and "\<And>S. set (pick S) \<subseteq> S"
    and "schedule say pick b rb' (st_wave st) reflects defs (st_reruns st) (st_seeded st) (st_engine st) = (Inr pl, eng')"
  shows "distinct (map snd (pl_work pl)) \<and>
    (\<forall>(def, iv) \<in> set (pl_work pl). iv_producer iv = pd_id def \<and> is_broken (st_engine st) b (pd_id def) = None \<and>
       unat (count_of (pl_reruns pl) iv) = unat (count_of (st_reruns st) iv) + 1 \<and> unat (count_of (pl_reruns pl) iv) \<le> 8 \<and>
       (\<exists>l \<in> set (st_wave st). watermark (en_frontier (st_engine st)) b (pd_id def) < position_of (wd_log (st_engine st)) l))"
proof -
  have T: "turn_ok b st" by (rule settling_ok[OF assms(1) turn_ok_new[OF assms(2)] assms(3)])
  then have r: "reruns_ok b (st_engine st) (st_reruns st)" "poison_ok (wd_poison (st_engine st))" by (simp_all add: turn_ok_def)
  note S = schedule_ok[OF assms(4) r assms(3)]
  then have P: "plan_ok (st_reruns st) pl" by (simp add: sched_ok_def)
  have "distinct (map snd (pl_work pl))" "\<forall>(def, iv) \<in> set (pl_work pl). iv_producer iv = pd_id def"
    using P by (auto simp: plan_ok_def)
  then show ?thesis using S counted_up(1,2)[OF P r(1)] by fastforce
qed

text \<open>Property C34. Once a round has settled, no waiter for a layer of its range waits any longer: every
  registered producer's watermark is at or past the round's source layer, whether its invocations
  landed, were dropped by the merge, or its producer is poisoned.\<close>

theorem settled_round_lets_waiters_through:
  assumes "settle_span hash exec say pick sched b sp eng = (Inr outcome, eng')" and "target \<le> sp_reflects sp"
  shows "has_reached (en_frontier eng') b (producer_ids eng') target"
proof -
  obtain st where st: "settle_end b (sp_reflects sp) st = (Inr outcome, eng')"
    using assms(1) by (auto simp: settle_span_def split: option.splits sum.splits prod.splits)
  obtain o2 eng2 where m: "on_log (merge_round (st_round st)) (st_engine st) = (Inr o2, eng2)"
    and e: "eng' = on_frontier (fold (\<lambda>p f. snd (advance b p (sp_reflects sp) f)) (producer_ids eng2)) eng2"
    using st by (auto simp: settle_end_def split: sum.splits prod.splits)
  have "target \<le> watermark (en_frontier eng') b p" if "p \<in> set (producer_ids eng')" for p
  proof -
    have "p \<in> set (producer_ids eng2)" using that by (simp add: e producer_ids_def)
    from advance_all[OF this, of "sp_reflects sp" b "en_frontier eng2"] show ?thesis using assms(2) by (simp add: e)
  qed
  then show ?thesis by (auto simp: has_reached_def settled_Some split: option.split)
qed

end
