(* ===== verification/Round_Isolation.thy ===== *)
theory Round_Isolation
  imports Derive_Properties Session_Properties
begin

text \<open>
  A round's tasks run concurrently, and what they do stays on the round's own branch until the merge: in
  every interleaving each task keeps its session, and nothing any other branch shows changes.
\<close>

section \<open>Steps that stage into one layer\<close>

definition staging :: "layer_id \<Rightarrow> manager \<Rightarrow> manager \<Rightarrow> bool" where
  "staging l m n \<longleftrightarrow> same_log (mg_db m) (mg_db n) \<and> mg_heads n = mg_heads m \<and> mg_branches n = mg_branches m \<and>
     mg_def_layers n = mg_def_layers m \<and> mg_next n = mg_next m \<and> mg_layers n = mg_layers m \<and>
     (\<forall>k. k \<noteq> l \<longrightarrow> hm_get (in_staged (mg_db n)) k = hm_get (in_staged (mg_db m)) k)"

lemma staging_refl [simp]: "staging l m m"
  by (simp add: staging_def same_log_def)

lemma staging_trans [trans]: "staging l m n \<Longrightarrow> staging l n k \<Longrightarrow> staging l m k"
  by (simp add: staging_def same_log_def)

lemma lm_put_staging: "lm_put h cell draft m = (r, n) \<Longrightarrow> staging (lh_id h) m n"
proof -
  assume "lm_put h cell draft m = (r, n)"
  then have n: "n = m\<lparr>mg_db := snd (author_event (lh_id h) cell draft (mg_db m))\<rparr>"
    by (auto simp: lm_put_def on_db_def split: prod.splits)
  have "hm_get (in_staged (snd (author_event l cell draft i))) k = hm_get (in_staged i) k" if "k \<noteq> l" for l i k
    using that by (simp add: author_event_def mint_def put_staged_def split: sum.split)
  then show ?thesis unfolding staging_def n using staged_ops_log(1) by simp
qed

lemma imply_existence_staging: "imply_existence cell ws m = (r, ws', n) \<Longrightarrow> staging (ws_layer ws) m n"
  by (auto simp: imply_existence_def Let_def ws_layer_def split: if_splits sum.splits option.splits prod.splits
      dest: lm_put_staging)

lemma ws_put_staging:
  assumes "ws_put cell v by ws m = (r, ws', n)"
  shows "staging (ws_layer ws) m n"
proof -
  obtain q u k where im: "imply_existence cell ws m = (q, u, k)" by (metis prod_cases3)
  have "ws_handle u = ws_handle ws"
    using im by (auto simp: imply_existence_def Let_def split: if_splits sum.splits option.splits prod.splits)
  then show ?thesis
    using assms im imply_existence_staging[OF im]
    by (auto simp: ws_put_def ws_layer_def split: sum.splits prod.splits if_splits dest!: lm_put_staging intro: staging_trans)
qed

lemma intern_value_staging: "intern_value hash input m = (r, n) \<Longrightarrow> staging l m n"
proof (cases input)
  case (ContentInput kind bytes)
  assume "intern_value hash input m = (r, n)"
  then have n: "n = m\<lparr>mg_db := snd (intern hash kind bytes (mg_db m))\<rparr>"
    using ContentInput by (auto simp: intern_value_def on_db_def split: prod.splits sum.splits)
  have "in_staged (mg_db n) = in_staged (mg_db m)" by (simp add: n intern_def split: sum.split)
  then show ?thesis using staged_ops_log(10)[of "mg_db m"] by (simp add: staging_def n)
qed (simp add: intern_value_def)

lemma put_text_staging:
  assumes "put_text hash cell text by ws m = (r, ws', n)"
  shows "staging (ws_layer ws) m n"
proof -
  obtain q k where p: "ws_parse hash cell text ws m = (q, k)" by fastforce
  then have "staging (ws_layer ws) m k"
    by (auto simp: ws_parse_def split: option.splits sum.splits dest: intern_value_staging)
  then show ?thesis
    using assms p by (auto simp: put_text_def split: sum.splits dest!: ws_put_staging intro: staging_trans)
qed

section \<open>Steps that stay on one branch\<close>

text \<open>What every branch but \<open>rb\<close> shows is the same.\<close>

definition apart :: "branch_id \<Rightarrow> manager \<Rightarrow> manager \<Rightarrow> bool" where
  "apart rb m n \<longleftrightarrow>
     (\<forall>path c v. rb \<notin> fst ` set path \<longrightarrow> get_cell (mg_db n) path c v = get_cell (mg_db m) path c v) \<and>
     (\<forall>b. b \<noteq> rb \<longrightarrow> hm_get (mg_heads n) b = hm_get (mg_heads m) b) \<and>
     mg_branches n = mg_branches m \<and> mg_def_layers n = mg_def_layers m"

definition confined :: "branch_id \<Rightarrow> layer_id \<Rightarrow> manager \<Rightarrow> manager \<Rightarrow> bool" where
  "confined rb l m n \<longleftrightarrow> apart rb m n \<and>
     (\<forall>k. k \<noteq> l \<longrightarrow> hm_get (mg_layers n) k = hm_get (mg_layers m) k \<and>
        hm_get (in_staged (mg_db n)) k = hm_get (in_staged (mg_db m)) k)"

lemma apart_refl [simp]: "apart rb m m"
  by (simp add: apart_def)

lemma apart_trans [trans]: "apart rb m n \<Longrightarrow> apart rb n k \<Longrightarrow> apart rb m k"
  by (simp add: apart_def)

lemma confined_refl [simp]: "confined rb l m m"
  by (simp add: confined_def)

lemma confined_trans [trans]: "confined rb l m n \<Longrightarrow> confined rb l n k \<Longrightarrow> confined rb l m k"
  by (auto simp: confined_def intro: apart_trans)

lemma staging_confined: "staging l m n \<Longrightarrow> confined rb l m n"
  by (simp add: staging_def confined_def apart_def get_cell_same)

lemma same_segments:
  assumes "mem_inv i" "mem_inv j" and "\<And>b bound x. b \<noteq> rb \<Longrightarrow> newest_in j b bound c v x = newest_in i b bound c v x"
    and "\<And>b bound. b \<noteq> rb \<Longrightarrow> nothing_in j b bound c v = nothing_in i b bound c v"
  shows "rb \<notin> fst ` set path \<Longrightarrow> get_cell j path c v = get_cell i path c v"
proof (induction path)
  case (Cons seg path)
  obtain b bound where seg: "seg = (b, bound)" by (cases seg)
  with Cons.prems have b: "b \<noteq> rb" by auto
  have IH: "get_cell j path c v = get_cell i path c v" using Cons by simp
  from get_cell_Cons[OF assms(1), of b bound c v path] get_cell_Cons[OF assms(2), of b bound c v path]
  show ?case unfolding seg IH
    using assms(3)[OF b] assms(4)[OF b] newest_not_nothing newest_in_unique by metis
qed simp

lemma log_event_elsewhere:
  assumes inv: "mem_inv i" and fresh: "hm_get (in_members i) l = None"
    and members: "hm_get (in_members j) = (hm_get (in_members i))(l \<mapsto> x)" and "mb_branch x = rb" and b: "b \<noteq> rb"
    and keeps: "\<And>e ev. stored i e = Some ev \<Longrightarrow> stored j e = Some ev"
  shows "log_event j b c v k = log_event i b c v k"
proof (cases "k = l")
  case True
  then show ?thesis using fresh members assms(4) b by (simp add: log_event_def log_landing_def)
next
  case False
  then have m: "hm_get (in_members j) k = hm_get (in_members i) k" by (simp add: members)
  show ?thesis
  proof (cases "hm_get (in_members i) k")
    case (Some y)
    have known: "\<exists>ev. stored i e = Some ev" if "e \<in> set (mb_events y)" for e
      using mem_invD(3)[OF inv] Some that by (auto simp: members_ok_def stored_def)
    then have same: "event_at (in_events j) e = event_at (in_events i) e" if "e \<in> set (mb_events y)" for e
      using keeps[of e] that by (force simp: stored_def)
    then have "filter (hits (in_events j) c v) (mb_events y) = filter (hits (in_events i) c v) (mb_events y)"
      by (intro filter_cong) (simp_all add: hits_def)
    then have hit: "last_hit (in_events j) (mb_events y) c v = last_hit (in_events i) (mb_events y) c v"
      by (simp add: last_hit_def)
    have "stored j e = stored i e" if "last_hit (in_events i) (mb_events y) c v = Some e" for e
      using last_hit_SomeD[OF that] same by (simp add: stored_def)
    then show ?thesis using m Some hit by (auto simp: log_event_def log_landing_def split: option.split)
  qed (simp add: m log_event_def log_landing_def)
qed

lemma commit_confined:
  assumes inv: "mg_inv m" and layer: "hm_get (mg_layers m) (lh_id h) = Some layer" "ly_state layer = LOpen"
    and br: "ly_branch layer = rb" "ly_branch (lh_layer h) = rb" and h: "ly_kind (lh_layer h) = LKValue" "ly_guards (lh_layer h) = []"
  obtains n where "lm_commit h m = (Inr (lh_id h), n)" "confined rb (lh_id h) m n" "mg_next n = mg_next m"
proof -
  obtain s where s: "hm_get (in_staged (mg_db m)) (lh_id h) = Some s" "sl_branch s = rb"
    using open_staged[OF inv layer] br by auto
  have ok: "lm_commit h m = (Inr (lh_id h), commit_manager h layer s m)"
    by (rule commit_accepted[OF inv layer s(1)]) (simp add: h check_guards_def)
  let ?n = "commit_manager h layer s m" and ?j = "commit_db h s (mg_db m)"
  note mem = mg_invD(1)[OF inv]
  have fresh: "hm_get (in_members (mg_db m)) (lh_id h) = None"
    using mg_invD(3)[OF inv, of "lh_id h"] layer by (simp add: sync_ok_def)
  have ev: "log_event ?j b c v k = log_event (mg_db m) b c v k" if "b \<noteq> rb" for b c v k
    by (rule log_event_elsewhere[OF mem fresh commit_db_facts(4)[OF mem s(1)] _ that commit_db_facts(5)[OF mem s(1)]])
      (simp add: s(2))
  have "get_cell ?j path c v = get_cell (mg_db m) path c v" if "rb \<notin> fst ` set path" for path c v
    by (rule same_segments[OF mem commit_db_facts(2)[OF mem s(1)] _ _ that]) (simp_all add: newest_in_def nothing_in_def ev)
  moreover have "mg_db ?n = ?j" "mg_branches ?n = mg_branches m" "mg_def_layers ?n = mg_def_layers m" "mg_next ?n = mg_next m"
    "mg_layers ?n = hm_insert (lh_id h) (committed_layer h layer) (mg_layers m)" "mg_heads ?n = raise_head rb (lh_id h) (mg_heads m)"
    by (simp_all add: commit_manager_def Let_def h br(2))
  moreover have "hm_get (raise_head rb l hs) b = hm_get hs b" if "b \<noteq> rb" for l hs b
    using that by (simp add: get_raise_head)
  ultimately have "confined rb (lh_id h) m ?n"
    using commit_db_facts(3)[OF mem s(1)] by (simp add: confined_def apart_def)
  then show ?thesis using that[OF ok] by (simp add: commit_manager_def Let_def)
qed

lemma abort_confined:
  assumes inv: "mg_inv m" and layer: "hm_get (mg_layers m) (lh_id h) = Some layer" "ly_state layer = LOpen"
  obtains n where "lm_abort h m = (Inr (), n)" "confined rb (lh_id h) m n" "mg_next n = mg_next m"
proof -
  let ?n = "m\<lparr>mg_db := snd (mem_abort (lh_id h) (mg_db m)), mg_layers := hm_insert (lh_id h) (layer\<lparr>ly_state := LAborted\<rparr>) (mg_layers m)\<rparr>"
  have "same_log (mg_db m) (mg_db ?n)" using staged_ops_log(6)[of "mg_db m" "lh_id h"] by simp
  then have "confined rb (lh_id h) m ?n" by (simp add: confined_def apart_def get_cell_same) (simp add: mem_abort_def)
  then show ?thesis by (rule that[OF abort_outcome[OF assms]]) simp
qed

lemma open_confined:
  assumes inv: "mg_inv m" and "mg_next m \<noteq> - 1" and "open_on rb home version w author m = (r, n)"
  shows "mg_inv n \<and> confined rb (mg_next m) m n \<and>
    (case r of Inl _ \<Rightarrow> n = m | Inr ws \<Rightarrow> mg_next n = mg_next m + 1 \<and> session_inv ws n \<and> ws_layer ws = mg_next m \<and>
       ly_branch (lh_layer (ws_handle ws)) = rb \<and> ly_kind (lh_layer (ws_handle ws)) = LKValue \<and>
       ly_guards (lh_layer (ws_handle ws)) = [] \<and> ws_writer ws = w)"
proof -
  let ?layer = "\<lparr>ly_id = mg_next m, ly_branch = rb, ly_kind = LKValue, ly_author = author, ly_state = LOpen,
      ly_parent = lm_head m rb, ly_guards = []\<rparr>"
  let ?n = "m\<lparr>mg_next := mg_next m + 1, mg_layers := hm_insert (mg_next m) ?layer (mg_layers m),
       mg_db := put_staged (mg_next m) \<lparr>sl_branch = rb, sl_members = [], sl_authored = [], sl_defs = [], sl_sealed = False\<rparr> (mg_db m)\<rparr>"
  have o: "lm_open rb LKValue author m = (Inr \<lparr>lh_layer = ?layer\<rparr>, ?n)"
    by (rule lm_open_cases[OF inv assms(2) refl refl])
  show ?thesis
  proof (cases r)
    case (Inl err)
    then have "n = m" using assms(3) o by (auto simp: open_on_def split: sum.splits)
    then show ?thesis using Inl inv by simp
  next
    case (Inr ws)
    have ws: "ws_handle ws = \<lparr>lh_layer = ?layer\<rparr>" "ws_touched ws = {}" "ws_observed ws = []" "ws_authored ws = []" "ws_writer ws = w"
      and n: "n = ?n"
      using assms(3) o Inr by (auto simp: open_on_def split: sum.splits)
    have inv': "mg_inv n" using mg_inv_open[OF inv assms(2), of rb LKValue author] o n by simp
    have "same_log (mg_db m) (mg_db n)" by (simp add: n same_log_def put_staged_def)
    then have "confined rb (mg_next m) m n"
      by (simp add: confined_def apart_def get_cell_same) (simp add: n put_staged_def)
    moreover have "session_inv ws n"
      using ws inv' by (simp add: n session_inv_def session_open_def handle_ok_def ws_layer_def lh_id_def drafted_def named_def put_staged_def)
    ultimately show ?thesis using Inr inv' ws by (simp add: n ws_layer_def lh_id_def)
  qed
qed

section \<open>Recording a read set\<close>

text \<open>The dependency index and the watermarks belong to no layer: no invariant and no reader of cells sees them.\<close>

definition other_indexes :: "dep_index \<Rightarrow> frontier \<Rightarrow> manager \<Rightarrow> manager" where
  "other_indexes di f m = m\<lparr>mg_indexes := (mg_indexes m)\<lparr>ix_deps := di, ix_frontier := f\<rparr>\<rparr>"

lemma other_indexes_simps [simp]:
  "mg_db (other_indexes di f m) = mg_db m" "mg_layers (other_indexes di f m) = mg_layers m"
  "mg_heads (other_indexes di f m) = mg_heads m" "mg_next (other_indexes di f m) = mg_next m"
  "mg_branches (other_indexes di f m) = mg_branches m" "mg_def_layers (other_indexes di f m) = mg_def_layers m"
  "mg_members (other_indexes di f m) = mg_members m" "ix_touch (mg_indexes (other_indexes di f m)) = ix_touch (mg_indexes m)"
  "committed_on (other_indexes di f m) = committed_on m" "lm_head (other_indexes di f m) = lm_head m"
  "source_write (other_indexes di f m) = source_write m"
  by (simp_all add: other_indexes_def committed_on_def lm_head_def source_write_def fun_eq_iff)

lemma other_indexes_inv [simp]: "mg_inv (other_indexes di f m) = mg_inv m"
proof -
  let ?n = "other_indexes di f m"
  have "layers_ok ?n = layers_ok m" by (simp add: layers_ok_def)
  moreover have "sync_ok ?n l = sync_ok m l" for l by (simp add: sync_ok_def split: option.split)
  moreover have "heads_ok ?n = heads_ok m" by (simp add: heads_ok_def split: option.split)
  moreover have "touch_ok ?n = touch_ok m" by (simp add: touch_ok_def)
  ultimately show ?thesis by (simp only: mg_inv_def other_indexes_simps)
qed

lemma other_indexes_session [simp]: "session_inv ws (other_indexes di f m) = session_inv ws m"
  by (simp add: session_inv_def session_open_def handle_ok_def drafted_def named_def)

lemma other_indexes_confined [simp]: "confined rb l m (other_indexes di f m)"
  by (simp add: confined_def apart_def)

lemma on_index_log: "wd_log (on_index g eng) = other_indexes (g (wd_index eng)) (en_frontier eng) (wd_log eng)"
  by (simp add: on_index_def other_indexes_def en_frontier_def)

section \<open>Tasks\<close>

text \<open>A session of the round: open, on the round's branch, writing values under no guard.\<close>

definition owns :: "branch_id \<Rightarrow> manager \<Rightarrow> write_session \<Rightarrow> bool" where
  "owns rb m ws \<longleftrightarrow> session_inv ws m \<and> ly_branch (lh_layer (ws_handle ws)) = rb \<and>
     ly_kind (lh_layer (ws_handle ws)) = LKValue \<and> ly_guards (lh_layer (ws_handle ws)) = []"

lemma owns_mg_inv: "owns rb m ws \<Longrightarrow> mg_inv m"
  by (simp add: owns_def session_inv_def session_open_def)

lemma owns_layer:
  assumes "owns rb m ws"
  obtains layer where "hm_get (mg_layers m) (lh_id (ws_handle ws)) = Some layer" "ly_state layer = LOpen" "ly_branch layer = rb"
  using assms by (auto simp: owns_def session_inv_def session_open_def handle_ok_def ws_layer_def)

lemma owns_same: "owns rb m ws \<Longrightarrow> session_inv ws' n \<Longrightarrow> same_session ws ws' \<Longrightarrow> owns rb n ws' \<and> ws_layer ws' = ws_layer ws"
  by (simp add: owns_def same_session_def ws_layer_def)

lemma owns_elsewhere: "owns rb m ws \<Longrightarrow> mg_inv n \<Longrightarrow> confined rb l m n \<Longrightarrow> ws_layer ws \<noteq> l \<Longrightarrow> owns rb n ws"
  by (auto simp: owns_def confined_def intro: session_inv_elsewhere)

lemma prog_step_confined:
  assumes "owns rb m (rc_session ctx)" and "prog_step hash p ctx m = (p', ctx', n)"
  shows "owns rb n (rc_session ctx') \<and> ws_layer (rc_session ctx') = ws_layer (rc_session ctx) \<and>
    confined rb (ws_layer (rc_session ctx)) m n \<and> mg_next n = mg_next m"
proof -
  have inv: "session_inv (rc_session ctx) m" using assms(1) by (simp add: owns_def)
  have written: ?thesis
    if "\<exists>r ws. (session_inv ws n \<and> same_session (rc_session ctx) ws) \<and> staging (ws_layer (rc_session ctx)) m n \<and>
      rc_session ctx' = ws"
    using that owns_same[OF assms(1)] staging_confined by (fastforce simp: staging_def)
  have accept: "\<exists>r. rc_session ctx' = ws \<and> n = k" if "accept_write cell ctx (r, ws, k) = (q, ctx', n)" for cell r ws k q
    using that by (auto simp: accept_write_def ctx_wrote_def split: sum.splits)
  show ?thesis
  proof (cases p)
    case (SetValue cell v cont)
    obtain r ws k where w: "set_derived cell v (ctx_derivation ctx) (rc_session ctx) m = (r, ws, k)" by (metis prod_cases3)
    note W = ws_put_outcome[OF inv w[unfolded set_derived_def]] ws_put_staging[OF w[unfolded set_derived_def]]
    have "rc_session ctx' = ws" "n = k"
      using assms(2) w by (auto simp: SetValue ctx_set_def accept_write_def ctx_wrote_def split: sum.splits)
    then show ?thesis using W by (intro written) auto
  next
    case (SetText cell t cont)
    obtain r ws k where w: "set_text_derived hash cell t (ctx_derivation ctx) (rc_session ctx) m = (r, ws, k)" by (metis prod_cases3)
    note W = put_text_outcome[OF inv w[unfolded set_text_derived_def]] put_text_staging[OF w[unfolded set_text_derived_def]]
    have "rc_session ctx' = ws" "n = k"
      using assms(2) w by (auto simp: SetText ctx_set_text_def accept_write_def ctx_wrote_def split: sum.splits)
    then show ?thesis using W by (intro written) auto
  next
    case (Intern input cont)
    then obtain r where i: "intern_value hash input m = (r, n)" "ctx' = ctx" using assms(2) by (auto split: prod.splits)
    have "session_inv (rc_session ctx) n" using intern_value_inv[OF inv i(1)] by simp
    then show ?thesis using intern_value_staging[OF i(1)] i(2) by (intro written) (auto simp: same_session_def)
  qed (use assms in \<open>auto simp: ctx_get_def ctx_get_at_def ctx_get_input_def\<close>)
qed

text \<open>What a program has done by its end, from any point of it on.\<close>

definition ran_apart :: "branch_id \<Rightarrow> recording_ctx \<Rightarrow> manager \<Rightarrow> program \<Rightarrow> recording_ctx \<Rightarrow> manager \<Rightarrow> bool" where
  "ran_apart rb ctx m p' ctx' n \<longleftrightarrow> owns rb n (rc_session ctx') \<and> ws_layer (rc_session ctx') = ws_layer (rc_session ctx) \<and>
    confined rb (ws_layer (rc_session ctx)) m n \<and> mg_next n = mg_next m \<and> ended p'"

lemma run_program_unfold:
  "run_program hash p ctx m =
     (if ended p then (p, ctx, m) else case prog_step hash p ctx m of (p1, ctx1, m1) \<Rightarrow> run_program hash p1 ctx1 m1)"
  by (cases p) (simp_all add: split_beta Let_def)

lemma ran_apart_step:
  assumes "owns rb m (rc_session ctx)" and "run_program hash p ctx m = (p', ctx', n)" and "\<not> ended p"
    and IH: "\<And>p1 ctx1 m1. prog_step hash p ctx m = (p1, ctx1, m1) \<Longrightarrow> owns rb m1 (rc_session ctx1) \<Longrightarrow>
      run_program hash p1 ctx1 m1 = (p', ctx', n) \<Longrightarrow> ran_apart rb ctx1 m1 p' ctx' n"
  shows "ran_apart rb ctx m p' ctx' n"
proof -
  obtain p1 ctx1 m1 where s: "prog_step hash p ctx m = (p1, ctx1, m1)" by (metis prod_cases3)
  then have "run_program hash p1 ctx1 m1 = (p', ctx', n)" using assms(2,3) by (simp add: run_program_unfold[of hash p])
  then have "ran_apart rb ctx1 m1 p' ctx' n" using IH[OF s] prog_step_confined[OF assms(1) s] by simp
  then show ?thesis using prog_step_confined[OF assms(1) s] by (auto simp: ran_apart_def intro: confined_trans)
qed

lemma run_program_confined:
  "owns rb m (rc_session ctx) \<Longrightarrow> run_program hash p ctx m = (p', ctx', n) \<Longrightarrow> ran_apart rb ctx m p' ctx' n"
proof (induction p arbitrary: ctx m)
  case (Return r)
  then show ?case by (auto simp: ran_apart_def)
next
  case Panic
  then show ?case by (auto simp: ran_apart_def)
next
  case (Get cell cont)
  from Get.prems show ?case by (rule ran_apart_step) (auto simp: Let_def split_beta intro: Get.IH)
next
  case (GetAt cell v cont)
  from GetAt.prems show ?case by (rule ran_apart_step) (auto simp: Let_def split_beta intro: GetAt.IH)
next
  case (GetInput cell cont)
  from GetInput.prems show ?case by (rule ran_apart_step) (auto simp: Let_def split_beta intro: GetInput.IH)
next
  case (SetValue cell v cont)
  from SetValue.prems show ?case by (rule ran_apart_step) (auto simp: Let_def split_beta intro: SetValue.IH)
next
  case (SetText cell t cont)
  from SetText.prems show ?case by (rule ran_apart_step) (auto simp: Let_def split_beta intro: SetText.IH)
next
  case (Intern input cont)
  from Intern.prems show ?case by (rule ran_apart_step) (auto simp: Let_def split_beta intro: Intern.IH)
next
  case (Render v cont)
  from Render.prems show ?case by (rule ran_apart_step) (auto simp: Let_def split_beta intro: Render.IH)
qed

definition task_session :: "task \<Rightarrow> write_session option" where
  "task_session t =
     (case tk_phase t of
        Opened ws \<Rightarrow> Some ws
      | Running ctx _ \<Rightarrow> Some (rc_session ctx)
      | Recorded ctx \<Rightarrow> Some (rc_session ctx)
      | _ \<Rightarrow> None)"

definition task_ok :: "branch_id \<Rightarrow> manager \<Rightarrow> task \<Rightarrow> bool" where
  "task_ok rb m t \<longleftrightarrow> ra_on (tk_at t) = rb \<and> (\<forall>ws. task_session t = Some ws \<longrightarrow> owns rb m ws)"

text \<open>The layer a task's next step may touch: its own, or the one it is about to open.\<close>

definition task_layer :: "manager \<Rightarrow> task \<Rightarrow> layer_id" where
  "task_layer m t = (case task_session t of Some ws \<Rightarrow> ws_layer ws | None \<Rightarrow> mg_next m)"

definition step_confined :: "branch_id \<Rightarrow> engine \<Rightarrow> task \<Rightarrow> engine \<Rightarrow> task \<Rightarrow> bool" where
  "step_confined rb eng t eng' t' \<longleftrightarrow> mg_inv (wd_log eng') \<and> task_ok rb (wd_log eng') t' \<and>
     confined rb (task_layer (wd_log eng) t) (wd_log eng) (wd_log eng') \<and>
     (mg_next (wd_log eng') = mg_next (wd_log eng) \<or>
      tk_phase t = Waiting \<and> mg_next (wd_log eng') = mg_next (wd_log eng) + 1) \<and>
     (\<forall>ws. task_session t' = Some ws \<longrightarrow> ws_layer ws = task_layer (wd_log eng) t) \<and>
     (task_session t = None \<longrightarrow> tk_phase t = Waiting \<or> task_session t' = None) \<and> tk_phase t' \<noteq> Waiting"

lemma task_step_confined:
  assumes inv: "mg_inv (wd_log eng)" and ok: "task_ok rb (wd_log eng) t"
    and room: "tk_phase t = Waiting \<Longrightarrow> mg_next (wd_log eng) \<noteq> - 1"
    and step: "task_step hash exec defs t eng = (t', eng')"
  shows "step_confined rb eng t eng' t'"
proof -
  obtain ph where ph: "phase_step hash exec defs t eng = (ph, eng')" and t': "t' = t\<lparr>tk_phase := ph\<rparr>"
    using step by (auto simp: task_step_def split: prod.splits)
  have on: "ra_on (tk_at t) = rb" using ok by (simp add: task_ok_def)
  show ?thesis
  proof (cases "tk_phase t")
    case Waiting
    let ?f = "open_on rb (ra_home (tk_at t)) (fst (run_versions defs (tk_def t))) (WProducer (pd_id (tk_def t)))
        (ADerived (pd_id (tk_def t)) (ra_reflects (tk_at t)))"
    obtain r n where o: "?f (wd_log eng) = (r, n)" by fastforce
    note O = open_confined[OF inv room[OF Waiting] o]
    have ph': "(ph, eng') = (case r of Inl err \<Rightarrow> (Finished (Failed err), eng\<lparr>wd_log := n\<rparr>) | Inr ws \<Rightarrow> (Opened ws, eng\<lparr>wd_log := n\<rparr>))"
      using ph o Waiting on by (auto simp: phase_step_def task_open_def on_log_def Let_def split: sum.splits)
    show ?thesis
      using O ph' on Waiting t'
      by (cases r) (auto simp: step_confined_def task_ok_def task_session_def task_layer_def owns_def)
  next
    case (Opened ws)
    have own: "owns rb (wd_log eng) ws" using ok Opened by (simp add: task_ok_def task_session_def)
    then show ?thesis
      using ph t' inv on Opened
      by (auto simp: step_confined_def phase_step_def task_start_def task_ok_def task_session_def task_layer_def task_ctx_def
          split: sum.splits)
  next
    case (Running ctx p)
    have own: "owns rb (wd_log eng) (rc_session ctx)" using ok Running by (simp add: task_ok_def task_session_def)
    obtain layer where layer: "hm_get (mg_layers (wd_log eng)) (lh_id (ws_handle (rc_session ctx))) = Some layer"
      "ly_state layer = LOpen" by (rule owns_layer[OF own])
    have l: "task_layer (wd_log eng) t = ws_layer (rc_session ctx)" by (simp add: task_layer_def task_session_def Running)
    show ?thesis
    proof (cases "ended p")
      case True
      show ?thesis
      proof (cases p)
        case (Return r)
        show ?thesis
        proof (cases r)
          case (Inl err)
          obtain n where a: "lm_abort (ws_handle (rc_session ctx)) (wd_log eng) = (Inr (), n)"
            "confined rb (lh_id (ws_handle (rc_session ctx))) (wd_log eng) n" "mg_next n = mg_next (wd_log eng)"
            by (rule abort_confined[OF inv layer])
          have "handle_ok (wd_log eng) (ws_handle (rc_session ctx))"
            using own by (simp add: owns_def session_inv_def session_open_def)
          then have "mg_inv n" using mg_inv_abort[OF inv _ layer] a(1) by simp
          moreover have "(ph, eng') = (Finished (Failed err), eng\<lparr>wd_log := n\<rparr>)"
            using ph Running Return Inl a(1) by (simp add: phase_step_def run_step_def task_return_def on_log_def ws_abort_def)
          ultimately show ?thesis
            using a on t' Running by (simp add: step_confined_def l task_ok_def task_session_def ws_layer_def)
        next
          case (Inr u)
          then show ?thesis
            using ph Running Return inv own on t' by (auto simp: phase_step_def run_step_def task_return_def step_confined_def
                task_ok_def task_session_def task_layer_def on_index_log owns_def)
        qed
      next
        case Panic
        then show ?thesis
          using ph Running inv on t' by (auto simp: phase_step_def run_step_def step_confined_def task_ok_def task_session_def)
      qed (use True in auto)
    next
      case False
      obtain p1 ctx1 n where s: "prog_step hash p ctx (wd_log eng) = (p1, ctx1, n)" by (metis prod_cases3)
      have "(ph, eng') = (Running ctx1 p1, eng\<lparr>wd_log := n\<rparr>)"
        using ph Running s False by (cases p) (auto simp: phase_step_def run_step_def)
      then show ?thesis
        using prog_step_confined[OF own s] on t' Running owns_mg_inv
        by (auto simp: step_confined_def l task_ok_def task_session_def)
    qed
  next
    case (Recorded ctx)
    have own: "owns rb (wd_log eng) (rc_session ctx)" using ok Recorded by (simp add: task_ok_def task_session_def)
    obtain layer where layer: "hm_get (mg_layers (wd_log eng)) (lh_id (ws_handle (rc_session ctx))) = Some layer"
      "ly_state layer = LOpen" "ly_branch layer = rb" by (rule owns_layer[OF own])
    have h: "ly_branch (lh_layer (ws_handle (rc_session ctx))) = rb" "ly_kind (lh_layer (ws_handle (rc_session ctx))) = LKValue"
      "ly_guards (lh_layer (ws_handle (rc_session ctx))) = []" using own by (simp_all add: owns_def)
    obtain n where c: "lm_commit (ws_handle (rc_session ctx)) (wd_log eng) = (Inr (lh_id (ws_handle (rc_session ctx))), n)"
      "confined rb (lh_id (ws_handle (rc_session ctx))) (wd_log eng) n" "mg_next n = mg_next (wd_log eng)"
      by (rule commit_confined[OF inv layer h])
    have "handle_ok (wd_log eng) (ws_handle (rc_session ctx))"
      using own by (simp add: owns_def session_inv_def session_open_def)
    then have "mg_inv n" using mg_inv_commit[OF inv] c(1) by (metis snd_conv)
    moreover have "eng' = eng\<lparr>wd_log := n\<rparr>" "\<exists>o'. ph = Finished o'"
      using ph Recorded c(1) by (auto simp: phase_step_def task_commit_def on_log_def ws_commit_def)
    ultimately show ?thesis
      using c on t' Recorded by (auto simp: step_confined_def task_layer_def task_ok_def task_session_def ws_layer_def)
  next
    case (Finished r)
    then have "ph = Finished r" "eng' = eng" using ph by (simp_all add: phase_step_def)
    then show ?thesis using inv on Finished t' by (simp add: step_confined_def task_ok_def task_session_def)
  qed
qed

lemma step_confined_refl:
  "mg_inv (wd_log eng) \<Longrightarrow> task_ok rb (wd_log eng) t \<Longrightarrow> tk_phase t \<noteq> Waiting \<Longrightarrow> step_confined rb eng t eng t"
  by (simp add: step_confined_def task_layer_def split: option.split)

lemma step_confined_trans:
  assumes "step_confined rb e t e1 t1" and "step_confined rb e1 t1 e2 t2"
    and "task_session t1 = None \<Longrightarrow> e2 = e1 \<and> t2 = t1"
  shows "step_confined rb e t e2 t2"
proof (cases "task_session t1")
  case None
  then show ?thesis using assms by simp
next
  case (Some ws)
  then have "task_layer (wd_log e1) t1 = task_layer (wd_log e) t"
    using assms(1) by (simp add: step_confined_def task_layer_def)
  then show ?thesis using assms(1,2) Some
    by (auto simp: step_confined_def intro: confined_trans)
qed

lemma finished_step:
  "task_session t = None \<Longrightarrow> tk_phase t \<noteq> Waiting \<Longrightarrow> task_step hash exec defs t eng = (t, eng)"
  by (cases "tk_phase t") (auto simp: task_session_def task_step_def phase_step_def)

lemma task_drain_confined:
  assumes "mg_inv (wd_log eng)" and "task_ok rb (wd_log eng) t" and "tk_phase t \<noteq> Waiting"
    and "task_drain hash t eng = (t', eng')"
  shows "step_confined rb eng t eng' t' \<and> (task_session t = None \<longrightarrow> t' = t \<and> eng' = eng)"
proof (cases "tk_phase t")
  case (Running ctx p)
  have own: "owns rb (wd_log eng) (rc_session ctx)" using assms(2) Running by (simp add: task_ok_def task_session_def)
  obtain p1 ctx1 n where r: "run_program hash p ctx (wd_log eng) = (p1, ctx1, n)" by (metis prod_cases3)
  have "t' = t\<lparr>tk_phase := Running ctx1 p1\<rparr>" "eng' = eng\<lparr>wd_log := n\<rparr>"
    using assms(4) Running r by (simp_all add: task_drain_def)
  then show ?thesis
    using run_program_confined[OF own r] assms(2) Running owns_mg_inv
    by (auto simp: ran_apart_def step_confined_def task_layer_def task_ok_def task_session_def)
qed (use assms step_confined_refl[OF assms(1-3)] in \<open>auto simp: task_drain_def\<close>)

lemma task_complete_confined:
  assumes inv: "mg_inv (wd_log eng)" and ok: "task_ok rb (wd_log eng) t"
    and room: "tk_phase t = Waiting \<Longrightarrow> mg_next (wd_log eng) \<noteq> - 1"
    and c: "task_complete hash exec defs t eng = (t', eng')"
  shows "step_confined rb eng t eng' t'"
proof -
  have one: "step_confined rb eng t e2 t2"
    if "step_confined rb eng t e1 t1" "task_step hash exec defs t1 e1 = (t2, e2)" for t1 e1 t2 e2
  proof (rule step_confined_trans[OF that(1)])
    have "tk_phase t1 \<noteq> Waiting" using that(1) by (simp add: step_confined_def)
    then show "step_confined rb e1 t1 e2 t2"
      using that by (intro task_step_confined) (auto simp: step_confined_def)
    show "task_session t1 = None \<Longrightarrow> e2 = e1 \<and> t2 = t1"
      using finished_step[OF _ \<open>tk_phase t1 \<noteq> Waiting\<close>] that(2) by fastforce
  qed
  obtain t1 e1 where 1: "task_step hash exec defs t eng = (t1, e1)" by fastforce
  obtain t2 e2 where 2: "task_step hash exec defs t1 e1 = (t2, e2)" by fastforce
  obtain t3 e3 where 3: "task_drain hash t2 e2 = (t3, e3)" by fastforce
  obtain t4 e4 where 4: "task_step hash exec defs t3 e3 = (t4, e4)" by fastforce
  have 5: "task_step hash exec defs t4 e4 = (t', eng')" using c by (simp add: task_complete_def 1 2 3 4)
  have s1: "step_confined rb eng t e1 t1" by (rule task_step_confined[OF inv ok _ 1]) (rule room)
  have s2: "step_confined rb eng t e2 t2" by (rule one[OF s1 2])
  have "step_confined rb e2 t2 e3 t3 \<and> (task_session t2 = None \<longrightarrow> t3 = t2 \<and> e3 = e2)"
    using s2 by (intro task_drain_confined[OF _ _ _ 3]) (simp_all add: step_confined_def)
  then have s3: "step_confined rb eng t e3 t3" by (elim conjE) (rule step_confined_trans[OF s2], blast+)
  show ?thesis by (rule one[OF one[OF s3 4] 5])
qed

section \<open>Waves\<close>

definition waiting :: "task list \<Rightarrow> nat" where
  "waiting ts = length (filter (\<lambda>t. tk_phase t = Waiting) ts)"

text \<open>Every task keeps its own session, no two share a layer, and there are layer ids left for the rest.\<close>

definition wave_ok :: "branch_id \<Rightarrow> wave \<Rightarrow> engine \<Rightarrow> bool" where
  "wave_ok rb wv eng \<longleftrightarrow> mg_inv (wd_log eng) \<and> (\<forall>t \<in> set (wv_tasks wv). task_ok rb (wd_log eng) t) \<and>
     (\<forall>i j ws ws'. i < length (wv_tasks wv) \<longrightarrow> j < length (wv_tasks wv) \<longrightarrow> i \<noteq> j \<longrightarrow>
        task_session (wv_tasks wv ! i) = Some ws \<longrightarrow> task_session (wv_tasks wv ! j) = Some ws' \<longrightarrow> ws_layer ws \<noteq> ws_layer ws') \<and>
     unat (mg_next (wd_log eng)) + waiting (wv_tasks wv) < 2 ^ 64"

lemma waiting_update:
  "i < length ts \<Longrightarrow> waiting (ts[i := t]) + (if tk_phase (ts ! i) = Waiting then 1 else 0) =
     waiting ts + (if tk_phase t = Waiting then 1 else 0)"
proof (induction ts arbitrary: i)
  case (Cons x ts)
  show ?case
  proof (cases i)
    case (Suc k)
    then show ?thesis using Cons.IH[of k] Cons.prems by (simp add: waiting_def)
  qed (simp add: waiting_def)
qed simp

lemma wave_ok_update:
  assumes ok: "wave_ok rb wv eng" and i: "i < length (wv_tasks wv)" and step: "step_confined rb eng (wv_tasks wv ! i) eng' t'"
  shows "wave_ok rb (wv\<lparr>wv_tasks := (wv_tasks wv)[i := t']\<rparr>) eng'"
proof -
  let ?ts = "wv_tasks wv" and ?l = "task_layer (wd_log eng) (wv_tasks wv ! i)"
  have inv: "mg_inv (wd_log eng)" and tasks: "\<And>t. t \<in> set ?ts \<Longrightarrow> task_ok rb (wd_log eng) t" using ok by (simp_all add: wave_ok_def)
  have conf: "confined rb ?l (wd_log eng) (wd_log eng')" and inv': "mg_inv (wd_log eng')" using step by (simp_all add: step_confined_def)
  have apart: "ws_layer ws \<noteq> ?l" if j: "j < length ?ts" "j \<noteq> i" "task_session (?ts ! j) = Some ws" for j ws
  proof (cases "task_session (?ts ! i)")
    case (Some ws')
    then show ?thesis using ok i j by (auto simp: wave_ok_def task_layer_def)
  next
    case None
    have "owns rb (wd_log eng) ws" using tasks[of "?ts ! j"] j by (simp add: task_ok_def)
    then obtain layer where "hm_get (mg_layers (wd_log eng)) (ws_layer ws) = Some layer"
      by (rule owns_layer) (simp add: ws_layer_def)
    then show ?thesis using next_unused[OF inv] None by (auto simp: task_layer_def)
  qed
  have others: "task_ok rb (wd_log eng') (?ts ! j)" if j: "j < length ?ts" "j \<noteq> i" for j
    using tasks[of "?ts ! j"] j apart[OF j] owns_elsewhere[OF _ inv' conf] by (auto simp: task_ok_def)
  have mine: "task_ok rb (wd_log eng') t'" "\<And>ws. task_session t' = Some ws \<Longrightarrow> ws_layer ws = ?l" "tk_phase t' \<noteq> Waiting"
    using step by (simp_all add: step_confined_def)
  have "\<forall>t \<in> set (?ts[i := t']). task_ok rb (wd_log eng') t"
  proof
    fix t
    assume "t \<in> set (?ts[i := t'])"
    then obtain j where "j < length ?ts" "t = (if j = i then t' else ?ts ! j)"
      by (auto simp: in_set_conv_nth nth_list_update)
    then show "task_ok rb (wd_log eng') t" using others mine(1) by (cases "j = i") simp_all
  qed
  moreover have "ws_layer ws \<noteq> ws_layer ws'"
    if "j < length ?ts" "k < length ?ts" "j \<noteq> k" "task_session (?ts[i := t'] ! j) = Some ws" "task_session (?ts[i := t'] ! k) = Some ws'"
    for j k ws ws'
    using that ok apart mine(2) i by (auto simp: nth_list_update wave_ok_def split: if_splits) metis+
  moreover have "unat (mg_next (wd_log eng')) + waiting (?ts[i := t']) < 2 ^ 64"
  proof -
    have w: "waiting (?ts[i := t']) + (if tk_phase (?ts ! i) = Waiting then 1 else 0) = waiting ?ts"
      using waiting_update[OF i, of t'] mine(3) by simp
    have room: "unat (mg_next (wd_log eng)) + waiting ?ts < 2 ^ 64" using ok by (simp add: wave_ok_def)
    consider "mg_next (wd_log eng') = mg_next (wd_log eng)"
      | "tk_phase (?ts ! i) = Waiting" "mg_next (wd_log eng') = mg_next (wd_log eng) + 1"
      using step by (auto simp: step_confined_def)
    then show ?thesis
    proof cases
      case 2
      then have "unat (mg_next (wd_log eng')) = unat (mg_next (wd_log eng)) + 1"
        using room w by (simp add: unat_word_ariths)
      then show ?thesis using 2 room w by simp
    qed (use room w in \<open>simp split: if_splits\<close>)
  qed
  ultimately show ?thesis using inv' by (simp add: wave_ok_def)
qed

lemma waiting_pos: "t \<in> set ts \<Longrightarrow> tk_phase t = Waiting \<Longrightarrow> 0 < waiting ts"
  by (auto simp: waiting_def filter_empty_conv)

lemma wave_room:
  assumes "wave_ok rb wv eng" and "i < length (wv_tasks wv)" and "tk_phase (wv_tasks wv ! i) = Waiting"
  shows "mg_next (wd_log eng) \<noteq> - 1"
proof
  assume "mg_next (wd_log eng) = - 1"
  then have "unat (mg_next (wd_log eng)) = 2 ^ 64 - 1" by (simp add: unsigned_minus_1_eq_mask mask_eq_exp_minus_1)
  then show False
    using assms waiting_pos[of "wv_tasks wv ! i" "wv_tasks wv"] by (simp add: wave_ok_def)
qed

lemma wave_ok_join [simp]: "wave_ok rb (wave_join t wv) eng = wave_ok rb wv eng"
  by (simp add: wave_ok_def wave_join_def split: option.split run_outcome.split)

lemma wave_join_tasks [simp]: "wv_tasks (wave_join t wv) = wv_tasks wv"
  by (simp add: wave_join_def split: option.split run_outcome.split)

text \<open>What the wave's steps keep.\<close>

definition kept_apart :: "branch_id \<Rightarrow> wave \<Rightarrow> engine \<Rightarrow> wave \<Rightarrow> engine \<Rightarrow> bool" where
  "kept_apart rb wv eng wv' eng' \<longleftrightarrow> wave_ok rb wv' eng' \<and> apart rb (wd_log eng) (wd_log eng') \<and>
     length (wv_tasks wv') = length (wv_tasks wv)"

lemma kept_apart_refl: "wave_ok rb wv eng \<Longrightarrow> kept_apart rb wv eng wv eng"
  by (simp add: kept_apart_def)

lemma kept_apart_trans: "kept_apart rb wv eng wv1 eng1 \<Longrightarrow> kept_apart rb wv1 eng1 wv2 eng2 \<Longrightarrow> kept_apart rb wv eng wv2 eng2"
  by (auto simp: kept_apart_def intro: apart_trans)

lemma kept_apart_update:
  assumes "wave_ok rb wv eng" and "i < length (wv_tasks wv)" and "step_confined rb eng (wv_tasks wv ! i) eng' t'"
  shows "kept_apart rb wv eng (wave_join t' (wv\<lparr>wv_tasks := (wv_tasks wv)[i := t']\<rparr>)) eng'"
  using wave_ok_update[OF assms] assms(3) by (simp add: kept_apart_def step_confined_def confined_def)

lemma wave_okD: "wave_ok rb wv eng \<Longrightarrow> i < length (wv_tasks wv) \<Longrightarrow> mg_inv (wd_log eng) \<and> task_ok rb (wd_log eng) (wv_tasks wv ! i)"
  by (simp add: wave_ok_def)

lemma wave_step_apart:
  assumes ok: "wave_ok rb wv eng" and step: "wave_step hash exec defs i wv eng = (wv', eng')"
  shows "kept_apart rb wv eng wv' eng'"
proof (cases "i < length (wv_tasks wv) \<and> may_step eng (wv_tasks wv) (wv_tasks wv ! i)")
  case True
  then have i: "i < length (wv_tasks wv)" by simp
  obtain t' where t: "task_step hash exec defs (wv_tasks wv ! i) eng = (t', eng')"
    and wv': "wv' = wave_join t' (wv\<lparr>wv_tasks := (wv_tasks wv)[i := t']\<rparr>)"
    using step True by (auto simp: wave_step_def split: prod.splits)
  show ?thesis unfolding wv'
    by (rule kept_apart_update[OF ok i])
      (rule task_step_confined[OF _ _ _ t], use wave_okD[OF ok i] wave_room[OF ok i] in auto)
next
  case False
  then show ?thesis using step ok by (simp add: wave_step_def kept_apart_refl split: if_splits)
qed

lemma wave_finish_apart:
  assumes ok: "wave_ok rb wv eng" and i: "i < length (wv_tasks wv)" and step: "wave_finish hash exec defs i wv eng = (wv', eng')"
  shows "kept_apart rb wv eng wv' eng'"
proof (cases "panicked wv \<or> task_outcome (wv_tasks wv ! i) \<noteq> None")
  case False
  then obtain t' where t: "task_complete hash exec defs (wv_tasks wv ! i) eng = (t', eng')"
    and wv': "wv' = wave_join t' (wv\<lparr>wv_tasks := (wv_tasks wv)[i := t']\<rparr>)"
    using step by (auto simp: wave_finish_def split: prod.splits)
  show ?thesis unfolding wv'
    by (rule kept_apart_update[OF ok i])
      (rule task_complete_confined[OF _ _ _ t], use wave_okD[OF ok i] wave_room[OF ok i] in auto)
next
  case True
  then show ?thesis using step ok by (auto simp: wave_finish_def kept_apart_refl)
qed

lemma wave_steps_apart:
  "wave_ok rb wv eng \<Longrightarrow> wave_steps hash exec defs is wv eng = (wv', eng') \<Longrightarrow> kept_apart rb wv eng wv' eng'"
proof (induction "is" arbitrary: wv eng)
  case (Cons i "is")
  obtain wv1 eng1 where s: "wave_step hash exec defs i wv eng = (wv1, eng1)" by fastforce
  note one = wave_step_apart[OF Cons.prems(1) s]
  then have "wave_ok rb wv1 eng1" by (simp add: kept_apart_def)
  from Cons.IH[OF this] Cons.prems(2) s have "kept_apart rb wv1 eng1 wv' eng'" by simp
  with one show ?case by (rule kept_apart_trans)
qed (simp add: kept_apart_refl)

lemma wave_finishes_apart:
  "wave_ok rb wv eng \<Longrightarrow> (\<forall>i \<in> set is. i < length (wv_tasks wv)) \<Longrightarrow>
   wave_finishes hash exec defs is wv eng = (wv', eng') \<Longrightarrow> kept_apart rb wv eng wv' eng'"
proof (induction "is" arbitrary: wv eng)
  case (Cons i "is")
  obtain wv1 eng1 where s: "wave_finish hash exec defs i wv eng = (wv1, eng1)" by fastforce
  have one: "kept_apart rb wv eng wv1 eng1" using wave_finish_apart[OF Cons.prems(1) _ s] Cons.prems(2) by simp
  then have ok1: "wave_ok rb wv1 eng1" and room1: "\<forall>i \<in> set is. i < length (wv_tasks wv1)"
    using Cons.prems(2) by (simp_all add: kept_apart_def)
  from Cons.IH[OF ok1 room1] Cons.prems(3) s have "kept_apart rb wv1 eng1 wv' eng'" by simp
  with one show ?case by (rule kept_apart_trans)
qed (simp add: kept_apart_refl)

lemma wave_new_ok:
  assumes "mg_inv (wd_log eng)" and "ra_on at' = rb" and "unat (mg_next (wd_log eng)) + length work < 2 ^ 64"
  shows "wave_ok rb (wave_new at' work r) eng"
proof -
  have "waiting (wv_tasks (wave_new at' work r)) = length work"
    by (induction work) (simp_all add: wave_new_def waiting_def task_new_def split_beta)
  then show ?thesis using assms
    by (auto simp: wave_ok_def) (auto simp: wave_new_def task_new_def task_ok_def task_session_def split_beta)
qed

lemma run_wave_apart:
  assumes "mg_inv (wd_log eng)" and "ra_on at' = rb" and "unat (mg_next (wd_log eng)) + length work < 2 ^ 64"
    and "run_wave hash exec defs is (wave_new at' work r) eng = (wv, eng')"
  shows "kept_apart rb (wave_new at' work r) eng wv eng'"
proof -
  obtain wv1 eng1 where s: "wave_steps hash exec defs is (wave_new at' work r) eng = (wv1, eng1)" by fastforce
  have one: "kept_apart rb (wave_new at' work r) eng wv1 eng1" by (rule wave_steps_apart[OF wave_new_ok[OF assms(1-3)] s])
  then have "kept_apart rb wv1 eng1 wv eng'"
    using assms(4) s by (intro wave_finishes_apart) (auto simp: run_wave_def kept_apart_def)
  with one show ?thesis by (rule kept_apart_trans)
qed

section \<open>Waves end\<close>

text \<open>How far a task has come; five steps and the drain bring it to its end.\<close>

definition stage :: "task \<Rightarrow> nat" where
  "stage t =
     (case tk_phase t of
        Waiting \<Rightarrow> 0 | Opened _ \<Rightarrow> 1 | Running _ p \<Rightarrow> if ended p then 3 else 2 | Recorded _ \<Rightarrow> 4 | Finished _ \<Rightarrow> 5)"

lemma task_step_stage:
  assumes "task_step hash exec defs t eng = (t', eng')"
  shows "stage t' \<ge> min 2 (stage t + 1)" and "stage t \<ge> 3 \<Longrightarrow> stage t' \<ge> min 5 (stage t + 1)"
  using assms
  by (auto simp: task_step_def phase_step_def stage_def task_open_def Let_def task_start_def run_step_def task_return_def
      task_commit_def split: phase.splits prod.splits sum.splits program.splits if_splits)

lemma ended_run_program: "ended (fst (run_program hash p ctx m))"
  by (induction p arbitrary: ctx m) (simp_all add: Let_def split_beta)

lemma run_program_ended: "run_program hash p ctx m = (p', ctx', n) \<Longrightarrow> ended p'"
  using ended_run_program[of hash p ctx m] by simp

lemma task_drain_stage: "task_drain hash t eng = (t', eng') \<Longrightarrow> stage t \<ge> 2 \<Longrightarrow> stage t' \<ge> 3 \<and> stage t' \<ge> stage t"
  by (auto simp: task_drain_def stage_def dest: run_program_ended split: phase.splits prod.splits if_splits)

lemma task_complete_ends:
  assumes "task_complete hash exec defs t eng = (t', eng')"
  shows "task_outcome t' \<noteq> None"
proof -
  obtain t1 e1 where 1: "task_step hash exec defs t eng = (t1, e1)" by fastforce
  obtain t2 e2 where 2: "task_step hash exec defs t1 e1 = (t2, e2)" by fastforce
  obtain t3 e3 where 3: "task_drain hash t2 e2 = (t3, e3)" by fastforce
  obtain t4 e4 where 4: "task_step hash exec defs t3 e3 = (t4, e4)" by fastforce
  have 5: "task_step hash exec defs t4 e4 = (t', eng')" using assms by (simp add: task_complete_def 1 2 3 4)
  have "stage t2 \<ge> 2" using task_step_stage(1)[OF 1] task_step_stage(1)[OF 2] by simp
  then have "stage t3 \<ge> 3" using task_drain_stage[OF 3] by simp
  then have "stage t4 \<ge> 4" using task_step_stage(2)[OF 4] by simp
  then have "stage t' \<ge> 5" using task_step_stage(2)[OF 5] by simp
  then show ?thesis by (simp add: stage_def task_outcome_def split: phase.splits if_splits)
qed

lemma task_step_def_kept [simp]: "tk_def (fst (task_step hash exec defs t eng)) = tk_def t"
  by (simp add: task_step_def split_beta)

lemma task_drain_def_kept [simp]: "tk_def (fst (task_drain hash t eng)) = tk_def t"
  by (simp add: task_drain_def split_beta split: phase.split)

lemma task_complete_def_kept [simp]: "tk_def (fst (task_complete hash exec defs t eng)) = tk_def t"
  by (simp add: task_complete_def split_beta Let_def)

text \<open>Who has ended, and with which outcome.\<close>

definition outcomes :: "task list \<Rightarrow> (producer_id \<times> run_outcome) multiset" where
  "outcomes ts = (\<Sum>t \<leftarrow> ts. case task_outcome t of None \<Rightarrow> {#} | Some r \<Rightarrow> {#(pd_id (tk_def t), r)#})"

definition joined_once :: "wave \<Rightarrow> bool" where
  "joined_once wv \<longleftrightarrow> mset (wv_ended wv) = outcomes (wv_tasks wv)"

lemma outcomes_update:
  assumes "i < length ts" and "task_outcome (ts ! i) = None"
  shows "outcomes (ts[i := t]) = outcomes ts + (case task_outcome t of None \<Rightarrow> {#} | Some r \<Rightarrow> {#(pd_id (tk_def t), r)#})"
  using assms
proof (induction ts arbitrary: i)
  case (Cons x ts)
  show ?case
  proof (cases i)
    case (Suc k)
    then show ?thesis using Cons.IH[of k] Cons.prems by (simp add: outcomes_def)
  qed (use Cons.prems in \<open>simp add: outcomes_def\<close>)
qed simp

lemma joined_once_update:
  assumes "joined_once wv" and "i < length (wv_tasks wv)" and "task_outcome (wv_tasks wv ! i) = None"
  shows "joined_once (wave_join t (wv\<lparr>wv_tasks := (wv_tasks wv)[i := t]\<rparr>))"
  using assms outcomes_update[OF assms(2,3), of t] by (simp add: joined_once_def wave_join_def split: option.split)

text \<open>The wave the steps make of this one: the same producers, each outcome joined once.\<close>

definition onward :: "wave \<Rightarrow> wave \<Rightarrow> bool" where
  "onward wv wv' \<longleftrightarrow> joined_once wv' \<and> map tk_def (wv_tasks wv') = map tk_def (wv_tasks wv)"

lemma onward_trans: "onward wv wv1 \<Longrightarrow> onward wv1 wv2 \<Longrightarrow> onward wv wv2"
  by (simp add: onward_def)

lemma same_defs: "tk_def t = tk_def (ts ! i) \<Longrightarrow> map tk_def (ts[i := t]) = map tk_def ts"
  by (metis list_update_id map_update)

lemma onward_update:
  assumes "joined_once wv" and "i < length (wv_tasks wv)" and "task_outcome (wv_tasks wv ! i) = None"
    and "tk_def t = tk_def (wv_tasks wv ! i)"
  shows "onward wv (wave_join t (wv\<lparr>wv_tasks := (wv_tasks wv)[i := t]\<rparr>))"
  using joined_once_update[OF assms(1-3)] same_defs[OF assms(4)] by (simp add: onward_def)

lemma wave_step_onward: "joined_once wv \<Longrightarrow> onward wv (fst (wave_step hash exec defs i wv eng))"
proof (cases "i < length (wv_tasks wv) \<and> may_step eng (wv_tasks wv) (wv_tasks wv ! i)")
  case True
  then have "task_outcome (wv_tasks wv ! i) = None" by (auto simp: may_step_def task_outcome_def split: phase.splits)
  then show "joined_once wv \<Longrightarrow> ?thesis" using True by (simp add: wave_step_def split_beta onward_update)
qed (auto simp: wave_step_def onward_def)

lemma wave_steps_onward: "joined_once wv \<Longrightarrow> onward wv (fst (wave_steps hash exec defs is wv eng))"
proof (induction "is" arbitrary: wv eng)
  case (Cons i "is")
  have one: "onward wv (fst (wave_step hash exec defs i wv eng))" by (rule wave_step_onward[OF Cons.prems])
  then have "joined_once (fst (wave_step hash exec defs i wv eng))" by (simp add: onward_def)
  then show ?case using onward_trans[OF one Cons.IH] by (simp add: split_beta)
qed (simp add: onward_def)

text \<open>Finishing the tasks in order: by index \<open>k\<close> all below it have ended, or one has panicked.\<close>

definition done_below :: "nat \<Rightarrow> wave \<Rightarrow> bool" where
  "done_below k wv \<longleftrightarrow> panicked wv \<or> (\<forall>i < k. task_outcome (wv_tasks wv ! i) \<noteq> None)"

lemma panicked_join: "panicked wv \<Longrightarrow> panicked (wave_join t wv)"
  by (auto simp: panicked_def wave_join_def split: option.split run_outcome.split)

lemma panicked_tasks [simp]: "panicked (wv\<lparr>wv_tasks := ts\<rparr>) = panicked wv"
  by (simp add: panicked_def)

lemma wave_finish_onward:
  assumes "joined_once wv" and i: "i < length (wv_tasks wv)" and "done_below i wv"
  shows "onward wv (fst (wave_finish hash exec defs i wv eng)) \<and> done_below (Suc i) (fst (wave_finish hash exec defs i wv eng))"
proof (cases "panicked wv \<or> task_outcome (wv_tasks wv ! i) \<noteq> None")
  case True
  then show ?thesis using assms by (auto simp: wave_finish_def onward_def done_below_def less_Suc_eq)
next
  case False
  obtain t eng' where t: "task_complete hash exec defs (wv_tasks wv ! i) eng = (t, eng')" by fastforce
  have "tk_def t = tk_def (wv_tasks wv ! i)" using task_complete_def_kept[of hash exec defs "wv_tasks wv ! i" eng] t by simp
  moreover have "done_below (Suc i) (wave_join t (wv\<lparr>wv_tasks := (wv_tasks wv)[i := t]\<rparr>))"
    using assms(3) False task_complete_ends[OF t] i by (auto simp: done_below_def nth_list_update)
  ultimately show ?thesis using False onward_update[OF assms(1,2)] by (simp add: wave_finish_def t)
qed

lemma onward_length: "onward wv wv' \<Longrightarrow> length (wv_tasks wv') = length (wv_tasks wv)"
  by (metis length_map onward_def)

lemma wave_finishes_onward:
  assumes "joined_once wv" and "k \<le> length (wv_tasks wv)" and "done_below k wv" and "n = length (wv_tasks wv)"
  shows "onward wv (fst (wave_finishes hash exec defs [k ..< n] wv eng)) \<and>
    done_below n (fst (wave_finishes hash exec defs [k ..< n] wv eng))"
  using assms
proof (induction "n - k" arbitrary: k wv eng)
  case 0
  then show ?case by (simp add: onward_def)
next
  case (Suc d)
  then have k: "k < n" by simp
  obtain wv1 eng1 where s: "wave_finish hash exec defs k wv eng = (wv1, eng1)" by fastforce
  have one: "onward wv wv1" "done_below (Suc k) wv1"
    using wave_finish_onward[of wv k hash exec defs eng] Suc.prems k by (simp_all add: s)
  have len: "length (wv_tasks wv1) = length (wv_tasks wv)" by (rule onward_length[OF one(1)])
  have "onward wv1 (fst (wave_finishes hash exec defs [Suc k ..< n] wv1 eng1)) \<and>
      done_below n (fst (wave_finishes hash exec defs [Suc k ..< n] wv1 eng1))"
    using Suc.hyps(2) Suc.prems(2,4) one k len by (intro Suc.hyps(1)) (simp_all add: onward_def)
  then show ?case using onward_trans[OF one(1)] k by (simp add: upt_conv_Cons s)
qed

lemma all_outcomes: "(\<forall>t \<in> set ts. task_outcome t \<noteq> None) \<Longrightarrow> image_mset fst (outcomes ts) = mset (map (\<lambda>t. pd_id (tk_def t)) ts)"
  by (induction ts) (auto simp: outcomes_def)

text \<open>A wave runs to its end: under every interleaving each invocation that was scheduled joins
  the wave exactly once, with the outcome of its run, unless a run panicked and took the wave down.\<close>

theorem waves_run_to_their_end:
  "let wv = fst (run_wave hash exec defs is (wave_new at' work r) eng) in
     panicked wv \<or>
     mset (map fst (wv_ended wv)) = mset (map (\<lambda>(def, _). pd_id def) work)"
proof -
  let ?new = "wave_new at' work r"
  obtain wv1 eng1 where s: "wave_steps hash exec defs is ?new eng = (wv1, eng1)" by fastforce
  let ?wv = "fst (run_wave hash exec defs is ?new eng)"
  have new: "outcomes (wv_tasks ?new) = {#}"
    by (induction work) (auto simp: wave_new_def outcomes_def task_new_def task_outcome_def)
  then have "onward ?new wv1" using wave_steps_onward[of ?new hash exec defs "is" eng] s
    by (simp add: joined_once_def) (simp add: wave_new_def)
  moreover have "onward wv1 ?wv \<and> done_below (length (wv_tasks wv1)) ?wv"
    using wave_finishes_onward[of wv1 0] calculation by (simp add: run_wave_def s onward_def done_below_def)
  ultimately have on: "onward ?new ?wv" "done_below (length (wv_tasks ?wv)) ?wv"
    using onward_trans onward_length by force+
  have "mset (map fst (wv_ended ?wv)) = image_mset fst (outcomes (wv_tasks ?wv))"
    using on(1) by (simp add: onward_def joined_once_def)
  moreover have "image_mset fst (outcomes (wv_tasks ?wv)) = mset (map (\<lambda>t. pd_id (tk_def t)) (wv_tasks ?wv))"
    if "\<not> panicked ?wv"
    using on(2) that by (intro all_outcomes) (auto simp: done_below_def in_set_conv_nth)
  moreover have "map (\<lambda>t. pd_id (tk_def t)) (wv_tasks ?wv) = map (\<lambda>(def, _). pd_id def) work"
  proof -
    have "map tk_def (wv_tasks ?wv) = map fst work"
      using on(1) by (simp add: onward_def wave_new_def task_new_def split_beta o_def)
    then have "map pd_id (map tk_def (wv_tasks ?wv)) = map pd_id (map fst work)" by simp
    then show ?thesis by (simp add: split_beta o_def)
  qed
  ultimately show ?thesis by (simp add: Let_def) metis
qed

text \<open>Property C32. A wave's runs are isolated on the round's branch: whatever producer code does and
  however the runs interleave, no branch off it reads a cell differently while the round is under way,
  and no head, branch or definition layer of another branch moves, as long as there are layer ids for
  all its runs.\<close>

theorem rounds_are_isolated:
  assumes "mg_inv (wd_log eng)" and "unat (mg_next (wd_log eng)) + length work < 2 ^ 64"
    and "run_wave hash exec defs is (wave_new at' work r) eng = (wv, eng')"
  shows "apart (ra_on at') (wd_log eng) (wd_log eng')"
  using run_wave_apart[OF assms(1) refl assms(2,3)] by (simp add: kept_apart_def)

end
