(* ===== verification/Inline_Properties.thy ===== *)
theory Inline_Properties
  imports Derive_Properties
begin

text \<open>
  Computing one cell on demand and the watermarks. The log's projection shares the engine's frontier, so
  the commit of a derived layer advances a watermark; an inline run reflects just what its producer has
  incorporated already, and moves none.
\<close>

section \<open>Steps that leave the indexes alone\<close>

definition quiet :: "write_session \<Rightarrow> manager \<Rightarrow> write_session \<Rightarrow> manager \<Rightarrow> bool" where
  "quiet ws m ws' n \<longleftrightarrow> mg_indexes n = mg_indexes m \<and> ws_handle ws' = ws_handle ws"

lemma quiet_refl [simp]: "quiet ws m ws m"
  by (simp add: quiet_def)

lemma quiet_trans: "quiet ws m ws1 n1 \<Longrightarrow> quiet ws1 n1 ws2 n2 \<Longrightarrow> quiet ws m ws2 n2"
  by (simp add: quiet_def)

lemma on_db_indexes: "on_db f m = (r, n) \<Longrightarrow> mg_indexes n = mg_indexes m"
  by (auto simp: on_db_def split: prod.splits)

lemma imply_existence_quiet: "imply_existence cell ws m = (r, ws', n) \<Longrightarrow> quiet ws m ws' n"
  by (auto simp: imply_existence_def Let_def quiet_def lm_put_def split: if_splits sum.splits option.splits prod.splits
      dest: on_db_indexes)

lemma ws_put_quiet:
  assumes "ws_put cell v by ws m = (r, ws', n)"
  shows "quiet ws m ws' n"
proof -
  obtain q u k where im: "imply_existence cell ws m = (q, u, k)" by (metis prod_cases3)
  have "quiet u k ws' n \<or> (ws' = ws \<and> n = m)"
    using assms im by (auto simp: ws_put_def quiet_def lm_put_def split: sum.splits prod.splits if_splits dest: on_db_indexes)
  then show ?thesis using imply_existence_quiet[OF im] quiet_trans by fastforce
qed

lemma intern_value_indexes: "intern_value hash input m = (r, n) \<Longrightarrow> mg_indexes n = mg_indexes m"
  by (cases input) (auto simp: intern_value_def split: sum.splits prod.splits dest: on_db_indexes)

lemma put_text_quiet:
  assumes "put_text hash cell text by ws m = (r, ws', n)"
  shows "quiet ws m ws' n"
proof -
  obtain q k where p: "ws_parse hash cell text ws m = (q, k)" by fastforce
  then have k: "quiet ws m ws k"
    by (auto simp: ws_parse_def quiet_def split: option.splits sum.splits dest: intern_value_indexes)
  have "quiet ws k ws' n"
    using assms p by (auto simp: put_text_def split: sum.splits dest!: ws_put_quiet)
  with k show ?thesis by (rule quiet_trans)
qed

lemma accept_write_session:
  "accept_write cell ctx (r, ws, k) = (q, ctx', n) \<Longrightarrow> rc_session ctx' = ws \<and> n = k"
  by (auto simp: accept_write_def ctx_wrote_def split: sum.splits)

lemma prog_step_quiet:
  assumes "prog_step hash p ctx m = (p', ctx', n)"
  shows "quiet (rc_session ctx) m (rc_session ctx') n"
proof (cases p)
  case (SetValue cell v cont)
  obtain r ws k where w: "set_derived cell v (ctx_derivation ctx) (rc_session ctx) m = (r, ws, k)" by (metis prod_cases3)
  obtain q where "accept_write cell ctx (r, ws, k) = (q, ctx', n)"
    using assms w by (auto simp: SetValue ctx_set_def split: prod.splits)
  then show ?thesis using ws_put_quiet[OF w[unfolded set_derived_def]] accept_write_session by fastforce
next
  case (SetText cell t cont)
  obtain r ws k where w: "set_text_derived hash cell t (ctx_derivation ctx) (rc_session ctx) m = (r, ws, k)" by (metis prod_cases3)
  obtain q where "accept_write cell ctx (r, ws, k) = (q, ctx', n)"
    using assms w by (auto simp: SetText ctx_set_text_def split: prod.splits)
  then show ?thesis using put_text_quiet[OF w[unfolded set_text_derived_def]] accept_write_session by fastforce
next
  case (Intern input cont)
  then show ?thesis using assms by (auto simp: quiet_def split: prod.splits dest: intern_value_indexes)
qed (use assms in \<open>auto simp: ctx_get_def ctx_get_at_def ctx_get_input_def\<close>)

lemma run_program_quiet:
  "run_program hash p ctx m = (p', ctx', n) \<Longrightarrow> quiet (rc_session ctx) m (rc_session ctx') n"
proof (induction p arbitrary: ctx m)
  case (Get cell k)
  from Get.prems show ?case
    using Get.IH[OF rangeI] by (fastforce simp: Let_def split_beta ctx_get_def ctx_get_at_def)
next
  case (GetAt cell v k)
  from GetAt.prems show ?case
    using GetAt.IH[OF rangeI] by (fastforce simp: Let_def split_beta ctx_get_at_def)
next
  case (GetInput cell k)
  from GetInput.prems show ?case
    using GetInput.IH[OF rangeI] by (fastforce simp: Let_def split_beta ctx_get_input_def ctx_get_at_def)
next
  case (SetValue cell v k)
  obtain r c1 m1 where s: "ctx_set cell v ctx m = (r, c1, m1)" by (metis prod_cases3)
  then have "run_program hash (k r) c1 m1 = (p', ctx', n)" using SetValue.prems by simp
  moreover have "quiet (rc_session ctx) m (rc_session c1) m1"
    using prog_step_quiet[of hash "SetValue cell v k" ctx m] s by simp
  ultimately show ?case using SetValue.IH[OF rangeI] quiet_trans by blast
next
  case (SetText cell t k)
  obtain r c1 m1 where s: "ctx_set_text hash cell t ctx m = (r, c1, m1)" by (metis prod_cases3)
  then have "run_program hash (k r) c1 m1 = (p', ctx', n)" using SetText.prems by simp
  moreover have "quiet (rc_session ctx) m (rc_session c1) m1"
    using prog_step_quiet[of hash "SetText cell t k" ctx m] s by simp
  ultimately show ?case using SetText.IH[OF rangeI] quiet_trans by blast
next
  case (Intern input k)
  obtain r m1 where s: "intern_value hash input m = (r, m1)" by fastforce
  then have "run_program hash (k r) ctx m1 = (p', ctx', n)" using Intern.prems by simp
  then show ?case using Intern.IH[OF rangeI] intern_value_indexes[OF s] by (fastforce simp: quiet_def)
next
  case (Render v k)
  from Render.prems show ?case using Render.IH[OF rangeI] by simp
qed auto

section \<open>Commits that advance no watermark\<close>

definition marks_kept :: "engine \<Rightarrow> engine \<Rightarrow> bool" where
  "marks_kept e f \<longleftrightarrow> watermark (en_frontier f) = watermark (en_frontier e)"

lemma marks_kept_refl: "marks_kept e e"
  by (simp add: marks_kept_def)

lemma marks_kept_trans: "marks_kept x y \<Longrightarrow> marks_kept y z \<Longrightarrow> marks_kept x z"
  by (simp add: marks_kept_def)

text \<open>The layer reflects no more than its producer has incorporated on its branch.\<close>

definition modest :: "frontier \<Rightarrow> layer \<Rightarrow> bool" where
  "modest f layer \<longleftrightarrow>
     (case ly_author layer of ASource \<Rightarrow> True | ADerived p r \<Rightarrow> r \<le> watermark f (ly_branch layer) p)"

lemma frontier_apply_modest: "modest f layer \<Longrightarrow> watermark (frontier_apply layer f) = watermark f"
  by (auto simp: modest_def frontier_apply_def watermark_advance fun_eq_iff max_def split: layer_author.splits)

lemma apply_members_modest:
  "modest (ix_frontier ix) layer \<Longrightarrow>
   watermark (ix_frontier (apply_members layer events ms ix)) = watermark (ix_frontier ix)"
  unfolding apply_members_def
proof (induction ms arbitrary: ix)
  case (Cons p ms)
  have w: "watermark (ix_frontier (member_apply layer events p ix)) = watermark (ix_frontier ix)"
    using Cons.prems by (cases p) (simp_all add: frontier_apply_modest)
  then have "modest (ix_frontier (member_apply layer events p ix)) layer"
    using Cons.prems by (simp add: modest_def split: layer_author.splits)
  then show ?case using Cons.IH w by simp
qed simp

lemma transition_indexes: "transition l s t m = (r, n) \<Longrightarrow> mg_indexes n = mg_indexes m"
  by (auto simp: transition_def split: option.splits if_splits)

lemma store_guards_indexes [simp]: "mg_indexes (store_guards layer m) = mg_indexes m"
  by (simp add: store_guards_def split: option.split)

lemma feed_modest:
  assumes "feed_projections layer m = (r, n)" and "modest (ix_frontier (mg_indexes m)) layer"
  shows "watermark (ix_frontier (mg_indexes n)) = watermark (ix_frontier (mg_indexes m))"
  using assms by (auto simp: feed_projections_def projections_committed_def apply_members_modest split: sum.splits prod.splits)

lemma publish_modest:
  assumes "publish layer m = (r, n)" and "modest (ix_frontier (mg_indexes m)) layer"
  shows "watermark (ix_frontier (mg_indexes n)) = watermark (ix_frontier (mg_indexes m))"
proof -
  have mod: "modest (ix_frontier (mg_indexes m)) (layer\<lparr>ly_state := LCommitted\<rparr>)"
    using assms(2) by (auto simp: modest_def split: layer_author.splits)
  obtain r1 m1 where 1: "on_db (mem_seal (ly_id layer)) (store_guards layer m) = (r1, m1)" by fastforce
  have i1: "mg_indexes m1 = mg_indexes m" using on_db_indexes[OF 1] by simp
  show ?thesis
  proof (cases r1)
    case (Inl err)
    then show ?thesis using assms(1) 1 i1 by (simp add: publish_def Let_def)
  next
    case (Inr sealed)
    let ?m = "m1\<lparr>mg_db := put_layer_meta (layer\<lparr>ly_state := LCommitted\<rparr>) (mg_db m1)\<rparr>"
    obtain r2 m2 where 2: "on_db (commit_layer sealed) ?m = (r2, m2)" by fastforce
    have i2: "mg_indexes m2 = mg_indexes m" using on_db_indexes[OF 2] i1 by simp
    obtain r3 m3 where 3: "transition (ly_id layer) LSealed LCommitted m2 = (r3, m3)" by fastforce
    have i3: "mg_indexes m3 = mg_indexes m" using transition_indexes[OF 3] i2 by simp
    obtain r4 m4 where 4: "feed_projections (layer\<lparr>ly_state := LCommitted\<rparr>) (land layer m3) = (r4, m4)" by fastforce
    have "mg_indexes (land layer m3) = mg_indexes m" by (simp add: land_def i3)
    then have i4: "watermark (ix_frontier (mg_indexes m4)) = watermark (ix_frontier (mg_indexes m))"
      using feed_modest[OF 4] mod by simp
    show ?thesis
      using assms(1) 1 2 3 4 Inr i2 i3 i4 by (cases r2; cases r3; cases r4) (auto simp: publish_def Let_def)
  qed
qed

lemma lm_commit_modest:
  assumes "lm_commit h m = (r, n)" and "modest (ix_frontier (mg_indexes m)) (lh_layer h)"
  shows "watermark (ix_frontier (mg_indexes n)) = watermark (ix_frontier (mg_indexes m))"
proof -
  let ?layer = "lh_layer h"
  obtain r1 m1 where 1: "transition (ly_id ?layer) LOpen LSealed m = (r1, m1)" by fastforce
  have i1: "mg_indexes m1 = mg_indexes m" by (rule transition_indexes[OF 1])
  show ?thesis
  proof (cases "r1 = Inr () \<and> check_guards m1 (ly_branch ?layer) (ly_guards ?layer) None = Inr ()")
    case True
    then have "publish ?layer m1 = (r, n)" using assms(1) 1 by (simp add: lm_commit_def Let_def)
    from publish_modest[OF this] show ?thesis using i1 assms(2) by simp
  next
    case False
    then have "mg_indexes n = mg_indexes m"
      using assms(1) 1 i1 by (auto simp: lm_commit_def Let_def split: sum.splits prod.splits dest!: on_db_indexes transition_indexes)
    then show ?thesis by simp
  qed
qed

lemma lm_abort_indexes: "lm_abort h m = (r, n) \<Longrightarrow> mg_indexes n = mg_indexes m"
  by (auto simp: lm_abort_def split: sum.splits prod.splits dest!: on_db_indexes transition_indexes)

lemma lm_open_indexes:
  "lm_open b kind author m = (r, n) \<Longrightarrow> mg_indexes n = mg_indexes m \<and>
     (\<forall>h. r = Inr h \<longrightarrow> ly_branch (lh_layer h) = b \<and> ly_author (lh_layer h) = author)"
  by (auto simp: lm_open_def Let_def split: sum.splits prod.splits dest!: on_db_indexes)

section \<open>Inline runs\<close>

definition modest_task :: "engine \<Rightarrow> task \<Rightarrow> bool" where
  "modest_task eng t \<longleftrightarrow>
     (case tk_phase t of
        Waiting \<Rightarrow> ra_reflects (tk_at t) \<le> watermark (en_frontier eng) (ra_on (tk_at t)) (pd_id (tk_def t))
      | Opened ws \<Rightarrow> modest (en_frontier eng) (lh_layer (ws_handle ws))
      | Running ctx _ \<Rightarrow> modest (en_frontier eng) (lh_layer (ws_handle (rc_session ctx)))
      | Recorded ctx \<Rightarrow> modest (en_frontier eng) (lh_layer (ws_handle (rc_session ctx)))
      | Finished _ \<Rightarrow> True)"

lemma modest_cong: "watermark f = watermark g \<Longrightarrow> modest f layer = modest g layer"
  by (simp add: modest_def split: layer_author.split)

lemma open_on_modest:
  assumes "open_on b home version w (ADerived p reflects) m = (r, n)"
    and "reflects \<le> watermark (ix_frontier (mg_indexes m)) b p"
  shows "mg_indexes n = mg_indexes m \<and> (\<forall>ws. r = Inr ws \<longrightarrow> modest (ix_frontier (mg_indexes m)) (lh_layer (ws_handle ws)))"
  using assms by (auto simp: open_on_def modest_def split: sum.splits prod.splits dest!: lm_open_indexes)

lemma phase_step_modest:
  assumes "modest_task eng t" and "phase_step hash exec defs t eng = (ph, eng')"
  shows "marks_kept eng eng' \<and> modest_task eng' (t\<lparr>tk_phase := ph\<rparr>)"
proof (cases "tk_phase t")
  case Waiting
  let ?a = "tk_at t" and ?p = "pd_id (tk_def t)"
  obtain r n where o: "open_on (ra_on ?a) (ra_home ?a) (fst (run_versions defs (tk_def t))) (WProducer ?p)
      (ADerived ?p (ra_reflects ?a)) (wd_log eng) = (r, n)" by fastforce
  have "mg_indexes n = mg_indexes (wd_log eng) \<and> (\<forall>ws. r = Inr ws \<longrightarrow> modest (en_frontier eng) (lh_layer (ws_handle ws)))"
    using open_on_modest[OF o] assms(1) Waiting by (simp add: modest_task_def en_frontier_def)
  then show ?thesis
    using assms(2) Waiting o
    by (auto simp: phase_step_def task_open_def on_log_def Let_def marks_kept_def modest_task_def en_frontier_def split: sum.splits)
next
  case (Opened ws)
  then show ?thesis
    using assms by (auto simp: phase_step_def task_start_def task_ctx_def marks_kept_def modest_task_def split: sum.splits)
next
  case (Running ctx p)
  show ?thesis
  proof (cases "ended p")
    case False
    obtain p1 ctx1 n where s: "prog_step hash p ctx (wd_log eng) = (p1, ctx1, n)" by (metis prod_cases3)
    have "(ph, eng') = (Running ctx1 p1, eng\<lparr>wd_log := n\<rparr>)"
      using assms(2) Running s False by (cases p) (auto simp: phase_step_def run_step_def)
    then show ?thesis
      using prog_step_quiet[OF s] assms(1) Running by (simp add: marks_kept_def modest_task_def quiet_def en_frontier_def)
  next
    case True
    then show ?thesis
      using assms Running lm_abort_indexes
      by (cases p) (fastforce simp: phase_step_def run_step_def task_return_def on_log_def ws_abort_def marks_kept_def
          modest_task_def en_frontier_def on_index_def split: sum.splits prod.splits)+
  qed
next
  case (Recorded ctx)
  obtain r n where c: "lm_commit (ws_handle (rc_session ctx)) (wd_log eng) = (r, n)" by fastforce
  have "watermark (ix_frontier (mg_indexes n)) = watermark (ix_frontier (mg_indexes (wd_log eng)))"
    using lm_commit_modest[OF c] assms(1) Recorded by (simp add: modest_task_def en_frontier_def)
  then show ?thesis
    using assms(2) Recorded c
    by (auto simp: phase_step_def task_commit_def on_log_def ws_commit_def marks_kept_def modest_task_def en_frontier_def
        split: sum.splits)
next
  case (Finished r)
  then have "ph = Finished r" "eng' = eng" using assms(2) by (simp_all add: phase_step_def)
  then show ?thesis by (simp add: marks_kept_def modest_task_def)
qed

lemma task_step_modest:
  assumes "modest_task eng t" and "task_step hash exec defs t eng = (t', eng')"
  shows "marks_kept eng eng' \<and> modest_task eng' t'"
  using phase_step_modest[OF assms(1)] assms(2) by (auto simp: task_step_def split: prod.splits)

lemma task_drain_modest:
  assumes "modest_task eng t" and "task_drain hash t eng = (t', eng')"
  shows "marks_kept eng eng' \<and> modest_task eng' t'"
proof (cases "tk_phase t")
  case (Running ctx p)
  obtain p1 ctx1 n where r: "run_program hash p ctx (wd_log eng) = (p1, ctx1, n)" by (metis prod_cases3)
  then show ?thesis
    using run_program_quiet[OF r] assms Running
    by (auto simp: task_drain_def marks_kept_def modest_task_def quiet_def en_frontier_def)
qed (use assms in \<open>auto simp: task_drain_def marks_kept_def\<close>)

lemma task_complete_modest:
  assumes "modest_task eng t"
  shows "marks_kept eng (snd (task_complete hash exec defs t eng))"
proof -
  obtain t1 e1 where 1: "task_step hash exec defs t eng = (t1, e1)" by fastforce
  obtain t2 e2 where 2: "task_step hash exec defs t1 e1 = (t2, e2)" by fastforce
  obtain t3 e3 where 3: "task_drain hash t2 e2 = (t3, e3)" by fastforce
  obtain t4 e4 where 4: "task_step hash exec defs t3 e3 = (t4, e4)" by fastforce
  obtain t5 e5 where 5: "task_step hash exec defs t4 e4 = (t5, e5)" by fastforce
  have c: "snd (task_complete hash exec defs t eng) = e5" by (simp add: task_complete_def 1 2 3 4 5)
  note m1 = task_step_modest[OF assms 1]
  note m2 = task_step_modest[OF conjunct2[OF m1] 2]
  note m3 = task_drain_modest[OF conjunct2[OF m2] 3]
  note m4 = task_step_modest[OF conjunct2[OF m3] 4]
  note m5 = task_step_modest[OF conjunct2[OF m4] 5]
  show ?thesis unfolding c using m1 m2 m3 m4 m5 by (simp add: marks_kept_def)
qed

text \<open>Producers are registered under their own id.\<close>

definition producers_ok :: "engine \<Rightarrow> bool" where
  "producers_ok eng \<longleftrightarrow> (\<forall>p def. hm_get (en_producers eng) p = Some def \<longrightarrow> pd_id def = p)"

lemma producers_ok_register: "producers_ok eng \<Longrightarrow> producers_ok (register_producer def eng)"
  by (simp add: producers_ok_def register_producer_def)

lemma run_now_marks:
  assumes "producers_ok eng"
  shows "marks_kept eng (snd (run_now hash exec b p input defs eng))"
proof (cases "hm_get (en_producers eng) p = None \<or> is_broken eng b p \<noteq> None")
  case True
  then show ?thesis by (auto simp: run_now_def marks_kept_refl split: option.split)
next
  case False
  then obtain def where d: "hm_get (en_producers eng) p = Some def" "is_broken eng b p = None" by auto
  define at' where "at' = \<lparr>ra_on = b, ra_home = b, ra_fresh_as_of = (case lm_head (wd_log eng) b of Some h \<Rightarrow> h | None \<Rightarrow> 0),
      ra_reflects = watermark (en_frontier eng) b p\<rparr>"
  obtain t eng' where c: "task_complete hash exec defs (task_new def input at') eng = (t, eng')" by fastforce
  have "snd (run hash exec def defs input at' eng) = eng'" by (simp add: run_def c)
  then have e: "snd (run_now hash exec b p input defs eng) = eng'"
    by (auto simp: run_now_def d Let_def simp flip: at'_def split: prod.splits sum.splits)
  have "pd_id def = p" using assms d by (simp add: producers_ok_def)
  then have "modest_task eng (task_new def input at')" by (simp add: modest_task_def task_new_def at'_def)
  from task_complete_modest[OF this, of hash exec defs] show ?thesis by (simp add: c e)
qed

definition inline_kept :: "engine \<Rightarrow> engine \<Rightarrow> bool" where
  "inline_kept e f \<longleftrightarrow> kept e f \<and> (producers_ok e \<longrightarrow> marks_kept e f)"

lemma inline_kept_refl: "inline_kept e e"
  by (simp add: inline_kept_def marks_kept_refl)

lemma inline_kept_trans: "inline_kept x y \<Longrightarrow> inline_kept y z \<Longrightarrow> inline_kept x z"
  by (auto simp: inline_kept_def producers_ok_def kept_def marks_kept_def)

lemma run_now_inline: "inline_kept eng (snd (run_now hash exec b p input defs eng))"
  using run_now_kept run_now_marks by (simp add: inline_kept_def)

lemma run_hops_inline: "inline_kept eng (snd (run_hops hash exec b input defs hops eng))"
proof (induction hops arbitrary: eng)
  case (Cons hop hops)
  then show ?case using run_now_inline[of eng hash exec b "mh_producer hop" input defs]
    by (auto split: prod.splits sum.splits intro: inline_kept_trans)
qed (simp add: inline_kept_refl)

lemma pay_inline: "inline_kept eng (snd (pay hash exec b cell hops producer defs eng))"
  by (simp add: pay_def run_hops_inline run_now_inline split: option.split)

lemma compute_now_inline: "inline_kept eng (snd (compute_now hash exec b cell version eng))"
  using refresh_all_frame[of inline_kept, OF inline_kept_refl inline_kept_trans pay_inline]
  by (auto simp: compute_now_def inline_kept_refl split: option.splits prod.splits)

text \<open>Property C37. Computing a cell on demand is no statement about its producer: whatever it runs and however
  it ends, it moves no watermark of any producer on any branch, poisons nobody, registers nothing and
  forks nothing.\<close>

theorem inline_computation_moves_no_watermark:
  assumes "producers_ok eng" and "compute_now hash exec b cell version eng = (r, eng')"
  shows "watermark (en_frontier eng') = watermark (en_frontier eng) \<and> wd_poison eng' = wd_poison eng \<and>
    en_producers eng' = en_producers eng \<and> en_next_branch eng' = en_next_branch eng"
proof -
  have "inline_kept eng eng'" using compute_now_inline[of eng hash exec b cell version] assms(2) by simp
  then show ?thesis using assms(1) by (simp add: inline_kept_def kept_def marks_kept_def)
qed

end
