(* ===== verification/Round_Examples.thy ===== *)
theory Round_Examples
  imports Round_Isolation Inline_Properties
begin

text \<open>
  The round properties at work on one engine: a source layer with a value on branch 1, and producer 7
  reading the buffer it is in.
\<close>

definition d_producer :: producer_def where
  "d_producer = \<lparr>pd_id = 7, pd_kind = PKPipeline, pd_source = cr_buffer w_cell, pd_version = 1, pd_declaring_repo = 1,
     pd_fingerprint = None\<rparr>"

definition d_engine :: engine where
  "d_engine = \<lparr>wd_log = s_committed, wd_poison = [], en_next_branch = 5,
     en_producers = [(7, d_producer)], en_live = [], en_parallelism = 2\<rparr>"

definition d_iv :: invocation_id where
  "d_iv = \<lparr>iv_producer = 7, iv_input = cell_pid w_cell\<rparr>"

definition d_pick :: "invocation_id set \<Rightarrow> invocation_id list" where
  "d_pick S = (if d_iv \<in> S then [d_iv] else [])"

definition d_state :: round_state where
  "d_state = round_state_new \<lparr>sp_fork_at = 1, sp_reflects = 1, sp_layers = [1]\<rparr> (round_new 1 1 1) d_engine"

text \<open>A run that writes over the value its input came from, on branch 9.\<close>

definition d_exec :: executor where
  "d_exec = (\<lambda>_ _ _. Get w_cell (\<lambda>_. SetValue w_cell (VBool False) Return))"

lemma d_pick_sub: "set (d_pick S) \<subseteq> S"
  by (auto simp: d_pick_def)

lemma d_event: "event_of s_db 1 = Inr s_event"
  by (simp add: event_of_def s_db_def stored_def event_at_def slot_of_def)

lemma d_cells: "cells_of s_committed 1 = Inr [(CellAt w_cell (DefVersion 1), None)]"
proof -
  have "read_layer s_db 1 = [Inr s_event]"
    using d_event by (simp add: read_layer_def) (simp add: s_db_def)
  then show ?thesis by (simp add: cells_of_def s_committed_state s_event_def draft_event_def w_draft_def)
qed

lemma d_position: "position_of s_committed 1 = 1"
  by (simp add: position_of_def author_of_def s_committed_state s_layer_def)

lemma d_scan: "scan_buffer s_db [(1, 1)] (cr_buffer w_cell) = [Inr s_event]"
proof -
  have "in_reads s_db = [(1, [(w_cell, [(DefVersion 1, [(1, 1)])])])]" by (simp add: s_db_def)
  then show ?thesis using d_event by (simp add: scan_buffer_def scan_cell_def newest_at_def Let_def)
qed

lemma d_db: "mg_db s_committed = s_db"
  by (simp add: s_committed_state)

lemma d_plan:
  "schedule say d_pick 1 1 [1] 1 def_view_new [] {} d_engine =
     (Inr \<lparr>pl_work = [(d_producer, d_iv)], pl_scheduled = {d_iv}, pl_reruns = [(d_iv, 1)], pl_seeded = {7}\<rparr>, d_engine)"
proof -
  have log: "wd_log d_engine = s_committed" "wd_poison d_engine = []" "producer_defs d_engine = [d_producer]"
    by (simp_all add: d_engine_def producer_defs_def)
  have index: "wd_index d_engine = dep_new" by (simp add: wd_index_def log s_committed_state indexes_new_def)
  have role: "migration_role_of def_view_new d_producer = None"
    by (simp add: migration_role_of_def d_producer_def)
  have mark: "watermark (en_frontier d_engine) 1 7 = 0" by (simp add: en_frontier_def log s_committed_state indexes_new_def watermark_def)
  have pd: "pd_id d_producer = 7" "pd_source d_producer = cr_buffer w_cell" "pd_kind d_producer = PKPipeline"
    by (simp_all add: d_producer_def)
  have skip: "\<not> skipped d_engine 1 1 def_view_new d_producer"
    by (simp add: skipped_def is_broken_def log poisoned_def pd mark is_materialized_version_def role)
  have inv: "d_iv \<in> invalidated_by dep_new 1 [(CellAt w_cell (DefVersion 1), None)] d_producer def_view_new"
    by (auto simp: invalidated_by_def role by_peer_def triggers_def pd d_iv_def)
  have fill: "backfill d_engine 1 1 d_producer def_view_new = Inr [d_iv]"
    by (simp add: backfill_def pd mark log s_path role d_db d_scan) (simp add: s_event_def draft_event_def d_iv_def)
  show ?thesis
    using inv by (simp add: schedule_def log index d_cells d_position skip fill pd Let_def d_pick_def CYCLE_RERUN_LIMIT_def)
qed

definition d_span :: span where
  "d_span = \<lparr>sp_fork_at = 1, sp_reflects = 1, sp_layers = [1]\<rparr>"

lemma d_start: "settling hash exec say pick defs reflects (round_state_new d_span (round_new 1 1 1) d_engine) d_state"
  unfolding d_state_def d_span_def by (rule settling.Start)

lemma waves_respect_the_rerun_limit_witness:
  "watermark (en_frontier d_engine) 1 7 < position_of s_committed 1 \<and> is_broken d_engine 1 7 = None"
proof -
  have st: "st_wave d_state = [1]" "st_reruns d_state = []" "st_seeded d_state = {}" "st_engine d_state = d_engine"
    by (simp_all add: d_state_def round_state_new_def)
  have ok: "poison_ok (wd_poison d_engine)" by (simp add: d_engine_def)
  have p: "schedule (\<lambda>_. []) d_pick 1 1 (st_wave d_state) 1 def_view_new (st_reruns d_state) (st_seeded d_state) (st_engine d_state) =
     (Inr \<lparr>pl_work = [(d_producer, d_iv)], pl_scheduled = {d_iv}, pl_reruns = [(d_iv, 1)], pl_seeded = {7}\<rparr>, d_engine)"
    unfolding st by (rule d_plan)
  have log: "wd_log d_engine = s_committed" "pd_id d_producer = 7" by (simp_all add: d_engine_def d_producer_def)
  from waves_respect_the_rerun_limit[OF d_start ok d_pick_sub p]
  show ?thesis by (simp add: st log)
qed

text \<open>Only what the set order lists is ever counted.\<close>

lemma plan_candidates_dom:
  "set ivs \<subseteq> A \<Longrightarrow> dom (hm_get (pl_reruns pl)) \<subseteq> A \<Longrightarrow>
   plan_candidates say b reflects def ivs pl eng = (pl', eng') \<Longrightarrow> dom (hm_get (pl_reruns pl')) \<subseteq> A"
proof (induction ivs arbitrary: pl)
  case (Cons iv ivs)
  let ?pl = "pl\<lparr>pl_scheduled := insert iv (pl_scheduled pl), pl_reruns := hm_insert iv (hm_get_or 0 (pl_reruns pl) iv + 1) (pl_reruns pl)\<rparr>"
  have iv: "iv \<in> A" "set ivs \<subseteq> A" using Cons.prems(1) by simp_all
  show ?case
  proof (cases "iv \<in> pl_scheduled pl")
    case True
    then show ?thesis using Cons.IH[OF iv(2) Cons.prems(2)] Cons.prems(3) by simp
  next
    case False
    show ?thesis
    proof (cases "hm_get_or 0 (pl_reruns pl) iv + 1 > CYCLE_RERUN_LIMIT")
      case True
      then have "pl' = ?pl" using Cons.prems(3) False by (simp add: Let_def)
      then show ?thesis using iv Cons.prems(2) by (simp add: subset_iff dom_def)
    next
      case limit: False
      then have "plan_candidates say b reflects def ivs (?pl\<lparr>pl_work := pl_work pl @ [(def, iv)]\<rparr>) eng = (pl', eng')"
        using Cons.prems(3) False by (simp add: Let_def)
      then show ?thesis by (rule Cons.IH[OF iv(2), rotated]) (use iv Cons.prems(2) in \<open>simp add: subset_iff dom_def\<close>)
    qed
  qed
qed simp

lemma plan_producers_dom:
  assumes "\<And>S. set (pick S) \<subseteq> A"
  shows "dom (hm_get (pl_reruns pl)) \<subseteq> A \<Longrightarrow>
   plan_producers say pick b rb reflects defs position cells producers pl eng = (Inr pl', eng') \<Longrightarrow> dom (hm_get (pl_reruns pl')) \<subseteq> A"
proof (induction producers arbitrary: pl eng)
  case (Cons def others)
  show ?case
  proof (cases "skipped eng b position defs def")
    case False
    then obtain seeds pl1 eng1 where
      c: "plan_candidates say b reflects def (pick (invalidated_by (wd_index eng) b cells def defs \<union> set seeds))
        (pl\<lparr>pl_seeded := insert (pd_id def) (pl_seeded pl)\<rparr>) eng = (pl1, eng1)"
      and "plan_producers say pick b rb reflects defs position cells others pl1 eng1 = (Inr pl', eng')"
      using Cons.prems(2) by (auto simp: Let_def split: sum.splits prod.splits)
    then show ?thesis using Cons.IH plan_candidates_dom[OF assms _ c] Cons.prems(1) by simp
  qed (use Cons in auto)
qed simp

lemma plan_layers_dom:
  assumes "\<And>S. set (pick S) \<subseteq> A"
  shows "dom (hm_get (pl_reruns pl)) \<subseteq> A \<Longrightarrow> plan_layers say pick b rb reflects defs wave pl eng = (Inr pl', eng') \<Longrightarrow>
    dom (hm_get (pl_reruns pl')) \<subseteq> A"
proof (induction wave arbitrary: pl eng)
  case (Cons l wave)
  then obtain cells pl1 eng1 where
    "plan_producers say pick b rb reflects defs (position_of (wd_log eng) l) cells (producer_defs eng) pl eng = (Inr pl1, eng1)"
    "plan_layers say pick b rb reflects defs wave pl1 eng1 = (Inr pl', eng')"
    by (auto split: sum.splits prod.splits)
  then show ?case using Cons.IH plan_producers_dom[of pick A, OF assms Cons.prems(1)] by blast
qed simp

lemma settling_dom:
  assumes "\<And>S. set (pick S) \<subseteq> A" and "settling hash exec say pick defs reflects st0 st" and "dom (hm_get (st_reruns st0)) \<subseteq> A"
  shows "dom (hm_get (st_reruns st)) \<subseteq> A"
  using assms(2,3)
proof (induction rule: settling.induct)
  case (Turn st "is" st')
  from Turn.hyps(3) obtain pl eng1 where
    s: "schedule say pick (rd_parent (st_round st)) (rd_branch (st_round st)) (st_wave st) reflects defs (st_reruns st) (st_seeded st) (st_engine st) = (Inr pl, eng1)"
    and "st_reruns st' = pl_reruns pl" by (elim settle_turn_parts) simp
  then show ?case
    using plan_layers_dom[of pick A, OF assms(1) _ s[unfolded schedule_def]] Turn.IH Turn.prems by simp
qed

lemma finite_rounds_settle_witness:
  "\<exists>res. settle_loop id d_exec (\<lambda>_. ''boom'') d_pick def_view_new 1 (\<lambda>_. [0, 0]) 0
     (round_state_new d_span (round_new 1 1 1) d_engine) = Some res"
proof (rule finite_rounds_settle[where ivs = "{d_iv}"])
  show "poison_ok (wd_poison d_engine)" by (simp add: d_engine_def)
  show "set (d_pick S) \<subseteq> S" for S by (rule d_pick_sub)
  show "finite {d_iv}" by simp
  show "dom (hm_get (st_reruns st)) \<subseteq> {d_iv}"
    if "settling id d_exec (\<lambda>_. ''boom'') d_pick def_view_new 1 (round_state_new d_span (round_new 1 1 1) d_engine) st" for st
    by (rule settling_dom[OF _ that]) (auto simp: d_pick_def round_state_new_def)
qed

definition d_wave :: wave where
  "d_wave = wave_new \<lparr>ra_on = 9, ra_home = 1, ra_fresh_as_of = 1, ra_reflects = 1\<rparr> [(d_producer, d_iv)] (round_new 9 1 1)"

lemma rounds_are_isolated_witness:
  "get_cell (mg_db (wd_log (snd (run_wave id d_exec def_view_new [0, 0] d_wave d_engine)))) [(1, 1)] w_cell (DefVersion 1) =
   get_cell s_db [(1, 1)] w_cell (DefVersion 1)"
proof -
  obtain wv eng' where r: "run_wave id d_exec def_view_new [0, 0] d_wave d_engine = (wv, eng')" by fastforce
  have log: "wd_log d_engine = s_committed" by (simp add: d_engine_def)
  have "mg_inv (wd_log d_engine)" unfolding log by (rule mg_reachable_inv[OF s_inv(4)])
  moreover have "unat (mg_next (wd_log d_engine)) + length [(d_producer, d_iv)] < 2 ^ 64"
    by (simp add: log s_committed_state)
  ultimately have "apart 9 (wd_log d_engine) (wd_log eng')"
    using rounds_are_isolated[OF _ _ r[unfolded d_wave_def]] by simp
  then show ?thesis by (simp add: r apart_def log d_db del: get_cell.simps)
qed

text \<open>With its producer poisoned the round runs nothing, and its waiters go through all the same.\<close>

definition d_broken :: engine where
  "d_broken = d_engine\<lparr>wd_poison := [((1, 7), \<lparr>po_producer = 7, po_version = 1, po_error = ''boom'', po_since = 1\<rparr>)]\<rparr>"

definition d_forked :: manager where
  "d_forked = bm_layers (persist \<lparr>br_id = 5, br_name = None, br_origin = Some 1\<rparr> \<lparr>bm_layers = s_committed, bm_next_id = 6\<rparr>)"

definition d_after :: engine where
  "d_after = d_broken\<lparr>wd_log := d_forked, en_next_branch := 6\<rparr>"

lemma d_fork: "fork_round 1 1 d_broken = (Inr 5, d_after)"
proof -
  have "unused_branch s_committed 5"
    by (simp add: unused_branch_def lm_branch_def lm_head_def s_committed_state s_start_defs)
  then have "next_branch_loop s_committed 5 = Some (5, 6)" by (subst next_branch_loop.simps) simp
  moreover have "lm_layer s_committed 1 = Some ((s_layer 1 None)\<lparr>ly_state := LCommitted\<rparr>)"
    by (simp add: lm_layer_def s_committed_state)
  moreover have "ly_branch (s_layer 1 None) = 1" by (simp add: s_layer_def)
  ultimately show ?thesis
    by (simp add: fork_round_def fork_branch_def next_branch_def d_broken_def d_engine_def d_after_def d_forked_def)
      (simp add: persist_def Let_def)
qed

lemma d_forked_state:
  "mg_layers d_forked = mg_layers s_committed" "mg_heads d_forked = mg_heads s_committed" "mg_def_layers d_forked = mg_def_layers s_committed"
  "mg_branches d_forked = [(5, \<lparr>br_id = 5, br_name = None, br_origin = Some 1\<rparr>)]" "mg_db d_forked = put_branch \<lparr>br_id = 5, br_name = None, br_origin = Some 1\<rparr> s_db"
  by (simp_all add: d_forked_def persist_def register_branch_def Let_def d_db) (simp add: s_committed_state s_start_defs)

lemma d_forked_reads: "lm_read_path d_forked 1 None = Inr [(1, 1)]" "view d_forked [(1, 1)] = Inr def_view_new"
  "cells_of d_forked 1 = Inr [(CellAt w_cell (DefVersion 1), None)]"
proof -
  have "start_bound d_forked 1 None = 1" "parent_link d_forked 1 = None"
    by (simp_all add: parent_link_def origin_of_def lm_branch_def start_bound_def lm_head_def d_forked_state)
      (simp_all add: s_committed_state)
  then show "lm_read_path d_forked 1 None = Inr [(1, 1)]"
    using ancestry.Root[of "parent_link d_forked" 1 None 1] by (simp add: lm_read_path_iff)
  show "view d_forked [(1, 1)] = Inr def_view_new"
    by (simp add: view_fold reg_def_layers_def def_layers_of_def d_forked_state s_committed_state s_start_defs)
  have "read_layer (mg_db d_forked) = read_layer s_db"
    by (simp add: fun_eq_iff d_forked_state read_layer_def put_branch_def event_of_def stored_def split: option.split)
  then show "cells_of d_forked 1 = Inr [(CellAt w_cell (DefVersion 1), None)]"
    using d_cells by (simp add: cells_of_def d_db)
qed

lemma d_idle:
  "settle_loop hash exec say pick def_view_new 1 sched 0 (round_state_new d_span (round_new 5 1 1) d_after) =
     Some (None, \<lparr>st_wave = [], st_reruns = [], st_seeded = {}, st_round = round_new 5 1 1, st_executed = 0, st_engine = d_after\<rparr>)"
proof -
  have "skipped d_after 1 x def_view_new d_producer" for x
    by (simp add: skipped_def is_broken_def d_after_def d_broken_def d_engine_def poisoned_def d_producer_def producer_version_def applies_to_def)
  moreover have "wd_log d_after = d_forked" "producer_defs d_after = [d_producer]"
    by (simp_all add: d_after_def d_broken_def d_engine_def producer_defs_def)
  ultimately have s: "schedule say pick 1 5 [1] 1 def_view_new [] {} d_after =
      (Inr \<lparr>pl_work = [], pl_scheduled = {}, pl_reruns = [], pl_seeded = {}\<rparr>, d_after)"
    by (simp add: schedule_def d_forked_reads)
  have w: "run_wave hash exec defs is (wave_new at' [] r) eng = (wave_new at' [] r, eng)" for defs "is" at' r eng
  proof -
    have "wave_steps hash exec defs is (wave_new at' [] r) eng = (wave_new at' [] r, eng)"
      by (induction "is") (simp_all add: wave_step_def wave_new_def)
    then show ?thesis by (simp add: run_wave_def wave_new_def)
  qed
  have "settle_turn hash exec say pick def_view_new 1 (sched 0) (round_state_new d_span (round_new 5 1 1) d_after) =
      (None, \<lparr>st_wave = [], st_reruns = [], st_seeded = {}, st_round = round_new 5 1 1, st_executed = 0, st_engine = d_after\<rparr>)"
    by (simp add: settle_turn_def round_state_new_def d_span_def round_new_def s w Let_def) (simp add: wave_new_def)
  then show ?thesis
    by (subst settle_loop.simps) (simp add: round_state_new_def d_span_def settle_loop.simps[of _ _ _ _ _ _ _ "Suc 0"])
qed

lemma settled_round_lets_waiters_through_witness:
  "\<exists>outcome eng'. settle_span id d_exec (\<lambda>_. ''boom'') d_pick (\<lambda>_. []) 1 d_span d_broken = (Inr outcome, eng') \<and>
     producer_ids eng' = [7] \<and> has_reached (en_frontier eng') 1 (producer_ids eng') 1"
proof -
  have l: "lm_layer (wd_log d_broken) 1 = Some ((s_layer 1 None)\<lparr>ly_state := LCommitted\<rparr>)"
    by (simp add: lm_layer_def s_committed_state d_broken_def d_engine_def)
  have log: "wd_log d_after = d_forked" by (simp add: d_after_def)
  have sp: "sp_fork_at d_span = 1" "sp_reflects d_span = 1" "ly_branch (s_layer 1 None) = 1" by (simp_all add: d_span_def s_layer_def)
  obtain outcome eng' where r: "settle_span id d_exec (\<lambda>_. ''boom'') d_pick (\<lambda>_. []) 1 d_span d_broken = (Inr outcome, eng')"
    and p: "en_producers eng' = en_producers d_after"
    by (simp add: settle_span_def l sp d_fork log d_forked_reads d_idle settle_end_def on_log_def merge_round_def round_is_empty_def)
      (simp add: round_new_def)
  have "producer_ids eng' = [7]" by (simp add: producer_ids_def p d_after_def d_broken_def d_engine_def)
  then show ?thesis using r settled_round_lets_waiters_through[OF r, of 1] by (auto simp: sp)
qed

lemma inline_computation_moves_no_watermark_witness:
  "watermark (en_frontier (snd (compute_now id d_exec 1 w_cell (DefVersion 1) d_engine))) 1 7 = 0"
proof -
  obtain r eng' where c: "compute_now id d_exec 1 w_cell (DefVersion 1) d_engine = (r, eng')" by fastforce
  have "producers_ok d_engine" by (simp add: producers_ok_def d_engine_def d_producer_def)
  from inline_computation_moves_no_watermark[OF this c] show ?thesis
    by (simp add: c) (simp add: en_frontier_def d_engine_def s_committed_state indexes_new_def watermark_def)
qed

end
