(* ===== verification/Registry.thy ===== *)
theory Registry
  imports Settle
begin

text \<open>
  \<^verbatim>\<open>borg-engine/src/registry.rs\<close>: opening a store and the client-facing questions. A registry is the
  engine: its storage, log, branches, definitions, frontier, poison table and indexes are the ones the
  engine holds references to. Opening reads the layer and branch tables, restores the log from them and
  brings the three projections to head.
\<close>

section \<open>Opening\<close>

definition highest_layer :: "layer list \<Rightarrow> u64" where
  "highest_layer known = fold max (map ly_id known) 0"

definition highest_branch :: "layer list \<Rightarrow> u64" where
  "highest_branch known = fold max (map ly_branch known) 0"

definition registry_members :: "member list" where
  "registry_members = [TouchIndex, DependencyProjection, FrontierProjection]"

text \<open>The log of a reopened store before its projections are brought to head.\<close>

definition restored :: "inner \<Rightarrow> u64 \<Rightarrow> manager" where
  "restored db next =
     fold restore (read_layers db)
       (fold register_branch (read_branches db)
          (with_projections registry_members (manager_new db next indexes_new)))"

text \<open>\<open>parallelism\<close> is what the machine offers. The three overflows panic.\<close>

definition open_with_poison :: "inner \<Rightarrow> poison_table \<Rightarrow> nat \<Rightarrow> engine result" where
  "open_with_poison db table parallelism =
     (let known = read_layers db in
      case resuming_after (highest_layer known) of
        None \<Rightarrow> Inl (RustPanic ''attempt to add with overflow'')
      | Some next \<Rightarrow>
          (let m = restored db next in
           if highest_branch known = - 1 then Inl (RustPanic ''attempt to add with overflow'')
           else
             (case resuming m (highest_branch known + 1) of
                None \<Rightarrow> Inl (RustPanic ''attempt to add with overflow'')
              | Some bm \<Rightarrow>
                  (case bring_to_head db known registry_members (mg_indexes m) of
                     (Inl err, _) \<Rightarrow> Inl err
                   | (Inr _, ix) \<Rightarrow>
                       Inr ((engine_new (m\<lparr>mg_indexes := ix\<rparr>) (bm_next_id bm) parallelism)\<lparr>wd_poison := table\<rparr>)))))"

definition registry_open :: "inner \<Rightarrow> nat \<Rightarrow> engine result" where
  "registry_open db = open_with_poison db []"

section \<open>Questions\<close>

definition default_branch :: "engine \<Rightarrow> branch_id option" where
  "default_branch eng = (case roots (wd_log eng) of [] \<Rightarrow> None | b # bs \<Rightarrow> Some (fold min bs b))"

definition branch_definitions :: "engine \<Rightarrow> branch_id \<Rightarrow> def_view result" where
  "branch_definitions eng b =
     (case lm_read_path (wd_log eng) b None of Inl err \<Rightarrow> Inl err | Inr path \<Rightarrow> view (wd_log eng) path)"

definition producers_of :: "engine \<Rightarrow> branch_id \<Rightarrow> producer_id list result" where
  "producers_of eng b =
     (case branch_definitions eng b of
        Inl err \<Rightarrow> Inl err
      | Inr defs \<Rightarrow> Inr (map pd_id (view_producers defs)))"

definition register_producers :: "branch_id \<Rightarrow> engine \<Rightarrow> unit result \<times> engine" where
  "register_producers b eng =
     (case branch_definitions eng b of
        Inl err \<Rightarrow> (Inl err, eng)
      | Inr defs \<Rightarrow> (Inr (), fold register_producer (view_producers defs) eng))"

text \<open>Existence cells whose latest record is no tombstone.\<close>

fun live_ids :: "event result list \<Rightarrow> pid list result" where
  "live_ids [] = Inr []"
| "live_ids (row # rows) =
     (case row of
        Inl err \<Rightarrow> Inl err
      | Inr event \<Rightarrow>
          (case live_ids rows of
             Inl err \<Rightarrow> Inl err
           | Inr ids \<Rightarrow> Inr (if is_tombstone (ev_value event) then ids else cell_pid (ev_cell event) # ids)))"

definition object_ids :: "engine \<Rightarrow> branch_id \<Rightarrow> object_type_name \<Rightarrow> pid list result" where
  "object_ids eng b struct_name =
     (case lm_read_path (wd_log eng) b None of
        Inl err \<Rightarrow> Inl err
      | Inr path \<Rightarrow>
          (case live_ids (scan_buffer (mg_db (wd_log eng)) path (BObject struct_name)) of
             Inl err \<Rightarrow> Inl err
           | Inr ids \<Rightarrow> Inr (remdups_adj (sort_key pid_key ids))))"

definition registry_settled :: "engine \<Rightarrow> branch_id \<Rightarrow> layer_id result" where
  "registry_settled eng b =
     (case producers_of eng b of
        Inl err \<Rightarrow> Inl err
      | Inr producers \<Rightarrow>
          Inr (case settled (en_frontier eng) b producers of
                 Some mark \<Rightarrow> settled_ceiling (wd_log eng) b mark
               | None \<Rightarrow> (case lm_head (wd_log eng) b of None \<Rightarrow> 0 | Some head \<Rightarrow> head)))"

definition begin_write ::
  "branch_id \<Rightarrow> client_version \<Rightarrow> writer \<Rightarrow> engine \<Rightarrow> write_session result \<times> engine" where
  "begin_write b version w = on_log (open_session b version w ASource)"

end
