(* ===== verification/Registry_Properties.thy ===== *)
theory Registry_Properties
  imports Registry Derive_Properties Session_Properties
begin

text \<open>
  What reopening a store gives back. Only layers and branches are stored in their own right; heads, the
  touch index and the watermarks are rebuilt from them, and answer as the live ones did.
\<close>

section \<open>The layer table of the store\<close>













text \<open>A log that began with an empty store and with ids above zero.\<close>

definition log_reachable :: "manager \<Rightarrow> bool" where
  "log_reachable m \<longleftrightarrow>
     (\<exists>members next. TouchIndex \<in> set members \<and> next \<noteq> 0 \<and>
        mg_step\<^sup>*\<^sup>* (with_projections members (manager_new mem_new next indexes_new)) m)"


lemma log_reachable_mg: "log_reachable m \<Longrightarrow> mg_reachable m"
  by (auto simp: log_reachable_def mg_reachable_def)

lemma transition_frame: "transition l s t m = (r, n) \<Longrightarrow> mg_next n = mg_next m \<and>
    (hm_get (mg_layers m) 0 = None \<longrightarrow> hm_get (mg_layers n) 0 = None)"
  by (auto simp: transition_def split: option.splits if_splits)



section \<open>Restoring\<close>






section \<open>Rebuilding the touch index\<close>



section \<open>A reopened store\<close>











section \<open>Witness\<close>




end
