(* ===== verification/Std_Text.thy ===== *)
theory Std_Text
  imports Borg_Prelude
begin

text \<open>
  The operations of Rust's \<^verbatim>\<open>str\<close> that the host, the protocol and the server call, on UTF-8 bytes: splitting,
  trimming, small numbers, what is well-formed UTF-8, and the pieces their messages are put together from.
\<close>

section \<open>Splitting and numbers\<close>

type_synonym u16 = "16 word"

text \<open>\<^verbatim>\<open>split_once\<close> of a string pattern.\<close>

fun split_on :: "string \<Rightarrow> string \<Rightarrow> (string \<times> string) option" where
  "split_on pat [] = (if pat = [] then Some ([], []) else None)"
| "split_on pat (c # s) =
     (if take (length pat) (c # s) = pat then Some ([], drop (length pat) (c # s))
      else map_option (\<lambda>(a, b). (c # a, b)) (split_on pat s))"

definition rsplit_once :: "char \<Rightarrow> string \<Rightarrow> (string \<times> string) option" where
  "rsplit_once c s = map_option (\<lambda>(a, b). (rev b, rev a)) (split_once c (rev s))"

definition trim_end_slashes :: "string \<Rightarrow> string" where
  "trim_end_slashes s = rev (dropWhile (\<lambda>c. c = CHR ''/'') (rev s))"

definition parse_u16 :: "string \<Rightarrow> u16 option" where
  "parse_u16 s =
     (let ds = (case s of c # t \<Rightarrow> if c = CHR ''+'' then t else s | [] \<Rightarrow> s)
      in if ds \<noteq> [] \<and> list_all is_digit ds \<and> digits_val ds < 2 ^ 16
         then Some (of_nat (digits_val ds)) else None)"

definition is_ascii_alphanumeric :: "char \<Rightarrow> bool" where
  "is_ascii_alphanumeric c \<longleftrightarrow> is_digit c \<or> CHR ''A'' \<le> c \<and> c \<le> CHR ''Z'' \<or> CHR ''a'' \<le> c \<and> c \<le> CHR ''z''"

text \<open>The UTF-8 bytes of the dash in the messages.\<close>

definition dash :: string where "dash = [CHR '' '', CHR 0xE2, CHR 0x80, CHR 0x94, CHR '' '']"

definition quoted :: "string \<Rightarrow> string" where "quoted s = [CHR 0x60] @ s @ [CHR 0x60]"

section \<open>White space\<close>

text \<open>The encodings of the characters Unicode calls white space.\<close>

definition white_space :: "string list" where
  "white_space =
     map (\<lambda>c. [c]) [CHR 0x09, CHR 0x0A, CHR 0x0B, CHR 0x0C, CHR 0x0D, CHR '' '']
     @ [[CHR 0xC2, CHR 0x85], [CHR 0xC2, CHR 0xA0], [CHR 0xE1, CHR 0x9A, CHR 0x80]]
     @ map (\<lambda>c. [CHR 0xE2, CHR 0x80, c]) [CHR 0x80, CHR 0x81, CHR 0x82, CHR 0x83, CHR 0x84, CHR 0x85, CHR 0x86,
         CHR 0x87, CHR 0x88, CHR 0x89, CHR 0x8A, CHR 0xA8, CHR 0xA9, CHR 0xAF]
     @ [[CHR 0xE2, CHR 0x81, CHR 0x9F], [CHR 0xE3, CHR 0x80, CHR 0x80]]"

text \<open>Takes the patterns, none of them empty, off the front for as long as one is there.\<close>

function strip_front :: "string list \<Rightarrow> string \<Rightarrow> string" where
  "strip_front pats s =
     (case find (\<lambda>p. p \<noteq> [] \<and> take (length p) s = p) pats of
        None \<Rightarrow> s
      | Some p \<Rightarrow> strip_front pats (drop (length p) s))"
  by auto

termination
proof (relation "measure (\<lambda>(pats, s). length s)")
  fix pats :: "string list" and s p :: string
  assume "find (\<lambda>p. p \<noteq> [] \<and> take (length p) s = p) pats = Some p"
  then have "p \<noteq> []" "take (length p) s = p" by (auto simp: find_Some_iff)
  moreover from this have "s \<noteq> []" by auto
  ultimately show "((pats, drop (length p) s), (pats, s)) \<in> measure (\<lambda>(pats, s). length s)" by simp
qed simp

declare strip_front.simps [simp del]

definition trim_start :: "string \<Rightarrow> string" where "trim_start = strip_front white_space"

definition trim_end :: "string \<Rightarrow> string" where
  "trim_end s = rev (strip_front (map rev white_space) (rev s))"

definition trim :: "string \<Rightarrow> string" where "trim s = trim_end (trim_start s)"

section \<open>Well-formed UTF-8\<close>

definition is_tail :: "char \<Rightarrow> bool" where
  "is_tail c \<longleftrightarrow> CHR 0x80 \<le> c \<and> c \<le> CHR 0xBF"

text \<open>The bounds on the second byte shut out overlong forms, surrogates and what is above the last code point.\<close>

fun valid_utf8 :: "string \<Rightarrow> bool" where
  "valid_utf8 [] = True"
| "valid_utf8 (c # s) =
     (if c \<le> CHR 0x7F then valid_utf8 s
      else if CHR 0xC2 \<le> c \<and> c \<le> CHR 0xDF then
        (case s of d # s \<Rightarrow> is_tail d \<and> valid_utf8 s | [] \<Rightarrow> False)
      else if CHR 0xE0 \<le> c \<and> c \<le> CHR 0xEF then
        (case s of d # e # s \<Rightarrow> is_tail d \<and> is_tail e \<and> (c = CHR 0xE0 \<longrightarrow> CHR 0xA0 \<le> d) \<and>
             (c = CHR 0xED \<longrightarrow> d \<le> CHR 0x9F) \<and> valid_utf8 s
         | _ \<Rightarrow> False)
      else if CHR 0xF0 \<le> c \<and> c \<le> CHR 0xF4 then
        (case s of d # e # f # s \<Rightarrow> is_tail d \<and> is_tail e \<and> is_tail f \<and> (c = CHR 0xF0 \<longrightarrow> CHR 0x90 \<le> d) \<and>
             (c = CHR 0xF4 \<longrightarrow> d \<le> CHR 0x8F) \<and> valid_utf8 s
         | _ \<Rightarrow> False)
      else False)"

end
