(* ===== verification/Framing.thy ===== *)
theory Framing
  imports Std_Text
begin

text \<open>
  \<^verbatim>\<open>borg-protocol/src/lib.rs\<close>: the codecs, how a message is framed on a byte stream and read back, and
  the ids and hellos of the worker protocol. What serde makes of a message is a parameter: \<open>encode\<close> gives
  the bytes of a message or its error, \<open>decode\<close> the message or its error. A stream is the bytes still to
  come; bytes are characters.
\<close>

section \<open>Codecs\<close>

datatype codec = Json | Msgpack

definition codec_parse :: "string \<Rightarrow> codec option" where
  "codec_parse name = (if name = ''json'' then Some Json else if name = ''msgpack'' then Some Msgpack else None)"

definition codec_name :: "codec \<Rightarrow> string" where
  "codec_name c = (case c of Json \<Rightarrow> ''json'' | Msgpack \<Rightarrow> ''msgpack'')"

datatype protocol_error = PIo string | PEncoding string | PClosed | PNoSharedCodec string

definition show_protocol_error :: "protocol_error \<Rightarrow> string" where
  "show_protocol_error err =
     (case err of
        PIo why \<Rightarrow> ''io: '' @ why
      | PEncoding why \<Rightarrow> ''encoding: '' @ why
      | PClosed \<Rightarrow> ''the worker closed the connection''
      | PNoSharedCodec offered \<Rightarrow> ''the worker offered no codec we speak (we speak: '' @ offered @ '')'')"

fun join_with :: "string \<Rightarrow> string list \<Rightarrow> string" where
  "join_with sep [] = []"
| "join_with sep [s] = s"
| "join_with sep (s # t # ss) = s @ sep @ join_with sep (t # ss)"

definition negotiate :: "codec list \<Rightarrow> string \<Rightarrow> protocol_error + codec" where
  "negotiate offered chosen =
     (case codec_parse chosen of
        Some c \<Rightarrow>
          if c \<in> set offered then Inr c else Inl (PNoSharedCodec (join_with '', '' (map codec_name offered)))
      | None \<Rightarrow> Inl (PNoSharedCodec (join_with '', '' (map codec_name offered))))"

section \<open>Encoding\<close>

type_synonym 'm encoder = "codec \<Rightarrow> 'm \<Rightarrow> string + string"
type_synonym 'm decoder = "codec \<Rightarrow> string \<Rightarrow> string + 'm"

definition encode_message :: "'m encoder \<Rightarrow> codec \<Rightarrow> 'm \<Rightarrow> protocol_error + string" where
  "encode_message encode c message =
     (case encode c message of Inl err \<Rightarrow> Inl (PEncoding err) | Inr body \<Rightarrow> Inr body)"

text \<open>\<open>lossy\<close> is the text a body is quoted as.\<close>

definition decode_message :: "(string \<Rightarrow> string) \<Rightarrow> 'm decoder \<Rightarrow> codec \<Rightarrow> string \<Rightarrow> protocol_error + 'm" where
  "decode_message lossy decode c body =
     (case decode c body of
        Inr message \<Rightarrow> Inr message
      | Inl err \<Rightarrow> Inl (PEncoding (case c of Json \<Rightarrow> err @ '' in '' @ quoted (lossy body) | Msgpack \<Rightarrow> err)))"

section \<open>Framing\<close>

definition to_be_bytes :: "u32 \<Rightarrow> string" where
  "to_be_bytes n = map (\<lambda>k. char_of (unat (drop_bit k n AND 0xff))) [24, 16, 8, 0]"

definition from_be_bytes :: "string \<Rightarrow> nat" where
  "from_be_bytes bs = foldl (\<lambda>n b. n * 256 + of_char b) 0 bs"

text \<open>The bytes \<open>write_message\<close> puts on the stream.\<close>

definition write_message :: "'m encoder \<Rightarrow> codec \<Rightarrow> 'm \<Rightarrow> protocol_error + string" where
  "write_message encode c message =
     (case encode_message encode c message of
        Inl err \<Rightarrow> Inl err
      | Inr body \<Rightarrow>
          (case c of
             Json \<Rightarrow> Inr (body @ [CHR 0x0A])
           | Msgpack \<Rightarrow>
               if length body < 2 ^ 32 then Inr (to_be_bytes (of_nat (length body)) @ body)
               else Inl (PEncoding ''message too large'')))"

text \<open>\<^verbatim>\<open>read_line\<close>: up to and including the next newline, or all there is.\<close>

definition take_line :: "string \<Rightarrow> string \<times> string" where
  "take_line input =
     (case split_once (CHR 0x0A) input of
        Some (line, rest) \<Rightarrow> (line @ [CHR 0x0A], rest)
      | None \<Rightarrow> (input, []))"

lemma take_line_shorter: "input \<noteq> [] \<Longrightarrow> length (snd (take_line input)) < length input"
  by (auto simp: take_line_def split: option.split dest!: split_once_Some)

text \<open>Blank lines are passed over; the answer comes with the rest of the stream.\<close>

function read_json_line :: "string \<Rightarrow> (protocol_error + string) \<times> string" where
  "read_json_line input =
     (if input = [] then (Inl PClosed, [])
      else (let (line, rest) = take_line input in
            if \<not> valid_utf8 line then (Inl (PIo ''stream did not contain valid UTF-8''), rest)
            else if trim line = [] then read_json_line rest
            else (Inr (trim line), rest)))"
  by auto

termination
  by (relation "measure length", simp) (metis in_measure snd_conv take_line_shorter)

declare read_json_line.simps [simp del]

text \<open>Each message type reads with its own decoder. A length with no body after it is an io error.\<close>

definition read_message ::
  "(string \<Rightarrow> string) \<Rightarrow> 'm decoder \<Rightarrow> codec \<Rightarrow> string \<Rightarrow> (protocol_error + 'm) \<times> string" where
  "read_message lossy decode c input =
     (case c of
        Json \<Rightarrow>
          (case read_json_line input of
             (Inl err, rest) \<Rightarrow> (Inl err, rest)
           | (Inr line, rest) \<Rightarrow> (decode_message lossy decode Json line, rest))
      | Msgpack \<Rightarrow>
          if length input < 4 then (Inl PClosed, [])
          else (let n = from_be_bytes (take 4 input); input = drop 4 input in
                if length input < n then (Inl (PIo ''failed to fill whole buffer''), [])
                else (decode_message lossy decode Msgpack (take n input), drop n input)))"

section \<open>Producer ids\<close>

text \<open>FNV-1a over the name, kept away from small ids.\<close>

definition producer_id_of :: "string \<Rightarrow> u64" where
  "producer_id_of name =
     fold (\<lambda>byte hash. (hash XOR of_char byte) * 0x100000001b3) name 0xcbf29ce484222325 OR push_bit 32 1"

end
