(* ===== verification/Framing_Properties.thy ===== *)
theory Framing_Properties
  imports Framing
begin

text \<open>
  Messages put on a byte stream one after another come off it one by one, and a message that cannot be
  decoded takes nothing of the next one with it.
\<close>

lemma strip_front_id:
  assumes "\<forall>p \<in> set pats. p \<noteq> [] \<longrightarrow> take (length p) s \<noteq> p"
  shows "strip_front pats s = s"
proof -
  have "find (\<lambda>p. p \<noteq> [] \<and> take (length p) s = p) pats = None" using assms by (auto simp: find_None_iff)
  then show ?thesis by (subst strip_front.simps) simp
qed

lemma strip_front_space:
  assumes "find (\<lambda>p. p \<noteq> [] \<and> take (length p) (c # s) = p) pats = Some [c]"
    and "\<forall>p \<in> set pats. p \<noteq> [] \<longrightarrow> take (length p) s \<noteq> p"
  shows "strip_front pats (c # s) = s"
  using strip_front_id[OF assms(2)] by (subst strip_front.simps) (simp add: assms(1))

text \<open>What serde writes for a message: an object on one line.\<close>

definition one_line_object :: "string \<Rightarrow> bool" where
  "one_line_object body \<longleftrightarrow> body \<noteq> [] \<and> hd body = CHR 0x7B \<and> last body = CHR 0x7D \<and> CHR 0x0A \<notin> set body \<and> valid_utf8 body"

lemma trim_line: "one_line_object body \<Longrightarrow> trim (body @ [CHR 0x0A]) = body"
proof -
  assume b: "one_line_object body"
  obtain s where s: "body = CHR 0x7B # s" using b by (cases body) (auto simp: one_line_object_def)
  obtain t where t: "body = t @ [CHR 0x7D]" using b by (cases body rule: rev_cases) (auto simp: one_line_object_def)
  have "trim_start (body @ [CHR 0x0A]) = body @ [CHR 0x0A]"
    unfolding trim_start_def s by (rule strip_front_id) (simp add: white_space_def)
  moreover have "strip_front (map rev white_space) (CHR 0x0A # rev body) = rev body"
    by (rule strip_front_space) (simp_all add: white_space_def t)
  ultimately show ?thesis by (simp add: trim_def trim_end_def)
qed

lemma valid_utf8_newline: "valid_utf8 s \<Longrightarrow> valid_utf8 (s @ [CHR 0x0A])"
proof (induction "length s" arbitrary: s rule: less_induct)
  case less
  show ?case
  proof (cases s)
    case (Cons c t)
    let ?two = "CHR 0xC2 \<le> c \<and> c \<le> CHR 0xDF" and ?three = "CHR 0xE0 \<le> c \<and> c \<le> CHR 0xEF"
    note v = less.prems[unfolded Cons]
    consider (one) "c \<le> CHR 0x7F" | (two) "\<not> c \<le> CHR 0x7F" ?two | (three) "\<not> c \<le> CHR 0x7F" "\<not> ?two" ?three
      | (four) "\<not> c \<le> CHR 0x7F" "\<not> ?two" "\<not> ?three" "CHR 0xF0 \<le> c \<and> c \<le> CHR 0xF4"
      using v by (auto split: if_splits)
    then show ?thesis
    proof cases
      case one
      then have "valid_utf8 (t @ [CHR 0x0A])" using v less.hyps[of t] by (simp add: Cons)
      then show ?thesis using one by (simp add: Cons)
    next
      case two
      note r = two
      have u: "valid_utf8 (c # x) = (case x of d # s \<Rightarrow> is_tail d \<and> valid_utf8 s | [] \<Rightarrow> False)" for x
        by (simp only: valid_utf8.simps r if_True if_False simp_thms)
      obtain d u where t: "t = d # u" and w: "valid_utf8 u" using v unfolding u by (auto split: list.splits)
      have "valid_utf8 (u @ [CHR 0x0A])" by (rule less.hyps) (simp_all add: Cons t w)
      then show ?thesis using v unfolding Cons append_Cons u by (simp add: t)
    next
      case three
      note r = three
      have u: "valid_utf8 (c # x) = (case x of d # e # s \<Rightarrow> is_tail d \<and> is_tail e \<and> (c = CHR 0xE0 \<longrightarrow> CHR 0xA0 \<le> d) \<and> (c = CHR 0xED \<longrightarrow> d \<le> CHR 0x9F) \<and> valid_utf8 s | _ \<Rightarrow> False)" for x
        by (simp only: valid_utf8.simps r if_True if_False simp_thms)
      obtain d e u where t: "t = d # e # u" and w: "valid_utf8 u" using v unfolding u by (auto split: list.splits)
      have "valid_utf8 (u @ [CHR 0x0A])" by (rule less.hyps) (simp_all add: Cons t w)
      then show ?thesis using v unfolding Cons append_Cons u by (simp add: t)
    next
      case four
      note r = four
      have u: "valid_utf8 (c # x) = (case x of d # e # f # s \<Rightarrow> is_tail d \<and> is_tail e \<and> is_tail f \<and> (c = CHR 0xF0 \<longrightarrow> CHR 0x90 \<le> d) \<and> (c = CHR 0xF4 \<longrightarrow> d \<le> CHR 0x8F) \<and> valid_utf8 s | _ \<Rightarrow> False)" for x
        by (simp only: valid_utf8.simps r if_True if_False simp_thms)
      obtain d e f u where t: "t = d # e # f # u" and w: "valid_utf8 u" using v unfolding u by (auto split: list.splits)
      have "valid_utf8 (u @ [CHR 0x0A])" by (rule less.hyps) (simp_all add: Cons t w)
      then show ?thesis using v unfolding Cons append_Cons u by (simp add: t)
    qed
  qed (simp add: less_eq_char_def)
qed

lemma be_bytes: "from_be_bytes (to_be_bytes n) = unat n" "length (to_be_bytes n) = 4"
proof -
  have b: "of_char (char_of (unat (drop_bit k n AND 0xff)) :: char) = unat (drop_bit k n AND 0xff)" for k
  proof -
    have "drop_bit k n AND 0xff \<le> 0xff" by (rule word_and_le1)
    then have "unat (drop_bit k n AND 0xff) \<le> 255" by (simp add: word_le_nat_alt)
    then show ?thesis by (simp add: of_char_of)
  qed
  have m: "unat (drop_bit k n AND 0xff) = unat n div 2 ^ k mod 256" for k
  proof -
    have "(0xff :: u32) = mask 8" by (simp add: mask_eq_exp_minus_1)
    then have "drop_bit k n AND 0xff = take_bit 8 (drop_bit k n)" by (simp add: take_bit_eq_mask)
    then have "unat (drop_bit k n AND 0xff) = take_bit 8 (drop_bit k (take_bit 32 (unat n)))"
      by (simp only: unsigned_take_bit_eq unsigned_drop_bit_eq) simp
    moreover have "take_bit 32 (unat n) = unat n" by (rule take_bit_nat_eq_self) (use unsigned_less[of n, where 'a = nat] in simp)
    ultimately show ?thesis by (simp add: take_bit_eq_mod drop_bit_eq_div)
  qed
  have "unat n < 2 ^ 32" using unsigned_less[of n] by simp
  then have top: "unat n div 2 ^ 24 mod 256 = unat n div 2 ^ 24" by simp
  have "unat n div 2 ^ k = unat n div 2 ^ (k + 8) * 256 + unat n div 2 ^ k mod 256" for k
  proof -
    have "unat n div 2 ^ (k + 8) = unat n div 2 ^ k div 256" by (simp add: power_add div_mult2_eq)
    then show ?thesis by (metis div_mult_mod_eq)
  qed
  from this[of 0] this[of 8] this[of 16]
  have "((unat n div 2 ^ 24 * 256 + unat n div 2 ^ 16 mod 256) * 256 + unat n div 2 ^ 8 mod 256) * 256 + unat n mod 256 = unat n"
    by simp
  then show "from_be_bytes (to_be_bytes n) = unat n"
    using top by (simp add: from_be_bytes_def to_be_bytes_def b m)
qed (simp add: to_be_bytes_def)

lemma read_written:
  assumes "write_message encode c m = Inr bytes" and "c = Json \<Longrightarrow> one_line_object (projr (encode Json m))"
  shows "read_message lossy decode c (bytes @ rest) = (decode_message lossy decode c (projr (encode c m)), rest)"
proof -
  obtain body where e: "encode c m = Inr body"
    using assms(1) by (auto simp: write_message_def encode_message_def split: sum.splits)
  show ?thesis
  proof (cases c)
    case Json
    then have bytes: "bytes = body @ [CHR 0x0A]" and b: "one_line_object body"
      using assms e by (simp_all add: write_message_def encode_message_def)
    then have "CHR 0x0A \<notin> set body" "valid_utf8 body" "body \<noteq> []" by (simp_all add: one_line_object_def)
    then have "read_json_line (bytes @ rest) = (Inr body, rest)"
      by (subst read_json_line.simps) (simp add: bytes take_line_def valid_utf8_newline trim_line[OF b])
    then show ?thesis using e Json by (simp add: read_message_def)
  next
    case Msgpack
    then have bytes: "bytes = to_be_bytes (of_nat (length body)) @ body" and n: "length body < 2 ^ 32"
      using assms e by (auto simp: write_message_def encode_message_def split: if_splits)
    have "unat (of_nat (length body) :: u32) = length body" using n by (simp add: unsigned_of_nat take_bit_nat_eq_self)
    then show ?thesis using e Msgpack
      by (simp add: read_message_def bytes be_bytes Let_def)
  qed
qed

fun read_messages :: "(string \<Rightarrow> string) \<Rightarrow> 'm decoder \<Rightarrow> codec \<Rightarrow> nat \<Rightarrow> string \<Rightarrow> (protocol_error + 'm) list \<times> string" where
  "read_messages lossy decode c 0 input = ([], input)"
| "read_messages lossy decode c (Suc n) input =
     (let (r, rest) = read_message lossy decode c input; (rs, rest) = read_messages lossy decode c n rest
      in (r # rs, rest))"

text \<open>Property C24. Whatever is written comes off the stream one message at a time: the reader is handed exactly
  the bodies, in order, and what follows the last frame is untouched, whether or not it can decode any of
  them. Assumed of serde: a message is an object on one line of text.\<close>

theorem messages_keep_their_boundaries:
  assumes "list_all2 (\<lambda>m bytes. write_message encode c m = Inr bytes) ms frames"
    and "\<And>m. m \<in> set ms \<Longrightarrow> c = Json \<Longrightarrow> one_line_object (projr (encode Json m))"
  shows "read_messages lossy decode c (length ms) (concat frames @ rest) =
    (map (\<lambda>m. decode_message lossy decode c (projr (encode c m))) ms, rest)"
  using assms
proof (induction ms frames rule: list_all2_induct)
  case (Cons m ms bytes frames)
  have "read_message lossy decode c (bytes @ concat frames @ rest) =
      (decode_message lossy decode c (projr (encode c m)), concat frames @ rest)"
    by (rule read_written[OF Cons.hyps(1)]) (simp add: Cons.prems)
  moreover have "read_messages lossy decode c (length ms) (concat frames @ rest) =
      (map (\<lambda>m. decode_message lossy decode c (projr (encode c m))) ms, rest)"
    by (rule Cons.IH) (simp add: Cons.prems)
  ultimately show ?case by simp
qed simp

lemma messages_keep_their_boundaries_witness:
  "read_messages id (\<lambda>_ body. if body = ''{}'' then Inr () else Inl ''no'') Json 2 (''{1}'' @ [CHR 0x0A] @ ''{}'' @ [CHR 0x0A]) =
     ([Inl (PEncoding (''no in '' @ quoted ''{1}'')), Inr ()], [])"
proof -
  let ?decode = "\<lambda>_ body. if body = ''{}'' then Inr () else Inl ''no''"
  have o: "one_line_object ''{1}''" "one_line_object ''{}''" by (simp_all add: one_line_object_def less_eq_char_def)
  have w: "list_all2 (\<lambda>m bytes. write_message (\<lambda>_ m. Inr m) Json m = Inr bytes) [''{1}'', ''{}''] [''{1}'' @ [CHR 0x0A], ''{}'' @ [CHR 0x0A]]"
    by (simp add: write_message_def encode_message_def)
  have "m \<in> set [''{1}'', ''{}''] \<Longrightarrow> Json = Json \<Longrightarrow> one_line_object (projr ((\<lambda>_ m. Inr m) Json m))" for m using o by auto
  from messages_keep_their_boundaries[OF w this, of id ?decode "[]"] show ?thesis
    by (simp add: decode_message_def numeral_2_eq_2)
qed

end
