(* ===== verification/Connection_Url.thy ===== *)
theory Connection_Url
  imports Std_Text
begin

text \<open>
  \<^verbatim>\<open>borg-protocol/src/url.rs\<close>: the connection url a client is configured with, its parser, the
  address it names and the redaction of the credential it carries. A string is its UTF-8 bytes; every
  separator is ASCII, so splitting bytes and splitting characters agree. The one error of the parser is
  \<open>BorgError::Storage\<close> of a message, and the message is what is modelled, word for word.
\<close>

section \<open>Transports and addresses\<close>

datatype transport = TLocal | TUnix string | TWs bool string u16

datatype server_address = AUnix string | AWs bool string u16

record connection_url =
  cu_transport :: transport
  cu_registry :: "string option"
  cu_credential :: "string option"

definition ws_scheme :: "bool \<Rightarrow> string" where
  "ws_scheme secure = (if secure then ''wss'' else ''ws'')"

definition ws_url :: "server_address \<Rightarrow> string option" where
  "ws_url a =
     (case a of
        AUnix _ \<Rightarrow> None
      | AWs secure host port \<Rightarrow> Some (ws_scheme secure @ ''://'' @ host @ '':'' @ show_nat (unat port) @ ''/''))"

definition display_address :: "server_address \<Rightarrow> string" where
  "display_address a =
     (case a of
        AUnix path \<Rightarrow> path
      | AWs secure host port \<Rightarrow> ws_scheme secure @ ''://'' @ host @ '':'' @ show_nat (unat port))"

text \<open>The three fields a \<open>Debug\<close> line shows.\<close>

definition debug_fields :: "connection_url \<Rightarrow> transport \<times> string option \<times> string option" where
  "debug_fields url =
     (cu_transport url, cu_registry url, map_option (\<lambda>_. ''<redacted>'') (cu_credential url))"

definition url_address :: "connection_url \<Rightarrow> string \<Rightarrow> server_address" where
  "url_address url well_known =
     (case cu_transport url of
        TLocal \<Rightarrow> AUnix well_known
      | TUnix path \<Rightarrow> AUnix path
      | TWs secure host port \<Rightarrow> AWs secure host port)"

section \<open>Redaction\<close>

definition redacted :: "string \<Rightarrow> string" where
  "redacted text =
     (case split_on ''://'' text of
        None \<Rightarrow> text
      | Some (scheme, rest) \<Rightarrow>
          (case split_once (CHR ''@'') (takeWhile (\<lambda>c. c \<noteq> CHR ''/'') rest) of
             Some (info, _) \<Rightarrow> scheme @ ''://:***@'' @ drop (length info + 1) rest
           | None \<Rightarrow> text))"

definition malformed :: "string \<Rightarrow> string \<Rightarrow> string" where
  "malformed text why = quoted (redacted text) @ '' is not a borg url: '' @ why"

section \<open>Parsing\<close>

definition name_is_valid :: "string \<Rightarrow> bool" where
  "name_is_valid name \<longleftrightarrow>
     name \<noteq> [] \<and> list_all (\<lambda>c. is_ascii_alphanumeric c \<or> c = CHR ''-'' \<or> c = CHR ''_'') name"

definition registry_segment :: "string \<Rightarrow> string \<Rightarrow> string + string option" where
  "registry_segment text tail =
     (let tail = trim_end_slashes tail in
      if tail = [] then Inr None
      else if CHR ''/'' \<in> set tail then
        Inl (malformed text (quoted tail @ '' is more than one path segment'' @ dash @
          ''a borg url names one registry, as borg://localhost/<registry>''))
      else if \<not> name_is_valid tail then
        Inl (malformed text (quoted tail @ '' is not a registry name'' @ dash @
          ''letters, digits, '' @ quoted ''-'' @ '' and '' @ quoted ''_''))
      else Inr (Some tail))"

definition userinfo :: "string \<Rightarrow> string \<Rightarrow> string + string option \<times> string" where
  "userinfo text rest =
     (case split_once (CHR ''@'') (takeWhile (\<lambda>c. c \<noteq> CHR ''/'') rest) of
        None \<Rightarrow> Inr (None, rest)
      | Some (info, _) \<Rightarrow>
          (let address = drop (length info + 1) rest;
               key = (case info of c # k \<Rightarrow> if c = CHR '':'' then k else info | [] \<Rightarrow> info) in
           if CHR '':'' \<in> set key then
             Inl (malformed text (''a borg url has no username'' @ dash @
               ''the credential is the whole userinfo, as borg://:<key>@host/<registry>''))
           else if key = [] then
             Inl (malformed text (''it has an empty credential'' @ dash @ ''leave the '' @ quoted ''@'' @
               '' out to present none, or write borg://:<key>@host/<registry>''))
           else Inr (Some key, address)))"

definition local_url :: "string \<Rightarrow> string \<Rightarrow> string + connection_url" where
  "local_url text rest =
     (let (host, tail) = (case split_once (CHR ''/'') rest of Some ht \<Rightarrow> ht | None \<Rightarrow> (rest, [])) in
      if host \<noteq> [] \<and> host \<noteq> ''localhost'' then
        Inl (malformed text (quoted host @ '' is not reachable over the local transport'' @ dash @
          ''borg:// is this machine's well-known socket, and a remote server is borg+ws://''))
      else
        (case registry_segment text tail of
           Inl err \<Rightarrow> Inl err
         | Inr registry \<Rightarrow>
             Inr \<lparr>cu_transport = TLocal, cu_registry = registry, cu_credential = None\<rparr>))"

definition unix_url :: "string \<Rightarrow> string \<Rightarrow> string + connection_url" where
  "unix_url text rest =
     (if take 1 rest \<noteq> ''/'' then
        Inl (malformed text (''borg+unix names an absolute socket path, so it takes three slashes'' @ dash @
          ''borg+unix:///tmp/borg.sock''))
      else if last rest = CHR ''/'' then
        (let socket = butlast rest in
         if socket = [] then Inl (malformed text ''it names no socket path'')
         else Inr \<lparr>cu_transport = TUnix socket, cu_registry = None, cu_credential = None\<rparr>)
      else
        (let (head, lst) = the (rsplit_once (CHR ''/'') rest) in
         if head \<noteq> [] \<and> name_is_valid lst
         then Inr \<lparr>cu_transport = TUnix head, cu_registry = Some lst, cu_credential = None\<rparr>
         else Inr \<lparr>cu_transport = TUnix rest, cu_registry = None, cu_credential = None\<rparr>))"

definition websocket_url :: "string \<Rightarrow> string \<Rightarrow> bool \<Rightarrow> string + connection_url" where
  "websocket_url text rest secure =
     (let (authority, tail) = (case split_once (CHR ''/'') rest of Some ht \<Rightarrow> ht | None \<Rightarrow> (rest, []));
          no_host = malformed text (''it names no host'' @ dash @ ''borg+ws://<host>[:<port>]/<registry>'') in
      if authority = [] then Inl no_host
      else
        (case (case rsplit_once (CHR '':'') authority of
                 Some (host, port) \<Rightarrow>
                   (case parse_u16 port of
                      None \<Rightarrow> Inl (malformed text (quoted port @ '' is not a port'' @ dash @
                        ''borg+ws://<host>:<port>/<registry>''))
                    | Some p \<Rightarrow> Inr (host, p))
               | None \<Rightarrow> Inr (authority, if secure then 443 else 80)) of
           Inl err \<Rightarrow> Inl err
         | Inr (host, port) \<Rightarrow>
             if host = [] then Inl no_host
             else
               (case registry_segment text tail of
                  Inl err \<Rightarrow> Inl err
                | Inr registry \<Rightarrow>
                    Inr \<lparr>cu_transport = TWs secure host port, cu_registry = registry, cu_credential = None\<rparr>)))"

text \<open>The scheme picks the parser of what follows the credential.\<close>

definition parse_address :: "string \<Rightarrow> string \<Rightarrow> string \<Rightarrow> string + connection_url" where
  "parse_address text scheme rest =
     (if scheme = ''borg'' then local_url text rest
      else if scheme = ''borg+unix'' then unix_url text rest
      else if scheme = ''borg+ws'' then websocket_url text rest False
      else if scheme = ''borg+wss'' then websocket_url text rest True
      else Inl (malformed text (quoted scheme @ '' is not a borg transport'' @ dash @
        ''try borg://, borg+unix://, borg+ws:// or borg+wss://'')))"

definition parse_url :: "string \<Rightarrow> string + connection_url" where
  "parse_url text =
     (case split_on ''://'' text of
        None \<Rightarrow> Inl (malformed text (''it needs a scheme'' @ dash @
          ''borg://localhost/<registry> or borg+unix:///path/to/borg.sock/<registry>''))
      | Some (scheme, rest) \<Rightarrow>
          (case find (\<lambda>c. c = CHR ''?'' \<or> c = CHR ''#'') rest of
             Some bad \<Rightarrow> Inl (malformed text (quoted [bad] @ '' has no meaning here'' @ dash @
               ''a borg url is a transport, an address and a registry, and nothing else''))
           | None \<Rightarrow>
               (case userinfo text rest of
                  Inl err \<Rightarrow> Inl err
                | Inr (credential, rest) \<Rightarrow>
                    (case parse_address text scheme rest of
                       Inl err \<Rightarrow> Inl err
                     | Inr url \<Rightarrow> Inr (url\<lparr>cu_credential := credential\<rparr>)))))"

section \<open>Nothing listening\<close>

datatype io_kind = IoNotFound | IoConnectionRefused | IoHostUnreachable | IoNetworkUnreachable | IoOther

datatype dial_error = DialUnreachable string | DialStorage string

text \<open>\<open>said\<close> is the io error's own text.\<close>

definition unreachable :: "server_address \<Rightarrow> io_kind \<Rightarrow> string \<Rightarrow> dial_error" where
  "unreachable a kind said =
     (if kind = IoOther then DialStorage (display_address a @ '': '' @ said)
      else DialUnreachable (''no borg server at '' @ display_address a @ dash @ ''start one with: borg-server start''))"

end
