(* ===== verification/Keys.thy ===== *)
theory Keys
  imports Connection_Url Framing Cell_Text
begin

text \<open>
  \<^verbatim>\<open>borg-host/src/keys.rs\<close>: the api keys of a server, their scopes, and whether a credential gets in.
  The keys file is what reading and parsing it gives: no file, a file that cannot be read or parsed, or
  a list of entries. Writing is one rename, so a write that fails leaves the file as it was. SHA-256 is a
  parameter (\<open>hash\<close>), as are the bytes of \<^verbatim>\<open>/dev/urandom\<close> and the clock.
\<close>

section \<open>Scopes\<close>

datatype scope = ScAll | ScOnly "string list"

definition scope_allows :: "scope \<Rightarrow> string \<Rightarrow> bool" where
  "scope_allows sc name = (case sc of ScAll \<Rightarrow> True | ScOnly names \<Rightarrow> list_ex (\<lambda>allowed. allowed = name) names)"

definition scope_visible :: "scope \<Rightarrow> string list \<Rightarrow> string list" where
  "scope_visible sc names = (case sc of ScAll \<Rightarrow> names | ScOnly _ \<Rightarrow> filter (scope_allows sc) names)"

definition scope_written :: "scope \<Rightarrow> string" where
  "scope_written sc = (case sc of ScAll \<Rightarrow> ''*'' | ScOnly names \<Rightarrow> join_with '','' names)"

section \<open>Digests\<close>

definition bytes_of :: "string \<Rightarrow> u8 list" where
  "bytes_of s = map of_char s"

text \<open>\<^verbatim>\<open>borg_protocol::fingerprint\<close>.\<close>

definition fingerprint :: "(u8 list \<Rightarrow> u8 list) \<Rightarrow> u8 list \<Rightarrow> string" where
  "fingerprint hash bytes = ''sha256:'' @ concat (map hex_byte (hash bytes))"

definition digest :: "(u8 list \<Rightarrow> u8 list) \<Rightarrow> string \<Rightarrow> string" where
  "digest hash key = fingerprint hash (bytes_of key)"

section \<open>The keys file\<close>

record key =
  ky_label :: string
  ky_hash :: string
  ky_registries :: scope
  ky_created :: u64

datatype keys_file = NoKeysFile | UnreadableKeys | UnparsableKeys | KeysFile "key list"

record key_dir =
  kd_keys :: keys_file
  kd_admin :: "string option"

definition matching :: "(u8 list \<Rightarrow> u8 list) \<Rightarrow> string \<Rightarrow> key list \<Rightarrow> key option" where
  "matching hash presented keys = (let d = digest hash presented in find (\<lambda>key. ky_hash key = d) keys)"

definition labelled :: "string \<Rightarrow> key list \<Rightarrow> key option" where
  "labelled label keys = find (\<lambda>key. ky_label key = label) keys"

datatype keys_error =
    KeysUnreadable
  | KeysUnparsable
  | NoRandomness
  | WriteFailed
  | LabelTaken string
  | NothingToRevoke
  | NoSuchLabel string
  | NotALabel string

definition keys_load :: "key_dir \<Rightarrow> keys_error + key list option" where
  "keys_load dir =
     (case kd_keys dir of
        NoKeysFile \<Rightarrow> Inr None
      | UnreadableKeys \<Rightarrow> Inl KeysUnreadable
      | UnparsableKeys \<Rightarrow> Inl KeysUnparsable
      | KeysFile keys \<Rightarrow> Inr (Some keys))"

text \<open>\<open>disk\<close> says whether the write goes through.\<close>

definition keys_save :: "bool \<Rightarrow> key list \<Rightarrow> key_dir \<Rightarrow> (keys_error + unit) \<times> key_dir" where
  "keys_save disk keys dir =
     (if disk then (Inr (), dir\<lparr>kd_keys := KeysFile keys\<rparr>) else (Inl WriteFailed, dir))"

section \<open>Generating keys\<close>

definition KEY_ALPHABET :: string where
  "KEY_ALPHABET = ''ABCDEFGHIJKLMNOPQRSTUVWXYZabcdefghijklmnopqrstuvwxyz0123456789-_''"

definition packed_chunk :: "u8 list \<Rightarrow> u32" where
  "packed_chunk chunk =
     fold (\<lambda>(at, byte) packed. packed OR push_bit (16 - 8 * at) (ucast byte)) (enumerate 0 chunk) 0"

definition base64_chunk :: "u8 list \<Rightarrow> string" where
  "base64_chunk chunk =
     map (\<lambda>at. KEY_ALPHABET ! unat (drop_bit (18 - 6 * at) (packed_chunk chunk) AND 0x3f)) [0..<length chunk + 1]"

fun base64url :: "u8 list \<Rightarrow> string" where
  "base64url (a # b # c # rest) = base64_chunk [a, b, c] @ base64url rest"
| "base64url [] = []"
| "base64url chunk = base64_chunk chunk"

definition generate_key :: "u8 list option \<Rightarrow> keys_error + string" where
  "generate_key random =
     (case random of None \<Rightarrow> Inl NoRandomness | Some bytes \<Rightarrow> Inr (''borgk_'' @ base64url bytes))"

section \<open>The admin token\<close>

definition mint_admin :: "u8 list option \<Rightarrow> bool \<Rightarrow> key_dir \<Rightarrow> (keys_error + string) \<times> key_dir" where
  "mint_admin random disk dir =
     (case generate_key random of
        Inl err \<Rightarrow> (Inl err, dir)
      | Inr token \<Rightarrow> if disk then (Inr token, dir\<lparr>kd_admin := Some token\<rparr>) else (Inl WriteFailed, dir))"

definition read_admin :: "key_dir \<Rightarrow> string option" where
  "read_admin dir =
     (case kd_admin dir of
        None \<Rightarrow> None
      | Some raw \<Rightarrow> (let token = trim raw in if token = [] then None else Some token))"

definition clear_admin :: "key_dir \<Rightarrow> key_dir" where
  "clear_admin dir = dir\<lparr>kd_admin := None\<rparr>"

section \<open>Letting in\<close>

datatype access = AccessOpen | AccessGranted string scope

definition access_scope :: "access \<Rightarrow> scope" where
  "access_scope a = (case a of AccessOpen \<Rightarrow> ScAll | AccessGranted _ sc \<Rightarrow> sc)"

definition access_mode :: "access \<Rightarrow> string" where
  "access_mode a = (case a of AccessOpen \<Rightarrow> ''open'' | AccessGranted _ _ \<Rightarrow> ''required'')"

text \<open>A refusal is its sentence.\<close>

definition authorize ::
  "(u8 list \<Rightarrow> u8 list) \<Rightarrow> key_dir \<Rightarrow> string option \<Rightarrow> string + access" where
  "authorize hash dir presented =
     (case keys_load dir of
        Inl _ \<Rightarrow> Inl (''this server cannot read its credential store, and refuses every connection until an '' @
           ''operator has fixed it'')
      | Inr None \<Rightarrow> Inr AccessOpen
      | Inr (Some keys) \<Rightarrow>
          (case presented of
             None \<Rightarrow> Inl (''this server requires a credential'' @ dash @ ''put a key in the url as '' @
               ''borg://:<key>@host/<registry>, or set $BORG_TOKEN'')
           | Some key \<Rightarrow>
               if key = [] then Inl (''this server requires a credential'' @ dash @ ''put a key in the url as '' @
                 ''borg://:<key>@host/<registry>, or set $BORG_TOKEN'')
               else if (case read_admin dir of None \<Rightarrow> False | Some admin \<Rightarrow> digest hash admin = digest hash key)
               then Inr (AccessGranted ''<local admin>'' ScAll)
               else (case matching hash key keys of
                       None \<Rightarrow> Inl ''that credential is not valid for this server''
                     | Some found \<Rightarrow> Inr (AccessGranted (ky_label found) (ky_registries found)))))"

definition permit :: "scope \<Rightarrow> string \<Rightarrow> string + unit" where
  "permit sc registry =
     (if scope_allows sc registry then Inr ()
      else Inl (''that credential is not valid for registry '' @ quoted registry))"

section \<open>Issuing and revoking\<close>

definition check_label :: "string \<Rightarrow> keys_error + unit" where
  "check_label label =
     (if label \<noteq> [] \<and> list_all (\<lambda>c. is_ascii_alphanumeric c \<or> c = CHR ''-'' \<or> c = CHR ''_'') label
      then Inr () else Inl (NotALabel label))"

definition issue ::
  "(u8 list \<Rightarrow> u8 list) \<Rightarrow> u8 list option \<Rightarrow> u64 \<Rightarrow> bool \<Rightarrow> string \<Rightarrow> scope \<Rightarrow> key_dir \<Rightarrow> (keys_error + string) \<times> key_dir" where
  "issue hash random now disk label sc dir =
     (case check_label label of
        Inl err \<Rightarrow> (Inl err, dir)
      | Inr _ \<Rightarrow>
          (case keys_load dir of
             Inl err \<Rightarrow> (Inl err, dir)
           | Inr file \<Rightarrow>
               (let keys = (case file of None \<Rightarrow> [] | Some keys \<Rightarrow> keys) in
                if labelled label keys \<noteq> None then (Inl (LabelTaken label), dir)
                else (case generate_key random of
                        Inl err \<Rightarrow> (Inl err, dir)
                      | Inr key \<Rightarrow>
                          (case keys_save disk (keys @ [\<lparr>ky_label = label, ky_hash = digest hash key,
                                   ky_registries = sc, ky_created = now\<rparr>]) dir of
                             (Inl err, dir) \<Rightarrow> (Inl err, dir)
                           | (Inr _, dir) \<Rightarrow> (Inr key, dir))))))"

definition revoke :: "bool \<Rightarrow> string \<Rightarrow> key_dir \<Rightarrow> (keys_error + unit) \<times> key_dir" where
  "revoke disk label dir =
     (case keys_load dir of
        Inl err \<Rightarrow> (Inl err, dir)
      | Inr None \<Rightarrow> (Inl NothingToRevoke, dir)
      | Inr (Some keys) \<Rightarrow>
          (let kept = filter (\<lambda>key. ky_label key \<noteq> label) keys in
           if length kept = length keys then (Inl (NoSuchLabel label), dir)
           else keys_save disk kept dir))"

definition ago :: "u64 \<Rightarrow> u64 \<Rightarrow> string" where
  "ago now created =
     (if created = 0 then ''unknown''
      else let seconds = unat now - unat created in
        if seconds \<le> 59 then ''just now''
        else if seconds \<le> 3599 then show_nat (seconds div 60) @ ''m ago''
        else if seconds \<le> 86399 then show_nat (seconds div 3600) @ ''h ago''
        else show_nat (seconds div 86400) @ ''d ago'')"

end
