(* ===== verification/Host.thy ===== *)
theory Host
  imports Keys
begin

text \<open>
  \<^verbatim>\<open>borg-host/src/host.rs\<close> and \<^verbatim>\<open>borg-host/src/serving.rs\<close>: the registries under one data directory, which
  of them a request is for, how they come to be, and the record beside each store that says who serves
  it. What a registry holds is the type parameter; opening, creating and importing one are parameters of
  the operations that do it, as is whether somebody listens on a socket. An error is its text.
\<close>

section \<open>Names and addresses\<close>

definition STORE_FILE :: string where "STORE_FILE = ''borg.db''"
definition SOCKET_FILE :: string where "SOCKET_FILE = ''borg.sock''"

definition path_join :: "string \<Rightarrow> string \<Rightarrow> string" where
  "path_join dir name = dir @ ''/'' @ name"

text \<open>\<open>home\<close> is the environment's; \<open>runtime\<close> is its runtime directory, where that is one.\<close>

definition default_data_dir :: "string option \<Rightarrow> string" where
  "default_data_dir home = (case home of None \<Rightarrow> ''.borg'' | Some dir \<Rightarrow> path_join dir ''.borg'')"

definition default_socket :: "string option \<Rightarrow> string \<Rightarrow> string" where
  "default_socket runtime data_dir =
     (case runtime of Some dir \<Rightarrow> path_join dir SOCKET_FILE | None \<Rightarrow> path_join data_dir SOCKET_FILE)"

definition well_known_socket :: "string option \<Rightarrow> string option \<Rightarrow> string" where
  "well_known_socket home runtime = default_socket runtime (default_data_dir home)"

text \<open>The text of \<open>BorgError::Storage\<close>.\<close>

definition storage :: "string \<Rightarrow> string" where "storage why = ''storage: '' @ why"

definition check_name :: "string \<Rightarrow> string + unit" where
  "check_name name =
     (if name_is_valid name then Inr ()
      else Inl (storage (quoted name @ '' is not a registry name'' @ dash @
        ''letters, digits, '' @ quoted ''-'' @ '' and '' @ quoted ''_'')))"

section \<open>Who serves a store\<close>

record serving =
  sv_socket :: string
  sv_pid :: u32
  sv_registry :: "string option"

text \<open>The records beside the stores, by store.\<close>

type_synonym claims = "(string, serving) hmap"

definition served_on :: "(string \<Rightarrow> bool) \<Rightarrow> string \<Rightarrow> claims \<Rightarrow> serving option \<times> claims" where
  "served_on listening store claims =
     (case hm_get claims store of
        None \<Rightarrow> (None, claims)
      | Some record \<Rightarrow>
          if sv_socket record = [] then (None, claims)
          else if \<not> listening (sv_socket record) then (None, hm_remove store claims)
          else (Some record, claims))"

text \<open>\<open>disk\<close> gives the io error that writing the record of a store meets, where it meets one.\<close>

definition claim_store ::
  "(string \<Rightarrow> string option) \<Rightarrow> u32 \<Rightarrow> string \<Rightarrow> string \<Rightarrow> string \<Rightarrow> claims \<Rightarrow> (string + unit) \<times> claims" where
  "claim_store disk pid store socket registry claims =
     (case disk store of
        None \<Rightarrow> (Inr (), hm_insert store \<lparr>sv_socket = socket, sv_pid = pid, sv_registry = Some registry\<rparr> claims)
      | Some err \<Rightarrow> (Inl (storage err), claims))"

definition release_store :: "string \<Rightarrow> claims \<Rightarrow> claims" where
  "release_store store claims = hm_remove store claims"

definition refuse_if_served :: "(string \<Rightarrow> bool) \<Rightarrow> string \<Rightarrow> claims \<Rightarrow> (string + unit) \<times> claims" where
  "refuse_if_served listening store claims =
     (case served_on listening store claims of
        (None, claims) \<Rightarrow> (Inr (), claims)
      | (Some served, claims) \<Rightarrow>
          (Inl (storage (store @ '' is being served on '' @ sv_socket served @ '' (pid '' @ show_nat (unat (sv_pid served)) @ '')'' @
             (case sv_registry served of None \<Rightarrow> [] | Some name \<Rightarrow> '' as '' @ quoted name) @ dash @
             ''one process serves a store, so this command would be the second writer. Speak to the socket, or '' @
             ''stop the server with '' @ quoted ''borg-server stop'' @ ''.'')), claims))"

section \<open>Hosted registries\<close>

record 'r slot =
  sl_name :: string
  sl_store :: string
  sl_state :: 'r
  sl_open :: bool

record 'r host =
  ho_data_dir :: string
  ho_socket :: string
  ho_registries :: "(string, 'r slot) btmap"
  ho_serving :: bool
  ho_claims :: claims

definition slot_new :: "string \<Rightarrow> string \<Rightarrow> 'r \<Rightarrow> 'r slot" where
  "slot_new name dir r = \<lparr>sl_name = name, sl_store = path_join dir STORE_FILE, sl_state = r, sl_open = False\<rparr>"

text \<open>What a request works through, opening the store if nothing has yet.\<close>

definition slot_ops :: "('r \<Rightarrow> string + 'r) \<Rightarrow> 'r slot \<Rightarrow> string + 'r slot" where
  "slot_ops hold slot =
     (if sl_open slot then Inr slot
      else (case hold (sl_state slot) of
              Inl err \<Rightarrow> Inl err
            | Inr r \<Rightarrow> Inr (slot\<lparr>sl_state := r, sl_open := True\<rparr>)))"

text \<open>An entry of the data directory: its name where that is text, whether it is a directory, and the
  store in it.\<close>

fun discover :: "string \<Rightarrow> (string option \<times> bool \<times> 'r option) list \<Rightarrow> (string, 'r slot) btmap \<Rightarrow> (string, 'r slot) btmap" where
  "discover data_dir [] found = found"
| "discover data_dir ((name, is_dir, store) # entries) found =
     (case name of
        None \<Rightarrow> discover data_dir entries found
      | Some name \<Rightarrow>
          (case store of
             Some r \<Rightarrow>
               if is_dir \<and> name_is_valid name
               then discover data_dir entries (bt_insert name (slot_new name (path_join data_dir name) r) found)
               else discover data_dir entries found
           | None \<Rightarrow> discover data_dir entries found))"

definition host_open :: "string \<Rightarrow> string \<Rightarrow> (string option \<times> bool \<times> 'r option) list \<Rightarrow> claims \<Rightarrow> 'r host" where
  "host_open data_dir socket entries claims =
     \<lparr>ho_data_dir = data_dir, ho_socket = socket, ho_registries = discover data_dir entries [],
      ho_serving = False, ho_claims = claims\<rparr>"

definition hosted_within :: "scope \<Rightarrow> 'r host \<Rightarrow> (string \<times> bool) list" where
  "hosted_within sc host =
     map (\<lambda>slot. (sl_name slot, sl_open slot))
       (filter (\<lambda>slot. scope_allows sc (sl_name slot)) (map snd (ho_registries host)))"

definition hosted :: "'r host \<Rightarrow> (string \<times> bool) list" where
  "hosted = hosted_within ScAll"

definition host_names :: "'r host \<Rightarrow> string list" where
  "host_names host = map fst (ho_registries host)"

definition host_slots :: "'r host \<Rightarrow> 'r slot list" where
  "host_slots host = map snd (ho_registries host)"

definition listed :: "string list \<Rightarrow> string" where
  "listed names =
     (case names of
        [] \<Rightarrow> ''nothing''
      | [name] \<Rightarrow> ''1 registry ('' @ name @ '')''
      | _ \<Rightarrow> show_nat (length names) @ '' registries ('' @ join_with '', '' names @ '')'')"

definition route_within :: "string option \<Rightarrow> scope \<Rightarrow> 'r host \<Rightarrow> string + 'r slot" where
  "route_within named sc host =
     (let visible = filter (scope_allows sc) (map fst (ho_registries host)) in
      case named of
        Some name \<Rightarrow>
          (case map_of (ho_registries host) name of
             Some slot \<Rightarrow>
               if scope_allows sc (sl_name slot) then Inr slot
               else Inl (storage (''no registry named '' @ quoted name @ dash @ ''this server hosts '' @ listed visible))
           | None \<Rightarrow> Inl (storage (''no registry named '' @ quoted name @ dash @ ''this server hosts '' @ listed visible)))
      | None \<Rightarrow>
          (case filter (\<lambda>slot. scope_allows sc (sl_name slot)) (map snd (ho_registries host)) of
             [only] \<Rightarrow> Inr only
           | [] \<Rightarrow> Inl (storage (''this server hosts no registries'' @ dash @ ''create one with '' @
               quoted (''borg-server create <name> --data-dir '' @ ho_data_dir host)))
           | _ \<Rightarrow> Inl (storage (''this server hosts '' @ listed visible @ dash @
               ''name one in the handshake, because there is no obvious default with more than one''))))"

definition route :: "string option \<Rightarrow> 'r host \<Rightarrow> string + 'r slot" where
  "route named = route_within named ScAll"

text \<open>A slot that has changed, in its place.\<close>

definition put_slot :: "'r slot \<Rightarrow> 'r host \<Rightarrow> 'r host" where
  "put_slot slot host =
     host\<lparr>ho_registries := map (\<lambda>(name, s). (name, if name = sl_name slot then slot else s)) (ho_registries host)\<rparr>"

section \<open>Making registries\<close>

definition host_prepare :: "string \<Rightarrow> 'r host \<Rightarrow> string + string" where
  "host_prepare name host =
     (case check_name name of
        Inl err \<Rightarrow> Inl err
      | Inr _ \<Rightarrow>
          if name \<in> set (map fst (ho_registries host))
          then Inl (storage (''a registry named '' @ quoted name @ '' already exists''))
          else Inr (path_join (ho_data_dir host) name))"

definition host_adopt ::
  "(string \<Rightarrow> string option) \<Rightarrow> u32 \<Rightarrow> string \<Rightarrow> 'r slot \<Rightarrow> 'r host \<Rightarrow> (string + 'r slot) \<times> 'r host" where
  "host_adopt disk pid name made host =
     (if ho_serving host then
        (case claim_store disk pid (sl_store made) (ho_socket host) name (ho_claims host) of
           (Inl err, _) \<Rightarrow> (Inl err, host)
         | (Inr _, claims) \<Rightarrow>
             (Inr made, host\<lparr>ho_registries := bt_insert name made (ho_registries host), ho_claims := claims\<rparr>))
      else (Inr made, host\<lparr>ho_registries := bt_insert name made (ho_registries host)\<rparr>))"

definition host_create ::
  "(string \<Rightarrow> string option) \<Rightarrow> u32 \<Rightarrow> (string \<Rightarrow> string + 'r) \<Rightarrow> string \<Rightarrow> 'r host \<Rightarrow> (string + 'r slot) \<times> 'r host" where
  "host_create disk pid init name host =
     (case host_prepare name host of
        Inl err \<Rightarrow> (Inl err, host)
      | Inr dir \<Rightarrow>
          (case init (path_join dir STORE_FILE) of
             Inl err \<Rightarrow> (Inl err, host)
           | Inr r \<Rightarrow> host_adopt disk pid name (slot_new name dir r) host))"

record import_report =
  im_layers :: u64
  im_events :: u64
  im_branches :: u64
  im_head :: string
  im_written_by :: string

text \<open>\<open>import\<close> reads the stream at a path into a store, and gives the registry and a report.\<close>

definition host_restore ::
  "(string \<Rightarrow> string option) \<Rightarrow> u32 \<Rightarrow> (string \<Rightarrow> string \<Rightarrow> string + 'r \<times> import_report) \<Rightarrow> string \<Rightarrow> string \<Rightarrow> 'r host \<Rightarrow>
     (string + import_report) \<times> 'r host" where
  "host_restore disk pid import name stream host =
     (case host_prepare name host of
        Inl err \<Rightarrow> (Inl err, host)
      | Inr dir \<Rightarrow>
          (case import stream (path_join dir STORE_FILE) of
             Inl err \<Rightarrow> (Inl err, host)
           | Inr (r, report) \<Rightarrow>
               (case host_adopt disk pid name (slot_new name dir r) host of
                  (Inl err, host) \<Rightarrow> (Inl err, host)
                | (Inr _, host) \<Rightarrow> (Inr report, host))))"

section \<open>Claiming and releasing\<close>

fun claim_slots ::
  "(string \<Rightarrow> bool) \<Rightarrow> (string \<Rightarrow> string option) \<Rightarrow> u32 \<Rightarrow> string \<Rightarrow> 'r slot list \<Rightarrow> claims \<Rightarrow> (string + unit) \<times> claims" where
  "claim_slots listening disk pid socket [] claims = (Inr (), claims)"
| "claim_slots listening disk pid socket (slot # slots) claims =
     (case refuse_if_served listening (sl_store slot) claims of
        (Inl err, claims) \<Rightarrow> (Inl err, claims)
      | (Inr _, claims) \<Rightarrow>
          (case claim_store disk pid (sl_store slot) socket (sl_name slot) claims of
             (Inl err, claims) \<Rightarrow> (Inl err, claims)
           | (Inr _, claims) \<Rightarrow> claim_slots listening disk pid socket slots claims))"

definition claim_all :: "(string \<Rightarrow> bool) \<Rightarrow> (string \<Rightarrow> string option) \<Rightarrow> u32 \<Rightarrow> 'r host \<Rightarrow> (string + unit) \<times> 'r host" where
  "claim_all listening disk pid host =
     (case claim_slots listening disk pid (ho_socket host) (host_slots host) (ho_claims host) of
        (Inl err, claims) \<Rightarrow> (Inl err, host\<lparr>ho_claims := claims\<rparr>)
      | (Inr _, claims) \<Rightarrow> (Inr (), host\<lparr>ho_claims := claims, ho_serving := True\<rparr>))"

definition release_all :: "'r host \<Rightarrow> 'r host" where
  "release_all host =
     host\<lparr>ho_serving := False, ho_claims := fold (\<lambda>slot. release_store (sl_store slot)) (host_slots host) (ho_claims host)\<rparr>"

end
