(* ===== verification/Sidecars.thy ===== *)
theory Sidecars
  imports Branch_Merge Derivation_State Host
begin

text \<open>
  The tables beside a store (\<^verbatim>\<open>borg-host/src/sidecar.rs\<close> and the parts of \<^verbatim>\<open>ops.rs\<close> that define them):
  where producers live, the open and ended transactions, the counter of ids, the pause flags and the
  poisonings; with the durations and names that the commands write. A file is its text, where there is one
  that can be read; the JSON reader and writer are parameters.
\<close>

section \<open>Errors\<close>

text \<open>\<^verbatim>\<open>BorgError\<close> where the host formats the texts of \<^verbatim>\<open>Storage\<close> and \<^verbatim>\<open>Execution\<close> itself.\<close>

datatype host_error = HStorage string | HExecution string | HBorg borg_error

type_synonym 'a host_result = "host_error + 'a"

definition from_engine :: "'a result \<Rightarrow> 'a host_result" where
  "from_engine r = (case r of Inl err \<Rightarrow> Inl (HBorg err) | Inr x \<Rightarrow> Inr x)"

lemma from_engine_simps [simp]:
  "from_engine (Inl err) = Inl (HBorg err)" "from_engine (Inr x) = Inr x"
  by (simp_all add: from_engine_def)

definition show_id :: "char \<Rightarrow> u64 \<Rightarrow> string" where
  "show_id prefix n = prefix # show_nat (unat n)"

section \<open>Reading and writing (sidecar.rs)\<close>

definition sidecar_load :: "(string \<Rightarrow> 's option) \<Rightarrow> 's \<Rightarrow> string option \<Rightarrow> 's" where
  "sidecar_load parse fresh raw =
     (case raw of None \<Rightarrow> fresh | Some text \<Rightarrow> (case parse text of None \<Rightarrow> fresh | Some s \<Rightarrow> s))"

text \<open>A producer's id is written as text; the number of older files is still read.\<close>

datatype written = WrittenText string | WrittenNumber u64

definition write_producer_id :: "u64 \<Rightarrow> written" where
  "write_producer_id p = WrittenText (show_nat (unat p))"

definition read_producer_id :: "written \<Rightarrow> u64 option" where
  "read_producer_id w = (case w of WrittenText text \<Rightarrow> parse_u64 text | WrittenNumber n \<Rightarrow> Some n)"

section \<open>Implementations\<close>

datatype worker_transport = Stdio | Socket

record implementation =
  im_id :: producer_id
  im_name :: string
  im_source :: string
  im_command :: string
  im_transport :: worker_transport

text \<open>\<open>canonical\<close> is what the file system makes of a path, where it makes anything of it.\<close>

definition remember ::
  "(string \<Rightarrow> string option) \<Rightarrow> producer_id \<Rightarrow> string \<Rightarrow> string \<Rightarrow> string \<Rightarrow> worker_transport \<Rightarrow>
   implementation list \<Rightarrow> implementation list" where
  "remember canonical p name source command transport impls =
     filter (\<lambda>i. im_id i \<noteq> p) impls
     @ [\<lparr>im_id = p, im_name = name, im_source = source,
         im_command = (case canonical command of None \<Rightarrow> command | Some path \<Rightarrow> path),
         im_transport = transport\<rparr>]"

definition producer_name :: "implementation list \<Rightarrow> producer_id \<Rightarrow> string" where
  "producer_name impls p =
     (case find (\<lambda>i. im_id i = p) impls of None \<Rightarrow> show_id CHR ''P'' p | Some i \<Rightarrow> im_name i)"

section \<open>Names of the schema\<close>

definition type_named :: "string \<Rightarrow> value_type" where
  "type_named name =
     (if name = ''Int'' then TInt else if name = ''Bool'' then TBool else if name = ''Double'' then TDouble
      else if name = ''String'' then TString else if name = ''Binary'' then TBinary
      else if name = ''BigInt'' then TBigInt else if name = ''Any'' then TAny
      else TObject name)"

definition ownership_of :: "producer_id option \<Rightarrow> ownership" where
  "ownership_of owner = (case owner of Some p \<Rightarrow> OwnDerived p | None \<Rightarrow> OwnSource)"

definition freshness_named :: "string \<Rightarrow> freshness_requirement option" where
  "freshness_named mode =
     (if mode = ''any'' then Some AnyFreshness else if mode = ''validated'' then Some Validated
      else if mode = ''current'' then Some CurrentRequired else None)"

definition state_name :: "freshness \<Rightarrow> string" where
  "state_name state =
     (case state of Current \<Rightarrow> ''current'' | Unvalidated \<Rightarrow> ''unvalidated'' | Stale \<Rightarrow> ''stale''
      | Broken \<Rightarrow> ''broken'' | Tombstoned \<Rightarrow> ''tombstoned'')"

definition origin_name :: "origin \<Rightarrow> string" where
  "origin_name origin = (case origin of OSource \<Rightarrow> ''source'' | ODerived \<Rightarrow> ''derived'')"

section \<open>Durations\<close>

text \<open>The product is the machine's, which wraps where overflow is not checked.\<close>

definition duration :: "string \<Rightarrow> u64 option" where
  "duration text =
     (case rev text of
        [] \<Rightarrow> None
      | c # front \<Rightarrow>
          (let (digits, scale) =
             (if c = CHR ''s'' then (rev front, 1)
              else if c = CHR ''m'' then (rev front, 60)
              else if c = CHR ''h'' then (rev front, 60 * 60)
              else if c = CHR ''d'' then (rev front, 24 * 60 * 60)
              else (text, 1))
           in map_option (\<lambda>n. n * scale) (parse_u64 digits)))"

definition is_multiple :: "u64 \<Rightarrow> u64 \<Rightarrow> bool" where
  "is_multiple seconds scale \<longleftrightarrow> scale \<le> seconds \<and> seconds mod scale = 0"

definition render_duration :: "u64 \<Rightarrow> string" where
  "render_duration seconds =
     (case find (\<lambda>(scale, _). is_multiple seconds scale) [(86400, CHR ''d''), (3600, CHR ''h''), (60, CHR ''m'')] of
        Some (scale, suffix) \<Rightarrow> show_nat (unat (seconds div scale)) @ [suffix]
      | None \<Rightarrow> show_nat (unat seconds) @ ''s'')"

definition spell_duration :: "u64 \<Rightarrow> string" where
  "spell_duration seconds =
     (let (n, unit) =
        (case find (\<lambda>(scale, _). is_multiple seconds scale) [(86400, ''day''), (3600, ''hour''), (60, ''minute'')] of
           None \<Rightarrow> (seconds, ''second'')
         | Some (scale, unit) \<Rightarrow> (seconds div scale, unit))
      in show_nat (unat n) @ '' '' @ unit @ (if n = 1 then [] else ''s''))"

section \<open>Transactions\<close>

definition DEFAULT_TX_IDLE_TIMEOUT :: u64 where "DEFAULT_TX_IDLE_TIMEOUT = 24 * 60 * 60"

definition REMEMBERED_TRANSACTIONS :: nat where "REMEMBERED_TRANSACTIONS = 64"

record open_tx =
  ot_id :: string
  ot_touched :: u64
  ot_state :: transaction

record spent_tx =
  sp_id :: string
  sp_fate :: string

record transactions =
  ts_timeout :: u64
  ts_next :: u64
  ts_open :: "open_tx list"
  ts_spent :: "spent_tx list"

definition transactions_default :: transactions where
  "transactions_default = \<lparr>ts_timeout = DEFAULT_TX_IDLE_TIMEOUT, ts_next = 1, ts_open = [], ts_spent = []\<rparr>"

definition retire :: "string \<Rightarrow> string \<Rightarrow> transactions \<Rightarrow> transactions" where
  "retire tx fate table =
     (let spent = ts_spent table @ [\<lparr>sp_id = tx, sp_fate = fate\<rparr>]
      in table\<lparr>ts_spent := drop (length spent - REMEMBERED_TRANSACTIONS) spent\<rparr>)"

fun position :: "('a \<Rightarrow> bool) \<Rightarrow> 'a list \<Rightarrow> nat option" where
  "position P [] = None"
| "position P (x # xs) = (if P x then Some 0 else map_option Suc (position P xs))"

definition transaction_index :: "transactions \<Rightarrow> string \<Rightarrow> nat host_result" where
  "transaction_index table tx =
     (case position (\<lambda>o'. ot_id o' = tx) (ts_open table) of
        Some i \<Rightarrow> Inr i
      | None \<Rightarrow>
          (case find (\<lambda>s. sp_id s = tx) (ts_spent table) of
             Some spent \<Rightarrow> Inl (HStorage (''transaction '' @ tx @ '' '' @ sp_fate spent))
           | None \<Rightarrow> Inl (HStorage (''unknown transaction '' @ tx))))"

definition remove_at :: "nat \<Rightarrow> 'a list \<Rightarrow> 'a list" where
  "remove_at i xs = take i xs @ drop (Suc i) xs"

section \<open>The counter of ids, the pause flags and the poisonings\<close>

definition allocations_default :: u64 where "allocations_default = 1"

definition set_paused :: "branch_id \<Rightarrow> bool \<Rightarrow> branch_id list \<Rightarrow> branch_id list" where
  "set_paused b pause paused = filter (\<lambda>c. c \<noteq> b) paused @ (if pause then [b] else [])"

record broken_producer =
  bp_branch :: branch_id
  bp_producer :: producer_id
  bp_version :: layer_id
  bp_error :: string
  bp_since :: layer_id

section \<open>Round trips\<close>

lemma producer_id_written: "read_producer_id (write_producer_id p) = Some p"
  by (simp add: read_producer_id_def write_producer_id_def)

end
