(* ===== verification/Push.thy ===== *)
theory Push
  imports Sidecars Def_Registry
begin

text \<open>
  \<^verbatim>\<open>borg-host/src/push.rs\<close>: a repository's whole schema, compared with the definitions in force. The
  machine is a parameter: what its files hold, what a path resolves to, what a script describes. Paths are
  texts. A loop that mutates the push's locals takes and returns them as a record.
\<close>

section \<open>What a script describes (borg-protocol/src/lib.rs)\<close>

record producer_spec =
  pr_name :: string
  pr_source :: string
  pr_fingerprint :: "string option"

record migration_spec =
  ms_name :: string
  ms_fingerprint :: "string option"

record field_spec =
  fs_name :: string
  fs_ty :: string
  fs_derived_by :: "string option"
  fs_up :: "string option"
  fs_down :: "string option"

record struct_spec =
  ss_name :: string
  ss_fields :: "field_spec list"

record description =
  ds_structs :: "struct_spec list"
  ds_producers :: "producer_spec list"
  ds_transport :: worker_transport
  ds_repo :: "repo_id option"
  ds_migrations :: "migration_spec list"

text \<open>FNV-1a over the name's bytes.\<close>

definition producer_hash :: "string \<Rightarrow> producer_id" where
  "producer_hash name =
     fold (\<lambda>c h. (h XOR of_char c) * 0x100000001b3) name 0xcbf29ce484222325 OR push_bit 32 1"

text \<open>\<open>run\<close> is the script's process asked to describe itself: the error of starting it, or whether it
  succeeded with its two outputs. \<open>parse\<close> is the JSON reader.\<close>

definition describe_command ::
  "(string \<Rightarrow> string + (bool \<times> string \<times> string)) \<Rightarrow> (string \<Rightarrow> string + description) \<Rightarrow> string \<Rightarrow>
   description host_result" where
  "describe_command run parse command =
     (case run command of
        Inl err \<Rightarrow> Inl (HExecution (command @ '': '' @ err))
      | Inr (success, out, err) \<Rightarrow>
          if \<not> success then Inl (HExecution (command @ '' describe failed: '' @ trim err))
          else (case parse out of
                  Inl err \<Rightarrow> Inl (HExecution (command @ '' describe emitted unusable JSON: '' @ err))
                | Inr d \<Rightarrow> Inr d))"

section \<open>Reading the repository\<close>

text \<open>\<^verbatim>\<open>str::lines\<close>: without the line ends, and without what follows the last one when it is empty.\<close>

fun lines :: "string \<Rightarrow> string list" where
  "lines s =
     (if s = [] then []
      else let line = takeWhile (\<lambda>c. c \<noteq> CHR 0x0A) s;
               body = (if line \<noteq> [] \<and> last line = CHR 0x0D \<and> line \<noteq> s then butlast line else line)
           in body # lines (drop (Suc (length line)) s))"

declare lines.simps [simp del]

definition parse_u32 :: "string \<Rightarrow> u32 option" where
  "parse_u32 s =
     (let ds = (case s of c # t \<Rightarrow> if c = CHR ''+'' then t else s | [] \<Rightarrow> s)
      in if ds \<noteq> [] \<and> list_all is_digit ds \<and> digits_val ds < 2 ^ 32
         then Some (of_nat (digits_val ds)) else None)"

fun repo_id_in :: "string list \<Rightarrow> repo_id option" where
  "repo_id_in [] = None"
| "repo_id_in (line # rest) =
     (case split_once CHR ''='' line of
        None \<Rightarrow> repo_id_in rest
      | Some (k, v) \<Rightarrow>
          if trim k = ''id'' then (case parse_u32 (trim v) of Some n \<Rightarrow> Some n | None \<Rightarrow> repo_id_in rest)
          else repo_id_in rest)"

definition read_repo_id :: "string \<Rightarrow> string + string \<Rightarrow> repo_id host_result" where
  "read_repo_id dir content =
     (let manifest = path_join dir ''borg.toml'' in
      case content of
        Inl err \<Rightarrow> Inl (HStorage (manifest @ '': '' @ err))
      | Inr raw \<Rightarrow>
          (case repo_id_in (lines raw) of
             Some repo \<Rightarrow> Inr repo
           | None \<Rightarrow> Inl (HStorage (manifest @ '': no '' @ quoted ''id'' @ '' under [repo]''))))"

text \<open>An entry of \<^verbatim>\<open>pipelines\<close> is its name and whether it is a file, unless reading it failed.\<close>

definition scripts_of :: "string \<Rightarrow> string + (string \<times> bool) option list \<Rightarrow> string list host_result" where
  "scripts_of dir listing =
     (let pipelines = path_join dir ''pipelines'' in
      case listing of
        Inl err \<Rightarrow> Inl (HStorage (pipelines @ '': '' @ err))
      | Inr entries \<Rightarrow>
          Inr (map (path_join pipelines)
            (sort (map fst (filter snd (map the (filter (\<lambda>e. e \<noteq> None) entries)))))))"

type_synonym described = "(string \<times> description) list"

fun describe_all ::
  "(string \<Rightarrow> description host_result) \<Rightarrow> string \<Rightarrow> repo_id \<Rightarrow> string list \<Rightarrow> described host_result" where
  "describe_all describe dir repo [] = Inr []"
| "describe_all describe dir repo (command # commands) =
     (case describe command of
        Inl err \<Rightarrow> Inl err
      | Inr d \<Rightarrow>
          (case ds_repo d of
             Some claimed \<Rightarrow>
               if claimed \<noteq> repo
               then Inl (HStorage (command @ '' describes itself as repo '' @ show_nat (unat claimed) @ '', but ''
                      @ dir @ ''/borg.toml says '' @ show_nat (unat repo)))
               else (case describe_all describe dir repo commands of
                       Inl err \<Rightarrow> Inl err | Inr rest \<Rightarrow> Inr ((command, d) # rest))
           | None \<Rightarrow>
               (case describe_all describe dir repo commands of
                  Inl err \<Rightarrow> Inl err | Inr rest \<Rightarrow> Inr ((command, d) # rest))))"

section \<open>One producer\<close>

datatype producer_diff = NewProducer | UnchangedProducer | ImplementationMoved bool | DefinitionMoved

definition producer_change :: "producer_def option \<Rightarrow> producer_def \<Rightarrow> producer_diff" where
  "producer_change existing new =
     (case existing of
        None \<Rightarrow> NewProducer
      | Some old \<Rightarrow>
          if pd_kind old \<noteq> pd_kind new \<or> pd_source old \<noteq> pd_source new \<or>
             pd_declaring_repo old \<noteq> pd_declaring_repo new
          then DefinitionMoved
          else (case (pd_fingerprint old, pd_fingerprint new) of
                  (Some before, Some after) \<Rightarrow>
                    if before = after then UnchangedProducer else ImplementationMoved False
                | (None, Some _) \<Rightarrow> ImplementationMoved True
                | (_, None) \<Rightarrow> UnchangedProducer))"

text \<open>The machine that the push runs on.\<close>

record push_machine =
  mc_bytes :: "string \<Rightarrow> u8 list option"
  mc_canonical :: "string \<Rightarrow> string option"
  mc_hash :: "u8 list \<Rightarrow> u8 list"

text \<open>The locals of \<^verbatim>\<open>repo_push\<close>.\<close>

record push_state =
  ps_impls :: "implementation list"
  ps_events :: "def_event list"
  ps_report :: "string list"
  ps_recomputing :: nat
  ps_first_seen :: nat
  ps_unchanged :: nat
  ps_fallbacks :: "(string, string option) hmap"

definition push_state_new :: "implementation list \<Rightarrow> push_state" where
  "push_state_new impls =
     \<lparr>ps_impls = impls, ps_events = [], ps_report = [], ps_recomputing = 0, ps_first_seen = 0, ps_unchanged = 0,
      ps_fallbacks = []\<rparr>"

definition fingerprint_of ::
  "push_machine \<Rightarrow> string option \<Rightarrow> string \<Rightarrow> (string, string option) hmap \<Rightarrow>
   string option \<times> (string, string option) hmap" where
  "fingerprint_of mc supplied command cache =
     (case supplied of
        Some f \<Rightarrow> (Some f, cache)
      | None \<Rightarrow>
          (case hm_get cache command of
             Some f \<Rightarrow> (f, cache)
           | None \<Rightarrow>
               (let f = map_option (fingerprint (mc_hash mc)) (mc_bytes mc command)
                in (f, hm_insert command f cache))))"

definition land_producer :: "producer_diff \<Rightarrow> producer_def \<Rightarrow> string \<Rightarrow> push_state \<Rightarrow> push_state" where
  "land_producer change d name st =
     (let arrow = name @ '' -> '' @ show_id CHR ''P'' (pd_id d) in
      case change of
        UnchangedProducer \<Rightarrow> st\<lparr>ps_unchanged := ps_unchanged st + 1\<rparr>
      | NewProducer \<Rightarrow>
          st\<lparr>ps_report := ps_report st @ [arrow], ps_events := ps_events st @ [PushProducer d]\<rparr>
      | DefinitionMoved \<Rightarrow>
          st\<lparr>ps_report := ps_report st @ [arrow @ '' (definition changed)''],
             ps_recomputing := ps_recomputing st + 1, ps_events := ps_events st @ [PushProducer d]\<rparr>
      | ImplementationMoved False \<Rightarrow>
          st\<lparr>ps_report := ps_report st @ [arrow @ '' (implementation changed)''],
             ps_recomputing := ps_recomputing st + 1, ps_events := ps_events st @ [PushProducer d]\<rparr>
      | ImplementationMoved True \<Rightarrow>
          st\<lparr>ps_report := ps_report st @ [arrow @ '' (implementation changed, first fingerprint)''],
             ps_first_seen := ps_first_seen st + 1, ps_events := ps_events st @ [PushProducer d]\<rparr>)"

text \<open>Landing a definition and remembering where its code is, which every push does.\<close>

definition claim_producer ::
  "push_machine \<Rightarrow> def_view \<Rightarrow> producer_kind \<Rightarrow> buffer_id \<Rightarrow> repo_id \<Rightarrow> string \<Rightarrow> string \<Rightarrow> string option \<Rightarrow> string \<Rightarrow>
   worker_transport \<Rightarrow> push_state \<Rightarrow> push_state" where
  "claim_producer mc v kind source repo name struct_name supplied command transport st =
     (let p = producer_hash name;
          (f, cache) = fingerprint_of mc supplied command (ps_fallbacks st);
          d = \<lparr>pd_id = p, pd_kind = kind, pd_source = source, pd_version = 0, pd_declaring_repo = repo,
               pd_fingerprint = f\<rparr>;
          st = land_producer (producer_change (view_producer v p) d) d name (st\<lparr>ps_fallbacks := cache\<rparr>)
      in st\<lparr>ps_impls := remember (mc_canonical mc) p name struct_name command transport (ps_impls st)\<rparr>)"

definition push_producer ::
  "push_machine \<Rightarrow> def_view \<Rightarrow> repo_id \<Rightarrow> string \<Rightarrow> worker_transport \<Rightarrow> producer_spec \<Rightarrow> push_state \<Rightarrow> push_state" where
  "push_producer mc v repo command transport spec =
     claim_producer mc v PKPipeline (BObject (pr_source spec)) repo (pr_name spec) (pr_source spec)
       (pr_fingerprint spec) command transport"

definition push_producers :: "push_machine \<Rightarrow> def_view \<Rightarrow> repo_id \<Rightarrow> described \<Rightarrow> push_state \<Rightarrow> push_state" where
  "push_producers mc v repo described =
     fold (\<lambda>(command, d). fold (push_producer mc v repo command (ds_transport d)) (ds_producers d)) described"

section \<open>One field\<close>

definition known_names :: "described \<Rightarrow> string list" where
  "known_names described =
     concat (map (\<lambda>(_, d). map pr_name (ds_producers d) @ map ms_name (ds_migrations d)) described)"

definition resolve_owner :: "string list \<Rightarrow> string \<Rightarrow> string \<Rightarrow> producer_id host_result" where
  "resolve_owner known owner what =
     (if owner \<in> set known then Inr (producer_hash owner)
      else Inl (HStorage (what @ '' names '' @ quoted owner @ '', which this repo does not implement (it implements: ''
             @ join_names known @ '')'')))"

text \<open>The script that describes a migration, with the migration's own fingerprint.\<close>

fun migration_named :: "string \<Rightarrow> described \<Rightarrow> (string \<times> worker_transport \<times> string option) option" where
  "migration_named name [] = None"
| "migration_named name ((command, d) # rest) =
     (case find (\<lambda>m. ms_name m = name) (ds_migrations d) of
        Some spec \<Rightarrow> Some (command, ds_transport d, ms_fingerprint spec)
      | None \<Rightarrow> migration_named name rest)"

text \<open>A name that \<open>resolve_owner\<close> accepts may be a pipeline's; then the source panics.\<close>

definition push_migration ::
  "push_machine \<Rightarrow> def_view \<Rightarrow> repo_id \<Rightarrow> described \<Rightarrow> string \<Rightarrow> string \<Rightarrow> string \<Rightarrow> migration_direction \<Rightarrow>
   string option \<Rightarrow> push_state \<Rightarrow> (producer_id option \<times> push_state) host_result" where
  "push_migration mc v repo described s f what direction name st =
     (case name of
        None \<Rightarrow> Inr (None, st)
      | Some name \<Rightarrow>
          (case resolve_owner (known_names described) name what of
             Inl err \<Rightarrow> Inl err
           | Inr p \<Rightarrow>
               (case migration_named name described of
                  None \<Rightarrow> Inl (HBorg (RustPanic ''resolve() accepted the name, so some script described it''))
                | Some (command, transport, supplied) \<Rightarrow>
                    Inr (Some p,
                      claim_producer mc v (PKMigration direction) (BObjectProp s f) repo name s supplied command
                        transport st))))"

definition emit :: "def_event \<Rightarrow> string \<Rightarrow> push_state \<Rightarrow> push_state" where
  "emit event line st = st\<lparr>ps_events := ps_events st @ [event], ps_report := ps_report st @ [line]\<rparr>"

definition declare_field ::
  "def_view \<Rightarrow> repo_id \<Rightarrow> string list \<Rightarrow> string \<Rightarrow> field_spec \<Rightarrow> push_state \<Rightarrow> push_state host_result" where
  "declare_field v repo known s spec st =
     (let what = s @ ''.'' @ fs_name spec; ty = type_named (fs_ty spec) in
      case (case fs_derived_by spec of
              None \<Rightarrow> Inr None
            | Some name \<Rightarrow> (case resolve_owner known name what of Inl err \<Rightarrow> Inl err | Inr p \<Rightarrow> Inr (Some p))) of
        Inl err \<Rightarrow> Inl err
      | Inr owner \<Rightarrow>
          (let own = ownership_of owner in
           if (case field_at v s (fs_name spec) of
                 None \<Rightarrow> False
               | Some fd \<Rightarrow> fd_ty fd = ty \<and> fd_declaring_repo fd = repo \<and> fd_ownership fd = own)
           then Inr (st\<lparr>ps_unchanged := ps_unchanged st + 1\<rparr>)
           else Inr (emit (DeclareField s (fs_name spec) ty repo own) (what @ '' '' @ fs_ty spec) st)))"

definition mutate_field ::
  "repo_id \<Rightarrow> string \<Rightarrow> field_spec \<Rightarrow> field_def \<Rightarrow> producer_id option \<Rightarrow> producer_id option \<Rightarrow> push_state \<Rightarrow>
   push_state host_result" where
  "mutate_field repo s spec existing up down st =
     (let what = s @ ''.'' @ fs_name spec; ty = type_named (fs_ty spec) in
      case ownership_producer (fd_ownership existing) of
        Some owner \<Rightarrow> Inl (HBorg (MigrationOnDerivedField s (fs_name spec) owner))
      | None \<Rightarrow>
          (case up of
             None \<Rightarrow> Inl (HStorage (what @ '' changes from '' @ display_type (fd_ty existing) @ '' to '' @ display_type ty
                       @ '', which needs an '' @ quoted ''up'' @ '' migration to carry the existing values forward''))
           | Some up \<Rightarrow>
               Inr (emit (MutateField s (fs_name spec) ty repo up down)
                      (what @ '' '' @ display_type (fd_ty existing) @ '' -> '' @ fs_ty spec) st)))"

definition push_field ::
  "push_machine \<Rightarrow> def_view \<Rightarrow> repo_id \<Rightarrow> described \<Rightarrow> string \<Rightarrow> field_spec \<Rightarrow> push_state \<Rightarrow> push_state host_result" where
  "push_field mc v repo described s spec st =
     (let what = s @ ''.'' @ fs_name spec in
      case push_migration mc v repo described s (fs_name spec) what MUp (fs_up spec) st of
        Inl err \<Rightarrow> Inl err
      | Inr (up, st) \<Rightarrow>
          (case push_migration mc v repo described s (fs_name spec) what MDown (fs_down spec) st of
             Inl err \<Rightarrow> Inl err
           | Inr (down, st) \<Rightarrow>
               (case field_at v s (fs_name spec) of
                  Some existing \<Rightarrow>
                    if fd_ty existing \<noteq> type_named (fs_ty spec) then mutate_field repo s spec existing up down st
                    else declare_field v repo (known_names described) s spec st
                | None \<Rightarrow> declare_field v repo (known_names described) s spec st)))"

text \<open>The fields of all scripts in the order of the loops, each with its struct.\<close>

definition all_fields :: "described \<Rightarrow> (string \<times> field_spec) list" where
  "all_fields described =
     concat (map (\<lambda>(_, d). concat (map (\<lambda>s. map (Pair (ss_name s)) (ss_fields s)) (ds_structs d))) described)"

fun push_fields ::
  "push_machine \<Rightarrow> def_view \<Rightarrow> repo_id \<Rightarrow> described \<Rightarrow> (string \<times> field_spec) list \<Rightarrow> push_state \<Rightarrow>
   push_state host_result" where
  "push_fields mc v repo described [] st = Inr st"
| "push_fields mc v repo described ((s, spec) # rest) st =
     (case push_field mc v repo described s spec st of
        Inl err \<Rightarrow> Inl err
      | Inr st \<Rightarrow> push_fields mc v repo described rest st)"

section \<open>The whole push\<close>

text \<open>A migration that no implementation carries the name of.\<close>

definition orphan_migration :: "implementation list \<Rightarrow> described \<Rightarrow> migration_spec option" where
  "orphan_migration impls described =
     find (\<lambda>m. \<not> list_ex (\<lambda>i. im_name i = ms_name m) impls) (concat (map (\<lambda>(_, d). ds_migrations d) described))"

definition push_diff ::
  "push_machine \<Rightarrow> def_view \<Rightarrow> repo_id \<Rightarrow> described \<Rightarrow> implementation list \<Rightarrow> push_state host_result" where
  "push_diff mc v repo described impls =
     (case push_fields mc v repo described (all_fields described)
             (push_producers mc v repo described (push_state_new impls)) of
        Inl err \<Rightarrow> Inl err
      | Inr st \<Rightarrow>
          (case orphan_migration (ps_impls st) described of
             Some m \<Rightarrow> Inl (HStorage (quoted (ms_name m) @ '' is implemented but no field names it as its ''
                         @ quoted ''up'' @ '' or '' @ quoted ''down''))
           | None \<Rightarrow> Inr st))"

definition plural :: "nat \<Rightarrow> string \<Rightarrow> string" where
  "plural n noun = show_nat n @ '' '' @ noun @ (if n = 1 then [] else ''s'')"

definition push_report :: "push_state \<Rightarrow> string list" where
  "push_report st =
     (let report = ps_report st
            @ (if 0 < ps_recomputing st
               then [''implementation changed, recomputing '' @ plural (ps_recomputing st) ''producer''] else [])
            @ (if 0 < ps_first_seen st
               then [''implementation changed (first fingerprint), recomputing '' @ plural (ps_first_seen st) ''producer'']
               else [])
      in if report = []
         then [''unchanged: '' @ plural (ps_unchanged st) ''definition'' @ '' already in force, nothing pushed'']
         else report)"

record push =
  pu_layer :: "layer_id option"
  pu_report :: "string list"

text \<open>What a push does to the log and to the table of implementations, before the branch is caught up.\<close>

definition push_described ::
  "push_machine \<Rightarrow> repo_id \<Rightarrow> described \<Rightarrow> branch_id \<Rightarrow> manager \<times> implementation list \<Rightarrow>
   push host_result \<times> manager \<times> implementation list" where
  "push_described mc repo described b mi =
     (case lm_read_path (fst mi) b None of
        Inl err \<Rightarrow> (Inl (HBorg err), mi)
      | Inr path \<Rightarrow>
          (case view (fst mi) path of
             Inl err \<Rightarrow> (Inl (HBorg err), mi)
           | Inr v \<Rightarrow>
               (case push_diff mc v repo described (snd mi) of
                  Inl err \<Rightarrow> (Inl err, mi)
                | Inr st \<Rightarrow>
                    if ps_events st = []
                    then (Inr \<lparr>pu_layer = None, pu_report = push_report st\<rparr>, fst mi, ps_impls st)
                    else (case def_push b (ps_events st) (fst mi) of
                            (Inl err, m) \<Rightarrow> (Inl (HBorg err), m, snd mi)
                          | (Inr l, m) \<Rightarrow>
                              (Inr \<lparr>pu_layer = Some l, pu_report = push_report st\<rparr>, m, ps_impls st)))))"

end
