(* ===== verification/Sqlite_Storage.thy ===== *)
theory Sqlite_Storage
  imports Cells "HOL-Library.Product_Lexorder"
begin

text \<open>
  \<^verbatim>\<open>borg-storage-sqlite/src/lib.rs\<close>: the durable \<^verbatim>\<open>StorageProvider\<close>. A table is the map from its
  primary key to the other columns, kept in key order; a statement is a function on the tables, an
  \<^verbatim>\<open>INSERT\<close> whose key exists is an error, \<^verbatim>\<open>INSERT OR REPLACE\<close> is not. A transaction that fails
  leaves the tables as they were. Ids are stored as the \<^verbatim>\<open>i64\<close> of the same bits and compared as
  such. \<^verbatim>\<open>serde_json\<close> is the parameter \<open>json_texts\<close>: for every stored type its writer and its reader, either
  of which may fail; nothing is assumed of it here. Failures of the disk and the driver other than a
  violated key are not modelled.
\<close>

section \<open>Errors and texts\<close>

datatype sql_error =
    KeyExists
  | UnknownEventRow int
  | ReplayedElsewhere event_id layer_id layer_id
  | LayerAlreadyExists int
  | NotSealedRow layer_id
  | PredatesEvents
  | JsonError string
  | NotHashed pid_kind
  | IdOverflow

type_synonym 'a sql_result = "sql_error + 'a"

type_synonym 'a coder = "('a \<Rightarrow> string sql_result) \<times> (string \<Rightarrow> 'a sql_result)"

record json_texts =
  co_buffer :: "buffer_id coder"
  co_key :: "cell_key coder"
  co_value :: "val coder"
  co_derivation :: "derivation coder"
  co_layer :: "layer coder"
  co_branch :: "branch coder"
  co_def :: "def_event coder"

definition encode_text :: "'a coder \<Rightarrow> 'a \<Rightarrow> string sql_result" where
  "encode_text coder x = fst coder x"

definition decode_text :: "'a coder \<Rightarrow> string \<Rightarrow> 'a sql_result" where
  "decode_text coder raw = snd coder raw"

text \<open>\<open>derivation.map(..).transpose()?\<close>: no derivation is no text.\<close>

definition encode_opt :: "'a coder \<Rightarrow> 'a option \<Rightarrow> string option sql_result" where
  "encode_opt coder x =
     (case x of None \<Rightarrow> Inr None
      | Some y \<Rightarrow> (case encode_text coder y of Inl e \<Rightarrow> Inl e | Inr s \<Rightarrow> Inr (Some s)))"

definition decode_opt :: "'a coder \<Rightarrow> string option \<Rightarrow> 'a option sql_result" where
  "decode_opt coder raw =
     (case raw of None \<Rightarrow> Inr None
      | Some s \<Rightarrow> (case decode_text coder s of Inl e \<Rightarrow> Inl e | Inr y \<Rightarrow> Inr (Some y)))"

text \<open>The casts \<^verbatim>\<open>as i64\<close> and \<^verbatim>\<open>as u64\<close>.\<close>

definition as_i64 :: "u64 \<Rightarrow> int" where
  "as_i64 w = sint w"

definition as_u64 :: "int \<Rightarrow> u64" where
  "as_u64 n = word_of_int n"

definition row_open :: int where "row_open = 0"

definition row_sealed :: int where "row_sealed = 1"

definition row_committed :: int where "row_committed = 2"

definition batch :: nat where "batch = 512"

section \<open>Tables\<close>

type_synonym ('k, 'r) table = "('k, 'r) btmap"

record layer_row =
  lr_branch :: int
  lr_state :: int
  lr_meta :: "string option"

record event_row =
  er_buffer :: string
  er_key :: string
  er_version :: int
  er_value :: string
  er_origin :: int
  er_derivation :: "string option"
  er_authored :: int

text \<open>The key columns of \<^verbatim>\<open>cell_index\<close>: branch, buffer, cell key, version and landing layer.\<close>

type_synonym index_key = "int \<times> string \<times> string \<times> int \<times> int"

record tables =
  tb_layers :: "(int, layer_row) table"
  tb_branches :: "(int, string) table"
  tb_events :: "(int, event_row) table"
  tb_members :: "(int \<times> int, int) table"
  tb_index :: "(index_key, int) table"
  tb_interned :: "(int \<times> u8 list, u8 list) table"
  tb_defs :: "(int \<times> int, string) table"

definition no_rows :: tables where
  "no_rows = \<lparr>tb_layers = [], tb_branches = [], tb_events = [], tb_members = [], tb_index = [],
     tb_interned = [], tb_defs = []\<rparr>"

definition insert_row :: "'k :: linorder \<Rightarrow> 'r \<Rightarrow> ('k, 'r) table \<Rightarrow> ('k, 'r) table sql_result" where
  "insert_row k row t = (if map_of t k = None then Inr (bt_insert k row t) else Inl KeyExists)"

definition delete_rows :: "('k \<Rightarrow> 'r \<Rightarrow> bool) \<Rightarrow> ('k, 'r) table \<Rightarrow> ('k, 'r) table" where
  "delete_rows doomed t = filter (\<lambda>(k, r). \<not> doomed k r) t"

text \<open>\<^verbatim>\<open>ORDER BY .. DESC LIMIT 1\<close>, and the row that \<^verbatim>\<open>MAX\<close> picks.\<close>

definition top_row :: "('r \<Rightarrow> int) \<Rightarrow> 'r list \<Rightarrow> 'r option" where
  "top_row column rows = (case rev (sort_key column rows) of [] \<Rightarrow> None | r # _ \<Rightarrow> Some r)"

definition to_event :: "json_texts \<Rightarrow> int \<Rightarrow> event_row \<Rightarrow> event sql_result" where
  "to_event c n row =
     (case decode_text (co_buffer c) (er_buffer row) of Inl e \<Rightarrow> Inl e | Inr buffer \<Rightarrow>
     (case decode_text (co_key c) (er_key row) of Inl e \<Rightarrow> Inl e | Inr key \<Rightarrow>
     (case decode_text (co_value c) (er_value row) of Inl e \<Rightarrow> Inl e | Inr v \<Rightarrow>
     (case decode_opt (co_derivation c) (er_derivation row) of Inl e \<Rightarrow> Inl e | Inr by \<Rightarrow>
        Inr \<lparr>ev_id = as_u64 n, ev_cell = CellRef buffer key, ev_value = v,
             ev_version = DefVersion (as_u64 (er_version row)),
             ev_origin = (if er_origin row = 0 then OSource else ODerived),
             ev_derivation = by, ev_authored = as_u64 (er_authored row)\<rparr>))))"

section \<open>The store and its open layers\<close>

text \<open>A membership row that waits to be flushed; its event where the layer authors it.\<close>

record pending_row =
  pd_seq :: int
  pd_event :: int
  pd_authored :: "(string \<times> string \<times> int \<times> string \<times> int \<times> string option) option"

record sqlite =
  sq_tables :: tables
  sq_next_event :: u64

text \<open>
  \<open>legacy\<close> is whether the file has a table \<^verbatim>\<open>cells\<close>. The counter is the highest id plus one, a panic
  where that overflows.
\<close>

definition from_connection :: "bool \<Rightarrow> tables \<Rightarrow> sqlite sql_result" where
  "from_connection legacy t =
     (if legacy then Inl PredatesEvents
      else let highest = (case map fst (tb_events t) of [] \<Rightarrow> 0 | n # ns \<Rightarrow> fold max ns n) in
        if as_u64 highest = - 1 then Inl IdOverflow
        else Inr \<lparr>sq_tables = t, sq_next_event = as_u64 highest + 1\<rparr>)"

record sq_layer =
  ol_id :: layer_id
  ol_branch :: branch_id
  ol_defs :: nat
  ol_seq :: nat
  ol_pending :: "pending_row list"

section \<open>Flushing\<close>

definition insert_authored :: "int \<Rightarrow> pending_row \<Rightarrow> tables \<Rightarrow> tables sql_result" where
  "insert_authored layer row t =
     (case pd_authored row of
        None \<Rightarrow> Inr t
      | Some (buffer, key, version, v, source, derivation) \<Rightarrow>
          (case insert_row (pd_event row)
                  \<lparr>er_buffer = buffer, er_key = key, er_version = version, er_value = v,
                   er_origin = source, er_derivation = derivation, er_authored = layer\<rparr> (tb_events t) of
             Inl e \<Rightarrow> Inl e
           | Inr events \<Rightarrow> Inr (t\<lparr>tb_events := events\<rparr>)))"

text \<open>The index row comes from the event, so a layer cannot index what it did not land.\<close>

definition index_row :: "int \<Rightarrow> int \<Rightarrow> int \<Rightarrow> event_row \<Rightarrow> tables \<Rightarrow> tables" where
  "index_row branch layer n row t =
     t\<lparr>tb_index := bt_insert (branch, er_buffer row, er_key row, er_version row, layer) n (tb_index t)\<rparr>"

definition flush_row :: "int \<Rightarrow> int \<Rightarrow> pending_row \<Rightarrow> tables \<Rightarrow> tables sql_result" where
  "flush_row branch layer row t =
     (case insert_authored layer row t of Inl e \<Rightarrow> Inl e | Inr t \<Rightarrow>
     (case insert_row (layer, pd_seq row) (pd_event row) (tb_members t) of Inl e \<Rightarrow> Inl e | Inr members \<Rightarrow>
     (case map_of (tb_events t) (pd_event row) of
        None \<Rightarrow> Inl (UnknownEventRow (pd_event row))
      | Some event \<Rightarrow> Inr (index_row branch layer (pd_event row) event (t\<lparr>tb_members := members\<rparr>)))))"

fun flush_rows :: "int \<Rightarrow> int \<Rightarrow> pending_row list \<Rightarrow> tables \<Rightarrow> tables sql_result" where
  "flush_rows branch layer [] t = Inr t"
| "flush_rows branch layer (row # rows) t =
     (case flush_row branch layer row t of Inl e \<Rightarrow> Inl e | Inr t \<Rightarrow> flush_rows branch layer rows t)"

text \<open>The buffer is taken before the transaction runs; a failed transaction keeps no row of it.\<close>

definition flush :: "sq_layer \<Rightarrow> sqlite \<Rightarrow> unit sql_result \<times> sq_layer \<times> sqlite" where
  "flush h s =
     (let h' = h\<lparr>ol_pending := []\<rparr> in
      case flush_rows (as_i64 (ol_branch h)) (as_i64 (ol_id h)) (ol_pending h) (sq_tables s) of
        Inl e \<Rightarrow> (Inl e, h', s)
      | Inr t \<Rightarrow> (Inr (), h', s\<lparr>sq_tables := t\<rparr>))"

section \<open>Writing into an open layer\<close>

definition columns ::
  "json_texts \<Rightarrow> cell_ref \<Rightarrow> def_version \<Rightarrow> val \<Rightarrow> origin \<Rightarrow> derivation option \<Rightarrow>
   (string \<times> string \<times> int \<times> string \<times> int \<times> string option) sql_result" where
  "columns c cell version v source derivation =
     (case encode_text (co_buffer c) (cr_buffer cell) of Inl e \<Rightarrow> Inl e | Inr buffer \<Rightarrow>
     (case encode_text (co_key c) (cr_key cell) of Inl e \<Rightarrow> Inl e | Inr key \<Rightarrow>
     (case encode_text (co_value c) v of Inl e \<Rightarrow> Inl e | Inr v \<Rightarrow>
     (case encode_opt (co_derivation c) derivation of Inl e \<Rightarrow> Inl e | Inr derivation \<Rightarrow>
        Inr (buffer, key, as_i64 (dv_layer version), v, (if source = ODerived then 1 else 0), derivation)))))"

definition push_row ::
  "int \<Rightarrow> (string \<times> string \<times> int \<times> string \<times> int \<times> string option) option \<Rightarrow>
   sq_layer \<Rightarrow> sqlite \<Rightarrow> unit sql_result \<times> sq_layer \<times> sqlite" where
  "push_row n authored h s =
     (let h = h\<lparr>ol_pending := ol_pending h @ [\<lparr>pd_seq = int (ol_seq h), pd_event = n, pd_authored = authored\<rparr>],
                ol_seq := Suc (ol_seq h)\<rparr>
      in if batch \<le> length (ol_pending h) then flush h s else (Inr (), h, s))"

text \<open>\<^verbatim>\<open>fetch_add\<close> wraps. The id is taken before the texts are written.\<close>

definition sq_author_event ::
  "json_texts \<Rightarrow> cell_ref \<Rightarrow> event_draft \<Rightarrow> sq_layer \<Rightarrow> sqlite \<Rightarrow> event_id sql_result \<times> sq_layer \<times> sqlite" where
  "sq_author_event c cell draft h s =
     (let n = sq_next_event s; s = s\<lparr>sq_next_event := n + 1\<rparr> in
      case columns c cell (ed_version draft) (ed_value draft) (ed_origin draft) (ed_derivation draft) of
        Inl e \<Rightarrow> (Inl e, h, s)
      | Inr cols \<Rightarrow>
          (case push_row (as_i64 n) (Some cols) h s of
             (Inl e, h, s) \<Rightarrow> (Inl e, h, s)
           | (Inr _, h, s) \<Rightarrow> (Inr n, h, s)))"

definition sq_adopt_event ::
  "json_texts \<Rightarrow> event \<Rightarrow> sq_layer \<Rightarrow> sqlite \<Rightarrow> unit sql_result \<times> sq_layer \<times> sqlite" where
  "sq_adopt_event c event h s =
     (if ev_authored event \<noteq> ol_id h
      then (Inl (ReplayedElsewhere (ev_id event) (ev_authored event) (ol_id h)), h, s)
      else if ev_id event = - 1 then (Inl IdOverflow, h, s)
      else let s = s\<lparr>sq_next_event := max (sq_next_event s) (ev_id event + 1)\<rparr> in
        case columns c (ev_cell event) (ev_version event) (ev_value event) (ev_origin event)
               (ev_derivation event) of
          Inl e \<Rightarrow> (Inl e, h, s)
        | Inr cols \<Rightarrow> push_row (as_i64 (ev_id event)) (Some cols) h s)"

definition sq_include_event :: "event_id \<Rightarrow> sq_layer \<Rightarrow> sqlite \<Rightarrow> unit sql_result \<times> sq_layer \<times> sqlite" where
  "sq_include_event n h s = push_row (as_i64 n) None h s"

definition sq_put_def ::
  "json_texts \<Rightarrow> def_event \<Rightarrow> sq_layer \<Rightarrow> sqlite \<Rightarrow> unit sql_result \<times> sq_layer \<times> sqlite" where
  "sq_put_def c event h s =
     (case encode_text (co_def c) event of
        Inl e \<Rightarrow> (Inl e, h, s)
      | Inr raw \<Rightarrow>
          (case insert_row (as_i64 (ol_id h), int (ol_defs h)) raw (tb_defs (sq_tables s)) of
             Inl e \<Rightarrow> (Inl e, h, s)
           | Inr defs \<Rightarrow> (Inr (), h\<lparr>ol_defs := Suc (ol_defs h)\<rparr>,
               s\<lparr>sq_tables := (sq_tables s)\<lparr>tb_defs := defs\<rparr>\<rparr>)))"

text \<open>\<^verbatim>\<open>UPDATE layers SET state = ?1 WHERE id = ?2 AND state = ?3\<close>: the tables and the rows updated.\<close>

definition update_state :: "int \<Rightarrow> layer_id \<Rightarrow> int \<Rightarrow> tables \<Rightarrow> nat \<times> tables" where
  "update_state new l old t =
     (case map_of (tb_layers t) (as_i64 l) of
        None \<Rightarrow> (0, t)
      | Some row \<Rightarrow>
          if lr_state row = old
          then (1, t\<lparr>tb_layers := bt_insert (as_i64 l) (row\<lparr>lr_state := new\<rparr>) (tb_layers t)\<rparr>)
          else (0, t))"

definition sq_seal :: "sq_layer \<Rightarrow> sqlite \<Rightarrow> layer_id sql_result \<times> sqlite" where
  "sq_seal h s =
     (case flush h s of
        (Inl e, _, s) \<Rightarrow> (Inl e, s)
      | (Inr _, _, s) \<Rightarrow>
          (Inr (ol_id h), s\<lparr>sq_tables := snd (update_state row_sealed (ol_id h) row_open (sq_tables s))\<rparr>))"

text \<open>Events authored here go; events only named here stay.\<close>

definition sq_abort :: "sq_layer \<Rightarrow> sqlite \<Rightarrow> unit sql_result \<times> sqlite" where
  "sq_abort h s =
     (let l = as_i64 (ol_id h); t = sq_tables s in
      (Inr (), s\<lparr>sq_tables := t\<lparr>
         tb_index := delete_rows (\<lambda>(_, _, _, _, landed) _. landed = l) (tb_index t),
         tb_members := delete_rows (\<lambda>(layer, _) _. layer = l) (tb_members t),
         tb_events := delete_rows (\<lambda>_ row. er_authored row = l) (tb_events t),
         tb_defs := delete_rows (\<lambda>(layer, _) _. layer = l) (tb_defs t),
         tb_layers := delete_rows (\<lambda>n _. n = l) (tb_layers t)\<rparr>\<rparr>))"

section \<open>Reading\<close>

definition layer_committed :: "tables \<Rightarrow> int \<Rightarrow> bool" where
  "layer_committed t l =
     (case map_of (tb_layers t) l of None \<Rightarrow> False | Some row \<Rightarrow> lr_state row = row_committed)"

text \<open>
  \<^verbatim>\<open>cell_index i JOIN events e ON i.event = e.id\<close>, with the conditions on \<^verbatim>\<open>i\<close> as a predicate: the index
  key, the event's id and its row.
\<close>

definition join_events ::
  "tables \<Rightarrow> (index_key \<Rightarrow> bool) \<Rightarrow> (index_key \<times> int \<times> event_row) list" where
  "join_events t keep =
     concat (map (\<lambda>(key, n). case map_of (tb_events t) n of None \<Rightarrow> [] | Some row \<Rightarrow> [(key, n, row)])
       (filter (\<lambda>(key, _). keep key) (tb_index t)))"

definition key_landed :: "index_key \<Rightarrow> int" where
  "key_landed key = (case key of (_, _, _, _, landed) \<Rightarrow> landed)"

text \<open>The row of one segment that \<^verbatim>\<open>ORDER BY i.landed DESC LIMIT 1\<close> leaves.\<close>

definition seek ::
  "tables \<Rightarrow> string \<Rightarrow> string \<Rightarrow> int \<Rightarrow> branch_id \<times> layer_id \<Rightarrow> (index_key \<times> int \<times> event_row) option" where
  "seek t buffer key version seg =
     top_row (\<lambda>(k, _, _). key_landed k)
       (join_events t (\<lambda>(b, bf, ck, v, landed).
          b = as_i64 (fst seg) \<and> bf = buffer \<and> ck = key \<and> v = version \<and>
          layer_committed t landed \<and> landed \<le> as_i64 (snd seg)))"

fun get_cell_walk ::
  "json_texts \<Rightarrow> tables \<Rightarrow> read_path \<Rightarrow> string \<Rightarrow> string \<Rightarrow> int \<Rightarrow> landed option sql_result" where
  "get_cell_walk c t [] buffer key version = Inr None"
| "get_cell_walk c t (seg # segs) buffer key version =
     (case seek t buffer key version seg of
        None \<Rightarrow> get_cell_walk c t segs buffer key version
      | Some (k, n, row) \<Rightarrow>
          (case to_event c n row of
             Inl e \<Rightarrow> Inl e
           | Inr event \<Rightarrow> Inr (Some \<lparr>ld_event = event, ld_at = as_u64 (key_landed k)\<rparr>)))"

definition sq_get_cell ::
  "json_texts \<Rightarrow> sqlite \<Rightarrow> read_path \<Rightarrow> cell_ref \<Rightarrow> def_version \<Rightarrow> landed option sql_result" where
  "sq_get_cell c s path cell version =
     (case encode_text (co_buffer c) (cr_buffer cell) of Inl e \<Rightarrow> Inl e | Inr buffer \<Rightarrow>
     (case encode_text (co_key c) (cr_key cell) of Inl e \<Rightarrow> Inl e | Inr key \<Rightarrow>
        get_cell_walk c (sq_tables s) path buffer key (as_i64 (dv_layer version))))"

text \<open>\<^verbatim>\<open>SELECT DISTINCT i.version\<close> over one segment.\<close>

definition versions_at :: "tables \<Rightarrow> string \<Rightarrow> string \<Rightarrow> branch_id \<times> layer_id \<Rightarrow> int list" where
  "versions_at t buffer key seg =
     remdups (concat (map (\<lambda>((b, bf, ck, v, landed), _).
       if b = as_i64 (fst seg) \<and> bf = buffer \<and> ck = key \<and> layer_committed t landed \<and> landed \<le> as_i64 (snd seg)
       then [v] else []) (tb_index t)))"

definition sq_cell_versions ::
  "json_texts \<Rightarrow> sqlite \<Rightarrow> read_path \<Rightarrow> cell_ref \<Rightarrow> def_version list sql_result" where
  "sq_cell_versions c s path cell =
     (case encode_text (co_buffer c) (cr_buffer cell) of Inl e \<Rightarrow> Inl e | Inr buffer \<Rightarrow>
     (case encode_text (co_key c) (cr_key cell) of Inl e \<Rightarrow> Inl e | Inr key \<Rightarrow>
        Inr (fold (\<lambda>seg versions.
               fold (\<lambda>v versions. if DefVersion (as_u64 v) \<in> set versions then versions else versions @ [DefVersion (as_u64 v)])
                 (versions_at (sq_tables s) buffer key seg) versions) path [])))"

text \<open>\<^verbatim>\<open>GROUP BY i.cell_key, i.version\<close>: of every group the row that \<^verbatim>\<open>MAX(i.landed)\<close> picks.\<close>

definition scan_groups :: "tables \<Rightarrow> string \<Rightarrow> branch_id \<times> layer_id \<Rightarrow> (int \<times> event_row) list" where
  "scan_groups t buffer seg =
     (let rows = join_events t (\<lambda>(b, bf, _, _, landed).
            b = as_i64 (fst seg) \<and> bf = buffer \<and> layer_committed t landed \<and> landed \<le> as_i64 (snd seg));
          group = (\<lambda>((_, _, key, version, _), _, _). (key, version))
      in concat (map (\<lambda>g. case top_row (\<lambda>(k, _, _). key_landed k) (filter (\<lambda>r. group r = g) rows) of
                           None \<Rightarrow> [] | Some (_, n, row) \<Rightarrow> [(n, row)])
           (remdups (map group rows))))"

fun decode_rows :: "json_texts \<Rightarrow> (int \<times> event_row) list \<Rightarrow> event list sql_result" where
  "decode_rows c [] = Inr []"
| "decode_rows c ((n, row) # rows) =
     (case to_event c n row of Inl e \<Rightarrow> Inl e | Inr event \<Rightarrow>
     (case decode_rows c rows of Inl e \<Rightarrow> Inl e | Inr events \<Rightarrow> Inr (event # events)))"

text \<open>An inner segment's record shadows the outer ones' by the text of its key.\<close>

fun scan_walk ::
  "json_texts \<Rightarrow> tables \<Rightarrow> string \<Rightarrow> read_path \<Rightarrow> string set \<Rightarrow> event list sql_result" where
  "scan_walk c t buffer [] seen = Inr []"
| "scan_walk c t buffer (seg # segs) seen =
     (let found = filter (\<lambda>(_, row). er_key row \<notin> seen) (scan_groups t buffer seg) in
      case decode_rows c found of Inl e \<Rightarrow> Inl e | Inr events \<Rightarrow>
     (case scan_walk c t buffer segs (seen \<union> set (map (\<lambda>(_, row). er_key row) found)) of
        Inl e \<Rightarrow> Inl e | Inr rest \<Rightarrow> Inr (events @ rest)))"

definition sq_scan_buffer ::
  "json_texts \<Rightarrow> sqlite \<Rightarrow> read_path \<Rightarrow> buffer_id \<Rightarrow> event list sql_result" where
  "sq_scan_buffer c s path buffer =
     (case encode_text (co_buffer c) buffer of
        Inl e \<Rightarrow> Inl e
      | Inr text \<Rightarrow> scan_walk c (sq_tables s) text path {})"

text \<open>The rows of one layer in the order of \<^verbatim>\<open>seq\<close>, which is the table's.\<close>

definition layer_rows :: "int \<Rightarrow> (int \<times> int, 'r) table \<Rightarrow> 'r list" where
  "layer_rows l t = map snd (filter (\<lambda>((layer, _), _). layer = l) t)"

definition sq_read_membership :: "sqlite \<Rightarrow> layer_id \<Rightarrow> event_id list" where
  "sq_read_membership s l = map as_u64 (layer_rows (as_i64 l) (tb_members (sq_tables s)))"

definition sq_read_layer :: "json_texts \<Rightarrow> sqlite \<Rightarrow> layer_id \<Rightarrow> event list sql_result" where
  "sq_read_layer c s l =
     decode_rows c (concat (map (\<lambda>n. case map_of (tb_events (sq_tables s)) n of
                                   None \<Rightarrow> [] | Some row \<Rightarrow> [(n, row)])
                     (layer_rows (as_i64 l) (tb_members (sq_tables s)))))"

text \<open>\<^verbatim>\<open>ON CONFLICT(id) DO UPDATE SET meta\<close>: an existing row keeps its branch and its state.\<close>

definition sq_put_layer_meta :: "json_texts \<Rightarrow> layer \<Rightarrow> sqlite \<Rightarrow> unit sql_result \<times> sqlite" where
  "sq_put_layer_meta c layer s =
     (case encode_text (co_layer c) layer of
        Inl e \<Rightarrow> (Inl e, s)
      | Inr meta \<Rightarrow>
          (let t = sq_tables s; l = as_i64 (ly_id layer);
               row = (case map_of (tb_layers t) l of
                        None \<Rightarrow> \<lparr>lr_branch = as_i64 (ly_branch layer), lr_state = row_open, lr_meta = Some meta\<rparr>
                      | Some row \<Rightarrow> row\<lparr>lr_meta := Some meta\<rparr>)
           in (Inr (), s\<lparr>sq_tables := t\<lparr>tb_layers := bt_insert l row (tb_layers t)\<rparr>\<rparr>)))"

definition state_of_row :: "int \<Rightarrow> layer_state" where
  "state_of_row n = (if n = row_committed then LCommitted else if n = row_sealed then LSealed else LOpen)"

fun decode_layers :: "json_texts \<Rightarrow> (int, layer_row) table \<Rightarrow> layer list sql_result" where
  "decode_layers c [] = Inr []"
| "decode_layers c ((n, row) # rows) =
     (case lr_meta row of
        None \<Rightarrow> decode_layers c rows
      | Some meta \<Rightarrow>
          (case decode_text (co_layer c) meta of Inl e \<Rightarrow> Inl e | Inr layer \<Rightarrow>
          (case decode_layers c rows of Inl e \<Rightarrow> Inl e | Inr layers \<Rightarrow>
             Inr (layer\<lparr>ly_state := state_of_row (lr_state row)\<rparr> # layers))))"

definition sq_read_layers :: "json_texts \<Rightarrow> sqlite \<Rightarrow> layer list sql_result" where
  "sq_read_layers c s = decode_layers c (tb_layers (sq_tables s))"

definition sq_put_branch :: "json_texts \<Rightarrow> branch \<Rightarrow> sqlite \<Rightarrow> unit sql_result \<times> sqlite" where
  "sq_put_branch c b s =
     (case encode_text (co_branch c) b of
        Inl e \<Rightarrow> (Inl e, s)
      | Inr raw \<Rightarrow> (Inr (), s\<lparr>sq_tables := (sq_tables s)\<lparr>tb_branches :=
            bt_insert (as_i64 (br_id b)) raw (tb_branches (sq_tables s))\<rparr>\<rparr>))"

fun decode_all :: "'a coder \<Rightarrow> string list \<Rightarrow> 'a list sql_result" where
  "decode_all coder [] = Inr []"
| "decode_all coder (raw # raws) =
     (case decode_text coder raw of Inl e \<Rightarrow> Inl e | Inr x \<Rightarrow>
     (case decode_all coder raws of Inl e \<Rightarrow> Inl e | Inr xs \<Rightarrow> Inr (x # xs)))"

definition sq_read_branches :: "json_texts \<Rightarrow> sqlite \<Rightarrow> branch list sql_result" where
  "sq_read_branches c s = decode_all (co_branch c) (map snd (tb_branches (sq_tables s)))"

definition sq_read_def_layer :: "json_texts \<Rightarrow> sqlite \<Rightarrow> layer_id \<Rightarrow> def_event list sql_result" where
  "sq_read_def_layer c s l = decode_all (co_def c) (layer_rows (as_i64 l) (tb_defs (sq_tables s)))"

section \<open>Opening, committing, interning, rebuilding\<close>

definition sq_open_layer :: "branch_id \<Rightarrow> layer_id \<Rightarrow> sqlite \<Rightarrow> sq_layer sql_result \<times> sqlite" where
  "sq_open_layer b l s =
     (case insert_row (as_i64 l) \<lparr>lr_branch = as_i64 b, lr_state = row_open, lr_meta = None\<rparr>
             (tb_layers (sq_tables s)) of
        Inl _ \<Rightarrow> (Inl (LayerAlreadyExists (as_i64 l)), s)
      | Inr layers \<Rightarrow>
          (Inr \<lparr>ol_id = l, ol_branch = b, ol_defs = 0, ol_seq = 0, ol_pending = []\<rparr>,
           s\<lparr>sq_tables := (sq_tables s)\<lparr>tb_layers := layers\<rparr>\<rparr>))"

definition sq_commit_layer :: "layer_id \<Rightarrow> sqlite \<Rightarrow> unit sql_result \<times> sqlite" where
  "sq_commit_layer l s =
     (case update_state row_committed l row_sealed (sq_tables s) of
        (updated, t) \<Rightarrow> if updated = 0 then (Inl (NotSealedRow l), s) else (Inr (), s\<lparr>sq_tables := t\<rparr>))"

definition hash_result :: "content_error + 'a \<Rightarrow> 'a sql_result" where
  "hash_result r = (case r of Inl (NotContentAddressed k) \<Rightarrow> Inl (NotHashed k) | Inr x \<Rightarrow> Inr x)"

text \<open>\<^verbatim>\<open>INSERT OR IGNORE\<close>: an interned value is never rewritten.\<close>

definition sq_intern ::
  "(u8 list \<Rightarrow> u8 list) \<Rightarrow> pid_kind \<Rightarrow> u8 list \<Rightarrow> sqlite \<Rightarrow> pid sql_result \<times> sqlite" where
  "sq_intern hash kind bytes s =
     (case hash_result (content_pid hash kind bytes) of Inl e \<Rightarrow> (Inl e, s) | Inr p \<Rightarrow>
     (case hash_result (hash_of p) of Inl e \<Rightarrow> (Inl e, s) | Inr h \<Rightarrow>
        (Inr p,
         (case insert_row (int (kind_code kind), h) bytes (tb_interned (sq_tables s)) of
            Inl _ \<Rightarrow> s
          | Inr interned \<Rightarrow> s\<lparr>sq_tables := (sq_tables s)\<lparr>tb_interned := interned\<rparr>\<rparr>))))"

definition sq_read_interned :: "sqlite \<Rightarrow> pid \<Rightarrow> u8 list option sql_result" where
  "sq_read_interned s p =
     (case hash_result (hash_of p) of
        Inl e \<Rightarrow> Inl e
      | Inr h \<Rightarrow> Inr (map_of (tb_interned (sq_tables s)) (int (kind_code (pid_kind_of p)), h)))"

text \<open>One statement: the membership rows in key order, each joined to its event and its layer.\<close>

definition index_member :: "tables \<Rightarrow> (int \<times> int) \<times> int \<Rightarrow> (index_key, int) table \<Rightarrow> (index_key, int) table" where
  "index_member t m index =
     (case m of ((l, _), n) \<Rightarrow>
       (case (map_of (tb_events t) n, map_of (tb_layers t) l) of
          (Some row, Some layer) \<Rightarrow>
            bt_insert (lr_branch layer, er_buffer row, er_key row, er_version row, l) n index
        | _ \<Rightarrow> index))"

definition sq_rebuild_read_index :: "sqlite \<Rightarrow> unit sql_result \<times> sqlite" where
  "sq_rebuild_read_index s =
     (let t = sq_tables s in
      (Inr (), s\<lparr>sq_tables := t\<lparr>tb_index := fold (index_member t) (tb_members t) []\<rparr>\<rparr>))"

end
