(* ===== verification/Export_Stream.thy ===== *)
theory Export_Stream
  imports Sidecars Sqlite_Storage Keys
begin

text \<open>
  \<^verbatim>\<open>borg-host/src/stream.rs\<close>: a registry written out as a stream of records, one JSON line each, and read
  back into a fresh store. The JSON writer and reader of a record are parameters, as is the binary's
  version. Cells and PIDs are their canonical texts. The rows of a producer, a poisoning and a branch have
  the fields of what they are made from, and are that here. What an error formats is carried by its
  constructor; failures of the disk are not modelled.
\<close>

section \<open>Records\<close>

definition STREAM_VERSION :: u32 where "STREAM_VERSION = 1"

datatype author_row = AuthorSource | AuthorDerived producer_id layer_id

datatype origin_row = OriginSource | OriginDerived

datatype kind_row = KindValue | KindDef

record guard_row =
  gr_cells :: "string list"
  gr_since :: layer_id

record layer_line =
  ll_id :: layer_id
  ll_branch :: branch_id
  ll_kind :: kind_row
  ll_author :: author_row
  ll_parent :: "layer_id option"
  ll_guards :: "guard_row list"

record content_row =
  cn_pid :: string
  cn_text :: "string option"
  cn_hex :: "string option"

datatype value_row = IntRow u64 | BoolRow bool | DoubleRow u64 | RefRow string | TombstoneRow

record read_row =
  rr_cell :: string
  rr_version :: layer_id

record derivation_row =
  dr_producer :: producer_id
  dr_fresh_as_of :: layer_id
  dr_read_set :: "read_row list"

record event_line =
  el_id :: event_id
  el_cell :: string
  el_value :: value_row
  el_version :: layer_id
  el_origin :: origin_row
  el_derivation :: "derivation_row option"

datatype stream_record =
    RecHeader u32 string
  | RecAllocations u64
  | RecTxTimeout u64
  | RecProducer implementation
  | RecPoison broken_producer
  | RecPaused branch_id
  | RecBranch branch
  | RecLayer layer_line
  | RecContent content_row
  | RecDef def_event
  | RecEvent event_line
  | RecMember event_id

datatype stream_error =
    FromStore sql_error
  | CannotEncode string
  | NoCellText cell_ref
  | CellUnreadable parse_error
  | CellChanged cell_ref string cell_ref
  | NotJsonDouble u64
  | NotUtf8
  | BadLine nat string string
  | Expected nat string
  | NotPidLine nat string pid_error
  | NotCellLine nat string parse_error
  | NotHexLine nat
  | CorruptContent nat pid pid
  | MixedBlock nat layer_id layer_kind
  | EmptyStream
  | WrongVersion u32
  | AlreadyHolds

type_synonym 'a stream_result = "stream_error + 'a"

definition from_store :: "'a sql_result \<Rightarrow> 'a stream_result" where
  "from_store r = (case r of Inl err \<Rightarrow> Inl (FromStore err) | Inr x \<Rightarrow> Inr x)"

text \<open>\<^verbatim>\<open>collect::<Result<_>>\<close>: the first error, or all the values.\<close>

fun collect_results :: "('a \<Rightarrow> 'e + 'b) \<Rightarrow> 'a list \<Rightarrow> 'e + 'b list" where
  "collect_results f [] = Inr []"
| "collect_results f (x # xs) =
     (case f x of Inl err \<Rightarrow> Inl err
      | Inr y \<Rightarrow> (case collect_results f xs of Inl err \<Rightarrow> Inl err | Inr ys \<Rightarrow> Inr (y # ys)))"

section \<open>What an export writes for cells, values and events\<close>

definition cell_address :: "cell_ref \<Rightarrow> string stream_result" where
  "cell_address cell =
     (case display_cell cell of
        None \<Rightarrow> Inl (NoCellText cell)
      | Some text \<Rightarrow>
          (case parse_cell_ref text 0 0 of
             Inl err \<Rightarrow> Inl (CellUnreadable err)
           | Inr back \<Rightarrow> if back \<noteq> cell then Inl (CellChanged cell text back) else Inr text))"

definition is_finite_double :: "u64 \<Rightarrow> bool" where
  "is_finite_double d \<longleftrightarrow> drop_bit 52 d AND 0x7FF \<noteq> 0x7FF"

definition row_of_value :: "val \<Rightarrow> value_row stream_result" where
  "row_of_value v =
     (case v of
        VInt n \<Rightarrow> Inr (IntRow n)
      | VBool b \<Rightarrow> Inr (BoolRow b)
      | VDouble d \<Rightarrow> if \<not> is_finite_double d then Inl (NotJsonDouble d) else Inr (DoubleRow d)
      | VRef p \<Rightarrow> Inr (RefRow (pid_text p))
      | VTombstone \<Rightarrow> Inr TombstoneRow)"

definition row_of_read :: "cell_at \<Rightarrow> read_row stream_result" where
  "row_of_read read =
     (case cell_address (ca_cell read) of
        Inl err \<Rightarrow> Inl err
      | Inr text \<Rightarrow> Inr \<lparr>rr_cell = text, rr_version = dv_layer (ca_version read)\<rparr>)"

definition row_of_derivation :: "derivation option \<Rightarrow> derivation_row option stream_result" where
  "row_of_derivation by =
     (case by of
        None \<Rightarrow> Inr None
      | Some by \<Rightarrow>
          (case collect_results row_of_read (dn_read_set by) of
             Inl err \<Rightarrow> Inl err
           | Inr rows \<Rightarrow> Inr (Some \<lparr>dr_producer = dn_producer by, dr_fresh_as_of = dn_fresh_as_of by, dr_read_set = rows\<rparr>)))"

definition row_of_event :: "event \<Rightarrow> event_line stream_result" where
  "row_of_event event =
     (case cell_address (ev_cell event) of Inl err \<Rightarrow> Inl err | Inr text \<Rightarrow>
     (case row_of_value (ev_value event) of Inl err \<Rightarrow> Inl err | Inr v \<Rightarrow>
     (case row_of_derivation (ev_derivation event) of Inl err \<Rightarrow> Inl err | Inr by \<Rightarrow>
        Inr \<lparr>el_id = ev_id event, el_cell = text, el_value = v, el_version = dv_layer (ev_version event),
             el_origin = (case ev_origin event of OSource \<Rightarrow> OriginSource | ODerived \<Rightarrow> OriginDerived),
             el_derivation = by\<rparr>)))"

definition row_of_guard :: "guard \<Rightarrow> guard_row stream_result" where
  "row_of_guard guard =
     (case collect_results cell_address (gd_cells guard) of
        Inl err \<Rightarrow> Inl err
      | Inr texts \<Rightarrow> Inr \<lparr>gr_cells = texts, gr_since = gd_since guard\<rparr>)"

definition row_of_layer :: "layer \<Rightarrow> layer_line stream_result" where
  "row_of_layer layer =
     (case collect_results row_of_guard (ly_guards layer) of
        Inl err \<Rightarrow> Inl err
      | Inr guards \<Rightarrow>
          Inr \<lparr>ll_id = ly_id layer, ll_branch = ly_branch layer,
               ll_kind = (case ly_kind layer of LKValue \<Rightarrow> KindValue | LKDef \<Rightarrow> KindDef),
               ll_author = (case ly_author layer of ASource \<Rightarrow> AuthorSource | ADerived p r \<Rightarrow> AuthorDerived p r),
               ll_parent = ly_parent layer, ll_guards = guards\<rparr>)"

definition content_pid_in :: "val \<Rightarrow> pid option" where
  "content_pid_in v =
     (case v of VRef p \<Rightarrow> if is_content_addressed (pid_kind_of p) then Some p else None | _ \<Rightarrow> None)"

definition text_of_bytes :: "u8 list \<Rightarrow> string" where
  "text_of_bytes bytes = map (\<lambda>b. char_of (unat b)) bytes"

definition row_of_content :: "pid \<Rightarrow> u8 list \<Rightarrow> content_row" where
  "row_of_content p bytes =
     (if valid_utf8 (text_of_bytes bytes)
      then \<lparr>cn_pid = pid_text p, cn_text = Some (text_of_bytes bytes), cn_hex = None\<rparr>
      else \<lparr>cn_pid = pid_text p, cn_text = None, cn_hex = Some (concat (map hex_byte bytes))\<rparr>)"

section \<open>Export\<close>

text \<open>The files beside the store.\<close>

record sidecars =
  sd_next :: u64
  sd_tx_timeout :: u64
  sd_impls :: "implementation list"
  sd_broken :: "broken_producer list"
  sd_paused :: "branch_id list"

record exported =
  ex_layers :: nat
  ex_events :: nat
  ex_interned :: nat
  ex_head :: layer_id
  ex_settled :: layer_id

text \<open>The records of a value layer's membership; \<open>seen\<close> are the contents emitted in this layer.\<close>

fun export_members ::
  "sqlite \<Rightarrow> layer_id \<Rightarrow> event list \<Rightarrow> pid set \<Rightarrow> (stream_record list \<times> nat \<times> nat) stream_result" where
  "export_members s l [] seen = Inr ([], 0, 0)"
| "export_members s l (event # rows) seen =
     (if ev_authored event \<noteq> l
      then (case export_members s l rows seen of Inl err \<Rightarrow> Inl err
            | Inr (out, events, interned) \<Rightarrow> Inr (RecMember (ev_id event) # out, events, interned))
      else
        (case (case content_pid_in (ev_value event) of
                 Some p \<Rightarrow>
                   if p \<in> seen then Inr ([], seen)
                   else (case from_store (sq_read_interned s p) of
                           Inl err \<Rightarrow> Inl err
                         | Inr None \<Rightarrow> Inr ([], insert p seen)
                         | Inr (Some bytes) \<Rightarrow> Inr ([RecContent (row_of_content p bytes)], insert p seen))
               | None \<Rightarrow> Inr ([], seen)) of
           Inl err \<Rightarrow> Inl err
         | Inr (content, seen) \<Rightarrow>
             (case row_of_event event of
                Inl err \<Rightarrow> Inl err
              | Inr row \<Rightarrow>
                  (case export_members s l rows seen of
                     Inl err \<Rightarrow> Inl err
                   | Inr (out, events, interned) \<Rightarrow>
                       Inr (content @ RecEvent row # out, Suc events, length content + interned)))))"

definition export_layer ::
  "json_texts \<Rightarrow> sqlite \<Rightarrow> layer \<Rightarrow> (stream_record list \<times> nat \<times> nat) stream_result" where
  "export_layer c s layer =
     (case row_of_layer layer of
        Inl err \<Rightarrow> Inl err
      | Inr row \<Rightarrow>
          if ly_kind layer = LKDef
          then (case from_store (sq_read_def_layer c s (ly_id layer)) of
                  Inl err \<Rightarrow> Inl err
                | Inr defs \<Rightarrow> Inr (RecLayer row # map RecDef defs, 0, 0))
          else (case from_store (sq_read_layer c s (ly_id layer)) of
                  Inl err \<Rightarrow> Inl err
                | Inr rows \<Rightarrow>
                    (case export_members s (ly_id layer) rows {} of
                       Inl err \<Rightarrow> Inl err
                     | Inr (out, events, interned) \<Rightarrow> Inr (RecLayer row # out, events, interned))))"

definition sidecar_records :: "string \<Rightarrow> sidecars \<Rightarrow> stream_record list" where
  "sidecar_records binary sd =
     RecHeader STREAM_VERSION binary # RecAllocations (sd_next sd) # RecTxTimeout (sd_tx_timeout sd) #
     map RecProducer (sort_key im_id (sd_impls sd)) @
     map RecPoison (sort_key (\<lambda>row. (bp_branch row, bp_producer row)) (sd_broken sd)) @
     map RecPaused (remdups_adj (sort (sd_paused sd)))"

definition committed_layers :: "layer list \<Rightarrow> layer list" where
  "committed_layers layers = sort_key ly_id (filter (\<lambda>layer. ly_state layer = LCommitted) layers)"

text \<open>\<open>settled_at\<close> is what the registry reports as the default branch's settled settled_at, where it has one.\<close>

definition export_records ::
  "json_texts \<Rightarrow> string \<Rightarrow> layer_id option stream_result \<Rightarrow> sidecars \<Rightarrow> sqlite \<Rightarrow>
   (stream_record list \<times> exported) stream_result" where
  "export_records c binary settled_at sd s =
     (case from_store (sq_read_branches c s) of Inl err \<Rightarrow> Inl err | Inr branches \<Rightarrow>
     (case from_store (sq_read_layers c s) of Inl err \<Rightarrow> Inl err | Inr known \<Rightarrow>
       (let layers = committed_layers known in
        case collect_results (export_layer c s) layers of Inl err \<Rightarrow> Inl err | Inr blocks \<Rightarrow>
       (case settled_at of Inl err \<Rightarrow> Inl err | Inr at \<Rightarrow>
          Inr (sidecar_records binary sd @ map RecBranch (sort_key br_id branches) @ concat (map fst blocks),
               \<lparr>ex_layers = length layers, ex_events = sum_list (map (\<lambda>(_, events, _). events) blocks),
                ex_interned = sum_list (map (\<lambda>(_, _, interned). interned) blocks),
                ex_head = (case rev layers of [] \<Rightarrow> 0 | layer # _ \<Rightarrow> ly_id layer),
                ex_settled = (case at of None \<Rightarrow> 0 | Some l \<Rightarrow> l)\<rparr>)))))"

text \<open>The lines that the sink writes.\<close>

definition sink_line :: "(stream_record \<Rightarrow> string + string) \<Rightarrow> stream_record \<Rightarrow> string stream_result" where
  "sink_line enc r = (case enc r of Inl err \<Rightarrow> Inl (CannotEncode err) | Inr line \<Rightarrow> Inr (line @ [CHR 0x0A]))"

definition export_stream ::
  "(stream_record \<Rightarrow> string + string) \<Rightarrow> json_texts \<Rightarrow> string \<Rightarrow> layer_id option stream_result \<Rightarrow> sidecars \<Rightarrow>
   sqlite \<Rightarrow> (string \<times> exported) stream_result" where
  "export_stream enc c binary settled_at sd s =
     (case export_records c binary settled_at sd s of Inl err \<Rightarrow> Inl err | Inr (records, summary) \<Rightarrow>
     (case collect_results (sink_line enc) records of Inl err \<Rightarrow> Inl err | Inr out \<Rightarrow>
        Inr (concat out, summary)))"

section \<open>Reading a stream\<close>

definition read_line :: "string \<Rightarrow> string \<times> string" where
  "read_line s =
     (let line = takeWhile (\<lambda>c. c \<noteq> CHR 0x0A) s in
      if line = s then (s, []) else (line @ [CHR 0x0A], drop (Suc (length line)) s))"

definition CLIP_LIMIT :: nat where "CLIP_LIMIT = 200"

definition is_char_boundary :: "string \<Rightarrow> nat \<Rightarrow> bool" where
  "is_char_boundary s i \<longleftrightarrow> i = 0 \<or> i = length s \<or> i < length s \<and> \<not> is_tail (s ! i)"

fun boundary_below :: "string \<Rightarrow> nat \<Rightarrow> nat" where
  "boundary_below s 0 = 0"
| "boundary_below s (Suc i) = (if is_char_boundary s (Suc i) then Suc i else boundary_below s i)"

definition clip :: "string \<Rightarrow> string" where
  "clip line =
     (if length line \<le> CLIP_LIMIT then line
      else take (boundary_below line CLIP_LIMIT) line @ [CHR 0xE2, CHR 0x80, CHR 0xA6])"

lemma read_line_shorter: "s \<noteq> [] \<Longrightarrow> length (snd (read_line s)) < length s"
  by (auto simp: read_line_def Let_def)

function next_record ::
  "(string \<Rightarrow> string + stream_record) \<Rightarrow> nat \<Rightarrow> string \<Rightarrow> (stream_record \<times> nat \<times> string) option stream_result" where
  "next_record dec at s =
     (if s = [] then Inr None
      else (let (line, rest) = read_line s in
            if \<not> valid_utf8 line then Inl NotUtf8
            else if trim line = [] then next_record dec (Suc at) rest
            else (case dec line of
                    Inl err \<Rightarrow> Inl (BadLine (Suc at) err (clip (trim line)))
                  | Inr r \<Rightarrow> Inr (Some (r, Suc at, rest)))))"
  by pat_completeness auto

termination
  by (relation "measure (\<lambda>(dec, at, s). length s)") (auto dest: read_line_shorter simp: prod_eq_iff)

declare next_record.simps [simp del]

section \<open>Import\<close>

record imported =
  im_layers :: nat
  im_events :: nat
  im_branches :: nat
  im_head :: layer_id
  im_written_by :: string

record restoring =
  rs_sidecars :: sidecars
  rs_layers :: nat
  rs_events :: nat
  rs_branches :: nat
  rs_head :: layer_id

definition sidecars_default :: sidecars where
  "sidecars_default = \<lparr>sd_next = allocations_default, sd_tx_timeout = DEFAULT_TX_IDLE_TIMEOUT, sd_impls = [],
     sd_broken = [], sd_paused = []\<rparr>"

definition restoring_new :: restoring where
  "restoring_new = \<lparr>rs_sidecars = sidecars_default, rs_layers = 0, rs_events = 0, rs_branches = 0, rs_head = 0\<rparr>"

type_synonym layer_block = "layer \<times> sq_layer"

definition parsed_cell :: "nat \<Rightarrow> string \<Rightarrow> cell_ref stream_result" where
  "parsed_cell at text = (case parse_cell_ref text 0 0 of Inl err \<Rightarrow> Inl (NotCellLine at text err) | Inr cell \<Rightarrow> Inr cell)"

definition parsed_pid :: "nat \<Rightarrow> string \<Rightarrow> pid stream_result" where
  "parsed_pid at text = (case pid_from_str text of Inl err \<Rightarrow> Inl (NotPidLine at text err) | Inr p \<Rightarrow> Inr p)"

definition value_of :: "nat \<Rightarrow> value_row \<Rightarrow> val stream_result" where
  "value_of at row =
     (case row of
        IntRow n \<Rightarrow> Inr (VInt n)
      | BoolRow b \<Rightarrow> Inr (VBool b)
      | DoubleRow d \<Rightarrow> Inr (VDouble d)
      | RefRow text \<Rightarrow> (case parsed_pid at text of Inl err \<Rightarrow> Inl err | Inr p \<Rightarrow> Inr (VRef p))
      | TombstoneRow \<Rightarrow> Inr VTombstone)"

definition read_of :: "nat \<Rightarrow> read_row \<Rightarrow> cell_at stream_result" where
  "read_of at row =
     (case parsed_cell at (rr_cell row) of
        Inl err \<Rightarrow> Inl err
      | Inr cell \<Rightarrow> Inr (CellAt cell (DefVersion (rr_version row))))"

definition derivation_of :: "nat \<Rightarrow> derivation_row option \<Rightarrow> derivation option stream_result" where
  "derivation_of at row =
     (case row of
        None \<Rightarrow> Inr None
      | Some row \<Rightarrow>
          (case collect_results (read_of at) (dr_read_set row) of
             Inl err \<Rightarrow> Inl err
           | Inr reads \<Rightarrow>
               Inr (Some \<lparr>dn_producer = dr_producer row, dn_fresh_as_of = dr_fresh_as_of row, dn_read_set = reads\<rparr>)))"

definition event_of_row :: "nat \<Rightarrow> layer_id \<Rightarrow> event_line \<Rightarrow> event stream_result" where
  "event_of_row at l row =
     (case parsed_cell at (el_cell row) of Inl err \<Rightarrow> Inl err | Inr cell \<Rightarrow>
     (case value_of at (el_value row) of Inl err \<Rightarrow> Inl err | Inr v \<Rightarrow>
     (case derivation_of at (el_derivation row) of Inl err \<Rightarrow> Inl err | Inr by \<Rightarrow>
        Inr \<lparr>ev_id = el_id row, ev_cell = cell, ev_value = v, ev_version = DefVersion (el_version row),
             ev_origin = (case el_origin row of OriginSource \<Rightarrow> OSource | OriginDerived \<Rightarrow> ODerived),
             ev_derivation = by, ev_authored = l\<rparr>)))"

definition guard_of :: "nat \<Rightarrow> guard_row \<Rightarrow> guard stream_result" where
  "guard_of at row =
     (case collect_results (parsed_cell at) (gr_cells row) of
        Inl err \<Rightarrow> Inl err
      | Inr cells \<Rightarrow> Inr \<lparr>gd_cells = cells, gd_since = gr_since row\<rparr>)"

definition layer_of_row :: "nat \<Rightarrow> layer_line \<Rightarrow> layer stream_result" where
  "layer_of_row at row =
     (case collect_results (guard_of at) (ll_guards row) of
        Inl err \<Rightarrow> Inl err
      | Inr guards \<Rightarrow>
          Inr \<lparr>ly_id = ll_id row, ly_branch = ll_branch row,
               ly_kind = (case ll_kind row of KindValue \<Rightarrow> LKValue | KindDef \<Rightarrow> LKDef),
               ly_author = (case ll_author row of AuthorSource \<Rightarrow> ASource | AuthorDerived p r \<Rightarrow> ADerived p r),
               ly_state = LCommitted, ly_parent = ll_parent row, ly_guards = guards\<rparr>)"

definition open_block :: "nat \<Rightarrow> layer_line \<Rightarrow> sqlite \<Rightarrow> layer_block stream_result \<times> sqlite" where
  "open_block at row s =
     (case layer_of_row at row of
        Inl err \<Rightarrow> (Inl err, s)
      | Inr layer \<Rightarrow>
          (case sq_open_layer (ly_branch layer) (ly_id layer) s of
             (Inl err, s) \<Rightarrow> (Inl (FromStore err), s)
           | (Inr h, s) \<Rightarrow> (Inr (layer, h), s)))"

definition close_block :: "json_texts \<Rightarrow> layer_block \<Rightarrow> sqlite \<Rightarrow> unit stream_result \<times> sqlite" where
  "close_block c blk s =
     (case sq_seal (snd blk) s of
        (Inl err, s) \<Rightarrow> (Inl (FromStore err), s)
      | (Inr l, s) \<Rightarrow>
          (case sq_put_layer_meta c (fst blk) s of
             (Inl err, s) \<Rightarrow> (Inl (FromStore err), s)
           | (Inr _, s) \<Rightarrow>
               (case sq_commit_layer l s of
                  (Inl err, s) \<Rightarrow> (Inl (FromStore err), s)
                | (Inr _, s) \<Rightarrow> (Inr (), s))))"

definition close_open :: "json_texts \<Rightarrow> layer_block option \<Rightarrow> sqlite \<Rightarrow> unit stream_result \<times> sqlite" where
  "close_open c blk s = (case blk of None \<Rightarrow> (Inr (), s) | Some b \<Rightarrow> close_block c b s)"

text \<open>The open block that a record of this kind belongs to.\<close>

definition block_for :: "nat \<Rightarrow> layer_kind \<Rightarrow> layer_block option \<Rightarrow> layer_block stream_result" where
  "block_for at kind blk =
     (case blk of
        None \<Rightarrow> Inl (Expected at ''a `layer` record before anything that belongs to one'')
      | Some b \<Rightarrow>
          if ly_kind (fst b) \<noteq> kind then Inl (MixedBlock at (ly_id (fst b)) (ly_kind (fst b))) else Inr b)"

definition restore_content ::
  "(u8 list \<Rightarrow> u8 list) \<Rightarrow> nat \<Rightarrow> content_row \<Rightarrow> sqlite \<Rightarrow> unit stream_result \<times> sqlite" where
  "restore_content hash at row s =
     (case parsed_pid at (cn_pid row) of
        Inl err \<Rightarrow> (Inl err, s)
      | Inr p \<Rightarrow>
          (case (case (cn_text row, cn_hex row) of
                   (Some text, None) \<Rightarrow> Inr (bytes_of text)
                 | (None, Some text) \<Rightarrow> (case unhex text of None \<Rightarrow> Inl (NotHexLine at) | Some bytes \<Rightarrow> Inr bytes)
                 | _ \<Rightarrow> Inl (Expected at ''exactly one of `text` and `hex`'')) of
             Inl err \<Rightarrow> (Inl err, s)
           | Inr bytes \<Rightarrow>
               (case sq_intern hash (pid_kind_of p) bytes s of
                  (Inl err, s) \<Rightarrow> (Inl (FromStore err), s)
                | (Inr again, s) \<Rightarrow> if again \<noteq> p then (Inl (CorruptContent at p again), s) else (Inr (), s))))"

definition on_sidecars :: "(sidecars \<Rightarrow> sidecars) \<Rightarrow> restoring \<Rightarrow> restoring" where
  "on_sidecars f st = st\<lparr>rs_sidecars := f (rs_sidecars st)\<rparr>"

text \<open>One record of the stream after the header.\<close>

type_synonym import_state = "restoring \<times> layer_block option \<times> sqlite"

fun restore_record ::
  "json_texts \<Rightarrow> (u8 list \<Rightarrow> u8 list) \<Rightarrow> nat \<Rightarrow> stream_record \<Rightarrow> import_state \<Rightarrow> unit stream_result \<times> import_state" where
  "restore_record c hash at (RecHeader _ _) (st, blk, s) = (Inl (Expected at ''one header, on line 1''), st, blk, s)"
| "restore_record c hash at (RecAllocations n) (st, blk, s) = (Inr (), on_sidecars (sd_next_update (\<lambda>_. n)) st, blk, s)"
| "restore_record c hash at (RecTxTimeout n) (st, blk, s) = (Inr (), on_sidecars (sd_tx_timeout_update (\<lambda>_. n)) st, blk, s)"
| "restore_record c hash at (RecProducer row) (st, blk, s) =
     (Inr (), on_sidecars (sd_impls_update (\<lambda>rows. rows @ [row])) st, blk, s)"
| "restore_record c hash at (RecPoison row) (st, blk, s) =
     (Inr (), on_sidecars (sd_broken_update (\<lambda>rows. rows @ [row])) st, blk, s)"
| "restore_record c hash at (RecPaused b) (st, blk, s) =
     (Inr (), on_sidecars (sd_paused_update (\<lambda>bs. bs @ [b])) st, blk, s)"
| "restore_record c hash at (RecBranch b) (st, blk, s) =
     (case sq_put_branch c b s of
        (Inl err, s) \<Rightarrow> (Inl (FromStore err), st, blk, s)
      | (Inr _, s) \<Rightarrow> (Inr (), st\<lparr>rs_branches := Suc (rs_branches st)\<rparr>, blk, s))"
| "restore_record c hash at (RecLayer row) (st, blk, s) =
     (case close_open c blk s of
        (Inl err, s) \<Rightarrow> (Inl err, st, None, s)
      | (Inr _, s) \<Rightarrow>
          (let st = st\<lparr>rs_layers := Suc (rs_layers st), rs_head := max (rs_head st) (ll_id row)\<rparr> in
           case open_block at row s of
             (Inl err, s) \<Rightarrow> (Inl err, st, None, s)
           | (Inr b, s) \<Rightarrow> (Inr (), st, Some b, s)))"
| "restore_record c hash at (RecContent row) (st, blk, s) =
     (case restore_content hash at row s of (r, s) \<Rightarrow> (r, st, blk, s))"
| "restore_record c hash at (RecDef event) (st, blk, s) =
     (case block_for at LKDef blk of
        Inl err \<Rightarrow> (Inl err, st, blk, s)
      | Inr (layer, h) \<Rightarrow>
          (case sq_put_def c event h s of
             (Inl err, h, s) \<Rightarrow> (Inl (FromStore err), st, Some (layer, h), s)
           | (Inr _, h, s) \<Rightarrow> (Inr (), st, Some (layer, h), s)))"
| "restore_record c hash at (RecEvent row) (st, blk, s) =
     (case block_for at LKValue blk of
        Inl err \<Rightarrow> (Inl err, st, blk, s)
      | Inr (layer, h) \<Rightarrow>
          (case event_of_row at (ly_id layer) row of
             Inl err \<Rightarrow> (Inl err, st, blk, s)
           | Inr event \<Rightarrow>
               (case sq_adopt_event c event h s of
                  (Inl err, h, s) \<Rightarrow> (Inl (FromStore err), st, Some (layer, h), s)
                | (Inr _, h, s) \<Rightarrow> (Inr (), st\<lparr>rs_events := Suc (rs_events st)\<rparr>, Some (layer, h), s))))"
| "restore_record c hash at (RecMember e) (st, blk, s) =
     (case block_for at LKValue blk of
        Inl err \<Rightarrow> (Inl err, st, blk, s)
      | Inr (layer, h) \<Rightarrow>
          (case sq_include_event e h s of
             (Inl err, h, s) \<Rightarrow> (Inl (FromStore err), st, Some (layer, h), s)
           | (Inr _, h, s) \<Rightarrow> (Inr (), st, Some (layer, h), s)))"

lemma next_record_shorter:
  "next_record dec at s = Inr (Some (r, at', rest)) \<Longrightarrow> length rest < length s"
proof (induction dec at s rule: next_record.induct)
  case (1 dec at s)
  obtain line tl where rl: "read_line s = (line, tl)" by (cases "read_line s")
  have ne: "s \<noteq> []" using "1.prems" by (auto simp: next_record.simps)
  then have "length tl < length s" using read_line_shorter[of s] rl by simp
  then show ?case
    using "1.prems" "1.IH"[OF ne rl[symmetric] refl] ne rl
    by (subst (asm) next_record.simps) (auto split: if_splits sum.splits)
qed

function restore_loop ::
  "(string \<Rightarrow> string + stream_record) \<Rightarrow> json_texts \<Rightarrow> (u8 list \<Rightarrow> u8 list) \<Rightarrow> nat \<Rightarrow> string \<Rightarrow> import_state \<Rightarrow>
   unit stream_result \<times> import_state" where
  "restore_loop dec c hash at text state =
     (case next_record dec at text of
        Inl err \<Rightarrow> (Inl err, state)
      | Inr None \<Rightarrow> (Inr (), state)
      | Inr (Some (r, at, rest)) \<Rightarrow>
          (case restore_record c hash at r state of
             (Inl err, state) \<Rightarrow> (Inl err, state)
           | (Inr _, state) \<Rightarrow> restore_loop dec c hash at rest state))"
  by pat_completeness auto

termination
  by (relation "measure (\<lambda>(dec, c, hash, at, text, state). length text)") (auto dest: next_record_shorter)

declare restore_loop.simps [simp del]

text \<open>What is left of the store, the sidecars it comes with where the import saved them, and the outcome.\<close>

definition restore_into ::
  "(string \<Rightarrow> string + stream_record) \<Rightarrow> json_texts \<Rightarrow> (u8 list \<Rightarrow> u8 list) \<Rightarrow> string \<Rightarrow> sqlite \<Rightarrow>
   (imported \<times> sidecars) stream_result \<times> sqlite" where
  "restore_into dec c hash text s =
     (case from_store (sq_read_layers c s) of Inl err \<Rightarrow> (Inl err, s) | Inr layers \<Rightarrow>
     (case from_store (sq_read_branches c s) of Inl err \<Rightarrow> (Inl err, s) | Inr branches \<Rightarrow>
        if layers \<noteq> [] \<or> branches \<noteq> [] then (Inl AlreadyHolds, s)
        else
          (case next_record dec 0 text of
             Inl err \<Rightarrow> (Inl err, s)
           | Inr None \<Rightarrow> (Inl EmptyStream, s)
           | Inr (Some (RecHeader version binary, at, rest)) \<Rightarrow>
               if version \<noteq> STREAM_VERSION then (Inl (WrongVersion version), s)
               else
                 (case restore_loop dec c hash at rest (restoring_new, None, s) of
                    (Inl err, _, _, s) \<Rightarrow> (Inl err, s)
                  | (Inr _, st, blk, s) \<Rightarrow>
                      (case close_open c blk s of
                         (Inl err, s) \<Rightarrow> (Inl err, s)
                       | (Inr _, s) \<Rightarrow>
                           (Inr (\<lparr>im_layers = rs_layers st, im_events = rs_events st, im_branches = rs_branches st,
                                  im_head = rs_head st, im_written_by = binary\<rparr>, rs_sidecars st), s)))
           | Inr (Some (_, at, _)) \<Rightarrow> (Inl (Expected at ''a `header` record''), s))))"

text \<open>\<open>disk\<close> are the tables of the file where there is one. A store this call made is taken away again when it fails.\<close>

definition import_stream ::
  "(string \<Rightarrow> string + stream_record) \<Rightarrow> json_texts \<Rightarrow> (u8 list \<Rightarrow> u8 list) \<Rightarrow> string \<Rightarrow> tables option \<Rightarrow>
   (imported \<times> sidecars) stream_result \<times> tables option" where
  "import_stream dec c hash text disk =
     (case from_connection False (case disk of None \<Rightarrow> no_rows | Some t \<Rightarrow> t) of
        Inl err \<Rightarrow> (Inl (FromStore err), disk)
      | Inr s \<Rightarrow>
          (case restore_into dec c hash text s of
             (Inl err, s) \<Rightarrow> (Inl err, if disk = None then None else Some (sq_tables s))
           | (Inr done, s) \<Rightarrow> (Inr done, Some (sq_tables s))))"

end
