(* ===== verification/Serve.thy ===== *)
theory Serve
  imports Host
begin

text \<open>
  \<^verbatim>\<open>borg-server/src/serve.rs\<close> and the messages of \<^verbatim>\<open>borg-protocol/src/client.rs\<close>: one connection from hello to
  hangup, what a request is for and who answers it, and the HTTP half of a websocket listener. What one
  registry answers a request is a parameter here (\<open>ma_answer\<close>): it is given the client version the connection
  settled, the request, the registry and the files of the machine, and gives the answer and both states.
  \<open>Answer\<close> fills it in, and with it opening and creating a store (\<open>registry_machine\<close>).
\<close>

section \<open>Messages\<close>

datatype request =
    TxBegin "string option"
  | TxGet string string "string option"
  | TxSet string string string
  | TxCommit string
  | TxAbort string
  | GetCell "string option" string "string option" bool
  | Explain "string option" string
  | BranchList
  | BranchHead "string option"
  | DefShow "string option" string
  | ListObjects "string option" string
  | TxCreate string string
  | DefView "string option"
  | RepoPush "string option" "string option" "string option"
  | Export "string option" string
  | Import string string
  | Registries
  | RegistryCreate string

record envelope =
  en_cell :: string
  en_value :: "string option"
  en_origin :: string
  en_state :: string
  en_event :: "string option"
  en_authored_at :: string
  en_landed_at :: string
  en_fresh_as_of :: string
  en_by :: "string option"

record registry_info =
  ri_name :: string
  ri_open :: bool

record branch_info =
  bi_id :: string
  bi_name :: "string option"
  bi_forked_at :: "string option"

record wire_field =
  wf_name :: string
  wf_type :: string
  wf_derived_by :: "string option"
  wf_repo :: u32
  wf_version :: string

record wire_struct =
  ws_name :: string
  ws_fields :: "wire_field list"

record wire_lineage =
  wl_cell :: string
  wl_produced_by :: "string option"
  wl_authored_at :: string
  wl_landed_at :: string
  wl_fresh_as_of :: string
  wl_broken :: "string option"
  wl_from :: "(string \<times> string \<times> string) list"

datatype response =
    RTx string
  | RCell envelope
  | ROk
  | RCommitted string
  | RConflict "string option" string string
  | RBranches "branch_info list"
  | RIds "string list"
  | RCreated string
  | RHead string string
  | RDef wire_struct
  | RDefs string "wire_struct list"
  | RLineage wire_lineage
  | RPushed "string option" "string list"
  | RExported string u64 u64 u64 string string
  | RImported string import_report
  | RRegistries "registry_info list"
  | RError string

record client_hello =
  ch_version :: u32
  ch_client_version :: "string option"
  ch_codec :: string
  ch_registry :: "string option"
  ch_credential :: "string option"

record accepted =
  ac_version :: u32
  ac_server :: string
  ac_codec :: string
  ac_registry :: "string option"
  ac_auth :: string

datatype hello_ack = AckAccepted accepted | AckRefused string

definition CLIENT_VERSION :: u32 where "CLIENT_VERSION = 2"
definition CODECS :: "codec list" where "CODECS = [Json, Msgpack]"

section \<open>The machine a session runs on\<close>

text \<open>
  What a session is given: the server's own version and process id, SHA-256, the disk's answers, what
  opening, creating and importing a store do, and what a registry answers.
\<close>

record ('r, 'f) machine =
  ma_version :: string
  ma_pid :: u32
  ma_hash :: "u8 list \<Rightarrow> u8 list"
  ma_disk :: "string \<Rightarrow> string option"
  ma_hold :: "'r \<Rightarrow> string + 'r"
  ma_init :: "string \<Rightarrow> string + 'r"
  ma_import :: "'f \<Rightarrow> string \<Rightarrow> string \<Rightarrow> string + 'r \<times> import_report"
  ma_answer :: "u64 option \<Rightarrow> request \<Rightarrow> 'r \<Rightarrow> 'f \<Rightarrow> response \<times> 'r \<times> 'f"

record ('r, 'f) served =
  se_host :: "'r host"
  se_keys :: key_dir
  se_files :: 'f

section \<open>Dispatch\<close>

definition parse_layer :: "string \<Rightarrow> u64 option" where
  "parse_layer s = parse_u64 (dropWhile (\<lambda>c. c = CHR ''L'') s)"

text \<open>The registry a request names itself, where it is one that may.\<close>

definition request_registry :: "request \<Rightarrow> string option" where
  "request_registry request =
     (case request of RepoPush registry _ _ \<Rightarrow> registry | Export registry _ \<Rightarrow> registry | _ \<Rightarrow> None)"

text \<open>A request that is for one registry, which is held for the whole of it.\<close>

definition ask_registry ::
  "('r, 'f) machine \<Rightarrow> u64 option \<Rightarrow> request \<Rightarrow> string \<Rightarrow> ('r, 'f) served \<Rightarrow> response \<times> ('r, 'f) served" where
  "ask_registry ma version request name served =
     (case map_of (ho_registries (se_host served)) name of
        None \<Rightarrow> (RError [], served)
      | Some slot \<Rightarrow>
          (case slot_ops (ma_hold ma) slot of
             Inl err \<Rightarrow> (RError err, served)
           | Inr slot \<Rightarrow>
               (case ma_answer ma version request (sl_state slot) (se_files served) of
                  (response, r, files) \<Rightarrow>
                    (response, served\<lparr>se_host := put_slot (slot\<lparr>sl_state := r\<rparr>) (se_host served), se_files := files\<rparr>))))"

text \<open>\<open>target\<close> is what the handshake routed to: a registry, or why there is none.\<close>

definition dispatch ::
  "('r, 'f) machine \<Rightarrow> string + string \<Rightarrow> u64 option \<Rightarrow> scope \<Rightarrow> request \<Rightarrow> ('r, 'f) served \<Rightarrow> response \<times> ('r, 'f) served" where
  "dispatch ma target version sc request served =
     (case request of
        Registries \<Rightarrow>
          (RRegistries (map (\<lambda>(name, open). \<lparr>ri_name = name, ri_open = open\<rparr>) (hosted_within sc (se_host served))), served)
      | RegistryCreate name \<Rightarrow>
          (case permit sc name of
             Inl refusal \<Rightarrow> (RError refusal, served)
           | Inr _ \<Rightarrow>
               (case host_create (ma_disk ma) (ma_pid ma) (ma_init ma) name (se_host served) of
                  (Inl err, host) \<Rightarrow> (RError err, served\<lparr>se_host := host\<rparr>)
                | (Inr _, host) \<Rightarrow> (ROk, served\<lparr>se_host := host\<rparr>)))
      | Import name path \<Rightarrow>
          (case permit sc name of
             Inl refusal \<Rightarrow> (RError refusal, served)
           | Inr _ \<Rightarrow>
               (case host_restore (ma_disk ma) (ma_pid ma) (ma_import ma (se_files served)) name path (se_host served) of
                  (Inl err, host) \<Rightarrow> (RError err, served\<lparr>se_host := host\<rparr>)
                | (Inr report, host) \<Rightarrow> (RImported name report, served\<lparr>se_host := host\<rparr>)))
      | _ \<Rightarrow>
          (case request_registry request of
             Some name \<Rightarrow>
               (case route_within (Some name) sc (se_host served) of
                  Inl err \<Rightarrow> (RError err, served)
                | Inr slot \<Rightarrow> ask_registry ma version request (sl_name slot) served)
           | None \<Rightarrow>
               (case target of
                  Inl err \<Rightarrow> (RError err, served)
                | Inr name \<Rightarrow> ask_registry ma version request name served)))"

section \<open>A connection\<close>

text \<open>What a client says of its version, its own or none.\<close>

definition stated_version :: "client_hello \<Rightarrow> string + u64 option" where
  "stated_version hello =
     (case ch_client_version hello of
        None \<Rightarrow> Inr None
      | Some said \<Rightarrow>
          (case parse_layer said of
             Some layer \<Rightarrow> Inr (Some layer)
           | None \<Rightarrow> Inl (''client_version '' @ quoted said @ '' is not a layer id'' @ dash @ ''try L7'')))"

text \<open>The handshake up to routing: why it is refused, or the hello, its codec, its version and its access.\<close>

definition admit ::
  "(u8 list \<Rightarrow> u8 list) \<Rightarrow> key_dir \<Rightarrow> protocol_error + client_hello \<Rightarrow> string + client_hello \<times> codec \<times> u64 option \<times> access" where
  "admit hash keys received =
     (case received of
        Inl err \<Rightarrow> Inl (show_protocol_error err)
      | Inr hello \<Rightarrow>
          (case negotiate CODECS (ch_codec hello) of
             Inl err \<Rightarrow> Inl (show_protocol_error err)
           | Inr c \<Rightarrow>
               if ch_version hello \<noteq> CLIENT_VERSION then
                 Inl (''this server speaks client protocol '' @ show_nat (unat CLIENT_VERSION) @
                    '', and the client said '' @ show_nat (unat (ch_version hello)) @ dash @
                    (if ch_version hello < CLIENT_VERSION
                     then ''protocol 2 answers every hello before the first request, which protocol 1 does not wait for; upgrade the client''
                     else ''upgrade the server''))
               else
                 (case stated_version hello of
                    Inl reason \<Rightarrow> Inl reason
                  | Inr version \<Rightarrow>
                      (case authorize hash keys (ch_credential hello) of
                         Inl refusal \<Rightarrow> Inl refusal
                       | Inr access \<Rightarrow>
                           (case (case ch_registry hello of None \<Rightarrow> Inr () | Some named \<Rightarrow> permit (access_scope access) named) of
                              Inl refusal \<Rightarrow> Inl refusal
                            | Inr _ \<Rightarrow> Inr (hello, c, version, access))))))"

text \<open>What a handshake settles: the acknowledgement, and for an accepted one the target, the client
  version and the scope that every request of the connection is answered with.\<close>

definition greet_client ::
  "('r, 'f) machine \<Rightarrow> u64 option \<Rightarrow> protocol_error + client_hello \<Rightarrow> ('r, 'f) served \<Rightarrow>
     hello_ack \<times> ((string + string) \<times> u64 option \<times> scope) option" where
  "greet_client ma base received served =
     (case admit (ma_hash ma) (se_keys served) received of
        Inl reason \<Rightarrow> (AckRefused reason, None)
      | Inr (hello, c, version, access) \<Rightarrow>
          (let sc = access_scope access;
               version = (case version of Some v \<Rightarrow> Some v | None \<Rightarrow> base);
               accept = (\<lambda>settled. AckAccepted \<lparr>ac_version = CLIENT_VERSION, ac_server = ma_version ma,
                 ac_codec = codec_name c, ac_registry = settled, ac_auth = access_mode access\<rparr>) in
           case route_within (ch_registry hello) sc (se_host served) of
             Inr slot \<Rightarrow> (accept (Some (sl_name slot)), Some (Inr (sl_name slot), version, sc))
           | Inl err \<Rightarrow>
               (case ch_registry hello of
                  Some _ \<Rightarrow> (AckRefused err, None)
                | None \<Rightarrow> (accept None, Some (Inl err, version, sc)))))"

text \<open>The requests as they arrive; one that cannot be read is answered, a stream that ends is not.\<close>

fun serve_requests ::
  "('r, 'f) machine \<Rightarrow> string + string \<Rightarrow> u64 option \<Rightarrow> scope \<Rightarrow> (protocol_error + request) list \<Rightarrow> ('r, 'f) served \<Rightarrow>
     response list \<times> ('r, 'f) served" where
  "serve_requests ma target version sc [] served = ([], served)"
| "serve_requests ma target version sc (received # more_received) served =
     (case received of
        Inr request \<Rightarrow>
          (case dispatch ma target version sc request served of
             (response, served) \<Rightarrow>
               (case serve_requests ma target version sc more_received served of
                  (responses, served) \<Rightarrow> (response # responses, served)))
      | Inl PClosed \<Rightarrow> ([], served)
      | Inl (PIo _) \<Rightarrow> ([], served)
      | Inl err \<Rightarrow>
          (case serve_requests ma target version sc more_received served of
             (responses, served) \<Rightarrow> (RError (show_protocol_error err) # responses, served)))"

definition session ::
  "('r, 'f) machine \<Rightarrow> u64 option \<Rightarrow> protocol_error + client_hello \<Rightarrow> (protocol_error + request) list \<Rightarrow> ('r, 'f) served \<Rightarrow>
     hello_ack \<times> response list \<times> ('r, 'f) served" where
  "session ma base hello received served =
     (case greet_client ma base hello served of
        (ack, None) \<Rightarrow> (ack, [], served)
      | (ack, Some (target, version, sc)) \<Rightarrow> (ack, serve_requests ma target version sc received served))"

section \<open>The HTTP half of a websocket listener\<close>

text \<open>What \<open>--listen\<close> may say: the address to bind, or why not.\<close>

definition listen_authority :: "string \<Rightarrow> string + string" where
  "listen_authority said =
     (if take 5 said = ''ws://'' then
        (let authority = drop 5 said in
         case split_once (CHR ''/'') authority of
           None \<Rightarrow> Inr authority
         | Some (authority, tail) \<Rightarrow>
             if tail = [] then Inr authority
             else Inl (''a listen address is a host and a port'' @ dash @ ''a websocket's path carries nothing, '' @
               ''because the registry is named in the handshake''))
      else if take 6 said = ''wss://'' then
        Inl (''this server does not terminate TLS'' @ dash @ ''put a proxy in front of it and listen on ws://, '' @
          ''which is what the proxy forwards to'')
      else Inl (quoted said @ '' is not a listen address'' @ dash @ ''try ws://0.0.0.0:7717''))"

definition CRLF :: string where "CRLF = [CHR 0x0D, CHR 0x0A]"

definition health :: "string \<Rightarrow> 'r host \<Rightarrow> string" where
  "health version host =
     (let q = [CHR 0x22];
          body = ''{'' @ q @ ''status'' @ q @ '':'' @ q @ ''ok'' @ q @ '','' @ q @ ''server'' @ q @ '':'' @ q @ version @ q @ '','' @
            q @ ''registries'' @ q @ '':'' @ show_nat (length (host_names host)) @ ''}'' in
      ''HTTP/1.1 200 OK'' @ CRLF @ ''content-type: application/json'' @ CRLF @ ''content-length: '' @ show_nat (length body) @
      CRLF @ ''connection: close'' @ CRLF @ CRLF @ body)"

fun find_blank_line :: "string \<Rightarrow> nat option" where
  "find_blank_line [] = None"
| "find_blank_line (c # s) =
     (if take 4 (c # s) = CRLF @ CRLF then Some 0 else map_option Suc (find_blank_line s))"

text \<open>\<^verbatim>\<open>str::lines\<close>: at each newline, without a carriage return before it.\<close>

fun split_lines :: "string \<Rightarrow> string \<Rightarrow> string list" where
  "split_lines acc [] = (if acc = [] then [] else [rev acc])"
| "split_lines acc (c # s) =
     (if c = CHR 0x0A
      then rev (case acc of d # a \<Rightarrow> if d = CHR 0x0D then a else acc | [] \<Rightarrow> []) # split_lines [] s
      else split_lines (c # acc) s)"

definition eq_ignore_ascii_case :: "string \<Rightarrow> string \<Rightarrow> bool" where
  "eq_ignore_ascii_case s t \<longleftrightarrow> map to_ascii_lowercase s = map to_ascii_lowercase t"

definition is_upgrade :: "string \<Rightarrow> bool" where
  "is_upgrade head =
     list_ex (\<lambda>line.
        case split_once (CHR '':'') line of
          None \<Rightarrow> False
        | Some (name, value) \<Rightarrow>
            eq_ignore_ascii_case (trim name) ''upgrade'' \<and> eq_ignore_ascii_case (trim value) ''websocket'')
       (split_lines [] head)"

text \<open>What the port answers a head that asks for no websocket.\<close>

definition http_answer :: "string \<Rightarrow> 'r host \<Rightarrow> string \<Rightarrow> string" where
  "http_answer version host head =
     (if take 11 head = ''GET /health'' then health version host
      else ''HTTP/1.1 404 Not Found'' @ CRLF @ ''content-length: 0'' @ CRLF @ ''connection: close'' @ CRLF @ CRLF)"

end
