(* ===== verification/Ops_State.thy ===== *)
theory Ops_State
  imports Push Registry Export_Stream Serve
begin

text \<open>
  What the operations of \<^verbatim>\<open>borg-host/src/ops.rs\<close> work on: a registry that a server holds for its whole
  life, with the tables beside its store and its workers, and the ways the operations are put together.
  Every operation is a function of the held registry that gives a result and the registry afterwards.
\<close>

section \<open>A held registry\<close>

text \<open>What becomes of one write of a table's file: it is written; it cannot be opened, and the file is as
  it was; or it is cut short, and what is left cannot be read.\<close>

datatype disk_answer = DiskWrote | DiskRefused string | DiskCut string

record registration =
  rg_command :: string
  rg_source :: string
  rg_transport :: worker_transport

text \<open>
  \<open>hl_pool\<close> is the worker pool's table of commands, \<open>hl_registered\<close> the snapshot of the implementations
  that it was made from, \<open>hl_writes\<close> the number of table files written so far and \<open>hl_stderr\<close> the
  lines on the server's standard error. Poisonings are the engine's.
\<close>

record held =
  hl_engine :: engine
  hl_txs :: transactions
  hl_next :: u64
  hl_impls :: "implementation list"
  hl_paused :: "branch_id list"
  hl_pool :: "(producer_id, registration) hmap"
  hl_registered :: "string list"
  hl_writes :: nat
  hl_stderr :: "string list"

text \<open>The tables beside a store that is not held.\<close>

record store_files =
  sf_txs :: transactions
  sf_next :: u64
  sf_impls :: "implementation list"
  sf_paused :: "branch_id list"
  sf_poison :: poison_table

text \<open>
  The machine: the hash, the code behind the registered commands, the text of an error, the choices of the
  scheduler, the clock, the disk's answer to each write of a table, and what a repository's directory holds;
  for stores that are not held, whether there is a file, why its directory cannot be made, what the tables
  beside it read as and how many derivations may run at once; and the writing of an export stream to a path.
\<close>

record 'f op_machine =
  om_hash :: "u8 list \<Rightarrow> u8 list"
  om_exec :: "(producer_id, registration) hmap \<Rightarrow> executor"
  om_say :: "borg_error \<Rightarrow> string"
  om_why :: "merge_rejection \<Rightarrow> string"
  om_pick :: "invocation_id set \<Rightarrow> invocation_id list"
  om_sched :: "nat \<Rightarrow> nat list"
  om_now :: u64
  om_disk :: "nat \<Rightarrow> disk_answer"
  om_push :: push_machine
  om_manifest :: "string \<Rightarrow> string + string"
  om_listing :: "string \<Rightarrow> string + (string \<times> bool) option list"
  om_describe :: "string \<Rightarrow> description host_result"
  om_exists :: "string \<Rightarrow> bool"
  om_mkdir :: "string \<Rightarrow> string option"
  om_beside :: "string \<Rightarrow> store_files"
  om_parallelism :: nat
  om_export :: "string \<Rightarrow> held \<Rightarrow> 'f \<Rightarrow> exported host_result \<times> 'f"

text \<open>What an operation is told, however it was asked.\<close>

record ops_args =
  oa_branch :: "string option"
  oa_version :: "layer_id option"
  oa_freshness :: freshness_requirement
  oa_settled :: bool

definition on_branch :: "string option \<Rightarrow> ops_args \<Rightarrow> ops_args" where
  "on_branch b a = a\<lparr>oa_branch := b\<rparr>"

section \<open>Putting operations together\<close>

type_synonym 'a op = "held \<Rightarrow> 'a host_result \<times> held"

definition give :: "'a \<Rightarrow> 'a op" where
  "give x = (\<lambda>h. (Inr x, h))"

definition check :: "'a host_result \<Rightarrow> 'a op" where
  "check r = (\<lambda>h. (r, h))"

definition reads :: "(held \<Rightarrow> 'a) \<Rightarrow> 'a op" where
  "reads f = (\<lambda>h. (Inr (f h), h))"

definition asks :: "(engine \<Rightarrow> 'a host_result) \<Rightarrow> 'a op" where
  "asks f = (\<lambda>h. (f (hl_engine h), h))"

definition runs :: "(engine \<Rightarrow> 'a \<times> engine) \<Rightarrow> 'a op" where
  "runs f = (\<lambda>h. let (x, eng) = f (hl_engine h) in (Inr x, h\<lparr>hl_engine := eng\<rparr>))"

definition changes :: "(held \<Rightarrow> held) \<Rightarrow> unit op" where
  "changes f = (\<lambda>h. (Inr (), f h))"

definition andthen :: "'a op \<Rightarrow> ('a \<Rightarrow> 'b op) \<Rightarrow> 'b op" where
  "andthen f k = (\<lambda>h. case f h of (Inl err, h) \<Rightarrow> (Inl err, h) | (Inr x, h) \<Rightarrow> k x h)"

text \<open>An operation whose failure is a result.\<close>

definition attempt :: "'a op \<Rightarrow> 'a host_result op" where
  "attempt f = (\<lambda>h. case f h of (r, h) \<Rightarrow> (Inr r, h))"

text \<open>The result of an operation of the engine, whose error ends the operation.\<close>

definition runs_ok :: "(engine \<Rightarrow> 'a result \<times> engine) \<Rightarrow> 'a op" where
  "runs_ok f = andthen (runs f) (\<lambda>r. check (from_engine r))"

definition warn :: "string \<Rightarrow> unit op" where
  "warn line = changes (\<lambda>h. h\<lparr>hl_stderr := hl_stderr h @ [line]\<rparr>)"

fun in_turn :: "unit op list \<Rightarrow> unit op" where
  "in_turn [] = give ()"
| "in_turn (f # fs) = andthen f (\<lambda>_. in_turn fs)"

section \<open>Writing the tables (sidecar.rs)\<close>

text \<open>\<open>put\<close> stores a table in its file; the file that cannot be read is read as \<open>fresh\<close>.\<close>

definition sidecar_save :: "'f op_machine \<Rightarrow> ('s \<Rightarrow> held \<Rightarrow> held) \<Rightarrow> 's \<Rightarrow> 's \<Rightarrow> unit op" where
  "sidecar_save ma put fresh s =
     (\<lambda>h. let h' = h\<lparr>hl_writes := Suc (hl_writes h)\<rparr> in
          case om_disk ma (hl_writes h) of
            DiskWrote \<Rightarrow> (Inr (), put s h')
          | DiskRefused err \<Rightarrow> (Inl (HStorage err), h')
          | DiskCut err \<Rightarrow> (Inl (HStorage err), put fresh h'))"

definition save_transactions :: "'f op_machine \<Rightarrow> transactions \<Rightarrow> unit op" where
  "save_transactions ma = sidecar_save ma (\<lambda>t. hl_txs_update (\<lambda>_. t)) transactions_default"

definition save_allocations :: "'f op_machine \<Rightarrow> u64 \<Rightarrow> unit op" where
  "save_allocations ma = sidecar_save ma (\<lambda>n. hl_next_update (\<lambda>_. n)) allocations_default"

definition save_impls :: "'f op_machine \<Rightarrow> implementation list \<Rightarrow> unit op" where
  "save_impls ma = sidecar_save ma (\<lambda>i. hl_impls_update (\<lambda>_. i)) []"

text \<open>The pause flags share their file with the poisonings, which are written with them.\<close>

definition pause_branch :: "'f op_machine \<Rightarrow> branch_id \<Rightarrow> bool \<Rightarrow> unit op" where
  "pause_branch ma b pause =
     andthen (reads hl_paused)
       (\<lambda>paused. sidecar_save ma (\<lambda>p. hl_paused_update (\<lambda>_. p)) [] (set_paused b pause paused))"

section \<open>How operations compose\<close>

lemma op_simps [simp]:
  "give x h = (Inr x, h)" "check r h = (r, h)" "reads f h = (Inr (f h), h)"
  "asks g h = (g (hl_engine h), h)" "changes k h = (Inr (), k h)"
  by (simp_all add: give_def check_def reads_def asks_def changes_def)

lemma andthen_simps:
  "f h = (Inl err, h') \<Longrightarrow> andthen f k h = (Inl err, h')"
  "f h = (Inr x, h') \<Longrightarrow> andthen f k h = k x h'"
  by (simp_all add: andthen_def)

lemma andthen_pure [simp]:
  "andthen (give x) k = k x" "andthen (check (Inr x)) k = k x"
  "andthen (check (Inl err)) k' = (\<lambda>h. (Inl err, h))"
  "andthen (reads f) k = (\<lambda>h. k (f h) h)" "andthen (changes g) k'' = (\<lambda>h. k'' () (g h))"
  by (simp_all add: andthen_def fun_eq_iff)

lemma andthen_asks: "andthen (asks f) k h = (case f (hl_engine h) of Inl err \<Rightarrow> (Inl err, h) | Inr x \<Rightarrow> k x h)"
  by (simp add: andthen_def split: sum.split)

lemma runs_simps: "runs f h = (Inr (fst (f (hl_engine h))), h\<lparr>hl_engine := snd (f (hl_engine h))\<rparr>)"
  by (simp add: runs_def split_beta)

text \<open>Every outcome of an operation that starts in \<open>P\<close> is in \<open>Q\<close>; one rule for each way of composing.\<close>

definition triple :: "(held \<Rightarrow> bool) \<Rightarrow> 'a op \<Rightarrow> ('a host_result \<Rightarrow> held \<Rightarrow> bool) \<Rightarrow> bool" where
  "triple P f Q \<longleftrightarrow> (\<forall>h. P h \<longrightarrow> Q (fst (f h)) (snd (f h)))"

lemma tripleD: "triple P f Q \<Longrightarrow> P h \<Longrightarrow> f h = (r, h') \<Longrightarrow> Q r h'"
  by (force simp: triple_def)

lemma tripleI: "(\<And>h r h'. P h \<Longrightarrow> f h = (r, h') \<Longrightarrow> Q r h') \<Longrightarrow> triple P f Q"
  unfolding triple_def by (metis prod.collapse)

named_theorems op_rules

text \<open>A property of the state that every part keeps.\<close>

definition keeps :: "(held \<Rightarrow> bool) \<Rightarrow> 'a op \<Rightarrow> bool" where
  "keeps P f \<longleftrightarrow> triple P f (\<lambda>_. P)"

lemma keepsI: "(\<And>h r h'. P h \<Longrightarrow> f h = (r, h') \<Longrightarrow> P h') \<Longrightarrow> keeps P f"
  unfolding keeps_def by (rule tripleI)

lemma keepsD: "keeps P f \<Longrightarrow> P h \<Longrightarrow> P (snd (f h))"
  by (simp add: keeps_def triple_def)

lemma keeps_pure [op_rules]: "keeps P (give x)" "keeps P (check r)" "keeps P (reads f)" "keeps P (asks g)"
  by (simp_all add: keeps_def triple_def)

lemma keeps_changes: "(\<And>h. P h \<Longrightarrow> P (k h)) \<Longrightarrow> keeps P (changes k)"
  by (simp add: keeps_def triple_def)

lemma keeps_andthen [op_rules]: "keeps P f \<Longrightarrow> (\<And>x. keeps P (k x)) \<Longrightarrow> keeps P (andthen f k)"
  unfolding keeps_def triple_def andthen_def by (auto split: prod.split sum.split)

lemma keeps_attempt [op_rules]: "keeps P f \<Longrightarrow> keeps P (attempt f)"
  by (simp add: keeps_def triple_def attempt_def split_beta)

lemma keeps_in_turn [op_rules]: "\<forall>f \<in> set fs. keeps P f \<Longrightarrow> keeps P (in_turn fs)"
  by (induction fs) (auto intro: op_rules)

lemma keeps_runs: "(\<And>h. P h \<Longrightarrow> P (h\<lparr>hl_engine := snd (f (hl_engine h))\<rparr>)) \<Longrightarrow> keeps P (runs f)"
  by (simp add: keeps_def triple_def runs_simps)

lemma keeps_runs_ok: "(\<And>h. P h \<Longrightarrow> P (h\<lparr>hl_engine := snd (f (hl_engine h))\<rparr>)) \<Longrightarrow> keeps P (runs_ok f)"
  unfolding runs_ok_def by (intro op_rules keeps_runs)

end
