(* ===== verification/Ops.thy ===== *)
theory Ops
  imports Ops_State
begin

text \<open>
  The operations of \<^verbatim>\<open>borg-host/src/ops.rs\<close> on a held registry, in the order of the file: branches and
  versions, reads, transactions, allocation, derivation; and \<^verbatim>\<open>repo_push\<close> of \<^verbatim>\<open>push.rs\<close> around them.
\<close>

section \<open>Branches and versions\<close>

definition SERVER_ALLOCATOR :: allocator_id where "SERVER_ALLOCATOR = 1"

definition no_branches :: host_error where
  "no_branches = HStorage (''store has no branches'' @ dash @ ''run '' @ quoted ''borg init'')"

definition allocation_branch :: "engine \<Rightarrow> branch_id host_result" where
  "allocation_branch eng = (case default_branch eng of None \<Rightarrow> Inl no_branches | Some b \<Rightarrow> Inr b)"

definition branch_of :: "string option \<Rightarrow> engine \<Rightarrow> branch_id host_result" where
  "branch_of name eng =
     (case name of
        Some name \<Rightarrow>
          (case find (\<lambda>b. br_name b = Some name) (lm_branches (wd_log eng)) of
             Some b \<Rightarrow> Inr (br_id b)
           | None \<Rightarrow> Inl (HStorage (''no branch named '' @ quoted name)))
      | None \<Rightarrow> allocation_branch eng)"

definition path_of :: "branch_id \<Rightarrow> engine \<Rightarrow> read_path host_result" where
  "path_of b eng = from_engine (lm_read_path (wd_log eng) b None)"

definition client_version_of :: "ops_args \<Rightarrow> branch_id \<Rightarrow> engine \<Rightarrow> client_version host_result" where
  "client_version_of a b eng =
     (case oa_version a of
        Some l \<Rightarrow> Inr (ClientVersion l)
      | None \<Rightarrow>
          (case path_of b eng of
             Inl err \<Rightarrow> Inl err
           | Inr path \<Rightarrow> Inr (ClientVersion (def_head (wd_log eng) path))))"

definition cell_named :: "string \<Rightarrow> engine \<Rightarrow> cell_ref host_result" where
  "cell_named cell eng =
     (case allocation_branch eng of
        Inl err \<Rightarrow> Inl err
      | Inr b \<Rightarrow>
          (case parse_cell_ref cell b ALLOCATOR of
             Inl err \<Rightarrow> Inl (HBorg (ParseFailed err))
           | Inr c \<Rightarrow> Inr c))"

section \<open>Reads\<close>

record read =
  re_cell :: cell_ref
  re_resolved :: "val option resolved"
  re_rendered :: "string option"
  re_interned :: "string option"

definition read_of_op :: "cell_ref \<Rightarrow> val option resolved \<Rightarrow> engine \<Rightarrow> read host_result" where
  "read_of_op cell resolved eng =
     (case (case rs_value resolved of
              None \<Rightarrow> Inr None
            | Some v \<Rightarrow> (case render_stored (wd_log eng) v of Inl err \<Rightarrow> Inl err | Inr text \<Rightarrow> Inr (Some text))) of
        Inl err \<Rightarrow> Inl (HBorg err)
      | Inr rendered \<Rightarrow>
          (case Option.bind (rs_value resolved) content_pid_of of
             None \<Rightarrow> Inr \<lparr>re_cell = cell, re_resolved = resolved, re_rendered = rendered, re_interned = None\<rparr>
           | Some pid \<Rightarrow>
               (case text_result (display_pid pid) of
                  Inl err \<Rightarrow> Inl (HBorg err)
                | Inr text \<Rightarrow>
                    Inr \<lparr>re_cell = cell, re_resolved = resolved, re_rendered = rendered,
                         re_interned = Some (CHR ''@'' # text)\<rparr>)))"

definition resolve_cell ::
  "'f op_machine \<Rightarrow> branch_id \<Rightarrow> cell_ref \<Rightarrow> layer_id option \<Rightarrow> client_version \<Rightarrow> freshness_requirement \<Rightarrow>
   val option resolved op" where
  "resolve_cell ma b cell layer version freshness =
     andthen (reads hl_pool)
       (\<lambda>pool. runs_ok (engine_resolve (om_hash ma) (om_exec ma pool) b cell layer version freshness))"

definition get_op :: "'f op_machine \<Rightarrow> ops_args \<Rightarrow> string \<Rightarrow> read op" where
  "get_op ma a cell =
     andthen (asks (branch_of (oa_branch a))) (\<lambda>b.
     andthen (asks (cell_named cell)) (\<lambda>cell.
     andthen (if oa_settled a
              then andthen (asks (\<lambda>eng. from_engine (registry_settled eng b))) (\<lambda>l. give (Some l))
              else give None) (\<lambda>layer.
     andthen (asks (client_version_of a b)) (\<lambda>version.
     andthen (resolve_cell ma b cell layer version (oa_freshness a)) (\<lambda>resolved.
     asks (read_of_op cell resolved))))))"

definition list_op :: "ops_args \<Rightarrow> string \<Rightarrow> pid list op" where
  "list_op a name =
     andthen (asks (branch_of (oa_branch a))) (\<lambda>b.
     andthen (asks (path_of b)) (\<lambda>path.
     andthen (asks (client_version_of a b)) (\<lambda>version.
     andthen (asks (\<lambda>eng. from_engine (view_at (wd_log eng) path (case version of ClientVersion l \<Rightarrow> l)))) (\<lambda>v.
     if def_object v name = None then check (Inl (HStorage (''no struct named '' @ quoted name)))
     else asks (\<lambda>eng. from_engine (object_ids eng b name))))))"

definition explain_op :: "ops_args \<Rightarrow> string \<Rightarrow> (cell_ref \<times> lineage option) op" where
  "explain_op a cell =
     andthen (asks (branch_of (oa_branch a))) (\<lambda>b.
     andthen (asks (cell_named cell)) (\<lambda>cell.
     andthen (asks (client_version_of a b)) (\<lambda>version.
     andthen (asks (\<lambda>eng. from_engine (explain eng b cell None version))) (\<lambda>lineage.
     give (cell, lineage)))))"

definition branch_list_op :: "branch list op" where
  "branch_list_op = asks (\<lambda>eng. Inr (sort_key br_id (lm_branches (wd_log eng))))"

definition branch_head_op :: "ops_args \<Rightarrow> (branch_id \<times> layer_id) op" where
  "branch_head_op a =
     andthen (asks (branch_of (oa_branch a))) (\<lambda>b.
     asks (\<lambda>eng. Inr (b, case lm_head (wd_log eng) b of None \<Rightarrow> 0 | Some head \<Rightarrow> head)))"

definition view_of :: "ops_args \<Rightarrow> (read_path \<times> def_view) op" where
  "view_of a =
     andthen (asks (branch_of (oa_branch a))) (\<lambda>b.
     andthen (asks (path_of b)) (\<lambda>path.
     andthen (asks (\<lambda>eng. from_engine (view (wd_log eng) path))) (\<lambda>v. give (path, v))))"

definition def_show_op :: "ops_args \<Rightarrow> string \<Rightarrow> object_def op" where
  "def_show_op a name =
     andthen (view_of a) (\<lambda>(path, v).
     check (case def_object v name of
              Some ob \<Rightarrow> Inr ob
            | None \<Rightarrow> Inl (HStorage (''no struct named '' @ quoted name))))"

definition def_view_op :: "ops_args \<Rightarrow> (layer_id \<times> object_def list) op" where
  "def_view_op a =
     andthen (view_of a) (\<lambda>(path, v).
     asks (\<lambda>eng. Inr (def_head (wd_log eng) path, sort_key (\<lambda>ob. str_key (od_name ob)) (map snd (dv_objects v)))))"

definition def_version_op :: "ops_args \<Rightarrow> layer_id op" where
  "def_version_op a =
     andthen (asks (branch_of (oa_branch a))) (\<lambda>b.
     andthen (asks (path_of b)) (\<lambda>path.
     asks (\<lambda>eng. Inr (def_head (wd_log eng) path))))"

section \<open>Transactions\<close>

definition on_txs :: "(transactions \<Rightarrow> transactions) \<Rightarrow> held \<Rightarrow> held" where
  "on_txs f h = h\<lparr>hl_txs := f (hl_txs h)\<rparr>"

text \<open>A layer above the clock reads as no time at all.\<close>

definition saturating_sub :: "u64 \<Rightarrow> u64 \<Rightarrow> u64" where
  "saturating_sub x y = (if y \<le> x then x - y else 0)"

definition is_idle :: "u64 \<Rightarrow> u64 \<Rightarrow> open_tx \<Rightarrow> bool" where
  "is_idle now timeout tx \<longleftrightarrow> timeout < saturating_sub now (ot_touched tx)"

definition expired :: "u64 \<Rightarrow> string" where
  "expired timeout = ''expired after '' @ spell_duration timeout @ '' idle''"

definition reap_transactions :: "'f op_machine \<Rightarrow> unit op" where
  "reap_transactions ma =
     andthen (reads hl_txs) (\<lambda>table.
       (let timeout = ts_timeout table;
            reaped = filter (is_idle (om_now ma) timeout) (ts_open table);
            kept = filter (\<lambda>tx. \<not> is_idle (om_now ma) timeout tx) (ts_open table)
        in if reaped = [] then give ()
           else andthen (in_turn (map (\<lambda>tx. pause_branch ma (tx_branch (ot_state tx)) False) reaped)) (\<lambda>_.
                save_transactions ma
                  (fold (\<lambda>tx. retire (ot_id tx) (expired timeout)) reaped (table\<lparr>ts_open := kept\<rparr>)))))"

definition fork_point_of :: "branch_id \<Rightarrow> engine \<Rightarrow> layer_id option host_result" where
  "fork_point_of b eng =
     (case path_of b eng of
        Inl err \<Rightarrow> Inl err
      | Inr path \<Rightarrow> Inr (if Cells.ceiling path \<noteq> 0 then Some (Cells.ceiling path) else None))"

definition owner_of :: "layer_id \<Rightarrow> engine \<Rightarrow> branch_id host_result" where
  "owner_of l eng =
     (case lm_layer (wd_log eng) l of
        Some layer \<Rightarrow> Inr (ly_branch layer)
      | None \<Rightarrow> Inl (HStorage (''unknown layer '' @ show_id CHR ''L'' l)))"

definition fork_named :: "branch_id \<Rightarrow> layer_id \<Rightarrow> string option \<Rightarrow> engine \<Rightarrow> branch_id result \<times> engine" where
  "fork_named owner fork_at name eng =
     (let (r, bm) = fork_branch owner fork_at name \<lparr>bm_layers = wd_log eng, bm_next_id = en_next_branch eng\<rparr>
      in (r, eng\<lparr>wd_log := bm_layers bm, en_next_branch := bm_next_id bm\<rparr>))"

definition absorb :: "write_session \<Rightarrow> transaction \<Rightarrow> transaction" where
  "absorb ws tx = fold tx_wrote (ws_authored ws) (fold tx_observe (ws_observed ws) tx)"

definition landing_of :: "transaction \<Rightarrow> layer_id list \<Rightarrow> engine \<Rightarrow> layer_id" where
  "landing_of tx replayed eng =
     (case rev replayed of
        l # _ \<Rightarrow> l
      | [] \<Rightarrow> (case lm_head (wd_log eng) (tx_parent tx) of None \<Rightarrow> 0 | Some head \<Rightarrow> head))"

definition handle_name :: "u64 \<Rightarrow> string" where
  "handle_name n = ''tx-'' @ show_nat (unat n)"

definition tx_begin_op :: "'f op_machine \<Rightarrow> ops_args \<Rightarrow> string op" where
  "tx_begin_op ma a =
     andthen (asks (branch_of (oa_branch a))) (\<lambda>b.
     andthen (asks (fork_point_of b)) (\<lambda>found.
     case found of
       None \<Rightarrow> check (Inl (HStorage (''nothing to fork from'' @ dash @ ''the branch is empty'')))
     | Some fork_point \<Rightarrow>
         andthen (reads hl_txs) (\<lambda>table.
         (let tx = handle_name (ts_next table) in
         andthen (asks (owner_of fork_point)) (\<lambda>owner.
         andthen (runs_ok (fork_named owner fork_point (Some tx))) (\<lambda>forked.
         andthen (pause_branch ma forked True) (\<lambda>_.
         andthen (save_transactions ma
                    (table\<lparr>ts_next := ts_next table + 1,
                           ts_open := ts_open table @
                             [\<lparr>ot_id = tx, ot_touched = om_now ma, ot_state = tx_new forked b fork_point\<rparr>]\<rparr>)) (\<lambda>_.
         give tx))))))))"

text \<open>The table with its \<open>i\<close>-th open transaction used now.\<close>

definition used :: "u64 \<Rightarrow> nat \<Rightarrow> (transaction \<Rightarrow> transaction) \<Rightarrow> transactions \<Rightarrow> transactions" where
  "used now i f table =
     table\<lparr>ts_open := (ts_open table)[i := (ts_open table ! i)
            \<lparr>ot_touched := now, ot_state := f (ot_state (ts_open table ! i))\<rparr>]\<rparr>"

definition find_tx :: "string \<Rightarrow> (transactions \<times> nat) op" where
  "find_tx tx = andthen (reads hl_txs) (\<lambda>table. andthen (check (transaction_index table tx)) (\<lambda>i. give (table, i)))"

definition tx_get_op :: "'f op_machine \<Rightarrow> ops_args \<Rightarrow> string \<Rightarrow> string \<Rightarrow> read op" where
  "tx_get_op ma a tx cell =
     andthen (find_tx tx) (\<lambda>(table, i).
     andthen (asks (cell_named cell)) (\<lambda>cell.
     (let b = tx_branch (ot_state (ts_open table ! i)) in
     andthen (asks (client_version_of a b)) (\<lambda>version.
     andthen (asks (path_of b)) (\<lambda>path.
     andthen (asks (\<lambda>eng. from_engine (view_at (wd_log eng) path (case version of ClientVersion l \<Rightarrow> l)))) (\<lambda>v.
     andthen (resolve_cell ma b cell None version (oa_freshness a)) (\<lambda>resolved.
     andthen (save_transactions ma (used (om_now ma) i (tx_observe (CellAt cell (version_of v cell))) table)) (\<lambda>_.
     asks (read_of_op cell resolved))))))))) "

text \<open>A write session on the transaction's branch: \<open>write\<close> fills it, and is given up where it fails. The
  table is saved once the session has committed.\<close>

definition write_through ::
  "'f op_machine \<Rightarrow> ops_args \<Rightarrow> transactions \<times> nat \<Rightarrow>
   (write_session \<Rightarrow> manager \<Rightarrow> unit result \<times> write_session \<times> manager) \<Rightarrow> layer_id op" where
  "write_through ma a entry write =
     (let (table, i) = entry; b = tx_branch (ot_state (ts_open table ! i)) in
     andthen (asks (client_version_of a b)) (\<lambda>version.
     andthen (runs_ok (begin_write b version WClient)) (\<lambda>ws.
     andthen (runs (\<lambda>eng. case write ws (wd_log eng) of (r, ws, m) \<Rightarrow> ((r, ws), eng\<lparr>wd_log := m\<rparr>))) (\<lambda>(r, ws).
     case r of
       Inl err \<Rightarrow>
         andthen (runs_ok (on_log (ws_abort ws))) (\<lambda>_. check (Inl (HBorg err)))
     | Inr _ \<Rightarrow>
         andthen (runs_ok (on_log (ws_commit ws))) (\<lambda>l.
         andthen (save_transactions ma (used (om_now ma) i (absorb ws) table)) (\<lambda>_. give l))))))"

definition tx_set_op :: "'f op_machine \<Rightarrow> ops_args \<Rightarrow> string \<Rightarrow> string \<Rightarrow> string \<Rightarrow> layer_id op" where
  "tx_set_op ma a tx cell input =
     andthen (find_tx tx) (\<lambda>entry.
     andthen (asks (cell_named cell)) (\<lambda>cell.
     write_through ma a entry (set_text (om_hash ma) cell input)))"

text \<open>The counter is saved before the id is given. It wraps where overflow is not checked.\<close>

definition allocate :: "'f op_machine \<Rightarrow> branch_id \<Rightarrow> pid op" where
  "allocate ma b =
     andthen (reads hl_next) (\<lambda>n.
     andthen (save_allocations ma (n + 1)) (\<lambda>_.
     give (Allocated PObject b SERVER_ALLOCATOR n)))"

definition tx_create_op :: "'f op_machine \<Rightarrow> ops_args \<Rightarrow> string \<Rightarrow> string \<Rightarrow> pid op" where
  "tx_create_op ma a tx name =
     andthen (find_tx tx) (\<lambda>entry.
     andthen (asks allocation_branch) (\<lambda>root.
     andthen (allocate ma root) (\<lambda>pid.
     andthen (write_through ma a entry (ws_set (cell_existence name pid) (VBool True))) (\<lambda>_.
     give pid))))"

definition tx_abort_op :: "'f op_machine \<Rightarrow> string \<Rightarrow> unit op" where
  "tx_abort_op ma tx =
     andthen (find_tx tx) (\<lambda>(table, i).
     andthen (pause_branch ma (tx_branch (ot_state (ts_open table ! i))) False) (\<lambda>_.
     save_transactions ma
       (retire (ot_id (ts_open table ! i)) ''was aborted'' (table\<lparr>ts_open := remove_at i (ts_open table)\<rparr>))))"

section \<open>Derivation (the producers' half of the file)\<close>

definition registration_of :: "implementation \<Rightarrow> registration" where
  "registration_of i = \<lparr>rg_command = im_command i, rg_source = im_source i, rg_transport = im_transport i\<rparr>"

definition register_all ::
  "implementation list \<Rightarrow> (producer_id, registration) hmap \<Rightarrow> (producer_id, registration) hmap" where
  "register_all = fold (\<lambda>i. hm_insert (im_id i) (registration_of i))"

definition transport_name :: "worker_transport \<Rightarrow> string" where
  "transport_name t = (case t of Stdio \<Rightarrow> ''Stdio'' | Socket \<Rightarrow> ''Socket'')"

definition current_registrations :: "implementation list \<Rightarrow> string list" where
  "current_registrations impls =
     sort (map (\<lambda>i. show_nat (unat (im_id i)) @ ''|'' @ im_source i @ ''|'' @ im_command i @ ''|''
                  @ transport_name (im_transport i)) impls)"

definition reload_producers :: "unit op" where
  "reload_producers =
     changes (\<lambda>h. h\<lparr>hl_pool := register_all (hl_impls h) (hl_pool h),
                    hl_registered := current_registrations (hl_impls h)\<rparr>)"

definition broken_here :: "branch_id \<Rightarrow> (string \<times> poisoning) list op" where
  "broken_here b =
     (\<lambda>h. (Inr (map (\<lambda>po. (producer_name (hl_impls h) (po_producer po), po)) (broken (hl_engine h) b)), h))"

definition warn_broken :: "producer_id list \<Rightarrow> (string \<times> poisoning) list \<Rightarrow> unit op" where
  "warn_broken before found =
     in_turn (map (\<lambda>(name, po). warn (''warning: '' @ name @ '' is now broken: '' @ po_error po))
       (filter (\<lambda>(_, po). po_producer po \<notin> set before) found))"

definition host_say :: "'f op_machine \<Rightarrow> host_error \<Rightarrow> string" where
  "host_say ma err =
     (case err of HStorage s \<Rightarrow> ''storage: '' @ s | HExecution s \<Rightarrow> ''execution: '' @ s | HBorg err \<Rightarrow> om_say ma err)"

definition stale_pool :: string where
  "stale_pool = ''warning: the producer table moved without the worker pool being told'' @ dash
     @ ''the pool is now running whatever code it was built from. Stop the server and start it again.''"

definition auto_derive :: "'f op_machine \<Rightarrow> branch_id \<Rightarrow> unit op" where
  "auto_derive ma b =
     andthen (reads (\<lambda>h. h)) (\<lambda>h.
     if b \<in> set (hl_paused h) then give ()
     else if hl_impls h = [] then give ()
     else andthen (if hl_registered h \<noteq> current_registrations (hl_impls h) then warn stale_pool else give ()) (\<lambda>_.
          andthen (runs_ok (register_producers b)) (\<lambda>_.
          andthen (broken_here b) (\<lambda>before.
          andthen (runs (catch_up (om_hash ma) (om_exec ma (hl_pool h)) (om_say ma) (om_pick ma) (om_sched ma) b)) (\<lambda>caught.
          andthen (broken_here b) (\<lambda>found.
          andthen (warn_broken (map (\<lambda>(_, po). po_producer po) before) found) (\<lambda>_.
          case caught of
            Inl err \<Rightarrow> warn (''warning: auto-derivation did not complete: '' @ om_say ma err)
          | Inr _ \<Rightarrow> give ())))))))"

section \<open>Committing a transaction\<close>

text \<open>A commit that is rejected leaves the transaction open and used now; one that lands ends it, lets its
  branch derive again and catches the parent up, whose failure is only told.\<close>

definition tx_commit_op :: "'f op_machine \<Rightarrow> string \<Rightarrow> layer_id op" where
  "tx_commit_op ma tx =
     andthen (find_tx tx) (\<lambda>(table, i).
     (let entry = ts_open table ! i; state = ot_state entry in
     andthen (runs (on_log (merge_transaction state DefAndData))) (\<lambda>merged.
     case merged of
       Inl err \<Rightarrow>
         andthen (save_transactions ma (used (om_now ma) i id table)) (\<lambda>_. check (Inl (HBorg err)))
     | Inr replayed \<Rightarrow>
         andthen (save_transactions ma
                    (retire (ot_id entry) ''already committed'' (table\<lparr>ts_open := remove_at i (ts_open table)\<rparr>))) (\<lambda>_.
         andthen (pause_branch ma (tx_branch state) False) (\<lambda>_.
         andthen (asks (\<lambda>eng. Inr (landing_of state replayed eng))) (\<lambda>landed.
         andthen (attempt (auto_derive ma (tx_parent state))) (\<lambda>derived.
         case derived of
           Inl err \<Rightarrow> andthen (warn (''warning: auto-derivation did not start: '' @ host_say ma err)) (\<lambda>_. give landed)
         | Inr _ \<Rightarrow> give landed)))))))"

section \<open>Pushing a repository (push.rs)\<close>

definition repo_push_op :: "'f op_machine \<Rightarrow> ops_args \<Rightarrow> string \<Rightarrow> push op" where
  "repo_push_op ma a dir =
     andthen (check (read_repo_id dir (om_manifest ma dir))) (\<lambda>repo.
     andthen (asks (branch_of (oa_branch a))) (\<lambda>b.
     andthen (check (scripts_of dir (om_listing ma dir))) (\<lambda>scripts.
     andthen (check (describe_all (om_describe ma) dir repo scripts)) (\<lambda>described.
     andthen (reads hl_impls) (\<lambda>impls.
     andthen (runs (\<lambda>eng. case push_described (om_push ma) repo described b (wd_log eng, impls) of
                            (r, m, impls) \<Rightarrow> ((r, impls), eng\<lparr>wd_log := m\<rparr>))) (\<lambda>(r, impls).
     andthen (check r) (\<lambda>pushed.
     andthen (save_impls ma impls) (\<lambda>_.
     andthen reload_producers (\<lambda>_.
     andthen (auto_derive ma b) (\<lambda>_.
     give pushed))))))))))"

section \<open>Opening and creating a store\<close>

definition allocation_branch_of :: "inner \<Rightarrow> branch_id host_result" where
  "allocation_branch_of db =
     (case map br_id (filter (\<lambda>b. br_origin b = None) (read_branches db)) of
        [] \<Rightarrow> Inl no_branches
      | b # bs \<Rightarrow> Inr (fold min bs b))"

text \<open>The environment's bound where it is a positive number, else the processors the machine has, else four.\<close>

definition derive_parallelism :: "string option \<Rightarrow> nat option \<Rightarrow> nat" where
  "derive_parallelism raw cores =
     (case Option.bind raw parse_u64 of
        Some n \<Rightarrow> if 0 < n then unat n else (case cores of Some c \<Rightarrow> c | None \<Rightarrow> 4)
      | None \<Rightarrow> (case cores of Some c \<Rightarrow> c | None \<Rightarrow> 4))"

definition open_with_workers ::
  "inner \<Rightarrow> poison_table \<Rightarrow> nat \<Rightarrow> implementation list \<Rightarrow> (engine \<times> (producer_id, registration) hmap) host_result" where
  "open_with_workers db table parallelism impls =
     (case allocation_branch_of db of
        Inl err \<Rightarrow> Inl err
      | Inr _ \<Rightarrow>
          (case open_with_poison db table parallelism of
             Inl err \<Rightarrow> Inl (HBorg err)
           | Inr eng \<Rightarrow> Inr (set_parallelism parallelism eng, register_all impls [])))"

text \<open>\<open>init\<close>: a new store with the root branch that every address is relative to.\<close>

definition init_op :: "'f op_machine \<Rightarrow> string \<Rightarrow> inner host_result" where
  "init_op ma file =
     (if om_exists ma file then Inl (HStorage (file @ '' already exists''))
      else
        (case om_mkdir ma file of
           Some err \<Rightarrow> Inl (HStorage err)
         | None \<Rightarrow>
             (case open_with_poison mem_new (sf_poison (om_beside ma file)) (om_parallelism ma) of
                Inl err \<Rightarrow> Inl (HBorg err)
              | Inr eng \<Rightarrow>
                  (case create_root (Some ''main'') \<lparr>bm_layers = wd_log eng, bm_next_id = en_next_branch eng\<rparr> of
                     (Inl err, _) \<Rightarrow> Inl (HBorg err)
                   | (Inr _, bm) \<Rightarrow> Inr (mg_db (bm_layers bm))))))"

definition hold_op :: "ops_args \<Rightarrow> nat \<Rightarrow> inner \<Rightarrow> store_files \<Rightarrow> held host_result" where
  "hold_op a parallelism db files =
     (case open_with_workers db (sf_poison files) parallelism (sf_impls files) of
        Inl err \<Rightarrow>
          Inl (if err = no_branches
               then HStorage (''store has no branches'' @ dash @ ''run '' @ quoted ''borg init'' @ dash
                      @ ''a store has to exist before it can be served'')
               else err)
      | Inr (eng, pool) \<Rightarrow>
          (case (case branch_of (oa_branch a) eng of
                   Inl _ \<Rightarrow> (Inr (), eng)
                 | Inr b \<Rightarrow> register_producers b eng) of
             (Inl err, _) \<Rightarrow> Inl (HBorg err)
           | (Inr _, eng) \<Rightarrow>
               Inr \<lparr>hl_engine = eng, hl_txs = sf_txs files, hl_next = sf_next files, hl_impls = sf_impls files,
                    hl_paused = sf_paused files, hl_pool = pool,
                    hl_registered = current_registrations (sf_impls files), hl_writes = 0, hl_stderr = []\<rparr>))"

end
