(* ===== verification/Answer.thy ===== *)
theory Answer
  imports Ops
begin

text \<open>
  What one held registry answers a request (\<^verbatim>\<open>answer\<close> of \<^verbatim>\<open>borg-server/src/serve.rs\<close>, with \<^verbatim>\<open>render.rs\<close> of
  \<^verbatim>\<open>borg-host\<close>): each arm is one operation and the rendering of its result.
\<close>

section \<open>Rendering\<close>

text \<open>A PID always renders.\<close>

definition text_of :: "string option \<Rightarrow> string" where
  "text_of t = (case t of None \<Rightarrow> [] | Some s \<Rightarrow> s)"

definition cell_shown :: "cell_ref \<Rightarrow> string" where
  "cell_shown c = text_of (display_cell c)"

definition show_layer :: "layer_id \<Rightarrow> string" where "show_layer = show_id CHR ''L''"

definition struct_def :: "object_def \<Rightarrow> wire_struct" where
  "struct_def ob =
     \<lparr>ws_name = od_name ob,
      ws_fields = map (\<lambda>(_, d).
        \<lparr>wf_name = fd_name d, wf_type = display_type (fd_ty d),
         wf_derived_by = map_option (show_id CHR ''P'') (ownership_producer (fd_ownership d)),
         wf_repo = fd_declaring_repo d, wf_version = show_layer (fd_version d)\<rparr>) (od_fields ob)\<rparr>"

definition envelope_of :: "read \<Rightarrow> response" where
  "envelope_of r =
     (let found = re_resolved r in
      RCell \<lparr>en_cell = cell_shown (re_cell r), en_value = re_rendered r, en_origin = origin_name (rs_origin found),
             en_state = state_name (rs_state found), en_event = map_option (show_id CHR ''e'') (rs_event found),
             en_authored_at = show_layer (rs_authored_at found), en_landed_at = show_layer (rs_landed_at found),
             en_fresh_as_of = show_layer (rs_fresh_as_of found),
             en_by = map_option (show_id CHR ''P'') (rs_by found)\<rparr>)"

definition lineage_of :: "string \<Rightarrow> lineage \<Rightarrow> wire_lineage" where
  "lineage_of cell l =
     \<lparr>wl_cell = cell, wl_produced_by = map_option (show_id CHR ''P'') (ln_produced_by l),
      wl_authored_at = show_layer (ln_authored_at l), wl_landed_at = show_layer (ln_landed_at l),
      wl_fresh_as_of = show_layer (ln_fresh_as_of l), wl_broken = ln_broken l,
      wl_from = map (\<lambda>e. (cell_shown (ca_cell (le_cell e)), origin_name (le_origin e), show_layer (le_landed_at e)))
        (ln_from l)\<rparr>"

text \<open>Nothing stored is an answer.\<close>

definition no_lineage :: "string \<Rightarrow> wire_lineage" where
  "no_lineage cell =
     \<lparr>wl_cell = cell, wl_produced_by = None, wl_authored_at = ''L0'', wl_landed_at = ''L0'', wl_fresh_as_of = ''L0'',
      wl_broken = None, wl_from = []\<rparr>"

text \<open>\<open>why\<close> is the text of a rejection.\<close>

definition conflict_of :: "(merge_rejection \<Rightarrow> string) \<Rightarrow> merge_rejection \<Rightarrow> response" where
  "conflict_of why rejected =
     (case rejected of
        GuardConflict cell \<Rightarrow> RConflict (Some (cell_shown cell)) ''guard'' (why rejected)
      | DanglingWrite cell _ \<Rightarrow> RConflict (Some (cell_shown cell)) ''dangling_write'' (why rejected)
      | DefDiverged _ \<Rightarrow> RConflict None ''def_diverged'' (why rejected))"

definition branch_shown :: "branch \<Rightarrow> branch_info" where
  "branch_shown b =
     \<lparr>bi_id = show_id CHR ''b'' (br_id b), bi_name = br_name b, bi_forked_at = map_option show_layer (br_origin b)\<rparr>"

definition pushed_shown :: "push \<Rightarrow> response" where
  "pushed_shown p = RPushed (map_option show_layer (pu_layer p)) (pu_report p)"

definition exported_shown :: "string \<Rightarrow> exported \<Rightarrow> response" where
  "exported_shown path e =
     RExported path (of_nat (ex_layers e)) (of_nat (ex_events e)) (of_nat (ex_interned e))
       (show_layer (ex_head e)) (show_layer (ex_settled e))"

section \<open>The arms\<close>

definition failed :: "'f op_machine \<Rightarrow> host_error \<Rightarrow> response" where
  "failed ma err = RError (host_say ma err)"

definition answered :: "'f op_machine \<Rightarrow> ('a \<Rightarrow> response) \<Rightarrow> 'a op \<Rightarrow> held \<Rightarrow> response \<times> held" where
  "answered ma shown f h = (case f h of (Inl err, h) \<Rightarrow> (failed ma err, h) | (Inr x, h) \<Rightarrow> (shown x, h))"

definition with_freshness :: "string option \<Rightarrow> ops_args \<Rightarrow> string + ops_args" where
  "with_freshness mode a =
     (case mode of
        None \<Rightarrow> Inr a
      | Some mode \<Rightarrow>
          (case freshness_named mode of
             None \<Rightarrow> Inl (quoted mode @ '' is not a freshness'' @ dash @ ''try any, validated or current'')
           | Some f \<Rightarrow> Inr (a\<lparr>oa_freshness := f\<rparr>)))"

text \<open>A rejected merge is neither success nor error.\<close>

definition commit_answer :: "'f op_machine \<Rightarrow> layer_id host_result \<Rightarrow> response" where
  "commit_answer ma r =
     (case r of
        Inr landed \<Rightarrow> RCommitted (show_layer landed)
      | Inl (HBorg (MergeRejected rejected)) \<Rightarrow> conflict_of (om_why ma) rejected
      | Inl err \<Rightarrow> failed ma err)"

definition arm :: "'f op_machine \<Rightarrow> ops_args \<Rightarrow> request \<Rightarrow> held \<Rightarrow> 'f \<Rightarrow> response \<times> held \<times> 'f" where
  "arm ma base request h files =
     (let done = (\<lambda>(r, h). (r, h, files)) in
      case request of
        TxBegin b \<Rightarrow> done (answered ma RTx (tx_begin_op ma (on_branch b base)) h)
      | TxGet tx cell mode \<Rightarrow>
          (case with_freshness mode base of
             Inl why \<Rightarrow> (RError why, h, files)
           | Inr a \<Rightarrow> done (answered ma envelope_of (tx_get_op ma a tx cell) h))
      | TxSet tx cell input \<Rightarrow> done (answered ma (\<lambda>_. ROk) (tx_set_op ma base tx cell input) h)
      | TxCommit tx \<Rightarrow> (case tx_commit_op ma tx h of (r, h) \<Rightarrow> (commit_answer ma r, h, files))
      | ListObjects b name \<Rightarrow>
          done (answered ma (\<lambda>ids. RIds (map (\<lambda>p. text_of (display_pid p)) ids)) (list_op (on_branch b base) name) h)
      | TxCreate tx name \<Rightarrow>
          done (answered ma (\<lambda>p. RCreated (text_of (display_pid p))) (tx_create_op ma base tx name) h)
      | TxAbort tx \<Rightarrow> done (answered ma (\<lambda>_. ROk) (tx_abort_op ma tx) h)
      | GetCell b cell mode at_settled \<Rightarrow>
          (case with_freshness mode (on_branch b base) of
             Inl why \<Rightarrow> (RError why, h, files)
           | Inr a \<Rightarrow> done (answered ma envelope_of (get_op ma (a\<lparr>oa_settled := at_settled\<rparr>) cell) h))
      | Serve.Explain b cell \<Rightarrow>
          done (answered ma
            (\<lambda>(cell, found). RLineage (case found of
                Some l \<Rightarrow> lineage_of (cell_shown cell) l | None \<Rightarrow> no_lineage (cell_shown cell)))
            (explain_op (on_branch b base) cell) h)
      | BranchList \<Rightarrow> done (answered ma (\<lambda>bs. RBranches (map branch_shown bs)) branch_list_op h)
      | BranchHead b \<Rightarrow>
          done (answered ma (\<lambda>(b, l). RHead (show_id CHR ''b'' b) (show_layer l)) (branch_head_op (on_branch b base)) h)
      | DefShow b name \<Rightarrow> done (answered ma (\<lambda>ob. RDef (struct_def ob)) (def_show_op (on_branch b base) name) h)
      | DefView b \<Rightarrow>
          done (answered ma (\<lambda>(version, obs). RDefs (show_layer version) (map struct_def obs))
            (def_view_op (on_branch b base)) h)
      | RepoPush _ b path \<Rightarrow>
          (case path of
             None \<Rightarrow>
               (RError (''repo_push needs a '' @ quoted ''path'' @ dash @ ''a repo directory on the server''), h, files)
           | Some dir \<Rightarrow> done (answered ma pushed_shown (repo_push_op ma (on_branch b base) dir) h))
      | Export _ path \<Rightarrow>
          (case om_export ma path h files of
             (Inl err, files) \<Rightarrow> (failed ma err, h, files)
           | (Inr summary, files) \<Rightarrow> (exported_shown path summary, h, files))
      | _ \<Rightarrow> (RError ''this request is answered by the host, not by a registry'', h, files))"

text \<open>The sweep of idle transactions comes before every request.\<close>

definition answer :: "'f op_machine \<Rightarrow> ops_args \<Rightarrow> request \<Rightarrow> held \<Rightarrow> 'f \<Rightarrow> response \<times> held \<times> 'f" where
  "answer ma base request h files =
     (case reap_transactions ma h of
        (Inl err, h) \<Rightarrow> (RError (host_say ma err), h, files)
      | (Inr _, h) \<Rightarrow> arm ma base request h files)"

text \<open>What a session's machine says of a registry: the request at the version the connection settled.\<close>

definition registry_answer ::
  "'f op_machine \<Rightarrow> ops_args \<Rightarrow> u64 option \<Rightarrow> request \<Rightarrow> held \<Rightarrow> 'f \<Rightarrow> response \<times> held \<times> 'f" where
  "registry_answer ma base version =
     answer ma (base\<lparr>oa_version := (case version of Some l \<Rightarrow> Some l | None \<Rightarrow> oa_version base)\<rparr>)"

section \<open>The machine that serves registries\<close>

text \<open>A hosted registry is a store with the tables beside it until something asks it, and held from then on.\<close>

datatype hosted_registry = Stored inner store_files | Holding held

definition hold_hosted :: "'f op_machine \<Rightarrow> ops_args \<Rightarrow> hosted_registry \<Rightarrow> string + hosted_registry" where
  "hold_hosted ma base r =
     (case r of
        Stored db files \<Rightarrow>
          (case hold_op base (om_parallelism ma) db files of Inl err \<Rightarrow> Inl (host_say ma err) | Inr h \<Rightarrow> Inr (Holding h))
      | Holding h \<Rightarrow> Inr (Holding h))"

definition init_hosted :: "'f op_machine \<Rightarrow> string \<Rightarrow> string + hosted_registry" where
  "init_hosted ma file =
     (case init_op ma file of Inl err \<Rightarrow> Inl (host_say ma err) | Inr db \<Rightarrow> Inr (Stored db (om_beside ma file)))"

text \<open>A slot is opened before it is asked, so what is asked is held.\<close>

definition ask_hosted ::
  "'f op_machine \<Rightarrow> ops_args \<Rightarrow> u64 option \<Rightarrow> request \<Rightarrow> hosted_registry \<Rightarrow> 'f \<Rightarrow> response \<times> hosted_registry \<times> 'f" where
  "ask_hosted ma base version request r files =
     (case r of
        Holding h \<Rightarrow> (case registry_answer ma base version request h files of (said, h, files) \<Rightarrow> (said, Holding h, files))
      | Stored _ _ \<Rightarrow> (RError [], r, files))"

definition registry_machine :: "'f op_machine \<Rightarrow> ops_args \<Rightarrow> (hosted_registry, 'f) machine \<Rightarrow> (hosted_registry, 'f) machine" where
  "registry_machine ma base server =
     server\<lparr>ma_hold := hold_hosted ma base, ma_init := init_hosted ma, ma_answer := ask_hosted ma base\<rparr>"

text \<open>The two requests that name a file of the server to write or to read.\<close>

definition names_a_file :: "request \<Rightarrow> bool" where
  "names_a_file request \<longleftrightarrow> (\<exists>registry path. request = Export registry path) \<or> (\<exists>name path. request = Import name path)"

text \<open>No other request sees the files or touches them.\<close>

lemma arm_apart_from_files:
  "\<not> names_a_file request \<Longrightarrow>
     arm ma a request h files = (fst (arm ma a request h files'), fst (snd (arm ma a request h files')), files)"
  by (cases request) (auto simp: arm_def Let_def names_a_file_def split_beta split: option.split sum.split)

lemma answer_apart_from_files:
  assumes "\<not> names_a_file request"
  shows "\<exists>said h'. \<forall>files. registry_answer ma base version request h files = (said, h', files)"
proof (cases "reap_transactions ma h")
  case (Pair swept h')
  show ?thesis
  proof (cases swept)
    case (Inr _)
    then show ?thesis using Pair arm_apart_from_files[OF assms] unfolding registry_answer_def answer_def by fastforce
  qed (use Pair in \<open>simp add: registry_answer_def answer_def\<close>)
qed

end
