(* ===== verification/Url_Properties.thy ===== *)
theory Url_Properties
  imports Connection_Url
begin

text \<open>
  What the connection url promises: the credential reaches the credential field and nothing else, and
  the parser answers exactly the well-formed urls, each of which has a spelling.
\<close>

section \<open>Splitting\<close>

lemma split_on_append:
  "split_on ''://'' s = None \<Longrightarrow> split_on ''://'' (s @ ''://'' @ rest) = Some (s, rest)"
proof (induction s)
  case (Cons c s)
  have here: "take (length ''://'') (c # s) \<noteq> ''://''" and later: "split_on ''://'' s = None"
    using Cons.prems by (auto split: if_splits)
  have "take (length ''://'') ((c # s) @ ''://'' @ rest) \<noteq> ''://''"
  proof (cases s rule: remdups_adj.cases)
    case (3 x y zs)
    then show ?thesis using here by simp
  qed simp_all
  then show ?case using Cons.IH[OF later] by simp
qed simp

lemma split_on_Some: "split_on pat s = Some (a, b) \<Longrightarrow> s = a @ pat @ b"
proof (induction s arbitrary: a)
  case (Cons c s)
  show ?case
  proof (cases "take (length pat) (c # s) = pat")
    case True
    then have "a = []" "b = drop (length pat) (c # s)" using Cons.prems by auto
    then show ?thesis using True by (metis append_Nil append_take_drop_id)
  next
    case False
    then obtain a' where a': "split_on pat s = Some (a', b)" "a = c # a'"
      using Cons.prems by (auto simp: map_option_case split: option.splits)
    have "s = a' @ pat @ b" by (rule Cons.IH) (rule a'(1))
    then show ?thesis using a'(2) by simp
  qed
qed (auto split: if_splits)

lemma rsplit_once_append: "c \<notin> set b \<Longrightarrow> rsplit_once c (a @ c # b) = Some (a, b)"
  using split_once_append[of c "rev b" "rev a"] by (simp add: rsplit_once_def)

lemma rsplit_once_Some: "rsplit_once c s = Some (a, b) \<Longrightarrow> s = a @ c # b \<and> c \<notin> set b"
proof -
  assume "rsplit_once c s = Some (a, b)"
  then obtain x y where "split_once c (rev s) = Some (x, y)" "a = rev y" "b = rev x" by (auto simp: rsplit_once_def)
  with split_once_Some[of c "rev s" x y] have "rev s = rev b @ c # rev a" "c \<notin> set b" by simp_all
  then show ?thesis by (metis append.assoc append_Cons append_Nil rev.simps(2) rev_append rev_rev_ident)
qed

lemma rsplit_once_None: "rsplit_once c s = None \<longleftrightarrow> c \<notin> set s"
  by (simp add: rsplit_once_def split_once_def)

lemma find_skip: "\<forall>c \<in> set xs. \<not> P c \<Longrightarrow> find P (xs @ ys) = find P ys"
  by (induction xs) auto

section \<open>The credential goes nowhere else\<close>

definition opaque_key :: "string \<Rightarrow> bool" where
  "opaque_key k \<longleftrightarrow> k \<noteq> [] \<and> set k \<inter> set ''/@:?#'' = {}"

lemma redacted_key:
  assumes "split_on ''://'' scheme = None" and "opaque_key k" and "colon = '''' \<or> colon = '':''"
  shows "redacted (scheme @ ''://'' @ colon @ k @ ''@'' @ a) = scheme @ ''://:***@'' @ a"
proof -
  let ?info = "colon @ k"
  have no: "CHR ''/'' \<notin> set ?info" "CHR ''@'' \<notin> set ?info" using assms(2,3) by (auto simp: opaque_key_def)
  have "takeWhile (\<lambda>c. c \<noteq> CHR ''/'') (?info @ ''@'' @ a) = ?info @ CHR ''@'' # takeWhile (\<lambda>c. c \<noteq> CHR ''/'') a"
    using no(1) by (subst takeWhile_append2) auto
  then show ?thesis
    using split_on_append[OF assms(1), of "?info @ ''@'' @ a"] split_once_append[OF no(2)]
    by (simp add: redacted_def)
qed

lemma userinfo_key:
  assumes "opaque_key k" and "colon = '''' \<or> colon = '':''"
  shows "userinfo text (colon @ k @ ''@'' @ a) = Inr (Some k, a)"
proof -
  let ?info = "colon @ k"
  have no: "CHR ''/'' \<notin> set ?info" "CHR ''@'' \<notin> set ?info" using assms by (auto simp: opaque_key_def)
  have "takeWhile (\<lambda>c. c \<noteq> CHR ''/'') (?info @ ''@'' @ a) = ?info @ CHR ''@'' # takeWhile (\<lambda>c. c \<noteq> CHR ''/'') a"
    using no(1) by (subst takeWhile_append2) auto
  moreover have "(case ?info of c # r \<Rightarrow> if c = CHR '':'' then r else ?info | [] \<Rightarrow> ?info) = k"
    using assms by (auto simp: opaque_key_def split: list.split)
  moreover have "k \<noteq> []" "CHR '':'' \<notin> set k" using assms(1) by (auto simp: opaque_key_def)
  ultimately show ?thesis
    using split_once_append[OF no(2), of "takeWhile (\<lambda>c. c \<noteq> CHR ''/'') a"] by (simp add: userinfo_def Let_def)
qed

lemma malformed_cong: "redacted t = redacted u \<Longrightarrow> malformed t = malformed u"
  by (simp add: malformed_def fun_eq_iff)

lemma parse_address_cong: "redacted t = redacted u \<Longrightarrow> parse_address t = parse_address u"
proof -
  assume "redacted t = redacted u"
  then have m: "malformed t = malformed u" by (rule malformed_cong)
  then have "registry_segment t = registry_segment u" by (intro ext) (simp only: registry_segment_def m)
  then show ?thesis
    by (intro ext) (simp only: parse_address_def local_url_def unix_url_def websocket_url_def m)
qed

text \<open>Property C21. An opaque credential, that is one that is not empty and holds none of \<open>/ @ : ? #\<close>, reaches the
  credential field and nothing else: whatever follows it in the url, the parser's answer is one and the same
  for every such key and for both spellings of the userinfo, up to that field. So no refusal, which quotes
  the url back, says anything of the key. Every key that the server generates is opaque
  (\<open>generated_is_opaque\<close>); a key with a slash is not, and a refusal quotes it in full
  (\<open>slash_hides_a_credential\<close>).\<close>

theorem credential_reaches_nothing_else:
  assumes "split_on ''://'' scheme = None"
  shows "\<exists>outcome. \<forall>k colon. opaque_key k \<longrightarrow> colon \<in> {'''', '':''} \<longrightarrow>
    parse_url (scheme @ ''://'' @ colon @ k @ ''@'' @ a) = map_sum id (\<lambda>url. url\<lparr>cu_credential := Some k\<rparr>) outcome"
proof -
  let ?text = "\<lambda>colon k. scheme @ ''://'' @ colon @ k @ ''@'' @ a"
  let ?R = "?text '''' ''k''"
  let ?outcome = "case find (\<lambda>c. c = CHR ''?'' \<or> c = CHR ''#'') a of
      Some bad \<Rightarrow> Inl (malformed ?R (quoted [bad] @ '' has no meaning here'' @ dash @
               ''a borg url is a transport, an address and a registry, and nothing else''))
    | None \<Rightarrow> parse_address ?R scheme a"
  have "parse_url (?text colon k) = map_sum id (\<lambda>url. url\<lparr>cu_credential := Some k\<rparr>) ?outcome"
    if k: "opaque_key k" and colon: "colon = '''' \<or> colon = '':''" for k colon
  proof -
    have "opaque_key ''k''" by (simp add: opaque_key_def)
    then have r: "redacted (?text colon k) = redacted ?R"
      using redacted_key[OF assms k colon, of a] redacted_key[OF assms, of "''k''" "''''" a] by simp
    have "find (\<lambda>c. c = CHR ''?'' \<or> c = CHR ''#'') (colon @ k @ ''@'' @ a) = find (\<lambda>c. c = CHR ''?'' \<or> c = CHR ''#'') a"
    proof -
      have "\<forall>c \<in> set (colon @ k @ ''@''). \<not> (c = CHR ''?'' \<or> c = CHR ''#'')"
        using k colon by (auto simp: opaque_key_def)
      from find_skip[OF this, of a] show ?thesis by simp
    qed
    note f = this
    have "parse_url (?text colon k) =
      (case find (\<lambda>c. c = CHR ''?'' \<or> c = CHR ''#'') a of
         Some bad \<Rightarrow> Inl (malformed ?R (quoted [bad] @ '' has no meaning here'' @ dash @
               ''a borg url is a transport, an address and a registry, and nothing else''))
       | None \<Rightarrow> (case parse_address ?R scheme a of Inl err \<Rightarrow> Inl err | Inr url \<Rightarrow> Inr (url\<lparr>cu_credential := Some k\<rparr>)))"
      unfolding parse_url_def split_on_append[OF assms] option.case prod.case f userinfo_key[OF k colon] sum.case
        malformed_cong[OF r] parse_address_cong[OF r] by (rule refl)
    then show ?thesis
      by (cases "find (\<lambda>c. c = CHR ''?'' \<or> c = CHR ''#'') a"; cases "parse_address ?R scheme a") simp_all
  qed
  then show ?thesis by (intro exI[of _ ?outcome]) blast
qed

lemma credential_reaches_nothing_else_witness:
  "parse_url ''borg://secret@h/a'' = parse_url ''borg://:other@h/a''"
proof -
  have "split_on ''://'' ''borg'' = None" by simp
  from credential_reaches_nothing_else[OF this, of "''h/a''"] obtain outcome where
    o: "\<And>k colon. opaque_key k \<Longrightarrow> colon \<in> {'''', '':''} \<Longrightarrow>
      parse_url (''borg'' @ ''://'' @ colon @ k @ ''@'' @ ''h/a'') = map_sum id (\<lambda>url. url\<lparr>cu_credential := Some k\<rparr>) outcome"
    by blast
  have 1: "parse_url ''borg://secret@h/a'' = map_sum id (\<lambda>url. url\<lparr>cu_credential := Some ''secret''\<rparr>) outcome"
    using o[of "''secret''" "''''"] by (simp add: opaque_key_def)
  have 2: "parse_url ''borg://:other@h/a'' = map_sum id (\<lambda>url. url\<lparr>cu_credential := Some ''other''\<rparr>) outcome"
    using o[of "''other''" "'':''"] by (simp add: opaque_key_def)
  have "\<exists>m. parse_url ''borg://secret@h/a'' = Inl m"
    by (simp add: parse_url_def userinfo_def split_once_def parse_address_def local_url_def)
  then show ?thesis using 1 2 by (cases outcome) auto
qed

section \<open>What parses\<close>

definition clean :: "string \<Rightarrow> bool" where "clean s \<longleftrightarrow> CHR ''?'' \<notin> set s \<and> CHR ''#'' \<notin> set s"

definition transport_ok :: "connection_url \<Rightarrow> bool" where
  "transport_ok url =
     (case cu_transport url of
        TLocal \<Rightarrow> True
      | TUnix path \<Rightarrow> take 1 path = ''/'' \<and> clean path
      | TWs secure host port \<Rightarrow> host \<noteq> [] \<and> CHR ''/'' \<notin> set host \<and> clean host \<and>
          (cu_credential url = None \<longrightarrow> CHR ''@'' \<notin> set host))"

definition url_ok :: "connection_url \<Rightarrow> bool" where
  "url_ok url \<longleftrightarrow> pred_option opaque_key (cu_credential url) \<and>
     pred_option name_is_valid (cu_registry url) \<and> transport_ok url"

text \<open>The spelling of a url, with nothing left to a default.\<close>

definition spell_scheme :: "connection_url \<Rightarrow> string" where
  "spell_scheme url =
     (case cu_transport url of TLocal \<Rightarrow> ''borg'' | TUnix _ \<Rightarrow> ''borg+unix''
      | TWs secure _ _ \<Rightarrow> if secure then ''borg+wss'' else ''borg+ws'')"

definition spell_key :: "string option \<Rightarrow> string" where
  "spell_key credential = (case credential of None \<Rightarrow> [] | Some k \<Rightarrow> '':'' @ k @ ''@'')"

definition spell_registry :: "string option \<Rightarrow> string" where
  "spell_registry registry = ''/'' @ (case registry of None \<Rightarrow> [] | Some name \<Rightarrow> name)"

definition spell_host :: "connection_url \<Rightarrow> string" where
  "spell_host url =
     (case cu_transport url of TLocal \<Rightarrow> ''localhost'' | TUnix path \<Rightarrow> path
      | TWs _ host port \<Rightarrow> host @ '':'' @ show_nat (unat port))"

definition spell_url :: "connection_url \<Rightarrow> string" where
  "spell_url url = spell_scheme url @ ''://'' @ spell_key (cu_credential url) @ spell_host url @ spell_registry (cu_registry url)"

lemma valid_chars: "name_is_valid name \<Longrightarrow> c \<in> set name \<Longrightarrow> c \<notin> set ''/@:?#''"
  by (auto simp: name_is_valid_def list_all_iff is_ascii_alphanumeric_def is_digit_def less_eq_char_def)

lemma digit_chars: "c \<in> set (show_nat n) \<Longrightarrow> c \<notin> set ''/@:?#''"
  using show_nat_digits[of n] by (auto simp: list_all_iff is_digit_def less_eq_char_def)

lemma trim_none: "s = [] \<or> last s \<noteq> CHR ''/'' \<Longrightarrow> trim_end_slashes s = s"
  by (cases s rule: rev_cases) (auto simp: trim_end_slashes_def)

lemma registry_segment_spelled:
  "pred_option name_is_valid registry \<Longrightarrow>
     registry_segment text (case registry of None \<Rightarrow> [] | Some name \<Rightarrow> name) = Inr registry"
proof (cases registry)
  case (Some name)
  assume "pred_option name_is_valid registry"
  then have v: "name_is_valid name" by (simp add: Some)
  then have "name \<noteq> []" "CHR ''/'' \<notin> set name" using valid_chars[OF v] by (auto simp: name_is_valid_def)
  moreover from this have "trim_end_slashes name = name" using trim_none[of name] last_in_set by metis
  ultimately show ?thesis using v by (simp add: registry_segment_def Some)
qed (simp add: registry_segment_def trim_none)

lemma registry_segment_valid: "registry_segment text tail = Inr registry \<Longrightarrow> pred_option name_is_valid registry"
  by (auto simp: registry_segment_def Let_def split: if_splits)

lemma parse_u16_show [simp]: "parse_u16 (show_nat (unat (w :: u16))) = Some w"
proof -
  obtain c t where ct: "show_nat (unat w) = c # t" by (cases "show_nat (unat w)") auto
  moreover have "c \<noteq> CHR ''+''" using ct by (rule show_nat_not_plus)
  moreover have "digits_val (c # t) = unat w" and "list_all is_digit (c # t)"
    using digits_val_show_nat[of "unat w"] show_nat_digits[of "unat w"] by (simp_all add: ct)
  moreover have "unat w < 2 ^ 16" using unsigned_less[of w] by simp
  ultimately show ?thesis by (simp add: parse_u16_def)
qed

lemma parse_spelled:
  assumes ok: "url_ok url"
  shows "parse_address text (spell_scheme url) (spell_host url @ spell_registry (cu_registry url)) =
    Inr (url\<lparr>cu_credential := None\<rparr>)"
proof -
  have reg: "pred_option name_is_valid (cu_registry url)" using ok by (simp add: url_ok_def)
  note seg = registry_segment_spelled[OF reg]
  show ?thesis
  proof (cases "cu_transport url")
    case TLocal
    have "split_once (CHR ''/'') (''localhost'' @ CHR ''/'' # tail) = Some (''localhost'', tail)" for tail
      by (rule split_once_append) simp
    then show ?thesis using TLocal seg
      by (simp add: parse_address_def spell_scheme_def spell_host_def spell_registry_def local_url_def)
  next
    case (TUnix path)
    then have p: "take 1 path = ''/''" using ok by (simp add: url_ok_def transport_ok_def)
    then have ne: "path \<noteq> []" by auto
    let ?rest = "path @ spell_registry (cu_registry url)"
    have "unix_url text ?rest = Inr (url\<lparr>cu_credential := None\<rparr>)"
    proof (cases "cu_registry url")
      case None
      then show ?thesis using p ne TUnix by (simp add: spell_registry_def unix_url_def butlast_append Suc_le_eq)
    next
      case (Some name)
      then have v: "name_is_valid name" using reg by simp
      then have n: "name \<noteq> []" "CHR ''/'' \<notin> set name" using valid_chars[OF v] by (auto simp: name_is_valid_def)
      then have "last name \<noteq> CHR ''/''" using last_in_set by metis
      then show ?thesis using p ne n v TUnix rsplit_once_append[OF n(2), of path]
        by (simp add: spell_registry_def unix_url_def Some Suc_le_eq)
    qed
    then show ?thesis using TUnix by (simp add: parse_address_def spell_scheme_def spell_host_def)
  next
    case (TWs secure host port)
    then have h: "host \<noteq> []" "CHR ''/'' \<notin> set host" using ok by (simp_all add: url_ok_def transport_ok_def)
    let ?auth = "host @ CHR '':'' # show_nat (unat port)"
    let ?tail = "case cu_registry url of None \<Rightarrow> [] | Some name \<Rightarrow> name"
    have "CHR ''/'' \<notin> set ?auth" using h(2) digit_chars[of _ "unat port"] by auto
    then have s: "split_once (CHR ''/'') (?auth @ CHR ''/'' # ?tail) = Some (?auth, ?tail)" by (rule split_once_append)
    have r: "rsplit_once (CHR '':'') ?auth = Some (host, show_nat (unat port))"
      by (rule rsplit_once_append) (use digit_chars[of _ "unat port"] in auto)
    have "websocket_url text (?auth @ CHR ''/'' # ?tail) secure = Inr (url\<lparr>cu_credential := None\<rparr>)"
      using h(1) TWs unfolding websocket_url_def s option.case prod.case Let_def r seg parse_u16_show sum.case by simp
    then show ?thesis using TWs by (cases secure) (simp_all add: parse_address_def spell_scheme_def spell_host_def spell_registry_def)
  qed
qed

lemma address_ok:
  assumes p: "parse_address text scheme rest = Inr url" and clean: "clean rest"
    and cred: "pred_option opaque_key credential"
    and none: "credential = None \<Longrightarrow> CHR ''@'' \<notin> set (takeWhile (\<lambda>c. c \<noteq> CHR ''/'') rest)"
  shows "url_ok (url\<lparr>cu_credential := credential\<rparr>)"
proof -
  consider "local_url text rest = Inr url" | "unix_url text rest = Inr url" | secure where "websocket_url text rest secure = Inr url"
    using p by (auto simp: parse_address_def split: if_splits)
  then show ?thesis
  proof cases
    case 1
    then show ?thesis using cred
      by (auto simp: local_url_def url_ok_def transport_ok_def split: option.splits prod.splits sum.splits if_splits dest: registry_segment_valid)
  next
    case 2
    then have slash: "take 1 rest = ''/''" by (auto simp: unix_url_def split: if_splits)
    show ?thesis
    proof (cases "last rest = CHR ''/''")
      case True
      then have u: "butlast rest \<noteq> []" "url = \<lparr>cu_transport = TUnix (butlast rest), cu_registry = None, cu_credential = None\<rparr>"
        using 2 slash by (auto simp: unix_url_def Let_def split: if_splits)
      have "take 1 (butlast rest) = ''/''" using u(1) slash by (cases rest) (auto split: if_splits)
      then show ?thesis using u(2) cred clean by (auto simp: url_ok_def transport_ok_def clean_def dest: in_set_butlastD)
    next
      case False
      have "CHR ''/'' \<in> set rest" using slash by (cases rest) auto
      then obtain head lst where hl: "rsplit_once (CHR ''/'') rest = Some (head, lst)" using rsplit_once_None by fastforce
      note rest = rsplit_once_Some[OF hl]
      show ?thesis
      proof (cases "head \<noteq> [] \<and> name_is_valid lst")
        case True
        then have "url = \<lparr>cu_transport = TUnix head, cu_registry = Some lst, cu_credential = None\<rparr>"
          using 2 slash False hl by (simp add: unix_url_def)
        moreover have "take 1 head = ''/''" using True slash rest by (cases head) auto
        ultimately show ?thesis using True cred clean rest by (auto simp: url_ok_def transport_ok_def clean_def)
      next
        case invalid: False
        then have "url = \<lparr>cu_transport = TUnix rest, cu_registry = None, cu_credential = None\<rparr>"
          using 2 slash False hl by (auto simp: unix_url_def split: if_splits)
        then show ?thesis using slash cred clean by (simp add: url_ok_def transport_ok_def)
      qed
    qed
  next
    case (3 secure)
    obtain authority tail where at: "(case split_once (CHR ''/'') rest of Some ht \<Rightarrow> ht | None \<Rightarrow> (rest, [])) = (authority, tail)"
      by fastforce
    have auth: "authority = takeWhile (\<lambda>c. c \<noteq> CHR ''/'') rest"
    proof (cases "CHR ''/'' \<in> set rest")
      case False
      then have "takeWhile (\<lambda>c. c \<noteq> CHR ''/'') rest = rest" by (auto simp: takeWhile_eq_all_conv)
      moreover have "authority = rest" using at False by (simp add: split_once_def)
      ultimately show ?thesis by metis
    qed (use at in \<open>simp add: split_once_def\<close>)
    then have sub: "set authority \<subseteq> set rest" by (auto dest: set_takeWhileD)
    have no: "CHR ''/'' \<notin> set authority" unfolding auth by (auto dest: set_takeWhileD)
    obtain host port registry where url: "url = \<lparr>cu_transport = TWs secure host port, cu_registry = registry, cu_credential = None\<rparr>"
      and host: "host \<noteq> []" "set host \<subseteq> set authority" and reg: "registry_segment text tail = Inr registry"
      using 3 unfolding websocket_url_def at prod.case Let_def
      by (fastforce split: if_splits option.splits prod.splits sum.splits dest!: rsplit_once_Some)
    then show ?thesis
      using url host reg cred no clean none sub unfolding auth
      by (auto simp: url_ok_def transport_ok_def clean_def dest: registry_segment_valid)
  qed
qed

text \<open>Property C23. The parser answers exactly the well-formed urls: each of them has a spelling that parses to
  it, and no other is ever the answer for any text.\<close>

theorem parser_answers_exactly_the_well_formed:
  "if url_ok url then parse_url (spell_url url) = Inr url else \<forall>text. parse_url text \<noteq> Inr url"
proof (cases "url_ok url")
  case True
  let ?key = "spell_key (cu_credential url)"
  let ?body = "spell_host url @ spell_registry (cu_registry url)"
  have scheme: "split_on ''://'' (spell_scheme url) = None"
    by (cases "cu_transport url") (simp_all add: spell_scheme_def)
  have cleanbody: "clean (?key @ ?body)"
  proof -
    have "clean ?key" using True by (cases "cu_credential url") (auto simp: spell_key_def clean_def url_ok_def opaque_key_def)
    moreover have "clean (spell_registry (cu_registry url))"
      using True valid_chars by (cases "cu_registry url") (fastforce simp: spell_registry_def clean_def url_ok_def)+
    moreover have "clean (spell_host url)"
      using True digit_chars by (cases "cu_transport url") (fastforce simp: spell_host_def clean_def url_ok_def transport_ok_def)+
    ultimately show ?thesis by (auto simp: clean_def)
  qed
  have finds: "find (\<lambda>c. c = CHR ''?'' \<or> c = CHR ''#'') (?key @ ?body) = None"
    unfolding find_None_iff using cleanbody by (auto simp: clean_def)
  have user: "userinfo (spell_url url) (?key @ ?body) = Inr (cu_credential url, ?body)"
  proof (cases "cu_credential url")
    case None
    have "CHR ''@'' \<notin> set (takeWhile (\<lambda>c. c \<noteq> CHR ''/'') ?body)"
    proof (cases "cu_transport url")
      case (TUnix path)
      then have "take 1 path = ''/''" using True by (simp add: url_ok_def transport_ok_def)
      then show ?thesis using TUnix by (cases path) (simp_all add: spell_host_def)
    next
      case (TWs secure host port)
      then have "CHR ''@'' \<notin> set (spell_host url)"
        using True None digit_chars[of "CHR ''@''" "unat port"] by (auto simp: spell_host_def url_ok_def transport_ok_def)
      then show ?thesis by (auto simp: spell_registry_def takeWhile_append dest: set_takeWhileD)
    qed (simp add: spell_host_def spell_registry_def)
    then show ?thesis using None by (simp add: userinfo_def spell_key_def)
  next
    case (Some k)
    then have "opaque_key k" using True by (simp add: url_ok_def)
    from userinfo_key[OF this, of "'':''" "spell_url url" ?body] show ?thesis using Some by (simp add: spell_key_def)
  qed
  have "split_on ''://'' (spell_url url) = Some (spell_scheme url, ?key @ ?body)"
    unfolding spell_url_def by (rule split_on_append[OF scheme])
  then have "parse_url (spell_url url) = Inr url"
    unfolding parse_url_def using finds user parse_spelled[OF True, of "spell_url url"] by simp
  then show ?thesis using True by simp
next
  case False
  have "url_ok url" if p: "parse_url t = Inr url" for t
  proof -
    obtain scheme rest where s: "split_on ''://'' t = Some (scheme, rest)" using p by (auto simp: parse_url_def split: option.splits)
    have f: "find (\<lambda>c. c = CHR ''?'' \<or> c = CHR ''#'') rest = None" using p s by (simp add: parse_url_def split: option.splits)
    then have cl: "clean rest" by (auto simp: find_None_iff clean_def)
    obtain credential tail u where u: "userinfo t rest = Inr (credential, tail)" "parse_address t scheme tail = Inr u"
      "url = u\<lparr>cu_credential := credential\<rparr>" using p s f by (auto simp: parse_url_def split: sum.splits)
    let ?auth = "takeWhile (\<lambda>c. c \<noteq> CHR ''/'') rest"
    show ?thesis unfolding u(3)
    proof (rule address_ok[OF u(2)])
      have "set tail \<subseteq> set rest" using u(1) by (auto simp: userinfo_def Let_def split: option.splits if_splits dest: in_set_dropD)
      then show "clean tail" using cl by (auto simp: clean_def)
      show "pred_option opaque_key credential"
      proof (cases "split_once (CHR ''@'') ?auth")
        case (Some q)
        obtain info y where q: "q = (info, y)" by (cases q)
        have sub: "set info \<subseteq> set ?auth" "CHR ''@'' \<notin> set info" using split_once_Some[OF Some[unfolded q]] by auto
        have "CHR ''/'' \<notin> set info" "set info \<subseteq> set rest" using sub by (auto dest: set_takeWhileD)
        then show ?thesis using u(1) Some q sub(2) cl
          by (auto simp: userinfo_def Let_def opaque_key_def clean_def split: list.splits if_splits)
      qed (use u(1) in \<open>simp add: userinfo_def\<close>)
      show "CHR ''@'' \<notin> set (takeWhile (\<lambda>c. c \<noteq> CHR ''/'') tail)" if "credential = None"
        using u(1) that by (auto simp: userinfo_def Let_def split_once_def split: if_splits)
    qed
  qed
  then show ?thesis using False by auto
qed

text \<open>A userinfo is only looked for before the first slash, so one that holds a slash is not taken out.\<close>

lemma slash_hides_a_credential: "redacted ''borg://:ab/cd@host/crm'' = ''borg://:ab/cd@host/crm''"
  by (simp add: redacted_def split_once_def)

end
