(* ===== verification/Keys_Properties.thy ===== *)
theory Keys_Properties
  imports Keys Url_Properties
begin

text \<open>
  What the keys promise: who gets in is what a ledger of the keys issued and revoked says, a server that
  has issued a key is never open again, and a generated key goes into a url as it is.
\<close>

section \<open>A generated key\<close>

lemma alphabet_chars: "list_all (\<lambda>c. c \<notin> set ''/@:?#'') KEY_ALPHABET" "length KEY_ALPHABET = 64"
  by (simp_all add: KEY_ALPHABET_def)

lemma base64_chunk_chars: "c \<in> set (base64_chunk chunk) \<Longrightarrow> c \<notin> set ''/@:?#''"
proof -
  assume "c \<in> set (base64_chunk chunk)"
  then obtain at where c: "c = KEY_ALPHABET ! unat (drop_bit (18 - 6 * at) (packed_chunk chunk) AND 0x3f)"
    by (auto simp: base64_chunk_def)
  have "drop_bit (18 - 6 * at) (packed_chunk chunk) AND 0x3f \<le> 0x3f" by (rule word_and_le1)
  then have "unat (drop_bit (18 - 6 * at) (packed_chunk chunk) AND 0x3f) < length KEY_ALPHABET"
    by (simp add: word_le_nat_alt alphabet_chars)
  then show ?thesis using alphabet_chars(1) unfolding c list_all_length by blast
qed

lemma base64url_chars: "c \<in> set (base64url bytes) \<Longrightarrow> c \<notin> set ''/@:?#''"
  by (induction bytes rule: base64url.induct) (auto dest: base64_chunk_chars)

lemma generated_is_opaque: "generate_key random = Inr key \<Longrightarrow> opaque_key key"
  using base64url_chars by (fastforce simp: generate_key_def opaque_key_def split: option.splits)

section \<open>The ledger\<close>

text \<open>What an operator remembers: the live keys by label, and whether one was ever issued.\<close>

record ledger =
  lg_live :: "string \<Rightarrow> (string \<times> scope) option"
  lg_ever :: bool

definition ledger_new :: ledger where "ledger_new = \<lparr>lg_live = Map.empty, lg_ever = False\<rparr>"

definition key_dir_new :: key_dir where "key_dir_new = \<lparr>kd_keys = NoKeysFile, kd_admin = None\<rparr>"

text \<open>One command, one boot or shutdown of a server, or an accident to the file.\<close>

inductive keys_step :: "(u8 list \<Rightarrow> u8 list) \<Rightarrow> key_dir \<times> ledger \<Rightarrow> key_dir \<times> ledger \<Rightarrow> bool" for hash where
  Issue: "issue hash random now disk label sc dir = (Inr key, dir') \<Longrightarrow>
    keys_step hash (dir, g) (dir', g\<lparr>lg_live := (lg_live g)(label \<mapsto> (key, sc)), lg_ever := True\<rparr>)"
| Issue_Fails: "issue hash random now disk label sc dir = (Inl err, dir') \<Longrightarrow> keys_step hash (dir, g) (dir', g)"
| Revoke: "revoke disk label dir = (Inr (), dir') \<Longrightarrow>
    keys_step hash (dir, g) (dir', g\<lparr>lg_live := (lg_live g)(label := None)\<rparr>)"
| Revoke_Fails: "revoke disk label dir = (Inl err, dir') \<Longrightarrow> keys_step hash (dir, g) (dir', g)"
| Mint: "keys_step hash (dir, g) (snd (mint_admin random disk dir), g)"
| Clear: "keys_step hash (dir, g) (clear_admin dir, g)"
| Damage: "kd_keys dir \<noteq> NoKeysFile \<Longrightarrow> broken \<in> {UnreadableKeys, UnparsableKeys} \<Longrightarrow>
    keys_step hash (dir, g) (dir\<lparr>kd_keys := broken\<rparr>, g)"

definition keys_reachable :: "(u8 list \<Rightarrow> u8 list) \<Rightarrow> key_dir \<Rightarrow> ledger \<Rightarrow> bool" where
  "keys_reachable hash dir g \<longleftrightarrow> (keys_step hash)\<^sup>*\<^sup>* (key_dir_new, ledger_new) (dir, g)"

definition entry_of :: "key list \<Rightarrow> string \<Rightarrow> (string \<times> scope) option" where
  "entry_of keys = map_of (map (\<lambda>key. (ky_label key, (ky_hash key, ky_registries key))) keys)"

definition ledger_ok :: "(u8 list \<Rightarrow> u8 list) \<Rightarrow> key_dir \<Rightarrow> ledger \<Rightarrow> bool" where
  "ledger_ok hash dir g \<longleftrightarrow> (\<forall>label k sc. lg_live g label = Some (k, sc) \<longrightarrow> k \<noteq> []) \<and>
     (case kd_keys dir of
        NoKeysFile \<Rightarrow> lg_live g = Map.empty \<and> \<not> lg_ever g
      | KeysFile keys \<Rightarrow> lg_ever g \<and> distinct (map ky_label keys) \<and>
          (\<forall>label. entry_of keys label = map_option (map_prod (digest hash) id) (lg_live g label))
      | _ \<Rightarrow> lg_ever g)"

lemma labelled_entry: "labelled label keys = None \<longleftrightarrow> label \<notin> set (map ky_label keys)"
  by (auto simp: labelled_def find_None_iff)

lemma entry_of_append:
  "label \<notin> set (map ky_label keys) \<Longrightarrow>
     entry_of (keys @ [\<lparr>ky_label = label, ky_hash = h, ky_registries = sc, ky_created = now\<rparr>]) = (entry_of keys)(label \<mapsto> (h, sc))"
  by (induction keys) (auto simp: entry_of_def fun_eq_iff)

lemma entry_of_filter: "entry_of (filter (\<lambda>key. ky_label key \<noteq> label) keys) = (entry_of keys)(label := None)"
  by (induction keys) (auto simp: entry_of_def fun_eq_iff)

lemma issue_cases:
  assumes "issue hash random now disk label sc dir = (Inr key, dir')"
  obtains keys where "keys_load dir = Inr None \<and> keys = [] \<or> keys_load dir = Inr (Some keys)"
    "label \<notin> set (map ky_label keys)" "key \<noteq> []"
    "dir' = dir\<lparr>kd_keys := KeysFile (keys @ [\<lparr>ky_label = label, ky_hash = digest hash key, ky_registries = sc, ky_created = now\<rparr>])\<rparr>"
proof -
  obtain found where f: "keys_load dir = Inr found"
    using assms by (auto simp: issue_def split: sum.splits)
  let ?keys = "case found of None \<Rightarrow> [] | Some keys \<Rightarrow> keys"
  show thesis
    by (rule that[of ?keys])
      (use assms f in \<open>auto simp: issue_def keys_save_def Let_def labelled_entry generate_key_def
          split: sum.splits option.splits if_splits prod.splits\<close>)
qed

lemma ledger_ok_step: "keys_step hash s t \<Longrightarrow> ledger_ok hash (fst s) (snd s) \<Longrightarrow> ledger_ok hash (fst t) (snd t)"
proof (induction rule: keys_step.induct)
  case (Issue random now disk label sc dir key dir' g)
  obtain keys where k: "keys_load dir = Inr None \<and> keys = [] \<or> keys_load dir = Inr (Some keys)"
    "label \<notin> set (map ky_label keys)" "key \<noteq> []"
    "dir' = dir\<lparr>kd_keys := KeysFile (keys @ [\<lparr>ky_label = label, ky_hash = digest hash key, ky_registries = sc, ky_created = now\<rparr>])\<rparr>"
    using issue_cases[OF Issue.hyps] by blast
  have old: "distinct (map ky_label keys)" "\<forall>l. entry_of keys l = map_option (map_prod (digest hash) id) (lg_live g l)"
    using k(1) Issue.prems by (auto simp: keys_load_def ledger_ok_def entry_of_def split: keys_file.splits)
  show ?case using Issue.prems k(2,3) old unfolding k(4)
    by (auto simp: ledger_ok_def entry_of_append)
next
  case (Issue_Fails random now disk label sc dir err dir' g)
  then show ?case
    by (auto simp: issue_def keys_save_def Let_def split: sum.splits option.splits if_splits prod.splits)
next
  case (Revoke disk label dir dir' g)
  then show ?case
    by (auto simp: revoke_def keys_save_def keys_load_def Let_def ledger_ok_def entry_of_filter distinct_map_filter
        split: sum.splits option.splits if_splits prod.splits keys_file.splits)
next
  case (Revoke_Fails disk label dir err dir' g)
  then show ?case by (auto simp: revoke_def keys_save_def Let_def split: sum.splits option.splits if_splits prod.splits)
next
  case (Mint dir g random disk)
  then show ?case by (auto simp: mint_admin_def ledger_ok_def split: sum.splits)
next
  case (Clear dir g)
  then show ?case by (simp add: clear_admin_def ledger_ok_def)
next
  case (Damage dir broken g)
  then show ?case by (auto simp: ledger_ok_def split: keys_file.splits)
qed

lemma ledger_ok_reachable: "keys_reachable hash dir g \<Longrightarrow> ledger_ok hash dir g"
proof -
  assume "keys_reachable hash dir g"
  then have "(keys_step hash)\<^sup>*\<^sup>* (key_dir_new, ledger_new) (dir, g)" by (simp add: keys_reachable_def)
  then have "ledger_ok hash (fst (dir, g)) (snd (dir, g))"
  proof (induction rule: rtranclp_induct)
    case base
    show ?case by (simp add: ledger_ok_def key_dir_new_def ledger_new_def)
  qed (rule ledger_ok_step)
  then show ?thesis by simp
qed

text \<open>Property C20. Whoever gets in is whom the ledger names. After any sequence of issuing, revoking, booting
  and stopping, and of accidents to the file: a server is open only if it never issued a key; a key is
  granted the label and the scope it was issued under and has not lost; and what is refused is not a live
  key, unless the file is damaged, when everything is. Assumed: the presented string is not the admin
  token of the running server, and collides with no live key under SHA-256.\<close>

theorem access_is_what_the_ledger_says:
  assumes "keys_reachable hash dir g"
    and "\<And>p admin. presented = Some p \<Longrightarrow> read_admin dir = Some admin \<Longrightarrow> digest hash admin \<noteq> digest hash p"
    and "\<And>p label k sc. presented = Some p \<Longrightarrow> lg_live g label = Some (k, sc) \<Longrightarrow> digest hash k = digest hash p \<Longrightarrow> k = p"
  shows "case authorize hash dir presented of
    Inl refusal \<Rightarrow> lg_ever g \<and> (kd_keys dir \<in> {UnreadableKeys, UnparsableKeys} \<or>
      (\<forall>p label sc. presented = Some p \<longrightarrow> lg_live g label \<noteq> Some (p, sc)))
  | Inr AccessOpen \<Rightarrow> \<not> lg_ever g
  | Inr (AccessGranted label sc) \<Rightarrow> \<exists>p. presented = Some p \<and> lg_live g label = Some (p, sc)"
proof -
  note ok = ledger_ok_reachable[OF assms(1)]
  show ?thesis
  proof (cases "kd_keys dir")
    case (KeysFile keys)
    then have e: "lg_ever g" "distinct (map ky_label keys)"
      and entry: "entry_of keys label = map_option (map_prod (digest hash) id) (lg_live g label)" for label
      using ok by (simp_all add: ledger_ok_def)
    have nonempty: "lg_live g label \<noteq> Some ([], sc)" for label sc using ok by (auto simp: ledger_ok_def)
    show ?thesis
    proof (cases "presented = None \<or> presented = Some []")
      case True
      then show ?thesis using KeysFile e nonempty by (auto simp: authorize_def keys_load_def)
    next
      case False
      then obtain p where p: "presented = Some p" "p \<noteq> []" by (cases presented) auto
      have admin: "\<not> (case read_admin dir of None \<Rightarrow> False | Some admin \<Rightarrow> digest hash admin = digest hash p)"
        using assms(2)[OF p(1)] by (auto split: option.splits)
      show ?thesis
      proof (cases "matching hash p keys")
        case None
        have "lg_live g label \<noteq> Some (p, sc)" for label sc
        proof
          assume "lg_live g label = Some (p, sc)"
          then have "entry_of keys label = Some (digest hash p, sc)" using entry by simp
          then have "(label, (digest hash p, sc)) \<in> (\<lambda>key. (ky_label key, (ky_hash key, ky_registries key))) ` set keys"
            by (auto simp: entry_of_def dest: map_of_SomeD)
          then have "\<exists>key \<in> set keys. ky_hash key = digest hash p" by force
          then show False using None by (auto simp: matching_def find_None_iff)
        qed
        then show ?thesis using KeysFile e p admin None by (simp add: authorize_def keys_load_def)
      next
        case (Some found)
        then have f: "found \<in> set keys" "ky_hash found = digest hash p"
          by (auto simp: matching_def find_Some_iff)
        have "entry_of keys (ky_label found) = Some (ky_hash found, ky_registries found)"
          unfolding entry_of_def
          by (rule map_of_is_SomeI) (use e(2) f(1) in \<open>auto simp: comp_def\<close>)
        then obtain k where k: "lg_live g (ky_label found) = Some (k, ky_registries found)" "digest hash k = digest hash p"
          using entry[of "ky_label found"] f(2) by auto
        then have "k = p" using assms(3)[OF p(1)] by blast
        then show ?thesis using KeysFile p admin Some k(1) by (simp add: authorize_def keys_load_def)
      qed
    qed
  qed (use ok in \<open>simp_all add: ledger_ok_def authorize_def keys_load_def\<close>)
qed

lemma access_is_what_the_ledger_says_witness:
  "\<exists>dir g. keys_reachable id dir g \<and> authorize id dir (Some ''borgk_'') = Inr (AccessGranted ''ci'' ScAll) \<and>
     lg_live g ''ci'' = Some (''borgk_'', ScAll)"
proof -
  define dir where "dir = snd (issue id (Some []) 0 True ''ci'' ScAll key_dir_new)"
  define g where "g = ledger_new\<lparr>lg_live := (lg_live ledger_new)(''ci'' \<mapsto> (''borgk_'', ScAll)), lg_ever := True\<rparr>"
  have label: "check_label ''ci'' = Inr ()"
    by (simp add: check_label_def is_ascii_alphanumeric_def is_digit_def less_eq_char_def)
  have i: "issue id (Some []) 0 True ''ci'' ScAll key_dir_new = (Inr ''borgk_'', dir)"
    and keys: "kd_keys dir = KeysFile [\<lparr>ky_label = ''ci'', ky_hash = digest id ''borgk_'', ky_registries = ScAll, ky_created = 0\<rparr>]"
    and admin: "kd_admin dir = None"
    unfolding dir_def issue_def label by (simp_all add: key_dir_new_def keys_load_def labelled_def generate_key_def keys_save_def)
  have r: "keys_reachable id dir g"
    unfolding keys_reachable_def g_def by (rule r_into_rtranclp) (rule keys_step.Issue[OF i])
  have live: "lg_live g = [''ci'' \<mapsto> (''borgk_'', ScAll)]" by (simp add: g_def ledger_new_def)
  have "case authorize id dir (Some ''borgk_'') of
      Inl refusal \<Rightarrow> lg_ever g \<and> (kd_keys dir \<in> {UnreadableKeys, UnparsableKeys} \<or>
        (\<forall>p label sc. Some ''borgk_'' = Some p \<longrightarrow> lg_live g label \<noteq> Some (p, sc)))
    | Inr AccessOpen \<Rightarrow> \<not> lg_ever g
    | Inr (AccessGranted label sc) \<Rightarrow> \<exists>p. Some ''borgk_'' = Some p \<and> lg_live g label = Some (p, sc)"
    by (rule access_is_what_the_ledger_says[OF r]) (auto simp: read_admin_def admin live split: if_splits)
  then have "authorize id dir (Some ''borgk_'') = Inr (AccessGranted ''ci'' ScAll)"
    using keys by (auto simp: live split: sum.splits access.splits if_splits) (simp_all add: g_def)
  then show ?thesis using r live by (intro exI[of _ dir] exI[of _ g]) simp
qed

end
