(* ===== verification/Host_Properties.thy ===== *)
theory Host_Properties
  imports Host
begin

text \<open>
  Who may touch a store: while a server is up, the stores it hosts are refused to every other command.
\<close>

section \<open>Well-formed registries\<close>

definition regs_ok :: "(string, 'r slot) btmap \<Rightarrow> bool" where
  "regs_ok regs \<longleftrightarrow> bt_ok regs \<and> (\<forall>(name, slot) \<in> set regs. sl_name slot = name)"

lemma regs_ok_insert: "regs_ok regs \<Longrightarrow> sl_name slot = name \<Longrightarrow> regs_ok (bt_insert name slot regs)"
proof -
  assume "regs_ok regs" "sl_name slot = name"
  moreover have "set (bt_insert name slot regs) \<subseteq> insert (name, slot) (set regs)"
    by (induction regs) (auto split: if_splits)
  ultimately show ?thesis by (auto simp: regs_ok_def)
qed

definition replace_slot :: "'r slot \<Rightarrow> (string, 'r slot) btmap \<Rightarrow> (string, 'r slot) btmap" where
  "replace_slot slot regs = map (\<lambda>(name, s). (name, if name = sl_name slot then slot else s)) regs"

lemma regs_ok_replace: "regs_ok regs \<Longrightarrow> regs_ok (replace_slot slot regs)"
  by (auto simp: regs_ok_def replace_slot_def bt_ok_def sorted_wrt_map case_prod_beta)

section \<open>A served store is refused to everybody else\<close>

text \<open>Discovery, creating, restoring, claiming, releasing, and a registry's own changes.\<close>

inductive host_reachable :: "'r host \<Rightarrow> bool" where
  Start: "host_reachable (host_open data_dir socket entries claims)"
| Create: "host_reachable host \<Longrightarrow> host_reachable (snd (host_create disk pid init name host))"
| Restore: "host_reachable host \<Longrightarrow> host_reachable (snd (host_restore disk pid (import :: string \<Rightarrow> string \<Rightarrow> string + 'r \<times> import_report) name stream host))"
| Claim: "host_reachable host \<Longrightarrow> \<not> ho_serving host \<Longrightarrow> host_reachable (snd (claim_all listening disk pid host))"
| Release: "host_reachable host \<Longrightarrow> host_reachable (release_all host)"
| Change: "host_reachable host \<Longrightarrow> map_of (ho_registries host) name = Some slot \<Longrightarrow> sl_name slot' = name \<Longrightarrow>
    sl_store slot' = sl_store slot \<Longrightarrow> host_reachable (put_slot slot' host)"

definition store_of :: "string \<Rightarrow> string \<Rightarrow> string" where
  "store_of data_dir name = path_join (path_join data_dir name) STORE_FILE"

definition claimed_by :: "string \<Rightarrow> string \<Rightarrow> serving option \<Rightarrow> bool" where
  "claimed_by socket name found \<longleftrightarrow> (\<exists>r. found = Some r \<and> sv_socket r = socket \<and> sv_registry r = Some name)"

definition claims_ok :: "'r host \<Rightarrow> bool" where
  "claims_ok host \<longleftrightarrow> regs_ok (ho_registries host) \<and>
     (\<forall>(name, slot) \<in> set (ho_registries host). sl_store slot = store_of (ho_data_dir host) name) \<and>
     (ho_serving host \<longrightarrow> (\<forall>(name, slot) \<in> set (ho_registries host).
        claimed_by (ho_socket host) name (hm_get (ho_claims host) (sl_store slot))))"

lemma store_of_inject: "store_of dir name = store_of dir name' \<longleftrightarrow> name = name'"
  by (simp add: store_of_def path_join_def)

lemma set_bt_insert: "set (bt_insert k v m) \<subseteq> insert (k, v) (set m)"
  by (induction m) (auto split: if_splits)

lemma insert_new:
  assumes "regs_ok found" and "\<forall>(name, slot) \<in> set found. sl_store slot = store_of dir name"
  shows "regs_ok (bt_insert n (slot_new n (path_join dir n) r) found)"
    "\<forall>(name, slot) \<in> set (bt_insert n (slot_new n (path_join dir n) r) found). sl_store slot = store_of dir name"
proof -
  let ?slot = "slot_new n (path_join dir n) r"
  have s: "sl_name ?slot = n" "sl_store ?slot = store_of dir n" by (simp_all add: slot_new_def store_of_def)
  show "regs_ok (bt_insert n ?slot found)" by (rule regs_ok_insert[OF assms(1) s(1)])
  have "\<forall>(name, slot) \<in> insert (n, ?slot) (set found). sl_store slot = store_of dir name" using assms(2) s(2) by simp
  then show "\<forall>(name, slot) \<in> set (bt_insert n ?slot found). sl_store slot = store_of dir name"
    using set_bt_insert[of n ?slot found] by blast
qed

lemma discovered: "regs_ok found \<Longrightarrow> \<forall>(name, slot) \<in> set found. sl_store slot = store_of dir name \<Longrightarrow>
    regs_ok (discover dir entries found) \<and> (\<forall>(name, slot) \<in> set (discover dir entries found). sl_store slot = store_of dir name)"
proof (induction dir entries found rule: discover.induct)
  case (2 dir name is_dir store entries found)
  show ?case
  proof (cases "\<exists>n r. name = Some n \<and> store = Some r \<and> is_dir \<and> name_is_valid n")
    case True
    then obtain n r where nr: "name = Some n" "store = Some r" "is_dir \<and> name_is_valid n" by blast
    show ?thesis using 2(3)[OF nr insert_new[OF 2(5,6)]] nr by simp
  next
    case False
    show ?thesis
    proof (cases name)
      case None
      then show ?thesis using 2(1)[OF None 2(5,6)] by simp
    next
      case (Some n)
      show ?thesis
      proof (cases store)
        case None
        then show ?thesis using 2(2)[OF Some None 2(5,6)] Some by simp
      next
        case store: (Some r)
        then have no: "\<not> (is_dir \<and> name_is_valid n)" using False Some by blast
        have "discover dir ((name, is_dir, store) # entries) found = discover dir entries found"
          unfolding discover.simps Some store option.case if_not_P[OF no] by (rule refl)
        then show ?thesis using 2(4)[OF Some store no 2(5,6)] by simp
      qed
    qed
  qed
qed simp

lemma adopt_ok:
  assumes ok: "claims_ok host" and dir: "host_prepare name host = Inr dir"
  shows "claims_ok (snd (host_adopt disk pid name (slot_new name dir r) host))"
proof -
  let ?slot = "slot_new name dir r"
  have d: "dir = path_join (ho_data_dir host) name" using dir by (auto simp: host_prepare_def split: sum.splits if_splits)
  then have store: "sl_store ?slot = store_of (ho_data_dir host) name" "sl_name ?slot = name"
    by (simp_all add: slot_new_def store_of_def)
  have old: "regs_ok (ho_registries host)" "\<forall>(n, slot) \<in> set (ho_registries host). sl_store slot = store_of (ho_data_dir host) n"
    using ok by (unfold claims_ok_def) (elim conjE, assumption)+
  have regs: "regs_ok (bt_insert name ?slot (ho_registries host))"
    "\<forall>(n, slot) \<in> set (bt_insert name ?slot (ho_registries host)). sl_store slot = store_of (ho_data_dir host) n"
    unfolding d by (rule insert_new[OF old])+
  show ?thesis
  proof (cases "ho_serving host")
    case False
    then show ?thesis using regs by (simp add: host_adopt_def claims_ok_def)
  next
    case True
    show ?thesis
    proof (cases "disk (sl_store ?slot)")
      case None
      let ?claims = "hm_insert (sl_store ?slot) \<lparr>sv_socket = ho_socket host, sv_pid = pid, sv_registry = Some name\<rparr> (ho_claims host)"
      have "claimed_by (ho_socket host) n (hm_get ?claims (sl_store slot))"
        if "(n, slot) \<in> set (bt_insert name ?slot (ho_registries host))" for n slot
      proof (cases "n = name")
        case True
        then have "sl_store slot = sl_store ?slot" using that regs(2) store by auto
        then show ?thesis using True by (simp add: claimed_by_def)
      next
        case False
        then have m: "(n, slot) \<in> set (ho_registries host)" using that set_bt_insert[of name ?slot "ho_registries host"] by auto
        moreover have "sl_store slot \<noteq> sl_store ?slot" using m False ok store by (auto simp: claims_ok_def store_of_inject)
        ultimately show ?thesis using ok True by (auto simp: claims_ok_def)
      qed
      then have new: "\<forall>(n, slot) \<in> set (bt_insert name ?slot (ho_registries host)). claimed_by (ho_socket host) n (hm_get ?claims (sl_store slot))"
        by blast
      have "snd (host_adopt disk pid name ?slot host) = host\<lparr>ho_registries := bt_insert name ?slot (ho_registries host), ho_claims := ?claims\<rparr>"
        using True None by (simp add: host_adopt_def claim_store_def)
      then show ?thesis unfolding claims_ok_def using regs new by simp
    next
      case (Some err)
      then show ?thesis using True ok by (simp add: host_adopt_def claim_store_def)
    qed
  qed
qed

lemma refuse_frame: "refuse_if_served listening store claims = (r, claims') \<Longrightarrow> store' \<noteq> store \<Longrightarrow>
    hm_get claims' store' = hm_get claims store'"
  by (auto simp: refuse_if_served_def served_on_def split: option.splits if_splits)

lemma claim_slots_ok:
  assumes "claim_slots listening disk pid socket slots claims = (Inr (), claims')" and "distinct (map sl_store slots)"
  shows "(\<forall>slot \<in> set slots. claimed_by socket (sl_name slot) (hm_get claims' (sl_store slot))) \<and>
    (\<forall>store. store \<notin> set (map sl_store slots) \<longrightarrow> hm_get claims' store = hm_get claims store)"
  using assms
proof (induction slots arbitrary: claims)
  case (Cons slot slots)
  obtain c1 where r: "refuse_if_served listening (sl_store slot) claims = (Inr (), c1)" and d: "disk (sl_store slot) = None"
    and c: "claim_slots listening disk pid socket slots
      (hm_insert (sl_store slot) \<lparr>sv_socket = socket, sv_pid = pid, sv_registry = Some (sl_name slot)\<rparr> c1) = (Inr (), claims')"
    using Cons.prems(1) by (auto simp: claim_store_def split: prod.splits sum.splits option.splits)
  note IH = Cons.IH[OF c]
  have "hm_get claims' (sl_store slot) = Some \<lparr>sv_socket = socket, sv_pid = pid, sv_registry = Some (sl_name slot)\<rparr>"
    using IH Cons.prems(2) by auto
  moreover have "hm_get claims' store = hm_get claims store" if "store \<notin> set (map sl_store (slot # slots))" for store
    using that IH Cons.prems(2) refuse_frame[OF r, of store] by auto
  ultimately show ?case using IH Cons.prems(2) by (auto simp: claimed_by_def)
qed simp

lemma claims_ok_reachable: "host_reachable host \<Longrightarrow> claims_ok host"
proof (induction rule: host_reachable.induct)
  case (Start data_dir socket entries claims)
  have "regs_ok []" by (simp add: regs_ok_def)
  from discovered[OF this, of data_dir entries] show ?case by (simp add: claims_ok_def host_open_def)
next
  case (Create host disk pid init name)
  then show ?case using adopt_ok[OF Create.IH] by (auto simp: host_create_def split: sum.splits)
next
  case (Restore host disk pid import name stream)
  show ?case
  proof (cases "host_prepare name host")
    case (Inr dir)
    show ?thesis
    proof (cases "import stream (path_join dir STORE_FILE)")
      case i: (Inr q)
      then have "snd (host_restore disk pid import name stream host) = snd (host_adopt disk pid name (slot_new name dir (fst q)) host)"
        using Inr by (cases "host_adopt disk pid name (slot_new name dir (fst q)) host")
          (auto simp: host_restore_def split: sum.splits prod.splits)
      then show ?thesis using adopt_ok[OF Restore.IH Inr] by simp
    qed (use Inr Restore.IH in \<open>simp add: host_restore_def\<close>)
  qed (use Restore.IH in \<open>simp add: host_restore_def\<close>)
next
  case (Claim host listening disk pid)
  have "distinct (map fst (ho_registries host))" using Claim.IH by (auto simp: claims_ok_def regs_ok_def dest: bt_ok_distinct)
  moreover have "map sl_store (host_slots host) = map (store_of (ho_data_dir host)) (map fst (ho_registries host))"
    using Claim.IH by (auto simp: claims_ok_def host_slots_def)
  ultimately have d: "distinct (map sl_store (host_slots host))" by (simp add: distinct_map inj_on_def store_of_inject)
  show ?case
  proof (cases "claim_slots listening disk pid (ho_socket host) (host_slots host) (ho_claims host)")
    case (Pair r claims)
    show ?thesis
    proof (cases r)
      case (Inl err)
      then show ?thesis using Claim.IH Claim.hyps(2) Pair by (simp add: claim_all_def claims_ok_def)
    next
      case (Inr u)
      then have c: "claim_slots listening disk pid (ho_socket host) (host_slots host) (ho_claims host) = (Inr (), claims)" using Pair by simp
      have "claimed_by (ho_socket host) name (hm_get claims (sl_store slot))" if "(name, slot) \<in> set (ho_registries host)" for name slot
      proof -
        have "slot \<in> set (host_slots host)" using that by (force simp: host_slots_def)
        moreover have "sl_name slot = name" using that Claim.IH by (auto simp: claims_ok_def regs_ok_def)
        ultimately show ?thesis using claim_slots_ok[OF c d] by blast
      qed
      then show ?thesis using c Claim.IH by (auto simp: claim_all_def claims_ok_def)
    qed
  qed
next
  case (Release host)
  then show ?case by (simp add: release_all_def claims_ok_def)
next
  case (Change host name slot slot')
  then have m: "(name, slot) \<in> set (ho_registries host)" by (auto dest: map_of_SomeD)
  have d: "distinct (map fst (ho_registries host))" using Change.IH by (auto simp: claims_ok_def regs_ok_def dest: bt_ok_distinct)
  have s: "s = slot" if "(name, s) \<in> set (ho_registries host)" for s using that m d by (metis map_of_is_SomeI option.inject)
  have r: "put_slot slot' host = host\<lparr>ho_registries := replace_slot slot' (ho_registries host)\<rparr>" by (simp add: put_slot_def replace_slot_def)
  have each: "\<exists>s'. (n, s') \<in> set (ho_registries host) \<and> sl_store s = sl_store s'" if "(n, s) \<in> set (replace_slot slot' (ho_registries host))" for n s
    using that Change.hyps(3,4) s by (fastforce simp: replace_slot_def split: if_splits)
  show ?case unfolding r using Change.IH each regs_ok_replace by (fastforce simp: claims_ok_def)
qed

text \<open>Property C22. While a server is up, every other command is refused each store it hosts, by name. That is:
  once the stores are claimed, and whatever is created, restored or written meanwhile, the record beside
  each hosted store names the server's socket and the registry, and anything that asks before touching
  the store is told so for as long as the socket answers.\<close>

theorem hosted_stores_are_refused_to_others:
  assumes "host_reachable host" and "ho_serving host" and "map_of (ho_registries host) name = Some slot"
    and "listening (ho_socket host)" and "ho_socket host \<noteq> []"
  shows "\<exists>pid. refuse_if_served listening (sl_store slot) (ho_claims host) =
    (Inl (storage (sl_store slot @ '' is being served on '' @ ho_socket host @ '' (pid '' @ show_nat (unat (pid :: u32)) @ '')'' @
       '' as '' @ quoted name @ dash @
       ''one process serves a store, so this command would be the second writer. Speak to the socket, or '' @
       ''stop the server with '' @ quoted ''borg-server stop'' @ ''.'')), ho_claims host)"
proof -
  have "(name, slot) \<in> set (ho_registries host)" using assms(3) by (rule map_of_SomeD)
  then obtain r where "hm_get (ho_claims host) (sl_store slot) = Some r" "sv_socket r = ho_socket host" "sv_registry r = Some name"
    using claims_ok_reachable[OF assms(1)] assms(2) by (auto simp: claims_ok_def claimed_by_def)
  then show ?thesis using assms(4,5) by (intro exI[of _ "sv_pid r"]) (simp add: refuse_if_served_def served_on_def)
qed

lemma hosted_stores_are_refused_to_others_witness:
  "\<exists>host why. host_reachable (host :: unit host) \<and>
     refuse_if_served (\<lambda>_. True) (store_of ''d'' ''a'') (ho_claims host) = (Inl why, ho_claims host)"
proof -
  let ?slot = "slot_new ''a'' (path_join ''d'' ''a'') ()"
  let ?start = "\<lparr>ho_data_dir = ''d'', ho_socket = ''s'', ho_registries = [(''a'', ?slot)], ho_serving = False, ho_claims = []\<rparr>"
  let ?claim = "\<lparr>sv_socket = ''s'', sv_pid = 7, sv_registry = Some ''a''\<rparr>"
  have v: "name_is_valid ''a''" by (simp add: name_is_valid_def is_ascii_alphanumeric_def is_digit_def less_eq_char_def)
  have slot: "sl_store ?slot = store_of ''d'' ''a''" "sl_name ?slot = ''a''" by (simp_all add: slot_new_def store_of_def)
  have "host_open ''d'' ''s'' [(Some ''a'', True, Some ())] [] = ?start" by (simp add: host_open_def v)
  then have start: "host_reachable ?start" using host_reachable.Start[of "''d''" "''s''" "[(Some ''a'', True, Some ())]" "[]"] by simp
  have h: "snd (claim_all (\<lambda>_. False) (\<lambda>_. None) 7 ?start) = ?start\<lparr>ho_claims := [(store_of ''d'' ''a'', ?claim)], ho_serving := True\<rparr>"
    by (simp add: claim_all_def host_slots_def refuse_if_served_def served_on_def claim_store_def slot)
  have "host_reachable (snd (claim_all (\<lambda>_. False) (\<lambda>_. None) 7 ?start))" by (rule host_reachable.Claim[OF start]) simp
  then have r: "host_reachable (?start\<lparr>ho_claims := [(store_of ''d'' ''a'', ?claim)], ho_serving := True\<rparr>)" unfolding h .
  from hosted_stores_are_refused_to_others[OF r, of "''a''" ?slot "\<lambda>_. True"] obtain why where
    "refuse_if_served (\<lambda>_. True) (store_of ''d'' ''a'') [(store_of ''d'' ''a'', ?claim)] = (Inl why, [(store_of ''d'' ''a'', ?claim)])"
    by (auto simp: slot)
  with r show ?thesis by (intro exI conjI) (assumption, simp)
qed

text \<open>
  Claiming stops at the first store somebody else serves and keeps the records already written. Where the
  socket is that of a live server (the other one's, say), such a record locks its store for everybody,
  though nobody hosts it: the boot is over, and the socket it names belongs to somebody else.
\<close>

lemma refused_boot_leaves_claims:
  "\<exists>(host :: unit host) host' why locked. claim_all (\<lambda>socket. socket = ''s'') (\<lambda>_. None) 7 host = (Inl why, host') \<and>
     fst (refuse_if_served (\<lambda>socket. socket = ''s'') (store_of ''d'' ''a'') (ho_claims host)) = Inr () \<and>
     fst (refuse_if_served (\<lambda>socket. socket = ''s'') (store_of ''d'' ''a'') (ho_claims host')) = Inl locked"
proof -
  let ?slot = "\<lambda>name. slot_new name (path_join ''d'' name) ()"
  let ?host = "\<lparr>ho_data_dir = ''d'', ho_socket = ''s'', ho_registries = [(''a'', ?slot ''a''), (''b'', ?slot ''b'')], ho_serving = False,
    ho_claims = [(store_of ''d'' ''b'', \<lparr>sv_socket = ''s'', sv_pid = 1, sv_registry = Some ''b''\<rparr>)]\<rparr>"
  have s: "sl_store (?slot name) = store_of ''d'' name" "sl_name (?slot name) = name" for name by (simp_all add: slot_new_def store_of_def)
  have n: "store_of ''d'' ''b'' \<noteq> store_of ''d'' ''a''" "store_of ''d'' ''a'' \<noteq> store_of ''d'' ''b''" by (simp_all add: store_of_inject)
  have "\<exists>why host'. claim_all (\<lambda>socket. socket = ''s'') (\<lambda>_. None) 7 ?host = (Inl why, host') \<and>
      hm_get (ho_claims host') (store_of ''d'' ''a'') = Some \<lparr>sv_socket = ''s'', sv_pid = 7, sv_registry = Some ''a''\<rparr>"
    by (simp add: claim_all_def host_slots_def refuse_if_served_def served_on_def claim_store_def s n)
  then obtain why host' where c: "claim_all (\<lambda>socket. socket = ''s'') (\<lambda>_. None) 7 ?host = (Inl why, host')"
    and k: "hm_get (ho_claims host') (store_of ''d'' ''a'') = Some \<lparr>sv_socket = ''s'', sv_pid = 7, sv_registry = Some ''a''\<rparr>" by blast
  have before: "fst (refuse_if_served (\<lambda>socket. socket = ''s'') (store_of ''d'' ''a'') (ho_claims ?host)) = Inr ()"
    by (simp add: refuse_if_served_def served_on_def n)
  have "\<exists>locked. fst (refuse_if_served (\<lambda>socket. socket = ''s'') (store_of ''d'' ''a'') (ho_claims host')) = Inl locked"
    by (simp add: refuse_if_served_def served_on_def k)
  with c before show ?thesis by blast
qed

end
