(* ===== verification/Serve_Properties.thy ===== *)
theory Serve_Properties
  imports Answer Keys_Properties Host_Properties
begin

text \<open>
  What a connection can find out: the answers a session gives depend on the registries within the scope
  of its credential and on no others.
\<close>

section \<open>Registries within a scope\<close>







section \<open>Servers that look the same\<close>











section \<open>Requests and connections\<close>



















end
