(* ===== verification/Push_Intents.thy ===== *)
theory Push_Intents
  imports Push
begin

text \<open>
  What a push of a repository amounts to. The scripts' claims and shapes are a list of intents that does
  not look at the definitions in force; a push performs each against them. Each lemma says what an intent
  adds to a push, and what it leaves standing in the definitions and in the table of implementations.
\<close>

section \<open>Intents\<close>

text \<open>A producer's definition claimed by a script, or a field's shape with the migrations it names.\<close>

datatype intent =
    Claim producer_kind buffer_id string string "string option" string worker_transport
  | Shape string field_spec "producer_id option" "producer_id option"

definition migration_intents ::
  "described \<Rightarrow> string \<Rightarrow> string \<Rightarrow> string \<Rightarrow> migration_direction \<Rightarrow> string option \<Rightarrow>
   (producer_id option \<times> intent list) host_result" where
  "migration_intents described s f what direction name =
     (case name of
        None \<Rightarrow> Inr (None, [])
      | Some name \<Rightarrow>
          (case resolve_owner (known_names described) name what of
             Inl err \<Rightarrow> Inl err
           | Inr p \<Rightarrow>
               (case migration_named name described of
                  None \<Rightarrow> Inl (HBorg (RustPanic ''resolve() accepted the name, so some script described it''))
                | Some (command, transport, supplied) \<Rightarrow>
                    Inr (Some p, [Claim (PKMigration direction) (BObjectProp s f) name s supplied command transport]))))"

definition field_intents :: "described \<Rightarrow> string \<times> field_spec \<Rightarrow> intent list host_result" where
  "field_intents described sf =
     (case sf of (s, spec) \<Rightarrow>
       (let what = s @ ''.'' @ fs_name spec in
        case migration_intents described s (fs_name spec) what MUp (fs_up spec) of
          Inl err \<Rightarrow> Inl err
        | Inr (up, ups) \<Rightarrow>
            (case migration_intents described s (fs_name spec) what MDown (fs_down spec) of
               Inl err \<Rightarrow> Inl err
             | Inr (down, downs) \<Rightarrow> Inr (ups @ downs @ [Shape s spec up down]))))"

fun fields_intents :: "described \<Rightarrow> (string \<times> field_spec) list \<Rightarrow> intent list host_result" where
  "fields_intents described [] = Inr []"
| "fields_intents described (sf # rest) =
     (case field_intents described sf of
        Inl err \<Rightarrow> Inl err
      | Inr is \<Rightarrow> (case fields_intents described rest of Inl err \<Rightarrow> Inl err | Inr js \<Rightarrow> Inr (is @ js)))"

definition producer_intents :: "described \<Rightarrow> intent list" where
  "producer_intents described =
     concat (map (\<lambda>(command, d). map (\<lambda>spec. Claim PKPipeline (BObject (pr_source spec)) (pr_name spec) (pr_source spec)
       (pr_fingerprint spec) command (ds_transport d)) (ds_producers d)) described)"

definition intents :: "described \<Rightarrow> intent list host_result" where
  "intents described =
     (case fields_intents described (all_fields described) of
        Inl err \<Rightarrow> Inl err
      | Inr is \<Rightarrow> Inr (producer_intents described @ is))"

section \<open>Performing them\<close>

definition perform_shape ::
  "def_view \<Rightarrow> repo_id \<Rightarrow> string list \<Rightarrow> string \<Rightarrow> field_spec \<Rightarrow> producer_id option \<Rightarrow> producer_id option \<Rightarrow>
   push_state \<Rightarrow> push_state host_result" where
  "perform_shape v repo known s spec up down st =
     (case field_at v s (fs_name spec) of
        Some existing \<Rightarrow>
          if fd_ty existing \<noteq> type_named (fs_ty spec) then mutate_field repo s spec existing up down st
          else declare_field v repo known s spec st
      | None \<Rightarrow> declare_field v repo known s spec st)"

fun perform ::
  "push_machine \<Rightarrow> def_view \<Rightarrow> repo_id \<Rightarrow> string list \<Rightarrow> intent \<Rightarrow> push_state \<Rightarrow> push_state host_result" where
  "perform mc v repo known (Claim kind source name s supplied command transport) st =
     Inr (claim_producer mc v kind source repo name s supplied command transport st)"
| "perform mc v repo known (Shape s spec up down) st = perform_shape v repo known s spec up down st"

fun performs ::
  "push_machine \<Rightarrow> def_view \<Rightarrow> repo_id \<Rightarrow> string list \<Rightarrow> intent list \<Rightarrow> push_state \<Rightarrow> push_state host_result" where
  "performs mc v repo known [] st = Inr st"
| "performs mc v repo known (i # is) st =
     (case perform mc v repo known i st of Inl err \<Rightarrow> Inl err | Inr st \<Rightarrow> performs mc v repo known is st)"

lemma performs_append:
  "performs mc v repo known (is @ js) st =
     (case performs mc v repo known is st of Inl err \<Rightarrow> Inl err | Inr st \<Rightarrow> performs mc v repo known js st)"
  by (induction "is" arbitrary: st) (auto split: sum.split)

lemma push_migration_performs:
  "push_migration mc v repo described s f what direction name st =
     (case migration_intents described s f what direction name of
        Inl err \<Rightarrow> Inl err
      | Inr (p, is) \<Rightarrow> (case performs mc v repo known is st of Inl err \<Rightarrow> Inl err | Inr st \<Rightarrow> Inr (p, st)))"
  by (auto simp: push_migration_def migration_intents_def split: option.split sum.split)

lemma push_field_performs:
  "push_field mc v repo described s spec st =
     (case field_intents described (s, spec) of
        Inl err \<Rightarrow> Inl err
      | Inr is \<Rightarrow> performs mc v repo (known_names described) is st)"
proof -
  let ?k = "known_names described" and ?what = "s @ ''.'' @ fs_name spec"
  have claims: "\<exists>st'. performs mc v repo ?k is st = Inr st'"
    if "migration_intents described s f what direction name = Inr (p, is)" for f what direction name p "is" st
    using that by (auto simp: migration_intents_def split: option.splits sum.splits)
  have rest: "(case field_at v s (fs_name spec) of
        Some existing \<Rightarrow> if fd_ty existing \<noteq> type_named (fs_ty spec) then mutate_field repo s spec existing up down st
                  else declare_field v repo ?k s spec st
      | None \<Rightarrow> declare_field v repo ?k s spec st) = performs mc v repo ?k [Shape s spec up down] st" for up down st
    by (simp add: perform_shape_def split: sum.split)
  show ?thesis
  proof (cases "migration_intents described s (fs_name spec) ?what MUp (fs_up spec)")
    case (Inl err)
    then show ?thesis by (simp add: push_field_def field_intents_def push_migration_performs[where known = ?k] Let_def)
  next
    case (Inr r)
    obtain up ups where r: "r = (up, ups)" by (cases r)
    obtain st1 where st1: "performs mc v repo ?k ups st = Inr st1" using claims[OF Inr[unfolded r]] by blast
    show ?thesis
    proof (cases "migration_intents described s (fs_name spec) ?what MDown (fs_down spec)")
      case (Inl err)
      then show ?thesis
        using Inr r st1 by (simp add: push_field_def field_intents_def push_migration_performs[where known = ?k] Let_def)
    next
      case (Inr q)
      obtain down downs where q: "q = (down, downs)" by (cases q)
      obtain st2 where st2: "performs mc v repo ?k downs st1 = Inr st2" using claims[OF Inr[unfolded q]] by blast
      have "field_intents described (s, spec) = Inr (ups @ downs @ [Shape s spec up down])"
        using \<open>migration_intents described s (fs_name spec) ?what MUp (fs_up spec) = Inr r\<close> Inr r q
        by (simp add: field_intents_def Let_def)
      moreover have "push_field mc v repo described s spec st = performs mc v repo ?k [Shape s spec up down] st2"
        using \<open>migration_intents described s (fs_name spec) ?what MUp (fs_up spec) = Inr r\<close> Inr r q st1 st2
        by (simp only: push_field_def push_migration_performs[where known = ?k] Let_def sum.case prod.case rest)
      ultimately show ?thesis by (simp add: performs_append st1 st2)
    qed
  qed
qed

lemma push_fields_performs:
  "push_fields mc v repo described fs st = Inr st' \<longleftrightarrow>
     (\<exists>is. fields_intents described fs = Inr is \<and> performs mc v repo (known_names described) is st = Inr st')"
proof (induction fs arbitrary: st)
  case (Cons sf rest)
  obtain s spec where sf: "sf = (s, spec)" by (cases sf)
  show ?case
    by (auto simp: sf push_field_performs Cons.IH performs_append split: sum.splits)
qed simp

lemma push_producers_performs:
  "performs mc v repo known (producer_intents described) st = Inr (push_producers mc v repo described st)"
proof -
  have one: "performs mc v repo known (map (\<lambda>spec. Claim PKPipeline (BObject (pr_source spec)) (pr_name spec) (pr_source spec)
       (pr_fingerprint spec) command (ds_transport d)) specs) st =
     Inr (fold (push_producer mc v repo command (ds_transport d)) specs st)" for command d specs st
    by (induction specs arbitrary: st) (simp_all add: push_producer_def)
  show ?thesis
    by (induction described arbitrary: st)
       (auto simp: producer_intents_def push_producers_def performs_append one)
qed

text \<open>A push is its intents, performed, with no migration left that nothing names.\<close>

lemma push_diff_iff:
  "push_diff mc v repo described impls = Inr st \<longleftrightarrow>
     (\<exists>is. intents described = Inr is \<and> performs mc v repo (known_names described) is (push_state_new impls) = Inr st) \<and>
     orphan_migration (ps_impls st) described = None"
proof -
  have "push_fields mc v repo described (all_fields described)
      (push_producers mc v repo described (push_state_new impls)) = Inr x \<longleftrightarrow>
     (\<exists>is. intents described = Inr is \<and> performs mc v repo (known_names described) is (push_state_new impls) = Inr x)" for x
    by (auto simp: push_fields_performs intents_def performs_append push_producers_performs split: sum.splits)
  moreover have "push_diff mc v repo described impls = Inr st \<longleftrightarrow>
      push_fields mc v repo described (all_fields described)
        (push_producers mc v repo described (push_state_new impls)) = Inr st \<and>
      orphan_migration (ps_impls st) described = None"
    by (auto simp: push_diff_def split: sum.splits option.splits)
  ultimately show ?thesis by simp
qed

section \<open>What an intent says and remembers\<close>

definition file_fingerprint :: "push_machine \<Rightarrow> string \<Rightarrow> string option" where
  "file_fingerprint mc command = map_option (fingerprint (mc_hash mc)) (mc_bytes mc command)"

definition claimed :: "push_machine \<Rightarrow> repo_id \<Rightarrow> intent \<Rightarrow> producer_def option" where
  "claimed mc repo i =
     (case i of
        Claim kind source name _ supplied command _ \<Rightarrow>
          Some \<lparr>pd_id = producer_hash name, pd_kind = kind, pd_source = source, pd_version = 0,
                pd_declaring_repo = repo,
                pd_fingerprint = (case supplied of Some f \<Rightarrow> Some f | None \<Rightarrow> file_fingerprint mc command)\<rparr>
      | Shape _ _ _ _ \<Rightarrow> None)"

fun row_of_intent :: "push_machine \<Rightarrow> intent \<Rightarrow> implementation list \<Rightarrow> implementation list" where
  "row_of_intent mc (Claim _ _ name s _ command transport) impls =
     remember (mc_canonical mc) (producer_hash name) name s command transport impls"
| "row_of_intent mc (Shape _ _ _ _) impls = impls"

text \<open>The event that an intent is, against the definitions of a view, where it is one.\<close>

definition said :: "push_machine \<Rightarrow> def_view \<Rightarrow> repo_id \<Rightarrow> string list \<Rightarrow> intent \<Rightarrow> def_event option" where
  "said mc v repo known i =
     (case i of
        Claim _ _ _ _ _ _ _ \<Rightarrow>
          (case claimed mc repo i of
             None \<Rightarrow> None
           | Some d \<Rightarrow>
               if producer_change (view_producer v (pd_id d)) d = UnchangedProducer then None
               else Some (PushProducer d))
      | Shape s spec up down \<Rightarrow>
          (case perform mc v repo known i (push_state_new []) of
             Inl _ \<Rightarrow> None
           | Inr st \<Rightarrow> (case ps_events st of [] \<Rightarrow> None | e # _ \<Rightarrow> Some e)))"

definition cache_ok :: "push_machine \<Rightarrow> (string, string option) hmap \<Rightarrow> bool" where
  "cache_ok mc cache \<longleftrightarrow> (\<forall>c f. hm_get cache c = Some f \<longrightarrow> f = file_fingerprint mc c)"

lemma fingerprint_cached:
  assumes "cache_ok mc cache" "fingerprint_of mc supplied command cache = (f, cache')"
  shows "f = (case supplied of Some f \<Rightarrow> Some f | None \<Rightarrow> file_fingerprint mc command)" "cache_ok mc cache'"
  using assms by (auto simp: fingerprint_of_def cache_ok_def file_fingerprint_def Let_def split: option.splits if_splits)

lemma land_fields:
  "ps_impls (land_producer c d name st) = ps_impls st" "ps_fallbacks (land_producer c d name st) = ps_fallbacks st"
  "ps_events (land_producer c d name st) = ps_events st @ (if c = UnchangedProducer then [] else [PushProducer d])"
  subgoal by (cases c) (simp_all add: land_producer_def Let_def split: bool.split)
  subgoal by (cases c) (simp_all add: land_producer_def Let_def split: bool.split)
  subgoal by (cases c) (simp_all add: land_producer_def Let_def split: bool.split)
  done

lemma perform_claim:
  assumes "cache_ok mc (ps_fallbacks st)" "claimed mc repo i = Some d"
  obtains cache st' where "perform mc v repo known i st = Inr st'" "cache_ok mc (ps_fallbacks st')"
    "ps_events st' = ps_events st @ (case said mc v repo known i of None \<Rightarrow> [] | Some e \<Rightarrow> [e])"
    "ps_impls st' = row_of_intent mc i (ps_impls st)"
    "said mc v repo known i = None \<longrightarrow>
       ps_report st' = ps_report st \<and> ps_recomputing st' = ps_recomputing st \<and> ps_first_seen st' = ps_first_seen st"
proof -
  obtain kind source name s supplied command transport where
    i: "i = Claim kind source name s supplied command transport" and
    d: "d = \<lparr>pd_id = producer_hash name, pd_kind = kind, pd_source = source, pd_version = 0, pd_declaring_repo = repo,
             pd_fingerprint = (case supplied of Some f \<Rightarrow> Some f | None \<Rightarrow> file_fingerprint mc command)\<rparr>"
    using assms(2) by (auto simp: claimed_def split: intent.splits)
  obtain f cache where f: "fingerprint_of mc supplied command (ps_fallbacks st) = (f, cache)"
    by (cases "fingerprint_of mc supplied command (ps_fallbacks st)")
  note c = fingerprint_cached[OF assms(1) f]
  have "perform mc v repo known i st =
      Inr ((land_producer (producer_change (view_producer v (pd_id d)) d) d name (st\<lparr>ps_fallbacks := cache\<rparr>))
        \<lparr>ps_impls := row_of_intent mc i (ps_impls st)\<rparr>)"
    using f c(1) by (simp add: i d claim_producer_def Let_def land_fields)
  then show ?thesis
    by (rule that) (use c(2) assms(2) in \<open>auto simp: land_fields said_def i, auto simp: land_producer_def\<close>)
qed

lemma perform_shape_said:
  assumes "perform mc v repo known (Shape s spec up down) st = Inr st'"
  shows "ps_fallbacks st' = ps_fallbacks st" "ps_impls st' = ps_impls st"
    "ps_events st' = ps_events st @ (case said mc v repo known (Shape s spec up down) of None \<Rightarrow> [] | Some e \<Rightarrow> [e])"
  using assms
  by (auto simp: perform_shape_def declare_field_def mutate_field_def said_def emit_def push_state_new_def Let_def
      split: option.splits if_splits sum.splits)

text \<open>A whole list of them.\<close>

lemma performs_said:
  assumes "performs mc v repo known is st = Inr st'" "cache_ok mc (ps_fallbacks st)"
  shows "ps_events st' = ps_events st @ List.map_filter (said mc v repo known) is \<and>
     ps_impls st' = fold (row_of_intent mc) is (ps_impls st)"
  using assms
proof (induction "is" arbitrary: st)
  case (Cons i "is")
  obtain st1 where st1: "perform mc v repo known i st = Inr st1" "performs mc v repo known is st1 = Inr st'"
    using Cons.prems(1) by (auto split: sum.splits)
  have "cache_ok mc (ps_fallbacks st1) \<and> ps_impls st1 = row_of_intent mc i (ps_impls st) \<and>
      ps_events st1 = ps_events st @ (case said mc v repo known i of None \<Rightarrow> [] | Some e \<Rightarrow> [e])"
  proof (cases i)
    case (Claim kind source name s supplied command transport)
    then obtain d where "claimed mc repo i = Some d" by (simp add: claimed_def)
    from perform_claim[OF Cons.prems(2) this, of v known] st1(1) show ?thesis by (metis Inr_inject)
  next
    case (Shape s spec up down)
    then show ?thesis using perform_shape_said[of mc v repo known s spec up down st st1] st1(1) Cons.prems(2) by simp
  qed
  then show ?case
    using Cons.IH[OF st1(2)] by (simp add: List.map_filter_simps split: option.splits)
qed (simp add: List.map_filter_simps)

section \<open>What the events of a push make true\<close>

lemma push_producer_view: "view_producer (apply_push d at v) p = (if p = pd_id d then Some (d\<lparr>pd_version := at\<rparr>) else view_producer v p)"
  by (simp add: view_producer_def apply_push_def)

lemma other_event_view:
  "def_apply e at v = Inr v' \<Longrightarrow> \<forall>d. e \<noteq> PushProducer d \<Longrightarrow> view_producer v' p = view_producer v p"
  by (cases e) (auto simp: view_producer_def apply_declare_alt apply_mutate_alt apply_delete_alt set_object_def
      split: option.splits if_splits ownership.splits)

lemma producer_after:
  assumes "apply_events at es v = Inr v'" "\<forall>d'. PushProducer d' \<in> set es \<longrightarrow> pd_id d' = pd_id d \<longrightarrow> d' = d"
  shows "view_producer v' (pd_id d) =
     (if PushProducer d \<in> set es then Some (d\<lparr>pd_version := at\<rparr>) else view_producer v (pd_id d))"
  using assms
proof (induction es arbitrary: v)
  case (Cons e es)
  obtain u where u: "def_apply e at v = Inr u" "apply_events at es u = Inr v'"
    using Cons.prems(1) by (auto split: sum.splits)
  have IH: "view_producer v' (pd_id d) =
     (if PushProducer d \<in> set es then Some (d\<lparr>pd_version := at\<rparr>) else view_producer u (pd_id d))"
    using Cons.prems(2) by (intro Cons.IH[OF u(2)]) simp
  show ?case
  proof (cases "\<exists>d'. e = PushProducer d'")
    case True
    then obtain d' where d': "e = PushProducer d'" by blast
    then have "pd_id d' = pd_id d \<longrightarrow> d' = d" using Cons.prems(2) by simp
    then show ?thesis using IH u(1) d' by (auto simp: push_producer_view)
  next
    case False
    then show ?thesis using IH other_event_view[OF u(1)] by auto
  qed
qed simp

text \<open>A field of one type, repository and owner, and the events that make it so.\<close>

definition field_is :: "def_view \<Rightarrow> string \<Rightarrow> string \<Rightarrow> value_type \<Rightarrow> repo_id \<Rightarrow> ownership \<Rightarrow> bool" where
  "field_is v s f ty repo own \<longleftrightarrow>
     (\<exists>fd. field_at v s f = Some fd \<and> fd_ty fd = ty \<and> fd_declaring_repo fd = repo \<and> fd_ownership fd = own)"

definition field_event :: "string \<Rightarrow> string \<Rightarrow> value_type \<Rightarrow> repo_id \<Rightarrow> ownership \<Rightarrow> def_event \<Rightarrow> bool" where
  "field_event s f ty repo own e \<longleftrightarrow> e = DeclareField s f ty repo own \<or>
     own = OwnSource \<and> (\<exists>up down. e = MutateField s f ty repo up down)"

lemma field_lands:
  "field_event s f ty repo own e \<Longrightarrow> def_apply e at v = Inr v' \<Longrightarrow> field_is v' s f ty repo own"
  by (auto simp: field_event_def field_is_def apply_declare_alt apply_mutate_alt split: option.splits if_splits ownership.splits)

lemma field_kept:
  assumes "def_apply e at v = Inr v'" "def_touches e \<noteq> Some (s, f)"
  shows "field_at v' s f = field_at v s f"
proof -
  have "fields_of v' (s, f) = fields_of v (s, f)"
    unfolding def_apply_ok(2)[OF assms(1)] using assms(2) by (cases e) (auto split: option.split)
  then show ?thesis by simp
qed

lemma field_after:
  assumes "apply_events at es v = Inr v'"
    and "\<forall>e \<in> set es. def_touches e = Some (s, f) \<longrightarrow> field_event s f ty repo own e"
    and "field_is v s f ty repo own \<or> (\<exists>e \<in> set es. field_event s f ty repo own e)"
  shows "field_is v' s f ty repo own"
  using assms
proof (induction es arbitrary: v)
  case (Cons e es)
  obtain u where u: "def_apply e at v = Inr u" "apply_events at es u = Inr v'"
    using Cons.prems(1) by (auto split: sum.splits)
  show ?case
  proof (rule Cons.IH[OF u(2)])
    show "\<forall>e \<in> set es. def_touches e = Some (s, f) \<longrightarrow> field_event s f ty repo own e" using Cons.prems(2) by simp
    show "field_is u s f ty repo own \<or> (\<exists>e \<in> set es. field_event s f ty repo own e)"
    proof (cases "def_touches e = Some (s, f)")
      case True
      then show ?thesis using field_lands[OF _ u(1)] Cons.prems(2) by simp
    next
      case False
      then have "\<not> field_event s f ty repo own e" by (auto simp: field_event_def)
      then show ?thesis using field_kept[OF u(1) False] Cons.prems(3) by (auto simp: field_is_def)
    qed
  qed
qed simp

abbreviation shape_event :: "repo_id \<Rightarrow> string \<Rightarrow> field_spec \<Rightarrow> def_event \<Rightarrow> bool" where
  "shape_event repo s spec \<equiv> field_event s (fs_name spec) (type_named (fs_ty spec)) repo
     (ownership_of (map_option producer_hash (fs_derived_by spec)))"

abbreviation shape_stands :: "def_view \<Rightarrow> repo_id \<Rightarrow> string \<Rightarrow> field_spec \<Rightarrow> bool" where
  "shape_stands v repo s spec \<equiv> field_is v s (fs_name spec) (type_named (fs_ty spec)) repo
     (ownership_of (map_option producer_hash (fs_derived_by spec)))"

text \<open>What an intent asks for is so.\<close>

definition stands :: "push_machine \<Rightarrow> def_view \<Rightarrow> repo_id \<Rightarrow> intent \<Rightarrow> bool" where
  "stands mc v repo i \<longleftrightarrow>
     (case i of
        Claim _ _ _ _ _ _ _ \<Rightarrow>
          (\<forall>d. claimed mc repo i = Some d \<longrightarrow> producer_change (view_producer v (pd_id d)) d = UnchangedProducer)
      | Shape s spec up down \<Rightarrow> shape_stands v repo s spec)"

lemma ownership_of_None [simp]: "ownership_of p = OwnSource \<longleftrightarrow> p = None" "ownership_of None = OwnSource"
  by (simp_all add: ownership_of_def split: option.split)

section \<open>A second push\<close>

lemma performs_each:
  "performs mc v repo known is st = Inr st' \<Longrightarrow> i \<in> set is \<Longrightarrow> \<exists>s1 s2. perform mc v repo known i s1 = Inr s2"
  by (induction "is" arbitrary: st) (auto split: sum.splits)

lemma shape_said:
  assumes "perform mc v repo known (Shape s spec up down) st = Inr st'" "up \<noteq> None \<longrightarrow> fs_up spec \<noteq> None"
  shows "said mc v repo known (Shape s spec up down) = None \<Longrightarrow> shape_stands v repo s spec"
    and "fs_up spec \<noteq> None \<longrightarrow> fs_derived_by spec = None \<Longrightarrow>
      said mc v repo known (Shape s spec up down) = Some e \<Longrightarrow> shape_event repo s spec e"
    and "fs_up spec \<noteq> None \<longrightarrow> fs_derived_by spec = None \<Longrightarrow> fs_derived_by spec = Some name \<Longrightarrow> name \<in> set known"
  using assms
  by (auto simp: perform_shape_def declare_field_def mutate_field_def said_def emit_def push_state_new_def Let_def
      field_is_def field_event_def resolve_owner_def split: option.splits if_splits sum.splits)

lemma perform_stands:
  assumes "stands mc v repo i" "cache_ok mc (ps_fallbacks st)"
    and "\<forall>s spec up down name. i = Shape s spec up down \<longrightarrow> fs_derived_by spec = Some name \<longrightarrow> name \<in> set known"
  obtains st' where "perform mc v repo known i st = Inr st'" "cache_ok mc (ps_fallbacks st')"
    "ps_events st' = ps_events st" "ps_report st' = ps_report st" "ps_recomputing st' = ps_recomputing st"
    "ps_first_seen st' = ps_first_seen st" "ps_impls st' = row_of_intent mc i (ps_impls st)"
proof (cases i)
  case (Claim kind source name s supplied command transport)
  then obtain d where d: "claimed mc repo i = Some d" by (simp add: claimed_def)
  then have "said mc v repo known i = None" using assms(1) Claim by (simp add: said_def stands_def)
  then show ?thesis using perform_claim[OF assms(2) d, of v known] that by (metis append_Nil2 option.case(1))
next
  case (Shape s spec up down)
  then obtain fd where fd: "field_at v s (fs_name spec) = Some fd" "fd_ty fd = type_named (fs_ty spec)"
    "fd_declaring_repo fd = repo" "fd_ownership fd = ownership_of (map_option producer_hash (fs_derived_by spec))"
    using assms(1) by (auto simp: stands_def field_is_def split: option.splits)
  have "perform mc v repo known i st = Inr (st\<lparr>ps_unchanged := ps_unchanged st + 1\<rparr>)"
    using assms(3) Shape fd
    by (cases "fs_derived_by spec") (auto simp: Shape perform_shape_def declare_field_def resolve_owner_def Let_def)
  then show ?thesis by (rule that) (use assms(2) Shape in simp_all)
qed

lemma performs_stands:
  assumes "\<forall>i \<in> set is. stands mc v repo i" "cache_ok mc (ps_fallbacks st)"
    and "\<forall>s spec up down name. Shape s spec up down \<in> set is \<longrightarrow> fs_derived_by spec = Some name \<longrightarrow> name \<in> set known"
  shows "\<exists>st'. performs mc v repo known is st = Inr st' \<and> ps_events st' = ps_events st \<and> ps_report st' = ps_report st \<and>
    ps_recomputing st' = ps_recomputing st \<and> ps_first_seen st' = ps_first_seen st \<and>
    ps_impls st' = fold (row_of_intent mc) is (ps_impls st)"
  using assms
proof (induction "is" arbitrary: st)
  case (Cons i "is")
  obtain st1 where st1: "perform mc v repo known i st = Inr st1" "cache_ok mc (ps_fallbacks st1)"
    "ps_events st1 = ps_events st" "ps_report st1 = ps_report st" "ps_recomputing st1 = ps_recomputing st"
    "ps_first_seen st1 = ps_first_seen st" "ps_impls st1 = row_of_intent mc i (ps_impls st)"
    using perform_stands[of mc v repo i st known] Cons.prems by (metis list.set_intros(1))
  have "\<exists>st'. performs mc v repo known is st1 = Inr st' \<and> ps_events st' = ps_events st1 \<and> ps_report st' = ps_report st1 \<and>
    ps_recomputing st' = ps_recomputing st1 \<and> ps_first_seen st' = ps_first_seen st1 \<and>
    ps_impls st' = fold (row_of_intent mc) is (ps_impls st1)"
    using Cons.prems by (intro Cons.IH st1(2)) auto
  then show ?case using st1 by simp
qed simp

text \<open>Remembering the same rows again moves nothing.\<close>

fun intent_id :: "intent \<Rightarrow> producer_id set" where
  "intent_id (Claim _ _ name _ _ _ _) = {producer_hash name}"
| "intent_id (Shape _ _ _ _) = {}"

definition intent_ids :: "intent list \<Rightarrow> producer_id set" where
  "intent_ids is = \<Union> (intent_id ` set is)"

lemma intent_ids_Cons: "intent_ids (i # is) = intent_id i \<union> intent_ids is"
  by (simp add: intent_ids_def)

lemma fold_rows:
  "fold (row_of_intent mc) is impls =
     filter (\<lambda>r. im_id r \<notin> intent_ids is) impls @ fold (row_of_intent mc) is []"
proof (induction "is" arbitrary: impls)
  case Nil
  then show ?case by (simp add: intent_ids_def)
next
  case (Cons i "is")
  show ?case
  proof (cases i)
    case (Claim kind source name s supplied command transport)
    let ?r = "row_of_intent mc i"
    have "fold (row_of_intent mc) is (?r impls) =
        filter (\<lambda>r. im_id r \<notin> intent_ids is) (?r impls) @ fold (row_of_intent mc) is []"
      "fold (row_of_intent mc) is (?r []) =
        filter (\<lambda>r. im_id r \<notin> intent_ids is) (?r []) @ fold (row_of_intent mc) is []"
      by (rule Cons.IH)+
    then show ?thesis by (auto simp: Claim intent_ids_Cons remember_def conj_commute)
  next
    case (Shape s spec up down)
    then show ?thesis using Cons.IH[of impls] by (simp add: intent_ids_Cons)
  qed
qed

lemma intent_rows_ids: "r \<in> set (fold (row_of_intent mc) is []) \<Longrightarrow> im_id r \<in> intent_ids is"
proof (induction "is")
  case (Cons i "is")
  then show ?case
    using fold_rows[of mc "is" "row_of_intent mc i []"]
    by (cases i) (auto simp: intent_ids_Cons remember_def split: if_splits)
qed simp

lemma rows_again:
  "fold (row_of_intent mc) is (fold (row_of_intent mc) is impls) = fold (row_of_intent mc) is impls"
proof -
  have "filter (\<lambda>r. im_id r \<notin> intent_ids is) (fold (row_of_intent mc) is impls) =
      filter (\<lambda>r. im_id r \<notin> intent_ids is) impls"
    by (subst fold_rows) (auto simp: filter_empty_conv dest: intent_rows_ids)
  then show ?thesis by (metis fold_rows)
qed

end
