(* ===== verification/Push_Properties.thy ===== *)
theory Push_Properties
  imports Push_Intents
begin

text \<open>
  Pushing what has just landed says nothing, and what a repository must not describe for that to hold:
  two definitions of one producer, or a field that gets a new type and an owner at once.
\<close>

section \<open>What a repository should not describe\<close>

definition claims :: "push_machine \<Rightarrow> repo_id \<Rightarrow> described \<Rightarrow> producer_def list" where
  "claims mc repo described =
     (case intents described of Inl _ \<Rightarrow> [] | Inr is \<Rightarrow> List.map_filter (claimed mc repo) is)"

text \<open>
  No two definitions claim one producer, no two scripts give one field two shapes, and no field has both
  an \<open>up\<close> migration and an owner.
\<close>

definition one_shape :: "field_spec \<Rightarrow> field_spec \<Rightarrow> bool" where
  "one_shape x y \<longleftrightarrow> fs_name x = fs_name y \<longrightarrow>
     type_named (fs_ty x) = type_named (fs_ty y) \<and>
     map_option producer_hash (fs_derived_by x) = map_option producer_hash (fs_derived_by y)"

definition coherent :: "push_machine \<Rightarrow> repo_id \<Rightarrow> described \<Rightarrow> bool" where
  "coherent mc repo described \<longleftrightarrow>
     (\<forall>d \<in> set (claims mc repo described). \<forall>d' \<in> set (claims mc repo described). pd_id d = pd_id d' \<longrightarrow> d = d') \<and>
     (\<forall>(s, x) \<in> set (all_fields described). \<forall>(s', y) \<in> set (all_fields described). s = s' \<longrightarrow> one_shape x y) \<and>
     (\<forall>(s, x) \<in> set (all_fields described). fs_up x \<noteq> None \<longrightarrow> fs_derived_by x = None)"

lemma shape_intents:
  assumes "intents described = Inr is" "Shape s spec up down \<in> set is"
  shows "(s, spec) \<in> set (all_fields described)" "up \<noteq> None \<longrightarrow> fs_up spec \<noteq> None"
proof -
  have mig: "(p \<noteq> None \<longrightarrow> name \<noteq> None) \<and> Shape s spec up down \<notin> set js"
    if "migration_intents described s' f what direction name = Inr (p, js)" for s' f what direction name p js
    using that by (auto simp: migration_intents_def split: option.splits sum.splits)
  have one: "(s, spec) = sf \<and> (up \<noteq> None \<longrightarrow> fs_up spec \<noteq> None)"
    if "field_intents described sf = Inr js" "Shape s spec up down \<in> set js" for sf js
    using that by (cases sf) (auto simp: field_intents_def Let_def dest!: mig split: sum.splits)
  have "(s, spec) \<in> set fs \<and> (up \<noteq> None \<longrightarrow> fs_up spec \<noteq> None)"
    if "fields_intents described fs = Inr js" "Shape s spec up down \<in> set js" for fs js
    using that
  proof (induction fs arbitrary: js)
    case (Cons sf fs)
    obtain j ks where "field_intents described sf = Inr j" "fields_intents described fs = Inr ks" "js = j @ ks"
      using Cons.prems(1) by (auto split: sum.splits)
    then show ?case using Cons one[of sf j] by auto
  qed simp
  moreover have "Shape s spec up down \<notin> set (producer_intents described)" by (auto simp: producer_intents_def)
  ultimately show "(s, spec) \<in> set (all_fields described)" "up \<noteq> None \<longrightarrow> fs_up spec \<noteq> None"
    using assms by (auto simp: intents_def split: sum.splits)
qed

lemma said_claim: "claimed mc repo i = Some d \<Longrightarrow> said mc v repo known i = Some e \<Longrightarrow> e = PushProducer d"
  by (auto simp: said_def claimed_def split: intent.splits if_splits)

lemma settled_change:
  "producer_change (Some (d\<lparr>pd_version := at\<rparr>)) d = UnchangedProducer"
  by (simp add: producer_change_def split: option.split)

text \<open>What a coherent push has put in force stands as each of its intents asks for.\<close>

lemma landed_stands:
  assumes run: "performs mc v repo (known_names described) is st0 = Inr st" "intents described = Inr is"
    and ok: "coherent mc repo described"
    and landed: "apply_events at (List.map_filter (said mc v repo (known_names described)) is) v = Inr v'"
    and i: "i \<in> set is"
  shows "stands mc v' repo i"
proof -
  let ?k = "known_names described" and ?es = "List.map_filter (said mc v repo (known_names described)) is"
  have es: "e \<in> set ?es \<longleftrightarrow> (\<exists>j \<in> set is. said mc v repo ?k j = Some e)" for e
    by (force simp: List.map_filter_def)
  have lone: "fs_up x \<noteq> None \<longrightarrow> fs_derived_by x = None" if "Shape s x up down \<in> set is" for s x up down
    using ok shape_intents(1)[OF run(2) that] unfolding coherent_def by fast
  have shapes: "shape_event repo s x e" if "Shape s x up down \<in> set is" "said mc v repo ?k (Shape s x up down) = Some e" for s x up down e
    using performs_each[OF run(1) that(1)] shape_said(2)[OF _ shape_intents(2)[OF run(2) that(1)] lone[OF that(1)] that(2)]
    by blast
  show ?thesis
  proof (cases i)
    case (Claim kind source name s supplied command transport)
    then obtain d where d: "claimed mc repo i = Some d" by (simp add: claimed_def)
    have mine: "\<forall>d'. PushProducer d' \<in> set ?es \<longrightarrow> pd_id d' = pd_id d \<longrightarrow> d' = d"
    proof (intro allI impI)
      fix d' assume h: "PushProducer d' \<in> set ?es" "pd_id d' = pd_id d"
      then obtain j where j: "j \<in> set is" "said mc v repo ?k j = Some (PushProducer d')" by (auto simp: es)
      have "claimed mc repo j = Some d'"
      proof (cases j)
        case (Claim kind source name s supplied command transport)
        then obtain x where "claimed mc repo j = Some x" by (simp add: claimed_def)
        then show ?thesis using said_claim[OF _ j(2)] by auto
      next
        case (Shape s x up down)
        then show ?thesis using shapes[of s x up down] j by (auto simp: field_event_def)
      qed
      then have "d' \<in> set (claims mc repo described)" "d \<in> set (claims mc repo described)"
        using i d j(1) run(2) by (force simp: claims_def List.map_filter_def)+
      then show "d' = d" using ok h(2) unfolding coherent_def by blast
    qed
    have "producer_change (view_producer v' (pd_id d)) d = UnchangedProducer"
    proof (cases "PushProducer d \<in> set ?es")
      case True
      then show ?thesis using producer_after[OF landed mine] by (simp add: settled_change)
    next
      case False
      then have "said mc v repo ?k i = None"
        using said_claim[OF d] i es by (metis not_None_eq)
      then show ?thesis
        using producer_after[OF landed mine] False d Claim by (auto simp: said_def split: if_splits)
    qed
    then show ?thesis using d Claim by (simp add: stands_def)
  next
    case (Shape s x up down)
    note f = shape_intents[OF run(2) i[unfolded Shape]]
    have "shape_stands v' repo s x"
    proof (rule field_after[OF landed])
      show "\<forall>e \<in> set ?es. def_touches e = Some (s, fs_name x) \<longrightarrow> shape_event repo s x e"
      proof (intro ballI impI)
        fix e assume e: "e \<in> set ?es" "def_touches e = Some (s, fs_name x)"
        then obtain j where j: "j \<in> set is" "said mc v repo ?k j = Some e" by (auto simp: es)
        obtain s' y up' down' where y: "j = Shape s' y up' down'"
        proof (cases j)
          case (Claim kind source name s supplied command transport)
          then obtain d where "claimed mc repo j = Some d" by (simp add: claimed_def)
          from said_claim[OF this j(2)] e(2) show ?thesis by simp
        qed (use that in blast)
        have ev: "shape_event repo s' y e" using shapes j y by blast
        then have "s' = s" "fs_name y = fs_name x" using e(2) by (auto simp: field_event_def)
        moreover from this have "one_shape x y"
          using ok f(1) shape_intents(1)[OF run(2) j(1)[unfolded y]] unfolding coherent_def by fast
        ultimately show "shape_event repo s x e" using ev by (auto simp: field_event_def one_shape_def)
      qed
      show "shape_stands v repo s x \<or> (\<exists>e \<in> set ?es. shape_event repo s x e)"
      proof (cases "said mc v repo ?k i")
        case None
        then show ?thesis using performs_each[OF run(1) i] shape_said(1) f(2) Shape by metis
      next
        case (Some e)
        then show ?thesis using shapes[of s x up down e] i es Shape by auto
      qed
    qed
    then show ?thesis by (simp add: Shape stands_def)
  qed
qed

lemma push_state_new_fields [simp]:
  "ps_impls (push_state_new impls) = impls" "ps_events (push_state_new impls) = []" "ps_report (push_state_new impls) = []"
  "ps_recomputing (push_state_new impls) = 0" "ps_first_seen (push_state_new impls) = 0"
  "ps_fallbacks (push_state_new impls) = []"
  by (simp_all add: push_state_new_def)

lemma cache_new [simp]: "cache_ok mc []"
  by (simp add: cache_ok_def)

lemma push_diff_again:
  assumes first: "push_diff mc v repo described impls = Inr st" and ok: "coherent mc repo described"
    and landed: "apply_events at (ps_events st) v = Inr v'"
  obtains again where "push_diff mc v' repo described (ps_impls st) = Inr again" "ps_events again = []"
    "ps_impls again = ps_impls st"
    "push_report again = [''unchanged: '' @ plural (ps_unchanged again) ''definition'' @ '' already in force, nothing pushed'']"
proof -
  let ?k = "known_names described"
  obtain "is" where run: "intents described = Inr is" "performs mc v repo ?k is (push_state_new impls) = Inr st"
    "orphan_migration (ps_impls st) described = None"
    using first by (auto simp: push_diff_iff)
  have st: "ps_events st = List.map_filter (said mc v repo ?k) is"
    "ps_impls st = fold (row_of_intent mc) is impls"
    using performs_said[OF run(2)] by simp_all
  have stands: "\<forall>i \<in> set is. stands mc v' repo i"
    using landed_stands[OF run(2,1) ok landed[unfolded st(1)]] by blast
  have owners: "\<forall>s spec up down name. Shape s spec up down \<in> set is \<longrightarrow> fs_derived_by spec = Some name \<longrightarrow> name \<in> set ?k"
  proof (intro allI impI)
    fix s spec up down name assume h: "Shape s spec up down \<in> set is" "fs_derived_by spec = Some name"
    note f = shape_intents[OF run(1) h(1)]
    have "fs_up spec \<noteq> None \<longrightarrow> fs_derived_by spec = None" using ok f(1) unfolding coherent_def by fast
    then show "name \<in> set ?k" using performs_each[OF run(2) h(1)] shape_said(3)[OF _ f(2) _ h(2)] by blast
  qed
  obtain again where again: "performs mc v' repo ?k is (push_state_new (ps_impls st)) = Inr again" "ps_events again = []"
    "ps_report again = []" "ps_recomputing again = 0" "ps_first_seen again = 0"
    "ps_impls again = fold (row_of_intent mc) is (ps_impls st)"
    using performs_stands[OF stands _ owners, of "push_state_new (ps_impls st)"] by auto
  have "ps_impls again = ps_impls st" using again(6) st(2) by (simp add: rows_again)
  moreover from this have "push_diff mc v' repo described (ps_impls st) = Inr again"
    using run(1,3) again(1) by (auto simp: push_diff_iff)
  ultimately show ?thesis using again(2-5) by (intro that[of again]) (simp_all add: push_report_def)
qed

text \<open>Where a push that succeeds leaves its branch.\<close>

lemma pushed_view:
  assumes "mg_reachable m" and "origins_known m" and "mg_next m \<noteq> - 1"
    and "push_described mc repo described b (m, impls) = (Inr p, m', impls')"
  obtains path v st at v' where "lm_read_path m b None = Inr path" "view m path = Inr v"
    "push_diff mc v repo described impls = Inr st" "impls' = ps_impls st"
    "apply_events at (ps_events st) v = Inr v'" "branch_view m' b = Inr v'"
proof -
  obtain path v st where d: "lm_read_path m b None = Inr path" "view m path = Inr v"
    "push_diff mc v repo described impls = Inr st" "impls' = ps_impls st"
    using assms(4) by (auto simp: push_described_def split: sum.splits if_splits prod.splits)
  have "\<exists>at v'. apply_events at (ps_events st) v = Inr v' \<and> branch_view m' b = Inr v'"
  proof (cases "ps_events st = []")
    case True
    then have "m' = m" using assms(4) d by (simp add: push_described_def)
    then show ?thesis using True d by (simp add: branch_view_def)
  next
    case False
    show ?thesis
    proof (cases "apply_events (mg_next m) (ps_events st) v")
      case (Inl refused)
      then obtain n where "def_push b (ps_events st) m = (Inl refused, n)"
        using def_push_refused[OF assms(1-3) d(1,2)] by metis
      then show ?thesis using assms(4) d False by (simp add: push_described_def)
    next
      case (Inr v')
      then obtain n where "def_push b (ps_events st) m = (Inr (mg_next m), n)" "branch_view n b = Inr v'"
        using def_push_accepted[OF assms(1-3) d(1,2)] by metis
      then show ?thesis using assms(4) d False Inr by (auto simp: push_described_def)
    qed
  qed
  then show ?thesis using that[OF d] by blast
qed

text \<open>The shape of every field is among the intents, and a field's owner is not what a push can change.\<close>

lemma field_has_shape:
  assumes "intents described = Inr is" "(s, spec) \<in> set (all_fields described)"
  obtains up down where "Shape s spec up down \<in> set is"
proof -
  have "\<exists>up down. Shape s spec up down \<in> set js"
    if "fields_intents described fs = Inr js" "(s, spec) \<in> set fs" for fs js
    using that
  proof (induction fs arbitrary: js)
    case (Cons sf fs)
    then show ?case by (fastforce simp: field_intents_def Let_def split: sum.splits)
  qed simp
  then show ?thesis using assms that by (fastforce simp: intents_def split: sum.splits)
qed

definition owned_by_clients :: "def_view \<Rightarrow> string \<Rightarrow> string \<Rightarrow> bool" where
  "owned_by_clients v s f \<longleftrightarrow> (\<exists>fd. field_at v s f = Some fd \<and> fd_ownership fd = OwnSource)"

lemma owner_kept:
  assumes "def_apply e at v = Inr v'" "\<forall>s f r. e \<noteq> DeleteField s f r" "owned_by_clients v s f"
  shows "owned_by_clients v' s f"
proof -
  have "field_at v' s f = event_fields e at (fields_of v) (s, f)" using def_apply_ok(2)[OF assms(1)] by (metis fields_of_simps)
  then show ?thesis using assms(2,3) by (cases e) (auto simp: owned_by_clients_def split: option.split)
qed

lemma new_owner_refused:
  assumes "owned_by_clients v s f" "DeclareField s f ty repo (OwnDerived q) \<in> set es"
    and "\<forall>e \<in> set es. \<forall>s f r. e \<noteq> DeleteField s f r"
  shows "\<exists>err. apply_events at es v = Inl err"
  using assms
proof (induction es arbitrary: v)
  case (Cons e es)
  show ?case
  proof (cases "def_apply e at v")
    case (Inr u)
    then have "e \<noteq> DeclareField s f ty repo (OwnDerived q)"
      using Cons.prems(1) by (auto simp: owned_by_clients_def apply_declare_alt split: if_splits)
    moreover have "owned_by_clients u s f" using owner_kept[OF Inr _ Cons.prems(1)] Cons.prems(3) by simp
    ultimately show ?thesis using Cons Inr by simp
  qed simp
qed simp

lemma said_no_delete: "said mc v repo known i = Some e \<Longrightarrow> e \<noteq> DeleteField s f r"
  by (auto simp: said_def perform_shape_def declare_field_def mutate_field_def emit_def push_state_new_def Let_def
      split: intent.splits option.splits if_splits sum.splits)

lemma said_touches: "said mc v repo known (Shape s y up down) = Some e \<Longrightarrow> def_touches e = Some (s, fs_name y)"
  by (auto simp: said_def perform_shape_def declare_field_def mutate_field_def emit_def push_state_new_def Let_def
      split: option.splits if_splits sum.splits)

text \<open>A field whose type moves: what its shape says, and what a push makes of it.\<close>

lemma moved_type_said:
  assumes "perform mc v repo known (Shape s y up down) st1 = Inr st2" "field_at v s (fs_name y) = Some fd"
    and "fd_ty fd \<noteq> type_named (fs_ty y)"
  shows "\<exists>p q. said mc v repo known (Shape s y up down) = Some (MutateField s (fs_name y) (type_named (fs_ty y)) repo p q)"
  using assms
  by (auto simp: perform_shape_def mutate_field_def said_def emit_def push_state_new_def ownership_producer_def Let_def
      split: option.splits ownership.splits)

lemma moved_type_lands:
  assumes run: "performs mc v repo known is st0 = Inr st"
    and landed: "apply_events at (List.map_filter (said mc v repo known) is) v = Inr v'"
    and i: "Shape s spec up down \<in> set is" and fd: "field_at v s (fs_name spec) = Some fd" "fd_ty fd \<noteq> type_named (fs_ty spec)"
    and one: "\<forall>y u w. Shape s y u w \<in> set is \<longrightarrow> fs_name y = fs_name spec \<longrightarrow> type_named (fs_ty y) = type_named (fs_ty spec)"
  shows "field_is v' s (fs_name spec) (type_named (fs_ty spec)) repo OwnSource"
proof (rule field_after[OF landed])
  let ?f = "fs_name spec" and ?ty = "type_named (fs_ty spec)" and ?es = "List.map_filter (said mc v repo known) is"
  have es: "e \<in> set ?es \<longleftrightarrow> (\<exists>j \<in> set is. said mc v repo known j = Some e)" for e
    by (force simp: List.map_filter_def)
  have mutated: "\<exists>p q. said mc v repo known (Shape s y u w) = Some (MutateField s ?f ?ty repo p q)"
    if y: "Shape s y u w \<in> set is" "fs_name y = ?f" for y u w
    using performs_each[OF run y(1)] moved_type_said[of mc v repo known s y u w _ _ fd] fd one y by metis
  show "\<forall>e \<in> set ?es. def_touches e = Some (s, ?f) \<longrightarrow> field_event s ?f ?ty repo OwnSource e"
  proof (intro ballI impI)
    fix e assume e: "e \<in> set ?es" "def_touches e = Some (s, ?f)"
    then obtain j where j: "j \<in> set is" "said mc v repo known j = Some e" by (auto simp: es)
    show "field_event s ?f ?ty repo OwnSource e"
    proof (cases j)
      case (Claim kind source name s' supplied command transport)
      then obtain x where "claimed mc repo j = Some x" by (simp add: claimed_def)
      from said_claim[OF this j(2)] e(2) show ?thesis by simp
    next
      case (Shape s' y u w)
      then have "Shape s y u w \<in> set is" "fs_name y = ?f" "said mc v repo known (Shape s y u w) = Some e"
        using j e(2) said_touches[of mc v repo known s' y u w e] by simp_all
      then show ?thesis using mutated[of y u w] by (auto simp: field_event_def)
    qed
  qed
  obtain p q where "said mc v repo known (Shape s spec up down) = Some (MutateField s ?f ?ty repo p q)"
    using mutated[OF i refl] by blast
  then have "MutateField s ?f ?ty repo p q \<in> set ?es" using i es by blast
  then show "field_is v s ?f ?ty repo OwnSource \<or> (\<exists>e \<in> set ?es. field_event s ?f ?ty repo OwnSource e)"
    by (auto simp: field_event_def)
qed

lemma owner_said:
  assumes "perform mc v repo known (Shape s spec up down) st1 = Inr st2" "fs_derived_by spec = Some owner"
    and "field_is v s (fs_name spec) (type_named (fs_ty spec)) repo OwnSource"
  shows "said mc v repo known (Shape s spec up down) =
    Some (DeclareField s (fs_name spec) (type_named (fs_ty spec)) repo (OwnDerived (producer_hash owner)))"
  using assms
  by (auto simp: perform_shape_def declare_field_def said_def emit_def push_state_new_def Let_def field_is_def
      resolve_owner_def ownership_of_def split: if_splits)

section \<open>Properties\<close>

text \<open>Property C16. A push is idempotent: where no two definitions of the repository claim one producer, no two
  scripts give one field two shapes and no field has both an up migration and an owner, pushing a repository
  that has just been pushed emits no event, opens no layer and leaves the log and the table of implementations
  as they are, saying that everything is already in force.\<close>

theorem pushing_again_changes_nothing:
  assumes "mg_reachable m" and "origins_known m" and "mg_next m \<noteq> - 1" and "coherent mc repo described"
    and "push_described mc repo described b (m, impls) = (Inr p, m', impls')"
  shows "\<exists>n. push_described mc repo described b (m', impls') =
     (Inr \<lparr>pu_layer = None, pu_report = [''unchanged: '' @ plural n ''definition'' @ '' already in force, nothing pushed'']\<rparr>,
      m', impls')"
proof -
  obtain path v st at v' where d: "lm_read_path m b None = Inr path" "view m path = Inr v"
    "push_diff mc v repo described impls = Inr st" "impls' = ps_impls st"
    and v': "apply_events at (ps_events st) v = Inr v'" "branch_view m' b = Inr v'"
    by (rule pushed_view[OF assms(1-3,5)])
  obtain path' where "lm_read_path m' b None = Inr path'" "view m' path' = Inr v'"
    using v'(2) by (auto simp: branch_view_def split: sum.splits)
  moreover obtain again where "push_diff mc v' repo described (ps_impls st) = Inr again" "ps_events again = []"
    "ps_impls again = ps_impls st"
    "push_report again = [''unchanged: '' @ plural (ps_unchanged again) ''definition'' @ '' already in force, nothing pushed'']"
    by (rule push_diff_again[OF d(3) assms(4) v'(1)])
  ultimately have "push_described mc repo described b (m', impls') = (Inr \<lparr>pu_layer = None, pu_report =
      [''unchanged: '' @ plural (ps_unchanged again) ''definition'' @ '' already in force, nothing pushed'']\<rparr>, m', impls')"
    by (simp only: push_described_def d(4) fst_conv snd_conv sum.case simp_thms if_True)
  then show ?thesis by blast
qed

text \<open>Property C17. A repository in which two definitions claim one producer with different kinds or different sources,
  such as one migration that two fields name or that is both the up and the down of one, never settles:
  whatever definitions are in force, each push of it emits an event. (Claims that differ in nothing but the
  fingerprint of the script are outside: one that carries no fingerprint is unchanged beside any other.)\<close>

theorem twice_claimed_never_settles:
  assumes "d \<in> set (claims mc repo described)" and "d' \<in> set (claims mc repo described)" and "pd_id d = pd_id d'"
    and "pd_kind d \<noteq> pd_kind d' \<or> pd_source d \<noteq> pd_source d'"
    and "push_diff mc v repo described impls = Inr st"
  shows "ps_events st \<noteq> []"
proof
  assume none: "ps_events st = []"
  let ?k = "known_names described"
  obtain "is" where run: "intents described = Inr is" "performs mc v repo ?k is (push_state_new impls) = Inr st"
    using assms(5) by (auto simp: push_diff_iff)
  have "List.map_filter (said mc v repo ?k) is = []" using performs_said[OF run(2)] none by simp
  then have quiet: "said mc v repo ?k i = None" if "i \<in> set is" for i
    using that by (auto simp: List.map_filter_def filter_empty_conv)
  have "producer_change (view_producer v (pd_id x)) x = UnchangedProducer" if x: "x \<in> set (claims mc repo described)" for x
  proof -
    obtain i where i: "i \<in> set is" "claimed mc repo i = Some x"
      using x run(1) by (auto simp: claims_def List.map_filter_def)
    then show ?thesis using quiet[OF i(1)] by (auto simp: said_def claimed_def split: intent.splits if_splits)
  qed
  from this[OF assms(1)] this[OF assms(2)] assms(3,4) show False
    by (auto simp: producer_change_def split: option.splits if_splits)
qed

text \<open>Property C18. Where a repository gives a field in force a new type and an owner at once, and every shape it has for
  that field names this one type, the push puts the field in force with the new type and without an owner, as
  one that clients write; and the repository cannot be pushed again: against the definitions that this push
  leaves, the events of the next one declare the owner and are refused.\<close>

theorem owner_with_a_new_type_is_dropped:
  assumes "(s, spec) \<in> set (all_fields described)" and "fs_derived_by spec = Some owner"
    and "field_at v s (fs_name spec) = Some fd" and "fd_ty fd \<noteq> type_named (fs_ty spec)"
    and "\<forall>(s', y) \<in> set (all_fields described). s' = s \<and> fs_name y = fs_name spec \<longrightarrow>
      type_named (fs_ty y) = type_named (fs_ty spec)"
    and "push_diff mc v repo described impls = Inr st" and "apply_events at (ps_events st) v = Inr v'"
    and "push_diff mc v' repo described (ps_impls st) = Inr again"
  shows "field_is v' s (fs_name spec) (type_named (fs_ty spec)) repo OwnSource \<and>
    (\<exists>err. apply_events later (ps_events again) v' = Inl err)"
proof -
  let ?k = "known_names described"
  obtain "is" where run: "intents described = Inr is" "performs mc v repo ?k is (push_state_new impls) = Inr st"
    using assms(6) by (auto simp: push_diff_iff)
  have run2: "performs mc v' repo ?k is (push_state_new (ps_impls st)) = Inr again"
    using assms(8) run(1) by (auto simp: push_diff_iff)
  obtain up down where i: "Shape s spec up down \<in> set is" by (rule field_has_shape[OF run(1) assms(1)])
  have one: "\<forall>y u w. Shape s y u w \<in> set is \<longrightarrow> fs_name y = fs_name spec \<longrightarrow> type_named (fs_ty y) = type_named (fs_ty spec)"
    using assms(5) shape_intents(1)[OF run(1)] by fast
  have landed: "apply_events at (List.map_filter (said mc v repo ?k) is) v = Inr v'"
    using assms(7) performs_said[OF run(2)] by simp
  have now: "field_is v' s (fs_name spec) (type_named (fs_ty spec)) repo OwnSource"
    by (rule moved_type_lands[OF run(2) landed i assms(3,4) one])
  have again: "ps_events again = List.map_filter (said mc v' repo ?k) is" using performs_said[OF run2] by simp
  have "\<exists>err. apply_events later (ps_events again) v' = Inl err"
  proof (rule new_owner_refused)
    show "owned_by_clients v' s (fs_name spec)" using now by (auto simp: field_is_def owned_by_clients_def)
    show "DeclareField s (fs_name spec) (type_named (fs_ty spec)) repo (OwnDerived (producer_hash owner))
        \<in> set (ps_events again)"
      unfolding again using performs_each[OF run2 i] owner_said[OF _ assms(2) now] i
      by (force simp: List.map_filter_def)
    show "\<forall>e \<in> set (ps_events again). \<forall>s f r. e \<noteq> DeleteField s f r"
      unfolding again using said_no_delete by (fastforce simp: List.map_filter_def)
  qed
  with now show ?thesis by blast
qed

section \<open>Witnesses\<close>

definition w_machine :: push_machine where
  "w_machine = \<lparr>mc_bytes = (\<lambda>_. Some []), mc_canonical = (\<lambda>_. None), mc_hash = (\<lambda>bytes. bytes)\<rparr>"

definition w_field :: "string \<Rightarrow> string \<Rightarrow> string option \<Rightarrow> string option \<Rightarrow> field_spec" where
  "w_field name ty owner up = \<lparr>fs_name = name, fs_ty = ty, fs_derived_by = owner, fs_up = up, fs_down = None\<rparr>"

definition w_script :: "field_spec list \<Rightarrow> producer_spec list \<Rightarrow> migration_spec list \<Rightarrow> described" where
  "w_script fs ps ms =
     [(''crm'', \<lparr>ds_structs = [\<lparr>ss_name = ''Company'', ss_fields = fs\<rparr>], ds_producers = ps, ds_transport = Stdio,
       ds_repo = None, ds_migrations = ms\<rparr>)]"

lemmas w_push_defs = w_machine_def w_field_def w_script_def push_diff_def push_producers_def push_producer_def
  push_state_new_def all_fields_def push_field_def push_migration_def resolve_owner_def known_names_def
  claim_producer_def fingerprint_of_def land_producer_def declare_field_def mutate_field_def emit_def producer_change_def
  orphan_migration_def remember_def type_named_def ownership_of_def ownership_producer_def Let_def

definition w_plain :: described where
  "w_plain = w_script [w_field ''name'' ''String'' None None] [\<lparr>pr_name = ''invest'', pr_source = ''Company'', pr_fingerprint = None\<rparr>] []"

definition w_shared :: described where
  "w_shared = w_script [w_field ''name'' ''String'' None (Some ''wash''), w_field ''site'' ''String'' None (Some ''wash'')] []
     [\<lparr>ms_name = ''wash'', ms_fingerprint = None\<rparr>]"

definition w_owned :: described where
  "w_owned = w_script [w_field ''name'' ''Int'' (Some ''invest'') (Some ''wash'')]
     [\<lparr>pr_name = ''invest'', pr_source = ''Company'', pr_fingerprint = None\<rparr>] [\<lparr>ms_name = ''wash'', ms_fingerprint = None\<rparr>]"

lemma field_at_push [simp]: "field_at (apply_push d at v) = field_at v"
  by (simp add: fun_eq_iff apply_push_def field_at_def def_object_def)

lemma view_new_empty [simp]: "view_producer def_view_new p = None" "field_at def_view_new s f = None"
  by (simp_all add: view_producer_def field_at_def def_object_def def_view_new_def)

lemmas w_intent_defs = intents_def producer_intents_def field_intents_def migration_intents_def all_fields_def
  w_script_def w_field_def resolve_owner_def known_names_def claims_def claimed_def List.map_filter_simps

lemma pushing_again_changes_nothing_witness:
  "\<exists>p m impls n. push_described w_machine 1 w_plain 1 (s_start, []) = (Inr p, m, impls) \<and>
     push_described w_machine 1 w_plain 1 (m, impls) =
     (Inr \<lparr>pu_layer = None, pu_report = [''unchanged: '' @ plural n ''definition'' @ '' already in force, nothing pushed'']\<rparr>,
      m, impls)"
proof -
  have known: "origins_known s_start"
    by (simp add: origins_known_def origin_of_def lm_branch_def s_start_defs)
  have path: "lm_read_path s_start 1 None = Inr [(1, 0)]"
    by (simp add: lm_read_path_iff start_bound_def lm_head_def s_start_defs)
      (rule ancestry.Root, simp add: parent_link_def origin_of_def lm_branch_def)
  have v: "view s_start [(1, 0)] = Inr def_view_new"
    by (simp add: view_fold reg_def_layers_def def_layers_of_def s_start_defs)
  have n: "mg_next s_start \<noteq> - 1" by (simp add: s_start_defs)
  have ok: "coherent w_machine 1 w_plain"
    by (simp add: coherent_def w_plain_def w_intent_defs one_shape_def)
  obtain st where st: "push_diff w_machine def_view_new 1 w_plain [] = Inr st" "ps_events st \<noteq> []"
    "\<exists>v'. apply_events (mg_next s_start) (ps_events st) def_view_new = Inr v'"
    by (simp add: w_plain_def w_push_defs apply_declare_alt)
  then obtain v' where v': "apply_events (mg_next s_start) (ps_events st) def_view_new = Inr v'" by blast
  obtain m where "def_push 1 (ps_events st) s_start = (Inr (mg_next s_start), m)"
    using def_push_accepted[OF s_inv(1) known n path v v'] by metis
  then have run: "push_described w_machine 1 w_plain 1 (s_start, []) =
      (Inr \<lparr>pu_layer = Some (mg_next s_start), pu_report = push_report st\<rparr>, m, ps_impls st)"
    using st(1,2) path v by (simp add: push_described_def)
  show ?thesis using run pushing_again_changes_nothing[OF s_inv(1) known n ok run] by blast
qed

lemma twice_claimed_never_settles_witness:
  "\<exists>st. push_diff w_machine def_view_new 1 w_shared [] = Inr st \<and> ps_events st \<noteq> []"
proof -
  let ?d = "\<lambda>f. \<lparr>pd_id = producer_hash ''wash'', pd_kind = PKMigration MUp, pd_source = BObjectProp ''Company'' f, pd_version = 0,
     pd_declaring_repo = 1, pd_fingerprint = file_fingerprint w_machine ''crm''\<rparr>"
  have c: "?d ''name'' \<in> set (claims w_machine 1 w_shared)" "?d ''site'' \<in> set (claims w_machine 1 w_shared)"
    by (simp_all add: w_shared_def w_intent_defs)
  have two: "pd_id (?d ''name'') = pd_id (?d ''site'')"
    "pd_kind (?d ''name'') \<noteq> pd_kind (?d ''site'') \<or> pd_source (?d ''name'') \<noteq> pd_source (?d ''site'')"
    by simp_all
  have "\<exists>st. push_diff w_machine def_view_new 1 w_shared [] = Inr st"
    by (simp add: w_shared_def w_push_defs)
  then obtain st where st: "push_diff w_machine def_view_new 1 w_shared [] = Inr st" ..
  from twice_claimed_never_settles[OF c two st] st show ?thesis by blast
qed

lemma w_hashes: "producer_hash ''wash'' = 6788821258087180270" "producer_hash ''invest'' = 12342029420047889112"
  by (simp_all add: producer_hash_def)

lemma w_view_producers: "view_producer w_view p = None"
  by (simp add: w_view_def w_declare_def def_view_new_def apply_declare_def def_object_def set_object_def view_producer_def)

lemma view_producer_chains: "view_producer (v\<lparr>dv_chains := c\<rparr>) = view_producer v" "view_producer (set_object s ob v) = view_producer v"
  by (simp_all add: fun_eq_iff view_producer_def set_object_def)

lemma owner_with_a_new_type_is_dropped_witness:
  "\<exists>st v' again. push_diff w_machine w_view 1 w_owned [] = Inr st \<and> apply_events 2 (ps_events st) w_view = Inr v' \<and>
     push_diff w_machine v' 1 w_owned (ps_impls st) = Inr again \<and>
     field_is v' ''Company'' ''name'' TInt 1 OwnSource \<and> (\<exists>err. apply_events 3 (ps_events again) v' = Inl err)"
proof -
  have "\<exists>st v'. push_diff w_machine w_view 1 w_owned [] = Inr st \<and> apply_events 2 (ps_events st) w_view = Inr v' \<and>
      (\<exists>again. push_diff w_machine v' 1 w_owned (ps_impls st) = Inr again)"
    by (simp add: w_owned_def w_push_defs w_view_eq(3) w_hashes w_view_producers apply_mutate_alt push_producer_view view_producer_chains)
  then obtain st v' again where r: "push_diff w_machine w_view 1 w_owned [] = Inr st" "apply_events 2 (ps_events st) w_view = Inr v'"
    "push_diff w_machine v' 1 w_owned (ps_impls st) = Inr again" by blast
  let ?f = "w_field ''name'' ''Int'' (Some ''invest'') (Some ''wash'')"
  have f: "all_fields w_owned = [(''Company'', ?f)]" by (simp add: all_fields_def w_owned_def w_script_def)
  have g: "field_at w_view ''Company'' (fs_name ?f) = Some (fresh_field ''name'' TString 1 OwnSource 1)"
    by (simp add: w_field_def w_view_eq(3))
  have ty: "fd_ty (fresh_field ''name'' TString 1 OwnSource 1) \<noteq> type_named (fs_ty ?f)"
    unfolding field_def.simps by (simp add: w_field_def type_named_def)
  have "field_is v' ''Company'' (fs_name ?f) (type_named (fs_ty ?f)) 1 OwnSource \<and>
      (\<exists>err. apply_events 3 (ps_events again) v' = Inl err)"
    by (rule owner_with_a_new_type_is_dropped[OF _ _ g ty _ r, of "''invest''"]) (simp_all add: f, simp add: w_field_def)
  moreover have "fs_name ?f = ''name''" "type_named (fs_ty ?f) = TInt" by (simp_all add: w_field_def type_named_def)
  ultimately have "field_is v' ''Company'' ''name'' TInt 1 OwnSource \<and> (\<exists>err. apply_events 3 (ps_events again) v' = Inl err)"
    by simp
  then show ?thesis using r by blast
qed
end
