(* ===== verification/Sqlite_Invariant.thy ===== *)
theory Sqlite_Invariant
  imports Sqlite_Storage
begin

text \<open>
  Lemmas on the tables of the SQLite provider: key order, deletion, the rows of a layer, the row a
  seek picks; and the invariant that makes \<^verbatim>\<open>cell_index\<close> a projection of membership and events.
\<close>

section \<open>Tables\<close>

lemma bt_ok_delete [intro]: "bt_ok t \<Longrightarrow> bt_ok (delete_rows doomed t)"
  unfolding bt_ok_def delete_rows_def sorted_wrt_map by (rule sorted_wrt_filter)

lemma delete_get:
  assumes "bt_ok t"
  shows "map_of (delete_rows doomed t) k =
    (case map_of t k of None \<Rightarrow> None | Some r \<Rightarrow> if doomed k r then None else Some r)"
  using bt_ok_distinct[OF assms]
proof (induction t)
  case (Cons e t)
  obtain q x where e: "e = (q, x)" by (cases e)
  have "map_of t q = None" using Cons.prems by (simp add: e map_of_eq_None_iff)
  moreover have "map_of (delete_rows doomed t) k =
      (case map_of t k of None \<Rightarrow> None | Some r \<Rightarrow> if doomed k r then None else Some r)"
    using Cons by simp
  ultimately show ?case by (auto simp: e delete_rows_def)
qed (simp add: delete_rows_def)

lemma insert_row_Inr:
  "map_of t k = None \<Longrightarrow> insert_row k r t = Inr (bt_insert k r t)"
  by (simp add: insert_row_def)

subsection \<open>The rows of a layer\<close>

lemma layer_rows_Nil [simp]: "layer_rows l [] = []"
  by (simp add: layer_rows_def)

lemma layer_rows_Cons [simp]:
  "layer_rows l (((k, q), r) # t) = (if k = l then r # layer_rows l t else layer_rows l t)"
  by (simp add: layer_rows_def)

lemma layer_rows_skip:
  "\<forall>q r. ((l, q), r) \<notin> set t \<Longrightarrow> layer_rows l t = []"
  by (auto simp: layer_rows_def filter_empty_conv)

lemma layer_rows_other:
  "l \<noteq> k \<Longrightarrow> layer_rows l (bt_insert (k, q) r t) = layer_rows l t"
  by (induction t) auto

lemma layer_rows_append:
  assumes "bt_ok t" "\<forall>p. map_of t (l, p) \<noteq> None \<longrightarrow> p < q"
  shows "layer_rows l (bt_insert (l, q) r t) = layer_rows l t @ [r]"
  using assms
proof (induction t)
  case (Cons e t)
  obtain k p x where e: "e = ((k, p), x)" by (metis surj_pair)
  have ok: "bt_ok t" and above: "\<forall>y \<in> set t. (k, p) < fst y"
    using Cons.prems(1) by (auto simp: bt_ok_def e)
  have less: "k = l \<Longrightarrow> p < q" using Cons.prems(2) e by auto
  have "\<forall>p. map_of t (l, p) \<noteq> None \<longrightarrow> p < q" using Cons.prems(2) by (auto simp: e split: if_splits)
  then have IH: "layer_rows l (bt_insert (l, q) r t) = layer_rows l t @ [r]" using Cons.IH ok by blast
  show ?case
  proof (cases "(l, q) < (k, p)")
    case True
    then have "l < k" using less by (auto simp: less_prod_def')
    then have "layer_rows l t = []"
      using above by (intro layer_rows_skip) (fastforce simp: less_prod_def')
    with True \<open>l < k\<close> show ?thesis by (simp add: e)
  next
    case False
    have ne: "(l, q) \<noteq> (k, p)" using less by auto
    with False IH show ?thesis by (auto simp: e)
  qed
qed simp

lemma layer_rows_delete:
  "layer_rows l (delete_rows (\<lambda>(k, _) _. k = d) t) = (if l = d then [] else layer_rows l t)"
  by (induction t) (auto simp: delete_rows_def layer_rows_def)

lemma layer_rows_set:
  "bt_ok t \<Longrightarrow> n \<in> set (layer_rows l t) \<longleftrightarrow> (\<exists>q. map_of t (l, q) = Some n)"
  by (force simp: layer_rows_def hm_get_eq_Some_iff dest: bt_ok_distinct)

subsection \<open>The row on top\<close>

lemma top_row_None [simp]: "top_row f rows = None \<longleftrightarrow> rows = []"
proof -
  have "top_row f rows = None \<longleftrightarrow> sort_key f rows = []"
    by (auto simp: top_row_def split: list.splits)
  also have "\<dots> \<longleftrightarrow> rows = []" by (metis set_empty set_sort)
  finally show ?thesis .
qed

lemma top_row_Some:
  assumes "top_row f rows = Some r"
  shows "r \<in> set rows" "x \<in> set rows \<Longrightarrow> f x \<le> f r"
proof -
  obtain pre where "sort_key f rows = pre @ [r]"
    using assms by (auto simp: top_row_def split: list.splits)
  moreover from this have "sorted (map f (pre @ [r]))" by (metis sorted_sort_key)
  moreover have "set (sort_key f rows) = set rows" by simp
  ultimately have "set rows = insert r (set pre)" "\<forall>y \<in> set pre. f y \<le> f r"
    by (auto simp: sorted_append)
  then show "r \<in> set rows" "x \<in> set rows \<Longrightarrow> f x \<le> f r" by auto
qed

section \<open>The index is a projection\<close>

definition wrote :: "tables \<Rightarrow> string \<Rightarrow> string \<Rightarrow> int \<Rightarrow> int \<Rightarrow> bool" where
  "wrote t buffer key version n \<longleftrightarrow>
     (case map_of (tb_events t) n of
        None \<Rightarrow> False
      | Some row \<Rightarrow> er_buffer row = buffer \<and> er_key row = key \<and> er_version row = version)"

definition last_row :: "(int \<Rightarrow> bool) \<Rightarrow> int list \<Rightarrow> int option" where
  "last_row f ns = (case rev (filter f ns) of [] \<Rightarrow> None | n # _ \<Rightarrow> Some n)"

lemma last_row_Nil [simp]: "last_row f [] = None"
  by (simp add: last_row_def)

lemma last_row_snoc [simp]: "last_row f (ns @ [n]) = (if f n then Some n else last_row f ns)"
  by (simp add: last_row_def)

lemma last_row_cong: "(\<And>n. n \<in> set ns \<Longrightarrow> f n = g n) \<Longrightarrow> last_row f ns = last_row g ns"
  by (simp add: last_row_def cong: filter_cong)

lemma last_row_SomeD: "last_row f ns = Some n \<Longrightarrow> n \<in> set ns \<and> f n"
proof -
  assume "last_row f ns = Some n"
  then have "n \<in> set (rev (filter f ns))"
    by (simp add: last_row_def split: list.splits del: set_rev)
  then show ?thesis by simp
qed

text \<open>What membership and events say of an index key.\<close>

definition index_says :: "tables \<Rightarrow> index_key \<Rightarrow> int option" where
  "index_says t key =
     (case key of (b, buffer, ck, version, l) \<Rightarrow>
       (case map_of (tb_layers t) l of
          None \<Rightarrow> None
        | Some layer \<Rightarrow> if lr_branch layer = b
            then last_row (wrote t buffer ck version) (layer_rows l (tb_members t)) else None))"

definition keys_in_order :: "tables \<Rightarrow> bool" where
  "keys_in_order t \<longleftrightarrow> bt_ok (tb_layers t) \<and> bt_ok (tb_events t) \<and> bt_ok (tb_members t) \<and>
     bt_ok (tb_index t) \<and> bt_ok (tb_defs t) \<and> bt_ok (tb_branches t) \<and> bt_ok (tb_interned t)"

definition rows_named :: "tables \<Rightarrow> bool" where
  "rows_named t \<longleftrightarrow> (\<forall>l q n. map_of (tb_members t) (l, q) = Some n \<longrightarrow>
     map_of (tb_events t) n \<noteq> None \<and> map_of (tb_layers t) l \<noteq> None)"

definition index_ok :: "tables \<Rightarrow> bool" where
  "index_ok t \<longleftrightarrow> (\<forall>key. map_of (tb_index t) key = index_says t key)"

definition tables_ok :: "tables \<Rightarrow> bool" where
  "tables_ok t \<longleftrightarrow> keys_in_order t \<and> rows_named t \<and> index_ok t"

lemma tables_okD:
  assumes "tables_ok t"
  shows "bt_ok (tb_layers t)" "bt_ok (tb_events t)" "bt_ok (tb_members t)" "bt_ok (tb_index t)"
    "bt_ok (tb_defs t)" "bt_ok (tb_branches t)" "bt_ok (tb_interned t)" "rows_named t" "index_ok t"
  using assms by (simp_all add: tables_ok_def keys_in_order_def)

lemma tables_ok_empty: "tables_ok no_rows"
  by (auto simp: tables_ok_def keys_in_order_def rows_named_def index_ok_def index_says_def no_rows_def)

text \<open>The projection depends on the branches of the layers, on membership and on the named events.\<close>

lemma index_says_cong:
  assumes "\<And>l. map_option lr_branch (map_of (tb_layers u) l) = map_option lr_branch (map_of (tb_layers t) l)"
    and "\<And>l. layer_rows l (tb_members u) = layer_rows l (tb_members t)"
    and "\<And>l n. n \<in> set (layer_rows l (tb_members t)) \<Longrightarrow> map_of (tb_events u) n = map_of (tb_events t) n"
  shows "index_says u = index_says t"
proof
  fix key :: index_key
  obtain b buffer ck version l where key: "key = (b, buffer, ck, version, l)" by (cases key) auto
  have "last_row (wrote u buffer ck version) (layer_rows l (tb_members t)) =
      last_row (wrote t buffer ck version) (layer_rows l (tb_members t))"
    by (rule last_row_cong) (simp add: wrote_def assms(3))
  then show "index_says u key = index_says t key"
    using assms(1)[of l] assms(2)
    by (auto simp: index_says_def key split: option.splits)
qed

section \<open>What the statements do\<close>

definition authored_row :: "int \<Rightarrow> string \<times> string \<times> int \<times> string \<times> int \<times> string option \<Rightarrow> event_row" where
  "authored_row layer cols =
     (case cols of (buffer, key, version, v, source, by) \<Rightarrow>
        \<lparr>er_buffer = buffer, er_key = key, er_version = version, er_value = v, er_origin = source,
         er_derivation = by, er_authored = layer\<rparr>)"

text \<open>One buffered row, where its event and its place in the layer are new.\<close>

lemma flush_row_ok:
  assumes ok: "tables_ok t" and layer: "map_of (tb_layers t) l = Some lr" "lr_branch lr = b"
    and place: "\<forall>q. map_of (tb_members t) (l, q) \<noteq> None \<longrightarrow> q < pd_seq p"
    and fresh: "pd_authored p \<noteq> None \<longleftrightarrow> map_of (tb_events t) (pd_event p) = None"
  obtains u where "flush_row b l p t = Inr u" "tables_ok u"
    "tb_layers u = tb_layers t" "tb_defs u = tb_defs t" "tb_branches u = tb_branches t"
    "tb_interned u = tb_interned t"
    "map_of (tb_events u) = (case pd_authored p of None \<Rightarrow> map_of (tb_events t)
       | Some cols \<Rightarrow> (map_of (tb_events t))(pd_event p \<mapsto> authored_row l cols))"
    "map_of (tb_members u) = (map_of (tb_members t))((l, pd_seq p) \<mapsto> pd_event p)"
    "\<And>k. layer_rows k (tb_members u) =
       (if k = l then layer_rows l (tb_members t) @ [pd_event p] else layer_rows k (tb_members t))"
proof -
  note o = tables_okD[OF ok]
  define events where "events = (case pd_authored p of None \<Rightarrow> tb_events t
      | Some cols \<Rightarrow> bt_insert (pd_event p) (authored_row l cols) (tb_events t))"
  define t1 where "t1 = t\<lparr>tb_events := events\<rparr>"
  have ins: "insert_authored l p t = Inr t1"
    using fresh by (auto simp: insert_authored_def t1_def events_def authored_row_def insert_row_def
        split: option.split prod.split)
  obtain row where row: "map_of events (pd_event p) = Some row"
    using fresh by (cases "pd_authored p") (auto simp: events_def)
  have ev: "map_of events = (case pd_authored p of None \<Rightarrow> map_of (tb_events t)
       | Some cols \<Rightarrow> (map_of (tb_events t))(pd_event p \<mapsto> authored_row l cols))"
    by (simp add: events_def split: option.split)
  have free: "map_of (tb_members t) (l, pd_seq p) = None" using place by blast
  let ?members = "bt_insert (l, pd_seq p) (pd_event p) (tb_members t)"
  define u where "u = index_row b l (pd_event p) row (t1\<lparr>tb_members := ?members\<rparr>)"
  have u [simp]: "tb_layers u = tb_layers t" "tb_defs u = tb_defs t" "tb_branches u = tb_branches t"
    "tb_interned u = tb_interned t" "tb_events u = events" "tb_members u = ?members"
    "tb_index u = bt_insert (b, er_buffer row, er_key row, er_version row, l) (pd_event p) (tb_index t)"
    by (simp_all add: u_def index_row_def t1_def)
  have rows: "layer_rows k ?members =
      (if k = l then layer_rows l (tb_members t) @ [pd_event p] else layer_rows k (tb_members t))" for k
    using layer_rows_append[OF o(3) place] layer_rows_other by auto
  have kept: "map_of events n = map_of (tb_events t) n" if "map_of (tb_events t) n \<noteq> None" for n
    using that fresh by (auto simp: ev split: option.splits)
  have named: "rows_named u"
    using o(8) row layer(1) kept by (fastforce simp: rows_named_def)
  have says: "index_says u (b', bf, ck, v, k) =
      (if k = l \<and> b' = b \<and> bf = er_buffer row \<and> ck = er_key row \<and> v = er_version row
       then Some (pd_event p) else index_says t (b', bf, ck, v, k))" for b' bf ck v k
  proof -
    have "last_row (wrote u bf ck v) (layer_rows k (tb_members t)) =
        last_row (wrote t bf ck v) (layer_rows k (tb_members t))"
    proof (rule last_row_cong)
      fix n assume "n \<in> set (layer_rows k (tb_members t))"
      then obtain q where "map_of (tb_members t) (k, q) = Some n" by (auto simp: layer_rows_set[OF o(3)])
      then have "map_of (tb_events t) n \<noteq> None" using o(8) by (auto simp: rows_named_def)
      then show "wrote u bf ck v n = wrote t bf ck v n" by (simp add: wrote_def kept)
    qed
    moreover have "wrote u bf ck v (pd_event p) \<longleftrightarrow> bf = er_buffer row \<and> ck = er_key row \<and> v = er_version row"
      by (auto simp: wrote_def row)
    ultimately show ?thesis using layer by (auto simp: index_says_def rows split: option.splits)
  qed
  have "index_ok u" using o(9) by (auto simp: index_ok_def says)
  moreover have "keys_in_order u"
    using o by (auto simp: keys_in_order_def events_def split: option.split)
  ultimately have ok': "tables_ok u" using named by (simp add: tables_ok_def)
  have "flush_row b l p t = Inr u"
    using row free by (simp add: flush_row_def ins insert_row_Inr u_def t1_def)
  then show ?thesis by (rule that[OF _ ok']) (simp_all add: rows ev split: option.split)
qed

lemma layer_rows_None:
  "tables_ok t \<Longrightarrow> map_of (tb_layers t) l = None \<Longrightarrow> layer_rows l (tb_members t) = []"
proof -
  assume ok: "tables_ok t" and none: "map_of (tb_layers t) l = None"
  have "n \<notin> set (layer_rows l (tb_members t))" for n
  proof
    assume "n \<in> set (layer_rows l (tb_members t))"
    then obtain q where "map_of (tb_members t) (l, q) = Some n"
      by (auto simp: layer_rows_set[OF tables_okD(3)[OF ok]])
    then have "map_of (tb_layers t) l \<noteq> None"
      using tables_okD(8)[OF ok] unfolding rows_named_def by blast
    then show False using none by contradiction
  qed
  then show ?thesis by (cases "layer_rows l (tb_members t)") auto
qed

text \<open>A change of the layers' rows that keeps their branches.\<close>

lemma tables_ok_layer:
  assumes ok: "tables_ok t"
    and "map_of (tb_layers t) l = None \<or> map_option lr_branch (map_of (tb_layers t) l) = Some (lr_branch row)"
  shows "tables_ok (t\<lparr>tb_layers := bt_insert l row (tb_layers t)\<rparr>)" (is "tables_ok ?u")
proof -
  note o = tables_okD[OF ok]
  have rows: "map_of (tb_layers t) l = None \<Longrightarrow> layer_rows l (tb_members t) = []"
    by (rule layer_rows_None[OF ok])
  have wrote: "wrote ?u = wrote t" by (intro ext) (simp add: wrote_def)
  have "index_says ?u (b, bf, ck, v, k) = index_says t (b, bf, ck, v, k)" for b bf ck v k
    using assms(2) rows by (auto simp: index_says_def wrote split: option.splits)
  then have "index_ok ?u" using o(9) by (auto simp: index_ok_def)
  moreover have "rows_named ?u" using o(8) by (auto simp: rows_named_def)
  moreover have "keys_in_order ?u" using o by (auto simp: keys_in_order_def)
  ultimately show ?thesis by (simp add: tables_ok_def)
qed

text \<open>The tables that the index does not rest on.\<close>

lemma tables_ok_other:
  assumes "tables_ok t" "tb_layers u = tb_layers t" "tb_events u = tb_events t"
    "tb_members u = tb_members t" "tb_index u = tb_index t"
    "bt_ok (tb_defs u)" "bt_ok (tb_branches u)" "bt_ok (tb_interned u)"
  shows "tables_ok u"
proof -
  note o = tables_okD[OF assms(1)]
  have "index_says u = index_says t" by (rule index_says_cong) (simp_all add: assms)
  then show ?thesis using o assms
    by (simp add: tables_ok_def keys_in_order_def rows_named_def index_ok_def)
qed

text \<open>Dropping a layer whose events no other layer names.\<close>

definition without_layer :: "int \<Rightarrow> tables \<Rightarrow> tables" where
  "without_layer l t = t\<lparr>
     tb_index := delete_rows (\<lambda>(_, _, _, _, landed) _. landed = l) (tb_index t),
     tb_members := delete_rows (\<lambda>(layer, _) _. layer = l) (tb_members t),
     tb_events := delete_rows (\<lambda>_ row. er_authored row = l) (tb_events t),
     tb_defs := delete_rows (\<lambda>(layer, _) _. layer = l) (tb_defs t),
     tb_layers := delete_rows (\<lambda>n _. n = l) (tb_layers t)\<rparr>"

lemma sq_abort_without:
  "sq_abort h s = (Inr (), s\<lparr>sq_tables := without_layer (as_i64 (ol_id h)) (sq_tables s)\<rparr>)"
  by (simp add: sq_abort_def without_layer_def Let_def)

lemma without_layer_gets:
  assumes "tables_ok t"
  shows "map_of (tb_layers (without_layer l t)) k = (if k = l then None else map_of (tb_layers t) k)"
    "map_of (tb_events (without_layer l t)) n = (case map_of (tb_events t) n of None \<Rightarrow> None
       | Some row \<Rightarrow> if er_authored row = l then None else Some row)"
    "map_of (tb_members (without_layer l t)) (k, q) = (if k = l then None else map_of (tb_members t) (k, q))"
    "map_of (tb_defs (without_layer l t)) (k, q) = (if k = l then None else map_of (tb_defs t) (k, q))"
    "layer_rows k (tb_members (without_layer l t)) = (if k = l then [] else layer_rows k (tb_members t))"
    "layer_rows k (tb_defs (without_layer l t)) = (if k = l then [] else layer_rows k (tb_defs t))"
  using tables_okD[OF assms]
  by (auto simp: without_layer_def delete_get layer_rows_delete split: option.split)

lemma without_layer_ok:
  assumes ok: "tables_ok t"
    and apart: "\<And>k q n row. map_of (tb_members t) (k, q) = Some n \<Longrightarrow> k \<noteq> l \<Longrightarrow>
      map_of (tb_events t) n = Some row \<Longrightarrow> er_authored row \<noteq> l"
  shows "tables_ok (without_layer l t)" (is "tables_ok ?u")
proof -
  note o = tables_okD[OF ok] and g = without_layer_gets[OF ok]
  have order: "keys_in_order ?u" using o by (auto simp: keys_in_order_def without_layer_def)
  have row: "map_of (tb_events ?u) n = map_of (tb_events t) n" "map_of (tb_events t) n \<noteq> None"
    if "map_of (tb_members t) (k, q) = Some n" "k \<noteq> l" for k q n
  proof -
    show r: "map_of (tb_events t) n \<noteq> None" using o(8) that(1) unfolding rows_named_def by blast
    show "map_of (tb_events ?u) n = map_of (tb_events t) n"
      using r apart[OF that] by (auto simp: g(2) split: option.split)
  qed
  have named: "rows_named ?u"
    unfolding rows_named_def
  proof (intro allI impI)
    fix k q n assume "map_of (tb_members ?u) (k, q) = Some n"
    then have m: "k \<noteq> l" "map_of (tb_members t) (k, q) = Some n" by (auto simp: g(3) split: if_splits)
    moreover have "map_of (tb_layers t) k \<noteq> None" using o(8) m(2) unfolding rows_named_def by blast
    ultimately show "map_of (tb_events ?u) n \<noteq> None \<and> map_of (tb_layers ?u) k \<noteq> None"
      using row[OF m(2,1)] by (simp add: g(1))
  qed
  have says: "index_says ?u (b, bf, ck, v, k) = (if k = l then None else index_says t (b, bf, ck, v, k))"
    for b bf ck v k
  proof (cases "k = l")
    case False
    have "last_row (wrote ?u bf ck v) (layer_rows k (tb_members t)) =
        last_row (wrote t bf ck v) (layer_rows k (tb_members t))"
      using row False by (intro last_row_cong) (auto simp: wrote_def layer_rows_set[OF o(3)])
    then show ?thesis using False by (simp add: index_says_def g split: option.split)
  qed (simp add: index_says_def g)
  have "map_of (tb_index ?u) (b, bf, ck, v, k) =
      (if k = l then None else map_of (tb_index t) (b, bf, ck, v, k))" for b bf ck v k
    using delete_get[OF o(4)] by (auto simp: without_layer_def split: option.split)
  then have "index_ok ?u" using o(9) by (auto simp: index_ok_def says)
  then show ?thesis using order named by (simp add: tables_ok_def)
qed

section \<open>Rebuilding\<close>

lemma index_member_get:
  "map_of (index_member t ((l, q), n) index) (b, bf, ck, v, k) =
     (if k = l \<and> wrote t bf ck v n \<and> map_option lr_branch (map_of (tb_layers t) l) = Some b
      then Some n else map_of index (b, bf, ck, v, k))"
  by (auto simp: index_member_def wrote_def split: option.split)

lemma index_members_get:
  "map_of (fold (index_member t) ms []) (b, bf, ck, v, l) =
     (if map_option lr_branch (map_of (tb_layers t) l) = Some b
      then last_row (wrote t bf ck v) (layer_rows l ms) else None)"
proof (induction ms rule: rev_induct)
  case (snoc m ms)
  obtain k q n where m: "m = ((k, q), n)" by (metis surj_pair)
  have "layer_rows l (ms @ [m]) = (if k = l then layer_rows l ms @ [n] else layer_rows l ms)"
    by (simp add: layer_rows_def m)
  then show ?case using snoc by (auto simp: m index_member_get)
qed simp

lemma index_member_order: "bt_ok index \<Longrightarrow> bt_ok (index_member t m index)"
  by (auto simp: index_member_def split: prod.split option.split)

lemma index_members_order: "bt_ok index \<Longrightarrow> bt_ok (fold (index_member t) ms index)"
  by (induction ms arbitrary: index) (auto intro: index_member_order)

lemma rebuilt_index: "tables_ok t \<Longrightarrow> fold (index_member t) (tb_members t) [] = tb_index t"
proof (rule bt_eqI)
  assume ok: "tables_ok t"
  show "bt_ok (fold (index_member t) (tb_members t) [])" by (rule index_members_order) simp
  show "bt_ok (tb_index t)" by (rule tables_okD(4)[OF ok])
  have "map_of (fold (index_member t) (tb_members t) []) key = map_of (tb_index t) key" for key
  proof -
    obtain b bf ck v l where key: "key = (b, bf, ck, v, l)" by (cases key) auto
    show ?thesis using tables_okD(9)[OF ok]
      by (auto simp: key index_members_get index_ok_def index_says_def split: option.split)
  qed
  then show "map_of (fold (index_member t) (tb_members t) []) = map_of (tb_index t)" by (rule ext)
qed

lemma rebuild_same: "tables_ok (sq_tables s) \<Longrightarrow> sq_rebuild_read_index s = (Inr (), s)"
  by (simp add: sq_rebuild_read_index_def Let_def rebuilt_index)

section \<open>Seeking\<close>

lemma join_events_set:
  "bt_ok (tb_index t) \<Longrightarrow> (key, n, row) \<in> set (join_events t keep) \<longleftrightarrow>
     map_of (tb_index t) key = Some n \<and> keep key \<and> map_of (tb_events t) n = Some row"
  by (cases key) (auto simp: join_events_def hm_get_eq_Some_iff[OF bt_ok_distinct] split: option.splits)

text \<open>A landing of the record in one segment, told from membership.\<close>

definition lands ::
  "tables \<Rightarrow> string \<Rightarrow> string \<Rightarrow> int \<Rightarrow> branch_id \<times> layer_id \<Rightarrow> int \<Rightarrow> int \<Rightarrow> bool" where
  "lands t bf ck v seg l n \<longleftrightarrow> index_says t (as_i64 (fst seg), bf, ck, v, l) = Some n \<and>
     layer_committed t l \<and> l \<le> as_i64 (snd seg)"

lemma lands_row:
  assumes ok: "tables_ok t" and "lands t bf ck v seg l n"
  obtains row where "map_of (tb_events t) n = Some row" "er_buffer row = bf" "er_key row = ck" "er_version row = v"
proof -
  have "n \<in> set (layer_rows l (tb_members t))" "wrote t bf ck v n"
    using assms(2) by (auto simp: lands_def index_says_def dest!: last_row_SomeD split: option.splits if_splits)
  then show ?thesis using that by (auto simp: wrote_def split: option.splits)
qed

lemma seek_cases:
  assumes ok: "tables_ok t"
  obtains (Nothing) "seek t bf ck v seg = None" "\<And>l n. \<not> lands t bf ck v seg l n"
  | (Top) l n row where "seek t bf ck v seg = Some ((as_i64 (fst seg), bf, ck, v, l), n, row)"
      "lands t bf ck v seg l n" "map_of (tb_events t) n = Some row"
      "\<And>k m. lands t bf ck v seg k m \<Longrightarrow> k \<le> l"
proof -
  define keep where "keep = (\<lambda>(b, bf', ck', v', landed). b = as_i64 (fst seg) \<and> bf' = bf \<and> ck' = ck \<and> v' = v \<and>
      layer_committed t landed \<and> landed \<le> as_i64 (snd seg))"
  let ?rows = "join_events t keep"
  have seek: "seek t bf ck v seg = top_row (\<lambda>(k, _, _). key_landed k) ?rows"
    by (simp add: seek_def keep_def)
  have row: "((b, bf', ck', v', l), n, row) \<in> set ?rows \<longleftrightarrow>
      b = as_i64 (fst seg) \<and> bf' = bf \<and> ck' = ck \<and> v' = v \<and> lands t bf ck v seg l n \<and>
      map_of (tb_events t) n = Some row" for b bf' ck' v' l n row
    using tables_okD(9)[OF ok] join_events_set[OF tables_okD(4)[OF ok]]
    by (auto simp: keep_def lands_def index_ok_def)
  show ?thesis
  proof (cases "top_row (\<lambda>(k, _, _). key_landed k) ?rows")
    case None
    then have "\<not> lands t bf ck v seg l n" for l n
      using row lands_row[OF ok] by (metis empty_iff list.set(1) top_row_None)
    with None show ?thesis by (intro Nothing) (simp_all add: seek)
  next
    case (Some r)
    obtain b bf' ck' v' l n x where r: "r = ((b, bf', ck', v', l), n, x)" by (metis surj_pair)
    have in_rows: "r \<in> set ?rows" by (rule top_row_Some(1)[OF Some])
    have "k \<le> l" if k: "lands t bf ck v seg k m" for k m
    proof -
      obtain y where "map_of (tb_events t) m = Some y" using lands_row[OF ok k] by blast
      then have "((as_i64 (fst seg), bf, ck, v, k), m, y) \<in> set ?rows" using k by (simp add: row)
      from top_row_Some(2)[OF Some this] show ?thesis by (simp add: r key_landed_def)
    qed
    then show ?thesis using in_rows Some by (intro Top[of l n x]) (auto simp: seek r row)
  qed
qed

end
