(* ===== verification/Sqlite_Relation.thy ===== *)
theory Sqlite_Relation
  imports Mem_Contract Sqlite_Invariant
begin

text \<open>
  The two providers side by side. A call of the \<^verbatim>\<open>StorageProvider\<close> and \<^verbatim>\<open>OpenLayer\<close> traits, what each
  provider answers to it, the calls a caller may make, and the relation between the state in
  memory and the tables: every row is told from the state in memory and the buffers of the open
  layers. The relation is kept by everything both providers accept.
\<close>

section \<open>Calls\<close>

datatype provider_call =
    COpen branch_id layer_id
  | CAuthor layer_id cell_ref event_draft
  | CAdopt layer_id event
  | CInclude layer_id event_id
  | CPutDef layer_id def_event
  | CSeal layer_id
  | CAbort layer_id
  | CCommit layer_id
  | CMeta layer
  | CBranch branch
  | CIntern pid_kind "u8 list"
  | CRebuild

datatype provider_answer = Refused | Done | Minted event_id | Interned pid

definition answer_of :: "('a \<Rightarrow> provider_answer) \<Rightarrow> 'e + 'a \<Rightarrow> provider_answer" where
  "answer_of f r = (case r of Inl _ \<Rightarrow> Refused | Inr x \<Rightarrow> f x)"

lemma answer_of_simps [simp]: "answer_of f (Inl e) = Refused" "answer_of f (Inr x) = f x"
  by (simp_all add: answer_of_def)

definition answered :: "('a \<Rightarrow> provider_answer) \<Rightarrow> ('e + 'a) \<times> 's \<Rightarrow> provider_answer \<times> 's" where
  "answered f r = (answer_of f (fst r), snd r)"

fun mem_call :: "(u8 list \<Rightarrow> u8 list) \<Rightarrow> provider_call \<Rightarrow> inner \<Rightarrow> provider_answer \<times> inner" where
  "mem_call hash (COpen b l) i = answered (\<lambda>_. Done) (open_layer b l i)"
| "mem_call hash (CAuthor l cell draft) i = answered Minted (author_event l cell draft i)"
| "mem_call hash (CAdopt l ev) i = answered (\<lambda>_. Done) (adopt_event l ev i)"
| "mem_call hash (CInclude l e) i = answered (\<lambda>_. Done) (include_event l e i)"
| "mem_call hash (CPutDef l d) i = answered (\<lambda>_. Done) (mem_put_def l d i)"
| "mem_call hash (CSeal l) i = answered (\<lambda>_. Done) (mem_seal l i)"
| "mem_call hash (CAbort l) i = answered (\<lambda>_. Done) (mem_abort l i)"
| "mem_call hash (CCommit l) i = answered (\<lambda>_. Done) (commit_layer l i)"
| "mem_call hash (CMeta layer) i = (Done, put_layer_meta layer i)"
| "mem_call hash (CBranch b) i = (Done, put_branch b i)"
| "mem_call hash (CIntern kind bytes) i = answered Interned (intern hash kind bytes i)"
| "mem_call hash CRebuild i = answered (\<lambda>_. Done) (rebuild_read_index i)"

text \<open>
  The provider with the handles its callers hold. A call on a layer whose handle nobody holds is
  one that a Rust program cannot write.
\<close>

type_synonym handles = "(layer_id, sq_layer) hmap"
type_synonym sql_state = "sqlite \<times> handles"

definition on_handle ::
  "('a \<Rightarrow> provider_answer) \<Rightarrow> (sq_layer \<Rightarrow> sqlite \<Rightarrow> 'a sql_result \<times> sq_layer \<times> sqlite) \<Rightarrow> layer_id \<Rightarrow>
   sql_state \<Rightarrow> provider_answer \<times> sql_state" where
  "on_handle f work l st =
     (case hm_get (snd st) l of
        None \<Rightarrow> (Refused, st)
      | Some h \<Rightarrow> (case work h (fst st) of
          (r, h', s') \<Rightarrow> (answer_of f r, s', hm_insert l h' (snd st))))"

definition end_handle ::
  "(sq_layer \<Rightarrow> sqlite \<Rightarrow> 'a sql_result \<times> sqlite) \<Rightarrow> layer_id \<Rightarrow> sql_state \<Rightarrow> provider_answer \<times> sql_state" where
  "end_handle work l st =
     (case hm_get (snd st) l of
        None \<Rightarrow> (Refused, st)
      | Some h \<Rightarrow> (case work h (fst st) of
          (r, s') \<Rightarrow> (answer_of (\<lambda>_. Done) r, s', hm_remove l (snd st))))"

definition on_store :: "('a \<Rightarrow> provider_answer) \<Rightarrow> 'a sql_result \<times> sqlite \<Rightarrow> handles \<Rightarrow> provider_answer \<times> sql_state" where
  "on_store f r hs = (answer_of f (fst r), snd r, hs)"

fun sql_call ::
  "json_texts \<Rightarrow> (u8 list \<Rightarrow> u8 list) \<Rightarrow> provider_call \<Rightarrow> sql_state \<Rightarrow> provider_answer \<times> sql_state" where
  "sql_call c hash (COpen b l) st =
     (case sq_open_layer b l (fst st) of
        (Inl _, s) \<Rightarrow> (Refused, s, snd st)
      | (Inr h, s) \<Rightarrow> (Done, s, hm_insert l h (snd st)))"
| "sql_call c hash (CAuthor l cell draft) st = on_handle Minted (sq_author_event c cell draft) l st"
| "sql_call c hash (CAdopt l ev) st = on_handle (\<lambda>_. Done) (sq_adopt_event c ev) l st"
| "sql_call c hash (CInclude l e) st = on_handle (\<lambda>_. Done) (sq_include_event e) l st"
| "sql_call c hash (CPutDef l d) st = on_handle (\<lambda>_. Done) (sq_put_def c d) l st"
| "sql_call c hash (CSeal l) st = end_handle sq_seal l st"
| "sql_call c hash (CAbort l) st = end_handle sq_abort l st"
| "sql_call c hash (CCommit l) st = on_store (\<lambda>_. Done) (sq_commit_layer l (fst st)) (snd st)"
| "sql_call c hash (CMeta layer) st = on_store (\<lambda>_. Done) (sq_put_layer_meta c layer (fst st)) (snd st)"
| "sql_call c hash (CBranch b) st = on_store (\<lambda>_. Done) (sq_put_branch c b (fst st)) (snd st)"
| "sql_call c hash (CIntern kind bytes) st = on_store Interned (sq_intern hash kind bytes (fst st)) (snd st)"
| "sql_call c hash CRebuild st = on_store (\<lambda>_. Done) (sq_rebuild_read_index (fst st)) (snd st)"

section \<open>What survives its text\<close>

definition survives :: "'a coder \<Rightarrow> 'a \<Rightarrow> bool" where
  "survives coder x =
     (case encode_text coder x of Inl _ \<Rightarrow> False | Inr raw \<Rightarrow> decode_text coder raw = Inr x)"

definition cell_survives :: "json_texts \<Rightarrow> cell_ref \<Rightarrow> bool" where
  "cell_survives c cell \<longleftrightarrow> survives (co_buffer c) (cr_buffer cell) \<and> survives (co_key c) (cr_key cell)"

definition record_survives :: "json_texts \<Rightarrow> cell_ref \<Rightarrow> val \<Rightarrow> derivation option \<Rightarrow> bool" where
  "record_survives c cell v dn \<longleftrightarrow> cell_survives c cell \<and> survives (co_value c) v \<and>
     (case dn of None \<Rightarrow> True | Some d \<Rightarrow> survives (co_derivation c) d)"

definition event_survives :: "json_texts \<Rightarrow> event \<Rightarrow> bool" where
  "event_survives c ev \<longleftrightarrow> record_survives c (ev_cell ev) (ev_value ev) (ev_derivation ev)"

definition event_columns ::
  "json_texts \<Rightarrow> event \<Rightarrow> (string \<times> string \<times> int \<times> string \<times> int \<times> string option) sql_result" where
  "event_columns c ev =
     columns c (ev_cell ev) (ev_version ev) (ev_value ev) (ev_origin ev) (ev_derivation ev)"

definition row_of :: "json_texts \<Rightarrow> event \<Rightarrow> event_row option" where
  "row_of c ev =
     (case event_columns c ev of Inl _ \<Rightarrow> None | Inr cols \<Rightarrow> Some (authored_row (as_i64 (ev_authored ev)) cols))"

lemma as_u64_i64 [simp]: "as_u64 (as_i64 w) = w"
  by (simp add: as_u64_def as_i64_def)

lemma as_i64_inject [simp]: "as_i64 a = as_i64 b \<longleftrightarrow> a = b"
  by (metis as_u64_i64)

lemma survivesD:
  assumes "survives coder x"
  obtains raw where "encode_text coder x = Inr raw" "decode_text coder raw = Inr x"
  using assms by (auto simp: survives_def split: sum.splits)

lemma survives_inject:
  "survives coder x \<Longrightarrow> survives coder y \<Longrightarrow> encode_text coder x = encode_text coder y \<Longrightarrow> x = y"
  by (auto simp: survives_def split: sum.splits)

lemma opt_survives:
  assumes "case dn of None \<Rightarrow> True | Some d \<Rightarrow> survives coder d"
  obtains raw where "encode_opt coder dn = Inr raw" "decode_opt coder raw = Inr dn"
  using assms by (cases dn) (auto simp: encode_opt_def decode_opt_def elim: survivesD)

text \<open>The columns that a surviving record is written to, and that they read back.\<close>

lemma columns_survive:
  assumes "event_survives c ev"
  obtains buffer key v dn where
    "encode_text (co_buffer c) (cr_buffer (ev_cell ev)) = Inr buffer"
    "encode_text (co_key c) (cr_key (ev_cell ev)) = Inr key"
    "event_columns c ev = Inr (buffer, key, as_i64 (dv_layer (ev_version ev)), v,
       (if ev_origin ev = ODerived then 1 else 0), dn)"
    "to_event c (as_i64 (ev_id ev)) (authored_row (as_i64 (ev_authored ev))
       (buffer, key, as_i64 (dv_layer (ev_version ev)), v, (if ev_origin ev = ODerived then 1 else 0), dn)) = Inr ev"
proof -
  have s: "survives (co_buffer c) (cr_buffer (ev_cell ev))" "survives (co_key c) (cr_key (ev_cell ev))"
    "survives (co_value c) (ev_value ev)"
    and d: "case ev_derivation ev of None \<Rightarrow> True | Some d \<Rightarrow> survives (co_derivation c) d"
    using assms by (simp_all add: event_survives_def record_survives_def cell_survives_def)
  obtain buffer where b: "encode_text (co_buffer c) (cr_buffer (ev_cell ev)) = Inr buffer"
    "decode_text (co_buffer c) buffer = Inr (cr_buffer (ev_cell ev))" using survivesD[OF s(1)] .
  obtain key where k: "encode_text (co_key c) (cr_key (ev_cell ev)) = Inr key"
    "decode_text (co_key c) key = Inr (cr_key (ev_cell ev))" using survivesD[OF s(2)] .
  obtain v where v: "encode_text (co_value c) (ev_value ev) = Inr v"
    "decode_text (co_value c) v = Inr (ev_value ev)" using survivesD[OF s(3)] .
  obtain raw where r: "encode_opt (co_derivation c) (ev_derivation ev) = Inr raw"
    "decode_opt (co_derivation c) raw = Inr (ev_derivation ev)" using opt_survives[OF d] .
  have o: "ev_origin ev = (if (if ev_origin ev = ODerived then 1 else 0) = (0 :: int) then OSource else ODerived)"
    by (cases "ev_origin ev") auto
  show ?thesis
  proof (rule that[OF b(1) k(1)])
    show "event_columns c ev = Inr (buffer, key, as_i64 (dv_layer (ev_version ev)), v,
       (if ev_origin ev = ODerived then 1 else 0), raw)"
      by (simp add: event_columns_def columns_def b k v r)
    show "to_event c (as_i64 (ev_id ev)) (authored_row (as_i64 (ev_authored ev))
       (buffer, key, as_i64 (dv_layer (ev_version ev)), v, (if ev_origin ev = ODerived then 1 else 0), raw)) = Inr ev"
      using o by (simp add: to_event_def authored_row_def b k v r)
  qed
qed

lemma row_of_survives:
  assumes "event_survives c ev"
  obtains row where "row_of c ev = Some row" "to_event c (as_i64 (ev_id ev)) row = Inr ev"
    "encode_text (co_buffer c) (cr_buffer (ev_cell ev)) = Inr (er_buffer row)"
    "encode_text (co_key c) (cr_key (ev_cell ev)) = Inr (er_key row)"
    "er_version row = as_i64 (dv_layer (ev_version ev))" "er_authored row = as_i64 (ev_authored ev)"
  using assms
proof (rule columns_survive)
  fix buffer key v dn
  assume r: "encode_text (co_buffer c) (cr_buffer (ev_cell ev)) = Inr buffer"
    "encode_text (co_key c) (cr_key (ev_cell ev)) = Inr key"
    "event_columns c ev = Inr (buffer, key, as_i64 (dv_layer (ev_version ev)), v,
       (if ev_origin ev = ODerived then 1 else 0), dn)"
    "to_event c (as_i64 (ev_id ev)) (authored_row (as_i64 (ev_authored ev))
       (buffer, key, as_i64 (dv_layer (ev_version ev)), v, (if ev_origin ev = ODerived then 1 else 0), dn)) = Inr ev"
  show ?thesis
    by (rule that) (use r in \<open>simp_all add: row_of_def\<close>, simp_all add: authored_row_def)
qed

section \<open>The relation\<close>

definition contents :: "inner \<Rightarrow> layer_id \<Rightarrow> event_id list" where
  "contents i l =
     (case hm_get (in_members i) l of Some m \<Rightarrow> mb_events m
      | None \<Rightarrow> (case hm_get (in_staged i) l of None \<Rightarrow> [] | Some s \<Rightarrow> sl_members s))"

definition def_contents :: "inner \<Rightarrow> layer_id \<Rightarrow> def_event list" where
  "def_contents i l =
     (case hm_get (in_members i) l of Some _ \<Rightarrow> read_def_layer i l
      | None \<Rightarrow> (case hm_get (in_staged i) l of None \<Rightarrow> [] | Some s \<Rightarrow> sl_defs s))"

definition layer_view :: "inner \<Rightarrow> layer_id \<Rightarrow> (int \<times> int) option" where
  "layer_view i l =
     (case hm_get (in_members i) l of Some m \<Rightarrow> Some (as_i64 (mb_branch m), row_committed)
      | None \<Rightarrow> (case hm_get (in_staged i) l of None \<Rightarrow> None
          | Some s \<Rightarrow> Some (as_i64 (sl_branch s), if sl_sealed s then row_sealed else row_open)))"

definition authored_in :: "inner \<Rightarrow> layer_id \<Rightarrow> event list" where
  "authored_in i l = (case hm_get (in_staged i) l of None \<Rightarrow> [] | Some s \<Rightarrow> sl_authored s)"

definition live :: "inner \<Rightarrow> event \<Rightarrow> bool" where
  "live i ev \<longleftrightarrow> stored i (ev_id ev) = Some ev \<or> (\<exists>l. ev \<in> set (authored_in i l))"

definition waiting :: "handles \<Rightarrow> layer_id \<Rightarrow> pending_row list" where
  "waiting hs l = (case hm_get hs l of None \<Rightarrow> [] | Some h \<Rightarrow> ol_pending h)"

definition waits :: "handles \<Rightarrow> int \<Rightarrow> bool" where
  "waits hs n \<longleftrightarrow> (\<exists>l. \<exists>p \<in> set (waiting hs l). pd_authored p \<noteq> None \<and> pd_event p = n)"

definition small_id :: "u64 \<Rightarrow> bool" where
  "small_id w \<longleftrightarrow> w < 2 ^ 63"

definition next_agrees :: "inner \<Rightarrow> sqlite \<Rightarrow> bool" where
  "next_agrees i s \<longleftrightarrow> in_next_event i \<noteq> - 1 \<and> sq_next_event s = in_next_event i + 1"

definition layers_agree :: "inner \<Rightarrow> tables \<Rightarrow> bool" where
  "layers_agree i t \<longleftrightarrow> (\<forall>n. map_of (tb_layers t) n \<noteq> None \<longrightarrow> (\<exists>l. n = as_i64 l)) \<and>
     (\<forall>l. map_option (\<lambda>r. (lr_branch r, lr_state r)) (map_of (tb_layers t) (as_i64 l)) = layer_view i l \<and>
        (layer_view i l \<noteq> None \<longrightarrow> small_id l))"

definition handle_agrees :: "layer_id \<Rightarrow> staged_layer option \<Rightarrow> sq_layer option \<Rightarrow> bool" where
  "handle_agrees l sl handle \<longleftrightarrow>
     (case handle of
        None \<Rightarrow> (case sl of None \<Rightarrow> True | Some s \<Rightarrow> sl_sealed s)
      | Some h \<Rightarrow> (case sl of None \<Rightarrow> False
          | Some s \<Rightarrow> \<not> sl_sealed s \<and> ol_id h = l \<and> ol_branch h = sl_branch s \<and>
              ol_defs h = length (sl_defs s) \<and> ol_seq h = length (sl_members s)))"

definition handles_agree :: "inner \<Rightarrow> handles \<Rightarrow> bool" where
  "handles_agree i hs \<longleftrightarrow> (\<forall>l. handle_agrees l (hm_get (in_staged i) l) (hm_get hs l))"

definition members_agree :: "inner \<Rightarrow> tables \<Rightarrow> handles \<Rightarrow> bool" where
  "members_agree i t hs \<longleftrightarrow> (\<forall>l.
     layer_rows (as_i64 l) (tb_members t) @ map pd_event (waiting hs l) = map as_i64 (contents i l) \<and>
     map pd_seq (waiting hs l) = map int [length (layer_rows (as_i64 l) (tb_members t)) ..< length (contents i l)] \<and>
     (\<forall>q. map_of (tb_members t) (as_i64 l, q) \<noteq> None \<longrightarrow> q < int (length (layer_rows (as_i64 l) (tb_members t)))))"

definition events_agree :: "json_texts \<Rightarrow> inner \<Rightarrow> tables \<Rightarrow> handles \<Rightarrow> bool" where
  "events_agree c i t hs \<longleftrightarrow>
     (\<forall>ev. live i ev \<longrightarrow> event_survives c ev \<and>
        map_of (tb_events t) (as_i64 (ev_id ev)) = (if waits hs (as_i64 (ev_id ev)) then None else row_of c ev)) \<and>
     (\<forall>n row. map_of (tb_events t) n = Some row \<longrightarrow> (\<exists>ev. live i ev \<and> n = as_i64 (ev_id ev))) \<and>
     (\<forall>e ev. stored i e = Some ev \<longrightarrow> hm_get (in_members i) (ev_authored ev) \<noteq> None)"

definition waiting_ok :: "json_texts \<Rightarrow> inner \<Rightarrow> layer_id \<Rightarrow> pending_row list \<Rightarrow> bool" where
  "waiting_ok c i l ps \<longleftrightarrow>
     (\<forall>p \<in> set ps. case pd_authored p of
        None \<Rightarrow> \<exists>e. pd_event p = as_i64 e \<and> stored i e \<noteq> None
      | Some cols \<Rightarrow> \<exists>ev \<in> set (authored_in i l). pd_event p = as_i64 (ev_id ev) \<and> event_columns c ev = Inr cols) \<and>
     distinct (map pd_event (filter (\<lambda>p. pd_authored p \<noteq> None) ps))"

definition defs_agree :: "json_texts \<Rightarrow> inner \<Rightarrow> tables \<Rightarrow> bool" where
  "defs_agree c i t \<longleftrightarrow> (\<forall>l.
     map Inr (layer_rows (as_i64 l) (tb_defs t)) = map (encode_text (co_def c)) (def_contents i l) \<and>
     (\<forall>d \<in> set (def_contents i l). survives (co_def c) d) \<and>
     (\<forall>q. map_of (tb_defs t) (as_i64 l, q) \<noteq> None \<longrightarrow> q < int (length (def_contents i l))))"

text \<open>A row's text that reads back as the value, absent where there is none.\<close>

definition told :: "'a coder \<Rightarrow> 'a option \<Rightarrow> string option \<Rightarrow> bool" where
  "told coder x raw \<longleftrightarrow>
     (case x of None \<Rightarrow> raw = None | Some y \<Rightarrow> \<exists>r. raw = Some r \<and> decode_text coder r = Inr y)"

lemma told_simps [simp]:
  "told coder None raw \<longleftrightarrow> raw = None"
  "told coder (Some y) raw \<longleftrightarrow> (\<exists>r. raw = Some r \<and> decode_text coder r = Inr y)"
  by (simp_all add: told_def)

definition branches_agree :: "json_texts \<Rightarrow> inner \<Rightarrow> tables \<Rightarrow> bool" where
  "branches_agree c i t \<longleftrightarrow>
     (\<forall>n. map_of (tb_branches t) n \<noteq> None \<longrightarrow> (\<exists>b. n = as_i64 b)) \<and>
     (\<forall>b. told (co_branch c) (hm_get (in_branches i) b) (map_of (tb_branches t) (as_i64 b)))"

definition interned_agree :: "inner \<Rightarrow> tables \<Rightarrow> bool" where
  "interned_agree i t \<longleftrightarrow>
     (\<forall>kind h. map_of (tb_interned t) (int (kind_code kind), h) = hm_get (in_interned i) (Content kind h))"

definition meta_agrees :: "json_texts \<Rightarrow> inner \<Rightarrow> tables \<Rightarrow> bool" where
  "meta_agrees c i t \<longleftrightarrow>
     (\<forall>l row. map_of (tb_layers t) (as_i64 l) = Some row \<longrightarrow>
        told (co_layer c) (hm_get (in_layer_meta i) l) (lr_meta row)) \<and>
     (\<forall>l. hm_get (in_layer_meta i) l \<noteq> None \<longrightarrow> layer_view i l \<noteq> None)"

definition agrees :: "json_texts \<Rightarrow> inner \<Rightarrow> sql_state \<Rightarrow> bool" where
  "agrees c i st \<longleftrightarrow>
     (let t = sq_tables (fst st); hs = snd st in
      mem_inv i \<and> tables_ok t \<and> next_agrees i (fst st) \<and> layers_agree i t \<and> handles_agree i hs \<and>
      members_agree i t hs \<and> events_agree c i t hs \<and> (\<forall>l. waiting_ok c i l (waiting hs l)) \<and>
      defs_agree c i t \<and> branches_agree c i t \<and> interned_agree i t \<and> meta_agrees c i t)"

lemma agreesD:
  assumes "agrees c i (s, hs)"
  shows "mem_inv i" "tables_ok (sq_tables s)" "next_agrees i s" "layers_agree i (sq_tables s)"
    "handles_agree i hs" "members_agree i (sq_tables s) hs" "events_agree c i (sq_tables s) hs"
    "waiting_ok c i l (waiting hs l)" "defs_agree c i (sq_tables s)" "branches_agree c i (sq_tables s)"
    "interned_agree i (sq_tables s)" "meta_agrees c i (sq_tables s)"
  using assms by (simp_all add: agrees_def Let_def)

end
