(* ===== verification/Sqlite_Refinement.thy ===== *)
theory Sqlite_Refinement
  imports Sqlite_Relation
begin

text \<open>
  Every call that the provider in memory accepts, made as a caller may make it, is accepted by the
  SQLite provider with the same answer, and keeps the relation between the two.
\<close>

section \<open>The relation's parts under the changes\<close>

lemma view_simps [simp]:
  "contents (i\<lparr>in_next_event := n\<rparr>) = contents i"
  "def_contents (i\<lparr>in_next_event := n\<rparr>) = def_contents i"
  "layer_view (i\<lparr>in_next_event := n\<rparr>) = layer_view i"
  "authored_in (i\<lparr>in_next_event := n\<rparr>) = authored_in i"
  "stored (i\<lparr>in_next_event := n\<rparr>) = stored i"
  by (simp_all add: fun_eq_iff contents_def def_contents_def layer_view_def authored_in_def stored_def
      read_def_layer_def split: option.split)

lemma put_simps:
  "hm_get (in_members i) l = None \<Longrightarrow> contents (put_staged l s i) k = (if k = l then sl_members s else contents i k)"
  "hm_get (in_members i) l = None \<Longrightarrow> def_contents (put_staged l s i) k = (if k = l then sl_defs s else def_contents i k)"
  "hm_get (in_members i) l = None \<Longrightarrow> layer_view (put_staged l s i) k =
     (if k = l then Some (as_i64 (sl_branch s), if sl_sealed s then row_sealed else row_open) else layer_view i k)"
  "authored_in (put_staged l s i) k = (if k = l then sl_authored s else authored_in i k)"
  "stored (put_staged l s i) = stored i"
  "in_members (put_staged l s i) = in_members i"
  "in_layer_meta (put_staged l s i) = in_layer_meta i"
  "in_branches (put_staged l s i) = in_branches i"
  "in_interned (put_staged l s i) = in_interned i"
  "in_next_event (put_staged l s i) = in_next_event i"
  "in_staged (put_staged l s i) = hm_insert l s (in_staged i)"
  by (simp_all add: contents_def def_contents_def layer_view_def authored_in_def stored_def put_staged_def
      read_def_layer_def fun_eq_iff split: option.split)

lemma staged_views:
  assumes "mem_inv i" "hm_get (in_staged i) l = Some s"
  shows "hm_get (in_members i) l = None" "contents i l = sl_members s" "def_contents i l = sl_defs s"
    "layer_view i l = Some (as_i64 (sl_branch s), if sl_sealed s then row_sealed else row_open)"
    "authored_in i l = sl_authored s"
proof -
  show m: "hm_get (in_members i) l = None" using mem_invD(5)[OF assms] by (simp add: staged_ok_def)
  show "contents i l = sl_members s" "def_contents i l = sl_defs s"
    "layer_view i l = Some (as_i64 (sl_branch s), if sl_sealed s then row_sealed else row_open)"
    "authored_in i l = sl_authored s"
    using m assms(2) by (simp_all add: contents_def def_contents_def layer_view_def authored_in_def)
qed

lemma waiting_simps [simp]:
  "waiting (hm_insert l h hs) k = (if k = l then ol_pending h else waiting hs k)"
  "waiting (hm_remove l hs) k = (if k = l then [] else waiting hs k)"
  by (simp_all add: waiting_def)

text \<open>Each part rests on its own tables and views.\<close>

lemma table_frames:
  "tb_layers u = tb_layers t \<Longrightarrow> layers_agree i u = layers_agree i t"
  "tb_layers u = tb_layers t \<Longrightarrow> meta_agrees c i u = meta_agrees c i t"
  "tb_defs u = tb_defs t \<Longrightarrow> defs_agree c i u = defs_agree c i t"
  "tb_branches u = tb_branches t \<Longrightarrow> branches_agree c i u = branches_agree c i t"
  "tb_interned u = tb_interned t \<Longrightarrow> interned_agree i u = interned_agree i t"
  "tb_members u = tb_members t \<Longrightarrow> members_agree i u hs = members_agree i t hs"
  "tb_events u = tb_events t \<Longrightarrow> events_agree c i u hs = events_agree c i t hs"
  by (simp_all only: layers_agree_def meta_agrees_def defs_agree_def branches_agree_def interned_agree_def
      members_agree_def events_agree_def)

lemma view_frames:
  "layer_view j = layer_view i \<Longrightarrow> layers_agree j t = layers_agree i t"
  "layer_view j = layer_view i \<Longrightarrow> in_layer_meta j = in_layer_meta i \<Longrightarrow> meta_agrees c j t = meta_agrees c i t"
  "def_contents j = def_contents i \<Longrightarrow> defs_agree c j t = defs_agree c i t"
  "in_branches j = in_branches i \<Longrightarrow> branches_agree c j t = branches_agree c i t"
  "in_interned j = in_interned i \<Longrightarrow> interned_agree j t = interned_agree i t"
  "contents j = contents i \<Longrightarrow> members_agree j t hs = members_agree i t hs"
  "in_next_event j = in_next_event i \<Longrightarrow> next_agrees j s = next_agrees i s"
  "in_staged j = in_staged i \<Longrightarrow> handles_agree j hs = handles_agree i hs"
  "live j = live i \<Longrightarrow> stored j = stored i \<Longrightarrow> in_members j = in_members i \<Longrightarrow>
     events_agree c j t hs = events_agree c i t hs"
  "authored_in j = authored_in i \<Longrightarrow> stored j = stored i \<Longrightarrow> waiting_ok c j l ps = waiting_ok c i l ps"
  by (simp_all only: layers_agree_def meta_agrees_def defs_agree_def branches_agree_def interned_agree_def
      members_agree_def next_agrees_def handles_agree_def events_agree_def waiting_ok_def)

lemma live_frame: "authored_in j = authored_in i \<Longrightarrow> stored j = stored i \<Longrightarrow> live j = live i"
  by (simp add: live_def fun_eq_iff)

lemma authored_inD:
  assumes "mem_inv i" "ev \<in> set (authored_in i l)"
  shows "stored i (ev_id ev) = None" "ev_authored ev = l" "ev_id ev \<le> in_next_event i"
    "hm_get (in_members i) l = None" "live i ev"
    "\<And>k ev'. ev' \<in> set (authored_in i k) \<Longrightarrow> ev_id ev' = ev_id ev \<Longrightarrow> k = l \<and> ev' = ev"
proof -
  obtain s where s: "hm_get (in_staged i) l = Some s" "ev \<in> set (sl_authored s)"
    using assms(2) by (cases "hm_get (in_staged i) l") (auto simp: authored_in_def)
  note ok = mem_invD(5)[OF assms(1) s(1)]
  show "stored i (ev_id ev) = None" "ev_authored ev = l" "ev_id ev \<le> in_next_event i"
    "hm_get (in_members i) l = None"
    using ok s(2) by (auto simp: staged_ok_def)
  show "live i ev" using assms(2) by (auto simp: live_def)
  fix k ev' assume e: "ev' \<in> set (authored_in i k)" "ev_id ev' = ev_id ev"
  obtain s' where s': "hm_get (in_staged i) k = Some s'" "ev' \<in> set (sl_authored s')"
    using e(1) by (cases "hm_get (in_staged i) k") (auto simp: authored_in_def)
  have "k = l"
  proof (rule ccontr)
    assume "k \<noteq> l"
    then have "staged_ids s' \<inter> staged_ids s = {}"
      using mem_invD(2)[OF assms(1)] s(1) s'(1) by (auto simp: disjoint_ok_def)
    then show False using s(2) s'(2) e(2) by (auto simp: staged_ids_def)
  qed
  moreover from this have "ev' = ev"
    using ok s s' e(2) by (auto simp: staged_ok_def distinct_map dest: inj_onD)
  ultimately show "k = l \<and> ev' = ev" by blast
qed

lemma live_unique:
  assumes "mem_inv i" "live i a" "live i b" "ev_id a = ev_id b"
  shows "a = b"
  using assms authored_inD(1,6)[OF assms(1)] unfolding live_def by (metis option.distinct(1) option.inject)

lemma waiting_okD:
  assumes "waiting_ok c i l ps" "p \<in> set ps"
  shows "pd_authored p = None \<Longrightarrow> \<exists>e. pd_event p = as_i64 e \<and> stored i e \<noteq> None"
    "pd_authored p = Some cols \<Longrightarrow>
       \<exists>ev. ev \<in> set (authored_in i l) \<and> pd_event p = as_i64 (ev_id ev) \<and> event_columns c ev = Inr cols"
proof -
  have "case pd_authored p of None \<Rightarrow> \<exists>e. pd_event p = as_i64 e \<and> stored i e \<noteq> None
      | Some cols \<Rightarrow> \<exists>ev \<in> set (authored_in i l). pd_event p = as_i64 (ev_id ev) \<and> event_columns c ev = Inr cols"
    using assms unfolding waiting_ok_def by blast
  then show "pd_authored p = None \<Longrightarrow> \<exists>e. pd_event p = as_i64 e \<and> stored i e \<noteq> None"
    "pd_authored p = Some cols \<Longrightarrow>
       \<exists>ev. ev \<in> set (authored_in i l) \<and> pd_event p = as_i64 (ev_id ev) \<and> event_columns c ev = Inr cols"
    by (simp_all, blast)
qed

lemma waiting_ok_tail: "waiting_ok c i l (p # ps) \<Longrightarrow> waiting_ok c i l ps"
  unfolding waiting_ok_def by (auto simp del: not_None_eq split: if_splits)

lemma waitsE:
  assumes "\<And>l. waiting_ok c i l (waiting hs l)" "waits hs n"
  obtains l ev p where "ev \<in> set (authored_in i l)" "n = as_i64 (ev_id ev)" "p \<in> set (waiting hs l)"
    "pd_authored p \<noteq> None" "pd_event p = n"
proof -
  obtain l p where p: "p \<in> set (waiting hs l)" "pd_authored p \<noteq> None" "pd_event p = n"
    using assms(2) by (auto simp: waits_def)
  then obtain ev where "ev \<in> set (authored_in i l)" "pd_event p = as_i64 (ev_id ev)"
    using waiting_okD(2)[OF assms(1) p(1)] by blast
  with p that show ?thesis by blast
qed

lemma stored_not_waits:
  assumes "agrees c i (s, hs)" "stored i e \<noteq> None"
  shows "\<not> waits hs (as_i64 e)"
proof
  assume "waits hs (as_i64 e)"
  then obtain l ev where "ev \<in> set (authored_in i l)" "as_i64 e = as_i64 (ev_id ev)"
    using waitsE[OF agreesD(8)[OF assms(1)]] by metis
  then show False using authored_inD(1)[OF agreesD(1)[OF assms(1)]] assms(2) by auto
qed

lemma stored_live: "mem_inv i \<Longrightarrow> stored i e = Some ev \<Longrightarrow> live i ev \<and> ev_id ev = e"
  by (auto simp: live_def mem_inv_def ids_ok_def events_ok_def stored_def)

lemma handle_of:
  assumes "agrees c i (s, hs)" "hm_get (in_staged i) l = Some sl" "\<not> sl_sealed sl"
  obtains h where "hm_get hs l = Some h" "ol_id h = l" "ol_branch h = sl_branch sl"
    "ol_defs h = length (sl_defs sl)" "ol_seq h = length (sl_members sl)"
proof -
  have "handle_agrees l (hm_get (in_staged i) l) (hm_get hs l)"
    using agreesD(5)[OF assms(1)] by (simp add: handles_agree_def)
  then show ?thesis using assms(2,3) that by (auto simp: handle_agrees_def split: option.splits)
qed

lemma staged_of:
  assumes "agrees c i (s, hs)" "hm_get hs l = Some h"
  obtains sl where "hm_get (in_staged i) l = Some sl" "\<not> sl_sealed sl" "ol_id h = l" "ol_branch h = sl_branch sl"
    "ol_defs h = length (sl_defs sl)" "ol_seq h = length (sl_members sl)"
proof -
  have "handle_agrees l (hm_get (in_staged i) l) (hm_get hs l)"
    using agreesD(5)[OF assms(1)] by (simp add: handles_agree_def)
  then show ?thesis using assms(2) that by (auto simp: handle_agrees_def split: option.splits)
qed

section \<open>Flushing\<close>

lemma flush_step:
  assumes ag: "agrees c i (s, hs)" and h: "hm_get hs l = Some h" "ol_pending h = p # ps"
  obtains u where "flush_row (as_i64 (ol_branch h)) (as_i64 (ol_id h)) p (sq_tables s) = Inr u"
    "agrees c i (s\<lparr>sq_tables := u\<rparr>, hm_insert l (h\<lparr>ol_pending := ps\<rparr>) hs)"
proof -
  let ?t = "sq_tables s" and ?hs = "hm_insert l (h\<lparr>ol_pending := ps\<rparr>) hs" and ?n = "pd_event p"
  note ag' = agreesD[OF ag]
  note inv = ag'(1) and wok = ag'(8)
  have w: "waiting hs l = p # ps" using h by (simp add: waiting_def)
  obtain sl where sl: "hm_get (in_staged i) l = Some sl" "\<not> sl_sealed sl" "ol_id h = l"
    "ol_branch h = sl_branch sl" using staged_of[OF ag h(1)] by metis
  note v = staged_views[OF inv sl(1)]
  have "map_option (\<lambda>r. (lr_branch r, lr_state r)) (map_of (tb_layers ?t) (as_i64 l)) = layer_view i l"
    using ag'(4) unfolding layers_agree_def by blast
  then obtain lr where lr: "map_of (tb_layers ?t) (as_i64 l) = Some lr" "lr_branch lr = as_i64 (ol_branch h)"
    using v(4) sl(4) by auto
  have mem: "layer_rows (as_i64 l) (tb_members ?t) @ ?n # map pd_event ps = map as_i64 (contents i l)"
    "pd_seq p # map pd_seq ps = map int [length (layer_rows (as_i64 l) (tb_members ?t)) ..< length (contents i l)]"
    "\<forall>q. map_of (tb_members ?t) (as_i64 l, q) \<noteq> None \<longrightarrow> q < int (length (layer_rows (as_i64 l) (tb_members ?t)))"
    using ag'(6) w unfolding members_agree_def by (metis list.simps(9))+
  let ?k = "length (layer_rows (as_i64 l) (tb_members ?t))"
  have "?k < length (contents i l)" using mem(2) by (cases "?k < length (contents i l)") auto
  then have seq: "pd_seq p = int ?k" "map pd_seq ps = map int [Suc ?k ..< length (contents i l)]"
    using mem(2) by (simp_all add: upt_conv_Cons)
  have wl: "waiting_ok c i l (p # ps)" using wok[of l] w by simp
  have live_row: "map_of (tb_events ?t) (as_i64 (ev_id ev)) =
      (if waits hs (as_i64 (ev_id ev)) then None else row_of c ev)" "event_survives c ev" if "live i ev" for ev
    using ag'(7) that unfolding events_agree_def by blast+
  have authored: "\<exists>ev. ev \<in> set (authored_in i l) \<and> ?n = as_i64 (ev_id ev) \<and> event_columns c ev = Inr cols \<and>
      map_of (tb_events ?t) ?n = None" if a: "pd_authored p = Some cols" for cols
  proof -
    obtain ev where ev: "ev \<in> set (authored_in i l)" "?n = as_i64 (ev_id ev)" "event_columns c ev = Inr cols"
      using waiting_okD(2)[OF wl _ a] by auto
    moreover have "waits hs ?n" using w a unfolding waits_def by (metis list.set_intros(1) option.distinct(1))
    moreover have "live i ev" by (rule authored_inD(5)[OF inv ev(1)])
    ultimately show ?thesis using live_row(1)[of ev] by auto
  qed
  have named: "\<exists>ev. live i ev \<and> ?n = as_i64 (ev_id ev) \<and> \<not> waits hs ?n \<and> map_of (tb_events ?t) ?n \<noteq> None"
    if a: "pd_authored p = None"
  proof -
    obtain e where e: "?n = as_i64 e" "stored i e \<noteq> None" using waiting_okD(1)[OF wl _ a] by auto
    then obtain ev where ev: "stored i e = Some ev" by blast
    have lv: "live i ev" "ev_id ev = e" using stored_live[OF inv ev] by blast+
    moreover obtain row where "row_of c ev = Some row" using row_of_survives[OF live_row(2)[OF lv(1)]] by metis
    moreover have "\<not> waits hs ?n" using stored_not_waits[OF ag e(2)] e(1) by simp
    ultimately show ?thesis using live_row(1)[OF lv(1)] e(1) by auto
  qed
  have new: "pd_authored p \<noteq> None \<longleftrightarrow> map_of (tb_events ?t) ?n = None"
    using authored named by (cases "pd_authored p") auto
  have place: "\<forall>q. map_of (tb_members ?t) (as_i64 l, q) \<noteq> None \<longrightarrow> q < pd_seq p" using mem(3) seq(1) by simp
  obtain u where u: "flush_row (as_i64 (ol_branch h)) (as_i64 l) p ?t = Inr u" "tables_ok u"
    "tb_layers u = tb_layers ?t" "tb_defs u = tb_defs ?t" "tb_branches u = tb_branches ?t"
    "tb_interned u = tb_interned ?t"
    "map_of (tb_events u) = (case pd_authored p of None \<Rightarrow> map_of (tb_events ?t)
       | Some cols \<Rightarrow> (map_of (tb_events ?t))(?n \<mapsto> authored_row (as_i64 l) cols))"
    "map_of (tb_members u) = (map_of (tb_members ?t))((as_i64 l, pd_seq p) \<mapsto> ?n)"
    "\<And>k. layer_rows k (tb_members u) =
       (if k = as_i64 l then layer_rows (as_i64 l) (tb_members ?t) @ [?n] else layer_rows k (tb_members ?t))"
    by (rule flush_row_ok[OF ag'(2) lr place new]) (rule that)
  have wait_l: "pd_authored q = None \<or> pd_event q \<noteq> ?n" if "pd_authored p \<noteq> None" "q \<in> set ps" for q
  proof -
    let ?f = "filter (\<lambda>p. pd_authored p \<noteq> None) ps"
    have "distinct (map pd_event (filter (\<lambda>p. pd_authored p \<noteq> None) (p # ps)))" using wl by (simp add: waiting_ok_def)
    then have n: "?n \<notin> pd_event ` set ?f" using that(1) by (simp del: set_filter)
    show ?thesis
    proof (rule ccontr)
      assume a: "\<not> (pd_authored q = None \<or> pd_event q \<noteq> ?n)"
      then have "q \<in> set ?f" using that(2) by simp
      with n a show False by (metis imageI)
    qed
  qed
  have waits': "waits ?hs n \<longleftrightarrow> (\<exists>k q. q \<in> set (if k = l then ps else waiting hs k) \<and>
      pd_authored q \<noteq> None \<and> pd_event q = n)" for n
    by (simp add: waits_def Bex_def del: not_None_eq cong: if_cong)
  have waits: "waits ?hs n \<longleftrightarrow> waits hs n \<and> (pd_authored p = None \<or> n \<noteq> ?n)" for n
  proof
    assume "waits ?hs n"
    then obtain k q where q: "q \<in> set (if k = l then ps else waiting hs k)" "pd_authored q \<noteq> None" "pd_event q = n"
      unfolding waits' by blast
    have in_w: "q \<in> set (waiting hs k)" using q(1) w by (auto split: if_splits)
    have "pd_authored p = None \<or> n \<noteq> ?n"
    proof (cases "k = l")
      case True
      then show ?thesis using wait_l[of q] q by auto
    next
      case False
      obtain ev' where ev': "ev' \<in> set (authored_in i k)" "pd_event q = as_i64 (ev_id ev')"
        using waiting_okD(2)[OF wok in_w] q(2) by blast
      show ?thesis
      proof (cases "pd_authored p")
        case (Some cols)
        then obtain ev where "ev \<in> set (authored_in i l)" "?n = as_i64 (ev_id ev)" using authored by blast
        then show ?thesis using authored_inD(6)[OF inv _ ev'(1)] ev'(2) q(3) False by auto
      qed simp
    qed
    then show "waits hs n \<and> (pd_authored p = None \<or> n \<noteq> ?n)" using in_w q(2,3) unfolding waits_def by blast
  next
    assume "waits hs n \<and> (pd_authored p = None \<or> n \<noteq> ?n)"
    then obtain k q where q: "q \<in> set (waiting hs k)" "pd_authored q \<noteq> None" "pd_event q = n"
      "pd_authored p = None \<or> n \<noteq> ?n" unfolding waits_def by blast
    then have "q \<in> set (if k = l then ps else waiting hs k)" using w by auto
    then show "waits ?hs n" using q(2,3) unfolding waits' by blast
  qed
  have "events_agree c i u ?hs"
    unfolding events_agree_def
  proof (intro conjI allI impI)
    fix ev assume lv: "live i ev"
    show "event_survives c ev" by (rule live_row(2)[OF lv])
    show "map_of (tb_events u) (as_i64 (ev_id ev)) = (if waits ?hs (as_i64 (ev_id ev)) then None else row_of c ev)"
    proof (cases "pd_authored p")
      case None
      then show ?thesis using live_row(1)[OF lv] by (simp add: u(7) waits)
    next
      case (Some cols)
      then obtain ev' where ev': "ev' \<in> set (authored_in i l)" "?n = as_i64 (ev_id ev')"
        "event_columns c ev' = Inr cols" using authored by blast
      then have row: "row_of c ev' = Some (authored_row (as_i64 l) cols)"
        using authored_inD(2)[OF inv ev'(1)] by (simp add: row_of_def)
      show ?thesis
      proof (cases "ev_id ev' = ev_id ev")
        case True
        then have "ev' = ev" by (rule live_unique[OF inv authored_inD(5)[OF inv ev'(1)] lv])
        then show ?thesis using Some row ev'(2) by (simp add: u(7) waits)
      next
        case False
        then have "as_i64 (ev_id ev) \<noteq> ?n" using ev'(2) by simp
        then show ?thesis using Some live_row(1)[OF lv] by (simp add: u(7) waits)
      qed
    qed
  next
    fix n row assume "map_of (tb_events u) n = Some row"
    then consider "map_of (tb_events ?t) n = Some row" | cols where "pd_authored p = Some cols" "n = ?n"
      unfolding u(7) by (cases "pd_authored p") (simp_all split: if_splits)
    then show "\<exists>ev. live i ev \<and> n = as_i64 (ev_id ev)"
    proof cases
      case 1
      then show ?thesis using ag'(7) unfolding events_agree_def by blast
    next
      case 2
      then show ?thesis using authored[of cols] authored_inD(5)[OF inv] by blast
    qed
  next
    fix e ev assume "stored i e = Some ev"
    then show "hm_get (in_members i) (ev_authored ev) \<noteq> None" using ag'(7) unfolding events_agree_def by blast
  qed
  moreover have "members_agree i u ?hs"
    unfolding members_agree_def
  proof (rule allI)
    fix k
    show "layer_rows (as_i64 k) (tb_members u) @ map pd_event (waiting ?hs k) = map as_i64 (contents i k) \<and>
      map pd_seq (waiting ?hs k) = map int [length (layer_rows (as_i64 k) (tb_members u)) ..< length (contents i k)] \<and>
      (\<forall>q. map_of (tb_members u) (as_i64 k, q) \<noteq> None \<longrightarrow> q < int (length (layer_rows (as_i64 k) (tb_members u))))"
    proof (cases "k = l")
      case True
      then show ?thesis using mem seq by (auto simp: u(8,9))
    next
      case False
      then show ?thesis using ag'(6) by (simp add: members_agree_def u(8,9))
    qed
  qed
  moreover have "waiting_ok c i k (waiting ?hs k)" for k
    using wok[of k] waiting_ok_tail[OF wl] by simp
  moreover have "handles_agree i ?hs"
    using ag'(5) h(1) by (auto simp: handles_agree_def handle_agrees_def dest: spec[of _ l] split: option.splits)
  ultimately have "agrees c i (s\<lparr>sq_tables := u\<rparr>, ?hs)"
    using ag' u(2) table_frames(1,2)[OF u(3)] table_frames(3)[OF u(4)] table_frames(4)[OF u(5)]
      table_frames(5)[OF u(6)]
    by (simp add: agrees_def Let_def next_agrees_def)
  then show ?thesis using that u(1) sl(3) by simp
qed

lemma agrees_handles: "map_of hs = map_of hs' \<Longrightarrow> agrees c i (s, hs) = agrees c i (s, hs')"
proof -
  assume "map_of hs = map_of hs'"
  moreover from this have "waiting hs = waiting hs'" by (simp add: fun_eq_iff waiting_def)
  moreover from this have "waits hs = waits hs'" by (simp add: fun_eq_iff waits_def)
  ultimately show ?thesis by (simp add: agrees_def handles_agree_def members_agree_def events_agree_def)
qed

lemma flush_rows_agrees:
  assumes "agrees c i (s, hs)" "hm_get hs l = Some h" "ol_pending h = ps"
  shows "\<exists>u. flush_rows (as_i64 (ol_branch h)) (as_i64 (ol_id h)) ps (sq_tables s) = Inr u \<and>
    agrees c i (s\<lparr>sq_tables := u\<rparr>, hm_insert l (h\<lparr>ol_pending := []\<rparr>) hs)"
  using assms
proof (induction ps arbitrary: s hs h)
  case Nil
  then have "h\<lparr>ol_pending := []\<rparr> = h" by simp
  then have "map_of (hm_insert l (h\<lparr>ol_pending := []\<rparr>) hs) = map_of hs" using Nil(2) by auto
  from agrees_handles[OF this] Nil(1) show ?case by simp
next
  case (Cons p ps)
  let ?h = "h\<lparr>ol_pending := ps\<rparr>"
  obtain u where u: "flush_row (as_i64 (ol_branch h)) (as_i64 (ol_id h)) p (sq_tables s) = Inr u"
    "agrees c i (s\<lparr>sq_tables := u\<rparr>, hm_insert l ?h hs)"
    using flush_step[OF Cons.prems] by metis
  have "\<exists>w. flush_rows (as_i64 (ol_branch ?h)) (as_i64 (ol_id ?h)) ps (sq_tables (s\<lparr>sq_tables := u\<rparr>)) = Inr w \<and>
      agrees c i (s\<lparr>sq_tables := u\<rparr>\<lparr>sq_tables := w\<rparr>, hm_insert l (?h\<lparr>ol_pending := []\<rparr>) (hm_insert l ?h hs))"
    by (rule Cons.IH[OF u(2)]) simp_all
  then obtain w where w: "flush_rows (as_i64 (ol_branch h)) (as_i64 (ol_id h)) ps u = Inr w"
    "agrees c i (s\<lparr>sq_tables := w\<rparr>, hm_insert l (h\<lparr>ol_pending := []\<rparr>) (hm_insert l ?h hs))" by auto
  have "map_of (hm_insert l (h\<lparr>ol_pending := []\<rparr>) (hm_insert l ?h hs)) =
      map_of (hm_insert l (h\<lparr>ol_pending := []\<rparr>) hs)" by simp
  from agrees_handles[OF this] w u(1) show ?case by simp
qed

lemma flush_agrees:
  assumes "agrees c i (s, hs)" "hm_get hs l = Some h"
  obtains s' where "flush h s = (Inr (), h\<lparr>ol_pending := []\<rparr>, s')"
    "agrees c i (s', hm_insert l (h\<lparr>ol_pending := []\<rparr>) hs)" "sq_next_event s' = sq_next_event s"
proof -
  obtain u where "flush_rows (as_i64 (ol_branch h)) (as_i64 (ol_id h)) (ol_pending h) (sq_tables s) = Inr u"
    "agrees c i (s\<lparr>sq_tables := u\<rparr>, hm_insert l (h\<lparr>ol_pending := []\<rparr>) hs)"
    using flush_rows_agrees[OF assms refl] by blast
  then show ?thesis using that[of "s\<lparr>sq_tables := u\<rparr>"] by (simp add: flush_def Let_def)
qed

end
