(* ===== verification/Sqlite_Calls.thy ===== *)
theory Sqlite_Calls
  imports Sqlite_Refinement
begin

text \<open>
  Call by call: what the provider in memory accepts, the SQLite provider accepts with the same
  answer, and the relation is kept.
\<close>

section \<open>The counter\<close>

lemma agrees_next:
  assumes "agrees c i (s, hs)" "in_next_event i \<le> n" "n \<noteq> - 1"
  shows "agrees c (i\<lparr>in_next_event := n\<rparr>) (s\<lparr>sq_next_event := n + 1\<rparr>, hs)" (is "agrees c ?i (?s, hs)")
proof -
  note a = agreesD[OF assms(1)]
  have "live ?i = live i" by (rule live_frame) simp_all
  then have e: "events_agree c ?i (sq_tables s) hs = events_agree c i (sq_tables s) hs"
    by (rule view_frames(9)) simp_all
  have "waiting_ok c ?i l ps = waiting_ok c i l ps" for l ps by (rule view_frames(10)) simp_all
  moreover have "layers_agree ?i (sq_tables s)" "meta_agrees c ?i (sq_tables s)" "defs_agree c ?i (sq_tables s)"
    "branches_agree c ?i (sq_tables s)" "interned_agree ?i (sq_tables s)" "handles_agree ?i hs"
    "members_agree ?i (sq_tables s) hs"
    using a(4,12,9,10,11,5,6) view_frames(1-6,8)[where j = ?i and i = i] by simp_all
  ultimately show ?thesis
    using a(1,2,7,8) mem_inv_next[OF a(1) assms(2)] e assms(3)
    by (simp add: agrees_def Let_def next_agrees_def)
qed

section \<open>A row pushed into the buffer\<close>

text \<open>Room at the end of the buffer: the next place of the layer.\<close>

lemma places_end:
  assumes "agrees c i (s, hs)" "hm_get (in_staged i) l = Some sl" "hm_get hs l = Some h"
    "ol_seq h = length (sl_members sl)"
  shows "map pd_seq (ol_pending h) @ [int (ol_seq h)] =
     map int [length (layer_rows (as_i64 l) (tb_members (sq_tables s))) ..< Suc (ol_seq h)]"
    "layer_rows (as_i64 l) (tb_members (sq_tables s)) @ map pd_event (ol_pending h) = map as_i64 (sl_members sl)"
    "\<forall>q. map_of (tb_members (sq_tables s)) (as_i64 l, q) \<noteq> None \<longrightarrow>
       q < int (length (layer_rows (as_i64 l) (tb_members (sq_tables s))))"
proof -
  let ?rows = "layer_rows (as_i64 l) (tb_members (sq_tables s))"
  have w: "waiting hs l = ol_pending h" using assms(3) by (simp add: waiting_def)
  have c: "contents i l = sl_members sl" by (rule staged_views(2)[OF agreesD(1)[OF assms(1)] assms(2)])
  have m: "?rows @ map pd_event (ol_pending h) = map as_i64 (sl_members sl)"
    "map pd_seq (ol_pending h) = map int [length ?rows ..< length (sl_members sl)]"
    "\<forall>q. map_of (tb_members (sq_tables s)) (as_i64 l, q) \<noteq> None \<longrightarrow> q < int (length ?rows)"
    using agreesD(6)[OF assms(1)] unfolding members_agree_def w[symmetric] c[symmetric] by blast+
  have "length ?rows \<le> length (sl_members sl)"
    using arg_cong[OF m(1), of length] by simp
  then show "map pd_seq (ol_pending h) @ [int (ol_seq h)] = map int [length ?rows ..< Suc (ol_seq h)]"
    by (simp add: m(2) assms(4))
  show "?rows @ map pd_event (ol_pending h) = map as_i64 (sl_members sl)"
    "\<forall>q. map_of (tb_members (sq_tables s)) (as_i64 l, q) \<noteq> None \<longrightarrow> q < int (length ?rows)"
    by (fact m)+
qed

text \<open>
  A staged layer that gains a member, and its handle the row: the parts that do not depend on
  whether the event is new.
\<close>

lemma pushed_parts:
  assumes ag: "agrees c i (s, hs)" and sl: "hm_get (in_staged i) l = Some sl" "\<not> sl_sealed sl"
    and h: "hm_get hs l = Some h" "ol_id h = l" "ol_branch h = sl_branch sl" "ol_defs h = length (sl_defs sl)"
      "ol_seq h = length (sl_members sl)"
    and sl': "sl_branch sl' = sl_branch sl" "sl_sealed sl' = sl_sealed sl" "sl_defs sl' = sl_defs sl"
      "sl_members sl' = sl_members sl @ [e]"
    and h': "h' = h\<lparr>ol_pending := ol_pending h @ [p], ol_seq := Suc (ol_seq h)\<rparr>"
    and p: "pd_seq p = int (ol_seq h)" "pd_event p = as_i64 e"
  shows "layers_agree (put_staged l sl' i) (sq_tables s)" "handles_agree (put_staged l sl' i) (hm_insert l h' hs)"
    "members_agree (put_staged l sl' i) (sq_tables s) (hm_insert l h' hs)"
    "defs_agree c (put_staged l sl' i) (sq_tables s)" "branches_agree c (put_staged l sl' i) (sq_tables s)"
    "interned_agree (put_staged l sl' i) (sq_tables s)" "meta_agrees c (put_staged l sl' i) (sq_tables s)"
    "next_agrees (put_staged l sl' i) s"
proof -
  let ?i = "put_staged l sl' i"
  note a = agreesD[OF ag] and v = staged_views[OF agreesD(1)[OF ag] sl(1)]
  have view: "layer_view ?i = layer_view i"
    using v(4) sl' by (simp add: fun_eq_iff put_simps v(1))
  have defs: "def_contents ?i = def_contents i"
    using v(3) sl' by (simp add: fun_eq_iff put_simps v(1))
  show "layers_agree ?i (sq_tables s)" using a(4) by (simp only: view_frames(1)[OF view])
  show "meta_agrees c ?i (sq_tables s)" using a(12) by (simp only: view_frames(2)[OF view put_simps(7)])
  show "defs_agree c ?i (sq_tables s)" using a(9) by (simp only: view_frames(3)[OF defs])
  show "branches_agree c ?i (sq_tables s)" using a(10) by (simp only: view_frames(4)[OF put_simps(8)])
  show "interned_agree ?i (sq_tables s)" using a(11) by (simp only: view_frames(5)[OF put_simps(9)])
  show "next_agrees ?i s" using a(3) by (simp only: view_frames(7)[OF put_simps(10)])
  show "handles_agree ?i (hm_insert l h' hs)"
  proof -
    have "handle_agrees l (Some sl') (Some h')" unfolding handle_agrees_def h' using h sl(2) sl' by simp
    then show ?thesis using a(5) by (simp add: handles_agree_def put_staged_def)
  qed
  show "members_agree ?i (sq_tables s) (hm_insert l h' hs)"
    unfolding members_agree_def
  proof (rule allI)
    fix k
    note e = places_end[OF ag sl(1) h(1,5)]
    let ?rows = "layer_rows (as_i64 k) (tb_members (sq_tables s))"
    show "?rows @ map pd_event (waiting (hm_insert l h' hs) k) = map as_i64 (contents ?i k) \<and>
      map pd_seq (waiting (hm_insert l h' hs) k) = map int [length ?rows ..< length (contents ?i k)] \<and>
      (\<forall>q. map_of (tb_members (sq_tables s)) (as_i64 k, q) \<noteq> None \<longrightarrow> q < int (length ?rows))"
    proof (cases "k = l")
      case True
      then show ?thesis using e h(5) sl'(4) p by (simp add: put_simps v(1) h' flip: append_assoc)
    next
      case False
      then show ?thesis using a(6) by (simp add: members_agree_def put_simps v(1))
    qed
  qed
qed

lemma waits_push:
  "hm_get hs l = Some h \<Longrightarrow>
   waits (hm_insert l (h\<lparr>ol_pending := ol_pending h @ [p], ol_seq := n\<rparr>) hs) x \<longleftrightarrow>
     waits hs x \<or> pd_authored p \<noteq> None \<and> pd_event p = x"
proof -
  assume h: "hm_get hs l = Some h"
  have w: "set (waiting (hm_insert l (h\<lparr>ol_pending := ol_pending h @ [p], ol_seq := n\<rparr>) hs) k) =
      (if k = l then insert p (set (waiting hs k)) else set (waiting hs k))" for k
    using h by (auto simp: waiting_def)
  let ?P = "\<lambda>q. pd_authored q \<noteq> None \<and> pd_event q = x"
  have "(\<exists>q \<in> set (waiting (hm_insert l (h\<lparr>ol_pending := ol_pending h @ [p], ol_seq := n\<rparr>) hs) k). ?P q) \<longleftrightarrow>
      (\<exists>q \<in> set (waiting hs k). ?P q) \<or> k = l \<and> ?P p" for k
    unfolding w by (cases "k = l") (simp_all del: not_None_eq, blast)
  then show ?thesis unfolding waits_def by blast
qed

lemma push_include:
  assumes ag: "agrees c i (s, hs)" and sl: "hm_get (in_staged i) l = Some sl" "\<not> sl_sealed sl"
    and h: "hm_get hs l = Some h" "ol_id h = l" "ol_branch h = sl_branch sl" "ol_defs h = length (sl_defs sl)"
      "ol_seq h = length (sl_members sl)"
    and e: "stored i e \<noteq> None"
  shows "agrees c (put_staged l (sl\<lparr>sl_members := sl_members sl @ [e]\<rparr>) i)
    (s, hm_insert l (h\<lparr>ol_pending := ol_pending h @ [\<lparr>pd_seq = int (ol_seq h), pd_event = as_i64 e, pd_authored = None\<rparr>],
                       ol_seq := Suc (ol_seq h)\<rparr>) hs)" (is "agrees c ?i (s, hm_insert l ?h hs)")
proof -
  let ?p = "\<lparr>pd_seq = int (ol_seq h), pd_event = as_i64 e, pd_authored = None\<rparr>"
  note a = agreesD[OF ag] and v = staged_views[OF agreesD(1)[OF ag] sl(1)]
  have inv: "mem_inv ?i" using e by (intro mem_inv_change[OF a(1) sl(1)]) auto
  have auth: "authored_in ?i = authored_in i" using v(5) by (simp add: fun_eq_iff put_simps)
  have waits: "waits (hm_insert l ?h hs) = waits hs" using waits_push[OF h(1), where p = ?p] by (simp add: fun_eq_iff)
  have "live ?i = live i" by (rule live_frame[OF auth]) (simp add: put_simps)
  then have "events_agree c ?i (sq_tables s) (hm_insert l ?h hs)"
    using a(7) unfolding events_agree_def waits by (simp add: put_simps)
  moreover have "waiting_ok c ?i k (waiting (hm_insert l ?h hs) k)" for k
  proof -
    have "waiting_ok c i k (waiting (hm_insert l ?h hs) k)"
      using a(8)[of k] h(1) e by (auto simp: waiting_ok_def waiting_def simp del: not_None_eq)
    then show ?thesis by (simp only: view_frames(10)[OF auth put_simps(5)])
  qed
  ultimately show ?thesis
    using pushed_parts[OF ag sl h, of "sl\<lparr>sl_members := sl_members sl @ [e]\<rparr>" e ?h ?p] inv a(2)
    by (simp add: agrees_def Let_def)
qed

lemma waiting_ok_at:
  "authored_in j l = authored_in i l \<Longrightarrow> stored j = stored i \<Longrightarrow> waiting_ok c j l ps = waiting_ok c i l ps"
  by (simp only: waiting_ok_def)

lemma push_author:
  assumes ag: "agrees c i (s, hs)" and sl: "hm_get (in_staged i) l = Some sl" "\<not> sl_sealed sl"
    and h: "hm_get hs l = Some h" "ol_id h = l" "ol_branch h = sl_branch sl" "ol_defs h = length (sl_defs sl)"
      "ol_seq h = length (sl_members sl)"
    and ev: "event_survives c ev" "event_columns c ev = Inr cols" "\<And>x. live i x \<Longrightarrow> ev_id x \<noteq> ev_id ev"
    and inv: "mem_inv (put_staged l (sl\<lparr>sl_members := sl_members sl @ [ev_id ev], sl_authored := sl_authored sl @ [ev]\<rparr>) i)"
  shows "agrees c (put_staged l (sl\<lparr>sl_members := sl_members sl @ [ev_id ev], sl_authored := sl_authored sl @ [ev]\<rparr>) i)
    (s, hm_insert l (h\<lparr>ol_pending := ol_pending h @ [\<lparr>pd_seq = int (ol_seq h), pd_event = as_i64 (ev_id ev),
                                                  pd_authored = Some cols\<rparr>],
                       ol_seq := Suc (ol_seq h)\<rparr>) hs)" (is "agrees c ?i (s, hm_insert l ?h hs)")
proof -
  let ?sl = "sl\<lparr>sl_members := sl_members sl @ [ev_id ev], sl_authored := sl_authored sl @ [ev]\<rparr>"
  let ?p = "\<lparr>pd_seq = int (ol_seq h), pd_event = as_i64 (ev_id ev), pd_authored = Some cols\<rparr>"
  note a = agreesD[OF ag] and v = staged_views[OF agreesD(1)[OF ag] sl(1)]
  have auth: "authored_in ?i k = (if k = l then authored_in i l @ [ev] else authored_in i k)" for k
    using v(5) by (simp add: put_simps)
  have live: "live ?i x \<longleftrightarrow> live i x \<or> x = ev" for x
    unfolding live_def auth put_simps(5) by (auto split: if_splits)
  have waits: "waits (hm_insert l ?h hs) n \<longleftrightarrow> waits hs n \<or> n = as_i64 (ev_id ev)" for n
    using waits_push[OF h(1), where p = ?p] by auto
  have row: "map_of (tb_events (sq_tables s)) (as_i64 (ev_id x)) =
      (if waits hs (as_i64 (ev_id x)) then None else row_of c x)" "event_survives c x" if "live i x" for x
    using a(7) that unfolding events_agree_def by blast+
  have free: "map_of (tb_events (sq_tables s)) (as_i64 (ev_id ev)) = None"
  proof (rule ccontr)
    assume "map_of (tb_events (sq_tables s)) (as_i64 (ev_id ev)) \<noteq> None"
    then obtain x where "live i x" "as_i64 (ev_id ev) = as_i64 (ev_id x)"
      using a(7) unfolding events_agree_def by blast
    then show False using ev(3)[of x] by simp
  qed
  have "events_agree c ?i (sq_tables s) (hm_insert l ?h hs)"
    unfolding events_agree_def
  proof (intro conjI allI impI)
    fix x assume "live ?i x"
    then have x: "live i x \<or> x = ev" by (simp add: live)
    then show "event_survives c x" using row(2) ev(1) by blast
    show "map_of (tb_events (sq_tables s)) (as_i64 (ev_id x)) =
        (if waits (hm_insert l ?h hs) (as_i64 (ev_id x)) then None else row_of c x)"
    proof (cases "x = ev")
      case False
      with x have "live i x" by blast
      then show ?thesis using row(1) ev(3) by (simp add: waits)
    qed (simp add: waits free)
  next
    fix n r assume "map_of (tb_events (sq_tables s)) n = Some r"
    then show "\<exists>x. live ?i x \<and> n = as_i64 (ev_id x)"
      using a(7) unfolding events_agree_def live by blast
  next
    fix e x assume "stored ?i e = Some x"
    then show "hm_get (in_members ?i) (ev_authored x) \<noteq> None"
      using a(7) unfolding events_agree_def put_simps by blast
  qed
  moreover have "waiting_ok c ?i k (waiting (hm_insert l ?h hs) k)" for k
  proof (cases "k = l")
    case False
    then have "authored_in ?i k = authored_in i k" by (simp add: auth)
    from waiting_ok_at[OF this put_simps(5)] show ?thesis using a(8)[of k] False by simp
  next
    case True
    have w: "waiting hs l = ol_pending h" using h(1) by (simp add: waiting_def)
    let ?f = "filter (\<lambda>p. pd_authored p \<noteq> None)"
    have ok: "waiting_ok c i l (ol_pending h)" using a(8)[of l] by (simp add: w)
    have "as_i64 (ev_id ev) \<notin> set (map pd_event (?f (ol_pending h)))"
    proof
      assume "as_i64 (ev_id ev) \<in> set (map pd_event (?f (ol_pending h)))"
      then obtain q where q: "q \<in> set (ol_pending h)" "pd_authored q \<noteq> None" "pd_event q = as_i64 (ev_id ev)"
        by (auto simp del: not_None_eq)
      then obtain x where "x \<in> set (authored_in i l)" "as_i64 (ev_id ev) = as_i64 (ev_id x)"
        using waiting_okD(2)[OF ok q(1)] by (cases "pd_authored q") auto
      then show False using ev(3)[of x] authored_inD(5)[OF a(1)] by simp
    qed
    moreover have "distinct (map pd_event (?f (ol_pending h)))" using ok by (simp only: waiting_ok_def)
    ultimately have "distinct (map pd_event (?f (ol_pending h @ [?p])))" by simp
    moreover have "case pd_authored q of
        None \<Rightarrow> \<exists>e. pd_event q = as_i64 e \<and> stored ?i e \<noteq> None
      | Some cols \<Rightarrow> \<exists>ev \<in> set (authored_in ?i l). pd_event q = as_i64 (ev_id ev) \<and> event_columns c ev = Inr cols"
      if "q \<in> set (ol_pending h @ [?p])" for q
    proof (cases "q = ?p")
      case True
      then show ?thesis using ev(2) by (simp add: auth)
    next
      case False
      then have q: "q \<in> set (ol_pending h)" using that by simp
      show ?thesis
        using waiting_okD[OF ok q] by (cases "pd_authored q") (auto simp: auth put_simps(5))
    qed
    ultimately have "waiting_ok c ?i l (ol_pending h @ [?p])" unfolding waiting_ok_def by blast
    moreover have "waiting (hm_insert l ?h hs) l = ol_pending h @ [?p]" by simp
    ultimately show ?thesis by (simp only: True)
  qed
  moreover note pushed_parts[OF ag sl h, of ?sl "ev_id ev" ?h ?p]
  ultimately show ?thesis using inv a(2) by (simp add: agrees_def Let_def)
qed

lemma push_row_agrees:
  assumes "agrees c i (s, hm_insert l (h\<lparr>ol_pending := ol_pending h @ [\<lparr>pd_seq = int (ol_seq h), pd_event = n,
      pd_authored = cols\<rparr>], ol_seq := Suc (ol_seq h)\<rparr>) hs)"
  obtains h' s' where "push_row n cols h s = (Inr (), h', s')" "agrees c i (s', hm_insert l h' hs)"
proof -
  let ?h = "h\<lparr>ol_pending := ol_pending h @ [\<lparr>pd_seq = int (ol_seq h), pd_event = n, pd_authored = cols\<rparr>],
      ol_seq := Suc (ol_seq h)\<rparr>"
  show ?thesis
  proof (cases "batch \<le> length (ol_pending ?h)")
    case False
    then show ?thesis using that[OF _ assms] by (simp add: push_row_def Let_def)
  next
    case True
    obtain s' where s': "flush ?h s = (Inr (), ?h\<lparr>ol_pending := []\<rparr>, s')"
      "agrees c i (s', hm_insert l (?h\<lparr>ol_pending := []\<rparr>) (hm_insert l ?h hs))"
      using flush_agrees[OF assms, of l ?h] by auto
    have "map_of (hm_insert l (?h\<lparr>ol_pending := []\<rparr>) (hm_insert l ?h hs)) =
        map_of (hm_insert l (?h\<lparr>ol_pending := []\<rparr>) hs)" by simp
    from agrees_handles[OF this] s'(2) have "agrees c i (s', hm_insert l (?h\<lparr>ol_pending := []\<rparr>) hs)" by blast
    then show ?thesis using s'(1) True that by (simp add: push_row_def Let_def)
  qed
qed

section \<open>What a caller may do\<close>

text \<open>
  Ids that fit the signed column, payloads that survive their text, ids that are new where a caller
  brings them, a handle only while it is held, meta only for a layer that exists, and no abort of a
  layer whose meta is stored.
\<close>

definition handle_held :: "inner \<Rightarrow> layer_id \<Rightarrow> bool" where
  "handle_held i l = (case hm_get (in_staged i) l of None \<Rightarrow> False | Some s \<Rightarrow> \<not> sl_sealed s)"

fun caller_ok :: "json_texts \<Rightarrow> inner \<Rightarrow> provider_call \<Rightarrow> bool" where
  "caller_ok c i (COpen b l) = small_id l"
| "caller_ok c i (CAuthor l cell draft) =
     (record_survives c cell (ed_value draft) (ed_derivation draft) \<and> in_next_event i + 1 \<noteq> - 1)"
| "caller_ok c i (CAdopt l ev) = (event_survives c ev \<and> ev_id ev \<noteq> - 1 \<and> fresh_id i (ev_id ev))"
| "caller_ok c i (CInclude l e) = True"
| "caller_ok c i (CPutDef l d) = survives (co_def c) d"
| "caller_ok c i (CSeal l) = handle_held i l"
| "caller_ok c i (CAbort l) = (handle_held i l \<and> hm_get (in_layer_meta i) l = None)"
| "caller_ok c i (CCommit l) = True"
| "caller_ok c i (CMeta layer) = (survives (co_layer c) layer \<and>
     (hm_get (in_staged i) (ly_id layer) \<noteq> None \<or> hm_get (in_members i) (ly_id layer) \<noteq> None))"
| "caller_ok c i (CBranch b) = survives (co_branch c) b"
| "caller_ok c i (CIntern kind bytes) = True"
| "caller_ok c i CRebuild = True"

lemma fresh_not_live: "mem_inv i \<Longrightarrow> fresh_id i e \<Longrightarrow> live i x \<Longrightarrow> ev_id x \<noteq> e"
proof
  assume a: "mem_inv i" "fresh_id i e" "live i x" "ev_id x = e"
  then have "stored i (ev_id x) \<noteq> Some x" by (auto simp: fresh_id_def)
  then obtain l where "x \<in> set (authored_in i l)" using a(3) by (auto simp: live_def)
  then obtain s where "hm_get (in_staged i) l = Some s" "x \<in> set (sl_authored s)"
    by (cases "hm_get (in_staged i) l") (auto simp: authored_in_def)
  then show False using a(2,4) by (auto simp: fresh_id_def staged_ids_def)
qed

lemma next_not_live:
  assumes "mem_inv i" "in_next_event i \<noteq> - 1" "live i x"
  shows "ev_id x \<noteq> in_next_event i + 1"
proof -
  have "ev_id x \<le> in_next_event i"
    using assms(3) mem_invD(1)[OF assms(1)] authored_inD(3)[OF assms(1)] by (auto simp: live_def ids_ok_def)
  then show ?thesis using less_next[OF assms(2)] by auto
qed

lemma unat_next: "n \<noteq> - 1 \<Longrightarrow> unat (n + (1 :: u64)) = Suc (unat n)"
proof -
  assume "n \<noteq> - 1"
  then have "1 + n \<noteq> 0" using minus_unique[of 1 n] by metis
  then show ?thesis by (metis add.commute unatSuc)
qed

lemma max_next: "m \<noteq> - 1 \<Longrightarrow> n \<noteq> - 1 \<Longrightarrow> max (m + 1) (n + 1) = max m n + (1 :: u64)"
  by (simp add: max_def word_le_nat_alt unat_next)

section \<open>Writing\<close>

lemma calls_author:
  assumes ag: "agrees c i (s, hs)" and ok: "caller_ok c i (CAuthor l cell draft)"
    and call: "mem_call hash (CAuthor l cell draft) i = (a, i')" "a \<noteq> Refused"
  shows "\<exists>st. sql_call c hash (CAuthor l cell draft) (s, hs) = (a, st) \<and> agrees c i' st"
proof -
  let ?e = "in_next_event i + 1"
  let ?i = "i\<lparr>in_next_event := ?e\<rparr>" and ?s = "s\<lparr>sq_next_event := ?e + 1\<rparr>"
  let ?ev = "draft_event ?e cell draft l"
  note inv = agreesD(1)[OF ag]
  have nx: "in_next_event i \<noteq> - 1" "sq_next_event s = ?e" using agreesD(3)[OF ag] by (simp_all add: next_agrees_def)
  have mint: "mint i = (Inr ?e, ?i)" using nx(1) by (simp add: mint_def)
  obtain sl where st: "staged ?i l = Inr sl"
    using call by (cases "staged ?i l") (auto simp: author_event_def mint answered_def)
  then have sl: "hm_get (in_staged ?i) l = Some sl" "\<not> sl_sealed sl" by (simp_all add: staged_Inr)
  let ?sl = "sl\<lparr>sl_members := sl_members sl @ [ev_id ?ev], sl_authored := sl_authored sl @ [?ev]\<rparr>"
  have i': "a = Minted ?e" "i' = put_staged l ?sl ?i"
    using call st by (simp_all add: author_event_def mint answered_def) (simp_all add: draft_event_def)
  have ag': "agrees c ?i (?s, hs)"
    by (rule agrees_next[OF ag]) (use less_next[OF nx(1)] ok in \<open>auto simp: less_imp_le\<close>)
  obtain h where h: "hm_get hs l = Some h" "ol_id h = l" "ol_branch h = sl_branch sl"
    "ol_defs h = length (sl_defs sl)" "ol_seq h = length (sl_members sl)" using handle_of[OF ag' sl] .
  have sv: "event_survives c ?ev" using ok by (simp add: event_survives_def draft_event_def)
  then obtain cols where cols: "event_columns c ?ev = Inr cols" using columns_survive by metis
  have new: "ev_id x \<noteq> ev_id ?ev" if "live ?i x" for x
    using next_not_live[OF inv nx(1), of x] that by (simp add: live_def draft_event_def)
  have inv': "mem_inv (put_staged l ?sl ?i)"
    using mem_inv_author[OF inv, of l cell draft] st by (simp add: author_event_def mint draft_event_def)
  obtain h' s' where p: "push_row (as_i64 (ev_id ?ev)) (Some cols) h ?s = (Inr (), h', s')"
    "agrees c i' (s', hm_insert l h' hs)"
    using push_row_agrees[OF push_author[OF ag' sl h sv cols new inv']] i'(2) by metis
  have "columns c cell (ed_version draft) (ed_value draft) (ed_origin draft) (ed_derivation draft) = Inr cols"
    using cols by (simp add: event_columns_def draft_event_def)
  then have "sq_author_event c cell draft h s = (Inr ?e, h', s')"
    using p(1) by (simp add: sq_author_event_def Let_def nx(2) draft_event_def)
  then show ?thesis using p(2) by (simp add: on_handle_def h(1) i'(1))
qed

lemma calls_adopt:
  assumes ag: "agrees c i (s, hs)" and ok: "caller_ok c i (CAdopt l ev)"
    and call: "mem_call hash (CAdopt l ev) i = (a, i')" "a \<noteq> Refused"
  shows "\<exists>st. sql_call c hash (CAdopt l ev) (s, hs) = (a, st) \<and> agrees c i' st"
proof -
  let ?n = "max (in_next_event i) (ev_id ev)"
  let ?i = "i\<lparr>in_next_event := ?n\<rparr>" and ?s = "s\<lparr>sq_next_event := ?n + 1\<rparr>"
  note inv = agreesD(1)[OF ag]
  have nx: "in_next_event i \<noteq> - 1" "sq_next_event s = in_next_event i + 1"
    using agreesD(3)[OF ag] by (simp_all add: next_agrees_def)
  have l: "ev_authored ev = l" using call by (auto simp: adopt_event_def answered_def split: if_splits)
  obtain sl where st: "staged ?i l = Inr sl"
    using call l by (cases "staged ?i l") (auto simp: adopt_event_def answered_def Let_def)
  then have sl: "hm_get (in_staged ?i) l = Some sl" "\<not> sl_sealed sl" by (simp_all add: staged_Inr)
  let ?sl = "sl\<lparr>sl_members := sl_members sl @ [ev_id ev], sl_authored := sl_authored sl @ [ev]\<rparr>"
  have i': "a = Done" "i' = put_staged l ?sl ?i"
    using call st l by (simp_all add: adopt_event_def answered_def Let_def)
  have "?n \<noteq> - 1" using nx(1) ok by (simp add: max_def)
  then have ag': "agrees c ?i (?s, hs)" by (intro agrees_next[OF ag]) simp_all
  obtain h where h: "hm_get hs l = Some h" "ol_id h = l" "ol_branch h = sl_branch sl"
    "ol_defs h = length (sl_defs sl)" "ol_seq h = length (sl_members sl)" using handle_of[OF ag' sl] .
  have sv: "event_survives c ev" using ok by simp
  then obtain cols where cols: "event_columns c ev = Inr cols" using columns_survive by metis
  have new: "ev_id x \<noteq> ev_id ev" if "live ?i x" for x
    using fresh_not_live[OF inv, of "ev_id ev" x] ok that by (simp add: live_def)
  have inv': "mem_inv (put_staged l ?sl ?i)"
    using mem_inv_adopt[OF inv, of ev l] ok st l by (simp add: adopt_event_def Let_def)
  obtain h' s' where p: "push_row (as_i64 (ev_id ev)) (Some cols) h ?s = (Inr (), h', s')"
    "agrees c i' (s', hm_insert l h' hs)"
    using push_row_agrees[OF push_author[OF ag' sl h sv cols new inv']] i'(2) by metis
  have "max (sq_next_event s) (ev_id ev + 1) = ?n + 1"
    using max_next[OF nx(1), of "ev_id ev"] ok nx(2) by simp
  then have "sq_adopt_event c ev h s = (Inr (), h', s')"
    using p(1) ok l h(2) cols by (simp add: sq_adopt_event_def Let_def event_columns_def)
  then show ?thesis using p(2) by (simp add: on_handle_def h(1) i'(1))
qed

lemma calls_include:
  assumes ag: "agrees c i (s, hs)"
    and call: "mem_call hash (CInclude l e) i = (a, i')" "a \<noteq> Refused"
  shows "\<exists>st. sql_call c hash (CInclude l e) (s, hs) = (a, st) \<and> agrees c i' st"
proof -
  have e: "stored i e \<noteq> None" using call by (auto simp: include_event_def answered_def split: if_splits)
  then obtain sl where st: "staged i l = Inr sl"
    using call by (cases "staged i l") (auto simp: include_event_def answered_def)
  then have sl: "hm_get (in_staged i) l = Some sl" "\<not> sl_sealed sl" by (simp_all add: staged_Inr)
  obtain h where h: "hm_get hs l = Some h" "ol_id h = l" "ol_branch h = sl_branch sl"
    "ol_defs h = length (sl_defs sl)" "ol_seq h = length (sl_members sl)" using handle_of[OF ag sl] .
  have i': "a = Done" "i' = put_staged l (sl\<lparr>sl_members := sl_members sl @ [e]\<rparr>) i"
    using call st e by (auto simp: include_event_def answered_def)
  obtain h' s' where "push_row (as_i64 e) None h s = (Inr (), h', s')" "agrees c i' (s', hm_insert l h' hs)"
    using push_row_agrees[OF push_include[OF ag sl h e]] i'(2) by metis
  then show ?thesis by (simp add: on_handle_def h(1) i'(1) sq_include_event_def)
qed

end
