(* ===== verification/Sqlite_Agreement.thy ===== *)
theory Sqlite_Agreement
  imports Sqlite_Calls
begin

text \<open>
  The rest of the calls (definitions, sealing, aborting, opening, committing, meta, branches,
  interning, rebuilding), and what the relation says of every read.
\<close>

section \<open>What a change leaves alone\<close>

lemma wait_frames:
  assumes "waiting hs' = waiting hs"
  shows "members_agree i t hs' = members_agree i t hs" "events_agree c i t hs' = events_agree c i t hs"
proof -
  have "waits hs' = waits hs" by (simp add: fun_eq_iff waits_def assms)
  then show "members_agree i t hs' = members_agree i t hs" "events_agree c i t hs' = events_agree c i t hs"
    by (simp_all only: members_agree_def events_agree_def assms)
qed

text \<open>Events and membership, where neither they nor the buffers change.\<close>

lemma log_carried:
  assumes ag: "agrees c i (s, hs)" and w: "waiting hs' = waiting hs"
    and u: "tb_members u = tb_members (sq_tables s)" "tb_events u = tb_events (sq_tables s)"
    and j: "contents j = contents i" "authored_in j = authored_in i" "stored j = stored i"
      "in_members j = in_members i"
  shows "members_agree j u hs'" "events_agree c j u hs'" "waiting_ok c j l (waiting hs' l)"
proof -
  note g = agreesD[OF ag]
  have live: "live j = live i" by (rule live_frame) (fact j)+
  show "members_agree j u hs'"
    using g(6) by (simp only: wait_frames(1)[OF w] table_frames(6)[OF u(1)] view_frames(6)[OF j(1)])
  show "events_agree c j u hs'"
    using g(7) by (simp only: wait_frames(2)[OF w] table_frames(7)[OF u(2)] view_frames(9)[OF live j(3,4)])
  show "waiting_ok c j l (waiting hs' l)"
    using g(8) by (simp only: w view_frames(10)[OF j(2,3)])
qed

text \<open>The updates that no view of the log sees.\<close>

lemma meta_views [simp]:
  "contents (i\<lparr>in_layer_meta := m\<rparr>) = contents i" "def_contents (i\<lparr>in_layer_meta := m\<rparr>) = def_contents i"
  "layer_view (i\<lparr>in_layer_meta := m\<rparr>) = layer_view i" "authored_in (i\<lparr>in_layer_meta := m\<rparr>) = authored_in i"
  "stored (i\<lparr>in_layer_meta := m\<rparr>) = stored i"
  by (simp_all add: fun_eq_iff contents_def def_contents_def layer_view_def authored_in_def stored_def
      read_def_layer_def split: option.split)

lemma branch_views [simp]:
  "contents (i\<lparr>in_branches := m\<rparr>) = contents i" "def_contents (i\<lparr>in_branches := m\<rparr>) = def_contents i"
  "layer_view (i\<lparr>in_branches := m\<rparr>) = layer_view i" "authored_in (i\<lparr>in_branches := m\<rparr>) = authored_in i"
  "stored (i\<lparr>in_branches := m\<rparr>) = stored i"
  by (simp_all add: fun_eq_iff contents_def def_contents_def layer_view_def authored_in_def stored_def
      read_def_layer_def split: option.split)

lemma interned_views [simp]:
  "contents (i\<lparr>in_interned := m\<rparr>) = contents i" "def_contents (i\<lparr>in_interned := m\<rparr>) = def_contents i"
  "layer_view (i\<lparr>in_interned := m\<rparr>) = layer_view i" "authored_in (i\<lparr>in_interned := m\<rparr>) = authored_in i"
  "stored (i\<lparr>in_interned := m\<rparr>) = stored i"
  by (simp_all add: fun_eq_iff contents_def def_contents_def layer_view_def authored_in_def stored_def
      read_def_layer_def split: option.split)

lemma index_views [simp]:
  "contents (i\<lparr>in_reads := m\<rparr>) = contents i" "def_contents (i\<lparr>in_reads := m\<rparr>) = def_contents i"
  "layer_view (i\<lparr>in_reads := m\<rparr>) = layer_view i" "authored_in (i\<lparr>in_reads := m\<rparr>) = authored_in i"
  "stored (i\<lparr>in_reads := m\<rparr>) = stored i"
  by (simp_all add: fun_eq_iff contents_def def_contents_def layer_view_def authored_in_def stored_def
      read_def_layer_def split: option.split)

section \<open>Definitions\<close>

lemma calls_put_def:
  assumes ag: "agrees c i (s, hs)" and ok: "caller_ok c i (CPutDef l d)"
    and call: "mem_call hash (CPutDef l d) i = (a, i')" "a \<noteq> Refused"
  shows "\<exists>st. sql_call c hash (CPutDef l d) (s, hs) = (a, st) \<and> agrees c i' st"
proof -
  obtain sl where st: "staged i l = Inr sl"
    using call by (cases "staged i l") (auto simp: mem_put_def_def answered_def)
  then have sl: "hm_get (in_staged i) l = Some sl" "\<not> sl_sealed sl" by (simp_all add: staged_Inr)
  let ?sl = "sl\<lparr>sl_defs := sl_defs sl @ [d]\<rparr>" and ?t = "sq_tables s"
  obtain h where h: "hm_get hs l = Some h" "ol_id h = l" "ol_branch h = sl_branch sl"
    "ol_defs h = length (sl_defs sl)" "ol_seq h = length (sl_members sl)" using handle_of[OF ag sl] .
  have i': "a = Done" "i' = put_staged l ?sl i" using call st by (simp_all add: mem_put_def_def answered_def)
  note g = agreesD[OF ag] and v = staged_views[OF agreesD(1)[OF ag] sl(1)]
  obtain raw where raw: "encode_text (co_def c) d = Inr raw" using ok by (auto elim: survivesD)
  have defs: "map Inr (layer_rows (as_i64 k) (tb_defs ?t)) = map (encode_text (co_def c)) (def_contents i k)"
    "\<forall>d \<in> set (def_contents i k). survives (co_def c) d"
    "\<forall>q. map_of (tb_defs ?t) (as_i64 k, q) \<noteq> None \<longrightarrow> q < int (length (def_contents i k))" for k
    using g(9) unfolding defs_agree_def by blast+
  have free: "map_of (tb_defs ?t) (as_i64 l, int (ol_defs h)) = None"
    using defs(3)[of l] h(4) v(3) by (metis less_irrefl)
  let ?defs = "bt_insert (as_i64 l, int (ol_defs h)) raw (tb_defs ?t)"
  let ?u = "?t\<lparr>tb_defs := ?defs\<rparr>" and ?h = "h\<lparr>ol_defs := Suc (ol_defs h)\<rparr>"
  have rows: "layer_rows (as_i64 k) ?defs =
      (if k = l then layer_rows (as_i64 l) (tb_defs ?t) @ [raw] else layer_rows (as_i64 k) (tb_defs ?t))" for k
    using layer_rows_append[OF tables_okD(5)[OF g(2)], of "as_i64 l" "int (ol_defs h)" raw] defs(3)[of l] h(4) v(3)
      layer_rows_other[of "as_i64 k" "as_i64 l"] by auto
  have views: "contents i' = contents i" "layer_view i' = layer_view i" "authored_in i' = authored_in i"
    "stored i' = stored i" "in_members i' = in_members i" "in_layer_meta i' = in_layer_meta i"
    "in_branches i' = in_branches i" "in_interned i' = in_interned i" "in_next_event i' = in_next_event i"
    using v by (simp_all add: i'(2) put_simps fun_eq_iff)
  have "tables_ok ?u"
    using tables_okD[OF g(2)] by (intro tables_ok_other[OF g(2)]) auto
  moreover have "mem_inv i'" using mem_inv_put_def[OF g(1), of l d] st by (simp add: mem_put_def_def i'(2))
  moreover have "handles_agree i' (hm_insert l ?h hs)"
  proof -
    have "handle_agrees l (Some ?sl) (Some ?h)" unfolding handle_agrees_def using h sl(2) by simp
    then show ?thesis using g(5) by (simp add: handles_agree_def i'(2) put_staged_def)
  qed
  moreover have waiting: "waiting (hm_insert l ?h hs) = waiting hs"
    using h(1) by (simp add: fun_eq_iff waiting_def)
  moreover have "defs_agree c i' ?u"
    unfolding defs_agree_def
  proof (rule allI)
    fix k
    show "map Inr (layer_rows (as_i64 k) (tb_defs ?u)) = map (encode_text (co_def c)) (def_contents i' k) \<and>
      (\<forall>d \<in> set (def_contents i' k). survives (co_def c) d) \<and>
      (\<forall>q. map_of (tb_defs ?u) (as_i64 k, q) \<noteq> None \<longrightarrow> q < int (length (def_contents i' k)))"
    proof (cases "k = l")
      case True
      then show ?thesis using defs[of l] raw ok h(4) v(1,3) rows[of l] by (auto simp: i'(2) put_simps)
    next
      case False
      then show ?thesis using defs[of k] v(1) by (simp add: i'(2) put_simps rows)
    qed
  qed
  moreover have "next_agrees i' (s\<lparr>sq_tables := ?u\<rparr>)" using g(3) views(9) by (simp add: next_agrees_def)
  moreover have "layers_agree i' ?u" "meta_agrees c i' ?u" "branches_agree c i' ?u" "interned_agree i' ?u"
    using g(4,10,11,12) view_frames(1,2,4,5)[where j = i' and i = i] views table_frames(1,2,4,5)[where u = ?u and t = ?t]
    by simp_all
  ultimately have "agrees c i' (s\<lparr>sq_tables := ?u\<rparr>, hm_insert l ?h hs)"
    using log_carried[OF ag waiting, of ?u i'] views by (simp add: agrees_def Let_def del: waiting_simps)
  then show ?thesis
    using free by (simp add: on_handle_def h(1,2) i'(1) sq_put_def_def raw insert_row_Inr)
qed

section \<open>The state of a layer\<close>

lemma layers_put:
  assumes "layers_agree i t" "small_id l"
    and "\<And>k. layer_view j k = (if k = l then Some (lr_branch row, lr_state row) else layer_view i k)"
  shows "layers_agree j (t\<lparr>tb_layers := bt_insert (as_i64 l) row (tb_layers t)\<rparr>)"
  using assms by (auto simp: layers_agree_def)

lemma meta_put:
  assumes "meta_agrees c i t" "told (co_layer c) (hm_get (in_layer_meta j) l) (lr_meta row)"
    and "\<And>k. k \<noteq> l \<Longrightarrow> hm_get (in_layer_meta j) k = hm_get (in_layer_meta i) k"
    and "\<And>k. layer_view j k = (if k = l then Some (lr_branch row, lr_state row) else layer_view i k)"
  shows "meta_agrees c j (t\<lparr>tb_layers := bt_insert (as_i64 l) row (tb_layers t)\<rparr>)"
  using assms by (auto simp: meta_agrees_def)

lemma layer_row:
  assumes "agrees c i (s, hs)" "layer_view i l = Some (b, state)"
  obtains row where "map_of (tb_layers (sq_tables s)) (as_i64 l) = Some row" "lr_branch row = b" "lr_state row = state"
    "small_id l" "told (co_layer c) (hm_get (in_layer_meta i) l) (lr_meta row)"
proof -
  have v: "map_option (\<lambda>r. (lr_branch r, lr_state r)) (map_of (tb_layers (sq_tables s)) (as_i64 l)) = layer_view i l"
    "layer_view i l \<noteq> None \<longrightarrow> small_id l"
    using agreesD(4)[OF assms(1)] unfolding layers_agree_def by blast+
  then obtain row where row: "map_of (tb_layers (sq_tables s)) (as_i64 l) = Some row" "lr_branch row = b" "lr_state row = state"
    using assms(2) by auto
  moreover have "told (co_layer c) (hm_get (in_layer_meta i) l) (lr_meta row)"
    using agreesD(12)[OF assms(1)] row(1) unfolding meta_agrees_def by blast
  ultimately show ?thesis using that v(2) assms(2) by simp
qed

text \<open>A layer whose row takes a new state, while the log stays.\<close>

lemma state_carried:
  assumes ag: "agrees c i (s, hs)" and w: "waiting hs' = waiting hs"
    and row: "map_of (tb_layers (sq_tables s)) (as_i64 l) = None \<or>
        map_option lr_branch (map_of (tb_layers (sq_tables s)) (as_i64 l)) = Some (lr_branch row)"
      "told (co_layer c) (hm_get (in_layer_meta j) l) (lr_meta row)" "small_id l"
    and view: "\<And>k. layer_view j k = (if k = l then Some (lr_branch row, lr_state row) else layer_view i k)"
    and j: "contents j = contents i" "def_contents j = def_contents i" "authored_in j = authored_in i"
      "stored j = stored i" "in_members j = in_members i" "in_branches j = in_branches i"
      "in_interned j = in_interned i" "in_next_event j = in_next_event i"
      "\<And>k. k \<noteq> l \<Longrightarrow> hm_get (in_layer_meta j) k = hm_get (in_layer_meta i) k"
    and inv: "mem_inv j" and hs': "handles_agree j hs'"
  shows "agrees c j (s\<lparr>sq_tables := (sq_tables s)\<lparr>tb_layers := bt_insert (as_i64 l) row (tb_layers (sq_tables s))\<rparr>\<rparr>, hs')"
proof -
  let ?t = "sq_tables s"
  let ?u = "?t\<lparr>tb_layers := bt_insert (as_i64 l) row (tb_layers ?t)\<rparr>"
  note g = agreesD[OF ag]
  have "tables_ok ?u" by (rule tables_ok_layer[OF g(2) row(1)])
  moreover have "defs_agree c j ?u" "branches_agree c j ?u" "interned_agree j ?u"
    using g(9,10,11) view_frames(3,4,5)[where j = j and i = i] j table_frames(3,4,5)[where u = ?u and t = ?t]
    by simp_all
  moreover have "next_agrees j (s\<lparr>sq_tables := ?u\<rparr>)" using g(3) j(8) by (simp add: next_agrees_def)
  ultimately show ?thesis
    using inv hs' layers_put[OF g(4) row(3) view] meta_put[OF g(12) row(2) j(9) view]
      log_carried[OF ag w, of ?u j] j by (simp add: agrees_def Let_def)
qed

lemma calls_seal:
  assumes ag: "agrees c i (s, hs)" and ok: "caller_ok c i (CSeal l)"
    and call: "mem_call hash (CSeal l) i = (a, i')" "a \<noteq> Refused"
  shows "\<exists>st. sql_call c hash (CSeal l) (s, hs) = (a, st) \<and> agrees c i' st"
proof -
  obtain sl where sl: "hm_get (in_staged i) l = Some sl" "\<not> sl_sealed sl"
    using ok by (auto simp: handle_held_def split: option.splits)
  obtain h where h: "hm_get hs l = Some h" "ol_id h = l" using handle_of[OF ag sl] by metis
  let ?sl = "sl\<lparr>sl_sealed := True\<rparr>" and ?hs = "hm_insert l (h\<lparr>ol_pending := []\<rparr>) hs"
  have i': "a = Done" "i' = put_staged l ?sl i" using call sl by (simp_all add: mem_seal_def answered_def)
  obtain s1 where s1: "flush h s = (Inr (), h\<lparr>ol_pending := []\<rparr>, s1)" "agrees c i (s1, ?hs)"
    using flush_agrees[OF ag h(1)] by metis
  note v = staged_views[OF agreesD(1)[OF ag] sl(1)]
  have v4: "layer_view i l = Some (as_i64 (sl_branch sl), row_open)" using v(4) sl(2) by simp
  obtain row where row: "map_of (tb_layers (sq_tables s1)) (as_i64 l) = Some row" "lr_branch row = as_i64 (sl_branch sl)"
    "lr_state row = row_open" "small_id l" "told (co_layer c) (hm_get (in_layer_meta i) l) (lr_meta row)"
    using layer_row[OF s1(2)] v4 by metis
  let ?row = "row\<lparr>lr_state := row_sealed\<rparr>"
  have w: "waiting (hm_remove l hs) = waiting ?hs" by (simp add: fun_eq_iff)
  have inv: "mem_inv i'" using mem_inv_seal[OF agreesD(1)[OF ag], of l] sl(1) by (simp add: mem_seal_def i'(2))
  have "handles_agree i' (hm_remove l hs)"
    using agreesD(5)[OF ag] by (simp add: handles_agree_def i'(2) put_simps handle_agrees_def)
  then have "agrees c i' (s1\<lparr>sq_tables := (sq_tables s1)\<lparr>tb_layers := bt_insert (as_i64 l) ?row (tb_layers (sq_tables s1))\<rparr>\<rparr>,
      hm_remove l hs)"
    by (intro state_carried[OF s1(2) w _ _ row(4)] inv)
       (use row v in \<open>simp_all add: i'(2) put_simps fun_eq_iff\<close>)
  then show ?thesis
    by (simp add: end_handle_def h i'(1) sq_seal_def s1(1) update_state_def row(1,3))
qed

lemma calls_open:
  assumes ag: "agrees c i (s, hs)" and ok: "caller_ok c i (COpen b l)"
    and call: "mem_call hash (COpen b l) i = (a, i')" "a \<noteq> Refused"
  shows "\<exists>st. sql_call c hash (COpen b l) (s, hs) = (a, st) \<and> agrees c i' st"
proof -
  note g = agreesD[OF ag]
  have none: "hm_get (in_staged i) l = None" "hm_get (in_members i) l = None"
    using call by (auto simp: open_layer_def answered_def split: if_splits)
  let ?sl = "\<lparr>sl_branch = b, sl_members = [], sl_authored = [], sl_defs = [], sl_sealed = False\<rparr>"
  let ?h = "\<lparr>ol_id = l, ol_branch = b, ol_defs = 0, ol_seq = 0, ol_pending = []\<rparr>"
  let ?row = "\<lparr>lr_branch = as_i64 b, lr_state = row_open, lr_meta = None\<rparr>"
  have i': "a = Done" "i' = put_staged l ?sl i" using call none by (simp_all add: open_layer_def answered_def)
  have v: "contents i l = []" "def_contents i l = []" "layer_view i l = None" "authored_in i l = []"
    using none by (simp_all add: contents_def def_contents_def layer_view_def authored_in_def)
  have free: "map_of (tb_layers (sq_tables s)) (as_i64 l) = None"
    using g(4) v(3) unfolding layers_agree_def by (metis map_option_is_None)
  have meta: "hm_get (in_layer_meta i) l = None"
    using g(12) v(3) unfolding meta_agrees_def by blast
  have "handle_agrees l None (hm_get hs l)" using g(5) none(1) by (metis handles_agree_def)
  then have handle: "hm_get hs l = None" by (simp add: handle_agrees_def split: option.splits)
  then have w: "waiting (hm_insert l ?h hs) = waiting hs" by (simp add: fun_eq_iff waiting_def)
  have inv: "mem_inv i'" using mem_inv_open[OF g(1), of b l] none by (simp add: open_layer_def i'(2))
  have "handles_agree i' (hm_insert l ?h hs)"
    using g(5) by (simp add: handles_agree_def i'(2) put_simps handle_agrees_def)
  then have "agrees c i' (s\<lparr>sq_tables := (sq_tables s)\<lparr>tb_layers := bt_insert (as_i64 l) ?row (tb_layers (sq_tables s))\<rparr>\<rparr>,
      hm_insert l ?h hs)"
    by (intro state_carried[OF ag w] inv) (use ok v none free meta in \<open>simp_all add: i'(2) put_simps fun_eq_iff\<close>)
  then show ?thesis by (simp add: sq_open_layer_def insert_row_Inr free i'(1))
qed

lemma calls_meta:
  assumes ag: "agrees c i (s, hs)" and ok: "caller_ok c i (CMeta layer)"
    and call: "mem_call hash (CMeta layer) i = (a, i')"
  shows "\<exists>st. sql_call c hash (CMeta layer) (s, hs) = (a, st) \<and> agrees c i' st"
proof -
  let ?l = "ly_id layer"
  note g = agreesD[OF ag]
  have i': "a = Done" "i' = put_layer_meta layer i" using call by simp_all
  obtain raw where raw: "encode_text (co_layer c) layer = Inr raw" "decode_text (co_layer c) raw = Inr layer"
    using ok by (auto elim: survivesD)
  have "layer_view i ?l \<noteq> None" using ok by (auto simp: layer_view_def split: option.splits)
  then obtain b state where view: "layer_view i ?l = Some (b, state)" by auto
  obtain row where row: "map_of (tb_layers (sq_tables s)) (as_i64 ?l) = Some row" "lr_branch row = b"
    "lr_state row = state" "small_id ?l" using layer_row[OF ag view] by metis
  let ?row = "row\<lparr>lr_meta := Some raw\<rparr>"
  have inv: "mem_inv i'"
    using mem_step.Meta[of _ i layer] mem_inv_step g(1) i'(2) by blast
  have hs: "handles_agree i' hs" using g(5) by (simp add: handles_agree_def i'(2) put_layer_meta_def)
  have "agrees c i' (s\<lparr>sq_tables := (sq_tables s)\<lparr>tb_layers := bt_insert (as_i64 ?l) ?row (tb_layers (sq_tables s))\<rparr>\<rparr>, hs)"
    by (intro state_carried[OF ag refl _ _ row(4)] inv hs)
       (use row raw view in \<open>simp_all add: i'(2) put_layer_meta_def\<close>)
  then show ?thesis by (simp add: on_store_def sq_put_layer_meta_def raw(1) row(1) Let_def i'(1))
qed

section \<open>Tables beside the log\<close>

lemma beside_carried:
  assumes ag: "agrees c i (s, hs)"
    and u: "tb_layers u = tb_layers (sq_tables s)" "tb_members u = tb_members (sq_tables s)"
      "tb_events u = tb_events (sq_tables s)" "tb_defs u = tb_defs (sq_tables s)" "tb_index u = tb_index (sq_tables s)"
      "bt_ok (tb_branches u)" "bt_ok (tb_interned u)"
    and j: "contents j = contents i" "def_contents j = def_contents i" "layer_view j = layer_view i"
      "authored_in j = authored_in i" "stored j = stored i" "in_members j = in_members i"
      "in_staged j = in_staged i" "in_layer_meta j = in_layer_meta i" "in_next_event j = in_next_event i"
    and new: "branches_agree c j u" "interned_agree j u" and inv: "mem_inv j"
  shows "agrees c j (s\<lparr>sq_tables := u\<rparr>, hs)"
proof -
  note g = agreesD[OF ag]
  have "bt_ok (tb_defs u)" using tables_okD(5)[OF g(2)] u(4) by simp
  then have "tables_ok u" using u by (intro tables_ok_other[OF g(2)]) simp_all
  moreover have "layers_agree j u" using g(4) by (simp only: view_frames(1)[OF j(3)] table_frames(1)[OF u(1)])
  moreover have "meta_agrees c j u"
    using g(12) by (simp only: view_frames(2)[OF j(3,8)] table_frames(2)[OF u(1)])
  moreover have "defs_agree c j u" using g(9) by (simp only: view_frames(3)[OF j(2)] table_frames(3)[OF u(4)])
  moreover have "handles_agree j hs" using g(5) by (simp only: view_frames(8)[OF j(7)])
  moreover have "next_agrees j (s\<lparr>sq_tables := u\<rparr>)" using g(3) j(9) by (simp add: next_agrees_def)
  ultimately show ?thesis
    using new inv log_carried[OF ag refl u(2,3) j(1,4,5,6)] by (simp add: agrees_def Let_def)
qed

lemma calls_branch:
  assumes ag: "agrees c i (s, hs)" and ok: "caller_ok c i (CBranch b)"
    and call: "mem_call hash (CBranch b) i = (a, i')"
  shows "\<exists>st. sql_call c hash (CBranch b) (s, hs) = (a, st) \<and> agrees c i' st"
proof -
  note g = agreesD[OF ag] and o = tables_okD[OF agreesD(2)[OF ag]]
  have i': "a = Done" "i' = put_branch b i" using call by simp_all
  obtain raw where raw: "encode_text (co_branch c) b = Inr raw" "decode_text (co_branch c) raw = Inr b"
    using ok by (auto elim: survivesD)
  let ?u = "(sq_tables s)\<lparr>tb_branches := bt_insert (as_i64 (br_id b)) raw (tb_branches (sq_tables s))\<rparr>"
  have inv: "mem_inv i'" using mem_step.Branch[of _ i b] mem_inv_step g(1) i'(2) by blast
  have "branches_agree c i' ?u"
    using g(10) raw(2) by (auto simp: branches_agree_def i'(2) put_branch_def)
  moreover have "interned_agree i' ?u" using g(11) by (simp add: interned_agree_def i'(2) put_branch_def)
  ultimately have "agrees c i' (s\<lparr>sq_tables := ?u\<rparr>, hs)"
    by (intro beside_carried[OF ag] inv)
       (use o in \<open>auto simp: i'(2) put_branch_def\<close>)
  then show ?thesis by (simp add: on_store_def sq_put_branch_def raw(1) i'(1))
qed

lemma calls_intern:
  assumes ag: "agrees c i (s, hs)"
    and call: "mem_call hash (CIntern kind bytes) i = (a, i')" "a \<noteq> Refused"
  shows "\<exists>st. sql_call c hash (CIntern kind bytes) (s, hs) = (a, st) \<and> agrees c i' st"
proof -
  note g = agreesD[OF ag] and o = tables_okD[OF agreesD(2)[OF ag]]
  have kind: "is_content_addressed kind"
    using call by (auto simp: intern_def answered_def content_result_def content_pid_def split: if_splits)
  let ?p = "Content kind (hash bytes)" and ?k = "(int (kind_code kind), hash bytes)"
  have i': "a = Interned ?p" "i' = (if hm_get (in_interned i) ?p = None
      then i\<lparr>in_interned := hm_insert ?p bytes (in_interned i)\<rparr> else i)"
    using call kind by (auto simp: intern_def answered_def content_result_def content_pid_def)
  have row: "map_of (tb_interned (sq_tables s)) ?k = hm_get (in_interned i) ?p"
    using g(11) by (simp add: interned_agree_def)
  have pid: "hash_result (content_pid hash kind bytes) = Inr ?p" "hash_result (Inr (hash bytes)) = Inr (hash bytes)"
    using kind by (simp_all add: hash_result_def content_pid_def)
  show ?thesis
  proof (cases "hm_get (in_interned i) ?p = None")
    case False
    then show ?thesis using ag i' row by (auto simp: on_store_def sq_intern_def pid insert_row_def)
  next
    case True
    let ?u = "(sq_tables s)\<lparr>tb_interned := bt_insert ?k bytes (tb_interned (sq_tables s))\<rparr>"
    have j: "i' = i\<lparr>in_interned := hm_insert ?p bytes (in_interned i)\<rparr>" using True i'(2) by simp
    have "mem_step hash i (snd (intern hash kind bytes i))" by (rule mem_step.Intern)
    moreover have "snd (intern hash kind bytes i) = i'" using call by (simp add: answered_def)
    ultimately have inv: "mem_inv i'" using mem_inv_step g(1) by metis
    have "interned_agree i' ?u" using g(11) by (auto simp: interned_agree_def j)
    moreover have "branches_agree c i' ?u" using g(10) by (simp add: branches_agree_def j)
    ultimately have "agrees c i' (s\<lparr>sq_tables := ?u\<rparr>, hs)"
      by (intro beside_carried[OF ag] inv)
         (use o in \<open>auto simp: j\<close>)
    then show ?thesis using True i' row by (simp add: on_store_def sq_intern_def pid insert_row_Inr)
  qed
qed

lemma calls_rebuild:
  assumes ag: "agrees c i (s, hs)" and call: "mem_call hash CRebuild i = (a, i')"
  shows "\<exists>st. sql_call c hash CRebuild (s, hs) = (a, st) \<and> agrees c i' st"
proof -
  note g = agreesD[OF ag] and o = tables_okD[OF agreesD(2)[OF ag]]
  obtain reads where r: "rebuild_read_index i = (Inr (), i\<lparr>in_reads := reads\<rparr>)" using rebuild_ok[OF g(1)] by metis
  then have i': "a = Done" "i' = i\<lparr>in_reads := reads\<rparr>" using call by (simp_all add: answered_def)
  have inv: "mem_inv i'" using mem_inv_rebuild[OF g(1)] r i'(2) by simp
  have "branches_agree c i' (sq_tables s)" "interned_agree i' (sq_tables s)"
    using g(10,11) by (simp_all add: branches_agree_def interned_agree_def i'(2))
  then have "agrees c i' (s\<lparr>sq_tables := sq_tables s\<rparr>, hs)"
    by (intro beside_carried[OF ag] inv)
       (use o in \<open>auto simp: i'(2)\<close>)
  then show ?thesis by (simp add: on_store_def rebuild_same[OF g(2)] i'(1))
qed

end
