(* ===== verification/Sqlite_Properties.thy ===== *)
theory Sqlite_Properties
  imports Sqlite_Agreement Mem_Properties
begin

text \<open>
  The two calls that end a layer, and the properties of the SQLite provider: it accepts what the
  provider in memory accepts and answers the same, its reads are those of memory, and its index can
  be rebuilt at any time without a trace.
\<close>

section \<open>Committing\<close>

lemma calls_commit:
  assumes ag: "agrees c i (s, hs)" and call: "mem_call hash (CCommit l) i = (a, i')" "a \<noteq> Refused"
  shows "\<exists>st. sql_call c hash (CCommit l) (s, hs) = (a, st) \<and> agrees c i' st"
proof -
  note g = agreesD[OF ag]
  obtain sl where sl: "hm_get (in_staged i) l = Some sl" "sl_sealed sl"
    using call by (auto simp: commit_layer_def answered_def Let_def split: option.splits if_splits)
  note v = staged_views[OF g(1) sl(1)] and ok = mem_invD(5)[OF g(1) sl(1)]
  obtain events reads where c: "commit_layer l i = (Inr (), committed_state i l sl events reads)"
    and at: "\<And>e. event_at events e =
       (case by_id (sl_authored sl) e of Some ev \<Rightarrow> Some ev | None \<Rightarrow> event_at (in_events i) e)"
    using commit_cases[OF g(1) sl] by metis
  have i': "a = Done" "i' = committed_state i l sl events reads" using call c by (simp_all add: answered_def)
  have stored': "stored i' e = (case by_id (sl_authored sl) e of Some ev \<Rightarrow> Some ev | None \<Rightarrow> stored i e)" for e
    by (simp add: i'(2) at stored_def cong: option.case_cong)
  have own: "by_id (sl_authored sl) (ev_id ev) = Some ev \<longleftrightarrow> ev \<in> set (sl_authored sl)" for ev
    using ok by (auto simp: staged_ok_def by_id_def dest: map_of_SomeD intro!: map_of_is_SomeI)
      (simp add: comp_def)
  have auth: "authored_in i' k = (if k = l then [] else authored_in i k)" for k
    by (simp add: i'(2) authored_in_def)
  have live: "live i' = live i"
  proof
    fix ev
    have "stored i' (ev_id ev) = Some ev \<longleftrightarrow> ev \<in> set (sl_authored sl) \<or> stored i (ev_id ev) = Some ev"
      using own[of ev] by_id_staged[OF ok, of "ev_id ev"]
      by (auto simp: stored' split: option.splits)
    moreover have "(\<exists>k. ev \<in> set (authored_in i' k)) \<longleftrightarrow> (\<exists>k. k \<noteq> l \<and> ev \<in> set (authored_in i k))"
      by (auto simp: auth split: if_splits)
    moreover have "(\<exists>k. ev \<in> set (authored_in i k)) \<longleftrightarrow>
        ev \<in> set (sl_authored sl) \<or> (\<exists>k. k \<noteq> l \<and> ev \<in> set (authored_in i k))" using v(5) by metis
    ultimately show "live i' ev = live i ev" unfolding live_def by blast
  qed
  have handle: "hm_get hs l = None"
  proof -
    have "handle_agrees l (Some sl) (hm_get hs l)" using g(5) sl(1) by (metis handles_agree_def)
    then show ?thesis using sl(2) by (auto simp: handle_agrees_def split: option.splits)
  qed
  have v4: "layer_view i l = Some (as_i64 (sl_branch sl), row_sealed)" using v(4) sl(2) by simp
  obtain row where row: "map_of (tb_layers (sq_tables s)) (as_i64 l) = Some row" "lr_branch row = as_i64 (sl_branch sl)"
    "lr_state row = row_sealed" "small_id l" "told (co_layer c) (hm_get (in_layer_meta i) l) (lr_meta row)"
    using layer_row[OF ag v4] by metis
  let ?row = "row\<lparr>lr_state := row_committed\<rparr>"
  let ?u = "(sq_tables s)\<lparr>tb_layers := bt_insert (as_i64 l) ?row (tb_layers (sq_tables s))\<rparr>"
  have view: "layer_view i' k = (if k = l then Some (lr_branch ?row, lr_state ?row) else layer_view i k)" for k
    by (simp add: i'(2) layer_view_def row(2) split: option.split)
  have conts: "contents i' = contents i" "def_contents i' = def_contents i"
    using v by (auto simp: fun_eq_iff i'(2) contents_def def_contents_def read_def_layer_def split: option.split)
  have "tables_ok ?u" using row by (intro tables_ok_layer[OF g(2)]) simp
  moreover have "mem_inv i'" using mem_inv_commit[OF g(1), of l] by (simp add: c i'(2))
  moreover have "layers_agree i' ?u" by (rule layers_put[OF g(4) row(4) view])
  moreover have "meta_agrees c i' ?u" using row(5) by (intro meta_put[OF g(12) _ _ view]) (simp_all add: i'(2))
  moreover have "handles_agree i' hs"
    using g(5) handle by (simp add: handles_agree_def i'(2) handle_agrees_def)
  moreover have "members_agree i' ?u hs"
    using g(6) by (simp add: members_agree_def conts(1))
  moreover have "events_agree c i' ?u hs"
    unfolding events_agree_def live
  proof (intro conjI allI impI)
    fix e ev assume "stored i' e = Some ev"
    then consider "stored i e = Some ev" | "ev \<in> set (sl_authored sl)"
      by (auto simp: stored' dest: by_id_Some split: option.splits)
    then show "hm_get (in_members i') (ev_authored ev) \<noteq> None"
    proof cases
      case 1
      then have "hm_get (in_members i) (ev_authored ev) \<noteq> None" using g(7) unfolding events_agree_def by blast
      then show ?thesis by (simp add: i'(2))
    next
      case 2
      then show ?thesis using ok by (simp add: i'(2) staged_ok_def)
    qed
  qed (use g(7) in \<open>simp_all add: events_agree_def\<close>)
  moreover have "waiting_ok c i' k (waiting hs k)" for k
  proof (cases "k = l")
    case True
    then show ?thesis using handle by (simp add: waiting_def waiting_ok_def)
  next
    case False
    have kept: "stored i' e \<noteq> None" if "stored i e \<noteq> None" for e
      using that by (auto simp: stored' split: option.split)
    show ?thesis
      unfolding waiting_ok_def
    proof (intro conjI ballI)
      fix p assume p: "p \<in> set (waiting hs k)"
      show "case pd_authored p of
          None \<Rightarrow> \<exists>e. pd_event p = as_i64 e \<and> stored i' e \<noteq> None
        | Some cols \<Rightarrow> \<exists>ev \<in> set (authored_in i' k). pd_event p = as_i64 (ev_id ev) \<and> event_columns c ev = Inr cols"
        using waiting_okD[OF g(8)[of k] p] kept False by (cases "pd_authored p") (auto simp: auth)
    qed (use g(8)[of k] in \<open>simp only: waiting_ok_def\<close>)
  qed
  moreover have "defs_agree c i' ?u" using g(9) by (simp add: defs_agree_def conts(2))
  moreover have "branches_agree c i' ?u" "interned_agree i' ?u"
    using g(10,11) by (simp_all add: branches_agree_def interned_agree_def i'(2))
  moreover have "next_agrees i' (s\<lparr>sq_tables := ?u\<rparr>)" using g(3) by (simp add: next_agrees_def i'(2))
  ultimately have "agrees c i' (s\<lparr>sq_tables := ?u\<rparr>, hs)" by (simp add: agrees_def Let_def)
  then show ?thesis
    by (simp add: on_store_def sq_commit_layer_def update_state_def row(1,3) i'(1))
qed

section \<open>Aborting\<close>

text \<open>No other layer names an event of an open layer, so its rows can go.\<close>

lemma rows_apart:
  assumes ag: "agrees c i (s, hs)" and sl: "hm_get (in_staged i) l = Some sl"
    and m: "map_of (tb_members (sq_tables s)) (k, q) = Some n" "k \<noteq> as_i64 l"
    and row: "map_of (tb_events (sq_tables s)) n = Some row"
  shows "er_authored row \<noteq> as_i64 l"
proof -
  note g = agreesD[OF ag] and o = tables_okD[OF agreesD(2)[OF ag]]
  have none: "hm_get (in_members i) l = None" using staged_views(1)[OF g(1) sl] .
  have "map_of (tb_layers (sq_tables s)) k \<noteq> None" using o(8) m(1) unfolding rows_named_def by blast
  then obtain k' where k: "k = as_i64 k'" using g(4) unfolding layers_agree_def by blast
  have "n \<in> set (layer_rows k (tb_members (sq_tables s)))" using m(1) by (auto simp: layer_rows_set[OF o(3)])
  moreover have "layer_rows k (tb_members (sq_tables s)) @ map pd_event (waiting hs k') = map as_i64 (contents i k')"
    using g(6) k unfolding members_agree_def by blast
  ultimately obtain e where e: "n = as_i64 e" "e \<in> set (contents i k')"
    by (metis UnI1 imageE set_append set_map)
  have "\<exists>ev. live i ev \<and> ev_id ev = e \<and> ev_authored ev \<noteq> l"
  proof (cases "stored i e")
    case (Some ev)
    then have "hm_get (in_members i) (ev_authored ev) \<noteq> None" using g(7) unfolding events_agree_def by blast
    then show ?thesis using none stored_live[OF g(1) Some] by auto
  next
    case None
    then have "hm_get (in_members i) k' = None"
    proof (cases "hm_get (in_members i) k'")
      case (Some m)
      then have "\<forall>x \<in> set (mb_events m). stored i x \<noteq> None"
        using mem_invD(3)[OF g(1)] unfolding members_ok_def by blast
      then show ?thesis using e(2) None Some by (auto simp: contents_def)
    qed
    then obtain sk where sk: "hm_get (in_staged i) k' = Some sk" "e \<in> set (sl_members sk)"
      using e(2) by (cases "hm_get (in_staged i) k'") (auto simp: contents_def)
    then obtain ev where "ev \<in> set (sl_authored sk)" "ev_id ev = e"
      using mem_invD(5)[OF g(1) sk(1)] None by (auto simp: staged_ok_def staged_ids_def)
    then have "ev \<in> set (authored_in i k')" "ev_id ev = e" using sk(1) by (simp_all add: authored_in_def)
    moreover have "k' \<noteq> l" using m(2) k by auto
    ultimately show ?thesis using authored_inD(2,5)[OF g(1)] by metis
  qed
  then obtain ev where ev: "live i ev" "ev_id ev = e" "ev_authored ev \<noteq> l" by blast
  then have "event_survives c ev" "row_of c ev = Some row"
    using g(7) row e(1) unfolding events_agree_def by (auto split: if_splits)
  then show ?thesis using ev(3) row_of_survives[of c ev] by (metis as_i64_inject option.inject)
qed

lemma calls_abort:
  assumes ag: "agrees c i (s, hs)" and ok: "caller_ok c i (CAbort l)"
    and call: "mem_call hash (CAbort l) i = (a, i')"
  shows "\<exists>st. sql_call c hash (CAbort l) (s, hs) = (a, st) \<and> agrees c i' st"
proof -
  note g = agreesD[OF ag]
  let ?t = "sq_tables s" and ?hs = "hm_remove l hs"
  let ?u = "without_layer (as_i64 l) ?t"
  obtain sl where sl: "hm_get (in_staged i) l = Some sl" "\<not> sl_sealed sl"
    and meta: "hm_get (in_layer_meta i) l = None"
    using ok by (auto simp: handle_held_def split: option.splits)
  obtain h where h: "hm_get hs l = Some h" "ol_id h = l" using handle_of[OF ag sl] by metis
  note v = staged_views[OF g(1) sl(1)] and w = without_layer_gets[OF g(2)]
  have i': "a = Done" "i' = i\<lparr>in_staged := hm_remove l (in_staged i)\<rparr>"
    using call by (simp_all add: mem_abort_def answered_def)
  have views: "contents i' k = (if k = l then [] else contents i k)"
    "def_contents i' k = (if k = l then [] else def_contents i k)"
    "layer_view i' k = (if k = l then None else layer_view i k)"
    "authored_in i' k = (if k = l then [] else authored_in i k)" "stored i' = stored i" for k
    using v(1) by (simp_all add: fun_eq_iff i'(2) contents_def def_contents_def layer_view_def authored_in_def
        stored_def read_def_layer_def split: option.split)
  have live: "live i' ev \<longleftrightarrow> live i ev \<and> ev \<notin> set (authored_in i l)" for ev
  proof -
    have "(\<exists>k. ev \<in> set (authored_in i' k)) \<longleftrightarrow> (\<exists>k. k \<noteq> l \<and> ev \<in> set (authored_in i k))"
      by (auto simp: views split: if_splits)
    moreover have "ev \<in> set (authored_in i l) \<longrightarrow> stored i (ev_id ev) \<noteq> Some ev"
      using authored_inD(1)[OF g(1)] by fastforce
    moreover have "\<forall>k. k \<noteq> l \<longrightarrow> ev \<in> set (authored_in i k) \<longrightarrow> ev \<notin> set (authored_in i l)"
      using authored_inD(6)[OF g(1)] by blast
    ultimately show ?thesis unfolding live_def views(5) by metis
  qed
  have apart: "ev_authored ev \<noteq> l" if "live i' ev" for ev
  proof -
    have lv: "live i ev" "ev \<notin> set (authored_in i l)" using that by (simp_all add: live)
    then consider "stored i (ev_id ev) = Some ev" | k where "ev \<in> set (authored_in i k)" "k \<noteq> l"
      unfolding live_def by blast
    then show ?thesis
    proof cases
      case 1
      then have "hm_get (in_members i) (ev_authored ev) \<noteq> None" using g(7) unfolding events_agree_def by blast
      then show ?thesis using v(1) by auto
    next
      case 2
      then show ?thesis using authored_inD(2)[OF g(1)] by blast
    qed
  qed
  have waits: "waits ?hs (as_i64 (ev_id ev)) = waits hs (as_i64 (ev_id ev))" if "live i' ev" for ev
  proof
    assume "waits hs (as_i64 (ev_id ev))"
    then obtain k x p where p: "x \<in> set (authored_in i k)" "as_i64 (ev_id ev) = as_i64 (ev_id x)"
      "p \<in> set (waiting hs k)" "pd_authored p \<noteq> None" "pd_event p = as_i64 (ev_id ev)"
      using waitsE[OF g(8)] by metis
    have "x = ev" using live_unique[OF g(1) authored_inD(5)[OF g(1) p(1)]] that p(2) live by simp
    then have "k \<noteq> l" using p(1) that live by blast
    then show "waits ?hs (as_i64 (ev_id ev))" using p(3-5) unfolding waits_def waiting_simps by metis
  next
    assume "waits ?hs (as_i64 (ev_id ev))"
    then show "waits hs (as_i64 (ev_id ev))" unfolding waits_def waiting_simps by (metis empty_iff list.set(1))
  qed
  have "tables_ok ?u" by (rule without_layer_ok[OF g(2) rows_apart[OF ag sl(1)]])
  moreover have "mem_inv i'" using mem_inv_drop[OF g(1)] by (simp add: i'(2))
  moreover have "layers_agree i' ?u"
    using g(4) by (auto simp: layers_agree_def w views)
  moreover have "meta_agrees c i' ?u"
  proof -
    have "in_layer_meta i' = in_layer_meta i" by (simp add: i'(2))
    then show ?thesis using g(12) meta by (auto simp: meta_agrees_def w views split: if_splits)
  qed
  moreover have "handles_agree i' ?hs" using g(5) by (simp add: handles_agree_def i'(2) handle_agrees_def)
  moreover have "members_agree i' ?u ?hs" using g(6) by (simp add: members_agree_def w views)
  moreover have "events_agree c i' ?u ?hs"
    unfolding events_agree_def
  proof (intro conjI allI impI)
    fix ev assume lv: "live i' ev"
    then have r: "event_survives c ev" "map_of (tb_events ?t) (as_i64 (ev_id ev)) =
        (if waits hs (as_i64 (ev_id ev)) then None else row_of c ev)"
      using g(7) live unfolding events_agree_def by blast+
    show "event_survives c ev" by (rule r(1))
    obtain row where "row_of c ev = Some row" "er_authored row = as_i64 (ev_authored ev)"
      using row_of_survives[OF r(1)] by metis
    then show "map_of (tb_events ?u) (as_i64 (ev_id ev)) =
        (if waits ?hs (as_i64 (ev_id ev)) then None else row_of c ev)"
      using r(2) apart[OF lv] by (simp add: w(2) waits[OF lv])
  next
    fix n row assume "map_of (tb_events ?u) n = Some row"
    then have row: "map_of (tb_events ?t) n = Some row" "er_authored row \<noteq> as_i64 l"
      by (auto simp: w(2) split: option.splits if_splits)
    then obtain ev where ev: "live i ev" "n = as_i64 (ev_id ev)" using g(7) unfolding events_agree_def by blast
    then have "event_survives c ev" "row_of c ev = Some row"
      using g(7) row(1) unfolding events_agree_def by (auto split: if_splits)
    then have "er_authored row = as_i64 (ev_authored ev)" using row_of_survives[of c ev] by (metis option.inject)
    then have "ev \<notin> set (authored_in i l)" using row(2) authored_inD(2)[OF g(1)] by auto
    then show "\<exists>ev. live i' ev \<and> n = as_i64 (ev_id ev)" using ev live by blast
  next
    fix e ev assume "stored i' e = Some ev"
    then have "hm_get (in_members i) (ev_authored ev) \<noteq> None"
      using g(7) unfolding events_agree_def views(5) by blast
    then show "hm_get (in_members i') (ev_authored ev) \<noteq> None" by (simp add: i'(2))
  qed
  moreover have "waiting_ok c i' k (waiting ?hs k)" for k
  proof (cases "k = l")
    case True
    then show ?thesis by (simp add: waiting_ok_def)
  next
    case False
    then have "authored_in i' k = authored_in i k" by (simp add: views)
    from waiting_ok_at[OF this views(5)] show ?thesis using g(8)[of k] False by simp
  qed
  moreover have "defs_agree c i' ?u" using g(9) by (simp add: defs_agree_def w views)
  moreover have "branches_agree c i' ?u" "interned_agree i' ?u"
    using g(10,11) by (simp_all add: branches_agree_def interned_agree_def i'(2) without_layer_def)
  moreover have "next_agrees i' (s\<lparr>sq_tables := ?u\<rparr>)" using g(3) by (simp add: next_agrees_def i'(2))
  ultimately have "agrees c i' (s\<lparr>sq_tables := ?u\<rparr>, ?hs)" by (simp add: agrees_def Let_def)
  then show ?thesis by (simp add: end_handle_def h i'(1) sq_abort_without)
qed

section \<open>Every call\<close>

lemma calls_agree:
  assumes "agrees c i st" "caller_ok c i call" "mem_call hash call i = (a, i')" "a \<noteq> Refused"
  shows "\<exists>st'. sql_call c hash call st = (a, st') \<and> agrees c i' st'"
proof (cases st)
  case (Pair s hs)
  note a = assms[unfolded Pair]
  show ?thesis
    unfolding Pair
  proof (cases call)
    case (COpen b l)
    note ok = a(2)[unfolded COpen] and c = a(3)[unfolded COpen]
    show "\<exists>st'. sql_call c hash call (s, hs) = (a, st') \<and> agrees c i' st'"
      unfolding COpen by (rule calls_open[OF a(1) ok c a(4)])
  next
    case (CAuthor l cell draft)
    note ok = a(2)[unfolded CAuthor] and c = a(3)[unfolded CAuthor]
    show "\<exists>st'. sql_call c hash call (s, hs) = (a, st') \<and> agrees c i' st'"
      unfolding CAuthor by (rule calls_author[OF a(1) ok c a(4)])
  next
    case (CAdopt l ev)
    note ok = a(2)[unfolded CAdopt] and c = a(3)[unfolded CAdopt]
    show "\<exists>st'. sql_call c hash call (s, hs) = (a, st') \<and> agrees c i' st'"
      unfolding CAdopt by (rule calls_adopt[OF a(1) ok c a(4)])
  next
    case (CInclude l e)
    note ok = a(2)[unfolded CInclude] and c = a(3)[unfolded CInclude]
    show "\<exists>st'. sql_call c hash call (s, hs) = (a, st') \<and> agrees c i' st'"
      unfolding CInclude by (rule calls_include[OF a(1) c a(4)])
  next
    case (CPutDef l d)
    note ok = a(2)[unfolded CPutDef] and c = a(3)[unfolded CPutDef]
    show "\<exists>st'. sql_call c hash call (s, hs) = (a, st') \<and> agrees c i' st'"
      unfolding CPutDef by (rule calls_put_def[OF a(1) ok c a(4)])
  next
    case (CSeal l)
    note ok = a(2)[unfolded CSeal] and c = a(3)[unfolded CSeal]
    show "\<exists>st'. sql_call c hash call (s, hs) = (a, st') \<and> agrees c i' st'"
      unfolding CSeal by (rule calls_seal[OF a(1) ok c a(4)])
  next
    case (CAbort l)
    note ok = a(2)[unfolded CAbort] and c = a(3)[unfolded CAbort]
    show "\<exists>st'. sql_call c hash call (s, hs) = (a, st') \<and> agrees c i' st'"
      unfolding CAbort by (rule calls_abort[OF a(1) ok c])
  next
    case (CCommit l)
    note ok = a(2)[unfolded CCommit] and c = a(3)[unfolded CCommit]
    show "\<exists>st'. sql_call c hash call (s, hs) = (a, st') \<and> agrees c i' st'"
      unfolding CCommit by (rule calls_commit[OF a(1) c a(4)])
  next
    case (CMeta layer)
    note ok = a(2)[unfolded CMeta] and c = a(3)[unfolded CMeta]
    show "\<exists>st'. sql_call c hash call (s, hs) = (a, st') \<and> agrees c i' st'"
      unfolding CMeta by (rule calls_meta[OF a(1) ok c])
  next
    case (CBranch b)
    note ok = a(2)[unfolded CBranch] and c = a(3)[unfolded CBranch]
    show "\<exists>st'. sql_call c hash call (s, hs) = (a, st') \<and> agrees c i' st'"
      unfolding CBranch by (rule calls_branch[OF a(1) ok c])
  next
    case (CIntern kind bytes)
    note ok = a(2)[unfolded CIntern] and c = a(3)[unfolded CIntern]
    show "\<exists>st'. sql_call c hash call (s, hs) = (a, st') \<and> agrees c i' st'"
      unfolding CIntern by (rule calls_intern[OF a(1) c a(4)])
  next
    case CRebuild
    note ok = a(2)[unfolded CRebuild] and c = a(3)[unfolded CRebuild]
    show "\<exists>st'. sql_call c hash call (s, hs) = (a, st') \<and> agrees c i' st'"
      unfolding CRebuild by (rule calls_rebuild[OF a(1) c])
  qed
qed

subsection \<open>Runs\<close>

text \<open>
  Runs of a provider: every call with its answer, and the runs of which every call is one a caller may
  make and is accepted.
\<close>

fun run_all :: "('c \<Rightarrow> 's \<Rightarrow> 'o \<times> 's) \<Rightarrow> 'c list \<Rightarrow> 's \<Rightarrow> 'o list \<times> 's" where
  "run_all step [] s = ([], s)"
| "run_all step (call # calls) s =
     (let (a, s) = step call s; (answers, s) = run_all step calls s in (a # answers, s))"

fun accepted_run ::
  "('s \<Rightarrow> 'c \<Rightarrow> bool) \<Rightarrow> 'o \<Rightarrow> ('c \<Rightarrow> 's \<Rightarrow> 'o \<times> 's) \<Rightarrow> 'c list \<Rightarrow> 's \<Rightarrow> ('o list \<times> 's) option" where
  "accepted_run allowed refused step [] s = Some ([], s)"
| "accepted_run allowed refused step (call # calls) s =
     (let (a, t) = step call s in
      if \<not> allowed s call \<or> a = refused then None
      else (case accepted_run allowed refused step calls t of
              None \<Rightarrow> None | Some (answers, u) \<Rightarrow> Some (a # answers, u)))"

text \<open>
  The interface of a provider that stands in for another: what the first accepts the second accepts,
  with the same answer, and the two states stay related. Its clients run the one and reason on the
  other.
\<close>

locale stands_in =
  fixes allowed :: "'s \<Rightarrow> 'c \<Rightarrow> bool"
    and refused :: 'o
    and step :: "'c \<Rightarrow> 's \<Rightarrow> 'o \<times> 's"
    and other :: "'c \<Rightarrow> 't \<Rightarrow> 'o \<times> 't"
    and related :: "'s \<Rightarrow> 't \<Rightarrow> bool"
  assumes follows: "related s t \<Longrightarrow> allowed s call \<Longrightarrow> step call s = (a, s') \<Longrightarrow> a \<noteq> refused \<Longrightarrow>
    \<exists>t'. other call t = (a, t') \<and> related s' t'"
begin

lemma runs_follow:
  "related s t \<Longrightarrow> accepted_run allowed refused step calls s = Some (answers, s') \<Longrightarrow>
   \<exists>t'. run_all other calls t = (answers, t') \<and> related s' t'"
proof (induction calls arbitrary: s t answers)
  case (Cons call calls)
  obtain a u where call: "step call s = (a, u)" by fastforce
  with Cons.prems(2) obtain rest where r: "allowed s call" "a \<noteq> refused"
    "accepted_run allowed refused step calls u = Some (rest, s')" "answers = a # rest"
    by (auto simp: Let_def split: if_splits option.splits)
  from follows[OF Cons.prems(1) r(1) call r(2)]
  obtain t1 where t1: "other call t = (a, t1)" "related u t1" by blast
  from Cons.IH[OF t1(2) r(3)] t1(1) r(4) show ?case by auto
qed simp

end

interpretation sqlite: stands_in "caller_ok c" Refused "mem_call hash" "sql_call c hash" "agrees c" for c hash
  by unfold_locales (rule calls_agree)

definition mem_run ::
  "json_texts \<Rightarrow> (u8 list \<Rightarrow> u8 list) \<Rightarrow> provider_call list \<Rightarrow> inner \<Rightarrow> (provider_answer list \<times> inner) option" where
  "mem_run c hash = accepted_run (caller_ok c) Refused (mem_call hash)"

definition sql_run ::
  "json_texts \<Rightarrow> (u8 list \<Rightarrow> u8 list) \<Rightarrow> provider_call list \<Rightarrow> sql_state \<Rightarrow> provider_answer list \<times> sql_state" where
  "sql_run c hash = run_all (sql_call c hash)"

definition sq_start :: sql_state where
  "sq_start = (\<lparr>sq_tables = no_rows, sq_next_event = 1\<rparr>, [])"

lemma start_opens: "from_connection False no_rows = Inr (fst sq_start)"
  by (simp add: from_connection_def no_rows_def sq_start_def as_u64_def Let_def)

lemma start_agrees: "agrees c mem_new sq_start"
proof -
  have "mem_inv mem_new" "tables_ok no_rows" by (rule mem_inv_new, rule tables_ok_empty)
  then show ?thesis
    by (auto simp: agrees_def sq_start_def next_agrees_def layers_agree_def handles_agree_def
        handle_agrees_def members_agree_def events_agree_def waiting_ok_def defs_agree_def branches_agree_def
        interned_agree_def meta_agrees_def no_rows_def mem_new_def layer_view_def contents_def def_contents_def
        waiting_def live_def stored_def event_at_def authored_in_def split: option.splits)
qed

section \<open>Reads\<close>

lemma small_le: "small_id a \<Longrightarrow> small_id b \<Longrightarrow> as_i64 a \<le> as_i64 b \<longleftrightarrow> a \<le> b"
proof -
  have "as_i64 w = uint w" if "small_id w" for w
  proof -
    have "uint w < 2 ^ 63" using that by (simp add: small_id_def word_less_def)
    moreover have "- (2 ^ 63) \<le> uint w" by (rule order_trans[of _ 0]) simp_all
    ultimately show ?thesis unfolding as_i64_def sint_uint by (intro signed_take_bit_int_eq_self) simp_all
  qed
  then show "small_id a \<Longrightarrow> small_id b \<Longrightarrow> as_i64 a \<le> as_i64 b \<longleftrightarrow> a \<le> b" by (simp add: word_le_def)
qed

text \<open>What the tables say of a landing is what the log in memory says.\<close>

lemma committed_view:
  assumes "layers_agree i t" "layer_committed t n"
  obtains l m where "n = as_i64 l" "hm_get (in_members i) l = Some m" "small_id l"
    "map_option lr_branch (map_of (tb_layers t) n) = Some (as_i64 (mb_branch m))"
proof -
  obtain row where row: "map_of (tb_layers t) n = Some row" "lr_state row = row_committed"
    using assms(2) by (auto simp: layer_committed_def split: option.splits)
  then obtain l where l: "n = as_i64 l" using assms(1) unfolding layers_agree_def by blast
  have "map_option (\<lambda>r. (lr_branch r, lr_state r)) (map_of (tb_layers t) (as_i64 l)) = layer_view i l"
    "layer_view i l \<noteq> None \<longrightarrow> small_id l" using assms(1) unfolding layers_agree_def by blast+
  then have v: "layer_view i l = Some (lr_branch row, row_committed)" "small_id l" using row l by (simp, metis option.distinct(1) option.simps(9))
  then obtain m where "hm_get (in_members i) l = Some m" "lr_branch row = as_i64 (mb_branch m)"
    by (auto simp: layer_view_def row_committed_def row_sealed_def row_open_def split: option.splits if_splits)
  then show ?thesis using that l row(1) v(2) by simp
qed

lemma view_committed:
  "layers_agree i t \<Longrightarrow> hm_get (in_members i) l = Some m \<Longrightarrow> layer_committed t (as_i64 l) \<and> small_id l \<and>
     map_option lr_branch (map_of (tb_layers t) (as_i64 l)) = Some (as_i64 (mb_branch m))"
proof -
  assume a: "layers_agree i t" and m: "hm_get (in_members i) l = Some m"
  have "map_option (\<lambda>r. (lr_branch r, lr_state r)) (map_of (tb_layers t) (as_i64 l)) = layer_view i l"
    "layer_view i l \<noteq> None \<longrightarrow> small_id l" using a unfolding layers_agree_def by blast+
  then show ?thesis using m by (auto simp: layer_view_def layer_committed_def)
qed

lemma committed_rows:
  assumes ag: "agrees c i (s, hs)" and m: "hm_get (in_members i) l = Some m"
  shows "layer_rows (as_i64 l) (tb_members (sq_tables s)) = map as_i64 (mb_events m)"
proof -
  note g = agreesD[OF ag]
  have "hm_get (in_staged i) l = None"
  proof (cases "hm_get (in_staged i) l")
    case (Some sl)
    then show ?thesis using staged_views(1)[OF g(1) Some] m by simp
  qed simp
  moreover have "handle_agrees l (hm_get (in_staged i) l) (hm_get hs l)" using g(5) by (simp add: handles_agree_def)
  ultimately have "waiting hs l = []" by (auto simp: waiting_def handle_agrees_def split: option.splits)
  moreover have "layer_rows (as_i64 l) (tb_members (sq_tables s)) @ map pd_event (waiting hs l) = map as_i64 (contents i l)"
    using g(6) unfolding members_agree_def by blast
  ultimately show ?thesis using m by (simp add: contents_def)
qed

lemma stored_row:
  assumes ag: "agrees c i (s, hs)" and ev: "stored i e = Some ev"
  obtains row where "map_of (tb_events (sq_tables s)) (as_i64 e) = Some row" "to_event c (as_i64 e) row = Inr ev"
    "encode_text (co_buffer c) (cr_buffer (ev_cell ev)) = Inr (er_buffer row)"
    "encode_text (co_key c) (cr_key (ev_cell ev)) = Inr (er_key row)"
    "er_version row = as_i64 (dv_layer (ev_version ev))" "event_survives c ev"
proof -
  note g = agreesD[OF ag]
  have lv: "live i ev" "ev_id ev = e" using stored_live[OF g(1) ev] by blast+
  have "\<not> waits hs (as_i64 e)" using stored_not_waits[OF ag] ev by simp
  then have r: "event_survives c ev" "map_of (tb_events (sq_tables s)) (as_i64 e) = row_of c ev"
    using g(7) lv unfolding events_agree_def by auto
  obtain row where "row_of c ev = Some row" "to_event c (as_i64 (ev_id ev)) row = Inr ev"
    "encode_text (co_buffer c) (cr_buffer (ev_cell ev)) = Inr (er_buffer row)"
    "encode_text (co_key c) (cr_key (ev_cell ev)) = Inr (er_key row)"
    "er_version row = as_i64 (dv_layer (ev_version ev))" using row_of_survives[OF r(1)] by metis
  with that[of row] r lv(2) show ?thesis by simp
qed

lemma wrote_hits:
  assumes ag: "agrees c i (s, hs)" and ev: "stored i e \<noteq> None" and cell: "cell_survives c cell"
    and enc: "encode_text (co_buffer c) (cr_buffer cell) = Inr buffer" "encode_text (co_key c) (cr_key cell) = Inr key"
  shows "wrote (sq_tables s) buffer key (as_i64 (dv_layer v)) (as_i64 e) \<longleftrightarrow> hits (in_events i) cell v e"
proof -
  obtain x where x: "stored i e = Some x" using ev by blast
  obtain row where row: "map_of (tb_events (sq_tables s)) (as_i64 e) = Some row"
    "encode_text (co_buffer c) (cr_buffer (ev_cell x)) = Inr (er_buffer row)"
    "encode_text (co_key c) (cr_key (ev_cell x)) = Inr (er_key row)"
    "er_version row = as_i64 (dv_layer (ev_version x))" "event_survives c x" using stored_row[OF ag x] by metis
  have s: "cell_survives c (ev_cell x)" using row(5) by (simp add: event_survives_def record_survives_def)
  have "er_buffer row = buffer \<longleftrightarrow> cr_buffer (ev_cell x) = cr_buffer cell"
    using survives_inject[of "co_buffer c" "cr_buffer (ev_cell x)" "cr_buffer cell"] s cell enc(1) row(2)
    by (auto simp: cell_survives_def)
  moreover have "er_key row = key \<longleftrightarrow> cr_key (ev_cell x) = cr_key cell"
    using survives_inject[of "co_key c" "cr_key (ev_cell x)" "cr_key cell"] s cell enc(2) row(3)
    by (auto simp: cell_survives_def)
  moreover have "er_version row = as_i64 (dv_layer v) \<longleftrightarrow> ev_version x = v"
    using row(4) by (cases v; cases "ev_version x") simp
  ultimately show ?thesis
    using x row(1) by (auto simp: wrote_def hits_def stored_def cell_ref.expand)
qed

lemma last_row_hit:
  assumes "\<And>e. e \<in> set es \<Longrightarrow> f (as_i64 e) \<longleftrightarrow> hits events cell v e"
  shows "last_row f (map as_i64 es) = map_option as_i64 (last_hit events es cell v)"
  using assms
proof (induction es rule: rev_induct)
  case (snoc e es)
  have "last_hit events (es @ [e]) cell v = (if hits events cell v e then Some e else last_hit events es cell v)"
    by (simp add: last_hit_def Let_def)
  then show ?case using snoc by simp
qed simp

text \<open>A landing of the tables is a landing of the log, within a bound that fits the column.\<close>

lemma lands_log:
  assumes ag: "agrees c i (s, hs)" and cell: "cell_survives c cell" and bound: "small_id (snd seg)"
    and enc: "encode_text (co_buffer c) (cr_buffer cell) = Inr buffer" "encode_text (co_key c) (cr_key cell) = Inr key"
  shows "lands (sq_tables s) buffer key (as_i64 (dv_layer v)) seg n m \<longleftrightarrow>
    (\<exists>l e. n = as_i64 l \<and> m = as_i64 e \<and> log_landing i (fst seg) cell v l = Some e \<and> l \<le> snd seg)"
proof -
  note g = agreesD[OF ag]
  let ?t = "sq_tables s"
  have says: "index_says ?t (as_i64 (fst seg), buffer, key, as_i64 (dv_layer v), as_i64 l) =
      map_option as_i64 (log_landing i (fst seg) cell v l)" if mb: "hm_get (in_members i) l = Some mb" for l mb
  proof -
    have "\<forall>e \<in> set (mb_events mb). stored i e \<noteq> None"
      using mem_invD(3)[OF g(1)] mb unfolding members_ok_def by blast
    then have "last_row (wrote ?t buffer key (as_i64 (dv_layer v))) (map as_i64 (mb_events mb)) =
        map_option as_i64 (last_hit (in_events i) (mb_events mb) cell v)"
      using wrote_hits[OF ag _ cell enc] by (intro last_row_hit) blast
    then show ?thesis
      using view_committed[OF g(4) mb] committed_rows[OF ag mb] mb
      by (auto simp: index_says_def log_landing_def)
  qed
  show ?thesis
  proof
    assume lands: "lands ?t buffer key (as_i64 (dv_layer v)) seg n m"
    then obtain l mb where l: "n = as_i64 l" "hm_get (in_members i) l = Some mb" "small_id l"
      using committed_view[OF g(4), of n] by (metis lands_def)
    then show "\<exists>l e. n = as_i64 l \<and> m = as_i64 e \<and> log_landing i (fst seg) cell v l = Some e \<and> l \<le> snd seg"
      using lands says[OF l(2)] small_le[OF l(3) bound] by (auto simp: lands_def)
  next
    assume "\<exists>l e. n = as_i64 l \<and> m = as_i64 e \<and> log_landing i (fst seg) cell v l = Some e \<and> l \<le> snd seg"
    then obtain l e where l: "n = as_i64 l" "m = as_i64 e" "log_landing i (fst seg) cell v l = Some e" "l \<le> snd seg" by blast
    then obtain mb where mb: "hm_get (in_members i) l = Some mb"
      by (auto simp: log_landing_def split: option.splits)
    then show "lands ?t buffer key (as_i64 (dv_layer v)) seg n m"
      using l says[OF mb] view_committed[OF g(4) mb] small_le[OF _ bound, of l] by (auto simp: lands_def)
  qed
qed

lemma get_cell_walk_agrees:
  assumes ag: "agrees c i (s, hs)" and cell: "cell_survives c cell"
    and enc: "encode_text (co_buffer c) (cr_buffer cell) = Inr buffer" "encode_text (co_key c) (cr_key cell) = Inr key"
  shows "\<forall>seg \<in> set path. small_id (snd seg) \<Longrightarrow>
    \<exists>r. get_cell i path cell v = Inr r \<and>
        get_cell_walk c (sq_tables s) path buffer key (as_i64 (dv_layer v)) = Inr r"
proof (induction path)
  case (Cons seg path)
  note g = agreesD[OF ag]
  obtain b bound where seg: "seg = (b, bound)" by (cases seg)
  have lands: "lands (sq_tables s) buffer key (as_i64 (dv_layer v)) seg n m \<longleftrightarrow>
      (\<exists>l e. n = as_i64 l \<and> m = as_i64 e \<and> log_landing i b cell v l = Some e \<and> l \<le> bound)" for n m
    using lands_log[OF ag cell _ enc, of seg v n m] Cons.prems seg by simp
  obtain r where r: "get_cell i path cell v = Inr r"
    "get_cell_walk c (sq_tables s) path buffer key (as_i64 (dv_layer v)) = Inr r" using Cons by auto
  from get_cell_Cons[OF g(1), of b bound cell v path]
  consider (none) "nothing_in i b bound cell v" "get_cell i (seg # path) cell v = get_cell i path cell v"
    | (top) x where "newest_in i b bound cell v x" "get_cell i (seg # path) cell v = Inr (Some x)"
    by (auto simp: seg)
  then show ?case
  proof cases
    case none
    have "log_landing i b cell v k = None \<or> \<not> k \<le> bound" for k
      using none(1) log_event_None[OF mem_invD(3)[OF g(1)]] unfolding nothing_in_def by blast
    then have nolands: "\<not> lands (sq_tables s) buffer key (as_i64 (dv_layer v)) seg n m" for n m
      unfolding lands by (metis option.distinct(1))
    show ?thesis
    proof (cases rule: seek_cases[OF g(2), of buffer key "as_i64 (dv_layer v)" seg])
      case 1
      then show ?thesis using r none(2) by simp
    next
      case (2 n m row)
      then show ?thesis using nolands by blast
    qed
  next
    case top
    let ?l = "ld_at x"
    have ev: "log_event i b cell v ?l = Some (ld_event x)" "?l \<le> bound"
      "\<And>k. log_event i b cell v k \<noteq> None \<Longrightarrow> k \<le> bound \<Longrightarrow> k \<le> ?l"
      using top(1) by (auto simp: newest_in_def)
    then obtain e where e: "log_landing i b cell v ?l = Some e" "stored i e = Some (ld_event x)"
      by (auto simp: log_event_def split: option.splits)
    have mine: "lands (sq_tables s) buffer key (as_i64 (dv_layer v)) seg (as_i64 ?l) (as_i64 e)"
      unfolding lands using e(1) ev(2) by blast
    show ?thesis
    proof (cases rule: seek_cases[OF g(2), of buffer key "as_i64 (dv_layer v)" seg])
      case 1
      then show ?thesis using mine by blast
    next
      case (2 n m row)
      obtain l' e' where l': "n = as_i64 l'" "m = as_i64 e'" "log_landing i b cell v l' = Some e'" "l' \<le> bound"
        using 2(2) lands by blast
      have "log_event i b cell v l' \<noteq> None" using l'(3) log_event_None[OF mem_invD(3)[OF g(1)]] by simp
      then have "l' \<le> ?l" using ev(3) l'(4) by blast
      moreover have "as_i64 ?l \<le> as_i64 l'" using 2(4)[OF mine] l'(1) by simp
      moreover have "small_id l'" "small_id ?l"
        using l'(3) e(1) view_committed[OF g(4)] by (auto simp: log_landing_def split: option.splits)
      ultimately have "l' = ?l" using small_le by (metis antisym)
      then have "m = as_i64 e" using l'(2,3) e(1) by simp
      moreover obtain row' where "map_of (tb_events (sq_tables s)) (as_i64 e) = Some row'"
        "to_event c (as_i64 e) row' = Inr (ld_event x)" using stored_row[OF ag e(2)] by metis
      ultimately have "to_event c m row = Inr (ld_event x)" using 2(3) by simp
      then show ?thesis
        using 2(1) top(2) l'(1) \<open>l' = ?l\<close> by (simp add: key_landed_def)
    qed
  qed
qed simp

section \<open>The properties\<close>

lemma run_agrees:
  assumes "mem_run c hash calls mem_new = Some (answers, i)"
  obtains s hs where "sql_run c hash calls sq_start = (answers, s, hs)" "agrees c i (s, hs)"
  using sqlite.runs_follow[OF start_agrees assms[unfolded mem_run_def]] unfolding sql_run_def by (metis surj_pair)

text \<open>
  Property C11. The SQLite provider refines the provider in memory: where every call of a run is one a
  caller may make and is accepted in memory, SQLite accepts each of them and gives the same answer:
  the same minted ids, the same content addresses.
\<close>

theorem sqlite_answers_like_memory:
  "mem_run c hash calls mem_new = Some (answers, i) \<Longrightarrow> fst (sql_run c hash calls sq_start) = answers"
  by (erule run_agrees) simp

text \<open>
  Property C12. After any such run both providers read alike: the record of a cell whose text reads back,
  down any read path whose bounds fit the signed column, is the same record, landed at the same
  layer, or absent from both.
\<close>

theorem sqlite_reads_like_memory:
  assumes "mem_run c hash calls mem_new = Some (answers, i)" "cell_survives c cell"
    "\<forall>seg \<in> set path. small_id (snd seg)"
  shows "\<exists>r. get_cell i path cell v = Inr r \<and>
    sq_get_cell c (fst (snd (sql_run c hash calls sq_start))) path cell v = Inr r"
proof -
  obtain s hs where run: "sql_run c hash calls sq_start = (answers, s, hs)" "agrees c i (s, hs)"
    using run_agrees[OF assms(1)] .
  obtain buffer key where "encode_text (co_buffer c) (cr_buffer cell) = Inr buffer"
    "encode_text (co_key c) (cr_key cell) = Inr key"
    using assms(2) by (auto simp: cell_survives_def elim!: survivesD)
  with get_cell_walk_agrees[OF run(2) assms(2) _ _ assms(3)] run(1) show ?thesis
    by (simp add: sq_get_cell_def)
qed

lemma decode_rows_stored:
  assumes "agrees c i (s, hs)" "\<forall>e \<in> set es. stored i e \<noteq> None"
  shows "decode_rows c (concat (map (\<lambda>n. case map_of (tb_events (sq_tables s)) n of
      None \<Rightarrow> [] | Some row \<Rightarrow> [(n, row)]) (map as_i64 es))) = Inr (map (\<lambda>e. the (stored i e)) es)"
  using assms(2)
proof (induction es)
  case (Cons e es)
  then obtain ev where ev: "stored i e = Some ev" by auto
  obtain row where "map_of (tb_events (sq_tables s)) (as_i64 e) = Some row" "to_event c (as_i64 e) row = Inr ev"
    using stored_row[OF assms(1) ev] by metis
  then show ?case using Cons ev by simp
qed simp

text \<open>
  A committed layer reads back as it was written: the events in the order of its membership,
  the included ones among them, are those the provider in memory holds.
\<close>

theorem sqlite_layers_read_back:
  assumes "mem_run c hash calls mem_new = Some (answers, i)" "hm_get (in_members i) l \<noteq> None"
  shows "\<exists>evs. read_layer i l = map Inr evs \<and>
    sq_read_layer c (fst (snd (sql_run c hash calls sq_start))) l = Inr evs"
proof -
  obtain s hs where run: "sql_run c hash calls sq_start = (answers, s, hs)" "agrees c i (s, hs)"
    using run_agrees[OF assms(1)] .
  obtain m where m: "hm_get (in_members i) l = Some m" using assms(2) by blast
  then have st: "\<forall>e \<in> set (mb_events m). stored i e \<noteq> None"
    using mem_invD(3)[OF agreesD(1)[OF run(2)]] unfolding members_ok_def by blast
  then have "read_layer i l = map Inr (map (\<lambda>e. the (stored i e)) (mb_events m))"
    by (auto simp: read_layer_def m event_of_def split: option.splits)
  then show ?thesis
    using run(1) decode_rows_stored[OF run(2) st] by (simp add: sq_read_layer_def committed_rows[OF run(2) m])
qed

text \<open>
  Property C13. The read index is a projection: at any point of such a run, with layers open and half
  flushed, rebuilding it from membership and events changes nothing in the store.
\<close>

theorem rebuilding_leaves_no_trace:
  "mem_run c hash calls mem_new = Some (answers, i) \<Longrightarrow>
   sq_rebuild_read_index (fst (snd (sql_run c hash calls sq_start))) = (Inr (), fst (snd (sql_run c hash calls sq_start)))"
  by (erule run_agrees) (simp add: rebuild_same agreesD(2))

lemma fold_max_upper: "(x :: int) \<in> set (n # ns) \<Longrightarrow> x \<le> fold max ns n"
proof (induction ns arbitrary: n x)
  case (Cons m ns)
  have "max m n \<le> fold max ns (max m n)" using Cons.IH[of "max m n" "max m n"] by simp
  then show ?case using Cons.prems Cons.IH[of x "max m n"] by (auto intro: order_trans)
qed simp

lemma fold_max_member: "fold max ns (n :: int) \<in> set (n # ns)"
proof (induction ns arbitrary: n)
  case (Cons m ns)
  show ?case using Cons[of "max m n"] by (auto simp: max_def split: if_splits)
qed simp

text \<open>
  As long as the ids fit the signed column, a process that opens the store again is let in
  and mints past every event the store holds.
\<close>

theorem reopened_counter_is_fresh:
  assumes "mem_run c hash calls mem_new = Some (answers, i)" "small_id (in_next_event i)"
  shows "\<exists>s'. from_connection False (sq_tables (fst (snd (sql_run c hash calls sq_start)))) = Inr s' \<and>
    (\<forall>e. stored i e \<noteq> None \<longrightarrow> e < sq_next_event s')"
proof -
  obtain s hs where run: "sql_run c hash calls sq_start = (answers, s, hs)" "agrees c i (s, hs)"
    using run_agrees[OF assms(1)] .
  note g = agreesD[OF run(2)]
  let ?keys = "map fst (tb_events (sq_tables s))"
  have keys: "as_i64 e \<in> set ?keys" if "stored i e \<noteq> None" for e
  proof -
    from that have "\<exists>ev. stored i e = Some ev" by blast
    then obtain ev where "stored i e = Some ev" ..
    from stored_row[OF run(2) this] obtain row where "map_of (tb_events (sq_tables s)) (as_i64 e) = Some row" by metis
    then show ?thesis by (force dest: map_of_SomeD)
  qed
  have le: "ev_id y \<le> in_next_event i" if "live i y" for y
    using that authored_inD(3)[OF g(1)] mem_invD(1)[OF g(1)] by (auto simp: live_def ids_ok_def)
  have small: "small_id e" if "e \<le> in_next_event i" for e
    using that assms(2) by (auto simp: small_id_def)
  show ?thesis
  proof (cases ?keys)
    case Nil
    then have "stored i e = None" for e using keys by (metis empty_iff list.set(1))
    with Nil run(1) show ?thesis by (simp add: from_connection_def Let_def as_u64_def)
  next
    case (Cons n ns)
    let ?top = "fold max ns n"
    have "?top \<in> set ?keys" unfolding Cons by (rule fold_max_member)
    then have "map_of (tb_events (sq_tables s)) ?top \<noteq> None" by (simp add: map_of_eq_None_iff)
    then obtain x where x: "live i x" "?top = as_i64 (ev_id x)" using g(7) unfolding events_agree_def by blast
    have top: "small_id (ev_id x)" by (rule small[OF le[OF x(1)]])
    then have nz: "ev_id x \<noteq> - 1" by (auto simp: small_id_def)
    have "e < ev_id x + 1" if e: "stored i e \<noteq> None" for e
    proof -
      have "as_i64 e \<le> as_i64 (ev_id x)" using keys[OF e] fold_max_upper unfolding Cons x(2)[symmetric] by blast
      moreover have "small_id e" using e mem_invD(1)[OF g(1)] by (intro small) (auto simp: ids_ok_def)
      ultimately have "e \<le> ev_id x" using small_le top by blast
      then show ?thesis using less_next[OF nz] by simp
    qed
    then have all: "\<forall>e. stored i e \<noteq> None \<longrightarrow> e < ev_id x + 1" by blast
    have "from_connection False (sq_tables s) = Inr \<lparr>sq_tables = sq_tables s, sq_next_event = ev_id x + 1\<rparr>"
      unfolding from_connection_def Let_def Cons using x(2) nz by simp
    then show ?thesis using all run(1) by (intro exI[of _ "\<lparr>sq_tables = sq_tables s, sq_next_event = ev_id x + 1\<rparr>"]) simp
  qed
qed

section \<open>A run\<close>

text \<open>Texts for one record: a table of values and their texts, read both ways.\<close>

definition texts_of :: "('a \<times> string) list \<Rightarrow> 'a coder" where
  "texts_of t =
     (\<lambda>x. case map_of t x of None \<Rightarrow> Inl (JsonError ''unknown'') | Some raw \<Rightarrow> Inr raw,
      \<lambda>raw. case map_of (map (\<lambda>(x, r). (r, x)) t) raw of
               None \<Rightarrow> Inl (JsonError ''unknown'') | Some x \<Rightarrow> Inr x)"

definition x_json :: json_texts where
  "x_json = \<lparr>co_buffer = texts_of [(cr_buffer w_cell, ''buffer'')], co_key = texts_of [(cr_key w_cell, ''key'')],
     co_value = texts_of [(VBool True, ''true'')], co_derivation = texts_of [], co_layer = texts_of [],
     co_branch = texts_of [], co_def = texts_of []\<rparr>"

definition x_calls :: "provider_call list" where
  "x_calls = [COpen 1 5, CAuthor 5 w_cell w_draft, CSeal 5, CCommit 5]"

lemma x_survives: "cell_survives x_json w_cell" "record_survives x_json w_cell (VBool True) None"
  by (simp_all add: cell_survives_def record_survives_def survives_def encode_text_def decode_text_def
      x_json_def texts_of_def)

lemma x_run_any:
  assumes "record_survives c w_cell (VBool True) None"
  shows "mem_run c id x_calls mem_new = Some ([Done, Minted 1, Done, Done], w_committed)"
proof -
  have open_ok: "open_layer 1 5 mem_new = (Inr (), w_open)"
    by (simp add: w_open_def open_layer_def mem_new_def)
  let ?a = "snd (author_event 5 w_cell w_draft w_open)"
  have seal: "mem_seal 5 ?a = (Inr 5, w_sealed)" by (simp add: w_defs)
  have "fst (commit_layer 5 w_sealed) = Inr ()"
    by (simp add: w_sealed_state w_staged_def mem_new_def commit_layer_def Let_def store_def slot_of_def
        event_at_def index_event_def hm_modify_def w_event_def draft_event_def w_draft_def)
  then have commit: "commit_layer 5 w_sealed = (Inr (), w_committed)"
    by (metis prod.collapse w_committed_def)
  have "in_next_event w_open = 0" by (simp add: w_open_def open_layer_def mem_new_def put_staged_def)
  moreover have "handle_held ?a 5" by (simp add: handle_held_def w_defs)
  moreover have "ed_value w_draft = VBool True" "ed_derivation w_draft = None" by (simp_all add: w_draft_def)
  moreover have "fst (author_event 5 w_cell w_draft w_open) = Inr 1" using w_author by (metis fst_conv)
  ultimately show ?thesis
    using assms by (simp add: mem_run_def x_calls_def answered_def open_ok seal commit small_id_def)
qed

lemmas x_run = x_run_any[OF x_survives(2)]

lemma mem_run_append:
  "mem_run c hash (xs @ ys) i =
     (case mem_run c hash xs i of
        None \<Rightarrow> None
      | Some (answers, j) \<Rightarrow>
          (case mem_run c hash ys j of None \<Rightarrow> None | Some (rest, k) \<Rightarrow> Some (answers @ rest, k)))"
proof -
  have "accepted_run allowed refused step (xs @ ys) s =
     (case accepted_run allowed refused step xs s of
        None \<Rightarrow> None
      | Some (answers, t) \<Rightarrow>
          (case accepted_run allowed refused step ys t of None \<Rightarrow> None | Some (rest, u) \<Rightarrow> Some (answers @ rest, u)))"
    for allowed refused step s
    by (induction xs arbitrary: s) (auto simp: Let_def split: option.splits prod.splits)
  then show ?thesis by (simp only: mem_run_def)
qed

theorem sqlite_answers_like_memory_witness:
  "fst (sql_run x_json id x_calls sq_start) = [Done, Minted 1, Done, Done]"
  by (rule sqlite_answers_like_memory[OF x_run])

lemma x_read: "get_cell w_committed [(2, 9), (1, 7)] w_cell (DefVersion 1) = Inr (Some \<lparr>ld_event = w_event, ld_at = 5\<rparr>)"
  by (simp add: w_committed_state mem_new_def history_at_def newest_at_def event_of_def stored_def event_at_def slot_of_def)

theorem sqlite_reads_like_memory_witness:
  "sq_get_cell x_json (fst (snd (sql_run x_json id x_calls sq_start))) [(2, 9), (1, 7)] w_cell (DefVersion 1) =
     Inr (Some \<lparr>ld_event = w_event, ld_at = 5\<rparr>)"
  using sqlite_reads_like_memory[OF x_run x_survives(1), of "[(2, 9), (1, 7)]" "DefVersion 1"] x_read
  by (simp add: small_id_def)

theorem sqlite_layers_read_back_witness:
  "sq_read_layer x_json (fst (snd (sql_run x_json id x_calls sq_start))) 5 = Inr [w_event]"
proof -
  have "hm_get (in_members w_committed) 5 = Some \<lparr>mb_branch = 1, mb_events = [1]\<rparr>"
    "read_layer w_committed 5 = [Inr w_event]"
    by (simp_all add: w_committed_state mem_new_def read_layer_def event_of_def stored_def event_at_def slot_of_def)
  then show ?thesis using sqlite_layers_read_back[OF x_run, of 5] by auto
qed

theorem rebuilding_leaves_no_trace_witness:
  "fst (sq_rebuild_read_index (fst (snd (sql_run x_json id x_calls sq_start)))) = Inr ()"
  by (simp add: rebuilding_leaves_no_trace[OF x_run])

theorem reopened_counter_is_fresh_witness:
  "\<exists>s'. from_connection False (sq_tables (fst (snd (sql_run x_json id x_calls sq_start)))) = Inr s' \<and>
     1 < sq_next_event s'"
proof -
  have "small_id (in_next_event w_committed)" "stored w_committed 1 \<noteq> None"
    by (simp_all add: w_committed_state mem_new_def small_id_def stored_def event_at_def slot_of_def)
  then show ?thesis using reopened_counter_is_fresh[OF x_run] by blast
qed

text \<open>
  A value whose text does not read back (serde writes an infinite double as \<^verbatim>\<open>null\<close>) is accepted and
  committed all the same; from then on the cell and its layer cannot be read.
\<close>

definition y_json :: json_texts where
  "y_json = x_json\<lparr>co_value := (\<lambda>_. Inr ''null'', \<lambda>_. Inl (JsonError ''expected f64''))\<rparr>"

lemma unreadable_value_is_committed:
  "fst (sql_run y_json id x_calls sq_start) = [Done, Minted 1, Done, Done]"
  "sq_get_cell y_json (fst (snd (sql_run y_json id x_calls sq_start))) [(1, 7)] w_cell (DefVersion 1) =
     Inl (JsonError ''expected f64'')"
  "sq_read_layer y_json (fst (snd (sql_run y_json id x_calls sq_start))) 5 = Inl (JsonError ''expected f64'')"
  by code_simp+

end
