(* ===== verification/Export_Rows.thy ===== *)
theory Export_Rows
  imports Export_Stream Sqlite_Properties
begin

text \<open>
  Rows of a stream and what they are made from: each is read back as exactly what was written, which for
  cells the export checks itself. Lines and contents likewise.
\<close>

section \<open>Rows\<close>

definition wf_value :: "val \<Rightarrow> bool" where
  "wf_value v \<longleftrightarrow> (case v of VRef p \<Rightarrow> wf_pid p | _ \<Rightarrow> True)"

lemma results_back:
  "collect_results f xs = Inr ys \<Longrightarrow> (\<And>x y. x \<in> set xs \<Longrightarrow> f x = Inr y \<Longrightarrow> g y = Inr x) \<Longrightarrow>
   collect_results g ys = Inr xs"
proof (induction xs arbitrary: ys)
  case (Cons x xs)
  then obtain y zs where "f x = Inr y" "collect_results f xs = Inr zs" "ys = y # zs"
    by (auto split: sum.splits)
  moreover from this have "g y = Inr x" using Cons.prems(2)[of x y] by simp
  moreover have "collect_results g zs = Inr xs"
    using Cons.prems(2) by (intro Cons.IH[OF calculation(2)]) simp
  ultimately show ?case by simp
qed simp

lemma results_length: "collect_results f xs = Inr ys \<Longrightarrow> length ys = length xs"
  by (induction xs arbitrary: ys) (auto split: sum.splits)

lemma results_append:
  "collect_results f (xs @ ys) =
     (case collect_results f xs of Inl err \<Rightarrow> Inl err
      | Inr us \<Rightarrow> (case collect_results f ys of Inl err \<Rightarrow> Inl err | Inr vs \<Rightarrow> Inr (us @ vs)))"
  by (induction xs) (auto split: sum.splits)

lemma results_cong: "(\<And>x. x \<in> set xs \<Longrightarrow> f x = g x) \<Longrightarrow> collect_results f xs = collect_results g xs"
  by (induction xs) (auto split: sum.split)

lemma cell_back: "cell_address cell = Inr text \<Longrightarrow> parsed_cell at text = Inr cell"
  by (auto simp: cell_address_def parsed_cell_def split: option.splits sum.splits if_splits)

lemma read_back: "row_of_read r = Inr row \<Longrightarrow> read_of at row = Inr r"
  by (cases r) (auto simp: row_of_read_def read_of_def cell_back split: sum.splits)

lemma derivation_back: "row_of_derivation dn = Inr row \<Longrightarrow> derivation_of at row = Inr dn"
proof (cases dn)
  case (Some d)
  moreover assume "row_of_derivation dn = Inr row"
  ultimately obtain rows where r: "collect_results row_of_read (dn_read_set d) = Inr rows"
    "row = Some \<lparr>dr_producer = dn_producer d, dr_fresh_as_of = dn_fresh_as_of d, dr_read_set = rows\<rparr>"
    by (auto simp: row_of_derivation_def split: sum.splits)
  have "collect_results (read_of at) rows = Inr (dn_read_set d)"
    by (rule results_back[OF r(1)]) (rule read_back)
  then show ?thesis by (simp add: derivation_of_def r(2) Some)
qed (simp add: row_of_derivation_def derivation_of_def)

lemma value_back: "row_of_value v = Inr row \<Longrightarrow> wf_value v \<Longrightarrow> value_of at row = Inr v"
  by (cases v) (auto simp: row_of_value_def value_of_def wf_value_def parsed_pid_def pid_from_str_text split: if_splits)

lemma event_back:
  "row_of_event ev = Inr row \<Longrightarrow> wf_value (ev_value ev) \<Longrightarrow> event_of_row at (ev_authored ev) row = Inr ev"
  by (auto simp: row_of_event_def event_of_row_def cell_back value_back derivation_back
      split: sum.splits origin.splits)

lemma guard_back: "row_of_guard g = Inr row \<Longrightarrow> guard_of at row = Inr g"
  by (auto simp: row_of_guard_def guard_of_def split: sum.splits dest: results_back[where g = "parsed_cell at"] cell_back)

lemma layer_back: "row_of_layer layer = Inr row \<Longrightarrow> ly_state layer = LCommitted \<Longrightarrow> layer_of_row at row = Inr layer"
proof -
  assume r: "row_of_layer layer = Inr row" and "ly_state layer = LCommitted"
  then obtain guards where g: "collect_results row_of_guard (ly_guards layer) = Inr guards"
    by (auto simp: row_of_layer_def split: sum.splits)
  have "collect_results (guard_of at) guards = Inr (ly_guards layer)"
    by (rule results_back[OF g]) (rule guard_back)
  then show ?thesis
    using r g \<open>ly_state layer = LCommitted\<close>
    by (auto simp: row_of_layer_def layer_of_row_def split: layer_kind.splits layer_author.splits)
qed

section \<open>Contents\<close>

lemma bytes_of_text [simp]: "bytes_of (text_of_bytes bytes) = bytes"
proof -
  have "of_char (char_of (unat b)) = b" for b :: u8
  proof -
    have "unat b < 256" using unsigned_less[where w = b and 'a = nat] by simp
    then have "of_nat (of_char (char_of (unat b))) = b" by simp
    then show ?thesis by (simp only: of_nat_of_char)
  qed
  then show ?thesis by (simp add: bytes_of_def text_of_bytes_def comp_def)
qed

lemma content_back:
  assumes "wf_pid p" "content_pid hash (pid_kind_of p) bytes = Inr p"
  shows "restore_content hash at (row_of_content p bytes) s = (Inr (), snd (sq_intern hash (pid_kind_of p) bytes s))"
  using assms
  by (cases p) (auto simp: restore_content_def row_of_content_def parsed_pid_def pid_from_str_text unhex_def length_hex
      unhex_pairs_hex sq_intern_def hash_result_def content_pid_def split: sum.splits content_error.splits if_splits)

section \<open>Lines\<close>

text \<open>A record whose line the sink can write and the reader reads back.\<close>

definition line_survives :: "(stream_record \<Rightarrow> string + string) \<Rightarrow> (string \<Rightarrow> string + stream_record) \<Rightarrow> stream_record \<Rightarrow> bool" where
  "line_survives enc dec r \<longleftrightarrow>
     (case enc r of
        Inl _ \<Rightarrow> False
      | Inr line \<Rightarrow> CHR 0x0A \<notin> set line \<and> valid_utf8 (line @ [CHR 0x0A]) \<and> trim (line @ [CHR 0x0A]) \<noteq> [] \<and>
          dec (line @ [CHR 0x0A]) = Inr r)"

lemma read_line_first: "CHR 0x0A \<notin> set line \<Longrightarrow> read_line (line @ CHR 0x0A # rest) = (line @ [CHR 0x0A], rest)"
proof -
  assume n: "CHR 0x0A \<notin> set line"
  then have "\<forall>c \<in> set line. c \<noteq> CHR 0x0A" by blast
  then have "takeWhile (\<lambda>c. c \<noteq> CHR 0x0A) (line @ CHR 0x0A # rest) = line" by simp
  then show ?thesis unfolding read_line_def Let_def by simp
qed

lemma next_record_first:
  assumes "line_survives enc dec r" "sink_line enc r = Inr out"
  shows "next_record dec at (out @ rest) = Inr (Some (r, Suc at, rest))"
proof -
  obtain line where l: "enc r = Inr line" "out = line @ [CHR 0x0A]"
    using assms(2) by (auto simp: sink_line_def split: sum.splits)
  have f: "CHR 0x0A \<notin> set line" "valid_utf8 (line @ [CHR 0x0A])" "trim (line @ [CHR 0x0A]) \<noteq> []"
    "dec (line @ [CHR 0x0A]) = Inr r"
    using assms(1) by (simp_all add: line_survives_def l)
  show ?thesis using f read_line_first[OF f(1), of rest] l by (simp add: next_record.simps)
qed

text \<open>Records restored one after another, as the loop over their lines does.\<close>

fun restore_records ::
  "json_texts \<Rightarrow> (u8 list \<Rightarrow> u8 list) \<Rightarrow> nat \<Rightarrow> stream_record list \<Rightarrow> import_state \<Rightarrow> unit stream_result \<times> import_state" where
  "restore_records c hash at [] state = (Inr (), state)"
| "restore_records c hash at (r # rs) state =
     (case restore_record c hash (Suc at) r state of
        (Inl err, state) \<Rightarrow> (Inl err, state)
      | (Inr _, state) \<Rightarrow> restore_records c hash (Suc at) rs state)"

lemma restore_loop_records:
  "\<forall>r \<in> set rs. line_survives enc dec r \<Longrightarrow> collect_results (sink_line enc) rs = Inr out \<Longrightarrow>
   restore_loop dec c hash at (concat out) state = restore_records c hash at rs state"
proof (induction rs arbitrary: at state out)
  case Nil
  then show ?case by (simp add: restore_loop.simps next_record.simps)
next
  case (Cons r rs)
  then obtain line rest where l: "sink_line enc r = Inr line" "collect_results (sink_line enc) rs = Inr rest"
    "out = line # rest" by (auto split: sum.splits)
  have "next_record dec at (line @ concat rest) = Inr (Some (r, Suc at, concat rest))"
    by (rule next_record_first[OF _ l(1)]) (use Cons.prems(1) in simp)
  then show ?case using Cons.IH[OF _ l(2)] Cons.prems(1) l(3)
    by (subst restore_loop.simps) (auto split: prod.splits sum.splits)
qed

lemma restore_records_append:
  "restore_records c hash at (rs @ qs) state =
     (case restore_records c hash at rs state of
        (Inl err, state) \<Rightarrow> (Inl err, state)
      | (Inr _, state) \<Rightarrow> restore_records c hash (at + length rs) qs state)"
  by (induction rs arbitrary: at state) (auto split: prod.splits sum.splits)

end
