(* ===== verification/Export_Import.thy ===== *)
theory Export_Import
  imports Export_Rows
begin

text \<open>
  An import, record by record, against the provider in memory: while a layer is filled, the copy in memory
  holds what has been restored of it. The lemmas follow the records of one layer, its end, and the whole
  list of layers.
\<close>

section \<open>A well kept log\<close>

text \<open>
  What the layer manager keeps of its provider: metadata under its own id, one kind of content in a layer,
  events that were authored at or below the layers that name them, and values with PIDs the system builds.
\<close>

definition well_logged :: "json_texts \<Rightarrow> (u8 list \<Rightarrow> u8 list) \<Rightarrow> inner \<Rightarrow> bool" where
  "well_logged c hash i \<longleftrightarrow>
     (\<forall>l layer. hm_get (in_layer_meta i) l = Some layer \<longrightarrow>
        ly_id layer = l \<and> survives (co_layer c) (layer\<lparr>ly_state := LCommitted\<rparr>)) \<and>
     (\<forall>k b. hm_get (in_branches i) k = Some b \<longrightarrow> br_id b = k \<and> survives (co_branch c) b) \<and>
     (\<forall>l m. hm_get (in_members i) l = Some m \<longrightarrow>
        (\<exists>layer. hm_get (in_layer_meta i) l = Some layer \<and> ly_branch layer = mb_branch m \<and>
           (if ly_kind layer = LKDef then mb_events m = [] else read_def_layer i l = [])) \<and>
        distinct (filter (\<lambda>e. map_option ev_authored (stored i e) = Some l) (mb_events m))) \<and>
     (\<forall>e ev. stored i e = Some ev \<longrightarrow> wf_value (ev_value ev) \<and> e \<in> set (read_membership i (ev_authored ev))) \<and>
     (\<forall>l m e ev. hm_get (in_members i) l = Some m \<longrightarrow> e \<in> set (mb_events m) \<longrightarrow> stored i e = Some ev \<longrightarrow>
        ev_authored ev \<le> l) \<and>
     (\<forall>p bytes. hm_get (in_interned i) p = Some bytes \<longrightarrow> content_pid hash (pid_kind_of p) bytes = Inr p)"

lemma well_loggedD:
  assumes "well_logged c hash i"
  shows "hm_get (in_layer_meta i) l = Some layer \<Longrightarrow> ly_id layer = l"
    "hm_get (in_layer_meta i) l = Some layer \<Longrightarrow> survives (co_layer c) (layer\<lparr>ly_state := LCommitted\<rparr>)"
    "hm_get (in_branches i) k = Some b \<Longrightarrow> br_id b = k"
    "hm_get (in_branches i) k = Some b \<Longrightarrow> survives (co_branch c) b"
    "hm_get (in_members i) l = Some m \<Longrightarrow> distinct (filter (\<lambda>e. map_option ev_authored (stored i e) = Some l) (mb_events m))"
    "stored i e = Some ev \<Longrightarrow> wf_value (ev_value ev)"
    "stored i e = Some ev \<Longrightarrow> e \<in> set (read_membership i (ev_authored ev))"
    "hm_get (in_members i) l = Some m \<Longrightarrow> e \<in> set (mb_events m) \<Longrightarrow> stored i e = Some ev \<Longrightarrow> ev_authored ev \<le> l"
    "hm_get (in_interned i) p = Some bytes \<Longrightarrow> content_pid hash (pid_kind_of p) bytes = Inr p"
  using assms unfolding well_logged_def by blast+

lemma well_logged_layer:
  assumes "well_logged c hash i" "hm_get (in_members i) l = Some m"
  obtains layer where "hm_get (in_layer_meta i) l = Some layer" "ly_branch layer = mb_branch m"
    "ly_kind layer = LKDef \<longrightarrow> mb_events m = []" "ly_kind layer \<noteq> LKDef \<longrightarrow> read_def_layer i l = []"
  using assms unfolding well_logged_def by metis

section \<open>A layer being filled\<close>

text \<open>
  \<open>k\<close> is the copy of \<open>i\<close> with layer \<open>l\<close> open and \<open>j\<close> the copy before it; \<open>ps\<close> are the contents that were asked for.
\<close>

definition fills :: "inner \<Rightarrow> inner \<Rightarrow> layer_id \<Rightarrow> staged_layer \<Rightarrow> pid set \<Rightarrow> inner \<Rightarrow> bool" where
  "fills i j l sl ps k \<longleftrightarrow>
     in_members k = in_members j \<and> in_def_contents k = in_def_contents j \<and> in_layer_meta k = in_layer_meta j \<and>
     in_branches k = in_branches j \<and> in_events k = in_events j \<and> in_next_event k \<le> in_next_event i \<and>
     (\<forall>x. hm_get (in_staged k) x = (if x = l then Some sl else None)) \<and> \<not> sl_sealed sl \<and>
     (\<forall>p. hm_get (in_interned k) p = None \<or> hm_get (in_interned k) p = hm_get (in_interned i) p) \<and>
     (\<forall>p \<in> ps. hm_get (in_interned k) p = hm_get (in_interned i) p)"

lemma fillsD:
  assumes "fills i j l sl ps k"
  shows "in_members k = in_members j" "in_def_contents k = in_def_contents j" "in_layer_meta k = in_layer_meta j"
    "in_branches k = in_branches j" "in_events k = in_events j" "in_next_event k \<le> in_next_event i"
    "hm_get (in_staged k) x = (if x = l then Some sl else None)" "\<not> sl_sealed sl"
    "hm_get (in_interned k) p = None \<or> hm_get (in_interned k) p = hm_get (in_interned i) p"
    "p \<in> ps \<Longrightarrow> hm_get (in_interned k) p = hm_get (in_interned i) p"
  using assms unfolding fills_def by blast+

lemma fills_stored: "fills i j l sl ps k \<Longrightarrow> stored k = stored j"
  by (auto simp: fun_eq_iff stored_def dest: fillsD(5))

lemma one_handle [simp]: "hm_get [(l, h)] l = Some h" "hm_insert l h' [(l, h)] = [(l, h')]" "hm_remove l [(l, h)] = []"
  by simp_all

lemma fills_def_step:
  assumes ag: "agrees c k (s, [(l, h)])" and f: "fills i j l sl ps k" and d: "survives (co_def c) d"
  shows "\<exists>h' s' k'. sq_put_def c d h s = (Inr (), h', s') \<and> agrees c k' (s', [(l, h')]) \<and>
    fills i j l (sl\<lparr>sl_defs := sl_defs sl @ [d]\<rparr>) ps k'"
proof -
  let ?k = "put_staged l (sl\<lparr>sl_defs := sl_defs sl @ [d]\<rparr>) k"
  have "mem_call hash (CPutDef l d) k = (Done, ?k)" for hash
    using fillsD(7,8)[OF f] by (simp add: answered_def mem_put_def_def staged_def)
  from calls_agree[OF ag _ this] d obtain st where st: "sql_call c (\<lambda>x. x) (CPutDef l d) (s, [(l, h)]) = (Done, st)"
    "agrees c ?k st" by force
  have "fills i j l (sl\<lparr>sl_defs := sl_defs sl @ [d]\<rparr>) ps ?k"
    using f by (auto simp: fills_def put_staged_def)
  then show ?thesis using st by (auto simp: on_handle_def answer_of_def split: prod.splits sum.splits)
qed

lemma fills_include_step:
  assumes ag: "agrees c k (s, [(l, h)])" and f: "fills i j l sl ps k" and e: "stored j e \<noteq> None"
  shows "\<exists>h' s' k'. sq_include_event e h s = (Inr (), h', s') \<and> agrees c k' (s', [(l, h')]) \<and>
    fills i j l (sl\<lparr>sl_members := sl_members sl @ [e]\<rparr>) ps k'"
proof -
  let ?k = "put_staged l (sl\<lparr>sl_members := sl_members sl @ [e]\<rparr>) k"
  have "mem_call hash (CInclude l e) k = (Done, ?k)" for hash
    using fillsD(7,8)[OF f] fills_stored[OF f] e by (simp add: answered_def include_event_def staged_def)
  from calls_agree[OF ag _ this] obtain st where st: "sql_call c (\<lambda>x. x) (CInclude l e) (s, [(l, h)]) = (Done, st)"
    "agrees c ?k st" by force
  have "fills i j l (sl\<lparr>sl_members := sl_members sl @ [e]\<rparr>) ps ?k"
    using f by (auto simp: fills_def put_staged_def)
  then show ?thesis using st by (auto simp: on_handle_def answer_of_def split: prod.splits sum.splits)
qed

lemma fills_adopt_step:
  assumes ag: "agrees c k (s, [(l, h)])" and f: "fills i j l sl ps k" and src: "agrees c i src"
    and ev: "stored i (ev_id ev) = Some ev" "ev_authored ev = l" "stored j (ev_id ev) = None"
      "ev_id ev \<notin> staged_ids sl"
  shows "\<exists>h' s' k'. sq_adopt_event c ev h s = (Inr (), h', s') \<and> agrees c k' (s', [(l, h')]) \<and>
    fills i j l (sl\<lparr>sl_members := sl_members sl @ [ev_id ev], sl_authored := sl_authored sl @ [ev]\<rparr>) ps k'"
proof -
  let ?sl = "sl\<lparr>sl_members := sl_members sl @ [ev_id ev], sl_authored := sl_authored sl @ [ev]\<rparr>"
  let ?k = "put_staged l ?sl (k\<lparr>in_next_event := max (in_next_event k) (ev_id ev)\<rparr>)"
  obtain s0 hs0 where s0: "src = (s0, hs0)" by (cases src)
  note g = agreesD[OF src[unfolded s0]]
  have le: "ev_id ev \<le> in_next_event i" using g(1) ev(1) by (simp add: mem_inv_def ids_ok_def)
  have "in_next_event i \<noteq> - 1" using g(3) by (simp add: next_agrees_def)
  then have "ev_id ev \<noteq> - 1" using le by (metis word_order.extremum_unique)
  moreover have "event_survives c ev" using g(7) ev(1) by (auto simp: events_agree_def live_def)
  moreover have "fresh_id k (ev_id ev)"
    using fillsD(7)[OF f] fills_stored[OF f] ev by (auto simp: fresh_id_def stored_def event_at_def slot_of_def split: if_splits)
  ultimately have ok: "caller_ok c k (CAdopt l ev)" by simp
  have "mem_call hash (CAdopt l ev) k = (Done, ?k)" for hash
    using fillsD(7,8)[OF f] ev(2) by (simp add: answered_def adopt_event_def staged_def Let_def)
  from calls_agree[OF ag ok this] obtain st where st: "sql_call c (\<lambda>x. x) (CAdopt l ev) (s, [(l, h)]) = (Done, st)"
    "agrees c ?k st" by force
  have "fills i j l ?sl ps ?k"
    using f le by (auto simp: fills_def put_staged_def)
  then show ?thesis using st by (auto simp: on_handle_def answer_of_def split: prod.splits sum.splits)
qed

lemma fills_intern_step:
  assumes ag: "agrees c k (s, [(l, h)])" and f: "fills i j l sl ps k" and w: "well_logged c hash i"
    and p: "hm_get (in_interned i) p = Some bytes"
  shows "\<exists>k'. agrees c k' (snd (sq_intern hash (pid_kind_of p) bytes s), [(l, h)]) \<and> fills i j l sl (insert p ps) k'"
proof -
  have pid: "content_pid hash (pid_kind_of p) bytes = Inr p" by (rule well_loggedD(9)[OF w p])
  let ?k = "if hm_get (in_interned k) p = None then k\<lparr>in_interned := hm_insert p bytes (in_interned k)\<rparr> else k"
  have "mem_call hash (CIntern (pid_kind_of p) bytes) k = (Interned p, ?k)"
    by (simp add: answered_def intern_def content_result_def pid)
  from calls_agree[OF ag _ this] obtain st where
    "sql_call c hash (CIntern (pid_kind_of p) bytes) (s, [(l, h)]) = (Interned p, st)" "agrees c ?k st" by force
  moreover have "fills i j l sl (insert p ps) ?k"
    using f p fillsD(9)[OF f, of p] by (auto simp: fills_def)
  ultimately show ?thesis by (auto simp: on_store_def)
qed

section \<open>The records of one layer\<close>

lemma staged_ids_members [simp]: "staged_ids (sl\<lparr>sl_members := ms\<rparr>) = staged_ids sl"
  by (simp add: staged_ids_def)

definition needed :: "layer_id \<Rightarrow> event list \<Rightarrow> pid set" where
  "needed l rows = {p. \<exists>ev \<in> set rows. ev_authored ev = l \<and> content_pid_in (ev_value ev) = Some p}"

lemma content_wf: "wf_value v \<Longrightarrow> content_pid_in v = Some p \<Longrightarrow> wf_pid p"
  by (auto simp: wf_value_def content_pid_in_def split: val.splits if_splits)

text \<open>The content record before an event, where there is one.\<close>

definition content_before ::
  "sqlite \<Rightarrow> event \<Rightarrow> pid set \<Rightarrow> (stream_record list \<times> pid set) stream_result" where
  "content_before s event seen =
     (case content_pid_in (ev_value event) of
        Some p \<Rightarrow>
          if p \<in> seen then Inr ([], seen)
          else (case from_store (sq_read_interned s p) of
                  Inl err \<Rightarrow> Inl err
                | Inr None \<Rightarrow> Inr ([], insert p seen)
                | Inr (Some bytes) \<Rightarrow> Inr ([RecContent (row_of_content p bytes)], insert p seen))
      | None \<Rightarrow> Inr ([], seen))"

lemma export_members_own:
  "ev_authored event = l \<Longrightarrow>
   export_members s l (event # rows) seen =
     (case content_before s event seen of
        Inl err \<Rightarrow> Inl err
      | Inr (content, seen) \<Rightarrow>
          (case row_of_event event of
             Inl err \<Rightarrow> Inl err
           | Inr row \<Rightarrow>
               (case export_members s l rows seen of
                  Inl err \<Rightarrow> Inl err
                | Inr (out, events, interned) \<Rightarrow>
                    Inr (content @ RecEvent row # out, Suc events, length content + interned))))"
  by (simp add: content_before_def)

lemma read_interned_agrees:
  assumes "agrees c i (s, hs)" "sq_read_interned s p = Inr bytes"
  shows "bytes = hm_get (in_interned i) p"
proof -
  obtain h where h: "hash_of p = Inr h" "bytes = hm_get (tb_interned (sq_tables s)) (int (kind_code (pid_kind_of p)), h)"
    using assms(2) by (auto simp: sq_read_interned_def hash_result_def split: sum.splits content_error.splits)
  then have "p = Content (pid_kind_of p) h" by (cases p) simp_all
  then show ?thesis using agreesD(11)[OF assms(1)] h(2) by (simp add: interned_agree_def)
qed

text \<open>Restoring it asks for the content that the event refers to.\<close>

lemma restore_content_before:
  assumes src: "agrees c i (s0, hs0)" and w: "well_logged c hash i"
    and ag: "agrees c k (s, [(l, h)])" and f: "fills i j l sl ps k"
    and ev: "wf_value (ev_value ev)" and out: "content_before s0 ev seen = Inr (content, seen')" and ps: "seen \<subseteq> ps"
  shows "\<exists>k' s'. restore_records c hash at content (st, Some (layer, h), s) = (Inr (), st, Some (layer, h), s') \<and>
    agrees c k' (s', [(l, h)]) \<and> fills i j l sl (ps \<union> {p. content_pid_in (ev_value ev) = Some p}) k' \<and>
    seen' \<subseteq> ps \<union> {p. content_pid_in (ev_value ev) = Some p}"
proof (cases "content_pid_in (ev_value ev)")
  case None
  then have "content = []" "seen' = seen" using out by (simp_all add: content_before_def)
  then show ?thesis using None ag f ps by auto
next
  case (Some p)
  have wf: "wf_pid p" by (rule content_wf[OF ev Some])
  have P: "ps \<union> {p. content_pid_in (ev_value ev) = Some p} = insert p ps" using Some by auto
  consider (seen) "p \<in> seen" "content = []" "seen' = seen"
    | (missing) "p \<notin> seen" "sq_read_interned s0 p = Inr None" "content = []" "seen' = insert p seen"
    | (there) bytes where "p \<notin> seen" "sq_read_interned s0 p = Inr (Some bytes)"
        "content = [RecContent (row_of_content p bytes)]" "seen' = insert p seen"
    using out Some by (auto simp: content_before_def from_store_def split: if_splits sum.splits option.splits)
  then show ?thesis
  proof cases
    case seen
    then have "insert p ps = ps" using ps by blast
    then show ?thesis unfolding P using seen ag f ps by auto
  next
    case missing
    then have "hm_get (in_interned i) p = None" using read_interned_agrees[OF src] by metis
    then have "hm_get (in_interned k) p = hm_get (in_interned i) p" using fillsD(9)[OF f, of p] by auto
    then have "fills i j l sl (insert p ps) k" using f by (simp add: fills_def)
    then show ?thesis unfolding P using missing ag ps by auto
  next
    case there
    then have b: "hm_get (in_interned i) p = Some bytes" using read_interned_agrees[OF src] by metis
    obtain k' where k': "agrees c k' (snd (sq_intern hash (pid_kind_of p) bytes s), [(l, h)])"
      "fills i j l sl (insert p ps) k'" using fills_intern_step[OF ag f w b] by blast
    have "restore_content hash (Suc at) (row_of_content p bytes) s = (Inr (), snd (sq_intern hash (pid_kind_of p) bytes s))"
      by (rule content_back[OF wf well_loggedD(9)[OF w b]])
    then show ?thesis unfolding P using k' there ps by auto
  qed
qed

text \<open>All members of a layer.\<close>

lemma restore_members:
  assumes src: "agrees c i (s0, hs0)" and w: "well_logged c hash i"
    and layer: "ly_id layer = l" "ly_kind layer = LKValue"
  shows "agrees c k (s, [(l, h)]) \<Longrightarrow> fills i j l sl ps k \<Longrightarrow>
    export_members s0 l rows seen = Inr (out, ne, ni) \<Longrightarrow> seen \<subseteq> ps \<Longrightarrow>
    \<forall>ev \<in> set rows. stored i (ev_id ev) = Some ev \<and>
      (if ev_authored ev = l then stored j (ev_id ev) = None \<and> ev_id ev \<notin> staged_ids sl else stored j (ev_id ev) \<noteq> None) \<Longrightarrow>
    distinct (map ev_id (filter (\<lambda>ev. ev_authored ev = l) rows)) \<Longrightarrow>
    \<exists>h' s' k'. restore_records c hash pos out (st, Some (layer, h), s) =
        (Inr (), st\<lparr>rs_events := rs_events st + ne\<rparr>, Some (layer, h'), s') \<and>
      agrees c k' (s', [(l, h')]) \<and>
      fills i j l (sl\<lparr>sl_members := sl_members sl @ map ev_id rows,
        sl_authored := sl_authored sl @ filter (\<lambda>ev. ev_authored ev = l) rows\<rparr>) (ps \<union> needed l rows) k'"
proof (induction rows arbitrary: pos k s h sl ps seen out ne ni st)
  case Nil
  then show ?case by (auto simp: needed_def)
next
  case (Cons ev rows)
  have ev: "stored i (ev_id ev) = Some ev" using Cons.prems(5) by simp
  have wf: "wf_value (ev_value ev)" by (rule well_loggedD(6)[OF w ev])
  show ?case
  proof (cases "ev_authored ev = l")
    case False
    then obtain out' where o: "export_members s0 l rows seen = Inr (out', ne, ni)" "out = RecMember (ev_id ev) # out'"
      using Cons.prems(3) by (auto split: sum.splits)
    have "stored j (ev_id ev) \<noteq> None" using Cons.prems(5) False by simp
    then obtain h1 s1 k1 where r: "sq_include_event (ev_id ev) h s = (Inr (), h1, s1)" "agrees c k1 (s1, [(l, h1)])"
      "fills i j l (sl\<lparr>sl_members := sl_members sl @ [ev_id ev]\<rparr>) ps k1"
      using fills_include_step[OF Cons.prems(1,2)] by blast
    have n: "needed l (ev # rows) = needed l rows" using False by (auto simp: needed_def)
    show ?thesis
      using Cons.IH[OF r(2,3) o(1) Cons.prems(4), of "Suc pos" st] Cons.prems(5,6) False r(1) layer
      by (simp add: o(2) n block_for_def)
  next
    case True
    obtain content seen' row out' ne' ni' where o: "content_before s0 ev seen = Inr (content, seen')" "row_of_event ev = Inr row"
      "export_members s0 l rows seen' = Inr (out', ne', ni')" "out = content @ RecEvent row # out'" "ne = Suc ne'"
      using Cons.prems(3) unfolding export_members_own[OF True] by (auto split: sum.splits)
    let ?ps = "ps \<union> {p. content_pid_in (ev_value ev) = Some p}"
    obtain k1 s1 where c1: "restore_records c hash pos content (st, Some (layer, h), s) = (Inr (), st, Some (layer, h), s1)"
      "agrees c k1 (s1, [(l, h)])" "fills i j l sl ?ps k1" "seen' \<subseteq> ?ps"
      using restore_content_before[OF src w Cons.prems(1,2) wf o(1) Cons.prems(4)] by blast
    have e: "stored j (ev_id ev) = None" "ev_id ev \<notin> staged_ids sl" using Cons.prems(5) True by simp_all
    let ?sl = "sl\<lparr>sl_members := sl_members sl @ [ev_id ev], sl_authored := sl_authored sl @ [ev]\<rparr>"
    obtain h2 s2 k2 where c2: "sq_adopt_event c ev h s1 = (Inr (), h2, s2)" "agrees c k2 (s2, [(l, h2)])"
      "fills i j l ?sl ?ps k2" using fills_adopt_step[OF c1(2,3) src ev True e] by blast
    have same: "event_of_row n l row = Inr ev" for n using event_back[OF o(2) wf] True by simp
    have rest: "\<forall>ev \<in> set rows. stored i (ev_id ev) = Some ev \<and>
        (if ev_authored ev = l then stored j (ev_id ev) = None \<and> ev_id ev \<notin> staged_ids ?sl else stored j (ev_id ev) \<noteq> None)"
    proof
      fix x assume x: "x \<in> set rows"
      have "staged_ids ?sl = insert (ev_id ev) (staged_ids sl)" by (auto simp: staged_ids_def)
      moreover have "ev_id x \<noteq> ev_id ev" if "ev_authored x = l" using Cons.prems(6) True x that by (auto simp: image_iff)
      ultimately show "stored i (ev_id x) = Some x \<and>
        (if ev_authored x = l then stored j (ev_id x) = None \<and> ev_id x \<notin> staged_ids ?sl else stored j (ev_id x) \<noteq> None)"
        using Cons.prems(5) x by auto
    qed
    have d: "distinct (map ev_id (filter (\<lambda>ev. ev_authored ev = l) rows))" using Cons.prems(6) True by simp
    have n: "?ps \<union> needed l rows = ps \<union> needed l (ev # rows)" using True by (auto simp: needed_def)
    obtain h3 s3 k3 where c3: "restore_records c hash (Suc (pos + length content)) out' (st\<lparr>rs_events := Suc (rs_events st)\<rparr>, Some (layer, h2), s2) =
        (Inr (), st\<lparr>rs_events := Suc (rs_events st) + ne'\<rparr>, Some (layer, h3), s3)" "agrees c k3 (s3, [(l, h3)])"
      "fills i j l (?sl\<lparr>sl_members := sl_members ?sl @ map ev_id rows,
        sl_authored := sl_authored ?sl @ filter (\<lambda>ev. ev_authored ev = l) rows\<rparr>) (?ps \<union> needed l rows) k3"
      using Cons.IH[OF c2(2,3) o(3) c1(4) rest d, of "Suc (pos + length content)" "st\<lparr>rs_events := Suc (rs_events st)\<rparr>"] by force
    show ?thesis
      using c3 True by (auto simp: o(4,5) restore_records_append c1(1) block_for_def layer same c2(1) n)
  qed
qed

end
