(* ===== verification/Export_Blocks.thy ===== *)
theory Export_Blocks
  imports Export_Import
begin

text \<open>
  From one layer to all of them: the copy before and after a layer's block, and the blocks in the order of
  the stream, which is the order of their layers.
\<close>

section \<open>The copy between two layers\<close>

text \<open>\<open>j\<close> is the copy of \<open>i\<close> that holds the layers of \<open>L\<close>, and no layer is open.\<close>

definition copied :: "inner \<Rightarrow> layer_id set \<Rightarrow> inner \<Rightarrow> bool" where
  "copied i L j \<longleftrightarrow>
     (\<forall>l. hm_get (in_staged j) l = None) \<and>
     (\<forall>l. hm_get (in_members j) l = (if l \<in> L then hm_get (in_members i) l else None)) \<and>
     (\<forall>l. read_def_layer j l = (if l \<in> L then read_def_layer i l else [])) \<and>
     (\<forall>l. hm_get (in_layer_meta j) l =
        (if l \<in> L then map_option (\<lambda>layer. layer\<lparr>ly_state := LCommitted\<rparr>) (hm_get (in_layer_meta i) l) else None)) \<and>
     (\<forall>e. stored j e = (case stored i e of None \<Rightarrow> None | Some ev \<Rightarrow> if ev_authored ev \<in> L then Some ev else None)) \<and>
     (\<forall>b. hm_get (in_branches j) b = hm_get (in_branches i) b) \<and>
     in_next_event j \<le> in_next_event i \<and>
     (\<forall>p. hm_get (in_interned j) p = None \<or> hm_get (in_interned j) p = hm_get (in_interned i) p) \<and>
     (\<forall>e ev p. stored i e = Some ev \<longrightarrow> ev_authored ev \<in> L \<longrightarrow> content_pid_in (ev_value ev) = Some p \<longrightarrow>
        hm_get (in_interned j) p = hm_get (in_interned i) p)"

lemma copiedD:
  assumes "copied i L j"
  shows "hm_get (in_staged j) l = None"
    "hm_get (in_members j) l = (if l \<in> L then hm_get (in_members i) l else None)"
    "read_def_layer j l = (if l \<in> L then read_def_layer i l else [])"
    "hm_get (in_layer_meta j) l =
        (if l \<in> L then map_option (\<lambda>layer. layer\<lparr>ly_state := LCommitted\<rparr>) (hm_get (in_layer_meta i) l) else None)"
    "stored j e = (case stored i e of None \<Rightarrow> None | Some ev \<Rightarrow> if ev_authored ev \<in> L then Some ev else None)"
    "hm_get (in_branches j) b = hm_get (in_branches i) b"
    "in_next_event j \<le> in_next_event i"
    "hm_get (in_interned j) p = None \<or> hm_get (in_interned j) p = hm_get (in_interned i) p"
    "stored i e = Some ev \<Longrightarrow> ev_authored ev \<in> L \<Longrightarrow> content_pid_in (ev_value ev) = Some p \<Longrightarrow>
        hm_get (in_interned j) p = hm_get (in_interned i) p"
  using assms unfolding copied_def by blast+

definition contents_in :: "inner \<Rightarrow> layer_id set \<Rightarrow> pid set" where
  "contents_in i L = {p. \<exists>e ev. stored i e = Some ev \<and> ev_authored ev \<in> L \<and> content_pid_in (ev_value ev) = Some p}"

definition rows_of :: "inner \<Rightarrow> layer_id \<Rightarrow> event list" where
  "rows_of i l = map (\<lambda>e. the (stored i e)) (read_membership i l)"

section \<open>Opening and closing a block\<close>

lemma block_opens:
  assumes ag: "agrees c j (s, [])" and co: "copied i L j" and l: "l \<notin> L" "small_id l"
  shows "\<exists>h s' k. sq_open_layer b l s = (Inr h, s') \<and> agrees c k (s', [(l, h)]) \<and>
    fills i j l \<lparr>sl_branch = b, sl_members = [], sl_authored = [], sl_defs = [], sl_sealed = False\<rparr> (contents_in i L) k"
proof -
  let ?sl = "\<lparr>sl_branch = b, sl_members = [], sl_authored = [], sl_defs = [], sl_sealed = False\<rparr>"
  have "mem_call hash (COpen b l) j = (Done, put_staged l ?sl j)" for hash
    using copiedD(1,2)[OF co] l by (simp add: answered_def open_layer_def)
  from calls_agree[OF ag _ this] l obtain st where st: "sql_call c (\<lambda>x. x) (COpen b l) (s, []) = (Done, st)"
    "agrees c (put_staged l ?sl j) st" by force
  have "fills i j l ?sl (contents_in i L) (put_staged l ?sl j)"
    using copiedD(1,7,8)[OF co] copiedD(9)[OF co]
    by (auto simp: fills_def put_staged_def contents_in_def)
  then show ?thesis using st by (auto split: prod.splits sum.splits)
qed

text \<open>What a block has put in its layer when it ends.\<close>

definition filled :: "inner \<Rightarrow> layer_id \<Rightarrow> branch_id \<Rightarrow> staged_layer" where
  "filled i l b = \<lparr>sl_branch = b, sl_members = map ev_id (rows_of i l),
     sl_authored = filter (\<lambda>ev. ev_authored ev = l) (rows_of i l), sl_defs = read_def_layer i l, sl_sealed = False\<rparr>"

lemma rows_stored:
  assumes "mem_inv i" "hm_get (in_members i) l = Some m" "ev \<in> set (rows_of i l)"
  shows "stored i (ev_id ev) = Some ev" "ev_id ev \<in> set (mb_events m)"
proof -
  obtain e where e: "e \<in> set (mb_events m)" "ev = the (stored i e)"
    using assms(2,3) by (auto simp: rows_of_def read_membership_def)
  then have "stored i e \<noteq> None" using mem_invD(3)[OF assms(1)] assms(2) by (auto simp: members_ok_def)
  then have "stored i e = Some ev" using e(2) by simp
  moreover from stored_live[OF assms(1) this] have "ev_id ev = e" by simp
  ultimately show "stored i (ev_id ev) = Some ev" "ev_id ev \<in> set (mb_events m)" using e(1) by simp_all
qed

lemma rows_ids:
  assumes "mem_inv i" "hm_get (in_members i) l = Some m"
  shows "map ev_id (rows_of i l) = mb_events m"
proof -
  have "ev_id (the (stored i e)) = e" if "e \<in> set (mb_events m)" for e
  proof -
    have "stored i e \<noteq> None" using mem_invD(3)[OF assms(1)] assms(2) that by (auto simp: members_ok_def)
    then show ?thesis using stored_live[OF assms(1)] by auto
  qed
  then have "map (ev_id \<circ> (\<lambda>e. the (stored i e))) (mb_events m) = mb_events m" by (intro map_idI) simp
  then show ?thesis by (simp add: rows_of_def read_membership_def assms(2))
qed

lemma own_rows:
  assumes inv: "mem_inv i" and w: "well_logged c hash i" and m: "hm_get (in_members i) l = Some m"
  shows "by_id (filter (\<lambda>ev. ev_authored ev = l) (rows_of i l)) e =
    (case stored i e of None \<Rightarrow> None | Some ev \<Rightarrow> if ev_authored ev = l then Some ev else None)"
proof (cases "by_id (filter (\<lambda>ev. ev_authored ev = l) (rows_of i l)) e")
  case (Some ev)
  then have "ev \<in> set (rows_of i l)" "ev_authored ev = l" "ev_id ev = e" by (auto dest: by_id_Some)
  then show ?thesis using rows_stored(1)[OF inv m] Some by auto
next
  case None
  have "ev_authored ev \<noteq> l" if "stored i e = Some ev" for ev
  proof
    assume a: "ev_authored ev = l"
    have "e \<in> set (read_membership i l)" using well_loggedD(7)[OF w that] a by simp
    then have "ev \<in> set (rows_of i l)" using that by (force simp: rows_of_def)
    moreover have "ev_id ev = e" using stored_live[OF inv that] by simp
    ultimately show False using None a by (auto simp: by_id_dom)
  qed
  then show ?thesis using None by (auto split: option.split)
qed

lemma block_closes:
  assumes src: "agrees c i (s0, hs0)" and w: "well_logged c hash i" and m: "hm_get (in_members i) l = Some m"
    and meta: "hm_get (in_layer_meta i) l = Some lay" "layer = lay\<lparr>ly_state := LCommitted\<rparr>"
    and co: "copied i L j" and l: "l \<notin> L"
    and ag: "agrees c k (s, [(l, h)])" and f: "fills i j l (filled i l (mb_branch m)) (contents_in i (insert l L)) k"
  shows "\<exists>s' j'. close_block c (layer, h) s = (Inr (), s') \<and> agrees c j' (s', []) \<and> copied i (insert l L) j'"
proof -
  note inv = agreesD(1)[OF src]
  let ?sl = "filled i l (mb_branch m)"
  let ?k1 = "put_staged l (?sl\<lparr>sl_sealed := True\<rparr>) k"
  have lid: "ly_id layer = l" "survives (co_layer c) layer"
    using well_loggedD(1,2)[OF w meta(1)] meta(2) by simp_all
  have "mem_call (\<lambda>x. x) (CSeal l) k = (Done, ?k1)" "caller_ok c k (CSeal l)"
    using fillsD(7,8)[OF f] by (simp_all add: answered_def mem_seal_def handle_held_def)
  from calls_agree[OF ag this(2,1)] obtain st1 where st1: "sql_call c (\<lambda>x. x) (CSeal l) (s, [(l, h)]) = (Done, st1)"
    "agrees c ?k1 st1" by auto
  then obtain s1 l' where s1: "sq_seal h s = (Inr l', s1)" "st1 = (s1, [])"
    by (auto simp: end_handle_def answer_of_def split: prod.splits sum.splits)
  have hid: "ol_id h = l"
  proof -
    have "handle_agrees l (hm_get (in_staged k) l) (hm_get [(l, h)] l)"
      using agreesD(5)[OF ag] unfolding handles_agree_def by blast
    then show ?thesis using fillsD(7)[OF f] by (simp add: handle_agrees_def)
  qed
  have l'[simp]: "l' = l" using s1(1) hid by (auto simp: sq_seal_def split: prod.splits sum.splits)
  let ?k2 = "put_layer_meta layer ?k1"
  have "caller_ok c ?k1 (CMeta layer)" using lid by (simp add: put_staged_def)
  from calls_agree[OF st1(2)[unfolded s1(2)] this, of "\<lambda>x. x" Done ?k2]
  obtain st2 where st2: "sql_call c (\<lambda>x. x) (CMeta layer) (s1, []) = (Done, st2)" "agrees c ?k2 st2" by auto
  then obtain s2 where s2: "sq_put_layer_meta c layer s1 = (Inr (), s2)" "st2 = (s2, [])"
    by (cases "sq_put_layer_meta c layer s1") (auto simp: on_store_def answer_of_def split: sum.splits)
  have sl: "hm_get (in_staged ?k2) l = Some (?sl\<lparr>sl_sealed := True\<rparr>)" by (simp add: put_layer_meta_def put_staged_def)
  have inv2: "mem_inv ?k2" using agreesD(1)[OF st2(2)[unfolded s2(2)]] .
  obtain events reads where cm: "commit_layer l ?k2 = (Inr (), committed_state ?k2 l (?sl\<lparr>sl_sealed := True\<rparr>) events reads)"
    "\<And>e. event_at events e = (case by_id (sl_authored (?sl\<lparr>sl_sealed := True\<rparr>)) e of Some ev \<Rightarrow> Some ev
        | None \<Rightarrow> event_at (in_events ?k2) e)"
    by (rule commit_cases[OF inv2 sl]) simp_all
  let ?k3 = "committed_state ?k2 l (?sl\<lparr>sl_sealed := True\<rparr>) events reads"
  have "mem_call (\<lambda>x. x) (CCommit l) ?k2 = (Done, ?k3)" by (simp add: answered_def cm(1))
  from calls_agree[OF st2(2)[unfolded s2(2)] _ this] obtain st3 where
    st3: "sql_call c (\<lambda>x. x) (CCommit l) (s2, []) = (Done, st3)" "agrees c ?k3 st3" by auto
  then obtain s3 where s3: "sq_commit_layer l s2 = (Inr (), s3)" "st3 = (s3, [])"
    by (cases "sq_commit_layer l s2") (auto simp: on_store_def answer_of_def split: sum.splits)
  have "close_block c (layer, h) s = (Inr (), s3)"
    by (simp add: close_block_def s1(1) s2(1) s3(1))
  moreover have "copied i (insert l L) ?k3"
  proof -
    have st: "stored ?k3 e = (case stored i e of None \<Rightarrow> None | Some ev \<Rightarrow> if ev_authored ev \<in> insert l L then Some ev else None)" for e
    proof -
      have "event_at (in_events ?k2) e = stored j e" using fillsD(5)[OF f] by (simp add: stored_def put_layer_meta_def put_staged_def)
      then show ?thesis using cm(2)[of e] own_rows[OF inv w m, of e] copiedD(5)[OF co, of e] l
        by (auto simp: stored_def filled_def split: option.splits)
    qed
    have sm: "sl_members ?sl = mb_events m" "sl_branch ?sl = mb_branch m" "sl_defs ?sl = read_def_layer i l"
      using rows_ids[OF inv m] by (simp_all add: filled_def)
    have int: "\<forall>e ev p. stored i e = Some ev \<longrightarrow> ev_authored ev \<in> insert l L \<longrightarrow> content_pid_in (ev_value ev) = Some p \<longrightarrow>
        hm_get (in_interned ?k3) p = hm_get (in_interned i) p"
      using fillsD(10)[OF f] by (auto simp: contents_in_def put_layer_meta_def put_staged_def)
    have "hm_get (in_interned ?k3) p = None \<or> hm_get (in_interned ?k3) p = hm_get (in_interned i) p" for p
      using fillsD(9)[OF f] by (simp add: put_layer_meta_def put_staged_def)
    with st int show ?thesis
      unfolding copied_def
      using fillsD(1-8)[OF f] copiedD(1-4,6,7)[OF co] sm m meta lid(1)
      by (simp add: put_layer_meta_def put_staged_def read_def_layer_def)
  qed
  ultimately show ?thesis using st3(2) s3(2) by blast
qed

section \<open>What is read of a committed layer\<close>

lemma layer_defs_read:
  assumes ag: "agrees c i (s, hs)" and m: "hm_get (in_members i) l = Some m"
  shows "sq_read_def_layer c s l = Inr (read_def_layer i l)" "\<forall>d \<in> set (read_def_layer i l). survives (co_def c) d"
proof -
  have d: "map Inr (layer_rows (as_i64 l) (tb_defs (sq_tables s))) = map (encode_text (co_def c)) (read_def_layer i l)"
    "\<forall>d \<in> set (read_def_layer i l). survives (co_def c) d"
    using agreesD(9)[OF ag] m unfolding defs_agree_def by (simp_all add: def_contents_def) (metis option.simps(5))+
  have "decode_all (co_def c) raws = Inr ds"
    if "map Inr raws = map (encode_text (co_def c)) ds" "\<forall>d \<in> set ds. survives (co_def c) d" for raws ds
    using that
  proof (induction ds arbitrary: raws)
    case (Cons d ds)
    then obtain raw rest where r: "raws = raw # rest" "encode_text (co_def c) d = Inr raw"
      "map Inr rest = map (encode_text (co_def c)) ds" by (cases raws) auto
    moreover have "decode_text (co_def c) raw = Inr d" using Cons.prems(2) r(2) by (auto elim!: survivesD)
    ultimately show ?case using Cons by simp
  qed simp
  with d show "sq_read_def_layer c s l = Inr (read_def_layer i l)" "\<forall>d \<in> set (read_def_layer i l). survives (co_def c) d"
    by (simp_all add: sq_read_def_layer_def)
qed

lemma layer_rows_read:
  assumes ag: "agrees c i (s, hs)" and m: "hm_get (in_members i) l = Some m"
  shows "sq_read_layer c s l = Inr (rows_of i l)"
proof -
  have st: "\<forall>e \<in> set (mb_events m). stored i e \<noteq> None"
    using mem_invD(3)[OF agreesD(1)[OF ag]] m unfolding members_ok_def by blast
  show ?thesis
    using decode_rows_stored[OF ag st] by (simp add: sq_read_layer_def committed_rows[OF ag m] rows_of_def read_membership_def m)
qed

lemma committed_small: "agrees c i (s, hs) \<Longrightarrow> hm_get (in_members i) l = Some m \<Longrightarrow> small_id l"
  using view_committed[OF agreesD(4)] by blast

section \<open>The block of one layer\<close>

lemma restore_defs:
  "agrees c k (s, [(l, h)]) \<Longrightarrow> fills i j l sl ps k \<Longrightarrow> ly_kind layer = LKDef \<Longrightarrow> \<forall>d \<in> set ds. survives (co_def c) d \<Longrightarrow>
   \<exists>h' s' k'. restore_records c hash pos (map RecDef ds) (st, Some (layer, h), s) = (Inr (), st, Some (layer, h'), s') \<and>
     agrees c k' (s', [(l, h')]) \<and> fills i j l (sl\<lparr>sl_defs := sl_defs sl @ ds\<rparr>) ps k'"
proof (induction ds arbitrary: pos k s h sl)
  case (Cons d ds)
  obtain h1 s1 k1 where c1: "sq_put_def c d h s = (Inr (), h1, s1)" "agrees c k1 (s1, [(l, h1)])"
    "fills i j l (sl\<lparr>sl_defs := sl_defs sl @ [d]\<rparr>) ps k1"
    using fills_def_step[OF Cons.prems(1,2), of d] Cons.prems(4) by (meson list.set_intros(1))
  show ?case
    using Cons.IH[OF c1(2,3) Cons.prems(3), of "Suc pos"] Cons.prems(3,4) by (simp add: block_for_def c1(1))
qed auto

lemma restore_block:
  assumes src: "agrees c i (s0, hs0)" and w: "well_logged c hash i" and m: "hm_get (in_members i) l = Some m"
    and meta: "hm_get (in_layer_meta i) l = Some lay" "layer = lay\<lparr>ly_state := LCommitted\<rparr>"
    and ag: "agrees c j (s', [])" "copied i L j" "close_open c blk s = (Inr (), s')" and l: "l \<notin> L"
    and below: "\<forall>ev \<in> set (rows_of i l). ev_authored ev \<noteq> l \<longrightarrow> ev_authored ev \<in> L"
    and out: "export_layer c s0 layer = Inr (out, ne, ni)"
  shows "\<exists>blk2 s2 s3 j2. restore_records c hash pos out (st, blk, s) =
      (Inr (), st\<lparr>rs_layers := Suc (rs_layers st), rs_head := max (rs_head st) l, rs_events := rs_events st + ne\<rparr>, blk2, s2) \<and>
    close_open c blk2 s2 = (Inr (), s3) \<and> agrees c j2 (s3, []) \<and> copied i (insert l L) j2"
proof -
  note inv = agreesD(1)[OF src]
  have lid: "ly_id layer = l" using well_loggedD(1)[OF w meta(1)] meta(2) by simp
  obtain lay' where "hm_get (in_layer_meta i) l = Some lay'" "ly_branch lay' = mb_branch m"
    "ly_kind lay' = LKDef \<longrightarrow> mb_events m = []" "ly_kind lay' \<noteq> LKDef \<longrightarrow> read_def_layer i l = []"
    using well_logged_layer[OF w m] by metis
  then have kind: "ly_branch layer = mb_branch m" "ly_kind layer = LKDef \<longrightarrow> mb_events m = []"
    "ly_kind layer \<noteq> LKDef \<longrightarrow> read_def_layer i l = []" using meta by auto
  obtain row body where row: "row_of_layer layer = Inr row" "out = RecLayer row # body"
    using out by (auto simp: export_layer_def split: sum.splits if_splits)
  have again: "layer_of_row n row = Inr layer" for n using layer_back[OF row(1)] meta(2) by simp
  have rid: "ll_id row = l" using row(1) lid by (auto simp: row_of_layer_def split: sum.splits)
  obtain h s1 k where o: "sq_open_layer (mb_branch m) l s' = (Inr h, s1)" "agrees c k (s1, [(l, h)])"
    "fills i j l \<lparr>sl_branch = mb_branch m, sl_members = [], sl_authored = [], sl_defs = [], sl_sealed = False\<rparr> (contents_in i L) k"
    using block_opens[OF ag(1,2) l committed_small[OF src m]] by blast
  let ?st = "st\<lparr>rs_layers := Suc (rs_layers st), rs_head := max (rs_head st) l\<rparr>"
  let ?fill = "fills i j l (filled i l (mb_branch m)) (contents_in i (insert l L))"
  have first: "restore_records c hash pos out (st, blk, s) = restore_records c hash (Suc pos) body (?st, Some (layer, h), s1)"
    by (simp add: row(2) ag(3) open_block_def again o(1) kind(1) lid rid)
  have "\<exists>h2 s2 k2. restore_records c hash (Suc pos) body (?st, Some (layer, h), s1) =
      (Inr (), ?st\<lparr>rs_events := rs_events st + ne\<rparr>, Some (layer, h2), s2) \<and> agrees c k2 (s2, [(l, h2)]) \<and> ?fill k2"
  proof (cases "ly_kind layer = LKDef")
    case True
    have b: "body = map RecDef (read_def_layer i l)" "ne = 0"
      using out True by (simp_all add: export_layer_def row lid from_store_def layer_defs_read(1)[OF src m])
    have none: "rows_of i l = []" using kind(2) True by (simp add: rows_of_def read_membership_def m)
    have "stored i e = Some ev \<Longrightarrow> ev_authored ev \<noteq> l" for e ev
      using well_loggedD(7)[OF w, of e ev] kind(2) True m by (auto simp: read_membership_def)
    then have "contents_in i (insert l L) = contents_in i L" by (auto simp: contents_in_def)
    then show ?thesis
      using restore_defs[OF o(2,3) True layer_defs_read(2)[OF src m], of hash "Suc pos" ?st] by (simp add: b filled_def none)
  next
    case False
    then have v: "ly_kind layer = LKValue" by (cases "ly_kind layer") simp_all
    have b: "export_members s0 l (rows_of i l) {} = Inr (body, ne, ni)"
      using out False by (auto simp: export_layer_def row lid from_store_def layer_rows_read[OF src m] split: sum.splits)
    have cond: "\<forall>ev \<in> set (rows_of i l). stored i (ev_id ev) = Some ev \<and>
      (if ev_authored ev = l then stored j (ev_id ev) = None \<and> ev_id ev \<notin> staged_ids \<lparr>sl_branch = mb_branch m, sl_members = [], sl_authored = [], sl_defs = [], sl_sealed = False\<rparr>
       else stored j (ev_id ev) \<noteq> None)"
      using rows_stored(1)[OF inv m] copiedD(5)[OF ag(2)] l below by (simp add: staged_ids_def)
    have d: "distinct (map ev_id (filter (\<lambda>ev. ev_authored ev = l) (rows_of i l)))"
    proof -
      have "map ev_id (filter (\<lambda>ev. ev_authored ev = l) (rows_of i l)) =
        filter (\<lambda>e. map_option ev_authored (stored i e) = Some l) (map ev_id (rows_of i l))"
        using rows_stored(1)[OF inv m] by (simp add: filter_map comp_def cong: filter_cong)
      then show ?thesis using well_loggedD(5)[OF w m] rows_ids[OF inv m] by simp
    qed
    have "contents_in i (insert l L) = contents_in i L \<union> needed l (rows_of i l)"
    proof -
      have "\<exists>ev \<in> set (rows_of i l). ev = ev'" if "stored i e = Some ev'" "ev_authored ev' = l" for e ev'
        using well_loggedD(7)[OF w that(1)] that by (force simp: rows_of_def)
      then show ?thesis using rows_stored(1)[OF inv m] by (fastforce simp: contents_in_def needed_def)
    qed
    moreover have "read_def_layer i l = []" using kind(3) False by simp
    ultimately show ?thesis
      using restore_members[OF src w lid v o(2,3) b _ cond d, of "Suc pos" ?st] by (simp add: filled_def)
  qed
  then obtain h2 s2 k2 where r: "restore_records c hash (Suc pos) body (?st, Some (layer, h), s1) =
      (Inr (), ?st\<lparr>rs_events := rs_events st + ne\<rparr>, Some (layer, h2), s2)" "agrees c k2 (s2, [(l, h2)])" "?fill k2" by blast
  obtain s3 j2 where e: "close_block c (layer, h2) s2 = (Inr (), s3)" "agrees c j2 (s3, [])" "copied i (insert l L) j2"
    using block_closes[OF src w m meta ag(2) l r(2,3)] by blast
  show ?thesis
    by (intro exI[of _ "Some (layer, h2)"] exI[of _ s2] exI[of _ s3] exI[of _ j2])
       (simp add: first r(1) close_open_def e)
qed

section \<open>All layers\<close>

definition exported_layers :: "inner \<Rightarrow> layer list \<Rightarrow> bool" where
  "exported_layers i layers \<longleftrightarrow> (\<forall>layer \<in> set layers. \<exists>lay m. hm_get (in_members i) (ly_id layer) = Some m \<and>
     hm_get (in_layer_meta i) (ly_id layer) = Some lay \<and> layer = lay\<lparr>ly_state := LCommitted\<rparr>)"

lemma restore_blocks:
  assumes src: "agrees c i (s0, hs0)" and w: "well_logged c hash i"
  shows "exported_layers i layers \<Longrightarrow> sorted_wrt (\<lambda>a b. ly_id a < ly_id b) layers \<Longrightarrow>
    {l. hm_get (in_members i) l \<noteq> None} = L \<union> ly_id ` set layers \<Longrightarrow> \<forall>l \<in> L. \<forall>layer \<in> set layers. l < ly_id layer \<Longrightarrow>
    agrees c j (s', []) \<Longrightarrow> copied i L j \<Longrightarrow> close_open c blk s = (Inr (), s') \<Longrightarrow>
    \<forall>layer \<in> set layers. rs_head st \<le> ly_id layer \<Longrightarrow>
    collect_results (export_layer c s0) layers = Inr blocks \<Longrightarrow>
    \<exists>blk2 s2 s3 j2. restore_records c hash pos (concat (map fst blocks)) (st, blk, s) =
        (Inr (), st\<lparr>rs_layers := rs_layers st + length layers, rs_head := (if layers = [] then rs_head st else ly_id (last layers)),
           rs_events := rs_events st + sum_list (map (\<lambda>(_, events, _). events) blocks)\<rparr>, blk2, s2) \<and>
      close_open c blk2 s2 = (Inr (), s3) \<and> agrees c j2 (s3, []) \<and> copied i (L \<union> ly_id ` set layers) j2"
proof (induction layers arbitrary: pos L j s s' blk st blocks)
  case Nil
  then show ?case by auto
next
  case (Cons layer layers)
  let ?l = "ly_id layer"
  obtain lay m where m: "hm_get (in_members i) ?l = Some m" "hm_get (in_layer_meta i) ?l = Some lay"
    "layer = lay\<lparr>ly_state := LCommitted\<rparr>" using Cons.prems(1) by (auto simp: exported_layers_def)
  obtain out ne ni blocks' where b: "export_layer c s0 layer = Inr (out, ne, ni)"
    "collect_results (export_layer c s0) layers = Inr blocks'" "blocks = (out, ne, ni) # blocks'"
    using Cons.prems(9) by (auto split: sum.splits)
  have l: "?l \<notin> L" using Cons.prems(4) by fastforce
  have below: "\<forall>ev \<in> set (rows_of i ?l). ev_authored ev \<noteq> ?l \<longrightarrow> ev_authored ev \<in> L"
  proof (intro ballI impI)
    fix ev assume ev: "ev \<in> set (rows_of i ?l)" "ev_authored ev \<noteq> ?l"
    note r = rows_stored[OF agreesD(1)[OF src] m(1) ev(1)]
    have "ev_authored ev < ?l" using well_loggedD(8)[OF w m(1) r(2,1)] ev(2) by simp
    moreover have "hm_get (in_members i) (ev_authored ev) \<noteq> None"
      using well_loggedD(7)[OF w r(1)] by (cases "hm_get (in_members i) (ev_authored ev)") (auto simp: read_membership_def)
    then have "ev_authored ev \<in> L \<union> ly_id ` set (layer # layers)" using Cons.prems(3) by blast
    ultimately show "ev_authored ev \<in> L" using Cons.prems(2) by auto
  qed
  obtain blk1 s1 s2 j1 where r: "restore_records c hash pos out (st, blk, s) =
      (Inr (), st\<lparr>rs_layers := Suc (rs_layers st), rs_head := max (rs_head st) ?l, rs_events := rs_events st + ne\<rparr>, blk1, s1)"
    "close_open c blk1 s1 = (Inr (), s2)" "agrees c j1 (s2, [])" "copied i (insert ?l L) j1"
    using restore_block[OF src w m(1,2,3) Cons.prems(5,6,7) l below b(1)] by blast
  let ?st = "st\<lparr>rs_layers := Suc (rs_layers st), rs_head := ?l, rs_events := rs_events st + ne\<rparr>"
  have mx: "max (rs_head st) ?l = ?l" using Cons.prems(8) by simp
  have "exported_layers i layers" using Cons.prems(1) by (simp add: exported_layers_def)
  moreover have "sorted_wrt (\<lambda>a b. ly_id a < ly_id b) layers" using Cons.prems(2) by simp
  moreover have "{l. hm_get (in_members i) l \<noteq> None} = insert ?l L \<union> ly_id ` set layers" using Cons.prems(3) by auto
  moreover have "\<forall>l \<in> insert ?l L. \<forall>layer \<in> set layers. l < ly_id layer" using Cons.prems(2,4) by auto
  moreover have "\<forall>layer \<in> set layers. rs_head ?st \<le> ly_id layer" using Cons.prems(2) by auto
  ultimately obtain blk2 s3 s4 j2 where t: "restore_records c hash (pos + length out) (concat (map fst blocks')) (?st, blk1, s1) =
        (Inr (), ?st\<lparr>rs_layers := rs_layers ?st + length layers, rs_head := (if layers = [] then rs_head ?st else ly_id (last layers)),
           rs_events := rs_events ?st + sum_list (map (\<lambda>(_, events, _). events) blocks')\<rparr>, blk2, s3)"
      "close_open c blk2 s3 = (Inr (), s4)" "agrees c j2 (s4, [])" "copied i (insert ?l L \<union> ly_id ` set layers) j2"
    using Cons.IH[OF _ _ _ _ r(3,4,2) _ b(2), of ?st "pos + length out"] by blast
  have "restore_records c hash pos (concat (map fst blocks)) (st, blk, s) =
      (Inr (), st\<lparr>rs_layers := rs_layers st + length (layer # layers), rs_head := (if layer # layers = [] then rs_head st else ly_id (last (layer # layers))),
           rs_events := rs_events st + sum_list (map (\<lambda>(_, events, _). events) blocks)\<rparr>, blk2, s3)"
    using t(1) by (simp add: b(3) restore_records_append r(1) mx add.assoc)
  then show ?case using t(2-4) by (intro exI[of _ blk2] exI[of _ s3] exI[of _ s4] exI[of _ j2]) (simp add: insert_commute)
qed

end
