(* ===== verification/Export_Properties.thy ===== *)
theory Export_Properties
  imports Export_Blocks
begin

text \<open>
  Exporting a registry, importing the stream into a fresh store and exporting that gives the same bytes.
\<close>

section \<open>What an export reads of a store\<close>

lemma sort_key_set:
  fixes f :: "'a \<Rightarrow> 'k :: linorder"
  assumes "distinct (map f xs)" "distinct (map f ys)" "set xs = set ys"
  shows "sort_key f xs = sort_key f ys"
proof -
  let ?xs = "sort_key f xs" and ?ys = "sort_key f ys"
  have "map f ?xs = map f ?ys"
    using assms by (intro sorted_distinct_set_unique) (simp_all add: distinct_map)
  moreover have "inj_on f (set ?xs \<union> set ?ys)" using assms by (simp add: distinct_map)
  ultimately show ?thesis by (rule map_inj_on)
qed

text \<open>The metadata under its own id, where there is any.\<close>

definition named_meta :: "inner \<Rightarrow> bool" where
  "named_meta i \<longleftrightarrow> (\<forall>l lay. hm_get (in_layer_meta i) l = Some lay \<longrightarrow> ly_id lay = l) \<and>
     (\<forall>k b. hm_get (in_branches i) k = Some b \<longrightarrow> br_id b = k)"

definition row_layer :: "inner \<Rightarrow> int \<times> layer_row \<Rightarrow> layer option" where
  "row_layer i nr = map_option (\<lambda>lay. lay\<lparr>ly_state := state_of_row (lr_state (snd nr))\<rparr>) (hm_get (in_layer_meta i) (as_u64 (fst nr)))"

lemma decode_layers_meta:
  "\<forall>(n, row) \<in> set rows. told (co_layer c) (hm_get (in_layer_meta i) (as_u64 n)) (lr_meta row) \<Longrightarrow>
   decode_layers c rows = Inr (List.map_filter (row_layer i) rows)"
proof (induction rows)
  case (Cons nr rows)
  obtain n row where nr: "nr = (n, row)" by fastforce
  then show ?case using Cons
    by (cases "hm_get (in_layer_meta i) (as_u64 n)") (auto simp: row_layer_def List.map_filter_simps)
qed (simp add: List.map_filter_simps)

lemma distinct_rows:
  "(\<And>x y. x \<in> set xs \<Longrightarrow> f x = Some y \<Longrightarrow> g y = k x) \<Longrightarrow> distinct (map k xs) \<Longrightarrow>
   distinct (map g (List.map_filter f xs))"
proof (induction xs)
  case (Cons x xs)
  have IH: "distinct (map g (List.map_filter f xs))" using Cons by (intro Cons.IH) auto
  show ?case
  proof (cases "f x")
    case None
    then show ?thesis using IH by (simp add: List.map_filter_simps)
  next
    case (Some y)
    have "g y \<noteq> g z" if z: "z \<in> set (List.map_filter f xs)" for z
    proof -
      obtain x' where x': "x' \<in> set xs" "f x' = Some z" using z by (auto simp: List.map_filter_def)
      have "k x \<notin> k ` set xs" using Cons.prems(2) by simp
      then have "k x' \<noteq> k x" using x'(1) by (metis imageI)
      then show ?thesis using Cons.prems(1)[of x y] Cons.prems(1)[of x' z] Some x' by simp
    qed
    then show ?thesis using IH Some by (auto simp: List.map_filter_simps)
  qed
qed (simp add: List.map_filter_simps)

lemma inj_as_u64: "\<forall>n \<in> N. \<exists>l. n = as_i64 l \<Longrightarrow> inj_on as_u64 N"
  by (rule inj_onI) (metis as_u64_i64)

text \<open>The committed layers of a store are those of the provider in memory, with their metadata.\<close>

lemma state_names [simp]: "row_open \<noteq> row_committed" "row_sealed \<noteq> row_committed" "row_committed \<noteq> row_open"
  by (simp_all add: row_open_def row_sealed_def row_committed_def)

lemma layers_read:
  assumes ag: "agrees c i (s, hs)" and named: "named_meta i"
  obtains known where "sq_read_layers c s = Inr known" "distinct (map ly_id known)"
    "set (filter (\<lambda>layer. ly_state layer = LCommitted) known) =
       {layer. exported_layers i [layer]}"
proof -
  let ?t = "tb_layers (sq_tables s)"
  note g = agreesD[OF ag]
  have keys: "\<exists>l. n = as_i64 l" if "(n, row) \<in> set ?t" for n row
    using g(4) that unfolding layers_agree_def by (metis option.distinct(1) weak_map_of_SomeI)
  have dk: "distinct (map fst ?t)" using tables_okD(1)[OF g(2)] by (rule bt_ok_distinct)
  have at: "hm_get ?t n = Some row" if "(n, row) \<in> set ?t" for n row using map_of_is_SomeI[OF dk that] .
  have t: "told (co_layer c) (hm_get (in_layer_meta i) (as_u64 n)) (lr_meta row)" if "(n, row) \<in> set ?t" for n row
    using keys[OF that] at[OF that] g(12) unfolding meta_agrees_def by auto
  let ?known = "List.map_filter (row_layer i) ?t"
  have "sq_read_layers c s = Inr ?known"
    unfolding sq_read_layers_def by (rule decode_layers_meta) (use t in blast)
  moreover have "distinct (map ly_id ?known)"
  proof (rule distinct_rows[where k = "\<lambda>nr. as_u64 (fst nr)"])
    show "\<And>x y. x \<in> set ?t \<Longrightarrow> row_layer i x = Some y \<Longrightarrow> ly_id y = as_u64 (fst x)"
      using named by (auto simp: row_layer_def named_meta_def)
    have "inj_on as_u64 (fst ` set ?t)" using keys by (intro inj_as_u64) force
    then have "distinct (map as_u64 (map fst ?t))" using dk by (simp add: distinct_map comp_inj_on)
    then show "distinct (map (\<lambda>nr. as_u64 (fst nr)) ?t)" by (simp add: comp_def)
  qed
  moreover have "set (filter (\<lambda>layer. ly_state layer = LCommitted) ?known) = {layer. exported_layers i [layer]}"
  proof (intro set_eqI iffI)
    fix x assume "x \<in> set (filter (\<lambda>layer. ly_state layer = LCommitted) ?known)"
    then obtain n row lay where x: "(n, row) \<in> set ?t" "hm_get (in_layer_meta i) (as_u64 n) = Some lay"
      "x = lay\<lparr>ly_state := state_of_row (lr_state row)\<rparr>" "state_of_row (lr_state row) = LCommitted"
      by (auto simp: List.map_filter_def row_layer_def)
    obtain l where l: "n = as_i64 l" using keys[OF x(1)] by blast
    have c: "lr_state row = row_committed" using x(4) by (auto simp: state_of_row_def split: if_splits)
    have "layer_committed (sq_tables s) (as_i64 l)" using at[OF x(1)] l c by (simp add: layer_committed_def)
    then obtain m where "hm_get (in_members i) l = Some m" using committed_view[OF g(4)] by (metis as_i64_inject)
    moreover have "ly_id lay = l" using named x(2) l by (simp add: named_meta_def)
    ultimately show "x \<in> {layer. exported_layers i [layer]}" using x l c by (auto simp: exported_layers_def state_of_row_def)
  next
    fix x assume "x \<in> {layer. exported_layers i [layer]}"
    then obtain lay m where x: "hm_get (in_members i) (ly_id x) = Some m" "hm_get (in_layer_meta i) (ly_id x) = Some lay"
      "x = lay\<lparr>ly_state := LCommitted\<rparr>" by (auto simp: exported_layers_def)
    obtain row where row: "hm_get ?t (as_i64 (ly_id x)) = Some row" "lr_state row = row_committed"
      using view_committed[OF g(4) x(1)] by (auto simp: layer_committed_def split: option.splits)
    then have "row_layer i (as_i64 (ly_id x), row) = Some x" using x by (simp add: row_layer_def state_of_row_def)
    moreover have "(as_i64 (ly_id x), row) \<in> set ?t" using row(1) by (rule map_of_SomeD)
    ultimately have "x \<in> set ?known" unfolding List.map_filter_def by force
    then show "x \<in> set (filter (\<lambda>layer. ly_state layer = LCommitted) ?known)" using x(3) by simp
  qed
  ultimately show ?thesis by (rule that)
qed

lemma branches_read:
  assumes ag: "agrees c i (s, hs)" and named: "named_meta i"
  obtains bs where "sq_read_branches c s = Inr bs" "distinct (map br_id bs)"
    "set bs = {b. hm_get (in_branches i) (br_id b) = Some b}"
proof -
  let ?t = "tb_branches (sq_tables s)"
  note g = agreesD[OF ag]
  have keys: "\<exists>b. n = as_i64 b" if "(n, raw) \<in> set ?t" for n raw
    using g(10) that unfolding branches_agree_def by (metis option.distinct(1) weak_map_of_SomeI)
  have dk: "distinct (map fst ?t)" using tables_okD[OF g(2)] by (intro bt_ok_distinct)
  have t: "told (co_branch c) (hm_get (in_branches i) b) (hm_get ?t (as_i64 b))" for b
    using g(10) unfolding branches_agree_def by blast
  have one: "\<exists>b. hm_get (in_branches i) (as_u64 n) = Some b \<and> decode_text (co_branch c) raw = Inr b" if "(n, raw) \<in> set ?t" for n raw
  proof -
    have at: "hm_get ?t n = Some raw" using map_of_is_SomeI[OF dk that] .
    have "\<exists>k. n = as_i64 k" using keys[OF that] .
    then obtain k where k: "n = as_i64 k" ..
    show ?thesis using t[of k] k at by (cases "hm_get (in_branches i) k") auto
  qed
  let ?bs = "map (\<lambda>nr. the (hm_get (in_branches i) (as_u64 (fst nr)))) ?t"
  have "decode_all (co_branch c) (map snd rows) = Inr (map (\<lambda>nr. the (hm_get (in_branches i) (as_u64 (fst nr)))) rows)"
    if "set rows \<subseteq> set ?t" for rows
    using that by (induction rows) (auto dest!: one)
  then have "sq_read_branches c s = Inr ?bs" by (simp add: sq_read_branches_def)
  moreover have id: "br_id (the (hm_get (in_branches i) (as_u64 (fst nr)))) = as_u64 (fst nr)" if "nr \<in> set ?t" for nr
    using one[of "fst nr" "snd nr"] that named by (auto simp: named_meta_def)
  have "distinct (map br_id ?bs)"
  proof -
    have "inj_on as_u64 (fst ` set ?t)" using keys by (intro inj_as_u64) force
    then have "distinct (map as_u64 (map fst ?t))" using dk by (simp add: distinct_map comp_inj_on)
    moreover have "map br_id ?bs = map as_u64 (map fst ?t)" using id by simp
    ultimately show ?thesis by (simp only:)
  qed
  moreover have "set ?bs = {b. hm_get (in_branches i) (br_id b) = Some b}"
  proof (intro set_eqI iffI)
    fix b assume "b \<in> set ?bs"
    then obtain n raw where n: "(n, raw) \<in> set ?t" "b = the (hm_get (in_branches i) (as_u64 n))" by auto
    then obtain b' where "hm_get (in_branches i) (as_u64 n) = Some b'" using one by blast
    then show "b \<in> {b. hm_get (in_branches i) (br_id b) = Some b}" using n(2) named by (auto simp: named_meta_def)
  next
    fix b assume "b \<in> {b. hm_get (in_branches i) (br_id b) = Some b}"
    then have b: "hm_get (in_branches i) (br_id b) = Some b" by simp
    then obtain raw where "hm_get ?t (as_i64 (br_id b)) = Some raw" using t[of "br_id b"] by auto
    then have "(as_i64 (br_id b), raw) \<in> set ?t" by (rule map_of_SomeD)
    then show "b \<in> set ?bs" using b by force
  qed
  ultimately show ?thesis using that by blast
qed

section \<open>Sidecars and branches\<close>

text \<open>The sidecars as an import leaves them: in the order of the stream.\<close>

definition settled_sidecars :: "sidecars \<Rightarrow> sidecars" where
  "settled_sidecars sd = sd\<lparr>sd_impls := sort_key im_id (sd_impls sd),
     sd_broken := sort_key (\<lambda>row. (bp_branch row, bp_producer row)) (sd_broken sd),
     sd_paused := remdups_adj (sort (sd_paused sd))\<rparr>"

lemma remdups_adj_again: "remdups_adj (remdups_adj xs) = remdups_adj xs"
proof (induction xs rule: remdups_adj.induct)
  case (3 x y xs)
  then show ?case by (cases "x = y") (auto simp: remdups_adj_Cons' split: list.split)
qed simp_all

lemma sidecar_records_settled: "sidecar_records binary (settled_sidecars sd) = sidecar_records binary sd"
  by (simp add: sidecar_records_def settled_sidecars_def sort_key_id_if_sorted remdups_adj_again)

lemma restore_producers:
  "restore_records c hash pos (map RecProducer rows) (st, blk, s) =
     (Inr (), on_sidecars (sd_impls_update (\<lambda>xs. xs @ rows)) st, blk, s)"
  by (induction rows arbitrary: pos st) (simp_all add: on_sidecars_def)

lemma restore_poison:
  "restore_records c hash pos (map RecPoison rows) (st, blk, s) =
     (Inr (), on_sidecars (sd_broken_update (\<lambda>xs. xs @ rows)) st, blk, s)"
  by (induction rows arbitrary: pos st) (simp_all add: on_sidecars_def)

lemma restore_paused:
  "restore_records c hash pos (map RecPaused rows) (st, blk, s) =
     (Inr (), on_sidecars (sd_paused_update (\<lambda>xs. xs @ rows)) st, blk, s)"
  by (induction rows arbitrary: pos st) (simp_all add: on_sidecars_def)

lemma restore_sidecars:
  "restore_records c hash pos (tl (sidecar_records binary sd)) (restoring_new, blk, s) =
     (Inr (), restoring_new\<lparr>rs_sidecars := settled_sidecars sd\<rparr>, blk, s)"
  by (simp add: sidecar_records_def restore_records_append restore_producers restore_poison restore_paused
      on_sidecars_def restoring_new_def sidecars_default_def settled_sidecars_def)

definition branched :: "branch list \<Rightarrow> inner" where
  "branched bs = fold put_branch bs mem_new"

lemma branched_snoc: "branched (bs @ [b]) = put_branch b (branched bs)"
  by (simp add: branched_def)

lemma branched_fields:
  "in_staged (branched bs) = [] \<and> in_members (branched bs) = [] \<and> in_def_contents (branched bs) = [] \<and>
   in_layer_meta (branched bs) = [] \<and> in_events (branched bs) = [] \<and> in_interned (branched bs) = [] \<and>
   in_next_event (branched bs) = 0"
  by (induction bs rule: rev_induct) (simp_all add: branched_snoc put_branch_def, simp add: branched_def mem_new_def)

lemma branched_get:
  "distinct (map br_id bs) \<Longrightarrow> hm_get (in_branches (branched bs)) k = Some b \<longleftrightarrow> b \<in> set bs \<and> br_id b = k"
proof (induction bs rule: rev_induct)
  case (snoc b' bs)
  have "br_id b' \<notin> br_id ` set bs" using snoc.prems by simp
  then have "b \<in> set bs \<Longrightarrow> br_id b \<noteq> br_id b'" by (metis imageI)
  then show ?case using snoc by (auto simp: branched_snoc put_branch_def)
qed (simp add: branched_def mem_new_def)

lemma restore_branch_records:
  "\<forall>b \<in> set bs. survives (co_branch c) b \<Longrightarrow> agrees c j (s, []) \<Longrightarrow>
   \<exists>s'. restore_records c hash pos (map RecBranch bs) (st, None, s) =
       (Inr (), st\<lparr>rs_branches := rs_branches st + length bs\<rparr>, None, s') \<and> agrees c (fold put_branch bs j) (s', [])"
proof (induction bs arbitrary: pos st s j)
  case (Cons b bs)
  have "mem_call (\<lambda>x. x) (CBranch b) j = (Done, put_branch b j)" by simp
  from calls_agree[OF Cons.prems(2) _ this] Cons.prems(1) obtain st' where
    "sql_call c (\<lambda>x. x) (CBranch b) (s, []) = (Done, st')" "agrees c (put_branch b j) st'" by auto
  then obtain s1 where s1: "sq_put_branch c b s = (Inr (), s1)" "agrees c (put_branch b j) (s1, [])"
    by (cases "sq_put_branch c b s") (auto simp: on_store_def answer_of_def split: sum.splits)
  show ?case using Cons.IH[OF _ s1(2), of "Suc pos" "st\<lparr>rs_branches := Suc (rs_branches st)\<rparr>"] Cons.prems(1) s1(1) by simp
qed simp

lemma branched_copied:
  assumes bs: "distinct (map br_id bs)" "set bs = {b. hm_get (in_branches i) (br_id b) = Some b}" and named: "named_meta i"
  shows "copied i {} (branched bs)"
proof -
  have "hm_get (in_branches (branched bs)) k = Some b \<longleftrightarrow> hm_get (in_branches i) k = Some b" for k b
    using named by (auto simp: branched_get[OF bs(1)] bs(2) named_meta_def)
  then have "hm_get (in_branches (branched bs)) k = hm_get (in_branches i) k" for k
    by (metis not_None_eq)
  then show ?thesis
    using branched_fields[of bs] by (simp add: copied_def read_def_layer_def stored_def event_at_def split: option.split)
qed

section \<open>The same records again\<close>

lemma export_members_cong:
  "(\<And>p. p \<in> needed l rows \<Longrightarrow> sq_read_interned s' p = sq_read_interned s p) \<Longrightarrow>
   export_members s' l rows seen = export_members s l rows seen"
proof (induction rows arbitrary: seen)
  case (Cons ev rows)
  have IH: "export_members s' l rows sn = export_members s l rows sn" for sn
    using Cons.prems by (intro Cons.IH) (auto simp: needed_def)
  show ?case
  proof (cases "ev_authored ev = l")
    case True
    have "content_before s' ev sn = content_before s ev sn" for sn
      using Cons.prems True by (auto simp: content_before_def needed_def split: option.split)
    then show ?thesis by (simp only: export_members_own[OF True] IH)
  qed (simp add: IH)
qed simp

lemma copied_rows:
  assumes inv: "mem_inv i" and w: "well_logged c hash i" and co: "copied i {l. hm_get (in_members i) l \<noteq> None} j"
    and m: "hm_get (in_members i) l = Some m"
  shows "rows_of j l = rows_of i l" "stored j e = stored i e"
proof -
  have st: "stored j e = stored i e" for e
  proof (cases "stored i e")
    case (Some ev)
    then have "hm_get (in_members i) (ev_authored ev) \<noteq> None"
      using well_loggedD(7)[OF w Some] by (cases "hm_get (in_members i) (ev_authored ev)") (auto simp: read_membership_def)
    then show ?thesis using copiedD(5)[OF co, of e] Some by simp
  qed (use copiedD(5)[OF co, of e] in simp)
  then show "stored j e = stored i e" .
  show "rows_of j l = rows_of i l" using copiedD(2)[OF co, of l] m by (simp add: rows_of_def read_membership_def st)
qed

lemma export_layer_copied:
  assumes src: "agrees c i (s, hs)" and w: "well_logged c hash i" and co: "copied i {l. hm_get (in_members i) l \<noteq> None} j"
    and ag: "agrees c j (s', hs')" and layer: "hm_get (in_members i) (ly_id layer) = Some m"
  shows "export_layer c s' layer = export_layer c s layer"
proof -
  let ?l = "ly_id layer"
  have m: "hm_get (in_members j) ?l = Some m" using copiedD(2)[OF co, of ?l] layer by simp
  have "read_def_layer j ?l = read_def_layer i ?l" using copiedD(3)[OF co, of ?l] layer by simp
  then have d: "sq_read_def_layer c s' ?l = sq_read_def_layer c s ?l"
    using layer_defs_read(1)[OF ag m] layer_defs_read(1)[OF src layer] by simp
  have rows: "rows_of j ?l = rows_of i ?l" by (rule copied_rows(1)[OF agreesD(1)[OF src] w co layer])
  then have r: "sq_read_layer c s' ?l = Inr (rows_of i ?l)" "sq_read_layer c s ?l = Inr (rows_of i ?l)"
    using layer_rows_read[OF ag m] layer_rows_read[OF src layer] by simp_all
  have "sq_read_interned s' p = sq_read_interned s p" if p: "p \<in> needed ?l (rows_of i ?l)" for p
  proof -
    obtain ev where ev: "ev \<in> set (rows_of i ?l)" "ev_authored ev = ?l" "content_pid_in (ev_value ev) = Some p"
      using p by (auto simp: needed_def)
    have "stored i (ev_id ev) = Some ev" by (rule rows_stored(1)[OF agreesD(1)[OF src] layer ev(1)])
    then have same: "hm_get (in_interned j) p = hm_get (in_interned i) p" using copiedD(9)[OF co _ _ ev(3)] ev(2) layer by simp
    show ?thesis
    proof (cases "hash_of p")
      case (Inr h)
      then have "p = Content (pid_kind_of p) h" by (cases p) simp_all
      then show ?thesis
        using agreesD(11)[OF ag] agreesD(11)[OF src] same Inr
        by (simp add: sq_read_interned_def hash_result_def interned_agree_def)
    qed (simp add: sq_read_interned_def hash_result_def split: content_error.split)
  qed
  then have "export_members s' ?l (rows_of i ?l) {} = export_members s ?l (rows_of i ?l) {}" by (rule export_members_cong)
  then show ?thesis by (cases "row_of_layer layer") (simp_all add: export_layer_def d r from_store_def)
qed

lemma export_copied:
  assumes src: "agrees c i (s, hs)" and w: "well_logged c hash i" and co: "copied i {l. hm_get (in_members i) l \<noteq> None} j"
    and ag: "agrees c j (s', hs')"
  shows "export_records c binary at (settled_sidecars sd) s' = export_records c binary at sd s"
proof -
  have named: "named_meta i" using well_loggedD(1,3)[OF w] by (simp add: named_meta_def)
  have meta: "hm_get (in_layer_meta j) l = (if hm_get (in_members i) l \<noteq> None
      then map_option (\<lambda>lay. lay\<lparr>ly_state := LCommitted\<rparr>) (hm_get (in_layer_meta i) l) else None)" for l
    using copiedD(4)[OF co, of l] by simp
  have named': "named_meta j"
    using named copiedD(6)[OF co] by (auto simp: named_meta_def meta split: if_splits)
  obtain bs where bs: "sq_read_branches c s = Inr bs" "distinct (map br_id bs)" "set bs = {b. hm_get (in_branches i) (br_id b) = Some b}"
    using branches_read[OF src named] .
  obtain bs' where bs': "sq_read_branches c s' = Inr bs'" "distinct (map br_id bs')" "set bs' = {b. hm_get (in_branches j) (br_id b) = Some b}"
    using branches_read[OF ag named'] .
  have B: "sort_key br_id bs' = sort_key br_id bs"
    by (rule sort_key_set[OF bs'(2) bs(2)]) (simp add: bs(3) bs'(3) copiedD(6)[OF co])
  obtain ks where ks: "sq_read_layers c s = Inr ks" "distinct (map ly_id ks)"
    "set (filter (\<lambda>layer. ly_state layer = LCommitted) ks) = {layer. exported_layers i [layer]}" using layers_read[OF src named] .
  obtain ks' where ks': "sq_read_layers c s' = Inr ks'" "distinct (map ly_id ks')"
    "set (filter (\<lambda>layer. ly_state layer = LCommitted) ks') = {layer. exported_layers j [layer]}" using layers_read[OF ag named'] .
  have "exported_layers j [layer] = exported_layers i [layer]" for layer
    using copiedD(2)[OF co, of "ly_id layer"] by (auto simp: exported_layers_def meta split: if_splits)
  then have K: "committed_layers ks' = committed_layers ks"
    unfolding committed_layers_def
    by (intro sort_key_set) (use ks(2,3) ks'(2,3) in \<open>auto simp: distinct_map_filter\<close>)
  have R: "collect_results (export_layer c s') (committed_layers ks) = collect_results (export_layer c s) (committed_layers ks)"
  proof (rule results_cong)
    fix layer assume "layer \<in> set (committed_layers ks)"
    then have "exported_layers i [layer]" using ks(3) by (simp add: committed_layers_def) blast
    then obtain m where "hm_get (in_members i) (ly_id layer) = Some m" by (auto simp: exported_layers_def)
    then show "export_layer c s' layer = export_layer c s layer" by (rule export_layer_copied[OF src w co ag])
  qed
  then show ?thesis
    by (simp add: export_records_def from_store_def bs(1) bs'(1) ks(1) ks'(1) Let_def K B R sidecar_records_settled split: sum.split)
qed

section \<open>Importing an export\<close>

lemma strictly_sorted_layers:
  assumes "distinct (map ly_id known)"
  shows "sorted_wrt (\<lambda>a b. ly_id a < ly_id b) (committed_layers known)"
proof -
  have "distinct (map ly_id (committed_layers known))"
    using distinct_map_filter[OF assms] by (simp add: committed_layers_def distinct_map)
  moreover have "sorted (map ly_id (committed_layers known))" by (simp add: committed_layers_def)
  ultimately have "sorted_wrt (<) (map ly_id (committed_layers known))" by (simp add: strict_sorted_iff)
  then show ?thesis by (simp add: sorted_wrt_map)
qed

text \<open>The records of an export, restored into a fresh store.\<close>

lemma restore_export:
  assumes src: "agrees c i (s, hs)" and w: "well_logged c hash i"
    and out: "export_records c binary at sd s = Inr (records, summary)"
  shows "\<exists>st blk s1 s2 j. restore_records c hash pos (tl records) (restoring_new, None, fst sq_start) = (Inr (), st, blk, s1) \<and>
    close_open c blk s1 = (Inr (), s2) \<and> agrees c j (s2, []) \<and> copied i {l. hm_get (in_members i) l \<noteq> None} j \<and>
    rs_sidecars st = settled_sidecars sd \<and> rs_layers st = ex_layers summary \<and> rs_events st = ex_events summary \<and>
    rs_head st = ex_head summary"
proof -
  have named: "named_meta i" using well_loggedD(1,3)[OF w] by (simp add: named_meta_def)
  obtain bs where bs: "sq_read_branches c s = Inr bs" "distinct (map br_id bs)" "set bs = {b. hm_get (in_branches i) (br_id b) = Some b}"
    using branches_read[OF src named] .
  obtain ks where ks: "sq_read_layers c s = Inr ks" "distinct (map ly_id ks)"
    "set (filter (\<lambda>layer. ly_state layer = LCommitted) ks) = {layer. exported_layers i [layer]}" using layers_read[OF src named] .
  let ?bs = "sort_key br_id bs" and ?ls = "committed_layers ks"
  obtain blocks l where b: "collect_results (export_layer c s) ?ls = Inr blocks"
    "records = sidecar_records binary sd @ map RecBranch ?bs @ concat (map fst blocks)"
    "ex_layers summary = length ?ls" "ex_events summary = sum_list (map (\<lambda>(_, events, _). events) blocks)"
    "ex_head summary = (case rev ?ls of [] \<Rightarrow> 0 | layer # _ \<Rightarrow> ly_id layer)"
    using out by (auto simp: export_records_def from_store_def bs(1) ks(1) Let_def split: sum.splits)
  have tl: "tl records = tl (sidecar_records binary sd) @ map RecBranch ?bs @ concat (map fst blocks)"
    by (simp add: b(2) sidecar_records_def)
  let ?st = "restoring_new\<lparr>rs_sidecars := settled_sidecars sd\<rparr>"
  have sv: "\<forall>b \<in> set ?bs. survives (co_branch c) b" using bs(3) well_loggedD(4)[OF w] by auto
  have start: "agrees c mem_new (fst sq_start, [])" using start_agrees by (simp add: sq_start_def)
  let ?p = "pos + length (tl (sidecar_records binary sd))"
  obtain s1 where s1: "restore_records c hash ?p (map RecBranch ?bs) (?st, None, fst sq_start) =
      (Inr (), ?st\<lparr>rs_branches := rs_branches ?st + length ?bs\<rparr>, None, s1)" "agrees c (branched ?bs) (s1, [])"
    using restore_branch_records[OF sv start] unfolding branched_def by blast
  let ?st1 = "?st\<lparr>rs_branches := rs_branches ?st + length ?bs\<rparr>"
  have co: "copied i {} (branched ?bs)" by (rule branched_copied) (use bs(2,3) named in \<open>simp_all add: distinct_map\<close>)
  have ex: "exported_layers i ?ls" using ks(3) unfolding committed_layers_def exported_layers_def by auto
  have all: "{l. hm_get (in_members i) l \<noteq> None} = {} \<union> ly_id ` set ?ls"
  proof (intro set_eqI iffI)
    fix l assume "l \<in> {l. hm_get (in_members i) l \<noteq> None}"
    then obtain m where m: "hm_get (in_members i) l = Some m" by auto
    obtain lay where lay: "hm_get (in_layer_meta i) l = Some lay" using well_logged_layer[OF w m] by metis
    then have "ly_id lay = l" using well_loggedD(1)[OF w] by blast
    then have "exported_layers i [lay\<lparr>ly_state := LCommitted\<rparr>]" using m lay by (simp add: exported_layers_def)
    then have "lay\<lparr>ly_state := LCommitted\<rparr> \<in> set ?ls" using ks(3) unfolding committed_layers_def set_sort by blast
    then show "l \<in> {} \<union> ly_id ` set ?ls" using \<open>ly_id lay = l\<close>
      by (intro UnI2 image_eqI[where x = "lay\<lparr>ly_state := LCommitted\<rparr>"]) simp_all
  next
    fix l assume "l \<in> {} \<union> ly_id ` set ?ls"
    then show "l \<in> {l. hm_get (in_members i) l \<noteq> None}" using ex by (auto simp: exported_layers_def)
  qed
  have close: "close_open c None s1 = (Inr (), s1)" by (simp add: close_open_def)
  have head: "\<forall>layer \<in> set ?ls. rs_head ?st1 \<le> ly_id layer" by (simp add: restoring_new_def)
  obtain blk s2 s3 j where r: "restore_records c hash (?p + length ?bs) (concat (map fst blocks)) (?st1, None, s1) =
        (Inr (), ?st1\<lparr>rs_layers := rs_layers ?st1 + length ?ls, rs_head := (if ?ls = [] then rs_head ?st1 else ly_id (last ?ls)),
           rs_events := rs_events ?st1 + sum_list (map (\<lambda>(_, events, _). events) blocks)\<rparr>, blk, s2)"
      "close_open c blk s2 = (Inr (), s3)" "agrees c j (s3, [])" "copied i ({} \<union> ly_id ` set ?ls) j"
    using restore_blocks[OF src w ex strictly_sorted_layers[OF ks(2)] all _ s1(2) co close head b(1)] by blast
  have "(case rev ?ls of [] \<Rightarrow> 0 | layer # _ \<Rightarrow> ly_id layer) = (if ?ls = [] then 0 else ly_id (last ?ls))"
    by (cases ?ls rule: rev_cases) simp_all
  then have head: "(if ?ls = [] then rs_head ?st1 else ly_id (last ?ls)) = ex_head summary"
    by (simp add: b(5) restoring_new_def)
  let ?fin = "?st1\<lparr>rs_layers := rs_layers ?st1 + length ?ls, rs_head := (if ?ls = [] then rs_head ?st1 else ly_id (last ?ls)),
           rs_events := rs_events ?st1 + sum_list (map (\<lambda>(_, events, _). events) blocks)\<rparr>"
  have "restore_records c hash pos (tl records) (restoring_new, None, fst sq_start) =
      restore_records c hash (?p + length ?bs) (concat (map fst blocks)) (?st1, None, s1)"
    by (simp only: tl restore_records_append restore_sidecars s1(1) prod.case sum.case length_map)
  then have run: "restore_records c hash pos (tl records) (restoring_new, None, fst sq_start) = (Inr (), ?fin, blk, s2)"
    by (simp only: r(1))
  have "rs_layers ?fin = ex_layers summary" "rs_events ?fin = ex_events summary" "rs_head ?fin = ex_head summary"
    "rs_sidecars ?fin = settled_sidecars sd"
    using head by (simp_all add: b(3,4) restoring_new_def)
  then show ?thesis using run r(2,3) r(4)[folded all] by blast
qed

lemma sink_lines: "\<forall>r \<in> set records. line_survives enc dec r \<Longrightarrow> \<exists>out. collect_results (sink_line enc) records = Inr out"
proof (induction records)
  case (Cons r rs)
  have "\<exists>line. sink_line enc r = Inr line" using Cons.prems by (auto simp: line_survives_def sink_line_def split: sum.splits)
  with Cons show ?case by auto
qed simp

text \<open>What an import of an export gives: the report, the sidecars, and a copy of the log.\<close>

lemma import_export:
  assumes src: "agrees c i (s, hs)" and w: "well_logged c hash i"
    and out: "export_records c binary at sd s = Inr (records, summary)"
    and lines: "\<forall>r \<in> set records. line_survives enc dec r"
  shows "\<exists>out report s2 j. export_stream enc c binary at sd s = Inr (concat out, summary) \<and>
    collect_results (sink_line enc) records = Inr out \<and>
    import_stream dec c hash (concat out) None = (Inr (report, settled_sidecars sd), Some (sq_tables s2)) \<and>
    agrees c j (s2, []) \<and> copied i {l. hm_get (in_members i) l \<noteq> None} j \<and>
    im_layers report = ex_layers summary \<and> im_events report = ex_events summary \<and> im_head report = ex_head summary \<and>
    im_written_by report = binary"
proof -
  obtain out where o: "collect_results (sink_line enc) records = Inr out" using sink_lines[OF lines] ..
  have hd: "records = RecHeader STREAM_VERSION binary # tl records"
    using out by (auto simp: export_records_def sidecar_records_def Let_def split: sum.splits)
  obtain line rest where l: "sink_line enc (RecHeader STREAM_VERSION binary) = Inr line"
    "collect_results (sink_line enc) (tl records) = Inr rest" "out = line # rest"
    using o by (subst (asm) hd) (auto split: sum.splits)
  have "RecHeader STREAM_VERSION binary \<in> set records" by (subst hd) simp
  then have first: "next_record dec 0 (concat out) = Inr (Some (RecHeader STREAM_VERSION binary, Suc 0, concat rest))"
    using next_record_first[OF _ l(1), of dec 0 "concat rest"] lines l(3) by auto
  have "\<forall>r \<in> set (tl records). line_survives enc dec r" using lines by (metis hd list.set_intros(2))
  then have loop: "restore_loop dec c hash (Suc 0) (concat rest) state = restore_records c hash (Suc 0) (tl records) state" for state
    by (rule restore_loop_records[OF _ l(2)])
  obtain st blk s1 s2 j where r: "restore_records c hash (Suc 0) (tl records) (restoring_new, None, fst sq_start) = (Inr (), st, blk, s1)"
    "close_open c blk s1 = (Inr (), s2)" "agrees c j (s2, [])" "copied i {l. hm_get (in_members i) l \<noteq> None} j"
    "rs_sidecars st = settled_sidecars sd" "rs_layers st = ex_layers summary" "rs_events st = ex_events summary"
    "rs_head st = ex_head summary" using restore_export[OF src w out] by blast
  let ?report = "\<lparr>im_layers = rs_layers st, im_events = rs_events st, im_branches = rs_branches st, im_head = rs_head st,
      im_written_by = binary\<rparr>"
  have fresh: "sq_read_layers c (fst sq_start) = Inr []" "sq_read_branches c (fst sq_start) = Inr []"
    by (simp_all add: sq_read_layers_def sq_read_branches_def sq_start_def no_rows_def)
  have "import_stream dec c hash (concat out) None = (Inr (?report, settled_sidecars sd), Some (sq_tables s2))"
    by (simp add: import_stream_def start_opens restore_into_def fresh from_store_def first loop r(1,2,5))
  moreover have "export_stream enc c binary at sd s = Inr (concat out, summary)"
    by (simp add: export_stream_def out o)
  ultimately show ?thesis using o r
    by (intro exI[of _ out] exI[of _ ?report] exI[of _ s2] exI[of _ j]) simp
qed

text \<open>An export reads the tables of a store only.\<close>

lemma export_tables: "sq_tables s' = sq_tables s \<Longrightarrow> export_records c binary at sd s' = export_records c binary at sd s"
proof -
  assume t: "sq_tables s' = sq_tables s"
  have m: "export_members s' l rows seen = export_members s l rows seen" for l rows seen
    by (rule export_members_cong) (simp add: sq_read_interned_def t split: sum.split)
  have "export_layer c s' = export_layer c s"
    by (intro ext) (simp add: export_layer_def sq_read_def_layer_def sq_read_layer_def t m split: sum.split)
  moreover have "sq_read_branches c s' = sq_read_branches c s" "sq_read_layers c s' = sq_read_layers c s"
    by (simp_all add: sq_read_branches_def sq_read_layers_def t)
  ultimately show ?thesis by (simp only: export_records_def)
qed

text \<open>
  Property C14. A backup loses nothing. The stream written of a registry whose log is well kept, on records
  that survive their line, imports into a store that was not there; the report counts what the export
  counted; the sidecars are the exported ones in the order of the stream; and the store it leaves is
  exported, with them, to the same bytes.
\<close>

theorem importing_an_export_restores_it:
  assumes "mem_run c hash calls mem_new = Some (answers, i)" "well_logged c hash i"
    and "export_records c binary at sd (fst (snd (sql_run c hash calls sq_start))) = Inr (records, summary)"
    and "\<forall>r \<in> set records. line_survives enc dec r"
  shows "\<exists>text report t.
    export_stream enc c binary at sd (fst (snd (sql_run c hash calls sq_start))) = Inr (text, summary) \<and>
    import_stream dec c hash text None = (Inr (report, settled_sidecars sd), Some t) \<and>
    im_layers report = ex_layers summary \<and> im_events report = ex_events summary \<and> im_head report = ex_head summary \<and>
    im_written_by report = binary \<and>
    (\<forall>s'. sq_tables s' = t \<longrightarrow> export_stream enc c binary at (settled_sidecars sd) s' = Inr (text, summary))"
proof -
  obtain s hs where run: "sql_run c hash calls sq_start = (answers, s, hs)" "agrees c i (s, hs)"
    using run_agrees[OF assms(1)] .
  have out: "export_records c binary at sd s = Inr (records, summary)" using assms(3) run(1) by simp
  obtain out' report s2 j where r: "export_stream enc c binary at sd s = Inr (concat out', summary)"
    "collect_results (sink_line enc) records = Inr out'"
    "import_stream dec c hash (concat out') None = (Inr (report, settled_sidecars sd), Some (sq_tables s2))"
    "agrees c j (s2, [])" "copied i {l. hm_get (in_members i) l \<noteq> None} j"
    "im_layers report = ex_layers summary" "im_events report = ex_events summary" "im_head report = ex_head summary" "im_written_by report = binary"
    using import_export[OF run(2) assms(2) out assms(4)] by blast
  have "export_records c binary at (settled_sidecars sd) s' = Inr (records, summary)" if "sq_tables s' = sq_tables s2" for s'
    using export_tables[OF that] export_copied[OF run(2) assms(2) r(5,4)] out by metis
  then have "\<forall>s'. sq_tables s' = sq_tables s2 \<longrightarrow> export_stream enc c binary at (settled_sidecars sd) s' = Inr (concat out', summary)"
    by (simp add: export_stream_def r(2))
  then show ?thesis using r run(1) by auto
qed

text \<open>A copy reads like what it is a copy of.\<close>

lemma copied_reads:
  assumes inv: "mem_inv i" "mem_inv j" and w: "well_logged c hash i"
    and co: "copied i {l. hm_get (in_members i) l \<noteq> None} j"
  shows "get_cell j path cell v = get_cell i path cell v"
proof -
  have members: "hm_get (in_members j) l = hm_get (in_members i) l" for l using copiedD(2)[OF co, of l] by auto
  have st: "stored j e = stored i e" for e
  proof (cases "stored i e")
    case (Some ev)
    then have "hm_get (in_members i) (ev_authored ev) \<noteq> None"
      using well_loggedD(7)[OF w Some] by (cases "hm_get (in_members i) (ev_authored ev)") (auto simp: read_membership_def)
    then show ?thesis using copiedD(5)[OF co, of e] Some by simp
  qed (use copiedD(5)[OF co, of e] in simp)
  have "last_hit (in_events j) es c v = last_hit (in_events i) es c v" for es c v
    using st by (intro last_hit_cong) (simp add: stored_def)
  then have "log_landing j = log_landing i" by (intro ext) (simp add: log_landing_def members split: option.split)
  then have "landing (in_reads j) b c v = landing (in_reads i) b c v" for b c v
    using mem_invD(4)[OF inv(1)] mem_invD(4)[OF inv(2)] by (auto simp: reads_ok_def fun_eq_iff)
  then have "newest_at (hist (in_reads j) b cell v) bound = newest_at (hist (in_reads i) b cell v) bound" for b bound
    using mem_invD(4)[OF inv(1)] mem_invD(4)[OF inv(2)]
    by (intro newest_at_cong) (auto simp: reads_ok_def keys_ok_def landing_def)
  then have "(case history_at (in_reads j) b cell v of None \<Rightarrow> None | Some h \<Rightarrow> newest_at h bound) =
      (case history_at (in_reads i) b cell v of None \<Rightarrow> None | Some h \<Rightarrow> newest_at h bound)" for b bound
    by (simp only: history_at_hist)
  moreover have "event_of j = event_of i" by (intro ext) (simp add: event_of_def st)
  ultimately show ?thesis
  proof (induction path)
    case (Cons seg path)
    obtain b bound where "seg = (b, bound)" by fastforce
    with Cons show ?case by (simp split: option.split)
  qed simp
qed

text \<open>
  Property C15. A restored registry answers as the one that was exported: down any read path every cell
  reads as it did, the same event landed at the same layer, or none from both.
\<close>

theorem restored_registry_reads_alike:
  assumes "mem_run c hash calls mem_new = Some (answers, i)" "well_logged c hash i"
    and "export_stream enc c binary at sd (fst (snd (sql_run c hash calls sq_start))) = Inr (text, summary)"
    and "export_records c binary at sd (fst (snd (sql_run c hash calls sq_start))) = Inr (records, summary)"
    and "\<forall>r \<in> set records. line_survives enc dec r"
    and "cell_survives c cell" "\<forall>seg \<in> set path. small_id (snd seg)"
  shows "\<exists>done t. import_stream dec c hash text None = (Inr done, Some t) \<and>
    (\<forall>s'. sq_tables s' = t \<longrightarrow>
      sq_get_cell c s' path cell v = sq_get_cell c (fst (snd (sql_run c hash calls sq_start))) path cell v)"
proof -
  obtain s hs where run: "sql_run c hash calls sq_start = (answers, s, hs)" "agrees c i (s, hs)"
    using run_agrees[OF assms(1)] .
  have out: "export_records c binary at sd s = Inr (records, summary)" using assms(4) run(1) by simp
  obtain out' report s2 j where r: "export_stream enc c binary at sd s = Inr (concat out', summary)"
    "import_stream dec c hash (concat out') None = (Inr (report, settled_sidecars sd), Some (sq_tables s2))"
    "agrees c j (s2, [])" "copied i {l. hm_get (in_members i) l \<noteq> None} j"
    using import_export[OF run(2) assms(2) out assms(5)] by blast
  have t: "text = concat out'" using r(1) assms(3) run(1) by simp
  obtain buffer key where k: "encode_text (co_buffer c) (cr_buffer cell) = Inr buffer"
    "encode_text (co_key c) (cr_key cell) = Inr key"
    using assms(6) by (auto simp: cell_survives_def elim!: survivesD)
  have reads: "get_cell j path cell v = get_cell i path cell v"
    by (rule copied_reads[OF agreesD(1)[OF run(2)] agreesD(1)[OF r(3)] assms(2) r(4)])
  obtain x where "get_cell i path cell v = Inr x" "get_cell_walk c (sq_tables s) path buffer key (as_i64 (dv_layer v)) = Inr x"
    using get_cell_walk_agrees[OF run(2) assms(6) k assms(7)] by blast
  moreover obtain y where "get_cell j path cell v = Inr y" "get_cell_walk c (sq_tables s2) path buffer key (as_i64 (dv_layer v)) = Inr y"
    using get_cell_walk_agrees[OF r(3) assms(6) k assms(7)] by blast
  ultimately have "sq_get_cell c s' path cell v = sq_get_cell c s path cell v" if "sq_tables s' = sq_tables s2" for s'
    using reads that by (simp add: sq_get_cell_def k)
  then show ?thesis using r(2) t run(1) by (intro exI[of _ "(report, settled_sidecars sd)"] exI[of _ "sq_tables s2"]) simp
qed

section \<open>Examples\<close>

text \<open>A line for each record of a list.\<close>

definition nth_line :: "stream_record list \<Rightarrow> stream_record \<Rightarrow> string + string" where
  "nth_line rs r = (case position (\<lambda>x. x = r) rs of None \<Rightarrow> Inl ''unknown'' | Some n \<Rightarrow> Inr (CHR ''x'' # replicate n CHR ''x''))"

definition line_nth :: "stream_record list \<Rightarrow> string \<Rightarrow> string + stream_record" where
  "line_nth rs line = (if length line - 2 < length rs then Inr (rs ! (length line - 2)) else Inl ''unknown'')"

lemma position_Some: "x \<in> set xs \<Longrightarrow> \<exists>n. position (\<lambda>y. y = x) xs = Some n \<and> n < length xs \<and> xs ! n = x"
  by (induction xs) auto

lemma line_of_xs: "valid_utf8 (replicate n CHR ''x'' @ [CHR 0x0A])" "trim (CHR ''x'' # replicate n CHR ''x'' @ [CHR 0x0A]) \<noteq> []"
proof -
  show "valid_utf8 (replicate n CHR ''x'' @ [CHR 0x0A])" by (induction n) simp_all
  have s: "trim_start (CHR ''x'' # replicate n CHR ''x'' @ [CHR 0x0A]) = CHR ''x'' # replicate n CHR ''x'' @ [CHR 0x0A]"
    unfolding trim_start_def by (subst strip_front.simps) (simp add: white_space_def)
  have "rev (CHR ''x'' # replicate n CHR ''x'' @ [CHR 0x0A]) = CHR 0x0A # CHR ''x'' # replicate n CHR ''x''"
    by (simp add: replicate_append_same)
  moreover have "strip_front (map rev white_space) (CHR 0x0A # CHR ''x'' # t) = CHR ''x'' # t" for t
    by (subst strip_front.simps, simp add: white_space_def) (subst strip_front.simps, simp)
  ultimately show "trim (CHR ''x'' # replicate n CHR ''x'' @ [CHR 0x0A]) \<noteq> []"
    by (simp add: trim_def s trim_end_def)
qed

lemma nth_lines: "\<forall>r \<in> set rs. line_survives (nth_line rs) (line_nth rs) r"
proof
  fix r assume "r \<in> set rs"
  then obtain n where n: "position (\<lambda>y. y = r) rs = Some n" "n < length rs" "rs ! n = r" using position_Some by metis
  then show "line_survives (nth_line rs) (line_nth rs) r"
    using line_of_xs[of n] by (simp add: line_survives_def nth_line_def line_nth_def)
qed

definition z_layer :: layer where
  "z_layer = \<lparr>ly_id = 5, ly_branch = 1, ly_kind = LKValue, ly_author = ASource, ly_state = LSealed, ly_parent = None, ly_guards = []\<rparr>"

definition z_branch :: branch where "z_branch = \<lparr>br_id = 1, br_name = Some ''main'', br_origin = None\<rparr>"

definition z_json :: json_texts where
  "z_json = x_json\<lparr>co_layer := texts_of [(z_layer, ''sealed''), (z_layer\<lparr>ly_state := LCommitted\<rparr>, ''committed'')],
     co_branch := texts_of [(z_branch, ''main'')]\<rparr>"

definition z_calls :: "provider_call list" where "z_calls = x_calls @ [CMeta z_layer, CBranch z_branch]"

definition z_state :: inner where "z_state = put_branch z_branch (put_layer_meta z_layer w_committed)"

lemma z_survives:
  "record_survives z_json w_cell (VBool True) None" "cell_survives z_json w_cell"
  "survives (co_layer z_json) z_layer" "survives (co_layer z_json) (z_layer\<lparr>ly_state := LCommitted\<rparr>)"
  "survives (co_branch z_json) z_branch"
proof -
  show "record_survives z_json w_cell (VBool True) None" "cell_survives z_json w_cell"
    using x_survives by (simp_all add: record_survives_def cell_survives_def z_json_def)
  show "survives (co_layer z_json) z_layer" "survives (co_layer z_json) (z_layer\<lparr>ly_state := LCommitted\<rparr>)"
    "survives (co_branch z_json) z_branch"
    by (simp_all add: z_json_def texts_of_def survives_def encode_text_def decode_text_def z_layer_def)
qed

lemma z_run: "mem_run z_json id z_calls mem_new = Some ([Done, Minted 1, Done, Done, Done, Done], z_state)"
proof -
  have "mem_run z_json id [CMeta z_layer, CBranch z_branch] w_committed = Some ([Done, Done], z_state)"
    using z_survives by (simp add: mem_run_def z_state_def w_committed_state z_layer_def)
  then show ?thesis by (simp add: z_calls_def mem_run_append x_run_any[OF z_survives(1)])
qed

lemma z_stored: "stored z_state e = (if e = 1 then Some w_event else None)"
proof -
  have "e = 1" if "e \<noteq> 0" "unat e \<le> Suc 0"
  proof -
    have "unat e \<noteq> 0" using that(1) by (simp add: unat_eq_0)
    then have "unat e = unat (1 :: u64)" using that(2) by simp
    then show ?thesis by (rule unsigned_word_eqI)
  qed
  then show ?thesis
    by (auto simp: z_state_def w_committed_state put_branch_def put_layer_meta_def stored_def event_at_def slot_of_def)
qed

lemma z_fields:
  "in_members z_state = [(5, \<lparr>mb_branch = 1, mb_events = [1]\<rparr>)]" "in_layer_meta z_state = [(5, z_layer)]"
  "in_branches z_state = [(1, z_branch)]" "in_interned z_state = []" "in_def_contents z_state = [(5, [])]"
  by (simp_all add: z_state_def w_committed_state put_branch_def put_layer_meta_def mem_new_def z_layer_def z_branch_def)

lemma w_event_fields: "ev_id w_event = 1" "ev_cell w_event = w_cell" "ev_value w_event = VBool True" "ev_authored w_event = 5"
  "ev_derivation w_event = None"
  by (simp_all add: w_event_def draft_event_def w_draft_def)

lemma z_logged: "well_logged z_json id z_state"
  using z_survives(4,5)
  by (simp add: well_logged_def z_stored z_fields w_event_fields wf_value_def read_membership_def read_def_layer_def)
     (simp add: z_layer_def z_branch_def)

lemma z_exports:
  "\<exists>records summary. export_records z_json ''borg'' (Inr None) sidecars_default (fst (snd (sql_run z_json id z_calls sq_start))) =
     Inr (records, summary)"
proof -
  obtain s hs where run: "sql_run z_json id z_calls sq_start = ([Done, Minted 1, Done, Done, Done, Done], s, hs)"
    "agrees z_json z_state (s, hs)" using run_agrees[OF z_run] .
  have named: "named_meta z_state" by (simp add: named_meta_def z_fields) (simp add: z_layer_def z_branch_def)
  obtain bs where bs: "sq_read_branches z_json s = Inr bs" using branches_read[OF run(2) named] by blast
  obtain ks where ks: "sq_read_layers z_json s = Inr ks"
    "set (filter (\<lambda>layer. ly_state layer = LCommitted) ks) = {layer. exported_layers z_state [layer]}"
    using layers_read[OF run(2) named] by blast
  have m: "hm_get (in_members z_state) 5 = Some \<lparr>mb_branch = 1, mb_events = [1]\<rparr>" by (simp add: z_fields)
  have rows: "sq_read_layer z_json s 5 = Inr [w_event]"
    using layer_rows_read[OF run(2) m] by (simp add: rows_of_def read_membership_def z_fields z_stored)
  have "addressable w_cell" by (simp add: w_cell_def cell_prop_def plain_name_def strip_suffix_def)
  then obtain addr where "cell_address w_cell = Inr addr"
    using cell.render_total[of w_cell] cell.parse_render[of w_cell] by (fastforce simp: cell_address_def)
  then have "\<exists>b. export_layer z_json s layer = Inr b" if "exported_layers z_state [layer]" for layer
    using that rows
    by (auto simp: exported_layers_def z_fields z_layer_def export_layer_def row_of_layer_def from_store_def w_event_fields
        content_pid_in_def row_of_event_def row_of_value_def row_of_derivation_def split: if_splits)
  moreover have "exported_layers z_state [layer]" if "layer \<in> set (committed_layers ks)" for layer
    using that ks(2) unfolding committed_layers_def set_sort by blast
  ultimately have each: "\<exists>b. export_layer z_json s layer = Inr b" if "layer \<in> set (committed_layers ks)" for layer
    using that by blast
  have "\<exists>ys. collect_results f xs = Inr ys" if "\<And>x. x \<in> set xs \<Longrightarrow> \<exists>y. f x = Inr y" for f :: "layer \<Rightarrow> 'e + 'b" and xs
    using that by (induction xs) (auto, metis sum.case(2))
  then obtain blocks where "collect_results (export_layer z_json s) (committed_layers ks) = Inr blocks" using each by blast
  then show ?thesis by (simp add: run(1) export_records_def from_store_def bs ks(1) Let_def)
qed

theorem importing_an_export_restores_it_witness:
  "\<exists>enc dec text summary report t.
    export_stream enc z_json ''borg'' (Inr None) sidecars_default (fst (snd (sql_run z_json id z_calls sq_start))) = Inr (text, summary) \<and>
    import_stream dec z_json id text None = (Inr (report, settled_sidecars sidecars_default), Some t) \<and>
    im_layers report = ex_layers summary \<and> im_events report = ex_events summary \<and> im_head report = ex_head summary"
proof -
  obtain records summary where r: "export_records z_json ''borg'' (Inr None) sidecars_default
      (fst (snd (sql_run z_json id z_calls sq_start))) = Inr (records, summary)" using z_exports by blast
  show ?thesis using importing_an_export_restores_it[OF z_run z_logged r nth_lines] by blast
qed

theorem restored_registry_reads_alike_witness:
  "\<exists>dec text done t. import_stream dec z_json id text None = (Inr done, Some t) \<and>
    (\<forall>s'. sq_tables s' = t \<longrightarrow> sq_get_cell z_json s' [(1, 9)] w_cell (DefVersion 1) =
      sq_get_cell z_json (fst (snd (sql_run z_json id z_calls sq_start))) [(1, 9)] w_cell (DefVersion 1))"
proof -
  obtain records summary where r: "export_records z_json ''borg'' (Inr None) sidecars_default
      (fst (snd (sql_run z_json id z_calls sq_start))) = Inr (records, summary)" using z_exports by blast
  obtain out where "collect_results (sink_line (nth_line records)) records = Inr out" using sink_lines[OF nth_lines] by blast
  then have "export_stream (nth_line records) z_json ''borg'' (Inr None) sidecars_default
      (fst (snd (sql_run z_json id z_calls sq_start))) = Inr (concat out, summary)" by (simp add: export_stream_def r)
  from restored_registry_reads_alike[OF z_run z_logged this r nth_lines z_survives(2), of "[(1, 9)]" "DefVersion 1"]
  show ?thesis by (simp add: small_id_def) blast
qed

text \<open>
  A failed import takes away a store that it made itself, and leaves alone one that holds a registry. In a
  store that was there and empty, what it had restored stays, and the next import is refused.
\<close>

lemma failed_import_leaves_no_store:
  "fst (import_stream dec c hash text None) = Inl err \<Longrightarrow> snd (import_stream dec c hash text None) = None"
  by (auto simp: import_stream_def split: sum.splits prod.splits)

lemma held_store_is_left_alone:
  assumes "from_connection False t = Inr s" "sq_read_layers c s = Inr layers" "sq_read_branches c s = Inr branches"
    "layers \<noteq> [] \<or> branches \<noteq> []"
  shows "import_stream dec c hash text (Some t) = (Inl AlreadyHolds, Some t)"
  using assms by (auto simp: import_stream_def restore_into_def from_store_def from_connection_def Let_def split: if_splits)

definition z_torn :: "stream_record list" where "z_torn = [RecHeader 1 ''borg'', RecBranch z_branch]"

lemma failed_import_spoils_an_empty_store:
  "\<exists>err t. import_stream (line_nth z_torn) z_json id (''x'' @ [CHR 0x0A] @ ''xx'' @ [CHR 0x0A] @ ''xxx'' @ [CHR 0x0A]) (Some no_rows) = (Inl err, Some t) \<and>
    (\<forall>dec text. import_stream dec z_json id text (Some t) = (Inl AlreadyHolds, Some t))"
proof -
  let ?t = "no_rows\<lparr>tb_branches := [(as_i64 1, ''main'')]\<rparr>"
  have r: "next_record (line_nth z_torn) 0 (''x'' @ [CHR 0x0A] @ ''xx'' @ [CHR 0x0A] @ ''xxx'' @ [CHR 0x0A]) =
      Inr (Some (RecHeader 1 ''borg'', Suc 0, ''xx'' @ [CHR 0x0A] @ ''xxx'' @ [CHR 0x0A]))"
    "next_record (line_nth z_torn) (Suc 0) (''xx'' @ [CHR 0x0A] @ ''xxx'' @ [CHR 0x0A]) =
      Inr (Some (RecBranch z_branch, Suc (Suc 0), ''xxx'' @ [CHR 0x0A]))"
    "\<exists>err. next_record (line_nth z_torn) (Suc (Suc 0)) (''xxx'' @ [CHR 0x0A]) = Inl err"
    using line_of_xs(2)[of 0] line_of_xs(2)[of "Suc 0"] line_of_xs(2)[of "Suc (Suc 0)"]
    by (simp_all add: next_record.simps read_line_def line_nth_def z_torn_def Let_def)
  then obtain err where err: "next_record (line_nth z_torn) (Suc (Suc 0)) (''xxx'' @ [CHR 0x0A]) = Inl err" by blast
  have put: "sq_put_branch z_json z_branch \<lparr>sq_tables = no_rows, sq_next_event = 1\<rparr> =
      (Inr (), \<lparr>sq_tables = ?t, sq_next_event = 1\<rparr>)"
    by (simp add: sq_put_branch_def z_json_def texts_of_def encode_text_def z_branch_def no_rows_def)
  have loop: "restore_loop (line_nth z_torn) z_json id (Suc 0) (''xx'' @ [CHR 0x0A] @ ''xxx'' @ [CHR 0x0A])
      (restoring_new, None, \<lparr>sq_tables = no_rows, sq_next_event = 1\<rparr>) =
      (Inl err, restoring_new\<lparr>rs_branches := 1\<rparr>, None, \<lparr>sq_tables = ?t, sq_next_event = 1\<rparr>)"
    by (subst restore_loop.simps, simp only: r(2)) (subst restore_loop.simps, simp add: put err[simplified] restoring_new_def)
  have start: "from_connection False no_rows = Inr \<lparr>sq_tables = no_rows, sq_next_event = 1\<rparr>"
    using start_opens by (simp add: sq_start_def)
  have torn: "import_stream (line_nth z_torn) z_json id (''x'' @ [CHR 0x0A] @ ''xx'' @ [CHR 0x0A] @ ''xxx'' @ [CHR 0x0A]) (Some no_rows) =
      (Inl err, Some ?t)"
    unfolding import_stream_def restore_into_def option.case start sum.case r(1) stream_record.case prod.case
    using loop by (simp add: from_store_def sq_read_layers_def sq_read_branches_def no_rows_def STREAM_VERSION_def)
  have "from_connection False ?t = Inr \<lparr>sq_tables = ?t, sq_next_event = 1\<rparr>"
    by (simp add: from_connection_def no_rows_def as_u64_def Let_def)
  moreover have "sq_read_layers z_json \<lparr>sq_tables = ?t, sq_next_event = 1\<rparr> = Inr []"
    by (simp add: sq_read_layers_def no_rows_def)
  moreover have "sq_read_branches z_json \<lparr>sq_tables = ?t, sq_next_event = 1\<rparr> = Inr [z_branch]"
    by (simp add: sq_read_branches_def z_json_def texts_of_def decode_text_def)
  ultimately have "import_stream dec z_json id str (Some ?t) = (Inl AlreadyHolds, Some ?t)" for dec str
    by (rule held_store_is_left_alone) simp
  with torn show ?thesis by blast
qed

end
