(* ===== verification/Spec2Isabelle.thy ===== *)
theory Spec2Isabelle
  imports Pid_Text Cell_Text Mem_Properties Projections Layer_Properties Merge_Properties
    Session_Properties Round_Examples Registry_Properties Framing_Properties Serve_Properties
    Push_Properties Export_Properties
begin

text \<open>
  \<^bold>\<open>Borg: the log, the branches, what is derived from them and who may ask\<close>

  \<^emph>\<open>The program.\<close> Borg is a database of cells. A cell is a field of an object, an element of a list, or the
  existence of an object; it is never overwritten. What is written are \<^emph>\<open>events\<close>, grouped into \<^emph>\<open>layers\<close>
  that are opened, filled, and committed or aborted as a whole; layers belong to \<^emph>\<open>branches\<close>, and a
  branch is forked from a layer of another one. A read resolves a cell through the branch's ancestry,
  the \<^emph>\<open>read path\<close>. Guards attached to a layer or a transaction detect conflicting writes, and merges
  carry a child's events to its parent by naming them. What may be written is declared by definition
  events, which travel in the same log: folding them along a read path gives the \<^emph>\<open>view\<close> that every
  write session is checked against. Producers recompute derived cells in \<^emph>\<open>rounds\<close>, waves of concurrent
  runs on a branch of their own that is merged at the end; a frontier, a poison table and a dependency
  index keep what is known about them, and the resolver says of every value how fresh it is. A store is
  opened as a registry; a server hosts the registries of a data directory, and a client reaches one with
  a connection url, a handshake and, where the server has issued keys, a credential.

  \<^emph>\<open>From the source to the theories\<close> (paths below \<^verbatim>\<open>src/crates\<close>).

  \<^item> \<open>Borg_Prelude\<close>: hash maps and ordered maps as association lists with distinct keys, the digits of
    decimal text, \<^verbatim>\<open>str::split_once\<close>, \<^verbatim>\<open>u64::from_str\<close>, and the order locale \<open>ordered_by_key\<close>.
  \<^item> \<open>Pids\<close>, \<open>Pid_Text\<close>: \<^verbatim>\<open>borg-core/src/ids.rs\<close>, \<^verbatim>\<open>pid.rs\<close>, \<^verbatim>\<open>content.rs\<close>. Persistent ids, their
    varint payload and base-32 text form.
  \<^item> \<open>BigInts\<close>: \<^verbatim>\<open>bigint.rs\<close>, decimal text to two's-complement bytes and back.
  \<^item> \<open>Cells\<close>: the data model of \<^verbatim>\<open>value.rs\<close>, \<^verbatim>\<open>cell.rs\<close>, \<^verbatim>\<open>layer.rs\<close>, \<^verbatim>\<open>freshness.rs\<close>, \<^verbatim>\<open>def.rs\<close>
    and \<^verbatim>\<open>error.rs\<close>.
  \<^item> \<open>Cell_Text\<close>: cell addresses, \<^verbatim>\<open>CellRef::fmt\<close> and \<^verbatim>\<open>parse::cell_ref\<close>.
  \<^item> \<open>Transactions\<close>: \<^verbatim>\<open>transaction.rs\<close>, the read sets of client transactions and of rounds.
  \<^item> \<open>Touch_Index\<close>: \<^verbatim>\<open>borg-engine/src/touch.rs\<close>, which layers wrote which cells.
  \<^item> \<open>Mem_Storage\<close>, \<open>Mem_Invariant\<close>, \<open>Mem_Contract\<close>, \<open>Mem_Properties\<close>: \<^verbatim>\<open>borg-storage/src/memory.rs\<close>, the
    in-memory storage provider.
  \<^item> \<open>Sqlite_Storage\<close>, \<open>Sqlite_Invariant\<close>: \<^verbatim>\<open>borg-storage-sqlite/src/lib.rs\<close>, the durable storage provider, and
    what its statements do to its tables.
  \<^item> \<open>Sqlite_Relation\<close>, \<open>Sqlite_Refinement\<close>, \<open>Sqlite_Calls\<close>, \<open>Sqlite_Agreement\<close>, \<open>Sqlite_Properties\<close>: the two
    providers side by side: the calls of the traits \<^verbatim>\<open>StorageProvider\<close> and \<^verbatim>\<open>OpenLayer\<close>, the relation
    between the state in memory and the tables, one lemma for every call that keeps it, and what both
    answer.
  \<^item> \<open>Derivation_State\<close>: \<^verbatim>\<open>FrontierTracker\<close> of \<^verbatim>\<open>resolve.rs\<close>, \<^verbatim>\<open>poison.rs\<close>, \<^verbatim>\<open>index.rs\<close> and the
    sequencer of \<^verbatim>\<open>seams.rs\<close>.
  \<^item> \<open>Projections\<close>: \<^verbatim>\<open>projection.rs\<close>, the indexes a commit feeds and their replay.
  \<^item> \<open>Layer_Log\<close>, \<open>Layer_Contract\<close>, \<open>Layer_Commit\<close>, \<open>Layer_Properties\<close>: \<^verbatim>\<open>log.rs\<close>, the layer manager.
  \<^item> \<open>Branch_Merge\<close>, \<open>Merge_Contract\<close>, \<open>Merge_Properties\<close>: \<^verbatim>\<open>branch.rs\<close>, forks and the three merges.
  \<^item> \<open>Def_View\<close>, \<open>Def_Properties\<close>, \<open>Def_Registry\<close>: \<^verbatim>\<open>defs.rs\<close>, the fold of definition events, write
    validation, migration paths and the registry of views.
  \<^item> \<open>Doubles\<close>, \<open>Value_Text\<close>: \<^verbatim>\<open>borg-core/src/parse.rs\<close>, value literals, with the standard library's
    \<^verbatim>\<open>f64\<close> text on the 64 bits of the value.
  \<^item> \<open>Write_Session\<close>, \<open>Session_Properties\<close>: \<^verbatim>\<open>write.rs\<close> and \<^verbatim>\<open>values.rs\<close>, the one validated write path.
  \<^item> \<open>Resolver\<close>, \<open>Resolver_Properties\<close>: \<^verbatim>\<open>resolve.rs\<close>, reads with their envelope, and explain.
  \<^item> \<open>Producer_Run\<close>: the \<^verbatim>\<open>borg-exec\<close> seam, and one run of a producer in \<^verbatim>\<open>derive.rs\<close>, step by step.
  \<^item> \<open>Derive\<close>, \<open>Settle\<close>, \<open>Derive_Properties\<close>, \<open>Round_Isolation\<close>, \<open>Inline_Properties\<close>, \<open>Round_Examples\<close>: the
    rest of \<^verbatim>\<open>derive.rs\<close>: recovery, scheduling, concurrent waves, rounds, and computing one cell now.
  \<^item> \<open>Registry\<close>, \<open>Registry_Properties\<close>: \<^verbatim>\<open>registry.rs\<close>, opening a store and asking about it.
  \<^item> \<open>Std_Text\<close>: splitting, trimming and UTF-8 of the standard library, for the theories that follow.
  \<^item> \<open>Connection_Url\<close>, \<open>Url_Properties\<close>: \<^verbatim>\<open>borg-protocol/src/url.rs\<close>, connection urls and their credentials.
  \<^item> \<open>Framing\<close>, \<open>Framing_Properties\<close>: \<^verbatim>\<open>borg-protocol/src/lib.rs\<close>, codecs and messages on a byte stream.
  \<^item> \<open>Keys\<close>, \<open>Keys_Properties\<close>: \<^verbatim>\<open>borg-host/src/keys.rs\<close>, api keys, scopes and who gets in.
  \<^item> \<open>Host\<close>, \<open>Host_Properties\<close>: \<^verbatim>\<open>borg-host/src/host.rs\<close> and \<^verbatim>\<open>serving.rs\<close>, the hosted registries, routing
    within a scope and the record of who serves a store.
  \<^item> \<open>Serve\<close>, \<open>Serve_Properties\<close>: \<^verbatim>\<open>borg-server/src/serve.rs\<close> and the messages of
    \<^verbatim>\<open>borg-protocol/src/client.rs\<close>: the handshake, dispatch and the loop of one connection.
  \<^item> \<open>Ops_State\<close>, \<open>Ops\<close>: the operations of \<^verbatim>\<open>borg-host/src/ops.rs\<close> on a held registry (its engine, the tables
    beside its store and its worker pool), put together by the combinators of \<open>Ops_State\<close>: reads, transactions
    from begin to commit, allocation, derivation after a commit, \<^verbatim>\<open>repo_push\<close>, creating and holding a store.
  \<^item> \<open>Answer\<close>: \<^verbatim>\<open>answer\<close> of \<^verbatim>\<open>serve.rs\<close> with \<^verbatim>\<open>render.rs\<close>, what one registry answers a request, and the machine
    of a server that hosts such registries.
  \<^item> \<open>Sidecars\<close>: \<^verbatim>\<open>borg-host/src/sidecar.rs\<close> and the tables of \<^verbatim>\<open>ops.rs\<close>: implementations, transactions, ids,
    pause flags, with the names and durations that commands write.
  \<^item> \<open>Push\<close>, \<open>Push_Intents\<close>, \<open>Push_Properties\<close>: \<^verbatim>\<open>borg-host/src/push.rs\<close>, what a script describes
    (\<^verbatim>\<open>borg-protocol/src/lib.rs\<close>) and the diff of a repository against the definitions in force; the intents that a
    push performs.
  \<^item> \<open>Export_Stream\<close>, \<open>Export_Rows\<close>, \<open>Export_Import\<close>, \<open>Export_Blocks\<close>, \<open>Export_Properties\<close>:
    \<^verbatim>\<open>borg-host/src/stream.rs\<close>, export and import of a registry: rows and lines that are read back, the copy
    that an import builds layer by layer, followed on the provider in memory, and what is exported of it.

  \<^emph>\<open>Conventions.\<close> A struct is a record and an enum a datatype with the source's constructors; the 64-bit
  ids are \<open>64 word\<close>, so their arithmetic wraps where the source's would panic, and the places where it
  panics are branches of their own. A method that changes its receiver returns its result and the next
  state. \<^verbatim>\<open>Result<T>\<close> is \<open>borg_error + 'a\<close>; the error \<open>RustPanic\<close>, which the source does not have, is the
  value of a step at which the program would panic (an overflow, an index out of range) or would not
  return. A message that the source formats is a constructor with its arguments (\<open>storage_error\<close>).
  Locks are held for a whole method in the source, so a method is one step; interleavings are the
  sequences of the step relations \<open>mem_step\<close> and \<open>mg_step\<close>, on which the invariants are proved by rule
  induction. The one operation that \<open>mem_step\<close> restricts is the adoption of an event under an identity of its
  own choosing, which has to be new: the source does not check it.

  \<^emph>\<open>Termination.\<close> Loops over data are structural recursion or have a measure: the worklist of \<open>cascade\<close>
  removes a consumer or pops a layer at each turn. Five loops of the source may run forever and are
  \<open>partial_function\<close>s: \<open>read_path_loop\<close> (a cyclic ancestry), \<open>next_branch_loop\<close> (no unused id),
  \<open>validate_loop\<close> (lineage; it is proved to return), \<open>settle_loop\<close> (producers that keep finding new inputs;
  it is proved to return when they do not) and \<open>refresh_all\<close>. No fuel is used anywhere.

  One kind of non-termination is outside: producer code is a finite tree of calls, so a run returns. The source
  sets a run no limit of time, and a producer that hangs keeps its round from settling.

  \<^emph>\<open>Concurrency.\<close> The runs of a wave are tasks of the source's runtime. A run is cut at its await points
  into steps, and a schedule, a list of task indices for each wave, says who steps next; every
  statement about rounds holds for all schedules. A schedule that ends early is completed task by task.

  \<^emph>\<open>Parameters.\<close> The content hash (SHA-256, of a crate outside the repository) is an argument of
  \<open>content_pid\<close> and \<open>intern\<close>; nothing is assumed of it, except where a statement says that a value's hash
  collides with no other. Producer code is an \<open>executor\<close>, a function from producer, version and input to
  the tree of calls the code makes; the order in which a hash set is iterated is an argument (\<open>pick\<close>) that
  lists elements of the set; the text of an error recorded with a poisoning is an argument (\<open>say\<close>); the
  resolver takes inline computation as an argument, as the source does, and \<open>engine_resolve\<close> gives it the
  engine's. On the wire, serde is an argument (\<open>encode\<close>, \<open>decode\<close>); in the tables it is the record
  \<open>json_texts\<close>, a writer and a reader for every stored type, and a statement that needs a value to survive
  its text says so of that value (\<open>survives\<close>). Around a session, the record \<open>machine\<close>
  holds what opening, creating and importing a store do, what a registry answers and what the disk says;
  \<open>registry_machine\<close> fills in opening, creating and answering from the record \<open>op_machine\<close>: the code behind
  registered commands, the clock, the disk's answer to each write of a table, and the files of repositories.
  Randomness and the clock are arguments of the operations on keys. For a push, \<open>push_machine\<close> holds the bytes of
  a file, what a path resolves to and the hash of its content; what a script prints is an argument. In a
  stream, the JSON of a record is an argument.

  \<^emph>\<open>Interfaces.\<close> \<open>text_codec\<close> (a text form that loses nothing and a parser whose values are renderable) is
  interpreted for PIDs, big integers and cell addresses; \<open>stands_in\<close>, one provider for another, for SQLite in
  place of memory; \<open>append_only\<close> for events, memberships and interned
  values of the provider; \<open>poison_provider\<close> for the poison table; \<open>projection\<close> for every member of the
  projection set; \<open>ordered_by_key\<close> for the two derived orders on cells.

  \<^emph>\<open>What is shown.\<close> Text forms round-trip and are canonical. A read of the provider is what layer
  membership says; open layers are invisible, the log is append-only as long as adopted events bring new
  identities, ids are not reissued and a
  rebuilt index answers as the live one. The SQLite provider accepts what the one in memory accepts, with
  the same answers, and reads alike, however its buffers were flushed; its index is a projection at every
  moment; ids that fit the signed column are not reissued by a process that opens the store again. Guards find exactly the conflicting writes; a rejected commit
  leaves no trace; a head is its branch's highest committed layer. Transactions guard what they read
  before writing; a round drops exactly what consumed a failed layer. Indexes fed live and indexes
  rebuilt agree. The definition fold refines an update of a field map; a write is accepted when the history of definition
  events makes it legal; a session drafts only events
  that its view and the branch's allow, and what it commits reads back. Validation computes the
  watermark that the lineage supports and always returns; envelopes never claim more than was asked, and a value
  called current has no input that moved, in its whole lineage.
  Waves never run an invocation more than eight times, so rounds over finitely many invocations
  whose runs return settle; what runs of a wave do stays on the round's branch in every interleaving, and a settled
  round lets its waiters through. A store that is reopened gives back the log that was closed. An opaque
  credential of a url reaches its field and no message; who gets in is what a ledger of the issued keys
  says; a connection that exports and imports nothing sees nothing outside the scope of its credential; a hosted store is refused to
  every other command while its server is up; messages keep their boundaries on a stream.

  \<^emph>\<open>Not modelled.\<close> The notification seams, which carry no payload, and the waiting of \<^verbatim>\<open>reaches\<close> (its
  condition is \<open>has_reached\<close>); failures of the database other than a violated key; the executors that implement the seam; a poison
  table that cannot be written, and the operations of a command that opens the store for itself (\<^verbatim>\<open>ops.rs\<close>);
  sockets, threads, signals and the life cycle of the server process; the command line.
\<close>

end
